(* ===== verification/Prelude.thy ===== *)
theory Prelude
  imports Main "HOL-Library.Monad_Syntax" "HOL-Library.Word" "HOL-Library.Tree" "HOL-Library.Multiset"
    "HOL-Library.While_Combinator"
begin

text \<open>
  Shared vocabulary of the development.

  \<^item> Pointers are natural numbers, \<open>NULL\<close> is \<open>0\<close>.
  \<^item> A C routine that may fault (dereference a dead or null pointer) or that may loop
    for ever is a function into \<open>option\<close>: \<open>None\<close> means "faults or does not return".
    Routines are composed with the \<open>do\<close> notation of \<open>Option.bind\<close>.
  \<^item> Facts that the component theories share: closed forms for bind, updates of maps,
    counting the cells of a finite map.
\<close>

type_synonym ptr = nat

abbreviation NULL :: ptr where "NULL \<equiv> 0"

text \<open>Pointers are compared with NULL, not ordered: keep \<open>p \<noteq> NULL\<close> as it is.\<close>

declare neq0_conv [iff del]

named_theorems obs \<open>what an observer sees after a store update\<close>
named_theorems heap_defs \<open>definitions of the heap operations, for symbolic execution\<close>

text \<open>The outcome of \<open>GlobalLock(GlobalAlloc(...))\<close>: no memory, memory that cannot be
  locked, or a handle and the address of the memory.\<close>

datatype galloc_result = GAllocFailed | GLockFailed | GMem nat ptr

subsection \<open>Options and maps\<close>

lemma bind_Some_iff [simp]:
  "(Option.bind m f = Some y) = (\<exists>x. m = Some x \<and> f x = Some y)"
  by (cases m) auto

lemma bind_None_iff:
  "(Option.bind m f = None) = (m = None \<or> (\<exists>x. m = Some x \<and> f x = None))"
  by (cases m) auto

lemma fun_upd_same_None: "m x = None \<Longrightarrow> m(x := None) = m"
  by auto

lemma dom_eq_None: "dom m = S \<Longrightarrow> x \<notin> S \<Longrightarrow> m x = None"
  by blast

lemma dom_eq_Some: "dom m = S \<Longrightarrow> x \<in> S \<Longrightarrow> \<exists>y. m x = Some y"
  by blast

subsection \<open>Lists\<close>

lemma last_Cons_in: "last (x # xs) \<in> insert x (set xs)"
  using last_in_set [of "x # xs"] by simp

lemma hd_append_in: "hd (xs @ [y]) \<in> insert y (set xs)"
  by (cases xs) auto

lemma in_set_splitE:
  assumes "x \<in> set xs"
  obtains ys zs where "xs = ys @ x # zs"
  using assms by (meson split_list)

subsection \<open>Rounding up\<close>

lemma round_up_ge: "(n::nat) \<le> (n + 3) div 4 * 4"
  by presburger

lemma round_up_dvd: "4 dvd (n + 3) div 4 * (4::nat)"
  by simp

end
