(* ===== verification/Gutils_Utils.thy ===== *)
theory Gutils_Utils
  imports Prelude "HOL-Library.List_Lexorder"
begin

text \<open>
  Model of the string and checksum routines of \<open>windiff/gutils/utils.c\<close>
  (\<open>hash_string\<close>, \<open>utils_isblank\<close>, \<open>utils_CompPath\<close>, \<open>checksum_file\<close>) and of
  \<open>My_mbschr\<close> from \<open>windiff/windiff/windiff.c\<close>.

  \<^item> A \<open>char *\<close> is the list of the bytes from it to the end of the memory that may be
    read; reading beyond is a fault (\<open>None\<close>).  The terminating NUL is one of the bytes.
    \<open>char\<close> is signed: it is widened with \<open>scast\<close>, and \<open>sint\<close> is its value.
  \<^item> \<open>IsDBCSLeadByte\<close> and \<open>CharNext\<close> are the system's; they are the parameters
    \<open>lead\<close> and \<open>charnext\<close>.
  \<^item> \<open>checksum_file\<close> sees the file through the results of its system calls, which are
    the parameter \<open>io\<close>.
\<close>

declare neq0_conv [iff del]

type_synonym byte = "8 word"
type_synonym cstring = "byte list"

subsection \<open>Blanks and hash codes\<close>

definition IS_BLANK :: "byte \<Rightarrow> bool" where
  "IS_BLANK c \<longleftrightarrow> c = 32 \<or> c = 9 \<or> c = 13"

text \<open>\<open>while (IS_BLANK( *string)) string++;\<close>\<close>

fun skip_blanks :: "cstring \<Rightarrow> cstring option" where
  "skip_blanks [] = None"
| "skip_blanks (c # cs) = (if IS_BLANK c then skip_blanks cs else Some (c # cs))"

lemma skip_blanks_length: "skip_blanks s = Some t \<Longrightarrow> length t \<le> length s"
  by (induction s rule: skip_blanks.induct) (auto split: if_splits)

definition LARGENUMBER :: "32 word" where "LARGENUMBER = 6293815"

function hash_loop :: "bool \<Rightarrow> 32 word \<Rightarrow> 32 word \<Rightarrow> 32 word \<Rightarrow> cstring \<Rightarrow> 32 word option" where
  "hash_loop ign acc multiple index str = (case str of
       [] \<Rightarrow> None
     | c # cs \<Rightarrow>
        if c = 0 then Some acc
        else (case (if ign then skip_blanks (c # cs) else Some (c # cs)) of
            None \<Rightarrow> None
          | Some [] \<Rightarrow> None
          | Some (d # ds) \<Rightarrow>
              hash_loop ign (acc + multiple * index * scast d) (multiple * LARGENUMBER) (index + 1) ds))"
  by pat_completeness auto
termination
  by (relation "measure (\<lambda>(ign, acc, m, i, s). length s)")
     (auto split: if_splits dest!: skip_blanks_length)

declare hash_loop.simps [simp del]

definition hash_string :: "cstring \<Rightarrow> bool \<Rightarrow> 32 word option" where
  "hash_string str bIgnoreBlanks = hash_loop bIgnoreBlanks 0 LARGENUMBER 1 str"

definition utils_isblank :: "cstring \<Rightarrow> bool option" where
  "utils_isblank str = do {
     s \<leftarrow> skip_blanks str;
     case s of [] \<Rightarrow> None | c # _ \<Rightarrow> Some (c = 0 \<or> c = 10)
   }"

text \<open>What they compute: the hash is a position-weighted sum over the characters that count.\<close>

definition shown :: "bool \<Rightarrow> cstring \<Rightarrow> cstring" where
  "shown ign s = (if ign then filter (\<lambda>c. \<not> IS_BLANK c) s else s)"

fun hash_sum :: "nat \<Rightarrow> cstring \<Rightarrow> 32 word" where
  "hash_sum i [] = 0"
| "hash_sum i (c # cs) = LARGENUMBER ^ (i + 1) * of_nat (i + 1) * scast c + hash_sum (i + 1) cs"

text \<open>A text as \<open>line.c\<close> builds it: no NUL inside, and not ending in a blank.\<close>

definition solid :: "cstring \<Rightarrow> bool" where
  "solid s \<longleftrightarrow> 0 \<notin> set s \<and> (s \<noteq> [] \<longrightarrow> \<not> IS_BLANK (last s))"

lemma solid_Cons: "solid (c # cs) \<Longrightarrow> solid cs"
  by (cases cs) (auto simp: solid_def)

lemma not_blank_0 [simp]: "\<not> IS_BLANK 0" and not_blank_10 [simp]: "\<not> IS_BLANK 10"
  by (simp_all add: IS_BLANK_def)

lemma skip_blanks_solid:
  assumes "solid s" "s \<noteq> []"
  obtains b d ds where "skip_blanks (s @ 0 # r) = Some (d # ds @ 0 # r)" "s = b @ d # ds" "\<forall>x \<in> set b. IS_BLANK x"
    "\<not> IS_BLANK d" "solid ds"
  using assms
proof (induction s arbitrary: thesis)
  case Nil
  then show ?case by simp
next
  case (Cons c cs)
  show ?case
  proof (cases "IS_BLANK c")
    case True
    then have ne: "cs \<noteq> []" using Cons.prems(2) by (auto simp: solid_def)
    from Cons.IH [OF _ solid_Cons [OF Cons.prems(2)] ne] obtain b d ds where
      "skip_blanks (cs @ 0 # r) = Some (d # ds @ 0 # r)" "cs = b @ d # ds" "\<forall>x \<in> set b. IS_BLANK x"
      "\<not> IS_BLANK d" "solid ds" by blast
    then show ?thesis using True by (intro Cons.prems(1) [of d ds "c # b"]) auto
  next
    case False
    then show ?thesis using Cons.prems solid_Cons by (intro Cons.prems(1) [of c cs "[]"]) auto
  qed
qed

text \<open>The first character that counts.\<close>

lemma first_shown:
  assumes "solid s" "s \<noteq> []"
  obtains b d ds where "(if ign then skip_blanks (s @ 0 # r) else Some (s @ 0 # r)) = Some (d # ds @ 0 # r)"
    "s = b @ d # ds" "shown ign s = d # shown ign ds" "solid ds"
proof (cases ign)
  case True
  obtain b d ds where "skip_blanks (s @ 0 # r) = Some (d # ds @ 0 # r)" "s = b @ d # ds" "\<forall>x \<in> set b. IS_BLANK x"
    "\<not> IS_BLANK d" "solid ds" by (rule skip_blanks_solid [OF assms, of r])
  moreover from this have "filter (\<lambda>c. \<not> IS_BLANK c) s = d # filter (\<lambda>c. \<not> IS_BLANK c) ds" by simp
  ultimately show thesis using True that [of d ds b] by (simp add: shown_def)
next
  case False
  obtain c cs where "s = c # cs" using assms(2) by (cases s) auto
  then show thesis using False assms(1) solid_Cons by (intro that [of c cs "[]"]) (auto simp: shown_def)
qed

lemma hash_loop_step:
  assumes "c \<noteq> 0" "(if ign then skip_blanks (c # cs) else Some (c # cs)) = Some (d # ds)"
  shows "hash_loop ign acc m i (c # cs) = hash_loop ign (acc + m * i * scast d) (m * LARGENUMBER) (i + 1) ds"
  using assms by (subst hash_loop.simps) simp

lemma hash_loop_sum:
  assumes "solid s"
  shows "hash_loop ign acc (LARGENUMBER ^ (i + 1)) (of_nat (i + 1)) (s @ 0 # r) = Some (acc + hash_sum i (shown ign s))"
  using assms
proof (induction "length s" arbitrary: s acc i rule: less_induct)
  case less
  show ?case
  proof (cases s)
    case Nil
    then show ?thesis by (subst hash_loop.simps) (simp add: shown_def)
  next
    case (Cons c cs)
    have ne: "s \<noteq> []" using Cons by simp
    obtain b d ds where D: "(if ign then skip_blanks (s @ 0 # r) else Some (s @ 0 # r)) = Some (d # ds @ 0 # r)"
      "s = b @ d # ds" "shown ign s = d # shown ign ds" "solid ds" by (rule first_shown [OF less.prems ne])
    have c0: "c \<noteq> 0" using less.prems Cons by (simp add: solid_def)
    have sh: "length ds < length s" using D(2) by simp
    have "hash_loop ign acc (LARGENUMBER ^ (i + 1)) (of_nat (i + 1)) (c # cs @ 0 # r) =
        hash_loop ign (acc + LARGENUMBER ^ (i + 1) * of_nat (i + 1) * scast d) (LARGENUMBER ^ (i + 1) * LARGENUMBER) (of_nat (i + 1) + 1) (ds @ 0 # r)"
      by (rule hash_loop_step [OF c0]) (use D(1) Cons in \<open>simp only: append_Cons\<close>)
    moreover have "LARGENUMBER ^ (i + 1) * LARGENUMBER = LARGENUMBER ^ (i + 1 + 1)"
      "of_nat (i + 1) + 1 = (of_nat (i + 1 + 1) :: 32 word)" by (simp_all add: mult.commute)
    ultimately have E: "hash_loop ign acc (LARGENUMBER ^ (i + 1)) (of_nat (i + 1)) (s @ 0 # r) =
        hash_loop ign (acc + LARGENUMBER ^ (i + 1) * of_nat (i + 1) * scast d) (LARGENUMBER ^ (i + 1 + 1)) (of_nat (i + 1 + 1)) (ds @ 0 # r)"
      unfolding Cons by (simp only: append_Cons)
    show ?thesis unfolding E less.hyps [OF sh D(4)] D(3) hash_sum.simps by (simp only: add.assoc)
  qed
qed

lemma hash_string_spec: "solid s \<Longrightarrow> hash_string (s @ 0 # r) ign = Some (hash_sum 0 (shown ign s))"
  using hash_loop_sum [of s ign 0 0 r] by (simp add: hash_string_def)

lemma utils_isblank_spec:
  assumes "0 \<notin> set s"
  shows "utils_isblank (s @ 0 # r) = Some (\<exists>b t. s = b @ t \<and> (\<forall>x \<in> set b. IS_BLANK x) \<and> (t = [] \<or> hd t = 10))"
  using assms
proof (induction s)
  case Nil
  then show ?case by (simp add: utils_isblank_def)
next
  case (Cons c cs)
  show ?case
  proof (cases "IS_BLANK c")
    case True
    then have "utils_isblank ((c # cs) @ 0 # r) = utils_isblank (cs @ 0 # r)" by (simp add: utils_isblank_def)
    moreover have "(\<exists>b t. c # cs = b @ t \<and> (\<forall>x \<in> set b. IS_BLANK x) \<and> (t = [] \<or> hd t = 10)) \<longleftrightarrow>
      (\<exists>b t. cs = b @ t \<and> (\<forall>x \<in> set b. IS_BLANK x) \<and> (t = [] \<or> hd t = 10))" (is "?l \<longleftrightarrow> ?r")
    proof
      assume ?l
      then obtain b t where b: "c # cs = b @ t" "\<forall>x \<in> set b. IS_BLANK x" "t = [] \<or> hd t = 10" by blast
      have "b \<noteq> []" using b True by (cases b) (auto simp: IS_BLANK_def)
      with b show ?r by (cases b) auto
    next
      assume ?r
      then obtain b t where "cs = b @ t" "\<forall>x \<in> set b. IS_BLANK x" "t = [] \<or> hd t = 10" by blast
      with True show ?l by (intro exI [of _ "c # b"] exI [of _ t]) auto
    qed
    ultimately show ?thesis using Cons by simp
  next
    case False
    have "(\<exists>b t. c # cs = b @ t \<and> (\<forall>x \<in> set b. IS_BLANK x) \<and> (t = [] \<or> hd t = 10)) \<longleftrightarrow> c = 10" (is "?l \<longleftrightarrow> _")
    proof
      assume ?l
      then show "c = 10" using False by (auto simp: Cons_eq_append_conv)
    next
      assume "c = 10"
      then show ?l by (intro exI [of _ "[]"] exI [of _ "c # cs"]) simp
    qed
    then show ?thesis using False Cons.prems by (auto simp: utils_isblank_def)
  qed
qed

subsection \<open>Comparing path names\<close>

partial_function (option) My_mbschr :: "(cstring \<Rightarrow> cstring) \<Rightarrow> byte \<Rightarrow> cstring \<Rightarrow> cstring option option" where
  "My_mbschr charnext sep psz = (case psz of
       [] \<Rightarrow> None
     | c # _ \<Rightarrow> if c \<noteq> 0 \<and> c \<noteq> sep then My_mbschr charnext sep (charnext psz)
                else Some (if c = sep then Some psz else None))"

text \<open>The loop of \<open>utils_CompPath\<close>: it returns (\<open>Inl\<close>) or breaks with \<open>compval\<close>
  and the two pointers.\<close>

fun comp_loop :: "(byte \<Rightarrow> bool) \<Rightarrow> cstring \<Rightarrow> cstring \<Rightarrow> (int + int \<times> cstring \<times> cstring) option" where
  "comp_loop lead (l # ls) (r # rs) =
     (if l = 0 \<and> r = 0 then Some (Inl 0)
      else if l = 0 then Some (Inl (-1))
      else if r = 0 then Some (Inl 1)
      else if lead l \<or> lead r then
        (if r \<noteq> l then Some (Inr (sint l - sint r, l # ls, r # rs))
         else (case (ls, rs) of
             (l2 # ls2, r2 # rs2) \<Rightarrow>
                if r2 \<noteq> l2 then Some (Inr (sint l2 - sint r2, ls, rs)) else comp_loop lead ls2 rs2
           | _ \<Rightarrow> None))
      else if r = l then comp_loop lead ls rs
      else if l = 92 then Some (Inr (-1, l # ls, r # rs))
      else if r = 92 then Some (Inr (1, l # ls, r # rs))
      else Some (Inr (sint l - sint r, l # ls, r # rs)))"
| "comp_loop lead _ _ = None"

definition utils_CompPath :: "(byte \<Rightarrow> bool) \<Rightarrow> (cstring \<Rightarrow> cstring) \<Rightarrow> cstring option \<Rightarrow> cstring option \<Rightarrow> int option" where
  "utils_CompPath lead charnext lft rgt = (case (lft, rgt) of
       (None, _) \<Rightarrow> Some (-1)
     | (_, None) \<Rightarrow> Some 1
     | (Some l, Some r) \<Rightarrow> do {
         x \<leftarrow> comp_loop lead l r;
         case x of
           Inl v \<Rightarrow> Some v
         | Inr (compval, l, r) \<Rightarrow> do {
             l \<leftarrow> My_mbschr charnext 92 l;
             r \<leftarrow> My_mbschr charnext 92 r;
             if l \<noteq> None \<and> r = None then Some 1
             else if r \<noteq> None \<and> l = None then Some (-1)
             else Some compval
           }
       })"

text \<open>The order meant: paths are sequences of directory names and one file name; files come
  before directories, names compare by character.\<close>

datatype pathelem = File "int list" | Dir "int list"

instantiation pathelem :: linorder
begin

fun less_pathelem :: "pathelem \<Rightarrow> pathelem \<Rightarrow> bool" where
  "less_pathelem (File x) (File y) \<longleftrightarrow> x < y"
| "less_pathelem (File x) (Dir y) \<longleftrightarrow> True"
| "less_pathelem (Dir x) (File y) \<longleftrightarrow> False"
| "less_pathelem (Dir x) (Dir y) \<longleftrightarrow> x < y"

definition less_eq_pathelem :: "pathelem \<Rightarrow> pathelem \<Rightarrow> bool" where
  "less_eq_pathelem a b \<longleftrightarrow> a = b \<or> a < b"

instance
proof
  fix a b c :: pathelem
  show "a < b \<longleftrightarrow> a \<le> b \<and> \<not> b \<le> a" by (cases a; cases b) (auto simp: less_eq_pathelem_def)
  show "a \<le> a" by (simp add: less_eq_pathelem_def)
  show "a \<le> b \<Longrightarrow> b \<le> c \<Longrightarrow> a \<le> c" by (cases a; cases b; cases c) (auto simp: less_eq_pathelem_def)
  show "a \<le> b \<Longrightarrow> b \<le> a \<Longrightarrow> a = b" by (cases a; cases b) (auto simp: less_eq_pathelem_def)
  show "a \<le> b \<or> b \<le> a" by (cases a; cases b) (auto simp: less_eq_pathelem_def)
qed

end

fun add_char :: "int \<Rightarrow> pathelem list \<Rightarrow> pathelem list" where
  "add_char c (File w # ks) = File (c # w) # ks"
| "add_char c (Dir w # ks) = Dir (c # w) # ks"
| "add_char c [] = []"

fun path_key :: "cstring \<Rightarrow> pathelem list" where
  "path_key [] = [File []]"
| "path_key (c # cs) = (if c = 92 then Dir [] # path_key cs else add_char (sint c) (path_key cs))"

lemma path_key_ne [simp]: "path_key s \<noteq> []"
proof (induction s)
  case (Cons c cs)
  then show ?case by (cases "path_key cs" rule: list.exhaust; cases "hd (path_key cs)") auto
qed simp

lemma path_key_hd:
  "hd (path_key s) = (if 92 \<in> set s then Dir (map sint (takeWhile (\<lambda>c. c \<noteq> 92) s)) else File (map sint s))"
proof (induction s)
  case (Cons c cs)
  obtain e ks where "path_key cs = e # ks" using path_key_ne by (cases "path_key cs") auto
  with Cons show ?case by (cases e) auto
qed simp

lemma add_char_less: "a \<noteq> [] \<Longrightarrow> b \<noteq> [] \<Longrightarrow> add_char c a < add_char c b \<longleftrightarrow> a < b"
  by (cases "(c, a)" rule: add_char.cases; cases "(c, b)" rule: add_char.cases) auto

lemma add_char_eq: "a \<noteq> [] \<Longrightarrow> b \<noteq> [] \<Longrightarrow> add_char c a = add_char c b \<longleftrightarrow> a = b"
  by (cases "(c, a)" rule: add_char.cases; cases "(c, b)" rule: add_char.cases) auto

lemma path_key_Cons:
  "path_key (c # a) < path_key (c # b) \<longleftrightarrow> path_key a < path_key b"
  "path_key (c # a) = path_key (c # b) \<longleftrightarrow> path_key a = path_key b"
  by (simp_all add: add_char_less add_char_eq)

lemma path_key_append: "path_key (p @ a) < path_key (p @ b) \<longleftrightarrow> path_key a < path_key b"
  by (induction p) (simp_all only: append_Nil append_Cons path_key_Cons)

lemma less_by_hd:
  fixes a b :: "pathelem list"
  shows "hd a < hd b \<Longrightarrow> a \<noteq> [] \<Longrightarrow> b \<noteq> [] \<Longrightarrow> a < b"
  by (cases a; cases b) auto

text \<open>What the comparison at the first difference decides.\<close>

definition verdict :: "cstring \<Rightarrow> cstring \<Rightarrow> int \<Rightarrow> bool" where
  "verdict a b v \<longleftrightarrow> (v < 0 \<longleftrightarrow> path_key a < path_key b) \<and> (0 < v \<longleftrightarrow> path_key b < path_key a)"

lemma verdictI: "v < 0 \<and> path_key a < path_key b \<or> 0 < v \<and> path_key b < path_key a \<Longrightarrow> verdict a b v"
  by (auto simp: verdict_def)

lemma sint_less_iff: "sint (c :: byte) < sint d \<or> sint d < sint c \<longleftrightarrow> c \<noteq> d"
  by (metis linorder_less_linear order_less_irrefl signed_word_eqI)

lemma verdict_diff:
  assumes "c \<noteq> d"
  shows "verdict (c # cs) (d # ds) (if 92 \<in> set (c # cs) \<and> 92 \<notin> set (d # ds) then 1
    else if 92 \<in> set (d # ds) \<and> 92 \<notin> set (c # cs) then -1
    else if c = 92 then -1 else if d = 92 then 1 else sint c - sint d)"
proof -
  have s: "sint c < sint d \<or> sint d < sint c" using assms sint_less_iff by blast
  show ?thesis
    by (rule verdictI, cases "sint c < sint d")
       (use assms s in \<open>auto simp: path_key_hd simp del: path_key.simps intro!: less_by_hd\<close>)
qed

definition charnext_ok :: "(byte \<Rightarrow> bool) \<Rightarrow> (cstring \<Rightarrow> cstring) \<Rightarrow> bool" where
  "charnext_ok lead charnext \<longleftrightarrow>
     (\<forall>c cs. c \<noteq> 0 \<longrightarrow> \<not> lead c \<longrightarrow> charnext (c # cs) = cs) \<and>
     (\<forall>c d cs. lead c \<longrightarrow> d \<noteq> 0 \<longrightarrow> charnext (c # d # cs) = cs)"

text \<open>A text in a single-byte code: no NUL, no lead byte.\<close>

definition single :: "(byte \<Rightarrow> bool) \<Rightarrow> cstring \<Rightarrow> bool" where
  "single lead s \<longleftrightarrow> (\<forall>c \<in> set s. c \<noteq> 0 \<and> \<not> lead c)"

lemma My_mbschr_single:
  assumes "charnext_ok lead charnext" "single lead s" "sep \<noteq> 0"
  shows "\<exists>q. My_mbschr charnext sep (s @ 0 # r) = Some q \<and> (q \<noteq> None \<longleftrightarrow> sep \<in> set s)"
  using assms(2)
proof (induction s)
  case Nil
  then show ?case using assms(3) by (subst My_mbschr.simps) simp
next
  case (Cons c cs)
  then have c: "c \<noteq> 0" "\<not> lead c" "single lead cs" by (auto simp: single_def)
  have "charnext (c # cs @ 0 # r) = cs @ 0 # r" using assms(1) c unfolding charnext_ok_def by blast
  with Cons.IH [OF c(3)] c show ?case by (subst My_mbschr.simps) auto
qed

lemma comp_loop_single:
  assumes "single lead a" "single lead b" "\<not> lead 0"
  shows "(\<exists>v. comp_loop lead (a @ 0 # ra) (b @ 0 # rb) = Some (Inl v) \<and> verdict a b v \<and> (v = 0 \<longleftrightarrow> a = b)) \<or>
    (\<exists>p c cs d ds. a = p @ c # cs \<and> b = p @ d # ds \<and> c \<noteq> d \<and>
       comp_loop lead (a @ 0 # ra) (b @ 0 # rb) = Some (Inr (if c = 92 then -1 else if d = 92 then 1 else sint c - sint d,
         (c # cs) @ 0 # ra, (d # ds) @ 0 # rb)))"
  using assms(1,2)
proof (induction a arbitrary: b)
  case Nil
  show ?case
  proof (cases b)
    case Nil
    then show ?thesis by (intro disjI1 exI [of _ 0]) (simp add: verdict_def)
  next
    case (Cons d ds)
    then have "d \<noteq> 0" using Nil.prems(2) by (simp add: single_def)
    moreover have "path_key [] < path_key (d # ds)" by (rule less_by_hd) (auto simp: path_key_hd simp del: path_key.simps)
    ultimately show ?thesis using Cons by (intro disjI1 exI [of _ "-1"]) (auto intro!: verdictI)
  qed
next
  case (Cons c cs)
  have c: "c \<noteq> 0" "\<not> lead c" "single lead cs" using Cons.prems(1) by (auto simp: single_def)
  show ?case
  proof (cases b)
    case Nil
    moreover have "path_key [] < path_key (c # cs)" by (rule less_by_hd) (auto simp: path_key_hd simp del: path_key.simps)
    ultimately show ?thesis using c by (intro disjI1 exI [of _ 1]) (auto intro!: verdictI)
  next
    case b: (Cons d ds)
    have d: "d \<noteq> 0" "\<not> lead d" "single lead ds" using Cons.prems(2) b by (auto simp: single_def)
    show ?thesis
    proof (cases "c = d")
      case False
      then have "a = [] @ a" for a :: cstring by simp
      show ?thesis
        by (rule disjI2, rule exI [of _ "[]"], rule exI [of _ c], rule exI [of _ cs], rule exI [of _ d], rule exI [of _ ds])
           (use False b c d in auto)
    next
      case True
      have step: "comp_loop lead ((c # cs) @ 0 # ra) (b @ 0 # rb) = comp_loop lead (cs @ 0 # ra) (ds @ 0 # rb)"
        using True b c d by simp
      have V: "verdict (c # cs) (c # ds) v = verdict cs ds v" for v
        unfolding verdict_def path_key_Cons ..
      from Cons.IH [OF c(3) d(3)] show ?thesis
      proof (elim disjE exE conjE)
        fix v assume "comp_loop lead (cs @ 0 # ra) (ds @ 0 # rb) = Some (Inl v)" "verdict cs ds v" "(v = 0) = (cs = ds)"
        then show ?thesis using step True b V by (intro disjI1 exI [of _ v]) simp
      next
        fix p c' cs' d' ds'
        assume "cs = p @ c' # cs'" "ds = p @ d' # ds'" "c' \<noteq> d'" "comp_loop lead (cs @ 0 # ra) (ds @ 0 # rb) =
          Some (Inr (if c' = 92 then -1 else if d' = 92 then 1 else sint c' - sint d', (c' # cs') @ 0 # ra, (d' # ds') @ 0 # rb))"
        then show ?thesis using step True b
          by (intro disjI2 exI [of _ "c # p"] exI [of _ c'] exI [of _ cs'] exI [of _ d'] exI [of _ ds']) simp
      qed
    qed
  qed
qed

lemma utils_CompPath_spec:
  assumes "charnext_ok lead charnext" "single lead a" "single lead b" "\<not> lead 0"
  shows "\<exists>v. utils_CompPath lead charnext (Some (a @ 0 # ra)) (Some (b @ 0 # rb)) = Some v \<and> verdict a b v \<and> (v = 0 \<longleftrightarrow> a = b)"
  using comp_loop_single [OF assms(2-4), of ra rb]
proof (elim disjE exE conjE)
  fix v assume "comp_loop lead (a @ 0 # ra) (b @ 0 # rb) = Some (Inl v)" "verdict a b v" "(v = 0) = (a = b)"
  then show ?thesis by (simp add: utils_CompPath_def)
next
  fix p c cs d ds
  assume D: "a = p @ c # cs" "b = p @ d # ds" "c \<noteq> d" and L: "comp_loop lead (a @ 0 # ra) (b @ 0 # rb) =
    Some (Inr (if c = 92 then -1 else if d = 92 then 1 else sint c - sint d, (c # cs) @ 0 # ra, (d # ds) @ 0 # rb))"
  have S: "single lead (c # cs)" "single lead (d # ds)" using assms(2,3) D by (auto simp: single_def)
  obtain x where x: "My_mbschr charnext 92 ((c # cs) @ 0 # ra) = Some x" "x \<noteq> None \<longleftrightarrow> 92 \<in> set (c # cs)"
    using My_mbschr_single [OF assms(1) S(1), of 92 ra] by auto
  obtain y where y: "My_mbschr charnext 92 ((d # ds) @ 0 # rb) = Some y" "y \<noteq> None \<longleftrightarrow> 92 \<in> set (d # ds)"
    using My_mbschr_single [OF assms(1) S(2), of 92 rb] by auto
  let ?v = "if 92 \<in> set (c # cs) \<and> 92 \<notin> set (d # ds) then 1 else if 92 \<in> set (d # ds) \<and> 92 \<notin> set (c # cs) then -1
    else if c = 92 then -1 else if d = 92 then 1 else sint c - sint d"
  have "utils_CompPath lead charnext (Some (a @ 0 # ra)) (Some (b @ 0 # rb)) = Some ?v"
    unfolding utils_CompPath_def prod.case option.case L Option.bind.simps sum.case x(1) y(1)
    using x(2) y(2) by (cases x; cases y) auto
  moreover have "verdict (c # cs) (d # ds) ?v" by (rule verdict_diff [OF D(3)])
  moreover have "verdict a b v = verdict (c # cs) (d # ds) v" for v
    unfolding verdict_def D(1,2) path_key_append ..
  moreover have "?v \<noteq> 0" using sint_less_iff [of c d] D(3) by auto
  ultimately show ?thesis using D by (intro exI [of _ ?v]) auto
qed

end
