(* ===== verification/Windiff_Regexp.thy ===== *)
theory Windiff_Regexp
  imports Gutils_Utils
begin

text \<open>
  Regular expressions: \<open>windiff/windiff/regexp.c\<close>.  A pattern is compiled in two passes, the first of
  which only counts, into a program of nodes in one array of bytes; matching interprets the program.
  Pointers into the pattern, the program and the text are indices; a read or write outside the array is
  \<open>None\<close>.  The allocator and \<open>CharNext\<close> are parameters, \<open>regerror\<close> does nothing.
\<close>

subsection \<open>Programs\<close>

definition END :: byte where "END = 0"
definition BOL :: byte where "BOL = 1"
definition EOL :: byte where "EOL = 2"
definition ANY :: byte where "ANY = 3"
definition ANYOF :: byte where "ANYOF = 4"
definition ANYBUT :: byte where "ANYBUT = 5"
definition BRANCH :: byte where "BRANCH = 6"
definition BACK :: byte where "BACK = 7"
definition EXACTLY :: byte where "EXACTLY = 8"
definition NOTHING :: byte where "NOTHING = 9"
definition STAR :: byte where "STAR = 10"
definition PLUS :: byte where "PLUS = 11"
definition OPEN :: byte where "OPEN = 20"
definition CLOSE :: byte where "CLOSE = 30"

lemmas opcodes = END_def BOL_def EOL_def ANY_def ANYOF_def ANYBUT_def BRANCH_def BACK_def EXACTLY_def NOTHING_def
  STAR_def PLUS_def OPEN_def CLOSE_def

definition MAGIC :: byte where "MAGIC = 156"
definition NSUBEXP :: nat where "NSUBEXP = 10"

record regexp =
  startp :: "nat option list"
  endp :: "nat option list"
  regstart :: byte
  reganch :: nat
  regmust :: "nat option"
  regmlen :: nat
  program :: "byte list"

text \<open>\<open>rmalloc n\<close> is the memory for a \<open>regexp\<close> with a program of \<open>n\<close> bytes, \<open>None\<close> when there
  is none; \<open>strdup_ok\<close> tells whether copies of strings can be made.\<close>

record renv =
  reg_ic :: bool
  rmalloc :: "nat \<Rightarrow> regexp option"
  rcharnext :: "cstring \<Rightarrow> nat \<Rightarrow> nat"
  strdup_ok :: bool

definition rd :: "byte list \<Rightarrow> nat \<Rightarrow> byte option" where
  "rd s i = (if i < length s then Some (s ! i) else None)"

definition wr :: "nat \<Rightarrow> byte \<Rightarrow> byte list \<Rightarrow> byte list option" where
  "wr i b s = (if i < length s then Some (s[i := b]) else None)"

text \<open>The string at an index.\<close>

definition str_at :: "byte list \<Rightarrow> nat \<Rightarrow> cstring option" where
  "str_at s i = (if 0 \<in> set (drop i s) then Some (takeWhile (\<lambda>c. c \<noteq> 0) (drop i s)) else None)"

text \<open>Pointers to nodes: NULL, the address of \<open>regdummy\<close>, or an index into the program.\<close>

datatype node = NoNode | Regdummy | Node nat

definition OP :: "byte list \<Rightarrow> node \<Rightarrow> byte option" where
  "OP P p = (case p of Node i \<Rightarrow> rd P i | _ \<Rightarrow> None)"

definition NEXT :: "byte list \<Rightarrow> nat \<Rightarrow> nat option" where
  "NEXT P i = do { hi \<leftarrow> rd P (i + 1); lo \<leftarrow> rd P (i + 2); Some (unat hi * 256 + unat lo) }"

definition OPERAND :: "nat \<Rightarrow> nat" where
  "OPERAND i = i + 3"

definition regnext :: "byte list \<Rightarrow> node \<Rightarrow> node option" where
  "regnext P p = (case p of
     NoNode \<Rightarrow> None
   | Regdummy \<Rightarrow> Some NoNode
   | Node i \<Rightarrow> do {
       offset \<leftarrow> NEXT P i;
       op \<leftarrow> rd P i;
       if offset = 0 then Some NoNode
       else if op = BACK then (if offset \<le> i then Some (Node (i - offset)) else None)
       else Some (Node (i + offset))
     })"

subsection \<open>Emitting code\<close>

record rstate =
  regparse :: nat
  regnpar :: nat
  regcode :: node
  regsize :: nat
  rprog :: "byte list"

definition regnode :: "byte \<Rightarrow> rstate \<Rightarrow> (node \<times> rstate) option" where
  "regnode op s = (case regcode s of
     Regdummy \<Rightarrow> Some (Regdummy, s\<lparr>regsize := regsize s + 3\<rparr>)
   | NoNode \<Rightarrow> None
   | Node i \<Rightarrow> do {
       P \<leftarrow> wr i op (rprog s);
       P \<leftarrow> wr (i + 1) 0 P;
       P \<leftarrow> wr (i + 2) 0 P;
       Some (Node i, s\<lparr>rprog := P, regcode := Node (i + 3)\<rparr>)
     })"

definition regc :: "byte \<Rightarrow> rstate \<Rightarrow> rstate option" where
  "regc b s = (case regcode s of
     Regdummy \<Rightarrow> Some (s\<lparr>regsize := regsize s + 1\<rparr>)
   | NoNode \<Rightarrow> None
   | Node i \<Rightarrow> do { P \<leftarrow> wr i b (rprog s); Some (s\<lparr>rprog := P, regcode := Node (i + 1)\<rparr>) })"

fun regcs :: "byte list \<Rightarrow> rstate \<Rightarrow> rstate option" where
  "regcs [] s = Some s"
| "regcs (b # bs) s = do { s \<leftarrow> regc b s; regcs bs s }"

text \<open>Moving the operand up, from its end downwards.\<close>

fun insert_loop :: "nat \<Rightarrow> nat \<Rightarrow> byte list \<Rightarrow> byte list option" where
  "insert_loop src opnd P =
     (if src > opnd then do { b \<leftarrow> rd P (src - 1); P \<leftarrow> wr (src + 2) b P; insert_loop (src - 1) opnd P } else Some P)"

declare insert_loop.simps [simp del]

definition reginsert :: "byte \<Rightarrow> node \<Rightarrow> rstate \<Rightarrow> rstate option" where
  "reginsert op opnd s = (case (regcode s, opnd) of
     (Regdummy, _) \<Rightarrow> Some (s\<lparr>regsize := regsize s + 3\<rparr>)
   | (Node i, Node p) \<Rightarrow> do {
       P \<leftarrow> insert_loop i p (rprog s);
       P \<leftarrow> wr p op P;
       P \<leftarrow> wr (p + 1) 0 P;
       P \<leftarrow> wr (p + 2) 0 P;
       Some (s\<lparr>rprog := P, regcode := Node (i + 3)\<rparr>)
     }
   | _ \<Rightarrow> None)"

partial_function (option) last_node :: "byte list \<Rightarrow> node \<Rightarrow> node option" where
  "last_node P scan = do { temp \<leftarrow> regnext P scan; if temp = NoNode then Some scan else last_node P temp }"

definition regtail :: "node \<Rightarrow> node \<Rightarrow> rstate \<Rightarrow> rstate option" where
  "regtail p val s =
     (if p = Regdummy then Some s
      else do {
        scan \<leftarrow> last_node (rprog s) p;
        op \<leftarrow> OP (rprog s) scan;
        (case (scan, val) of
           (Node i, Node v) \<Rightarrow> do {
             let offset = (if op = BACK then int i - int v else int v - int i);
             P \<leftarrow> wr (i + 1) (word_of_int (drop_bit 8 offset)) (rprog s);
             P \<leftarrow> wr (i + 2) (word_of_int offset) P;
             Some (s\<lparr>rprog := P\<rparr>)
           }
         | _ \<Rightarrow> None)
      })"

definition regoptail :: "node \<Rightarrow> node \<Rightarrow> rstate \<Rightarrow> rstate option" where
  "regoptail p val s = (case p of
     Node i \<Rightarrow> do { op \<leftarrow> rd (rprog s) i; if op \<noteq> BRANCH then Some s else regtail (Node (OPERAND i)) val s }
   | _ \<Rightarrow> Some s)"

subsection \<open>Compiling\<close>

text \<open>The flags, sets of bits in the code.\<close>

datatype flag = HASWIDTH | SIMPLE | SPSTART

abbreviation WORST :: "flag set" where "WORST \<equiv> {}"

type_synonym parsed = "(node \<times> flag set \<times> rstate) option"

definition FAIL :: "rstate \<Rightarrow> parsed" where
  "FAIL s = Some (NoNode, {}, s)"

definition ISMULT :: "byte \<Rightarrow> bool" where
  "ISMULT c \<longleftrightarrow> c = 42 \<or> c = 43 \<or> c = 63"

text \<open>The special characters: hat, dollar, dot, brackets, parentheses, bar, question mark, plus, star
  and backslash.\<close>

definition META :: "byte list" where
  "META = [94, 36, 46, 91, 40, 41, 124, 63, 43, 42, 92]"

fun strcspn :: "cstring \<Rightarrow> byte list \<Rightarrow> nat option" where
  "strcspn [] m = None"
| "strcspn (c # cs) m = (if c = 0 \<or> c \<in> set m then Some 0 else map_option Suc (strcspn cs m))"

abbreviation advance :: "nat \<Rightarrow> rstate \<Rightarrow> rstate" where
  "advance n s \<equiv> s\<lparr>regparse := regparse s + n\<rparr>"

text \<open>The members of a class; the inner \<open>None\<close> is a failure.\<close>

partial_function (option) class_loop :: "cstring \<Rightarrow> rstate \<Rightarrow> rstate option option" where
  "class_loop exp s = do {
     c \<leftarrow> rd exp (regparse s);
     if c \<noteq> 0 \<and> c \<noteq> 93 then
       if c = 45 then do {
         let s = advance 1 s;
         c \<leftarrow> rd exp (regparse s);
         if c = 93 \<or> c = 0 then do { s \<leftarrow> regc 45 s; class_loop exp s }
         else do {
           a \<leftarrow> rd exp (regparse s - 2);
           if unat a + 1 > unat c + 1 then Some None
           else do {
             s \<leftarrow> regcs (map of_nat [unat a + 1..<unat c + 1]) s;
             class_loop exp (advance 1 s)
           }
         }
       }
       else do { s \<leftarrow> regc c (advance 1 s); class_loop exp s }
     else Some (Some s)
   }"

text \<open>A class, after its opening bracket.\<close>

definition regclass :: "cstring \<Rightarrow> rstate \<Rightarrow> parsed" where
  "regclass exp s = do {
     c \<leftarrow> rd exp (regparse s);
     (ret, s) \<leftarrow> (if c = 94 then do { (ret, s) \<leftarrow> regnode ANYBUT s; Some (ret, advance 1 s) } else regnode ANYOF s);
     c \<leftarrow> rd exp (regparse s);
     s \<leftarrow> (if c = 93 \<or> c = 45 then regc c (advance 1 s) else Some s);
     r \<leftarrow> class_loop exp s;
     (case r of
        None \<Rightarrow> FAIL s
      | Some s \<Rightarrow> do {
          s \<leftarrow> regc 0 s;
          c \<leftarrow> rd exp (regparse s);
          if c \<noteq> 93 then FAIL s else Some (ret, {HASWIDTH, SIMPLE}, advance 1 s)
        })
   }"

text \<open>\<open>rec\<close> is the call of \<open>reg\<close> for what is between parentheses.\<close>

definition regatom :: "(rstate \<Rightarrow> parsed) \<Rightarrow> cstring \<Rightarrow> rstate \<Rightarrow> parsed" where
  "regatom rec exp s = do {
     c \<leftarrow> rd exp (regparse s);
     let s = advance 1 s;
     if c = 94 then do { (ret, s) \<leftarrow> regnode BOL s; Some (ret, WORST, s) }
     else if c = 36 then do { (ret, s) \<leftarrow> regnode EOL s; Some (ret, WORST, s) }
     else if c = 46 then do { (ret, s) \<leftarrow> regnode ANY s; Some (ret, {HASWIDTH, SIMPLE}, s) }
     else if c = 91 then regclass exp s
     else if c = 40 then do {
       (ret, flags, s) \<leftarrow> rec s;
       if ret = NoNode then FAIL s else Some (ret, flags \<inter> {HASWIDTH, SPSTART}, s)
     }
     else if c = 0 \<or> c = 124 \<or> c = 41 then FAIL s
     else if c = 63 \<or> c = 43 \<or> c = 42 then FAIL s
     else if c = 92 then do {
       c \<leftarrow> rd exp (regparse s);
       if c = 0 then FAIL s
       else do {
         (ret, s) \<leftarrow> regnode EXACTLY s;
         s \<leftarrow> regc c (advance 1 s);
         s \<leftarrow> regc 0 s;
         Some (ret, {HASWIDTH, SIMPLE}, s)
       }
     }
     else do {
       let s = s\<lparr>regparse := regparse s - 1\<rparr>;
       len \<leftarrow> strcspn (drop (regparse s) exp) META;
       if len = 0 then FAIL s
       else do {
         ender \<leftarrow> rd exp (regparse s + len);
         let len = (if len > 1 \<and> ISMULT ender then len - 1 else len);
         (ret, s) \<leftarrow> regnode EXACTLY s;
         s \<leftarrow> regcs (take len (drop (regparse s) exp)) (advance len s);
         s \<leftarrow> regc 0 s;
         Some (ret, (if len = 1 then {HASWIDTH, SIMPLE} else {HASWIDTH}), s)
       }
     }
   }"

text \<open>The code for a repetition of what has been emitted at \<open>ret\<close>.\<close>

definition reg_repeat :: "byte \<Rightarrow> flag set \<Rightarrow> node \<Rightarrow> rstate \<Rightarrow> rstate option" where
  "reg_repeat op flags ret s =
     (if op = 42 \<and> SIMPLE \<in> flags then reginsert STAR ret s
      else if op = 42 then do {
        s \<leftarrow> reginsert BRANCH ret s;
        (n, s) \<leftarrow> regnode BACK s;
        s \<leftarrow> regoptail ret n s;
        s \<leftarrow> regoptail ret ret s;
        (n, s) \<leftarrow> regnode BRANCH s;
        s \<leftarrow> regtail ret n s;
        (n, s) \<leftarrow> regnode NOTHING s;
        regtail ret n s
      }
      else if op = 43 \<and> SIMPLE \<in> flags then reginsert PLUS ret s
      else if op = 43 then do {
        (next, s) \<leftarrow> regnode BRANCH s;
        s \<leftarrow> regtail ret next s;
        (n, s) \<leftarrow> regnode BACK s;
        s \<leftarrow> regtail n ret s;
        (n, s) \<leftarrow> regnode BRANCH s;
        s \<leftarrow> regtail next n s;
        (n, s) \<leftarrow> regnode NOTHING s;
        regtail ret n s
      }
      else do {
        s \<leftarrow> reginsert BRANCH ret s;
        (n, s) \<leftarrow> regnode BRANCH s;
        s \<leftarrow> regtail ret n s;
        (next, s) \<leftarrow> regnode NOTHING s;
        s \<leftarrow> regtail ret next s;
        regoptail ret next s
      })"

definition regpiece :: "(rstate \<Rightarrow> parsed) \<Rightarrow> cstring \<Rightarrow> rstate \<Rightarrow> parsed" where
  "regpiece rec exp s = do {
     (ret, flags, s) \<leftarrow> regatom rec exp s;
     if ret = NoNode then FAIL s
     else do {
       op \<leftarrow> rd exp (regparse s);
       if \<not> ISMULT op then Some (ret, flags, s)
       else if HASWIDTH \<notin> flags \<and> op \<noteq> 63 then FAIL s
       else do {
         let fl = (if op \<noteq> 43 then {SPSTART} else {HASWIDTH});
         s \<leftarrow> reg_repeat op flags ret s;
         let s = advance 1 s;
         c \<leftarrow> rd exp (regparse s);
         if ISMULT c then FAIL s else Some (ret, fl, s)
       }
     }
   }"

text \<open>The loop of \<open>regbranch\<close>; the result says whether it failed.\<close>

partial_function (option) branch_loop :: "(rstate \<Rightarrow> parsed) \<Rightarrow> cstring \<Rightarrow> node \<Rightarrow> flag set \<Rightarrow> rstate \<Rightarrow>
    (bool \<times> node \<times> flag set \<times> rstate) option" where
  "branch_loop rec exp chain fl s = do {
     c \<leftarrow> rd exp (regparse s);
     if c \<noteq> 0 \<and> c \<noteq> 124 \<and> c \<noteq> 41 then do {
       (latest, flags, s) \<leftarrow> regpiece rec exp s;
       if latest = NoNode then Some (True, chain, fl, s)
       else do {
         let fl = fl \<union> (flags \<inter> {HASWIDTH}) \<union> (if chain = NoNode then flags \<inter> {SPSTART} else {});
         s \<leftarrow> (if chain = NoNode then Some s else regtail chain latest s);
         branch_loop rec exp latest fl s
       }
     } else Some (False, chain, fl, s)
   }"

definition regbranch :: "(rstate \<Rightarrow> parsed) \<Rightarrow> cstring \<Rightarrow> rstate \<Rightarrow> parsed" where
  "regbranch rec exp s = do {
     (ret, s) \<leftarrow> regnode BRANCH s;
     (failed, chain, fl, s) \<leftarrow> branch_loop rec exp NoNode WORST s;
     if failed then FAIL s
     else do {
       s \<leftarrow> (if chain = NoNode then do { (n, s) \<leftarrow> regnode NOTHING s; Some s } else Some s);
       Some (ret, fl, s)
     }
   }"

text \<open>The loops of \<open>reg\<close>: over the alternatives, and over the branches to hook their tails on.\<close>

partial_function (option) alt_loop :: "(rstate \<Rightarrow> parsed) \<Rightarrow> cstring \<Rightarrow> node \<Rightarrow> flag set \<Rightarrow> rstate \<Rightarrow>
    (bool \<times> flag set \<times> rstate) option" where
  "alt_loop rec exp ret fl s = do {
     c \<leftarrow> rd exp (regparse s);
     if c = 124 then do {
       (br, flags, s) \<leftarrow> regbranch rec exp (advance 1 s);
       if br = NoNode then Some (True, fl, s)
       else do {
         s \<leftarrow> regtail ret br s;
         let fl = (if HASWIDTH \<notin> flags then fl - {HASWIDTH} else fl) \<union> (flags \<inter> {SPSTART});
         alt_loop rec exp ret fl s
       }
     } else Some (False, fl, s)
   }"

partial_function (option) hook_loop :: "node \<Rightarrow> node \<Rightarrow> rstate \<Rightarrow> rstate option" where
  "hook_loop br ender s =
     (if br = NoNode then Some s
      else do {
        s \<leftarrow> regoptail br ender s;
        br \<leftarrow> regnext (rprog s) br;
        hook_loop br ender s
      })"

definition reg_body :: "(rstate \<Rightarrow> parsed) \<Rightarrow> bool \<Rightarrow> cstring \<Rightarrow> rstate \<Rightarrow> parsed" where
  "reg_body rec paren exp s =
     (if paren \<and> regnpar s \<ge> NSUBEXP then FAIL s
      else do {
        let parno = (if paren then regnpar s else 0);
        (ret, s) \<leftarrow> (if paren then regnode (OPEN + of_nat parno) (s\<lparr>regnpar := regnpar s + 1\<rparr>) else Some (NoNode, s));
        (br, flags, s) \<leftarrow> regbranch rec exp s;
        if br = NoNode then FAIL s
        else do {
          s \<leftarrow> (if ret \<noteq> NoNode then regtail ret br s else Some s);
          let ret = (if ret \<noteq> NoNode then ret else br);
          let fl = (if HASWIDTH \<notin> flags then {} else {HASWIDTH}) \<union> (flags \<inter> {SPSTART});
          (failed, fl, s) \<leftarrow> alt_loop rec exp ret fl s;
          if failed then FAIL s
          else do {
            (ender, s) \<leftarrow> regnode (if paren then CLOSE + of_nat parno else END) s;
            s \<leftarrow> regtail ret ender s;
            s \<leftarrow> hook_loop ret ender s;
            c \<leftarrow> rd exp (regparse s);
            if paren then (if c \<noteq> 41 then FAIL s else Some (ret, fl, advance 1 s))
            else if c \<noteq> 0 then FAIL s
            else Some (ret, fl, s)
          }
        }
      })"

text \<open>\<open>reg d\<close>: \<open>d\<close> bounds the depth of parentheses; there are fewer than \<open>NSUBEXP\<close> of them.\<close>

primrec reg :: "nat \<Rightarrow> bool \<Rightarrow> cstring \<Rightarrow> rstate \<Rightarrow> parsed" where
  "reg 0 paren exp s = None"
| "reg (Suc d) paren exp s = reg_body (reg d True exp) paren exp s"

text \<open>The longest literal that must appear.\<close>

partial_function (option) longest_loop :: "byte list \<Rightarrow> node \<Rightarrow> nat option \<Rightarrow> nat \<Rightarrow> (nat option \<times> nat) option" where
  "longest_loop P scan longest len = (case scan of
     NoNode \<Rightarrow> Some (longest, len)
   | Regdummy \<Rightarrow> None
   | Node i \<Rightarrow> do {
       op \<leftarrow> rd P i;
       (longest, len) \<leftarrow> (if op = EXACTLY then do {
           t \<leftarrow> str_at P (OPERAND i);
           Some (if length t \<ge> len then (Some (OPERAND i), length t) else (longest, len))
         } else Some (longest, len));
       scan \<leftarrow> regnext P scan;
       longest_loop P scan longest len
     })"

definition optimize :: "flag set \<Rightarrow> regexp \<Rightarrow> regexp option" where
  "optimize flags r = do {
     let r = r\<lparr>regstart := 0, reganch := 0, regmust := None, regmlen := 0\<rparr>;
     n \<leftarrow> regnext (program r) (Node 1);
     op \<leftarrow> OP (program r) n;
     if op = END then do {
       let scan = OPERAND 1;
       op \<leftarrow> rd (program r) scan;
       r \<leftarrow> (if op = EXACTLY then do { c \<leftarrow> rd (program r) (OPERAND scan); Some (r\<lparr>regstart := c\<rparr>) }
             else if op = BOL then Some (r\<lparr>reganch := reganch r + 1\<rparr>) else Some r);
       if SPSTART \<in> flags then do {
         (longest, len) \<leftarrow> longest_loop (program r) (Node scan) None 0;
         Some (r\<lparr>regmust := longest, regmlen := len\<rparr>)
       } else Some r
     } else Some r
   }"

text \<open>\<open>regcomp\<close>: the inner \<open>None\<close> is NULL.\<close>

definition regcomp :: "renv \<Rightarrow> cstring option \<Rightarrow> regexp option option" where
  "regcomp e str = (case str of
     None \<Rightarrow> Some None
   | Some exp \<Rightarrow> do {
       s \<leftarrow> regc MAGIC \<lparr>regparse = 0, regnpar = 1, regcode = Regdummy, regsize = 0, rprog = []\<rparr>;
       (ret, flags, s) \<leftarrow> reg (Suc NSUBEXP) False exp s;
       if ret = NoNode then Some None
       else if regsize s \<ge> 32767 then Some None
       else (case rmalloc e (regsize s) of
          None \<Rightarrow> Some None
        | Some r \<Rightarrow> do {
            s \<leftarrow> regc MAGIC (s\<lparr>regparse := 0, regnpar := 1, regcode := Node 0, rprog := program r\<rparr>);
            (ret, flags, s) \<leftarrow> reg (Suc NSUBEXP) False exp s;
            if ret = NoNode then Some None
            else do { r \<leftarrow> optimize flags (r\<lparr>program := rprog s\<rparr>); Some (Some r) }
          })
     })"

end
