(* ===== verification/Windiff_Regexec.thy ===== *)
theory Windiff_Regexec
  imports Windiff_Regexp
begin

text \<open>
  Matching a compiled regular expression, \<open>regexec\<close> of \<open>windiff/windiff/regexp.c\<close>.  The text is
  a list of bytes with its NUL; pointers into it are indices.
\<close>

definition mkup :: "renv \<Rightarrow> byte \<Rightarrow> byte" where
  "mkup e c = (if reg_ic e \<and> 97 \<le> c \<and> c \<le> 122 then c - 32 else c)"

text \<open>\<open>strncmp\<close>, as far as its result is used: whether it is 0.\<close>

fun strncmp_eq :: "cstring \<Rightarrow> cstring \<Rightarrow> nat \<Rightarrow> bool option" where
  "strncmp_eq s1 s2 0 = Some True"
| "strncmp_eq (a # s1) (b # s2) (Suc n) = (if a \<noteq> b then Some False else if a = 0 then Some True else strncmp_eq s1 s2 n)"
| "strncmp_eq s1 s2 (Suc n) = None"

partial_function (option) upcase_loop :: "renv \<Rightarrow> nat \<Rightarrow> cstring \<Rightarrow> cstring option" where
  "upcase_loop e p s = do {
     c \<leftarrow> rd s p;
     if c = 0 then Some s
     else (let s = (if 97 \<le> c \<and> c \<le> 122 then s[p := c - 32] else s) in upcase_loop e (rcharnext e s p) s)
   }"

definition cstrncmp_eq :: "renv \<Rightarrow> cstring \<Rightarrow> cstring \<Rightarrow> nat \<Rightarrow> bool option" where
  "cstrncmp_eq e s1 s2 n =
     (if \<not> reg_ic e then strncmp_eq s1 s2 n
      else if strdup_ok e then do {
        t1 \<leftarrow> upcase_loop e 0 s1;
        t2 \<leftarrow> upcase_loop e 0 s2;
        strncmp_eq t1 t2 n
      }
      else Some True)"

text \<open>\<open>cstrchr\<close>: the first place from \<open>p\<close> on that holds \<open>c\<close>.\<close>

partial_function (option) cstrchr :: "renv \<Rightarrow> cstring \<Rightarrow> nat \<Rightarrow> byte \<Rightarrow> nat option option" where
  "cstrchr e s p c = do {
     x \<leftarrow> rd s p;
     if x = 0 then Some None
     else if mkup e x = mkup e c then Some (Some p)
     else cstrchr e s (rcharnext e s p) c
   }"

record mstate =
  reginput :: nat
  regstartp :: "nat option list"
  regendp :: "nat option list"

subsection \<open>One node\<close>

text \<open>How many characters in a row satisfy \<open>p\<close>.\<close>

fun count_while :: "(byte \<Rightarrow> bool) \<Rightarrow> cstring \<Rightarrow> nat option" where
  "count_while p [] = None"
| "count_while p (c # cs) = (if p c then map_option Suc (count_while p cs) else Some 0)"

definition regrepeat :: "renv \<Rightarrow> byte list \<Rightarrow> cstring \<Rightarrow> nat \<Rightarrow> mstate \<Rightarrow> (nat \<times> mstate) option" where
  "regrepeat e P text p s = do {
     op \<leftarrow> rd P p;
     let cs = drop (reginput s) text;
     count \<leftarrow>
       (if op = ANY then count_while (\<lambda>c. c \<noteq> 0) cs
        else if op = EXACTLY then do { x \<leftarrow> rd P (OPERAND p); count_while (\<lambda>c. mkup e x = mkup e c) cs }
        else if op = ANYOF then do { t \<leftarrow> str_at P (OPERAND p); count_while (\<lambda>c. c \<noteq> 0 \<and> c \<in> set t) cs }
        else if op = ANYBUT then do { t \<leftarrow> str_at P (OPERAND p); count_while (\<lambda>c. c \<noteq> 0 \<and> c \<notin> set t) cs }
        else Some 0);
     Some (count, s\<lparr>reginput := reginput s + count\<rparr>)
   }"

text \<open>A node that needs no recursion: whether it matches.\<close>

definition simple_node :: "renv \<Rightarrow> byte list \<Rightarrow> cstring \<Rightarrow> nat option \<Rightarrow> byte \<Rightarrow> nat \<Rightarrow> mstate \<Rightarrow> (bool \<times> mstate) option" where
  "simple_node e P text regbol op i s =
     (if op = BOL then Some (Some (reginput s) = regbol, s)
      else if op = EOL then do { c \<leftarrow> rd text (reginput s); Some (c = 0, s) }
      else if op = ANY then do { c \<leftarrow> rd text (reginput s); Some (c \<noteq> 0, s\<lparr>reginput := reginput s + 1\<rparr>) }
      else if op = EXACTLY then do {
        x \<leftarrow> rd P (OPERAND i);
        c \<leftarrow> rd text (reginput s);
        if mkup e x \<noteq> mkup e c then Some (False, s)
        else do {
          opnd \<leftarrow> str_at P (OPERAND i);
          let len = length opnd;
          eq \<leftarrow> (if len > 1 then cstrncmp_eq e (opnd @ [0]) (drop (reginput s) text) len else Some True);
          Some (eq, s\<lparr>reginput := reginput s + len\<rparr>)
        }
      }
      else if op = ANYOF then do {
        c \<leftarrow> rd text (reginput s);
        if c = 0 then Some (False, s)
        else do { t \<leftarrow> str_at P (OPERAND i); Some (c \<in> set t, s\<lparr>reginput := reginput s + 1\<rparr>) }
      }
      else if op = ANYBUT then do {
        c \<leftarrow> rd text (reginput s);
        if c = 0 then Some (False, s)
        else do { t \<leftarrow> str_at P (OPERAND i); Some (c \<notin> set t, s\<lparr>reginput := reginput s + 1\<rparr>) }
      }
      else Some (True, s))"

text \<open>The nodes of parentheses; noting their place, unless a later call has done so.\<close>

definition paren :: "byte \<Rightarrow> bool" where
  "paren op \<longleftrightarrow> OPEN < op \<and> op < OPEN + 10 \<or> CLOSE < op \<and> op < CLOSE + 10"

definition set_paren :: "byte \<Rightarrow> nat \<Rightarrow> mstate \<Rightarrow> mstate" where
  "set_paren op save s =
     (if op < OPEN + 10 then
        (let no = unat (op - OPEN) in if regstartp s ! no = None then s\<lparr>regstartp := (regstartp s)[no := Some save]\<rparr> else s)
      else
        (let no = unat (op - CLOSE) in if regendp s ! no = None then s\<lparr>regendp := (regendp s)[no := Some save]\<rparr> else s))"

text \<open>The character that the next node must start with, 0 if none is known, and whether the text
  goes on with it.\<close>

definition lookahead :: "byte list \<Rightarrow> node \<Rightarrow> byte option" where
  "lookahead P next = do {
     nop \<leftarrow> OP P next;
     if nop = EXACTLY then (case next of Node j \<Rightarrow> rd P (OPERAND j) | _ \<Rightarrow> None) else Some 0
   }"

definition could_work :: "cstring \<Rightarrow> byte \<Rightarrow> mstate \<Rightarrow> bool option" where
  "could_work text nextch s = (if nextch = 0 then Some True else do { c \<leftarrow> rd text (reginput s); Some (c = nextch) })"

subsection \<open>The matcher\<close>

text \<open>Where \<open>regmatch\<close> is: at a node of its main loop, at a branch of the inner loop over
  alternatives, or in the loop that backs up, with the next node, the character it must start with (or
  0), the count, its least value and the start.  After a failure the place in the text is not read
  before it is set again, so the model leaves it where it is when the count is used up.\<close>

datatype task = Match node | Alternatives nat | Repeats node byte nat nat nat

partial_function (option) regmatch :: "renv \<Rightarrow> byte list \<Rightarrow> cstring \<Rightarrow> nat option \<Rightarrow> task \<Rightarrow> mstate \<Rightarrow> (bool \<times> mstate) option" where
  "regmatch e P text regbol k s = (case k of
     Match scan \<Rightarrow> (case scan of
         NoNode \<Rightarrow> Some (False, s)
       | Regdummy \<Rightarrow> None
       | Node i \<Rightarrow> do {
           next \<leftarrow> regnext P scan;
           op \<leftarrow> rd P i;
           if op \<in> {BOL, EOL, ANY, EXACTLY, ANYOF, ANYBUT, NOTHING, BACK} then do {
             (b, s) \<leftarrow> simple_node e P text regbol op i s;
             if b then regmatch e P text regbol (Match next) s else Some (False, s)
           }
           else if paren op then do {
             (b, t) \<leftarrow> regmatch e P text regbol (Match next) s;
             Some (b, if b then set_paren op (reginput s) t else t)
           }
           else if op = BRANCH then do {
             nop \<leftarrow> OP P next;
             if nop \<noteq> BRANCH then regmatch e P text regbol (Match (Node (OPERAND i))) s
             else regmatch e P text regbol (Alternatives i) s
           }
           else if op = STAR \<or> op = PLUS then do {
             nextch \<leftarrow> lookahead P next;
             (no, t) \<leftarrow> regrepeat e P text (OPERAND i) s;
             regmatch e P text regbol (Repeats next nextch no (if op = STAR then 0 else 1) (reginput s)) t
           }
           else Some (op = END, s)
         })
   | Alternatives i \<Rightarrow> do {
       (b, t) \<leftarrow> regmatch e P text regbol (Match (Node (OPERAND i))) s;
       if b then Some (True, t)
       else do {
         let t = t\<lparr>reginput := reginput s\<rparr>;
         scan \<leftarrow> regnext P (Node i);
         (case scan of
            NoNode \<Rightarrow> Some (False, t)
          | Regdummy \<Rightarrow> None
          | Node j \<Rightarrow> do {
              op \<leftarrow> rd P j;
              if op = BRANCH then regmatch e P text regbol (Alternatives j) t else Some (False, t)
            })
       }
     }
   | Repeats next nextch no least save \<Rightarrow>
       if no \<ge> least then do {
         go \<leftarrow> could_work text nextch s;
         (b, t) \<leftarrow> (if go then regmatch e P text regbol (Match next) s else Some (False, s));
         if b then Some (True, t)
         else if no = 0 then Some (False, t)
         else regmatch e P text regbol (Repeats next nextch (no - 1) least save) (t\<lparr>reginput := save + (no - 1)\<rparr>)
       } else Some (False, s))"

subsection \<open>Matching a text\<close>

definition regtry :: "renv \<Rightarrow> cstring \<Rightarrow> nat option \<Rightarrow> nat \<Rightarrow> regexp \<Rightarrow> (bool \<times> regexp) option" where
  "regtry e text regbol string r = do {
     (b, s) \<leftarrow> regmatch e (program r) text regbol (Match (Node 1))
       \<lparr>reginput = string, regstartp = replicate NSUBEXP None, regendp = replicate NSUBEXP None\<rparr>;
     let r = r\<lparr>startp := regstartp s, endp := regendp s\<rparr>;
     Some (b, if b then r\<lparr>startp := (startp r)[0 := Some string], endp := (endp r)[0 := Some (reginput s)]\<rparr> else r)
   }"

text \<open>Looking for the text that must appear.\<close>

partial_function (option) must_loop :: "renv \<Rightarrow> cstring \<Rightarrow> cstring \<Rightarrow> nat \<Rightarrow> nat \<Rightarrow> bool option" where
  "must_loop e text must n s = do {
     c \<leftarrow> rd must 0;
     p \<leftarrow> cstrchr e text s c;
     (case p of
        None \<Rightarrow> Some False
      | Some s \<Rightarrow> do { eq \<leftarrow> cstrncmp_eq e (drop s text) must n; if eq then Some True else must_loop e text must n (s + 1) })
   }"

partial_function (option) start_loop :: "renv \<Rightarrow> cstring \<Rightarrow> nat option \<Rightarrow> nat \<Rightarrow> regexp \<Rightarrow> (bool \<times> regexp) option" where
  "start_loop e text regbol s r = do {
     p \<leftarrow> cstrchr e text s (regstart r);
     (case p of
        None \<Rightarrow> Some (False, r)
      | Some s \<Rightarrow> do {
          (b, r) \<leftarrow> regtry e text regbol s r;
          if b then Some (True, r) else start_loop e text regbol (s + 1) r
        })
   }"

partial_function (option) every_loop :: "renv \<Rightarrow> cstring \<Rightarrow> nat option \<Rightarrow> nat \<Rightarrow> regexp \<Rightarrow> (bool \<times> regexp) option" where
  "every_loop e text regbol s r = do {
     (b, r) \<leftarrow> regtry e text regbol s r;
     if b then Some (True, r)
     else do {
       c \<leftarrow> rd text s;
       if c \<noteq> 0 then every_loop e text regbol (s + 1) r else Some (False, r)
     }
   }"

text \<open>Whether the program matches, and the program with the places of the match.\<close>

definition regexec :: "renv \<Rightarrow> regexp option \<Rightarrow> cstring option \<Rightarrow> bool \<Rightarrow> (bool \<times> regexp option) option" where
  "regexec e prog string at_bol = (case (prog, string) of
     (Some r, Some text) \<Rightarrow> do {
       m \<leftarrow> rd (program r) 0;
       if m \<noteq> MAGIC then Some (False, prog)
       else do {
         present \<leftarrow> (case regmust r of None \<Rightarrow> Some True | Some i \<Rightarrow> must_loop e text (drop i (program r)) (regmlen r) 0);
         if \<not> present then Some (False, prog)
         else do {
           let regbol = (if at_bol then Some 0 else None);
           (b, r) \<leftarrow>
             (if reganch r \<noteq> 0 then regtry e text regbol 0 r
              else if regstart r \<noteq> 0 then start_loop e text regbol 0 r
              else every_loop e text regbol 0 r);
           Some (b, Some r)
         }
       }
     }
   | _ \<Rightarrow> Some (False, prog))"

end
