(* ===== verification/Windiff_Regexp_Code.thy ===== *)
theory Windiff_Regexp_Code
  imports Windiff_Regexp
begin

text \<open>
  Regular expressions as trees, and the code that \<open>regcomp\<close> makes for them.  The code of an expression
  depends on the distance from its end to what follows, \<open>None\<close> while this is not known.
\<close>

subsection \<open>Expressions\<close>

datatype re = Bol | Eol | Any | AnyOf "byte list" | AnyBut "byte list" | Exactly "byte list"
  | Group nat "re list list" | Star re | Plus1 re | Maybe re

text \<open>Expressions that match one character, that match at least one, and that start with a repetition.\<close>

fun simple :: "re \<Rightarrow> bool" where
  "simple Any = True"
| "simple (AnyOf s) = True"
| "simple (AnyBut s) = True"
| "simple (Exactly s) = (length s = 1)"
| "simple _ = False"

primrec hasw :: "re \<Rightarrow> bool" where
  "hasw Bol = False"
| "hasw Eol = False"
| "hasw Any = True"
| "hasw (AnyOf s) = True"
| "hasw (AnyBut s) = True"
| "hasw (Exactly s) = True"
| "hasw (Group n bs) = list_all (list_ex id) (map (map hasw) bs)"
| "hasw (Star r) = False"
| "hasw (Plus1 r) = True"
| "hasw (Maybe r) = False"

definition starts :: "bool list \<Rightarrow> bool" where
  "starts b \<longleftrightarrow> b \<noteq> [] \<and> hd b"

primrec spst :: "re \<Rightarrow> bool" where
  "spst Bol = False"
| "spst Eol = False"
| "spst Any = False"
| "spst (AnyOf s) = False"
| "spst (AnyBut s) = False"
| "spst (Exactly s) = False"
| "spst (Group n bs) = list_ex starts (map (map spst) bs)"
| "spst (Star r) = True"
| "spst (Plus1 r) = False"
| "spst (Maybe r) = True"

definition flags_of :: "re \<Rightarrow> flag set" where
  "flags_of r = (if hasw r then {HASWIDTH} else {}) \<union> (if simple r then {SIMPLE} else {}) \<union> (if spst r then {SPSTART} else {})"

subsection \<open>Code\<close>

type_synonym coder = "nat option \<Rightarrow> byte list"

definition hdr :: "byte \<Rightarrow> nat \<Rightarrow> byte list" where
  "hdr op n = [op, of_nat (n div 256), of_nat n]"

definition dist :: "nat \<Rightarrow> nat option \<Rightarrow> nat" where
  "dist n t = (case t of None \<Rightarrow> 0 | Some d \<Rightarrow> n + d)"

lemma dist_simps [simp]: "dist n None = 0" "dist n (Some d) = n + d"
  by (simp_all add: dist_def)

lemma length_hdr [simp]: "length (hdr op n) = 3"
  by (simp add: hdr_def)

definition text_code :: "byte \<Rightarrow> byte list \<Rightarrow> coder" where
  "text_code op s t = hdr op (dist (length s + 4) t) @ s @ [0]"

fun seq_code :: "coder list \<Rightarrow> coder" where
  "seq_code [] t = hdr NOTHING (dist 3 t)"
| "seq_code [f] t = f t"
| "seq_code (f # g # fs) t = f (Some 0) @ seq_code (g # fs) t"

text \<open>Alternatives; each but the last ends in a jump over the others.\<close>

fun alts_code :: "coder list \<Rightarrow> byte list" where
  "alts_code [] = []"
| "alts_code (b # bs) = hdr BRANCH (3 + length (b None)) @ b (Some (length (alts_code bs))) @ alts_code bs"

definition group_code :: "nat \<Rightarrow> coder list \<Rightarrow> coder" where
  "group_code n bs t = hdr (OPEN + of_nat n) 3 @ alts_code bs @ hdr (CLOSE + of_nat n) (dist 3 t)"

definition star_code :: "bool \<Rightarrow> coder \<Rightarrow> coder" where
  "star_code simp f t =
     (if simp then hdr STAR (dist (3 + length (f None)) t) @ f None
      else hdr BRANCH (6 + length (f None)) @ f (Some 0) @ hdr BACK (3 + length (f None)) @ hdr BRANCH 3 @ hdr NOTHING (dist 3 t))"

definition plus_code :: "bool \<Rightarrow> coder \<Rightarrow> coder" where
  "plus_code simp f t =
     (if simp then hdr PLUS (dist (3 + length (f None)) t) @ f None
      else f (Some 0) @ hdr BRANCH 6 @ hdr BACK (3 + length (f None)) @ hdr BRANCH 3 @ hdr NOTHING (dist 3 t))"

definition maybe_code :: "coder \<Rightarrow> coder" where
  "maybe_code f t = hdr BRANCH (3 + length (f None)) @ f (Some 3) @ hdr BRANCH 3 @ hdr NOTHING (dist 3 t)"

primrec emit :: "re \<Rightarrow> coder" where
  "emit Bol = (\<lambda>t. hdr BOL (dist 3 t))"
| "emit Eol = (\<lambda>t. hdr EOL (dist 3 t))"
| "emit Any = (\<lambda>t. hdr ANY (dist 3 t))"
| "emit (AnyOf s) = text_code ANYOF s"
| "emit (AnyBut s) = text_code ANYBUT s"
| "emit (Exactly s) = text_code EXACTLY s"
| "emit (Group n bs) = group_code n (map seq_code (map (map emit) bs))"
| "emit (Star r) = star_code (simple r) (emit r)"
| "emit (Plus1 r) = plus_code (simple r) (emit r)"
| "emit (Maybe r) = maybe_code (emit r)"

definition code_of :: "re list list \<Rightarrow> byte list" where
  "code_of bs = MAGIC # alts_code (map (\<lambda>b. seq_code (map emit b)) bs) @ hdr END 0"

subsection \<open>Shape of code\<close>

lemma rd_append [simp]: "rd (pre @ xs) (length pre + n) = rd xs n"
  by (simp add: rd_def nth_append)

lemma rd_append0 [simp]: "rd (pre @ xs) (length pre) = rd xs 0"
  using rd_append [of pre xs 0] by simp

lemma byte_pair: "n < 65536 \<Longrightarrow> unat (of_nat (n div 256) :: byte) * 256 + unat (of_nat n :: byte) = n"
  by (simp add: unat_of_nat)

lemma NEXT_hdr:
  assumes "n < 65536"
  shows "NEXT (pre @ hdr op n @ post) (length pre) = Some n" "rd (pre @ hdr op n @ post) (length pre) = Some op"
  using byte_pair [OF assms] by (simp_all add: NEXT_def hdr_def rd_def nth_append)

lemma regnext_hdr:
  assumes "n < 65536"
  shows "regnext (pre @ hdr op n @ post) (Node (length pre)) =
    (if n = 0 then Some NoNode else if op = BACK then (if n \<le> length pre then Some (Node (length pre - n)) else None)
     else Some (Node (length pre + n)))"
  using NEXT_hdr [OF assms] by (simp add: regnext_def)

text \<open>\<open>tailed f\<close>: the links of the code \<open>f t\<close>, from its start on, lead to a last node whose distance
  is the one that depends on \<open>t\<close>.\<close>

definition leads :: "byte list \<Rightarrow> nat \<Rightarrow> nat \<Rightarrow> bool" where
  "leads P i j \<longleftrightarrow> last_node P (Node i) = last_node P (Node j)"

definition tailed :: "coder \<Rightarrow> bool" where
  "tailed f \<longleftrightarrow> (\<exists>a op b. op \<noteq> BACK \<and> (\<forall>t. f t = a @ hdr op (dist (3 + length b) t) @ b) \<and>
     (\<forall>pre t post. length (pre @ f t @ post) < 65536 \<longrightarrow> leads (pre @ f t @ post) (length pre) (length pre + length a)))"

lemma leads_refl [simp]: "leads P i i"
  by (simp add: leads_def)

lemma leads_chain: "leads P i j \<Longrightarrow> leads P j' k \<Longrightarrow> j = j' \<Longrightarrow> k = k' \<Longrightarrow> leads P i k'"
  by (simp add: leads_def)

lemma leads_hdr:
  assumes "P = pre @ hdr op n @ post" "0 < n" "n < 65536" "op \<noteq> BACK"
  shows "leads P (length pre) (length pre + n)"
proof -
  have "regnext P (Node (length pre)) = Some (Node (length pre + n))" using assms regnext_hdr [OF assms(3)] by simp
  then show ?thesis by (simp add: leads_def last_node.simps [of P "Node (length pre)"])
qed

lemma last_node_end:
  assumes "P = pre @ hdr op 0 @ post"
  shows "last_node P (Node (length pre)) = Some (Node (length pre))"
  using assms by (simp add: last_node.simps regnext_hdr)

lemma tailed_length: "tailed f \<Longrightarrow> length (f (Some d)) = length (f None)"
  unfolding tailed_def by (elim exE conjE) simp

lemma tailed_hdr: "op \<noteq> BACK \<Longrightarrow> tailed (\<lambda>t. hdr op (dist 3 t))"
  unfolding tailed_def by (intro exI [of _ "[]"] exI [of _ op]) simp

text \<open>Stepping over the code \<open>f\<close> to what follows.\<close>

lemma leads_over:
  assumes f: "tailed f" and P: "P = pre @ f (Some d) @ post" "length P < 65536" "d \<le> length post"
  shows "leads P (length pre) (length pre + length (f None) + d)"
proof -
  obtain a op b where F: "op \<noteq> BACK" "\<And>t. f t = a @ hdr op (dist (3 + length b) t) @ b"
    "\<And>pre t post. length (pre @ f t @ post) < 65536 \<Longrightarrow> leads (pre @ f t @ post) (length pre) (length pre + length a)"
    using f unfolding tailed_def by blast
  have 1: "leads P (length pre) (length pre + length a)" using F(3) [of pre "Some d" post] P by simp
  have "P = (pre @ a) @ hdr op (3 + length b + d) @ b @ post" using P(1) F(2) by simp
  from leads_hdr [OF this] have 2: "leads P (length (pre @ a)) (length (pre @ a) + (3 + length b + d))" using P F(1,2) by simp
  show ?thesis by (rule leads_chain [OF 1 2]) (simp_all add: F(2) [of None])
qed

text \<open>Code that ends in a tailed part reached from its start is tailed.\<close>

lemma tailed_after:
  assumes g: "tailed g" and f: "\<And>t. f t = a @ g t"
    and L: "\<And>pre t post. length (pre @ f t @ post) < 65536 \<Longrightarrow> leads (pre @ f t @ post) (length pre) (length pre + length a)"
  shows "tailed f"
proof -
  obtain c op b where G: "op \<noteq> BACK" "\<And>t. g t = c @ hdr op (dist (3 + length b) t) @ b"
    "\<And>pre t post. length (pre @ g t @ post) < 65536 \<Longrightarrow> leads (pre @ g t @ post) (length pre) (length pre + length c)"
    using g unfolding tailed_def by blast
  have "leads (pre @ f t @ post) (length pre) (length pre + length (a @ c))" if l: "length (pre @ f t @ post) < 65536" for pre t post
  proof (rule leads_chain [OF L [OF l]])
    have e: "pre @ f t @ post = (pre @ a) @ g t @ post" by (simp only: f append_assoc)
    show "leads (pre @ f t @ post) (length (pre @ a)) (length (pre @ a) + length c)" using G(3) [of "pre @ a" t post] l unfolding e .
  qed simp_all
  then show ?thesis unfolding tailed_def using G(1,2) f by (intro exI [of _ "a @ c"] exI [of _ op] exI [of _ b]) simp
qed

lemma tailed_text: "op \<noteq> BACK \<Longrightarrow> tailed (text_code op s)"
  unfolding tailed_def text_code_def by (rule exI [of _ "[]"], rule exI [of _ op], rule exI [of _ "s @ [0]"]) (simp add: ac_simps)

lemma tailed_seq: "list_all tailed fs \<Longrightarrow> tailed (seq_code fs)"
proof (induction fs rule: induct_list012)
  case 1
  have "seq_code [] = (\<lambda>t. hdr NOTHING (dist 3 t))" by (simp add: fun_eq_iff)
  then show ?case by (simp add: tailed_hdr opcodes)
next
  case (2 f)
  moreover have "seq_code [f] = f" by (simp add: fun_eq_iff)
  ultimately show ?case by simp
next
  case (3 f g fs)
  then have f: "tailed f" and g: "tailed (seq_code (g # fs))" by simp_all
  show ?case
  proof (rule tailed_after [OF g, of _ "f (Some 0)"])
    fix pre t post assume l: "length (pre @ seq_code (f # g # fs) t @ post) < 65536"
    show "leads (pre @ seq_code (f # g # fs) t @ post) (length pre) (length pre + length (f (Some 0)))"
      using leads_over [OF f, of _ pre 0 "seq_code (g # fs) t @ post"] l tailed_length [OF f, of 0] by simp
  qed simp
qed

lemma length_alts: "list_all tailed bs \<Longrightarrow> length (alts_code bs) = sum_list (map (\<lambda>b. 3 + length (b None)) bs)"
  by (induction bs) (simp_all add: tailed_length)

lemma leads_alts:
  assumes "list_all tailed bs" "P = pre @ alts_code bs @ post" "length P < 65536"
  shows "leads P (length pre) (length pre + length (alts_code bs))"
  using assms
proof (induction bs arbitrary: pre)
  case (Cons b bs)
  let ?h = "hdr BRANCH (3 + length (b None))" and ?b = "b (Some (length (alts_code bs)))"
  have b: "length ?b = length (b None)" using Cons.prems(1) by (simp add: tailed_length)
  have 1: "leads P (length pre) (length pre + (3 + length (b None)))"
    by (rule leads_hdr [of _ _ BRANCH _ "?b @ alts_code bs @ post"]) (use Cons.prems b in \<open>simp_all add: opcodes\<close>)
  have 2: "leads P (length (pre @ ?h @ ?b)) (length (pre @ ?h @ ?b) + length (alts_code bs))"
    by (rule Cons.IH) (use Cons.prems in simp_all)
  show ?case by (rule leads_chain [OF 1 2]) (simp_all add: b)
qed simp

text \<open>A jump, or code, that leads over \<open>mid\<close> to tailed code.\<close>

lemma tailed_jump:
  assumes "tailed g" "op \<noteq> BACK" "k = 3 + length mid"
  shows "tailed (\<lambda>t. hdr op k @ mid @ g t)"
proof (rule tailed_after [OF assms(1), of _ "hdr op k @ mid"])
  fix pre t post assume l: "length (pre @ (hdr op k @ mid @ g t) @ post) < 65536"
  let ?P = "pre @ (hdr op k @ mid @ g t) @ post"
  have "leads ?P (length pre) (length pre + k)" by (rule leads_hdr [of _ _ op _ "mid @ g t @ post"]) (use assms l in simp_all)
  then show "leads ?P (length pre) (length pre + length (hdr op k @ mid))" using assms(3) by simp
qed simp

lemma tailed_over:
  assumes "tailed f" "tailed g" "d = length mid"
  shows "tailed (\<lambda>t. f (Some d) @ mid @ g t)"
proof (rule tailed_after [OF assms(2), of _ "f (Some d) @ mid"])
  fix pre t post assume l: "length (pre @ (f (Some d) @ mid @ g t) @ post) < 65536"
  let ?P = "pre @ (f (Some d) @ mid @ g t) @ post"
  have "leads ?P (length pre) (length pre + length (f None) + d)"
    by (rule leads_over [OF assms(1), of _ _ _ "mid @ g t @ post"]) (use l assms(3) in simp_all)
  then show "leads ?P (length pre) (length pre + length (f (Some d) @ mid))" using assms(3) tailed_length [OF assms(1)] by (simp add: add.assoc)
qed simp

lemma tailed_end: "tailed (\<lambda>t. hdr BRANCH 3 @ hdr NOTHING (dist 3 t))"
  using tailed_jump [of "\<lambda>t. hdr NOTHING (dist 3 t)" BRANCH 3 "[]"] by (simp add: tailed_hdr opcodes)

lemma tailed_group:
  assumes "list_all tailed bs" "n < 10"
  shows "tailed (group_code n bs)"
proof (rule tailed_after)
  show "tailed (\<lambda>t. hdr (CLOSE + of_nat n) (dist 3 t))"
  proof (rule tailed_hdr)
    have "unat (CLOSE + of_nat n :: byte) = 30 + n" using assms(2) by (simp add: CLOSE_def unat_word_ariths unat_of_nat)
    then show "CLOSE + of_nat n \<noteq> BACK" using assms(2) by (auto simp: BACK_def)
  qed
  let ?h = "hdr (OPEN + of_nat n) 3"
  show "group_code n bs t = (?h @ alts_code bs) @ hdr (CLOSE + of_nat n) (dist 3 t)" for t by (simp add: group_code_def)
  fix pre t post assume l: "length (pre @ group_code n bs t @ post) < 65536"
  let ?P = "pre @ group_code n bs t @ post"
  have "unat (OPEN + of_nat n :: byte) = 20 + n" using assms(2) by (simp add: OPEN_def unat_word_ariths unat_of_nat)
  then have o: "OPEN + of_nat n \<noteq> BACK" using assms(2) by (auto simp: BACK_def)
  have 1: "leads ?P (length pre) (length pre + 3)"
    by (rule leads_hdr [of _ _ "OPEN + of_nat n" _ "alts_code bs @ hdr (CLOSE + of_nat n) (dist 3 t) @ post"]) (use o in \<open>simp_all add: group_code_def\<close>)
  have 2: "leads ?P (length (pre @ ?h)) (length (pre @ ?h) + length (alts_code bs))"
    by (rule leads_alts [OF assms(1) _ l]) (simp add: group_code_def)
  show "leads ?P (length pre) (length pre + length (?h @ alts_code bs))" by (rule leads_chain [OF 1 2]) simp_all
qed

lemma tailed_operand: "op \<noteq> BACK \<Longrightarrow> tailed (\<lambda>t. hdr op (dist (3 + length s) t) @ s)"
  unfolding tailed_def by (rule exI [of _ "[]"], rule exI [of _ op], rule exI [of _ s]) simp

lemma tailed_star:
  assumes f: "tailed f"
  shows "tailed (star_code b f)"
proof (cases b)
  case True
  then show ?thesis using tailed_operand [of STAR "f None"] by (simp add: star_code_def [abs_def] opcodes)
next
  case False
  have "tailed (\<lambda>t. hdr BRANCH (6 + length (f None)) @ (f (Some 0) @ hdr BACK (3 + length (f None))) @ hdr BRANCH 3 @ hdr NOTHING (dist 3 t))"
    by (rule tailed_jump [OF tailed_end]) (simp_all add: tailed_length [OF f] opcodes)
  then show ?thesis using False by (simp add: star_code_def [abs_def])
qed

lemma tailed_plus:
  assumes f: "tailed f"
  shows "tailed (plus_code b f)"
proof (cases b)
  case True
  then show ?thesis using tailed_operand [of PLUS "f None"] by (simp add: plus_code_def [abs_def] opcodes)
next
  case False
  have "tailed (\<lambda>t. hdr BRANCH 6 @ hdr BACK (3 + length (f None)) @ hdr BRANCH 3 @ hdr NOTHING (dist 3 t))"
    by (rule tailed_jump [OF tailed_end]) (simp_all add: opcodes)
  from tailed_over [OF f this, of 0 "[]"] show ?thesis using False by (simp add: plus_code_def [abs_def])
qed

lemma tailed_maybe:
  assumes f: "tailed f"
  shows "tailed (maybe_code f)"
proof -
  have "tailed (\<lambda>t. hdr BRANCH (3 + length (f None)) @ f (Some 3) @ hdr BRANCH 3 @ hdr NOTHING (dist 3 t))"
    by (rule tailed_jump [OF tailed_end]) (simp_all add: tailed_length [OF f] opcodes)
  then show ?thesis by (simp add: maybe_code_def [abs_def])
qed

text \<open>Expressions as \<open>regcomp\<close> makes them: parentheses have numbers from 1 to 9, literals and classes
  hold no NUL, and what is repeated is never empty.\<close>

primrec good :: "re \<Rightarrow> bool" where
  "good Bol = True"
| "good Eol = True"
| "good Any = True"
| "good (AnyOf s) = (0 \<notin> set s)"
| "good (AnyBut s) = (0 \<notin> set s)"
| "good (Exactly s) = (0 \<notin> set s \<and> s \<noteq> [])"
| "good (Group n bs) = (0 < n \<and> n < NSUBEXP \<and> bs \<noteq> [] \<and> list_all (list_all id) (map (map good) bs))"
| "good (Star r) = (good r \<and> hasw r)"
| "good (Plus1 r) = (good r \<and> hasw r)"
| "good (Maybe r) = good r"

lemma tailed_emit: "good r \<Longrightarrow> tailed (emit r)"
proof (induction r)
  case (Group n bs)
  have "list_all tailed (map emit b)" if "b \<in> set bs" for b using Group that by (auto simp: list_all_iff)
  then have "list_all tailed (map seq_code (map (map emit) bs))" by (auto simp: list_all_iff tailed_seq)
  then show ?case using Group.prems by (simp add: tailed_group NSUBEXP_def)
qed (simp_all add: tailed_hdr tailed_text tailed_star tailed_plus tailed_maybe opcodes)

end
