(* ===== verification/Windiff_Regexp_Parse.thy ===== *)
theory Windiff_Regexp_Parse
  imports Windiff_Regexp_Code "HOL-Library.Sublist"
begin

text \<open>
  The pattern language: a parser of patterns into expressions.  The rest of the pattern, with its NUL,
  and the number of the next parentheses are passed along.
\<close>

subsection \<open>The parser\<close>

text \<open>The members of a class up to the bracket; \<open>a\<close> is the character before.\<close>

fun members :: "byte \<Rightarrow> cstring \<Rightarrow> (byte list \<times> cstring) option" where
  "members a [] = None"
| "members a (c # cs) =
     (if c = 0 \<or> c = 93 then Some ([], c # cs)
      else if c = 45 then
        (case cs of
           [] \<Rightarrow> None
         | d # ds \<Rightarrow>
             if d = 93 \<or> d = 0 then Some ([45], d # ds)
             else if unat a > unat d then None
             else map_option (\<lambda>(ms, rest). (map of_nat [unat a + 1..<unat d + 1] @ ms, rest)) (members d ds))
      else map_option (\<lambda>(ms, rest). (c # ms, rest)) (members c cs))"

text \<open>What follows an opening bracket or its hat, the character \<open>a\<close>.\<close>

definition p_members :: "byte \<Rightarrow> cstring \<Rightarrow> (byte list \<times> cstring) option" where
  "p_members a cs = do {
     (ms, rest) \<leftarrow> (if hd cs = 93 \<or> hd cs = 45 then map_option (\<lambda>(ms, rest). (hd cs # ms, rest)) (members (hd cs) (tl cs))
                   else members a cs);
     if hd rest = 93 then Some (ms, tl rest) else None
   }"

definition p_class :: "cstring \<Rightarrow> (re \<times> cstring) option" where
  "p_class cs = (if hd cs = 94 then map_option (\<lambda>(ms, rest). (AnyBut ms, rest)) (p_members 94 (tl cs))
     else map_option (\<lambda>(ms, rest). (AnyOf ms, rest)) (p_members 91 cs))"

text \<open>A literal: as many ordinary characters as there are, but not the one that is repeated.\<close>

definition ordinary :: "cstring \<Rightarrow> nat" where
  "ordinary cs = (let n = length (takeWhile (\<lambda>c. c \<noteq> 0 \<and> c \<notin> set META) cs) in if n > 1 \<and> ISMULT (cs ! n) then n - 1 else n)"

type_synonym 'a parse = "('a \<times> cstring \<times> nat) option"

text \<open>\<open>rec\<close> parses what is between parentheses.\<close>

definition p_group :: "(cstring \<Rightarrow> nat \<Rightarrow> re list list parse) \<Rightarrow> cstring \<Rightarrow> nat \<Rightarrow> re parse" where
  "p_group rec cs np =
     (if np \<ge> NSUBEXP then None
      else do {
        (bs, rest, np') \<leftarrow> rec cs (np + 1);
        if hd rest = 41 then Some (Group np bs, tl rest, np') else None
      })"

definition p_atom :: "(cstring \<Rightarrow> nat \<Rightarrow> re list list parse) \<Rightarrow> cstring \<Rightarrow> nat \<Rightarrow> re parse" where
  "p_atom rec cs np =
     (if hd cs = 94 then Some (Bol, tl cs, np)
      else if hd cs = 36 then Some (Eol, tl cs, np)
      else if hd cs = 46 then Some (Any, tl cs, np)
      else if hd cs = 91 then map_option (\<lambda>(r, rest). (r, rest, np)) (p_class (tl cs))
      else if hd cs = 40 then p_group rec (tl cs) np
      else if hd cs = 0 \<or> hd cs = 124 \<or> hd cs = 41 \<or> ISMULT (hd cs) then None
      else if hd cs = 92 then (if hd (tl cs) = 0 then None else Some (Exactly [hd (tl cs)], tl (tl cs), np))
      else Some (Exactly (take (ordinary cs) cs), drop (ordinary cs) cs, np))"

definition repeated :: "byte \<Rightarrow> re \<Rightarrow> re" where
  "repeated op r = (if op = 42 then Star r else if op = 43 then Plus1 r else Maybe r)"

definition p_piece :: "(cstring \<Rightarrow> nat \<Rightarrow> re list list parse) \<Rightarrow> cstring \<Rightarrow> nat \<Rightarrow> re parse" where
  "p_piece rec cs np = do {
     (r, rest, np) \<leftarrow> p_atom rec cs np;
     if \<not> ISMULT (hd rest) then Some (r, rest, np)
     else if \<not> hasw r \<and> hd rest \<noteq> 63 then None
     else if ISMULT (hd (tl rest)) then None
     else Some (repeated (hd rest) r, tl rest, np)
   }"

function p_branch :: "(cstring \<Rightarrow> nat \<Rightarrow> re list list parse) \<Rightarrow> cstring \<Rightarrow> nat \<Rightarrow> re list parse" where
  "p_branch rec cs np =
     (if hd cs = 0 \<or> hd cs = 124 \<or> hd cs = 41 then Some ([], cs, np)
      else do {
        (r, rest, np) \<leftarrow> p_piece rec cs np;
        if length rest < length cs then do { (rs, rest, np) \<leftarrow> p_branch rec rest np; Some (r # rs, rest, np) } else None
      })"
  by pat_completeness auto
termination by (relation "measure (\<lambda>(rec, cs, np). length cs)") auto

function p_alts :: "(cstring \<Rightarrow> nat \<Rightarrow> re list list parse) \<Rightarrow> cstring \<Rightarrow> nat \<Rightarrow> re list list parse" where
  "p_alts rec cs np = do {
     (b, rest, np) \<leftarrow> p_branch rec cs np;
     if hd rest \<noteq> 124 then Some ([b], rest, np)
     else if length (tl rest) < length cs then do { (bs, rest, np) \<leftarrow> p_alts rec (tl rest) np; Some (b # bs, rest, np) }
     else None
   }"
  by pat_completeness auto
termination by (relation "measure (\<lambda>(rec, cs, np). length cs)") auto

declare p_branch.simps [simp del] p_alts.simps [simp del]

primrec p_reg :: "nat \<Rightarrow> cstring \<Rightarrow> nat \<Rightarrow> re list list parse" where
  "p_reg 0 cs np = None"
| "p_reg (Suc d) cs np = p_alts (p_reg d) cs np"

definition parse :: "cstring \<Rightarrow> re list list option" where
  "parse exp = do { (bs, rest, np) \<leftarrow> p_reg (Suc NSUBEXP) exp 1; if hd rest = 0 then Some bs else None }"

subsection \<open>What the parser consumes\<close>

text \<open>Patterns with their NUL.\<close>

definition nul :: "cstring \<Rightarrow> bool" where
  "nul cs \<longleftrightarrow> (\<exists>p. cs = p @ [0] \<and> 0 \<notin> set p)"

lemma nul_nonempty: "nul cs \<Longrightarrow> cs \<noteq> []"
  by (auto simp: nul_def)

lemma nul_tl: "nul cs \<Longrightarrow> hd cs \<noteq> 0 \<Longrightarrow> nul (tl cs) \<and> length (tl cs) < length cs \<and> suffix (tl cs) cs"
proof -
  assume n: "nul cs" "hd cs \<noteq> 0"
  then obtain p where p: "cs = p @ [0]" "0 \<notin> set p" by (auto simp: nul_def)
  then obtain c q where "p = c # q" using n(2) by (cases p) auto
  then show ?thesis using p by (auto simp: nul_def suffix_def)
qed

lemma nul_Cons: "nul (c # cs) \<Longrightarrow> c \<noteq> 0 \<Longrightarrow> nul cs"
  using nul_tl [of "c # cs"] by simp

text \<open>\<open>eats cs rest\<close>: \<open>rest\<close> is a shorter rest of \<open>cs\<close>.\<close>

definition eats :: "cstring \<Rightarrow> cstring \<Rightarrow> bool" where
  "eats cs rest \<longleftrightarrow> suffix rest cs \<and> length rest < length cs \<and> nul rest"

definition keeps :: "cstring \<Rightarrow> cstring \<Rightarrow> bool" where
  "keeps cs rest \<longleftrightarrow> suffix rest cs \<and> nul rest"

lemma eats_tl: "nul cs \<Longrightarrow> hd cs \<noteq> 0 \<Longrightarrow> eats cs (tl cs)"
  using nul_tl [of cs] by (simp add: eats_def)

lemma keeps_eats: "keeps cs mid \<Longrightarrow> eats mid rest \<Longrightarrow> eats cs rest" "eats cs mid \<Longrightarrow> keeps mid rest \<Longrightarrow> eats cs rest"
  unfolding keeps_def eats_def using suffix_length_le suffix_order.trans by (metis order.strict_trans1 order.strict_trans2)+

lemma eats_keeps: "eats cs rest \<Longrightarrow> keeps cs rest"
  by (simp add: eats_def keeps_def)

lemma eats_trans: "eats cs mid \<Longrightarrow> eats mid rest \<Longrightarrow> eats cs rest"
  by (rule keeps_eats(2) [OF _ eats_keeps])

lemma keeps_refl: "nul cs \<Longrightarrow> keeps cs cs"
  by (simp add: keeps_def)

lemma keeps_trans: "keeps cs mid \<Longrightarrow> keeps mid rest \<Longrightarrow> keeps cs rest"
  unfolding keeps_def using suffix_order.trans by blast

lemma members_keeps: "members a cs = Some (ms, rest) \<Longrightarrow> nul cs \<Longrightarrow> keeps cs rest \<and> 0 \<notin> set ms"
proof (induction a cs arbitrary: ms rest rule: members.induct)
  case (2 a c cs)
  show ?case
  proof (cases "c = 0 \<or> c = 93")
    case True
    then show ?thesis using 2 keeps_refl by auto
  next
    case False
    then have c: "nul cs" "eats (c # cs) cs" using "2.prems"(2) eats_tl [of "c # cs"] nul_Cons by auto
    show ?thesis
    proof (cases "c = 45")
      case dash: True
      obtain d ds where d: "cs = d # ds" using nul_nonempty [OF c(1)] by (cases cs) auto
      show ?thesis
      proof (cases "d = 93 \<or> d = 0")
        case True
        then show ?thesis using "2.prems" False dash d c eats_keeps by auto
      next
        case nd: False
        then obtain ns where m: "members d ds = Some (ns, rest)" "ms = map of_nat [unat a + 1..<unat d + 1] @ ns"
          using "2.prems"(1) False dash d by (auto split: if_splits)
        have ds: "nul ds" "eats cs ds" using c(1) nd d eats_tl [of cs] nul_Cons by auto
        have "keeps ds rest \<and> 0 \<notin> set ns" using "2.IH"(1) [OF False dash d nd] m(1) ds(1) "2.prems"(1) False dash d nd by (auto split: if_splits)
        moreover have "0 \<notin> set (map of_nat [unat a + 1..<unat d + 1] :: byte list)"
        proof -
          have "of_nat k \<noteq> (0 :: byte)" if "unat a + 1 \<le> k" "k < unat d + 1" for k
          proof -
            have "unat d < 256" using unsigned_less [of d] by simp
            then have "k < 256" using that by simp
            then have "unat (of_nat k :: byte) = k" by (simp add: unat_of_nat)
            then show ?thesis using that(1) by auto
          qed
          then show ?thesis by auto
        qed
        ultimately show ?thesis using eats_keeps [OF keeps_eats(2) [OF eats_trans [OF c(2) ds(2)]]] m(2) by auto
      qed
    next
      case nd: False
      then obtain ns where m: "members c cs = Some (ns, rest)" "ms = c # ns" using "2.prems"(1) False by (auto split: if_splits)
      have "keeps cs rest \<and> 0 \<notin> set ns" by (rule "2.IH"(2) [OF False nd m(1) c(1)])
      then show ?thesis using eats_keeps [OF keeps_eats(2) [OF c(2)]] m(2) False by auto
    qed
  qed
qed simp

lemma p_members_keeps:
  assumes "p_members a cs = Some (ms, rest)" "nul cs"
  shows "keeps cs rest \<and> 0 \<notin> set ms"
proof -
  obtain ns mid where m: "(if hd cs = 93 \<or> hd cs = 45 then map_option (\<lambda>(ms, rest). (hd cs # ms, rest)) (members (hd cs) (tl cs))
                   else members a cs) = Some (ms, mid)" "hd mid = 93" "rest = tl mid"
    using assms(1) by (auto simp: p_members_def bind_Some_iff split: if_splits)
  have "keeps cs mid \<and> 0 \<notin> set ms"
  proof (cases "hd cs = 93 \<or> hd cs = 45")
    case True
    then have t: "eats cs (tl cs)" using eats_tl [OF assms(2)] by auto
    obtain ns where "members (hd cs) (tl cs) = Some (ns, mid)" "ms = hd cs # ns" using m(1) True by auto
    then show ?thesis using members_keeps [of "hd cs" "tl cs" ns mid] keeps_trans [OF eats_keeps [OF t]] t True by (auto simp: eats_def)
  next
    case False
    then show ?thesis using m(1) members_keeps assms(2) by auto
  qed
  moreover have "eats mid rest" using eats_tl [of mid] m(2,3) calculation by (simp add: keeps_def)
  ultimately show ?thesis using keeps_trans eats_keeps by blast
qed

lemma p_class_keeps:
  assumes "p_class cs = Some (r, rest)" "nul cs"
  shows "keeps cs rest \<and> good r \<and> simple r"
proof (cases "hd cs = 94")
  case True
  then have t: "eats cs (tl cs)" using eats_tl [OF assms(2)] by simp
  obtain ms where m: "p_members 94 (tl cs) = Some (ms, rest)" "r = AnyBut ms" using assms(1) True by (auto simp: p_class_def)
  have "nul (tl cs)" using t by (simp add: eats_def)
  from p_members_keeps [OF m(1) this] show ?thesis using keeps_trans [OF eats_keeps [OF t]] m(2) by simp
next
  case False
  then obtain ms where m: "p_members 91 cs = Some (ms, rest)" "r = AnyOf ms" using assms(1) by (auto simp: p_class_def)
  from p_members_keeps [OF m(1) assms(2)] show ?thesis using m(2) by simp
qed

lemma eats_drop: "nul cs \<Longrightarrow> 0 < n \<Longrightarrow> n < length cs \<Longrightarrow> eats cs (drop n cs)"
proof -
  assume n: "nul cs" "0 < n" "n < length cs"
  then obtain p where p: "cs = p @ [0]" "0 \<notin> set p" by (auto simp: nul_def)
  then have "drop n cs = drop n p @ [0]" using n(3) by simp
  moreover have "0 \<notin> set (drop n p)" using p(2) by (meson in_set_dropD)
  ultimately have "nul (drop n cs)" by (auto simp: nul_def)
  then show ?thesis using n by (simp add: eats_def suffix_drop)
qed

text \<open>A literal has at least one character and stops before the end.\<close>

lemma ordinary_bound:
  assumes "nul cs" "hd cs \<noteq> 0" "hd cs \<notin> set META"
  shows "length (takeWhile (\<lambda>c. c \<noteq> 0 \<and> c \<notin> set META) cs) \<noteq> 0"
    "length (takeWhile (\<lambda>c. c \<noteq> 0 \<and> c \<notin> set META) cs) < length cs"
proof -
  let ?P = "\<lambda>c. c \<noteq> 0 \<and> c \<notin> set META"
  have "cs \<noteq> []" by (rule nul_nonempty [OF assms(1)])
  then show "length (takeWhile ?P cs) \<noteq> 0" using assms(2,3) by (cases cs) simp_all
  have "0 \<in> set cs" using assms(1) by (auto simp: nul_def)
  moreover have "0 \<notin> set (takeWhile ?P cs)" by (auto dest: set_takeWhileD)
  ultimately have "dropWhile ?P cs \<noteq> []" by (auto simp: dropWhile_eq_Nil_conv)
  then have "0 < length (dropWhile ?P cs)" by (rule length_greater_0_conv [THEN iffD2])
  moreover have "length (takeWhile ?P cs) + length (dropWhile ?P cs) = length cs"
    by (simp only: length_append [symmetric] takeWhile_dropWhile_id)
  ultimately show "length (takeWhile ?P cs) < length cs" by linarith
qed

lemma ordinary_facts:
  assumes "nul cs" "hd cs \<noteq> 0" "hd cs \<notin> set META"
  shows "0 < ordinary cs" "ordinary cs < length cs" "0 \<notin> set (take (ordinary cs) cs)"
proof -
  let ?w = "takeWhile (\<lambda>c. c \<noteq> 0 \<and> c \<notin> set META) cs"
  have o: "0 < ordinary cs" "ordinary cs \<le> length ?w" using ordinary_bound(1) [OF assms] by (auto simp: ordinary_def Let_def)
  show "0 < ordinary cs" by (rule o)
  show "ordinary cs < length cs" by (rule le_less_trans [OF o(2) ordinary_bound(2) [OF assms]])
  have "set (take (ordinary cs) cs) \<subseteq> set (take (length ?w) cs)" by (rule set_take_subset_set_take [OF o(2)])
  then have "set (take (ordinary cs) cs) \<subseteq> set ?w" unfolding takeWhile_eq_take [symmetric] .
  then show "0 \<notin> set (take (ordinary cs) cs)" by (auto dest: set_takeWhileD)
qed

text \<open>The parser of what is between parentheses does not read past the end.\<close>

definition rec_keeps :: "(cstring \<Rightarrow> nat \<Rightarrow> re list list parse) \<Rightarrow> bool" where
  "rec_keeps rec \<longleftrightarrow> (\<forall>cs np bs rest np'. rec cs np = Some (bs, rest, np') \<longrightarrow> nul cs \<longrightarrow> 0 < np \<longrightarrow>
     keeps cs rest \<and> hd rest \<in> {0, 41} \<and> bs \<noteq> [] \<and> list_all (list_all good) bs \<and> np \<le> np')"

lemma p_group_eats:
  assumes "p_group rec cs np = Some (r, rest, np')" "nul cs" "rec_keeps rec" "0 < np"
  shows "eats cs rest \<and> good r \<and> np \<le> np'"
proof -
  obtain bs mid where m: "np < NSUBEXP" "rec cs (np + 1) = Some (bs, mid, np')" "hd mid = 41" "r = Group np bs" "rest = tl mid"
    using assms(1) by (auto simp: p_group_def bind_Some_iff split: if_splits)
  have "keeps cs mid \<and> bs \<noteq> [] \<and> list_all (list_all good) bs \<and> np + 1 \<le> np'"
    using assms(3) [unfolded rec_keeps_def, rule_format, OF m(2) assms(2)] by simp
  then have k: "keeps cs mid" "bs \<noteq> []" "list_all (list_all good) bs" "np + 1 \<le> np'" by simp_all
  have "eats mid rest" using k(1) m(3,5) eats_tl [of mid] by (simp add: keeps_def)
  then show ?thesis using keeps_eats(1) [OF k(1)] k m assms(4) by (simp add: list.pred_map comp_def)
qed

lemma META_set: "c \<in> set META \<longleftrightarrow> c \<in> {94, 36, 46, 91, 40, 41, 124, 92} \<or> ISMULT c"
  by (auto simp: META_def ISMULT_def)

lemma p_atom_eats:
  assumes p: "p_atom rec cs np = Some (r, rest, np')" and n: "nul cs" and rec: "rec_keeps rec" "0 < np"
  shows "eats cs rest \<and> good r \<and> np \<le> np'"
proof -
  have h0: "hd cs \<noteq> 0" using p by (auto simp: p_atom_def)
  have t: "eats cs (tl cs)" by (rule eats_tl [OF n h0])
  then have nt: "nul (tl cs)" by (simp add: eats_def)
  consider "hd cs \<in> {94, 36, 46}" | "hd cs = 91" | "hd cs = 40" | "hd cs = 92" | "hd cs \<notin> set META"
    using p by (auto simp: p_atom_def META_set split: if_splits)
  then show ?thesis
  proof cases
    case 1
    then show ?thesis using p t by (auto simp: p_atom_def)
  next
    case 2
    then have c: "p_class (tl cs) = Some (r, rest)" "np' = np" using p by (auto simp: p_atom_def)
    from p_class_keeps [OF c(1) nt] c(2) show ?thesis using keeps_eats(2) [OF t] by simp
  next
    case 3
    then have "p_group rec (tl cs) np = Some (r, rest, np')" using p by (simp add: p_atom_def)
    from p_group_eats [OF this nt rec] show ?thesis using eats_trans [OF t] by simp
  next
    case 4
    then have "hd (tl cs) \<noteq> 0" "r = Exactly [hd (tl cs)]" "rest = tl (tl cs)" "np' = np" using p by (auto simp: p_atom_def ISMULT_def split: if_splits)
    then show ?thesis using eats_trans [OF t] eats_tl [OF nt] by simp
  next
    case 5
    then have "r = Exactly (take (ordinary cs) cs)" "rest = drop (ordinary cs) cs" "np' = np" using p h0 by (auto simp: p_atom_def META_set)
    then show ?thesis using ordinary_facts [OF n h0 5] eats_drop [OF n] nul_nonempty [OF n] by simp
  qed
qed

lemma p_piece_eats:
  assumes p: "p_piece rec cs np = Some (r, rest, np')" and n: "nul cs" and rec: "rec_keeps rec" "0 < np"
  shows "eats cs rest \<and> good r \<and> \<not> ISMULT (hd rest) \<and> np \<le> np'"
proof -
  obtain a mid n where a: "p_atom rec cs np = Some (a, mid, n)" using p by (auto simp: p_piece_def bind_Some_iff split: if_splits)
  have e: "eats cs mid" "good a" "np \<le> n" using p_atom_eats [OF a n rec] by simp_all
  show ?thesis
  proof (cases "ISMULT (hd mid)")
    case True
    then have r: "r = repeated (hd mid) a" "rest = tl mid" "hasw a \<or> hd mid = 63" "\<not> ISMULT (hd (tl mid))" "np' = n" using p a by (auto simp: p_piece_def split: if_splits)
    have "hd mid \<noteq> 0" using True by (auto simp: ISMULT_def)
    then have "eats mid rest" using e(1) r(2) eats_tl [of mid] by (simp add: eats_def)
    then show ?thesis using eats_trans [OF e(1)] r e(2,3) True by (auto simp: repeated_def ISMULT_def)
  next
    case False
    then show ?thesis using p a e by (simp add: p_piece_def)
  qed
qed

lemma p_branch_keeps:
  "p_branch rec cs np = Some (rs, rest, np') \<Longrightarrow> nul cs \<Longrightarrow> rec_keeps rec \<Longrightarrow> 0 < np \<Longrightarrow>
    keeps cs rest \<and> hd rest \<in> {0, 41, 124} \<and> list_all good rs \<and> np \<le> np'"
proof (induction rec cs np arbitrary: rs rest np' rule: p_branch.induct)
  case (1 rec cs np)
  show ?case
  proof (cases "hd cs = 0 \<or> hd cs = 124 \<or> hd cs = 41")
    case True
    then show ?thesis using 1 keeps_refl by (auto simp: p_branch.simps)
  next
    case False
    then obtain r mid n qs where p: "p_piece rec cs np = Some (r, mid, n)" "length mid < length cs" "p_branch rec mid n = Some (qs, rest, np')" "rs = r # qs"
      using "1.prems"(1) by (subst (asm) p_branch.simps) (auto simp: bind_Some_iff split: if_splits)
    have e: "eats cs mid" "good r" and g: "np \<le> n" using p_piece_eats [OF p(1) "1.prems"(2-4)] by simp_all
    have "keeps mid rest \<and> hd rest \<in> {0, 41, 124} \<and> list_all good qs \<and> n \<le> np'"
      using "1.IH" [OF False p(1) refl refl p(2,3)] e "1.prems" g by (simp add: eats_def)
    then show ?thesis using eats_keeps [OF keeps_eats(2) [OF e(1)]] e(2) p(4) g by auto
  qed
qed

lemma p_alts_keeps:
  "p_alts rec cs np = Some (bs, rest, np') \<Longrightarrow> nul cs \<Longrightarrow> rec_keeps rec \<Longrightarrow> 0 < np \<Longrightarrow>
    keeps cs rest \<and> hd rest \<in> {0, 41} \<and> bs \<noteq> [] \<and> list_all (list_all good) bs \<and> np \<le> np'"
proof (induction rec cs np arbitrary: bs rest np' rule: p_alts.induct)
  case (1 rec cs np)
  obtain b mid n where b: "p_branch rec cs np = Some (b, mid, n)" using "1.prems"(1) by (subst (asm) p_alts.simps) (auto simp: bind_Some_iff)
  have k: "keeps cs mid" "hd mid \<in> {0, 41, 124}" "list_all good b" "np \<le> n" using p_branch_keeps [OF b "1.prems"(2-4)] by simp_all
  show ?case
  proof (cases "hd mid = 124")
    case False
    then show ?thesis using "1.prems"(1) b k by (subst (asm) p_alts.simps) auto
  next
    case True
    then obtain qs where p: "length (tl mid) < length cs" "p_alts rec (tl mid) n = Some (qs, rest, np')" "bs = b # qs"
      using "1.prems"(1) b by (subst (asm) p_alts.simps) (auto simp: bind_Some_iff split: if_splits)
    have e: "eats mid (tl mid)" using k(1) True eats_tl [of mid] by (simp add: keeps_def)
    have "keeps (tl mid) rest \<and> hd rest \<in> {0, 41} \<and> qs \<noteq> [] \<and> list_all (list_all good) qs \<and> n \<le> np'"
      using "1.IH" [OF b refl refl _ p(1,2)] True e "1.prems" k(4) by (simp add: eats_def)
    then show ?thesis using eats_keeps [OF keeps_eats(2) [OF keeps_eats(1) [OF k(1) e]]] k(3,4) p(3) by auto
  qed
qed

lemma p_reg_keeps: "rec_keeps (p_reg d)"
proof (induction d)
  case 0
  show ?case by (simp add: rec_keeps_def)
next
  case (Suc d)
  then show ?case using p_alts_keeps [of "p_reg d"] unfolding rec_keeps_def [of "p_reg (Suc d)"] by simp
qed

end
