(* ===== verification/Windiff_Regexp_Emit.thy ===== *)
theory Windiff_Regexp_Emit
  imports Windiff_Regexp_Parse
begin

text \<open>
  Emitting code, in both passes: \<open>add code s\<close> is the state after \<open>code\<close> has been emitted, which
  in the first pass only counts its bytes.
\<close>

subsection \<open>Adding code\<close>

definition add :: "byte list \<Rightarrow> rstate \<Rightarrow> rstate" where
  "add code s = (case regcode s of
     Regdummy \<Rightarrow> s\<lparr>regsize := regsize s + length code\<rparr>
   | Node n \<Rightarrow> s\<lparr>rprog := take n (rprog s) @ code @ drop (n + length code) (rprog s), regcode := Node (n + length code)\<rparr>
   | NoNode \<Rightarrow> s)"

definition room :: "rstate \<Rightarrow> nat \<Rightarrow> bool" where
  "room s k \<longleftrightarrow> (case regcode s of Regdummy \<Rightarrow> True | Node n \<Rightarrow> n + k \<le> length (rprog s) \<and> length (rprog s) < 32767 | NoNode \<Rightarrow> False)"

text \<open>The place \<open>k\<close> bytes on.\<close>

definition place :: "rstate \<Rightarrow> nat \<Rightarrow> node" where
  "place s k = (case regcode s of Node n \<Rightarrow> Node (n + k) | p \<Rightarrow> p)"

lemma place_0 [simp]: "place s 0 = regcode s"
  by (simp add: place_def split: node.splits)

lemma room_cases:
  assumes "room s k"
  obtains "regcode s = Regdummy" | n where "regcode s = Node n" "n + k \<le> length (rprog s)" "length (rprog s) < 32767"
  using assms by (auto simp: room_def split: node.splits)

lemma room_mono: "room s k \<Longrightarrow> j \<le> k \<Longrightarrow> room s j"
  by (auto simp: room_def split: node.splits)

lemma regcode_add [simp]: "regcode (add c s) = place s (length c)"
  by (simp add: add_def place_def split: node.splits)

lemma add_Nil [simp]: "add [] s = s"
  by (simp add: add_def split: node.splits)

lemma add_add: "room s (length a) \<Longrightarrow> add b (add a s) = add (a @ b) s"
  by (erule room_cases) (auto simp: add_def place_def ac_simps)

lemma room_add: "room s (length a + k) \<Longrightarrow> room (add a s) k"
  by (erule room_cases) (auto simp: add_def room_def place_def)

lemma place_add: "place (add a s) k = place s (length a + k)"
  by (simp add: place_def add_def split: node.splits)

lemma room_place: "room s k \<Longrightarrow> place s j \<noteq> NoNode"
  by (auto simp: room_def place_def split: node.splits)

lemma add_update [simp]:
  "add c (s\<lparr>regparse := i\<rparr>) = (add c s)\<lparr>regparse := i\<rparr>" "add c (s\<lparr>regnpar := n\<rparr>) = (add c s)\<lparr>regnpar := n\<rparr>"
  "regparse (add c s) = regparse s" "regnpar (add c s) = regnpar s"
  by (simp_all add: add_def split: node.splits)

lemma room_update [simp]:
  "room (s\<lparr>regparse := i\<rparr>) k = room s k" "room (s\<lparr>regnpar := n\<rparr>) k = room s k"
  "place (s\<lparr>regparse := i\<rparr>) k = place s k" "place (s\<lparr>regnpar := n\<rparr>) k = place s k"
  by (simp_all add: room_def place_def split: node.splits)

lemma three_or_more: "3 \<le> length xs \<Longrightarrow> \<exists>x y z q. xs = x # y # z # q"
  by (auto simp: numeral_3_eq_3 Suc_le_length_iff)

lemma exactly_three: "length xs = 3 \<Longrightarrow> \<exists>x y z. xs = [x, y, z]"
  by (auto simp: numeral_3_eq_3 length_Suc_conv)

lemma list_update_append_at: "length a = n \<Longrightarrow> (a @ x # b)[n := y] = a @ y # b"
  by (simp add: list_update_append)

text \<open>Writing at the end of what has been emitted.\<close>

lemma wr_add:
  assumes "n < length P"
  shows "wr n b P = Some (take n P @ b # drop (Suc n) P)"
  using assms by (simp add: wr_def upd_conv_take_nth_drop)

lemma regc_add: "room s 1 \<Longrightarrow> regc b s = Some (add [b] s)"
  by (erule room_cases) (simp_all add: regc_def add_def wr_add)

lemma hdr_0: "hdr op 0 = [op, 0, 0]"
  by (simp add: hdr_def)

lemma regnode_add: "room s 3 \<Longrightarrow> regnode op s = Some (regcode s, add (hdr op 0) s)"
proof (erule room_cases)
  fix n assume n: "regcode s = Node n" "n + 3 \<le> length (rprog s)"
  obtain x y z q where q: "drop n (rprog s) = x # y # z # q" using three_or_more [of "drop n (rprog s)"] n(2) by (metis length_drop le_diff_conv2 add.commute add_leD1)
  have P: "rprog s = take n (rprog s) @ x # y # z # q" unfolding q [symmetric] by simp
  have "drop (n + 3) (rprog s) = drop 3 (drop n (rprog s))" by (simp add: add.commute)
  then have d: "drop (n + 3) (rprog s) = q" by (simp add: q)
  let ?t = "take n (rprog s)"
  have t: "length ?t = n" using n(2) by simp
  have "wr n op (rprog s) = Some (?t @ op # y # z # q)" using t by (subst P) (simp add: wr_def list_update_append_at)
  moreover have "wr (n + 1) 0 (?t @ op # y # z # q) = Some (?t @ op # 0 # z # q)"
    using t list_update_append_at [of "?t @ [op]" "n + 1" y] by (simp add: wr_def)
  moreover have "wr (n + 2) 0 (?t @ op # 0 # z # q) = Some (?t @ op # 0 # 0 # q)"
    using t list_update_append_at [of "?t @ [op, 0]" "n + 2" z] by (simp add: wr_def)
  ultimately show ?thesis using n d by (simp add: regnode_def add_def hdr_0 numeral_3_eq_3)
qed (simp add: regnode_def add_def)

lemma regcs_add: "room s (length bs) \<Longrightarrow> regcs bs s = Some (add bs s)"
proof (induction bs arbitrary: s)
  case (Cons b bs)
  then have "room s 1" using room_mono by fastforce
  moreover have "room (add [b] s) (length bs)" using room_add [of s "[b]"] Cons.prems by simp
  ultimately show ?case using Cons.IH add_add [of s "[b]" bs] by (simp add: regc_add)
qed simp

subsection \<open>Insertion\<close>

lemma wr_at: "length a = n \<Longrightarrow> wr n y (a @ x # b) = Some (a @ y # b)"
  by (simp add: wr_def list_update_append_at)

lemma insert_loop_spec:
  "length junk = 3 \<Longrightarrow> \<exists>a b c. insert_loop (length pre + length code) (length pre) (pre @ code @ junk @ q) = Some (pre @ a # b # c # code @ q)"
proof (induction code arbitrary: junk q rule: rev_induct)
  case Nil
  then obtain a b c where "junk = [a, b, c]" using exactly_three by blast
  then show ?case by (simp add: insert_loop.simps)
next
  case (snoc x code)
  obtain a b c where j: "junk = [a, b, c]" using snoc.prems exactly_three by blast
  let ?n = "length pre + length code"
  have "rd (pre @ (code @ [x]) @ junk @ q) ?n = Some x" by (simp add: rd_def nth_append)
  moreover have "wr (?n + 3) x (pre @ (code @ [x]) @ junk @ q) = Some (pre @ code @ [x, a, b] @ x # q)"
    using wr_at [of "pre @ code @ [x, a, b]" "?n + 3" x c q] by (simp add: j)
  moreover have "\<exists>a' b' c'. insert_loop ?n (length pre) (pre @ code @ [x, a, b] @ x # q) = Some (pre @ a' # b' # c' # code @ x # q)"
    by (rule snoc.IH) simp
  ultimately show ?case by (subst insert_loop.simps) (simp add: numeral_3_eq_3)
qed

lemma reginsert_add:
  assumes "room s (3 + length code)"
  shows "reginsert op (regcode s) (add code s) = Some (add (hdr op 0 @ code) s)"
  using assms
proof (rule room_cases)
  fix n assume n: "regcode s = Node n" "n + (3 + length code) \<le> length (rprog s)"
  let ?pre = "take n (rprog s)" and ?rest = "drop (n + length code) (rprog s)"
  have l: "length ?pre = n" using n(2) by simp
  obtain a b c q where q: "?rest = [a, b, c] @ q" using three_or_more [of ?rest] n(2) by (auto simp: le_diff_conv2)
  have d: "drop (n + (3 + length code)) (rprog s) = q"
  proof -
    have "drop (n + (3 + length code)) (rprog s) = drop 3 ?rest" by (simp add: ac_simps)
    then show ?thesis by (simp add: q)
  qed
  obtain x y z where I: "insert_loop (length ?pre + length code) (length ?pre) (?pre @ code @ [a, b, c] @ q) = Some (?pre @ x # y # z # code @ q)"
    using insert_loop_spec [of "[a, b, c]" ?pre code q] by auto
  have "wr n op (?pre @ x # y # z # code @ q) = Some (?pre @ op # y # z # code @ q)" by (rule wr_at [OF l])
  moreover have "wr (n + 1) 0 (?pre @ op # y # z # code @ q) = Some (?pre @ op # 0 # z # code @ q)"
    using wr_at [of "?pre @ [op]" "n + 1" 0 y "z # code @ q"] l by simp
  moreover have "wr (n + 2) 0 (?pre @ op # 0 # z # code @ q) = Some (?pre @ op # 0 # 0 # code @ q)"
    using wr_at [of "?pre @ [op, 0]" "n + 2" 0 z "code @ q"] l by simp
  ultimately show ?thesis using n I l d q by (simp add: reginsert_def add_def hdr_0 place_def ac_simps numeral_3_eq_3)
qed (simp add: reginsert_def add_def)

subsection \<open>Linking\<close>

lemma offset_bytes:
  "word_of_int (drop_bit 8 (int n)) = (of_nat (n div 256) :: byte)" "word_of_int (int n) = (of_nat n :: byte)"
proof -
  have "drop_bit 8 (int n) = int (n div 256)" by (simp add: drop_bit_eq_div of_nat_div)
  then show "word_of_int (drop_bit 8 (int n)) = (of_nat (n div 256) :: byte)" by simp
qed simp

text \<open>The distance of the last node reached is set.\<close>

lemma regtail_at:
  assumes P: "rprog s = a @ hdr op 0 @ b" and l: "leads (rprog s) i (length a)" and v: "v = length a + d" "op \<noteq> BACK"
  shows "regtail (Node i) (Node v) s = Some (s\<lparr>rprog := a @ hdr op d @ b\<rparr>)"
proof -
  have "last_node (rprog s) (Node i) = Some (Node (length a))" using l last_node_end [OF P] by (simp add: leads_def)
  moreover have "OP (rprog s) (Node (length a)) = Some op" by (simp add: P OP_def rd_def hdr_def nth_append)
  moreover have "wr (length a + 1) x (a @ hdr op 0 @ b) = Some (a @ op # x # 0 # b)" for x
    using wr_at [of "a @ [op]" "length a + 1" x 0 "0 # b"] by (simp add: hdr_0)
  moreover have "wr (length a + 2) y (a @ op # x # 0 # b) = Some (a @ op # x # y # b)" for x y
    using wr_at [of "a @ [op, x]" "length a + 2" y 0 b] by simp
  ultimately show ?thesis using v offset_bytes [of d] by (simp add: regtail_def P hdr_def Let_def)
qed

lemma regtail_add:
  assumes f: "tailed f" and r: "room s (length (f None) + length rest)" and d: "d \<le> length rest"
  shows "regtail (regcode s) (place s (length (f None) + d)) (add (f None @ rest) s) = Some (add (f (Some d) @ rest) s)"
  using r
proof (rule room_cases)
  fix n assume n: "regcode s = Node n" "n + (length (f None) + length rest) \<le> length (rprog s)" "length (rprog s) < 32767"
  let ?pre = "take n (rprog s)" and ?q = "drop (n + (length (f None) + length rest)) (rprog s)"
  have l: "length ?pre = n" using n(2) by simp
  obtain a op b where F: "op \<noteq> BACK" "\<And>t. f t = a @ hdr op (dist (3 + length b) t) @ b"
    "\<And>pre t post. length (pre @ f t @ post) < 65536 \<Longrightarrow> leads (pre @ f t @ post) (length pre) (length pre + length a)"
    using f unfolding tailed_def by blast
  let ?P = "?pre @ f None @ rest @ ?q"
  have "length ?P = length (rprog s)" using n(2) by simp
  then have L: "leads ?P n (n + length a)" using F(3) [of ?pre None "rest @ ?q"] n(3) l by simp
  let ?s = "add (f None @ rest) s"
  have s: "rprog ?s = ?P" using n by (simp add: add_def)
  have "regtail (Node n) (Node (n + (length (f None) + d))) ?s = Some (?s\<lparr>rprog := (?pre @ a) @ hdr op (3 + length b + d) @ b @ rest @ ?q\<rparr>)"
    by (rule regtail_at) (use s L l F(1) F(2) [of None] in simp_all)
  also have "\<dots> = Some (add (f (Some d) @ rest) s)" using n l F(2) by (simp add: add_def ac_simps)
  finally show ?thesis using n by (simp add: place_def)
qed (simp add: regtail_def add_def tailed_length [OF f])

text \<open>The same at a place further on.\<close>

lemma regtail_add_at:
  assumes f: "tailed f" and r: "room s (length a + length (f None) + length rest)" and d: "d \<le> length rest"
    and k: "p = place s (length a)" "v = place s (length a + length (f None) + d)"
  shows "regtail p v (add (a @ f None @ rest) s) = Some (add (a @ f (Some d) @ rest) s)"
proof -
  have a: "room s (length a)" using r room_mono by fastforce
  have r': "room (add a s) (length (f None) + length rest)" using room_add [of s a] r by (simp add: add.assoc)
  have "p = regcode (add a s)" "v = place (add a s) (length (f None) + d)" using k by (simp_all add: place_add add.assoc)
  then show ?thesis using regtail_add [OF f r' d] by (simp add: add_add [OF a])
qed

lemma regoptail_branch:
  assumes f: "tailed f" and r: "room s (length a + 3 + length (f None) + length rest)" and d: "d \<le> length rest"
    and k: "p = place s (length a)" "v = place s (length a + 3 + length (f None) + d)"
  shows "regoptail p v (add (a @ hdr BRANCH n @ f None @ rest) s) = Some (add (a @ hdr BRANCH n @ f (Some d) @ rest) s)"
  using r
proof (rule room_cases)
  fix m assume m: "regcode s = Node m" "m + (length a + 3 + length (f None) + length rest) \<le> length (rprog s)"
  let ?s = "add (a @ hdr BRANCH n @ f None @ rest) s"
  have "rprog ?s = (take m (rprog s) @ a) @ hdr BRANCH n @ f None @ rest @ drop (m + length (a @ hdr BRANCH n @ f None @ rest)) (rprog s)"
    using m(1) by (simp add: add_def)
  then have "rd (rprog ?s) (m + length a) = Some BRANCH" using m(2) by (simp add: rd_def hdr_def nth_append)
  moreover have "regtail (place s (length (a @ hdr BRANCH n))) v (add ((a @ hdr BRANCH n) @ f None @ rest) s) = Some (add ((a @ hdr BRANCH n) @ f (Some d) @ rest) s)"
    by (rule regtail_add_at [OF f _ d]) (use r k(2) in \<open>simp_all add: add.assoc\<close>)
  ultimately show ?thesis using m(1) by (simp add: k(1) regoptail_def place_def OPERAND_def add.assoc)
qed (simp add: regoptail_def add_def place_def k tailed_length [OF f])

lemma regoptail_other:
  assumes r: "room s (length a + 3 + length rest)" and op: "op \<noteq> BRANCH"
  shows "regoptail (place s (length a)) v (add (a @ hdr op n @ rest) s) = Some (add (a @ hdr op n @ rest) s)"
  using r
proof (rule room_cases)
  fix m assume m: "regcode s = Node m" "m + (length a + 3 + length rest) \<le> length (rprog s)"
  let ?s = "add (a @ hdr op n @ rest) s"
  have "rprog ?s = (take m (rprog s) @ a) @ hdr op n @ rest @ drop (m + length (a @ hdr op n @ rest)) (rprog s)"
    using m(1) by (simp add: add_def)
  then have "rd (rprog ?s) (m + length a) = Some op" using m(2) by (simp add: rd_def hdr_def nth_append)
  then show ?thesis using m(1) op by (simp add: regoptail_def place_def)
qed (simp add: regoptail_def add_def place_def)

text \<open>A link back.\<close>

lemma regtail_back:
  assumes f: "leads (rprog s) i (length a)" and P: "rprog s = a @ hdr BACK 0 @ b" and d: "d \<le> length a" "v = length a - d"
  shows "regtail (Node i) (Node v) s = Some (s\<lparr>rprog := a @ hdr BACK d @ b\<rparr>)"
proof -
  have "last_node (rprog s) (Node i) = Some (Node (length a))" using f last_node_end [OF P] by (simp add: leads_def)
  moreover have "OP (rprog s) (Node (length a)) = Some BACK" by (simp add: P OP_def rd_def hdr_def nth_append)
  moreover have "wr (length a + 1) x (a @ hdr BACK 0 @ b) = Some (a @ BACK # x # 0 # b)" for x
    using wr_at [of "a @ [BACK]" "length a + 1" x 0 "0 # b"] by (simp add: hdr_0)
  moreover have "wr (length a + 2) y (a @ BACK # x # 0 # b) = Some (a @ BACK # x # y # b)" for x y
    using wr_at [of "a @ [BACK, x]" "length a + 2" y 0 b] by simp
  moreover have "int (length a) - int v = int d" using d by simp
  ultimately show ?thesis using offset_bytes [of d] by (simp add: regtail_def P hdr_def Let_def)
qed

subsection \<open>Repetitions\<close>

lemma tailed_branch: "tailed (\<lambda>t. hdr BRANCH (dist 3 t))"
  by (simp add: tailed_hdr opcodes)

lemma repeat_maybe:
  assumes f: "tailed f" and r: "room s (9 + length (f None))"
  shows "reg_repeat 63 fl (regcode s) (add (f None) s) = Some (add (maybe_code f None) s)"
proof -
  let ?n = "length (f None)"
  have R: "room s (3 + ?n)" "room (add (hdr BRANCH 0 @ f None) s) 3" "room (add (hdr BRANCH (3 + ?n) @ f None @ hdr BRANCH 0) s) 3"
    using r room_mono [OF r] room_add [of s "hdr BRANCH 0 @ f None" 3] room_add [of s "hdr BRANCH (3 + ?n) @ f None @ hdr BRANCH 0" 3] by simp_all
  have A: "room s (length (hdr BRANCH 0 @ f None))" "room s (length (hdr BRANCH (3 + ?n) @ f None @ hdr BRANCH 0))"
    using room_mono [OF r] by simp_all
  have 1: "reginsert BRANCH (regcode s) (add (f None) s) = Some (add (hdr BRANCH 0 @ f None) s)" by (rule reginsert_add [OF R(1)])
  have 2: "regnode BRANCH (add (hdr BRANCH 0 @ f None) s) = Some (place s (3 + ?n), add (hdr BRANCH 0 @ f None @ hdr BRANCH 0) s)"
    using regnode_add [OF R(2), of BRANCH] add_add [OF A(1)] by simp
  have 3: "regtail (regcode s) (place s (3 + ?n)) (add (hdr BRANCH 0 @ f None @ hdr BRANCH 0) s) = Some (add (hdr BRANCH (3 + ?n) @ f None @ hdr BRANCH 0) s)"
    using regtail_add_at [OF tailed_branch, of s "[]" "f None @ hdr BRANCH 0" ?n "regcode s"] r room_mono [OF r] by simp
  have 4: "regnode NOTHING (add (hdr BRANCH (3 + ?n) @ f None @ hdr BRANCH 0) s) =
      Some (place s (6 + ?n), add (hdr BRANCH (3 + ?n) @ f None @ hdr BRANCH 0 @ hdr NOTHING 0) s)"
    using regnode_add [OF R(3), of NOTHING] add_add [OF A(2)] by (simp add: ac_simps)
  have J: "tailed (\<lambda>t. hdr BRANCH (3 + ?n) @ f None @ hdr BRANCH (dist 3 t))"
    by (rule tailed_jump [OF tailed_branch]) (simp_all add: opcodes)
  have 5: "regtail (regcode s) (place s (6 + ?n)) (add (hdr BRANCH (3 + ?n) @ f None @ hdr BRANCH 0 @ hdr NOTHING 0) s) =
      Some (add (hdr BRANCH (3 + ?n) @ f None @ hdr BRANCH 3 @ hdr NOTHING 0) s)"
    using regtail_add_at [OF J, of s "[]" "hdr NOTHING 0" 0 "regcode s"] r by (simp add: ac_simps)
  have 6: "regoptail (regcode s) (place s (6 + ?n)) (add (hdr BRANCH (3 + ?n) @ f None @ hdr BRANCH 3 @ hdr NOTHING 0) s) =
      Some (add (hdr BRANCH (3 + ?n) @ f (Some 3) @ hdr BRANCH 3 @ hdr NOTHING 0) s)"
    using regoptail_branch [OF f, of s "[]" "hdr BRANCH 3 @ hdr NOTHING 0" 3 "regcode s" _ "3 + ?n"] r by (simp add: ac_simps)
  show ?thesis by (simp add: reg_repeat_def 1 2 3 4 5 6 maybe_code_def)
qed

text \<open>The link back to the start of the code.\<close>

lemma regtail_loop:
  assumes r: "room s (length a + 3)" and l: "\<And>P pre post. P = pre @ a @ hdr BACK 0 @ post \<Longrightarrow> length P < 65536 \<Longrightarrow> leads P (length pre + i) (length pre + length a)"
  shows "regtail (place s i) (regcode s) (add (a @ hdr BACK 0) s) = Some (add (a @ hdr BACK (length a)) s)"
  using r
proof (rule room_cases)
  fix m assume m: "regcode s = Node m" "m + (length a + 3) \<le> length (rprog s)" "length (rprog s) < 32767"
  let ?pre = "take m (rprog s)" and ?q = "drop (m + length (a @ hdr BACK 0)) (rprog s)" and ?s = "add (a @ hdr BACK 0) s"
  have pre: "length ?pre = m" using m(2) by simp
  have P: "rprog ?s = (?pre @ a) @ hdr BACK 0 @ ?q" using m(1) by (simp add: add_def)
  have "length (rprog ?s) < 65536" using m P by simp
  then have "leads (rprog ?s) (m + i) (length (?pre @ a))" using l [of "rprog ?s" ?pre ?q] P pre by simp
  from regtail_back [OF this P, of "length a" m]
  have "regtail (Node (m + i)) (Node m) ?s = Some (?s\<lparr>rprog := (?pre @ a) @ hdr BACK (length a) @ ?q\<rparr>)" using pre by simp
  then show ?thesis using m(1) by (simp add: add_def place_def)
qed (simp add: regtail_def add_def place_def)

lemma repeat_star:
  assumes f: "tailed f" and r: "room s (12 + length (f None))" and fl: "SIMPLE \<notin> fl"
  shows "reg_repeat 42 fl (regcode s) (add (f None) s) = Some (add (star_code False f None) s)"
proof -
  let ?n = "length (f None)" and ?f = "f (Some 0)"
  have n: "length ?f = ?n" by (rule tailed_length [OF f])
  have R: "room s k" if "k \<le> 12 + ?n" for k using room_mono [OF r that] .
  have node: "regnode op (add c s) = Some (place s (length c), add (c @ hdr op 0) s)" if "length c \<le> 9 + ?n" for op c
    using regnode_add [OF room_add [OF R], of c op] add_add [OF R, of c] that by simp
  have 1: "reginsert BRANCH (regcode s) (add (f None) s) = Some (add (hdr BRANCH 0 @ f None) s)" by (rule reginsert_add) (simp add: R)
  have 2: "regnode BACK (add (hdr BRANCH 0 @ f None) s) = Some (place s (3 + ?n), add (hdr BRANCH 0 @ f None @ hdr BACK 0) s)"
    by (simp add: node)
  have 3: "regoptail (regcode s) (place s (3 + ?n)) (add (hdr BRANCH 0 @ f None @ hdr BACK 0) s) = Some (add (hdr BRANCH 0 @ ?f @ hdr BACK 0) s)"
    using regoptail_branch [OF f, of s "[]" "hdr BACK 0" 0 "regcode s"] R by simp
  have 4: "regoptail (regcode s) (regcode s) (add (hdr BRANCH 0 @ ?f @ hdr BACK 0) s) = Some (add (hdr BRANCH 0 @ ?f @ hdr BACK (3 + ?n)) s)"
  proof -
    have "leads P (length pre + 3) (length pre + length (hdr BRANCH 0 @ ?f))" if "P = pre @ (hdr BRANCH 0 @ ?f) @ hdr BACK 0 @ post" "length P < 65536" for P pre post
      using leads_over [OF f, of P "pre @ hdr BRANCH 0" 0 "hdr BACK 0 @ post"] that n by (simp add: add.assoc)
    from regtail_loop [of s "hdr BRANCH 0 @ ?f" 3, OF _ this]
    have T: "regtail (place s 3) (regcode s) (add (hdr BRANCH 0 @ ?f @ hdr BACK 0) s) = Some (add (hdr BRANCH 0 @ ?f @ hdr BACK (3 + ?n)) s)"
      using R [of "6 + ?n"] n by (simp add: ac_simps)
    show ?thesis using R [of 0]
    proof (rule room_cases)
      fix m assume m: "regcode s = Node m"
      have "m + 3 \<le> length (rprog s)" using R [of 3] m by (simp add: room_def)
      then have "rd (rprog (add (hdr BRANCH 0 @ ?f @ hdr BACK 0) s)) m = Some BRANCH" using m by (simp add: add_def rd_def hdr_def nth_append)
      then show ?thesis using T m by (simp add: regoptail_def place_def OPERAND_def)
    qed (simp_all add: regoptail_def add_def n)
  qed
  have 5: "regnode BRANCH (add (hdr BRANCH 0 @ ?f @ hdr BACK (3 + ?n)) s) = Some (place s (6 + ?n), add (hdr BRANCH 0 @ ?f @ hdr BACK (3 + ?n) @ hdr BRANCH 0) s)"
    by (simp add: node n)
  have 6: "regtail (regcode s) (place s (6 + ?n)) (add (hdr BRANCH 0 @ ?f @ hdr BACK (3 + ?n) @ hdr BRANCH 0) s) =
      Some (add (hdr BRANCH (6 + ?n) @ ?f @ hdr BACK (3 + ?n) @ hdr BRANCH 0) s)"
    using regtail_add_at [OF tailed_branch, of s "[]" "?f @ hdr BACK (3 + ?n) @ hdr BRANCH 0" "3 + ?n" "regcode s"] R n by (simp add: ac_simps)
  have 7: "regnode NOTHING (add (hdr BRANCH (6 + ?n) @ ?f @ hdr BACK (3 + ?n) @ hdr BRANCH 0) s) =
      Some (place s (9 + ?n), add (hdr BRANCH (6 + ?n) @ ?f @ hdr BACK (3 + ?n) @ hdr BRANCH 0 @ hdr NOTHING 0) s)"
    by (simp add: node n)
  have J: "tailed (\<lambda>t. hdr BRANCH (6 + ?n) @ (?f @ hdr BACK (3 + ?n)) @ hdr BRANCH (dist 3 t))"
    by (rule tailed_jump [OF tailed_branch]) (simp_all add: opcodes n)
  have 8: "regtail (regcode s) (place s (9 + ?n)) (add (hdr BRANCH (6 + ?n) @ ?f @ hdr BACK (3 + ?n) @ hdr BRANCH 0 @ hdr NOTHING 0) s) =
      Some (add (star_code False f None) s)"
    using regtail_add_at [OF J, of s "[]" "hdr NOTHING 0" 0 "regcode s"] R n by (simp add: ac_simps star_code_def)
  show ?thesis using fl by (simp add: reg_repeat_def 1 2 3 4 5 6 7 8)
qed

lemma repeat_plus:
  assumes f: "tailed f" and r: "room s (12 + length (f None))" and fl: "SIMPLE \<notin> fl"
  shows "reg_repeat 43 fl (regcode s) (add (f None) s) = Some (add (plus_code False f None) s)"
proof -
  let ?n = "length (f None)" and ?f = "f (Some 0)"
  have n: "length ?f = ?n" by (rule tailed_length [OF f])
  have R: "room s k" if "k \<le> 12 + ?n" for k using room_mono [OF r that] .
  have node: "regnode op (add c s) = Some (place s (length c), add (c @ hdr op 0) s)" if "length c \<le> 9 + ?n" for op c
    using regnode_add [OF room_add [OF R], of c op] add_add [OF R, of c] that by simp
  have 1: "regnode BRANCH (add (f None) s) = Some (place s ?n, add (f None @ hdr BRANCH 0) s)" by (simp add: node)
  have 2: "regtail (regcode s) (place s ?n) (add (f None @ hdr BRANCH 0) s) = Some (add (?f @ hdr BRANCH 0) s)"
    using regtail_add_at [OF f, of s "[]" "hdr BRANCH 0" 0 "regcode s"] R by simp
  have 3: "regnode BACK (add (?f @ hdr BRANCH 0) s) = Some (place s (3 + ?n), add (?f @ hdr BRANCH 0 @ hdr BACK 0) s)" by (simp add: node n ac_simps)
  have 4: "regtail (place s (3 + ?n)) (regcode s) (add (?f @ hdr BRANCH 0 @ hdr BACK 0) s) = Some (add (?f @ hdr BRANCH 0 @ hdr BACK (3 + ?n)) s)"
    using regtail_loop [of s "?f @ hdr BRANCH 0" "3 + ?n"] R [of "6 + ?n"] n by (simp add: ac_simps)
  have 5: "regnode BRANCH (add (?f @ hdr BRANCH 0 @ hdr BACK (3 + ?n)) s) = Some (place s (6 + ?n), add (?f @ hdr BRANCH 0 @ hdr BACK (3 + ?n) @ hdr BRANCH 0) s)"
    by (simp add: node n ac_simps)
  have 6: "regtail (place s ?n) (place s (6 + ?n)) (add (?f @ hdr BRANCH 0 @ hdr BACK (3 + ?n) @ hdr BRANCH 0) s) =
      Some (add (?f @ hdr BRANCH 6 @ hdr BACK (3 + ?n) @ hdr BRANCH 0) s)"
    using regtail_add_at [OF tailed_branch, of s ?f "hdr BACK (3 + ?n) @ hdr BRANCH 0" 3 "place s ?n"] R n by (simp add: ac_simps)
  have 7: "regnode NOTHING (add (?f @ hdr BRANCH 6 @ hdr BACK (3 + ?n) @ hdr BRANCH 0) s) =
      Some (place s (9 + ?n), add (?f @ hdr BRANCH 6 @ hdr BACK (3 + ?n) @ hdr BRANCH 0 @ hdr NOTHING 0) s)"
    by (simp add: node n ac_simps)
  have "tailed (\<lambda>t. hdr BRANCH 6 @ hdr BACK (3 + ?n) @ hdr BRANCH (dist 3 t))" by (rule tailed_jump [OF tailed_branch]) (simp_all add: opcodes)
  from tailed_over [OF f this, of 0 "[]"] have J: "tailed (\<lambda>t. ?f @ hdr BRANCH 6 @ hdr BACK (3 + ?n) @ hdr BRANCH (dist 3 t))" by simp
  have 8: "regtail (regcode s) (place s (9 + ?n)) (add (?f @ hdr BRANCH 6 @ hdr BACK (3 + ?n) @ hdr BRANCH 0 @ hdr NOTHING 0) s) =
      Some (add (plus_code False f None) s)"
    using regtail_add_at [OF J, of s "[]" "hdr NOTHING 0" 0 "regcode s"] R n by (simp add: ac_simps plus_code_def)
  show ?thesis using fl by (simp add: reg_repeat_def 1 2 3 4 5 6 7 8)
qed

lemma repeat_spec:
  assumes f: "tailed (emit r)" and s: "room s (length (emit (repeated op r) None))" and op: "ISMULT op"
  shows "reg_repeat op (flags_of r) (regcode s) (add (emit r None) s) = Some (add (emit (repeated op r) None) s)"
proof -
  have fl: "SIMPLE \<in> flags_of r \<longleftrightarrow> simple r" by (simp add: flags_of_def)
  have n: "length (emit r (Some d)) = length (emit r None)" for d by (rule tailed_length [OF f])
  consider "op = 63" | "op = 42" "simple r" | "op = 43" "simple r" | "op = 42" "\<not> simple r" | "op = 43" "\<not> simple r"
    using op by (auto simp: ISMULT_def)
  then show ?thesis
  proof cases
    case 1
    then show ?thesis using repeat_maybe [OF f] s by (simp add: repeated_def maybe_code_def n)
  next
    case 2
    then show ?thesis using reginsert_add [of s "emit r None" STAR] s fl by (simp add: repeated_def reg_repeat_def star_code_def)
  next
    case 3
    then show ?thesis using reginsert_add [of s "emit r None" PLUS] s fl by (simp add: repeated_def reg_repeat_def plus_code_def)
  next
    case 4
    then show ?thesis using repeat_star [OF f] s fl by (simp add: repeated_def star_code_def n)
  next
    case 5
    then show ?thesis using repeat_plus [OF f, of s "flags_of r"] s fl by (simp add: repeated_def plus_code_def n add.commute)
  qed
qed

end
