(* ===== verification/Windiff_Regexp_Compile.thy ===== *)
theory Windiff_Regexp_Compile
  imports Windiff_Regexp_Emit
begin

text \<open>
  What compiling does, in both passes: every routine of the compiler agrees with the parser of patterns;
  where that succeeds, the routine emits the code of the expression, in the first pass counting its bytes.
\<close>

subsection \<open>Places in the pattern\<close>

definition at :: "cstring \<Rightarrow> rstate \<Rightarrow> cstring \<Rightarrow> nat \<Rightarrow> bool" where
  "at exp s cs np \<longleftrightarrow> keeps exp cs \<and> regparse s = length exp - length cs \<and> regnpar s = np"

definition moved :: "cstring \<Rightarrow> cstring \<Rightarrow> nat \<Rightarrow> rstate \<Rightarrow> rstate" where
  "moved exp cs np s = s\<lparr>regparse := length exp - length cs, regnpar := np\<rparr>"

lemma moved_simps [simp]:
  "add c (moved exp cs np s) = moved exp cs np (add c s)" "regcode (moved exp cs np s) = regcode s"
  "room (moved exp cs np s) k = room s k" "place (moved exp cs np s) k = place s k"
  "moved exp cs np (moved exp ds mp s) = moved exp cs np s"
  by (simp_all add: moved_def)

lemma at_moved: "keeps exp cs \<Longrightarrow> at exp (moved exp cs np s) cs np"
  by (simp add: at_def moved_def)

lemma at_add [simp]: "at exp (add c s) cs np = at exp s cs np"
  by (simp add: at_def)

lemma moved_at: "at exp s cs np \<Longrightarrow> moved exp cs np s = s"
  by (cases s) (simp add: at_def moved_def)

lemma at_split: "at exp s cs np \<Longrightarrow> \<exists>pre. exp = pre @ cs \<and> regparse s = length pre \<and> cs \<noteq> []"
  by (auto simp: at_def keeps_def suffix_def nul_def)

lemma at_rd: "at exp s cs np \<Longrightarrow> rd exp (regparse s) = Some (hd cs)"
  using at_split [of exp s cs np] by (auto simp: rd_def hd_conv_nth nth_append)

lemma at_drop: "at exp s cs np \<Longrightarrow> drop (regparse s) exp = cs"
  using at_split [of exp s cs np] by auto

lemma at_keeps: "at exp s cs np \<Longrightarrow> keeps exp cs" "at exp s cs np \<Longrightarrow> nul cs"
  by (simp_all add: at_def keeps_def)

lemma at_eats: "at exp s cs np \<Longrightarrow> eats cs rest \<Longrightarrow> keeps exp rest"
  using keeps_trans [OF at_keeps(1) eats_keeps] by blast

lemma at_advance: "at exp s cs np \<Longrightarrow> n < length cs \<Longrightarrow> advance n s = moved exp (drop n cs) np s"
  using at_split [of exp s cs np] by (auto simp: moved_def at_def)

lemma at_next: "at exp s cs np \<Longrightarrow> hd cs \<noteq> 0 \<Longrightarrow> advance 1 s = moved exp (tl cs) np s \<and> eats cs (tl cs) \<and> keeps exp (tl cs)"
proof -
  assume a: "at exp s cs np" "hd cs \<noteq> 0"
  have e: "eats cs (tl cs)" by (rule eats_tl [OF at_keeps(2) [OF a(1)] a(2)])
  then have "tl cs \<noteq> []" using nul_nonempty [of "tl cs"] by (simp add: eats_def)
  then have "1 < length cs" by (cases cs) auto
  from at_advance [OF a(1) this] show ?thesis using e at_eats [OF a(1) e] by (simp add: drop_Suc)
qed

subsection \<open>Agreement with the parser\<close>

definition compiles :: "cstring \<Rightarrow> (rstate \<Rightarrow> parsed) \<Rightarrow> cstring \<Rightarrow> nat \<Rightarrow> byte list \<Rightarrow> flag set \<Rightarrow> cstring \<Rightarrow> nat \<Rightarrow> bool" where
  "compiles exp F cs np code fl rest np' \<longleftrightarrow>
     (\<forall>s. at exp s cs np \<longrightarrow> room s (length code) \<longrightarrow> F s = Some (regcode s, fl, moved exp rest np' (add code s)))"

definition rejects :: "cstring \<Rightarrow> (rstate \<Rightarrow> parsed) \<Rightarrow> cstring \<Rightarrow> nat \<Rightarrow> bool" where
  "rejects exp F cs np \<longleftrightarrow> (\<forall>s. at exp s cs np \<longrightarrow> regcode s = Regdummy \<longrightarrow> (\<exists>fl s'. F s = Some (NoNode, fl, s')))"

definition agrees :: "cstring \<Rightarrow> (rstate \<Rightarrow> parsed) \<Rightarrow> cstring \<Rightarrow> nat \<Rightarrow> re parse \<Rightarrow> bool" where
  "agrees exp F cs np p \<longleftrightarrow> (case p of
     Some (r, rest, np') \<Rightarrow> compiles exp F cs np (emit r None) (flags_of r) rest np'
   | None \<Rightarrow> rejects exp F cs np)"

subsection \<open>Classes\<close>

lemma dummy_room: "regcode s = Regdummy \<Longrightarrow> room s k"
  by (simp add: room_def)

lemma dummy_place: "regcode s = Regdummy \<Longrightarrow> place s k = Regdummy"
  by (simp add: place_def)

lemma class_loop_spec:
  "at exp s cs np \<Longrightarrow> suffix (a # cs) exp \<Longrightarrow>
    (case members a cs of
       Some (ms, rest) \<Rightarrow> room s (length ms) \<longrightarrow> class_loop exp s = Some (Some (moved exp rest np (add ms s)))
     | None \<Rightarrow> regcode s = Regdummy \<longrightarrow> class_loop exp s = Some None)"
proof (induction a cs arbitrary: s rule: members.induct)
  case (1 a)
  then show ?case using at_split by blast
next
  case (2 a c cs)
  note A = "2.prems"(1)
  have r: "rd exp (regparse s) = Some c" using at_rd [OF A] by simp
  show ?case
  proof (cases "c = 0 \<or> c = 93")
    case True
    then show ?thesis using r moved_at [OF A] by (subst class_loop.simps) auto
  next
    case False
    then have n: "advance 1 s = moved exp cs np s" "keeps exp cs" using at_next [OF A] by auto
    have A1: "at exp (moved exp cs np s) cs np" by (rule at_moved [OF n(2)])
    show ?thesis
    proof (cases "c = 45")
      case dash: True
      obtain d ds where d: "cs = d # ds" using at_split [OF A1] by (cases cs) auto
      have r1: "rd exp (regparse (moved exp cs np s)) = Some d" using at_rd [OF A1] d by simp
      have start: "class_loop exp s = (if d = 93 \<or> d = 0 then do { s \<leftarrow> regc 45 (moved exp cs np s); class_loop exp s }
        else if unat a + 1 > unat d + 1 then Some None
        else do { s \<leftarrow> regcs (map of_nat [unat a + 1..<unat d + 1]) (moved exp cs np s); class_loop exp (advance 1 s) })"
      proof -
        obtain pre where "exp = pre @ a # 45 # cs" using "2.prems"(2) dash by (auto simp: suffix_def)
        then have "rd exp (regparse (moved exp cs np s) - 2) = Some a" by (simp add: moved_def rd_def nth_append)
        then show ?thesis using False dash r r1 n(1) by (subst class_loop.simps) (simp add: Let_def)
      qed
      show ?thesis
      proof (cases "d = 93 \<or> d = 0")
        case True
        have "class_loop exp (moved exp cs np (add [45] s)) = Some (Some (moved exp cs np (add [45] s)))"
          using True r1 at_rd [OF at_moved [OF n(2)], of np "add [45] s"] d by (subst class_loop.simps) auto
        then have "room s 1 \<Longrightarrow> class_loop exp s = Some (Some (moved exp cs np (add [45] s)))"
          using start True regc_add [of "moved exp cs np s" 45] by simp
        then show ?thesis using False dash d True by simp
      next
        case nd: False
        let ?ms = "map of_nat [unat a + 1..<unat d + 1] :: byte list"
        have le: "\<not> unat a > unat d \<Longrightarrow> \<not> (unat a + 1 > unat d + 1)" by simp
        have e: "eats cs ds" "keeps exp ds" using eats_tl [of cs] at_keeps(2) [OF A1] nd d at_eats [OF A1] by auto
        have A2: "at exp (moved exp ds np (add ?ms s)) ds np" by (rule at_moved [OF e(2)])
        have suf: "suffix (d # ds) exp" using n(2) d by (simp add: keeps_def)
        show ?thesis
        proof (cases "unat a > unat d")
          case True
          then show ?thesis using start False dash d nd by simp
        next
          case ok: False
          have go: "class_loop exp s = class_loop exp (moved exp ds np (add ?ms s))" if "room s (length ?ms)"
          proof -
            have "regcs ?ms (moved exp cs np s) = Some (moved exp cs np (add ?ms s))" using regcs_add [of "moved exp cs np s" ?ms] that by simp
            moreover have "advance 1 (moved exp cs np (add ?ms s)) = moved exp ds np (add ?ms s)"
              using at_next [OF at_moved [OF n(2)], of np "add ?ms s"] nd d by simp
            ultimately show ?thesis using start nd ok by simp
          qed
          have I: "case members d ds of
             Some (ms, rest) \<Rightarrow> room (moved exp ds np (add ?ms s)) (length ms) \<longrightarrow>
               class_loop exp (moved exp ds np (add ?ms s)) = Some (Some (moved exp rest np (add ms (moved exp ds np (add ?ms s)))))
           | None \<Rightarrow> regcode (moved exp ds np (add ?ms s)) = Regdummy \<longrightarrow> class_loop exp (moved exp ds np (add ?ms s)) = Some None"
            by (rule "2.IH"(1) [OF False dash d nd ok A2 suf])
          show ?thesis
          proof (cases "members d ds")
            case None
            then show ?thesis using I go False dash d nd ok dummy_room dummy_place by simp
          next
            case (Some x)
            obtain ns rest where x: "x = (ns, rest)" by (cases x)
            have "class_loop exp s = Some (Some (moved exp rest np (add (?ms @ ns) s)))" if rm: "room s (length (?ms @ ns))"
              using I Some x go room_mono [OF rm] room_add [of s ?ms "length ns"] rm add_add [of s ?ms ns] by simp
            then show ?thesis using Some x False dash d nd ok by simp
          qed
        qed
      qed
    next
      case nd: False
      have suf: "suffix (c # cs) exp" using A by (simp add: at_def keeps_def)
      have start: "class_loop exp s = class_loop exp (moved exp cs np (add [c] s))" if "room s 1"
        using False nd r n(1) regc_add [of "moved exp cs np s" c] that by (subst class_loop.simps) simp
      have A1': "at exp (moved exp cs np (add [c] s)) cs np" by (rule at_moved [OF n(2)])
      have I: "case members c cs of
           Some (ms, rest) \<Rightarrow> room (moved exp cs np (add [c] s)) (length ms) \<longrightarrow>
             class_loop exp (moved exp cs np (add [c] s)) = Some (Some (moved exp rest np (add ms (moved exp cs np (add [c] s)))))
         | None \<Rightarrow> regcode (moved exp cs np (add [c] s)) = Regdummy \<longrightarrow> class_loop exp (moved exp cs np (add [c] s)) = Some None"
        by (rule "2.IH"(2) [OF False nd A1' suf])
      show ?thesis
      proof (cases "members c cs")
        case None
        then show ?thesis using I start False nd dummy_room dummy_place by simp
      next
        case (Some x)
        obtain ns rest where x: "x = (ns, rest)" by (cases x)
        have "class_loop exp s = Some (Some (moved exp rest np (add (c # ns) s)))" if rm: "room s (Suc (length ns))"
          using I Some x start room_mono [OF rm] room_add [of s "[c]" "length ns"] rm add_add [of s "[c]" ns] by simp
        then show ?thesis using Some x False nd by simp
      qed
    qed
  qed
qed

lemma regcs_moved: "room s (length bs) \<Longrightarrow> regcs bs (moved exp cs np s) = Some (moved exp cs np (add bs s))"
  using regcs_add [of "moved exp cs np s" bs] by simp

lemma regc_moved: "room s 1 \<Longrightarrow> regc b (moved exp cs np s) = Some (moved exp cs np (add [b] s))"
  using regc_add [of "moved exp cs np s" b] by simp

lemma regnode_moved: "room s 3 \<Longrightarrow> regnode op (moved exp cs np s) = Some (regcode s, moved exp cs np (add (hdr op 0) s))"
  using regnode_add [of "moved exp cs np s" op] by simp

text \<open>A class after the hat, if there is one: its members and the closing bracket.\<close>

definition class_rest :: "cstring \<Rightarrow> node \<Rightarrow> rstate \<Rightarrow> parsed" where
  "class_rest exp ret s = do {
     c \<leftarrow> rd exp (regparse s);
     s \<leftarrow> (if c = 93 \<or> c = 45 then regc c (advance 1 s) else Some s);
     r \<leftarrow> class_loop exp s;
     (case r of
        None \<Rightarrow> FAIL s
      | Some s \<Rightarrow> do {
          s \<leftarrow> regc 0 s;
          c \<leftarrow> rd exp (regparse s);
          if c \<noteq> 93 then FAIL s else Some (ret, {HASWIDTH, SIMPLE}, advance 1 s)
        })
   }"

lemma class_loop_moved:
  assumes "suffix (a # cs) exp" "keeps exp cs"
  shows "case members a cs of
      Some (ms, rest) \<Rightarrow> room s (length ms) \<longrightarrow> class_loop exp (moved exp cs np s) = Some (Some (moved exp rest np (add ms s)))
    | None \<Rightarrow> regcode s = Regdummy \<longrightarrow> class_loop exp (moved exp cs np s) = Some None"
  using class_loop_spec [OF at_moved [OF assms(2)] assms(1), of np s] by (simp split: option.splits prod.splits)

lemma class_rest_spec:
  assumes k: "keeps exp cs" and a: "suffix (a # cs) exp"
  shows "case p_members a cs of
      Some (ms, rest) \<Rightarrow> room s (length ms + 1) \<longrightarrow>
        class_rest exp ret (moved exp cs np s) = Some (ret, {HASWIDTH, SIMPLE}, moved exp rest np (add (ms @ [0]) s))
    | None \<Rightarrow> regcode s = Regdummy \<longrightarrow> (\<exists>fl s'. class_rest exp ret (moved exp cs np s) = Some (NoNode, fl, s'))"
proof -
  let ?first = "if hd cs = 93 \<or> hd cs = 45 then [hd cs] else []"
  let ?b = "if hd cs = 93 \<or> hd cs = 45 then hd cs else a" and ?ds = "drop (length ?first) cs"
  have nul: "nul cs" using k by (simp add: keeps_def)
  have ne: "cs \<noteq> []" by (rule nul_nonempty [OF nul])
  have e: "hd cs = 93 \<or> hd cs = 45 \<Longrightarrow> eats cs (tl cs)" using eats_tl [OF nul] by auto
  have kd: "keeps exp ?ds" using k e keeps_trans eats_keeps by (auto simp: drop_Suc)
  have sd: "suffix (?b # ?ds) exp" using a k ne by (auto simp: keeps_def drop_Suc)
  have r: "rd exp (regparse (moved exp cs np s)) = Some (hd cs)" by (rule at_rd [OF at_moved [OF k]])
  have first: "(if hd cs = 93 \<or> hd cs = 45 then regc (hd cs) (advance 1 (moved exp cs np s)) else Some (moved exp cs np s)) =
      Some (moved exp ?ds np (add ?first s))" if "room s (length ?first)"
    using at_next [OF at_moved [OF k], of np s] that regc_moved [of s "hd cs" exp "tl cs" np] by (auto simp: drop_Suc)
  have P: "p_members a cs = do { (ms, rest) \<leftarrow> map_option (\<lambda>(ms, rest). (?first @ ms, rest)) (members ?b ?ds); if hd rest = 93 then Some (ms, tl rest) else None }"
    by (auto simp: p_members_def drop_Suc case_prod_beta' map_option.id [unfolded id_def])
  note L = class_loop_moved [OF sd kd, of "add ?first s" np]
  show ?thesis
  proof (cases "members ?b ?ds")
    case None
    then have "regcode s = Regdummy \<Longrightarrow> \<exists>fl s'. class_rest exp ret (moved exp cs np s) = Some (NoNode, fl, s')"
      using L r first dummy_room [of s] dummy_place [of s] by (simp add: class_rest_def FAIL_def)
    then show ?thesis using None by (simp add: P)
  next
    case (Some x)
    obtain ms rest where x: "x = (ms, rest)" by (cases x)
    have m: "members ?b ?ds = Some (ms, rest)" using Some x by simp
    have "nul ?ds" using kd unfolding keeps_def by (rule conjunct2)
    then have "keeps ?ds rest" using members_keeps [OF m] by (rule_tac conjunct1)
    then have kr: "keeps exp rest" by (rule keeps_trans [OF kd])
    have r2: "rd exp (regparse (moved exp rest np t)) = Some (hd rest)" for t by (rule at_rd [OF at_moved [OF kr]])
    have run: "class_rest exp ret (moved exp cs np s) = (if hd rest \<noteq> 93 then FAIL (moved exp rest np (add ((?first @ ms) @ [0]) s))
        else Some (ret, {HASWIDTH, SIMPLE}, advance 1 (moved exp rest np (add ((?first @ ms) @ [0]) s))))" if rm: "room s (length (?first @ ms) + 1)"
    proof -
      have R: "room s (length ?first)" "room s (length (?first @ ms))" using room_mono [OF rm] by simp_all
      have R2: "room (add ?first s) (length ms)" "room (add (?first @ ms) s) 1"
        using room_add [of s ?first "length ms"] R(2) room_add [of s "?first @ ms" 1] rm by simp_all
      have c: "class_loop exp (moved exp ?ds np (add ?first s)) = Some (Some (moved exp rest np (add (?first @ ms) s)))"
        using L Some x R2(1) add_add [OF R(1)] by simp
      have z: "regc 0 (moved exp rest np (add (?first @ ms) s)) = Some (moved exp rest np (add ((?first @ ms) @ [0]) s))"
        using regc_moved [OF R2(2)] add_add [OF R(2)] by simp
      show ?thesis unfolding class_rest_def r bind.bind_lunit first [OF R(1)] c z r2 option.case by (simp add: r2)
    qed
    show ?thesis
    proof (cases "hd rest = 93")
      case True
      then have "advance 1 (moved exp rest np t) = moved exp (tl rest) np t" for t using at_next [OF at_moved [OF kr], of np t] by simp
      then show ?thesis using run True Some x by (simp add: P)
    next
      case False
      then show ?thesis using run Some x dummy_room [of s] by (simp add: P FAIL_def)
    qed
  qed
qed

lemma regclass_eq:
  "regclass exp s = do {
     c \<leftarrow> rd exp (regparse s);
     (ret, s) \<leftarrow> (if c = 94 then do { (ret, s) \<leftarrow> regnode ANYBUT s; Some (ret, advance 1 s) } else regnode ANYOF s);
     class_rest exp ret s
   }"
  by (simp add: regclass_def class_rest_def)

lemma regclass_spec:
  assumes k: "keeps exp cs" and a: "suffix (91 # cs) exp"
  shows "case p_class cs of
      Some (r, rest) \<Rightarrow> room s (length (emit r None)) \<longrightarrow>
        regclass exp (moved exp cs np s) = Some (regcode s, flags_of r, moved exp rest np (add (emit r None) s))
    | None \<Rightarrow> regcode s = Regdummy \<longrightarrow> (\<exists>fl s'. regclass exp (moved exp cs np s) = Some (NoNode, fl, s'))"
proof -
  have r: "rd exp (regparse (moved exp cs np s)) = Some (hd cs)" by (rule at_rd [OF at_moved [OF k]])
  have G: "case p_members b ds of
      Some (ms, rest) \<Rightarrow> room s (4 + length ms) \<longrightarrow> class_rest exp (regcode s) (moved exp ds np (add (hdr op 0) s)) =
        Some (regcode s, {HASWIDTH, SIMPLE}, moved exp rest np (add (text_code op ms None) s))
    | None \<Rightarrow> regcode s = Regdummy \<longrightarrow> (\<exists>fl s'. class_rest exp (regcode s) (moved exp ds np (add (hdr op 0) s)) = Some (NoNode, fl, s'))"
    if kd: "keeps exp ds" "suffix (b # ds) exp" for b ds op
  proof (cases "p_members b ds")
    case None
    then show ?thesis using class_rest_spec [OF kd, of "add (hdr op 0) s" "regcode s" np] by (auto simp: dummy_place)
  next
    case (Some x)
    obtain ms rest where x: "x = (ms, rest)" by (cases x)
    have "class_rest exp (regcode s) (moved exp ds np (add (hdr op 0) s)) = Some (regcode s, {HASWIDTH, SIMPLE}, moved exp rest np (add (text_code op ms None) s))"
      if rm: "room s (4 + length ms)"
    proof -
      have R: "room s (length (hdr op 0))" "room (add (hdr op 0) s) (length ms + 1)"
        using room_mono [OF rm] room_add [of s "hdr op 0" "length ms + 1"] rm by simp_all
      show ?thesis using class_rest_spec [OF kd, of "add (hdr op 0) s" "regcode s" np] Some x R add_add [OF R(1)] by (simp add: text_code_def)
    qed
    then show ?thesis using Some x by simp
  qed
  have three: "room s (4 + k) \<Longrightarrow> room s 3" for k by (rule room_mono [of _ "4 + k"]) (assumption, linarith)
  have fl: "flags_of (AnyBut ms) = {HASWIDTH, SIMPLE}" "flags_of (AnyOf ms) = {HASWIDTH, SIMPLE}" for ms by (auto simp: flags_of_def)
  show ?thesis
  proof (cases "hd cs = 94")
    case True
    have nx: "advance 1 (moved exp cs np t) = moved exp (tl cs) np t" and kt: "keeps exp (tl cs)" for t
      using at_next [OF at_moved [OF k], of np] True by simp_all
    have "suffix (94 # tl cs) exp" using k True nul_nonempty [of cs] by (metis keeps_def list.collapse)
    note g = G [OF kt this, of ANYBUT]
    have run: "room s 3 \<Longrightarrow> regclass exp (moved exp cs np s) = class_rest exp (regcode s) (moved exp (tl cs) np (add (hdr ANYBUT 0) s))"
      using regnode_moved [of s ANYBUT exp cs np] nx [of "add (hdr ANYBUT 0) s"] r True by (simp add: regclass_eq)
    have p: "p_class cs = map_option (\<lambda>(ms, rest). (AnyBut ms, rest)) (p_members 94 (tl cs))" using True by (simp add: p_class_def)
    show ?thesis
    proof (cases "p_members 94 (tl cs)")
      case None
      then show ?thesis using g run dummy_room [of s 3] by (simp add: p)
    next
      case (Some x)
      obtain ms rest where x: "x = (ms, rest)" by (cases x)
      show ?thesis using g run three [of "length ms"] unfolding p Some x by (simp add: fl text_code_def)
    qed
  next
    case False
    note g = G [OF k a, of ANYOF]
    have run: "room s 3 \<Longrightarrow> regclass exp (moved exp cs np s) = class_rest exp (regcode s) (moved exp cs np (add (hdr ANYOF 0) s))"
      using regnode_moved [of s ANYOF exp cs np] r False by (simp add: regclass_eq)
    have p: "p_class cs = map_option (\<lambda>(ms, rest). (AnyOf ms, rest)) (p_members 91 cs)" using False by (simp add: p_class_def)
    show ?thesis
    proof (cases "p_members 91 cs")
      case None
      then show ?thesis using g run dummy_room [of s 3] by (simp add: p)
    next
      case (Some x)
      obtain ms rest where x: "x = (ms, rest)" by (cases x)
      show ?thesis using g run three [of "length ms"] unfolding p Some x by (simp add: fl text_code_def)
    qed
  qed
qed

subsection \<open>Atoms\<close>

lemma strcspn_spec: "0 \<in> set cs \<Longrightarrow> strcspn cs m = Some (length (takeWhile (\<lambda>c. c \<noteq> 0 \<and> c \<notin> set m) cs))"
  by (induction cs) auto

definition rec_agrees :: "cstring \<Rightarrow> nat \<Rightarrow> (rstate \<Rightarrow> parsed) \<Rightarrow> (cstring \<Rightarrow> nat \<Rightarrow> re list list parse) \<Rightarrow> bool" where
  "rec_agrees exp k crec prec \<longleftrightarrow> (\<forall>cs np. keeps exp cs \<longrightarrow> k \<le> np \<longrightarrow> agrees exp crec cs np (p_group prec cs np))"

lemma agreesI:
  assumes "\<And>r rest np' s. p = Some (r, rest, np') \<Longrightarrow> room s (length (emit r None)) \<Longrightarrow>
      F (moved exp cs np s) = Some (regcode s, flags_of r, moved exp rest np' (add (emit r None) s))"
    and "\<And>s. p = None \<Longrightarrow> regcode s = Regdummy \<Longrightarrow> \<exists>fl s'. F (moved exp cs np s) = Some (NoNode, fl, s')"
  shows "agrees exp F cs np p"
proof (cases p)
  case None
  then show ?thesis using assms(2) moved_at by (fastforce simp: agrees_def rejects_def)
next
  case (Some x)
  obtain r rest np' where x: "x = (r, rest, np')" by (cases x)
  then show ?thesis using assms(1) [of r rest np'] Some moved_at by (fastforce simp: agrees_def compiles_def)
qed

lemma agreesD:
  assumes "agrees exp F cs np p" "keeps exp cs"
  shows "p = Some (r, rest, np') \<Longrightarrow> room s (length (emit r None)) \<Longrightarrow>
      F (moved exp cs np s) = Some (regcode s, flags_of r, moved exp rest np' (add (emit r None) s))"
    "p = None \<Longrightarrow> regcode s = Regdummy \<Longrightarrow> \<exists>fl s'. F (moved exp cs np s) = Some (NoNode, fl, s')"
  using assms(1) at_moved [OF assms(2), of np s] by (auto simp: agrees_def compiles_def rejects_def)

lemma literal_spec:
  assumes k: "keeps exp cs" and n: "n \<le> length cs" "keeps exp (drop n cs)" and r: "room s (n + 4)"
  shows "do { (ret, s) \<leftarrow> regnode EXACTLY (moved exp cs np s); s \<leftarrow> regcs (take n cs) (moved exp (drop n cs) np s); s \<leftarrow> regc 0 s; Some (ret, fl, s) } =
    Some (regcode s, fl, moved exp (drop n cs) np (add (emit (Exactly (take n cs)) None) s))"
proof -
  let ?t = "take n cs"
  have R: "room s (length (hdr EXACTLY 0))" "room s (length (hdr EXACTLY 0 @ ?t))" "room s 3" using room_mono [OF r] n(1) by simp_all
  have R2: "room (add (hdr EXACTLY 0) s) (length ?t)" "room (add (hdr EXACTLY 0 @ ?t) s) 1"
    using room_add [of s "hdr EXACTLY 0" "length ?t"] room_add [of s "hdr EXACTLY 0 @ ?t" 1] R(2) r n(1) by (simp_all add: ac_simps)
  show ?thesis
    using regnode_moved [OF R(3), of EXACTLY exp cs np] regcs_moved [OF R2(1), of exp "drop n cs" np] regc_moved [OF R2(2), of 0 exp "drop n cs" np]
      add_add [OF R(1)] add_add [OF R(2)] by (simp add: text_code_def)
qed

lemma regatom_agrees:
  assumes k: "keeps exp cs" and rec: "rec_agrees exp m crec prec" "m \<le> np"
  shows "agrees exp (regatom crec exp) cs np (p_atom prec cs np)"
proof (cases "hd cs = 0")
  case True
  have "rd exp (regparse (moved exp cs np s)) = Some 0" for s using at_rd [OF at_moved [OF k, of np s]] True by simp
  then show ?thesis using True by (intro agreesI) (simp_all add: p_atom_def regatom_def FAIL_def)
next
  case False
  have r: "rd exp (regparse (moved exp cs np s)) = Some (hd cs)" for s by (rule at_rd [OF at_moved [OF k]])
  have nx: "advance 1 (moved exp cs np s) = moved exp (tl cs) np s" and e: "eats cs (tl cs)" and kt: "keeps exp (tl cs)" for s
    using at_next [OF at_moved [OF k], of np s] False by simp_all
  have nul: "nul cs" "nul (tl cs)" using k kt by (simp_all add: keeps_def)
  have r1: "rd exp (regparse (moved exp (tl cs) np s)) = Some (hd (tl cs))" for s by (rule at_rd [OF at_moved [OF kt]])
  consider (one) "hd cs \<in> {94, 36, 46}" | (cls) "hd cs = 91" | (paren) "hd cs = 40" | (bad) "hd cs = 124 \<or> hd cs = 41 \<or> ISMULT (hd cs)"
    | (esc) "hd cs = 92" | (lit) "hd cs \<notin> set META" by (auto simp: META_set)
  then show ?thesis
  proof cases
    case one
    obtain op a where o: "\<And>s. regatom crec exp (moved exp cs np s) = do { (ret, s) \<leftarrow> regnode op (moved exp (tl cs) np s); Some (ret, flags_of a, s) }"
      and p: "p_atom prec cs np = Some (a, tl cs, np)" and c: "emit a None = hdr op 0"
    proof -
      from one consider "hd cs = 94" | "hd cs = 36" | "hd cs = 46" by auto
      then show ?thesis
      proof cases
        case 1
        then show ?thesis using that [of BOL Bol] r nx by (simp add: p_atom_def regatom_def Let_def flags_of_def)
      next
        case 2
        then show ?thesis using that [of EOL Eol] r nx by (simp add: p_atom_def regatom_def Let_def flags_of_def)
      next
        case 3
        then show ?thesis using that [of ANY Any] r nx by (simp add: p_atom_def regatom_def Let_def flags_of_def insert_commute)
      qed
    qed
    have "room s (length (emit a None)) \<Longrightarrow> regnode op (moved exp (tl cs) np s) = Some (regcode s, moved exp (tl cs) np (add (emit a None) s))" for s
      using regnode_moved [of s op exp "tl cs" np] c by simp
    then show ?thesis by (intro agreesI) (auto simp: o p)
  next
    case cls
    have suf: "suffix (91 # tl cs) exp" using k cls nul_nonempty [OF nul(1)] by (metis keeps_def list.collapse)
    note c = regclass_spec [OF kt suf]
    have run: "regatom crec exp (moved exp cs np s) = regclass exp (moved exp (tl cs) np s)" for s using cls r nx by (simp add: regatom_def Let_def)
    have p: "p_atom prec cs np = map_option (\<lambda>(r, rest). (r, rest, np)) (p_class (tl cs))" using cls by (simp add: p_atom_def)
    show ?thesis
    proof (rule agreesI)
      fix r rest np' s assume g: "p_atom prec cs np = Some (r, rest, np')" "room s (length (emit r None))"
      then have "p_class (tl cs) = Some (r, rest)" "np' = np" by (auto simp: p)
      then show "regatom crec exp (moved exp cs np s) = Some (regcode s, flags_of r, moved exp rest np' (add (emit r None) s))"
        using c [of s np] g(2) by (simp add: run)
    next
      fix s :: rstate assume "p_atom prec cs np = None" "regcode s = Regdummy"
      then show "\<exists>fl s'. regatom crec exp (moved exp cs np s) = Some (NoNode, fl, s')" using c [of s np] by (simp add: p run)
    qed
  next
    case paren
    have run: "regatom crec exp (moved exp cs np s) = do {
       (ret, flags, s) \<leftarrow> crec (moved exp (tl cs) np s);
       if ret = NoNode then FAIL s else Some (ret, flags \<inter> {HASWIDTH, SPSTART}, s) }" for s using paren r nx by (simp add: regatom_def Let_def)
    have p: "p_atom prec cs np = p_group prec (tl cs) np" using paren by (simp add: p_atom_def)
    have a: "agrees exp crec (tl cs) np (p_group prec (tl cs) np)" using rec kt by (simp add: rec_agrees_def)
    show ?thesis
    proof (rule agreesI)
      fix r rest np' s assume g: "p_atom prec cs np = Some (r, rest, np')" and rm: "room s (length (emit r None))"
      have "\<exists>n bs. r = Group n bs" using g by (auto simp: p p_group_def bind_Some_iff split: if_splits)
      then have "flags_of r \<inter> {HASWIDTH, SPSTART} = flags_of r" by (auto simp: flags_of_def)
      then show "regatom crec exp (moved exp cs np s) = Some (regcode s, flags_of r, moved exp rest np' (add (emit r None) s))"
        using agreesD(1) [OF a kt g [unfolded p] rm] room_place [OF rm, of 0] by (simp add: run)
    next
      fix s :: rstate assume g: "p_atom prec cs np = None" and d: "regcode s = Regdummy"
      then show "\<exists>fl s'. regatom crec exp (moved exp cs np s) = Some (NoNode, fl, s')"
        using agreesD(2) [OF a kt _ d] by (auto simp: p run FAIL_def)
    qed
  next
    case bad
    then show ?thesis using False r nx by (intro agreesI) (auto simp: p_atom_def regatom_def FAIL_def Let_def ISMULT_def)
  next
    case esc
    show ?thesis
    proof (rule agreesI)
      fix r' rest np' s assume g: "p_atom prec cs np = Some (r', rest, np')" and rm: "room s (length (emit r' None))"
      then have g': "hd (tl cs) \<noteq> 0" "r' = Exactly [hd (tl cs)]" "rest = tl (tl cs)" "np' = np" using esc by (auto simp: p_atom_def ISMULT_def split: if_splits)
      have nx2: "advance 1 (moved exp (tl cs) np t) = moved exp (tl (tl cs)) np t" and k2: "keeps exp (tl (tl cs))" for t
        using at_next [OF at_moved [OF kt], of np t] g'(1) by simp_all
      have one: "take 1 (tl cs) = [hd (tl cs)]" "drop 1 (tl cs) = tl (tl cs)" using nul_nonempty [OF nul(2)] by (cases "tl cs"; simp)+
      have "0 < length (tl cs)" using nul_nonempty [OF nul(2)] by blast
      then have "room s (1 + 4)" "1 \<le> length (tl cs)" using rm g' by (simp_all add: text_code_def)
      note L = literal_spec [OF kt this(2) _ this(1), of np "{HASWIDTH, SIMPLE}", unfolded one, OF k2]
      have fl: "flags_of r' = {HASWIDTH, SIMPLE}" by (auto simp: g' flags_of_def)
      have "room s 3" by (rule room_mono [OF rm]) (simp add: g' text_code_def)
      then show "regatom crec exp (moved exp cs np s) = Some (regcode s, flags_of r', moved exp rest np' (add (emit r' None) s))"
        using L r nx r1 esc g' nx2 fl regnode_moved [of s EXACTLY exp "tl cs" np] by (simp add: regatom_def Let_def)
    next
      fix s :: rstate assume "p_atom prec cs np = None"
      then have "hd (tl cs) = 0" using esc by (auto simp: p_atom_def ISMULT_def split: if_splits)
      then show "\<exists>fl s'. regatom crec exp (moved exp cs np s) = Some (NoNode, fl, s')" using r nx r1 esc by (simp add: regatom_def Let_def FAIL_def)
    qed
  next
    case lit
    note o = ordinary_facts [OF nul(1) False lit]
    have ne: "cs \<noteq> []" by (rule nul_nonempty [OF nul(1)])
    have z: "0 \<in> set cs" using nul(1) by (auto simp: nul_def)
    obtain n where n: "n \<noteq> 0" "n < length cs" and sp: "strcspn cs META = Some n" and len: "(if n > 1 \<and> ISMULT (cs ! n) then n - 1 else n) = ordinary cs"
      by (rule that [OF ordinary_bound [OF nul(1) False lit] strcspn_spec [OF z]]) (simp add: ordinary_def Let_def)
    have h: "hd cs \<noteq> 94" "hd cs \<noteq> 36" "hd cs \<noteq> 46" "hd cs \<noteq> 91" "hd cs \<noteq> 40" "hd cs \<noteq> 124" "hd cs \<noteq> 41" "hd cs \<noteq> 92"
      "hd cs \<noteq> 63" "hd cs \<noteq> 43" "hd cs \<noteq> 42" using lit by (auto simp: META_def)
    have back_up: "(moved exp (tl cs) np s)\<lparr>regparse := regparse (moved exp (tl cs) np s) - 1\<rparr> = moved exp cs np s" for s
      using at_split [OF at_moved [OF k, of np s]] ne by (auto simp: moved_def)
    have dr: "drop (regparse (moved exp cs np s)) exp = cs" for s by (rule at_drop [OF at_moved [OF k]])
    have en: "rd exp (regparse (moved exp cs np s) + n) = Some (cs ! n)" for s
      using at_split [OF at_moved [OF k, of np s]] n(2) by (auto simp: rd_def nth_append)
    have ad: "advance (ordinary cs) (moved exp cs np s) = moved exp (drop (ordinary cs) cs) np s" for s
      using at_advance [OF at_moved [OF k] o(2)] by simp
    have kd: "keeps exp (drop (ordinary cs) cs)" using eats_drop [OF nul(1) o(1,2)] by (rule at_eats [OF at_moved [OF k]])
    have g: "p_atom prec cs np = Some (Exactly (take (ordinary cs) cs), drop (ordinary cs) cs, np)"
      using h False by (simp add: p_atom_def ISMULT_def)
    have fl: "flags_of (Exactly (take (ordinary cs) cs)) = (if ordinary cs = 1 then {HASWIDTH, SIMPLE} else {HASWIDTH})"
      using o(2) by (auto simp: flags_of_def)
    have "regatom crec exp (moved exp cs np s) = Some (regcode s, flags_of (Exactly (take (ordinary cs) cs)),
        moved exp (drop (ordinary cs) cs) np (add (emit (Exactly (take (ordinary cs) cs)) None) s))"
      if rm: "room s (length (emit (Exactly (take (ordinary cs) cs)) None))" for s
    proof -
      have R: "room s (ordinary cs + 4)" "room s 3" using rm room_mono [OF rm, of 3] o(2) by (simp_all add: text_code_def add.commute)
      have nodes: "regnode EXACTLY (moved exp cs np s) = Some (regcode s, moved exp cs np (add (hdr EXACTLY 0) s))" by (rule regnode_moved [OF R(2)])
      have "regatom crec exp (moved exp cs np s) = do {
         (ret, s) \<leftarrow> regnode EXACTLY (moved exp cs np s);
         s \<leftarrow> regcs (take (ordinary cs) cs) (moved exp (drop (ordinary cs) cs) np s);
         s \<leftarrow> regc 0 s;
         Some (ret, if ordinary cs = 1 then {HASWIDTH, SIMPLE} else {HASWIDTH}, s) }"
        using h False nodes ad [of "add (hdr EXACTLY 0) s"] n(1) len
        by (simp add: regatom_def r nx Let_def back_up sp en dr)
      then show ?thesis using literal_spec [OF k less_imp_le [OF o(2)] kd R(1)] fl by simp
    qed
    then show ?thesis by (intro agreesI) (auto simp: g)
  qed
qed

subsection \<open>Pieces\<close>

lemma flags_of_mem [simp]: "HASWIDTH \<in> flags_of r \<longleftrightarrow> hasw r" "SIMPLE \<in> flags_of r \<longleftrightarrow> simple r" "SPSTART \<in> flags_of r \<longleftrightarrow> spst r"
  by (auto simp: flags_of_def)

lemma length_repeated: "tailed (emit r) \<Longrightarrow> length (emit r None) \<le> length (emit (repeated op r) None)"
  by (simp add: repeated_def star_code_def plus_code_def maybe_code_def tailed_length)

lemma regpiece_agrees:
  assumes k: "keeps exp cs" and rec: "rec_agrees exp m crec prec" "rec_keeps prec" "m \<le> np" "0 < np"
  shows "agrees exp (regpiece crec exp) cs np (p_piece prec cs np)"
proof (cases "p_atom prec cs np")
  case None
  show ?thesis
  proof (rule agreesI)
    fix s :: rstate assume "regcode s = Regdummy"
    from agreesD(2) [OF regatom_agrees [OF k rec(1,3)] k None this] obtain fl s' where "regatom crec exp (moved exp cs np s) = Some (NoNode, fl, s')" by blast
    then show "\<exists>fl s'. regpiece crec exp (moved exp cs np s) = Some (NoNode, fl, s')" by (simp add: regpiece_def FAIL_def)
  qed (simp add: p_piece_def None)
next
  case (Some x)
  obtain r mid n where x: "x = (r, mid, n)" by (cases x)
  have pa: "p_atom prec cs np = Some (r, mid, n)" using Some x by simp
  have nul: "nul cs" using k by (simp add: keeps_def)
  have e: "eats cs mid" "good r" using p_atom_eats [OF pa nul rec(2,4)] by simp_all
  have km: "keeps exp mid" by (rule keeps_trans [OF k eats_keeps [OF e(1)]])
  have tl: "tailed (emit r)" by (rule tailed_emit [OF e(2)])
  have atom: "regatom crec exp (moved exp cs np s) = Some (regcode s, flags_of r, moved exp mid n (add (emit r None) s))" "regcode s \<noteq> NoNode"
    if "room s (length (emit r None))" for s
    using agreesD(1) [OF regatom_agrees [OF k rec(1,3)] k pa that] room_place [OF that, of 0] by simp_all
  have rm: "rd exp (regparse (moved exp mid n s)) = Some (hd mid)" for s by (rule at_rd [OF at_moved [OF km]])
  show ?thesis
  proof (cases "ISMULT (hd mid)")
    case False
    then show ?thesis using pa atom rm by (intro agreesI) (auto simp: p_piece_def regpiece_def)
  next
    case mult: True
    have nz: "hd mid \<noteq> 0" using mult by (auto simp: ISMULT_def)
    have nx: "advance 1 (moved exp mid n s) = moved exp (tl mid) n s" and kt: "keeps exp (tl mid)" for s
      using at_next [OF at_moved [OF km], of n s] nz by simp_all
    have rt: "rd exp (Suc (regparse (moved exp mid n s))) = Some (hd (tl mid))" for s
      using at_rd [OF at_moved [OF kt, of n s]] unfolding nx [of s, symmetric] by simp
    have fl: "flags_of (repeated (hd mid) r) = (if hd mid \<noteq> 43 then {SPSTART} else {HASWIDTH})"
      using mult by (auto simp: repeated_def flags_of_def ISMULT_def)
    have run: "regpiece crec exp (moved exp cs np s) = (if ISMULT (hd (tl mid)) then FAIL (moved exp (tl mid) n (add (emit (repeated (hd mid) r) None) s))
        else Some (regcode s, flags_of (repeated (hd mid) r), moved exp (tl mid) n (add (emit (repeated (hd mid) r) None) s)))"
      if R: "room s (length (emit (repeated (hd mid) r) None))" and w: "hasw r \<or> hd mid = 63" for s
    proof -
      have R1: "room s (length (emit r None))" by (rule room_mono [OF R length_repeated [OF tl]])
      have "room (moved exp mid n s) (length (emit (repeated (hd mid) r) None))" using R by simp
      from repeat_spec [OF tl this mult]
      have "reg_repeat (hd mid) (flags_of r) (regcode s) (moved exp mid n (add (emit r None) s)) = Some (moved exp mid n (add (emit (repeated (hd mid) r) None) s))"
        by simp
      then show ?thesis using atom [OF R1] rm mult w nx [of "add (emit (repeated (hd mid) r) None) s"] rt fl by (auto simp: regpiece_def Let_def FAIL_def)
    qed
    show ?thesis
    proof (rule agreesI)
      fix r' rest np' s assume g: "p_piece prec cs np = Some (r', rest, np')" and R: "room s (length (emit r' None))"
      then have "r' = repeated (hd mid) r" "rest = tl mid" "np' = n" "hasw r \<or> hd mid = 63" "\<not> ISMULT (hd (tl mid))"
        using pa mult by (auto simp: p_piece_def split: if_splits)
      then show "regpiece crec exp (moved exp cs np s) = Some (regcode s, flags_of r', moved exp rest np' (add (emit r' None) s))"
        using run [of s] R by simp
    next
      fix s :: rstate assume g: "p_piece prec cs np = None" and d: "regcode s = Regdummy"
      show "\<exists>fl s'. regpiece crec exp (moved exp cs np s) = Some (NoNode, fl, s')"
      proof (cases "hasw r \<or> hd mid = 63")
        case True
        then have "ISMULT (hd (tl mid))" using g pa mult by (auto simp: p_piece_def split: if_splits)
        then show ?thesis using run [OF dummy_room [OF d] True] by (simp add: FAIL_def)
      next
        case False
        then show ?thesis using atom [OF dummy_room [OF d]] rm mult by (simp add: regpiece_def FAIL_def)
      qed
    qed
  qed
qed

end
