(* ===== verification/Windiff_Regexp_Reg.thy ===== *)
theory Windiff_Regexp_Reg
  imports Windiff_Regexp_Compile
begin

text \<open>
  Compiling branches, alternatives and whole patterns: \<open>regbranch\<close>, \<open>reg\<close> and \<open>regcomp\<close>.
\<close>

subsection \<open>Branches\<close>

definition bflags :: "re list \<Rightarrow> flag set" where
  "bflags rs = (if list_ex hasw rs then {HASWIDTH} else {}) \<union> (if starts (map spst rs) then {SPSTART} else {})"

text \<open>The code of what comes before a piece.\<close>

definition linked :: "re list \<Rightarrow> byte list" where
  "linked rs = concat (map (\<lambda>r. emit r (Some 0)) rs)"

lemma linked_simps [simp]: "linked [] = []" "linked (r # rs) = emit r (Some 0) @ linked rs"
  by (simp_all add: linked_def)

lemma seq_code_Cons: "rs \<noteq> [] \<Longrightarrow> seq_code (map emit (r # rs)) t = emit r (Some 0) @ seq_code (map emit rs) t"
  by (cases rs) simp_all

lemma length_seq: "tailed (emit q) \<Longrightarrow> length (emit q None) \<le> length (seq_code (map emit (q # qs)) None)"
  by (cases qs) (simp_all add: tailed_length)

lemma regtail_moved: "regtail p v s = Some t \<Longrightarrow> regtail p v (moved exp cs np s) = Some (moved exp cs np t)"
proof (cases "p = Regdummy")
  case False
  assume "regtail p v s = Some t"
  then obtain sc op where l: "last_node (rprog s) p = Some sc" "OP (rprog s) sc = Some op"
    and c: "(case (sc, v) of (Node i, Node j) \<Rightarrow> do {
             let offset = (if op = BACK then int i - int j else int j - int i);
             P \<leftarrow> wr (i + 1) (word_of_int (drop_bit 8 offset)) (rprog s);
             P \<leftarrow> wr (i + 2) (word_of_int offset) P;
             Some (s\<lparr>rprog := P\<rparr>) } | _ \<Rightarrow> None) = Some t"
    using False by (auto simp: regtail_def bind_Some_iff simp del: Let_def)
  obtain i j where "sc = Node i" "v = Node j" using c by (cases sc; cases v) auto
  then show ?thesis using False l c by (auto simp: regtail_def moved_def Let_def bind_Some_iff)
qed (simp add: regtail_def)

text \<open>The loop after its first piece \<open>r\<close>, at the end of \<open>c\<close>.\<close>

lemma branch_end:
  assumes "keeps exp cs"
  shows "hd cs = 0 \<or> hd cs = 124 \<or> hd cs = 41 \<Longrightarrow> branch_loop crec exp chain fl (moved exp cs np s) = Some (False, chain, fl, moved exp cs np s)"
  using at_rd [OF at_moved [OF assms, of np s]] by (subst branch_loop.simps) auto

lemma branch_step:
  assumes k: "keeps exp cs" and "\<not> (hd cs = 0 \<or> hd cs = 124 \<or> hd cs = 41)"
  shows "branch_loop crec exp chain fl (moved exp cs np s) = do {
     (latest, flags, s) \<leftarrow> regpiece crec exp (moved exp cs np s);
     if latest = NoNode then Some (True, chain, fl, s)
     else do {
       let fl = fl \<union> (flags \<inter> {HASWIDTH}) \<union> (if chain = NoNode then flags \<inter> {SPSTART} else {});
       s \<leftarrow> (if chain = NoNode then Some s else regtail chain latest s);
       branch_loop crec exp latest fl s
     }
   }"
  using assms(2) at_rd [OF at_moved [OF k, of np s]] by (subst branch_loop.simps) simp

lemma hasw_flags: "flags_of r \<inter> {HASWIDTH} = (if hasw r then {HASWIDTH} else {})" "flags_of r \<inter> {SPSTART} = (if spst r then {SPSTART} else {})"
  by (auto simp: flags_of_def)

lemma branch_loop_spec:
  "keeps exp cs \<Longrightarrow> rec_agrees exp m crec prec \<Longrightarrow> rec_keeps prec \<Longrightarrow> m \<le> np \<Longrightarrow> 0 < np \<Longrightarrow> good r \<Longrightarrow>
    (case p_branch prec cs np of
       Some (qs, rest, np') \<Rightarrow> room s (length c + length (seq_code (map emit (r # qs)) None)) \<longrightarrow>
         (\<exists>chain. chain \<noteq> NoNode \<and> branch_loop crec exp (place s (length c)) fl (moved exp cs np (add (c @ emit r None) s)) =
           Some (False, chain, fl \<union> (if list_ex hasw qs then {HASWIDTH} else {}), moved exp rest np' (add (c @ seq_code (map emit (r # qs)) None) s)))
     | None \<Rightarrow> regcode s = Regdummy \<longrightarrow>
         (\<exists>chain fl' s'. branch_loop crec exp (place s (length c)) fl (moved exp cs np (add (c @ emit r None) s)) = Some (True, chain, fl', s')))"
proof (induction prec cs np arbitrary: r c fl rule: p_branch.induct)
  case (1 prec cs np)
  note k = "1.prems"(1) and rec = "1.prems"(2,3) and np = "1.prems"(4,5) and r = "1.prems"(6)
  have tl: "tailed (emit r)" by (rule tailed_emit [OF r])
  show ?case
  proof (cases "hd cs = 0 \<or> hd cs = 124 \<or> hd cs = 41")
    case True
    have "p_branch prec cs np = Some ([], cs, np)" using True by (simp add: p_branch.simps)
    moreover have "place s (length c) \<noteq> NoNode" if "room s k" for k by (rule room_place [OF that])
    ultimately show ?thesis using branch_end [OF k True] by auto
  next
    case False
    note step = branch_step [OF k False]
    note P = regpiece_agrees [OF k rec np]
    have R: "room s (length c + length (emit r None)) \<Longrightarrow> place s (length c) \<noteq> NoNode" by (rule room_place)
    show ?thesis
    proof (cases "p_piece prec cs np")
      case None
      then have "p_branch prec cs np = None" using False by (simp add: p_branch.simps)
      moreover have "\<exists>chain fl' s'. branch_loop crec exp (place s (length c)) fl (moved exp cs np (add (c @ emit r None) s)) = Some (True, chain, fl', s')"
        if d: "regcode s = Regdummy"
      proof -
        have "regcode (add (c @ emit r None) s) = Regdummy" using d dummy_place by simp
        from agreesD(2) [OF P k None this] obtain fl' s' where "regpiece crec exp (moved exp cs np (add (c @ emit r None) s)) = Some (NoNode, fl', s')" by blast
        then show ?thesis by (simp add: step)
      qed
      ultimately show ?thesis by simp
    next
      case (Some x)
      obtain q mid n where x: "x = (q, mid, n)" by (cases x)
      have p: "p_piece prec cs np = Some (q, mid, n)" using Some x by simp
      have nul: "nul cs" using k by (simp add: keeps_def)
      have e: "eats cs mid" "good q" "np \<le> n" using p_piece_eats [OF p nul rec(2) np(2)] by simp_all
      have km: "keeps exp mid" by (rule keeps_trans [OF k eats_keeps [OF e(1)]])
      have len: "length mid < length cs" using e(1) by (simp add: eats_def)
      have B: "p_branch prec cs np = map_option (\<lambda>(rs, rest, n). (q # rs, rest, n)) (p_branch prec mid n)"
        using False p len by (subst p_branch.simps) (cases "p_branch prec mid n"; auto)
      have go: "branch_loop crec exp (place s (length c)) fl (moved exp cs np (add (c @ emit r None) s)) =
          branch_loop crec exp (place s (length (c @ emit r (Some 0)))) (fl \<union> (if hasw q then {HASWIDTH} else {}))
            (moved exp mid n (add ((c @ emit r (Some 0)) @ emit q None) s))"
        if rm: "room s (length c + length (emit r None) + length (emit q None))"
      proof -
        have R: "room s (length (c @ emit r None))" "room (add (c @ emit r None) s) (length (emit q None))"
          using room_mono [OF rm] room_add [of s "c @ emit r None"] rm by simp_all
        have "regtail (place s (length c)) (place s (length c + length (emit r None))) (add (c @ emit r None @ emit q None) s) =
            Some (add (c @ emit r (Some 0) @ emit q None) s)"
          by (rule regtail_add_at [OF tl rm, of 0]) simp_all
        then have "regtail (place s (length c)) (place s (length c + length (emit r None))) (moved exp mid n (add (c @ emit r None @ emit q None) s)) =
            Some (moved exp mid n (add (c @ emit r (Some 0) @ emit q None) s))"
          by (rule regtail_moved)
        then show ?thesis using agreesD(1) [OF P k p R(2)] room_place [OF rm] add_add [OF R(1)] tailed_length [OF tl]
          by (simp add: step hasw_flags)
      qed
      note I = "1.IH" [OF False p refl refl len km rec _ _ e(2), of "c @ emit r (Some 0)" "fl \<union> (if hasw q then {HASWIDTH} else {})"]
      show ?thesis
      proof (cases "p_branch prec mid n")
        case None
        have "\<exists>chain fl' s'. branch_loop crec exp (place s (length c)) fl (moved exp cs np (add (c @ emit r None) s)) = Some (True, chain, fl', s')"
          if d: "regcode s = Regdummy"
          using I None d go [OF dummy_room [OF d]] e(3) np by simp
        then show ?thesis using None B by simp
      next
        case (Some y)
        obtain qs rest np' where y: "y = (qs, rest, np')" by (cases y)
        have "\<exists>chain. chain \<noteq> NoNode \<and> branch_loop crec exp (place s (length c)) fl (moved exp cs np (add (c @ emit r None) s)) =
           Some (False, chain, fl \<union> (if list_ex hasw (q # qs) then {HASWIDTH} else {}), moved exp rest np' (add (c @ seq_code (map emit (r # q # qs)) None) s))"
          if rm: "room s (length c + length (seq_code (map emit (r # q # qs)) None))"
        proof -
          have "room s (length (c @ emit r (Some 0)) + length (seq_code (map emit (q # qs)) None))" using rm by (simp add: add.assoc)
          moreover have "room s (length c + length (emit r None) + length (emit q None))"
            by (rule room_mono [OF rm]) (use length_seq [OF tailed_emit [OF e(2)], of qs] tailed_length [OF tl, of 0] in simp)
          ultimately show ?thesis using I Some y go e(3) np by (auto simp: Un_assoc)
        qed
        then show ?thesis using Some B y by simp
      qed
    qed
  qed
qed

abbreviation bcode :: "re list \<Rightarrow> coder" where "bcode rs \<equiv> seq_code (map emit rs)"

lemma p_branch_step:
  assumes "\<not> (hd cs = 0 \<or> hd cs = 124 \<or> hd cs = 41)" "p_piece prec cs np = Some (q, mid, n)" "length mid < length cs"
  shows "p_branch prec cs np = map_option (\<lambda>(rs, rest, n). (q # rs, rest, n)) (p_branch prec mid n)"
  using assms by (subst p_branch.simps) (cases "p_branch prec mid n"; auto)

lemma regbranch_loop:
  assumes k: "keeps exp cs" and rec: "rec_agrees exp m crec prec" "rec_keeps prec" "m \<le> np" "0 < np"
    and go: "\<not> (hd cs = 0 \<or> hd cs = 124 \<or> hd cs = 41)"
  shows "case p_branch prec cs np of
      Some (rs, rest, np') \<Rightarrow> room s (length (hdr BRANCH 0 @ bcode rs None)) \<longrightarrow>
        (\<exists>chain. chain \<noteq> NoNode \<and> branch_loop crec exp NoNode {} (moved exp cs np (add (hdr BRANCH 0) s)) =
          Some (False, chain, bflags rs, moved exp rest np' (add (hdr BRANCH 0 @ bcode rs None) s)))
    | None \<Rightarrow> regcode s = Regdummy \<longrightarrow> (\<exists>chain fl s'. branch_loop crec exp NoNode {} (moved exp cs np (add (hdr BRANCH 0) s)) = Some (True, chain, fl, s'))"
proof (cases "p_piece prec cs np")
  case None
  note P = regpiece_agrees [OF k rec]
  have "p_branch prec cs np = None" using None go by (simp add: p_branch.simps)
  moreover have "\<exists>chain fl s'. branch_loop crec exp NoNode {} (moved exp cs np (add (hdr BRANCH 0) s)) = Some (True, chain, fl, s')" if d: "regcode s = Regdummy"
  proof -
    have "regcode (add (hdr BRANCH 0) s) = Regdummy" using d dummy_place by simp
    from agreesD(2) [OF P k None this] obtain fl s' where "regpiece crec exp (moved exp cs np (add (hdr BRANCH 0) s)) = Some (NoNode, fl, s')" by blast
    then show ?thesis by (simp add: branch_step [OF k go])
  qed
  ultimately show ?thesis by simp
next
  case (Some x)
  note P = regpiece_agrees [OF k rec]
  obtain q mid n where x: "x = (q, mid, n)" by (cases x)
  have p: "p_piece prec cs np = Some (q, mid, n)" using Some x by simp
  have nul: "nul cs" using k by (simp add: keeps_def)
  have e: "eats cs mid" "good q" "np \<le> n" using p_piece_eats [OF p nul rec(2,4)] by simp_all
  have km: "keeps exp mid" by (rule keeps_trans [OF k eats_keeps [OF e(1)]])
  have len: "length mid < length cs" using e(1) by (simp add: eats_def)
  note B = p_branch_step [OF go p len]
  let ?h = "hdr BRANCH 0" and ?fl = "flags_of q \<inter> {HASWIDTH} \<union> flags_of q \<inter> {SPSTART}"
  have go1: "branch_loop crec exp NoNode {} (moved exp cs np (add ?h s)) = branch_loop crec exp (place s (length ?h)) ?fl (moved exp mid n (add (?h @ emit q None) s))"
    if rm: "room s (length ?h + length (emit q None))"
  proof -
    have R: "room s (length ?h)" "room (add ?h s) (length (emit q None))" using room_mono [OF rm] room_add [OF rm] by simp_all
    show ?thesis using agreesD(1) [OF P k p R(2)] room_place [OF rm] add_add [OF R(1)] by (simp add: branch_step [OF k go])
  qed
  have n: "m \<le> n" "0 < n" using rec(3,4) e(3) by simp_all
  note I = branch_loop_spec [OF km rec(1,2) n e(2), of s ?h ?fl]
  show ?thesis
  proof (cases "p_branch prec mid n")
    case None
    then show ?thesis using I go1 dummy_room B by (auto simp del: seq_code.simps)
  next
    case (Some y)
    obtain qs rest np' where y: "y = (qs, rest, np')" by (cases y)
    have "\<exists>chain. chain \<noteq> NoNode \<and> branch_loop crec exp NoNode {} (moved exp cs np (add ?h s)) =
          Some (False, chain, bflags (q # qs), moved exp rest np' (add (?h @ bcode (q # qs) None) s))"
      if rm: "room s (length (?h @ bcode (q # qs) None))"
    proof -
      have "room s (length ?h + length (emit q None))" by (rule room_mono [OF rm]) (use length_seq [OF tailed_emit [OF e(2)], of qs] in simp)
      from go1 [OF this] have g: "branch_loop crec exp NoNode {} (moved exp cs np (add ?h s)) = branch_loop crec exp (place s (length ?h)) ?fl (moved exp mid n (add (?h @ emit q None) s))" .
      have "bflags (q # qs) = ?fl \<union> (if list_ex hasw qs then {HASWIDTH} else {})" by (auto simp: bflags_def starts_def hasw_flags)
      then show ?thesis unfolding g using I Some y rm by (simp del: seq_code.simps)
    qed
    then show ?thesis using Some B y by simp
  qed
qed

lemma regbranch_spec:
  assumes k: "keeps exp cs" and rec: "rec_agrees exp m crec prec" "rec_keeps prec" "m \<le> np" "0 < np"
  shows "case p_branch prec cs np of
      Some (rs, rest, np') \<Rightarrow> room s (length (hdr BRANCH 0 @ bcode rs None)) \<longrightarrow>
        regbranch crec exp (moved exp cs np s) = Some (regcode s, bflags rs, moved exp rest np' (add (hdr BRANCH 0 @ bcode rs None) s))
    | None \<Rightarrow> regcode s = Regdummy \<longrightarrow> (\<exists>fl s'. regbranch crec exp (moved exp cs np s) = Some (NoNode, fl, s'))"
proof -
  let ?h = "hdr BRANCH 0"
  have node: "room s 3 \<Longrightarrow> regnode BRANCH (moved exp cs np s) = Some (regcode s, moved exp cs np (add ?h s))" by (rule regnode_moved)
  show ?thesis
  proof (cases "hd cs = 0 \<or> hd cs = 124 \<or> hd cs = 41")
    case True
    have "regbranch crec exp (moved exp cs np s) = Some (regcode s, bflags [], moved exp cs np (add (?h @ bcode [] None) s))"
      if rm: "room s (length (?h @ bcode [] None))"
    proof -
      have R: "room s 3" "room (add ?h s) 3" "room s (length ?h)" using room_mono [OF rm] room_add [of s ?h 3] rm by simp_all
      show ?thesis using node [OF R(1)] branch_end [OF k True] regnode_moved [OF R(2), of NOTHING] add_add [OF R(3)]
        by (simp add: regbranch_def bflags_def starts_def)
    qed
    then show ?thesis using True by (simp add: p_branch.simps)
  next
    case False
    note L = regbranch_loop [OF k rec False, of s]
    show ?thesis
    proof (cases "p_branch prec cs np")
      case None
      then show ?thesis using L node dummy_room by (auto simp: regbranch_def FAIL_def)
    next
      case (Some y)
      obtain rs rest np' where y: "y = (rs, rest, np')" by (cases y)
      have "regbranch crec exp (moved exp cs np s) = Some (regcode s, bflags rs, moved exp rest np' (add (?h @ bcode rs None) s))"
        if rm: "room s (length (?h @ bcode rs None))"
      proof -
        have "room s 3" using room_mono [OF rm] by simp
        then show ?thesis using node L Some y rm by (auto simp: regbranch_def)
      qed
      then show ?thesis using Some y by simp
    qed
  qed
qed

subsection \<open>Alternatives\<close>

text \<open>Alternatives that are linked but not hooked yet; \<open>open_alts\<close> those before the last.\<close>

definition open_alts :: "coder list \<Rightarrow> byte list" where
  "open_alts bs = concat (map (\<lambda>b. hdr BRANCH (3 + length (b None)) @ b None) bs)"

definition alts_open :: "coder list \<Rightarrow> byte list" where
  "alts_open bs = open_alts (butlast bs) @ hdr BRANCH 0 @ last bs None"

lemma open_alts_simps [simp]:
  "open_alts [] = []" "open_alts (b # bs) = hdr BRANCH (3 + length (b None)) @ b None @ open_alts bs"
  "open_alts (bs @ cs) = open_alts bs @ open_alts cs"
  by (simp_all add: open_alts_def)

lemma alts_open_snoc [simp]: "alts_open (bs @ [b]) = open_alts bs @ hdr BRANCH 0 @ b None"
  by (simp add: alts_open_def)

lemma length_alts_open: "bs \<noteq> [] \<Longrightarrow> length (alts_open bs) = length (open_alts bs)"
  by (induction bs rule: rev_induct) simp_all

lemma length_alts_more: "length (alts_open (bs @ [b])) \<le> length (alts_open (bs @ b # cs))"
  by (simp add: length_alts_open)

definition head :: "byte list \<Rightarrow> bool" where
  "head h \<longleftrightarrow> h = [] \<or> (\<exists>op. op \<noteq> BACK \<and> op \<noteq> BRANCH \<and> h = hdr op 3)"

lemma tailed_open:
  assumes "tailed g"
  shows "tailed (\<lambda>t. open_alts bs @ g t)"
proof (induction bs)
  case Nil
  then show ?case using assms by simp
next
  case (Cons b bs)
  then show ?case using tailed_jump [OF Cons, of BRANCH "3 + length (b None)" "b None"] by (simp add: opcodes)
qed

lemma tailed_head:
  assumes "head h" "tailed g"
  shows "tailed (\<lambda>t. h @ g t)"
  using assms(1) unfolding head_def
proof
  assume "\<exists>op. op \<noteq> BACK \<and> op \<noteq> BRANCH \<and> h = hdr op 3"
  then obtain op where "op \<noteq> BACK" "h = hdr op 3" by blast
  then show ?thesis using tailed_jump [OF assms(2), of op 3 "[]"] by simp
qed (simp add: assms(2))

text \<open>The next branch is linked to the one before.\<close>

lemma link_alt:
  assumes h: "head h" and rm: "room s (length (h @ alts_open (bs @ [b, c])))"
  shows "regtail (regcode s) (place s (length (h @ alts_open (bs @ [b])))) (add (h @ alts_open (bs @ [b]) @ hdr BRANCH 0 @ c None) s) =
    Some (add (h @ alts_open (bs @ [b, c])) s)"
proof -
  let ?f = "\<lambda>t. h @ open_alts bs @ hdr BRANCH (dist 3 t)" and ?rest = "b None @ hdr BRANCH 0 @ c None"
  have T: "tailed ?f" by (rule tailed_head [OF h tailed_open [OF tailed_branch]])
  have A: "alts_open (bs @ [b, c]) = open_alts bs @ hdr BRANCH (3 + length (b None)) @ b None @ hdr BRANCH 0 @ c None"
    using alts_open_snoc [of "bs @ [b]" c] by simp
  have "regtail (regcode s) (place s (length (?f None) + length (b None))) (add (?f None @ ?rest) s) = Some (add (?f (Some (length (b None))) @ ?rest) s)"
    by (rule regtail_add [OF T]) (use rm A in \<open>simp_all add: ac_simps\<close>)
  then show ?thesis using A by (simp add: ac_simps)
qed

fun aflags :: "flag set \<Rightarrow> re list list \<Rightarrow> flag set" where
  "aflags fl [] = fl"
| "aflags fl (b # bs) = aflags ((if HASWIDTH \<notin> bflags b then fl - {HASWIDTH} else fl) \<union> (bflags b \<inter> {SPSTART})) bs"

text \<open>The alternatives after the first.\<close>

definition p_more :: "(cstring \<Rightarrow> nat \<Rightarrow> re list list parse) \<Rightarrow> cstring \<Rightarrow> nat \<Rightarrow> re list list parse" where
  "p_more prec cs np = (if hd cs = 124 then p_alts prec (tl cs) np else Some ([], cs, np))"

lemma p_alts_more:
  assumes "p_branch prec cs np = Some (b, mid, n)" "keeps cs mid"
  shows "p_alts prec cs np = map_option (\<lambda>(bs, rest, n). (b # bs, rest, n)) (p_more prec mid n)"
proof (cases "hd mid = 124")
  case True
  have "eats mid (tl mid)" using eats_tl [of mid] assms(2) True by (simp add: keeps_def)
  then have "eats cs (tl mid)" by (rule keeps_eats(1) [OF assms(2)])
  then have "length (tl mid) < length cs" by (simp add: eats_def)
  then show ?thesis using assms(1) True by (subst p_alts.simps) (cases "p_alts prec (tl mid) n"; auto simp: p_more_def)
next
  case False
  then show ?thesis using assms(1) by (subst p_alts.simps) (simp add: p_more_def)
qed

lemma alt_loop_end:
  assumes "keeps exp cs" "hd cs \<noteq> 124"
  shows "alt_loop crec exp ret fl (moved exp cs np s) = Some (False, fl, moved exp cs np s)"
  using at_rd [OF at_moved [OF assms(1), of np s]] assms(2) by (subst alt_loop.simps) simp

lemma alt_loop_step:
  assumes k: "keeps exp cs" and "hd cs = 124"
  shows "alt_loop crec exp ret fl (moved exp cs np s) = do {
     (br, flags, s) \<leftarrow> regbranch crec exp (moved exp (tl cs) np s);
     if br = NoNode then Some (True, fl, s)
     else do {
       s \<leftarrow> regtail ret br s;
       let fl = (if HASWIDTH \<notin> flags then fl - {HASWIDTH} else fl) \<union> (flags \<inter> {SPSTART});
       alt_loop crec exp ret fl s
     }
   }" "keeps exp (tl cs)"
proof -
  show "keeps exp (tl cs)" using at_next [OF at_moved [OF k, of np s]] assms(2) by simp
  show "alt_loop crec exp ret fl (moved exp cs np s) = do {
     (br, flags, s) \<leftarrow> regbranch crec exp (moved exp (tl cs) np s);
     if br = NoNode then Some (True, fl, s)
     else do {
       s \<leftarrow> regtail ret br s;
       let fl = (if HASWIDTH \<notin> flags then fl - {HASWIDTH} else fl) \<union> (flags \<inter> {SPSTART});
       alt_loop crec exp ret fl s
     }
   }"
    using assms(2) at_rd [OF at_moved [OF k, of np s]] at_next [OF at_moved [OF k, of np s]] by (subst alt_loop.simps) simp
qed

lemma alt_loop_spec:
  "keeps exp cs \<Longrightarrow> rec_agrees exp m crec prec \<Longrightarrow> rec_keeps prec \<Longrightarrow> m \<le> np \<Longrightarrow> 0 < np \<Longrightarrow> head h \<Longrightarrow>
    (case p_more prec cs np of
       Some (qs, rest, np') \<Rightarrow> room s (length (h @ alts_open (bs @ b # map bcode qs))) \<longrightarrow>
         alt_loop crec exp (regcode s) fl (moved exp cs np (add (h @ alts_open (bs @ [b])) s)) =
           Some (False, aflags fl qs, moved exp rest np' (add (h @ alts_open (bs @ b # map bcode qs)) s))
     | None \<Rightarrow> regcode s = Regdummy \<longrightarrow>
         (\<exists>fl' s'. alt_loop crec exp (regcode s) fl (moved exp cs np (add (h @ alts_open (bs @ [b])) s)) = Some (True, fl', s')))"
proof (induction cs arbitrary: np bs b fl rule: length_induct)
  case (1 cs)
  note k = "1.prems"(1) and rec = "1.prems"(2-5) and h = "1.prems"(6)
  show ?case
  proof (cases "hd cs = 124")
    case False
    then show ?thesis using alt_loop_end [OF k False] by (simp add: p_more_def)
  next
    case True
    note step = alt_loop_step [OF k True]
    let ?c = "h @ alts_open (bs @ [b])"
    note R = regbranch_spec [OF step(2) rec, of "add ?c s"]
    have M: "p_more prec cs np = p_alts prec (tl cs) np" using True by (simp add: p_more_def)
    show ?thesis
    proof (cases "p_branch prec (tl cs) np")
      case None
      then have "p_more prec cs np = None" unfolding M by (subst p_alts.simps) simp
      moreover have "\<exists>fl' s'. alt_loop crec exp (regcode s) fl (moved exp cs np (add ?c s)) = Some (True, fl', s')" if d: "regcode s = Regdummy"
      proof -
        have "regcode (add ?c s) = Regdummy" using d dummy_place by simp
        then obtain fl' s' where "regbranch crec exp (moved exp (tl cs) np (add ?c s)) = Some (NoNode, fl', s')" using R None by auto
        then show ?thesis by (simp only: step(1)) simp
      qed
      ultimately show ?thesis by simp
    next
      case (Some x)
      obtain rs mid n where x: "x = (rs, mid, n)" by (cases x)
      have p: "p_branch prec (tl cs) np = Some (rs, mid, n)" using Some x by simp
      have nt: "nul (tl cs)" using step(2) by (simp add: keeps_def)
      have g: "keeps (tl cs) mid" "list_all good rs" "np \<le> n" using p_branch_keeps [OF p nt rec(2,4)] by simp_all
      have km: "keeps exp mid" by (rule keeps_trans [OF step(2) g(1)])
      have nul: "nul cs" using k by (simp add: keeps_def)
      have "eats cs mid" using keeps_eats(2) [OF eats_tl [OF nul] g(1)] True by simp
      then have len: "length mid < length cs" by (simp add: eats_def)
      have B: "p_more prec cs np = map_option (\<lambda>(bs, rest, n). (rs # bs, rest, n)) (p_more prec mid n)"
        unfolding M by (rule p_alts_more [OF p g(1)])
      let ?fl = "(if HASWIDTH \<notin> bflags rs then fl - {HASWIDTH} else fl) \<union> (bflags rs \<inter> {SPSTART})"
      have go: "alt_loop crec exp (regcode s) fl (moved exp cs np (add ?c s)) =
          alt_loop crec exp (regcode s) ?fl (moved exp mid n (add (h @ alts_open ((bs @ [b]) @ [bcode rs])) s))"
        if rm: "room s (length (h @ alts_open (bs @ [b, bcode rs])))"
      proof -
        have l: "length (h @ alts_open (bs @ [b, bcode rs])) = length ?c + length (hdr BRANCH 0 @ bcode rs None)"
          using alts_open_snoc [of "bs @ [b]" "bcode rs"] by simp
        have R1: "room s (length ?c)" "room (add ?c s) (length (hdr BRANCH 0 @ bcode rs None))"
          using room_mono [OF rm] room_add [of s ?c] rm unfolding l by simp_all
        have "regbranch crec exp (moved exp (tl cs) np (add ?c s)) = Some (place s (length ?c), bflags rs, moved exp mid n (add (?c @ hdr BRANCH 0 @ bcode rs None) s))"
          using R p R1(2) add_add [OF R1(1)] by simp
        moreover have "regtail (regcode s) (place s (length ?c)) (moved exp mid n (add (?c @ hdr BRANCH 0 @ bcode rs None) s)) =
            Some (moved exp mid n (add (h @ alts_open (bs @ [b, bcode rs])) s))"
          using regtail_moved [OF link_alt [OF h rm]] by simp
        ultimately show ?thesis using room_place [OF rm] by (simp only: step(1)) (simp add: Let_def)
      qed
      have mn: "m \<le> n" "0 < n" using rec g(3) by simp_all
      note I = "1.IH" [rule_format, OF len km rec(1,2) mn h, of ?fl "bs @ [b]" "bcode rs"]
      show ?thesis
      proof (cases "p_more prec mid n")
        case None
        have "\<exists>fl' s'. alt_loop crec exp (regcode s) fl (moved exp cs np (add ?c s)) = Some (True, fl', s')" if d: "regcode s = Regdummy"
          unfolding go [OF dummy_room [OF d]] using I None d by simp
        then show ?thesis using None B by simp
      next
        case (Some y)
        obtain qs rest np' where y: "y = (qs, rest, np')" by (cases y)
        have "alt_loop crec exp (regcode s) fl (moved exp cs np (add ?c s)) =
           Some (False, aflags fl (rs # qs), moved exp rest np' (add (h @ alts_open (bs @ b # map bcode (rs # qs))) s))"
          if rm: "room s (length (h @ alts_open (bs @ b # map bcode (rs # qs))))"
        proof -
          have "room s (length (h @ alts_open (bs @ [b, bcode rs])))"
            by (rule room_mono [OF rm]) (use length_alts_more [of "bs @ [b]" "bcode rs" "map bcode qs"] in simp)
          from go [OF this] show ?thesis using I Some y rm by (simp del: alts_open_snoc)
        qed
        then show ?thesis using Some B y by simp
      qed
    qed
  qed
qed

subsection \<open>Hooking the branches\<close>

lemma regnext_add:
  assumes m: "regcode s = Node m" "room s (length (a @ hdr op n @ rest))" and n: "n < 65536" "op \<noteq> BACK"
  shows "regnext (rprog (add (a @ hdr op n @ rest) s)) (place s (length a)) = Some (if n = 0 then NoNode else place s (length a + n))"
proof -
  let ?t = "take m (rprog s)"
  have l: "length (?t @ a) = m + length a" using m by (simp add: room_def)
  have "rprog (add (a @ hdr op n @ rest) s) = (?t @ a) @ hdr op n @ rest @ drop (m + length (a @ hdr op n @ rest)) (rprog s)"
    using m(1) by (simp add: add_def)
  then show ?thesis using regnext_hdr [OF n(1), of "?t @ a" op] n(2) m(1) unfolding l by (simp add: place_def add.assoc)
qed

lemma hook_step:
  assumes "p \<noteq> NoNode" "regoptail p v s = Some t" "regnext (rprog t) p = Some q"
  shows "hook_loop p v s = hook_loop q v t"
  using assms by (subst hook_loop.simps) simp

lemma hook_stop: "hook_loop NoNode v s = Some s"
  by (subst hook_loop.simps) simp

lemma room_less: "room s k \<Longrightarrow> regcode s = Node m \<Longrightarrow> k < 65536"
  by (simp add: room_def)

lemma hook_end:
  assumes m: "regcode s = Node m" "room s (length (a @ hdr op 0))" and op: "op \<noteq> BACK" "op \<noteq> BRANCH"
  shows "hook_loop (place s (length a)) v (add (a @ hdr op 0) s) = Some (add (a @ hdr op 0) s)"
proof -
  have "regoptail (place s (length a)) v (add (a @ hdr op 0) s) = Some (add (a @ hdr op 0) s)"
    using regoptail_other [of s a "[]" op v 0] m(2) op(2) by simp
  moreover have "regnext (rprog (add (a @ hdr op 0) s)) (place s (length a)) = Some NoNode"
    using regnext_add [OF m(1), of a op 0 "[]"] m(2) op(1) by simp
  ultimately show ?thesis using hook_step [OF room_place [OF m(2)]] hook_stop by simp
qed

lemma length_open: "list_all tailed bs \<Longrightarrow> length (open_alts bs) = length (alts_code bs)"
  by (induction bs) (simp_all add: tailed_length)

lemma hook_branches:
  assumes m: "regcode s = Node m" and op: "op \<noteq> BACK" "op \<noteq> BRANCH"
  shows "list_all tailed bs \<Longrightarrow> room s (length (a @ open_alts bs @ hdr op 0)) \<Longrightarrow>
    hook_loop (place s (length a)) (place s (length (a @ open_alts bs))) (add (a @ open_alts bs @ hdr op 0) s) = Some (add (a @ alts_code bs @ hdr op 0) s)"
proof (induction bs arbitrary: a)
  case Nil
  then show ?case using hook_end [OF m _ op, of a] by simp
next
  case (Cons b bs)
  let ?l = "length (b None)" and ?d = "length (alts_code bs)" and ?rest = "open_alts bs @ hdr op 0"
  let ?v = "place s (length (a @ open_alts (b # bs)))"
  have tb: "tailed b" and ta: "list_all tailed bs" using Cons.prems(1) by simp_all
  have d: "length (open_alts bs) = ?d" by (rule length_open [OF ta])
  have lb: "length (b (Some ?d)) = ?l" by (rule tailed_length [OF tb])
  have rm: "room s (length a + 3 + ?l + length ?rest)" using Cons.prems(2) by (simp add: ac_simps)
  have 1: "regoptail (place s (length a)) ?v (add (a @ hdr BRANCH (3 + ?l) @ b None @ ?rest) s) = Some (add (a @ hdr BRANCH (3 + ?l) @ b (Some ?d) @ ?rest) s)"
    by (rule regoptail_branch [OF tb rm]) (simp_all add: d ac_simps)
  have R: "room s (length (a @ hdr BRANCH (3 + ?l) @ b (Some ?d) @ ?rest))" using rm lb by (simp add: ac_simps)
  have n: "3 + ?l < 65536" using room_less [OF rm m] by simp
  have 2: "regnext (rprog (add (a @ hdr BRANCH (3 + ?l) @ b (Some ?d) @ ?rest) s)) (place s (length a)) = Some (place s (length (a @ hdr BRANCH (3 + ?l) @ b (Some ?d))))"
    using regnext_add [OF m R n] lb by (simp add: opcodes ac_simps)
  have 3: "hook_loop (place s (length (a @ hdr BRANCH (3 + ?l) @ b (Some ?d)))) ?v (add (a @ hdr BRANCH (3 + ?l) @ b (Some ?d) @ ?rest) s) =
      Some (add (a @ alts_code (b # bs) @ hdr op 0) s)"
    using Cons.IH [OF ta, of "a @ hdr BRANCH (3 + ?l) @ b (Some ?d)"] R lb by (simp add: ac_simps)
  show ?case using hook_step [OF room_place [OF rm] 1 2] 3 by simp
qed

lemma hook_spec:
  assumes h: "head h" and op: "op \<noteq> BACK" "op \<noteq> BRANCH" and bs: "list_all tailed bs" and rm: "room s (length (h @ open_alts bs @ hdr op 0))"
  shows "hook_loop (regcode s) (place s (length (h @ open_alts bs))) (add (h @ open_alts bs @ hdr op 0) s) = Some (add (h @ alts_code bs @ hdr op 0) s)"
  using rm
proof (rule room_cases)
  assume d: "regcode s = Regdummy"
  have "hook_loop Regdummy v t = Some t" for v t by (subst hook_step [of Regdummy v t t NoNode]) (simp_all add: regoptail_def regnext_def hook_stop)
  then show ?thesis using d length_open [OF bs] by (simp add: add_def)
next
  fix m assume m: "regcode s = Node m"
  note H = hook_branches [OF m op bs]
  show ?thesis using h unfolding head_def
  proof
    assume "h = []"
    then show ?thesis using H [of "[]"] rm by simp
  next
    assume "\<exists>op. op \<noteq> BACK \<and> op \<noteq> BRANCH \<and> h = hdr op 3"
    then obtain o1 where o1: "o1 \<noteq> BACK" "o1 \<noteq> BRANCH" "h = hdr o1 3" by blast
    let ?t = "add (h @ open_alts bs @ hdr op 0) s"
    have 1: "regoptail (regcode s) v ?t = Some ?t" for v
      using regoptail_other [of s "[]" "open_alts bs @ hdr op 0" o1 v 3] rm o1 by simp
    have 2: "regnext (rprog ?t) (regcode s) = Some (place s (length h))"
      using regnext_add [OF m, of "[]" o1 3 "open_alts bs @ hdr op 0"] rm o1 by simp
    show ?thesis using hook_step [OF _ 1 2] room_place [OF rm, of 0] H [of h] rm by simp
  qed
qed

text \<open>The end of the last branch is linked to the closing node.\<close>

lemma link_end:
  assumes h: "head h" and rm: "room s (length (h @ open_alts (bs @ [b]) @ hdr op 0))"
  shows "regtail (regcode s) (place s (length (h @ alts_open (bs @ [b])))) (add (h @ alts_open (bs @ [b]) @ hdr op 0) s) =
    Some (add (h @ open_alts (bs @ [b]) @ hdr op 0) s)"
proof -
  let ?f = "\<lambda>t. h @ open_alts bs @ hdr BRANCH (dist 3 t)" and ?rest = "b None @ hdr op 0"
  have T: "tailed ?f" by (rule tailed_head [OF h tailed_open [OF tailed_branch]])
  have "regtail (regcode s) (place s (length (?f None) + length (b None))) (add (?f None @ ?rest) s) = Some (add (?f (Some (length (b None))) @ ?rest) s)"
    by (rule regtail_add [OF T]) (use rm in \<open>simp_all add: ac_simps\<close>)
  then show ?thesis by (simp add: ac_simps)
qed

subsection \<open>Whole expressions\<close>

definition reg_rest :: "(rstate \<Rightarrow> parsed) \<Rightarrow> cstring \<Rightarrow> bool \<Rightarrow> byte \<Rightarrow> node \<Rightarrow> flag set \<Rightarrow> rstate \<Rightarrow> parsed" where
  "reg_rest crec exp paren op ret fl s = do {
     (failed, fl, s) \<leftarrow> alt_loop crec exp ret fl s;
     if failed then FAIL s
     else do {
       (ender, s) \<leftarrow> regnode op s;
       s \<leftarrow> regtail ret ender s;
       s \<leftarrow> hook_loop ret ender s;
       c \<leftarrow> rd exp (regparse s);
       if paren then (if c \<noteq> 41 then FAIL s else Some (ret, fl, advance 1 s))
       else if c \<noteq> 0 then FAIL s
       else Some (ret, fl, s)
     }
   }"

text \<open>What comes after the closing parenthesis, or the end.\<close>

definition closes :: "bool \<Rightarrow> cstring \<Rightarrow> bool" where
  "closes paren cs \<longleftrightarrow> hd cs = (if paren then 41 else 0)"

definition after :: "bool \<Rightarrow> cstring \<Rightarrow> cstring" where
  "after paren cs = (if paren then tl cs else cs)"

lemma reg_rest_spec:
  assumes k: "keeps exp cs" and rec: "rec_agrees exp m crec prec" "rec_keeps prec" "m \<le> np" "0 < np" and h: "head h"
    and op: "op \<noteq> BACK" "op \<noteq> BRANCH" and b: "list_all good b"
  shows "case p_more prec cs np of
      Some (qs, rest, np') \<Rightarrow>
        (closes paren rest \<longrightarrow> room s (length (h @ alts_code (map bcode (b # qs)) @ hdr op 0)) \<longrightarrow>
          reg_rest crec exp paren op (regcode s) fl (moved exp cs np (add (h @ alts_open [bcode b]) s)) =
            Some (regcode s, aflags fl qs, moved exp (after paren rest) np' (add (h @ alts_code (map bcode (b # qs)) @ hdr op 0) s))) \<and>
        (\<not> closes paren rest \<longrightarrow> regcode s = Regdummy \<longrightarrow>
          (\<exists>fl' s'. reg_rest crec exp paren op (regcode s) fl (moved exp cs np (add (h @ alts_open [bcode b]) s)) = Some (NoNode, fl', s')))
    | None \<Rightarrow> regcode s = Regdummy \<longrightarrow>
        (\<exists>fl' s'. reg_rest crec exp paren op (regcode s) fl (moved exp cs np (add (h @ alts_open [bcode b]) s)) = Some (NoNode, fl', s'))"
proof (cases "p_more prec cs np")
  case None
  note A = alt_loop_spec [OF k rec h, of s fl "[]" "bcode b"]
  have "\<exists>fl' s'. reg_rest crec exp paren op (regcode s) fl (moved exp cs np (add (h @ alts_open [bcode b]) s)) = Some (NoNode, fl', s')" if d: "regcode s = Regdummy"
  proof -
    obtain fl' s' where "alt_loop crec exp (regcode s) fl (moved exp cs np (add (h @ alts_open [bcode b]) s)) = Some (True, fl', s')" using A None d by auto
    then show ?thesis by (simp add: reg_rest_def FAIL_def)
  qed
  then show ?thesis using None by simp
next
  case (Some x)
  note A = alt_loop_spec [OF k rec h, of s fl "[]" "bcode b"]
  obtain qs rest np' where x: "x = (qs, rest, np')" by (cases x)
  let ?bs = "map bcode (b # qs)"
  have nul: "nul cs" using k by (simp add: keeps_def)
  have K: "keeps cs rest \<and> list_all (list_all good) qs"
  proof (cases "hd cs = 124")
    case True
    then have p: "p_alts prec (tl cs) np = Some (qs, rest, np')" using Some x by (simp add: p_more_def)
    have e: "eats cs (tl cs)" using eats_tl [OF nul] True by simp
    then have "nul (tl cs)" by (simp add: eats_def)
    from p_alts_keeps [OF p this rec(2,4)] show ?thesis using eats_keeps [OF keeps_eats(2) [OF e]] by simp
  next
    case False
    then show ?thesis using Some x keeps_refl [OF nul] by (simp add: p_more_def)
  qed
  then have kr: "keeps exp rest" using keeps_trans [OF k] by blast
  have T: "list_all tailed ?bs"
  proof -
    have "tailed (bcode rs)" if "list_all good rs" for rs by (rule tailed_seq) (use that tailed_emit in \<open>auto simp: list_all_iff\<close>)
    then show ?thesis using K b by (auto simp: list_all_iff)
  qed
  obtain as z where z: "?bs = as @ [z]" by (metis append_butlast_last_id list.distinct(1) list.simps(9))
  let ?all = "h @ alts_code ?bs @ hdr op 0"
  have run: "reg_rest crec exp paren op (regcode s) fl (moved exp cs np (add (h @ alts_open [bcode b]) s)) =
      (if closes paren rest then Some (regcode s, aflags fl qs, moved exp (after paren rest) np' (add ?all s)) else FAIL (moved exp rest np' (add ?all s)))"
    if rm: "room s (length ?all)"
  proof -
    have lo: "length (open_alts ?bs) = length (alts_code ?bs)" by (rule length_open [OF T])
    have l1: "length (alts_open ?bs) = length (open_alts ?bs)" by (rule length_alts_open) simp
    have la: "length ?all = length (h @ open_alts ?bs @ hdr op 0)" using lo by (simp only: length_append)
    have r3: "room s (length (h @ alts_open ?bs) + 3)" using rm l1 lo by (simp only: length_append length_hdr add.assoc)
    have R: "room s (length (h @ alts_open ?bs))" "room (add (h @ alts_open ?bs) s) 3" "room s (length (h @ open_alts ?bs @ hdr op 0))"
      by (rule room_mono [OF r3], simp, rule room_add [OF r3], rule rm [unfolded la])
    let ?s = "moved exp rest np' s"
    have 1: "alt_loop crec exp (regcode s) fl (moved exp cs np (add (h @ alts_open [bcode b]) s)) = Some (False, aflags fl qs, add (h @ alts_open ?bs) ?s)"
      using A Some x R(1) by simp
    have 2: "regnode op (add (h @ alts_open ?bs) ?s) = Some (place s (length (h @ alts_open ?bs)), add (h @ alts_open ?bs @ hdr op 0) ?s)"
      using regnode_add [of "add (h @ alts_open ?bs) ?s" op] R add_add [OF R(1), of "hdr op 0"] by simp
    have 3: "regtail (regcode s) (place s (length (h @ alts_open ?bs))) (add (h @ alts_open ?bs @ hdr op 0) ?s) = Some (add (h @ open_alts ?bs @ hdr op 0) ?s)"
      using link_end [OF h, of ?s as z op] R(3) unfolding z by simp
    have 4: "hook_loop (regcode s) (place s (length (h @ alts_open ?bs))) (add (h @ open_alts ?bs @ hdr op 0) ?s) = Some (add ?all ?s)"
      using hook_spec [OF h op T, of ?s] R(3) l1 by simp
    have 5: "rd exp (regparse (add ?all ?s)) = Some (hd rest)" using at_rd [OF at_moved [OF kr, of np' s]] by (simp only: add_update)
    have 6: "paren \<Longrightarrow> closes paren rest \<Longrightarrow> advance 1 (add ?all ?s) = moved exp (tl rest) np' (add ?all s)"
      using at_next [OF at_moved [OF kr], of np' "add ?all s"] by (simp only: closes_def moved_simps if_True) simp
    show ?thesis using 6 by (simp only: reg_rest_def 1 2 3 4 5 bind.simps prod.case if_False) (auto simp: closes_def after_def)
  qed
  show ?thesis using Some x run run [OF dummy_room] by (auto simp: FAIL_def)
qed

lemma reg_body_eq:
  "reg_body crec paren exp s =
     (if paren \<and> regnpar s \<ge> NSUBEXP then FAIL s
      else do {
        let parno = (if paren then regnpar s else 0);
        (ret, s) \<leftarrow> (if paren then regnode (OPEN + of_nat parno) (s\<lparr>regnpar := regnpar s + 1\<rparr>) else Some (NoNode, s));
        (br, flags, s) \<leftarrow> regbranch crec exp s;
        if br = NoNode then FAIL s
        else do {
          s \<leftarrow> (if ret \<noteq> NoNode then regtail ret br s else Some s);
          reg_rest crec exp paren (if paren then CLOSE + of_nat parno else END) (if ret \<noteq> NoNode then ret else br)
            ((if HASWIDTH \<notin> flags then {} else {HASWIDTH}) \<union> (flags \<inter> {SPSTART})) s
        }
      })"
  unfolding reg_body_def reg_rest_def [abs_def] Let_def by (cases paren) (simp_all only: if_True if_False simp_thms)

lemma bflags_id: "(if HASWIDTH \<notin> bflags b then {} else {HASWIDTH}) \<union> (bflags b \<inter> {SPSTART}) = bflags b"
  by (auto simp: bflags_def)

lemma bflags_mem: "HASWIDTH \<in> bflags b \<longleftrightarrow> list_ex hasw b" "SPSTART \<in> bflags b \<longleftrightarrow> starts (map spst b)"
  by (auto simp: bflags_def)

lemma aflags_eq:
  "SIMPLE \<notin> fl \<Longrightarrow> aflags fl bs = (if HASWIDTH \<in> fl \<and> list_all (list_ex hasw) bs then {HASWIDTH} else {}) \<union>
    (if SPSTART \<in> fl \<or> list_ex (\<lambda>b. starts (map spst b)) bs then {SPSTART} else {})"
proof (induction bs arbitrary: fl)
  case Nil
  have "x \<in> fl \<Longrightarrow> x = HASWIDTH \<or> x = SPSTART" for x using Nil by (cases x) auto
  then show ?case by auto
next
  case (Cons b bs)
  let ?fl = "(if HASWIDTH \<notin> bflags b then fl - {HASWIDTH} else fl) \<union> (bflags b \<inter> {SPSTART})"
  have "SIMPLE \<notin> ?fl" using Cons.prems by auto
  moreover have "HASWIDTH \<in> ?fl \<longleftrightarrow> HASWIDTH \<in> fl \<and> list_ex hasw b" "SPSTART \<in> ?fl \<longleftrightarrow> SPSTART \<in> fl \<or> starts (map spst b)"
    using bflags_mem by auto
  ultimately show ?case using Cons.IH [of ?fl] by simp
qed

definition gflags :: "re list list \<Rightarrow> flag set" where
  "gflags bs = (if list_all (list_ex hasw) bs then {HASWIDTH} else {}) \<union> (if list_ex (\<lambda>b. starts (map spst b)) bs then {SPSTART} else {})"

lemma aflags_bflags: "aflags (bflags b) bs = gflags (b # bs)"
proof -
  have "SIMPLE \<notin> bflags b" by (auto simp: bflags_def)
  from aflags_eq [OF this, of bs] show ?thesis by (simp add: gflags_def bflags_mem)
qed

lemma gflags_group: "flags_of (Group n bs) = gflags bs"
  by (simp add: flags_of_def gflags_def list.pred_map list_ex_iff list_all_iff comp_def)

lemma emit_group: "emit (Group n bs) t = hdr (OPEN + of_nat n) 3 @ alts_code (map bcode bs) @ hdr (CLOSE + of_nat n) (dist 3 t)"
  by (simp add: group_code_def comp_def)

lemma paren_ops: "n < NSUBEXP \<Longrightarrow> OPEN + of_nat n \<notin> {BACK, BRANCH}" "n < NSUBEXP \<Longrightarrow> CLOSE + of_nat n \<notin> {BACK, BRANCH}"
proof -
  have o: "unat (OPEN + of_nat n :: byte) = 20 + n" "unat (CLOSE + of_nat n :: byte) = 30 + n" if "n < NSUBEXP"
    using that by (simp_all add: OPEN_def CLOSE_def NSUBEXP_def unat_word_ariths unat_of_nat)
  show "n < NSUBEXP \<Longrightarrow> OPEN + of_nat n \<notin> {BACK, BRANCH}" using o(1) by (auto simp: BACK_def BRANCH_def)
  show "n < NSUBEXP \<Longrightarrow> CLOSE + of_nat n \<notin> {BACK, BRANCH}" using o(2) by (auto simp: BACK_def BRANCH_def)
qed

lemma p_group_alts:
  assumes "np < NSUBEXP" "p_branch prec cs (np + 1) = Some (b, mid, n)" "keeps cs mid"
  shows "p_group (p_alts prec) cs np = (case p_more prec mid n of
     Some (qs, rest, np') \<Rightarrow> if hd rest = 41 then Some (Group np (b # qs), tl rest, np') else None | None \<Rightarrow> None)"
  using assms(1) p_alts_more [OF assms(2,3)] by (cases "p_more prec mid n") (auto simp: p_group_def)

lemma reg_body_group:
  assumes k: "keeps exp cs" and rec: "rec_agrees exp m crec prec" "rec_keeps prec" "m \<le> np + 1"
  shows "agrees exp (reg_body crec True exp) cs np (p_group (p_alts prec) cs np)"
proof (cases "np < NSUBEXP")
  case False
  then have "reg_body crec True exp (moved exp cs np s) = FAIL (moved exp cs np s)" for s by (simp add: reg_body_eq moved_def)
  then show ?thesis using False by (intro agreesI) (simp_all add: p_group_def FAIL_def)
next
  case np: True
  let ?o = "hdr (OPEN + of_nat np) 0" and ?h = "hdr (OPEN + of_nat np) 3" and ?op = "CLOSE + of_nat np :: byte"
  have ops: "OPEN + of_nat np \<noteq> BACK" "OPEN + of_nat np \<noteq> BRANCH" "?op \<noteq> BACK" "?op \<noteq> BRANCH" using paren_ops [OF np] by simp_all
  have h: "head ?h" using ops by (auto simp: head_def)
  have nul: "nul cs" using k by (simp add: keeps_def)
  have start: "reg_body crec True exp (moved exp cs np s) = do {
      (br, flags, t) \<leftarrow> regbranch crec exp (moved exp cs (np + 1) (add ?o s));
      if br = NoNode then FAIL t
      else do { t \<leftarrow> regtail (regcode s) br t; reg_rest crec exp True ?op (regcode s) ((if HASWIDTH \<notin> flags then {} else {HASWIDTH}) \<union> (flags \<inter> {SPSTART})) t } }"
    if "room s 3" for s
  proof -
    have u: "regnpar (moved exp cs np s) = np" "(moved exp cs np s)\<lparr>regnpar := np + 1\<rparr> = moved exp cs (np + 1) s" by (simp_all add: moved_def)
    show ?thesis unfolding reg_body_eq u using np regnode_moved [OF that, of "OPEN + of_nat np" exp cs "np + 1"] room_place [OF that, of 0]
      by (cases "regbranch crec exp (moved exp cs (Suc np) (add ?o s))") (simp_all add: case_prod_beta')
  qed
  have rec2: "m \<le> np + 1" "0 < np + 1" using rec by simp_all
  show ?thesis
  proof (cases "p_branch prec cs (np + 1)")
    case None
    then have "p_group (p_alts prec) cs np = None" by (simp add: p_group_def p_alts.simps)
    moreover have "\<exists>fl s'. reg_body crec True exp (moved exp cs np s) = Some (NoNode, fl, s')" if d: "regcode s = Regdummy" for s
    proof -
      have "regcode (add ?o s) = Regdummy" using d dummy_place by simp
      then obtain fl s' where "regbranch crec exp (moved exp cs (np + 1) (add ?o s)) = Some (NoNode, fl, s')"
        using regbranch_spec [OF k rec(1,2) rec2, of "add ?o s"] None by auto
      then show ?thesis by (simp add: start [OF dummy_room [OF d]] FAIL_def)
    qed
    ultimately show ?thesis by (intro agreesI) simp_all
  next
    case (Some x)
    obtain b mid n where x: "x = (b, mid, n)" by (cases x)
    have p: "p_branch prec cs (np + 1) = Some (b, mid, n)" using Some x by simp
    have g: "keeps cs mid" "list_all good b" "np + 1 \<le> n" using p_branch_keeps [OF p nul rec(2) rec2(2)] by simp_all
    have km: "keeps exp mid" by (rule keeps_trans [OF k g(1)])
    have mn: "m \<le> n" "0 < n" using rec2 g(3) by simp_all
    have go: "reg_body crec True exp (moved exp cs np s) = reg_rest crec exp True ?op (regcode s) (bflags b) (moved exp mid n (add (?h @ alts_open [bcode b]) s))"
      if rm: "room s (length (?h @ alts_open [bcode b]))" for s
    proof -
      let ?c = "hdr BRANCH 0 @ bcode b None"
      have A: "alts_open [bcode b] = ?c" using alts_open_snoc [of "[]" "bcode b"] by simp
      have R: "room s (length ?o)" "room (add ?o s) (length ?c)" using room_mono [OF rm] room_add [of s ?o "length ?c"] rm unfolding A by simp_all
      have 1: "regbranch crec exp (moved exp cs (np + 1) (add ?o s)) = Some (place s 3, bflags b, moved exp mid n (add (?o @ ?c) s))"
        using regbranch_spec [OF k rec(1,2) rec2, of "add ?o s"] p R add_add [OF R(1)] by simp
      have "regtail (regcode s) (place s 3) (add (?o @ ?c) s) = Some (add (?h @ ?c) s)"
        using regtail_add [OF tailed_hdr [OF ops(1)], of s ?c 0] rm unfolding A by simp
      from regtail_moved [OF this] have 2: "regtail (regcode s) (place s 3) (moved exp mid n (add (?o @ ?c) s)) = Some (moved exp mid n (add (?h @ ?c) s))" .
      have "room s 3" using R(1) by simp
      then show ?thesis using 1 2 room_place [OF rm] bflags_id [of b] unfolding A by (simp add: start)
    qed
    note E = reg_rest_spec [OF km rec(1,2) mn h ops(3,4) g(2)]
    note PG = p_group_alts [OF np p g(1)]
    show ?thesis
    proof (rule agreesI)
      fix r rest np' s assume q: "p_group (p_alts prec) cs np = Some (r, rest, np')" and rm: "room s (length (emit r None))"
      obtain qs fin where m: "p_more prec mid n = Some (qs, fin, np')" "hd fin = 41" "r = Group np (b # qs)" "rest = tl fin"
        using q unfolding PG by (auto split: option.splits if_splits)
      have em: "emit r None = ?h @ alts_code (map bcode (b # qs)) @ hdr ?op 0" unfolding m(3) emit_group by simp
      have "length (bcode b None) \<le> length (bcode b (Some (length (alts_code (map bcode qs)))))"
        using tailed_length [OF tailed_seq, of "map emit b"] g(2) tailed_emit by (simp add: list_all_iff)
      then have "room s (length (?h @ alts_open [bcode b]))" using room_mono [OF rm] unfolding em by (simp add: alts_open_def)
      from go [OF this] show "reg_body crec True exp (moved exp cs np s) = Some (regcode s, flags_of r, moved exp rest np' (add (emit r None) s))"
        using E [of s True "bflags b"] m rm em by (simp add: closes_def after_def aflags_bflags gflags_group del: alts_code.simps emit.simps)
    next
      fix s :: rstate assume q: "p_group (p_alts prec) cs np = None" and d: "regcode s = Regdummy"
      show "\<exists>fl s'. reg_body crec True exp (moved exp cs np s) = Some (NoNode, fl, s')"
        unfolding go [OF dummy_room [OF d]] using E [of s True "bflags b"] q d unfolding PG by (auto simp: closes_def split: option.splits if_splits)
    qed
  qed
qed

lemma rec_agrees_reg: "rec_agrees exp (NSUBEXP - d) (reg (Suc d) True exp) (p_reg (Suc d))"
proof (induction d)
  case 0
  have "agrees exp (reg (Suc 0) True exp) cs np (p_group (p_reg (Suc 0)) cs np)" if "NSUBEXP \<le> np" for cs np
    using that by (intro agreesI) (simp_all add: reg_body_eq FAIL_def p_group_def moved_def)
  then show ?case unfolding rec_agrees_def by simp
next
  case (Suc d)
  have r: "reg (Suc (Suc d)) True exp = reg_body (reg (Suc d) True exp) True exp" "p_reg (Suc (Suc d)) = p_alts (p_reg (Suc d))" by (simp_all add: fun_eq_iff)
  have "agrees exp (reg (Suc (Suc d)) True exp) cs np (p_group (p_reg (Suc (Suc d))) cs np)" if "keeps exp cs" "NSUBEXP - Suc d \<le> np" for cs np
    unfolding r by (rule reg_body_group [OF that(1) Suc p_reg_keeps]) (use that(2) in simp)
  then show ?case unfolding rec_agrees_def by blast
qed

definition main_code :: "re list list \<Rightarrow> byte list" where
  "main_code bs = alts_code (map bcode bs) @ hdr END 0"

lemma code_of_main: "code_of bs = MAGIC # main_code bs"
  by (simp add: code_of_def main_code_def)

lemma reg_main:
  assumes n: "nul exp"
  shows "case parse exp of
      Some bs \<Rightarrow> room s (length (main_code bs)) \<longrightarrow>
        (\<exists>np. reg (Suc NSUBEXP) False exp (moved exp exp 1 s) = Some (regcode s, gflags bs, moved exp [0] np (add (main_code bs) s)))
    | None \<Rightarrow> regcode s = Regdummy \<longrightarrow> (\<exists>fl s'. reg (Suc NSUBEXP) False exp (moved exp exp 1 s) = Some (NoNode, fl, s'))"
proof -
  let ?crec = "reg NSUBEXP True exp" and ?prec = "p_reg NSUBEXP"
  have k: "keeps exp exp" by (rule keeps_refl [OF n])
  have rec: "rec_agrees exp 1 ?crec ?prec" using rec_agrees_reg [of exp 9] by (simp add: NSUBEXP_def)
  have m: "1 \<le> (1 :: nat)" "(0 :: nat) < 1" by simp_all
  have start: "reg (Suc NSUBEXP) False exp (moved exp exp 1 s) = do {
      (br, flags, t) \<leftarrow> regbranch ?crec exp (moved exp exp 1 s);
      if br = NoNode then FAIL t
      else reg_rest ?crec exp False END br ((if HASWIDTH \<notin> flags then {} else {HASWIDTH}) \<union> (flags \<inter> {SPSTART})) t }" for s
    by (cases "regbranch ?crec exp (moved exp exp 1 s)") (simp_all add: reg_body_eq case_prod_beta')
  have P: "parse exp = (case p_alts ?prec exp 1 of Some (bs, rest, np) \<Rightarrow> if hd rest = 0 then Some bs else None | None \<Rightarrow> None)"
    by (cases "p_alts ?prec exp 1") (auto simp: parse_def)
  show ?thesis
  proof (cases "p_branch ?prec exp 1")
    case None
    then have "parse exp = None" unfolding P by (simp add: p_alts.simps)
    moreover have "\<exists>fl s'. reg (Suc NSUBEXP) False exp (moved exp exp 1 s) = Some (NoNode, fl, s')" if d: "regcode s = Regdummy"
    proof -
      obtain fl s' where "regbranch ?crec exp (moved exp exp 1 s) = Some (NoNode, fl, s')"
        using regbranch_spec [OF k rec p_reg_keeps m, of s] None d by auto
      then show ?thesis by (simp only: start bind.simps prod.case if_True FAIL_def refl) blast
    qed
    ultimately show ?thesis by simp
  next
    case (Some x)
    obtain b mid n' where x: "x = (b, mid, n')" by (cases x)
    have p: "p_branch ?prec exp 1 = Some (b, mid, n')" using Some x by simp
    have g: "keeps exp mid" "list_all good b" "1 \<le> n'" using p_branch_keeps [OF p n p_reg_keeps m(2)] by simp_all
    have PA: "p_alts ?prec exp 1 = map_option (\<lambda>(bs, rest, n). (b # bs, rest, n)) (p_more ?prec mid n')" by (rule p_alts_more [OF p g(1)])
    have A: "alts_open [bcode b] = hdr BRANCH 0 @ bcode b None" using alts_open_snoc [of "[]" "bcode b"] by simp
    have go: "reg (Suc NSUBEXP) False exp (moved exp exp 1 s) = reg_rest ?crec exp False END (regcode s) (bflags b) (moved exp mid n' (add (alts_open [bcode b]) s))"
      if rm: "room s (length (alts_open [bcode b]))"
    proof -
      have 1: "regbranch ?crec exp (moved exp exp 1 s) = Some (regcode s, bflags b, moved exp mid n' (add (alts_open [bcode b]) s))"
        using regbranch_spec [OF k rec p_reg_keeps m, of s] p rm unfolding A by simp
      show ?thesis unfolding start 1 using room_place [OF rm, of 0] by (simp add: bflags_id)
    qed
    have n0: "0 < n'" using g(3) by simp
    have ops: "END \<noteq> BACK" "END \<noteq> BRANCH" by (simp_all add: opcodes)
    have hd0: "head []" by (simp add: head_def)
    note E = reg_rest_spec [OF g(1) rec p_reg_keeps g(3) n0 hd0 ops g(2), of s False "bflags b"]
    show ?thesis
    proof (cases "parse exp")
      case None
      have "\<exists>fl s'. reg (Suc NSUBEXP) False exp (moved exp exp 1 s) = Some (NoNode, fl, s')" if d: "regcode s = Regdummy"
        unfolding go [OF dummy_room [OF d]] using E None d unfolding P PA by (auto simp: closes_def split: option.splits if_splits)
      then show ?thesis using None by simp
    next
      case (Some bs)
      obtain qs fin np where q: "p_more ?prec mid n' = Some (qs, fin, np)" "hd fin = 0" "bs = b # qs"
        using Some unfolding P PA by (auto split: option.splits if_splits)
      have "keeps exp fin" using p_alts_keeps [of ?prec exp 1 "b # qs" fin np] PA q(1) n p_reg_keeps by simp
      then have f: "fin = [0]" using q(2) unfolding keeps_def nul_def by (metis append_Nil hd_append2 hd_in_set)
      have "reg (Suc NSUBEXP) False exp (moved exp exp 1 s) = Some (regcode s, gflags bs, moved exp [0] np (add (main_code bs) s))"
        if rm: "room s (length (main_code bs))"
      proof -
        have "length (bcode b None) \<le> length (bcode b (Some (length (alts_code (map bcode qs)))))"
          using tailed_length [OF tailed_seq, of "map emit b"] g(2) tailed_emit by (simp add: list_all_iff)
        then have "room s (length (alts_open [bcode b]))" using room_mono [OF rm] unfolding q(3) main_code_def by (simp add: alts_open_def)
        from go [OF this] show ?thesis using E q rm f by (simp add: closes_def after_def aflags_bflags main_code_def del: alts_code.simps)
      qed
      then show ?thesis using Some by auto
    qed
  qed
qed

subsection \<open>\<open>regcomp\<close>\<close>

definition compiled :: "renv \<Rightarrow> re list list \<Rightarrow> regexp option option" where
  "compiled e bs = (if length (code_of bs) \<ge> 32767 then Some None else (case rmalloc e (length (code_of bs)) of
     None \<Rightarrow> Some None
   | Some r \<Rightarrow> map_option Some (optimize (gflags bs) (r\<lparr>program := code_of bs\<rparr>))))"

lemma regcomp_parse:
  assumes n: "nul exp" and mem: "\<And>n r. rmalloc e n = Some r \<Longrightarrow> length (program r) = n"
  shows "regcomp e (Some exp) = (case parse exp of None \<Rightarrow> Some None | Some bs \<Rightarrow> compiled e bs)"
proof -
  let ?s = "\<lparr>regparse = 0, regnpar = 1, regcode = Regdummy, regsize = 1, rprog = []\<rparr>"
  have m: "moved exp exp 1 ?s = ?s" by (simp add: moved_def)
  have c: "regc MAGIC \<lparr>regparse = 0, regnpar = 1, regcode = Regdummy, regsize = 0, rprog = []\<rparr> = Some ?s" by (simp add: regc_def)
  note R = reg_main [OF n, of ?s, unfolded m]
  show ?thesis
  proof (cases "parse exp")
    case None
    then show ?thesis using R c by (auto simp: regcomp_def simp del: reg.simps)
  next
    case (Some bs)
    obtain np where r: "reg (Suc NSUBEXP) False exp ?s = Some (Regdummy, gflags bs, moved exp [0] np (add (main_code bs) ?s))"
      using R Some by (auto simp: room_def)
    let ?t = "moved exp [0] np (add (main_code bs) ?s)"
    have sz: "regsize ?t = length (code_of bs)" by (simp add: moved_def add_def code_of_main)
    show ?thesis
    proof (cases "32767 \<le> length (code_of bs) \<or> rmalloc e (length (code_of bs)) = None")
      case True
      then show ?thesis using c r Some sz by (auto simp: regcomp_def compiled_def simp del: reg.simps)
    next
      case False
      then obtain x where x: "rmalloc e (length (code_of bs)) = Some x" by auto
      have l: "length (program x) = length (code_of bs)" by (rule mem [OF x])
      let ?u = "?t\<lparr>regparse := 0, regnpar := 1, regcode := Node 0, rprog := program x\<rparr>"
      have ru: "room ?u 1" using False l by (simp add: room_def code_of_main)
      have u: "regc MAGIC ?u = Some (add [MAGIC] ?u)" by (rule regc_add [OF ru])
      have m2: "moved exp exp 1 (add [MAGIC] ?u) = add [MAGIC] ?u" by (simp add: moved_def add_def)
      have ra: "room ?u (length [MAGIC] + length (main_code bs))" using False l by (simp add: room_def code_of_main)
      obtain np' where r2: "reg (Suc NSUBEXP) False exp (add [MAGIC] ?u) = Some (Node 1, gflags bs, moved exp [0] np' (add (code_of bs) ?u))"
        using reg_main [OF n, of "add [MAGIC] ?u", unfolded m2] Some room_add [OF ra] add_add [of ?u "[MAGIC]" "main_code bs"] ru
        by (auto simp: code_of_main place_def)
      have pr: "rprog (moved exp [0] np' (add (code_of bs) ?u)) = code_of bs" using l by (simp add: moved_def add_def)
      have "regcomp e (Some exp) = do { r \<leftarrow> optimize (gflags bs) (x\<lparr>program := code_of bs\<rparr>); Some (Some r) }"
        using False by (simp only: regcomp_def option.case c bind.simps r prod.case sz x u r2 pr) (simp add: not_le)
      then show ?thesis using Some False x by (cases "optimize (gflags bs) (x\<lparr>program := code_of bs\<rparr>)") (auto simp: compiled_def)
    qed
  qed
qed

end
