(* ===== verification/Windiff_Regexp_Match.thy ===== *)
theory Windiff_Regexp_Match
  imports Windiff_Regexec Windiff_Regexp_Reg
begin

text \<open>
  What matching does: the meaning of an expression as a relation between places of a text, and the
  matcher on the code of the expression, which finds a match if there is one.
\<close>

subsection \<open>Meaning of expressions\<close>

definition dseq :: "(nat \<times> nat) set list \<Rightarrow> (nat \<times> nat) set" where
  "dseq Ds = foldr (\<lambda>D R. D O R) Ds Id"

definition one_char :: "cstring \<Rightarrow> (byte \<Rightarrow> bool) \<Rightarrow> (nat \<times> nat) set" where
  "one_char txt p = {(i, j). j = i + 1 \<and> i < length txt \<and> txt ! i \<noteq> 0 \<and> p (txt ! i)}"

primrec den :: "cstring \<Rightarrow> nat option \<Rightarrow> re \<Rightarrow> (nat \<times> nat) set" where
  "den txt bol Bol = {(i, j). j = i \<and> Some i = bol}"
| "den txt bol Eol = {(i, j). j = i \<and> i < length txt \<and> txt ! i = 0}"
| "den txt bol Any = one_char txt (\<lambda>c. True)"
| "den txt bol (AnyOf s) = one_char txt (\<lambda>c. c \<in> set s)"
| "den txt bol (AnyBut s) = one_char txt (\<lambda>c. c \<notin> set s)"
| "den txt bol (Exactly s) = {(i, j). j = i + length s \<and> take (length s) (drop i txt) = s}"
| "den txt bol (Group n bs) = \<Union> (set (map dseq (map (map (den txt bol)) bs)))"
| "den txt bol (Star r) = (den txt bol r)\<^sup>*"
| "den txt bol (Plus1 r) = (den txt bol r)\<^sup>+"
| "den txt bol (Maybe r) = Id \<union> den txt bol r"

definition dens :: "cstring \<Rightarrow> nat option \<Rightarrow> re list list \<Rightarrow> (nat \<times> nat) set" where
  "dens txt bol bs = \<Union> (set (map (\<lambda>b. dseq (map (den txt bol) b)) bs))"

lemma dseq_simps [simp]: "dseq [] = Id" "dseq (D # Ds) = D O dseq Ds"
  by (simp_all add: dseq_def)

text \<open>Matches go forward, within the text, and those of an expression with a width are not empty.\<close>

definition forward :: "nat \<Rightarrow> (nat \<times> nat) set \<Rightarrow> bool" where
  "forward n D \<longleftrightarrow> (\<forall>i j. (i, j) \<in> D \<longrightarrow> i \<le> j \<and> (i \<le> n \<longrightarrow> j \<le> n))"

definition strict :: "(nat \<times> nat) set \<Rightarrow> bool" where
  "strict D \<longleftrightarrow> (\<forall>i j. (i, j) \<in> D \<longrightarrow> i < j)"

lemma forward_comp: "forward n D \<Longrightarrow> forward n R \<Longrightarrow> forward n (D O R)"
  by (fastforce simp: forward_def)

lemma forward_Id: "forward n Id"
  by (simp add: forward_def)

lemma forward_seq: "list_all (forward n) Ds \<Longrightarrow> forward n (dseq Ds)"
  by (induction Ds) (simp_all add: forward_Id forward_comp)

lemma forward_star: "forward n D \<Longrightarrow> forward n (D\<^sup>*)"
proof -
  assume f: "forward n D"
  have "(i, j) \<in> D\<^sup>* \<Longrightarrow> i \<le> j \<and> (i \<le> n \<longrightarrow> j \<le> n)" for i j
    by (induction rule: rtrancl_induct) (use f in \<open>fastforce simp: forward_def\<close>)+
  then show ?thesis by (simp add: forward_def)
qed

lemma strict_seq: "list_all (forward n) Ds \<Longrightarrow> list_ex strict Ds \<Longrightarrow> strict (dseq Ds)"
proof (induction Ds)
  case (Cons D Ds)
  have f: "forward n D" "forward n (dseq Ds)" using Cons.prems(1) forward_seq by simp_all
  show ?case
  proof (cases "strict D")
    case True
    then show ?thesis using f(2) by (fastforce simp: strict_def forward_def)
  next
    case False
    then have "strict (dseq Ds)" using Cons by simp
    then show ?thesis using f(1) by (fastforce simp: strict_def forward_def)
  qed
qed simp

definition ctext :: "nat \<Rightarrow> cstring \<Rightarrow> bool" where
  "ctext n txt \<longleftrightarrow> nul txt \<and> length txt = Suc n"

lemma ctext_at: "ctext n txt \<Longrightarrow> i < length txt \<Longrightarrow> txt ! i = 0 \<longleftrightarrow> i = n"
  using nth_mem [of i] by (fastforce simp: ctext_def nul_def nth_append less_Suc_eq)

lemma ctext_rd: "ctext n txt \<Longrightarrow> i \<le> n \<Longrightarrow> rd txt i = Some (txt ! i)"
  by (simp add: ctext_def rd_def)

lemma forward_one: "ctext n txt \<Longrightarrow> forward n (one_char txt p)"
  using ctext_at by (auto simp: forward_def one_char_def ctext_def less_Suc_eq_le)

lemma forward_exactly:
  assumes "ctext n txt" "0 \<notin> set s"
  shows "forward n {(i, j). j = i + length s \<and> take (length s) (drop i txt) = s}"
proof -
  have "i + length s \<le> n" if i: "i \<le> n" and t: "take (length s) (drop i txt) = s" for i
  proof (rule ccontr)
    assume n: "\<not> i + length s \<le> n"
    have "txt ! n = 0" using ctext_at [OF assms(1), of n] assms(1) by (simp add: ctext_def)
    moreover have "s ! (n - i) = txt ! n" using n i assms(1) by (subst t [symmetric]) (simp add: ctext_def)
    moreover have "n - i < length s" using n i by linarith
    ultimately show False using assms(2) nth_mem [of "n - i" s] by metis
  qed
  then show ?thesis by (auto simp: forward_def)
qed

lemma forward_den: "ctext n txt \<Longrightarrow> good r \<Longrightarrow> forward n (den txt bol r)"
proof (induction r)
  case (Group m bs)
  have "forward n (dseq (map (den txt bol) b))" if "b \<in> set bs" for b
    by (rule forward_seq) (use Group that in \<open>auto simp: list_all_iff\<close>)
  then show ?case by (auto simp: forward_def)
next
  case (Plus1 r)
  then show ?case using forward_comp [OF _ forward_star, of n "den txt bol r" "den txt bol r"] by (simp add: trancl_unfold_left)
qed (auto simp: forward_one forward_exactly forward_star, auto simp: forward_def)

lemma strict_den: "ctext n txt \<Longrightarrow> good r \<Longrightarrow> hasw r \<Longrightarrow> strict (den txt bol r)"
proof (induction r)
  case (Group m bs)
  have "strict (dseq (map (den txt bol) b))" if b: "b \<in> set bs" for b
  proof (rule strict_seq)
    show "list_all (forward n) (map (den txt bol) b)" using Group.prems b forward_den by (auto simp: list_all_iff)
    show "list_ex strict (map (den txt bol) b)" using Group b by (fastforce simp: list_all_iff list_ex_iff)
  qed
  then show ?case by (auto simp: strict_def)
next
  case (Plus1 r)
  then have s: "strict (den txt bol r)" "forward n ((den txt bol r)\<^sup>*)" using forward_star [OF forward_den] by simp_all
  then show ?case by (fastforce simp: strict_def forward_def trancl_unfold_left)
qed (auto simp: strict_def one_char_def)

subsection \<open>What a task of the matcher finds\<close>

definition wfm :: "mstate \<Rightarrow> bool" where
  "wfm s \<longleftrightarrow> length (regstartp s) = NSUBEXP \<and> length (regendp s) = NSUBEXP"

text \<open>\<open>ends\<close>: from the place \<open>i\<close> the task ends with a match at a place of \<open>F\<close>, or without one
  when \<open>F\<close> is empty.\<close>

definition ends :: "renv \<Rightarrow> byte list \<Rightarrow> cstring \<Rightarrow> nat option \<Rightarrow> task \<Rightarrow> nat \<Rightarrow> nat set \<Rightarrow> bool" where
  "ends e P txt bol k i F \<longleftrightarrow> (\<forall>s. reginput s = i \<longrightarrow> wfm s \<longrightarrow>
     (\<exists>b t. regmatch e P txt bol k s = Some (b, t) \<and> wfm t \<and> (if b then reginput t \<in> F else F = {})))"

lemma endsI:
  assumes "\<And>s. reginput s = i \<Longrightarrow> wfm s \<Longrightarrow>
    \<exists>b t. regmatch e P txt bol k s = Some (b, t) \<and> wfm t \<and> (if b then reginput t \<in> F else F = {})"
  shows "ends e P txt bol k i F"
  using assms by (simp add: ends_def)

lemma endsD:
  assumes "ends e P txt bol k i F" "reginput s = i" "wfm s"
  obtains b t where "regmatch e P txt bol k s = Some (b, t)" "wfm t" "b \<Longrightarrow> reginput t \<in> F" "\<not> b \<Longrightarrow> F = {}"
  using assms by (fastforce simp: ends_def split: if_splits)

lemma ends_same:
  assumes "ends e P txt bol k i F" and "\<And>s. reginput s = i \<Longrightarrow> wfm s \<Longrightarrow> regmatch e P txt bol k' s = regmatch e P txt bol k s"
  shows "ends e P txt bol k' i F"
  using assms by (simp add: ends_def)

lemma wfm_input [simp]: "wfm (s\<lparr>reginput := i\<rparr>) = wfm s"
  by (simp add: wfm_def)

abbreviation node_ends :: "renv \<Rightarrow> byte list \<Rightarrow> cstring \<Rightarrow> nat option \<Rightarrow> nat \<Rightarrow> nat \<Rightarrow> nat set \<Rightarrow> bool" where
  "node_ends e P txt bol p \<equiv> ends e P txt bol (Match (Node p))"

lemmas regmatch_node = regmatch.simps [of _ _ _ _ "Match (Node _)"]

text \<open>Nodes without recursion.\<close>

abbreviation simple_ops :: "byte set" where
  "simple_ops \<equiv> {BOL, EOL, ANY, EXACTLY, ANYOF, ANYBUT, NOTHING, BACK}"

lemma simple_ends:
  assumes op: "rd P p = Some op" "op \<in> simple_ops" and nx: "regnext P (Node p) = Some (Node q)"
    and m: "\<And>s. reginput s = i \<Longrightarrow> \<exists>k. simple_node e P txt bol op p s = Some (b, s\<lparr>reginput := k\<rparr>) \<and> (b \<longrightarrow> k = j)"
    and go: "b \<Longrightarrow> node_ends e P txt bol q j F"
  shows "node_ends e P txt bol p i (if b then F else {})"
proof (rule endsI)
  fix s :: mstate assume s: "reginput s = i" "wfm s"
  obtain k where k: "simple_node e P txt bol op p s = Some (b, s\<lparr>reginput := k\<rparr>)" "b \<longrightarrow> k = j" using m [OF s(1)] by blast
  have step: "regmatch e P txt bol (Match (Node p)) s = (if b then regmatch e P txt bol (Match (Node q)) (s\<lparr>reginput := k\<rparr>) else Some (False, s\<lparr>reginput := k\<rparr>))"
    using op nx k(1) by (subst regmatch_node) simp
  show "\<exists>c t. regmatch e P txt bol (Match (Node p)) s = Some (c, t) \<and> wfm t \<and> (if c then reginput t \<in> (if b then F else {}) else (if b then F else {}) = {})"
  proof (cases b)
    case True
    then show ?thesis using go k(2) s(2) step by (simp add: ends_def)
  next
    case False
    then have "regmatch e P txt bol (Match (Node p)) s = Some (False, s\<lparr>reginput := k\<rparr>)" using step by simp
    then show ?thesis using s(2) False by (intro exI [of _ False]) simp
  qed
qed

text \<open>Parentheses.\<close>

lemma set_paren_simps [simp]: "reginput (set_paren op save s) = reginput s" "wfm (set_paren op save s) = wfm s"
  by (simp_all add: set_paren_def Let_def wfm_def)

lemma paren_ends:
  assumes op: "rd P p = Some op" "paren op" "op \<notin> simple_ops" and nx: "regnext P (Node p) = Some (Node q)" and go: "node_ends e P txt bol q i F"
  shows "node_ends e P txt bol p i F"
proof (rule endsI)
  fix s :: mstate assume s: "reginput s = i" "wfm s"
  obtain b t where t: "regmatch e P txt bol (Match (Node q)) s = Some (b, t)" "wfm t" "b \<Longrightarrow> reginput t \<in> F" "\<not> b \<Longrightarrow> F = {}"
    using endsD [OF go s] by blast
  have "regmatch e P txt bol (Match (Node p)) s = Some (b, if b then set_paren op (reginput s) t else t)"
    using op nx t(1) by (subst regmatch_node) simp
  then show "\<exists>b t. regmatch e P txt bol (Match (Node p)) s = Some (b, t) \<and> wfm t \<and> (if b then reginput t \<in> F else F = {})"
    using t(2-4) by (cases b) auto
qed

text \<open>Branches.\<close>

lemma branch_op: "BRANCH \<notin> simple_ops" "\<not> paren BRANCH"
  by (simp_all add: opcodes paren_def)

lemma branch_ends:
  assumes "rd P p = Some BRANCH" "regnext P (Node p) = Some (Node q)" "rd P q = Some op"
    and "if op = BRANCH then ends e P txt bol (Alternatives p) i F else node_ends e P txt bol (p + 3) i F"
  shows "node_ends e P txt bol p i F"
proof (cases "op = BRANCH")
  case True
  have "regmatch e P txt bol (Match (Node p)) s = regmatch e P txt bol (Alternatives p) s" for s
    using assms(1-3) True branch_op by (subst regmatch_node) (simp add: OP_def)
  then show ?thesis using assms(4) True ends_same by simp
next
  case False
  have "regmatch e P txt bol (Match (Node p)) s = regmatch e P txt bol (Match (Node (p + 3))) s" for s
    using assms(1-3) False branch_op by (subst regmatch_node) (simp add: OP_def OPERAND_def)
  then show ?thesis using assms(4) False ends_same [of e P _ bol "Match (Node (p + 3))"] by simp
qed

lemma alternative_ends:
  assumes nx: "regnext P (Node p) = Some (Node q)" "rd P q = Some op"
    and alt: "node_ends e P txt bol (p + 3) i F" "op = BRANCH \<Longrightarrow> ends e P txt bol (Alternatives q) i G"
  shows "ends e P txt bol (Alternatives p) i (if op = BRANCH then F \<union> G else F)"
proof (rule endsI)
  fix s :: mstate assume s: "reginput s = i" "wfm s"
  obtain c t where t: "regmatch e P txt bol (Match (Node (p + 3))) s = Some (c, t)" "wfm t" "c \<Longrightarrow> reginput t \<in> F" "\<not> c \<Longrightarrow> F = {}"
    using endsD [OF alt(1) s] by blast
  let ?t = "t\<lparr>reginput := i\<rparr>"
  have step: "regmatch e P txt bol (Alternatives p) s = (if c then Some (True, t) else if op = BRANCH then regmatch e P txt bol (Alternatives q) ?t else Some (False, ?t))"
    using nx t(1) s(1) by (subst regmatch.simps) (simp add: OPERAND_def)
  show "\<exists>b t. regmatch e P txt bol (Alternatives p) s = Some (b, t) \<and> wfm t \<and>
      (if b then reginput t \<in> (if op = BRANCH then F \<union> G else F) else (if op = BRANCH then F \<union> G else F) = {})"
  proof (cases "\<not> c \<and> op = BRANCH")
    case True
    then obtain b' t' where "regmatch e P txt bol (Alternatives q) ?t = Some (b', t')" "wfm t'" "b' \<Longrightarrow> reginput t' \<in> G" "\<not> b' \<Longrightarrow> G = {}"
      using endsD [OF alt(2), of ?t] t(2) by auto
    then show ?thesis using step True t(4) by (cases b') auto
  next
    case False
    then show ?thesis using step t by auto
  qed
qed

subsection \<open>Repetitions of one character\<close>

definition plain :: "renv \<Rightarrow> bool" where
  "plain e \<longleftrightarrow> \<not> reg_ic e \<and> (\<forall>s i. i < length s \<longrightarrow> rcharnext e s i = i + 1)"

lemma plain_mkup [simp]: "plain e \<Longrightarrow> mkup e c = c"
  by (simp add: plain_def mkup_def)

text \<open>What \<open>lookahead\<close> skips could not have matched.\<close>

lemma lookahead_sound:
  assumes e: "plain e" "ctext n txt" and l: "lookahead P (Node q) = Some c" "c \<noteq> 0" and g: "node_ends e P txt bol q i G" and i: "i \<le> n" "txt ! i \<noteq> c"
  shows "G = {}"
proof -
  let ?s = "\<lparr>reginput = i, regstartp = replicate NSUBEXP None, regendp = replicate NSUBEXP None\<rparr>"
  have w: "wfm ?s" by (simp add: wfm_def)
  obtain b t where t: "regmatch e P txt bol (Match (Node q)) ?s = Some (b, t)" "\<not> b \<Longrightarrow> G = {}" using endsD [OF g _ w] by (metis mstate.select_convs(1))
  have o: "rd P q = Some EXACTLY" "rd P (OPERAND q) = Some c" using l by (auto simp: lookahead_def OP_def bind_Some_iff split: if_splits)
  obtain r where r: "regnext P (Node q) = Some r" using t(1) by (subst (asm) regmatch_node) (auto simp: bind_Some_iff)
  have "simple_node e P txt bol EXACTLY q ?s = Some (False, ?s)"
    using o e ctext_rd [OF e(2) i(1)] i(2) by (auto simp: simple_node_def opcodes)
  then have "regmatch e P txt bol (Match (Node q)) ?s = Some (False, ?s)" using o r by (subst regmatch_node) simp
  then show ?thesis using t by simp
qed

lemma repeats_ends:
  assumes e: "plain e" "ctext n txt" and l: "lookahead P (Node q) = Some c"
  shows "(\<And>k. least \<le> k \<Longrightarrow> k \<le> no \<Longrightarrow> node_ends e P txt bol q (i + k) (G (i + k))) \<Longrightarrow> i + no \<le> n \<Longrightarrow>
    ends e P txt bol (Repeats (Node q) c no least i) (i + no) (\<Union>k\<in>{least..no}. G (i + k))"
proof (induction no)
  case 0
  show ?case
  proof (rule endsI)
    fix s :: mstate assume s: "reginput s = i + 0" "wfm s"
    show "\<exists>b t. regmatch e P txt bol (Repeats (Node q) c 0 least i) s = Some (b, t) \<and> wfm t \<and>
        (if b then reginput t \<in> (\<Union>k\<in>{least..0}. G (i + k)) else (\<Union>k\<in>{least..0}. G (i + k)) = {})"
    proof (cases "least = 0")
      case False
      then show ?thesis using s(2) by (subst regmatch.simps) (intro exI [of _ False], simp)
    next
      case True
      then have g: "node_ends e P txt bol q i (G i)" using 0 by simp
      have cw: "could_work txt c s = Some (c = 0 \<or> txt ! i = c)" using ctext_rd [OF e(2)] 0 s(1) by (simp add: could_work_def)
      obtain b t where t: "regmatch e P txt bol (Match (Node q)) s = Some (b, t)" "wfm t" "b \<Longrightarrow> reginput t \<in> G i" "\<not> b \<Longrightarrow> G i = {}"
        using endsD [OF g _ s(2)] s(1) by auto
      have "\<not> (c = 0 \<or> txt ! i = c) \<Longrightarrow> G i = {}" using lookahead_sound [OF e l _ g] 0 by auto
      then show ?thesis using t s(2) True cw by (subst regmatch.simps) (cases b; cases "c = 0 \<or> txt ! i = c"; auto)
    qed
  qed
next
  case (Suc no)
  have IH: "ends e P txt bol (Repeats (Node q) c no least i) (i + no) (\<Union>k\<in>{least..no}. G (i + k))" using Suc by simp
  show ?case
  proof (rule endsI)
    fix s :: mstate assume s: "reginput s = i + Suc no" "wfm s"
    show "\<exists>b t. regmatch e P txt bol (Repeats (Node q) c (Suc no) least i) s = Some (b, t) \<and> wfm t \<and>
        (if b then reginput t \<in> (\<Union>k\<in>{least..Suc no}. G (i + k)) else (\<Union>k\<in>{least..Suc no}. G (i + k)) = {})"
    proof (cases "least \<le> Suc no")
      case False
      then show ?thesis using s(2) by (subst regmatch.simps) (intro exI [of _ False], simp)
    next
      case True
      then have g: "node_ends e P txt bol q (i + Suc no) (G (i + Suc no))" by (rule Suc.prems(1) [OF _ le_refl])
      have U: "(\<Union>k\<in>{least..Suc no}. G (i + k)) = G (i + Suc no) \<union> (\<Union>k\<in>{least..no}. G (i + k))" using True by (simp add: atLeastAtMostSuc_conv)
      let ?go = "c = 0 \<or> txt ! (i + Suc no) = c"
      have cw: "could_work txt c s = Some ?go" using ctext_rd [OF e(2)] Suc.prems s(1) by (simp add: could_work_def)
      obtain b t where t: "regmatch e P txt bol (Match (Node q)) s = Some (b, t)" "wfm t" "b \<Longrightarrow> reginput t \<in> G (i + Suc no)" "\<not> b \<Longrightarrow> G (i + Suc no) = {}"
        using endsD [OF g s] by auto
      have no: "\<not> ?go \<Longrightarrow> G (i + Suc no) = {}" using lookahead_sound [OF e l _ g] Suc.prems by auto
      let ?next = "\<lambda>t. regmatch e P txt bol (Repeats (Node q) c no least i) (t\<lparr>reginput := i + no\<rparr>)"
      have step: "regmatch e P txt bol (Repeats (Node q) c (Suc no) least i) s = (if ?go then (if b then Some (True, t) else ?next t) else ?next s)"
        using True cw t(1) by (subst regmatch.simps) simp
      have N: "\<exists>b t. ?next u = Some (b, t) \<and> wfm t \<and> (if b then reginput t \<in> (\<Union>k\<in>{least..no}. G (i + k)) else (\<Union>k\<in>{least..no}. G (i + k)) = {})"
        if "wfm u" for u using IH that by (simp add: ends_def)
      show ?thesis
      proof (cases "?go \<and> b")
        case True
        then show ?thesis using step t U by auto
      next
        case False
        then have G: "G (i + Suc no) = {}" using no t(4) by auto
        have eq: "regmatch e P txt bol (Repeats (Node q) c (Suc no) least i) s = ?next (if ?go then t else s)" using step False by (cases ?go; cases b) simp_all
        have "wfm (if ?go then t else s)" using t(2) s(2) by simp
        from N [OF this] show ?thesis unfolding eq U G Un_empty_left .
      qed
    qed
  qed
qed

definition run :: "(byte \<Rightarrow> bool) \<Rightarrow> cstring \<Rightarrow> nat" where
  "run p cs = length (takeWhile (\<lambda>c. c \<noteq> 0 \<and> p c) cs)"

lemma count_while_run: "c \<in> set cs \<Longrightarrow> \<not> p c \<Longrightarrow> count_while p cs = Some (length (takeWhile p cs))"
  by (induction cs) auto

lemma star_unfold: "(D :: ('a \<times> 'a) set)\<^sup>* = Id \<union> D O D\<^sup>*"
  using rtrancl_unfold [of D] by (simp add: r_comp_rtrancl_eq)

lemma Image_unfold: "(Id \<union> D O R) `` {i} = {i} \<union> R `` (D `` {i})"
  by auto

lemma run_drop: "i < length txt \<Longrightarrow> run p (drop i txt) = (if txt ! i \<noteq> 0 \<and> p (txt ! i) then Suc (run p (drop (Suc i) txt)) else 0)"
proof -
  assume "i < length txt"
  then obtain x xs where x: "drop i txt = x # xs" "x = txt ! i" "xs = drop (Suc i) txt" by (metis Cons_nth_drop_Suc)
  show ?thesis unfolding x(1) x(2,3) [symmetric] by (simp add: run_def)
qed

lemma run_beyond: "\<not> i < length txt \<Longrightarrow> run p (drop i txt) = 0"
  by (simp add: run_def)

lemma star_run: "(one_char txt p)\<^sup>* `` {i} = {i..i + run p (drop i txt)}"
proof (induction "run p (drop i txt)" arbitrary: i)
  case 0
  have "\<not> (i < length txt \<and> txt ! i \<noteq> 0 \<and> p (txt ! i))" using 0 run_drop [of i "txt" p] by auto
  then have "(i, j) \<notin> one_char txt p" for j by (auto simp: one_char_def)
  then have "(i, j) \<in> (one_char txt p)\<^sup>* \<longleftrightarrow> j = i" for j by (auto elim: converse_rtranclE)
  then show ?case using 0 by auto
next
  case (Suc k)
  have i: "i < length txt" using Suc(2) run_beyond [of i "txt" p] by (cases "i < length txt") simp_all
  have a: "txt ! i \<noteq> 0 \<and> p (txt ! i)" and k: "k = run p (drop (Suc i) txt)" using Suc(2) run_drop [OF i, of p] by (simp_all split: if_splits)
  have o: "one_char txt p `` {i} = {Suc i}" using i a by (auto simp: one_char_def)
  have "(one_char txt p)\<^sup>* `` {i} = (Id \<union> one_char txt p O (one_char txt p)\<^sup>*) `` {i}" by (rule arg_cong [OF star_unfold])
  also have "\<dots> = {i} \<union> (one_char txt p)\<^sup>* `` (one_char txt p `` {i})" by (rule Image_unfold)
  also have "\<dots> = {i} \<union> {Suc i..Suc i + k}" unfolding o Suc(1) [OF k] k [symmetric] by (rule refl)
  also have "\<dots> = {i..i + Suc k}" by auto
  finally show ?case unfolding Suc(2) .
qed

lemma plus_run: "(one_char txt p)\<^sup>+ `` {i} = {Suc i..i + run p (drop i txt)}"
proof (cases "i < length txt \<and> txt ! i \<noteq> 0 \<and> p (txt ! i)")
  case True
  then have o: "one_char txt p `` {i} = {Suc i}" by (auto simp: one_char_def)
  have "(one_char txt p)\<^sup>+ `` {i} = (one_char txt p)\<^sup>* `` (one_char txt p `` {i})" by (auto simp: trancl_unfold_left)
  also have "\<dots> = {Suc i..Suc i + run p (drop (Suc i) txt)}" unfolding o by (rule star_run)
  finally show ?thesis using run_drop [of i "txt" p] True by simp
next
  case False
  then have "(i, j) \<notin> one_char txt p" for j by (auto simp: one_char_def)
  then have "(i, j) \<notin> (one_char txt p)\<^sup>+" for j by (meson tranclD)
  moreover have "run p (drop i txt) = 0" using False run_drop [of i "txt" p] run_beyond [of i "txt" p] by (cases "i < length txt") auto
  ultimately show ?thesis by auto
qed

text \<open>The character a simple expression matches, and \<open>regrepeat\<close> on its code.\<close>

fun chr_of :: "re \<Rightarrow> byte \<Rightarrow> bool" where
  "chr_of (AnyOf s) = (\<lambda>c. c \<in> set s)"
| "chr_of (AnyBut s) = (\<lambda>c. c \<notin> set s)"
| "chr_of (Exactly s) = (\<lambda>c. c = hd s)"
| "chr_of r = (\<lambda>c. True)"

lemma den_simple:
  assumes "simple r" "good r"
  shows "den txt bol r = one_char txt (chr_of r)"
proof (cases r)
  case (Exactly s)
  then have "length s = 1" "0 \<notin> set s" using assms by simp_all
  then obtain x where x: "s = [x]" "x \<noteq> 0" by (cases s) auto
  have "take 1 (drop i txt) = [x] \<longleftrightarrow> i < length txt \<and> txt ! i = x" for i
  proof (cases "i < length txt")
    case True
    then obtain xs where "drop i txt = txt ! i # xs" by (metis Cons_nth_drop_Suc)
    then show ?thesis using True by simp
  qed simp
  then have "(i, j) \<in> den txt bol r \<longleftrightarrow> (i, j) \<in> one_char txt (chr_of r)" for i j unfolding Exactly x(1) using x(2) by (auto simp: one_char_def)
  then show ?thesis by auto
qed (use assms in simp_all)

lemma str_at_text: "0 \<notin> set s \<Longrightarrow> P = pre @ s @ [0] @ post \<Longrightarrow> str_at P (length pre) = Some s"
proof -
  assume "0 \<notin> set s" "P = pre @ s @ [0] @ post"
  moreover have "takeWhile (\<lambda>c. c \<noteq> 0) (s @ 0 # post) = s" using calculation(1) by (subst takeWhile_append2) auto
  ultimately show ?thesis by (simp add: str_at_def)
qed

lemma text_operand:
  assumes "P = pre @ text_code op s t @ post" "0 \<notin> set s"
  shows "str_at P (OPERAND (length pre)) = Some s" "s \<noteq> [] \<Longrightarrow> rd P (OPERAND (length pre)) = Some (hd s)" "rd P (length pre) = Some op"
proof -
  let ?h = "hdr op (dist (length s + 4) t)"
  have P: "P = (pre @ ?h) @ s @ [0] @ post" using assms(1) by (simp add: text_code_def)
  have o: "OPERAND (length pre) = length (pre @ ?h)" by (simp add: OPERAND_def)
  show "str_at P (OPERAND (length pre)) = Some s" unfolding o by (rule str_at_text [OF assms(2) P])
  show "s \<noteq> [] \<Longrightarrow> rd P (OPERAND (length pre)) = Some (hd s)" unfolding o P by (cases s) (simp_all add: rd_def nth_append)
  show "rd P (length pre) = Some op" by (simp add: P rd_def hdr_def nth_append)
qed

lemma regrepeat_run:
  assumes e: "plain e" "ctext n txt" and r: "simple r" "good r" and P: "P = pre @ emit r t @ post" and i: "reginput s \<le> n"
  shows "regrepeat e P txt (length pre) s = Some (run (chr_of r) (drop (reginput s) txt), s\<lparr>reginput := reginput s + run (chr_of r) (drop (reginput s) txt)\<rparr>)"
proof -
  let ?cs = "drop (reginput s) txt"
  have z: "0 \<in> set ?cs" using e(2) i by (auto simp: ctext_def nul_def)
  have c: "count_while p ?cs = Some (length (takeWhile p ?cs))" if "\<not> p 0" for p by (rule count_while_run [of 0 _ p, OF z that])
  show ?thesis
  proof (cases r)
    case Any
    have "rd P (length pre) = Some ANY" using P Any by (simp add: rd_def hdr_def nth_append)
    then show ?thesis using Any c by (simp add: regrepeat_def run_def opcodes)
  next
    case (AnyOf cs)
    note o = text_operand [of P pre ANYOF cs t post]
    show ?thesis using AnyOf o r P c by (simp add: regrepeat_def run_def opcodes)
  next
    case (AnyBut cs)
    note o = text_operand [of P pre ANYBUT cs t post]
    show ?thesis using AnyBut o r P c by (simp add: regrepeat_def run_def opcodes)
  next
    case (Exactly cs)
    note o = text_operand [of P pre EXACTLY cs t post]
    have "length cs = 1" "0 \<notin> set cs" using r Exactly by simp_all
    then obtain x where x: "cs = [x]" "x \<noteq> 0" by (cases cs) auto
    have "takeWhile (\<lambda>c. x = c) ?cs = takeWhile (\<lambda>c. c \<noteq> 0 \<and> c = x) ?cs" by (rule takeWhile_cong) (use x in auto)
    then show ?thesis using Exactly o P c [of "\<lambda>c. x = c"] x e(1) by (simp add: regrepeat_def run_def opcodes)
  qed (use r in simp_all)
qed

end
