(* ===== verification/Windiff_Regexp_Find.thy ===== *)
theory Windiff_Regexp_Find
  imports Windiff_Regexp_Match
begin

text \<open>
  The matcher on compiled code: from the code of an expression it finds what the expression and what
  follows it can match.
\<close>

subsection \<open>Code that finds a relation\<close>

definition via :: "(nat \<times> nat) set \<Rightarrow> (nat \<Rightarrow> nat set) \<Rightarrow> nat \<Rightarrow> nat set" where
  "via D G i = (\<Union>j\<in>D `` {i}. G j)"

lemma via_simps [simp]:
  "via Id G i = G i" "via {} G i = {}" "via (D \<union> R) G i = via D G i \<union> via R G i" "via (D O R) G i = via D (via R G) i"
  by (auto simp: via_def)

definition peek :: "byte list \<Rightarrow> nat \<Rightarrow> bool" where
  "peek P q \<longleftrightarrow> lookahead P (Node q) \<noteq> None"

definition peeks :: "coder \<Rightarrow> bool" where
  "peeks f \<longleftrightarrow> (\<forall>pre d post. peek (pre @ f (Some d) @ post) (length pre))"

definition finds :: "renv \<Rightarrow> nat \<Rightarrow> cstring \<Rightarrow> nat option \<Rightarrow> coder \<Rightarrow> (nat \<times> nat) set \<Rightarrow> bool" where
  "finds e n txt bol f D \<longleftrightarrow> (\<forall>P pre d post q i G. P = pre @ f (Some d) @ post \<longrightarrow> length P < 65536 \<longrightarrow> d \<le> length post \<longrightarrow>
     q = length pre + length (f (Some d)) + d \<longrightarrow> i \<le> n \<longrightarrow> peek P q \<longrightarrow>
     (\<forall>j. (i, j) \<in> D \<longrightarrow> node_ends e P txt bol q j (G j)) \<longrightarrow> node_ends e P txt bol (length pre) i (via D G i))"

lemma findsI:
  assumes "\<And>P pre d post q i G. P = pre @ f (Some d) @ post \<Longrightarrow> length P < 65536 \<Longrightarrow> d \<le> length post \<Longrightarrow>
     q = length pre + length (f (Some d)) + d \<Longrightarrow> i \<le> n \<Longrightarrow> peek P q \<Longrightarrow>
     (\<And>j. (i, j) \<in> D \<Longrightarrow> node_ends e P txt bol q j (G j)) \<Longrightarrow> node_ends e P txt bol (length pre) i (via D G i)"
  shows "finds e n txt bol f D"
  using assms by (simp add: finds_def)

lemma findsD:
  assumes "finds e n txt bol f D" "P = pre @ f (Some d) @ post" "length P < 65536" "d \<le> length post"
    "q = length pre + length (f (Some d)) + d" "i \<le> n" "peek P q" "\<And>j. (i, j) \<in> D \<Longrightarrow> node_ends e P txt bol q j (G j)"
  shows "node_ends e P txt bol (length pre) i (via D G i)"
  using assms(1) [unfolded finds_def, rule_format, OF assms(2-8)] .

lemma peek_hdr: "op \<noteq> EXACTLY \<Longrightarrow> peek (pre @ hdr op k @ post) (length pre)"
  by (simp add: peek_def lookahead_def OP_def rd_def hdr_def nth_append)

lemma peeks_hdr: "op \<noteq> EXACTLY \<Longrightarrow> (\<And>d. f (Some d) = hdr op (k d) @ x d) \<Longrightarrow> peeks f"
  using peek_hdr [of op _ "k _" "x _ @ _"] by (simp add: peeks_def)

lemma peeks_text: "peeks (text_code op s)"
proof -
  have "peek (pre @ text_code op s (Some d) @ post) (length pre)" for pre d post
    by (simp add: peek_def lookahead_def OP_def rd_def OPERAND_def text_code_def hdr_def nth_append nth_Cons')
  then show ?thesis by (simp add: peeks_def)
qed

lemma peeks_first: "peeks f \<Longrightarrow> (\<And>d. g (Some d) = f (Some 0) @ x d) \<Longrightarrow> peeks g"
  by (simp add: peeks_def)

text \<open>Nodes whose distance is set.\<close>

lemma node_next:
  assumes "P = pre @ hdr op k @ post" "length P < 65536" "0 < k" "k \<le> 3 + length post" "op \<noteq> BACK"
  shows "regnext P (Node (length pre)) = Some (Node (length pre + k))" "rd P (length pre) = Some op"
proof -
  have k: "k < 65536" using assms(1,2,4) by simp
  show "regnext P (Node (length pre)) = Some (Node (length pre + k))" using regnext_hdr [OF k, of pre op post] assms by simp
  show "rd P (length pre) = Some op" using NEXT_hdr(2) [OF k, of pre op post] assms(1) by simp
qed

lemma finds_simple:
  assumes op: "op \<in> simple_ops" "op \<noteq> BACK" and f: "\<And>t. f t = hdr op (dist (3 + length x) t) @ x"
    and m: "\<And>P pre d post s. P = pre @ f (Some d) @ post \<Longrightarrow> reginput s \<le> n \<Longrightarrow>
      \<exists>k. simple_node e P txt bol op (length pre) s = Some (b (reginput s), s\<lparr>reginput := k\<rparr>) \<and> (b (reginput s) \<longrightarrow> k = j (reginput s))"
    and D: "\<And>i. i \<le> n \<Longrightarrow> D `` {i} = (if b i then {j i} else {})"
  shows "finds e n txt bol f D"
proof (rule findsI)
  fix P pre d post q i G
  assume a: "P = pre @ f (Some d) @ post" "length P < 65536" "d \<le> length post" "q = length pre + length (f (Some d)) + d" "i \<le> n"
    and go: "\<And>j. (i, j) \<in> D \<Longrightarrow> node_ends e P txt bol q j (G j)"
  have P: "P = pre @ hdr op (3 + length x + d) @ x @ post" using a(1) f by simp
  have nx: "regnext P (Node (length pre)) = Some (Node q)" "rd P (length pre) = Some op"
    using node_next [OF P a(2)] a(3,4) op(2) f by (simp_all add: ac_simps)
  have v: "via D G i = (if b i then G (j i) else {})" using D [OF a(5)] by (simp add: via_def)
  show "node_ends e P txt bol (length pre) i (via D G i)"
    unfolding v
  proof (rule simple_ends [OF nx(2) op(1) nx(1)])
    show "\<exists>k. simple_node e P txt bol op (length pre) s = Some (b i, s\<lparr>reginput := k\<rparr>) \<and> (b i \<longrightarrow> k = j i)" if "reginput s = i" for s
      using m [OF a(1), of s] that a(5) by simp
    show "node_ends e P txt bol q (j i) (G (j i))" if "b i" using go [of "j i"] D [OF a(5)] that by auto
  qed
qed

lemma finds_nothing: "finds e n txt bol (\<lambda>t. hdr NOTHING (dist 3 t)) Id"
proof (rule finds_simple [where op = NOTHING and x = "[]" and b = "\<lambda>i. True" and j = "\<lambda>i. i"])
  fix P pre d post and s :: mstate
  show "\<exists>k. simple_node e P txt bol NOTHING (length pre) s = Some (True, s\<lparr>reginput := k\<rparr>) \<and> (True \<longrightarrow> k = reginput s)"
    by (intro exI [of _ "reginput s"]) (simp add: simple_node_def opcodes)
qed (auto simp: opcodes)

lemma finds_bol: "finds e n txt bol (emit Bol) (den txt bol Bol)"
proof (rule finds_simple [where op = BOL and x = "[]" and b = "\<lambda>i. Some i = bol" and j = "\<lambda>i. i"])
  fix P pre d post and s :: mstate
  show "\<exists>k. simple_node e P txt bol BOL (length pre) s = Some (Some (reginput s) = bol, s\<lparr>reginput := k\<rparr>) \<and> (Some (reginput s) = bol \<longrightarrow> k = reginput s)"
    by (intro exI [of _ "reginput s"]) (simp add: simple_node_def opcodes)
qed (auto simp: opcodes)

lemma finds_eol:
  assumes c: "ctext n txt"
  shows "finds e n txt bol (emit Eol) (den txt bol Eol)"
proof (rule finds_simple [where op = EOL and x = "[]" and b = "\<lambda>i. txt ! i = 0" and j = "\<lambda>i. i"])
  fix P pre d post and s :: mstate assume "reginput s \<le> n"
  then show "\<exists>k. simple_node e P txt bol EOL (length pre) s = Some (txt ! (reginput s) = 0, s\<lparr>reginput := k\<rparr>) \<and> (txt ! reginput s = 0 \<longrightarrow> k = reginput s)"
    using ctext_rd [OF c] by (intro exI [of _ "reginput s"]) (simp add: simple_node_def opcodes)
qed (use c in \<open>auto simp: opcodes ctext_def\<close>)

lemma one_char_image: "ctext n txt \<Longrightarrow> i \<le> n \<Longrightarrow> one_char txt p `` {i} = (if txt ! i \<noteq> 0 \<and> p (txt ! i) then {i + 1} else {})"
  by (auto simp: one_char_def ctext_def)

lemma char_ops: "ANY \<noteq> BACK" "ANYOF \<noteq> BACK" "ANYBUT \<noteq> BACK" "EXACTLY \<noteq> BACK"
  by (simp_all add: opcodes)

lemma finds_any:
  assumes c: "ctext n txt"
  shows "finds e n txt bol (emit Any) (den txt bol Any)"
proof (rule finds_simple [where op = ANY and x = "[]" and b = "\<lambda>i. txt ! i \<noteq> 0" and j = "\<lambda>i. i + 1"])
  fix P pre d post and s :: mstate assume "reginput s \<le> n"
  then show "\<exists>k. simple_node e P txt bol ANY (length pre) s = Some (txt ! (reginput s) \<noteq> 0, s\<lparr>reginput := k\<rparr>) \<and> (txt ! reginput s \<noteq> 0 \<longrightarrow> k = reginput s + 1)"
    using ctext_rd [OF c] by (intro exI [of _ "reginput s + 1"]) (simp add: simple_node_def opcodes)
qed (use one_char_image [OF c] in \<open>auto simp: char_ops\<close>)

lemma finds_anyof:
  assumes c: "ctext n txt" and s: "0 \<notin> set cs"
  shows "finds e n txt bol (emit (AnyOf cs)) (den txt bol (AnyOf cs))"
proof (rule finds_simple [where op = ANYOF and x = "cs @ [0]" and b = "\<lambda>i. txt ! i \<noteq> 0 \<and> txt ! i \<in> set cs" and j = "\<lambda>i. i + 1"])
  fix P pre d post and s :: mstate assume i: "P = pre @ emit (AnyOf cs) (Some d) @ post" "reginput s \<le> n"
  have "str_at P (OPERAND (length pre)) = Some cs" using text_operand(1) [of P pre ANYOF cs "Some d" post] i(1) s by simp
  then show "\<exists>k. simple_node e P txt bol ANYOF (length pre) s = Some (txt ! (reginput s) \<noteq> 0 \<and> txt ! reginput s \<in> set cs, s\<lparr>reginput := k\<rparr>) \<and>
      (txt ! reginput s \<noteq> 0 \<and> txt ! reginput s \<in> set cs \<longrightarrow> k = reginput s + 1)"
    using ctext_rd [OF c i(2)] by (intro exI [of _ "if txt ! reginput s = 0 then reginput s else reginput s + 1"]) (simp add: simple_node_def opcodes)
qed (use one_char_image [OF c] in \<open>auto simp: char_ops text_code_def ac_simps\<close>)

lemma finds_anybut:
  assumes c: "ctext n txt" and s: "0 \<notin> set cs"
  shows "finds e n txt bol (emit (AnyBut cs)) (den txt bol (AnyBut cs))"
proof (rule finds_simple [where op = ANYBUT and x = "cs @ [0]" and b = "\<lambda>i. txt ! i \<noteq> 0 \<and> txt ! i \<notin> set cs" and j = "\<lambda>i. i + 1"])
  fix P pre d post and s :: mstate assume i: "P = pre @ emit (AnyBut cs) (Some d) @ post" "reginput s \<le> n"
  have "str_at P (OPERAND (length pre)) = Some cs" using text_operand(1) [of P pre ANYBUT cs "Some d" post] i(1) s by simp
  then show "\<exists>k. simple_node e P txt bol ANYBUT (length pre) s = Some (txt ! (reginput s) \<noteq> 0 \<and> txt ! reginput s \<notin> set cs, s\<lparr>reginput := k\<rparr>) \<and>
      (txt ! reginput s \<noteq> 0 \<and> txt ! reginput s \<notin> set cs \<longrightarrow> k = reginput s + 1)"
    using ctext_rd [OF c i(2)] by (intro exI [of _ "if txt ! reginput s = 0 then reginput s else reginput s + 1"]) (simp add: simple_node_def opcodes)
qed (use one_char_image [OF c] in \<open>auto simp: char_ops text_code_def ac_simps\<close>)

lemma strncmp_take: "0 \<in> set cs \<Longrightarrow> 0 \<notin> set s \<Longrightarrow> strncmp_eq (s @ z) cs (length s) = Some (take (length s) cs = s)"
proof (induction s arbitrary: cs)
  case (Cons a s)
  obtain b bs where "cs = b # bs" using Cons.prems(1) by (cases cs) auto
  then show ?case using Cons by auto
qed simp

lemma finds_exactly:
  assumes c: "ctext n txt" and e: "plain e" and s: "0 \<notin> set cs" "cs \<noteq> []"
  shows "finds e n txt bol (emit (Exactly cs)) (den txt bol (Exactly cs))"
proof (rule finds_simple [where op = EXACTLY and x = "cs @ [0]" and b = "\<lambda>i. take (length cs) (drop i txt) = cs" and j = "\<lambda>i. i + length cs"])
  fix P pre d post and s :: mstate assume i: "P = pre @ emit (Exactly cs) (Some d) @ post" "reginput s \<le> n"
  let ?cs = "drop (reginput s) txt" and ?b = "take (length cs) (drop (reginput s) txt) = cs"
  have o: "str_at P (OPERAND (length pre)) = Some cs" "rd P (OPERAND (length pre)) = Some (hd cs)"
    using text_operand [of P pre EXACTLY cs "Some d" post] i(1) s(1,2) by simp_all
  have r: "rd txt (reginput s) = Some (txt ! reginput s)" by (rule ctext_rd [OF c i(2)])
  have z: "0 \<in> set ?cs" using c i(2) by (auto simp: ctext_def nul_def)
  obtain xs where xs: "?cs = txt ! reginput s # xs" using c i(2) by (metis Cons_nth_drop_Suc ctext_def less_Suc_eq_le)
  obtain y ys where y: "cs = y # ys" using s(2) by (cases cs) auto
  have sn: "strncmp_eq (cs @ [0]) ?cs (length cs) = Some ?b" by (rule strncmp_take [OF z s(1)])
  have "simple_node e P txt bol EXACTLY (length pre) s = Some (?b, s\<lparr>reginput := if hd cs = txt ! reginput s then reginput s + length cs else reginput s\<rparr>)"
  proof (cases "hd cs = txt ! reginput s")
    case False
    then have "\<not> ?b" unfolding xs y by auto
    then show ?thesis using False o r e by (simp add: simple_node_def opcodes)
  next
    case True
    have "(if 1 < length cs then cstrncmp_eq e (cs @ [0]) ?cs (length cs) else Some True) = Some ?b"
    proof (cases "1 < length cs")
      case True
      then show ?thesis using sn e by (simp add: cstrncmp_eq_def plain_def)
    next
      case False
      then have "ys = []" using y by simp
      then show ?thesis using xs y \<open>hd cs = txt ! reginput s\<close> by simp
    qed
    then show ?thesis using True o r e by (simp add: simple_node_def opcodes Let_def)
  qed
  moreover have "?b \<longrightarrow> hd cs = txt ! reginput s" unfolding xs y by auto
  ultimately show "\<exists>k. simple_node e P txt bol EXACTLY (length pre) s = Some (?b, s\<lparr>reginput := k\<rparr>) \<and> (?b \<longrightarrow> k = reginput s + length cs)"
    by (intro exI [of _ "if hd cs = txt ! reginput s then reginput s + length cs else reginput s"]) auto
qed (auto simp: char_ops text_code_def ac_simps)

subsection \<open>Sequences and alternatives\<close>

lemma finds_seq:
  "list_all2 (finds e n txt bol) fs Ds \<Longrightarrow> list_all peeks fs \<Longrightarrow> list_all (forward n) Ds \<Longrightarrow>
    finds e n txt bol (seq_code fs) (dseq Ds) \<and> peeks (seq_code fs)"
proof (induction fs arbitrary: Ds rule: induct_list012)
  case 1
  have "seq_code [] = (\<lambda>t. hdr NOTHING (dist 3 t))" by (simp add: fun_eq_iff)
  moreover have "peeks (\<lambda>t. hdr NOTHING (dist 3 t))" by (rule peeks_hdr [of NOTHING _ "\<lambda>d. 3 + d" "\<lambda>d. []"]) (simp_all add: opcodes)
  ultimately show ?case using 1 finds_nothing by simp
next
  case (2 f)
  moreover have "seq_code [f] = f" by (simp add: fun_eq_iff)
  ultimately show ?case by (auto simp: list_all2_Cons1)
next
  case (3 f g fs)
  obtain D Rs where D: "Ds = D # Rs" "finds e n txt bol f D" "list_all2 (finds e n txt bol) (g # fs) Rs" using "3.prems"(1) by (auto simp: list_all2_Cons1)
  have rest: "finds e n txt bol (seq_code (g # fs)) (dseq Rs)" "peeks (seq_code (g # fs))" using "3.IH"(2) [OF D(3)] "3.prems" D(1) by simp_all
  have fw: "forward n D" using "3.prems"(3) D(1) by simp
  have "finds e n txt bol (seq_code (f # g # fs)) (D O dseq Rs)"
  proof (rule findsI)
    fix P pre d post q i G
    assume a: "P = pre @ seq_code (f # g # fs) (Some d) @ post" "length P < 65536" "d \<le> length post"
      "q = length pre + length (seq_code (f # g # fs) (Some d)) + d" "i \<le> n" "peek P q"
      and go: "\<And>j. (i, j) \<in> D O dseq Rs \<Longrightarrow> node_ends e P txt bol q j (G j)"
    let ?s = "seq_code (g # fs) (Some d)" and ?m = "length (pre @ f (Some 0))"
    have P1: "P = pre @ f (Some 0) @ ?s @ post" and P2: "P = (pre @ f (Some 0)) @ ?s @ post" using a(1) by simp_all
    have "node_ends e P txt bol ?m j (via (dseq Rs) G j)" if j: "(i, j) \<in> D" for j
    proof (rule findsD [OF rest(1) P2 a(2,3)])
      show "q = ?m + length ?s + d" using a(4) by simp
      show "j \<le> n" using fw j a(5) by (auto simp: forward_def)
      show "node_ends e P txt bol q k (G k)" if "(j, k) \<in> dseq Rs" for k using go j that by blast
    qed (rule a(6))
    moreover have "peek P ?m" using rest(2) P2 unfolding peeks_def by blast
    ultimately show "node_ends e P txt bol (length pre) i (via (D O dseq Rs) G i)"
      unfolding via_simps by (intro findsD [OF D(2) P1 a(2) _ _ a(5)]) simp_all
  qed
  moreover have "peeks (seq_code (f # g # fs))" by (rule peeks_first [of f _ "\<lambda>d. seq_code (g # fs) (Some d)"]) (use "3.prems"(2) in simp_all)
  ultimately show ?case using D(1) by (simp del: seq_code.simps)
qed

text \<open>Alternatives, when what follows them is no branch.\<close>

lemma peek_rd: "peek P q \<Longrightarrow> \<exists>op. rd P q = Some op"
  by (cases "rd P q") (auto simp: peek_def lookahead_def OP_def)

lemma alts_branch: "bs \<noteq> [] \<Longrightarrow> rd (pre @ alts_code bs @ post) (length pre) = Some BRANCH"
  by (cases bs) (simp_all add: rd_def hdr_def nth_append)

lemma finds_alts:
  "list_all2 (finds e n txt bol) bs Ds \<Longrightarrow> list_all tailed bs \<Longrightarrow> bs \<noteq> [] \<Longrightarrow> P = pre @ alts_code bs @ post \<Longrightarrow> length P < 65536 \<Longrightarrow> i \<le> n \<Longrightarrow>
    q = length pre + length (alts_code bs) \<Longrightarrow> peek P q \<Longrightarrow> rd P q = Some op \<Longrightarrow> op \<noteq> BRANCH \<Longrightarrow>
    (\<And>j. (i, j) \<in> \<Union> (set Ds) \<Longrightarrow> node_ends e P txt bol q j (G j)) \<Longrightarrow>
    ends e P txt bol (Alternatives (length pre)) i (via (\<Union> (set Ds)) G i) \<and> node_ends e P txt bol (length pre) i (via (\<Union> (set Ds)) G i)"
proof (induction bs arbitrary: Ds pre)
  case (Cons b bs)
  obtain D Rs where D: "Ds = D # Rs" "finds e n txt bol b D" "list_all2 (finds e n txt bol) bs Rs" using Cons.prems(1) by (auto simp: list_all2_Cons1)
  let ?d = "length (alts_code bs)" and ?k = "3 + length (b None)"
  let ?h = "hdr BRANCH ?k" and ?r = "alts_code bs @ post"
  have lb: "length (b (Some ?d)) = length (b None)" using Cons.prems(2) by (simp add: tailed_length)
  have P0: "P = pre @ ?h @ b (Some ?d) @ ?r" using Cons.prems(4) by simp
  have P1: "P = (pre @ ?h) @ b (Some ?d) @ ?r" and P2: "P = (pre @ ?h @ b (Some ?d)) @ alts_code bs @ post" using P0 by simp_all
  have q: "q = length (pre @ ?h @ b (Some ?d)) + length (alts_code bs)" using Cons.prems(7) by simp
  have nx: "regnext P (Node (length pre)) = Some (Node (length (pre @ ?h @ b (Some ?d))))" "rd P (length pre) = Some BRANCH"
    using node_next [OF P0 Cons.prems(5)] lb by (simp_all add: opcodes ac_simps)
  have body: "node_ends e P txt bol (length pre + 3) i (via D G i)"
  proof -
    have "node_ends e P txt bol (length (pre @ ?h)) i (via D G i)"
      by (rule findsD [OF D(2) P1 Cons.prems(5) _ _ Cons.prems(6,8)]) (use q Cons.prems(11) D(1) in auto)
    then show ?thesis by simp
  qed
  show ?case
  proof (cases "bs = []")
    case True
    then have m: "rd P (length (pre @ ?h @ b (Some ?d))) = Some op" using q Cons.prems(9) by simp
    have "Rs = []" using D(3) True by simp
    then show ?thesis using alternative_ends [OF nx(1) m body, of "{}"] branch_ends [OF nx(2,1) m] body Cons.prems(10) D(1) by simp
  next
    case False
    have m: "rd P (length (pre @ ?h @ b (Some ?d))) = Some BRANCH" unfolding P2 by (rule alts_branch [OF False])
    have "ends e P txt bol (Alternatives (length (pre @ ?h @ b (Some ?d)))) i (via (\<Union> (set Rs)) G i)"
      using Cons.IH [OF D(3) _ False P2 Cons.prems(5,6) q Cons.prems(8-10)] Cons.prems(2,11) D(1) by auto
    from alternative_ends [OF nx(1) m body this]
    have A: "ends e P txt bol (Alternatives (length pre)) i (via (\<Union> (set Ds)) G i)" using D(1) by simp
    then show ?thesis using branch_ends [OF nx(2,1) m] by simp
  qed
qed simp

subsection \<open>Groups and repetitions\<close>

lemma paren_props:
  assumes "0 < m" "m < NSUBEXP"
  shows "paren (OPEN + of_nat m)" "paren (CLOSE + of_nat m)" "OPEN + of_nat m \<notin> simple_ops" "CLOSE + of_nat m \<notin> simple_ops"
    "OPEN + of_nat m \<noteq> BACK" "CLOSE + of_nat m \<noteq> BACK" "CLOSE + of_nat m \<noteq> BRANCH" "OPEN + of_nat m \<noteq> EXACTLY" "CLOSE + of_nat m \<noteq> EXACTLY"
proof -
  have o: "unat (OPEN + of_nat m :: byte) = 20 + m" "unat (CLOSE + of_nat m :: byte) = 30 + m"
    using assms by (simp_all add: OPEN_def CLOSE_def NSUBEXP_def unat_word_ariths unat_of_nat)
  have lt: "(a :: byte) < b \<longleftrightarrow> unat a < unat b" for a b by (rule word_less_nat_alt)
  have small: "x \<in> simple_ops \<Longrightarrow> unat x < 20" "x = BRANCH \<Longrightarrow> unat x < 20" for x by (auto simp: opcodes)
  have u: "unat (OPEN :: byte) = 20" "unat (OPEN + 10 :: byte) = 30" "unat (CLOSE :: byte) = 30" "unat (CLOSE + 10 :: byte) = 40"
    by (simp_all add: OPEN_def CLOSE_def)
  show "paren (OPEN + of_nat m)" "paren (CLOSE + of_nat m)" using assms by (simp_all only: paren_def lt o u NSUBEXP_def) auto
  show O: "OPEN + of_nat m \<notin> simple_ops" using small(1) [of "OPEN + of_nat m"] o by fastforce
  show C: "CLOSE + of_nat m \<notin> simple_ops" using small(1) [of "CLOSE + of_nat m"] o by fastforce
  show "OPEN + of_nat m \<noteq> BACK" "CLOSE + of_nat m \<noteq> BACK" "OPEN + of_nat m \<noteq> EXACTLY" "CLOSE + of_nat m \<noteq> EXACTLY" using O C by auto
  show "CLOSE + of_nat m \<noteq> BRANCH" using small(2) [of "CLOSE + of_nat m"] o by fastforce
qed

lemma finds_group:
  assumes bs: "list_all2 (finds e n txt bol) bs Ds" "list_all tailed bs" "bs \<noteq> []" and m: "0 < m" "m < NSUBEXP"
  shows "finds e n txt bol (group_code m bs) (\<Union> (set Ds))"
proof (rule findsI)
  fix P pre d post q i G
  assume a: "P = pre @ group_code m bs (Some d) @ post" "length P < 65536" "d \<le> length post" "q = length pre + length (group_code m bs (Some d)) + d" "i \<le> n"
    and go: "\<And>j. (i, j) \<in> \<Union> (set Ds) \<Longrightarrow> node_ends e P txt bol q j (G j)"
  note pp = paren_props [OF m]
  let ?O = "hdr (OPEN + of_nat m) 3" and ?C = "hdr (CLOSE + of_nat m) (3 + d)" and ?alts = "alts_code bs"
  have P0: "P = pre @ ?O @ ?alts @ ?C @ post" using a(1) by (simp add: group_code_def)
  have P1: "P = (pre @ ?O) @ ?alts @ ?C @ post" and P2: "P = (pre @ ?O @ ?alts) @ ?C @ post" using P0 by simp_all
  have o: "regnext P (Node (length pre)) = Some (Node (length (pre @ ?O)))" "rd P (length pre) = Some (OPEN + of_nat m)"
    using node_next [OF P0 a(2)] pp(5) by simp_all
  have c: "regnext P (Node (length (pre @ ?O @ ?alts))) = Some (Node q)" "rd P (length (pre @ ?O @ ?alts)) = Some (CLOSE + of_nat m)"
    using node_next [OF P2 a(2)] a(3,4) pp(6) by (simp_all add: group_code_def ac_simps)
  have cl: "node_ends e P txt bol (length (pre @ ?O @ ?alts)) j (G j)" if "(i, j) \<in> \<Union> (set Ds)" for j
    by (rule paren_ends [OF c(2) pp(2,4) c(1) go [OF that]])
  have pk: "peek P (length (pre @ ?O @ ?alts))" unfolding P2 by (rule peek_hdr [OF pp(9)])
  have "node_ends e P txt bol (length (pre @ ?O)) i (via (\<Union> (set Ds)) G i)"
    using finds_alts [OF bs P1 a(2,5) _ pk c(2) pp(7) cl] by simp
  then show "node_ends e P txt bol (length pre) i (via (\<Union> (set Ds)) G i)" by (rule paren_ends [OF o(2) pp(1,3) o(1)])
qed

text \<open>The end of a repetition: a branch to nothing.\<close>

lemma end_ends:
  assumes P: "P = pre @ hdr BRANCH 3 @ hdr NOTHING (3 + d) @ post" "length P < 65536" "d \<le> length post" and q: "q = length pre + 6 + d"
    and i: "i \<le> n" "peek P q" and go: "node_ends e P txt bol q i F"
  shows "ends e P txt bol (Alternatives (length pre)) i F" "node_ends e P txt bol (length pre + 3) i F" "rd P (length pre) = Some BRANCH"
proof -
  let ?h = "hdr BRANCH 3"
  have P1: "P = (pre @ ?h) @ hdr NOTHING (dist 3 (Some d)) @ post" using P(1) by simp
  have nx: "regnext P (Node (length pre)) = Some (Node (length pre + 3))" "rd P (length pre) = Some BRANCH"
    using node_next [OF P(1,2)] by (simp_all add: opcodes)
  show "rd P (length pre) = Some BRANCH" by (rule nx(2))
  have "node_ends e P txt bol (length (pre @ ?h)) i (via Id (\<lambda>j. F) i)"
    by (rule findsD [OF finds_nothing P1 P(2,3) _ i]) (use q go in auto)
  then show b: "node_ends e P txt bol (length pre + 3) i F" by simp
  have m: "rd P (length pre + 3) = Some NOTHING" unfolding P1 by (simp add: rd_def hdr_def nth_append)
  show "ends e P txt bol (Alternatives (length pre)) i F" using alternative_ends [OF nx(1) m b, of F] by (simp add: opcodes)
qed

lemma back_next:
  assumes "P = pre @ hdr BACK k @ post" "length P < 65536" "0 < k" "k \<le> length pre"
  shows "regnext P (Node (length pre)) = Some (Node (length pre - k))" "rd P (length pre) = Some BACK"
proof -
  have k: "k < 65536" using assms(1,2,4) by simp
  show "regnext P (Node (length pre)) = Some (Node (length pre - k))" using regnext_hdr [OF k, of pre BACK post] assms by simp
  show "rd P (length pre) = Some BACK" using NEXT_hdr(2) [OF k, of pre BACK post] assms(1) by simp
qed

lemma back_ends:
  assumes P: "P = pre @ hdr BACK k @ post" "length P < 65536" "0 < k" "k \<le> length pre" and go: "node_ends e P txt bol (length pre - k) i F"
  shows "node_ends e P txt bol (length pre) i F"
proof -
  note b = back_next [OF P]
  have "\<exists>k. simple_node e P txt bol BACK (length pre) s = Some (True, s\<lparr>reginput := k\<rparr>) \<and> (True \<longrightarrow> k = i)" if "reginput s = i" for s
    using that by (intro exI [of _ i]) (auto simp: simple_node_def opcodes)
  from simple_ends [OF b(2) _ b(1) this go] show ?thesis by simp
qed

lemma finds_maybe:
  assumes f: "finds e n txt bol f D" "tailed f" and fw: "forward n D"
  shows "finds e n txt bol (maybe_code f) (Id \<union> D)"
proof (rule findsI)
  fix P pre d post q i G
  assume a: "P = pre @ maybe_code f (Some d) @ post" "length P < 65536" "d \<le> length post" "q = length pre + length (maybe_code f (Some d)) + d" "i \<le> n" "peek P q"
    and go: "\<And>j. (i, j) \<in> Id \<union> D \<Longrightarrow> node_ends e P txt bol q j (G j)"
  let ?h = "hdr BRANCH (3 + length (f None))" and ?f = "f (Some 3)" and ?e = "hdr BRANCH 3 @ hdr NOTHING (3 + d) @ post"
  have lf: "length ?f = length (f None)" by (rule tailed_length [OF f(2)])
  have P0: "P = pre @ ?h @ ?f @ ?e" and P1: "P = (pre @ ?h) @ ?f @ ?e" and P2: "P = (pre @ ?h @ ?f) @ ?e"
    and P3: "P = (pre @ ?h @ ?f @ hdr BRANCH 3) @ hdr NOTHING (3 + d) @ post" using a(1) by (simp_all add: maybe_code_def)
  have q: "q = length (pre @ ?h @ ?f) + 6 + d" using a(4) by (simp add: maybe_code_def)
  have E: "ends e P txt bol (Alternatives (length (pre @ ?h @ ?f))) j (G j)" "node_ends e P txt bol (length (pre @ ?h @ ?f) + 3) j (G j)"
    "rd P (length (pre @ ?h @ ?f)) = Some BRANCH" if "(i, j) \<in> Id \<union> D" for j
    using end_ends [OF P2 a(2,3) q _ a(6) go [OF that]] that fw a(5) by (auto simp: forward_def)
  have pk: "peek P (length (pre @ ?h @ ?f) + 3)"
    using peek_hdr [of NOTHING "pre @ ?h @ ?f @ hdr BRANCH 3" "3 + d" post] P3 by (simp add: opcodes ac_simps)
  have nx: "regnext P (Node (length pre)) = Some (Node (length (pre @ ?h @ ?f)))" "rd P (length pre) = Some BRANCH"
    using node_next [OF P0 a(2)] lf by (simp_all add: opcodes ac_simps)
  have "node_ends e P txt bol (length (pre @ ?h)) i (via D G i)"
    by (rule findsD [OF f(1) P1 a(2) _ _ a(5) pk]) (use E(2) in auto)
  then have body: "node_ends e P txt bol (length pre + 3) i (via D G i)" by simp
  have m: "rd P (length (pre @ ?h @ ?f)) = Some BRANCH" and A: "ends e P txt bol (Alternatives (length (pre @ ?h @ ?f))) i (G i)" using E [of i] by simp_all
  from alternative_ends [OF nx(1) m body A] have "ends e P txt bol (Alternatives (length pre)) i (via (Id \<union> D) G i)" by (simp add: Un_commute)
  then show "node_ends e P txt bol (length pre) i (via (Id \<union> D) G i)" using branch_ends [OF nx(2,1) m] by simp
qed

text \<open>Repetitions of what is never empty: by induction on what is left of the text.\<close>

lemma star_step: "(i, j) \<in> D \<Longrightarrow> (j, k) \<in> D\<^sup>* \<Longrightarrow> (i, k) \<in> D\<^sup>*"
  by (rule converse_rtrancl_into_rtrancl)

lemma via_star: "via (D\<^sup>*) G i = via D (via (D\<^sup>*) G) i \<union> G i"
proof -
  have "via (D\<^sup>*) G i = via (Id \<union> D O D\<^sup>*) G i" by (rule arg_cong [OF star_unfold])
  then show ?thesis by (simp add: Un_commute)
qed

lemma via_plus: "via (D\<^sup>+) G i = via D (via (D\<^sup>*) G) i"
  by (simp add: trancl_unfold_left)

lemma finds_star:
  assumes f: "finds e n txt bol f D" "tailed f" "peeks f" and fw: "forward n D" "strict D"
  shows "finds e n txt bol (star_code False f) (D\<^sup>*)"
proof (rule findsI)
  fix P pre d post q i G
  assume a: "P = pre @ star_code False f (Some d) @ post" "length P < 65536" "d \<le> length post" "q = length pre + length (star_code False f (Some d)) + d" and i: "i \<le> n"
    and qp: "peek P q" and go: "\<And>j. (i, j) \<in> D\<^sup>* \<Longrightarrow> node_ends e P txt bol q j (G j)"
  let ?l = "length (f None)"
  let ?h = "hdr BRANCH (6 + ?l)" and ?f = "f (Some 0)" and ?b = "hdr BACK (3 + ?l)" and ?e = "hdr BRANCH 3 @ hdr NOTHING (3 + d) @ post"
  have lf: "length ?f = ?l" by (rule tailed_length [OF f(2)])
  have P0: "P = pre @ ?h @ ?f @ ?b @ ?e" and P1: "P = (pre @ ?h) @ ?f @ ?b @ ?e" and P2: "P = (pre @ ?h @ ?f) @ ?b @ ?e"
    and P3: "P = (pre @ ?h @ ?f @ ?b) @ ?e" using a(1) by (simp_all add: star_code_def)
  have q: "q = length (pre @ ?h @ ?f @ ?b) + 6 + d" using a(4) by (simp add: star_code_def)
  have pk: "peek P (length (pre @ ?h @ ?f))" unfolding P2 by (rule peek_hdr) (simp add: opcodes)
  have nx: "regnext P (Node (length pre)) = Some (Node (length (pre @ ?h @ ?f @ ?b)))" "rd P (length pre) = Some BRANCH"
    using node_next [OF P0 a(2)] lf by (simp_all add: opcodes ac_simps)
  show "node_ends e P txt bol (length pre) i (via (D\<^sup>*) G i)" using i go
  proof (induction "n - i" arbitrary: i rule: less_induct)
    case less
    have E: "ends e P txt bol (Alternatives (length (pre @ ?h @ ?f @ ?b))) i (G i)" "rd P (length (pre @ ?h @ ?f @ ?b)) = Some BRANCH"
      using end_ends [OF P3 a(2,3) q less.prems(1) qp less.prems(2) [OF rtrancl.rtrancl_refl]] by simp_all
    have again: "node_ends e P txt bol (length (pre @ ?h @ ?f)) j (via (D\<^sup>*) G j)" if j: "(i, j) \<in> D" for j
    proof -
      have "i < j" using j fw(2) unfolding strict_def by blast
      moreover have "j \<le> n" using j fw(1) less.prems(1) unfolding forward_def by blast
      ultimately have jn: "j \<le> n" "n - j < n - i" by linarith+
      have "node_ends e P txt bol (length pre) j (via (D\<^sup>*) G j)" by (rule less.hyps [OF jn(2,1) less.prems(2) [OF star_step [OF j]]])
      then show ?thesis using back_ends [OF P2 a(2), of e "txt" bol j] lf by simp
    qed
    have "node_ends e P txt bol (length (pre @ ?h)) i (via D (via (D\<^sup>*) G) i)"
      by (rule findsD [OF f(1) P1 a(2) _ _ less.prems(1) pk again]) simp_all
    then have body: "node_ends e P txt bol (length pre + 3) i (via D (via (D\<^sup>*) G) i)" by simp
    from alternative_ends [OF nx(1) E(2) body E(1)] have "ends e P txt bol (Alternatives (length pre)) i (via (D\<^sup>*) G i)"
      unfolding via_star [of D G i] by simp
    then show ?case using branch_ends [OF nx(2,1) E(2)] by simp
  qed
qed

lemma finds_plus:
  assumes f: "finds e n txt bol f D" "tailed f" and fw: "forward n D" "strict D"
  shows "finds e n txt bol (plus_code False f) (D\<^sup>+)"
proof (rule findsI)
  fix P pre d post q i G
  assume a: "P = pre @ plus_code False f (Some d) @ post" "length P < 65536" "d \<le> length post" "q = length pre + length (plus_code False f (Some d)) + d" and i: "i \<le> n"
    and qp: "peek P q" and go: "\<And>j. (i, j) \<in> D\<^sup>+ \<Longrightarrow> node_ends e P txt bol q j (G j)"
  let ?l = "length (f None)"
  let ?f = "f (Some 0)" and ?h = "hdr BRANCH 6" and ?b = "hdr BACK (3 + ?l)" and ?e = "hdr BRANCH 3 @ hdr NOTHING (3 + d) @ post"
  have lf: "length ?f = ?l" by (rule tailed_length [OF f(2)])
  have P1: "P = pre @ ?f @ ?h @ ?b @ ?e" and P0: "P = (pre @ ?f) @ ?h @ ?b @ ?e" and P2: "P = (pre @ ?f @ ?h) @ ?b @ ?e"
    and P3: "P = (pre @ ?f @ ?h @ ?b) @ ?e" using a(1) by (simp_all add: plus_code_def)
  have q: "q = length (pre @ ?f @ ?h @ ?b) + 6 + d" using a(4) by (simp add: plus_code_def)
  have pk: "peek P (length (pre @ ?f))" unfolding P0 by (rule peek_hdr) (simp add: opcodes)
  have nx: "regnext P (Node (length (pre @ ?f))) = Some (Node (length (pre @ ?f @ ?h @ ?b)))" "rd P (length (pre @ ?f)) = Some BRANCH"
    using node_next [OF P0 a(2)] by (simp_all add: opcodes ac_simps)
  show "node_ends e P txt bol (length pre) i (via (D\<^sup>+) G i)" using i go
  proof (induction "n - i" arbitrary: i rule: less_induct)
    case less
    have after: "node_ends e P txt bol (length (pre @ ?f)) j (via (D\<^sup>*) G j)" if j: "(i, j) \<in> D" for j
    proof -
      have "i < j" using j fw(2) unfolding strict_def by blast
      moreover have "j \<le> n" using j fw(1) less.prems(1) unfolding forward_def by blast
      ultimately have jn: "j \<le> n" "n - j < n - i" by linarith+
      have E: "ends e P txt bol (Alternatives (length (pre @ ?f @ ?h @ ?b))) j (G j)" "rd P (length (pre @ ?f @ ?h @ ?b)) = Some BRANCH"
        using end_ends [OF P3 a(2,3) q jn(1) qp less.prems(2) [OF trancl.r_into_trancl [OF j]]] by simp_all
      have "node_ends e P txt bol (length pre) j (via (D\<^sup>+) G j)" by (rule less.hyps [OF jn(2,1) less.prems(2) [OF trancl_into_trancl2 [OF j]]])
      then have body: "node_ends e P txt bol (length (pre @ ?f) + 3) j (via D (via (D\<^sup>*) G) j)"
        using back_ends [OF P2 a(2), of e "txt" bol j] lf by (simp add: via_plus ac_simps)
      from alternative_ends [OF nx(1) E(2) body E(1)] have "ends e P txt bol (Alternatives (length (pre @ ?f))) j (via (D\<^sup>*) G j)"
        unfolding via_star [of D G j] by simp
      then show ?thesis using branch_ends [OF nx(2,1) E(2)] by simp
    qed
    show ?case unfolding via_plus by (rule findsD [OF f(1) P1 a(2) _ _ less.prems(1) pk after]) simp_all
  qed
qed

subsection \<open>Repetitions of one character\<close>

lemma run_bound: "ctext n txt \<Longrightarrow> i \<le> n \<Longrightarrow> i + run p (drop i txt) \<le> n"
proof -
  assume c: "ctext n txt" and i: "i \<le> n"
  have "i + run p (drop i txt) \<in> (one_char txt p)\<^sup>* `` {i}" unfolding star_run by simp
  then show ?thesis using forward_star [OF forward_one [OF c, of p]] i unfolding forward_def by blast
qed

lemma Union_shift: "(\<Union>j\<in>{i + a..i + b}. G j) = (\<Union>k\<in>{a..b}. G (i + k))" for i a b :: nat
proof -
  have "{i + a..i + b} = (+) i ` {a..b}" by simp
  then show ?thesis by (simp only: image_image)
qed

lemma finds_chars:
  assumes c: "ctext n txt" and e: "plain e" and r: "simple r" "good r"
    and op: "op = STAR \<and> least = 0 \<or> op = PLUS \<and> least = 1" and f: "\<And>t. f t = hdr op (dist (3 + length (emit r None)) t) @ emit r None"
    and D: "\<And>i. i \<le> n \<Longrightarrow> D `` {i} = {i + least..i + run (chr_of r) (drop i txt)}"
  shows "finds e n txt bol f D"
proof (rule findsI)
  fix P pre d post q i G
  assume a: "P = pre @ f (Some d) @ post" "length P < 65536" "d \<le> length post" "q = length pre + length (f (Some d)) + d" "i \<le> n" "peek P q"
    and go: "\<And>j. (i, j) \<in> D \<Longrightarrow> node_ends e P txt bol q j (G j)"
  let ?l = "length (emit r None)" and ?no = "run (chr_of r) (drop i txt)"
  have P0: "P = pre @ hdr op (3 + ?l + d) @ emit r None @ post" and P1: "P = (pre @ hdr op (3 + ?l + d)) @ emit r None @ post" using a(1) f by simp_all
  have ops: "op \<noteq> BACK" "op \<notin> simple_ops" "\<not> paren op" "op \<noteq> BRANCH" "op = STAR \<or> op = PLUS" using op by (auto simp: opcodes paren_def)
  have nx: "regnext P (Node (length pre)) = Some (Node q)" "rd P (length pre) = Some op"
    using node_next [OF P0 a(2)] a(3,4) ops(1) f by (simp_all add: ac_simps)
  obtain ch where ch: "lookahead P (Node q) = Some ch" using a(6) by (auto simp: peek_def)
  have rr: "regrepeat e P txt (OPERAND (length pre)) s = Some (?no, s\<lparr>reginput := i + ?no\<rparr>)" if "reginput s = i" for s
    using regrepeat_run [OF e c r P1, of s] that a(5) by (simp add: OPERAND_def)
  have least: "(if op = STAR then 0 else 1) = least" using op by (auto simp: opcodes)
  have step: "regmatch e P txt bol (Match (Node (length pre))) s = regmatch e P txt bol (Repeats (Node q) ch ?no least i) (s\<lparr>reginput := i + ?no\<rparr>)"
    if "reginput s = i" for s
    using nx ops ch rr [OF that] that least by (subst regmatch_node) simp
  have "node_ends e P txt bol q (i + k) (G (i + k))" if "least \<le> k" "k \<le> ?no" for k
  proof (rule go)
    have "i + k \<in> D `` {i}" unfolding D [OF a(5)] using that by simp
    then show "(i, i + k) \<in> D" by (rule ImageE) simp
  qed
  from repeats_ends [OF e c ch this run_bound [OF c a(5)]]
  have R: "ends e P txt bol (Repeats (Node q) ch ?no least i) (i + ?no) (\<Union>k\<in>{least..?no}. G (i + k))" by simp
  have v: "via D G i = (\<Union>k\<in>{least..?no}. G (i + k))" using D [OF a(5)] Union_shift [of G i least ?no] by (simp add: via_def)
  show "node_ends e P txt bol (length pre) i (via D G i)" unfolding v
    by (rule endsI) (use R step in \<open>simp add: ends_def\<close>)
qed

lemma finds_star_char:
  assumes "ctext n txt" "plain e" "simple r" "good r"
  shows "finds e n txt bol (star_code True (emit r)) ((den txt bol r)\<^sup>*)"
  by (rule finds_chars [OF assms, of STAR 0]) (simp_all add: star_code_def den_simple [OF assms(3,4)] star_run)

lemma finds_plus_char:
  assumes "ctext n txt" "plain e" "simple r" "good r"
  shows "finds e n txt bol (plus_code True (emit r)) ((den txt bol r)\<^sup>+)"
  by (rule finds_chars [OF assms, of PLUS 1]) (simp_all add: plus_code_def den_simple [OF assms(3,4)] plus_run)

subsection \<open>All expressions\<close>

lemma node_ops: "PLUS \<noteq> EXACTLY" "STAR \<noteq> EXACTLY" "BRANCH \<noteq> EXACTLY" "BOL \<noteq> EXACTLY" "EOL \<noteq> EXACTLY" "ANY \<noteq> EXACTLY"
  "ANYOF \<noteq> EXACTLY" "ANYBUT \<noteq> EXACTLY"
  by (simp_all add: opcodes)

lemma peeks_emit: "good r \<Longrightarrow> peeks (emit r)"
proof (induction r)
  case (Plus1 r)
  show ?case
  proof (cases "simple r")
    case True
    then show ?thesis by (intro peeks_hdr [OF node_ops(1), of _ "\<lambda>d. 3 + length (emit r None) + d" "\<lambda>d. emit r None"]) (simp add: plus_code_def)
  next
    case False
    let ?x = "\<lambda>d. hdr BRANCH 6 @ hdr BACK (3 + length (emit r None)) @ hdr BRANCH 3 @ hdr NOTHING (3 + d)"
    show ?thesis by (rule peeks_first [of "emit r" _ ?x]) (use False Plus1 in \<open>simp_all add: plus_code_def\<close>)
  qed
next
  case (Star r)
  show ?case
  proof (cases "simple r")
    case True
    then show ?thesis by (intro peeks_hdr [OF node_ops(2), of _ "\<lambda>d. 3 + length (emit r None) + d" "\<lambda>d. emit r None"]) (simp add: star_code_def)
  next
    case False
    let ?x = "\<lambda>d. emit r (Some 0) @ hdr BACK (3 + length (emit r None)) @ hdr BRANCH 3 @ hdr NOTHING (3 + d)"
    show ?thesis using False by (intro peeks_hdr [OF node_ops(3), of _ "\<lambda>d. 6 + length (emit r None)" ?x]) (simp add: star_code_def)
  qed
next
  case (Maybe r)
  show ?case
    by (intro peeks_hdr [OF node_ops(3), of _ "\<lambda>d. 3 + length (emit r None)" "\<lambda>d. emit r (Some 3) @ hdr BRANCH 3 @ hdr NOTHING (3 + d)"]) (simp add: maybe_code_def)
next
  case (Group m bs)
  then have "0 < m" "m < NSUBEXP" by simp_all
  from paren_props(8) [OF this] show ?case by (rule peeks_hdr [where k = "\<lambda>d. 3"]) (simp add: group_code_def)
next
  case Bol
  show ?case by (rule peeks_hdr [OF node_ops(4), of _ "\<lambda>d. 3 + d" "\<lambda>d. []"]) simp
next
  case Eol
  show ?case by (rule peeks_hdr [OF node_ops(5), of _ "\<lambda>d. 3 + d" "\<lambda>d. []"]) simp
next
  case Any
  show ?case by (rule peeks_hdr [OF node_ops(6), of _ "\<lambda>d. 3 + d" "\<lambda>d. []"]) simp
qed (simp_all add: peeks_text)

lemma finds_emit:
  assumes c: "ctext n txt" and e: "plain e"
  shows "good r \<Longrightarrow> finds e n txt bol (emit r) (den txt bol r)"
proof (induction r)
  case Bol
  show ?case by (rule finds_bol)
next
  case Eol
  show ?case by (rule finds_eol [OF c])
next
  case Any
  show ?case by (rule finds_any [OF c])
next
  case (AnyOf s)
  then show ?case using finds_anyof [OF c] by simp
next
  case (AnyBut s)
  then show ?case using finds_anybut [OF c] by simp
next
  case (Exactly s)
  then show ?case using finds_exactly [OF c e] by simp
next
  case (Group m bs)
  let ?fs = "map (\<lambda>b. seq_code (map emit b)) bs" and ?Ds = "map (\<lambda>b. dseq (map (den txt bol) b)) bs"
  have g: "good r" if "b \<in> set bs" "r \<in> set b" for b r using Group.prems that by (auto simp: list_all_iff)
  have "finds e n txt bol (seq_code (map emit b)) (dseq (map (den txt bol) b))" if b: "b \<in> set bs" for b
  proof (rule conjunct1 [OF finds_seq])
    show "list_all2 (finds e n txt bol) (map emit b) (map (den txt bol) b)" using Group.IH b g by (auto simp: list_all2_conv_all_nth)
    show "list_all peeks (map emit b)" using peeks_emit g b by (auto simp: list_all_iff)
    show "list_all (forward n) (map (den txt bol) b)" using forward_den [OF c] g b by (auto simp: list_all_iff)
  qed
  then have "list_all2 (finds e n txt bol) ?fs ?Ds" by (simp add: list_all2_conv_all_nth)
  moreover have "list_all tailed ?fs" using g tailed_emit by (auto simp: list_all_iff intro!: tailed_seq)
  ultimately show ?case using finds_group [of e n "txt" bol ?fs ?Ds m] Group.prems by (simp add: comp_def)
next
  case (Star r)
  show ?case
  proof (cases "simple r")
    case True
    then show ?thesis using finds_star_char [OF c e] Star.prems by simp
  next
    case False
    then show ?thesis using finds_star [OF Star.IH tailed_emit peeks_emit forward_den [OF c] strict_den [OF c]] Star.prems by simp
  qed
next
  case (Plus1 r)
  show ?case
  proof (cases "simple r")
    case True
    then show ?thesis using finds_plus_char [OF c e] Plus1.prems by simp
  next
    case False
    then show ?thesis using finds_plus [OF Plus1.IH tailed_emit forward_den [OF c] strict_den [OF c]] Plus1.prems by simp
  qed
next
  case (Maybe r)
  then show ?case using finds_maybe [OF _ tailed_emit forward_den [OF c]] by simp
qed

end
