(* ===== verification/Windiff_Regexp_Search.thy ===== *)
theory Windiff_Regexp_Search
  imports Windiff_Regexp_Find
begin

text \<open>
  Whole programs: the matcher from the first node on, what the hints that \<open>regcomp\<close> notes in a program
  say, and the search of \<open>regexec\<close>.
\<close>

subsection \<open>Programs\<close>

definition good_alts :: "re list list \<Rightarrow> bool" where
  "good_alts bs \<longleftrightarrow> bs \<noteq> [] \<and> list_all (list_all good) bs"

lemma tailed_bcode: "list_all good b \<Longrightarrow> tailed (bcode b)"
  by (rule tailed_seq) (auto simp: list_all_iff tailed_emit)

lemma finds_branch:
  assumes "ctext n txt" "plain e" "list_all good b"
  shows "finds e n txt bol (bcode b) (dseq (map (den txt bol) b))" "peeks (bcode b)"
proof -
  have "list_all2 (finds e n txt bol) (map emit b) (map (den txt bol) b)" using assms finds_emit [OF assms(1,2)] by (auto simp: list_all2_conv_all_nth list_all_length)
  moreover have "list_all peeks (map emit b)" using assms(3) peeks_emit by (auto simp: list_all_iff)
  moreover have "list_all (forward n) (map (den txt bol) b)" using assms(3) forward_den [OF assms(1)] by (auto simp: list_all_iff)
  ultimately show "finds e n txt bol (bcode b) (dseq (map (den txt bol) b))" "peeks (bcode b)" using finds_seq by blast+
qed

lemma end_node:
  assumes "P = pre @ hdr END 0"
  shows "regnext P (Node (length pre)) = Some NoNode" "rd P (length pre) = Some END" "peek P (length pre)" "node_ends e P txt bol (length pre) j {j}"
proof -
  show n: "regnext P (Node (length pre)) = Some NoNode" using regnext_hdr [of 0 pre END "[]"] assms by simp
  show r: "rd P (length pre) = Some END" using NEXT_hdr(2) [of 0 pre END "[]"] assms by simp
  show "peek P (length pre)" using peek_hdr [of END pre 0 "[]"] assms by (simp add: opcodes)
  have "END \<notin> simple_ops" "\<not> paren END" "END \<noteq> BRANCH" "END \<noteq> STAR" "END \<noteq> PLUS" by (simp_all add: opcodes paren_def)
  then have "regmatch e P txt bol (Match (Node (length pre))) s = Some (True, s)" for s using n r by (subst regmatch_node) simp
  then show "node_ends e P txt bol (length pre) j {j}" by (intro endsI) auto
qed

lemma code_parts: "code_of bs = [MAGIC] @ alts_code (map bcode bs) @ hdr END 0"
  by (simp add: code_of_def)

text \<open>From its first node on a program finds what its alternatives can match.\<close>

lemma program_ends:
  assumes c: "ctext n txt" "plain e" and bs: "good_alts bs" "length (code_of bs) < 65536" and i: "i \<le> n"
  shows "node_ends e (code_of bs) txt bol 1 i (dens txt bol bs `` {i})"
proof -
  let ?P = "code_of bs" and ?fs = "map bcode bs" and ?Ds = "map (\<lambda>b. dseq (map (den txt bol) b)) bs" and ?pre = "[MAGIC] @ alts_code (map bcode bs)"
  have g: "list_all good b" if "b \<in> set bs" for b using bs(1) that by (auto simp: good_alts_def list_all_iff)
  have F: "list_all2 (finds e n txt bol) ?fs ?Ds" using finds_branch(1) [OF c g] by (simp add: list_all2_conv_all_nth)
  have T: "list_all tailed ?fs" using tailed_bcode g by (auto simp: list_all_iff)
  have P: "?P = [MAGIC] @ alts_code ?fs @ hdr END 0" by (rule code_parts)
  then have "?P = ?pre @ hdr END 0" by simp
  note E = end_node [OF this]
  have "node_ends e ?P txt bol (length [MAGIC]) i (via (\<Union> (set ?Ds)) (\<lambda>j. {j}) i)"
    using finds_alts [OF F T _ P bs(2) i _ E(3,2) _ E(4)] bs(1) by (simp add: good_alts_def opcodes)
  moreover have "via (\<Union> (set ?Ds)) (\<lambda>j. {j}) i = dens txt bol bs `` {i}" by (auto simp: via_def dens_def)
  ultimately show ?thesis by simp
qed

subsection \<open>Literals that must appear\<close>

primrec musts :: "re \<Rightarrow> byte list set" where
  "musts Bol = {}"
| "musts Eol = {}"
| "musts Any = {}"
| "musts (AnyOf s) = {}"
| "musts (AnyBut s) = {}"
| "musts (Exactly s) = {s}"
| "musts (Group n bs) = {}"
| "musts (Star r) = {}"
| "musts (Plus1 r) = (if simple r then {} else musts r)"
| "musts (Maybe r) = {}"

definition occurs :: "byte list \<Rightarrow> cstring \<Rightarrow> bool" where
  "occurs s txt \<longleftrightarrow> (\<exists>k. take (length s) (drop k txt) = s)"

lemma musts_good: "good r \<Longrightarrow> s \<in> musts r \<Longrightarrow> s \<noteq> [] \<and> 0 \<notin> set s"
  by (induction r) (auto split: if_splits)

lemma musts_occur: "(i, j) \<in> den txt bol r \<Longrightarrow> s \<in> musts r \<Longrightarrow> occurs s txt"
proof (induction r arbitrary: i j)
  case (Plus1 r)
  then obtain k where "(i, k) \<in> den txt bol r" by (auto simp: trancl_unfold_left)
  then show ?case using Plus1 by (auto split: if_splits)
qed (auto simp: occurs_def)

lemma musts_seq: "(i, j) \<in> dseq (map (den txt bol) b) \<Longrightarrow> r \<in> set b \<Longrightarrow> s \<in> musts r \<Longrightarrow> occurs s txt"
  by (induction b arbitrary: i) (auto dest: musts_occur)

text \<open>\<open>found\<close>: what the loop can note in passing over code with the literals \<open>M\<close>.\<close>

definition found :: "byte list \<Rightarrow> byte list set \<Rightarrow> (nat option \<times> nat) set" where
  "found P M = {(Some m, length s) | m s. s \<in> M \<and> (\<exists>post. drop m P = s @ 0 # post)}"

definition walks :: "coder \<Rightarrow> byte list set \<Rightarrow> bool" where
  "walks f M \<longleftrightarrow> (\<forall>P pre d post L len. P = pre @ f (Some d) @ post \<longrightarrow> length P < 65536 \<longrightarrow> d \<le> length post \<longrightarrow>
     (\<exists>L' len'. longest_loop P (Node (length pre)) L len = longest_loop P (Node (length pre + length (f (Some d)) + d)) L' len' \<and>
       ((L', len') = (L, len) \<or> (L', len') \<in> found P M)))"

lemma walksI:
  assumes "\<And>P pre d post L len. P = pre @ f (Some d) @ post \<Longrightarrow> length P < 65536 \<Longrightarrow> d \<le> length post \<Longrightarrow>
     \<exists>L' len'. longest_loop P (Node (length pre)) L len = longest_loop P (Node (length pre + length (f (Some d)) + d)) L' len' \<and>
       ((L', len') = (L, len) \<or> (L', len') \<in> found P M)"
  shows "walks f M"
  using assms by (simp add: walks_def)

lemma longest_hdr:
  assumes "P = pre @ hdr op k @ post" "length P < 65536" "0 < k" "k \<le> 3 + length post" "op \<noteq> BACK" "op \<noteq> EXACTLY"
  shows "longest_loop P (Node (length pre)) L len = longest_loop P (Node (length pre + k)) L len"
  using node_next [OF assms(1-5)] assms(6) by (subst longest_loop.simps) simp

lemma walks_hdr: "(\<And>d. f (Some d) = hdr op (3 + length x + d) @ x) \<Longrightarrow> op \<noteq> BACK \<Longrightarrow> op \<noteq> EXACTLY \<Longrightarrow> walks f {}"
proof (rule walksI)
  fix P pre d post L len
  assume f: "\<And>d. f (Some d) = hdr op (3 + length x + d) @ x" "op \<noteq> BACK" "op \<noteq> EXACTLY" and a: "P = pre @ f (Some d) @ post" "length P < 65536" "d \<le> length post"
  have "P = pre @ hdr op (3 + length x + d) @ x @ post" using a(1) f(1) by simp
  from longest_hdr [OF this a(2) _ _ f(2,3)] show "\<exists>L' len'. longest_loop P (Node (length pre)) L len = longest_loop P (Node (length pre + length (f (Some d)) + d)) L' len' \<and>
       ((L', len') = (L, len) \<or> (L', len') \<in> found P {})" using a(3) f(1) by (auto simp: ac_simps)
qed

lemma walks_exactly:
  assumes s: "0 \<notin> set s"
  shows "walks (text_code EXACTLY s) {s}"
proof (rule walksI)
  fix P pre d post L len
  assume a: "P = pre @ text_code EXACTLY s (Some d) @ post" "length P < 65536" "d \<le> length post"
  have P: "P = pre @ hdr EXACTLY (length s + 4 + d) @ s @ [0] @ post" using a(1) by (simp add: text_code_def)
  have nx: "regnext P (Node (length pre)) = Some (Node (length pre + length (text_code EXACTLY s (Some d)) + d))"
    using node_next(1) [OF P a(2)] a(3) by (simp add: opcodes text_code_def ac_simps)
  have o: "rd P (length pre) = Some EXACTLY" "str_at P (OPERAND (length pre)) = Some s" using text_operand [OF a(1) s] by simp_all
  have d: "drop (OPERAND (length pre)) P = s @ 0 # post"
    unfolding P OPERAND_def using drop_append [of "length pre + 3" "pre @ hdr EXACTLY (length s + 4 + d)" "s @ [0] @ post"] by simp
  let ?n = "if len \<le> length s then (Some (OPERAND (length pre)), length s) else (L, len)"
  have "longest_loop P (Node (length pre)) L len = longest_loop P (Node (length pre + length (text_code EXACTLY s (Some d)) + d)) (fst ?n) (snd ?n)"
    using nx o by (subst longest_loop.simps) auto
  moreover have "?n = (L, len) \<or> ?n \<in> found P {s}" using d by (auto simp: found_def)
  ultimately show "\<exists>L' len'. longest_loop P (Node (length pre)) L len = longest_loop P (Node (length pre + length (text_code EXACTLY s (Some d)) + d)) L' len' \<and>
       ((L', len') = (L, len) \<or> (L', len') \<in> found P {s})" by (intro exI [of _ "fst ?n"] exI [of _ "snd ?n"]) auto
qed

lemma found_mono: "x \<in> found P M \<Longrightarrow> M \<subseteq> N \<Longrightarrow> x \<in> found P N"
  by (auto simp: found_def)

lemma walks_seq: "list_all2 walks fs Ms \<Longrightarrow> walks (seq_code fs) (\<Union> (set Ms))"
proof (induction fs arbitrary: Ms rule: induct_list012)
  case 1
  have "walks (seq_code []) {}" by (rule walks_hdr [of _ NOTHING "[]"]) (simp_all add: opcodes)
  then show ?case using 1 by (simp del: seq_code.simps)
next
  case (2 f)
  moreover have "seq_code [f] = f" by (simp add: fun_eq_iff)
  ultimately show ?case by (auto simp: list_all2_Cons1)
next
  case (3 f g fs)
  obtain M Ns where M: "Ms = M # Ns" "walks f M" "list_all2 walks (g # fs) Ns" using "3.prems" by (auto simp: list_all2_Cons1)
  have rest: "walks (seq_code (g # fs)) (\<Union> (set Ns))" by (rule "3.IH"(2) [OF M(3)])
  show ?case unfolding M(1)
  proof (rule walksI)
    fix P pre d post L len
    assume a: "P = pre @ seq_code (f # g # fs) (Some d) @ post" "length P < 65536" "d \<le> length post"
    let ?s = "seq_code (g # fs) (Some d)"
    have P1: "P = pre @ f (Some 0) @ ?s @ post" and P2: "P = (pre @ f (Some 0)) @ ?s @ post" using a(1) by simp_all
    obtain K k where K: "longest_loop P (Node (length pre)) L len = longest_loop P (Node (length pre + length (f (Some 0)) + 0)) K k"
      "(K, k) = (L, len) \<or> (K, k) \<in> found P M" using M(2) [unfolded walks_def, rule_format, OF P1 a(2)] by blast
    obtain K' k' where K': "longest_loop P (Node (length (pre @ f (Some 0)))) K k = longest_loop P (Node (length (pre @ f (Some 0)) + length ?s + d)) K' k'"
      "(K', k') = (K, k) \<or> (K', k') \<in> found P (\<Union> (set Ns))" using rest [unfolded walks_def, rule_format, OF P2 a(2,3)] by blast
    have "longest_loop P (Node (length pre)) L len = longest_loop P (Node (length pre + length (seq_code (f # g # fs) (Some d)) + d)) K' k'"
      using K(1) K'(1) by (simp add: ac_simps)
    moreover have "(K', k') = (L, len) \<or> (K', k') \<in> found P (\<Union> (set (M # Ns)))" using K(2) K'(2) found_mono by fastforce
    ultimately show "\<exists>L' len'. longest_loop P (Node (length pre)) L len = longest_loop P (Node (length pre + length (seq_code (f # g # fs) (Some d)) + d)) L' len' \<and>
       ((L', len') = (L, len) \<or> (L', len') \<in> found P (\<Union> (set (M # Ns))))" by blast
  qed
qed

lemma walks_jumps:
  assumes "tailed f" "op \<noteq> BACK" "op \<noteq> EXACTLY" and f: "\<And>d. f (Some d) = hdr op (3 + length x) @ x @ hdr BRANCH 3 @ hdr NOTHING (3 + d)"
  shows "walks f {}"
proof (rule walksI)
  fix P pre d post L len
  assume a: "P = pre @ f (Some d) @ post" "length P < 65536" "d \<le> length post"
  let ?q = "length pre + length (f (Some d)) + d"
  have P0: "P = pre @ hdr op (3 + length x) @ x @ hdr BRANCH 3 @ hdr NOTHING (3 + d) @ post"
    and P1: "P = (pre @ hdr op (3 + length x) @ x) @ hdr BRANCH 3 @ hdr NOTHING (3 + d) @ post"
    and P2: "P = (pre @ hdr op (3 + length x) @ x @ hdr BRANCH 3) @ hdr NOTHING (3 + d) @ post" using a(1) f by simp_all
  have "longest_loop P (Node (length pre)) L len = longest_loop P (Node (length pre + (3 + length x))) L len"
    by (rule longest_hdr [OF P0 a(2)]) (use assms(2,3) in simp_all)
  also have "\<dots> = longest_loop P (Node (length (pre @ hdr op (3 + length x) @ x))) L len" by (simp add: ac_simps)
  also have "\<dots> = longest_loop P (Node (length (pre @ hdr op (3 + length x) @ x) + 3)) L len"
    by (rule longest_hdr [OF P1 a(2)]) (simp_all add: opcodes)
  also have "\<dots> = longest_loop P (Node (length (pre @ hdr op (3 + length x) @ x @ hdr BRANCH 3))) L len" by (simp add: ac_simps)
  also have "\<dots> = longest_loop P (Node (length (pre @ hdr op (3 + length x) @ x @ hdr BRANCH 3) + (3 + d))) L len"
    by (rule longest_hdr [OF P2 a(2)]) (use a(3) in \<open>simp_all add: opcodes\<close>)
  also have "\<dots> = longest_loop P (Node ?q) L len" using f by (simp add: ac_simps)
  finally show "\<exists>L' len'. longest_loop P (Node (length pre)) L len = longest_loop P (Node ?q) L' len' \<and> ((L', len') = (L, len) \<or> (L', len') \<in> found P {})" by blast
qed

text \<open>The branches of a group are passed over.\<close>

lemma longest_alts:
  "list_all tailed bs \<Longrightarrow> P = pre @ alts_code bs @ post \<Longrightarrow> length P < 65536 \<Longrightarrow>
    longest_loop P (Node (length pre)) L len = longest_loop P (Node (length pre + length (alts_code bs))) L len"
proof (induction bs arbitrary: pre)
  case (Cons b bs)
  let ?h = "hdr BRANCH (3 + length (b None))" and ?b = "b (Some (length (alts_code bs)))"
  have lb: "length ?b = length (b None)" using Cons.prems(1) by (simp add: tailed_length)
  have P0: "P = pre @ ?h @ ?b @ alts_code bs @ post" and P1: "P = (pre @ ?h @ ?b) @ alts_code bs @ post" using Cons.prems(2) by simp_all
  have "longest_loop P (Node (length pre)) L len = longest_loop P (Node (length pre + (3 + length (b None)))) L len"
    by (rule longest_hdr [OF P0 Cons.prems(3)]) (use lb in \<open>simp_all add: opcodes\<close>)
  also have "\<dots> = longest_loop P (Node (length (pre @ ?h @ ?b))) L len" using lb by (simp add: ac_simps)
  also have "\<dots> = longest_loop P (Node (length (pre @ ?h @ ?b) + length (alts_code bs))) L len"
    by (rule Cons.IH [OF _ P1 Cons.prems(3)]) (use Cons.prems(1) in simp)
  finally show ?case by (simp add: ac_simps)
qed simp

lemma walks_group:
  assumes "list_all tailed bs" "0 < m" "m < NSUBEXP"
  shows "walks (group_code m bs) {}"
proof (rule walksI)
  fix P pre d post L len
  assume a: "P = pre @ group_code m bs (Some d) @ post" "length P < 65536" "d \<le> length post"
  note pp = paren_props [OF assms(2,3)]
  let ?q = "length pre + length (group_code m bs (Some d)) + d"
  let ?O = "hdr (OPEN + of_nat m) 3" and ?C = "hdr (CLOSE + of_nat m) (3 + d)" and ?alts = "alts_code bs"
  have P0: "P = pre @ ?O @ ?alts @ ?C @ post" and P1: "P = (pre @ ?O) @ ?alts @ ?C @ post" and P2: "P = (pre @ ?O @ ?alts) @ ?C @ post"
    using a(1) by (simp_all add: group_code_def)
  have "longest_loop P (Node (length pre)) L len = longest_loop P (Node (length pre + 3)) L len"
    by (rule longest_hdr [OF P0 a(2)]) (use pp in simp_all)
  also have "\<dots> = longest_loop P (Node (length (pre @ ?O))) L len" by simp
  also have "\<dots> = longest_loop P (Node (length (pre @ ?O) + length ?alts)) L len" by (rule longest_alts [OF assms(1) P1 a(2)])
  also have "\<dots> = longest_loop P (Node (length (pre @ ?O @ ?alts))) L len" by (simp add: ac_simps)
  also have "\<dots> = longest_loop P (Node (length (pre @ ?O @ ?alts) + (3 + d))) L len"
    by (rule longest_hdr [OF P2 a(2)]) (use pp a(3) in simp_all)
  also have "\<dots> = longest_loop P (Node ?q) L len" by (simp add: group_code_def ac_simps)
  finally show "\<exists>L' len'. longest_loop P (Node (length pre)) L len = longest_loop P (Node ?q) L' len' \<and> ((L', len') = (L, len) \<or> (L', len') \<in> found P {})" by blast
qed

lemma walks_plus:
  assumes f: "walks f M" "tailed f"
  shows "walks (plus_code False f) M"
proof (rule walksI)
  fix P pre d post L len
  assume a: "P = pre @ plus_code False f (Some d) @ post" "length P < 65536" "d \<le> length post"
  let ?g = "\<lambda>t. hdr BRANCH 6 @ hdr BACK (3 + length (f None)) @ hdr BRANCH 3 @ hdr NOTHING (dist 3 t)"
  have P1: "P = pre @ f (Some 0) @ ?g (Some d) @ post" and P2: "P = (pre @ f (Some 0)) @ ?g (Some d) @ post" using a(1) by (simp_all add: plus_code_def)
  obtain K k where K: "longest_loop P (Node (length pre)) L len = longest_loop P (Node (length pre + length (f (Some 0)) + 0)) K k"
    "(K, k) = (L, len) \<or> (K, k) \<in> found P M" using f(1) [unfolded walks_def, rule_format, OF P1 a(2)] by blast
  have "tailed ?g" using tailed_jump [OF tailed_end, of BRANCH 6 "hdr BACK (3 + length (f None))"] by (simp add: opcodes)
  then have "walks ?g {}" by (rule walks_jumps [of _ BRANCH "hdr BACK (3 + length (f None))"]) (simp_all add: opcodes)
  then obtain K' k' where K': "longest_loop P (Node (length (pre @ f (Some 0)))) K k = longest_loop P (Node (length (pre @ f (Some 0)) + length (?g (Some d)) + d)) K' k'"
    "(K', k') = (K, k) \<or> (K', k') \<in> found P {}" using P2 a(2,3) unfolding walks_def by blast
  have "(K', k') = (K, k)" using K'(2) by (auto simp: found_def)
  then show "\<exists>L' len'. longest_loop P (Node (length pre)) L len = longest_loop P (Node (length pre + length (plus_code False f (Some d)) + d)) L' len' \<and>
       ((L', len') = (L, len) \<or> (L', len') \<in> found P M)"
    using K K'(1) by (intro exI [of _ K] exI [of _ k]) (simp add: plus_code_def ac_simps)
qed

lemma walks_emit: "good r \<Longrightarrow> walks (emit r) (musts r)"
proof (induction r)
  case Bol
  show ?case by (simp, rule walks_hdr [of _ BOL "[]"]) (simp_all add: opcodes)
next
  case Eol
  show ?case by (simp, rule walks_hdr [of _ EOL "[]"]) (simp_all add: opcodes)
next
  case Any
  show ?case by (simp, rule walks_hdr [of _ ANY "[]"]) (simp_all add: char_ops node_ops)
next
  case (AnyOf s)
  show ?case by (simp, rule walks_hdr [of _ ANYOF "s @ [0]"]) (simp_all add: char_ops node_ops text_code_def ac_simps)
next
  case (AnyBut s)
  show ?case by (simp, rule walks_hdr [of _ ANYBUT "s @ [0]"]) (simp_all add: char_ops node_ops text_code_def ac_simps)
next
  case (Exactly s)
  then show ?case by (simp add: walks_exactly)
next
  case (Group m bs)
  then have "list_all tailed (map seq_code (map (map emit) bs))" using tailed_bcode by (auto simp: list_all_iff)
  then show ?case using walks_group Group.prems by simp
next
  case (Star r)
  show ?case
  proof (cases "simple r")
    case True
    then show ?thesis by (simp, intro walks_hdr [of _ STAR "emit r None"]) (simp_all add: opcodes star_code_def)
  next
    case False
    have T: "tailed (star_code False (emit r))" using tailed_star [OF tailed_emit] Star.prems by simp
    have l: "length (emit r (Some 0)) = length (emit r None)" using tailed_length [OF tailed_emit] Star.prems by simp
    have "walks (star_code False (emit r)) {}"
      by (rule walks_jumps [OF T, of BRANCH "emit r (Some 0) @ hdr BACK (3 + length (emit r None))"]) (use l in \<open>simp_all add: opcodes star_code_def\<close>)
    then show ?thesis using False by simp
  qed
next
  case (Plus1 r)
  show ?case
  proof (cases "simple r")
    case True
    then show ?thesis by (simp, intro walks_hdr [of _ PLUS "emit r None"]) (simp_all add: opcodes plus_code_def)
  next
    case False
    then show ?thesis using walks_plus Plus1 tailed_emit by simp
  qed
next
  case (Maybe r)
  have T: "tailed (maybe_code (emit r))" using tailed_maybe [OF tailed_emit] Maybe.prems by simp
  have l: "length (emit r (Some 3)) = length (emit r None)" using tailed_length [OF tailed_emit] Maybe.prems by simp
  have "walks (maybe_code (emit r)) {}" by (rule walks_jumps [OF T, of BRANCH "emit r (Some 3)"]) (use l in \<open>simp_all add: opcodes maybe_code_def\<close>)
  then show ?case by simp
qed

subsection \<open>Hints\<close>

text \<open>What the hints of a program say: the character a match starts with, that it starts at the beginning
  of a line, and a literal that must appear.\<close>

definition hints :: "re list list \<Rightarrow> regexp \<Rightarrow> bool" where
  "hints bs r \<longleftrightarrow> program r = code_of bs \<and>
     (\<forall>n txt bol i. ctext n txt \<longrightarrow> i \<le> n \<longrightarrow> dens txt bol bs `` {i} \<noteq> {} \<longrightarrow>
        (regstart r \<noteq> 0 \<longrightarrow> txt ! i = regstart r) \<and> (reganch r \<noteq> 0 \<longrightarrow> bol = Some i)) \<and>
     (\<forall>m. regmust r = Some m \<longrightarrow> (\<exists>s post. drop m (code_of bs) = s @ 0 # post \<and> s \<noteq> [] \<and> 0 \<notin> set s \<and> regmlen r = length s \<and>
        (\<forall>txt bol i. dens txt bol bs `` {i} \<noteq> {} \<longrightarrow> occurs s txt)))"

definition some_env :: renv where
  "some_env = \<lparr>reg_ic = False, rmalloc = (\<lambda>n. None), rcharnext = (\<lambda>s i. i + 1), strdup_ok = False\<rparr>"

lemma plain_some: "plain some_env"
  by (simp add: plain_def some_env_def)

lemma bol_sound:
  assumes "rd P q = Some BOL" "node_ends e P txt bol q i G" "bol \<noteq> Some i"
  shows "G = {}"
proof -
  let ?s = "\<lparr>reginput = i, regstartp = replicate NSUBEXP None, regendp = replicate NSUBEXP None\<rparr>"
  have w: "wfm ?s" "reginput ?s = i" by (simp_all add: wfm_def)
  obtain b t where t: "regmatch e P txt bol (Match (Node q)) ?s = Some (b, t)" "\<not> b \<Longrightarrow> G = {}" using endsD [OF assms(2) w(2,1)] by metis
  obtain r where r: "regnext P (Node q) = Some r" using t(1) by (subst (asm) regmatch_node) (auto simp: bind_Some_iff)
  have "simple_node e P txt bol BOL q ?s = Some (False, ?s)" using assms(3) by (auto simp: simple_node_def)
  then have "regmatch e P txt bol (Match (Node q)) ?s = Some (False, ?s)" using assms(1) r by (subst regmatch_node) simp
  then show ?thesis using t by simp
qed

lemma single_parts:
  assumes b: "list_all good b"
  shows "code_of [b] = [MAGIC] @ hdr BRANCH (3 + length (bcode b None)) @ bcode b (Some 0) @ hdr END 0"
    "length (bcode b (Some 0)) = length (bcode b None)"
  using tailed_length [OF tailed_bcode [OF b]] by (simp_all add: code_of_def)

lemma single_ends:
  assumes c: "ctext n txt" "plain e" and b: "list_all good b" "length (code_of [b]) < 65536" and i: "i \<le> n"
  shows "node_ends e (code_of [b]) txt bol 4 i (dens txt bol [b] `` {i})"
proof -
  let ?P = "code_of [b]" and ?h = "[MAGIC] @ hdr BRANCH (3 + length (bcode b None))"
  have P1: "?P = ?h @ bcode b (Some 0) @ hdr END 0" and P2: "?P = (?h @ bcode b (Some 0)) @ hdr END 0" unfolding single_parts(1) [OF b(1)] by simp_all
  note E = end_node [OF P2]
  have "node_ends e ?P txt bol (length ?h) i (via (dseq (map (den txt bol) b)) (\<lambda>j. {j}) i)"
    by (rule findsD [OF finds_branch(1) [OF c b(1)] P1 b(2) _ _ i E(3) E(4)]) simp_all
  moreover have "via (dseq (map (den txt bol) b)) (\<lambda>j. {j}) i = dens txt bol [b] `` {i}" by (auto simp: via_def dens_def)
  ultimately show ?thesis by simp
qed

lemma single_longest:
  assumes b: "list_all good b" "length (code_of [b]) < 65536"
  shows "\<exists>L len. longest_loop (code_of [b]) (Node 4) None 0 = Some (L, len) \<and> ((L, len) = (None, 0) \<or> (L, len) \<in> found (code_of [b]) (\<Union> (set (map musts b))))"
proof -
  let ?P = "code_of [b]" and ?h = "[MAGIC] @ hdr BRANCH (3 + length (bcode b None))"
  have P1: "?P = ?h @ bcode b (Some 0) @ hdr END 0" and P2: "?P = (?h @ bcode b (Some 0)) @ hdr END 0" unfolding single_parts(1) [OF b(1)] by simp_all
  have "list_all2 walks (map emit b) (map musts b)" using b(1) walks_emit by (auto simp: list_all2_conv_all_nth list_all_length)
  from walks_seq [OF this, unfolded walks_def, rule_format, OF P1 b(2), of None 0]
  obtain L len where L: "longest_loop ?P (Node (length ?h)) None 0 = longest_loop ?P (Node (length ?h + length (bcode b (Some 0)) + 0)) L len"
    "(L, len) = (None, 0) \<or> (L, len) \<in> found ?P (\<Union> (set (map musts b)))" by auto
  note E = end_node(1,2) [OF P2]
  have "longest_loop ?P (Node (length (?h @ bcode b (Some 0)))) L len = Some (L, len)"
  proof -
    have "END \<noteq> EXACTLY" by (simp add: opcodes)
    then show ?thesis using E by (subst longest_loop.simps) (simp add: longest_loop.simps [of _ NoNode])
  qed
  then show ?thesis using L by auto
qed

lemma optimize_single:
  assumes b: "list_all good b" "length (code_of [b]) < 65536" and r: "program r = code_of [b]"
  shows "\<exists>r'. optimize fl r = Some r' \<and> hints [b] r'"
proof -
  let ?P = "code_of [b]" and ?h = "[MAGIC] @ hdr BRANCH (3 + length (bcode b None))"
  have P0: "?P = [MAGIC] @ hdr BRANCH (3 + length (bcode b None)) @ bcode b (Some 0) @ hdr END 0"
    and P1: "?P = ?h @ bcode b (Some 0) @ hdr END 0" and P2: "?P = (?h @ bcode b (Some 0)) @ hdr END 0" unfolding single_parts(1) [OF b(1)] by simp_all
  have nx: "regnext ?P (Node 1) = Some (Node (length (?h @ bcode b (Some 0))))"
    using node_next(1) [OF P0 b(2)] single_parts(2) [OF b(1)] by (simp add: opcodes)
  have E: "rd ?P (length (?h @ bcode b (Some 0))) = Some END" by (rule end_node(2) [OF P2])
  let ?r = "r\<lparr>regstart := 0, reganch := 0, regmust := None, regmlen := 0\<rparr>"
  have c0: "ctext 0 [0]" by (simp add: ctext_def nul_def)
  have "peek ?P (length ?h)" using finds_branch(2) [OF c0 plain_some b(1)] P1 unfolding peeks_def by metis
  then have pk: "peek ?P 4" by simp
  obtain op where op: "rd ?P 4 = Some op" using peek_rd [OF pk] by blast
  obtain L len where L: "longest_loop ?P (Node 4) None 0 = Some (L, len)"
    "(L, len) = (None, 0) \<or> (L, len) \<in> found ?P (\<Union> (set (map musts b)))" using single_longest [OF b] by blast
  obtain c where c: "lookahead ?P (Node 4) = Some c" using pk by (auto simp: peek_def)
  let ?r1 = "if op = EXACTLY then ?r\<lparr>regstart := c\<rparr> else if op = BOL then ?r\<lparr>reganch := 1\<rparr> else ?r"
  let ?r2 = "if SPSTART \<in> fl then ?r1\<lparr>regmust := L, regmlen := len\<rparr> else ?r1"
  have c1: "rd ?P 7 = Some c" if "op = EXACTLY" using c op that by (simp add: lookahead_def OP_def OPERAND_def)
  have opt: "optimize fl r = Some ?r2"
    using nx E op c1 L(1) r by (simp add: optimize_def OP_def OPERAND_def Let_def opcodes)
  have "hints [b] ?r2"
    unfolding hints_def
  proof (intro conjI allI impI)
    show "program ?r2 = ?P" using r by simp
  next
    fix n w bol i assume t: "ctext n w" "i \<le> n" "dens w bol [b] `` {i} \<noteq> {}"
    note N = single_ends [OF t(1) plain_some b t(2), of bol]
    assume "regstart ?r2 \<noteq> 0"
    then have s: "op = EXACTLY" "regstart ?r2 = c" "c \<noteq> 0" by (auto split: if_splits)
    show "w ! i = regstart ?r2" using lookahead_sound [OF plain_some t(1) c s(3) N t(2)] t(3) s(2) by auto
  next
    fix n w bol i assume t: "ctext n w" "i \<le> n" "dens w bol [b] `` {i} \<noteq> {}"
    note N = single_ends [OF t(1) plain_some b t(2), of bol]
    assume "reganch ?r2 \<noteq> 0"
    then have "op = BOL" by (auto split: if_splits)
    then show "bol = Some i" using bol_sound [OF _ N] op t(3) by auto
  next
    fix m assume "regmust ?r2 = Some m"
    then have m: "L = Some m" "regmlen ?r2 = len" by (auto split: if_splits)
    then obtain s post q where s: "len = length s" "q \<in> set b" "s \<in> musts q" "drop m ?P = s @ 0 # post" using L(2) by (auto simp: found_def)
    have g: "s \<noteq> [] \<and> 0 \<notin> set s" by (rule musts_good [OF _ s(3)]) (use b(1) s(2) in \<open>simp add: list_all_iff\<close>)
    have "occurs s w" if ne: "dens w bol [b] `` {i} \<noteq> {}" for w bol i
    proof -
      obtain j where "(i, j) \<in> dseq (map (den w bol) b)" using ne by (auto simp: dens_def)
      then show ?thesis using musts_seq s(2,3) by blast
    qed
    then show "\<exists>s post. drop m ?P = s @ 0 # post \<and> s \<noteq> [] \<and> 0 \<notin> set s \<and> regmlen ?r2 = length s \<and> (\<forall>txt bol i. dens txt bol [b] `` {i} \<noteq> {} \<longrightarrow> occurs s txt)"
      using s(1,4) g m(2) by blast
  qed
  then show ?thesis using opt by blast
qed

lemma optimize_hints:
  assumes bs: "good_alts bs" "length (code_of bs) < 65536" and r: "program r = code_of bs"
  shows "\<exists>r'. optimize fl r = Some r' \<and> hints bs r'"
proof -
  obtain b cs where b: "bs = b # cs" using bs(1) by (cases bs) (auto simp: good_alts_def)
  show ?thesis
  proof (cases cs)
    case Nil
    then show ?thesis using optimize_single [of b r fl] bs r b by (simp add: good_alts_def)
  next
    case (Cons c ds)
    let ?k = "3 + length (bcode b None)" and ?b = "bcode b (Some (length (alts_code (map bcode cs))))"
    have g: "list_all good b" using bs(1) b by (simp add: good_alts_def)
    have P: "code_of bs = [MAGIC] @ hdr BRANCH ?k @ ?b @ alts_code (map bcode cs) @ hdr END 0" using b by (simp add: code_of_def)
    have P2: "code_of bs = ([MAGIC] @ hdr BRANCH ?k @ ?b) @ alts_code (map bcode cs) @ hdr END 0" using P by simp
    have nx: "regnext (code_of bs) (Node 1) = Some (Node (length ([MAGIC] @ hdr BRANCH ?k @ ?b)))"
      using node_next(1) [OF P bs(2)] tailed_length [OF tailed_bcode [OF g]] by (simp add: opcodes)
    have "rd (code_of bs) (length ([MAGIC] @ hdr BRANCH ?k @ ?b)) = Some BRANCH" unfolding P2 by (rule alts_branch) (simp add: Cons)
    then have "optimize fl r = Some (r\<lparr>regstart := 0, reganch := 0, regmust := None, regmlen := 0\<rparr>)"
      using nx r by (simp add: optimize_def OP_def Let_def opcodes)
    then show ?thesis using r by (simp add: hints_def)
  qed
qed

end
