(* ===== verification/Windiff_Regexp_Exec.thy ===== *)
theory Windiff_Regexp_Exec
  imports Windiff_Regexp_Search
begin

text \<open>
  The search for a match: \<open>regtry\<close>, the loops of \<open>regexec\<close>, and \<open>regexec\<close> after \<open>regcomp\<close>.
\<close>

subsection \<open>One place\<close>

text \<open>Only the places of the match change.\<close>

definition same_prog :: "regexp \<Rightarrow> regexp \<Rightarrow> bool" where
  "same_prog r r' \<longleftrightarrow> program r' = program r \<and> regstart r' = regstart r"

definition matched :: "(nat \<times> nat) set \<Rightarrow> nat \<Rightarrow> regexp \<Rightarrow> bool" where
  "matched D i r \<longleftrightarrow> (\<exists>j. (i, j) \<in> D \<and> startp r ! 0 = Some i \<and> endp r ! 0 = Some j)"

lemma regtry_spec:
  assumes c: "ctext n txt" "plain e" and bs: "good_alts bs" "length (code_of bs) < 65536" and r: "program r = code_of bs" and i: "i \<le> n"
  shows "\<exists>b r'. regtry e txt bol i r = Some (b, r') \<and> same_prog r r' \<and> (if b then matched (dens txt bol bs) i r' else dens txt bol bs `` {i} = {})"
proof -
  let ?s = "\<lparr>reginput = i, regstartp = replicate NSUBEXP None, regendp = replicate NSUBEXP None\<rparr>"
  have w: "reginput ?s = i" "wfm ?s" by (simp_all add: wfm_def)
  obtain b t where t: "regmatch e (code_of bs) txt bol (Match (Node 1)) ?s = Some (b, t)" "wfm t" "b \<Longrightarrow> reginput t \<in> dens txt bol bs `` {i}" "\<not> b \<Longrightarrow> dens txt bol bs `` {i} = {}"
    using endsD [OF program_ends [OF c bs i] w] by blast
  have l: "0 < length (regstartp t)" "0 < length (regendp t)" using t(2) by (simp_all add: wfm_def NSUBEXP_def)
  show ?thesis
  proof (cases b)
    case True
    then show ?thesis using t(1,3) l r by (auto simp: regtry_def Let_def same_prog_def matched_def)
  next
    case False
    then show ?thesis using t(1,4) r by (auto simp: regtry_def Let_def same_prog_def)
  qed
qed

lemma same_prog_trans: "same_prog r s \<Longrightarrow> same_prog s t \<Longrightarrow> same_prog r t"
  by (simp add: same_prog_def)

subsection \<open>The loops\<close>

text \<open>The result of a search from \<open>s\<close> on: the first place where a match starts, if there is one.\<close>

definition first_match :: "(nat \<times> nat) set \<Rightarrow> nat \<Rightarrow> nat \<Rightarrow> regexp \<Rightarrow> (bool \<times> regexp) option \<Rightarrow> bool" where
  "first_match D s n r res \<longleftrightarrow>
     (\<exists>r' i. res = Some (True, r') \<and> same_prog r r' \<and> s \<le> i \<and> i \<le> n \<and> matched D i r' \<and> (\<forall>k. s \<le> k \<longrightarrow> k < i \<longrightarrow> D `` {k} = {})) \<or>
     (\<exists>r'. res = Some (False, r') \<and> same_prog r r' \<and> (\<forall>k. s \<le> k \<longrightarrow> k \<le> n \<longrightarrow> D `` {k} = {}))"

lemma first_match_at:
  "matched D i r' \<Longrightarrow> same_prog r r' \<Longrightarrow> s \<le> i \<Longrightarrow> i \<le> n \<Longrightarrow> (\<And>k. s \<le> k \<Longrightarrow> k < i \<Longrightarrow> D `` {k} = {}) \<Longrightarrow> first_match D s n r (Some (True, r'))"
  unfolding first_match_def by blast

lemma first_match_none: "same_prog r r' \<Longrightarrow> (\<And>k. s \<le> k \<Longrightarrow> k \<le> n \<Longrightarrow> D `` {k} = {}) \<Longrightarrow> first_match D s n r (Some (False, r'))"
  unfolding first_match_def by blast

lemma first_match_skip:
  assumes "first_match D s' n r' res" "same_prog r r'" "s \<le> s'" "\<And>k. s \<le> k \<Longrightarrow> k < s' \<Longrightarrow> D `` {k} = {}"
  shows "first_match D s n r res"
proof -
  have e: "D `` {k} = {}" if "s \<le> k" "s' \<le> k \<Longrightarrow> D `` {k} = {}" for k
    using assms(4) [of k] that by (cases "k < s'") auto
  show ?thesis using assms(1) unfolding first_match_def [of D s']
  proof (elim disjE exE conjE)
    fix t i assume t: "res = Some (True, t)" "same_prog r' t" "s' \<le> i" "i \<le> n" "matched D i t" "\<forall>k. s' \<le> k \<longrightarrow> k < i \<longrightarrow> D `` {k} = {}"
    show ?thesis unfolding t(1) by (rule first_match_at [OF t(5) same_prog_trans [OF assms(2) t(2)] le_trans [OF assms(3) t(3)] t(4)]) (use e t(6) in blast)
  next
    fix t assume t: "res = Some (False, t)" "same_prog r' t" "\<forall>k. s' \<le> k \<longrightarrow> k \<le> n \<longrightarrow> D `` {k} = {}"
    show ?thesis unfolding t(1) by (rule first_match_none [OF same_prog_trans [OF assms(2) t(2)]]) (use e t(3) in blast)
  qed
qed

lemma first_match_here: "matched D s r' \<Longrightarrow> same_prog r r' \<Longrightarrow> s \<le> n \<Longrightarrow> first_match D s n r (Some (True, r'))"
  by (rule first_match_at) auto

lemma every_loop_spec:
  assumes c: "ctext n txt" "plain e" and bs: "good_alts bs" "length (code_of bs) < 65536"
  shows "program r = code_of bs \<Longrightarrow> s \<le> n \<Longrightarrow> first_match (dens txt bol bs) s n r (every_loop e txt bol s r)"
proof (induction "n - s" arbitrary: s r rule: less_induct)
  case less
  obtain b r' where t: "regtry e txt bol s r = Some (b, r')" "same_prog r r'" "if b then matched (dens txt bol bs) s r' else dens txt bol bs `` {s} = {}"
    using regtry_spec [OF c bs less.prems] by blast
  have rd: "rd txt s = Some (txt ! s)" by (rule ctext_rd [OF c(1) less.prems(2)])
  have z: "txt ! s = 0 \<longleftrightarrow> s = n" using ctext_at [OF c(1), of s] c(1) less.prems(2) by (simp add: ctext_def)
  show ?case
  proof (cases b)
    case True
    then have "every_loop e txt bol s r = Some (True, r')" using t(1) by (subst every_loop.simps) simp
    then show ?thesis using first_match_here t(2,3) True less.prems(2) by simp
  next
    case False
    then have no: "dens txt bol bs `` {s} = {}" using t(3) by simp
    show ?thesis
    proof (cases "s = n")
      case True
      then have "every_loop e txt bol s r = Some (False, r')" using t(1) rd z False by (subst every_loop.simps) simp
      then show ?thesis using True no t(2) by (auto intro!: first_match_none)
    next
      case sn: False
      then have "every_loop e txt bol s r = every_loop e txt bol (s + 1) r'" using t(1) rd z False by (subst every_loop.simps) simp
      moreover have "first_match (dens txt bol bs) (s + 1) n r' (every_loop e txt bol (s + 1) r')"
        by (rule less.hyps) (use sn less.prems t(2) in \<open>auto simp: same_prog_def\<close>)
      ultimately show ?thesis using first_match_skip [OF _ t(2), of _ "s + 1" n _ s] no le_less_Suc_eq by auto
    qed
  qed
qed

text \<open>The next place with a character.\<close>

lemma cstrchr_spec:
  assumes c: "ctext n txt" "plain e" and x: "x \<noteq> 0"
  shows "s \<le> n \<Longrightarrow> (\<exists>p. cstrchr e txt s x = Some p \<and> (case p of
       None \<Rightarrow> \<forall>k. s \<le> k \<longrightarrow> k \<le> n \<longrightarrow> txt ! k \<noteq> x
     | Some i \<Rightarrow> s \<le> i \<and> i < n \<and> txt ! i = x \<and> (\<forall>k. s \<le> k \<longrightarrow> k < i \<longrightarrow> txt ! k \<noteq> x)))"
proof (induction "n - s" arbitrary: s rule: less_induct)
  case less
  have rd: "rd txt s = Some (txt ! s)" by (rule ctext_rd [OF c(1) less.prems])
  have sl: "s < length txt" using c(1) less.prems by (simp add: ctext_def)
  have z: "txt ! s = 0 \<longleftrightarrow> s = n" by (rule ctext_at [OF c(1) sl])
  show ?case
  proof (cases "s = n")
    case True
    then have "cstrchr e txt s x = Some None" using rd z by (subst cstrchr.simps) simp
    then show ?thesis using True z x by (intro exI [of _ None]) auto
  next
    case False
    have shorter: "n - (s + 1) < n - s" "s + 1 \<le> n" using False less.prems by linarith+
    show ?thesis
    proof (cases "txt ! s = x")
      case True
      then have "cstrchr e txt s x = Some (Some s)" using rd z False c(2) by (subst cstrchr.simps) simp
      then show ?thesis using True False less.prems by (intro exI [of _ "Some s"]) auto
    next
      case nx: False
      have "cstrchr e txt s x = cstrchr e txt (s + 1) x" using rd z False nx c(2) sl by (subst cstrchr.simps) (simp add: plain_def mkup_def)
      moreover obtain p where p: "cstrchr e txt (s + 1) x = Some p" "case p of
           None \<Rightarrow> \<forall>k. s + 1 \<le> k \<longrightarrow> k \<le> n \<longrightarrow> txt ! k \<noteq> x
         | Some i \<Rightarrow> s + 1 \<le> i \<and> i < n \<and> txt ! i = x \<and> (\<forall>k. s + 1 \<le> k \<longrightarrow> k < i \<longrightarrow> txt ! k \<noteq> x)"
        using less.hyps [OF shorter] by blast
      moreover have "txt ! k \<noteq> x" if "s \<le> k" "s + 1 \<le> k \<Longrightarrow> txt ! k \<noteq> x" for k using that nx by (cases "k = s") auto
      ultimately show ?thesis by (intro exI [of _ p]) (auto split: option.splits)
    qed
  qed
qed

lemma start_loop_spec:
  assumes c: "ctext n txt" "plain e" and bs: "good_alts bs" "length (code_of bs) < 65536" and x: "x \<noteq> 0"
    and D: "\<And>i. i \<le> n \<Longrightarrow> dens txt bol bs `` {i} \<noteq> {} \<Longrightarrow> txt ! i = x"
  shows "program r = code_of bs \<Longrightarrow> regstart r = x \<Longrightarrow> s \<le> n \<Longrightarrow> first_match (dens txt bol bs) s n r (start_loop e txt bol s r)"
proof (induction "n - s" arbitrary: s r rule: less_induct)
  case less
  obtain p where p: "cstrchr e txt s x = Some p" "case p of
       None \<Rightarrow> \<forall>k. s \<le> k \<longrightarrow> k \<le> n \<longrightarrow> txt ! k \<noteq> x
     | Some i \<Rightarrow> s \<le> i \<and> i < n \<and> txt ! i = x \<and> (\<forall>k. s \<le> k \<longrightarrow> k < i \<longrightarrow> txt ! k \<noteq> x)" using cstrchr_spec [OF c x less.prems(3)] by blast
  have refl: "same_prog r r" by (simp add: same_prog_def)
  show ?case
  proof (cases p)
    case None
    then have "start_loop e txt bol s r = Some (False, r)" using p(1) less.prems(2) by (subst start_loop.simps) simp
    moreover have "dens txt bol bs `` {k} = {}" if "s \<le> k" "k \<le> n" for k using p(2) None D [OF that(2)] that by auto
    ultimately show ?thesis using first_match_none [OF refl] by simp
  next
    case (Some i)
    then have i: "s \<le> i" "i < n" "\<And>k. s \<le> k \<Longrightarrow> k < i \<Longrightarrow> txt ! k \<noteq> x" using p(2) by auto
    obtain b r' where t: "regtry e txt bol i r = Some (b, r')" "same_prog r r'" "if b then matched (dens txt bol bs) i r' else dens txt bol bs `` {i} = {}"
      using regtry_spec [OF c bs less.prems(1) less_imp_le [OF i(2)]] by blast
    have skip: "dens txt bol bs `` {k} = {}" if "s \<le> k" "k < i" for k
    proof -
      have "k \<le> n" using that i(2) by simp
      then show ?thesis using D [of k] i(3) [OF that] by blast
    qed
    have step: "start_loop e txt bol s r = (if b then Some (True, r') else start_loop e txt bol (i + 1) r')"
      using p(1) Some t(1) less.prems(2) by (subst start_loop.simps) simp
    show ?thesis
    proof (cases b)
      case True
      have "first_match (dens txt bol bs) i n r (start_loop e txt bol s r)" using step True t(2,3) first_match_here i(2) by simp
      then show ?thesis by (rule first_match_skip [OF _ refl i(1) skip])
    next
      case False
      have "first_match (dens txt bol bs) (i + 1) n r' (start_loop e txt bol (i + 1) r')"
        by (rule less.hyps) (use i(1,2) less.prems t(2) in \<open>auto simp: same_prog_def\<close>)
      then have "first_match (dens txt bol bs) (i + 1) n r' (start_loop e txt bol s r)" using step False by simp
      then show ?thesis
      proof (rule first_match_skip [OF _ t(2)])
        show "dens txt bol bs `` {k} = {}" if "s \<le> k" "k < i + 1" for k using skip [of k] t(3) False that by (cases "k = i") auto
      qed (use i(1) in simp)
    qed
  qed
qed

subsection \<open>The literal that must appear\<close>

lemma strncmp_text: "0 \<in> set cs \<Longrightarrow> 0 \<notin> set s \<Longrightarrow> strncmp_eq cs (s @ z) (length s) = Some (take (length s) cs = s)"
proof (induction s arbitrary: cs)
  case (Cons a s)
  obtain b bs where "cs = b # bs" using Cons.prems(1) by (cases cs) auto
  then show ?case using Cons by auto
qed simp

lemma must_loop_spec:
  assumes c: "ctext n txt" "plain e" and w: "w \<noteq> []" "0 \<notin> set w"
  shows "s \<le> n \<Longrightarrow> \<exists>b. must_loop e txt (w @ 0 # post) (length w) s = Some b \<and> (b \<longleftrightarrow> (\<exists>k. s \<le> k \<and> take (length w) (drop k txt) = w))"
proof (induction "n - s" arbitrary: s rule: less_induct)
  case less
  let ?must = "w @ 0 # post" and ?at = "\<lambda>k. take (length w) (drop k txt) = w"
  have h: "rd ?must 0 = Some (hd w)" using w(1) by (cases w) (simp_all add: rd_def)
  have h0: "hd w \<noteq> 0" using w by (cases w) auto
  have at: "txt ! k = hd w" "k \<le> n" if "?at k" for k
  proof -
    have "drop k txt \<noteq> []" using that w(1) by (cases "drop k txt") auto
    then have k: "k < length txt" by simp
    then obtain xs where "drop k txt = txt ! k # xs" by (metis Cons_nth_drop_Suc)
    then show "txt ! k = hd w" using that w(1) by (cases w) auto
    show "k \<le> n" using k c(1) by (simp add: ctext_def)
  qed
  obtain p where p: "cstrchr e txt s (hd w) = Some p" "case p of
       None \<Rightarrow> \<forall>k. s \<le> k \<longrightarrow> k \<le> n \<longrightarrow> txt ! k \<noteq> hd w
     | Some i \<Rightarrow> s \<le> i \<and> i < n \<and> txt ! i = hd w \<and> (\<forall>k. s \<le> k \<longrightarrow> k < i \<longrightarrow> txt ! k \<noteq> hd w)" using cstrchr_spec [OF c h0 less.prems] by blast
  show ?case
  proof (cases p)
    case None
    then have "must_loop e txt ?must (length w) s = Some False" using h p(1) by (subst must_loop.simps) simp
    then show ?thesis using p(2) None at by fastforce
  next
    case (Some i)
    then have i: "s \<le> i" "i < n" "\<And>k. s \<le> k \<Longrightarrow> k < i \<Longrightarrow> txt ! k \<noteq> hd w" using p(2) by auto
    have z: "0 \<in> set (drop i txt)" using c(1) i(2) by (auto simp: ctext_def nul_def)
    have q: "cstrncmp_eq e (drop i txt) ?must (length w) = Some (?at i)" using strncmp_text [OF z w(2)] c(2) by (simp add: cstrncmp_eq_def plain_def)
    have step: "must_loop e txt ?must (length w) s = (if ?at i then Some True else must_loop e txt ?must (length w) (i + 1))"
      using h p(1) Some q by (subst must_loop.simps) simp
    have shorter: "n - (i + 1) < n - s" "i + 1 \<le> n" using i(1,2) by linarith+
    show ?thesis
    proof (cases "?at i")
      case True
      then show ?thesis using step i(1) by auto
    next
      case False
      obtain b where b: "must_loop e txt ?must (length w) (i + 1) = Some b" "b \<longleftrightarrow> (\<exists>k. i + 1 \<le> k \<and> ?at k)" using less.hyps [OF shorter] by blast
      have "(\<exists>k. i + 1 \<le> k \<and> ?at k) \<longleftrightarrow> (\<exists>k. s \<le> k \<and> ?at k)"
      proof
        assume "\<exists>k. s \<le> k \<and> ?at k"
        then obtain k where k: "s \<le> k" "?at k" by blast
        have "k \<noteq> i" using k False by blast
        moreover have "\<not> k < i" using i(3) [OF k(1)] at(1) [OF k(2)] by blast
        ultimately show "\<exists>k. i + 1 \<le> k \<and> ?at k" using k(2) by (intro exI [of _ k]) simp
      next
        assume "\<exists>k. i + 1 \<le> k \<and> ?at k"
        then obtain k where "i + 1 \<le> k" "?at k" by blast
        then show "\<exists>k. s \<le> k \<and> ?at k" using i(1) by (intro exI [of _ k]) simp
      qed
      then show ?thesis using step False b by auto
    qed
  qed
qed

lemma occurs_from: "occurs w txt \<longleftrightarrow> (\<exists>k. 0 \<le> k \<and> take (length w) (drop k txt) = w)"
  by (simp add: occurs_def)

subsection \<open>\<open>regexec\<close>\<close>

lemma regexec_search:
  assumes c: "ctext n txt" "plain e" and bs: "good_alts bs" "length (code_of bs) < 65536" and h: "hints bs r"
  shows "\<exists>b r'. regexec e (Some r) (Some txt) at_bol = Some (b, Some r') \<and>
    first_match (dens txt (if at_bol then Some 0 else None) bs) 0 n r (Some (b, r'))"
proof -
  let ?bol = "if at_bol then Some 0 else None :: nat option"
  let ?D = "dens txt ?bol bs"
  have P: "program r = code_of bs" using h by (simp add: hints_def)
  have start: "txt ! i = regstart r" if "regstart r \<noteq> 0" "i \<le> n" "?D `` {i} \<noteq> {}" for i using h c(1) that unfolding hints_def by blast
  have anch: "?bol = Some i" if "reganch r \<noteq> 0" "i \<le> n" "?D `` {i} \<noteq> {}" for i using h c(1) that unfolding hints_def by blast
  have magic: "rd (program r) 0 = Some MAGIC" by (simp add: P code_of_def rd_def)
  have refl: "same_prog r r" by (simp add: same_prog_def)
  obtain present where p: "(case regmust r of None \<Rightarrow> Some True | Some i \<Rightarrow> must_loop e txt (drop i (program r)) (regmlen r) 0) = Some present"
    "\<not> present \<Longrightarrow> ?D `` {i} = {}" for i
  proof (cases "regmust r")
    case None
    then show ?thesis using that [of True] by simp
  next
    case (Some m)
    then obtain w post where w: "drop m (code_of bs) = w @ 0 # post" "w \<noteq> []" "0 \<notin> set w" "regmlen r = length w" "\<And>i. ?D `` {i} \<noteq> {} \<Longrightarrow> occurs w txt"
      using h unfolding hints_def by metis
    obtain b where "must_loop e txt (w @ 0 # post) (length w) 0 = Some b" "b \<longleftrightarrow> occurs w txt"
      using must_loop_spec [OF c w(2,3), of 0] occurs_from by auto
    then show ?thesis using that [of b] Some w(1,4,5) P by auto
  qed
  show ?thesis
  proof (cases present)
    case False
    then have "regexec e (Some r) (Some txt) at_bol = Some (False, Some r)" using magic p(1) by (simp add: regexec_def)
    moreover have "first_match ?D 0 n r (Some (False, r))" by (rule first_match_none [OF refl p(2) [OF False]])
    ultimately show ?thesis by blast
  next
    case True
    let ?go = "if reganch r \<noteq> 0 then regtry e txt ?bol 0 r else if regstart r \<noteq> 0 then start_loop e txt ?bol 0 r else every_loop e txt ?bol 0 r"
    have run: "regexec e (Some r) (Some txt) at_bol = map_option (\<lambda>(b, r). (b, Some r)) ?go"
      using magic p(1) True by (cases ?go) (auto simp: regexec_def Let_def)
    have "first_match ?D 0 n r ?go"
    proof (cases "reganch r \<noteq> 0")
      case True
      obtain b r' where t: "regtry e txt ?bol 0 r = Some (b, r')" "same_prog r r'" "if b then matched ?D 0 r' else ?D `` {0} = {}"
        using regtry_spec [OF c bs P le0] by blast
      have "?D `` {k} = {}" if "k \<le> n" "k \<noteq> 0" for k
      proof (rule ccontr)
        assume "?D `` {k} \<noteq> {}"
        from anch [OF True that(1) this] show False using that(2) by (simp split: if_splits)
      qed
      then have no: "\<not> b \<Longrightarrow> k \<le> n \<Longrightarrow> ?D `` {k} = {}" for k using t(3) by (cases "k = 0") auto
      have "first_match ?D 0 n r (Some (b, r'))"
      proof (cases b)
        case True
        then show ?thesis using first_match_here [OF _ t(2) le0] t(3) by simp
      next
        case False
        then show ?thesis using first_match_none [OF t(2)] no by simp
      qed
      then show ?thesis using True t(1) by simp
    next
      case na: False
      show ?thesis
      proof (cases "regstart r \<noteq> 0")
        case True
        from start_loop_spec [OF c bs True start [OF True] P HOL.refl le0] show ?thesis using na True by simp
      next
        case False
        then show ?thesis using na every_loop_spec [OF c bs P le0] by simp
      qed
    qed
    moreover obtain b r' where "?go = Some (b, r')" using calculation by (auto simp: first_match_def)
    ultimately show ?thesis using run by auto
  qed
qed

subsection \<open>\<open>regcomp\<close>\<close>

lemma parse_good: "nul exp \<Longrightarrow> parse exp = Some bs \<Longrightarrow> good_alts bs"
proof -
  assume n: "nul exp" and "parse exp = Some bs"
  then obtain rest np where "p_reg (Suc NSUBEXP) exp 1 = Some (bs, rest, np)" by (auto simp: parse_def bind_Some_iff simp del: p_reg.simps split: if_splits)
  then have "bs \<noteq> [] \<and> list_all (list_all good) bs" using p_reg_keeps [of "Suc NSUBEXP", unfolded rec_keeps_def, rule_format, OF _ n] by (metis zero_less_one)
  then show ?thesis by (simp add: good_alts_def)
qed

text \<open>Memory is as large as asked for.\<close>

definition sized :: "renv \<Rightarrow> bool" where
  "sized e \<longleftrightarrow> (\<forall>n r. rmalloc e n = Some r \<longrightarrow> length (program r) = n)"

lemma regcomp_result:
  assumes n: "nul exp" and e: "sized e"
  shows "case parse exp of
      None \<Rightarrow> regcomp e (Some exp) = Some None
    | Some bs \<Rightarrow>
        if length (code_of bs) < 32767 \<and> rmalloc e (length (code_of bs)) \<noteq> None
        then \<exists>r. regcomp e (Some exp) = Some (Some r) \<and> hints bs r
        else regcomp e (Some exp) = Some None"
proof -
  have R: "regcomp e (Some exp) = (case parse exp of None \<Rightarrow> Some None | Some bs \<Rightarrow> compiled e bs)"
    by (rule regcomp_parse [OF n]) (use e in \<open>simp add: sized_def\<close>)
  show ?thesis
  proof (cases "parse exp")
    case (Some bs)
    show ?thesis
    proof (cases "length (code_of bs) < 32767 \<and> rmalloc e (length (code_of bs)) \<noteq> None")
      case True
      then obtain x where x: "rmalloc e (length (code_of bs)) = Some x" by blast
      obtain r where "optimize (gflags bs) (x\<lparr>program := code_of bs\<rparr>) = Some r" "hints bs r"
        using optimize_hints [OF parse_good [OF n Some], of "x\<lparr>program := code_of bs\<rparr>"] True by auto
      then show ?thesis using True Some R x by (simp add: compiled_def)
    next
      case False
      then show ?thesis using Some R by (auto simp: compiled_def split: option.splits)
    qed
  qed (simp add: R)
qed

lemma regcomp_some:
  assumes "regcomp e (Some exp) = Some (Some r)" "nul exp" "sized e"
  shows "\<exists>bs. parse exp = Some bs \<and> good_alts bs \<and> length (code_of bs) < 32767 \<and> hints bs r"
  using regcomp_result [OF assms(2,3)] assms(1) parse_good [OF assms(2)] by (auto split: option.splits if_splits)

end
