(* ===== verification/Windiff_Regexp_Properties.thy ===== *)
theory Windiff_Regexp_Properties
  imports Windiff_Regexp_Exec
begin

text \<open>
  The properties of regular expressions: what \<open>regcomp\<close> makes of a pattern, that it is well formed, and
  that \<open>regexec\<close> finds the first place where the pattern matches.
\<close>

text \<open>A setting for the witnesses: memory is always there, characters are single bytes.\<close>

definition sample_env :: renv where
  "sample_env = \<lparr>reg_ic = False,
     rmalloc = (\<lambda>n. Some \<lparr>startp = replicate NSUBEXP None, endp = replicate NSUBEXP None, regstart = 0, reganch = 0,
       regmust = None, regmlen = 0, program = replicate n 0\<rparr>),
     rcharnext = (\<lambda>s i. i + 1), strdup_ok = True\<rparr>"

lemma sample_facts: "sized sample_env" "plain sample_env" "rmalloc sample_env n \<noteq> None"
  by (auto simp: sized_def plain_def sample_env_def)

text \<open>The pattern \<open>(a|b)*c\<close>, and its tree.\<close>

definition sample_pattern :: cstring where
  "sample_pattern = [40, 97, 124, 98, 41, 42, 99, 0]"

lemma sample_nul: "nul sample_pattern"
  unfolding nul_def sample_pattern_def by (rule exI [of _ "[40, 97, 124, 98, 41, 42, 99]"]) simp

lemma sample_parse: "parse sample_pattern = Some [[Star (Group 1 [[Exactly [97]], [Exactly [98]]]), Exactly [99]]]"
  by code_simp

text \<open>The text \<open>xbac\<close>.\<close>

definition sample_text :: cstring where
  "sample_text = [120, 98, 97, 99, 0]"

lemma sample_ctext: "ctext 4 sample_text"
  unfolding ctext_def nul_def sample_text_def by (auto intro!: exI [of _ "[120, 98, 97, 99]"])

text \<open>C8: \<open>regcomp\<close> never reads or writes outside the pattern and the program.  It answers NULL when the
  pattern is no regular expression, when its program would have 32767 bytes or more, and when there is no
  memory; otherwise the program is the code of the expression the pattern stands for, which fills exactly
  the memory asked for.\<close>

theorem regcomp_compiles:
  assumes "nul exp" "sized e"
  shows "case parse exp of
      None \<Rightarrow> regcomp e (Some exp) = Some None
    | Some bs \<Rightarrow>
        if length (code_of bs) < 32767 \<and> rmalloc e (length (code_of bs)) \<noteq> None
        then \<exists>r. regcomp e (Some exp) = Some (Some r) \<and> program r = code_of bs
        else regcomp e (Some exp) = Some None"
  using regcomp_result [OF assms] by (auto simp: hints_def split: option.splits if_splits)

lemma sample_small: "length (code_of [[Star (Group 1 [[Exactly [97]], [Exactly [98]]]), Exactly [99]]]) = 46"
  by code_simp

theorem regcomp_compiles_witness:
  "\<exists>r. regcomp sample_env (Some sample_pattern) = Some (Some r) \<and> length (program r) = 46"
  using regcomp_compiles [OF sample_nul sample_facts(1)] sample_parse sample_small sample_facts(3) by auto

text \<open>C9: a compiled program is well formed: it starts with the magic byte, its size can be told by the two
  bytes of a distance, and the text that must appear is a string of the program of the length noted.\<close>

theorem regcomp_wellformed:
  assumes "regcomp e (Some exp) = Some (Some r)" "nul exp" "sized e"
  shows "program r ! 0 = MAGIC \<and> 0 < length (program r) \<and> length (program r) < 32767 \<and>
    (\<forall>m. regmust r = Some m \<longrightarrow> (\<exists>w. str_at (program r) m = Some w \<and> w \<noteq> [] \<and> length w = regmlen r))"
proof -
  obtain bs where bs: "parse exp = Some bs" "length (code_of bs) < 32767" "hints bs r" using regcomp_some [OF assms] by blast
  have p: "program r = code_of bs" using bs(3) by (simp add: hints_def)
  have "\<exists>w. str_at (code_of bs) m = Some w \<and> w \<noteq> [] \<and> length w = regmlen r" if m: "regmust r = Some m" for m
  proof -
    obtain w post where w: "drop m (code_of bs) = w @ 0 # post" "w \<noteq> []" "0 \<notin> set w" "regmlen r = length w" using bs(3) m unfolding hints_def by metis
    have "takeWhile (\<lambda>c. c \<noteq> 0) (w @ 0 # post) = w" using w(3) by (subst takeWhile_append2) auto
    then show ?thesis using w by (simp add: str_at_def)
  qed
  then show ?thesis using p bs(2) by (simp add: code_of_def)
qed

theorem regcomp_wellformed_witness:
  "\<exists>r. regcomp sample_env (Some sample_pattern) = Some (Some r) \<and> program r ! 0 = MAGIC"
proof -
  obtain r where r: "regcomp sample_env (Some sample_pattern) = Some (Some r)"
    using regcomp_result [OF sample_nul sample_facts(1)] sample_parse sample_small sample_facts(3) by auto
  from regcomp_wellformed [OF this sample_nul sample_facts(1)] r show ?thesis by blast
qed

text \<open>C7: \<open>regexec\<close> always ends, without reading outside the program and the text, and agrees with the
  meaning of the pattern: it answers yes exactly when the pattern matches somewhere in the text, and then
  notes the first place where a match starts and the end of a match from there.  So the shortcuts of the
  program (the first character, the anchor, the text that must appear, the character after a repetition)
  never lose a match.\<close>

theorem regexec_finds:
  assumes "regcomp e (Some exp) = Some (Some r)" "nul exp" "sized e" "plain e" "ctext n string" "parse exp = Some bs"
  shows "\<exists>b r'. regexec e (Some r) (Some string) at_bol = Some (b, Some r') \<and>
    (b \<longleftrightarrow> (\<exists>i j. i \<le> n \<and> (i, j) \<in> dens string (if at_bol then Some 0 else None) bs)) \<and>
    (b \<longrightarrow> (\<exists>i j. startp r' ! 0 = Some i \<and> endp r' ! 0 = Some j \<and> (i, j) \<in> dens string (if at_bol then Some 0 else None) bs \<and>
      (\<forall>k<i. k \<notin> Domain (dens string (if at_bol then Some 0 else None) bs))))"
proof -
  let ?D = "dens string (if at_bol then Some 0 else None) bs"
  have h: "good_alts bs" "length (code_of bs) < 65536" "hints bs r" using regcomp_some [OF assms(1-3)] assms(6) by auto
  obtain b r' where x: "regexec e (Some r) (Some string) at_bol = Some (b, Some r')" "first_match ?D 0 n r (Some (b, r'))"
    using regexec_search [OF assms(5,4) h, of at_bol] by blast
  show ?thesis
  proof (cases b)
    case True
    then obtain i where i: "i \<le> n" "matched ?D i r'" "\<And>k. k < i \<Longrightarrow> ?D `` {k} = {}" using x(2) by (auto simp: first_match_def)
    have "\<forall>k<i. k \<notin> Domain ?D" using i(3) by blast
    then show ?thesis using x(1) True i(1,2) unfolding matched_def by blast
  next
    case False
    then have "\<And>k. k \<le> n \<Longrightarrow> ?D `` {k} = {}" using x(2) by (auto simp: first_match_def)
    then show ?thesis using x(1) False by blast
  qed
qed

lemma sample_char: "take (Suc 0) (drop k sample_text) = [c] \<longleftrightarrow> (k, c) \<in> {(0, 120), (1, 98), (2, 97), (3, 99), (4, 0)}"
proof -
  consider "k = 0" | "k = 1" | "k = 2" | "k = 3" | "k = 4" | "5 \<le> k" by linarith
  then show ?thesis by cases (auto simp: sample_text_def)
qed

abbreviation sample_group :: re where
  "sample_group \<equiv> Group 1 [[Exactly [97]], [Exactly [98]]]"

lemma sample_group_den: "den sample_text bol sample_group = {(1, 2), (2, 3)}"
  by (auto simp: sample_char)

lemma sample_dens: "(i, j) \<in> dens sample_text bol [[Star sample_group, Exactly [99]]] \<longleftrightarrow> j = 4 \<and> i \<in> {1, 2, 3}"
proof -
  have "(i, 3) \<in> {(1, 2), (2, 3)}\<^sup>* \<longleftrightarrow> i \<in> {1, 2, 3 :: nat}"
  proof
    assume "(i, 3) \<in> {(1, 2), (2, 3)}\<^sup>*"
    then show "i \<in> {1, 2, 3}" by (rule converse_rtranclE) auto
  next
    assume "i \<in> {1, 2, 3 :: nat}"
    moreover have "(2, 3) \<in> {(1, 2), (2, 3 :: nat)}\<^sup>*" "(1, 2) \<in> {(1, 2 :: nat), (2, 3)}\<^sup>*" by auto
    ultimately show "(i, 3) \<in> {(1, 2), (2, 3)}\<^sup>*" using rtrancl_trans [of 1 2 "{(1, 2), (2, 3 :: nat)}" 3] by auto
  qed
  then show ?thesis unfolding dens_def by (simp only: set_simps list.map dseq_simps den.simps(8) sample_group_den) (auto simp: sample_char)
qed

theorem regexec_finds_witness:
  "\<exists>r r'. regcomp sample_env (Some sample_pattern) = Some (Some r) \<and> regexec sample_env (Some r) (Some sample_text) True = Some (True, Some r') \<and>
    startp r' ! 0 = Some 1 \<and> endp r' ! 0 = Some 4"
proof -
  obtain r where r: "regcomp sample_env (Some sample_pattern) = Some (Some r)"
    using regcomp_result [OF sample_nul sample_facts(1)] sample_parse sample_small sample_facts(3) by auto
  let ?D = "dens sample_text (Some 0) [[Star sample_group, Exactly [99]]]"
  obtain b r' where x: "regexec sample_env (Some r) (Some sample_text) True = Some (b, Some r')" "b \<longleftrightarrow> (\<exists>i j. i \<le> 4 \<and> (i, j) \<in> ?D)"
    "b \<longrightarrow> (\<exists>i j. startp r' ! 0 = Some i \<and> endp r' ! 0 = Some j \<and> (i, j) \<in> ?D \<and> (\<forall>k<i. k \<notin> Domain ?D))"
    using regexec_finds [OF r sample_nul sample_facts(1,2) sample_ctext sample_parse, of True] unfolding if_True by blast
  have b: "b" unfolding x(2) sample_dens by (rule exI [of _ 1]) simp
  obtain i j where m: "startp r' ! 0 = Some i" "endp r' ! 0 = Some j" "(i, j) \<in> ?D" "\<forall>k<i. k \<notin> Domain ?D" using x(3) b by blast
  have "(1, 4) \<in> ?D" unfolding sample_dens by simp
  then have d: "1 \<in> Domain ?D" by blast
  have "\<not> 1 < i" using m(4) d by blast
  then have "i = 1" "j = 4" using m(3) unfolding sample_dens by auto
  then show ?thesis using r x(1) b m(1,2) by (intro exI [of _ r] exI [of _ r']) simp
qed

subsection \<open>The hat\<close>

text \<open>\<open>complist.c\<close> calls \<open>regexec\<close> without \<open>at_bol\<close>: then a pattern that starts with a hat matches
  nothing.\<close>

lemma hat_needs_bol:
  assumes "regcomp e (Some exp) = Some (Some r)" "nul exp" "sized e" "plain e" "ctext n string" "parse exp = Some [Bol # b]"
  shows "\<exists>r'. regexec e (Some r) (Some string) False = Some (False, Some r')"
proof -
  have h: "good_alts [Bol # b]" "length (code_of [Bol # b]) < 65536" "hints [Bol # b] r" using regcomp_some [OF assms(1-3)] assms(6) by auto
  have "dens string None [Bol # b] = {}" by (auto simp: dens_def)
  then show ?thesis using regexec_search [OF assms(5,4) h, of False] by (auto simp: first_match_def matched_def)
qed

end
