(* ===== verification/Gutils_List.thy ===== *)
theory Gutils_List
  imports Prelude
begin

text \<open>
  Model of \<open>windiff/gutils/list.c\<close>: the storage allocator (a chain of blocks from which
  list items are cut) and the LIST abstract data type (circular doubly linked lists with an
  anchor).  This theory holds the state and the operations; \<open>Gutils_List_Correct\<close>
  holds the invariant and the functional correctness of every operation.

  \<^item> An address is a natural number.  Sizes are those of the 32-bit target: pointers of 4
    bytes, so \<open>iAnchorSize = 20\<close>, \<open>iHeaderSize = 24\<close> and a block has a header
    of 20 bytes before \<open>chData\<close>.
  \<^item> \<open>items\<close> holds the items that are allocated and not yet freed; reading or
    writing any other address is a fault (\<open>None\<close>).
  \<^item> Sizes are natural numbers: the SIZE\_T sum \<open>iNext + size\<close> of the code wraps only
    for requests of gigabytes, and there is no object of such a size on the 32-bit target.  A request larger
    than a block is not refused by the code and not by the model: the item it gets is larger than
    the block, and copying the caller's object into it (\<open>copy_data\<close>) is a fault.
  \<^item> The caller's object is a value of type \<open>'d\<close> (\<open>None\<close> while
    it is not written); its length is kept in \<open>iLen\<close> as the code does.
  \<^item> GlobalAlloc and GlobalLock belong to the operating system: their outcome is given by
    the parameter \<open>ga\<close>, which sees the number of calls made so far and the blocks in
    use.
  \<^item> TRACE\_ERROR appends its message to \<open>traceLog\<close>; EnterCriticalSection and
    LeaveCriticalSection count in \<open>critDepth\<close>.
\<close>

subsection \<open>The state\<close>

record block =
  PrevBlock :: ptr
  NextBlock :: ptr
  hMem :: nat
  iInUse :: int
  iNext :: nat

record 'd item =
  pitNext :: ptr
  pitPrev :: ptr
  pBlock :: ptr
  bAnchor :: bool
  bOK :: bool
  iLen :: nat
  Data :: "'d option"

record 'd lheap =
  blocks :: "ptr \<rightharpoonup> block"
  pCurrent :: ptr
  items :: "ptr \<rightharpoonup> 'd item"
  bInited :: bool
  critDepth :: int
  allocCalls :: nat
  traceLog :: "string list"

type_synonym galloc = "nat \<Rightarrow> (ptr \<rightharpoonup> block) \<Rightarrow> galloc_result"

definition BLOCKSIZE :: nat where "BLOCKSIZE = 25000"
definition chData :: nat where "chData = 20"
definition sizeof_BLOCK :: nat where "sizeof_BLOCK = chData + BLOCKSIZE"
definition iAnchorSize :: nat where "iAnchorSize = 20"
definition iHeaderSize :: nat where "iHeaderSize = 24"

definition zero_item :: "'d item" where
  "zero_item = \<lparr>pitNext = NULL, pitPrev = NULL, pBlock = NULL, bAnchor = False, bOK = False,
     iLen = 0, Data = None\<rparr>"

definition lheap_start :: "'d lheap" where
  "lheap_start = \<lparr>blocks = Map.empty, pCurrent = NULL, items = Map.empty, bInited = False,
     critDepth = 0, allocCalls = 0, traceLog = []\<rparr>"

subsection \<open>Memory access\<close>

definition upd_item :: "ptr \<Rightarrow> ('d item \<Rightarrow> 'd item) \<Rightarrow> 'd lheap \<Rightarrow> 'd lheap" where
  "upd_item p f s = s\<lparr>items := (items s)(p := map_option f (items s p))\<rparr>"

definition rd :: "ptr \<Rightarrow> 'd lheap \<Rightarrow> 'd item option" where
  "rd p s = items s p"

definition wr :: "ptr \<Rightarrow> ('d item \<Rightarrow> 'd item) \<Rightarrow> 'd lheap \<Rightarrow> 'd lheap option" where
  "wr p f s = (case items s p of None \<Rightarrow> None | Some _ \<Rightarrow> Some (upd_item p f s))"

text \<open>A load and a store of one link: \<open>p->pitNext\<close> and \<open>p->pitNext = v\<close>.\<close>

definition ldNext :: "ptr \<Rightarrow> 'd lheap \<Rightarrow> ptr option" where
  "ldNext p s = map_option pitNext (rd p s)"

definition ldPrev :: "ptr \<Rightarrow> 'd lheap \<Rightarrow> ptr option" where
  "ldPrev p s = map_option pitPrev (rd p s)"

definition stNext :: "ptr \<Rightarrow> ptr \<Rightarrow> 'd lheap \<Rightarrow> 'd lheap option" where
  "stNext p v = wr p (\<lambda>i. i\<lparr>pitNext := v\<rparr>)"

definition stPrev :: "ptr \<Rightarrow> ptr \<Rightarrow> 'd lheap \<Rightarrow> 'd lheap option" where
  "stPrev p v = wr p (\<lambda>i. i\<lparr>pitPrev := v\<rparr>)"

definition TRACE_ERROR :: "string \<Rightarrow> 'd lheap \<Rightarrow> 'd lheap" where
  "TRACE_ERROR m s = s\<lparr>traceLog := traceLog s @ [m]\<rparr>"

definition EnterCriticalSection :: "'d lheap \<Rightarrow> 'd lheap" where
  "EnterCriticalSection s = s\<lparr>critDepth := critDepth s + 1\<rparr>"

definition LeaveCriticalSection :: "'d lheap \<Rightarrow> 'd lheap" where
  "LeaveCriticalSection s = s\<lparr>critDepth := critDepth s - 1\<rparr>"

text \<open>\<open>MOVEBACK\<close> takes a cursor (address of the data) to the item; \<open>cursor\<close> is
  \<open>&(pit->Data)\<close>.\<close>

definition MOVEBACK :: "ptr \<Rightarrow> ptr" where
  "MOVEBACK Curs = Curs - iHeaderSize"

definition cursor :: "ptr \<Rightarrow> ptr" where
  "cursor pit = pit + iHeaderSize"

subsection \<open>Storage allocation\<close>

text \<open>\<open>list_Alloc\<close> enters the critical section and, as in the code, leaves it to
  the caller to leave it; on failure it returns NULL without leaving it.\<close>

definition list_Alloc :: "galloc \<Rightarrow> nat \<Rightarrow> 'd lheap \<Rightarrow> (ptr \<times> 'd lheap) option" where
  "list_Alloc ga cb s0 = do {
     let s = EnterCriticalSection s0;
     room \<leftarrow> (if pCurrent s = NULL then Some False
              else do { pc \<leftarrow> blocks s (pCurrent s); Some (\<not> (iNext pc + cb > BLOCKSIZE + 1)) });
     (ok, s) \<leftarrow>
       (if room then Some (True, s)
        else (case ga (allocCalls s) (blocks s) of
            GAllocFailed \<Rightarrow> Some (False, s\<lparr>pCurrent := NULL, allocCalls := Suc (allocCalls s)\<rparr>)
          | GLockFailed \<Rightarrow> Some (False, s\<lparr>pCurrent := NULL, allocCalls := Suc (allocCalls s)\<rparr>)
          | GMem hm p \<Rightarrow>
              (let pb = pCurrent s;
                   nb = \<lparr>PrevBlock = pb, NextBlock = NULL, hMem = hm, iInUse = 0, iNext = 0\<rparr>;
                   s = s\<lparr>pCurrent := p, blocks := (blocks s)(p \<mapsto> nb),
                         allocCalls := Suc (allocCalls s)\<rparr>
               in if pb = NULL then Some (True, s)
                  else (case blocks s pb of
                      None \<Rightarrow> None
                    | Some b \<Rightarrow> Some (True, s\<lparr>blocks := (blocks s)(pb \<mapsto> b\<lparr>NextBlock := p\<rparr>)\<rparr>)))));
     if \<not> ok then Some (NULL, s)
     else do {
       pc \<leftarrow> blocks s (pCurrent s);
       let pRet = pCurrent s + chData + iNext pc;
       let pc' = pc\<lparr>iInUse := iInUse pc + 1, iNext := (iNext pc + cb + 3) div 4 * 4\<rparr>;
       Some (pRet, s\<lparr>blocks := (blocks s)(pCurrent s \<mapsto> pc'),
                     items := (items s)(pRet \<mapsto> zero_item)\<rparr>)
     }
   }"

text \<open>\<open>GlobalFree\<close> of a block: the block and every byte in it are gone.\<close>

definition free_block :: "ptr \<Rightarrow> 'd lheap \<Rightarrow> 'd lheap" where
  "free_block b s = s\<lparr>blocks := (blocks s)(b := None),
     items := (\<lambda>a. if b \<le> a \<and> a < b + sizeof_BLOCK then None else items s a)\<rparr>"

definition set_block :: "ptr \<Rightarrow> (block \<Rightarrow> block) \<Rightarrow> 'd lheap \<Rightarrow> 'd lheap option" where
  "set_block b f s = (case blocks s b of None \<Rightarrow> None
     | Some k \<Rightarrow> Some (s\<lparr>blocks := (blocks s)(b \<mapsto> f k)\<rparr>))"

text \<open>The body of \<open>if (pBlock->iInUse<=0)\<close>: report a negative count, move
  \<open>pCurrent\<close> back, loop the block out of the chain, free it.\<close>

definition release_block :: "ptr \<Rightarrow> block \<Rightarrow> 'd lheap \<Rightarrow> 'd lheap option" where
  "release_block b k s = do {
     let s = (if iInUse k < 0 then TRACE_ERROR ''List block allocation negative'' s else s);
     let s = (if pCurrent s = b then s\<lparr>pCurrent := PrevBlock k\<rparr> else s);
     s \<leftarrow> (if PrevBlock k \<noteq> NULL
          then set_block (PrevBlock k) (\<lambda>q. q\<lparr>NextBlock := NextBlock k\<rparr>) s else Some s);
     s \<leftarrow> (if NextBlock k \<noteq> NULL
          then set_block (NextBlock k) (\<lambda>q. q\<lparr>PrevBlock := PrevBlock k\<rparr>) s else Some s);
     Some (free_block b s)
   }"

text \<open>The item at \<open>p\<close> is dead from here on: it leaves \<open>items\<close>.\<close>

definition list_Free :: "ptr \<Rightarrow> ptr \<Rightarrow> 'd lheap \<Rightarrow> 'd lheap option" where
  "list_Free b p s0 = do {
     let s = EnterCriticalSection s0;
     s \<leftarrow> set_block b (\<lambda>k. k\<lparr>iInUse := iInUse k - 1\<rparr>) s;
     let s = s\<lparr>items := (items s)(p := None)\<rparr>;
     k \<leftarrow> blocks s b;
     s \<leftarrow> (if iInUse k \<le> 0 then release_block b k s else Some s);
     Some (LeaveCriticalSection s)
   }"

definition List_Init :: "'d lheap \<Rightarrow> 'd lheap" where
  "List_Init s = s\<lparr>critDepth := 0, bInited := True\<rparr>"

definition List_Term :: "'d lheap \<Rightarrow> 'd lheap" where
  "List_Term s = (if pCurrent s \<noteq> NULL
     then TRACE_ERROR ''List storage not cleared out properly'' s else s)"

subsection \<open>Creating and destroying lists\<close>

definition List_Create :: "galloc \<Rightarrow> 'd lheap \<Rightarrow> (ptr \<times> 'd lheap) option" where
  "List_Create ga s = do {
     let s = (if \<not> bInited s then List_Init s else s);
     (lst, s) \<leftarrow> list_Alloc ga iAnchorSize s;
     if lst = NULL then Some (NULL, s)
     else do {
       s \<leftarrow> wr lst (\<lambda>i. i\<lparr>pBlock := pCurrent s\<rparr>) s;
       let s = LeaveCriticalSection s;
       s \<leftarrow> wr lst (\<lambda>i. i\<lparr>bOK := True\<rparr>) s;
       s \<leftarrow> wr lst (\<lambda>i. i\<lparr>pitNext := lst\<rparr>) s;
       s \<leftarrow> wr lst (\<lambda>i. i\<lparr>pitPrev := lst\<rparr>) s;
       s \<leftarrow> wr lst (\<lambda>i. i\<lparr>bAnchor := True\<rparr>) s;
       Some (lst, s)
     }
   }"

partial_function (option) List_Destroy_loop :: "ptr \<Rightarrow> ptr \<Rightarrow> 'd lheap \<Rightarrow> 'd lheap option" where
  "List_Destroy_loop plst pitP s = do {
     p \<leftarrow> rd pitP s;
     let pitQ = pitNext p;
     s \<leftarrow> list_Free (pBlock p) pitP s;
     if pitQ \<noteq> plst then List_Destroy_loop plst pitQ s else Some s
   }"

text \<open>\<open>plst = None\<close> is the NULL pointer to a LIST; the result is the value left in
  \<open>*plst\<close>.\<close>

definition List_Destroy :: "ptr option \<Rightarrow> 'd lheap \<Rightarrow> (ptr option \<times> 'd lheap) option" where
  "List_Destroy plst s = (case plst of
     None \<Rightarrow> Some (None, TRACE_ERROR ''Bug:Attempt to destroy NULL list.  Continuing...'' s)
   | Some l \<Rightarrow> do { s \<leftarrow> List_Destroy_loop l l s; Some (Some NULL, s) })"

subsection \<open>Adding items\<close>

text \<open>\<open>memcpy( &(pit->Data), pObject, uLen )\<close>: a copy that runs past the block that the
  item was cut from is a fault.\<close>

definition copy_data :: "ptr \<Rightarrow> 'd \<Rightarrow> nat \<Rightarrow> 'd lheap \<Rightarrow> 'd lheap option" where
  "copy_data pit pObject uLen s = do {
     i \<leftarrow> rd pit s;
     if uLen \<noteq> 0 \<and> cursor pit + uLen > pBlock i + sizeof_BLOCK then None
     else wr pit (\<lambda>i. i\<lparr>Data := Some pObject\<rparr>) s
   }"

definition List_AddFirst :: "galloc \<Rightarrow> ptr \<Rightarrow> 'd \<Rightarrow> nat \<Rightarrow> 'd lheap \<Rightarrow> 'd lheap option" where
  "List_AddFirst ga lst pObject uLen s =
     (if lst = NULL then Some (TRACE_ERROR ''Bug: List_AddFirst to bogus list.  Continuing...'' s)
      else do {
        (pit, s) \<leftarrow> list_Alloc ga (iHeaderSize + uLen) s;
        if pit = NULL then wr lst (\<lambda>i. i\<lparr>bOK := False\<rparr>) s
        else do {
          s \<leftarrow> wr pit (\<lambda>i. i\<lparr>pBlock := pCurrent s\<rparr>) s;
          let s = LeaveCriticalSection s;
          s \<leftarrow> wr pit (\<lambda>i. i\<lparr>iLen := uLen\<rparr>) s;
          s \<leftarrow> wr pit (\<lambda>i. i\<lparr>pitPrev := lst\<rparr>) s;
          l \<leftarrow> rd lst s;
          s \<leftarrow> wr pit (\<lambda>i. i\<lparr>pitNext := pitNext l\<rparr>) s;
          s \<leftarrow> wr (pitNext l) (\<lambda>i. i\<lparr>pitPrev := pit\<rparr>) s;
          s \<leftarrow> wr lst (\<lambda>i. i\<lparr>pitNext := pit\<rparr>) s;
          s \<leftarrow> wr pit (\<lambda>i. i\<lparr>bAnchor := False\<rparr>) s;
          copy_data pit pObject uLen s
        } })"

definition List_NewFirst :: "galloc \<Rightarrow> ptr \<Rightarrow> nat \<Rightarrow> 'd lheap \<Rightarrow> (ptr \<times> 'd lheap) option" where
  "List_NewFirst ga lst uLen s =
     (if lst = NULL then Some (NULL, TRACE_ERROR ''Bug: List_NewFirst to bogus list.  Continuing...'' s)
      else do {
        (pit, s) \<leftarrow> list_Alloc ga (iHeaderSize + uLen) s;
        if pit = NULL then do { s \<leftarrow> wr lst (\<lambda>i. i\<lparr>bOK := False\<rparr>) s; Some (NULL, s) }
        else do {
          s \<leftarrow> wr pit (\<lambda>i. i\<lparr>pBlock := pCurrent s\<rparr>) s;
          let s = LeaveCriticalSection s;
          s \<leftarrow> wr pit (\<lambda>i. i\<lparr>iLen := uLen\<rparr>) s;
          s \<leftarrow> wr pit (\<lambda>i. i\<lparr>pitPrev := lst\<rparr>) s;
          l \<leftarrow> rd lst s;
          s \<leftarrow> wr pit (\<lambda>i. i\<lparr>pitNext := pitNext l\<rparr>) s;
          s \<leftarrow> wr (pitNext l) (\<lambda>i. i\<lparr>pitPrev := pit\<rparr>) s;
          s \<leftarrow> wr lst (\<lambda>i. i\<lparr>pitNext := pit\<rparr>) s;
          s \<leftarrow> wr pit (\<lambda>i. i\<lparr>bAnchor := False\<rparr>) s;
          Some (cursor pit, s)
        } })"

definition List_AddLast :: "galloc \<Rightarrow> ptr \<Rightarrow> 'd \<Rightarrow> nat \<Rightarrow> 'd lheap \<Rightarrow> 'd lheap option" where
  "List_AddLast ga lst pObject uLen s =
     (if lst = NULL then Some (TRACE_ERROR ''Bug: List_AddLast to bogus list.  Continuing...'' s)
      else do {
        (pit, s) \<leftarrow> list_Alloc ga (iHeaderSize + uLen) s;
        if pit = NULL then wr lst (\<lambda>i. i\<lparr>bOK := False\<rparr>) s
        else do {
          s \<leftarrow> wr pit (\<lambda>i. i\<lparr>pBlock := pCurrent s\<rparr>) s;
          let s = LeaveCriticalSection s;
          s \<leftarrow> wr pit (\<lambda>i. i\<lparr>iLen := uLen\<rparr>) s;
          s \<leftarrow> wr pit (\<lambda>i. i\<lparr>pitNext := lst\<rparr>) s;
          l \<leftarrow> rd lst s;
          s \<leftarrow> wr pit (\<lambda>i. i\<lparr>pitPrev := pitPrev l\<rparr>) s;
          s \<leftarrow> wr (pitPrev l) (\<lambda>i. i\<lparr>pitNext := pit\<rparr>) s;
          s \<leftarrow> wr lst (\<lambda>i. i\<lparr>pitPrev := pit\<rparr>) s;
          s \<leftarrow> wr pit (\<lambda>i. i\<lparr>bAnchor := False\<rparr>) s;
          copy_data pit pObject uLen s
        } })"

definition List_NewLast :: "galloc \<Rightarrow> ptr \<Rightarrow> nat \<Rightarrow> 'd lheap \<Rightarrow> (ptr \<times> 'd lheap) option" where
  "List_NewLast ga lst uLen s =
     (if lst = NULL then Some (NULL, TRACE_ERROR ''Bug: List_NewLast in bogus list.  Continuing...'' s)
      else do {
        (pit, s) \<leftarrow> list_Alloc ga (iHeaderSize + uLen) s;
        if pit = NULL then do { s \<leftarrow> wr lst (\<lambda>i. i\<lparr>bOK := False\<rparr>) s; Some (NULL, s) }
        else do {
          s \<leftarrow> wr pit (\<lambda>i. i\<lparr>pBlock := pCurrent s\<rparr>) s;
          let s = LeaveCriticalSection s;
          s \<leftarrow> wr pit (\<lambda>i. i\<lparr>iLen := uLen\<rparr>) s;
          s \<leftarrow> wr pit (\<lambda>i. i\<lparr>pitNext := lst\<rparr>) s;
          l \<leftarrow> rd lst s;
          s \<leftarrow> wr pit (\<lambda>i. i\<lparr>pitPrev := pitPrev l\<rparr>) s;
          s \<leftarrow> wr (pitPrev l) (\<lambda>i. i\<lparr>pitNext := pit\<rparr>) s;
          s \<leftarrow> wr lst (\<lambda>i. i\<lparr>pitPrev := pit\<rparr>) s;
          s \<leftarrow> wr pit (\<lambda>i. i\<lparr>bAnchor := False\<rparr>) s;
          Some (cursor pit, s)
        } })"

definition List_AddAfter :: "galloc \<Rightarrow> ptr \<Rightarrow> ptr \<Rightarrow> 'd \<Rightarrow> nat \<Rightarrow> 'd lheap \<Rightarrow> 'd lheap option" where
  "List_AddAfter ga lst Curs pObject uLen s =
     (if lst = NULL then Some (TRACE_ERROR ''Bug: List_AddAfter in bogus list.  Continuing...'' s)
      else if Curs = NULL then List_AddFirst ga lst pObject uLen s
      else do {
        let pitAfter = MOVEBACK Curs;
        (pitNew, s) \<leftarrow> list_Alloc ga (iHeaderSize + uLen) s;
        if pitNew = NULL then wr lst (\<lambda>i. i\<lparr>bOK := False\<rparr>) s
        else do {
          s \<leftarrow> wr pitNew (\<lambda>i. i\<lparr>pBlock := pCurrent s\<rparr>) s;
          let s = LeaveCriticalSection s;
          s \<leftarrow> wr pitNew (\<lambda>i. i\<lparr>iLen := uLen\<rparr>) s;
          s \<leftarrow> wr pitNew (\<lambda>i. i\<lparr>pitPrev := pitAfter\<rparr>) s;
          a \<leftarrow> rd pitAfter s;
          s \<leftarrow> wr pitNew (\<lambda>i. i\<lparr>pitNext := pitNext a\<rparr>) s;
          s \<leftarrow> wr (pitNext a) (\<lambda>i. i\<lparr>pitPrev := pitNew\<rparr>) s;
          s \<leftarrow> wr pitAfter (\<lambda>i. i\<lparr>pitNext := pitNew\<rparr>) s;
          s \<leftarrow> wr pitNew (\<lambda>i. i\<lparr>bAnchor := False\<rparr>) s;
          copy_data pitNew pObject uLen s
        } })"

definition List_NewAfter :: "galloc \<Rightarrow> ptr \<Rightarrow> ptr \<Rightarrow> nat \<Rightarrow> 'd lheap \<Rightarrow> (ptr \<times> 'd lheap) option" where
  "List_NewAfter ga lst Curs uLen s =
     (if lst = NULL then Some (NULL, TRACE_ERROR ''Bug: List_NewAfter in bogus list.  Continuing...'' s)
      else if Curs = NULL then List_NewFirst ga lst uLen s
      else do {
        let pitAfter = MOVEBACK Curs;
        (pitNew, s) \<leftarrow> list_Alloc ga (iHeaderSize + uLen) s;
        if pitNew = NULL then do { s \<leftarrow> wr lst (\<lambda>i. i\<lparr>bOK := False\<rparr>) s; Some (NULL, s) }
        else do {
          s \<leftarrow> wr pitNew (\<lambda>i. i\<lparr>pBlock := pCurrent s\<rparr>) s;
          let s = LeaveCriticalSection s;
          s \<leftarrow> wr pitNew (\<lambda>i. i\<lparr>iLen := uLen\<rparr>) s;
          s \<leftarrow> wr pitNew (\<lambda>i. i\<lparr>pitPrev := pitAfter\<rparr>) s;
          a \<leftarrow> rd pitAfter s;
          s \<leftarrow> wr pitNew (\<lambda>i. i\<lparr>pitNext := pitNext a\<rparr>) s;
          s \<leftarrow> wr (pitNext a) (\<lambda>i. i\<lparr>pitPrev := pitNew\<rparr>) s;
          s \<leftarrow> wr pitAfter (\<lambda>i. i\<lparr>pitNext := pitNew\<rparr>) s;
          s \<leftarrow> wr pitNew (\<lambda>i. i\<lparr>bAnchor := False\<rparr>) s;
          Some (cursor pitNew, s)
        } })"

definition List_AddBefore :: "galloc \<Rightarrow> ptr \<Rightarrow> ptr \<Rightarrow> 'd \<Rightarrow> nat \<Rightarrow> 'd lheap \<Rightarrow> 'd lheap option" where
  "List_AddBefore ga lst Curs pObject uLen s =
     (if lst = NULL then Some (TRACE_ERROR ''Bug: List_AddBefore in bogus list.  Continuing...'' s)
      else if Curs = NULL then List_AddLast ga lst pObject uLen s
      else do {
        let pitBefore = MOVEBACK Curs;
        (pitNew, s) \<leftarrow> list_Alloc ga (iHeaderSize + uLen) s;
        if pitNew = NULL then wr lst (\<lambda>i. i\<lparr>bOK := False\<rparr>) s
        else do {
          s \<leftarrow> wr pitNew (\<lambda>i. i\<lparr>pBlock := pCurrent s\<rparr>) s;
          let s = LeaveCriticalSection s;
          s \<leftarrow> wr pitNew (\<lambda>i. i\<lparr>iLen := uLen\<rparr>) s;
          s \<leftarrow> wr pitNew (\<lambda>i. i\<lparr>pitNext := pitBefore\<rparr>) s;
          b \<leftarrow> rd pitBefore s;
          s \<leftarrow> wr pitNew (\<lambda>i. i\<lparr>pitPrev := pitPrev b\<rparr>) s;
          s \<leftarrow> wr (pitPrev b) (\<lambda>i. i\<lparr>pitNext := pitNew\<rparr>) s;
          s \<leftarrow> wr pitBefore (\<lambda>i. i\<lparr>pitPrev := pitNew\<rparr>) s;
          s \<leftarrow> wr pitNew (\<lambda>i. i\<lparr>bAnchor := False\<rparr>) s;
          copy_data pitNew pObject uLen s
        } })"

definition List_NewBefore :: "galloc \<Rightarrow> ptr \<Rightarrow> ptr \<Rightarrow> nat \<Rightarrow> 'd lheap \<Rightarrow> (ptr \<times> 'd lheap) option" where
  "List_NewBefore ga lst Curs uLen s =
     (if lst = NULL then Some (NULL, TRACE_ERROR ''Bug: List_NewBefore in bogus list.  Continuing...'' s)
      else if Curs = NULL then List_NewLast ga lst uLen s
      else do {
        let pitBefore = MOVEBACK Curs;
        (pitNew, s) \<leftarrow> list_Alloc ga (iHeaderSize + uLen) s;
        if pitNew = NULL then do { s \<leftarrow> wr lst (\<lambda>i. i\<lparr>bOK := False\<rparr>) s; Some (NULL, s) }
        else do {
          s \<leftarrow> wr pitNew (\<lambda>i. i\<lparr>pBlock := pCurrent s\<rparr>) s;
          let s = LeaveCriticalSection s;
          s \<leftarrow> wr pitNew (\<lambda>i. i\<lparr>iLen := uLen\<rparr>) s;
          s \<leftarrow> wr pitNew (\<lambda>i. i\<lparr>pitNext := pitBefore\<rparr>) s;
          b \<leftarrow> rd pitBefore s;
          s \<leftarrow> wr pitNew (\<lambda>i. i\<lparr>pitPrev := pitPrev b\<rparr>) s;
          s \<leftarrow> wr (pitPrev b) (\<lambda>i. i\<lparr>pitNext := pitNew\<rparr>) s;
          s \<leftarrow> wr pitBefore (\<lambda>i. i\<lparr>pitPrev := pitNew\<rparr>) s;
          s \<leftarrow> wr pitNew (\<lambda>i. i\<lparr>bAnchor := False\<rparr>) s;
          Some (cursor pitNew, s)
        } })"

subsection \<open>Deleting items\<close>

definition List_DeleteFirst :: "ptr \<Rightarrow> 'd lheap \<Rightarrow> 'd lheap option" where
  "List_DeleteFirst lst s =
     (if lst = NULL then Some (TRACE_ERROR ''Bug: List_DeleteFirst from bogus list.  Continuing...'' s)
      else do {
        l \<leftarrow> rd lst s;
        if pitNext l = lst then wr lst (\<lambda>i. i\<lparr>bOK := False\<rparr>) s
        else do {
          let pit = pitNext l;
          p \<leftarrow> rd pit s;
          s \<leftarrow> wr (pitNext p) (\<lambda>i. i\<lparr>pitPrev := pitPrev p\<rparr>) s;
          p \<leftarrow> rd pit s;
          s \<leftarrow> wr (pitPrev p) (\<lambda>i. i\<lparr>pitNext := pitNext p\<rparr>) s;
          p \<leftarrow> rd pit s;
          list_Free (pBlock p) pit s
        } })"

definition List_DeleteLast :: "ptr \<Rightarrow> 'd lheap \<Rightarrow> 'd lheap option" where
  "List_DeleteLast lst s =
     (if lst = NULL then Some (TRACE_ERROR ''Bug: List_DeleteLast from bogus list.  Continuing...'' s)
      else do {
        l \<leftarrow> rd lst s;
        if pitNext l = lst then wr lst (\<lambda>i. i\<lparr>bOK := False\<rparr>) s
        else do {
          let pit = pitPrev l;
          p \<leftarrow> rd pit s;
          s \<leftarrow> wr (pitNext p) (\<lambda>i. i\<lparr>pitPrev := pitPrev p\<rparr>) s;
          p \<leftarrow> rd pit s;
          s \<leftarrow> wr (pitPrev p) (\<lambda>i. i\<lparr>pitNext := pitNext p\<rparr>) s;
          p \<leftarrow> rd pit s;
          list_Free (pBlock p) pit s
        } })"

definition List_Delete :: "ptr \<Rightarrow> 'd lheap \<Rightarrow> 'd lheap option" where
  "List_Delete Curs s =
     (if Curs = NULL then Some (TRACE_ERROR ''Bug: List_Delete NULL item'' s)
      else do {
        let pit = MOVEBACK Curs;
        p \<leftarrow> rd pit s;
        s \<leftarrow> wr (pitNext p) (\<lambda>i. i\<lparr>pitPrev := pitPrev p\<rparr>) s;
        p \<leftarrow> rd pit s;
        s \<leftarrow> wr (pitPrev p) (\<lambda>i. i\<lparr>pitNext := pitNext p\<rparr>) s;
        p \<leftarrow> rd pit s;
        list_Free (pBlock p) pit s
      })"

definition List_DeleteForwards :: "ptr \<Rightarrow> 'd lheap \<Rightarrow> (ptr \<times> 'd lheap) option" where
  "List_DeleteForwards Curs s =
     (if Curs = NULL
      then Some (NULL, TRACE_ERROR ''Bug: List_DeleteForwards NULL cursor. Continuing...'' s)
      else do {
        let pitDel = MOVEBACK Curs;
        d \<leftarrow> rd pitDel s;
        let pitN = pitNext d;
        s \<leftarrow> wr pitN (\<lambda>i. i\<lparr>pitPrev := pitPrev d\<rparr>) s;
        d \<leftarrow> rd pitDel s;
        s \<leftarrow> wr (pitPrev d) (\<lambda>i. i\<lparr>pitNext := pitN\<rparr>) s;
        d \<leftarrow> rd pitDel s;
        s \<leftarrow> list_Free (pBlock d) pitDel s;
        n \<leftarrow> rd pitN s;
        if bAnchor n then Some (NULL, s) else Some (cursor pitN, s)
      })"

definition List_DeleteBackwards :: "ptr \<Rightarrow> 'd lheap \<Rightarrow> (ptr \<times> 'd lheap) option" where
  "List_DeleteBackwards Curs s =
     (if Curs = NULL
      then Some (NULL, TRACE_ERROR ''List_DeleteBackwards NULL cursor.  Continuing...'' s)
      else do {
        let pitDel = MOVEBACK Curs;
        d \<leftarrow> rd pitDel s;
        let pitB = pitPrev d;
        s \<leftarrow> wr (pitNext d) (\<lambda>i. i\<lparr>pitPrev := pitB\<rparr>) s;
        d \<leftarrow> rd pitDel s;
        s \<leftarrow> wr pitB (\<lambda>i. i\<lparr>pitNext := pitNext d\<rparr>) s;
        d \<leftarrow> rd pitDel s;
        s \<leftarrow> list_Free (pBlock d) pitDel s;
        b \<leftarrow> rd pitB s;
        if bAnchor b then Some (NULL, s) else Some (cursor pitB, s)
      })"

partial_function (option) List_Clear_loop :: "ptr \<Rightarrow> ptr \<Rightarrow> 'd lheap \<Rightarrow> 'd lheap option" where
  "List_Clear_loop lst pitP s =
     (if pitP \<noteq> lst then do {
        p \<leftarrow> rd pitP s;
        let pitQ = pitNext p;
        s \<leftarrow> list_Free (pBlock p) pitP s;
        List_Clear_loop lst pitQ s
      } else Some s)"

definition List_Clear :: "ptr \<Rightarrow> 'd lheap \<Rightarrow> 'd lheap option" where
  "List_Clear lst s =
     (if lst = NULL then Some (TRACE_ERROR ''Bug: List_Clear of bogus list.  Continuing...'' s)
      else do {
        l \<leftarrow> rd lst s;
        s \<leftarrow> List_Clear_loop lst (pitNext l) s;
        s \<leftarrow> wr lst (\<lambda>i. i\<lparr>bOK := True\<rparr>) s;
        s \<leftarrow> wr lst (\<lambda>i. i\<lparr>pitNext := lst\<rparr>) s;
        wr lst (\<lambda>i. i\<lparr>pitPrev := lst\<rparr>) s
      })"

subsection \<open>Reading\<close>

definition List_ItemLength :: "ptr \<Rightarrow> 'd lheap \<Rightarrow> (nat \<times> 'd lheap) option" where
  "List_ItemLength Curs s =
     (if Curs = NULL
      then Some (0, TRACE_ERROR ''Bug: List_ItemLength NULL cursor.  Continuing...'' s)
      else do { p \<leftarrow> rd (MOVEBACK Curs) s; Some (iLen p, s) })"

definition List_First :: "ptr \<Rightarrow> 'd lheap \<Rightarrow> (ptr \<times> 'd lheap) option" where
  "List_First lst s =
     (if lst = NULL then Some (NULL, TRACE_ERROR ''Bug: List_First of bogus list.  Continuing...'' s)
      else do {
        l \<leftarrow> rd lst s;
        if pitNext l = lst then Some (NULL, s) else Some (cursor (pitNext l), s)
      })"

definition List_Last :: "ptr \<Rightarrow> 'd lheap \<Rightarrow> (ptr \<times> 'd lheap) option" where
  "List_Last lst s =
     (if lst = NULL then Some (NULL, TRACE_ERROR ''Bug: List_Last of bogus list.  Continuing...'' s)
      else do {
        l \<leftarrow> rd lst s;
        if pitNext l = lst then Some (NULL, s) else Some (cursor (pitPrev l), s)
      })"

definition List_Next :: "ptr \<Rightarrow> 'd lheap \<Rightarrow> (ptr \<times> 'd lheap) option" where
  "List_Next Curs s =
     (if Curs = NULL then Some (NULL, TRACE_ERROR ''Bug: List_Next of NULL cursor.  Continuing...'' s)
      else do {
        p \<leftarrow> rd (MOVEBACK Curs) s;
        let pit = pitNext p;
        n \<leftarrow> rd pit s;
        if bAnchor n then Some (NULL, s) else Some (cursor pit, s)
      })"

definition List_Prev :: "ptr \<Rightarrow> 'd lheap \<Rightarrow> (ptr \<times> 'd lheap) option" where
  "List_Prev Curs s =
     (if Curs = NULL then Some (NULL, TRACE_ERROR ''Bug: List_Prev of NULL cursor.  Continuing...'' s)
      else do {
        p \<leftarrow> rd (MOVEBACK Curs) s;
        let pit = pitPrev p;
        n \<leftarrow> rd pit s;
        if bAnchor n then Some (NULL, s) else Some (cursor pit, s)
      })"

definition List_IsEmpty :: "ptr \<Rightarrow> 'd lheap \<Rightarrow> (bool \<times> 'd lheap) option" where
  "List_IsEmpty lst s =
     (if lst = NULL then Some (True, TRACE_ERROR ''Bug: List_IsEmpty of bogus list.  Continuing...'' s)
      else do { l \<leftarrow> rd lst s; Some (pitNext l = lst, s) })"

partial_function (option) List_Card_loop :: "ptr \<Rightarrow> ptr \<Rightarrow> int \<Rightarrow> 'd lheap \<Rightarrow> int option" where
  "List_Card_loop lst pit cit s =
     (if pit \<noteq> lst then do { p \<leftarrow> rd pit s; List_Card_loop lst (pitNext p) (cit + 1) s }
      else Some cit)"

definition List_Card :: "ptr \<Rightarrow> 'd lheap \<Rightarrow> (int \<times> 'd lheap) option" where
  "List_Card lst s =
     (if lst = NULL then Some (0, TRACE_ERROR ''Bug: List_Card of bogus list.  Continuing...'' s)
      else do { l \<leftarrow> rd lst s; c \<leftarrow> List_Card_loop lst (pitNext l) 0 s; Some (c, s) })"

definition List_IsOK :: "ptr \<Rightarrow> 'd lheap \<Rightarrow> (bool \<times> 'd lheap) option" where
  "List_IsOK lst s =
     (if lst = NULL then Some (False, TRACE_ERROR ''Bug: List_IsOK of bogus list.  Continuing...'' s)
      else do { l \<leftarrow> rd lst s; Some (bOK l, s) })"

definition List_MakeOK :: "ptr \<Rightarrow> 'd lheap \<Rightarrow> 'd lheap option" where
  "List_MakeOK lst s =
     (if lst = NULL then Some (TRACE_ERROR ''Bug: List_MakeOK of bogus list.  Continuing...'' s)
      else wr lst (\<lambda>i. i\<lparr>bOK := True\<rparr>) s)"

subsection \<open>Joining and splitting\<close>

definition SwitchLists :: "ptr \<Rightarrow> ptr \<Rightarrow> 'd lheap \<Rightarrow> 'd lheap option" where
  "SwitchLists l1 l2 s = do {
     t \<leftarrow> ldPrev l2 s;
     s \<leftarrow> stPrev l1 t s;
     h \<leftarrow> ldNext l2 s;
     s \<leftarrow> stNext l1 h s;
     p \<leftarrow> ldPrev l1 s;
     s \<leftarrow> stNext p l1 s;
     n \<leftarrow> ldNext l1 s;
     s \<leftarrow> stPrev n l1 s;
     s \<leftarrow> stPrev l2 l2 s;
     stNext l2 l2 s
   }"

text \<open>The \<open>bOK\<close> bookkeeping that the three joining routines share.\<close>

definition merge_OK :: "ptr \<Rightarrow> ptr \<Rightarrow> 'd lheap \<Rightarrow> 'd lheap option" where
  "merge_OK l1 l2 s = do {
     a \<leftarrow> rd l1 s;
     b \<leftarrow> rd l2 s;
     s \<leftarrow> wr l1 (\<lambda>i. i\<lparr>bOK := bOK a \<and> bOK b\<rparr>) s;
     wr l2 (\<lambda>i. i\<lparr>bOK := True\<rparr>) s
   }"

definition List_Join :: "ptr \<Rightarrow> ptr \<Rightarrow> 'd lheap \<Rightarrow> 'd lheap option" where
  "List_Join l1 l2 s =
     (if l1 = NULL \<or> l2 = NULL
      then Some (TRACE_ERROR ''Bug: List_Join of bogus list.  Continuing...'' s)
      else do {
        s \<leftarrow> merge_OK l1 l2 s;
        n2 \<leftarrow> ldNext l2 s;
        if n2 = l2 then Some s
        else if n2 = l2 then SwitchLists l1 l2 s
        else do {
          p1 \<leftarrow> ldPrev l1 s;
          s \<leftarrow> stPrev n2 p1 s;
          p1 \<leftarrow> ldPrev l1 s;
          n2 \<leftarrow> ldNext l2 s;
          s \<leftarrow> stNext p1 n2 s;
          p2 \<leftarrow> ldPrev l2 s;
          s \<leftarrow> stPrev l1 p2 s;
          p1 \<leftarrow> ldPrev l1 s;
          s \<leftarrow> stNext p1 l1 s;
          s \<leftarrow> stNext l2 l2 s;
          stPrev l2 l2 s
        } })"

definition List_InsertListAfter :: "ptr \<Rightarrow> ptr \<Rightarrow> ptr \<Rightarrow> 'd lheap \<Rightarrow> 'd lheap option" where
  "List_InsertListAfter l1 l2 Curs s =
     (if l1 = NULL \<or> l2 = NULL
      then Some (TRACE_ERROR ''Bug: List_InsertListAfter with bogus list.  Continuing...'' s)
      else do {
        s \<leftarrow> merge_OK l1 l2 s;
        n2 \<leftarrow> ldNext l2 s;
        if n2 = l2 then Some s
        else do {
          n1 \<leftarrow> ldNext l1 s;
          if n1 = l1 then SwitchLists l1 l2 s
          else do {
            let pit = (if Curs = NULL then l1 else MOVEBACK Curs);
            pitA \<leftarrow> ldNext pit s;
            n2 \<leftarrow> ldNext l2 s;
            s \<leftarrow> stPrev n2 pit s;
            p2 \<leftarrow> ldPrev l2 s;
            s \<leftarrow> stNext p2 pitA s;
            n2 \<leftarrow> ldNext l2 s;
            s \<leftarrow> stNext pit n2 s;
            p2 \<leftarrow> ldPrev l2 s;
            s \<leftarrow> stPrev pitA p2 s;
            s \<leftarrow> stNext l2 l2 s;
            stPrev l2 l2 s
          } } })"

definition List_InsertListBefore :: "ptr \<Rightarrow> ptr \<Rightarrow> ptr \<Rightarrow> 'd lheap \<Rightarrow> 'd lheap option" where
  "List_InsertListBefore l1 l2 Curs s =
     (if l1 = NULL \<or> l2 = NULL
      then Some (TRACE_ERROR ''Bug: List_InsertListBefore with bogus list.  Continuing...'' s)
      else do {
        s \<leftarrow> merge_OK l1 l2 s;
        n2 \<leftarrow> ldNext l2 s;
        if n2 = l2 then Some s
        else do {
          n1 \<leftarrow> ldNext l1 s;
          if n1 = l1 then SwitchLists l1 l2 s
          else do {
            let pit = (if Curs = NULL then l1 else MOVEBACK Curs);
            pitB \<leftarrow> ldPrev pit s;
            n2 \<leftarrow> ldNext l2 s;
            s \<leftarrow> stPrev n2 pitB s;
            p2 \<leftarrow> ldPrev l2 s;
            s \<leftarrow> stNext p2 pit s;
            n2 \<leftarrow> ldNext l2 s;
            s \<leftarrow> stNext pitB n2 s;
            p2 \<leftarrow> ldPrev l2 s;
            s \<leftarrow> stPrev pit p2 s;
            s \<leftarrow> stNext l2 l2 s;
            stPrev l2 l2 s
          } } })"

definition List_SplitAfter :: "ptr \<Rightarrow> ptr \<Rightarrow> ptr \<Rightarrow> 'd lheap \<Rightarrow> 'd lheap option" where
  "List_SplitAfter l1 l2 Curs s =
     (if l1 = NULL \<or> l2 = NULL
      then Some (TRACE_ERROR ''Bug: List_SplitAfter bogus list.  Continuing...'' s)
      else do {
        n2 \<leftarrow> ldNext l2 s;
        s \<leftarrow> (if n2 \<noteq> l2 then List_Clear l2 s else Some s);
        if Curs = NULL then Some s
        else do {
          let pit = MOVEBACK Curs;
          if pit = l1 then do {
            s \<leftarrow> wr l1 (\<lambda>i. i\<lparr>bOK := False\<rparr>) s;
            wr l2 (\<lambda>i. i\<lparr>bOK := False\<rparr>) s
          } else do {
            n \<leftarrow> ldNext pit s;
            if n = l1 then SwitchLists l2 l1 s
            else do {
              s \<leftarrow> stPrev l2 pit s;
              n1 \<leftarrow> ldNext l1 s;
              s \<leftarrow> stNext l2 n1 s;
              n \<leftarrow> ldNext pit s;
              s \<leftarrow> stNext l1 n s;
              s \<leftarrow> stNext pit l2 s;
              n2 \<leftarrow> ldNext l2 s;
              s \<leftarrow> stPrev n2 l2 s;
              n1 \<leftarrow> ldNext l1 s;
              stPrev n1 l1 s
            } } } })"

definition List_SplitBefore :: "ptr \<Rightarrow> ptr \<Rightarrow> ptr \<Rightarrow> 'd lheap \<Rightarrow> 'd lheap option" where
  "List_SplitBefore l1 l2 Curs s =
     (if l1 = NULL \<or> l2 = NULL
      then Some (TRACE_ERROR ''Bug: List_SplitBefore bogus list.  Continuing...'' s)
      else do {
        n2 \<leftarrow> ldNext l2 s;
        s \<leftarrow> (if n2 \<noteq> l2 then List_Clear l2 s else Some s);
        if Curs = NULL then Some s
        else do {
          let pit = MOVEBACK Curs;
          if pit = l1 then do {
            s \<leftarrow> wr l1 (\<lambda>i. i\<lparr>bOK := False\<rparr>) s;
            wr l2 (\<lambda>i. i\<lparr>bOK := False\<rparr>) s
          } else do {
            p \<leftarrow> ldPrev pit s;
            if p = l1 then SwitchLists l2 l1 s
            else do {
              s \<leftarrow> stNext l2 pit s;
              p1 \<leftarrow> ldPrev l1 s;
              s \<leftarrow> stPrev l2 p1 s;
              p \<leftarrow> ldPrev pit s;
              s \<leftarrow> stPrev l1 p s;
              s \<leftarrow> stPrev pit l2 s;
              p2 \<leftarrow> ldPrev l2 s;
              s \<leftarrow> stNext p2 l2 s;
              p1 \<leftarrow> ldPrev l1 s;
              stNext p1 l1 s
            } } } })"

subsection \<open>Checking and repairing\<close>

text \<open>First pass of \<open>List_Check\<close>: mark every item met until a marked one.\<close>

partial_function (option) List_Check_mark :: "ptr \<Rightarrow> 'd lheap \<Rightarrow> (ptr \<times> 'd lheap) option" where
  "List_Check_mark pel s = do {
     p \<leftarrow> rd pel s;
     if \<not> bAnchor p then do {
       s \<leftarrow> wr pel (\<lambda>i. i\<lparr>bAnchor := True\<rparr>) s;
       p \<leftarrow> rd pel s;
       List_Check_mark (pitNext p) s
     } else Some (pel, s)
   }"

text \<open>Second pass: unmark, checking the back pointers.\<close>

partial_function (option) List_Check_unmark ::
  "ptr \<Rightarrow> ptr \<Rightarrow> bool \<Rightarrow> 'd lheap \<Rightarrow> (bool \<times> 'd lheap) option" where
  "List_Check_unmark lst pel ok s = do {
     s \<leftarrow> wr pel (\<lambda>i. i\<lparr>bAnchor := False\<rparr>) s;
     p \<leftarrow> rd pel s;
     n \<leftarrow> rd (pitNext p) s;
     let ok = (ok \<and> pitPrev n = pel);
     if pitNext p \<noteq> lst then List_Check_unmark lst (pitNext p) ok s else Some (ok, s)
   }"

text \<open>The other second pass: only unmark.\<close>

partial_function (option) List_Check_restore :: "ptr \<Rightarrow> 'd lheap \<Rightarrow> 'd lheap option" where
  "List_Check_restore pel s = do {
     p \<leftarrow> rd pel s;
     if bAnchor p then do {
       s \<leftarrow> wr pel (\<lambda>i. i\<lparr>bAnchor := False\<rparr>) s;
       p \<leftarrow> rd pel s;
       List_Check_restore (pitNext p) s
     } else Some s
   }"

definition List_Check :: "ptr \<Rightarrow> 'd lheap \<Rightarrow> (bool \<times> 'd lheap) option" where
  "List_Check lst s =
     (if lst = NULL then Some (False, s)
      else do {
        l \<leftarrow> rd lst s;
        let ok = bAnchor l;
        (pel, s) \<leftarrow> List_Check_mark (pitNext l) s;
        let ok = (ok \<and> pel = lst);
        if ok then do {
          (ok, s) \<leftarrow> List_Check_unmark lst lst ok s;
          s \<leftarrow> wr lst (\<lambda>i. i\<lparr>bAnchor := True\<rparr>) s;
          Some (ok, s)
        } else do {
          l \<leftarrow> rd lst s;
          s \<leftarrow> List_Check_restore (pitNext l) s;
          s \<leftarrow> wr lst (\<lambda>i. i\<lparr>bAnchor := True\<rparr>) s;
          Some (ok, s)
        } })"

text \<open>\<open>List_Recover\<close>: \<open>seen\<close> is the inner loop (has \<open>P->pitNext\<close> been
  passed already?), \<open>scan\<close> the outer one, \<open>relink\<close> the loop that rebuilds the back
  chain.\<close>

partial_function (option) List_Recover_seen ::
  "ptr \<Rightarrow> ptr \<Rightarrow> bool \<Rightarrow> 'd lheap \<Rightarrow> bool option" where
  "List_Recover_seen P Q OK s = do {
     p \<leftarrow> rd P s;
     let OK = (OK \<and> pitNext p \<noteq> Q);
     if Q = P then Some OK
     else do { q \<leftarrow> rd Q s; List_Recover_seen P (pitNext q) OK s }
   }"

partial_function (option) List_Recover_scan ::
  "ptr \<Rightarrow> ptr \<Rightarrow> ptr \<Rightarrow> 'd lheap \<Rightarrow> ptr option" where
  "List_Recover_scan lst P Last s =
     (if P = lst then Some Last
      else do {
        p \<leftarrow> rd P s;
        OK \<leftarrow> (if pitNext p \<noteq> lst then List_Recover_seen P lst True s else Some True);
        if \<not> OK then Some P else List_Recover_scan lst (pitNext p) P s
      })"

partial_function (option) List_Recover_relink ::
  "ptr \<Rightarrow> ptr \<Rightarrow> 'd lheap \<Rightarrow> 'd lheap option" where
  "List_Recover_relink P Last s =
     (if P \<noteq> Last then do {
        p \<leftarrow> rd P s;
        s \<leftarrow> wr (pitNext p) (\<lambda>i. i\<lparr>pitPrev := P\<rparr>) s;
        s \<leftarrow> wr P (\<lambda>i. i\<lparr>bAnchor := False\<rparr>) s;
        p \<leftarrow> rd P s;
        List_Recover_relink (pitNext p) Last s
      } else Some s)"

text \<open>As for \<open>List_Destroy\<close>, \<open>None\<close> is a NULL \<open>plst\<close> and the
  first result is the value left in \<open>*plst\<close>.\<close>

definition List_Recover :: "galloc \<Rightarrow> ptr option \<Rightarrow> 'd lheap \<Rightarrow> (ptr option \<times> 'd lheap) option" where
  "List_Recover ga plst s = (case plst of
     None \<Rightarrow> Some (None, s)
   | Some lst \<Rightarrow>
      (if lst = NULL then do { (l, s) \<leftarrow> List_Create ga s; Some (Some l, s) }
       else do {
         s \<leftarrow> wr lst (\<lambda>i. i\<lparr>bAnchor := True\<rparr>) s;
         l \<leftarrow> rd lst s;
         Last \<leftarrow> List_Recover_scan lst (pitNext l) lst s;
         s \<leftarrow> List_Recover_relink lst Last s;
         s \<leftarrow> wr Last (\<lambda>i. i\<lparr>pitNext := lst\<rparr>) s;
         s \<leftarrow> wr lst (\<lambda>i. i\<lparr>pitPrev := Last\<rparr>) s;
         s \<leftarrow> wr lst (\<lambda>i. i\<lparr>bAnchor := True\<rparr>) s;
         s \<leftarrow> wr lst (\<lambda>i. i\<lparr>bOK := True\<rparr>) s;
         Some (Some lst, s)
       }))"

end
