(* ===== verification/Gutils_List_Alloc.thy ===== *)
theory Gutils_List_Alloc
  imports Gutils_List
begin

text \<open>
  Correctness of the storage allocator of \<open>list.c\<close> (\<open>list\_Alloc\<close>,
  \<open>list\_Free\<close>): the invariant \<open>alloc_ok\<close> over the blocks and the
  ownership map (which block each live item was cut from, and how many bytes), and one lemma for
  each routine.  The lists built on the storage are the subject of
  \<open>Gutils_List_Correct\<close>.
\<close>

subsection \<open>Observers\<close>

text \<open>Fields of the heap seen as partial functions of the address.\<close>

definition nxt :: "'d lheap \<Rightarrow> ptr \<rightharpoonup> ptr" where
  "nxt s a = map_option pitNext (items s a)"
definition prv :: "'d lheap \<Rightarrow> ptr \<rightharpoonup> ptr" where
  "prv s a = map_option pitPrev (items s a)"
definition anc :: "'d lheap \<Rightarrow> ptr \<rightharpoonup> bool" where
  "anc s a = map_option bAnchor (items s a)"
definition dat :: "'d lheap \<Rightarrow> ptr \<rightharpoonup> 'd option" where
  "dat s a = map_option Data (items s a)"
definition okf :: "'d lheap \<Rightarrow> ptr \<rightharpoonup> bool" where
  "okf s a = map_option bOK (items s a)"

definition item_size :: "'d item \<Rightarrow> nat" where
  "item_size i = (if bAnchor i then iAnchorSize else iHeaderSize + iLen i)"

definition own :: "'d lheap \<Rightarrow> ptr \<rightharpoonup> ptr \<times> nat" where
  "own s a = map_option (\<lambda>i. (pBlock i, item_size i)) (items s a)"

lemma items_upd_item [simp]:
  "items (upd_item p f s) = (items s)(p := map_option f (items s p))"
  by (simp add: upd_item_def)

lemma upd_item_other [simp]:
  "blocks (upd_item p f s) = blocks s" "pCurrent (upd_item p f s) = pCurrent s"
  "bInited (upd_item p f s) = bInited s" "critDepth (upd_item p f s) = critDepth s"
  "allocCalls (upd_item p f s) = allocCalls s" "traceLog (upd_item p f s) = traceLog s"
  by (simp_all add: upd_item_def)

lemma obs_upd_item:
  "nxt (upd_item p f s) = (nxt s)(p := map_option (\<lambda>i. pitNext (f i)) (items s p))"
  "prv (upd_item p f s) = (prv s)(p := map_option (\<lambda>i. pitPrev (f i)) (items s p))"
  "anc (upd_item p f s) = (anc s)(p := map_option (\<lambda>i. bAnchor (f i)) (items s p))"
  "dat (upd_item p f s) = (dat s)(p := map_option (\<lambda>i. Data (f i)) (items s p))"
  "okf (upd_item p f s) = (okf s)(p := map_option (\<lambda>i. bOK (f i)) (items s p))"
  "own (upd_item p f s) =
     (own s)(p := map_option (\<lambda>i. (pBlock (f i), item_size (f i))) (items s p))"
  by (auto simp: fun_eq_iff nxt_def prv_def anc_def dat_def okf_def own_def option.map_comp o_def)

lemma wr_eq: "wr p f s = (if items s p = None then None else Some (upd_item p f s))"
  by (auto simp: wr_def split: option.splits)

lemma dom_obs:
  "dom (nxt s) = dom (items s)" "dom (prv s) = dom (items s)" "dom (anc s) = dom (items s)"
  "dom (own s) = dom (items s)" "dom (dat s) = dom (items s)" "dom (okf s) = dom (items s)"
  by (auto simp: nxt_def prv_def anc_def own_def dat_def okf_def)

lemma obs_SomeD:
  "nxt s a = Some v \<Longrightarrow> \<exists>i. items s a = Some i \<and> pitNext i = v"
  "prv s a = Some v \<Longrightarrow> \<exists>i. items s a = Some i \<and> pitPrev i = v"
  "anc s a = Some w \<Longrightarrow> \<exists>i. items s a = Some i \<and> bAnchor i = w"
  "own s a = Some z \<Longrightarrow> \<exists>i. items s a = Some i \<and> pBlock i = fst z \<and> item_size i = snd z"
  by (auto simp: nxt_def prv_def anc_def own_def)

subsection \<open>The invariant of the allocator\<close>

text \<open>Every live item lies inside the used part of the block that owns it, after the header,
  and starts inside the block; two items of a block do not overlap.

  The guard of the code lets an item end one byte past the block, and an item for which a new block is
  opened is not checked at all: \<open>item_fits\<close> is what it ensures.  As items start on word
  boundaries, an item no larger than a block whose size is not one more than a multiple of 4 ends inside
  its block (\<open>fitting\<close>, \<open>item_inside\<close>).\<close>

definition item_fits :: "ptr \<Rightarrow> ptr \<Rightarrow> nat \<Rightarrow> bool" where
  "item_fits b a z \<longleftrightarrow> 4 dvd (a - (b + chData)) \<and> (a = b + chData \<or> a + z \<le> b + sizeof_BLOCK + 1)"

definition fitting :: "nat \<Rightarrow> bool" where
  "fitting z \<longleftrightarrow> z \<le> BLOCKSIZE \<and> z mod 4 \<noteq> 1"

definition placed :: "(ptr \<rightharpoonup> block) \<Rightarrow> (ptr \<rightharpoonup> ptr \<times> nat) \<Rightarrow> bool" where
  "placed bs ow \<longleftrightarrow>
     (\<forall>a b z. ow a = Some (b, z) \<longrightarrow>
        (\<exists>k. bs b = Some k \<and> b + chData \<le> a \<and> a + z \<le> b + chData + iNext k \<and> a < b + sizeof_BLOCK \<and> 0 < z) \<and>
        item_fits b a z) \<and> (\<forall>b k. bs b = Some k \<longrightarrow> 4 dvd iNext k) \<and>
     (\<forall>a b z a' z'. ow a = Some (b, z) \<longrightarrow> ow a' = Some (b, z') \<longrightarrow> a < a' \<longrightarrow> a + z \<le> a')"

lemma placedD:
  assumes "placed bs ow" "ow a = Some (b, z)"
  shows "\<exists>k. bs b = Some k \<and> b + chData \<le> a \<and> a + z \<le> b + chData + iNext k \<and> a < b + sizeof_BLOCK \<and> 0 < z"
    and "item_fits b a z"
  using assms unfolding placed_def by metis+

text \<open>The count of a block is the number of live items cut from it, and no block is kept
  with a count of zero.\<close>

definition uses :: "(ptr \<rightharpoonup> ptr \<times> nat) \<Rightarrow> ptr \<Rightarrow> int" where
  "uses ow b = int (card {a. \<exists>z. ow a = Some (b, z)})"

definition counted :: "(ptr \<rightharpoonup> block) \<Rightarrow> (ptr \<rightharpoonup> ptr \<times> nat) \<Rightarrow> bool" where
  "counted bs ow \<longleftrightarrow> finite (dom ow) \<and>
     (\<forall>b k. bs b = Some k \<longrightarrow>
        uses ow b = iInUse k \<and> 0 < iInUse k)"

text \<open>The blocks are chained both ways; \<open>pCurrent\<close> is NULL or the last of its chain.\<close>

definition nextb :: "(ptr \<rightharpoonup> block) \<Rightarrow> ptr \<rightharpoonup> ptr" where
  "nextb bs b = map_option NextBlock (bs b)"

definition prevb :: "(ptr \<rightharpoonup> block) \<Rightarrow> ptr \<rightharpoonup> ptr" where
  "prevb bs b = map_option PrevBlock (bs b)"

definition linked :: "(ptr \<rightharpoonup> ptr) \<Rightarrow> (ptr \<rightharpoonup> ptr) \<Rightarrow> ptr \<Rightarrow> bool" where
  "linked n p pc \<longleftrightarrow>
     (\<forall>b q. p b = Some q \<longrightarrow> q \<noteq> NULL \<longrightarrow> n q = Some b) \<and>
     (\<forall>b q. n b = Some q \<longrightarrow> q \<noteq> NULL \<longrightarrow> p q = Some b) \<and>
     (pc \<noteq> NULL \<longrightarrow> n pc = Some NULL)"

lemma linkedI:
  assumes "\<And>b q. p b = Some q \<Longrightarrow> q \<noteq> NULL \<Longrightarrow> n q = Some b"
    and "\<And>b q. n b = Some q \<Longrightarrow> q \<noteq> NULL \<Longrightarrow> p q = Some b"
    and "pc \<noteq> NULL \<Longrightarrow> n pc = Some NULL"
  shows "linked n p pc"
  using assms unfolding linked_def by blast

lemma linkedD:
  assumes "linked n p pc"
  shows "p b = Some q \<Longrightarrow> q \<noteq> NULL \<Longrightarrow> n q = Some b"
    and "n b = Some q \<Longrightarrow> q \<noteq> NULL \<Longrightarrow> p q = Some b"
    and "pc \<noteq> NULL \<Longrightarrow> n pc = Some NULL"
  using assms unfolding linked_def by blast+

definition chained :: "(ptr \<rightharpoonup> block) \<Rightarrow> ptr \<Rightarrow> bool" where
  "chained bs pc \<longleftrightarrow> linked (nextb bs) (prevb bs) pc"

lemma nextb_upd [simp]: "nextb (bs(b \<mapsto> k)) = (nextb bs)(b \<mapsto> NextBlock k)"
  and prevb_upd [simp]: "prevb (bs(b \<mapsto> k)) = (prevb bs)(b \<mapsto> PrevBlock k)"
  and nextb_del [simp]: "nextb (bs(b := None)) = (nextb bs)(b := None)"
  and prevb_del [simp]: "prevb (bs(b := None)) = (prevb bs)(b := None)"
  by (auto simp: nextb_def prevb_def)

lemma dom_nextb [simp]: "dom (nextb bs) = dom bs" and dom_prevb [simp]: "dom (prevb bs) = dom bs"
  by (auto simp: nextb_def prevb_def)

definition apart :: "(ptr \<rightharpoonup> block) \<Rightarrow> bool" where
  "apart bs \<longleftrightarrow> bs NULL = None \<and>
     (\<forall>b \<in> dom bs. \<forall>b' \<in> dom bs. b \<noteq> b' \<longrightarrow> b + sizeof_BLOCK \<le> b' \<or> b' + sizeof_BLOCK \<le> b)"

definition alloc_ok :: "(ptr \<rightharpoonup> block) \<Rightarrow> ptr \<Rightarrow> (ptr \<rightharpoonup> ptr \<times> nat) \<Rightarrow> bool" where
  "alloc_ok bs pc ow \<longleftrightarrow> placed bs ow \<and> counted bs ow \<and> chained bs pc \<and> apart bs"

text \<open>What the code relies on from GlobalAlloc: a block it hands out is not NULL and
  overlaps no block in use.\<close>

definition galloc_ok :: "galloc \<Rightarrow> bool" where
  "galloc_ok ga \<longleftrightarrow> (\<forall>n bs h p. ga n bs = GMem h p \<longrightarrow> p \<noteq> NULL \<and>
     (\<forall>b \<in> dom bs. p + sizeof_BLOCK \<le> b \<or> b + sizeof_BLOCK \<le> p))"

lemmas size_defs = sizeof_BLOCK_def BLOCKSIZE_def chData_def iAnchorSize_def iHeaderSize_def

lemma sizeof_pos [simp]: "0 < sizeof_BLOCK"
  by (simp add: size_defs)

lemma alloc_ok_blockD:
  assumes "alloc_ok bs pc ow" "bs b = Some k"
  shows "b \<noteq> NULL" "uses ow b = iInUse k" "0 < iInUse k"
proof -
  show "uses ow b = iInUse k" "0 < iInUse k"
    using assms by (auto simp: alloc_ok_def counted_def)
  show "b \<noteq> NULL" using assms unfolding alloc_ok_def apart_def by (metis option.distinct(1))
qed

lemma owned_finite: "finite (dom ow) \<Longrightarrow> finite {a. \<exists>z. ow a = Some (b, z)}"
  by (rule finite_subset [of _ "dom ow"]) auto

lemma uses_upd:
  assumes "finite (dom ow)" "ow n = None"
  shows "uses (ow(n \<mapsto> (c, y))) b = uses ow b + (if b = c then 1 else 0)"
proof -
  have "{a. \<exists>z. (ow(n \<mapsto> (c, y))) a = Some (b, z)} =
      (if b = c then insert n {a. \<exists>z. ow a = Some (b, z)} else {a. \<exists>z. ow a = Some (b, z)})"
    using assms(2) by auto
  then show ?thesis using assms owned_finite [of ow b] by (auto simp: uses_def)
qed

lemma uses_del:
  assumes "finite (dom ow)" "ow n = Some (c, y)"
  shows "uses (ow(n := None)) b = uses ow b - (if b = c then 1 else 0)"
proof -
  have "uses ((ow(n := None))(n \<mapsto> (c, y))) b = uses (ow(n := None)) b + (if b = c then 1 else 0)"
    by (rule uses_upd) (use assms in auto)
  moreover have "(ow(n := None))(n \<mapsto> (c, y)) = ow" using assms(2) by auto
  ultimately show ?thesis by simp
qed

lemma uses_0: "finite (dom ow) \<Longrightarrow> uses ow b = 0 \<Longrightarrow> ow a \<noteq> Some (b, z)"
  using owned_finite [of ow b] by (auto simp: uses_def)

text \<open>Where the items end, and that they overlap no other item, of whatever block.\<close>

lemma item_inside:
  assumes "alloc_ok bs pc ow" "ow a = Some (b, z)" "z \<le> BLOCKSIZE"
  shows "b + chData \<le> a" "a + z \<le> b + sizeof_BLOCK + 1" "fitting z \<Longrightarrow> a + z \<le> b + sizeof_BLOCK"
proof -
  have P: "placed bs ow" using assms(1) by (simp add: alloc_ok_def)
  show le: "b + chData \<le> a" using placedD(1) [OF P assms(2)] by blast
  have f: "item_fits b a z" by (rule placedD(2) [OF P assms(2)])
  then show "a + z \<le> b + sizeof_BLOCK + 1" using assms(3) by (auto simp: item_fits_def size_defs)
  assume z: "fitting z"
  obtain i where i: "a = b + chData + i" using le le_Suc_ex by blast
  then have "4 dvd i" "i = 0 \<or> i + z \<le> BLOCKSIZE + 1" using f by (auto simp: item_fits_def sizeof_BLOCK_def)
  then have "i + z \<le> BLOCKSIZE" using z unfolding fitting_def BLOCKSIZE_def by presburger
  then show "a + z \<le> b + sizeof_BLOCK" by (simp add: i sizeof_BLOCK_def)
qed

lemma items_disjoint:
  assumes ok: "alloc_ok bs pc ow" and o: "ow a = Some (b, z)" "ow a' = Some (b', z')" "a \<noteq> a'" and z: "fitting z" "fitting z'"
  shows "a + z \<le> a' \<or> a' + z' \<le> a"
proof (cases "b = b'")
  case True
  then have "a < a' \<Longrightarrow> a + z \<le> a'" "a' < a \<Longrightarrow> a' + z' \<le> a"
    using ok o(1,2) unfolding alloc_ok_def placed_def by blast+
  then show ?thesis using o(3) by linarith
next
  case False
  have P: "placed bs ow" using ok by (simp add: alloc_ok_def)
  have "bs b \<noteq> None" "bs b' \<noteq> None" using placedD(1) [OF P o(1)] placedD(1) [OF P o(2)] by auto
  then have "b + sizeof_BLOCK \<le> b' \<or> b' + sizeof_BLOCK \<le> b" using ok False unfolding alloc_ok_def apart_def by blast
  moreover have "b \<le> a" "a + z \<le> b + sizeof_BLOCK" "b' \<le> a'" "a' + z' \<le> b' + sizeof_BLOCK"
    using item_inside [OF ok o(1)] item_inside [OF ok o(2)] z by (simp_all add: fitting_def)
  ultimately show ?thesis by linarith
qed

subsection \<open>Carving an item out of a block\<close>

text \<open>The state between opening a block and cutting the first item from it: the count of
  \<open>pc\<close> may be 0.\<close>

definition opened :: "(ptr \<rightharpoonup> block) \<Rightarrow> ptr \<Rightarrow> (ptr \<rightharpoonup> ptr \<times> nat) \<Rightarrow> bool" where
  "opened bs pc ow \<longleftrightarrow> placed bs ow \<and> chained bs pc \<and> apart bs \<and> finite (dom ow) \<and>
     (\<forall>b k. bs b = Some k \<longrightarrow>
        uses ow b = iInUse k \<and> (b \<noteq> pc \<longrightarrow> 0 < iInUse k))"

lemma alloc_ok_opened: "alloc_ok bs pc ow \<Longrightarrow> opened bs pc ow"
  unfolding alloc_ok_def opened_def counted_def by blast

lemma carve_fresh:
  assumes ok: "opened bs pc ow" and k: "bs pc = Some k" and room: "iNext k < BLOCKSIZE"
  shows "ow (pc + chData + iNext k) = None"
proof (rule ccontr)
  let ?a = "pc + chData + iNext k"
  assume "\<not> ow ?a = None"
  then obtain b z where z: "ow ?a = Some (b, z)" by auto
  with ok obtain kb where kb: "bs b = Some kb" "b + chData \<le> ?a" "?a + z \<le> b + chData + iNext kb"
    "?a < b + sizeof_BLOCK" "0 < z"
    unfolding opened_def placed_def by blast
  show False
  proof (cases "b = pc")
    case True
    with kb k show False by simp
  next
    case False
    with ok k kb(1) have "b + sizeof_BLOCK \<le> pc \<or> pc + sizeof_BLOCK \<le> b"
      unfolding opened_def apart_def by blast
    with kb(2,4) room show False by (auto simp: size_defs)
  qed
qed

lemma carve_placed:
  assumes ok: "placed bs ow" and k: "bs pc = Some k" and room: "iNext k < BLOCKSIZE"
    and fit: "iNext k = 0 \<or> iNext k + cb \<le> BLOCKSIZE + 1"
    and cb: "0 < cb" and n: "iNext k + cb \<le> iNext k'" "4 dvd iNext k'"
  shows "placed (bs(pc \<mapsto> k')) (ow(pc + chData + iNext k \<mapsto> (pc, cb)))"
proof -
  let ?a = "pc + chData + iNext k"
  have old: "\<exists>k. bs b = Some k \<and> b + chData \<le> a \<and> a + z \<le> b + chData + iNext k \<and> a < b + sizeof_BLOCK \<and> 0 < z"
    if "ow a = Some (b, z)" for a b z using ok that unfolding placed_def by blast
  have sep: "a + z \<le> a'" if "ow a = Some (b, z)" "ow a' = Some (b, z')" "a < a'" for a b z a' z'
    using ok that unfolding placed_def by blast
  have below: "a + z \<le> ?a" if "ow a = Some (pc, z)" for a z
    using old [OF that] k by auto
  have 1: "\<exists>q. (bs(pc \<mapsto> k')) b = Some q \<and> b + chData \<le> a \<and> a + z \<le> b + chData + iNext q \<and>
      a < b + sizeof_BLOCK \<and> 0 < z"
    if a: "(ow(?a \<mapsto> (pc, cb))) a = Some (b, z)" for a b z
  proof (cases "a = ?a")
    case True
    with a n cb room show ?thesis by (auto simp: size_defs)
  next
    case False
    with a have "ow a = Some (b, z)" by simp
    from old [OF this] n k cb show ?thesis by (cases "b = pc") auto
  qed
  have 2: "a + z \<le> a'"
    if "(ow(?a \<mapsto> (pc, cb))) a = Some (b, z)" "(ow(?a \<mapsto> (pc, cb))) a' = Some (b, z')" "a < a'"
    for a b z a' z'
    using that sep below by (fastforce split: if_splits)
  have f: "item_fits pc ?a cb" using fit ok k unfolding item_fits_def placed_def by (auto simp: size_defs)
  have 3: "item_fits b a z" if "(ow(?a \<mapsto> (pc, cb))) a = Some (b, z)" for a b z
  proof (cases "a = ?a")
    case True
    then show ?thesis using f that by simp
  next
    case False
    then show ?thesis using that ok unfolding placed_def by simp
  qed
  have 4: "4 dvd iNext q" if "(bs(pc \<mapsto> k')) b = Some q" for b q
    using that n(2) ok unfolding placed_def by (auto split: if_splits)
  show ?thesis unfolding placed_def using 1 2 3 4 by blast
qed

lemma chained_upd:
  assumes "chained bs pc" "bs b = Some k" "NextBlock k' = NextBlock k" "PrevBlock k' = PrevBlock k"
  shows "chained (bs(b \<mapsto> k')) pc"
proof -
  have "nextb (bs(b \<mapsto> k')) = nextb bs" "prevb (bs(b \<mapsto> k')) = prevb bs"
    using assms by (auto simp: nextb_def prevb_def)
  with assms(1) show ?thesis by (simp add: chained_def)
qed

lemma apart_upd:
  assumes "apart bs" "bs b = Some k"
  shows "apart (bs(b \<mapsto> k'))"
proof -
  have "dom (bs(b \<mapsto> k')) = dom bs" using assms(2) by auto
  moreover have "b \<noteq> NULL" using assms unfolding apart_def by (metis option.distinct(1))
  ultimately show ?thesis using assms(1) by (simp add: apart_def)
qed

lemma carve_ok:
  assumes ok: "opened bs pc ow" and k: "bs pc = Some k" and room: "iNext k < BLOCKSIZE"
    and fit: "iNext k = 0 \<or> iNext k + cb \<le> BLOCKSIZE + 1"
    and cb: "0 < cb" and k': "k' = k\<lparr>iInUse := iInUse k + 1, iNext := (iNext k + cb + 3) div 4 * 4\<rparr>"
  shows "alloc_ok (bs(pc \<mapsto> k')) pc (ow(pc + chData + iNext k \<mapsto> (pc, cb)))"
proof -
  let ?a = "pc + chData + iNext k" and ?bs = "bs(pc \<mapsto> k')"
  have fresh: "ow ?a = None" using carve_fresh [OF ok k room] .
  have fin: "finite (dom ow)" using ok by (simp add: opened_def)
  have U: "uses ow b = iInUse q" "b \<noteq> pc \<Longrightarrow> 0 < iInUse q" if "bs b = Some q" for b q
    using ok that unfolding opened_def by blast+
  have "0 \<le> iInUse k" using U(1) [OF k] by (simp add: uses_def flip: U(1) [OF k])
  have "placed ?bs (ow(?a \<mapsto> (pc, cb)))"
    by (rule carve_placed) (use ok k room fit cb k' round_up_ge in \<open>auto simp: opened_def\<close>)
  moreover have "chained ?bs pc"
    by (rule chained_upd [where k = k]) (use ok k k' in \<open>auto simp: opened_def\<close>)
  moreover have "apart ?bs"
    by (rule apart_upd) (use ok k in \<open>auto simp: opened_def\<close>)
  moreover have "counted ?bs (ow(?a \<mapsto> (pc, cb)))"
    unfolding counted_def uses_upd [OF fin fresh]
    using k k' fin U \<open>0 \<le> iInUse k\<close> by (auto split: if_splits)
  ultimately show ?thesis by (simp add: alloc_ok_def)
qed

subsection \<open>Opening a new block\<close>

definition new_block :: "nat \<Rightarrow> ptr \<Rightarrow> block" where
  "new_block hm pb = \<lparr>PrevBlock = pb, NextBlock = NULL, hMem = hm, iInUse = 0, iNext = 0\<rparr>"

definition chain_block :: "nat \<Rightarrow> ptr \<Rightarrow> ptr \<Rightarrow> (ptr \<rightharpoonup> block) \<Rightarrow> (ptr \<rightharpoonup> block)" where
  "chain_block hm p pb bs = (let bs' = bs(p \<mapsto> new_block hm pb) in
     if pb = NULL then bs' else bs'(pb := map_option (\<lambda>b. b\<lparr>NextBlock := p\<rparr>) (bs' pb)))"

lemma linked_snoc:
  assumes L: "linked n q pc" and N: "n p = None" "q p = None" and N0: "n NULL = None" "q NULL = None"
    and p: "p \<noteq> NULL"
  shows "linked (if pc = NULL then n(p \<mapsto> NULL) else n(p \<mapsto> NULL, pc \<mapsto> p)) (q(p \<mapsto> pc)) p"
proof (cases "pc = NULL")
  case True
  have "linked (n(p \<mapsto> NULL)) (q(p \<mapsto> pc)) p"
  proof (rule linkedI)
    fix b c assume c: "(q(p \<mapsto> pc)) b = Some c" "c \<noteq> NULL"
    with True N N0 linkedD(1) [OF L, of b c] show "(n(p \<mapsto> NULL)) c = Some b"
      by (cases "b = p"; cases "c = p") auto
  next
    fix b c assume c: "(n(p \<mapsto> NULL)) b = Some c" "c \<noteq> NULL"
    with N N0 linkedD(2) [OF L, of b c] show "(q(p \<mapsto> pc)) c = Some b"
      by (cases "b = p"; cases "c = p") auto
  qed simp
  with True show ?thesis by simp
next
  case False
  then have pc: "n pc = Some NULL" "pc \<noteq> p" using linkedD(3) [OF L] N by auto
  have "linked (n(p \<mapsto> NULL, pc \<mapsto> p)) (q(p \<mapsto> pc)) p"
  proof (rule linkedI)
    fix b c assume c: "(q(p \<mapsto> pc)) b = Some c" "c \<noteq> NULL"
    with pc N N0 linkedD(1) [OF L, of b c] show "(n(p \<mapsto> NULL, pc \<mapsto> p)) c = Some b"
      by (cases "b = p"; cases "c = p"; cases "c = pc") auto
  next
    fix b c assume c: "(n(p \<mapsto> NULL, pc \<mapsto> p)) b = Some c" "c \<noteq> NULL"
    with pc N N0 linkedD(2) [OF L, of b c] show "(q(p \<mapsto> pc)) c = Some b"
      by (cases "b = p"; cases "c = p"; cases "b = pc") auto
  qed (use pc in simp)
  with False show ?thesis by simp
qed

lemma chain_block_ok:
  assumes ok: "alloc_ok bs pc ow" and p: "p \<noteq> NULL"
    and fresh: "\<forall>b \<in> dom bs. p + sizeof_BLOCK \<le> b \<or> b + sizeof_BLOCK \<le> p"
  shows "opened (chain_block hm p pc bs) p ow" "chain_block hm p pc bs p = Some (new_block hm pc)"
proof -
  have pN: "bs p = None" using fresh sizeof_pos by (metis domIff leD le_add1 less_add_same_cancel1)
  have pc: "pc \<noteq> NULL \<Longrightarrow> (\<exists>k. bs pc = Some k \<and> NextBlock k = NULL)"
    using ok by (auto simp: alloc_ok_def chained_def linked_def nextb_def)
  with pN have ne: "pc \<noteq> NULL \<Longrightarrow> pc \<noteq> p" by auto
  have b0: "bs NULL = None" using ok by (simp add: alloc_ok_def apart_def)
  let ?bs = "chain_block hm p pc bs"
  have at_p: "?bs p = Some (new_block hm pc)"
    using ne by (auto simp: chain_block_def Let_def)
  then show "?bs p = Some (new_block hm pc)" .
  have at: "?bs b = map_option (\<lambda>k. if b = pc then k\<lparr>NextBlock := p\<rparr> else k) (bs b)" if "b \<noteq> p" for b
    using that b0 by (auto simp: chain_block_def Let_def option.map_ident)
  have dom: "dom ?bs = insert p (dom bs)"
    using at at_p by (force simp: dom_def)
  have atD: "\<exists>k0. bs b = Some k0 \<and> iInUse k = iInUse k0 \<and> iNext k = iNext k0 \<and> PrevBlock k = PrevBlock k0"
    if "?bs b = Some k" "b \<noteq> p" for b k
    using that at [of b] by (auto split: if_splits)
  have no_own: "ow a \<noteq> Some (p, z)" for a z
    using ok pN unfolding alloc_ok_def placed_def by (metis option.distinct(1))
  then have none: "uses ow p = 0" by (simp add: uses_def)
  have "placed ?bs ow"
  proof -
    have "\<exists>k. ?bs b = Some k \<and> b + chData \<le> a \<and> a + z \<le> b + chData + iNext k \<and> a < b + sizeof_BLOCK \<and> 0 < z"
      if "ow a = Some (b, z)" for a b z
    proof -
      from that no_own have "b \<noteq> p" by auto
      moreover from that ok obtain k where "bs b = Some k" "b + chData \<le> a"
        "a + z \<le> b + chData + iNext k" "a < b + sizeof_BLOCK" "0 < z"
        unfolding alloc_ok_def placed_def by blast
      ultimately show ?thesis using at [of b] by auto
    qed
    moreover have "4 dvd iNext k" if "?bs b = Some k" for b k
    proof (cases "b = p")
      case True
      then show ?thesis using that at_p by (auto simp: new_block_def)
    next
      case False
      from atD [OF that this] show ?thesis using ok unfolding alloc_ok_def placed_def by metis
    qed
    ultimately show ?thesis using ok unfolding alloc_ok_def placed_def by blast
  qed
  moreover have "chained ?bs p"
  proof -
    have L: "linked (nextb bs) (prevb bs) pc"
      using ok by (simp add: alloc_ok_def chained_def)
    have n: "nextb ?bs = (if pc = NULL then (nextb bs)(p \<mapsto> NULL) else (nextb bs)(p \<mapsto> NULL, pc \<mapsto> p))"
      using pc pN by (auto simp: chain_block_def Let_def new_block_def nextb_def fun_eq_iff)
    have q: "prevb ?bs = (prevb bs)(p \<mapsto> pc)"
      using pc pN by (auto simp: chain_block_def Let_def new_block_def prevb_def fun_eq_iff)
    have N: "nextb bs p = None" "prevb bs p = None" using pN by (auto simp: nextb_def prevb_def)
    have N0: "nextb bs NULL = None" "prevb bs NULL = None" using b0 by (auto simp: nextb_def prevb_def)
    show ?thesis unfolding chained_def n q by (rule linked_snoc [OF L N N0 p])
  qed
  moreover have "apart ?bs"
    using ok fresh p b0 at [of NULL] unfolding alloc_ok_def apart_def dom by auto
  moreover have "uses ow b = iInUse k \<and> (b \<noteq> p \<longrightarrow> 0 < iInUse k)"
    if "?bs b = Some k" for b k
  proof (cases "b = p")
    case True
    with that at_p have "k = new_block hm pc" by simp
    with True none show ?thesis by (simp add: new_block_def)
  next
    case False
    from atD [OF that this] obtain k0 where "bs b = Some k0" "iInUse k = iInUse k0" by auto
    then show ?thesis using alloc_ok_blockD [OF ok] by metis
  qed
  moreover have "finite (dom ow)" using ok by (simp add: alloc_ok_def counted_def)
  ultimately show "opened ?bs p ow" unfolding opened_def by blast
qed

subsection \<open>\<open>list_Alloc\<close>\<close>

abbreviation heap_ok :: "'d lheap \<Rightarrow> bool" where
  "heap_ok s \<equiv> alloc_ok (blocks s) (pCurrent s) (own s)"

text \<open>The carving half of \<open>list_Alloc\<close>, once a block with room is current.\<close>

definition carve :: "nat \<Rightarrow> block \<Rightarrow> 'd lheap \<Rightarrow> ptr \<times> 'd lheap" where
  "carve cb pc s = (let pRet = pCurrent s + chData + iNext pc in
     (pRet, s\<lparr>blocks := (blocks s)(pCurrent s \<mapsto>
                 pc\<lparr>iInUse := iInUse pc + 1, iNext := (iNext pc + cb + 3) div 4 * 4\<rparr>),
              items := (items s)(pRet \<mapsto> zero_item)\<rparr>))"

lemma list_Alloc_room:
  assumes "pCurrent s \<noteq> NULL" "blocks s (pCurrent s) = Some pc" "iNext pc + cb \<le> BLOCKSIZE + 1"
  shows "list_Alloc ga cb s = Some (carve cb pc (EnterCriticalSection s))"
  using assms by (simp add: list_Alloc_def carve_def EnterCriticalSection_def Let_def)

lemma list_Alloc_new:
  assumes full: "pCurrent s = NULL \<or>
      (\<exists>pc. blocks s (pCurrent s) = Some pc \<and> BLOCKSIZE + 1 < iNext pc + cb)"
    and g: "ga (allocCalls s) (blocks s) = GMem hm p" and p: "p \<noteq> pCurrent s"
  shows "list_Alloc ga cb s = Some (carve cb (new_block hm (pCurrent s))
     (s\<lparr>critDepth := critDepth s + 1, pCurrent := p,
        blocks := chain_block hm p (pCurrent s) (blocks s), allocCalls := Suc (allocCalls s)\<rparr>))"
proof (cases "pCurrent s = NULL")
  case True
  then show ?thesis
    by (simp add: list_Alloc_def g carve_def EnterCriticalSection_def Let_def chain_block_def
        new_block_def)
next
  case False
  with full obtain pc where "blocks s (pCurrent s) = Some pc" "BLOCKSIZE + 1 < iNext pc + cb"
    by auto
  with False p g show ?thesis
    by (simp add: list_Alloc_def carve_def EnterCriticalSection_def Let_def chain_block_def
        new_block_def)
qed

lemma list_Alloc_fail:
  assumes full: "pCurrent s = NULL \<or>
      (\<exists>pc. blocks s (pCurrent s) = Some pc \<and> BLOCKSIZE + 1 < iNext pc + cb)"
    and g: "\<And>h p. ga (allocCalls s) (blocks s) \<noteq> GMem h p"
  shows "list_Alloc ga cb s =
    Some (NULL, s\<lparr>critDepth := critDepth s + 1, pCurrent := NULL, allocCalls := Suc (allocCalls s)\<rparr>)"
  using assms
  by (cases "ga (allocCalls s) (blocks s)") (auto simp: list_Alloc_def EnterCriticalSection_def Let_def)

text \<open>What a successful and a failed allocation of \<open>cb\<close> bytes do to the heap.\<close>

definition allocated :: "nat \<Rightarrow> 'd lheap \<Rightarrow> ptr \<Rightarrow> 'd lheap \<Rightarrow> bool" where
  "allocated cb s p s' \<longleftrightarrow> p \<noteq> NULL \<and> items s p = None \<and> items s' = (items s)(p \<mapsto> zero_item) \<and>
     alloc_ok (blocks s') (pCurrent s') ((own s)(p \<mapsto> (pCurrent s', cb))) \<and>
     critDepth s' = critDepth s + 1 \<and> bInited s' = bInited s \<and> traceLog s' = traceLog s"

definition alloc_failed :: "'d lheap \<Rightarrow> 'd lheap \<Rightarrow> bool" where
  "alloc_failed s s' \<longleftrightarrow> s' = s\<lparr>critDepth := critDepth s + 1, pCurrent := NULL,
     allocCalls := Suc (allocCalls s)\<rparr>"

lemma own_None [simp]: "own s p = None \<longleftrightarrow> items s p = None"
  by (simp add: own_def)

lemma carve_allocated:
  assumes ok: "opened (blocks s) (pCurrent s) (own s)" and k: "blocks s (pCurrent s) = Some pc"
    and room: "iNext pc < BLOCKSIZE" and fit: "iNext pc = 0 \<or> iNext pc + cb \<le> BLOCKSIZE + 1" and cb: "0 < cb"
  shows "\<exists>p s'. carve cb pc s = (p, s') \<and> p \<noteq> NULL \<and> items s p = None \<and>
    items s' = (items s)(p \<mapsto> zero_item) \<and>
    alloc_ok (blocks s') (pCurrent s') ((own s)(p \<mapsto> (pCurrent s', cb))) \<and>
    critDepth s' = critDepth s \<and> bInited s' = bInited s \<and> traceLog s' = traceLog s"
  using carve_ok [OF ok k room fit cb refl] carve_fresh [OF ok k room]
  by (simp add: carve_def Let_def chData_def)

lemma own_cong: "items s = items s' \<Longrightarrow> own s = own s'"
  by (auto simp: own_def fun_eq_iff)

lemma list_Alloc_spec:
  assumes ok: "heap_ok s" and ga: "galloc_ok ga" and cb: "iAnchorSize \<le> cb"
  shows "\<exists>p s'. list_Alloc ga cb s = Some (p, s') \<and>
    (p \<noteq> NULL \<and> allocated cb s p s' \<or> p = NULL \<and> alloc_failed s s')"
proof -
  let ?pc = "pCurrent s"
  have cur: "\<exists>k. blocks s ?pc = Some k" if "?pc \<noteq> NULL"
    using ok that linkedD(3) [of "nextb (blocks s)" "prevb (blocks s)" ?pc]
    by (auto simp: alloc_ok_def chained_def nextb_def)
  have cb0: "0 < cb" using cb by (simp add: iAnchorSize_def)
  show ?thesis
  proof (cases "?pc = NULL \<or> (\<exists>pc. blocks s ?pc = Some pc \<and> BLOCKSIZE + 1 < iNext pc + cb)")
    case False
    with cur obtain pc where pc: "?pc \<noteq> NULL" "blocks s ?pc = Some pc" "iNext pc + cb \<le> BLOCKSIZE + 1"
      by (metis leI)
    let ?s = "EnterCriticalSection s"
    have s: "blocks ?s = blocks s" "pCurrent ?s = pCurrent s" "items ?s = items s" "own ?s = own s"
      by (simp_all add: EnterCriticalSection_def own_def fun_eq_iff)
    have "iNext pc < BLOCKSIZE" using pc(3) cb by (simp add: size_defs)
    from carve_allocated [of ?s pc cb, unfolded s, OF alloc_ok_opened [OF ok] pc(2) this disjI2 [OF pc(3)] cb0]
    show ?thesis
      unfolding list_Alloc_room [OF pc] allocated_def
      by (auto simp: EnterCriticalSection_def)
  next
    case full: True
    show ?thesis
    proof (cases "\<exists>h p. ga (allocCalls s) (blocks s) = GMem h p")
      case False
      then show ?thesis
        unfolding alloc_failed_def using list_Alloc_fail [OF full] by (metis (no_types, lifting))
    next
      case True
      then obtain hm p where g: "ga (allocCalls s) (blocks s) = GMem hm p" by auto
      with ga have p: "p \<noteq> NULL" and fr: "\<forall>b\<in>dom (blocks s). p + sizeof_BLOCK \<le> b \<or> b + sizeof_BLOCK \<le> p"
        unfolding galloc_ok_def by blast+
      have "p \<noteq> ?pc" using cur p fr sizeof_pos
        by (metis domI leD le_add1 less_add_same_cancel1)
      note A = list_Alloc_new [where s = s and ga = ga and cb = cb and hm = hm and p = p, OF full g this]
      let ?s = "s\<lparr>critDepth := critDepth s + 1, pCurrent := p,
        blocks := chain_block hm p (pCurrent s) (blocks s), allocCalls := Suc (allocCalls s)\<rparr>"
      have s: "blocks ?s = chain_block hm p (pCurrent s) (blocks s)" "pCurrent ?s = p"
        "items ?s = items s" "own ?s = own s"
        by (simp_all add: own_def fun_eq_iff)
      note O = chain_block_ok [OF ok p fr]
      have "iNext (new_block hm ?pc) < BLOCKSIZE" "iNext (new_block hm ?pc) = 0 \<or> iNext (new_block hm ?pc) + cb \<le> BLOCKSIZE + 1"
        by (simp_all add: new_block_def BLOCKSIZE_def)
      from carve_allocated [of ?s "new_block hm ?pc" cb, unfolded s, OF O this cb0]
      show ?thesis unfolding A allocated_def by auto
    qed
  qed
qed

text \<open>Where the memory lies that an allocation hands out.\<close>

lemma allocated_where:
  assumes A: "allocated cb s p s'" and cb: "cb \<le> BLOCKSIZE"
  shows "pCurrent s' + chData \<le> p" "p + cb \<le> pCurrent s' + sizeof_BLOCK + 1"
    "fitting cb \<Longrightarrow> p + cb \<le> pCurrent s' + sizeof_BLOCK"
    "fitting cb \<Longrightarrow> own s a = Some (b, z) \<Longrightarrow> fitting z \<Longrightarrow> p + cb \<le> a \<or> a + z \<le> p"
proof -
  let ?ow = "(own s)(p \<mapsto> (pCurrent s', cb))"
  have ok: "alloc_ok (blocks s') (pCurrent s') ?ow" and p: "own s p = None" using A by (simp_all add: allocated_def)
  have o: "?ow p = Some (pCurrent s', cb)" by simp
  note I = item_inside [OF ok o cb]
  show "pCurrent s' + chData \<le> p" "p + cb \<le> pCurrent s' + sizeof_BLOCK + 1"
    "fitting cb \<Longrightarrow> p + cb \<le> pCurrent s' + sizeof_BLOCK" using I .
  assume z: "fitting cb" "own s a = Some (b, z)" "fitting z"
  have "p \<noteq> a" using p z(2) by (metis option.distinct(1))
  then have "?ow a = Some (b, z)" using z(2) by simp
  from items_disjoint [OF ok o this \<open>p \<noteq> a\<close> z(1,3)] show "p + cb \<le> a \<or> a + z \<le> p" .
qed

subsection \<open>\<open>list_Free\<close>\<close>

text \<open>The block map once block \<open>b\<close> is unchained and freed.\<close>

definition relink :: "ptr \<Rightarrow> block \<Rightarrow> block \<Rightarrow> block" where
  "relink x k q = q\<lparr>
     NextBlock := (if x = PrevBlock k \<and> PrevBlock k \<noteq> NULL then NextBlock k else NextBlock q),
     PrevBlock := (if x = NextBlock k \<and> NextBlock k \<noteq> NULL then PrevBlock k else PrevBlock q)\<rparr>"

definition unchain :: "ptr \<Rightarrow> block \<Rightarrow> (ptr \<rightharpoonup> block) \<Rightarrow> (ptr \<rightharpoonup> block)" where
  "unchain b k bs x = (if x = b then None else map_option (relink x k) (bs x))"

lemma linked_remove:
  assumes L: "linked n q pc" and b: "n b = Some nb" "q b = Some pb" "b \<noteq> NULL"
    and N0: "n NULL = None" "q NULL = None"
  shows "linked (\<lambda>x. if x = b then None else if x = pb \<and> pb \<noteq> NULL then Some nb else n x)
    (\<lambda>x. if x = b then None else if x = nb \<and> nb \<noteq> NULL then Some pb else q x)
    (if pc = b then pb else pc)"
proof (rule linkedI)
  fix x y
  assume *: "(if x = b then None else if x = nb \<and> nb \<noteq> NULL then Some pb else q x) = Some y" "y \<noteq> NULL"
  then have x: "x \<noteq> b" by auto
  show "(if y = b then None else if y = pb \<and> pb \<noteq> NULL then Some nb else n y) = Some x"
  proof (cases "x = nb \<and> nb \<noteq> NULL")
    case True
    with * x have "y = pb" by simp
    moreover have "pb \<noteq> b" using True x b linkedD(1) [OF L b(2)] by auto
    ultimately show ?thesis using * True by simp
  next
    case False
    with * x have qx: "q x = Some y" by (auto split: if_splits)
    then have ny: "n y = Some x" using linkedD(1) [OF L] * by blast
    have x0: "x \<noteq> NULL" using qx N0 by auto
    have "y \<noteq> b" using ny b False x0 by auto
    moreover have "y = pb \<Longrightarrow> False" using ny linkedD(1) [OF L b(2)] * x by auto
    ultimately show ?thesis using ny by auto
  qed
next
  fix x y
  assume *: "(if x = b then None else if x = pb \<and> pb \<noteq> NULL then Some nb else n x) = Some y" "y \<noteq> NULL"
  then have x: "x \<noteq> b" by auto
  show "(if y = b then None else if y = nb \<and> nb \<noteq> NULL then Some pb else q y) = Some x"
  proof (cases "x = pb \<and> pb \<noteq> NULL")
    case True
    with * x have "y = nb" by simp
    moreover have "nb \<noteq> b" using True x b linkedD(2) [OF L b(1)] by auto
    ultimately show ?thesis using * True by simp
  next
    case False
    with * x have nx: "n x = Some y" by (auto split: if_splits)
    then have qy: "q y = Some x" using linkedD(2) [OF L] * by blast
    have x0: "x \<noteq> NULL" using nx N0 by auto
    have "y \<noteq> b" using qy b False x0 by auto
    moreover have "y = nb \<Longrightarrow> False" using qy linkedD(2) [OF L b(1)] * x by auto
    ultimately show ?thesis using qy by auto
  qed
next
  assume pc: "(if pc = b then pb else pc) \<noteq> NULL"
  show "(if (if pc = b then pb else pc) = b then None
     else if (if pc = b then pb else pc) = pb \<and> pb \<noteq> NULL then Some nb
     else n (if pc = b then pb else pc)) = Some NULL"
  proof (cases "pc = b")
    case True
    then have "nb = NULL" using linkedD(3) [OF L] b by auto
    moreover have "pb \<noteq> b" using pc True b linkedD(1) [OF L b(2)] \<open>nb = NULL\<close> by auto
    ultimately show ?thesis using pc True by simp
  next
    case False
    then have n: "n pc = Some NULL" using linkedD(3) [OF L] pc by simp
    have "pc \<noteq> pb" using n linkedD(1) [OF L b(2)] b(3) pc False by auto
    with n False show ?thesis by simp
  qed
qed

lemma relink_simps [simp]:
  "iInUse (relink x k q) = iInUse q" "iNext (relink x k q) = iNext q"
  "NextBlock (relink x k q) = (if x = PrevBlock k \<and> PrevBlock k \<noteq> NULL then NextBlock k else NextBlock q)"
  "PrevBlock (relink x k q) = (if x = NextBlock k \<and> NextBlock k \<noteq> NULL then PrevBlock k else PrevBlock q)"
  by (simp_all add: relink_def)

lemma unchain_SomeD:
  "unchain b k bs x = Some q \<Longrightarrow> x \<noteq> b \<and> (\<exists>q0. bs x = Some q0 \<and> q = relink x k q0)"
  by (cases "bs x") (simp_all add: unchain_def split: if_splits)

lemma unchain_SomeI: "x \<noteq> b \<Longrightarrow> bs x = Some q0 \<Longrightarrow> unchain b k bs x = Some (relink x k q0)"
  by (simp add: unchain_def)

lemma dom_unchain: "dom (unchain b k bs) = dom bs - {b}"
  by (auto dest: unchain_SomeD intro: unchain_SomeI)

lemma unchain_links:
  assumes "PrevBlock k \<noteq> NULL \<Longrightarrow> bs (PrevBlock k) \<noteq> None"
    and "NextBlock k \<noteq> NULL \<Longrightarrow> bs (NextBlock k) \<noteq> None"
  shows "nextb (unchain b k bs) = (\<lambda>x. if x = b then None
      else if x = PrevBlock k \<and> PrevBlock k \<noteq> NULL then Some (NextBlock k) else nextb bs x)"
    and "prevb (unchain b k bs) = (\<lambda>x. if x = b then None
      else if x = NextBlock k \<and> NextBlock k \<noteq> NULL then Some (PrevBlock k) else prevb bs x)"
proof -
  show "nextb (unchain b k bs) = (\<lambda>x. if x = b then None
      else if x = PrevBlock k \<and> PrevBlock k \<noteq> NULL then Some (NextBlock k) else nextb bs x)"
    (is "?l = ?r")
  proof
    fix x show "?l x = ?r x"
      using assms(1) by (cases "bs x") (auto simp: nextb_def unchain_def)
  qed
  show "prevb (unchain b k bs) = (\<lambda>x. if x = b then None
      else if x = NextBlock k \<and> NextBlock k \<noteq> NULL then Some (PrevBlock k) else prevb bs x)"
    (is "?l = ?r")
  proof
    fix x show "?l x = ?r x"
      using assms(2) by (cases "bs x") (auto simp: prevb_def unchain_def)
  qed
qed

lemma placed_del:
  "placed bs ow \<Longrightarrow> placed bs (ow(p := None))"
  unfolding placed_def by (simp split: if_splits)

lemma set_block_Some:
  "blocks s b = Some k \<Longrightarrow> set_block b f s = Some (s\<lparr>blocks := (blocks s)(b \<mapsto> f k)\<rparr>)"
  by (simp add: set_block_def)

lemma list_Free_keep:
  assumes k: "blocks s b = Some k" and more: "1 < iInUse k"
  shows "list_Free b p s = Some (s\<lparr>blocks := (blocks s)(b \<mapsto> k\<lparr>iInUse := iInUse k - 1\<rparr>),
    items := (items s)(p := None)\<rparr>)"
  using assms
  by (simp add: list_Free_def EnterCriticalSection_def LeaveCriticalSection_def set_block_Some [of _ b k])

lemma release_block_eq:
  assumes k: "iInUse k = 0"
    and live: "PrevBlock k \<noteq> NULL \<Longrightarrow> blocks s (PrevBlock k) \<noteq> None"
      "NextBlock k \<noteq> NULL \<Longrightarrow> blocks s (NextBlock k) \<noteq> None"
  shows "release_block b k s = Some (s\<lparr>blocks := unchain b k (blocks s),
    pCurrent := (if pCurrent s = b then PrevBlock k else pCurrent s),
    items := (\<lambda>a. if b \<le> a \<and> a < b + sizeof_BLOCK then None else items s a)\<rparr>)"
proof -
  let ?pb = "PrevBlock k" and ?nb = "NextBlock k"
  let ?s0 = "s\<lparr>pCurrent := (if pCurrent s = b then ?pb else pCurrent s)\<rparr>"
  let ?s1 = "?s0\<lparr>blocks := if ?pb = NULL then blocks s
     else (blocks s)(?pb := map_option (NextBlock_update (\<lambda>_. ?nb)) (blocks s ?pb))\<rparr>"
  let ?s2 = "?s1\<lparr>blocks := if ?nb = NULL then blocks ?s1
     else (blocks ?s1)(?nb := map_option (PrevBlock_update (\<lambda>_. ?pb)) (blocks ?s1 ?nb))\<rparr>"
  have 0: "(if pCurrent s = b then s\<lparr>pCurrent := ?pb\<rparr> else s) = ?s0" by simp
  have 1: "(if ?pb \<noteq> NULL then set_block ?pb (\<lambda>q. q\<lparr>NextBlock := ?nb\<rparr>) ?s0 else Some ?s0) = Some ?s1"
    using live(1)
    by (cases "?pb = NULL"; cases "blocks s ?pb") (auto simp: set_block_def)
  have 2: "(if ?nb \<noteq> NULL then set_block ?nb (\<lambda>q. q\<lparr>PrevBlock := ?pb\<rparr>) ?s1 else Some ?s1) = Some ?s2"
    using live
    by (cases "?nb = NULL"; cases "blocks s ?nb") (auto simp: set_block_def)
  have un: "(blocks ?s2)(b := None) = unchain b k (blocks s)"
    by (rule_tac ext, case_tac "blocks s x") (auto simp: unchain_def relink_def)
  have "release_block b k s = Some (free_block b ?s2)"
    by (simp only: release_block_def Let_def k less_irrefl if_False 0 1 2 bind.bind_lunit)
  then show ?thesis unfolding free_block_def un by (simp cong: if_cong)
qed

lemma list_Free_last:
  assumes k: "blocks s b = Some k" and last: "iInUse k = 1"
    and live: "PrevBlock k \<noteq> NULL \<Longrightarrow> blocks s (PrevBlock k) \<noteq> None"
      "NextBlock k \<noteq> NULL \<Longrightarrow> blocks s (NextBlock k) \<noteq> None"
  shows "list_Free b p s = Some (s\<lparr>blocks := unchain b k (blocks s),
    pCurrent := (if pCurrent s = b then PrevBlock k else pCurrent s),
    items := (\<lambda>a. if b \<le> a \<and> a < b + sizeof_BLOCK then None else ((items s)(p := None)) a)\<rparr>)"
proof -
  let ?k = "k\<lparr>iInUse := 0\<rparr>"
  let ?s = "s\<lparr>critDepth := critDepth s + 1, blocks := (blocks s)(b \<mapsto> ?k), items := (items s)(p := None)\<rparr>"
  have "unchain b ?k ((blocks s)(b \<mapsto> ?k)) = unchain b k (blocks s)"
    by (rule ext, case_tac "blocks s x") (simp_all add: unchain_def relink_def)
  moreover have "list_Free b p s = map_option LeaveCriticalSection (release_block b ?k ?s)"
    using k last
    by (cases "release_block b ?k ?s")
      (simp_all add: list_Free_def EnterCriticalSection_def set_block_Some [of _ b k] bind_None_iff)
  ultimately show ?thesis
    using release_block_eq [where k = ?k and b = b and s = ?s] live
    by (simp add: LeaveCriticalSection_def cong: if_cong)
qed

text \<open>Freeing a live item: it leaves the ownership map and nothing else changes for the
  other items, also when the block goes with it.\<close>

definition freed :: "ptr \<Rightarrow> 'd lheap \<Rightarrow> 'd lheap \<Rightarrow> bool" where
  "freed p s s' \<longleftrightarrow> items s' = (items s)(p := None) \<and>
     alloc_ok (blocks s') (pCurrent s') ((own s)(p := None)) \<and>
     critDepth s' = critDepth s \<and> bInited s' = bInited s \<and> traceLog s' = traceLog s"

lemma counted_keep:
  assumes "counted bs ow" "bs b = Some k" "1 < iInUse k" "ow p = Some (b, z)"
    "iInUse k' = iInUse k - 1"
  shows "counted (bs(b \<mapsto> k')) (ow(p := None))"
proof -
  have fin: "finite (dom ow)" using assms(1) by (simp add: counted_def)
  have "uses ow c = iInUse q \<and> 0 < iInUse q" if "bs c = Some q" for c q
    using assms(1) that unfolding counted_def by blast
  then show ?thesis
    unfolding counted_def uses_del [OF fin assms(4)] using fin assms(2,3,5) by (auto split: if_splits)
qed

lemma counted_unchain:
  assumes "counted bs ow" "bs b = Some k" "ow p = Some (b, z)"
  shows "counted (unchain b k bs) (ow(p := None))"
proof -
  have fin: "finite (dom ow)" using assms(1) by (simp add: counted_def)
  have "uses ow c = iInUse q \<and> 0 < iInUse q" if "bs c = Some q" for c q
    using assms(1) that unfolding counted_def by blast
  then show ?thesis
    unfolding counted_def uses_del [OF fin assms(3)] using fin by (auto dest!: unchain_SomeD)
qed

lemma placed_mono:
  assumes "placed bs ow"
    and "\<And>a b z k. ow a = Some (b, z) \<Longrightarrow> bs b = Some k \<Longrightarrow> \<exists>k'. bs' b = Some k' \<and> iNext k' = iNext k"
    and "\<And>b k'. bs' b = Some k' \<Longrightarrow> \<exists>k. bs b = Some k \<and> iNext k' = iNext k"
  shows "placed bs' ow"
proof -
  have "\<forall>b k. bs' b = Some k \<longrightarrow> 4 dvd iNext k" using assms(1,3) unfolding placed_def by metis
  moreover have "\<exists>k. bs' b = Some k \<and> b + chData \<le> a \<and> a + z \<le> b + chData + iNext k \<and> a < b + sizeof_BLOCK \<and> 0 < z"
    if o: "ow a = Some (b, z)" for a b z
  proof -
    obtain k where k: "bs b = Some k" "b + chData \<le> a" "a + z \<le> b + chData + iNext k" "a < b + sizeof_BLOCK" "0 < z"
      using placedD(1) [OF assms(1) o] by blast
    from assms(2) [OF o k(1)] k show ?thesis by auto
  qed
  ultimately show ?thesis using assms(1) unfolding placed_def by blast
qed

lemma list_Free_spec:
  assumes ok: "heap_ok s" and p: "own s p = Some (b, z)"
  shows "\<exists>s'. list_Free b p s = Some s' \<and> freed p s s'"
proof -
  let ?bs = "blocks s"
  have P: "placed ?bs (own s)" and C: "counted ?bs (own s)" and L: "chained ?bs (pCurrent s)"
    and A: "apart ?bs" using ok by (auto simp: alloc_ok_def)
  obtain k where k: "?bs b = Some k" using P p unfolding placed_def by blast
  have k1: "1 \<le> iInUse k" using C k unfolding counted_def by force
  have PD: "placed ?bs ((own s)(p := None))" by (rule placed_del [OF P])
  show ?thesis
  proof (cases "1 < iInUse k")
    case True
    let ?k = "k\<lparr>iInUse := iInUse k - 1\<rparr>"
    have "alloc_ok (?bs(b \<mapsto> ?k)) (pCurrent s) ((own s)(p := None))"
      unfolding alloc_ok_def
    proof (intro conjI)
      show "placed (?bs(b \<mapsto> ?k)) ((own s)(p := None))"
        by (rule placed_mono [OF PD]) (use k in \<open>auto split: if_splits\<close>)
      show "counted (?bs(b \<mapsto> ?k)) ((own s)(p := None))" by (rule counted_keep [OF C k True p]) simp
      show "chained (?bs(b \<mapsto> ?k)) (pCurrent s)" by (rule chained_upd [OF L k]) simp_all
      show "apart (?bs(b \<mapsto> ?k))" by (rule apart_upd [OF A k])
    qed
    then show ?thesis unfolding list_Free_keep [OF k True] freed_def by simp
  next
    case False
    with k1 have one: "iInUse k = 1" by simp
    have b0: "b \<noteq> NULL" using alloc_ok_blockD [OF ok k] by simp
    have lk: "linked (nextb ?bs) (prevb ?bs) (pCurrent s)" using L by (simp add: chained_def)
    have nb: "nextb ?bs b = Some (NextBlock k)" "prevb ?bs b = Some (PrevBlock k)"
      using k by (simp_all add: nextb_def prevb_def)
    have N0: "nextb ?bs NULL = None" "prevb ?bs NULL = None"
      using A by (simp_all add: apart_def nextb_def prevb_def)
    have pl: "PrevBlock k \<noteq> NULL \<Longrightarrow> ?bs (PrevBlock k) \<noteq> None"
      and nl: "NextBlock k \<noteq> NULL \<Longrightarrow> ?bs (NextBlock k) \<noteq> None"
      using linkedD(1) [OF lk nb(2)] linkedD(2) [OF lk nb(1)] by (auto simp: nextb_def prevb_def)
    have fin: "finite (dom (own s))" using C by (simp add: counted_def)
    have u0: "uses ((own s)(p := None)) b = 0"
      using C k one by (simp add: uses_del [OF fin p] counted_def)
    have no: "((own s)(p := None)) a \<noteq> Some (b, y)" for a y
      by (rule uses_0 [OF _ u0]) (use fin in simp)
    have dead: "((items s)(p := None)) a = None" if "b \<le> a" "a < b + sizeof_BLOCK" for a
    proof (rule ccontr)
      assume "((items s)(p := None)) a \<noteq> None"
      then have "((own s)(p := None)) a \<noteq> None" by (auto simp: own_def split: if_splits)
      then obtain c y where c: "((own s)(p := None)) a = Some (c, y)" by auto
      with no have "c \<noteq> b" by auto
      moreover from c PD obtain q where "?bs c = Some q" "c \<le> a" "a < c + sizeof_BLOCK"
        unfolding placed_def by fastforce
      ultimately show False using A k that unfolding apart_def by fastforce
    qed
    have it: "(\<lambda>a. if b \<le> a \<and> a < b + sizeof_BLOCK then None else ((items s)(p := None)) a) =
        (items s)(p := None)"
      by (rule ext) (metis dead)
    have "alloc_ok (unchain b k ?bs) (if pCurrent s = b then PrevBlock k else pCurrent s) ((own s)(p := None))"
      unfolding alloc_ok_def
    proof (intro conjI)
      show "placed (unchain b k ?bs) ((own s)(p := None))"
      proof (rule placed_mono [OF PD])
        fix a c y q assume o: "((own s)(p := None)) a = Some (c, y)" "?bs c = Some q"
        then have "c \<noteq> b" using no by blast
        then show "\<exists>k'. unchain b k ?bs c = Some k' \<and> iNext k' = iNext q"
          using unchain_SomeI [of c b ?bs q k] o(2) by auto
      qed (auto dest!: unchain_SomeD)
      show "counted (unchain b k ?bs) ((own s)(p := None))" by (rule counted_unchain [OF C k p])
      show "chained (unchain b k ?bs) (if pCurrent s = b then PrevBlock k else pCurrent s)"
        unfolding chained_def using linked_remove [OF lk nb b0 N0] pl nl by (simp add: unchain_links)
      show "apart (unchain b k ?bs)"
        using A unfolding apart_def dom_unchain by (auto simp: unchain_def)
    qed
    moreover have "list_Free b p s = Some (s\<lparr>blocks := unchain b k ?bs,
        pCurrent := (if pCurrent s = b then PrevBlock k else pCurrent s), items := (items s)(p := None)\<rparr>)"
      using list_Free_last [OF k one, of p] pl nl unfolding it by blast
    ultimately show ?thesis by (simp add: freed_def)
  qed
qed

end
