(* ===== verification/Gutils_List_Rings.thy ===== *)
theory Gutils_List_Rings
  imports Prelude
begin

text \<open>
  Circular doubly linked lists as a pure theory of two link functions (\<open>n\<close> for
  \<open>pitNext\<close>, \<open>p\<close> for \<open>pitPrev\<close>) and an anchor flag.  The abstract view of
  the storage is a map from list handles (anchor addresses) to the addresses of their items in
  order.  Each \<open>links_*\<close> lemma says what one kind of pointer surgery of \<open>list.c\<close>
  does to that view; none of them mentions the heap.
\<close>

type_synonym links = "ptr \<rightharpoonup> ptr"
type_synonym view = "ptr \<rightharpoonup> ptr list"

subsection \<open>Doubly linked segments\<close>

primrec dls :: "links \<Rightarrow> links \<Rightarrow> ptr \<Rightarrow> ptr list \<Rightarrow> ptr \<Rightarrow> bool" where
  "dls n p a [] b \<longleftrightarrow> n a = Some b \<and> p b = Some a"
| "dls n p a (x # xs) b \<longleftrightarrow> n a = Some x \<and> p x = Some a \<and> dls n p x xs b"

lemma dls_append [simp]:
  "dls n p a (xs @ x # ys) b \<longleftrightarrow> dls n p a xs x \<and> dls n p x ys b"
  by (induction xs arbitrary: a) auto

lemma dls_cong:
  assumes "dls n p a xs b"
    and "\<And>x. x \<in> set (a # xs) \<Longrightarrow> n' x = n x" and "\<And>x. x \<in> set (xs @ [b]) \<Longrightarrow> p' x = p x"
  shows "dls n' p' a xs b"
  using assms by (induction xs arbitrary: a) auto

lemma dls_middle:
  "dls n p c (xs @ ms @ ys) d \<Longrightarrow> dls n p (last (c # xs)) ms (hd (ys @ [d]))"
proof (induction xs arbitrary: c)
  case Nil
  then show ?case by (cases ys) auto
qed auto

lemma dls_ends:
  assumes "dls n p a xs b"
  shows "n a = Some (hd (xs @ [b]))" "p b = Some (last (a # xs))"
  using assms by (induction xs arbitrary: a) auto

text \<open>Cutting a middle part out and putting another one in.\<close>

lemma dls_replace:
  assumes "dls n p c (xs @ ms @ ys) d" and "dls n' p' (last (c # xs)) ms' (hd (ys @ [d]))"
    and "\<And>x. x \<in> set (butlast (c # xs)) \<Longrightarrow> n' x = n x" and "\<And>x. x \<in> set ys \<Longrightarrow> n' x = n x"
    and "\<And>x. x \<in> set xs \<Longrightarrow> p' x = p x" and "\<And>x. x \<in> set (tl (ys @ [d])) \<Longrightarrow> p' x = p x"
  shows "dls n' p' c (xs @ ms' @ ys) d"
  using assms
proof (induction xs arbitrary: c)
  case Nil
  show ?case
  proof (cases ys)
    case Nil
    with Nil.prems show ?thesis by simp
  next
    case (Cons y ys')
    with Nil.prems have "dls n p y ys' d" "dls n' p' c ms' y" by auto
    moreover have "dls n' p' y ys' d"
      by (rule dls_cong [OF \<open>dls n p y ys' d\<close>]) (use Nil.prems Cons in auto)
    ultimately show ?thesis using Cons by simp
  qed
next
  case (Cons x xs)
  have "dls n' p' x (xs @ ms' @ ys) d"
    by (rule Cons.IH) (use Cons.prems in \<open>auto split: if_splits\<close>)
  moreover have "n' c = n c" "p' x = p x" using Cons.prems(3,5) by auto
  ultimately show ?case using Cons.prems(1) by simp
qed

subsection \<open>Rings and views\<close>

definition ring :: "links \<Rightarrow> links \<Rightarrow> (ptr \<rightharpoonup> bool) \<Rightarrow> ptr \<Rightarrow> ptr list \<Rightarrow> bool" where
  "ring n p an l xs \<longleftrightarrow> distinct (l # xs) \<and> dls n p l xs l \<and> an l = Some True \<and>
     (\<forall>x \<in> set xs. an x = Some False)"

definition cells :: "view \<Rightarrow> ptr set" where
  "cells L = {a. \<exists>l xs. L l = Some xs \<and> a \<in> set (l # xs)}"

definition separate :: "view \<Rightarrow> bool" where
  "separate L \<longleftrightarrow> (\<forall>l xs l' xs'. L l = Some xs \<longrightarrow> L l' = Some xs' \<longrightarrow> l \<noteq> l' \<longrightarrow>
     set (l # xs) \<inter> set (l' # xs') = {})"

definition links_ok :: "links \<Rightarrow> links \<Rightarrow> (ptr \<rightharpoonup> bool) \<Rightarrow> view \<Rightarrow> bool" where
  "links_ok n p an L \<longleftrightarrow> (\<forall>l xs. L l = Some xs \<longrightarrow> ring n p an l xs) \<and> separate L"

lemma links_okD: "links_ok n p an L \<Longrightarrow> L l = Some xs \<Longrightarrow> ring n p an l xs"
  by (simp add: links_ok_def)

lemma in_cellsI: "L l = Some xs \<Longrightarrow> a \<in> set (l # xs) \<Longrightarrow> a \<in> cells L"
  unfolding cells_def by blast

lemma cells_empty [simp]: "cells Map.empty = {}"
  by (simp add: cells_def)

lemma cells_put: "M l = None \<Longrightarrow> cells (M(l \<mapsto> xs)) = cells M \<union> set (l # xs)"
  unfolding cells_def by (rule set_eqI) (simp, metis option.distinct(1))

lemma separate_put:
  assumes "M l = None"
  shows "separate (M(l \<mapsto> xs)) \<longleftrightarrow> separate M \<and> cells M \<inter> set (l # xs) = {}"
proof
  assume S: "separate (M(l \<mapsto> xs))"
  have 1: "set (a # ys) \<inter> set (b # zs) = {}" if "M a = Some ys" "M b = Some zs" "a \<noteq> b" for a b ys zs
  proof -
    from that assms have "(M(l \<mapsto> xs)) a = Some ys" "(M(l \<mapsto> xs)) b = Some zs" by auto
    then show ?thesis using S that(3) unfolding separate_def by blast
  qed
  have 2: "set (a # ys) \<inter> set (l # xs) = {}" if "M a = Some ys" for a ys
  proof -
    from that assms have "(M(l \<mapsto> xs)) a = Some ys" "(M(l \<mapsto> xs)) l = Some xs" "a \<noteq> l" by auto
    then show ?thesis using S unfolding separate_def by blast
  qed
  show "separate M \<and> cells M \<inter> set (l # xs) = {}"
    using 1 2 unfolding separate_def cells_def by blast
next
  assume S: "separate M \<and> cells M \<inter> set (l # xs) = {}"
  have 2: "set (a # ys) \<inter> set (l # xs) = {}" if "M a = Some ys" for a ys
    using S in_cellsI [of M a ys] that by blast
  show "separate (M(l \<mapsto> xs))"
    unfolding separate_def
  proof (intro allI impI)
    fix a ys b zs
    assume *: "(M(l \<mapsto> xs)) a = Some ys" "(M(l \<mapsto> xs)) b = Some zs" "a \<noteq> b"
    show "set (a # ys) \<inter> set (b # zs) = {}"
    proof (cases "a = l \<or> b = l")
      case True
      then show ?thesis using * 2 by (auto split: if_splits)
    next
      case False
      with * S show ?thesis unfolding separate_def by (metis fun_upd_other)
    qed
  qed
qed

text \<open>One list and the others: the view as a separating conjunction.\<close>

lemma links_put:
  assumes "M l = None"
  shows "links_ok n p an (M(l \<mapsto> xs)) \<longleftrightarrow>
    links_ok n p an M \<and> ring n p an l xs \<and> cells M \<inter> set (l # xs) = {}"
  using separate_put [of M l xs, OF assms] assms unfolding links_ok_def
  by (metis fun_upd_other fun_upd_same option.distinct(1) option.inject)

lemma view_split: "L l = Some xs \<Longrightarrow> L = (L(l := None))(l \<mapsto> xs)"
  by auto

lemma links_get:
  assumes "links_ok n p an L" "L l = Some xs"
  shows "links_ok n p an (L(l := None))" "ring n p an l xs" "cells (L(l := None)) \<inter> set (l # xs) = {}"
  using assms links_put [of "L(l := None)" l n p an xs] by (simp_all add: fun_upd_idem)

lemma cells_get: "L l = Some xs \<Longrightarrow> cells L = cells (L(l := None)) \<union> set (l # xs)"
  using cells_put [of "L(l := None)" l xs] by (simp add: fun_upd_idem)

lemma ring_cong:
  assumes "ring n p an l xs"
    and "\<And>x. x \<in> set (l # xs) \<Longrightarrow> n' x = n x \<and> p' x = p x \<and> an' x = an x"
  shows "ring n' p' an' l xs"
  using assms dls_cong [of n p l xs l n' p'] unfolding ring_def by auto

lemma links_cong:
  assumes "links_ok n p an L"
    and "\<And>x. x \<in> cells L \<Longrightarrow> n' x = n x \<and> p' x = p x \<and> an' x = an x"
  shows "links_ok n' p' an' L"
  unfolding links_ok_def
proof (intro conjI allI impI)
  show "separate L" using assms(1) by (simp add: links_ok_def)
  fix l xs assume l: "L l = Some xs"
  show "ring n' p' an' l xs"
    by (rule ring_cong [OF links_okD [OF assms(1) l]]) (use assms(2) in_cellsI [of L l xs, OF l] in blast)
qed

lemma links_empty [simp]: "links_ok n p an Map.empty"
  by (simp add: links_ok_def separate_def)

text \<open>Replacing the ring of one list, the others being left alone.\<close>

lemma links_change:
  assumes "links_ok n p an L" "L l = Some xs" "ring n' p' an' l ys"
    and "\<And>x. x \<notin> set (l # xs) \<Longrightarrow> x \<notin> set ys \<Longrightarrow> n' x = n x \<and> p' x = p x \<and> an' x = an x"
    and "set ys \<inter> cells (L(l := None)) = {}"
  shows "links_ok n' p' an' (L(l \<mapsto> ys))"
proof -
  let ?M = "L(l := None)"
  note G = links_get [OF assms(1,2)]
  have "links_ok n' p' an' ?M"
    by (rule links_cong [OF G(1)]) (use assms(4,5) G(3) in blast)
  moreover have "cells ?M \<inter> set (l # ys) = {}" using assms(5) G(3) by auto
  ultimately show ?thesis using links_put [of ?M l n' p' an' ys] assms(3) by simp
qed

subsection \<open>Pointer surgery\<close>

lemma ring_ends:
  assumes "ring n p an l xs"
  shows "n l = Some (hd (xs @ [l]))" "p l = Some (last (l # xs))"
  using assms dls_ends [of n p l xs l] by (simp_all add: ring_def)

lemma ring_at:
  assumes "ring n p an l (xs @ c # ys)"
  shows "n c = Some (hd (ys @ [l]))" "p c = Some (last (l # xs))"
proof -
  from assms have *: "dls n p l xs c" "dls n p c ys l" by (auto simp: ring_def)
  from dls_ends [OF *(1)] dls_ends [OF *(2)]
  show "n c = Some (hd (ys @ [l]))" "p c = Some (last (l # xs))" by auto
qed

lemma ring_anchor:
  assumes "ring n p an l xs" "a \<in> set (l # xs)"
  shows "an a = Some (a = l)"
  using assms by (auto simp: ring_def)

lemma split_last_facts:
  assumes "distinct (c # xs @ ys)"
  shows "set (butlast (c # xs)) \<inter> set ys = {}" "last (c # xs) \<notin> set ys"
    "last (c # xs) \<notin> set (butlast (c # xs))"
proof -
  have eq: "c # xs = butlast (c # xs) @ [last (c # xs)]" by simp
  have "distinct ((butlast (c # xs) @ [last (c # xs)]) @ ys)"
    using assms eq by (metis append_Cons)
  then show "set (butlast (c # xs)) \<inter> set ys = {}" "last (c # xs) \<notin> set ys"
    "last (c # xs) \<notin> set (butlast (c # xs))" by auto
qed

lemma ring_insert:
  assumes R: "ring n p an l (xs @ ys)" and new: "q \<notin> set (l # xs @ ys)"
    and a: "a = last (l # xs)" and b: "b = hd (ys @ [l])"
  shows "ring (n(q \<mapsto> b, a \<mapsto> q)) (p(q \<mapsto> a, b \<mapsto> q)) (an(q \<mapsto> False)) l (xs @ q # ys)"
proof -
  have D: "distinct (l # xs @ ys)" and S: "dls n p l (xs @ [] @ ys) l" using R by (auto simp: ring_def)
  have bl: "set (butlast (l # xs)) \<inter> set ys = {}" "a \<notin> set ys" "a \<notin> set (butlast (l # xs))"
    using split_last_facts [of l xs ys] D a by auto
  have tl: "b \<notin> set xs" "b \<notin> set (tl (ys @ [l]))" using D b by (cases ys; auto)+
  have "a \<noteq> q" "b \<noteq> q" using new a b last_Cons_in [of l xs] hd_append_in [of ys l] by auto
  have "dls (n(q \<mapsto> b, a \<mapsto> q)) (p(q \<mapsto> a, b \<mapsto> q)) l (xs @ [q] @ ys) l"
  proof (rule dls_replace [OF S])
    show "dls (n(q \<mapsto> b, a \<mapsto> q)) (p(q \<mapsto> a, b \<mapsto> q)) (last (l # xs)) [q] (hd (ys @ [l]))"
      using \<open>a \<noteq> q\<close> \<open>b \<noteq> q\<close> a b by simp
  next
    fix x assume "x \<in> set (butlast (l # xs))"
    then have "x \<noteq> a" "x \<noteq> q" using bl new by (auto dest: in_set_butlastD split: if_splits)
    then show "(n(q \<mapsto> b, a \<mapsto> q)) x = n x" by simp
  next
    fix x assume "x \<in> set ys"
    then have "x \<noteq> a" "x \<noteq> q" using bl new by auto
    then show "(n(q \<mapsto> b, a \<mapsto> q)) x = n x" by simp
  next
    fix x assume "x \<in> set xs"
    then have "x \<noteq> b" "x \<noteq> q" using tl new by auto
    then show "(p(q \<mapsto> a, b \<mapsto> q)) x = p x" by simp
  next
    fix x assume x: "x \<in> set (tl (ys @ [l]))"
    then have "x \<in> set (ys @ [l])" by (metis list.set_sel(2) tl_Nil)
    with x have "x \<noteq> b" "x \<noteq> q" using tl new by auto
    then show "(p(q \<mapsto> a, b \<mapsto> q)) x = p x" by simp
  qed
  moreover have "distinct (l # xs @ q # ys)" using D new by auto
  ultimately show ?thesis using R new unfolding ring_def by auto
qed

lemma ring_delete:
  assumes R: "ring n p an l (xs @ y # ys)" and a: "a = last (l # xs)" and b: "b = hd (ys @ [l])"
  shows "ring ((n(a \<mapsto> b))(y := None)) ((p(b \<mapsto> a))(y := None)) (an(y := None)) l (xs @ ys)"
proof -
  let ?n = "(n(a \<mapsto> b))(y := None)" and ?p = "(p(b \<mapsto> a))(y := None)"
  have D: "distinct (l # xs @ ys)" "y \<notin> set (l # xs @ ys)" and S: "dls n p l (xs @ [y] @ ys) l"
    using R by (auto simp: ring_def)
  have bl: "set (butlast (l # xs)) \<inter> set ys = {}" "a \<notin> set ys" "a \<notin> set (butlast (l # xs))"
    using split_last_facts [OF D(1)] a by auto
  have tl: "b \<notin> set xs" "b \<notin> set (tl (ys @ [l]))" using D b by (cases ys; auto)+
  have "a \<noteq> y" "b \<noteq> y" using D(2) a b last_Cons_in [of l xs] hd_append_in [of ys l] by auto
  have "dls ?n ?p l (xs @ [] @ ys) l"
  proof (rule dls_replace [OF S])
    show "dls ?n ?p (last (l # xs)) [] (hd (ys @ [l]))"
      using \<open>a \<noteq> y\<close> \<open>b \<noteq> y\<close> a b by simp
  next
    fix x assume "x \<in> set (butlast (l # xs))"
    then have "x \<noteq> a" "x \<noteq> y" using bl D(2) by (auto dest: in_set_butlastD split: if_splits)
    then show "?n x = n x" by simp
  next
    fix x assume "x \<in> set ys"
    then have "x \<noteq> a" "x \<noteq> y" using bl D(2) by auto
    then show "?n x = n x" by simp
  next
    fix x assume "x \<in> set xs"
    then have "x \<noteq> b" "x \<noteq> y" using tl D(2) by auto
    then show "?p x = p x" by simp
  next
    fix x assume x: "x \<in> set (tl (ys @ [l]))"
    then have "x \<in> set (ys @ [l])" by (metis list.set_sel(2) tl_Nil)
    with x have "x \<noteq> b" "x \<noteq> y" using tl D(2) by auto
    then show "?p x = p x" by simp
  qed
  then show ?thesis using R D unfolding ring_def by auto
qed

text \<open>A run of items taken out of one place and hung between \<open>a\<close> and \<open>b\<close>.\<close>

lemma dls_rebase:
  assumes "dls n p c zs d" "zs \<noteq> []"
    and "n' a = Some (hd zs)" "p' (hd zs) = Some a" "n' (last zs) = Some b" "p' b = Some (last zs)"
    and "\<And>x. x \<in> set (butlast zs) \<Longrightarrow> n' x = n x" and "\<And>x. x \<in> set (tl zs) \<Longrightarrow> p' x = p x"
  shows "dls n' p' a zs b"
  using assms
proof (induction zs arbitrary: a c)
  case (Cons z zs)
  show ?case
  proof (cases zs)
    case Nil
    with Cons.prems show ?thesis by simp
  next
    case (Cons y ys)
    have "dls n' p' z zs b"
      by (rule Cons.IH [of z]) (use Cons.prems Cons in auto)
    with Cons Cons.prems show ?thesis by simp
  qed
qed simp

lemma ring_splice:
  assumes R: "ring n p an l (xs @ ys)" and Z: "dls n p c zs d" "zs \<noteq> []" "distinct zs"
    and disj: "set zs \<inter> set (l # xs @ ys) = {}" and az: "\<And>x. x \<in> set zs \<Longrightarrow> an x = Some False"
    and a: "a = last (l # xs)" and b: "b = hd (ys @ [l])"
    and n': "\<And>x. n' x = (if x = a then Some (hd zs) else if x = last zs then Some b
        else if x \<in> set (l # xs @ ys @ zs) then n x else n' x)"
    and p': "\<And>x. p' x = (if x = b then Some (last zs) else if x = hd zs then Some a
        else if x \<in> set (l # xs @ ys @ zs) then p x else p' x)"
    and an': "\<And>x. x \<in> set (l # xs @ ys @ zs) \<Longrightarrow> an' x = an x"
  shows "ring n' p' an' l (xs @ zs @ ys)"
proof -
  have D: "distinct (l # xs @ ys)" and S: "dls n p l (xs @ [] @ ys) l" using R by (auto simp: ring_def)
  have bl: "set (butlast (l # xs)) \<inter> set ys = {}" "a \<notin> set ys" "a \<notin> set (butlast (l # xs))"
    using split_last_facts [OF D] a by auto
  have tl: "b \<notin> set xs" "b \<notin> set (tl (ys @ [l]))" using D b by (cases ys; auto)+
  have z: "hd zs \<in> set zs" "last zs \<in> set zs" using Z(2) by auto
  have ab: "a \<in> set (l # xs @ ys)" "b \<in> set (l # xs @ ys)"
    using a b last_Cons_in [of l xs] hd_append_in [of ys l] by auto
  have ne: "a \<noteq> last zs" "b \<noteq> hd zs" "a \<notin> set zs" "b \<notin> set zs" using z ab disj by auto
  have zz: "last zs \<notin> set (butlast zs)" "hd zs \<notin> set (tl zs)"
    using Z(2,3) by (metis append_butlast_last_id distinct_append disjoint_insert(1) list.simps(15))
      (metis Z(2,3) distinct.simps(2) list.collapse)
  have "dls n' p' l (xs @ zs @ ys) l"
  proof (rule dls_replace [OF S])
    show "dls n' p' (last (l # xs)) zs (hd (ys @ [l]))"
      unfolding a [symmetric] b [symmetric]
    proof (rule dls_rebase [OF Z(1,2)])
      show "n' a = Some (hd zs)" "p' b = Some (last zs)" using n' [of a] p' [of b] by auto
      show "p' (hd zs) = Some a" "n' (last zs) = Some b"
        using n' [of "last zs"] p' [of "hd zs"] ne by auto
      fix x assume x: "x \<in> set (butlast zs)"
      then have "x \<in> set zs" "x \<noteq> last zs" "x \<noteq> a" using zz ne by (auto dest: in_set_butlastD)
      then show "n' x = n x" using n' [of x] by auto
    next
      fix x assume x: "x \<in> set (tl zs)"
      then have "x \<in> set zs" "x \<noteq> hd zs" "x \<noteq> b" using zz ne by (auto dest: list.set_sel(2) [OF Z(2)])
      then show "p' x = p x" using p' [of x] by auto
    qed
  next
    fix x assume "x \<in> set (butlast (l # xs))"
    then have "x \<in> set (l # xs)" "x \<noteq> a" using bl by (auto dest: in_set_butlastD split: if_splits)
    moreover from this have "x \<noteq> last zs" using disj z by auto
    ultimately show "n' x = n x" using n' [of x] by auto
  next
    fix x assume "x \<in> set ys"
    then have "x \<noteq> a" "x \<noteq> last zs" "x \<in> set ys" using bl disj z by auto
    then show "n' x = n x" using n' [of x] by auto
  next
    fix x assume "x \<in> set xs"
    then have "x \<noteq> b" "x \<noteq> hd zs" "x \<in> set xs" using tl disj z by auto
    then show "p' x = p x" using p' [of x] by auto
  next
    fix x assume x: "x \<in> set (tl (ys @ [l]))"
    then have "x \<in> set (ys @ [l])" by (metis list.set_sel(2) tl_Nil)
    with x have "x \<noteq> b" "x \<noteq> hd zs" "x \<in> set (ys @ [l])" using tl disj z by auto
    then show "p' x = p x" using p' [of x] by auto
  qed
  moreover have "distinct (l # xs @ zs @ ys)" using D Z(3) disj by auto
  ultimately show ?thesis using R az an' unfolding ring_def by auto
qed

lemma ring_empty: "n l = Some l \<Longrightarrow> p l = Some l \<Longrightarrow> an l = Some True \<Longrightarrow> ring n p an l []"
  by (simp add: ring_def)

text \<open>The front (or the back) of a ring hung on another anchor.\<close>

lemma ring_rehang:
  assumes Z: "dls n p c zs d" "zs \<noteq> []" "distinct (l # zs)" and az: "\<And>x. x \<in> set zs \<Longrightarrow> an x = Some False"
    and "an l = Some True"
    and "n' l = Some (hd zs)" "p' (hd zs) = Some l" "n' (last zs) = Some l" "p' l = Some (last zs)"
    and "\<And>x. x \<in> set (butlast zs) \<Longrightarrow> n' x = n x" and "\<And>x. x \<in> set (tl zs) \<Longrightarrow> p' x = p x"
  shows "ring n' p' an l zs"
  using assms dls_rebase [of n p c zs d n' l p' l] by (auto simp: ring_def)

end
