(* ===== verification/Gutils_List_Correct.thy ===== *)
theory Gutils_List_Correct
  imports Gutils_List_Alloc Gutils_List_Rings
begin

text \<open>
  Functional correctness of the LIST abstract data type of \<open>list.c\<close>.

  The abstract state is a \<open>view\<close>: a map from list handles to the sequence of the
  addresses of their items.  \<open>wf s L\<close> says that the heap \<open>s\<close> represents
  \<open>L\<close>: the storage invariant holds, every handle is the anchor of a well-formed ring, the
  rings are disjoint, and every live item belongs to one of them (nothing is leaked).  Each
  operation is shown to return (no fault, no endless loop) on a represented list, to keep
  \<open>wf\<close>, and to change the view and the data as its abstract counterpart on sequences does.
\<close>

definition wf :: "'d lheap \<Rightarrow> view \<Rightarrow> bool" where
  "wf s L \<longleftrightarrow> heap_ok s \<and> links_ok (nxt s) (prv s) (anc s) L \<and> dom (items s) = cells L"

lemma wf_start: "wf lheap_start Map.empty"
  by (simp add: wf_def lheap_start_def alloc_ok_def placed_def counted_def chained_def linked_def
      apart_def own_def nextb_def prevb_def dom_def)

lemma wf_ring: "wf s L \<Longrightarrow> L l = Some xs \<Longrightarrow> ring (nxt s) (prv s) (anc s) l xs"
  unfolding wf_def by (blast dest: links_okD)

lemma wf_item:
  assumes "wf s L" "L l = Some xs" "a \<in> set (l # xs)"
  shows "\<exists>i. items s a = Some i \<and> bAnchor i = (a = l)"
  using ring_anchor [OF wf_ring [OF assms(1,2)] assms(3)] obs_SomeD(3) by metis

lemma wf_live: "wf s L \<Longrightarrow> items s a \<noteq> None \<longleftrightarrow> a \<in> cells L"
  unfolding wf_def by auto

lemma wf_anchor:
  assumes "wf s L" "L l = Some xs"
  shows "\<exists>i. items s l = Some i \<and> bAnchor i \<and> pitNext i = hd (xs @ [l]) \<and> pitPrev i = last (l # xs)"
  using wf_item [OF assms, of l] ring_ends [OF wf_ring [OF assms]] by (auto simp: nxt_def prv_def)

lemma wf_at:
  assumes "wf s L" "L l = Some (xs @ c # ys)"
  shows "\<exists>i. items s c = Some i \<and> \<not> bAnchor i \<and> pitNext i = hd (ys @ [l]) \<and> pitPrev i = last (l # xs)"
proof -
  have "c \<noteq> l" using wf_ring [OF assms] by (auto simp: ring_def)
  then show ?thesis
    using wf_item [OF assms, of c] ring_at [OF wf_ring [OF assms]] by (auto simp: nxt_def prv_def)
qed

lemma wf_nonnull:
  assumes "wf s L" "L l = Some xs" "a \<in> set (l # xs)"
  shows "a \<noteq> NULL"
proof
  assume "a = NULL"
  obtain i where "items s a = Some i" using wf_item [OF assms] by auto
  then have "own s a = Some (pBlock i, item_size i)" by (simp add: own_def)
  then have "\<exists>k. blocks s (pBlock i) = Some k \<and> pBlock i + chData \<le> a"
    using assms(1) unfolding wf_def alloc_ok_def placed_def by blast
  with \<open>a = NULL\<close> show False by (simp add: chData_def)
qed

lemma MOVEBACK_cursor [simp]: "MOVEBACK (cursor p) = p"
  by (simp add: MOVEBACK_def cursor_def)

lemma cursor_nonnull [simp]: "cursor p \<noteq> NULL"
  by (simp add: cursor_def iHeaderSize_def)

lemma cursor_inj [simp]: "cursor p = cursor q \<longleftrightarrow> p = q"
  by (simp add: cursor_def)

subsection \<open>Insertion\<close>

text \<open>The items after a new one at \<open>q\<close> is hung between \<open>a\<close> and \<open>b\<close>.\<close>

definition hook :: "ptr \<Rightarrow> ptr \<Rightarrow> ptr \<Rightarrow> ptr \<Rightarrow> nat \<Rightarrow> 'd option \<Rightarrow> (ptr \<rightharpoonup> 'd item) \<Rightarrow> (ptr \<rightharpoonup> 'd item)" where
  "hook q a b pc n d its x = (if x = q
     then Some \<lparr>pitNext = b, pitPrev = a, pBlock = pc, bAnchor = False, bOK = False, iLen = n, Data = d\<rparr>
     else map_option (\<lambda>i. i\<lparr>pitNext := (if x = a then q else pitNext i),
        pitPrev := (if x = b then q else pitPrev i)\<rparr>) (its x))"

text \<open>\<open>inserted\<close> is the outcome of the successful insertion of an item \<open>q\<close> of
  \<open>n\<close> bytes holding \<open>d\<close> between \<open>xs\<close> and \<open>ys\<close> in list \<open>l\<close>;
  \<open>refused\<close> is the outcome when storage ran out.\<close>

definition inserted :: "'d lheap \<Rightarrow> view \<Rightarrow> ptr \<Rightarrow> ptr list \<Rightarrow> ptr list \<Rightarrow> nat \<Rightarrow> 'd option \<Rightarrow> ptr \<Rightarrow> 'd lheap \<Rightarrow> bool" where
  "inserted s L l xs ys n d q s' \<longleftrightarrow> q \<notin> cells L \<and> wf s' (L(l \<mapsto> xs @ q # ys)) \<and>
     dat s' = (dat s)(q \<mapsto> d) \<and> okf s' = (okf s)(q \<mapsto> False) \<and>
     critDepth s' = critDepth s \<and> bInited s' = bInited s \<and> traceLog s' = traceLog s"

definition refused :: "'d lheap \<Rightarrow> view \<Rightarrow> ptr \<Rightarrow> 'd lheap \<Rightarrow> bool" where
  "refused s L l s' \<longleftrightarrow> wf s' L \<and> dat s' = dat s \<and> okf s' = (okf s)(l \<mapsto> False) \<and>
     critDepth s' = critDepth s + 1 \<and> bInited s' = bInited s \<and> traceLog s' = traceLog s"

lemma hook_obs:
  assumes it: "items s' = hook q a b pc n d (items s)" and live: "items s a \<noteq> None" "items s b \<noteq> None"
    and q: "items s q = None"
  shows "nxt s' = (nxt s)(q \<mapsto> b, a \<mapsto> q)" "prv s' = (prv s)(q \<mapsto> a, b \<mapsto> q)"
    "anc s' = (anc s)(q \<mapsto> False)" "own s' = (own s)(q \<mapsto> (pc, iHeaderSize + n))"
    "dat s' = (dat s)(q \<mapsto> d)" "okf s' = (okf s)(q \<mapsto> False)"
proof -
  have ne: "a \<noteq> q" "b \<noteq> q" using live q by auto
  show "nxt s' = (nxt s)(q \<mapsto> b, a \<mapsto> q)" "prv s' = (prv s)(q \<mapsto> a, b \<mapsto> q)"
    "anc s' = (anc s)(q \<mapsto> False)" "dat s' = (dat s)(q \<mapsto> d)" "okf s' = (okf s)(q \<mapsto> False)"
    using live ne
    by (auto simp: fun_eq_iff nxt_def prv_def anc_def dat_def okf_def it hook_def option.map_comp o_def)
  show "own s' = (own s)(q \<mapsto> (pc, iHeaderSize + n))"
  proof
    fix x show "own s' x = ((own s)(q \<mapsto> (pc, iHeaderSize + n))) x"
      by (cases "items s x") (simp_all add: own_def it hook_def item_size_def)
  qed
qed

lemma hook_inserted:
  assumes W: "wf s L" "L l = Some (xs @ ys)" and A: "allocated (iHeaderSize + n) s q s1"
    and it: "items s' = hook q (last (l # xs)) (hd (ys @ [l])) (pCurrent s1) n d (items s)"
    and s': "blocks s' = blocks s1" "pCurrent s' = pCurrent s1" "critDepth s' = critDepth s1 - 1"
      "bInited s' = bInited s1" "traceLog s' = traceLog s1"
  shows "inserted s L l xs ys n d q s'"
proof -
  let ?a = "last (l # xs)" and ?b = "hd (ys @ [l])"
  have mem: "?a \<in> set (l # xs @ ys)" "?b \<in> set (l # xs @ ys)"
    using last_Cons_in [of l xs] hd_append_in [of ys l] by auto
  have live: "items s ?a \<noteq> None" "items s ?b \<noteq> None"
    using wf_item [OF W mem(1)] wf_item [OF W mem(2)] by auto
  have q: "items s q = None" using A by (simp add: allocated_def)
  note O = hook_obs [OF it live q]
  have qc: "q \<notin> cells L" using q wf_live [OF W(1)] by blast
  have ql: "q \<notin> set (l # xs @ ys)" using qc in_cellsI [of L l "xs @ ys", OF W(2)] by blast
  have "links_ok (nxt s') (prv s') (anc s') (L(l \<mapsto> xs @ q # ys))"
  proof (rule links_change)
    show "links_ok (nxt s) (prv s) (anc s) L" using W(1) by (simp add: wf_def)
    show "L l = Some (xs @ ys)" by (rule W(2))
    show "ring (nxt s') (prv s') (anc s') l (xs @ q # ys)"
      unfolding O by (rule ring_insert [OF wf_ring [OF W] ql refl refl])
    show "nxt s' x = nxt s x \<and> prv s' x = prv s x \<and> anc s' x = anc s x"
      if "x \<notin> set (l # xs @ ys)" "x \<notin> set (xs @ q # ys)" for x
      unfolding O using that mem by auto
    show "set (xs @ q # ys) \<inter> cells (L(l := None)) = {}"
      using links_get(3) [of "nxt s" "prv s" "anc s" L l "xs @ ys"] W qc
        cells_get [of L l "xs @ ys", OF W(2)] by (auto simp: wf_def)
  qed
  moreover have "dom (items s') = cells (L(l \<mapsto> xs @ q # ys))"
  proof -
    have "dom (items s') = insert q (dom (items s))" using dom_obs(5) [of s'] O(5) dom_obs(5) [of s] by simp
    also have "\<dots> = insert q (cells L)" using W(1) by (simp add: wf_def)
    also have "\<dots> = cells (L(l \<mapsto> xs @ q # ys))"
      using cells_get [of L l "xs @ ys", OF W(2)] cells_put [of "L(l := None)" l "xs @ q # ys"] by auto
    finally show ?thesis .
  qed
  moreover have "heap_ok s'" using A unfolding s' O allocated_def by blast
  ultimately show ?thesis
    using qc O(5,6) A s' unfolding inserted_def wf_def allocated_def by simp
qed

lemma Leave_simps [simp]:
  "items (LeaveCriticalSection s) = items s" "blocks (LeaveCriticalSection s) = blocks s"
  "pCurrent (LeaveCriticalSection s) = pCurrent s" "bInited (LeaveCriticalSection s) = bInited s"
  "critDepth (LeaveCriticalSection s) = critDepth s - 1" "traceLog (LeaveCriticalSection s) = traceLog s"
  by (simp_all add: LeaveCriticalSection_def)

lemmas exec_simps = wr_eq rd_def Let_def

text \<open>The writes of an insertion, whatever their order, amount to \<open>hook\<close>.\<close>

lemma hook_eq:
  assumes "its a = Some ia" "its b = Some ib" "a \<noteq> q" "b \<noteq> q"
    and "f q = Some \<lparr>pitNext = b, pitPrev = a, pBlock = pc, bAnchor = False, bOK = False, iLen = n, Data = d\<rparr>"
    and "a = b \<Longrightarrow> f a = Some (ia\<lparr>pitNext := q, pitPrev := q\<rparr>)"
    and "a \<noteq> b \<Longrightarrow> f a = Some (ia\<lparr>pitNext := q\<rparr>) \<and> f b = Some (ib\<lparr>pitPrev := q\<rparr>)"
    and "\<And>x. x \<noteq> q \<Longrightarrow> x \<noteq> a \<Longrightarrow> x \<noteq> b \<Longrightarrow> f x = its x"
  shows "f = hook q a b pc n d its"
proof
  fix x
  consider "x = q" | "x = a" "a = b" | "x = a" "a \<noteq> b" | "x = b" "a \<noteq> b" | "x \<noteq> q" "x \<noteq> a" "x \<noteq> b" by blast
  then show "f x = hook q a b pc n d its x"
  proof cases
    case 1
    with assms(5) show ?thesis by (simp add: hook_def)
  next
    case 2
    with assms(1,3) assms(6) show ?thesis by (simp add: hook_def)
  next
    case 3
    with assms(1,3) assms(7) show ?thesis by (simp add: hook_def)
  next
    case 4
    with assms(2,4) assms(7) show ?thesis by (simp add: hook_def)
  next
    case 5
    with assms(8) [of x] show ?thesis by (cases "its x") (simp_all add: hook_def)
  qed
qed

text \<open>\<open>stored\<close>: an insertion routine ended in \<open>s'\<close>, having hung \<open>q\<close> between
  \<open>a\<close> and \<open>b\<close>.\<close>

definition stored :: "'d lheap \<Rightarrow> 'd lheap \<Rightarrow> ptr \<Rightarrow> ptr \<Rightarrow> ptr \<Rightarrow> nat \<Rightarrow> 'd option \<Rightarrow> 'd lheap \<Rightarrow> bool" where
  "stored s s1 q a b n d s' \<longleftrightarrow> items s' = hook q a b (pCurrent s1) n d (items s) \<and>
    blocks s' = blocks s1 \<and> pCurrent s' = pCurrent s1 \<and> critDepth s' = critDepth s1 - 1 \<and>
    bInited s' = bInited s1 \<and> traceLog s' = traceLog s1"

lemma List_AddFirst_exec:
  assumes A: "list_Alloc ga (iHeaderSize + n) s = Some (q, s1)"
    and s1: "items s1 = (items s)(q \<mapsto> zero_item)" "q \<noteq> NULL" "l \<noteq> NULL" and q: "items s q = None"
    and it: "items s l = Some ia" "items s (pitNext ia) = Some ib"
    and room: "cursor q + n \<le> pCurrent s1 + sizeof_BLOCK"
  shows "\<exists>s'. List_AddFirst ga l  obj n s = Some s' \<and> stored s s1 q l (pitNext ia) n (Some obj) s'"
proof -
  have ne: "l \<noteq> q" "q \<noteq> l" "(pitNext ia) \<noteq> q" "q \<noteq> (pitNext ia)" using it q by auto
  show ?thesis
    using A s1 it ne room
    by (simp add: List_AddFirst_def exec_simps copy_data_def stored_def) (auto intro!: hook_eq simp: zero_item_def)
qed

lemma List_NewFirst_exec:
  assumes A: "list_Alloc ga (iHeaderSize + n) s = Some (q, s1)"
    and s1: "items s1 = (items s)(q \<mapsto> zero_item)" "q \<noteq> NULL" "l \<noteq> NULL" and q: "items s q = None"
    and it: "items s l = Some ia" "items s (pitNext ia) = Some ib"
  shows "\<exists>s'. List_NewFirst ga l  n s = Some (cursor q, s') \<and> stored s s1 q l (pitNext ia) n None s'"
proof -
  have ne: "l \<noteq> q" "q \<noteq> l" "(pitNext ia) \<noteq> q" "q \<noteq> (pitNext ia)" using it q by auto
  show ?thesis
    using A s1 it ne
    by (simp add: List_NewFirst_def exec_simps stored_def) (auto intro!: hook_eq simp: zero_item_def)
qed

lemma List_AddLast_exec:
  assumes A: "list_Alloc ga (iHeaderSize + n) s = Some (q, s1)"
    and s1: "items s1 = (items s)(q \<mapsto> zero_item)" "q \<noteq> NULL" "l \<noteq> NULL" and q: "items s q = None"
    and it: "items s l = Some ib" "items s (pitPrev ib) = Some ia"
    and room: "cursor q + n \<le> pCurrent s1 + sizeof_BLOCK"
  shows "\<exists>s'. List_AddLast ga l  obj n s = Some s' \<and> stored s s1 q (pitPrev ib) l n (Some obj) s'"
proof -
  have ne: "(pitPrev ib) \<noteq> q" "q \<noteq> (pitPrev ib)" "l \<noteq> q" "q \<noteq> l" using it q by auto
  show ?thesis
    using A s1 it ne room
    by (simp add: List_AddLast_def exec_simps copy_data_def stored_def) (auto intro!: hook_eq simp: zero_item_def)
qed

lemma List_NewLast_exec:
  assumes A: "list_Alloc ga (iHeaderSize + n) s = Some (q, s1)"
    and s1: "items s1 = (items s)(q \<mapsto> zero_item)" "q \<noteq> NULL" "l \<noteq> NULL" and q: "items s q = None"
    and it: "items s l = Some ib" "items s (pitPrev ib) = Some ia"
  shows "\<exists>s'. List_NewLast ga l  n s = Some (cursor q, s') \<and> stored s s1 q (pitPrev ib) l n None s'"
proof -
  have ne: "(pitPrev ib) \<noteq> q" "q \<noteq> (pitPrev ib)" "l \<noteq> q" "q \<noteq> l" using it q by auto
  show ?thesis
    using A s1 it ne
    by (simp add: List_NewLast_def exec_simps stored_def) (auto intro!: hook_eq simp: zero_item_def)
qed

lemma List_AddAfter_exec:
  assumes A: "list_Alloc ga (iHeaderSize + n) s = Some (q, s1)"
    and s1: "items s1 = (items s)(q \<mapsto> zero_item)" "q \<noteq> NULL" "l \<noteq> NULL" and q: "items s q = None"
    and it: "items s c = Some ia" "items s (pitNext ia) = Some ib"
    and room: "cursor q + n \<le> pCurrent s1 + sizeof_BLOCK"
  shows "\<exists>s'. List_AddAfter ga l (cursor c) obj n s = Some s' \<and> stored s s1 q c (pitNext ia) n (Some obj) s'"
proof -
  have ne: "c \<noteq> q" "q \<noteq> c" "(pitNext ia) \<noteq> q" "q \<noteq> (pitNext ia)" using it q by auto
  show ?thesis
    using A s1 it ne room
    by (simp add: List_AddAfter_def exec_simps copy_data_def stored_def) (auto intro!: hook_eq simp: zero_item_def)
qed

lemma List_NewAfter_exec:
  assumes A: "list_Alloc ga (iHeaderSize + n) s = Some (q, s1)"
    and s1: "items s1 = (items s)(q \<mapsto> zero_item)" "q \<noteq> NULL" "l \<noteq> NULL" and q: "items s q = None"
    and it: "items s c = Some ia" "items s (pitNext ia) = Some ib"
  shows "\<exists>s'. List_NewAfter ga l (cursor c) n s = Some (cursor q, s') \<and> stored s s1 q c (pitNext ia) n None s'"
proof -
  have ne: "c \<noteq> q" "q \<noteq> c" "(pitNext ia) \<noteq> q" "q \<noteq> (pitNext ia)" using it q by auto
  show ?thesis
    using A s1 it ne
    by (simp add: List_NewAfter_def exec_simps stored_def) (auto intro!: hook_eq simp: zero_item_def)
qed

lemma List_AddBefore_exec:
  assumes A: "list_Alloc ga (iHeaderSize + n) s = Some (q, s1)"
    and s1: "items s1 = (items s)(q \<mapsto> zero_item)" "q \<noteq> NULL" "l \<noteq> NULL" and q: "items s q = None"
    and it: "items s c = Some ib" "items s (pitPrev ib) = Some ia"
    and room: "cursor q + n \<le> pCurrent s1 + sizeof_BLOCK"
  shows "\<exists>s'. List_AddBefore ga l (cursor c) obj n s = Some s' \<and> stored s s1 q (pitPrev ib) c n (Some obj) s'"
proof -
  have ne: "(pitPrev ib) \<noteq> q" "q \<noteq> (pitPrev ib)" "c \<noteq> q" "q \<noteq> c" using it q by auto
  show ?thesis
    using A s1 it ne room
    by (simp add: List_AddBefore_def exec_simps copy_data_def stored_def) (auto intro!: hook_eq simp: zero_item_def)
qed

lemma List_NewBefore_exec:
  assumes A: "list_Alloc ga (iHeaderSize + n) s = Some (q, s1)"
    and s1: "items s1 = (items s)(q \<mapsto> zero_item)" "q \<noteq> NULL" "l \<noteq> NULL" and q: "items s q = None"
    and it: "items s c = Some ib" "items s (pitPrev ib) = Some ia"
  shows "\<exists>s'. List_NewBefore ga l (cursor c) n s = Some (cursor q, s') \<and> stored s s1 q (pitPrev ib) c n None s'"
proof -
  have ne: "(pitPrev ib) \<noteq> q" "q \<noteq> (pitPrev ib)" "c \<noteq> q" "q \<noteq> c" using it q by auto
  show ?thesis
    using A s1 it ne
    by (simp add: List_NewBefore_def exec_simps stored_def) (auto intro!: hook_eq simp: zero_item_def)
qed

text \<open>Both outcomes of the allocation that every insertion starts with.\<close>

lemma insertion_cases:
  assumes W: "wf s L" "L l = Some (xs @ ys)" and ga: "galloc_ok ga"
  obtains (stored) q s1 ia ib where "list_Alloc ga (iHeaderSize + n) s = Some (q, s1)" "q \<noteq> NULL"
      "l \<noteq> NULL" "items s1 = (items s)(q \<mapsto> zero_item)" "items s q = None"
      "items s (last (l # xs)) = Some ia" "pitNext ia = hd (ys @ [l])"
      "items s (hd (ys @ [l])) = Some ib" "pitPrev ib = last (l # xs)"
      "\<And>s' d. stored s s1 q (last (l # xs)) (hd (ys @ [l])) n d s' \<Longrightarrow> inserted s L l xs ys n d q s'"
      "fitting (iHeaderSize + n) \<Longrightarrow> cursor q + n \<le> pCurrent s1 + sizeof_BLOCK"
  | (refused) s1 where "list_Alloc ga (iHeaderSize + n) s = Some (NULL, s1)" "l \<noteq> NULL"
      "items s1 l \<noteq> None" "refused s L l (upd_item l (\<lambda>i. i\<lparr>bOK := False\<rparr>) s1)"
proof -
  have H: "heap_ok s" using W(1) by (simp add: wf_def)
  have l0: "l \<noteq> NULL" using wf_nonnull [OF W] by simp
  have "iAnchorSize \<le> iHeaderSize + n" by (simp add: size_defs)
  from list_Alloc_spec [OF H ga this] obtain q s1 where
    A: "list_Alloc ga (iHeaderSize + n) s = Some (q, s1)"
    and or: "q \<noteq> NULL \<and> allocated (iHeaderSize + n) s q s1 \<or> q = NULL \<and> alloc_failed s s1" by blast
  from or show thesis
  proof
    assume al: "q \<noteq> NULL \<and> allocated (iHeaderSize + n) s q s1"
    have dls: "dls (nxt s) (prv s) l (xs @ [] @ ys) l"
      using wf_ring [OF W] by (simp add: ring_def)
    from dls_middle [OF dls] have "nxt s (last (l # xs)) = Some (hd (ys @ [l]))"
      "prv s (hd (ys @ [l])) = Some (last (l # xs))" by simp_all
    then obtain ia ib where "items s (last (l # xs)) = Some ia" "pitNext ia = hd (ys @ [l])"
      "items s (hd (ys @ [l])) = Some ib" "pitPrev ib = last (l # xs)"
      by (auto simp: nxt_def prv_def simp del: last.simps)
    moreover have "inserted s L l xs ys n d q s'"
      if "stored s s1 q (last (l # xs)) (hd (ys @ [l])) n d s'" for s' d
      by (rule hook_inserted [OF W conjunct2 [OF al]]) (use that in \<open>simp_all add: stored_def\<close>)
    moreover have "items s1 = (items s)(q \<mapsto> zero_item)" "items s q = None"
      using al by (simp_all add: allocated_def)
    moreover have "cursor q + n \<le> pCurrent s1 + sizeof_BLOCK" if "fitting (iHeaderSize + n)"
      using allocated_where(3) [OF conjunct2 [OF al] _ that] that by (simp add: fitting_def cursor_def)
    ultimately show thesis using al by (intro stored [OF A _ l0]) simp_all
  next
    assume f: "q = NULL \<and> alloc_failed s s1"
    then have s1: "s1 = s\<lparr>critDepth := critDepth s + 1, pCurrent := NULL, allocCalls := Suc (allocCalls s)\<rparr>"
      by (simp add: alloc_failed_def)
    obtain i where i: "items s l = Some i" using wf_anchor [OF W] by auto
    let ?s' = "upd_item l (\<lambda>i. i\<lparr>bOK := False\<rparr>) s1"
    have "nxt ?s' = nxt s" "prv ?s' = prv s" "anc ?s' = anc s" "own ?s' = own s" "dat ?s' = dat s"
      "okf ?s' = (okf s)(l \<mapsto> False)"
      using i unfolding s1 obs_upd_item
      by (auto simp: fun_eq_iff nxt_def prv_def anc_def own_def dat_def okf_def item_size_def)
    moreover have "alloc_ok (blocks s) NULL (own s)"
      using H unfolding alloc_ok_def chained_def linked_def by blast
    moreover have "dom (items ?s') = dom (items s)" using i by (auto simp: s1)
    ultimately have "refused s L l ?s'"
      using W(1) by (simp add: refused_def wf_def s1)
    then show thesis using refused A f l0 i by (auto simp: s1)
  qed
qed

text \<open>The eight insertion routines.  \<open>inserts f s L l xs ys n d\<close>: running \<open>f\<close> either
  hangs a new item with data \<open>d\<close> between \<open>xs\<close> and \<open>ys\<close>, or finds no storage.\<close>

definition inserts :: "('d lheap \<Rightarrow> (ptr \<times> 'd lheap) option) \<Rightarrow> 'd lheap \<Rightarrow> view \<Rightarrow> ptr \<Rightarrow> ptr list \<Rightarrow> ptr list
    \<Rightarrow> nat \<Rightarrow> 'd option \<Rightarrow> bool" where
  "inserts f s L l xs ys n d \<longleftrightarrow>
     (\<exists>q s'. f s = Some (cursor q, s') \<and> inserted s L l xs ys n d q s') \<or>
     (\<exists>s'. f s = Some (NULL, s') \<and> refused s L l s')"

definition inserts_only :: "('d lheap \<Rightarrow> 'd lheap option) \<Rightarrow> 'd lheap \<Rightarrow> view \<Rightarrow> ptr \<Rightarrow> ptr list \<Rightarrow> ptr list
    \<Rightarrow> nat \<Rightarrow> 'd option \<Rightarrow> bool" where
  "inserts_only f s L l xs ys n d \<longleftrightarrow>
     (\<exists>s'. f s = Some s' \<and> ((\<exists>q. inserted s L l xs ys n d q s') \<or> refused s L l s'))"

lemma List_AddFirst_spec:
  assumes W: "wf s L" "L l = Some (xs)" and ga: "galloc_ok ga" and n: "fitting (iHeaderSize + n)"
  shows "inserts_only (List_AddFirst ga l obj n) s L l [] xs n (Some obj)"
proof -
  have W2: "L l = Some ([] @ xs)" using W(2) by simp
  show ?thesis
  proof (rule insertion_cases [OF W(1) W2 ga, where n = n], goal_cases)
    case (1 q s1 ia ib)
    then show ?case using List_AddFirst_exec [OF 1(1) 1(4,2,3,5) _ _ 1(11) [OF n]] by (force simp: inserts_only_def)
  next
    case (2 s1)
    then show ?case by (simp add: inserts_only_def List_AddFirst_def exec_simps)
  qed
qed

text \<open>An object larger than a block: the copy leaves the block.\<close>

lemma List_AddFirst_overrun:
  assumes W: "wf s L" "L l = Some xs" and ga: "galloc_ok ga" and n: "BLOCKSIZE + 1 < iHeaderSize + n"
    and A: "list_Alloc ga (iHeaderSize + n) s = Some (q, s1)" "q \<noteq> NULL"
  shows "List_AddFirst ga l obj n s = None"
proof -
  have W2: "L l = Some ([] @ xs)" using W(2) by simp
  have H: "heap_ok s" using W(1) by (simp add: wf_def)
  have "iAnchorSize \<le> iHeaderSize + n" by (simp add: size_defs)
  from list_Alloc_spec [OF H ga this] A have al: "allocated (iHeaderSize + n) s q s1" by auto
  then have "item_fits (pCurrent s1) q (iHeaderSize + n)"
    using placedD(2) [of "blocks s1" "(own s)(q \<mapsto> (pCurrent s1, iHeaderSize + n))" q] by (simp add: allocated_def alloc_ok_def)
  moreover have "pCurrent s1 + chData \<le> q"
    using al placedD(1) [of "blocks s1" "(own s)(q \<mapsto> (pCurrent s1, iHeaderSize + n))" q] by (auto simp: allocated_def alloc_ok_def)
  ultimately have room: "pCurrent s1 + sizeof_BLOCK < cursor q + n" "n \<noteq> 0"
    using n by (auto simp: item_fits_def cursor_def size_defs)
  have it: "items s1 = (items s)(q \<mapsto> zero_item)" "items s q = None" using al by (simp_all add: allocated_def)
  obtain ia where ia: "items s l = Some ia" "pitNext ia = hd (xs @ [l])" using wf_anchor [OF W] by auto
  have "hd (xs @ [l]) \<in> set (l # xs)" by (cases xs) simp_all
  then obtain ib where ib: "items s (pitNext ia) = Some ib" using wf_item [OF W] ia(2) by metis
  have "l \<noteq> NULL" by (rule wf_nonnull [OF W]) simp
  moreover have "l \<noteq> q" "q \<noteq> l" "pitNext ia \<noteq> q" "q \<noteq> pitNext ia" using ia ib it(2) by auto
  ultimately show ?thesis using A it(1) ia(1) ib room
    by (simp add: List_AddFirst_def exec_simps copy_data_def zero_item_def)
qed

lemma List_NewFirst_spec:
  assumes W: "wf s L" "L l = Some (xs)" and ga: "galloc_ok ga"
  shows "inserts (List_NewFirst ga l n) s L l [] xs n None"
proof -
  have W2: "L l = Some ([] @ xs)" using W(2) by simp
  show ?thesis
  proof (rule insertion_cases [OF W(1) W2 ga, where n = n], goal_cases)
    case (1 q s1 ia ib)
    then show ?case using List_NewFirst_exec [OF 1(1) 1(4,2,3,5)] by (force simp: inserts_def)
  next
    case (2 s1)
    then show ?case by (simp add: inserts_def List_NewFirst_def exec_simps)
  qed
qed

lemma List_AddLast_spec:
  assumes W: "wf s L" "L l = Some (xs)" and ga: "galloc_ok ga" and n: "fitting (iHeaderSize + n)"
  shows "inserts_only (List_AddLast ga l obj n) s L l xs [] n (Some obj)"
proof -
  have W2: "L l = Some (xs @ [])" using W(2) by simp
  show ?thesis
  proof (rule insertion_cases [OF W(1) W2 ga, where n = n], goal_cases)
    case (1 q s1 ia ib)
    then show ?case using List_AddLast_exec [OF 1(1) 1(4,2,3,5) _ _ 1(11) [OF n]] by (force simp: inserts_only_def)
  next
    case (2 s1)
    then show ?case by (simp add: inserts_only_def List_AddLast_def exec_simps)
  qed
qed

lemma List_NewLast_spec:
  assumes W: "wf s L" "L l = Some (xs)" and ga: "galloc_ok ga"
  shows "inserts (List_NewLast ga l n) s L l xs [] n None"
proof -
  have W2: "L l = Some (xs @ [])" using W(2) by simp
  show ?thesis
  proof (rule insertion_cases [OF W(1) W2 ga, where n = n], goal_cases)
    case (1 q s1 ia ib)
    then show ?case using List_NewLast_exec [OF 1(1) 1(4,2,3,5)] by (force simp: inserts_def)
  next
    case (2 s1)
    then show ?case by (simp add: inserts_def List_NewLast_def exec_simps)
  qed
qed

lemma List_AddAfter_spec:
  assumes W: "wf s L" "L l = Some (xs @ c # ys)" and ga: "galloc_ok ga" and n: "fitting (iHeaderSize + n)"
  shows "inserts_only (List_AddAfter ga l (cursor c) obj n) s L l (xs @ [c]) ys n (Some obj)"
proof -
  have W2: "L l = Some ((xs @ [c]) @ ys)" using W(2) by simp
  show ?thesis
  proof (rule insertion_cases [OF W(1) W2 ga, where n = n], goal_cases)
    case (1 q s1 ia ib)
    then show ?case using List_AddAfter_exec [OF 1(1) 1(4,2,3,5) _ _ 1(11) [OF n]] by (force simp: inserts_only_def)
  next
    case (2 s1)
    then show ?case by (simp add: inserts_only_def List_AddAfter_def exec_simps)
  qed
qed

lemma List_NewAfter_spec:
  assumes W: "wf s L" "L l = Some (xs @ c # ys)" and ga: "galloc_ok ga"
  shows "inserts (List_NewAfter ga l (cursor c) n) s L l (xs @ [c]) ys n None"
proof -
  have W2: "L l = Some ((xs @ [c]) @ ys)" using W(2) by simp
  show ?thesis
  proof (rule insertion_cases [OF W(1) W2 ga, where n = n], goal_cases)
    case (1 q s1 ia ib)
    then show ?case using List_NewAfter_exec [OF 1(1) 1(4,2,3,5)] by (force simp: inserts_def)
  next
    case (2 s1)
    then show ?case by (simp add: inserts_def List_NewAfter_def exec_simps)
  qed
qed

lemma List_AddBefore_spec:
  assumes W: "wf s L" "L l = Some (xs @ c # ys)" and ga: "galloc_ok ga" and n: "fitting (iHeaderSize + n)"
  shows "inserts_only (List_AddBefore ga l (cursor c) obj n) s L l xs (c # ys) n (Some obj)"
proof -
  have W2: "L l = Some (xs @ (c # ys))" using W(2) by simp
  show ?thesis
  proof (rule insertion_cases [OF W(1) W2 ga, where n = n], goal_cases)
    case (1 q s1 ia ib)
    then show ?case using List_AddBefore_exec [OF 1(1) 1(4,2,3,5) _ _ 1(11) [OF n]] by (force simp: inserts_only_def)
  next
    case (2 s1)
    then show ?case by (simp add: inserts_only_def List_AddBefore_def exec_simps)
  qed
qed

lemma List_NewBefore_spec:
  assumes W: "wf s L" "L l = Some (xs @ c # ys)" and ga: "galloc_ok ga"
  shows "inserts (List_NewBefore ga l (cursor c) n) s L l xs (c # ys) n None"
proof -
  have W2: "L l = Some (xs @ (c # ys))" using W(2) by simp
  show ?thesis
  proof (rule insertion_cases [OF W(1) W2 ga, where n = n], goal_cases)
    case (1 q s1 ia ib)
    then show ?case using List_NewBefore_exec [OF 1(1) 1(4,2,3,5)] by (force simp: inserts_def)
  next
    case (2 s1)
    then show ?case by (simp add: inserts_def List_NewBefore_def exec_simps)
  qed
qed

end
