(* ===== verification/Gutils_List_Delete.thy ===== *)
theory Gutils_List_Delete
  imports Gutils_List_Correct
begin

text \<open>
  Functional correctness of the operations of \<open>list.c\<close> that create and destroy lists
  and that delete items: \<open>List_Create\<close>, the five single deletions,
  \<open>List_Clear\<close> and \<open>List_Destroy\<close>.  The storage of every deleted item
  goes back to its block (the storage invariant is part of \<open>wf\<close>), and the data of the
  items that stay is untouched.
\<close>

subsection \<open>Creating a list\<close>

lemma obs_cong:
  assumes "items s' = items s"
  shows "nxt s' = nxt s" "prv s' = prv s" "anc s' = anc s" "own s' = own s" "dat s' = dat s" "okf s' = okf s"
  using assms by (simp_all add: fun_eq_iff nxt_def prv_def anc_def own_def dat_def okf_def)

lemma wf_cong:
  assumes "wf s L" "items s' = items s" "blocks s' = blocks s" "pCurrent s' = pCurrent s \<or> pCurrent s' = NULL"
  shows "wf s' L"
proof -
  have "alloc_ok (blocks s) NULL (own s)"
    using assms(1) unfolding wf_def alloc_ok_def chained_def linked_def by blast
  then show ?thesis using assms obs_cong [OF assms(2)] by (auto simp: wf_def)
qed

definition created :: "'d lheap \<Rightarrow> view \<Rightarrow> ptr \<Rightarrow> 'd lheap \<Rightarrow> bool" where
  "created s L l s' \<longleftrightarrow> l \<noteq> NULL \<and> l \<notin> cells L \<and> wf s' (L(l \<mapsto> [])) \<and> dat s' = (dat s)(l \<mapsto> None) \<and>
     okf s' = (okf s)(l \<mapsto> True) \<and> bInited s' \<and> critDepth s' = (if bInited s then critDepth s else 0) \<and>
     traceLog s' = traceLog s"

lemma List_Init_simps [simp]:
  "items (List_Init s) = items s" "blocks (List_Init s) = blocks s" "pCurrent (List_Init s) = pCurrent s"
  "bInited (List_Init s)" "critDepth (List_Init s) = 0" "traceLog (List_Init s) = traceLog s"
  by (simp_all add: List_Init_def)

lemma anchored_created:
  assumes W: "wf s L" and A: "allocated iAnchorSize s l s1"
    and it: "items s' = (items s)(l \<mapsto> \<lparr>pitNext = l, pitPrev = l, pBlock = pCurrent s1, bAnchor = True,
      bOK = True, iLen = 0, Data = None\<rparr>)"
    and s': "blocks s' = blocks s1" "pCurrent s' = pCurrent s1"
  shows "l \<notin> cells L" "wf s' (L(l \<mapsto> []))" "dat s' = (dat s)(l \<mapsto> None)" "okf s' = (okf s)(l \<mapsto> True)"
proof -
  have l: "items s l = None" using A by (simp add: allocated_def)
  show lc: "l \<notin> cells L" using l wf_live [OF W] by blast
  have O: "nxt s' = (nxt s)(l \<mapsto> l)" "prv s' = (prv s)(l \<mapsto> l)" "anc s' = (anc s)(l \<mapsto> True)"
    "own s' = (own s)(l \<mapsto> (pCurrent s1, iAnchorSize))"
    by (auto simp: fun_eq_iff nxt_def prv_def anc_def own_def item_size_def it)
  show "dat s' = (dat s)(l \<mapsto> None)" "okf s' = (okf s)(l \<mapsto> True)"
    by (auto simp: fun_eq_iff dat_def okf_def it)
  have Ll: "L l = None" using lc in_cellsI [of L l] by (cases "L l") auto
  have "links_ok (nxt s') (prv s') (anc s') L"
    by (rule links_cong [of "nxt s" "prv s" "anc s"]) (use W lc in \<open>auto simp: wf_def O\<close>)
  moreover have "ring (nxt s') (prv s') (anc s') l []" by (rule ring_empty) (simp_all add: O)
  ultimately have "links_ok (nxt s') (prv s') (anc s') (L(l \<mapsto> []))"
    using lc Ll by (simp add: links_put)
  moreover have "dom (items s') = cells (L(l \<mapsto> []))"
    using W cells_put [of L l "[]", OF Ll] by (simp add: wf_def it)
  moreover have "heap_ok s'" using A unfolding s' O allocated_def by blast
  ultimately show "wf s' (L(l \<mapsto> []))" by (simp add: wf_def)
qed

lemma List_Create_spec:
  assumes W: "wf s L" and ga: "galloc_ok ga"
  shows "\<exists>l s'. List_Create ga s = Some (l, s') \<and>
    (created s L l s' \<or>
     l = NULL \<and> wf s' L \<and> dat s' = dat s \<and> okf s' = okf s \<and>
       critDepth s' = (if bInited s then critDepth s else 0) + 1)"
proof -
  define s0 where "s0 = (if \<not> bInited s then List_Init s else s)"
  have s0: "items s0 = items s" "blocks s0 = blocks s" "pCurrent s0 = pCurrent s" "bInited s0"
    "critDepth s0 = (if bInited s then critDepth s else 0)" "traceLog s0 = traceLog s"
    by (simp_all add: s0_def)
  have W0: "wf s0 L" by (rule wf_cong [OF W s0(1,2) disjI1 [OF s0(3)]])
  have d0: "dat s0 = dat s" "okf s0 = okf s" by (simp_all add: fun_eq_iff dat_def okf_def s0)
  have H: "heap_ok s0" using W0 by (simp add: wf_def)
  from list_Alloc_spec [OF H ga order_refl] obtain q s1 where
    A: "list_Alloc ga iAnchorSize s0 = Some (q, s1)"
    and or: "q \<noteq> NULL \<and> allocated iAnchorSize s0 q s1 \<or> q = NULL \<and> alloc_failed s0 s1" by blast
  from or show ?thesis
  proof
    assume al: "q \<noteq> NULL \<and> allocated iAnchorSize s0 q s1"
    then have i1: "items s1 = (items s0)(q \<mapsto> zero_item)" "critDepth s1 = critDepth s0 + 1"
      "bInited s1 = bInited s0" "traceLog s1 = traceLog s0" by (simp_all add: allocated_def)
    have "\<exists>s'. List_Create ga s = Some (q, s') \<and> blocks s' = blocks s1 \<and> pCurrent s' = pCurrent s1 \<and>
       items s' = (items s0)(q \<mapsto> \<lparr>pitNext = q, pitPrev = q, pBlock = pCurrent s1, bAnchor = True,
         bOK = True, iLen = 0, Data = None\<rparr>) \<and> bInited s' \<and> critDepth s' = critDepth s0 \<and>
       traceLog s' = traceLog s0"
      using al A i1 s0 unfolding List_Create_def Let_def s0_def [symmetric]
      by (simp add: exec_simps zero_item_def)
    then obtain s' where *: "List_Create ga s = Some (q, s')" "blocks s' = blocks s1" "pCurrent s' = pCurrent s1"
       "items s' = (items s0)(q \<mapsto> \<lparr>pitNext = q, pitPrev = q, pBlock = pCurrent s1, bAnchor = True,
         bOK = True, iLen = 0, Data = None\<rparr>)" "bInited s'" "critDepth s' = critDepth s0"
       "traceLog s' = traceLog s0" by blast
    note C = anchored_created [OF W0 conjunct2 [OF al] *(4,2,3)]
    have "created s L q s'" using C * al s0 d0 by (simp add: created_def)
    with * show ?thesis by blast
  next
    assume f: "q = NULL \<and> alloc_failed s0 s1"
    have "List_Create ga s = Some (NULL, s1)"
      using A f unfolding List_Create_def Let_def s0_def [symmetric] by simp
    moreover have s1: "s1 = s0\<lparr>critDepth := critDepth s0 + 1, pCurrent := NULL, allocCalls := Suc (allocCalls s0)\<rparr>"
      using f by (simp add: alloc_failed_def)
    moreover have "wf s1 L" by (rule wf_cong [OF W0]) (simp_all add: s1)
    moreover have "dat s1 = dat s0" "okf s1 = okf s0" by (rule obs_cong, simp add: s1)+
    ultimately show ?thesis using d0 s0 by simp
  qed
qed

subsection \<open>Deleting an item\<close>

definition removed :: "'d lheap \<Rightarrow> view \<Rightarrow> ptr \<Rightarrow> ptr list \<Rightarrow> ptr list \<Rightarrow> ptr \<Rightarrow> 'd lheap \<Rightarrow> bool" where
  "removed s L l xs ys c s' \<longleftrightarrow> wf s' (L(l \<mapsto> xs @ ys)) \<and>
     dat s' = (dat s)(c := None) \<and> okf s' = (okf s)(c := None) \<and>
     critDepth s' = critDepth s \<and> bInited s' = bInited s \<and> traceLog s' = traceLog s"

lemma heap_ok_upd_link:
  assumes "heap_ok s" and "\<And>i. pBlock (f i) = pBlock i \<and> bAnchor (f i) = bAnchor i \<and> iLen (f i) = iLen i"
  shows "heap_ok (upd_item p f s)" "own (upd_item p f s) = own s"
proof -
  show O: "own (upd_item p f s) = own s"
    by (rule ext, cases "items s p") (auto simp: own_def item_size_def assms(2))
  show "heap_ok (upd_item p f s)" using assms(1) by (simp add: O)
qed

text \<open>The state just before the item is freed.\<close>

definition unlinked :: "ptr \<Rightarrow> ptr \<Rightarrow> 'd lheap \<Rightarrow> 'd lheap" where
  "unlinked a b s = upd_item a (\<lambda>i. i\<lparr>pitNext := b\<rparr>) (upd_item b (\<lambda>i. i\<lparr>pitPrev := a\<rparr>) s)"

lemma unlink_free:
  assumes W: "wf s L" "L l = Some (xs @ c # ys)" and c: "items s c = Some ic"
    and a: "a = last (l # xs)" and b: "b = hd (ys @ [l])"
  shows "\<exists>s'. list_Free (pBlock ic) c (unlinked a b s) = Some s' \<and> removed s L l xs ys c s'"
proof -
  let ?s = "unlinked a b s"
  have mem: "a \<in> set (l # xs @ c # ys)" "b \<in> set (l # xs @ c # ys)"
    using a b last_Cons_in [of l xs] hd_append_in [of ys l] by auto
  have R: "ring (nxt s) (prv s) (anc s) l (xs @ c # ys)" by (rule wf_ring [OF W])
  have D: "c \<notin> set (l # xs @ ys)" using R by (auto simp: ring_def)
  have ne: "a \<noteq> c" "b \<noteq> c" using D a b last_Cons_in [of l xs] hd_append_in [of ys l] by auto
  obtain ia ib where I: "items s a = Some ia" "items s b = Some ib"
    using wf_item [OF W mem(1)] wf_item [OF W mem(2)] by auto
  have H: "heap_ok ?s" "own ?s = own s"
    using W(1) unfolding unlinked_def wf_def by (simp_all add: heap_ok_upd_link)
  have O: "nxt ?s = (nxt s)(a \<mapsto> b)" "prv ?s = (prv s)(b \<mapsto> a)" "anc ?s = anc s"
    "dat ?s = dat s" "okf ?s = okf s"
    using I unfolding unlinked_def obs_upd_item
    by (auto simp: fun_eq_iff nxt_def prv_def anc_def dat_def okf_def)
  have "own ?s c = Some (pBlock ic, item_size ic)" using c by (simp add: H(2) own_def)
  from list_Free_spec [OF H(1) this] obtain s' where
    s': "list_Free (pBlock ic) c ?s = Some s'" and F: "freed c ?s s'" by blast
  have items': "items s' = (items ?s)(c := None)" using F by (simp add: freed_def)
  have O': "nxt s' = ((nxt s)(a \<mapsto> b))(c := None)" "prv s' = ((prv s)(b \<mapsto> a))(c := None)"
    "anc s' = (anc s)(c := None)" "dat s' = (dat s)(c := None)" "okf s' = (okf s)(c := None)"
    "own s' = (own s)(c := None)"
    unfolding O [symmetric] H(2) [symmetric]
    by (auto simp: fun_eq_iff nxt_def prv_def anc_def dat_def okf_def own_def items')
  have "links_ok (nxt s') (prv s') (anc s') (L(l \<mapsto> xs @ ys))"
  proof (rule links_change)
    show "links_ok (nxt s) (prv s) (anc s) L" using W(1) by (simp add: wf_def)
    show "L l = Some (xs @ c # ys)" by (rule W(2))
    show "ring (nxt s') (prv s') (anc s') l (xs @ ys)"
      unfolding O' by (rule ring_delete [OF R a b])
    show "nxt s' x = nxt s x \<and> prv s' x = prv s x \<and> anc s' x = anc s x"
      if "x \<notin> set (l # xs @ c # ys)" for x
      unfolding O' using that mem by auto
    show "set (xs @ ys) \<inter> cells (L(l := None)) = {}"
      using links_get(3) [of "nxt s" "prv s" "anc s" L l "xs @ c # ys"] W by (auto simp: wf_def)
  qed
  moreover have "dom (items s') = cells (L(l \<mapsto> xs @ ys))"
  proof -
    have "dom (items s') = dom (items s) - {c}" using dom_obs(4) [of s'] O'(6) dom_obs(4) [of s] by simp
    also have "\<dots> = cells L - {c}" using W(1) by (simp add: wf_def)
    also have "\<dots> = cells (L(l \<mapsto> xs @ ys))"
      using cells_get [of L l "xs @ c # ys", OF W(2)] cells_put [of "L(l := None)" l "xs @ ys"] D
        links_get(3) [of "nxt s" "prv s" "anc s" L l "xs @ c # ys"] W by (auto simp: wf_def)
    finally show ?thesis .
  qed
  moreover have "heap_ok s'" using F unfolding O' freed_def H by simp
  ultimately have "removed s L l xs ys c s'"
    using F O' by (simp add: removed_def wf_def freed_def unlinked_def)
  with s' show ?thesis by blast
qed

text \<open>What the item at \<open>c\<close> and its neighbours look like before a deletion.\<close>

lemma deletion_setup:
  assumes W: "wf s L" "L l = Some (xs @ c # ys)"
  obtains ic a b ia ib where "items s c = Some ic" "pitNext ic = b" "pitPrev ic = a"
    "items s a = Some ia" "items s b = Some ib" "a \<noteq> c" "b \<noteq> c" "c \<noteq> NULL" "l \<noteq> NULL"
    "a = l \<longleftrightarrow> xs = []" "b = l \<longleftrightarrow> ys = []" "xs \<noteq> [] \<Longrightarrow> a = last xs" "ys \<noteq> [] \<Longrightarrow> b = hd ys"
    "a \<in> set (l # xs @ ys)" "b \<in> set (l # xs @ ys)"
    "\<exists>s'. list_Free (pBlock ic) c (unlinked a b s) = Some s' \<and> removed s L l xs ys c s'"
proof -
  define a b where ab: "a = last (l # xs)" "b = hd (ys @ [l])"
  obtain ic where ic: "items s c = Some ic" "pitNext ic = b" "pitPrev ic = a"
    using wf_at [OF W] ab by auto
  have D: "distinct (l # xs @ c # ys)" using wf_ring [OF W] by (simp add: ring_def)
  have mem: "a \<in> set (l # xs)" "b \<in> set (ys @ [l])"
    unfolding ab using last_Cons_in [of l xs] hd_append_in [of ys l] by auto
  have A: "a = l \<longleftrightarrow> xs = []" "xs \<noteq> [] \<Longrightarrow> a = last xs" unfolding ab using D by auto
  have B: "b = l \<longleftrightarrow> ys = []" "ys \<noteq> [] \<Longrightarrow> b = hd ys"
    unfolding ab using D by (cases ys; auto)+
  obtain ia ib where "items s a = Some ia" "items s b = Some ib"
    using wf_item [OF W, of a] wf_item [OF W, of b] mem by auto
  moreover have "\<exists>s'. list_Free (pBlock ic) c (unlinked a b s) = Some s' \<and> removed s L l xs ys c s'"
    by (rule unlink_free [OF W ic(1) ab])
  ultimately show thesis
    using mem D wf_nonnull [OF W, of c] wf_nonnull [OF W, of l] A B
    by (intro that [OF ic]) auto
qed

lemma List_Delete_spec:
  assumes W: "wf s L" "L l = Some (xs @ c # ys)"
  shows "\<exists>s'. List_Delete (cursor c) s = Some s' \<and> removed s L l xs ys c s'"
proof (rule deletion_setup [OF W], goal_cases)
  case (1 ic a b ia ib)
  from 1(1-7,16) show ?case
    by (auto simp: List_Delete_def exec_simps unlinked_def)
qed

lemma removed_anchor:
  assumes "removed s L l xs ys c s'" "a \<in> set (l # xs @ ys)"
  shows "\<exists>i. items s' a = Some i \<and> bAnchor i = (a = l)"
  using assms wf_item [of s' "L(l \<mapsto> xs @ ys)" l "xs @ ys"] by (simp add: removed_def)

lemma List_DeleteForwards_spec:
  assumes W: "wf s L" "L l = Some (xs @ c # ys)"
  shows "\<exists>s'. List_DeleteForwards (cursor c) s = Some (if ys = [] then NULL else cursor (hd ys), s') \<and>
    removed s L l xs ys c s'"
proof (rule deletion_setup [OF W], goal_cases)
  case (1 ic a b ia ib)
  then obtain s' where s': "list_Free (pBlock ic) c (unlinked a b s) = Some s'" "removed s L l xs ys c s'"
    by blast
  obtain i where "items s' b = Some i" "bAnchor i = (ys = [])"
    using removed_anchor [OF s'(2) 1(15)] 1(11) by auto
  with 1(1-7,13) s' show ?case
    by (cases "ys = []") (simp_all add: List_DeleteForwards_def exec_simps unlinked_def)
qed

lemma List_DeleteBackwards_spec:
  assumes W: "wf s L" "L l = Some (xs @ c # ys)"
  shows "\<exists>s'. List_DeleteBackwards (cursor c) s = Some (if xs = [] then NULL else cursor (last xs), s') \<and>
    removed s L l xs ys c s'"
proof (rule deletion_setup [OF W], goal_cases)
  case (1 ic a b ia ib)
  then obtain s' where s': "list_Free (pBlock ic) c (unlinked a b s) = Some s'" "removed s L l xs ys c s'"
    by blast
  obtain i where "items s' a = Some i" "bAnchor i = (xs = [])"
    using removed_anchor [OF s'(2) 1(14)] 1(10) by auto
  with 1(1-7,12) s' show ?case
    by (cases "xs = []") (simp_all add: List_DeleteBackwards_def exec_simps unlinked_def)
qed

lemma List_DeleteFirst_spec:
  assumes W: "wf s L" "L l = Some (x # xs)"
  shows "\<exists>s'. List_DeleteFirst l s = Some s' \<and> removed s L l [] xs x s'"
proof -
  have W': "L l = Some ([] @ x # xs)" using W(2) by simp
  obtain il where il: "items s l = Some il" "pitNext il = x" using wf_anchor [OF W] by auto
  have xl: "x \<noteq> l" using wf_ring [OF W] by (auto simp: ring_def)
  show ?thesis
  proof (rule deletion_setup [OF W(1) W'], goal_cases)
    case (1 ic a b ia ib)
    from 1(1-9,16) il xl show ?case
      by (auto simp: List_DeleteFirst_def exec_simps unlinked_def)
  qed
qed

lemma List_DeleteLast_spec:
  assumes W: "wf s L" "L l = Some (xs @ [x])"
  shows "\<exists>s'. List_DeleteLast l s = Some s' \<and> removed s L l xs [] x s'"
proof -
  obtain il where il: "items s l = Some il" "pitPrev il = x" "pitNext il = hd ((xs @ [x]) @ [l])"
    using wf_anchor [OF W] by auto
  have "l \<notin> set (xs @ [x])" using wf_ring [OF W] by (auto simp: ring_def)
  then have xl: "x \<noteq> l" "pitNext il \<noteq> l" using il(3) by (cases xs; auto)+
  show ?thesis
  proof (rule deletion_setup [OF W], goal_cases)
    case (1 ic a b ia ib)
    from 1(1-9,16) il(1,2) xl show ?case
      by (auto simp: List_DeleteLast_def exec_simps unlinked_def)
  qed
qed

text \<open>Deleting from an empty list only marks it as not OK.\<close>

lemma List_Delete_empty:
  assumes W: "wf s L" "L l = Some []"
  shows "List_DeleteFirst l s = Some (upd_item l (\<lambda>i. i\<lparr>bOK := False\<rparr>) s)"
    "List_DeleteLast l s = Some (upd_item l (\<lambda>i. i\<lparr>bOK := False\<rparr>) s)"
proof -
  obtain il where "items s l = Some il" "pitNext il = l" using wf_anchor [OF W] by auto
  moreover have "l \<noteq> NULL" using wf_nonnull [OF W] by simp
  ultimately show "List_DeleteFirst l s = Some (upd_item l (\<lambda>i. i\<lparr>bOK := False\<rparr>) s)"
    "List_DeleteLast l s = Some (upd_item l (\<lambda>i. i\<lparr>bOK := False\<rparr>) s)"
    by (simp_all add: List_DeleteFirst_def List_DeleteLast_def exec_simps)
qed

subsection \<open>Deleting every item\<close>

text \<open>\<open>path n xs e\<close>: following \<open>n\<close> from \<open>hd xs\<close> passes the items of
  \<open>xs\<close> in order and ends in \<open>e\<close>.\<close>

primrec path :: "links \<Rightarrow> ptr list \<Rightarrow> ptr \<Rightarrow> bool" where
  "path n [] e \<longleftrightarrow> True"
| "path n (x # xs) e \<longleftrightarrow> n x = Some (hd (xs @ [e])) \<and> path n xs e"

lemma dls_path: "dls n p a xs e \<Longrightarrow> path n (a # xs) e"
  by (induction xs arbitrary: a) auto

lemma path_cong: "path n xs e \<Longrightarrow> (\<And>x. x \<in> set xs \<Longrightarrow> n' x = n x) \<Longrightarrow> path n' xs e"
  by (induction xs) auto

lemma ring_path: "ring n p an l xs \<Longrightarrow> path n xs l" and ring_path': "ring n p an l xs \<Longrightarrow> path n (l # xs) l"
  using dls_path [of n p l xs l] by (auto simp: ring_def)

definition freed_all :: "ptr list \<Rightarrow> 'd lheap \<Rightarrow> 'd lheap \<Rightarrow> bool" where
  "freed_all xs s s' \<longleftrightarrow> heap_ok s' \<and> items s' = (items s) |` (- set xs) \<and>
     critDepth s' = critDepth s \<and> bInited s' = bInited s \<and> traceLog s' = traceLog s"

lemma freed_all_Nil: "heap_ok s \<Longrightarrow> freed_all [] s s"
  by (simp add: freed_all_def restrict_map_def)

lemma freed_heap_ok: "freed p s s' \<Longrightarrow> heap_ok s'"
proof -
  assume F: "freed p s s'"
  then have "own s' = (own s)(p := None)" by (auto simp: freed_def own_def fun_eq_iff)
  with F show ?thesis by (simp add: freed_def)
qed

lemma freed_all_Cons:
  assumes "freed x s s1" "freed_all xs s1 s2"
  shows "freed_all (x # xs) s s2"
  using assms by (auto simp: freed_all_def freed_def restrict_map_def fun_eq_iff)

lemma freed_path:
  assumes "freed x s s1" "path (nxt s) xs e" "x \<notin> set xs"
  shows "path (nxt s1) xs e"
  by (rule path_cong [OF assms(2)]) (use assms in \<open>auto simp: freed_def nxt_def\<close>)

lemma free_first:
  assumes "heap_ok s" "path (nxt s) (x # xs) e"
  shows "\<exists>i s1. items s x = Some i \<and> pitNext i = hd (xs @ [e]) \<and> list_Free (pBlock i) x s = Some s1 \<and>
    freed x s s1 \<and> heap_ok s1"
proof -
  obtain i where i: "items s x = Some i" "pitNext i = hd (xs @ [e])"
    using assms(2) by (auto dest: obs_SomeD)
  then have "own s x = Some (pBlock i, item_size i)" by (simp add: own_def)
  from list_Free_spec [OF assms(1) this] i show ?thesis using freed_heap_ok by blast
qed

lemma List_Clear_loop_frees:
  assumes "heap_ok s" "path (nxt s) xs l" "distinct (l # xs)"
  shows "\<exists>s'. List_Clear_loop l (hd (xs @ [l])) s = Some s' \<and> freed_all xs s s'"
  using assms
proof (induction xs arbitrary: s)
  case Nil
  then show ?case using freed_all_Nil [of s] by (simp add: List_Clear_loop.simps)
next
  case (Cons x xs)
  obtain i s1 where i: "items s x = Some i" "pitNext i = hd (xs @ [l])"
    "list_Free (pBlock i) x s = Some s1" "freed x s s1" "heap_ok s1"
    using free_first [OF Cons.prems(1,2)] by blast
  have "path (nxt s1) xs l" by (rule freed_path [OF i(4)]) (use Cons.prems in auto)
  from Cons.IH [OF i(5) this] Cons.prems(3) obtain s2 where
    s2: "List_Clear_loop l (hd (xs @ [l])) s1 = Some s2" "freed_all xs s1 s2" by auto
  have "List_Clear_loop l x s = List_Clear_loop l (hd (xs @ [l])) s1"
    using i Cons.prems(3) by (subst List_Clear_loop.simps) (auto simp: rd_def)
  with s2 freed_all_Cons [OF i(4) s2(2)] show ?case by simp
qed

lemma List_Destroy_loop_frees:
  assumes "heap_ok s" "path (nxt s) (x # xs) l" "distinct (x # xs)" "l \<notin> set xs"
  shows "\<exists>s'. List_Destroy_loop l x s = Some s' \<and> freed_all (x # xs) s s'"
  using assms
proof (induction xs arbitrary: s x)
  case Nil
  obtain i s1 where i: "items s x = Some i" "pitNext i = l"
    "list_Free (pBlock i) x s = Some s1" "freed x s s1" "heap_ok s1"
    using free_first [OF Nil.prems(1,2)] by auto
  then have "List_Destroy_loop l x s = Some s1" by (subst List_Destroy_loop.simps) (simp add: rd_def)
  with freed_all_Cons [OF i(4) freed_all_Nil [OF i(5)]] show ?case by simp
next
  case (Cons y xs)
  obtain i s1 where i: "items s x = Some i" "pitNext i = y"
    "list_Free (pBlock i) x s = Some s1" "freed x s s1" "heap_ok s1"
    using free_first [OF Cons.prems(1,2)] by auto
  have "path (nxt s1) (y # xs) l" by (rule freed_path [OF i(4)]) (use Cons.prems in auto)
  from Cons.IH [OF i(5) this] Cons.prems(3,4) obtain s2 where
    s2: "List_Destroy_loop l y s1 = Some s2" "freed_all (y # xs) s1 s2" by auto
  have "List_Destroy_loop l x s = List_Destroy_loop l y s1"
    using i Cons.prems(4) by (subst List_Destroy_loop.simps) (auto simp: rd_def)
  with s2 freed_all_Cons [OF i(4) s2(2)] show ?case by simp
qed

text \<open>The rest of the view after the items \<open>zs\<close> have gone.\<close>

lemma freed_rest:
  assumes W: "wf s L" "L l = Some xs" and F: "freed_all zs s s'" and zs: "set zs \<subseteq> set (l # xs)"
  shows "links_ok (nxt s') (prv s') (anc s') (L(l := None))" "dom (items s') = cells L - set zs"
proof -
  note G = links_get [of "nxt s" "prv s" "anc s" L l xs]
  have same: "items s' x = items s x" if "x \<notin> set zs" for x
    using F that by (simp add: freed_all_def restrict_map_def)
  show "links_ok (nxt s') (prv s') (anc s') (L(l := None))"
  proof (rule links_cong)
    show "links_ok (nxt s) (prv s) (anc s) (L(l := None))" using G(1) W by (simp add: wf_def)
    fix x assume "x \<in> cells (L(l := None))"
    then have "x \<notin> set zs" using G(3) W zs unfolding wf_def by blast
    then show "nxt s' x = nxt s x \<and> prv s' x = prv s x \<and> anc s' x = anc s x"
      by (simp add: nxt_def prv_def anc_def same)
  qed
  show "dom (items s') = cells L - set zs"
    using F W(1) by (auto simp: freed_all_def wf_def)
qed

lemma List_Clear_spec:
  assumes W: "wf s L" "L l = Some xs"
  shows "\<exists>s'. List_Clear l s = Some s' \<and> wf s' (L(l \<mapsto> [])) \<and> dat s' = (dat s) |` (- set xs) \<and>
    okf s' = (okf s |` (- set xs))(l \<mapsto> True) \<and> critDepth s' = critDepth s \<and> traceLog s' = traceLog s"
proof -
  have R: "ring (nxt s) (prv s) (anc s) l xs" by (rule wf_ring [OF W])
  have D: "distinct (l # xs)" using R by (simp add: ring_def)
  have H: "heap_ok s" using W(1) by (simp add: wf_def)
  obtain il where il: "items s l = Some il" "bAnchor il" "pitNext il = hd (xs @ [l])"
    using wf_anchor [OF W] by auto
  have l0: "l \<noteq> NULL" using wf_nonnull [OF W] by simp
  obtain s1 where s1: "List_Clear_loop l (hd (xs @ [l])) s = Some s1" "freed_all xs s s1"
    using List_Clear_loop_frees [OF H ring_path [OF R] D] by blast
  note FR = freed_rest [OF W s1(2)]
  have l1: "items s1 l = Some il" using s1(2) il D by (simp add: freed_all_def restrict_map_def)
  let ?f = "\<lambda>i. i\<lparr>bOK := True, pitNext := l, pitPrev := l\<rparr>"
  have ex: "\<exists>s'. List_Clear l s = Some s' \<and> items s' = (items s1)(l \<mapsto> ?f il) \<and> blocks s' = blocks s1 \<and>
     pCurrent s' = pCurrent s1 \<and> critDepth s' = critDepth s1 \<and> traceLog s' = traceLog s1"
    using s1(1) il l0 l1 by (simp add: List_Clear_def exec_simps)
  then obtain s' where s': "List_Clear l s = Some s'" "items s' = (items s1)(l \<mapsto> ?f il)"
    "blocks s' = blocks s1" "pCurrent s' = pCurrent s1" "critDepth s' = critDepth s1" "traceLog s' = traceLog s1"
    by blast
  have O: "nxt s' = (nxt s1)(l \<mapsto> l)" "prv s' = (prv s1)(l \<mapsto> l)" "anc s' = anc s1" "own s' = own s1"
    "dat s' = dat s1" "okf s' = (okf s1)(l \<mapsto> True)"
    using l1 by (auto simp: fun_eq_iff nxt_def prv_def anc_def own_def dat_def okf_def item_size_def s'(2))
  have "links_ok (nxt s') (prv s') (anc s') (L(l := None))"
    by (rule links_cong [OF FR(1)])
      (use links_get(3) [of "nxt s" "prv s" "anc s" L l xs] W in \<open>auto simp: O wf_def\<close>)
  moreover have "ring (nxt s') (prv s') (anc s') l []"
    by (rule ring_empty) (use l1 il in \<open>simp_all add: O anc_def\<close>)
  moreover have lc: "l \<notin> cells (L(l := None))"
    using links_get(3) [of "nxt s" "prv s" "anc s" L l xs] W by (auto simp: wf_def)
  ultimately have "links_ok (nxt s') (prv s') (anc s') (L(l \<mapsto> []))"
    using links_put [of "L(l := None)" l "nxt s'" "prv s'" "anc s'" "[]"] by simp
  moreover have "dom (items s') = cells (L(l \<mapsto> []))"
  proof -
    have "dom (items s') = insert l (cells L - set xs)" using FR(2) l1 s'(2) by auto
    also have "\<dots> = insert l (cells (L(l := None)))"
      using cells_get [of L l xs, OF W(2)] links_get(3) [of "nxt s" "prv s" "anc s" L l xs] W by (auto simp: wf_def)
    also have "\<dots> = cells (L(l \<mapsto> []))" using cells_put [of "L(l := None)" l "[]"] by simp
    finally show ?thesis .
  qed
  moreover have "heap_ok s'" using s1(2) unfolding s' O freed_all_def by simp
  ultimately have "wf s' (L(l \<mapsto> []))" by (simp add: wf_def)
  moreover have "dat s1 = (dat s) |` (- set xs)" "okf s1 = (okf s) |` (- set xs)"
    using s1(2) by (auto simp: freed_all_def dat_def okf_def restrict_map_def fun_eq_iff)
  ultimately show ?thesis using s' O s1(2) by (simp add: freed_all_def)
qed

lemma List_Destroy_spec:
  assumes W: "wf s L" "L l = Some xs"
  shows "\<exists>s'. List_Destroy (Some l) s = Some (Some NULL, s') \<and> wf s' (L(l := None)) \<and>
    dat s' = (dat s) |` (- set (l # xs)) \<and> okf s' = (okf s) |` (- set (l # xs)) \<and>
    critDepth s' = critDepth s \<and> traceLog s' = traceLog s"
proof -
  have R: "ring (nxt s) (prv s) (anc s) l xs" by (rule wf_ring [OF W])
  have D: "distinct (l # xs)" using R by (simp add: ring_def)
  have H: "heap_ok s" using W(1) by (simp add: wf_def)
  obtain s' where s': "List_Destroy_loop l l s = Some s'" "freed_all (l # xs) s s'"
    using List_Destroy_loop_frees [OF H ring_path' [OF R] D] D by auto
  note FR = freed_rest [OF W s'(2)]
  have "dom (items s') = cells (L(l := None))"
    using FR(2) cells_get [of L l xs, OF W(2)] links_get(3) [of "nxt s" "prv s" "anc s" L l xs] W
    by (auto simp: wf_def)
  then have "wf s' (L(l := None))" using FR(1) s'(2) by (simp add: wf_def freed_all_def)
  moreover have "dat s' = (dat s) |` (- set (l # xs))" "okf s' = (okf s) |` (- set (l # xs))"
    using s'(2) by (auto simp: freed_all_def dat_def okf_def restrict_map_def fun_eq_iff)
  ultimately show ?thesis using s' by (simp add: List_Destroy_def freed_all_def)
qed

end
