(* ===== verification/Gutils_List_Join.thy ===== *)
theory Gutils_List_Join
  imports Gutils_List_Delete
begin

text \<open>
  Functional correctness of the operations of \<open>list.c\<close> that move a run of items from
  one list to another: \<open>SwitchLists\<close>, \<open>List_Join\<close>,
  \<open>List_InsertListAfter\<close>, \<open>List_InsertListBefore\<close>,
  \<open>List_SplitAfter\<close> and \<open>List_SplitBefore\<close>.  Items are moved by relinking: no
  storage is allocated or freed, and no cursor is invalidated.
\<close>

subsection \<open>Moving a run of items\<close>

lemma ring_cut:
  assumes R: "ring n p an l (xs @ zs @ ys)" and zs: "zs \<noteq> []"
    and a: "a = last (l # xs)" and b: "b = hd (ys @ [l])"
    and n': "n' a = Some b" "\<And>x. x \<in> set (l # xs @ ys) \<Longrightarrow> x \<noteq> a \<Longrightarrow> n' x = n x"
    and p': "p' b = Some a" "\<And>x. x \<in> set (l # xs @ ys) \<Longrightarrow> x \<noteq> b \<Longrightarrow> p' x = p x"
    and an': "\<And>x. x \<in> set (l # xs @ ys) \<Longrightarrow> an' x = an x"
  shows "ring n' p' an' l (xs @ ys)"
proof -
  have D: "distinct (l # xs @ ys)" and S: "dls n p l (xs @ zs @ ys) l"
    using R by (auto simp: ring_def)
  have bl: "set (butlast (l # xs)) \<inter> set ys = {}" "a \<notin> set ys" "a \<notin> set (butlast (l # xs))"
    using split_last_facts [OF D(1)] a by auto
  have tl: "b \<notin> set xs" "b \<notin> set (tl (ys @ [l]))" using D b by (cases ys; auto)+
  have "dls n' p' l (xs @ [] @ ys) l"
  proof (rule dls_replace [OF S])
    show "dls n' p' (last (l # xs)) [] (hd (ys @ [l]))" using n'(1) p'(1) a b by simp
  next
    fix x assume "x \<in> set (butlast (l # xs))"
    then have "x \<noteq> a" "x \<in> set (l # xs @ ys)" using bl by (auto dest: in_set_butlastD split: if_splits)
    then show "n' x = n x" by (rule n'(2) [rotated])
  next
    fix x assume "x \<in> set ys"
    then have "x \<noteq> a" "x \<in> set (l # xs @ ys)" using bl by auto
    then show "n' x = n x" by (rule n'(2) [rotated])
  next
    fix x assume "x \<in> set xs"
    then have "x \<noteq> b" "x \<in> set (l # xs @ ys)" using tl by auto
    then show "p' x = p x" by (rule p'(2) [rotated])
  next
    fix x assume x: "x \<in> set (tl (ys @ [l]))"
    then have "x \<in> set (ys @ [l])" by (metis list.set_sel(2) tl_Nil)
    with x have "x \<noteq> b" "x \<in> set (l # xs @ ys)" using tl by auto
    then show "p' x = p x" by (rule p'(2) [rotated])
  qed
  then show ?thesis using R D an' unfolding ring_def by auto
qed

text \<open>The states before and after differ at most in links, with everything else kept.\<close>

definition relinked :: "links \<Rightarrow> links \<Rightarrow> 'd lheap \<Rightarrow> 'd lheap \<Rightarrow> bool" where
  "relinked n' p' s s' \<longleftrightarrow> nxt s' = n' \<and> prv s' = p' \<and> anc s' = anc s \<and> own s' = own s \<and>
     dat s' = dat s \<and> okf s' = okf s \<and> blocks s' = blocks s \<and> pCurrent s' = pCurrent s \<and>
     critDepth s' = critDepth s \<and> bInited s' = bInited s \<and> traceLog s' = traceLog s"

lemma two_lists:
  assumes W: "wf s L" "L l1 = Some us" "L l2 = Some vs" and ne: "l1 \<noteq> l2"
  shows "links_ok (nxt s) (prv s) (anc s) (L(l1 := None, l2 := None))"
    "ring (nxt s) (prv s) (anc s) l1 us" "ring (nxt s) (prv s) (anc s) l2 vs"
    "cells (L(l1 := None, l2 := None)) \<inter> set (l1 # us) = {}"
    "cells (L(l1 := None, l2 := None)) \<inter> set (l2 # vs) = {}"
    "set (l1 # us) \<inter> set (l2 # vs) = {}"
    "cells L = cells (L(l1 := None, l2 := None)) \<union> set (l1 # us) \<union> set (l2 # vs)"
proof -
  let ?M = "L(l1 := None)"
  have K: "links_ok (nxt s) (prv s) (anc s) L" using W(1) by (simp add: wf_def)
  note G1 = links_get [OF K W(2)]
  have M2: "?M l2 = Some vs" using W(3) ne by simp
  note G2 = links_get [OF G1(1) M2]
  have c1: "cells L = cells ?M \<union> set (l1 # us)" by (rule cells_get [of L l1 us, OF W(2)])
  have c2: "cells ?M = cells (?M(l2 := None)) \<union> set (l2 # vs)" by (rule cells_get [of ?M l2 vs, OF M2])
  show "links_ok (nxt s) (prv s) (anc s) (L(l1 := None, l2 := None))"
    "ring (nxt s) (prv s) (anc s) l1 us" "ring (nxt s) (prv s) (anc s) l2 vs"
    by (rule G2(1), rule G1(2), rule G2(2))
  show "cells (L(l1 := None, l2 := None)) \<inter> set (l2 # vs) = {}" by (rule G2(3))
  show "cells (L(l1 := None, l2 := None)) \<inter> set (l1 # us) = {}" using G1(3) c2 by blast
  show "set (l1 # us) \<inter> set (l2 # vs) = {}" using G1(3) c2 by blast
  show "cells L = cells (L(l1 := None, l2 := None)) \<union> set (l1 # us) \<union> set (l2 # vs)"
    using c1 c2 by blast
qed

lemma wf_two:
  assumes W: "wf s L" "L l1 = Some us" "L l2 = Some vs" and ne: "l1 \<noteq> l2"
    and K: "relinked n' p' s s'"
    and R: "ring n' p' (anc s) l1 us'" "ring n' p' (anc s) l2 vs'"
    and perm: "set us' \<union> set vs' = set us \<union> set vs" "set us' \<inter> set vs' = {}"
    and frame: "\<And>x. x \<notin> set (l1 # us) \<Longrightarrow> x \<notin> set (l2 # vs) \<Longrightarrow> n' x = nxt s x \<and> p' x = prv s x"
  shows "wf s' (L(l1 \<mapsto> us', l2 \<mapsto> vs'))"
proof -
  note T = two_lists [OF W ne]
  let ?M = "L(l1 := None, l2 := None)"
  have O: "nxt s' = n'" "prv s' = p'" "anc s' = anc s" "own s' = own s" using K by (simp_all add: relinked_def)
  have lk: "links_ok n' p' (anc s) ?M"
    by (rule links_cong [OF T(1)]) (use T(4,5) frame in blast)
  have l1n: "l1 \<notin> set us'" "l2 \<notin> set us'" "l1 \<notin> set vs'" "l2 \<notin> set vs'"
    using T(2,3,6) perm by (auto simp: ring_def)
  have c1: "cells ?M \<inter> set (l1 # us') = {}" using T(4,5) perm by auto
  have lk1: "links_ok n' p' (anc s) (?M(l1 \<mapsto> us'))"
    using links_put [of ?M l1 n' p' "anc s" us'] lk R(1) c1 by simp
  have c2: "cells (?M(l1 \<mapsto> us')) = cells ?M \<union> set (l1 # us')" by (rule cells_put) simp
  have "cells (?M(l1 \<mapsto> us')) \<inter> set (l2 # vs') = {}"
    unfolding c2 using T(4,5) perm l1n ne by auto
  then have "links_ok n' p' (anc s) (?M(l1 \<mapsto> us', l2 \<mapsto> vs'))"
    using links_put [of "?M(l1 \<mapsto> us')" l2 n' p' "anc s" vs'] lk1 R(2) ne by simp
  moreover have "?M(l1 \<mapsto> us', l2 \<mapsto> vs') = L(l1 \<mapsto> us', l2 \<mapsto> vs')" by auto
  moreover have "cells (?M(l1 \<mapsto> us', l2 \<mapsto> vs')) = cells L"
    using cells_put [of "?M(l1 \<mapsto> us')" l2 vs'] ne T(7) perm unfolding c2 by auto
  ultimately have "links_ok n' p' (anc s) (L(l1 \<mapsto> us', l2 \<mapsto> vs'))" "cells (L(l1 \<mapsto> us', l2 \<mapsto> vs')) = cells L"
    by simp_all
  moreover have "dom (items s') = dom (items s)" using O(4) dom_obs(4) by metis
  ultimately show ?thesis using W(1) K O unfolding wf_def relinked_def by simp
qed

text \<open>All of \<open>l2\<close> goes between \<open>xs\<close> and \<open>ys\<close> of \<open>l1\<close>.\<close>

lemma splice_wf:
  assumes W: "wf s L" "L l1 = Some (xs @ ys)" "L l2 = Some zs" and ne: "l1 \<noteq> l2" and zs: "zs \<noteq> []"
    and a: "a = last (l1 # xs)" and b: "b = hd (ys @ [l1])"
    and K: "relinked ((nxt s)(a \<mapsto> hd zs, last zs \<mapsto> b, l2 \<mapsto> l2)) ((prv s)(hd zs \<mapsto> a, b \<mapsto> last zs, l2 \<mapsto> l2)) s s'"
  shows "wf s' (L(l1 \<mapsto> xs @ zs @ ys, l2 \<mapsto> []))"
proof -
  note T = two_lists [OF W ne]
  have ab: "a \<in> set (l1 # xs @ ys)" "b \<in> set (l1 # xs @ ys)"
    using a b last_Cons_in [of l1 xs] hd_append_in [of ys l1] by auto
  have z: "hd zs \<in> set zs" "last zs \<in> set zs" using zs by auto
  have Z: "dls (nxt s) (prv s) l2 zs l2" "distinct zs" "\<And>x. x \<in> set zs \<Longrightarrow> anc s x = Some False"
    "anc s l2 = Some True" "l2 \<notin> set zs" using T(3) by (auto simp: ring_def)
  have dj: "set zs \<inter> set (l1 # xs @ ys) = {}" using T(6) by auto
  have l2: "l2 \<notin> set (l1 # xs @ ys)" using T(6) by auto
  have D: "a \<noteq> last zs" "b \<noteq> hd zs" "a \<noteq> l2" "b \<noteq> l2" "hd zs \<noteq> l2" "last zs \<noteq> l2"
    using ab z dj l2 Z(5) by auto
  show ?thesis
  proof (rule wf_two [OF W ne K])
    show "ring ((nxt s)(a \<mapsto> hd zs, last zs \<mapsto> b, l2 \<mapsto> l2)) ((prv s)(hd zs \<mapsto> a, b \<mapsto> last zs, l2 \<mapsto> l2))
       (anc s) l1 (xs @ zs @ ys)"
      by (rule ring_splice [OF T(2) Z(1) zs Z(2) dj Z(3) a b])
        (use D l2 Z(5) in auto)
    show "ring ((nxt s)(a \<mapsto> hd zs, last zs \<mapsto> b, l2 \<mapsto> l2)) ((prv s)(hd zs \<mapsto> a, b \<mapsto> last zs, l2 \<mapsto> l2))
       (anc s) l2 []"
      by (rule ring_empty) (use Z(4) in simp_all)
    show "((nxt s)(a \<mapsto> hd zs, last zs \<mapsto> b, l2 \<mapsto> l2)) x = nxt s x \<and>
        ((prv s)(hd zs \<mapsto> a, b \<mapsto> last zs, l2 \<mapsto> l2)) x = prv s x"
      if "x \<notin> set (l1 # xs @ ys)" "x \<notin> set (l2 # zs)" for x
      using that ab z by auto
  qed auto
qed

text \<open>The run \<open>zs\<close> of \<open>l1\<close> goes to the empty list \<open>l2\<close>.\<close>

lemma cut_wf:
  assumes W: "wf s L" "L l1 = Some (xs @ zs @ ys)" "L l2 = Some []" and ne: "l1 \<noteq> l2" and zs: "zs \<noteq> []"
    and a: "a = last (l1 # xs)" and b: "b = hd (ys @ [l1])"
    and K: "relinked ((nxt s)(a \<mapsto> b, last zs \<mapsto> l2, l2 \<mapsto> hd zs)) ((prv s)(b \<mapsto> a, hd zs \<mapsto> l2, l2 \<mapsto> last zs)) s s'"
  shows "wf s' (L(l1 \<mapsto> xs @ ys, l2 \<mapsto> zs))"
proof -
  note T = two_lists [OF W ne]
  have z: "hd zs \<in> set zs" "last zs \<in> set zs" using zs by auto
  have R: "ring (nxt s) (prv s) (anc s) l1 (xs @ zs @ ys)" by (rule T(2))
  have D: "distinct (l1 # xs @ zs @ ys)" "\<And>x. x \<in> set zs \<Longrightarrow> anc s x = Some False" "anc s l2 = Some True"
    using R T(3) by (auto simp: ring_def)
  have dz: "distinct zs" using D(1) by simp
  have ab: "a \<in> set (l1 # xs)" "b \<in> set (ys @ [l1])"
    using a b last_Cons_in [of l1 xs] hd_append_in [of ys l1] by auto
  have Z: "dls (nxt s) (prv s) a zs b"
    using dls_middle [of "nxt s" "prv s" l1 xs zs ys l1] R a b by (simp add: ring_def)
  have l2: "l2 \<notin> set (l1 # xs @ zs @ ys)" using T(6) by auto
  have N: "a \<noteq> last zs" "b \<noteq> hd zs" "a \<noteq> l2" "b \<noteq> l2" "hd zs \<noteq> l2" "last zs \<noteq> l2" "a \<notin> set zs" "b \<notin> set zs"
    using ab z D(1) l2 by auto
  have zz: "last zs \<notin> set (butlast zs)" "hd zs \<notin> set (tl zs)"
    using zs dz by (cases zs rule: rev_cases; simp) (use zs dz in \<open>cases zs; simp\<close>)
  show ?thesis
  proof (rule wf_two [OF W ne K])
    show "ring ((nxt s)(a \<mapsto> b, last zs \<mapsto> l2, l2 \<mapsto> hd zs)) ((prv s)(b \<mapsto> a, hd zs \<mapsto> l2, l2 \<mapsto> last zs))
       (anc s) l1 (xs @ ys)"
      by (rule ring_cut [OF R zs a b]) (use N D l2 z in auto)
    show "ring ((nxt s)(a \<mapsto> b, last zs \<mapsto> l2, l2 \<mapsto> hd zs)) ((prv s)(b \<mapsto> a, hd zs \<mapsto> l2, l2 \<mapsto> last zs))
       (anc s) l2 zs"
    proof (rule ring_rehang [OF Z zs])
      show "distinct (l2 # zs)" using D(1) l2 by auto
      show "((nxt s)(a \<mapsto> b, last zs \<mapsto> l2, l2 \<mapsto> hd zs)) x = nxt s x" if "x \<in> set (butlast zs)" for x
        using that zz N l2 in_set_butlastD [OF that] by auto
      show "((prv s)(b \<mapsto> a, hd zs \<mapsto> l2, l2 \<mapsto> last zs)) x = prv s x" if "x \<in> set (tl zs)" for x
        using that zz N l2 list.set_sel(2) [OF zs that] by auto
    qed (use N D in auto)
    show "((nxt s)(a \<mapsto> b, last zs \<mapsto> l2, l2 \<mapsto> hd zs)) x = nxt s x \<and>
        ((prv s)(b \<mapsto> a, hd zs \<mapsto> l2, l2 \<mapsto> last zs)) x = prv s x"
      if "x \<notin> set (l1 # xs @ zs @ ys)" "x \<notin> set (l2 # [])" for x
      using that ab z by auto
  qed (use D in auto)
qed

subsection \<open>The operations\<close>

text \<open>\<open>moved f s L' k\<close>: \<open>f\<close> returns in a state of the view \<open>L'\<close> with the
  same data, and with the OK flags \<open>k\<close>.\<close>

definition moved :: "('d lheap \<Rightarrow> 'd lheap option) \<Rightarrow> 'd lheap \<Rightarrow> view \<Rightarrow> (ptr \<rightharpoonup> bool) \<Rightarrow> bool" where
  "moved f s L' k \<longleftrightarrow> (\<exists>s'. f s = Some s' \<and> wf s' L' \<and> dat s' = dat s \<and> okf s' = k \<and>
     critDepth s' = critDepth s \<and> bInited s' = bInited s \<and> traceLog s' = traceLog s)"

lemma relinked_wf:
  assumes "wf s L" "relinked (nxt s) (prv s) s s'"
  shows "wf s' L"
proof -
  have "dom (items s') = dom (items s)" using assms(2) dom_obs(4) unfolding relinked_def by metis
  with assms show ?thesis by (simp add: wf_def relinked_def)
qed

text \<open>The links that the operations read, by name.\<close>

lemma move_setup:
  assumes W: "wf s L" "L l1 = Some (xs @ ys)" "L l2 = Some zs" and ne: "l1 \<noteq> l2" and zs: "zs \<noteq> []"
  obtains a b h t where
    "nxt s l2 = Some h" "prv s l2 = Some t" "nxt s a = Some b" "prv s b = Some a"
    "nxt s t = Some l2" "prv s h = Some l2"
    "a \<noteq> h" "a \<noteq> t" "a \<noteq> l2" "b \<noteq> h" "b \<noteq> t" "b \<noteq> l2" "h \<noteq> l2" "t \<noteq> l2" "h \<noteq> l1" "t \<noteq> l1"
    "a = last (l1 # xs)" "b = hd (ys @ [l1])" "h = hd zs" "t = last zs"
proof -
  note T = two_lists [OF W ne]
  define a b h t where d: "a = last (l1 # xs)" "b = hd (ys @ [l1])" "h = hd zs" "t = last zs"
  have mem: "a \<in> set (l1 # xs @ ys)" "b \<in> set (l1 # xs @ ys)" "h \<in> set zs" "t \<in> set zs"
    using d zs last_Cons_in [of l1 xs] hd_append_in [of ys l1] by auto
  have dj: "set zs \<inter> set (l1 # xs @ ys) = {}" "l2 \<notin> set (l1 # xs @ ys)" "l2 \<notin> set zs"
    using T(3,6) by (auto simp: ring_def)
  have m1: "dls (nxt s) (prv s) a [] b"
    using dls_middle [of "nxt s" "prv s" l1 xs "[]" ys l1] T(2) d by (simp add: ring_def)
  have m2: "nxt s l2 = Some h" "prv s l2 = Some t"
    using ring_ends [OF T(3)] zs d by simp_all
  have m3: "prv s h = Some l2" "nxt s t = Some l2"
    using T(3) zs d by (cases zs; simp add: ring_def) (use T(3) zs d in \<open>cases zs rule: rev_cases; simp add: ring_def\<close>)
  show thesis by (rule that [OF _ _ _ _ _ _ _ _ _ _ _ _ _ _ _ _ d]) (use m1 m2 m3 mem dj in auto)
qed

text \<open>Loads and stores of links as seen by the observers.\<close>

definition setN :: "ptr \<Rightarrow> ptr \<Rightarrow> 'd lheap \<Rightarrow> 'd lheap" where
  "setN p v s = upd_item p (\<lambda>i. i\<lparr>pitNext := v\<rparr>) s"

definition setP :: "ptr \<Rightarrow> ptr \<Rightarrow> 'd lheap \<Rightarrow> 'd lheap" where
  "setP p v s = upd_item p (\<lambda>i. i\<lparr>pitPrev := v\<rparr>) s"

lemma ld_run [obs]: "ldNext p s = nxt s p" "ldPrev p s = prv s p"
  by (simp_all add: ldNext_def ldPrev_def rd_def nxt_def prv_def)

lemma st_run [obs]:
  "nxt s p = Some u \<Longrightarrow> stNext p v s = Some (setN p v s)"
  "prv s p = Some u \<Longrightarrow> stPrev p v s = Some (setP p v s)"
  by (auto simp: stNext_def stPrev_def setN_def setP_def wr_eq nxt_def prv_def)

lemma set_link [obs]:
  "nxt s p = Some u \<Longrightarrow> nxt (setN p v s) = (nxt s)(p \<mapsto> v)"
  "prv s p = Some u \<Longrightarrow> prv (setP p v s) = (prv s)(p \<mapsto> v)"
  "nxt (setP p v s) = nxt s" "prv (setN p v s) = prv s"
  "anc (setP p v s) = anc s" "anc (setN p v s) = anc s"
  "own (setP p v s) = own s" "own (setN p v s) = own s"
  "dat (setP p v s) = dat s" "dat (setN p v s) = dat s"
  "okf (setP p v s) = okf s" "okf (setN p v s) = okf s"
  by (auto simp: setN_def setP_def obs_upd_item fun_eq_iff nxt_def prv_def anc_def own_def dat_def okf_def
      item_size_def cong: if_cong)

lemma set_link_other [obs]:
  "blocks (setN p v s) = blocks s" "pCurrent (setN p v s) = pCurrent s" "bInited (setN p v s) = bInited s"
  "critDepth (setN p v s) = critDepth s" "traceLog (setN p v s) = traceLog s"
  "blocks (setP p v s) = blocks s" "pCurrent (setP p v s) = pCurrent s" "bInited (setP p v s) = bInited s"
  "critDepth (setP p v s) = critDepth s" "traceLog (setP p v s) = traceLog s"
  by (simp_all add: setN_def setP_def)

text \<open>Symbolic execution: \<open>steps s0 n p f n' p'\<close> says that \<open>f\<close>, run in any state
  that differs from \<open>s0\<close> only in having the links \<open>n\<close> and \<open>p\<close>, returns in
  such a state with the links \<open>n'\<close> and \<open>p'\<close>.\<close>

definition steps :: "'d lheap \<Rightarrow> links \<Rightarrow> links \<Rightarrow> ('d lheap \<Rightarrow> 'd lheap option) \<Rightarrow> links \<Rightarrow> links \<Rightarrow> bool" where
  "steps s0 n p f n' p' \<longleftrightarrow> (\<forall>s. relinked n p s0 s \<longrightarrow> (\<exists>s'. f s = Some s' \<and> relinked n' p' s0 s'))"

lemma relinked_set:
  "relinked n p s0 s \<Longrightarrow> n q = Some u \<Longrightarrow> relinked (n(q \<mapsto> v)) p s0 (setN q v s)"
  "relinked n p s0 s \<Longrightarrow> p q = Some u \<Longrightarrow> relinked n (p(q \<mapsto> v)) s0 (setP q v s)"
  by (auto simp: relinked_def obs)

lemma step_ldN: "n q = Some v \<Longrightarrow> steps s0 n p (k v) n' p' \<Longrightarrow> steps s0 n p (\<lambda>s. ldNext q s \<bind> (\<lambda>v. k v s)) n' p'"
  and step_ldP: "p q = Some v \<Longrightarrow> steps s0 n p (k v) n' p' \<Longrightarrow> steps s0 n p (\<lambda>s. ldPrev q s \<bind> (\<lambda>v. k v s)) n' p'"
  by (auto simp: steps_def relinked_def obs)

lemma step_stN: "n q = Some u \<Longrightarrow> steps s0 (n(q \<mapsto> v)) p k n' p' \<Longrightarrow> steps s0 n p (\<lambda>s. stNext q v s \<bind> k) n' p'"
  and step_stP: "p q = Some u \<Longrightarrow> steps s0 n (p(q \<mapsto> v)) k n' p' \<Longrightarrow> steps s0 n p (\<lambda>s. stPrev q v s \<bind> k) n' p'"
proof -
  assume A: "n q = Some u" "steps s0 (n(q \<mapsto> v)) p k n' p'"
  have "stNext q v s = Some (setN q v s)" if "relinked n p s0 s" for s
    using that A(1) by (intro st_run) (simp add: relinked_def)
  then show "steps s0 n p (\<lambda>s. stNext q v s \<bind> k) n' p'"
    using relinked_set(1) [of n p s0 _ q u v] A by (simp add: steps_def)
next
  assume A: "p q = Some u" "steps s0 n (p(q \<mapsto> v)) k n' p'"
  have "stPrev q v s = Some (setP q v s)" if "relinked n p s0 s" for s
    using that A(1) by (intro st_run) (simp add: relinked_def)
  then show "steps s0 n p (\<lambda>s. stPrev q v s \<bind> k) n' p'"
    using relinked_set(2) [of n p s0 _ q u v] A by (simp add: steps_def)
qed

lemma step_if: "\<not> c \<Longrightarrow> steps s0 n p g n' p' \<Longrightarrow> steps s0 n p (\<lambda>s. if c then f s else g s) n' p'"
  by simp

lemma step_return: "n = n' \<Longrightarrow> p = p' \<Longrightarrow> steps s0 n p Some n' p'"
  by (simp add: steps_def)

lemma step_lastN: "n q = Some u \<Longrightarrow> steps s0 (n(q \<mapsto> v)) p Some n' p' \<Longrightarrow> steps s0 n p (stNext q v) n' p'"
  and step_lastP: "p q = Some u \<Longrightarrow> steps s0 n (p(q \<mapsto> v)) Some n' p' \<Longrightarrow> steps s0 n p (stPrev q v) n' p'"
  using step_stN [of n q u s0 v p Some n' p'] step_stP [of p q u s0 n v Some n' p'] by (simp_all add: steps_def)

lemmas step = step_ldN step_ldP step_stN step_stP step_if step_lastN step_lastP

lemma stepsD: "steps s (nxt s) (prv s) f n' p' \<Longrightarrow> \<exists>s'. f s = Some s' \<and> relinked n' p' s s'"
  by (simp add: steps_def) (simp add: relinked_def)

lemma splice_moved:
  assumes W: "wf s L" "L l1 = Some (xs @ ys)" "L l2 = Some zs" and ne: "l1 \<noteq> l2" and zs: "zs \<noteq> []"
    and K: "\<And>a b h t. nxt s l2 = Some h \<Longrightarrow> prv s l2 = Some t \<Longrightarrow> nxt s a = Some b \<Longrightarrow> prv s b = Some a \<Longrightarrow>
      nxt s t = Some l2 \<Longrightarrow> prv s h = Some l2 \<Longrightarrow> a \<noteq> h \<Longrightarrow> a \<noteq> t \<Longrightarrow> a \<noteq> l2 \<Longrightarrow> b \<noteq> h \<Longrightarrow> b \<noteq> t \<Longrightarrow> b \<noteq> l2 \<Longrightarrow>
      h \<noteq> l2 \<Longrightarrow> t \<noteq> l2 \<Longrightarrow> h \<noteq> l1 \<Longrightarrow> t \<noteq> l1 \<Longrightarrow> a = last (l1 # xs) \<Longrightarrow> b = hd (ys @ [l1]) \<Longrightarrow>
      steps s (nxt s) (prv s) f ((nxt s)(a \<mapsto> h, t \<mapsto> b, l2 \<mapsto> l2)) ((prv s)(h \<mapsto> a, b \<mapsto> t, l2 \<mapsto> l2))"
  shows "moved f s (L(l1 \<mapsto> xs @ zs @ ys, l2 \<mapsto> [])) (okf s)"
proof (rule move_setup [OF W ne zs], goal_cases)
  case (1 a b h t)
  obtain s' where s': "f s = Some s'" and
    R: "relinked ((nxt s)(a \<mapsto> hd zs, last zs \<mapsto> b, l2 \<mapsto> l2)) ((prv s)(hd zs \<mapsto> a, b \<mapsto> last zs, l2 \<mapsto> l2)) s s'"
    using stepsD [OF K [OF 1(1-18)]] 1(19,20) by auto
  from splice_wf [OF W ne zs 1(17,18) R] s' R show ?case by (simp add: moved_def relinked_def)
qed

lemma SwitchLists_spec:
  assumes W: "wf s L" "L l1 = Some []" "L l2 = Some zs" and ne: "l1 \<noteq> l2" and zs: "zs \<noteq> []"
  shows "moved (SwitchLists l1 l2) s (L(l1 \<mapsto> zs, l2 \<mapsto> [])) (okf s)"
proof -
  have W2: "L l1 = Some ([] @ [])" using W(2) by simp
  have "moved (SwitchLists l1 l2) s (L(l1 \<mapsto> [] @ zs @ [], l2 \<mapsto> [])) (okf s)"
  proof (rule splice_moved [OF W(1) W2 W(3) ne zs], goal_cases)
    case (1 a b h t)
    then have ab: "a = l1" "b = l1" by simp_all
    note F = 1(1-16) [unfolded ab] 1(7-16) [THEN not_sym, unfolded ab] ne [symmetric]
    show ?case
      unfolding SwitchLists_def [abs_def] ab
      by (rule step, simp add: F ne)+ (rule step_return; simp add: F ne fun_upd_twist)
  qed
  then show ?thesis by simp
qed

subsection \<open>Joining\<close>

text \<open>The OK flags after a join.\<close>

definition okj :: "ptr \<Rightarrow> ptr \<Rightarrow> 'd lheap \<Rightarrow> (ptr \<rightharpoonup> bool)" where
  "okj l1 l2 s = (okf s)(l1 \<mapsto> the (okf s l1) \<and> the (okf s l2), l2 \<mapsto> True)"

lemma ok_store [obs]:
  "nxt (upd_item p (bOK_update f) s) = nxt s" "prv (upd_item p (bOK_update f) s) = prv s"
  "anc (upd_item p (bOK_update f) s) = anc s" "own (upd_item p (bOK_update f) s) = own s"
  "dat (upd_item p (bOK_update f) s) = dat s"
  by (simp_all add: obs_upd_item fun_eq_iff nxt_def prv_def anc_def own_def dat_def item_size_def
      cong: if_cong)

lemma ok_store_at [obs]:
  "items s p = Some i \<Longrightarrow> okf (upd_item p (bOK_update (\<lambda>_. v)) s) = (okf s)(p \<mapsto> v)"
  by (simp add: fun_eq_iff okf_def)

lemma merge_OK_spec:
  assumes W: "wf s L" "L l1 = Some us" "L l2 = Some vs" and ne: "l1 \<noteq> l2"
  shows "moved (merge_OK l1 l2) s L (okj l1 l2 s)"
proof -
  obtain i1 i2 where i: "items s l1 = Some i1" "items s l2 = Some i2"
    using wf_anchor [OF W(1,2)] wf_anchor [OF W(1,3)] by blast
  let ?s' = "upd_item l2 (bOK_update (\<lambda>_. True)) (upd_item l1 (bOK_update (\<lambda>_. bOK i1 \<and> bOK i2)) s)"
  have "merge_OK l1 l2 s = Some ?s'" using i ne by (simp add: merge_OK_def exec_simps)
  moreover have "wf ?s' L"
  proof -
    have "dom (items ?s') = dom (items s)" using i ne by auto
    then show ?thesis using W(1) by (simp add: wf_def obs)
  qed
  moreover have "okf ?s' = okj l1 l2 s"
    using i ne by (simp add: obs okj_def) (simp add: okf_def)
  ultimately show ?thesis by (simp add: moved_def obs)
qed

lemma moved_then:
  assumes "moved f s L' k" and "\<And>s'. wf s' L' \<Longrightarrow> moved g s' L'' (okf s')"
  shows "moved (\<lambda>s. f s \<bind> g) s L'' k"
  using assms unfolding moved_def by fastforce

text \<open>Joining with an empty \<open>l2\<close> only merges the OK flags.\<close>

lemma joined_nothing:
  assumes "wf s L" "L l1 = Some us" "L l2 = Some []"
  shows "nxt s l2 = Some l2" "L(l1 \<mapsto> us, l2 \<mapsto> []) = L"
  using ring_ends [OF wf_ring [OF assms(1,3)]] assms by auto

text \<open>The tests the joining routines make.\<close>

lemma join_tests:
  assumes W: "wf s L" "L l1 = Some us" "us \<noteq> []"
  shows "\<exists>n. nxt s l1 = Some n \<and> n \<noteq> l1"
  using ring_ends [OF wf_ring [OF W(1,2)]] W(3) wf_ring [OF W(1,2)] by (cases us) (auto simp: ring_def)

lemma List_Join_spec:
  assumes W: "wf s L" "L l1 = Some xs" "L l2 = Some zs" and ne: "l1 \<noteq> l2"
  shows "moved (List_Join l1 l2) s (L(l1 \<mapsto> xs @ zs, l2 \<mapsto> [])) (okj l1 l2 s)"
proof -
  have l0: "l1 \<noteq> NULL" "l2 \<noteq> NULL"
    using wf_nonnull [OF W(1,2), of l1] wf_nonnull [OF W(1,3), of l2] by simp_all
  obtain tail where tail: "tail = (\<lambda>s. do {
        n2 \<leftarrow> ldNext l2 s;
        if n2 = l2 then Some s
        else if n2 = l2 then SwitchLists l1 l2 s
        else do {
          p1 \<leftarrow> ldPrev l1 s; s \<leftarrow> stPrev n2 p1 s;
          p1 \<leftarrow> ldPrev l1 s; n2 \<leftarrow> ldNext l2 s; s \<leftarrow> stNext p1 n2 s;
          p2 \<leftarrow> ldPrev l2 s; s \<leftarrow> stPrev l1 p2 s;
          p1 \<leftarrow> ldPrev l1 s; s \<leftarrow> stNext p1 l1 s;
          s \<leftarrow> stNext l2 l2 s; stPrev l2 l2 (s::'a lheap)
        } })" by blast
  have "moved tail s (L(l1 \<mapsto> xs @ zs, l2 \<mapsto> [])) (okf s)" if W: "wf s L" for s
  proof (cases "zs = []")
    case True
    with joined_nothing [OF W assms(2)] assms(3) W show ?thesis
      by (simp add: tail moved_def obs)
  next
    case False
    have W2: "L l1 = Some (xs @ [])" using assms(2) by simp
    have "moved tail s (L(l1 \<mapsto> xs @ zs @ [], l2 \<mapsto> [])) (okf s)"
    proof (rule splice_moved [OF W W2 assms(3) ne False], goal_cases)
      case (1 a b h t)
      then have b: "b = l1" by simp
      note F = 1(1-16) [unfolded b] 1(7-16) [THEN not_sym, unfolded b] ne [symmetric]
      show ?case
        unfolding tail b
        by (rule step, simp add: F ne)+ (rule step_return; simp add: F ne fun_upd_twist)
    qed
    then show ?thesis by simp
  qed
  then have "moved (\<lambda>s. merge_OK l1 l2 s \<bind> tail) s (L(l1 \<mapsto> xs @ zs, l2 \<mapsto> [])) (okj l1 l2 s)"
    by (rule moved_then [OF merge_OK_spec [OF W ne]])
  then show ?thesis using l0 by (simp add: moved_def List_Join_def tail Let_def)
qed

lemma List_InsertListAfter_spec:
  assumes W: "wf s L" "L l1 = Some (xs @ ys)" "L l2 = Some zs" and ne: "l1 \<noteq> l2"
    and c: "Curs = (if xs = [] then NULL else cursor (last xs))"
  shows "moved (List_InsertListAfter l1 l2 Curs) s (L(l1 \<mapsto> xs @ zs @ ys, l2 \<mapsto> [])) (okj l1 l2 s)"
proof -
  have l0: "l1 \<noteq> NULL" "l2 \<noteq> NULL"
    using wf_nonnull [OF W(1,2), of l1] wf_nonnull [OF W(1,3), of l2] by simp_all
  obtain tail where tail: "tail = (\<lambda>s. do {
        n2 \<leftarrow> ldNext l2 s;
        if n2 = l2 then Some s
        else do {
          n1 \<leftarrow> ldNext l1 s;
          if n1 = l1 then SwitchLists l1 l2 s
          else do {
            let pit = (if Curs = NULL then l1 else MOVEBACK Curs);
            pitA \<leftarrow> ldNext pit s;
            n2 \<leftarrow> ldNext l2 s; s \<leftarrow> stPrev n2 pit s;
            p2 \<leftarrow> ldPrev l2 s; s \<leftarrow> stNext p2 pitA s;
            n2 \<leftarrow> ldNext l2 s; s \<leftarrow> stNext pit n2 s;
            p2 \<leftarrow> ldPrev l2 s; s \<leftarrow> stPrev pitA p2 s;
            s \<leftarrow> stNext l2 l2 s; stPrev l2 l2 (s::'a lheap)
          } } })" by blast
  have pit: "(if Curs = NULL then l1 else MOVEBACK Curs) = last (l1 # xs)" using c by simp
  have "moved tail s (L(l1 \<mapsto> xs @ zs @ ys, l2 \<mapsto> [])) (okf s)" if W: "wf s L" for s
  proof (cases "zs = []")
    case True
    with joined_nothing [OF W assms(2)] assms(3) W show ?thesis
      by (simp add: tail moved_def obs)
  next
    case zs: False
    have n2: "\<exists>n. nxt s l2 = Some n \<and> n \<noteq> l2" by (rule join_tests [OF W assms(3) zs])
    show ?thesis
    proof (cases "xs @ ys = []")
      case True
      then have "nxt s l1 = Some l1" using ring_ends [OF wf_ring [OF W assms(2)]] by auto
      with SwitchLists_spec [OF W _ assms(3) ne zs] assms(2) True n2 show ?thesis
        by (auto simp: tail moved_def obs)
    next
      case False
      have n1: "\<exists>n. nxt s l1 = Some n \<and> n \<noteq> l1" by (rule join_tests [OF W assms(2) False])
      show ?thesis
      proof (rule splice_moved [OF W assms(2,3) ne zs], goal_cases)
        case (1 a b h t)
        have pit': "(if Curs = NULL then l1 else MOVEBACK Curs) = a" using pit 1(17) by simp
        obtain n where n: "nxt s l1 = Some n" "n \<noteq> l1" using n1 by blast
        note F = 1(1-16) 1(7-16) [THEN not_sym] ne [symmetric]
        show ?case unfolding tail pit' Let_def
          by (rule step, simp add: F n ne)+ (rule step_return; simp add: F ne fun_upd_twist)
      qed
    qed
  qed
  then have "moved (\<lambda>s. merge_OK l1 l2 s \<bind> tail) s (L(l1 \<mapsto> xs @ zs @ ys, l2 \<mapsto> [])) (okj l1 l2 s)"
    by (rule moved_then [OF merge_OK_spec [OF W ne]])
  then show ?thesis using l0 by (simp add: moved_def List_InsertListAfter_def tail Let_def)
qed

lemma List_InsertListBefore_spec:
  assumes W: "wf s L" "L l1 = Some (xs @ ys)" "L l2 = Some zs" and ne: "l1 \<noteq> l2"
    and c: "Curs = (if ys = [] then NULL else cursor (hd ys))"
  shows "moved (List_InsertListBefore l1 l2 Curs) s (L(l1 \<mapsto> xs @ zs @ ys, l2 \<mapsto> [])) (okj l1 l2 s)"
proof -
  have l0: "l1 \<noteq> NULL" "l2 \<noteq> NULL"
    using wf_nonnull [OF W(1,2), of l1] wf_nonnull [OF W(1,3), of l2] by simp_all
  obtain tail where tail: "tail = (\<lambda>s. do {
        n2 \<leftarrow> ldNext l2 s;
        if n2 = l2 then Some s
        else do {
          n1 \<leftarrow> ldNext l1 s;
          if n1 = l1 then SwitchLists l1 l2 s
          else do {
            let pit = (if Curs = NULL then l1 else MOVEBACK Curs);
            pitB \<leftarrow> ldPrev pit s;
            n2 \<leftarrow> ldNext l2 s; s \<leftarrow> stPrev n2 pitB s;
            p2 \<leftarrow> ldPrev l2 s; s \<leftarrow> stNext p2 pit s;
            n2 \<leftarrow> ldNext l2 s; s \<leftarrow> stNext pitB n2 s;
            p2 \<leftarrow> ldPrev l2 s; s \<leftarrow> stPrev pit p2 s;
            s \<leftarrow> stNext l2 l2 s; stPrev l2 l2 (s::'a lheap)
          } } })" by blast
  have pit: "(if Curs = NULL then l1 else MOVEBACK Curs) = hd (ys @ [l1])" using c by (cases ys) simp_all
  have "moved tail s (L(l1 \<mapsto> xs @ zs @ ys, l2 \<mapsto> [])) (okf s)" if W: "wf s L" for s
  proof (cases "zs = []")
    case True
    with joined_nothing [OF W assms(2)] assms(3) W show ?thesis
      by (simp add: tail moved_def obs)
  next
    case zs: False
    have n2: "\<exists>n. nxt s l2 = Some n \<and> n \<noteq> l2" by (rule join_tests [OF W assms(3) zs])
    show ?thesis
    proof (cases "xs @ ys = []")
      case True
      then have "nxt s l1 = Some l1" using ring_ends [OF wf_ring [OF W assms(2)]] by auto
      with SwitchLists_spec [OF W _ assms(3) ne zs] assms(2) True n2 show ?thesis
        by (auto simp: tail moved_def obs)
    next
      case False
      have n1: "\<exists>n. nxt s l1 = Some n \<and> n \<noteq> l1" by (rule join_tests [OF W assms(2) False])
      show ?thesis
      proof (rule splice_moved [OF W assms(2,3) ne zs], goal_cases)
        case (1 a b h t)
        have pit': "(if Curs = NULL then l1 else MOVEBACK Curs) = b" using pit 1(18) by simp
        obtain n where n: "nxt s l1 = Some n" "n \<noteq> l1" using n1 by blast
        note F = 1(1-16) 1(7-16) [THEN not_sym] ne [symmetric]
        show ?case unfolding tail pit' Let_def
          by (rule step, simp add: F n ne)+ (rule step_return; simp add: F ne fun_upd_twist)
      qed
    qed
  qed
  then have "moved (\<lambda>s. merge_OK l1 l2 s \<bind> tail) s (L(l1 \<mapsto> xs @ zs @ ys, l2 \<mapsto> [])) (okj l1 l2 s)"
    by (rule moved_then [OF merge_OK_spec [OF W ne]])
  then show ?thesis using l0 by (simp add: moved_def List_InsertListBefore_def tail Let_def)
qed

subsection \<open>Splitting\<close>

lemma cut_moved:
  assumes W: "wf s L" "L l1 = Some (xs @ zs @ ys)" "L l2 = Some []" and ne: "l1 \<noteq> l2" and zs: "zs \<noteq> []"
    and K: "\<And>a b h t. nxt s l2 = Some l2 \<Longrightarrow> prv s l2 = Some l2 \<Longrightarrow> nxt s a = Some h \<Longrightarrow> prv s h = Some a \<Longrightarrow>
      nxt s t = Some b \<Longrightarrow> prv s b = Some t \<Longrightarrow> a \<noteq> h \<Longrightarrow> a \<noteq> t \<Longrightarrow> a \<noteq> l2 \<Longrightarrow> b \<noteq> h \<Longrightarrow> b \<noteq> t \<Longrightarrow> b \<noteq> l2 \<Longrightarrow>
      h \<noteq> l2 \<Longrightarrow> t \<noteq> l2 \<Longrightarrow> h \<noteq> l1 \<Longrightarrow> t \<noteq> l1 \<Longrightarrow> a = last (l1 # xs) \<Longrightarrow> b = hd (ys @ [l1]) \<Longrightarrow>
      h = hd zs \<Longrightarrow> t = last zs \<Longrightarrow>
      steps s (nxt s) (prv s) f ((nxt s)(a \<mapsto> b, t \<mapsto> l2, l2 \<mapsto> h)) ((prv s)(b \<mapsto> a, h \<mapsto> l2, l2 \<mapsto> t))"
  shows "moved f s (L(l1 \<mapsto> xs @ ys, l2 \<mapsto> zs)) (okf s)"
proof -
  note T = two_lists [OF W ne]
  define a b h t where d: "a = last (l1 # xs)" "b = hd (ys @ [l1])" "h = hd zs" "t = last zs"
  have mem: "a \<in> set (l1 # xs)" "b \<in> set (ys @ [l1])" "h \<in> set zs" "t \<in> set zs"
    using d zs last_Cons_in [of l1 xs] hd_append_in [of ys l1] by auto
  have D: "distinct (l1 # xs @ zs @ ys)" "l2 \<notin> set (l1 # xs @ zs @ ys)"
    using T(2,6) by (auto simp: ring_def)
  have m: "dls (nxt s) (prv s) a zs b"
    using dls_middle [of "nxt s" "prv s" l1 xs zs ys l1] T(2) d by (simp add: ring_def)
  have m1: "nxt s a = Some h" "prv s b = Some t" using dls_ends [OF m] zs d by simp_all
  have m2: "prv s h = Some a" "nxt s t = Some b"
    using m zs d(3,4) by (cases zs; simp) (use m zs d(3,4) in \<open>cases zs rule: rev_cases; simp\<close>)
  have m3: "nxt s l2 = Some l2" "prv s l2 = Some l2" using ring_ends [OF T(3)] by simp_all
  have "steps s (nxt s) (prv s) f ((nxt s)(a \<mapsto> b, t \<mapsto> l2, l2 \<mapsto> h)) ((prv s)(b \<mapsto> a, h \<mapsto> l2, l2 \<mapsto> t))"
    by (rule K [OF m3 m1(1) m2(1,2) m1(2) _ _ _ _ _ _ _ _ _ _ d]) (use mem D in auto)
  from stepsD [OF this] obtain s' where s': "f s = Some s'" and
    R: "relinked ((nxt s)(a \<mapsto> b, last zs \<mapsto> l2, l2 \<mapsto> hd zs)) ((prv s)(b \<mapsto> a, hd zs \<mapsto> l2, l2 \<mapsto> last zs)) s s'"
    using d(3,4) by auto
  from cut_wf [OF W ne zs d(1,2) R] s' R show ?thesis by (simp add: moved_def relinked_def)
qed

lemma cleared_first:
  assumes W: "wf s L" "L l2 = Some vs"
  shows "\<exists>n s1. ldNext l2 s = Some n \<and> (if n \<noteq> l2 then List_Clear l2 s else Some s) = Some s1 \<and>
    wf s1 (L(l2 \<mapsto> [])) \<and> dat s1 = dat s |` (- set vs) \<and> critDepth s1 = critDepth s \<and> traceLog s1 = traceLog s"
proof (cases vs)
  case Nil
  then have "nxt s l2 = Some l2" "L(l2 \<mapsto> []) = L" using ring_ends [OF wf_ring [OF W]] W(2) by auto
  then show ?thesis using Nil W by (simp add: obs restrict_map_def)
next
  case (Cons v vs')
  then obtain n where "nxt s l2 = Some n" "n \<noteq> l2" using join_tests [OF W] by blast
  then show ?thesis using List_Clear_spec [OF W] by (auto simp: obs)
qed

text \<open>\<open>divided f s L' vs\<close>: the split \<open>f\<close> returns with the view \<open>L'\<close>, having
  dropped only the former items \<open>vs\<close> of the second list.\<close>

definition divided :: "('d lheap \<Rightarrow> 'd lheap option) \<Rightarrow> 'd lheap \<Rightarrow> view \<Rightarrow> ptr list \<Rightarrow> bool" where
  "divided f s L' vs \<longleftrightarrow> (\<exists>s'. f s = Some s' \<and> wf s' L' \<and> dat s' = dat s |` (- set vs) \<and>
     critDepth s' = critDepth s \<and> traceLog s' = traceLog s)"

lemma List_SplitAfter_spec:
  assumes W: "wf s L" "L l1 = Some (xs @ c # ys)" "L l2 = Some vs" and ne: "l1 \<noteq> l2"
  shows "divided (List_SplitAfter l1 l2 (cursor c)) s (L(l1 \<mapsto> ys, l2 \<mapsto> xs @ [c])) vs"
proof -
  have l0: "l1 \<noteq> NULL" "l2 \<noteq> NULL" "c \<noteq> l1"
    using wf_nonnull [OF W(1,2), of l1] wf_nonnull [OF W(1,3), of l2] wf_ring [OF W(1,2)]
    by (auto simp: ring_def)
  obtain tail where tail: "tail = (\<lambda>s. do {
            n \<leftarrow> ldNext c s;
            if n = l1 then SwitchLists l2 l1 s
            else do {
              s \<leftarrow> stPrev l2 c s;
              n1 \<leftarrow> ldNext l1 s; s \<leftarrow> stNext l2 n1 s;
              n \<leftarrow> ldNext c s; s \<leftarrow> stNext l1 n s;
              s \<leftarrow> stNext c l2 s;
              n2 \<leftarrow> ldNext l2 s; s \<leftarrow> stPrev n2 l2 s;
              n1 \<leftarrow> ldNext l1 s; stPrev n1 l1 (s::'a lheap)
            } })" by blast
  obtain n s1 where s1: "ldNext l2 s = Some n" "(if n \<noteq> l2 then List_Clear l2 s else Some s) = Some s1"
    "wf s1 (L(l2 \<mapsto> []))" "dat s1 = dat s |` (- set vs)" "critDepth s1 = critDepth s" "traceLog s1 = traceLog s"
    using cleared_first [OF W(1,3)] by blast
  let ?L = "L(l2 \<mapsto> [])"
  have L1: "?L l1 = Some ([] @ (xs @ [c]) @ ys)" "?L l2 = Some []" "xs @ [c] \<noteq> []" using W(2) ne by auto
  have L1': "?L l1 = Some (xs @ c # ys)" using L1(1) by simp
  have "moved tail s1 (?L(l1 \<mapsto> ys, l2 \<mapsto> xs @ [c])) (okf s1)"
  proof (cases "ys = []")
    case True
    have "nxt s1 c = Some l1" using ring_at(1) [OF wf_ring [OF s1(3) L1']] True by simp
    moreover have "?L(l2 \<mapsto> xs @ [c], l1 \<mapsto> []) = ?L(l1 \<mapsto> ys, l2 \<mapsto> xs @ [c])" using True ne by auto
    ultimately show ?thesis
      using SwitchLists_spec [OF s1(3) L1(2) L1' not_sym [OF ne]] True unfolding moved_def tail by (simp add: obs)
  next
    case False
    have "moved tail s1 (?L(l1 \<mapsto> [] @ ys, l2 \<mapsto> xs @ [c])) (okf s1)"
    proof (rule cut_moved [OF s1(3) L1(1,2) ne L1(3)], goal_cases)
      case (1 a b h t)
      then have at: "a = l1" "t = c" by simp_all
      have "b \<noteq> l1" using 1(18) False wf_ring [OF s1(3) L1'] by (cases ys) (auto simp: ring_def)
      note F = 1(1-16) [unfolded at] 1(7-16) [THEN not_sym, unfolded at] ne ne [symmetric] this this [symmetric]
      show ?case unfolding tail at
        by (rule step, simp add: F)+ (rule step_return; simp add: F fun_upd_twist)
    qed
    then show ?thesis by simp
  qed
  moreover have "List_SplitAfter l1 l2 (cursor c) s = tail s1"
    by (simp only: List_SplitAfter_def tail Let_def s1(1,2) Option.bind.simps l0 simp_thms if_False
        cursor_nonnull MOVEBACK_cursor)
  ultimately show ?thesis using s1(3-6) by (auto simp: moved_def divided_def)
qed

lemma List_SplitBefore_spec:
  assumes W: "wf s L" "L l1 = Some (xs @ c # ys)" "L l2 = Some vs" and ne: "l1 \<noteq> l2"
  shows "divided (List_SplitBefore l1 l2 (cursor c)) s (L(l1 \<mapsto> xs, l2 \<mapsto> c # ys)) vs"
proof -
  have l0: "l1 \<noteq> NULL" "l2 \<noteq> NULL" "c \<noteq> l1"
    using wf_nonnull [OF W(1,2), of l1] wf_nonnull [OF W(1,3), of l2] wf_ring [OF W(1,2)]
    by (auto simp: ring_def)
  obtain tail where tail: "tail = (\<lambda>s. do {
            p \<leftarrow> ldPrev c s;
            if p = l1 then SwitchLists l2 l1 s
            else do {
              s \<leftarrow> stNext l2 c s;
              p1 \<leftarrow> ldPrev l1 s; s \<leftarrow> stPrev l2 p1 s;
              p \<leftarrow> ldPrev c s; s \<leftarrow> stPrev l1 p s;
              s \<leftarrow> stPrev c l2 s;
              p2 \<leftarrow> ldPrev l2 s; s \<leftarrow> stNext p2 l2 s;
              p1 \<leftarrow> ldPrev l1 s; stNext p1 l1 (s::'a lheap)
            } })" by blast
  obtain n s1 where s1: "ldNext l2 s = Some n" "(if n \<noteq> l2 then List_Clear l2 s else Some s) = Some s1"
    "wf s1 (L(l2 \<mapsto> []))" "dat s1 = dat s |` (- set vs)" "critDepth s1 = critDepth s" "traceLog s1 = traceLog s"
    using cleared_first [OF W(1,3)] by blast
  let ?L = "L(l2 \<mapsto> [])"
  have L1: "?L l1 = Some (xs @ (c # ys) @ [])" "?L l2 = Some []" "c # ys \<noteq> []" using W(2) ne by auto
  have L1': "?L l1 = Some (xs @ c # ys)" using L1(1) by simp
  have "moved tail s1 (?L(l1 \<mapsto> xs, l2 \<mapsto> c # ys)) (okf s1)"
  proof (cases "xs = []")
    case True
    have "prv s1 c = Some l1" using ring_at(2) [OF wf_ring [OF s1(3) L1']] True by simp
    moreover have "?L(l2 \<mapsto> xs @ c # ys, l1 \<mapsto> []) = ?L(l1 \<mapsto> xs, l2 \<mapsto> c # ys)" using True ne by auto
    ultimately show ?thesis
      using SwitchLists_spec [OF s1(3) L1(2) L1' not_sym [OF ne]] True unfolding moved_def tail by (simp add: obs)
  next
    case False
    have "moved tail s1 (?L(l1 \<mapsto> xs @ [], l2 \<mapsto> c # ys)) (okf s1)"
    proof (rule cut_moved [OF s1(3) L1(1,2) ne L1(3)], goal_cases)
      case (1 a b h t)
      then have bh: "b = l1" "h = c" by simp_all
      have "a \<noteq> l1" using 1(17) False wf_ring [OF s1(3) L1'] by (auto simp: ring_def)
      note F = 1(1-16) [unfolded bh] 1(7-16) [THEN not_sym, unfolded bh] ne ne [symmetric] this this [symmetric]
      show ?case unfolding tail bh
        by (rule step, simp add: F)+ (rule step_return; simp add: F fun_upd_twist)
    qed
    then show ?thesis by simp
  qed
  moreover have "List_SplitBefore l1 l2 (cursor c) s = tail s1"
    by (simp only: List_SplitBefore_def tail Let_def s1(1,2) Option.bind.simps l0 simp_thms if_False
        cursor_nonnull MOVEBACK_cursor)
  ultimately show ?thesis using s1(3-6) by (auto simp: moved_def divided_def)
qed

text \<open>Splitting at NULL only empties the second list.\<close>

lemma List_Split_NULL_spec:
  assumes W: "wf s L" "L l1 = Some us" "L l2 = Some vs"
  shows "divided (List_SplitAfter l1 l2 NULL) s (L(l2 \<mapsto> [])) vs"
    "divided (List_SplitBefore l1 l2 NULL) s (L(l2 \<mapsto> [])) vs"
proof -
  have l0: "l1 \<noteq> NULL" "l2 \<noteq> NULL"
    using wf_nonnull [OF W(1,2), of l1] wf_nonnull [OF W(1,3), of l2] by simp_all
  obtain n s1 where s1: "ldNext l2 s = Some n" "(if n \<noteq> l2 then List_Clear l2 s else Some s) = Some s1"
    "wf s1 (L(l2 \<mapsto> []))" "dat s1 = dat s |` (- set vs)" "critDepth s1 = critDepth s" "traceLog s1 = traceLog s"
    using cleared_first [OF W(1,3)] by blast
  have "List_SplitAfter l1 l2 NULL s = Some s1" "List_SplitBefore l1 l2 NULL s = Some s1"
    by (simp_all only: List_SplitAfter_def List_SplitBefore_def Let_def s1(1,2) Option.bind.simps l0
        simp_thms if_False if_True)
  then show "divided (List_SplitAfter l1 l2 NULL) s (L(l2 \<mapsto> [])) vs"
    "divided (List_SplitBefore l1 l2 NULL) s (L(l2 \<mapsto> [])) vs"
    using s1(3-6) by (simp_all add: divided_def)
qed

end
