(* ===== verification/Gutils_List_Check.thy ===== *)
theory Gutils_List_Check
  imports Gutils_List_Join
begin

text \<open>
  The operations of \<open>list.c\<close> that read a list (cursors, emptiness, cardinality, the OK
  flag), and the two that look after damaged lists: \<open>List_Check\<close>, which tells whether
  the back chain agrees with the forward chain and leaves the storage exactly as it was, and
  \<open>List_Recover\<close>, which rebuilds the back chain from any forward chain that ends in a
  node it has passed already.
\<close>

subsection \<open>Cursors\<close>

lemma List_First_spec:
  assumes W: "wf s L" "L l = Some xs"
  shows "List_First l s = Some (if xs = [] then NULL else cursor (hd xs), s)"
proof -
  obtain i where "items s l = Some i" "pitNext i = hd (xs @ [l])" using wf_anchor [OF W] by auto
  moreover have "l \<noteq> NULL" using wf_nonnull [OF W] by simp
  moreover have "xs \<noteq> [] \<Longrightarrow> hd xs \<noteq> l" using wf_ring [OF W] by (cases xs) (auto simp: ring_def)
  ultimately show ?thesis by (auto simp: List_First_def rd_def)
qed

lemma List_Last_spec:
  assumes W: "wf s L" "L l = Some xs"
  shows "List_Last l s = Some (if xs = [] then NULL else cursor (last xs), s)"
proof -
  obtain i where "items s l = Some i" "pitNext i = hd (xs @ [l])" "pitPrev i = last (l # xs)"
    using wf_anchor [OF W] by auto
  moreover have "l \<noteq> NULL" using wf_nonnull [OF W] by simp
  moreover have "xs \<noteq> [] \<Longrightarrow> hd xs \<noteq> l" using wf_ring [OF W] by (cases xs) (auto simp: ring_def)
  ultimately show ?thesis by (auto simp: List_Last_def rd_def)
qed

lemma wf_neighbours:
  assumes W: "wf s L" "L l = Some (xs @ c # ys)"
  shows "\<exists>i b. items s c = Some i \<and> items s (pitNext i) = Some b \<and> bAnchor b = (ys = []) \<and>
      (ys \<noteq> [] \<longrightarrow> pitNext i = hd ys)"
    "\<exists>i b. items s c = Some i \<and> items s (pitPrev i) = Some b \<and> bAnchor b = (xs = []) \<and>
      (xs \<noteq> [] \<longrightarrow> pitPrev i = last xs)"
proof -
  have D: "distinct (l # xs @ c # ys)" using wf_ring [OF W] by (simp add: ring_def)
  obtain i where i: "items s c = Some i" "pitNext i = hd (ys @ [l])" "pitPrev i = last (l # xs)"
    using wf_at [OF W] by blast
  have m: "hd (ys @ [l]) \<in> set (l # xs @ c # ys)" "last (l # xs) \<in> set (l # xs @ c # ys)"
    using last_Cons_in [of l xs] hd_append_in [of ys l] by auto
  have e: "hd (ys @ [l]) = l \<longleftrightarrow> ys = []" "last (l # xs) = l \<longleftrightarrow> xs = []"
    using D by (cases ys; auto) (use D in auto)
  show "\<exists>i b. items s c = Some i \<and> items s (pitNext i) = Some b \<and> bAnchor b = (ys = []) \<and>
      (ys \<noteq> [] \<longrightarrow> pitNext i = hd ys)"
    using i wf_item [OF W m(1)] e by auto
  show "\<exists>i b. items s c = Some i \<and> items s (pitPrev i) = Some b \<and> bAnchor b = (xs = []) \<and>
      (xs \<noteq> [] \<longrightarrow> pitPrev i = last xs)"
    using i wf_item [OF W m(2)] e by auto
qed

lemma List_Next_spec:
  assumes W: "wf s L" "L l = Some (xs @ c # ys)"
  shows "List_Next (cursor c) s = Some (if ys = [] then NULL else cursor (hd ys), s)"
  using wf_neighbours(1) [OF W] by (auto simp: List_Next_def rd_def)

lemma List_Prev_spec:
  assumes W: "wf s L" "L l = Some (xs @ c # ys)"
  shows "List_Prev (cursor c) s = Some (if xs = [] then NULL else cursor (last xs), s)"
  using wf_neighbours(2) [OF W] by (auto simp: List_Prev_def rd_def)

lemma List_IsEmpty_spec:
  assumes W: "wf s L" "L l = Some xs"
  shows "List_IsEmpty l s = Some (xs = [], s)"
proof -
  obtain i where "items s l = Some i" "pitNext i = hd (xs @ [l])" using wf_anchor [OF W] by auto
  moreover have "l \<noteq> NULL" using wf_nonnull [OF W] by simp
  moreover have "xs \<noteq> [] \<Longrightarrow> hd xs \<noteq> l" using wf_ring [OF W] by (cases xs) (auto simp: ring_def)
  ultimately show ?thesis by (cases xs) (auto simp: List_IsEmpty_def rd_def)
qed

lemma List_Card_loop_counts:
  assumes "path (nxt s) xs l" "l \<notin> set xs"
  shows "List_Card_loop l (hd (xs @ [l])) c s = Some (c + int (length xs))"
  using assms
proof (induction xs arbitrary: c)
  case Nil
  then show ?case by (simp add: List_Card_loop.simps)
next
  case (Cons x xs)
  then obtain i where "items s x = Some i" "pitNext i = hd (xs @ [l])" by (auto dest: obs_SomeD)
  with Cons show ?case by (subst List_Card_loop.simps) (simp add: rd_def)
qed

lemma List_Card_spec:
  assumes W: "wf s L" "L l = Some xs"
  shows "List_Card l s = Some (int (length xs), s)"
proof -
  obtain i where "items s l = Some i" "pitNext i = hd (xs @ [l])" using wf_anchor [OF W] by auto
  moreover have "l \<noteq> NULL" using wf_nonnull [OF W] by simp
  moreover have "l \<notin> set xs" using wf_ring [OF W] by (simp add: ring_def)
  ultimately show ?thesis
    using List_Card_loop_counts [OF ring_path [OF wf_ring [OF W]]] by (simp add: List_Card_def rd_def)
qed

lemma List_IsOK_spec:
  assumes W: "wf s L" "L l = Some xs"
  shows "\<exists>b. okf s l = Some b \<and> List_IsOK l s = Some (b, s)"
  using wf_anchor [OF W] wf_nonnull [OF W, of l] by (auto simp: List_IsOK_def rd_def okf_def)

lemma List_MakeOK_spec:
  assumes W: "wf s L" "L l = Some xs"
  shows "moved (List_MakeOK l) s L ((okf s)(l \<mapsto> True))"
proof -
  obtain i where i: "items s l = Some i" using wf_anchor [OF W] by auto
  have "l \<noteq> NULL" using wf_nonnull [OF W] by simp
  with i have "List_MakeOK l s = Some (upd_item l (bOK_update (\<lambda>_. True)) s)"
    by (simp add: List_MakeOK_def wr_eq)
  moreover have "dom (items (upd_item l (bOK_update (\<lambda>_. True)) s)) = dom (items s)" using i by auto
  ultimately show ?thesis using W(1) i by (simp add: moved_def wf_def obs)
qed

subsection \<open>Checking\<close>

definition mark :: "ptr set \<Rightarrow> bool \<Rightarrow> 'd lheap \<Rightarrow> 'd lheap" where
  "mark S v s = s\<lparr>items := (\<lambda>x. if x \<in> S then map_option (\<lambda>i. i\<lparr>bAnchor := v\<rparr>) (items s x) else items s x)\<rparr>"

lemma mark_empty [simp]: "mark {} v s = s"
  by (simp add: mark_def)

lemma mark_one: "upd_item p (\<lambda>i. i\<lparr>bAnchor := v\<rparr>) s = mark {p} v s"
  by (auto simp: mark_def upd_item_def fun_eq_iff intro!: lheap.equality)

lemma mark_mark [simp]: "mark S v (mark T v s) = mark (S \<union> T) v s"
  by (auto simp: mark_def fun_eq_iff option.map_comp o_def intro!: lheap.equality)

lemma nxt_mark [simp]: "nxt (mark S v s) = nxt s" and prv_mark [simp]: "prv (mark S v s) = prv s"
  by (auto simp: fun_eq_iff nxt_def prv_def mark_def option.map_comp o_def)

lemma anc_mark: "anc (mark S v s) = (\<lambda>x. if x \<in> S then map_option (\<lambda>_. v) (anc s x) else anc s x)"
  by (auto simp: fun_eq_iff anc_def mark_def option.map_comp o_def)

lemma mark_restore:
  assumes "\<And>x. x \<in> S \<Longrightarrow> anc s x \<noteq> Some (\<not> v)"
  shows "mark S v (mark T w s) = mark (T - S) w s"
proof -
  have "map_option (\<lambda>i. i\<lparr>bAnchor := v\<rparr>) (items s x) = items s x" if "x \<in> S" for x
    using assms [OF that] by (cases "items s x") (auto simp: anc_def)
  then show ?thesis
    by (auto simp: mark_def fun_eq_iff option.map_comp o_def intro!: lheap.equality)
qed

lemma List_Check_mark_run:
  assumes "path (nxt s) xs e" "distinct xs" "e \<notin> set xs" "\<And>x. x \<in> set xs \<Longrightarrow> anc s x = Some False"
    "anc s e = Some True"
  shows "List_Check_mark (hd (xs @ [e])) s = Some (e, mark (set xs) True s)"
  using assms
proof (induction xs arbitrary: s)
  case Nil
  then obtain i where "items s e = Some i" "bAnchor i" by (auto dest: obs_SomeD)
  then show ?case by (subst List_Check_mark.simps) (simp add: rd_def)
next
  case (Cons x xs)
  let ?s = "mark {x} True s"
  have "items s x \<noteq> None" using Cons.prems(1) by (auto dest: obs_SomeD)
  then obtain i where i: "items s x = Some i" by auto
  then have i': "pitNext i = hd (xs @ [e])" "\<not> bAnchor i"
    using Cons.prems(1) Cons.prems(4) [of x] by (auto simp: nxt_def anc_def)
  have "items ?s x = Some (i\<lparr>bAnchor := True\<rparr>)" using i by (simp add: mark_def)
  then have "List_Check_mark x s = List_Check_mark (hd (xs @ [e])) ?s"
    using i i' by (subst List_Check_mark.simps) (simp add: rd_def wr_eq mark_one)
  also have "\<dots> = Some (e, mark (set xs) True ?s)"
    by (rule Cons.IH) (use Cons.prems in \<open>auto simp: anc_mark\<close>)
  finally show ?case by simp
qed

text \<open>The back chain agrees with the forward chain from \<open>a\<close> through \<open>xs\<close> to \<open>e\<close>.\<close>

primrec backs :: "links \<Rightarrow> ptr \<Rightarrow> ptr list \<Rightarrow> ptr \<Rightarrow> bool" where
  "backs p a [] e \<longleftrightarrow> p e = Some a"
| "backs p a (x # xs) e \<longleftrightarrow> p x = Some a \<and> backs p x xs e"

lemma dls_backs: "dls n p a xs e \<longleftrightarrow> path n (a # xs) e \<and> backs p a xs e"
  by (induction xs arbitrary: a) auto

lemma List_Check_unmark_run:
  assumes "path (nxt s) (x # xs) e" "distinct (x # xs)" "e \<notin> set xs" "items s e \<noteq> None"
  shows "List_Check_unmark e x ok s = Some (ok \<and> backs (prv s) x xs e, mark (set (x # xs)) False s)"
  using assms
proof (induction xs arbitrary: x s ok)
  case Nil
  let ?s = "mark {x} False s"
  obtain i where i: "items s x = Some i" "pitNext i = e" using Nil.prems(1) by (auto dest: obs_SomeD)
  have "items ?s e \<noteq> None" using Nil.prems(4) by (cases "e = x") (simp_all add: mark_def)
  then obtain j where j: "items ?s e = Some j" by auto
  have "pitPrev j = x \<longleftrightarrow> prv s e = Some x"
    using j prv_mark [of "{x}" False s] by (metis (no_types) option.inject option.map(2) prv_def)
  moreover have "items ?s x = Some (i\<lparr>bAnchor := False\<rparr>)" using i by (simp add: mark_def)
  ultimately show ?case
    using i j by (subst List_Check_unmark.simps) (simp add: rd_def wr_eq mark_one)
next
  case (Cons y xs)
  let ?s = "mark {x} False s"
  obtain i where i: "items s x = Some i" "pitNext i = y" using Cons.prems(1) by (auto dest: obs_SomeD)
  have ye: "y \<noteq> e" using Cons.prems(3) by auto
  have "items s y \<noteq> None" using Cons.prems(1) by (auto dest: obs_SomeD)
  then have "items ?s y \<noteq> None" by (cases "y = x") (simp_all add: mark_def)
  then obtain j where j: "items ?s y = Some j" by auto
  have pj: "pitPrev j = x \<longleftrightarrow> prv s y = Some x"
    using j prv_mark [of "{x}" False s] by (metis (no_types) option.inject option.map(2) prv_def)
  have "items ?s x = Some (i\<lparr>bAnchor := False\<rparr>)" using i by (simp add: mark_def)
  then have "List_Check_unmark e x ok s = List_Check_unmark e y (ok \<and> prv s y = Some x) ?s"
    using i j ye pj by (subst List_Check_unmark.simps) (simp add: rd_def wr_eq mark_one)
  also have "\<dots> = Some ((ok \<and> prv s y = Some x) \<and> backs (prv ?s) y xs e, mark (set (y # xs)) False ?s)"
  proof (rule Cons.IH)
    show "items ?s e \<noteq> None" using Cons.prems(4) by (cases "e = x") (simp_all add: mark_def)
  qed (use Cons.prems in auto)
  finally show ?case by (simp add: insert_commute conj_assoc)
qed

text \<open>On any list whose forward chain is sound, \<open>List_Check\<close> decides whether the back
  chain is, and restores every anchor flag it used as a mark.\<close>

lemma List_Check_decides:
  assumes P: "path (nxt s) (l # xs) l" and D: "distinct (l # xs)" and l0: "l \<noteq> NULL"
    and A: "anc s l = Some True" "\<And>x. x \<in> set xs \<Longrightarrow> anc s x = Some False"
  shows "List_Check l s = Some (backs (prv s) l xs l, s)"
proof -
  obtain i where i: "items s l = Some i" "pitNext i = hd (xs @ [l])" using P by (auto dest: obs_SomeD)
  then have i': "bAnchor i" using A(1) by (simp add: anc_def)
  let ?s = "mark (set xs) True s"
  have 1: "List_Check_mark (hd (xs @ [l])) s = Some (l, ?s)"
    by (rule List_Check_mark_run) (use P D A in auto)
  have "items ?s l \<noteq> None" using i by (simp add: mark_def)
  then have 2: "List_Check_unmark l l True ?s = Some (backs (prv s) l xs l, mark (set (l # xs)) False ?s)"
    using List_Check_unmark_run [of ?s l xs l True] P D by simp
  let ?s2 = "mark (set (l # xs)) False ?s"
  have "mark (set (l # xs)) False ?s = mark {l} False s"
  proof -
    have "mark (set (l # xs)) False ?s = mark {l} False (mark (set xs) False ?s)" by simp
    also have "mark (set xs) False ?s = s" using mark_restore [of "set xs" s False "set xs" True] A by simp
    finally show ?thesis .
  qed
  then have s2: "mark {l} True ?s2 = s" using mark_restore [of "{l}" s True "{l}" False] A(1) by simp
  have "items ?s2 l \<noteq> None" using i by (simp add: mark_def)
  then have "wr l (\<lambda>i. i\<lparr>bAnchor := True\<rparr>) ?s2 = Some s" using s2 by (auto simp: wr_eq mark_one)
  then show ?thesis using l0 i i' 1 2 by (simp add: List_Check_def rd_def)
qed

lemma List_Check_spec:
  assumes W: "wf s L" "L l = Some xs"
  shows "List_Check l s = Some (True, s)"
proof -
  have R: "ring (nxt s) (prv s) (anc s) l xs" by (rule wf_ring [OF W])
  have "backs (prv s) l xs l" using R dls_backs [of "nxt s" "prv s" l xs l] by (simp add: ring_def)
  with List_Check_decides [of s l xs, OF ring_path' [OF R]] R wf_nonnull [OF W, of l] show ?thesis
    by (simp add: ring_def)
qed

subsection \<open>Recovering\<close>

text \<open>The forward chain of a damaged list: from the anchor \<open>l\<close> through \<open>xs\<close> to
  an item whose successor \<open>y\<close> has been passed already (the anchor itself when the chain
  is sound).  Nothing is supposed of the back chain.\<close>

definition chain :: "'d lheap \<Rightarrow> ptr \<Rightarrow> ptr list \<Rightarrow> ptr \<Rightarrow> bool" where
  "chain s l xs y \<longleftrightarrow> path (nxt s) (l # xs) y \<and> distinct (l # xs) \<and> y \<in> set (l # xs)"

lemma path_append: "path n (xs @ ys) e \<longleftrightarrow> path n xs (hd (ys @ [e])) \<and> path n ys e"
  by (induction xs) (auto simp: hd_append)

lemma Recover_seen_run:
  assumes "path (nxt s) zs P" "distinct (zs @ [P])" "items s P = Some p"
  shows "List_Recover_seen P (hd (zs @ [P])) OK s = Some (OK \<and> pitNext p \<notin> set (zs @ [P]))"
  using assms
proof (induction zs arbitrary: OK)
  case Nil
  then show ?case by (subst List_Recover_seen.simps) (simp add: rd_def)
next
  case (Cons z zs)
  then obtain i where i: "items s z = Some i" "pitNext i = hd (zs @ [P])" by (auto dest: obs_SomeD)
  have "List_Recover_seen P z OK s = List_Recover_seen P (hd (zs @ [P])) (OK \<and> pitNext p \<noteq> z) s"
    using i Cons.prems(2,3) by (subst List_Recover_seen.simps) (auto simp: rd_def)
  also have "\<dots> = Some ((OK \<and> pitNext p \<noteq> z) \<and> pitNext p \<notin> set (zs @ [P]))"
    by (rule Cons.IH) (use Cons.prems in auto)
  finally show ?case by auto
qed

lemma Recover_scan_run:
  assumes "chain s l (us @ xs) y"
  shows "List_Recover_scan l (if xs = [] then y else hd xs) (last (l # us)) s = Some (last (l # us @ xs))
    \<or> xs = [] \<and> y \<noteq> l"
  using assms
proof (induction xs arbitrary: us)
  case Nil
  then show ?case by (subst List_Recover_scan.simps) simp
next
  case (Cons x xs)
  have D: "distinct (l # us @ x # xs)" and P: "path (nxt s) (l # us @ x # xs) y" and Y: "y \<in> set (l # us @ x # xs)"
    using Cons.prems by (simp_all add: chain_def)
  have P1: "path (nxt s) (l # us) x" and P2: "path (nxt s) (x # xs) y"
    using P path_append [of "nxt s" "l # us" "x # xs" y] by simp_all
  obtain p where p: "items s x = Some p" "pitNext p = hd (xs @ [y])" using P2 by (auto dest: obs_SomeD)
  have seen: "List_Recover_seen x l True s = Some (pitNext p \<notin> set (l # us @ [x]))"
    using Recover_seen_run [of s "l # us" x p True] P1 D p(1) by auto
  have xl: "x \<noteq> l" using D by auto
  show ?case
  proof (cases "xs = []")
    case True
    have y: "pitNext p = y" using p(2) True by simp
    show ?thesis
    proof (cases "y = l")
      case True': True
      have "List_Recover_scan l l x s = Some x" by (subst List_Recover_scan.simps) simp
      then have "List_Recover_scan l x (last (l # us)) s = Some x"
        using p y True' xl by (subst List_Recover_scan.simps) (simp add: rd_def)
      then show ?thesis using True by simp
    next
      case False
      have "y \<in> set (l # us @ [x])" using Y True by simp
      then have "List_Recover_scan l x (last (l # us)) s = Some x"
        using p y False xl seen by (subst List_Recover_scan.simps) (simp add: rd_def)
      then show ?thesis using True by simp
    qed
  next
    case False
    then have n: "pitNext p = hd xs" "hd xs \<in> set xs" using p(2) by simp_all
    then have "pitNext p \<notin> set (l # us @ [x])" "hd xs \<noteq> l" using D by auto
    then have "List_Recover_scan l x (last (l # us)) s = List_Recover_scan l (hd xs) x s"
      using p n xl seen by (subst List_Recover_scan.simps) (simp add: rd_def)
    moreover have "List_Recover_scan l (if xs = [] then y else hd xs) (last (l # us @ [x])) s =
        Some (last (l # (us @ [x]) @ xs)) \<or> xs = [] \<and> y \<noteq> l"
      using Cons.IH [of "us @ [x]"] Cons.prems by simp
    ultimately show ?thesis using False by simp
  qed
qed

text \<open>The state while the back chain is rebuilt: forward links, data and ownership stay.\<close>

definition rebuilt :: "'d lheap \<Rightarrow> 'd lheap \<Rightarrow> bool" where
  "rebuilt s s' \<longleftrightarrow> dom (items s') = dom (items s) \<and> dat s' = dat s \<and> blocks s' = blocks s \<and>
     pCurrent s' = pCurrent s \<and> critDepth s' = critDepth s \<and> bInited s' = bInited s \<and> traceLog s' = traceLog s"

lemma rebuilt_trans: "rebuilt s s1 \<Longrightarrow> rebuilt s1 s2 \<Longrightarrow> rebuilt s s2"
  by (simp add: rebuilt_def)

lemma rebuilt_upd:
  assumes "items s p \<noteq> None" "\<And>i. Data (f i) = Data i"
  shows "rebuilt s (upd_item p f s)"
  using assms by (auto simp: rebuilt_def obs_upd_item fun_eq_iff dat_def)

lemma Recover_relink_run:
  assumes "path (nxt s) (x # xs) y" "distinct (x # xs)" "items s (last (x # xs)) \<noteq> None"
  shows "\<exists>s'. List_Recover_relink x (last (x # xs)) s = Some s' \<and> rebuilt s s' \<and> nxt s' = nxt s \<and>
    (\<forall>a. a \<notin> set xs \<longrightarrow> prv s' a = prv s a) \<and> (xs \<noteq> [] \<longrightarrow> backs (prv s') x (butlast xs) (last xs)) \<and>
    (\<forall>a. anc s' a = (if a \<in> set (butlast (x # xs)) then Some False else anc s a))"
  using assms
proof (induction xs arbitrary: x s)
  case Nil
  then show ?case by (subst List_Recover_relink.simps) (simp add: rebuilt_def)
next
  case (Cons z xs)
  obtain i where i: "items s x = Some i" "pitNext i = z" using Cons.prems(1) by (auto dest: obs_SomeD)
  obtain j where j: "items s z = Some j" using Cons.prems(1) by (auto dest: obs_SomeD)
  have xz: "x \<noteq> z" "x \<noteq> last (z # xs)" using Cons.prems(2) last_in_set [of "z # xs"] by auto
  define s1 where "s1 = upd_item x (\<lambda>i. i\<lparr>bAnchor := False\<rparr>) (upd_item z (\<lambda>i. i\<lparr>pitPrev := x\<rparr>) s)"
  have r1: "rebuilt s s1"
    unfolding s1_def using i j xz by (intro rebuilt_trans [OF rebuilt_upd rebuilt_upd]) auto
  have O: "nxt s1 = nxt s" "prv s1 = (prv s)(z \<mapsto> x)" "anc s1 = (anc s)(x \<mapsto> False)"
    using i j xz by (auto simp: s1_def obs_upd_item fun_eq_iff nxt_def prv_def anc_def)
  have run: "List_Recover_relink x (last (x # z # xs)) s = List_Recover_relink z (last (z # xs)) s1"
    using i j xz by (subst List_Recover_relink.simps) (simp add: rd_def wr_eq s1_def)
  have "items s1 (last (z # xs)) \<noteq> None" using Cons.prems(3) i j by (auto simp: s1_def)
  with Cons.IH [of s1 z] Cons.prems(1,2) O(1) obtain s' where
    s': "List_Recover_relink z (last (z # xs)) s1 = Some s'" "rebuilt s1 s'" "nxt s' = nxt s1"
      "\<And>a. a \<notin> set xs \<Longrightarrow> prv s' a = prv s1 a" "xs \<noteq> [] \<Longrightarrow> backs (prv s') z (butlast xs) (last xs)"
      "\<And>a. anc s' a = (if a \<in> set (butlast (z # xs)) then Some False else anc s1 a)"
    by auto
  have "prv s' z = Some x" using s'(4) [of z] O(2) Cons.prems(2) by simp
  then have "backs (prv s') x (butlast (z # xs)) (last (z # xs))" using s'(5) by (cases "xs = []") auto
  moreover have "prv s' a = prv s a" if "a \<notin> set (z # xs)" for a
    using s'(4) [of a] O(2) that by simp
  moreover have "anc s' a = (if a \<in> set (butlast (x # z # xs)) then Some False else anc s a)" for a
    using s'(6) [of a] O(3) by simp
  ultimately show ?case using run s' r1 O(1) rebuilt_trans by auto
qed

text \<open>\<open>List_Recover\<close> turns any chain into a ring.  It clears the anchor flag of every
  item but the last, whose flag it does not touch: hence the hypothesis on it.\<close>

lemma List_Recover_repairs:
  assumes C: "chain s l xs y" and l0: "l \<noteq> NULL"
    and A: "xs \<noteq> [] \<Longrightarrow> anc s (last xs) = Some False"
  shows "\<exists>s'. List_Recover ga (Some l) s = Some (Some l, s') \<and> ring (nxt s') (prv s') (anc s') l xs \<and>
    okf s' l = Some True \<and> rebuilt s s' \<and>
    (\<forall>a. a \<notin> set (l # xs) \<longrightarrow> nxt s' a = nxt s a \<and> prv s' a = prv s a \<and> anc s' a = anc s a)"
proof -
  let ?t = "last (l # xs)"
  have P: "path (nxt s) (l # xs) y" and D: "distinct (l # xs)" and Y: "y \<in> set (l # xs)"
    using C by (simp_all add: chain_def)
  obtain i where i: "items s l = Some i" "pitNext i = hd (xs @ [y])" using P by (auto dest: obs_SomeD)
  define s1 where "s1 = upd_item l (\<lambda>i. i\<lparr>bAnchor := True\<rparr>) s"
  have r1: "rebuilt s s1" unfolding s1_def using i by (intro rebuilt_upd) auto
  have O1: "nxt s1 = nxt s" "prv s1 = prv s" "anc s1 = (anc s)(l \<mapsto> True)"
    using i by (auto simp: s1_def obs_upd_item fun_eq_iff nxt_def prv_def anc_def)
  have i1: "items s1 l = Some (i\<lparr>bAnchor := True\<rparr>)" using i by (simp add: s1_def)
  have C1: "chain s1 l ([] @ xs) y" using C O1 by (simp add: chain_def)
  have "xs = [] \<Longrightarrow> y = l" using Y by simp
  with Recover_scan_run [OF C1] have scan: "List_Recover_scan l (hd (xs @ [y])) l s1 = Some ?t"
    by (cases xs) auto
  have "?t \<in> set (l # xs)" by (rule last_in_set) simp
  moreover have "items s1 a \<noteq> None" if m: "a \<in> set (l # xs)" for a
  proof -
    obtain us vs where "l # xs = us @ a # vs" using split_list [OF m] by blast
    then have "path (nxt s1) (us @ a # vs) y" using P O1(1) by simp
    then show ?thesis by (auto simp: path_append dest: obs_SomeD)
  qed
  ultimately have "items s1 ?t \<noteq> None" by blast
  with Recover_relink_run [of s1 l xs y] P D O1(1) obtain s2 where
    s2: "List_Recover_relink l ?t s1 = Some s2" "rebuilt s1 s2" "nxt s2 = nxt s1"
      "\<And>a. a \<notin> set xs \<Longrightarrow> prv s2 a = prv s1 a" "xs \<noteq> [] \<Longrightarrow> backs (prv s2) l (butlast xs) (last xs)"
      "\<And>a. anc s2 a = (if a \<in> set (butlast (l # xs)) then Some False else anc s1 a)" by auto
  have dm: "dom (items s2) = dom (items s1)" using s2(2) by (simp add: rebuilt_def)
  obtain il where il: "items s2 l = Some il" using dm i1 by blast
  obtain it where it: "items s2 ?t = Some it" using dm \<open>items s1 ?t \<noteq> None\<close> by blast
  define s' where "s' = upd_item l (\<lambda>i. i\<lparr>bOK := True\<rparr>) (upd_item l (\<lambda>i. i\<lparr>bAnchor := True\<rparr>)
     (upd_item l (\<lambda>i. i\<lparr>pitPrev := ?t\<rparr>) (upd_item ?t (\<lambda>i. i\<lparr>pitNext := l\<rparr>) s2)))"
  have run: "List_Recover ga (Some l) s = Some (Some l, s')"
    using l0 i i1 scan s2(1) il it
    by (simp add: List_Recover_def rd_def wr_eq s1_def [symmetric] s'_def del: last.simps)
  have I: "items s' = (items s2)(?t \<mapsto> it\<lparr>pitNext := l\<rparr>, l \<mapsto> (if ?t = l then il\<lparr>pitNext := l\<rparr> else il)
     \<lparr>pitPrev := ?t, bAnchor := True, bOK := True\<rparr>)"
    using il it by (cases "?t = l") (simp_all add: s'_def del: last.simps)
  have r2: "rebuilt s2 s'"
  proof -
    have "dom (items s') = dom (items s2)" using il it by (simp add: I insert_absorb domI del: last.simps)
    moreover have "dat s' = dat s2"
      using il it by (cases "?t = l") (simp_all add: fun_eq_iff dat_def I del: last.simps)
    ultimately show ?thesis by (simp add: rebuilt_def s'_def)
  qed
  have O: "nxt s' = (nxt s)(?t \<mapsto> l)" "prv s' = (prv s2)(l \<mapsto> ?t)" "anc s' = (anc s2)(l \<mapsto> True)" "okf s' l = Some True"
  proof -
    show "nxt s' = (nxt s)(?t \<mapsto> l)"
      unfolding O1(1) [symmetric] s2(3) [symmetric] using il
      by (cases "?t = l") (simp_all add: fun_eq_iff nxt_def I del: last.simps)
    show "prv s' = (prv s2)(l \<mapsto> ?t)" using it by (simp add: fun_eq_iff prv_def I del: last.simps)
    show "anc s' = (anc s2)(l \<mapsto> True)" using it by (simp add: fun_eq_iff anc_def I del: last.simps)
    show "okf s' l = Some True" by (simp add: okf_def I del: last.simps)
  qed
  have path': "path (nxt s') (l # xs) l"
  proof -
    have eq: "l # xs = butlast (l # xs) @ [?t]" by simp
    have "distinct (butlast (l # xs) @ [?t])" using D eq by metis
    then have nt: "?t \<notin> set (butlast (l # xs))" by simp
    have "path (nxt s) (butlast (l # xs) @ [?t]) y" using P eq by metis
    then have "path (nxt s) (butlast (l # xs)) ?t" using path_append by fastforce
    then have "path (nxt s') (butlast (l # xs)) ?t"
      by (rule path_cong) (use nt O(1) in auto)
    then have "path (nxt s') (butlast (l # xs) @ [?t]) l"
      unfolding path_append by (simp add: O(1))
    then show ?thesis using eq by metis
  qed
  have backs': "backs (prv s') l xs l"
  proof (cases "xs = []")
    case True
    then show ?thesis by (simp add: O(2))
  next
    case False
    have cg: "backs p' a zs e" if "backs p a zs e" "\<And>x. x \<in> set (zs @ [e]) \<Longrightarrow> p' x = p x" for p p' a zs e
      using that by (induction zs arbitrary: a) auto
    have sn: "backs p a (zs @ [e]) f \<longleftrightarrow> backs p a zs e \<and> p f = Some e" for p a zs e f
      by (induction zs arbitrary: a) auto
    have "l \<notin> set (butlast xs @ [last xs])" using D False by simp
    then have "backs (prv s') l (butlast xs) (last xs)"
      by (intro cg [OF s2(5) [OF False]]) (auto simp: O(2))
    moreover have "prv s' l = Some (last xs)" using O(2) False by simp
    ultimately have "backs (prv s') l (butlast xs @ [last xs]) l" by (simp only: sn simp_thms)
    then show ?thesis using False by (metis append_butlast_last_id)
  qed
  have anc': "anc s' x = Some False" if x: "x \<in> set xs" for x
  proof -
    have xl: "x \<noteq> l" using D x by auto
    show ?thesis
    proof (cases "x \<in> set (butlast (l # xs))")
      case True
      then show ?thesis using s2(6) [of x] O(3) xl by simp
    next
      case False
      then have "x = last xs" using x xl
        by (metis append_butlast_last_id butlast.simps(2) empty_iff empty_set in_set_conv_decomp
            in_set_butlastD insertE list.simps(15) set_append Un_iff list.set_intros(2))
      moreover have "xs \<noteq> []" using x by auto
      ultimately show ?thesis using s2(6) [of x] O(3) O1(3) xl False A by simp
    qed
  qed
  have "ring (nxt s') (prv s') (anc s') l xs"
    using path' backs' D anc' O(3) by (simp add: ring_def dls_backs)
  moreover have "nxt s' a = nxt s a \<and> prv s' a = prv s a \<and> anc s' a = anc s a" if a: "a \<notin> set (l # xs)" for a
  proof -
    have "a \<noteq> ?t" "a \<notin> set (butlast (l # xs))" using a \<open>?t \<in> set (l # xs)\<close> by (blast, meson in_set_butlastD)
    then show ?thesis using a O s2(4) [of a] s2(6) [of a] O1 by simp
  qed
  ultimately show ?thesis using run O(4) rebuilt_trans [OF rebuilt_trans [OF r1 s2(2)] r2] by blast
qed

end
