(* ===== verification/Gutils_List_Ample.thy ===== *)
theory Gutils_List_Ample
  imports Gutils_List_Check
begin

text \<open>
  The list routines when storage does not run out.  The clients of \<open>list.c\<close> in
  \<open>windiff\<close> use the NULL that a failed \<open>List_NewLast\<close> returns without a test, so
  their correctness needs a system that has room whenever finitely many blocks are in use
  (\<open>ample\<close>).  \<open>first_fit\<close> is such a system.
\<close>

definition ample :: "galloc \<Rightarrow> bool" where
  "ample ga \<longleftrightarrow> galloc_ok ga \<and> (\<forall>n bs. finite (dom bs) \<longrightarrow> (\<exists>h p. ga n bs = GMem h p))"

lemma ample_ok: "ample ga \<Longrightarrow> galloc_ok ga"
  by (simp add: ample_def)

lemma blocks_finite:
  assumes "heap_ok s"
  shows "finite (dom (blocks s))"
proof -
  have C: "counted (blocks s) (own s)" using assms by (simp add: alloc_ok_def)
  have "b \<in> (\<lambda>a. fst (the (own s a))) ` dom (own s)" if "blocks s b = Some k" for b k
  proof -
    have "0 < uses (own s) b" using C that unfolding counted_def by auto
    then have "card {a. \<exists>z. own s a = Some (b, z)} \<noteq> 0" by (simp add: uses_def)
    then have "{a. \<exists>z. own s a = Some (b, z)} \<noteq> {}" by (cases "{a. \<exists>z. own s a = Some (b, z)} = {}") (simp only: card.empty, simp)
    then obtain a z where "own s a = Some (b, z)" by blast
    then show ?thesis by (intro image_eqI [of _ _ a]) auto
  qed
  then have "dom (blocks s) \<subseteq> (\<lambda>a. fst (the (own s a))) ` dom (own s)" by blast
  moreover have "finite (dom (own s))" using C by (simp add: counted_def)
  ultimately show ?thesis by (meson finite_imageI finite_subset)
qed

lemma list_Alloc_ample:
  assumes H: "heap_ok s" and ga: "ample ga" and cb: "iAnchorSize \<le> cb"
  shows "\<exists>p s'. list_Alloc ga cb s = Some (p, s') \<and> p \<noteq> NULL"
proof -
  obtain h q where g: "ga (allocCalls s) (blocks s) = GMem h q"
    using ga blocks_finite [OF H] unfolding ample_def by blast
  obtain p s' where A: "list_Alloc ga cb s = Some (p, s')"
    using list_Alloc_spec [OF H ample_ok [OF ga] cb] by blast
  then have "p \<noteq> NULL"
    using g by (auto simp: list_Alloc_def Let_def EnterCriticalSection_def chData_def split: if_splits option.splits)
  with A show ?thesis by blast
qed

lemma List_NewLast_ample:
  assumes W: "wf s L" "L l = Some xs" and ga: "ample ga"
  shows "\<exists>q s'. List_NewLast ga l n s = Some (cursor q, s') \<and> inserted s L l xs [] n None q s'"
proof -
  have H: "heap_ok s" using W by (simp add: wf_def)
  have l0: "l \<noteq> NULL" using wf_nonnull [OF W] by simp
  obtain p s1 where A: "list_Alloc ga (iHeaderSize + n) s = Some (p, s1)" "p \<noteq> NULL"
    using list_Alloc_ample [OF H ga, of "iHeaderSize + n"] by (auto simp: size_defs)
  have "List_NewLast ga l n s \<noteq> Some (NULL, s')" for s'
    using A l0 by (auto simp: List_NewLast_def Let_def)
  then show ?thesis
    using List_NewLast_spec [OF W ample_ok [OF ga], of n] by (auto simp: inserts_def)
qed

lemma List_Create_ample:
  assumes W: "wf s L" and ga: "ample ga"
  shows "\<exists>l s'. List_Create ga s = Some (l, s') \<and> created s L l s'"
proof -
  define s0 where "s0 = (if \<not> bInited s then List_Init s else s)"
  have "wf s0 L" by (rule wf_cong [OF W]) (simp_all add: s0_def)
  then have H: "heap_ok s0" by (simp add: wf_def)
  obtain p s1 where A: "list_Alloc ga iAnchorSize s0 = Some (p, s1)" "p \<noteq> NULL"
    using list_Alloc_ample [OF H ga order_refl] by blast
  then have "List_Create ga s \<noteq> Some (NULL, s')" for s'
    unfolding List_Create_def Let_def s0_def [symmetric] by auto
  then show ?thesis using List_Create_spec [OF W ample_ok [OF ga]] by auto
qed

subsection \<open>A system with room\<close>

definition first_fit :: galloc where
  "first_fit n bs = GMem (Suc n) (Suc (\<Sum>b \<in> dom bs. b + sizeof_BLOCK))"

lemma first_fit_beyond:
  assumes "finite (dom bs)" "b \<in> dom bs"
  shows "b + sizeof_BLOCK \<le> (\<Sum>b \<in> dom bs. b + sizeof_BLOCK)"
  using member_le_sum [of b "dom bs" "\<lambda>b. b + sizeof_BLOCK"] assms by simp

text \<open>Over infinitely many blocks the sum means nothing; there the system refuses.\<close>

definition roomy :: galloc where
  "roomy n bs = (if finite (dom bs) then first_fit n bs else GAllocFailed)"

lemma roomy_ample: "ample roomy"
  unfolding ample_def galloc_ok_def
proof (intro conjI allI impI)
  fix n bs h p assume "roomy n bs = GMem h p"
  then have R: "finite (dom bs)" "p = Suc (\<Sum>b \<in> dom bs. b + sizeof_BLOCK)"
    by (auto simp: roomy_def first_fit_def split: if_splits)
  then show "p \<noteq> NULL" by simp
  show "\<forall>b \<in> dom bs. p + sizeof_BLOCK \<le> b \<or> b + sizeof_BLOCK \<le> p"
    using first_fit_beyond [OF R(1)] unfolding R(2) by (meson le_SucI)
next
  fix n and bs :: "ptr \<rightharpoonup> block" assume "finite (dom bs)"
  then show "\<exists>h p. roomy n bs = GMem h p" by (simp add: roomy_def first_fit_def)
qed

end
