(* ===== verification/Gutils_Gbit.thy ===== *)
theory Gutils_Gbit
  imports Prelude
begin

text \<open>
  Model of \<open>windiff/gutils/gbit.c\<close>: free lists kept as bitmaps.  A map is an array of
  32-bit words in which bit 0 of word 0 stands for block 1; a set bit is a free block.

  \<^item> A map is a list of words.  Reading or writing past its end is a fault (\<open>None\<close>).
  \<^item> The C \<open>long\<close> counts and indices are natural numbers: every one of them is
    non-negative whenever the code is defined.  The one exception is \<open>blknr - 1\<close> for
    \<open>blknr = 0\<close>, which the code would shift by; it is a fault here.
  \<^item> The nested loops and the jumps to the label \<open>loop\<close> of
    \<open>gbit_findfree\<close> become one function per loop and one recursive function
    for the label, whose arguments are the variables that are live there.
\<close>

type_synonym bitmap = "32 word list"

definition bits :: "bitmap \<Rightarrow> nat \<Rightarrow> bool" where
  "bits m k \<longleftrightarrow> k div 32 < length m \<and> bit (m ! (k div 32)) (k mod 32)"

unbundle bit_operations_syntax

subsection \<open>The operations\<close>

text \<open>The loop \<open>for (i = 0; i < n; i++) dword = (dword << 1) | 1\<close> from 0.\<close>

primrec ones :: "nat \<Rightarrow> 32 word" where
  "ones 0 = 0"
| "ones (Suc n) = push_bit 1 (ones n) OR 1"

definition gbit_init :: "bitmap \<Rightarrow> nat \<Rightarrow> bitmap option" where
  "gbit_init m nblks =
     (let leftover = nblks mod 32; blks = nblks div 32
      in if blks + (if leftover \<noteq> 0 then 1 else 0) > length m then None
         else let m = replicate blks (- 1) @ drop blks m
              in Some (if leftover \<noteq> 0 then m[blks := ones leftover] else m))"

definition upd_word :: "bitmap \<Rightarrow> nat \<Rightarrow> (32 word \<Rightarrow> 32 word) \<Rightarrow> bitmap option" where
  "upd_word m i f = (if i < length m then Some (m[i := f (m ! i)]) else None)"

text \<open>The loop over the full words.\<close>

primrec fill_words :: "bitmap \<Rightarrow> nat \<Rightarrow> nat \<Rightarrow> 32 word \<Rightarrow> bitmap option" where
  "fill_words m startword 0 dword = Some m"
| "fill_words m startword (Suc i) dword = do {
     m \<leftarrow> upd_word m startword (\<lambda>_. dword);
     fill_words m (Suc startword) i dword
   }"

definition gbit_set :: "bitmap \<Rightarrow> nat \<Rightarrow> nat \<Rightarrow> bool \<Rightarrow> bitmap option" where
  "gbit_set m blknr nblks op_set =
     (if blknr = 0 then None
      else do {
        let blknr = blknr - 1;
        let first = min (32 - blknr mod 32) nblks;
        let nblks = nblks - first;
        let last = nblks mod 32;
        let fullwords = (nblks - last) div 32;
        let startword = blknr div 32;
        let startbit = blknr mod 32;
        let dword = push_bit startbit (ones first);
        m \<leftarrow> upd_word m startword (\<lambda>w. if op_set then w OR dword else w AND NOT dword);
        m \<leftarrow> fill_words m (startword + 1) fullwords (if op_set then - 1 else 0);
        let startword = startword + 1 + fullwords;
        let dword = ones last;
        if last \<noteq> 0
        then upd_word m startword (\<lambda>w. if op_set then w OR dword else w AND NOT dword)
        else Some m
      })"

definition gbit_alloc :: "bitmap \<Rightarrow> nat \<Rightarrow> nat \<Rightarrow> bitmap option" where
  "gbit_alloc m blknr nblks = gbit_set m blknr nblks False"

definition gbit_free :: "bitmap \<Rightarrow> nat \<Rightarrow> nat \<Rightarrow> bitmap option" where
  "gbit_free m blknr nblks = gbit_set m blknr nblks True"

subsection \<open>Finding a free run\<close>

definition rdw :: "bitmap \<Rightarrow> nat \<Rightarrow> 32 word option" where
  "rdw m i = (if i < length m then Some (m ! i) else None)"

text \<open>Skip the words that have no free block.\<close>

function skip_words :: "bitmap \<Rightarrow> nat \<Rightarrow> nat \<Rightarrow> nat \<Rightarrow> (nat \<times> nat) option" where
  "skip_words m mapblks curblk curbit =
     (if curblk < mapblks then do {
        w \<leftarrow> rdw m curblk;
        if w > 0 then Some (curblk, curbit) else skip_words m mapblks (curblk + 1) 0
      } else Some (curblk, curbit))"
  by pat_completeness auto
termination by (relation "measure (\<lambda>(m, mapblks, curblk, curbit). mapblks - curblk)") auto

text \<open>The first set bit of a word from \<open>curbit\<close> on, or 32.\<close>

function first_one :: "32 word \<Rightarrow> nat \<Rightarrow> nat" where
  "first_one w curbit = (if curbit < 32 then if bit w curbit then curbit else first_one w (curbit + 1) else curbit)"
  by pat_completeness auto
termination by (relation "measure (\<lambda>(w, curbit). 32 - curbit)") auto

text \<open>The number of set bits in a row from \<open>curbit\<close> on, at most \<open>n\<close>: the loops that
  count \<open>i\<close> (or \<open>curbit\<close>) while the bit under the mask is set.\<close>

primrec ones_from :: "32 word \<Rightarrow> nat \<Rightarrow> nat \<Rightarrow> nat" where
  "ones_from w curbit 0 = 0"
| "ones_from w curbit (Suc n) = (if bit w curbit then Suc (ones_from w (Suc curbit) n) else 0)"

text \<open>The loop over the full words: how it ended.\<close>

datatype full_result = AllFull | EndOfMap nat | NotFull nat nat

function check_full :: "bitmap \<Rightarrow> nat \<Rightarrow> nat \<Rightarrow> nat \<Rightarrow> full_result option" where
  "check_full m mapblks lastblk curblk =
     (if curblk \<le> lastblk then
        if curblk \<ge> mapblks then Some (EndOfMap curblk)
        else do {
          w \<leftarrow> rdw m curblk;
          if w \<noteq> - 1 then Some (NotFull curblk (ones_from w 0 32))
          else check_full m mapblks lastblk (curblk + 1)
        }
      else Some AllFull)"
  by pat_completeness auto
termination by (relation "measure (\<lambda>(m, mapblks, lastblk, curblk). Suc lastblk - curblk)") auto

declare skip_words.simps [simp del] first_one.simps [simp del] check_full.simps [simp del]

definition longest :: "nat \<Rightarrow> nat \<Rightarrow> nat \<times> nat \<Rightarrow> nat \<times> nat" where
  "longest len begin au = (if len > snd au then (begin, len) else au)"

text \<open>One pass from the label \<open>loop\<close> to the next jump to it: either the function returns
  (\<open>Inl (value, *blknr)\<close>) or it continues with the variables
  \<open>curblk\<close>, \<open>curbit\<close>, \<open>(aubegin, aulen)\<close>.\<close>

definition findfree_pass :: "bitmap \<Rightarrow> nat \<Rightarrow> nat \<Rightarrow> nat \<Rightarrow> nat \<Rightarrow> nat \<times> nat \<Rightarrow>
    ((nat \<times> nat) + (nat \<times> nat \<times> (nat \<times> nat))) option" where
  "findfree_pass m mapblks nblks curblk curbit au = do {
     (curblk, curbit) \<leftarrow> skip_words m mapblks curblk curbit;
     if curblk \<ge> mapblks then Some (Inl (snd au, fst au))
     else do {
       let startblk = curblk;
       w \<leftarrow> rdw m curblk;
       let curbit = first_one w curbit;
       if curbit \<ge> 32 then Some (Inr (curblk + 1, 0, au))
       else do {
         let startbit = curbit;
         let aubegin = startblk * 32 + startbit + 1;
         let nbitsleft = min (32 - curbit) nblks;
         let nfull = (nblks - nbitsleft) div 32;
         let nlast = (nblks - nbitsleft) mod 32;
         let i = ones_from w curbit nbitsleft;
         if i < nbitsleft then Some (Inr (curblk, curbit + i, longest i aubegin au))
         else do {
           r \<leftarrow> check_full m mapblks (startblk + nfull) (curblk + 1);
           case r of
             EndOfMap curblk \<Rightarrow>
               Some (Inr (curblk, curbit + i, longest (nbitsleft + (curblk - (startblk + 1)) * 32) aubegin au))
           | NotFull curblk c \<Rightarrow>
               Some (Inr (curblk, c, longest (c + nbitsleft + (curblk - (startblk + 1)) * 32) aubegin au))
           | AllFull \<Rightarrow> do {
               let curblk = startblk + nfull + 1;
               c \<leftarrow> (if nlast = 0 then Some 0
                    else do { w \<leftarrow> rdw m curblk; Some (ones_from w 0 nlast) });
               if c < nlast
               then Some (Inr (curblk, c, longest (nbitsleft + nfull * 32 + c) aubegin au))
               else Some (Inl (nblks, aubegin))
             }
         }
       }
     }
   }"

partial_function (option) findfree_loop :: "bitmap \<Rightarrow> nat \<Rightarrow> nat \<Rightarrow> nat \<Rightarrow> nat \<Rightarrow> nat \<times> nat \<Rightarrow>
    (nat \<times> nat) option" where
  "findfree_loop m mapblks nblks curblk curbit au = do {
     r \<leftarrow> findfree_pass m mapblks nblks curblk curbit au;
     case r of Inl v \<Rightarrow> Some v
     | Inr (curblk, curbit, au) \<Rightarrow> findfree_loop m mapblks nblks curblk curbit au
   }"

text \<open>The result is the return value and the value stored in \<open>*blknr\<close>.\<close>

definition gbit_findfree :: "bitmap \<Rightarrow> nat \<Rightarrow> nat \<Rightarrow> (nat \<times> nat) option" where
  "gbit_findfree m nblks mapsize = findfree_loop m ((mapsize + 31) div 32) nblks 0 0 (0, 0)"

subsection \<open>What the bit operations do\<close>

lemma bit_ones: "bit (ones n) k \<longleftrightarrow> k < n \<and> k < 32"
proof (induction n arbitrary: k)
  case (Suc n)
  show ?case
    unfolding ones.simps bit_or_iff bit_push_bit_iff Suc by (cases k) (auto simp: bit_1_iff)
qed simp

lemma bits_update:
  "bits (m[i := w]) k \<longleftrightarrow> (if k div 32 = i then i < length m \<and> bit w (k mod 32) else bits m k)"
  by (auto simp: bits_def)

lemma fill_words_spec:
  "sw + n \<le> length m \<Longrightarrow> \<exists>m'. fill_words m sw n d = Some m' \<and> length m' = length m \<and>
     (\<forall>k. bits m' k \<longleftrightarrow> (if sw \<le> k div 32 \<and> k div 32 < sw + n then bit d (k mod 32) else bits m k))"
proof (induction n arbitrary: m sw)
  case (Suc n)
  let ?m = "m[sw := d]"
  have "Suc sw + n \<le> length ?m" using Suc.prems by simp
  from Suc.IH [OF this] obtain m' where m': "fill_words ?m (Suc sw) n d = Some m'" "length m' = length m"
    "\<And>k. bits m' k \<longleftrightarrow> (if Suc sw \<le> k div 32 \<and> k div 32 < Suc sw + n then bit d (k mod 32) else bits ?m k)"
    by auto
  have "bits m' k \<longleftrightarrow> (if sw \<le> k div 32 \<and> k div 32 < sw + Suc n then bit d (k mod 32) else bits m k)" for k
    using Suc.prems by (auto simp: m'(3) bits_update)
  with m' Suc.prems show ?case by (simp add: upd_word_def)
qed auto

text \<open>A part of one word, from bit \<open>sb\<close>, \<open>n\<close> bits.\<close>

lemma set_part_spec:
  assumes "sw < length m" "sb + n \<le> 32"
  shows "\<exists>m'. upd_word m sw (\<lambda>w. if v then w OR push_bit sb (ones n) else w AND NOT (push_bit sb (ones n))) = Some m' \<and>
     length m' = length m \<and>
     (\<forall>k. bits m' k \<longleftrightarrow> (if k div 32 = sw \<and> sb \<le> k mod 32 \<and> k mod 32 < sb + n then v else bits m k))"
proof -
  have B: "bit (push_bit sb (ones n)) j \<longleftrightarrow> sb \<le> j \<and> j < sb + n" if "j < 32" for j
    using that assms(2) by (auto simp: bit_push_bit_iff bit_ones)
  have b: "bit (if v then w OR push_bit sb (ones n) else w AND NOT (push_bit sb (ones n))) j \<longleftrightarrow>
      (if sb \<le> j \<and> j < sb + n then v else bit w j)" if "j < 32" for w j
    using B [OF that] that by (auto simp: bit_or_iff bit_and_iff bit_not_iff)
  have c: "bits m k \<longleftrightarrow> bit (m ! sw) (k mod 32)" if "k div 32 = sw" for k
    using that assms(1) by (simp add: bits_def)
  show ?thesis
    using assms(1) by (auto simp: upd_word_def bits_update b c simp del: if_split cong: if_cong)
qed

lemma region_split:
  assumes "sb < 32" "t < (32::nat)" "sb + first \<le> 32" "rest = 0 \<or> sb + first = 32" "rest = 32 * d + e" "e < 32"
  shows "(32 * sw + sb \<le> 32 * q + t \<and> 32 * q + t < 32 * sw + sb + first + rest) \<longleftrightarrow>
    (q = sw \<and> sb \<le> t \<and> t < sb + first) \<or> (sw + 1 \<le> q \<and> q < sw + 1 + d) \<or> (q = sw + 1 + d \<and> t < e)"
proof -
  consider "q < sw" | "q = sw" | j where "q = sw + 1 + j" by (metis add.right_neutral le_Suc_ex linorder_neqE_nat Suc_eq_plus1 Suc_leI)
  then show ?thesis
  proof cases
    case 1
    then have "32 * q + 32 \<le> 32 * sw" by simp
    then show ?thesis using 1 assms by simp
  next
    case 2
    have "t < sb + (first + rest) \<longleftrightarrow> t < sb + first" using assms(2,4) by auto
    with 2 show ?thesis by simp
  next
    case 3
    show ?thesis
    proof (cases "rest = 0")
      case True
      with 3 assms show ?thesis by simp
    next
      case False
      with assms(4) have "sb + first = 32" by simp
      then have "(32 * sw + sb \<le> 32 * q + t \<and> 32 * q + t < 32 * sw + sb + first + rest) \<longleftrightarrow> 32 * j + t < 32 * d + e"
        using 3 assms(1,5) by linarith
      also have "\<dots> \<longleftrightarrow> j < d \<or> j = d \<and> t < e"
      proof (cases j d rule: linorder_cases)
        case less
        then have "32 * j + 32 \<le> 32 * d" by simp
        with less assms(2) show ?thesis by simp
      next
        case greater
        then have "32 * d + 32 \<le> 32 * j" by simp
        with greater assms(6) show ?thesis by simp
      qed simp
      finally show ?thesis using 3 by auto
    qed
  qed
qed

lemma gbit_set_spec:
  assumes "1 \<le> blknr" "blknr - 1 + nblks \<le> 32 * length m" "0 < nblks"
  shows "\<exists>m'. gbit_set m blknr nblks v = Some m' \<and> length m' = length m \<and>
    (\<forall>k. bits m' k \<longleftrightarrow> (if blknr \<le> k + 1 \<and> k + 1 < blknr + nblks then v else bits m k))"
proof -
  define b where "b = blknr - 1"
  define sw sb where "sw = b div 32" and "sb = b mod 32"
  define first where "first = min (32 - sb) nblks"
  define rest where "rest = nblks - first"
  have b: "b = 32 * sw + sb" "sb < 32" by (simp_all add: sw_def sb_def)
  have f: "first \<le> nblks" "sb + first \<le> 32" "rest = 0 \<or> sb + first = 32"
    using b by (auto simp: first_def rest_def)
  have fits: "32 * sw + sb + nblks \<le> 32 * length m" using assms(2) b by (simp add: b_def)
  have sw: "sw < length m" using fits assms(3) b by linarith
  obtain m1 where m1: "upd_word m sw (\<lambda>w. if v then w OR push_bit sb (ones first)
      else w AND NOT (push_bit sb (ones first))) = Some m1" "length m1 = length m"
    "\<And>k. bits m1 k \<longleftrightarrow> (if k div 32 = sw \<and> sb \<le> k mod 32 \<and> k mod 32 < sb + first then v else bits m k)"
    using set_part_spec [OF sw f(2)] by blast
  have full: "(rest - rest mod 32) div 32 = rest div 32" by (simp add: minus_mod_eq_mult_div)
  have r: "rest = 32 * (rest div 32) + rest mod 32" by simp
  have "sw + 1 + rest div 32 \<le> length m"
  proof (cases "rest = 0")
    case True
    then show ?thesis using sw by simp
  next
    case False
    then have "sb + first = 32" using f(3) by simp
    then have "32 * (sw + 1) + rest \<le> 32 * length m" using fits f(1) by (simp add: rest_def)
    moreover have "32 * (rest div 32) \<le> rest" by simp
    ultimately have "32 * (sw + 1 + rest div 32) \<le> 32 * length m" by (simp add: algebra_simps)
    then show ?thesis by (simp only: nat_mult_le_cancel_disj)
  qed
  then obtain m2 where m2: "fill_words m1 (sw + 1) (rest div 32) (if v then - 1 else 0) = Some m2"
    "length m2 = length m"
    "\<And>k. bits m2 k \<longleftrightarrow> (if sw + 1 \<le> k div 32 \<and> k div 32 < sw + 1 + rest div 32 then v else bits m1 k)"
    using fill_words_spec [of "sw + 1" "rest div 32" m1 "if v then - 1 else 0"] m1(2) by (auto cong: if_cong)
  let ?w3 = "sw + 1 + rest div 32"
  have "\<exists>m3. (if rest mod 32 \<noteq> 0 then upd_word m2 ?w3 (\<lambda>w. if v then w OR ones (rest mod 32)
      else w AND NOT (ones (rest mod 32))) else Some m2) = Some m3 \<and> length m3 = length m \<and>
    (\<forall>k. bits m3 k \<longleftrightarrow> (if k div 32 = ?w3 \<and> k mod 32 < rest mod 32 then v else bits m2 k))"
  proof (cases "rest mod 32 = 0")
    case False
    then have "rest \<noteq> 0" by auto
    then have "sb + first = 32" using f(3) by simp
    then have "32 * (sw + 1) + rest \<le> 32 * length m" using fits f(1) by (simp add: rest_def)
    moreover obtain d e where "rest = 32 * d + e" "rest div 32 = d" "rest mod 32 = e" using r by metis
    ultimately have "?w3 < length m2" using False m2(2) by simp
    from set_part_spec [OF this, of 0 "rest mod 32" v, unfolded push_bit_0_id id_apply] False m2(2)
    show ?thesis by simp
  qed (use m2 in simp)
  then obtain m3 where m3: "(if rest mod 32 \<noteq> 0 then upd_word m2 ?w3 (\<lambda>w. if v then w OR ones (rest mod 32)
      else w AND NOT (ones (rest mod 32))) else Some m2) = Some m3" "length m3 = length m"
    "\<And>k. bits m3 k \<longleftrightarrow> (if k div 32 = ?w3 \<and> k mod 32 < rest mod 32 then v else bits m2 k)" by blast
  have run: "gbit_set m blknr nblks v = Some m3"
    using assms(1) m1(1) m2(1) m3(1) full
    unfolding gbit_set_def Let_def b_def [symmetric] sw_def [symmetric] sb_def [symmetric]
      first_def [symmetric] rest_def [symmetric]
    by (cases "rest mod 32 = 0") simp_all
  have "bits m3 k \<longleftrightarrow> (if blknr \<le> k + 1 \<and> k + 1 < blknr + nblks then v else bits m k)" for k
  proof -
    define q t where "q = k div 32" and "t = k mod 32"
    have k: "k = 32 * q + t" "t < 32" by (simp_all add: q_def t_def)
    have "(blknr \<le> k + 1 \<and> k + 1 < blknr + nblks) \<longleftrightarrow>
      (q = sw \<and> sb \<le> t \<and> t < sb + first) \<or> (sw + 1 \<le> q \<and> q < ?w3) \<or> (q = ?w3 \<and> t < rest mod 32)"
    proof -
      have n: "nblks = first + rest" using f(1) by (simp add: rest_def)
      have "(blknr \<le> k + 1 \<and> k + 1 < blknr + nblks) \<longleftrightarrow> (32 * sw + sb \<le> 32 * q + t \<and> 32 * q + t < 32 * sw + sb + first + rest)"
        using assms(1) b(1) k(1) n by (auto simp: b_def)
      also have "\<dots> \<longleftrightarrow> (q = sw \<and> sb \<le> t \<and> t < sb + first) \<or> (sw + 1 \<le> q \<and> q < ?w3) \<or> (q = ?w3 \<and> t < rest mod 32)"
        by (rule region_split [OF b(2) k(2) f(2,3) r]) simp
      finally show ?thesis .
    qed
    then show ?thesis using m1(3) [of k] m2(3) [of k] m3(3) [of k] unfolding q_def t_def by auto
  qed
  with run m3(2) show ?thesis by blast
qed

lemma gbit_init_spec:
  assumes "nblks \<le> 32 * length m"
  shows "\<exists>m'. gbit_init m nblks = Some m' \<and> length m' = length m \<and>
    (\<forall>k. k div 32 < (nblks + 31) div 32 \<longrightarrow> bits m' k = (k < nblks)) \<and>
    (\<forall>k. k div 32 \<ge> (nblks + 31) div 32 \<longrightarrow> bits m' k = bits m k)"
proof -
  define blks left where "blks = nblks div 32" and "left = nblks mod 32"
  have n: "nblks = 32 * blks + left" "left < 32" by (simp_all add: blks_def left_def)
  have top: "(nblks + 31) div 32 = blks + (if left \<noteq> 0 then 1 else 0)" using n by auto
  have fit: "blks + (if left \<noteq> 0 then 1 else 0) \<le> length m"
    using assms n by (auto split: if_splits)
  define m1 :: bitmap where "m1 = replicate blks (- 1) @ drop blks m"
  define m' where "m' = (if left \<noteq> 0 then m1[blks := ones left] else m1)"
  have len: "length m1 = length m" using fit by (auto simp: m1_def split: if_splits)
  have b1: "bits m1 k \<longleftrightarrow> k div 32 < blks \<or> bits m k \<and> blks \<le> k div 32" for k
    using fit by (auto simp: bits_def m1_def nth_append len split: if_splits)
  have b': "bits m' k \<longleftrightarrow> (if left \<noteq> 0 \<and> k div 32 = blks then k mod 32 < left else bits m1 k)" for k
    using fit len by (auto simp: m'_def bits_update bit_ones split: if_splits)
  have "gbit_init m nblks = Some m'"
    using fit unfolding gbit_init_def Let_def blks_def [symmetric] left_def [symmetric]
    by (simp add: m'_def m1_def)
  moreover have "bits m' k = (k < nblks)" if "k div 32 < (nblks + 31) div 32" for k
  proof -
    define q t where "q = k div 32" and "t = k mod 32"
    have k: "k = 32 * q + t" "t < 32" by (simp_all add: q_def t_def)
    show ?thesis
    proof (cases "q < blks")
      case True
      then have "32 * q + 32 \<le> 32 * blks" by simp
      then have "k < nblks" using k n by linarith
      moreover have "bits m' k" using b' [of k] b1 [of k] True by (simp add: q_def)
      ultimately show ?thesis by simp
    next
      case False
      then have "q = blks" "left \<noteq> 0" using that top by (auto simp: q_def split: if_splits)
      then have "bits m' k \<longleftrightarrow> t < left" using b' [of k] by (simp add: q_def t_def)
      moreover have "k < nblks \<longleftrightarrow> t < left" using k(1) n(1) \<open>q = blks\<close> by linarith
      ultimately show ?thesis by simp
    qed
  qed
  moreover have "bits m' k = bits m k" if "k div 32 \<ge> (nblks + 31) div 32" for k
    using that b' [of k] b1 [of k] top by (auto split: if_splits)
  ultimately show ?thesis using len by (auto simp: m'_def)
qed

subsection \<open>What \<open>gbit_findfree\<close> finds\<close>

definition run :: "bitmap \<Rightarrow> nat \<Rightarrow> nat \<Rightarrow> bool" where
  "run m a n \<longleftrightarrow> (\<forall>k. a \<le> k \<and> k < a + n \<longrightarrow> bits m k)"

definition clear :: "bitmap \<Rightarrow> nat \<Rightarrow> nat \<Rightarrow> bool" where
  "clear m a b \<longleftrightarrow> (\<forall>k. a \<le> k \<and> k < b \<longrightarrow> \<not> bits m k)"

lemma bits_at: "q < length m \<Longrightarrow> t < 32 \<Longrightarrow> bits m (32 * q + t) \<longleftrightarrow> bit (m ! q) t"
  by (simp add: bits_def)

lemma word_split: "(k::nat) = 32 * (k div 32) + k mod 32"
  by simp

lemma clear_word:
  assumes "q < length m" "m ! q = 0"
  shows "clear m (32 * q + t) (32 * (q + 1))"
  unfolding clear_def
proof (intro allI impI)
  fix k assume "32 * q + t \<le> k \<and> k < 32 * (q + 1)"
  then have "k div 32 = q" by auto
  then show "\<not> bits m k" using assms by (simp add: bits_def)
qed

lemma clear_trans: "clear m a b \<Longrightarrow> clear m b c \<Longrightarrow> clear m a c"
  unfolding clear_def by (meson not_le)

lemma skip_words_spec:
  assumes "mb \<le> length m"
  shows "\<exists>c t. skip_words m mb cb cbit = Some (c, t) \<and> cb \<le> c \<and> (c = cb \<and> t = cbit \<or> cb < c \<and> t = 0) \<and>
    (cb \<le> mb \<longrightarrow> c \<le> mb) \<and> clear m (32 * cb + cbit) (32 * c)  \<and>
    (c < mb \<longrightarrow> m ! c \<noteq> 0)"
  using assms
proof (induction m mb cb cbit rule: skip_words.induct)
  case (1 m mb cb cbit)
  show ?case
  proof (cases "cb < mb \<and> m ! cb = 0")
    case True
    then have r: "rdw m cb = Some (m ! cb)" using 1(2) by (simp add: rdw_def)
    have z: "clear m (32 * cb + cbit) (32 * (cb + 1))" using clear_word True 1(2) by simp
    obtain c t where ct: "skip_words m mb (cb + 1) 0 = Some (c, t)" "cb + 1 \<le> c" "c = cb + 1 \<and> t = 0 \<or> cb + 1 < c \<and> t = 0"
      "cb + 1 \<le> mb \<longrightarrow> c \<le> mb" "clear m (32 * (cb + 1) + 0) (32 * c)" "c < mb \<longrightarrow> m ! c \<noteq> 0"
      using 1(1) [OF _ r] True 1(2) by auto
    have "skip_words m mb cb cbit = Some (c, t)"
      using True r ct(1) by (subst skip_words.simps) simp
    moreover have "cb + 1 \<le> mb" using True by simp
    moreover have "clear m (32 * cb + cbit) (32 * c)" using clear_trans [OF z, of "32 * c"] ct(5) by simp
    ultimately show ?thesis using ct by auto
  next
    case False
    then have "skip_words m mb cb cbit = Some (cb, cbit)"
      using 1(2) by (subst skip_words.simps) (auto simp: rdw_def word_gt_0)
    then show ?thesis using False by (auto simp: clear_def)
  qed
qed

lemma first_one_spec:
  assumes "t \<le> 32"
  shows "t \<le> first_one w t \<and> first_one w t \<le> 32 \<and> (\<forall>j. t \<le> j \<and> j < first_one w t \<longrightarrow> \<not> bit w j) \<and>
    (first_one w t < 32 \<longrightarrow> bit w (first_one w t))"
  using assms
proof (induction w t rule: first_one.induct)
  case (1 w t)
  show ?case
  proof (cases "t < 32 \<and> \<not> bit w t")
    case True
    then have "first_one w t = first_one w (t + 1)" by (subst first_one.simps) simp
    moreover have "t + 1 \<le> first_one w (t + 1) \<and> first_one w (t + 1) \<le> 32 \<and>
        (\<forall>j. t + 1 \<le> j \<and> j < first_one w (t + 1) \<longrightarrow> \<not> bit w j) \<and>
        (first_one w (t + 1) < 32 \<longrightarrow> bit w (first_one w (t + 1)))"
      using 1(1) True by simp
    moreover have "\<not> bit w j" if "t \<le> j" "j < first_one w (t + 1)" for j
      using that True calculation(2) by (cases "j = t") auto
    ultimately show ?thesis by auto
  next
    case False
    then have "first_one w t = t" by (subst first_one.simps) simp
    with False 1(2) show ?thesis by auto
  qed
qed

lemma ones_from_spec:
  "ones_from w t n \<le> n \<and> (\<forall>j. t \<le> j \<and> j < t + ones_from w t n \<longrightarrow> bit w j) \<and>
    (ones_from w t n < n \<longrightarrow> \<not> bit w (t + ones_from w t n))"
proof (induction n arbitrary: t)
  case (Suc n)
  show ?case
  proof (cases "bit w t")
    case True
    have "bit w j" if "t \<le> j" "j < t + Suc (ones_from w (Suc t) n)" for j
      using Suc [of "Suc t"] True that by (cases "j = t") auto
    then show ?thesis using True Suc [of "Suc t"] by auto
  qed auto
qed auto

lemma check_full_spec:
  assumes "mb \<le> length m" "c \<le> mb"
  shows "\<exists>r. check_full m mb lst c = Some r \<and> (case r of
      AllFull \<Rightarrow> run m (32 * c) (32 * (lst + 1 - c)) \<and> (c \<le> lst \<longrightarrow> lst < mb)
    | EndOfMap c' \<Rightarrow> c' = mb \<and> run m (32 * c) (32 * (mb - c)) \<and> mb \<le> lst
    | NotFull c' k \<Rightarrow> c \<le> c' \<and> c' \<le> lst \<and> c' < mb \<and> k < 32 \<and> run m (32 * c) (32 * (c' - c) + k) \<and> \<not> bits m (32 * c' + k))"
  using assms
proof (induction m mb lst c rule: check_full.induct)
  case (1 m mb lst c)
  consider "lst < c" | "c \<le> lst" "c = mb" | "c \<le> lst" "c < mb" "m ! c \<noteq> - 1" | "c \<le> lst" "c < mb" "m ! c = - 1"
    using 1(3) by linarith
  then show ?case
  proof cases
    case 1
    then show ?thesis by (subst check_full.simps) (auto simp: run_def)
  next
    case 2
    then show ?thesis by (subst check_full.simps) (auto simp: run_def)
  next
    case 3
    let ?k = "ones_from (m ! c) 0 32"
    have c: "c < length m" using 3(2) 1(2) by simp
    have "?k \<noteq> 32"
    proof
      assume "?k = 32"
      then have "\<forall>j < 32. bit (m ! c) j" using ones_from_spec [of "m ! c" 0 32] by auto
      then have "m ! c = - 1" by (intro bit_word_eqI) simp
      with 3(3) show False by simp
    qed
    then have k: "?k < 32" using ones_from_spec [of "m ! c" 0 32] by linarith
    then have nb: "\<not> bits m (32 * c + ?k)" using ones_from_spec [of "m ! c" 0 32] c by (simp add: bits_at)
    have "run m (32 * c) ?k" unfolding run_def
    proof (intro allI impI)
      fix j assume j: "32 * c \<le> j \<and> j < 32 * c + ?k"
      then obtain t where t: "j = 32 * c + t" "t < ?k" by (metis le_Suc_ex nat_add_left_cancel_less)
      then show "bits m j" using ones_from_spec [of "m ! c" 0 32] c k by (simp add: bits_at)
    qed
    with 3 c k nb show ?thesis by (subst check_full.simps) (simp add: rdw_def)
  next
    case 4
    have c: "c < length m" using 4(2) 1(2) by simp
    have w: "run m (32 * c) 32" unfolding run_def
    proof (intro allI impI)
      fix j assume "32 * c \<le> j \<and> j < 32 * c + 32"
      then have "j div 32 = c" by auto
      then show "bits m j" using 4(3) c by (simp add: bits_def)
    qed
    have j: "run m (32 * c) (32 + n)" if "run m (32 * (c + 1)) n" for n
      using that w unfolding run_def by (metis add.commute add.left_commute add_mult_distrib2 leI mult.right_neutral)
    from 1(1) [of "m ! c"] 4 c 1(2) obtain r where r: "check_full m mb lst (c + 1) = Some r" and
      R: "case r of
        AllFull \<Rightarrow> run m (32 * (c + 1)) (32 * (lst + 1 - (c + 1))) \<and> (c + 1 \<le> lst \<longrightarrow> lst < mb)
      | EndOfMap c' \<Rightarrow> c' = mb \<and> run m (32 * (c + 1)) (32 * (mb - (c + 1))) \<and> mb \<le> lst
      | NotFull c' k \<Rightarrow> c + 1 \<le> c' \<and> c' \<le> lst \<and> c' < mb \<and> k < 32 \<and>
          run m (32 * (c + 1)) (32 * (c' - (c + 1)) + k) \<and> \<not> bits m (32 * c' + k)"
      by (auto simp: rdw_def)
    have "check_full m mb lst c = Some r" using 4 c r by (subst check_full.simps) (simp add: rdw_def)
    moreover have "case r of
      AllFull \<Rightarrow> run m (32 * c) (32 * (lst + 1 - c)) \<and> (c \<le> lst \<longrightarrow> lst < mb)
    | EndOfMap c' \<Rightarrow> c' = mb \<and> run m (32 * c) (32 * (mb - c)) \<and> mb \<le> lst
    | NotFull c' k \<Rightarrow> c \<le> c' \<and> c' \<le> lst \<and> c' < mb \<and> k < 32 \<and> run m (32 * c) (32 * (c' - c) + k) \<and> \<not> bits m (32 * c' + k)"
    proof (cases r)
      case AllFull
      have "32 + 32 * (lst + 1 - (c + 1)) = 32 * (lst + 1 - c)" using 4(1) by simp
      then show ?thesis using R j [of "32 * (lst + 1 - (c + 1))"] AllFull 4 by (cases "lst = c") auto
    next
      case (EndOfMap c')
      have "32 + 32 * (mb - (c + 1)) = 32 * (mb - c)" using 4(2) by simp
      then show ?thesis using R j [of "32 * (mb - (c + 1))"] EndOfMap by simp
    next
      case (NotFull c' k)
      then have "c + 1 \<le> c'" using R by simp
      then have "32 + (32 * (c' - (c + 1)) + k) = 32 * (c' - c) + k" by simp
      from j [of "32 * (c' - (c + 1)) + k", unfolded this] show ?thesis using R NotFull by simp
    qed
    ultimately show ?thesis by blast
  qed
qed

text \<open>What is known at the label \<open>loop\<close>, with \<open>pos\<close> the number of the bit the
  search has come to: the longest run that starts before it is the recorded one, and it is
  too short.\<close>

definition searched :: "bitmap \<Rightarrow> nat \<Rightarrow> nat \<Rightarrow> nat \<Rightarrow> nat \<times> nat \<Rightarrow> bool" where
  "searched m mb nblks pos au \<longleftrightarrow> snd au < nblks \<and>
     (0 < snd au \<longrightarrow> 1 \<le> fst au \<and> fst au \<le> 32 * mb \<and> run m (fst au - 1) (snd au)) \<and>
     (\<forall>a n. a < pos \<longrightarrow> a < 32 * mb \<longrightarrow> run m a n \<longrightarrow> n \<le> snd au)"

lemma searched_start: "0 < nblks \<Longrightarrow> searched m mb nblks 0 (0, 0)"
  by (simp add: searched_def)

lemma run_0 [simp]: "run m a 0"
  by (auto simp: run_def)

lemma run_1: "run m a n \<Longrightarrow> 0 < n \<Longrightarrow> bits m a"
  by (auto simp: run_def)

lemma searched_clear:
  assumes "searched m mb nblks pos au" "clear m pos pos'"
  shows "searched m mb nblks pos' au"
proof -
  have "n \<le> snd au" if "a < pos'" "a < 32 * mb" "run m a n" for a n
  proof (cases "a < pos")
    case True
    then show ?thesis using assms(1) that by (simp add: searched_def)
  next
    case False
    then have "\<not> bits m a" using assms(2) that(1) by (simp add: clear_def)
    then have "n = 0" using run_1 [OF that(3)] by blast
    then show ?thesis by simp
  qed
  then show ?thesis using assms(1) unfolding searched_def by blast
qed

lemma searched_run:
  assumes S: "searched m mb nblks s au" and R: "run m s len" "\<not> bits m (s + len)"
    and len: "len < nblks" "s < 32 * mb"
  shows "searched m mb nblks (s + len) (longest len (s + 1) au)"
proof -
  have "n \<le> max len (snd au)" if "a < s + len" "a < 32 * mb" "run m a n" for a n
  proof (cases "a < s")
    case True
    then have "n \<le> snd au" using S that(2,3) unfolding searched_def by blast
    then show ?thesis by simp
  next
    case False
    have "a + n \<le> s + len"
    proof (rule ccontr)
      assume "\<not> a + n \<le> s + len"
      then have "bits m (s + len)" using that(1,3) by (simp add: run_def)
      with R(2) show False by simp
    qed
    then show ?thesis using False by simp
  qed
  then show ?thesis using S R(1) len unfolding searched_def longest_def by (auto simp: max_def)
qed

lemma run_cat: "run m a n \<Longrightarrow> run m (a + n) k \<Longrightarrow> run m a (n + k)"
  unfolding run_def by (metis add.assoc not_le)

definition found :: "bitmap \<Rightarrow> nat \<Rightarrow> nat \<Rightarrow> nat \<Rightarrow> nat \<Rightarrow> bool" where
  "found m mb nblks r b \<longleftrightarrow>
     (r = nblks \<and> 1 \<le> b \<and> b \<le> 32 * mb \<and> run m (b - 1) nblks) \<or>
     (r < nblks \<and> (0 < r \<longrightarrow> 1 \<le> b \<and> b \<le> 32 * mb \<and> run m (b - 1) r) \<and>
       (\<forall>a n. a < 32 * mb \<longrightarrow> run m a n \<longrightarrow> n \<le> r))"

definition at_loop :: "nat \<Rightarrow> nat \<Rightarrow> nat \<Rightarrow> bool" where
  "at_loop mb cb cbit \<longleftrightarrow> cb \<le> mb \<and> (cbit < 32 \<or> cb = mb)"

text \<open>One pass: it returns a correct answer, or comes back to \<open>loop\<close> further on.\<close>

lemma findfree_pass_spec:
  assumes n: "0 < nblks" and mb: "mb < length m" "\<not> bits m (32 * mb)"
    and A: "at_loop mb cb cbit" and S: "searched m mb nblks (32 * cb + cbit) au"
  shows "(\<exists>r b. findfree_pass m mb nblks cb cbit au = Some (Inl (r, b)) \<and> found m mb nblks r b) \<or>
    (\<exists>cb' cbit' au'. findfree_pass m mb nblks cb cbit au = Some (Inr (cb', cbit', au')) \<and> at_loop mb cb' cbit' \<and>
       32 * cb + cbit < 32 * cb' + cbit' \<and> cb < mb \<and> searched m mb nblks (32 * cb' + cbit') au')"
proof -
  have mb': "mb \<le> length m" using mb by simp
  obtain c t where sk: "skip_words m mb cb cbit = Some (c, t)" and c: "cb \<le> c" "c = cb \<and> t = cbit \<or> cb < c \<and> t = 0"
    "c \<le> mb" "clear m (32 * cb + cbit) (32 * c)" "c < mb \<longrightarrow> m ! c \<noteq> 0"
    using skip_words_spec [OF mb', of cb cbit] A by (auto simp: at_loop_def)
  have Sc: "searched m mb nblks (32 * c) au" using searched_clear [OF S c(4)] .
  show ?thesis
  proof (cases "c < mb")
    case False
    then have "c = mb" using c(3) by simp
    have "findfree_pass m mb nblks cb cbit au = Some (Inl (snd au, fst au))"
      using sk False by (simp add: findfree_pass_def)
    moreover have "found m mb nblks (snd au) (fst au)"
      using Sc \<open>c = mb\<close> unfolding searched_def found_def by auto
    ultimately show ?thesis by blast
  next
    case True
    have cl: "c < length m" using True mb by simp
    have t: "t < 32" using c(2) A True by (auto simp: at_loop_def)
    have S1: "searched m mb nblks (32 * c + t) au" using c(2) S Sc by auto
    have le: "32 * cb + cbit \<le> 32 * c + t" using c(2) A True by (auto simp: at_loop_def)
    define f where "f = first_one (m ! c) t"
    have f: "t \<le> f" "f \<le> 32" "\<And>j. t \<le> j \<Longrightarrow> j < f \<Longrightarrow> \<not> bit (m ! c) j" "f < 32 \<Longrightarrow> bit (m ! c) f"
      using first_one_spec [of t "m ! c"] t by (auto simp: f_def)
    have "clear m (32 * c + t) (32 * c + f)"
      unfolding clear_def
    proof (intro allI impI)
      fix k assume k: "32 * c + t \<le> k \<and> k < 32 * c + f"
      then obtain j where j: "k = 32 * c + j" "t \<le> j" "j < f"
        by (metis le_Suc_ex nat_add_left_cancel_le nat_add_left_cancel_less add.assoc le_add1)
      then show "\<not> bits m k" using f cl by (simp add: bits_at)
    qed
    from searched_clear [OF S1 this] have S2: "searched m mb nblks (32 * c + f) au" .
    show ?thesis
    proof (cases "f < 32")
      case False
      then have f32: "f = 32" using f(2) by simp
      have "findfree_pass m mb nblks cb cbit au = Some (Inr (c + 1, 0, au))"
        using sk True cl False by (simp add: findfree_pass_def rdw_def f_def)
      moreover have "32 * cb + cbit < 32 * (c + 1) + 0" using le t by simp
      moreover have "searched m mb nblks (32 * (c + 1) + 0) au" using S2 f32 by (simp add: algebra_simps)
      moreover have "at_loop mb (c + 1) 0" using True by (simp add: at_loop_def)
      moreover have "cb < mb" using c(1) True by simp
      ultimately show ?thesis by blast
    next
      case f32: True
      define nl where "nl = min (32 - f) nblks"
      define nfull nlast where "nfull = (nblks - nl) div 32" and "nlast = (nblks - nl) mod 32"
      have nn: "nblks = nl + 32 * nfull + nlast" "nlast < 32" "0 < nl" "f + nl \<le> 32"
        "nl < nblks \<Longrightarrow> f + nl = 32"
        using n f32 by (auto simp: nl_def nfull_def nlast_def)
      define i where "i = ones_from (m ! c) f nl"
      have i: "i \<le> nl" "\<And>j. f \<le> j \<Longrightarrow> j < f + i \<Longrightarrow> bit (m ! c) j" "i < nl \<Longrightarrow> \<not> bit (m ! c) (f + i)"
        using ones_from_spec [of "m ! c" f nl] by (auto simp: i_def)
      let ?s = "32 * c + f"
      have ri: "run m ?s i" unfolding run_def
      proof (intro allI impI)
        fix k assume k: "32 * c + f \<le> k \<and> k < 32 * c + f + i"
        then obtain j where j: "k = 32 * c + j" "f \<le> j" "j < f + i"
          by (metis le_Suc_ex nat_add_left_cancel_le nat_add_left_cancel_less add.assoc le_add1)
        then show "bits m k" using i nn(4) cl by (simp add: bits_at)
      qed
      have i0: "0 < i"
      proof (rule ccontr)
        assume "\<not> 0 < i"
        then have "i = 0" by simp
        with i(3) nn(3) f(4) [OF f32] show False by simp
      qed
      have smb: "?s < 32 * mb" using True f32 by linarith
      have cbmb: "cb < mb" using c(1) True by simp
      have lt: "32 * cb + cbit < ?s + i" using le f(1) i0 by simp
      have pass: "findfree_pass m mb nblks cb cbit au =
        (if i < nl then Some (Inr (c, f + i, longest i (c * 32 + f + 1) au))
         else do {
           r \<leftarrow> check_full m mb (c + nfull) (c + 1);
           case r of
             EndOfMap curblk \<Rightarrow>
               Some (Inr (curblk, f + i, longest (nl + (curblk - (c + 1)) * 32) (c * 32 + f + 1) au))
           | NotFull curblk k \<Rightarrow>
               Some (Inr (curblk, k, longest (k + nl + (curblk - (c + 1)) * 32) (c * 32 + f + 1) au))
           | AllFull \<Rightarrow> do {
               k \<leftarrow> (if nlast = 0 then Some 0 else do { w \<leftarrow> rdw m (c + nfull + 1); Some (ones_from w 0 nlast) });
               if k < nlast
               then Some (Inr (c + nfull + 1, k, longest (nl + nfull * 32 + k) (c * 32 + f + 1) au))
               else Some (Inl (nblks, c * 32 + f + 1))
             }
         })"
        unfolding findfree_pass_def Let_def nl_def nfull_def nlast_def i_def f_def
        using sk True cl f32 by (simp add: rdw_def f_def)
      have comm: "c * 32 + f + 1 = ?s + 1" by simp
      note S3 = searched_run [OF S2 _ _ _ smb]
      show ?thesis
      proof (cases "i < nl")
        case inl: True
        have "\<not> bits m (?s + i)" using i(3) [OF inl] inl nn(4) cl bits_at [of c m "f + i"] by (simp add: add.assoc)
        from S3 [OF ri this] inl nn(1) have "searched m mb nblks (?s + i) (longest i (?s + 1) au)" by simp
        then have "searched m mb nblks (32 * c + (f + i)) (longest i (c * 32 + f + 1) au)"
          by (simp add: algebra_simps)
        moreover have "at_loop mb c (f + i)" using True inl nn(4) by (simp add: at_loop_def)
        ultimately show ?thesis using pass inl lt cbmb by (auto simp: add.assoc)
      next
        case False
        then have inl: "i = nl" using i(1) by simp
        obtain r where r: "check_full m mb (c + nfull) (c + 1) = Some r" and
          R: "case r of
            AllFull \<Rightarrow> run m (32 * (c + 1)) (32 * (c + nfull + 1 - (c + 1))) \<and> (c + 1 \<le> c + nfull \<longrightarrow> c + nfull < mb)
          | EndOfMap c' \<Rightarrow> c' = mb \<and> run m (32 * (c + 1)) (32 * (mb - (c + 1))) \<and> mb \<le> c + nfull
          | NotFull c' k \<Rightarrow> c + 1 \<le> c' \<and> c' \<le> c + nfull \<and> c' < mb \<and> k < 32 \<and>
              run m (32 * (c + 1)) (32 * (c' - (c + 1)) + k) \<and> \<not> bits m (32 * c' + k)"
          using check_full_spec [OF mb', of "c + 1" "c + nfull"] True by auto
        have cat: "run m ?s (nl + k)" if "run m (32 * (c + 1)) k" "nl < nblks" for k
        proof -
          have "?s + nl = 32 * (c + 1)" using nn(5) [OF that(2)] by simp
          then have "run m (?s + nl) k" using that(1) by metis
          then show ?thesis using run_cat [of m ?s nl k] ri inl by blast
        qed
        show ?thesis
        proof (cases r)
          case (EndOfMap c')
          with R have E: "c' = mb" "run m (32 * (c + 1)) (32 * (mb - (c + 1)))" "mb \<le> c + nfull" by simp_all
          have nf: "1 \<le> nfull" using E(3) True by simp
          then have nlt: "nl < nblks" using nn(1) by simp
          let ?len = "nl + 32 * (mb - (c + 1))"
          have len: "?len < nblks" using nn(1) E(3) nf True by linarith
          have e: "?s + ?len = 32 * mb" using nn(5) [OF nlt] True by simp
          from S3 [OF cat [OF E(2) nlt] _ len] mb(2) e have
            "searched m mb nblks (32 * mb) (longest ?len (?s + 1) au)" by (metis add.assoc)
          moreover have "searched m mb nblks (32 * mb + (f + i)) (longest ?len (?s + 1) au)"
            using calculation(1) unfolding searched_def by auto
          moreover have "longest ?len (?s + 1) au = longest (nl + (c' - (c + 1)) * 32) (c * 32 + f + 1) au"
            by (simp add: E(1) mult.commute)
          moreover have "at_loop mb c' (f + i)" using E(1) by (simp add: at_loop_def)
          moreover have "32 * cb + cbit < 32 * mb + (f + i)" using lt smb i0 by linarith
          ultimately show ?thesis using pass False r EndOfMap E(1) cbmb by auto
        next
          case (NotFull c' k)
          with R have E: "c + 1 \<le> c'" "c' \<le> c + nfull" "c' < mb" "k < 32"
            "run m (32 * (c + 1)) (32 * (c' - (c + 1)) + k)" "\<not> bits m (32 * c' + k)" by simp_all
          have nlt: "nl < nblks" using nn(1) E(1,2) by simp
          let ?len = "nl + (32 * (c' - (c + 1)) + k)"
          have len: "?len < nblks" using nn(1) E(1,2,4) by linarith
          have e: "?s + ?len = 32 * c' + k" using nn(5) [OF nlt] E(1) by simp
          from S3 [OF cat [OF E(5) nlt] _ len] E(6) e have
            "searched m mb nblks (32 * c' + k) (longest ?len (?s + 1) au)" by metis
          moreover have "longest ?len (?s + 1) au = longest (k + nl + (c' - (c + 1)) * 32) (c * 32 + f + 1) au"
            by (simp add: algebra_simps)
          moreover have "at_loop mb c' k" using E by (simp add: at_loop_def)
          moreover have "32 * cb + cbit < 32 * c' + k" using le t E(1) by linarith
          ultimately show ?thesis using pass False r NotFull cbmb by auto
        next
          case AllFull
          with R have E: "run m (32 * (c + 1)) (32 * nfull)" "0 < nfull \<longrightarrow> c + nfull < mb" by simp_all
          have idx: "c + nfull + 1 \<le> mb" using E(2) True by (cases "nfull = 0") auto
          then have rd: "rdw m (c + nfull + 1) = Some (m ! (c + nfull + 1))" using mb by (simp add: rdw_def)
          define k where "k = (if nlast = 0 then 0 else ones_from (m ! (c + nfull + 1)) 0 nlast)"
          have k_eq: "k = ones_from (m ! (c + nfull + 1)) 0 nlast" by (cases nlast) (simp_all add: k_def)
          have kk: "(if nlast = 0 then Some 0 else do { w \<leftarrow> rdw m (c + nfull + 1); Some (ones_from w 0 nlast) }) = Some k"
            using rd by (simp add: k_def)
          have pass': "findfree_pass m mb nblks cb cbit au =
              (if k < nlast then Some (Inr (c + nfull + 1, k, longest (nl + nfull * 32 + k) (c * 32 + f + 1) au))
               else Some (Inl (nblks, c * 32 + f + 1)))"
            using pass False by (simp only: r AllFull Option.bind.simps full_result.case kk if_False)
          have k: "k \<le> nlast" "\<And>j. j < k \<Longrightarrow> bit (m ! (c + nfull + 1)) j"
            "k < nlast \<Longrightarrow> \<not> bit (m ! (c + nfull + 1)) k"
            using ones_from_spec [of "m ! (c + nfull + 1)" 0 nlast] unfolding k_eq by auto
          have rk: "run m (32 * (c + nfull + 1)) k" unfolding run_def
          proof (intro allI impI)
            fix j assume "32 * (c + nfull + 1) \<le> j \<and> j < 32 * (c + nfull + 1) + k"
            then obtain u where u: "j = 32 * (c + nfull + 1) + u" "u < k"
              by (metis le_Suc_ex nat_add_left_cancel_less)
            then show "bits m j" using k nn(2) idx mb bits_at [of "c + nfull + 1" m u] by simp
          qed
          have all: "run m ?s (nl + 32 * nfull + k)"
          proof (cases "nl < nblks")
            case True
            have "32 * (c + 1) + 32 * nfull = 32 * (c + nfull + 1)" by simp
            then have "run m (32 * (c + 1)) (32 * nfull + k)" using run_cat [OF E(1)] rk by metis
            from cat [OF this True] show ?thesis by (simp add: add.assoc)
          next
            case False
            then have "nfull = 0" "nlast = 0" using nn(1) by simp_all
            then show ?thesis using ri inl k(1) by simp
          qed
          show ?thesis
          proof (cases "k < nlast")
            case kl: True
            then have nlt: "nl < nblks" using nn(1) by simp
            have nb: "\<not> bits m (32 * (c + nfull + 1) + k)"
              using k(3) [OF kl] kl nn(2) idx mb bits_at [of "c + nfull + 1" m k] by simp
            have e: "?s + (nl + 32 * nfull + k) = 32 * (c + nfull + 1) + k" using nn(5) [OF nlt] by simp
            have len: "nl + 32 * nfull + k < nblks" using nn(1) kl by simp
            from S3 [OF all _ len] nb e have
              "searched m mb nblks (32 * (c + nfull + 1) + k) (longest (nl + 32 * nfull + k) (?s + 1) au)" by metis
            moreover have "longest (nl + 32 * nfull + k) (?s + 1) au = longest (nl + nfull * 32 + k) (c * 32 + f + 1) au"
              by (simp add: algebra_simps)
            moreover have "at_loop mb (c + nfull + 1) k" using idx kl nn(2) by (simp add: at_loop_def)
            moreover have "32 * cb + cbit < 32 * (c + nfull + 1) + k"
            proof -
              have "32 * c + t < 32 * (c + nfull + 1) + k" using t by (simp add: algebra_simps)
              with le show ?thesis by (rule le_less_trans)
            qed
            ultimately show ?thesis using pass' cbmb kl by auto
          next
            case kl: False
            then have "k = nlast" using k(1) by simp
            then have "run m (c * 32 + f + 1 - 1) nblks" using all nn(1) by (simp add: algebra_simps)
            then have "found m mb nblks nblks (c * 32 + f + 1)" using smb by (simp add: found_def algebra_simps)
            then show ?thesis using pass' kl by auto
          qed
        qed
      qed
    qed
  qed
qed

lemma findfree_loop_spec:
  assumes n: "0 < nblks" and mb: "mb < length m" "\<not> bits m (32 * mb)"
    and A: "at_loop mb cb cbit" and S: "searched m mb nblks (32 * cb + cbit) au"
  shows "\<exists>r b. findfree_loop m mb nblks cb cbit au = Some (r, b) \<and> found m mb nblks r b"
  using A S
proof (induction "32 * mb + 64 - (32 * cb + cbit)" arbitrary: cb cbit au rule: less_induct)
  case less
  from findfree_pass_spec [OF n mb less.prems] show ?case
  proof (elim disjE exE conjE)
    fix r b assume "findfree_pass m mb nblks cb cbit au = Some (Inl (r, b))" "found m mb nblks r b"
    then show ?thesis by (subst findfree_loop.simps) simp
  next
    fix cb' cbit' au'
    assume P: "findfree_pass m mb nblks cb cbit au = Some (Inr (cb', cbit', au'))" "at_loop mb cb' cbit'"
      "32 * cb + cbit < 32 * cb' + cbit'" "cb < mb" "searched m mb nblks (32 * cb' + cbit') au'"
    have "cbit < 32" using less.prems(1) P(4) by (auto simp: at_loop_def)
    then have "32 * mb + 64 - (32 * cb' + cbit') < 32 * mb + 64 - (32 * cb + cbit)" using P(3,4) by linarith
    from less.hyps [OF this P(2,5)] P(1) show ?thesis by (subst findfree_loop.simps) simp
  qed
qed

lemma gbit_findfree_spec:
  assumes "0 < nblks" "(mapsize + 31) div 32 < length m" "\<not> bits m (32 * ((mapsize + 31) div 32))"
  shows "\<exists>r b. gbit_findfree m nblks mapsize = Some (r, b) \<and> found m ((mapsize + 31) div 32) nblks r b"
  unfolding gbit_findfree_def
  by (rule findfree_loop_spec [OF assms]) (simp_all add: at_loop_def searched_start assms(1))

end
