(* ===== verification/Gutils_Gmem.thy ===== *)
theory Gutils_Gmem
  imports Gutils_Gbit
begin

text \<open>
  Model of \<open>windiff/gutils/gmem.c\<close>: a heap that hands out small pieces of large
  segments, each segment with a bitmap of its free blocks (\<open>gbit.c\<close>).

  \<^item> A segment is known by the address of its header; \<open>segs\<close> holds the headers.
    With 4-byte pointers a header takes 292 bytes, that is 19 blocks of 16 bytes: the map of 64
    words and then 3 words of padding, which belong to the segment and which the code reads
    (\<open>gbit_findfree\<close> may look at the word after the map).
  \<^item> \<open>regions\<close> and \<open>handles\<close> are the operating system's memory objects;
    GlobalAlloc is the parameter \<open>ga\<close>, which sees how many calls were made, the size
    asked for and the objects in use.  The user's answer to the out-of-memory box is the
    parameter \<open>answer\<close>; answering abort ends the process (\<open>None\<close>).
  \<^item> \<open>hcell\<close> holds the segment handle stored in the 4 bytes before each piece,
    \<open>mem\<close> the bytes that \<open>memset\<close> clears.
  \<^item> The timing variant of \<open>gmem_get\<close> (\<open>#ifdef TIMING\<close>) is not modelled.
\<close>

subsection \<open>State\<close>

record seghdr =
  hseg :: nat
  pnext :: ptr
  nblocks :: int
  segmap :: bitmap

record gheap =
  regions :: "ptr \<rightharpoonup> nat \<times> nat"
  handles :: "nat \<rightharpoonup> ptr"
  segs :: "ptr \<rightharpoonup> seghdr"
  hcell :: "ptr \<rightharpoonup> nat"
  mem :: "ptr \<Rightarrow> nat"
  gcalls :: nat
  npanics :: nat
  critd :: int

type_synonym gm_alloc = "nat \<Rightarrow> nat \<Rightarrow> (ptr \<rightharpoonup> nat \<times> nat) \<Rightarrow> galloc_result"

definition BLKSIZE :: nat where "BLKSIZE = 16"
definition ALLOCSIZE :: nat where "ALLOCSIZE = 32768"
definition NBLKS :: nat where "NBLKS = ALLOCSIZE div BLKSIZE"
definition MAPLONGS :: nat where "MAPLONGS = NBLKS div 8 div 4"
definition TO_BLKS :: "nat \<Rightarrow> nat" where "TO_BLKS x = (x + BLKSIZE - 1) div BLKSIZE"
definition sizeof_HANDLE :: nat where "sizeof_HANDLE = 4"
definition sizeof_SEGHDR :: nat where "sizeof_SEGHDR = 292"
definition MAXGALLOC :: nat where "MAXGALLOC = 20000"

text \<open>The words of the segment from the map to the end of the header's last block.\<close>

definition map_words :: nat where
  "map_words = MAPLONGS + (TO_BLKS sizeof_SEGHDR * BLKSIZE - sizeof_SEGHDR) div 4"

definition IDABORT :: nat where "IDABORT = 3"
definition IDRETRY :: nat where "IDRETRY = 4"
definition IDIGNORE :: nat where "IDIGNORE = 5"

definition gheap_start :: gheap where
  "gheap_start = \<lparr>regions = Map.empty, handles = Map.empty, segs = Map.empty, hcell = Map.empty,
     mem = (\<lambda>_. 0), gcalls = 0, npanics = 0, critd = 0\<rparr>"

subsection \<open>Operations\<close>

definition gmem_panic :: "(nat \<Rightarrow> nat) \<Rightarrow> gheap \<Rightarrow> (nat \<times> gheap) option" where
  "gmem_panic answer s = (let code = answer (npanics s); s = s\<lparr>npanics := Suc (npanics s)\<rparr>
     in if code = IDABORT then None else Some (code, s))"

text \<open>The loop around GlobalAlloc, followed by GlobalLock: \<open>None\<close> inside is the
  return of NULL.\<close>

partial_function (option) alloc_retry ::
  "gm_alloc \<Rightarrow> (nat \<Rightarrow> nat) \<Rightarrow> nat \<Rightarrow> gheap \<Rightarrow> ((nat \<times> ptr) option \<times> gheap) option" where
  "alloc_retry ga answer cb s =
     (let s1 = s\<lparr>gcalls := Suc (gcalls s)\<rparr>
      in case ga (gcalls s) cb (regions s) of
           GAllocFailed \<Rightarrow> do {
             (code, s2) \<leftarrow> gmem_panic answer s1;
             if code = IDIGNORE then Some (None, s2) else alloc_retry ga answer cb s2
           }
         | GLockFailed \<Rightarrow> Some (None, s1)
         | GMem h p \<Rightarrow>
             Some (Some (h, p), s1\<lparr>regions := (regions s1)(p \<mapsto> (h, cb)), handles := (handles s1)(h \<mapsto> p),
               mem := (\<lambda>a. if p \<le> a \<and> a < p + cb then 0 else mem s1 a)\<rparr>))"

text \<open>The header of a new segment \<open>hp\<close>: the map is initialised over zeroed memory and
  the header's own blocks are taken out.\<close>

definition new_seg :: "nat \<Rightarrow> ptr \<Rightarrow> seghdr option" where
  "new_seg h next = do {
     m \<leftarrow> gbit_init (replicate map_words 0) NBLKS;
     m \<leftarrow> gbit_alloc m 1 (TO_BLKS sizeof_SEGHDR);
     Some \<lparr>hseg = h, pnext = next, nblocks = int NBLKS - int (TO_BLKS sizeof_SEGHDR), segmap = m\<rparr>
   }"

definition gmem_init :: "gm_alloc \<Rightarrow> (nat \<Rightarrow> nat) \<Rightarrow> gheap \<Rightarrow> (nat option \<times> gheap) option" where
  "gmem_init ga answer s = do {
     (r, s) \<leftarrow> alloc_retry ga answer ALLOCSIZE s;
     case r of
       None \<Rightarrow> Some (None, s)
     | Some (hNew, hp) \<Rightarrow> do {
         sg \<leftarrow> new_seg hNew NULL;
         Some (Some hNew, s\<lparr>segs := (segs s)(hp \<mapsto> sg)\<rparr>)
       }
   }"

text \<open>Take \<open>nblks\<close> blocks at block number \<open>start\<close> of segment \<open>hp\<close>: the
  common tail of the two places that suballocate.\<close>

definition take_blocks :: "ptr \<Rightarrow> nat \<Rightarrow> nat \<Rightarrow> gheap \<Rightarrow> (ptr \<times> gheap) option" where
  "take_blocks hp start nblks s = do {
     g \<leftarrow> segs s hp;
     m \<leftarrow> gbit_alloc (segmap g) start nblks;
     let g = g\<lparr>segmap := m, nblocks := nblocks g - int nblks\<rparr>;
     let chp = hp + (start - 1) * BLKSIZE;
     Some (chp + sizeof_HANDLE, s\<lparr>segs := (segs s)(hp \<mapsto> g), hcell := (hcell s)(chp \<mapsto> hseg g)\<rparr>)
   }"

text \<open>The search along the chain: \<open>Some NULL\<close> when no segment has room.\<close>

partial_function (option) search_chain :: "nat \<Rightarrow> ptr \<Rightarrow> gheap \<Rightarrow> (ptr \<times> gheap) option" where
  "search_chain nblks hp s =
     (if hp = NULL then Some (NULL, s)
      else do {
        g \<leftarrow> segs s hp;
        (nfound, start) \<leftarrow> (if nblocks g \<ge> int nblks then gbit_findfree (segmap g) nblks NBLKS else Some (0, 0));
        if nblocks g \<ge> int nblks \<and> nfound \<ge> nblks then take_blocks hp start nblks s
        else search_chain nblks (pnext g) s
      })"

definition memset0 :: "ptr \<Rightarrow> nat \<Rightarrow> gheap \<Rightarrow> gheap" where
  "memset0 chp len s = s\<lparr>mem := (\<lambda>a. if chp \<le> a \<and> a < chp + len then 0 else mem s a)\<rparr>"

definition gmem_get :: "gm_alloc \<Rightarrow> (nat \<Rightarrow> nat) \<Rightarrow> nat \<Rightarrow> int \<Rightarrow> gheap \<Rightarrow> (ptr \<times> gheap) option" where
  "gmem_get ga answer hHeap len s =
     (if len < 1 then Some (NULL, s)
      else do {
        chainp \<leftarrow> handles s hHeap;
        if len > int MAXGALLOC then do {
          (r, s) \<leftarrow> alloc_retry ga answer (nat len) s;
          case r of None \<Rightarrow> Some (NULL, s) | Some (hNew, chp) \<Rightarrow> Some (chp, s)
        } else do {
          let s = s\<lparr>critd := critd s + 1\<rparr>;
          let nblks = TO_BLKS (nat len + sizeof_HANDLE);
          (chp, s) \<leftarrow> search_chain nblks chainp s;
          if chp \<noteq> NULL then Some (chp, memset0 chp (nat len) (s\<lparr>critd := critd s - 1\<rparr>))
          else do {
            (r, s) \<leftarrow> alloc_retry ga answer ALLOCSIZE s;
            case r of
              None \<Rightarrow> Some (NULL, s\<lparr>critd := critd s - 1\<rparr>)
            | Some (hNew, hp) \<Rightarrow> do {
                c \<leftarrow> segs s chainp;
                g \<leftarrow> new_seg hNew (pnext c);
                let s = s\<lparr>segs := (segs s)(chainp \<mapsto> c\<lparr>pnext := hp\<rparr>, hp \<mapsto> g)\<rparr>;
                (nfound, start) \<leftarrow> gbit_findfree (segmap g) nblks NBLKS;
                if nfound \<ge> nblks then do {
                  (chp, s) \<leftarrow> take_blocks hp start nblks s;
                  Some (chp, memset0 chp (nat len) (s\<lparr>critd := critd s - 1\<rparr>))
                } else None
              }
          }
        }
      })"

text \<open>The \<open>None\<close> at the end of \<open>gmem_get\<close> is the \<open>memset\<close> of the NULL
  pointer that is left in \<open>chp\<close> there.\<close>

definition gmem_free :: "nat \<Rightarrow> ptr \<Rightarrow> int \<Rightarrow> gheap \<Rightarrow> gheap option" where
  "gmem_free hHeap p len s =
     (if len < 1 then Some s
      else if p = NULL then Some s
      else if len > int MAXGALLOC then do {
        (hmem, n) \<leftarrow> regions s p;
        Some (s\<lparr>regions := (regions s)(p := None), handles := (handles s)(hmem := None)\<rparr>)
      } else do {
        chainp \<leftarrow> handles s hHeap;
        let chp = p - sizeof_HANDLE;
        hmem \<leftarrow> hcell s chp;
        hp \<leftarrow> handles s hmem;
        let nblks = TO_BLKS (nat len + sizeof_HANDLE);
        let blknr = TO_BLKS (chp - hp) + 1;
        g \<leftarrow> segs s hp;
        m \<leftarrow> gbit_free (segmap g) blknr nblks;
        Some (s\<lparr>segs := (segs s)(hp \<mapsto> g\<lparr>segmap := m, nblocks := nblocks g + int nblks\<rparr>)\<rparr>)
      })"

partial_function (option) freeall_loop :: "ptr \<Rightarrow> gheap \<Rightarrow> gheap option" where
  "freeall_loop chainp s =
     (if chainp = NULL then Some s
      else do {
        g \<leftarrow> segs s chainp;
        freeall_loop (pnext g)
          (s\<lparr>segs := (segs s)(chainp := None), regions := (regions s)(chainp := None),
             handles := (handles s)(hseg g := None)\<rparr>)
      })"

definition gmem_freeall :: "nat \<Rightarrow> gheap \<Rightarrow> gheap option" where
  "gmem_freeall hHeap s = do { chainp \<leftarrow> handles s hHeap; freeall_loop chainp s }"

subsection \<open>The invariant\<close>

text \<open>\<open>A\<close> holds the pieces that are in use (address of the piece, bytes asked for).
  \<open>blocks_at s p n b g i\<close>: the piece lies in segment \<open>b\<close> from block \<open>i\<close>
  (counted from 0) on.\<close>

type_synonym pieces = "ptr \<rightharpoonup> nat"

definition span :: "nat \<Rightarrow> nat" where
  "span n = TO_BLKS (n + sizeof_HANDLE)"

definition blocks_at :: "gheap \<Rightarrow> ptr \<Rightarrow> nat \<Rightarrow> ptr \<Rightarrow> seghdr \<Rightarrow> nat \<Rightarrow> bool" where
  "blocks_at s p n b g i \<longleftrightarrow> segs s b = Some g \<and> p = b + BLKSIZE * i + sizeof_HANDLE \<and>
     TO_BLKS sizeof_SEGHDR \<le> i \<and> i + span n \<le> NBLKS \<and> hcell s (b + BLKSIZE * i) = Some (hseg g) \<and>
     (\<forall>k. i \<le> k \<and> k < i + span n \<longrightarrow> \<not> bits (segmap g) k)"

definition seg_ok :: "seghdr \<Rightarrow> bool" where
  "seg_ok g \<longleftrightarrow> length (segmap g) = map_words \<and>
     (\<forall>k. bits (segmap g) k \<longrightarrow> TO_BLKS sizeof_SEGHDR \<le> k \<and> k < NBLKS) \<and>
     nblocks g = int (card {k. bits (segmap g) k})"

definition gm_regions_ok :: "gheap \<Rightarrow> bool" where
  "gm_regions_ok s \<longleftrightarrow> finite (dom (regions s)) \<and>
     (\<forall>p h n. regions s p = Some (h, n) \<longrightarrow> p \<noteq> NULL \<and> handles s h = Some p) \<and>
     (\<forall>p h n p' h' n'. regions s p = Some (h, n) \<longrightarrow> regions s p' = Some (h', n') \<longrightarrow> p \<noteq> p' \<longrightarrow>
        p + n \<le> p' \<or> p' + n' \<le> p)"

text \<open>An address inside the blocks of a piece, and what it is for every block in use to belong
  to one: no block is taken without a piece that owns it, so that a piece that is not given back
  cannot leave the map.\<close>

definition owned :: "pieces \<Rightarrow> ptr \<Rightarrow> bool" where
  "owned A a \<longleftrightarrow> (\<exists>p n. A p = Some n \<and> p \<le> a \<and> a < p + BLKSIZE * span n)"

definition used_owned :: "gheap \<Rightarrow> pieces \<Rightarrow> bool" where
  "used_owned s A \<longleftrightarrow> (\<forall>b g k. segs s b = Some g \<longrightarrow> TO_BLKS sizeof_SEGHDR \<le> k \<longrightarrow> k < NBLKS \<longrightarrow>
     \<not> bits (segmap g) k \<longrightarrow> owned A (b + BLKSIZE * k + sizeof_HANDLE))"

definition pieces_ok :: "gheap \<Rightarrow> pieces \<Rightarrow> bool" where
  "pieces_ok s A \<longleftrightarrow> used_owned s A \<and>
     (\<forall>p n. A p = Some n \<longrightarrow> 1 \<le> n \<and> n \<le> MAXGALLOC \<and> (\<exists>b g i. blocks_at s p n b g i)) \<and>
     (\<forall>p n p' n'. A p = Some n \<longrightarrow> A p' = Some n' \<longrightarrow> p \<noteq> p' \<longrightarrow>
        p + BLKSIZE * span n \<le> p' \<or> p' + BLKSIZE * span n' \<le> p)"

primrec seg_chain :: "gheap \<Rightarrow> ptr \<Rightarrow> ptr list \<Rightarrow> bool" where
  "seg_chain s p [] \<longleftrightarrow> p = NULL"
| "seg_chain s p (c # cs) \<longleftrightarrow> p = c \<and> c \<noteq> NULL \<and> (\<exists>g. segs s c = Some g \<and> seg_chain s (pnext g) cs)"

definition gm_ok :: "nat \<Rightarrow> gheap \<Rightarrow> pieces \<Rightarrow> bool" where
  "gm_ok hHeap s A \<longleftrightarrow> gm_regions_ok s \<and> pieces_ok s A \<and>
     (\<forall>b g. segs s b = Some g \<longrightarrow> regions s b = Some (hseg g, ALLOCSIZE) \<and> seg_ok g) \<and>
     (\<exists>c cs. handles s hHeap = Some c \<and> map_option hseg (segs s c) = Some hHeap \<and>
        seg_chain s c (c # cs) \<and> distinct (c # cs))"

lemma pieces_okD:
  assumes "pieces_ok s A" "A p = Some n"
  shows "1 \<le> n" "n \<le> MAXGALLOC" "\<exists>b g i. blocks_at s p n b g i"
  using assms unfolding pieces_ok_def by blast+

lemma pieces_okD2:
  assumes "pieces_ok s A" "A p = Some n" "A p' = Some n'" "p \<noteq> p'"
  shows "p + BLKSIZE * span n \<le> p' \<or> p' + BLKSIZE * span n' \<le> p"
  using assms unfolding pieces_ok_def by blast

lemma used_ownedD:
  "used_owned s A \<Longrightarrow> segs s b = Some g \<Longrightarrow> TO_BLKS sizeof_SEGHDR \<le> k \<Longrightarrow> k < NBLKS \<Longrightarrow>
     \<not> bits (segmap g) k \<Longrightarrow> owned A (b + BLKSIZE * k + sizeof_HANDLE)"
  unfolding used_owned_def by blast

lemma owned_new: "A p = None \<Longrightarrow> owned A a \<Longrightarrow> owned (A(p \<mapsto> n)) a"
  unfolding owned_def by (metis fun_upd_other option.distinct(1))

lemma owned_first: "p \<le> a \<Longrightarrow> a < p + BLKSIZE * span n \<Longrightarrow> owned (A(p \<mapsto> n)) a"
  unfolding owned_def by (intro exI [of _ p] exI [of _ n]) simp

lemma owned_del: "owned A a \<Longrightarrow> A p = Some n \<Longrightarrow> \<not> (p \<le> a \<and> a < p + BLKSIZE * span n) \<Longrightarrow> owned (A(p := None)) a"
  unfolding owned_def by (metis fun_upd_other option.inject)

text \<open>What is relied on from the system and the user: memory handed out is not NULL, does
  not overlap memory in use and comes with a new handle; the user never aborts and does not
  ask for a retry for ever.\<close>

definition gm_alloc_ok :: "gm_alloc \<Rightarrow> bool" where
  "gm_alloc_ok ga \<longleftrightarrow> (\<forall>k cb r h p. ga k cb r = GMem h p \<longrightarrow> p \<noteq> NULL \<and>
     (\<forall>q h' n. r q = Some (h', n) \<longrightarrow> h' \<noteq> h \<and> q \<noteq> p \<and> (p + cb \<le> q \<or> q + n \<le> p)))"

definition user_ok :: "(nat \<Rightarrow> nat) \<Rightarrow> bool" where
  "user_ok answer \<longleftrightarrow> (\<forall>k. answer k \<noteq> IDABORT) \<and> (\<forall>k. \<exists>j \<ge> k. answer j = IDIGNORE)"

lemmas gm_consts = BLKSIZE_def ALLOCSIZE_def NBLKS_def MAPLONGS_def TO_BLKS_def sizeof_HANDLE_def
  sizeof_SEGHDR_def MAXGALLOC_def map_words_def

lemma header_blocks: "TO_BLKS sizeof_SEGHDR = 19" and NBLKS_eq: "NBLKS = 2048" and map_words_eq: "map_words = 67"
  by (simp_all add: gm_consts)

lemma span_bounds: "1 \<le> n \<Longrightarrow> 1 \<le> span n" "n \<le> MAXGALLOC \<Longrightarrow> span n \<le> 1251" "n + sizeof_HANDLE \<le> BLKSIZE * span n"
  by (simp_all add: span_def gm_consts)

text \<open>The outcome of the retry loop.\<close>

definition retried :: "gm_alloc \<Rightarrow> nat \<Rightarrow> gheap \<Rightarrow> (nat \<times> ptr) option \<Rightarrow> gheap \<Rightarrow> bool" where
  "retried ga cb s r s' \<longleftrightarrow> (case r of
      None \<Rightarrow> (\<exists>j k. s' = s\<lparr>gcalls := j, npanics := k\<rparr>)
    | Some (h, p) \<Rightarrow> (\<exists>i j k m. ga i cb (regions s) = GMem h p \<and>
        s' = s\<lparr>gcalls := j, npanics := k, regions := (regions s)(p \<mapsto> (h, cb)), handles := (handles s)(h \<mapsto> p), mem := m\<rparr>))"

lemma retried_None: "retried ga cb s None (s\<lparr>gcalls := j, npanics := k\<rparr>)"
  unfolding retried_def option.case by (intro exI) (rule refl)

lemma retried_Some:
  "ga i cb (regions s) = GMem h p \<Longrightarrow> retried ga cb s (Some (h, p)) (s\<lparr>gcalls := j, npanics := k,
     regions := (regions s)(p \<mapsto> (h, cb)), handles := (handles s)(h \<mapsto> p), mem := m\<rparr>)"
  unfolding retried_def option.case prod.case by (intro exI conjI) (assumption, rule refl)

lemma retried_later:
  "retried ga cb (s\<lparr>gcalls := j, npanics := k\<rparr>) r s' \<Longrightarrow> retried ga cb s r s'"
  by (auto simp: retried_def split: option.splits)

lemma alloc_retry_spec:
  assumes U: "user_ok answer"
  shows "\<exists>r s'. alloc_retry ga answer cb s = Some (r, s') \<and> retried ga cb s r s'"
proof -
  obtain j where j: "npanics s \<le> j" "answer j = IDIGNORE" using U by (auto simp: user_ok_def)
  have na: "answer k \<noteq> IDABORT" for k using U by (simp add: user_ok_def)
  from j show ?thesis
  proof (induction "j - npanics s" arbitrary: s rule: less_induct)
    case less
    let ?s1 = "s\<lparr>gcalls := Suc (gcalls s)\<rparr>"
    have n1: "?s1 = s\<lparr>gcalls := Suc (gcalls s), npanics := npanics s\<rparr>" by simp
    show ?case
    proof (cases "ga (gcalls s) cb (regions s)")
      case GAllocFailed
      let ?s2 = "s\<lparr>gcalls := Suc (gcalls s), npanics := Suc (npanics s)\<rparr>"
      have panic: "gmem_panic answer ?s1 = Some (answer (npanics s), ?s2)"
        using na by (simp add: gmem_panic_def Let_def)
      show ?thesis
      proof (cases "answer (npanics s) = IDIGNORE")
        case True
        then have "alloc_retry ga answer cb s = Some (None, ?s2)"
          using GAllocFailed panic by (subst alloc_retry.simps) (simp add: Let_def)
        with retried_None show ?thesis by blast
      next
        case False
        then have "npanics s < j" using less.prems by (metis le_neq_implies_less)
        then have "j - npanics ?s2 < j - npanics s" "npanics ?s2 \<le> j" by simp_all
        from less.hyps [OF this less.prems(2)] obtain r s' where
          IH: "alloc_retry ga answer cb ?s2 = Some (r, s')" "retried ga cb ?s2 r s'" by blast
        have "alloc_retry ga answer cb s = Some (r, s')"
          using GAllocFailed panic False IH(1) by (subst alloc_retry.simps) (simp add: Let_def)
        with retried_later [OF IH(2)] show ?thesis by blast
      qed
    next
      case GLockFailed
      then have "alloc_retry ga answer cb s = Some (None, ?s1)" by (subst alloc_retry.simps) (simp add: Let_def)
      moreover have "retried ga cb s None ?s1" by (subst n1) (rule retried_None)
      ultimately show ?thesis by blast
    next
      case (GMem h p)
      let ?m = "\<lambda>a. if p \<le> a \<and> a < p + cb then 0 else mem s a"
      let ?s' = "s\<lparr>gcalls := Suc (gcalls s), npanics := npanics s,
          regions := (regions s)(p \<mapsto> (h, cb)), handles := (handles s)(h \<mapsto> p), mem := ?m\<rparr>"
      have "alloc_retry ga answer cb s = Some (Some (h, p), ?s')"
        using GMem by (subst alloc_retry.simps) (simp add: Let_def cong: if_cong)
      with retried_Some [of ga "gcalls s", OF GMem] show ?thesis by blast
    qed
  qed
qed

lemma new_seg_spec:
  "\<exists>g. new_seg h nx = Some g \<and> hseg g = h \<and> pnext g = nx \<and> seg_ok g \<and>
     (\<forall>k. bits (segmap g) k \<longleftrightarrow> 19 \<le> k \<and> k < 2048)"
proof -
  let ?m0 = "replicate map_words 0 :: bitmap"
  have len0: "length ?m0 = 67" by (simp add: map_words_eq)
  obtain m1 where m1: "gbit_init ?m0 2048 = Some m1" "length m1 = 67"
    "\<And>k. k div 32 < 64 \<Longrightarrow> bits m1 k = (k < 2048)" "\<And>k. 64 \<le> k div 32 \<Longrightarrow> bits m1 k = bits ?m0 k"
  proof -
    have "NBLKS \<le> 32 * length ?m0" and e: "(NBLKS + 31) div 32 = 64" by (simp_all add: map_words_eq NBLKS_eq)
    from gbit_init_spec [OF this(1), unfolded e, unfolded NBLKS_eq len0] that show thesis by (auto simp: not_less)
  qed
  have z: "\<not> bits ?m0 k" for k by (auto simp: bits_def)
  have b1: "bits m1 k \<longleftrightarrow> k < 2048" for k
  proof (cases "k div 32 < 64")
    case False
    then show ?thesis using m1(4) [of k] z [of k] by auto
  qed (use m1(3) in auto)
  obtain m2 where m2: "gbit_alloc m1 1 19 = Some m2" "length m2 = 67"
    "\<And>k. bits m2 k \<longleftrightarrow> (if 1 \<le> k + 1 \<and> k + 1 < 1 + 19 then False else bits m1 k)"
  proof -
    have "(1::nat) \<le> 1" "1 - 1 + 19 \<le> 32 * length m1" "(0::nat) < 19" by (simp_all add: m1(2))
    from gbit_set_spec [OF this, of False] that show thesis unfolding gbit_alloc_def m1(2) by blast
  qed
  have b2: "bits m2 k \<longleftrightarrow> 19 \<le> k \<and> k < 2048" for k unfolding m2(3) b1 by simp
  have "{k. bits m2 k} = {19..<2048}"
    by (rule set_eqI) (simp only: mem_Collect_eq b2 atLeastLessThan_iff)
  then have "card {k. bits m2 k} = 2048 - 19" by (simp only: card_atLeastLessThan)
  then have "card {k. bits m2 k} = 2029" by simp
  moreover have "new_seg h nx = Some \<lparr>hseg = h, pnext = nx, nblocks = 2029, segmap = m2\<rparr>"
    by (simp add: new_seg_def header_blocks NBLKS_eq m1(1) m2(1) [unfolded One_nat_def])
  moreover have "\<forall>k. bits m2 k \<longrightarrow> 19 \<le> k \<and> k < 2048" using b2 by blast
  ultimately have "seg_ok \<lparr>hseg = h, pnext = nx, nblocks = 2029, segmap = m2\<rparr>"
    using m2(2) by (simp add: seg_ok_def header_blocks NBLKS_eq map_words_eq)
  with \<open>new_seg h nx = _\<close> b2 show ?thesis by simp
qed

text \<open>What \<open>gbit_findfree\<close> returns on a segment.\<close>

lemma findfree_seg:
  assumes g: "seg_ok g" and n: "1 \<le> nb"
  shows "\<exists>r st. gbit_findfree (segmap g) nb NBLKS = Some (r, st) \<and> r \<le> nb \<and>
    (nb \<le> r \<longrightarrow> (\<exists>i. st = i + 1 \<and> 19 \<le> i \<and> i + nb \<le> 2048 \<and> run (segmap g) i nb)) \<and>
    ((\<exists>a. run (segmap g) a nb) \<longrightarrow> nb \<le> r)"
proof -
  have B: "bits (segmap g) k \<Longrightarrow> 19 \<le> k \<and> k < 2048" for k
    using g by (simp add: seg_ok_def header_blocks NBLKS_eq)
  have len: "length (segmap g) = 67" using g by (simp add: seg_ok_def map_words_eq)
  have "\<not> bits (segmap g) 2048" using B by fastforce
  then obtain r st where r: "gbit_findfree (segmap g) nb NBLKS = Some (r, st)" and F: "found (segmap g) 64 nb r st"
    using gbit_findfree_spec [of nb NBLKS "segmap g"] n len by (auto simp: NBLKS_eq)
  have le: "r \<le> nb" using F by (auto simp: found_def)
  have "\<exists>i. st = i + 1 \<and> 19 \<le> i \<and> i + nb \<le> 2048 \<and> run (segmap g) i nb" if "nb \<le> r"
  proof -
    from F that have f: "1 \<le> st" "run (segmap g) (st - 1) nb" by (auto simp: found_def)
    have "19 \<le> st - 1" using B [of "st - 1"] f(2) n by (simp add: run_def)
    moreover have "bits (segmap g) (st - 1 + (nb - 1))" using f(2) n unfolding run_def by (metis add_less_cancel_left diff_less le_add1 less_numeral_extra(1) less_le_trans)
    then have "st - 1 + nb \<le> 2048" using B n by fastforce
    ultimately show ?thesis using f by (intro exI [of _ "st - 1"]) simp
  qed
  moreover have "nb \<le> r" if "run (segmap g) a nb" for a
  proof -
    have "a < 2048" using B [of a] run_1 [OF that] n by simp
    then show ?thesis using F that by (auto simp: found_def)
  qed
  ultimately show ?thesis using r le by blast
qed

subsection \<open>Taking blocks\<close>

lemma card_minus_run:
  assumes "finite S" "{i..<i + n} \<subseteq> S"
  shows "int (card (S - {i..<i + n})) = int (card S) - int n"
proof -
  have "card {i..<i + n} = n" by simp
  moreover have "n \<le> card S" using card_mono [OF assms] by simp
  ultimately show ?thesis using card_Diff_subset [of "{i..<i + n}" S] assms by simp
qed

lemma seg_bits_finite: "seg_ok g \<Longrightarrow> finite {k. bits (segmap g) k}"
  by (rule finite_subset [of _ "{..<NBLKS}"]) (auto simp: seg_ok_def)

lemma seg_take:
  assumes g: "seg_ok g" and R: "run (segmap g) i nb" and n: "1 \<le> nb" "i + nb \<le> 2048"
  shows "\<exists>m'. gbit_alloc (segmap g) (i + 1) nb = Some m' \<and>
    (\<forall>k. bits m' k \<longleftrightarrow> bits (segmap g) k \<and> \<not> (i \<le> k \<and> k < i + nb)) \<and>
    seg_ok (g\<lparr>segmap := m', nblocks := nblocks g - int nb\<rparr>)"
proof -
  have len: "length (segmap g) = 67" using g by (simp add: seg_ok_def map_words_eq)
  have "(1::nat) \<le> i + 1" "i + 1 - 1 + nb \<le> 32 * length (segmap g)" "0 < nb" using n len by simp_all
  from gbit_set_spec [OF this, of False] obtain m' where m': "gbit_alloc (segmap g) (i + 1) nb = Some m'"
    "length m' = length (segmap g)"
    "\<And>k. bits m' k \<longleftrightarrow> (if i + 1 \<le> k + 1 \<and> k + 1 < i + 1 + nb then False else bits (segmap g) k)"
    unfolding gbit_alloc_def by blast
  have b: "bits m' k \<longleftrightarrow> bits (segmap g) k \<and> \<not> (i \<le> k \<and> k < i + nb)" for k
    unfolding m'(3) by auto
  have S: "{k. bits m' k} = {k. bits (segmap g) k} - {i..<i + nb}"
    by (rule set_eqI) (simp add: b)
  have "{i..<i + nb} \<subseteq> {k. bits (segmap g) k}" using R by (auto simp: run_def)
  from card_minus_run [OF seg_bits_finite [OF g] this]
  have "int (card ({k. bits (segmap g) k} - {i..<i + nb})) = int (card {k. bits (segmap g) k}) - int nb" .
  then have "int (card {k. bits m' k}) = int (card {k. bits (segmap g) k}) - int nb" unfolding S .
  moreover have "\<forall>k. bits m' k \<longrightarrow> bits (segmap g) k" using b by blast
  ultimately have "seg_ok (g\<lparr>segmap := m', nblocks := nblocks g - int nb\<rparr>)"
    using g m'(2) by (simp add: seg_ok_def)
  with m'(1) b show ?thesis by blast
qed

lemma span_disjoint:
  assumes "i + m \<le> j \<or> j + n \<le> (i::nat)"
  shows "b + 16 * i + 4 + 16 * m \<le> b + 16 * j + 4 \<or> b + 16 * j + 4 + 16 * n \<le> b + 16 * i + (4::nat)"
  using assms by presburger

lemma gm_consts_eq: "BLKSIZE = 16" "sizeof_HANDLE = 4" "ALLOCSIZE = 32768"
  by (simp_all add: gm_consts)

text \<open>Where pieces of two segments lie.\<close>

lemma other_segment:
  assumes R: "gm_regions_ok s" and b: "regions s b = Some (h, ALLOCSIZE)" "regions s b' = Some (h', ALLOCSIZE)" "b \<noteq> b'"
    and i: "i + m \<le> 2048" "j + n \<le> 2048"
  shows "b + 16 * i + 4 + 16 * m \<le> b' + 16 * j + 4 \<or> b' + 16 * j + 4 + 16 * n \<le> b + 16 * i + (4::nat)"
proof -
  have "b + 32768 \<le> b' \<or> b' + 32768 \<le> b"
    using R b unfolding gm_regions_ok_def gm_consts_eq by blast
  then show ?thesis using i by linarith
qed

text \<open>Suballocation from one segment of a sound heap.\<close>

lemma take_blocks_spec:
  assumes G: "gm_regions_ok s" "pieces_ok s A" "\<And>b g. segs s b = Some g \<Longrightarrow> regions s b = Some (hseg g, ALLOCSIZE) \<and> seg_ok g"
    and g: "segs s hp = Some g" and len: "1 \<le> n" "n \<le> MAXGALLOC"
    and run: "run (segmap g) i (span n)" "19 \<le> i" "i + span n \<le> 2048"
  shows "\<exists>p s' g'. take_blocks hp (i + 1) (span n) s = Some (p, s') \<and> p \<noteq> NULL \<and> A p = None \<and>
    s' = s\<lparr>segs := (segs s)(hp \<mapsto> g'), hcell := (hcell s)(hp + 16 * i \<mapsto> hseg g)\<rparr> \<and>
    hseg g' = hseg g \<and> pnext g' = pnext g \<and> seg_ok g' \<and> pieces_ok s' (A(p \<mapsto> n))"
proof -
  let ?nb = "span n"
  have nb: "1 \<le> ?nb" using span_bounds(1) len by simp
  have sg: "seg_ok g" "regions s hp = Some (hseg g, ALLOCSIZE)" using G(3) [OF g] by auto
  obtain m' where m': "gbit_alloc (segmap g) (i + 1) ?nb = Some m'"
    "\<And>k. bits m' k \<longleftrightarrow> bits (segmap g) k \<and> \<not> (i \<le> k \<and> k < i + ?nb)"
    "seg_ok (g\<lparr>segmap := m', nblocks := nblocks g - int ?nb\<rparr>)"
    using seg_take [OF sg(1) run(1) nb run(3)] by blast
  define g' where "g' = g\<lparr>segmap := m', nblocks := nblocks g - int ?nb\<rparr>"
  define p where "p = hp + 16 * i + 4"
  define s' where "s' = s\<lparr>segs := (segs s)(hp \<mapsto> g'), hcell := (hcell s)(hp + 16 * i \<mapsto> hseg g)\<rparr>"
  have take: "take_blocks hp (i + 1) ?nb s = Some (p, s')"
    using g m'(1) by (simp add: take_blocks_def p_def s'_def g'_def gm_consts_eq algebra_simps)
  have apart: "p + 16 * ?nb \<le> q \<or> q + 16 * span k \<le> p" if q: "A q = Some k" for q k
  proof -
    from pieces_okD(3) [OF G(2) q] obtain b gb j where at: "blocks_at s q k b gb j" by blast
    then have Q: "segs s b = Some gb" "q = b + 16 * j + 4" "j + span k \<le> 2048"
      "\<And>x. j \<le> x \<Longrightarrow> x < j + span k \<Longrightarrow> \<not> bits (segmap gb) x"
      by (auto simp: blocks_at_def gm_consts_eq NBLKS_eq)
    have kk: "1 \<le> span k" by (rule span_bounds(1) [OF pieces_okD(1) [OF G(2) q]])
    show ?thesis
    proof (cases "b = hp")
      case True
      then have gb: "gb = g" using Q(1) g by simp
      have "i + ?nb \<le> j \<or> j + span k \<le> i"
      proof (rule ccontr)
        assume "\<not> ?thesis"
        then have "max i j < i + ?nb" "max i j < j + span k" "i \<le> max i j" "j \<le> max i j" using nb kk by auto
        then show False using run(1) Q(4) [of "max i j"] gb by (auto simp: run_def)
      qed
      from span_disjoint [OF this, of hp] show ?thesis using Q(2) True by (simp add: p_def)
    next
      case False
      from other_segment [OF G(1) sg(2) conjunct1 [OF G(3) [OF Q(1)]] _ run(3) Q(3)] False show ?thesis
        unfolding p_def Q(2) by auto
    qed
  qed
  have pA: "A p = None"
  proof (rule ccontr)
    assume "A p \<noteq> None"
    then obtain k where "A p = Some k" by auto
    moreover have "1 \<le> span k" by (rule span_bounds(1) [OF pieces_okD(1) [OF G(2) \<open>A p = Some k\<close>]])
    ultimately show False using apart [of p k] nb by auto
  qed
  have "used_owned s' (A(p \<mapsto> n))"
    unfolding used_owned_def
  proof (intro allI impI)
    fix d gd k assume d: "segs s' d = Some gd" "TO_BLKS sizeof_SEGHDR \<le> k" "k < NBLKS" "\<not> bits (segmap gd) k"
    have old: "used_owned s A" using G(2) by (simp add: pieces_ok_def)
    show "owned (A(p \<mapsto> n)) (d + BLKSIZE * k + sizeof_HANDLE)"
    proof (cases "d = hp \<and> i \<le> k \<and> k < i + ?nb")
      case True
      then show ?thesis by (intro owned_first) (auto simp: p_def gm_consts_eq)
    next
      case False
      then have "\<exists>ge. segs s d = Some ge \<and> \<not> bits (segmap ge) k"
        using d(1,4) g m'(2) by (auto simp: s'_def g'_def split: if_splits)
      then show ?thesis using owned_new [of A p, OF pA] used_ownedD [OF old _ d(2,3)] by blast
    qed
  qed
  moreover have "pieces_ok s' (A(p \<mapsto> n))" if "used_owned s' (A(p \<mapsto> n))"
    unfolding pieces_ok_def
  proof (intro conjI allI impI)
    show "used_owned s' (A(p \<mapsto> n))" by (rule that)
  next
    fix q k assume q: "(A(p \<mapsto> n)) q = Some k"
    show "1 \<le> k" "k \<le> MAXGALLOC" using q len pieces_okD(1,2) [OF G(2), of q k] by (simp_all split: if_splits)
    show "\<exists>b g i. blocks_at s' q k b g i"
    proof (cases "q = p")
      case True
      then have "k = n" using q by simp
      then have "blocks_at s' q k hp g' i"
        unfolding blocks_at_def using True run m'(2) by (simp add: s'_def g'_def p_def gm_consts_eq header_blocks NBLKS_eq)
      then show ?thesis by blast
    next
      case False
      then have Aq: "A q = Some k" using q by simp
      from pieces_okD(3) [OF G(2) this] obtain b gb j where at: "blocks_at s q k b gb j" by blast
      then have Q: "segs s b = Some gb" "q = b + 16 * j + 4" by (auto simp: blocks_at_def gm_consts_eq)
      have ne: "b + 16 * j \<noteq> hp + 16 * i" using False Q(2) by (auto simp: p_def)
      have "blocks_at s' q k b (if b = hp then g' else gb) j"
        using at ne g m'(2) unfolding blocks_at_def by (auto simp: s'_def g'_def gm_consts_eq)
      then show ?thesis by blast
    qed
  next
    fix q k q' k' assume q: "(A(p \<mapsto> n)) q = Some k" "(A(p \<mapsto> n)) q' = Some k'" "q \<noteq> q'"
    show "q + BLKSIZE * span k \<le> q' \<or> q' + BLKSIZE * span k' \<le> q"
    proof -
      consider "q = p" | "q \<noteq> p" "q' = p" | "q \<noteq> p" "q' \<noteq> p" by blast
      then show ?thesis
      proof cases
        case 1
        then have "A q' = Some k'" "k = n" using q by simp_all
        then show ?thesis using apart [of q' k'] 1 by (simp add: gm_consts_eq)
      next
        case 2
        then have "A q = Some k" "k' = n" using q by simp_all
        then show ?thesis using apart [of q k] 2 by (simp add: gm_consts_eq disj_commute)
      next
        case 3
        then show ?thesis using pieces_okD2 [OF G(2) _ _ q(3)] q(1,2) by simp
      qed
    qed
  qed
  moreover have "p \<noteq> NULL" "hseg g' = hseg g" "pnext g' = pnext g" by (simp_all add: p_def g'_def)
  ultimately show ?thesis using take pA m'(3) [folded g'_def] s'_def by blast
qed

subsection \<open>Getting a piece\<close>

lemma pieces_mono:
  assumes "pieces_ok s A"
    and "\<And>b g. segs s b = Some g \<Longrightarrow> \<exists>g'. segs s' b = Some g' \<and> hseg g' = hseg g \<and>
      (\<forall>k. bits (segmap g') k \<longrightarrow> bits (segmap g) k)"
    and "hcell s' = hcell s"
    and "\<And>b g' k. segs s' b = Some g' \<Longrightarrow> 19 \<le> k \<Longrightarrow> k < 2048 \<Longrightarrow> \<not> bits (segmap g') k \<Longrightarrow>
      \<exists>g. segs s b = Some g \<and> \<not> bits (segmap g) k"
  shows "pieces_ok s' A"
proof -
  have "\<exists>b g i. blocks_at s' p n b g i" if p: "A p = Some n" for p n
  proof -
    obtain b g i where at: "blocks_at s p n b g i" using pieces_okD(3) [OF assms(1) p] by blast
    then obtain g' where "segs s' b = Some g'" "hseg g' = hseg g" "\<forall>k. bits (segmap g') k \<longrightarrow> bits (segmap g) k"
      using assms(2) unfolding blocks_at_def by blast
    then have "blocks_at s' p n b g' i" using at assms(3) unfolding blocks_at_def by auto
    then show ?thesis by blast
  qed
  moreover have "used_owned s' A"
    unfolding used_owned_def header_blocks NBLKS_eq
  proof (intro allI impI)
    fix b g' k assume "segs s' b = Some g'" and k: "19 \<le> k" "k < 2048" and "\<not> bits (segmap g') k"
    then obtain g where "segs s b = Some g" "\<not> bits (segmap g) k" using assms(4) by blast
    with used_ownedD [of s A b g k] assms(1) k show "owned A (b + BLKSIZE * k + sizeof_HANDLE)"
      by (simp add: pieces_ok_def header_blocks NBLKS_eq)
  qed
  ultimately show ?thesis using assms(1) unfolding pieces_ok_def by blast
qed

lemma seg_chain_cong:
  assumes "seg_chain s p cs" "\<And>c g. c \<in> set cs \<Longrightarrow> segs s c = Some g \<Longrightarrow> \<exists>g'. segs s' c = Some g' \<and> pnext g' = pnext g"
  shows "seg_chain s' p cs"
  using assms
proof (induction cs arbitrary: p)
  case (Cons c cs)
  then obtain g where g: "p = c" "c \<noteq> NULL" "segs s c = Some g" "seg_chain s (pnext g) cs" by auto
  obtain g' where "segs s' c = Some g'" "pnext g' = pnext g" using Cons.prems(2) [OF _ g(3)] by auto
  moreover have "seg_chain s' (pnext g) cs" by (rule Cons.IH [OF g(4)]) (use Cons.prems(2) in auto)
  ultimately show ?case using g by auto
qed simp

text \<open>The part of the invariant that concerns the segments.\<close>

definition segs_ok :: "gheap \<Rightarrow> bool" where
  "segs_ok s \<longleftrightarrow> (\<forall>b g. segs s b = Some g \<longrightarrow> regions s b = Some (hseg g, ALLOCSIZE) \<and> seg_ok g)"

text \<open>A suballocation: the piece is new and everything else is as it was.\<close>

definition suballoc :: "gheap \<Rightarrow> pieces \<Rightarrow> nat \<Rightarrow> ptr \<Rightarrow> gheap \<Rightarrow> bool" where
  "suballoc s A n p s' \<longleftrightarrow> p \<noteq> NULL \<and> A p = None \<and> pieces_ok s' (A(p \<mapsto> n)) \<and> segs_ok s' \<and>
     regions s' = regions s \<and> handles s' = handles s \<and> critd s' = critd s \<and>
     (\<forall>b. map_option hseg (segs s' b) = map_option hseg (segs s b)) \<and>
     (\<forall>c cs. seg_chain s c cs \<longrightarrow> seg_chain s' c cs)"

lemma take_suballoc:
  assumes G: "gm_regions_ok s" "pieces_ok s A" "segs_ok s"
    and g: "segs s hp = Some g" and len: "1 \<le> n" "n \<le> MAXGALLOC"
    and run: "run (segmap g) i (span n)" "19 \<le> i" "i + span n \<le> 2048"
  shows "\<exists>p s'. take_blocks hp (i + 1) (span n) s = Some (p, s') \<and> suballoc s A n p s'"
proof -
  have G3: "\<And>b g. segs s b = Some g \<Longrightarrow> regions s b = Some (hseg g, ALLOCSIZE) \<and> seg_ok g"
    using G(3) by (simp add: segs_ok_def)
  obtain p s' g' where t: "take_blocks hp (i + 1) (span n) s = Some (p, s')" "p \<noteq> NULL" "A p = None"
    "s' = s\<lparr>segs := (segs s)(hp \<mapsto> g'), hcell := (hcell s)(hp + 16 * i \<mapsto> hseg g)\<rparr>"
    "hseg g' = hseg g" "pnext g' = pnext g" "seg_ok g'" "pieces_ok s' (A(p \<mapsto> n))"
    using take_blocks_spec [OF G(1,2) G3 g len run] by blast
  have "segs_ok s'" using G3 g t(5,7) by (simp add: segs_ok_def t(4))
  moreover have "seg_chain s' c cs" if "seg_chain s c cs" for c cs
    by (rule seg_chain_cong [OF that]) (use g t(6) in \<open>auto simp: t(4)\<close>)
  moreover have "map_option hseg (segs s' b) = map_option hseg (segs s b)" for b using g t(5) by (simp add: t(4))
  ultimately have "suballoc s A n p s'" using t by (simp add: suballoc_def)
  with t(1) show ?thesis by blast
qed

lemma search_chain_spec:
  assumes G: "gm_regions_ok s" "pieces_ok s A" "segs_ok s" and C: "seg_chain s c cs"
    and len: "1 \<le> n" "n \<le> MAXGALLOC"
  shows "search_chain (span n) c s = Some (NULL, s) \<or>
    (\<exists>p s'. search_chain (span n) c s = Some (p, s') \<and> suballoc s A n p s')"
  using C
proof (induction cs arbitrary: c)
  case Nil
  then show ?case by (subst search_chain.simps) simp
next
  case (Cons c' cs)
  then obtain g where g: "c = c'" "c \<noteq> NULL" "segs s c = Some g" "seg_chain s (pnext g) cs" by auto
  have sg: "seg_ok g" using G(3) g(3) by (simp add: segs_ok_def)
  have nb: "1 \<le> span n" using span_bounds(1) [OF len(1)] .
  obtain r st where r: "gbit_findfree (segmap g) (span n) NBLKS = Some (r, st)"
    "span n \<le> r \<Longrightarrow> \<exists>i. st = i + 1 \<and> 19 \<le> i \<and> i + span n \<le> 2048 \<and> run (segmap g) i (span n)"
    using findfree_seg [OF sg nb] by blast
  show ?case
  proof (cases "nblocks g \<ge> int (span n) \<and> span n \<le> r")
    case True
    then obtain i where i: "st = i + 1" "19 \<le> i" "i + span n \<le> 2048" "run (segmap g) i (span n)" using r(2) by blast
    obtain p s' where t: "take_blocks c (i + 1) (span n) s = Some (p, s')" "suballoc s A n p s'"
      using take_suballoc [OF G g(3) len i(4,2,3)] by blast
    have "search_chain (span n) c s = Some (p, s')"
      using True g r(1) t(1) i(1) by (subst search_chain.simps) simp
    with t(2) show ?thesis by blast
  next
    case False
    then have "search_chain (span n) c s = search_chain (span n) (pnext g) s"
      using g r(1) by (subst search_chain.simps) auto
    with Cons.IH [OF g(4)] show ?thesis by simp
  qed
qed

lemma gm_ok_parts:
  "gm_ok h s A \<longleftrightarrow> gm_regions_ok s \<and> pieces_ok s A \<and> segs_ok s \<and>
     (\<exists>c cs. handles s h = Some c \<and> map_option hseg (segs s c) = Some h \<and>
        seg_chain s c (c # cs) \<and> distinct (c # cs))"
  by (simp add: gm_ok_def segs_ok_def)

text \<open>Only these components matter to the invariant.\<close>

lemma gm_ok_cong:
  assumes "regions s' = regions s" "handles s' = handles s" "segs s' = segs s" "hcell s' = hcell s"
  shows "gm_regions_ok s' = gm_regions_ok s" "pieces_ok s' A = pieces_ok s A" "segs_ok s' = segs_ok s"
    "seg_chain s' c cs = seg_chain s c cs" "gm_ok h s' A = gm_ok h s A"
proof -
  show R: "gm_regions_ok s' = gm_regions_ok s" and S: "segs_ok s' = segs_ok s"
    using assms by (simp_all add: gm_regions_ok_def segs_ok_def)
  show P: "pieces_ok s' A = pieces_ok s A" using assms by (simp add: pieces_ok_def used_owned_def blocks_at_def)
  show C: "seg_chain s' c cs = seg_chain s c cs" for c cs
    by (induction cs arbitrary: c) (simp_all add: assms)
  show "gm_ok h s' A = gm_ok h s A" unfolding gm_ok_parts R S P C assms(2,3) ..
qed

lemma gm_regions_add:
  assumes "gm_regions_ok s" "gm_alloc_ok ga" "ga i cb (regions s) = GMem h p"
    and "regions s' = (regions s)(p \<mapsto> (h, cb))" "handles s' = (handles s)(h \<mapsto> p)"
  shows "gm_regions_ok s'" "p \<noteq> NULL" "regions s p = None"
    "\<And>q h' n. regions s q = Some (h', n) \<Longrightarrow> h' \<noteq> h \<and> q \<noteq> p"
proof -
  have F: "p \<noteq> NULL" "\<And>q h' n. regions s q = Some (h', n) \<Longrightarrow> h' \<noteq> h \<and> q \<noteq> p \<and> (p + cb \<le> q \<or> q + n \<le> p)"
    using assms(2,3) unfolding gm_alloc_ok_def by blast+
  show "p \<noteq> NULL" "\<And>q h' n. regions s q = Some (h', n) \<Longrightarrow> h' \<noteq> h \<and> q \<noteq> p" using F by blast+
  show "regions s p = None" using F(2) [of p] by (cases "regions s p") auto
  show "gm_regions_ok s'"
    unfolding gm_regions_ok_def assms(4,5)
  proof (intro conjI allI impI)
    fix q h' n assume q: "((regions s)(p \<mapsto> (h, cb))) q = Some (h', n)"
    show "q \<noteq> NULL" using q F(1) assms(1) by (cases "q = p") (auto simp: gm_regions_ok_def)
    show "((handles s)(h \<mapsto> p)) h' = Some q"
      using q F(2) [of q h' n] assms(1) by (cases "q = p") (auto simp: gm_regions_ok_def)
  next
    fix q h' n q' h'' n'
    assume q: "((regions s)(p \<mapsto> (h, cb))) q = Some (h', n)" "((regions s)(p \<mapsto> (h, cb))) q' = Some (h'', n')" "q \<noteq> q'"
    consider "q = p" | "q \<noteq> p" "q' = p" | "q \<noteq> p" "q' \<noteq> p" by blast
    then show "q + n \<le> q' \<or> q' + n' \<le> q"
    proof cases
      case 1
      then have "regions s q' = Some (h'', n')" "n = cb" using q by simp_all
      from F(2) [OF this(1)] show ?thesis using 1 \<open>n = cb\<close> by simp
    next
      case 2
      then have "regions s q = Some (h', n)" "n' = cb" using q by simp_all
      from F(2) [OF this(1)] show ?thesis using 2 \<open>n' = cb\<close> by auto
    next
      case 3
      then have "regions s q = Some (h', n)" "regions s q' = Some (h'', n')" using q(1,2) by simp_all
      with assms(1) q(3) show ?thesis unfolding gm_regions_ok_def by blast
    qed
  qed (use assms(1) in \<open>simp add: gm_regions_ok_def\<close>)
qed

text \<open>A new segment hung in the chain behind the first one.\<close>

lemma add_segment:
  assumes G: "gm_ok hh s A" and ga: "gm_alloc_ok ga" "ga i ALLOCSIZE (regions s) = GMem h p"
    and c: "handles s hh = Some c" "segs s c = Some gc" and g: "hseg g = h" "pnext g = pnext gc" "seg_ok g"
      "\<And>k. bits (segmap g) k \<longleftrightarrow> 19 \<le> k \<and> k < 2048"
    and s': "regions s' = (regions s)(p \<mapsto> (h, ALLOCSIZE))" "handles s' = (handles s)(h \<mapsto> p)"
      "segs s' = (segs s)(c \<mapsto> gc\<lparr>pnext := p\<rparr>, p \<mapsto> g)" "hcell s' = hcell s"
  shows "gm_ok hh s' A" "segs s p = None" "p \<noteq> c"
proof -
  have P: "gm_regions_ok s" "pieces_ok s A" "segs_ok s" using G by (simp_all add: gm_ok_parts)
  obtain cs where cs: "seg_chain s c (c # cs)" "distinct (c # cs)" using G c(1) by (auto simp: gm_ok_parts)
  note A = gm_regions_add [OF P(1) ga s'(1,2)]
  show sp: "segs s p = None"
  proof (cases "segs s p")
    case (Some g')
    then have "regions s p \<noteq> None" using P(3) by (auto simp: segs_ok_def)
    with A(3) show ?thesis by simp
  qed
  show pc: "p \<noteq> c" using sp c(2) by auto
  have rc: "regions s c = Some (hseg gc, ALLOCSIZE)" "seg_ok gc" using P(3) c(2) by (auto simp: segs_ok_def)
  have "hseg gc = hh" using G c by (auto simp: gm_ok_parts)
  then have hh: "hh \<noteq> h" using A(4) [OF rc(1)] by simp
  have cp: "c \<noteq> NULL" "seg_chain s (pnext gc) cs" using cs(1) c(2) by auto
  have in_segs: "segs s d \<noteq> None" if "seg_chain s d' ds" "d \<in> set ds" for d d' ds
    using that by (induction ds arbitrary: d') auto
  have pcs: "p \<notin> set cs" using in_segs [OF cp(2), of p] sp by blast
  have "seg_chain s' (pnext gc) cs"
    by (rule seg_chain_cong [OF cp(2)]) (use cs(2) pcs in \<open>auto simp: s'(3)\<close>)
  then have chain: "seg_chain s' c (c # p # cs)"
    using cp(1) A(2) pc g(2) by (simp add: s'(3))
  have "segs_ok s'"
    unfolding segs_ok_def s'(1,3)
  proof (intro allI impI)
    fix b gb assume b: "((segs s)(c \<mapsto> gc\<lparr>pnext := p\<rparr>, p \<mapsto> g)) b = Some gb"
    consider "b = p" | "b \<noteq> p" "b = c" | "b \<noteq> p" "b \<noteq> c" by blast
    then show "((regions s)(p \<mapsto> (h, ALLOCSIZE))) b = Some (hseg gb, ALLOCSIZE) \<and> seg_ok gb"
    proof cases
      case 1
      with b g(1,3) show ?thesis by simp
    next
      case 2
      with b rc show ?thesis by (auto simp: seg_ok_def)
    next
      case 3
      with b P(3) show ?thesis by (simp add: segs_ok_def)
    qed
  qed
  moreover have "pieces_ok s' A"
  proof (rule pieces_mono [OF P(2) _ s'(4)])
    fix d gd k assume "segs s' d = Some gd" "19 \<le> k" "k < 2048" "\<not> bits (segmap gd) k"
    then show "\<exists>g. segs s d = Some g \<and> \<not> bits (segmap g) k"
      using c(2) g(4) [of k] by (auto simp: s'(3) split: if_splits)
  next
    fix d gd assume "segs s d = Some gd"
    then show "\<exists>g'. segs s' d = Some g' \<and> hseg g' = hseg gd \<and> (\<forall>k. bits (segmap g') k \<longrightarrow> bits (segmap gd) k)"
      using c(2) sp by (cases "d = c") (auto simp: s'(3))
  qed
  moreover have "handles s' hh = Some c" "map_option hseg (segs s' c) = Some hh"
    using c(1) hh pc \<open>hseg gc = hh\<close> by (simp_all add: s'(2,3))
  moreover have "distinct (c # p # cs)" using cs(2) pc pcs by auto
  ultimately show "gm_ok hh s' A" using A(1) chain unfolding gm_ok_parts by blast
qed

lemma suballoc_gm_ok:
  assumes "gm_ok h s A" "suballoc s A n p s'"
  shows "gm_ok h s' (A(p \<mapsto> n))"
proof -
  have R: "gm_regions_ok s'" using assms by (simp add: gm_ok_parts suballoc_def gm_regions_ok_def)
  obtain c cs where c: "handles s h = Some c" "map_option hseg (segs s c) = Some h" "seg_chain s c (c # cs)" "distinct (c # cs)"
    using assms(1) by (auto simp: gm_ok_parts)
  have S: "handles s' h = Some c" "map_option hseg (segs s' c) = Some h" "pieces_ok s' (A(p \<mapsto> n))" "segs_ok s'"
    using assms(2) c(1,2) by (simp_all add: suballoc_def)
  moreover have "seg_chain s' c (c # cs)" using assms(2) c(3) unfolding suballoc_def by blast
  ultimately show ?thesis using R c(4) unfolding gm_ok_parts by blast
qed

text \<open>What \<open>gmem_get\<close> promises for a small request: NULL and an unchanged heap, or a
  new zeroed piece that overlaps no piece in use.\<close>

definition got :: "nat \<Rightarrow> gheap \<Rightarrow> pieces \<Rightarrow> nat \<Rightarrow> ptr \<Rightarrow> gheap \<Rightarrow> bool" where
  "got h s A n p s' \<longleftrightarrow> critd s' = critd s \<and>
     (p = NULL \<and> gm_ok h s' A \<or>
      p \<noteq> NULL \<and> A p = None \<and> gm_ok h s' (A(p \<mapsto> n)) \<and> (\<forall>a. p \<le> a \<and> a < p + n \<longrightarrow> mem s' a = 0))"

lemma got_piece:
  assumes "gm_ok h s' (A(p \<mapsto> n))" "p \<noteq> NULL" "A p = None" "critd s' - 1 = critd s"
  shows "got h s A n p (memset0 p n (s'\<lparr>critd := critd s' - 1\<rparr>))"
  using assms gm_ok_cong(5) [of "memset0 p n (s'\<lparr>critd := critd s' - 1\<rparr>)" s']
  by (simp add: got_def memset0_def)

lemma gmem_get_spec:
  assumes G: "gm_ok h s A" and ga: "gm_alloc_ok ga" and U: "user_ok answer" and n: "1 \<le> n" "n \<le> MAXGALLOC"
  shows "\<exists>p s'. gmem_get ga answer h (int n) s = Some (p, s') \<and> got h s A n p s' \<and>
    (p = NULL \<longrightarrow> (\<exists>x y. finite (dom (regions x)) \<and> alloc_retry ga answer ALLOCSIZE x = Some (None, y)))"
proof -
  obtain c cs where c: "handles s h = Some c" "map_option hseg (segs s c) = Some h" "seg_chain s c (c # cs)" "distinct (c # cs)"
    using G by (auto simp: gm_ok_parts)
  obtain gc where gc: "segs s c = Some gc" using c(2) by auto
  define s1 where "s1 = s\<lparr>critd := critd s + 1\<rparr>"
  have G1: "gm_ok h s1 A" using G gm_ok_cong(5) [of s1 s] by (simp add: s1_def)
  then have P1: "gm_regions_ok s1" "pieces_ok s1 A" "segs_ok s1" by (simp_all add: gm_ok_parts)
  have C1: "seg_chain s1 c (c # cs)" using c(3) gm_ok_cong(4) [of s1 s] by (simp add: s1_def)
  have small: "\<not> int n < 1" "\<not> int n > int MAXGALLOC" using n by simp_all
  have start: "gmem_get ga answer h (int n) s = do {
      (chp, s) \<leftarrow> search_chain (span n) c s1;
      if chp \<noteq> NULL then Some (chp, memset0 chp n (s\<lparr>critd := critd s - 1\<rparr>))
      else do {
        (r, s) \<leftarrow> alloc_retry ga answer ALLOCSIZE s;
        case r of
          None \<Rightarrow> Some (NULL, s\<lparr>critd := critd s - 1\<rparr>)
        | Some (hNew, hp) \<Rightarrow> do {
            c1 \<leftarrow> segs s c;
            g \<leftarrow> new_seg hNew (pnext c1);
            let s = s\<lparr>segs := (segs s)(c \<mapsto> c1\<lparr>pnext := hp\<rparr>, hp \<mapsto> g)\<rparr>;
            (nfound, start) \<leftarrow> gbit_findfree (segmap g) (span n) NBLKS;
            if nfound \<ge> span n then do {
              (chp, s) \<leftarrow> take_blocks hp start (span n) s;
              Some (chp, memset0 chp n (s\<lparr>critd := critd s - 1\<rparr>))
            } else None
          } } }"
    using small c(1) unfolding gmem_get_def s1_def span_def Let_def nat_int by simp
  from search_chain_spec [OF P1 C1 n] show ?thesis
  proof (elim disjE exE conjE)
    fix p s' assume R: "search_chain (span n) c s1 = Some (p, s')" "suballoc s1 A n p s'"
    have p: "p \<noteq> NULL" "A p = None" "critd s' - 1 = critd s" using R(2) by (simp_all add: suballoc_def s1_def)
    have "got h s A n p (memset0 p n (s'\<lparr>critd := critd s' - 1\<rparr>))"
      by (rule got_piece [OF suballoc_gm_ok [OF G1 R(2)] p])
    moreover have "gmem_get ga answer h (int n) s = Some (p, memset0 p n (s'\<lparr>critd := critd s' - 1\<rparr>))"
      using start R(1) p(1,3) by simp
    ultimately show ?thesis using p(1) by blast
  next
    assume R: "search_chain (span n) c s1 = Some (NULL, s1)"
    obtain r s2 where r: "alloc_retry ga answer ALLOCSIZE s1 = Some (r, s2)" "retried ga ALLOCSIZE s1 r s2"
      using alloc_retry_spec [OF U] by blast
    show ?thesis
    proof (cases r)
      case None
      then obtain j k where s2: "s2 = s1\<lparr>gcalls := j, npanics := k\<rparr>" using r(2) by (auto simp: retried_def)
      let ?s' = "s2\<lparr>critd := critd s2 - 1\<rparr>"
      have "gm_ok h ?s' A" using G1 gm_ok_cong(5) [of ?s' s1] by (simp add: s2)
      then have "got h s A n NULL ?s'" by (simp add: got_def s2 s1_def)
      moreover have "finite (dom (regions s1))" using P1(1) by (simp add: gm_regions_ok_def)
      moreover have "gmem_get ga answer h (int n) s = Some (NULL, ?s')" using start R r(1) None by simp
      ultimately show ?thesis using r(1) None by blast
    next
      case (Some hp)
      then obtain hn p where hp: "r = Some (hn, p)" by (cases hp) auto
      then obtain i j k m where ga2: "ga i ALLOCSIZE (regions s1) = GMem hn p" and
        s2: "s2 = s1\<lparr>gcalls := j, npanics := k, regions := (regions s1)(p \<mapsto> (hn, ALLOCSIZE)),
             handles := (handles s1)(hn \<mapsto> p), mem := m\<rparr>"
        using r(2) by (auto simp: retried_def)
      obtain g where g: "new_seg hn (pnext gc) = Some g" "hseg g = hn" "pnext g = pnext gc" "seg_ok g"
        "\<And>k. bits (segmap g) k \<longleftrightarrow> 19 \<le> k \<and> k < 2048" using new_seg_spec [of hn "pnext gc"] by blast
      define s3 where "s3 = s2\<lparr>segs := (segs s2)(c \<mapsto> gc\<lparr>pnext := p\<rparr>, p \<mapsto> g)\<rparr>"
      have hc1: "handles s1 h = Some c" "segs s1 c = Some gc" using c(1) gc by (simp_all add: s1_def)
      have G3: "gm_ok h s3 A" and pc: "p \<noteq> c"
        using add_segment [OF G1 ga ga2 hc1 g(2-5), of s3] by (simp_all add: s3_def s2)
      then have P3: "gm_regions_ok s3" "pieces_ok s3 A" "segs_ok s3" by (simp_all add: gm_ok_parts)
      have "run (segmap g) 19 (span n)" using span_bounds(2) [OF n(2)] g(5) by (auto simp: run_def)
      then obtain q i where q: "gbit_findfree (segmap g) (span n) NBLKS = Some (q, i + 1)" "span n \<le> q"
        "19 \<le> i" "i + span n \<le> 2048" "run (segmap g) i (span n)"
        using findfree_seg [OF g(4) span_bounds(1) [OF n(1)]] by blast
      have sp: "segs s3 p = Some g" by (simp add: s3_def)
      obtain p' s4 where t: "take_blocks p (i + 1) (span n) s3 = Some (p', s4)" "suballoc s3 A n p' s4"
        using take_suballoc [OF P3 sp n q(5,3,4)] by blast
      have p': "p' \<noteq> NULL" "A p' = None" "critd s4 - 1 = critd s"
        using t(2) by (simp_all add: suballoc_def s3_def s2 s1_def)
      have "got h s A n p' (memset0 p' n (s4\<lparr>critd := critd s4 - 1\<rparr>))"
        by (rule got_piece [OF suballoc_gm_ok [OF G3 t(2)] p'])
      moreover have "gmem_get ga answer h (int n) s = Some (p', memset0 p' n (s4\<lparr>critd := critd s4 - 1\<rparr>))"
        using start R r(1) hp q(1,2) t(1) g(1) gc unfolding s3_def s2 s1_def Let_def by simp
      ultimately show ?thesis using p'(1) by blast
    qed
  qed
qed

subsection \<open>Giving a piece back\<close>

lemma seg_give:
  assumes g: "seg_ok g" and R: "\<And>k. i \<le> k \<Longrightarrow> k < i + nb \<Longrightarrow> \<not> bits (segmap g) k"
    and n: "1 \<le> nb" "19 \<le> i" "i + nb \<le> 2048"
  shows "\<exists>m'. gbit_free (segmap g) (i + 1) nb = Some m' \<and>
    (\<forall>k. bits m' k \<longleftrightarrow> bits (segmap g) k \<or> i \<le> k \<and> k < i + nb) \<and>
    seg_ok (g\<lparr>segmap := m', nblocks := nblocks g + int nb\<rparr>)"
proof -
  have len: "length (segmap g) = 67" using g by (simp add: seg_ok_def map_words_eq)
  have "(1::nat) \<le> i + 1" "i + 1 - 1 + nb \<le> 32 * length (segmap g)" "0 < nb" using n len by simp_all
  from gbit_set_spec [OF this, of True] obtain m' where m': "gbit_free (segmap g) (i + 1) nb = Some m'"
    "length m' = length (segmap g)"
    "\<And>k. bits m' k \<longleftrightarrow> (if i + 1 \<le> k + 1 \<and> k + 1 < i + 1 + nb then True else bits (segmap g) k)"
    unfolding gbit_free_def by blast
  have b: "bits m' k \<longleftrightarrow> bits (segmap g) k \<or> i \<le> k \<and> k < i + nb" for k
    unfolding m'(3) by auto
  have S: "{k. bits m' k} = {k. bits (segmap g) k} \<union> {i..<i + nb}"
    by (rule set_eqI) (simp add: b)
  have "{k. bits (segmap g) k} \<inter> {i..<i + nb} = {}" using R by auto
  then have "card {k. bits m' k} = card {k. bits (segmap g) k} + nb"
    unfolding S using seg_bits_finite [OF g] by (simp add: card_Un_disjoint)
  moreover have "\<forall>k. bits m' k \<longrightarrow> 19 \<le> k \<and> k < 2048"
    using b g n unfolding seg_ok_def header_blocks NBLKS_eq by fastforce
  ultimately have "seg_ok (g\<lparr>segmap := m', nblocks := nblocks g + int nb\<rparr>)"
    using g m'(2) by (simp add: seg_ok_def header_blocks NBLKS_eq)
  with m'(1) b show ?thesis by blast
qed

lemma gmem_free_spec:
  assumes G: "gm_ok h s A" and p: "A p = Some n"
  shows "\<exists>s'. gmem_free h p (int n) s = Some s' \<and> gm_ok h s' (A(p := None)) \<and> critd s' = critd s"
proof -
  have P: "gm_regions_ok s" "pieces_ok s A" "segs_ok s" using G by (simp_all add: gm_ok_parts)
  have n: "1 \<le> n" "n \<le> MAXGALLOC" using pieces_okD(1,2) [OF P(2) p] .
  obtain b g i where at: "blocks_at s p n b g i" using pieces_okD(3) [OF P(2) p] by blast
  then have Q: "segs s b = Some g" "p = b + 16 * i + 4" "19 \<le> i" "i + span n \<le> 2048"
    "hcell s (b + 16 * i) = Some (hseg g)" "\<And>k. i \<le> k \<Longrightarrow> k < i + span n \<Longrightarrow> \<not> bits (segmap g) k"
    by (auto simp: blocks_at_def gm_consts_eq header_blocks NBLKS_eq)
  have sg: "regions s b = Some (hseg g, ALLOCSIZE)" "seg_ok g" using P(3) Q(1) by (simp_all add: segs_ok_def)
  have hb: "handles s (hseg g) = Some b" using P(1) sg(1) by (auto simp: gm_regions_ok_def)
  obtain m' where m': "gbit_free (segmap g) (i + 1) (span n) = Some m'"
    "\<And>k. bits m' k \<longleftrightarrow> bits (segmap g) k \<or> i \<le> k \<and> k < i + span n"
    "seg_ok (g\<lparr>segmap := m', nblocks := nblocks g + int (span n)\<rparr>)"
    using seg_give [OF sg(2) Q(6) span_bounds(1) [OF n(1)] Q(3,4)] by blast
  define g' where "g' = g\<lparr>segmap := m', nblocks := nblocks g + int (span n)\<rparr>"
  define s' where "s' = s\<lparr>segs := (segs s)(b \<mapsto> g')\<rparr>"
  obtain c cs where c: "handles s h = Some c" "map_option hseg (segs s c) = Some h" "seg_chain s c (c # cs)" "distinct (c # cs)"
    using G by (auto simp: gm_ok_parts)
  have blk: "TO_BLKS (16 * i) = i" by (simp add: TO_BLKS_def BLKSIZE_def)
  have "gmem_free h p (int n) s = Some s'"
    using n c(1) Q(1,5) hb m'(1)
    by (simp add: gmem_free_def Q(2) gm_consts_eq blk s'_def g'_def span_def [symmetric, unfolded gm_consts_eq])
  moreover have "segs_ok s'" using P(3) sg(1) m'(3) unfolding segs_ok_def by (simp add: s'_def g'_def)
  moreover have "used_owned s' (A(p := None))"
    unfolding used_owned_def
  proof (intro allI impI)
    fix d gd k assume d: "segs s' d = Some gd" "TO_BLKS sizeof_SEGHDR \<le> k" "k < NBLKS" "\<not> bits (segmap gd) k"
    have out: "d = b \<Longrightarrow> \<not> (i \<le> k \<and> k < i + span n)" and "\<exists>ge. segs s d = Some ge \<and> \<not> bits (segmap ge) k"
      using d(1,4) Q(1) m'(2) by (auto simp: s'_def g'_def split: if_splits)
    then obtain ge where ge: "segs s d = Some ge" "\<not> bits (segmap ge) k" by blast
    have own: "owned A (d + BLKSIZE * k + sizeof_HANDLE)"
      by (rule used_ownedD [OF _ ge(1) d(2,3) ge(2)]) (use P(2) in \<open>simp add: pieces_ok_def\<close>)
    have "\<not> (p \<le> d + BLKSIZE * k + sizeof_HANDLE \<and> d + BLKSIZE * k + sizeof_HANDLE < p + BLKSIZE * span n)"
    proof (cases "d = b")
      case True
      then show ?thesis using out unfolding Q(2) gm_consts_eq by auto
    next
      case False
      have "regions s d = Some (hseg ge, ALLOCSIZE)" using P(3) ge(1) by (simp add: segs_ok_def)
      from other_segment [OF P(1) sg(1) this, of i "span n" k 1] False Q(4) d(3) show ?thesis
        unfolding Q(2) gm_consts_eq NBLKS_eq by linarith
    qed
    then show "owned (A(p := None)) (d + BLKSIZE * k + sizeof_HANDLE)" by (rule owned_del [OF own p])
  qed
  moreover have "pieces_ok s' (A(p := None))" if "used_owned s' (A(p := None))"
    unfolding pieces_ok_def
  proof (intro conjI allI impI)
    show "used_owned s' (A(p := None))" by (rule that)
  next
    fix q k assume q: "(A(p := None)) q = Some k"
    then have Aq: "A q = Some k" "q \<noteq> p" by (simp_all split: if_splits)
    show "1 \<le> k" "k \<le> MAXGALLOC" using pieces_okD(1,2) [OF P(2) Aq(1)] .
    obtain d gd j where d: "blocks_at s q k d gd j" using pieces_okD(3) [OF P(2) Aq(1)] by blast
    have Q': "segs s d = Some gd" "q = d + 16 * j + 4" using d by (auto simp: blocks_at_def gm_consts_eq)
    have dj: "d = b \<Longrightarrow> i + span n \<le> j \<or> j + span k \<le> i"
      using pieces_okD2 [OF P(2) p Aq(1) Aq(2) [symmetric]] unfolding Q(2) Q'(2) gm_consts_eq by simp linarith
    have "blocks_at s' q k d (if d = b then g' else gd) j"
    proof (cases "d = b")
      case True
      then have "gd = g" using Q'(1) Q(1) by simp
      then show ?thesis using d True dj m'(2) unfolding blocks_at_def by (auto simp: s'_def g'_def)
    next
      case False
      then show ?thesis using d unfolding blocks_at_def by (simp add: s'_def)
    qed
    then show "\<exists>b g i. blocks_at s' q k b g i" by blast
  next
    fix q k q' k' assume q: "(A(p := None)) q = Some k" "(A(p := None)) q' = Some k'" "q \<noteq> q'"
    then have "A q = Some k" "A q' = Some k'" by (simp_all split: if_splits)
    then show "q + BLKSIZE * span k \<le> q' \<or> q' + BLKSIZE * span k' \<le> q" using pieces_okD2 [OF P(2) _ _ q(3)] by blast
  qed
  moreover have "gm_regions_ok s'" using P(1) by (simp add: gm_regions_ok_def s'_def)
  moreover have "seg_chain s' c (c # cs)"
    by (rule seg_chain_cong [OF c(3)]) (use Q(1) in \<open>auto simp: s'_def g'_def\<close>)
  moreover have "handles s' h = Some c" "map_option hseg (segs s' c) = Some h"
    using c(1,2) Q(1) by (auto simp: s'_def g'_def)
  ultimately have "gm_ok h s' (A(p := None))" "gmem_free h p (int n) s = Some s'"
    unfolding gm_ok_parts using c(4) by blast+
  then show ?thesis by (auto simp: s'_def)
qed

text \<open>A new heap has no pieces.\<close>

lemma gmem_init_spec:
  assumes ga: "gm_alloc_ok ga" and U: "user_ok answer"
  shows "\<exists>r s'. gmem_init ga answer gheap_start = Some (r, s') \<and>
    (case r of None \<Rightarrow> segs s' = Map.empty | Some h \<Rightarrow> gm_ok h s' Map.empty)"
proof -
  obtain r s1 where r: "alloc_retry ga answer ALLOCSIZE gheap_start = Some (r, s1)" "retried ga ALLOCSIZE gheap_start r s1"
    using alloc_retry_spec [OF U] by blast
  show ?thesis
  proof (cases r)
    case None
    then have "segs s1 = Map.empty" using r(2) by (auto simp: retried_def gheap_start_def)
    with r(1) None show ?thesis by (simp add: gmem_init_def)
  next
    case (Some hp)
    then obtain h p where hp: "r = Some (h, p)" by (cases hp) auto
    then obtain i j k m where ga2: "ga i ALLOCSIZE (regions gheap_start) = GMem h p" and
      s1: "s1 = gheap_start\<lparr>gcalls := j, npanics := k, regions := (regions gheap_start)(p \<mapsto> (h, ALLOCSIZE)),
           handles := (handles gheap_start)(h \<mapsto> p), mem := m\<rparr>"
      using r(2) by (auto simp: retried_def)
    obtain g where g: "new_seg h NULL = Some g" "hseg g = h" "pnext g = NULL" "seg_ok g"
      "\<And>k. bits (segmap g) k \<longleftrightarrow> 19 \<le> k \<and> k < 2048"
      using new_seg_spec [of h NULL] by blast
    let ?s' = "s1\<lparr>segs := (segs s1)(p \<mapsto> g)\<rparr>"
    have R0: "gm_regions_ok gheap_start" by (simp add: gm_regions_ok_def gheap_start_def)
    have R: "gm_regions_ok ?s'" "p \<noteq> NULL"
      using gm_regions_add [OF R0 ga ga2, of ?s'] by (simp_all add: s1)
    have "used_owned ?s' Map.empty"
      using g(5) by (auto simp: used_owned_def s1 gheap_start_def header_blocks NBLKS_eq)
    then have "pieces_ok ?s' Map.empty" by (simp add: pieces_ok_def)
    moreover have "segs_ok ?s'" using g by (simp add: segs_ok_def s1 gheap_start_def)
    moreover have "handles ?s' h = Some p" "map_option hseg (segs ?s' p) = Some h" using g by (simp_all add: s1)
    moreover have "seg_chain ?s' p [p]" "distinct [p]" using R g by simp_all
    ultimately have "gm_ok h ?s' Map.empty" using R(1) unfolding gm_ok_parts by blast
    moreover have "gmem_init ga answer gheap_start = Some (Some h, ?s')"
      using r(1) hp g(1) by (simp add: gmem_init_def)
    ultimately show ?thesis by auto
  qed
qed

subsection \<open>The interface to the clients of the heap\<close>

text \<open>What a client of the heap relies on: a piece it gets is new, a piece in use can be
  given back, and neither disturbs the other pieces.\<close>

locale piece_allocator =
  fixes get :: "nat \<Rightarrow> 's \<Rightarrow> (ptr \<times> 's) option"
    and give :: "ptr \<Rightarrow> nat \<Rightarrow> 's \<Rightarrow> 's option"
    and sound :: "'s \<Rightarrow> pieces \<Rightarrow> bool"
    and largest :: nat
  assumes get_new: "sound s A \<Longrightarrow> 1 \<le> n \<Longrightarrow> n \<le> largest \<Longrightarrow>
      \<exists>p s'. get n s = Some (p, s') \<and> p \<noteq> NULL \<and> A p = None \<and> sound s' (A(p \<mapsto> n))"
    and give_back: "sound s A \<Longrightarrow> A p = Some n \<Longrightarrow> \<exists>s'. give p n s = Some s' \<and> sound s' (A(p := None))"
begin

lemma get_two:
  assumes "sound s A" "1 \<le> n" "n \<le> largest" "1 \<le> m" "m \<le> largest"
  shows "\<exists>p s1 q s2. get n s = Some (p, s1) \<and> get m s1 = Some (q, s2) \<and> p \<noteq> NULL \<and> q \<noteq> NULL \<and> p \<noteq> q \<and>
    A p = None \<and> A q = None \<and> sound s2 (A(p \<mapsto> n, q \<mapsto> m))"
proof -
  obtain p s1 where p: "get n s = Some (p, s1)" "p \<noteq> NULL" "A p = None" "sound s1 (A(p \<mapsto> n))"
    using get_new [OF assms(1-3)] by blast
  obtain q s2 where q: "get m s1 = Some (q, s2)" "q \<noteq> NULL" "(A(p \<mapsto> n)) q = None" "sound s2 (A(p \<mapsto> n, q \<mapsto> m))"
    using get_new [OF p(4) assms(4,5)] by blast
  have "p \<noteq> q" "A q = None" using q(3) by (auto split: if_splits)
  with p q show ?thesis by blast
qed

lemma give_two:
  assumes "sound s A" "A p = Some n" "A q = Some m" "p \<noteq> q"
  shows "\<exists>s1 s2. give p n s = Some s1 \<and> give q m s1 = Some s2 \<and> sound s2 (A(p := None, q := None))"
proof -
  obtain s1 where s1: "give p n s = Some s1" "sound s1 (A(p := None))" using give_back [OF assms(1,2)] by blast
  have "(A(p := None)) q = Some m" using assms by simp
  from give_back [OF s1(2) this] s1 show ?thesis by blast
qed

text \<open>Getting a piece and giving it back leaves the same pieces in use.\<close>

lemma get_give:
  assumes "sound s A" "1 \<le> n" "n \<le> largest"
  shows "\<exists>p s1 s2. get n s = Some (p, s1) \<and> give p n s1 = Some s2 \<and> sound s2 A"
proof -
  obtain p s1 where p: "get n s = Some (p, s1)" "A p = None" "sound s1 (A(p \<mapsto> n))"
    using get_new [OF assms] by blast
  obtain s2 where "give p n s1 = Some s2" "sound s2 ((A(p \<mapsto> n))(p := None))"
    using give_back [OF p(3), of p n] by auto
  moreover have "(A(p \<mapsto> n))(p := None) = A" using p(2) by auto
  ultimately show ?thesis using p by metis
qed

end

text \<open>A system that has room whenever finitely many objects are in use, with which the code's
  unchecked pointers are never NULL.\<close>

definition plentiful :: "gm_alloc \<Rightarrow> bool" where
  "plentiful ga \<longleftrightarrow> gm_alloc_ok ga \<and> (\<forall>k cb r. finite (dom r) \<longrightarrow> (\<exists>h p. ga k cb r = GMem h p))"

lemma plentiful_retry: "plentiful ga \<Longrightarrow> finite (dom (regions x)) \<Longrightarrow> alloc_retry ga answer cb x \<noteq> Some (None, y)"
proof -
  assume "plentiful ga" "finite (dom (regions x))"
  then obtain h p where "ga (gcalls x) cb (regions x) = GMem h p" unfolding plentiful_def by blast
  then show "alloc_retry ga answer cb x \<noteq> Some (None, y)" by (subst alloc_retry.simps) (simp add: Let_def)
qed

definition gm_sound :: "gm_alloc \<Rightarrow> (nat \<Rightarrow> nat) \<Rightarrow> nat \<Rightarrow> gheap \<Rightarrow> pieces \<Rightarrow> bool" where
  "gm_sound ga answer h s A \<longleftrightarrow> plentiful ga \<and> user_ok answer \<and> gm_ok h s A"

interpretation gmem: piece_allocator "\<lambda>n. gmem_get ga answer h (int n)" "\<lambda>p n. gmem_free h p (int n)"
  "gm_sound ga answer h" MAXGALLOC
proof
  fix s A n assume S: "gm_sound ga answer h s A" "1 \<le> n" "n \<le> MAXGALLOC"
  then have P: "gm_ok h s A" "gm_alloc_ok ga" "user_ok answer" "plentiful ga"
    by (simp_all add: gm_sound_def plentiful_def)
  obtain p s' where g: "gmem_get ga answer h (int n) s = Some (p, s')" "got h s A n p s'"
    "p = NULL \<longrightarrow> (\<exists>x y. finite (dom (regions x)) \<and> alloc_retry ga answer ALLOCSIZE x = Some (None, y))"
    using gmem_get_spec [OF P(1-3) S(2,3)] by blast
  then have "p \<noteq> NULL" using plentiful_retry [OF P(4)] by blast
  with g P show "\<exists>p s'. gmem_get ga answer h (int n) s = Some (p, s') \<and> p \<noteq> NULL \<and> A p = None \<and>
      gm_sound ga answer h s' (A(p \<mapsto> n))"
    by (auto simp: got_def gm_sound_def)
next
  fix s A p n assume "gm_sound ga answer h s A" "A p = Some n"
  then show "\<exists>s'. gmem_free h p (int n) s = Some s' \<and> gm_sound ga answer h s' (A(p := None))"
    using gmem_free_spec [of h s A p n] by (auto simp: gm_sound_def)
qed

end
