(* ===== verification/Gutils_Tree.thy ===== *)
theory Gutils_Tree
  imports Gutils_Gmem
begin

text \<open>
  Model of \<open>windiff/gutils/tree.c\<close>: maps from 32-bit keys to blocks of storage, kept as
  unbalanced binary trees whose nodes and blocks come from a \<open>gmem\<close> heap, and the
  counting trees (\<open>ctree\<close>) built on them.

  \<^item> \<open>titems\<close> and \<open>troots\<close> hold the structures in use by address;
    \<open>tblocks\<close> holds the users' data blocks (\<open>None\<close> inside while a block is
    not initialised).  Touching anything else is a fault.
  \<^item> The storage itself is the modelled heap \<open>gm\<close>: a piece is in use in it exactly
    while the structure at its address is.
  \<^item> A value pointer is an option (\<open>None\<close> for NULL).  A block of a counting tree is
    the pair of the counter and the user's data; the code's \<open>pcounter + 1\<close> is 4 bytes on.
  \<^item> The C code does not check \<open>gmem_get\<close> for NULL: storing through NULL is a fault.
\<close>

subsection \<open>State\<close>

type_synonym treekey = "32 word"

record titem =
  root :: ptr
  key :: treekey
  left :: ptr
  right :: ptr
  tlength :: nat
  data :: ptr

record troot =
  hHeap :: nat
  first :: ptr

record 'v tstate =
  gm :: gheap
  troots :: "ptr \<rightharpoonup> troot"
  titems :: "ptr \<rightharpoonup> titem"
  tblocks :: "ptr \<rightharpoonup> 'v option"
  tmsgs :: "string list"

record genv =
  osalloc :: gm_alloc
  useranswer :: "nat \<Rightarrow> nat"

definition sizeof_tree :: nat where "sizeof_tree = 8"
definition sizeof_treeitem :: nat where "sizeof_treeitem = 24"
definition sizeof_LONG_PTR :: nat where "sizeof_LONG_PTR = 4"

definition tget :: "genv \<Rightarrow> nat \<Rightarrow> nat \<Rightarrow> 'v tstate \<Rightarrow> (ptr \<times> 'v tstate) option" where
  "tget e h len s = do {
     (p, g) \<leftarrow> gmem_get (osalloc e) (useranswer e) h (int len) (gm s);
     Some (p, s\<lparr>gm := g\<rparr>)
   }"

definition tfree :: "nat \<Rightarrow> ptr \<Rightarrow> nat \<Rightarrow> 'v tstate \<Rightarrow> 'v tstate option" where
  "tfree h p len s = do { g \<leftarrow> gmem_free h p (int len) (gm s); Some (s\<lparr>gm := g\<rparr>) }"

text \<open>Stores into a tree item; a store through a bad pointer is a fault.\<close>

definition wr_titem :: "ptr \<Rightarrow> (titem \<Rightarrow> titem) \<Rightarrow> 'v tstate \<Rightarrow> 'v tstate option" where
  "wr_titem p f s = (case titems s p of None \<Rightarrow> None | Some i \<Rightarrow> Some (s\<lparr>titems := (titems s)(p \<mapsto> f i)\<rparr>))"

definition wr_first :: "ptr \<Rightarrow> ptr \<Rightarrow> 'v tstate \<Rightarrow> 'v tstate option" where
  "wr_first t v s = (case troots s t of None \<Rightarrow> None | Some r \<Rightarrow> Some (s\<lparr>troots := (troots s)(t \<mapsto> r\<lparr>first := v\<rparr>)\<rparr>))"

definition memcpy :: "ptr \<Rightarrow> 'v \<Rightarrow> nat \<Rightarrow> 'v tstate \<Rightarrow> 'v tstate option" where
  "memcpy d v len s = (if len = 0 then Some s
     else if tblocks s d = None then None else Some (s\<lparr>tblocks := (tblocks s)(d \<mapsto> Some v)\<rparr>))"

text \<open>A data block of \<open>len\<close> bytes: nothing to hold when \<open>gmem_get\<close> gave NULL.\<close>

definition get_block :: "genv \<Rightarrow> nat \<Rightarrow> nat \<Rightarrow> 'v tstate \<Rightarrow> (ptr \<times> 'v tstate) option" where
  "get_block e h len s = do {
     (d, s) \<leftarrow> tget e h len s;
     Some (d, if d = NULL then s else s\<lparr>tblocks := (tblocks s)(d \<mapsto> None)\<rparr>)
   }"

definition free_block_of :: "nat \<Rightarrow> ptr \<Rightarrow> nat \<Rightarrow> 'v tstate \<Rightarrow> 'v tstate option" where
  "free_block_of h d len s = do {
     s \<leftarrow> tfree h d len s;
     Some (s\<lparr>tblocks := (tblocks s)(d := None)\<rparr>)
   }"

subsection \<open>Internal functions\<close>

partial_function (option) tree_delitem :: "ptr \<Rightarrow> 'v tstate \<Rightarrow> 'v tstate option" where
  "tree_delitem item s =
     (if item = NULL then Some s
      else do {
        i \<leftarrow> titems s item;
        s \<leftarrow> (if left i \<noteq> NULL then tree_delitem (left i) s else Some s);
        i \<leftarrow> titems s item;
        s \<leftarrow> (if right i \<noteq> NULL then tree_delitem (right i) s else Some s);
        i \<leftarrow> titems s item;
        r \<leftarrow> troots s (root i);
        s \<leftarrow> (if data i \<noteq> NULL then free_block_of (hHeap r) (data i) (tlength i) s else Some s);
        s \<leftarrow> tfree (hHeap r) item sizeof_treeitem s;
        Some (s\<lparr>titems := (titems s)(item := None)\<rparr>)
      })"

definition tree_newitem :: "genv \<Rightarrow> ptr \<Rightarrow> treekey \<Rightarrow> 'v option \<Rightarrow> nat \<Rightarrow> 'v tstate \<Rightarrow> (ptr \<times> 'v tstate) option" where
  "tree_newitem e rt k val len s = do {
     r \<leftarrow> troots s rt;
     (item, s) \<leftarrow> tget e (hHeap r) sizeof_treeitem s;
     s \<leftarrow> (if item = NULL then None
          else Some (s\<lparr>titems := (titems s)(item \<mapsto>
             \<lparr>root = rt, key = k, left = NULL, right = NULL, tlength = len, data = NULL\<rparr>)\<rparr>));
     r \<leftarrow> troots s rt;
     (d, s) \<leftarrow> get_block e (hHeap r) len s;
     s \<leftarrow> wr_titem item (\<lambda>i. i\<lparr>data := d\<rparr>) s;
     s \<leftarrow> (case val of None \<Rightarrow> Some s | Some v \<Rightarrow> memcpy d v len s);
     Some (item, s)
   }"

partial_function (option) getitem_loop :: "treekey \<Rightarrow> ptr \<Rightarrow> ptr \<Rightarrow> 'v tstate \<Rightarrow> ptr option" where
  "getitem_loop k item prev s =
     (if item = NULL then Some prev
      else do {
        i \<leftarrow> titems s item;
        if key i = k then Some item
        else if k < key i then getitem_loop k (left i) item s
        else getitem_loop k (right i) item s
      })"

definition tree_getitem :: "ptr \<Rightarrow> treekey \<Rightarrow> 'v tstate \<Rightarrow> ptr option" where
  "tree_getitem t k s = do { r \<leftarrow> troots s t; getitem_loop k (first r) NULL s }"

subsection \<open>External functions\<close>

definition tree_create :: "genv \<Rightarrow> nat \<Rightarrow> 'v tstate \<Rightarrow> (ptr \<times> 'v tstate) option" where
  "tree_create e h s = do {
     (t, s) \<leftarrow> tget e h sizeof_tree s;
     if t = NULL then None
     else Some (t, s\<lparr>troots := (troots s)(t \<mapsto> \<lparr>hHeap = h, first = NULL\<rparr>)\<rparr>)
   }"

definition tree_delete :: "ptr \<Rightarrow> 'v tstate \<Rightarrow> 'v tstate option" where
  "tree_delete t s = do {
     r \<leftarrow> troots s t;
     s \<leftarrow> tree_delitem (first r) s;
     r \<leftarrow> troots s t;
     s \<leftarrow> tfree (hHeap r) t sizeof_tree s;
     Some (s\<lparr>troots := (troots s)(t := None)\<rparr>)
   }"

text \<open>The place is the val of \<open>*place\<close>.\<close>

definition tree_addafter :: "genv \<Rightarrow> ptr \<Rightarrow> ptr \<Rightarrow> treekey \<Rightarrow> 'v option \<Rightarrow> nat \<Rightarrow> 'v tstate \<Rightarrow> (ptr \<times> 'v tstate) option" where
  "tree_addafter e t place k val len s =
     (if place = NULL then do {
        (n, s) \<leftarrow> tree_newitem e t k val len s;
        s \<leftarrow> wr_first t n s;
        r \<leftarrow> troots s t;
        i \<leftarrow> titems s (first r);
        Some (data i, s)
      } else do {
        (child, s) \<leftarrow> tree_newitem e t k val len s;
        c \<leftarrow> titems s child;
        i \<leftarrow> titems s place;
        s \<leftarrow> (if key c < key i then do {
               let s = (if left i \<noteq> NULL then s\<lparr>tmsgs := tmsgs s @ [''TREE: left leaf leg not free'']\<rparr> else s);
               wr_titem place (\<lambda>i. i\<lparr>left := child\<rparr>) s
             } else do {
               let s = (if right i \<noteq> NULL then s\<lparr>tmsgs := tmsgs s @ [''TREE: right leaf leg not free'']\<rparr> else s);
               wr_titem place (\<lambda>i. i\<lparr>right := child\<rparr>) s
             });
        c \<leftarrow> titems s child;
        Some (data c, s)
      })"

definition tree_update :: "genv \<Rightarrow> ptr \<Rightarrow> treekey \<Rightarrow> 'v option \<Rightarrow> nat \<Rightarrow> 'v tstate \<Rightarrow> (ptr \<times> 'v tstate) option" where
  "tree_update e t k val len s = do {
     item \<leftarrow> tree_getitem t k s;
     if item = NULL then do {
       (n, s) \<leftarrow> tree_newitem e t k val len s;
       s \<leftarrow> wr_first t n s;
       r \<leftarrow> troots s t;
       i \<leftarrow> titems s (first r);
       Some (data i, s)
     } else do {
       i \<leftarrow> titems s item;
       if key i = k then do {
         s \<leftarrow> (if len \<noteq> tlength i then do {
                r \<leftarrow> troots s t;
                s \<leftarrow> free_block_of (hHeap r) (data i) (tlength i) s;
                (d, s) \<leftarrow> get_block e (hHeap r) len s;
                wr_titem item (\<lambda>i. i\<lparr>data := d\<rparr>) s
              } else Some s);
         i \<leftarrow> titems s item;
         s \<leftarrow> (case val of None \<Rightarrow> Some s | Some v \<Rightarrow> memcpy (data i) v len s);
         Some (data i, s)
       } else tree_addafter e t item k val len s
     }
   }"

definition tree_find :: "ptr \<Rightarrow> treekey \<Rightarrow> 'v tstate \<Rightarrow> ptr option" where
  "tree_find t k s = do {
     item \<leftarrow> tree_getitem t k s;
     if item = NULL then Some NULL
     else do { i \<leftarrow> titems s item; if key i \<noteq> k then Some NULL else Some (data i) }
   }"

text \<open>The result is the return valueue and the value stored in \<open>*pplace\<close>.\<close>

definition tree_search :: "ptr \<Rightarrow> treekey \<Rightarrow> 'v tstate \<Rightarrow> (ptr \<times> ptr) option" where
  "tree_search t k s = do {
     item \<leftarrow> tree_getitem t k s;
     if item = NULL then Some (NULL, NULL)
     else do { i \<leftarrow> titems s item; if key i = k then Some (data i, NULL) else Some (NULL, item) }
   }"

subsection \<open>Counting trees\<close>

type_synonym 'u cval = "32 word \<times> 'u option"

definition ctree_create :: "genv \<Rightarrow> nat \<Rightarrow> 'u cval tstate \<Rightarrow> (ptr \<times> 'u cval tstate) option" where
  "ctree_create e h s = tree_create e h s"

definition ctree_delete :: "ptr \<Rightarrow> 'u cval tstate \<Rightarrow> 'u cval tstate option" where
  "ctree_delete t s = tree_delete t s"

text \<open>Stores to the counter and to the user's part of a block.\<close>

definition st_count :: "ptr \<Rightarrow> 32 word \<Rightarrow> 'u cval tstate \<Rightarrow> 'u cval tstate option" where
  "st_count p n s = (case tblocks s p of
       None \<Rightarrow> None
     | Some b \<Rightarrow> Some (s\<lparr>tblocks := (tblocks s)(p \<mapsto> Some (n, case b of None \<Rightarrow> None | Some (_, u) \<Rightarrow> u))\<rparr>))"

definition ld_count :: "ptr \<Rightarrow> 'u cval tstate \<Rightarrow> 32 word option" where
  "ld_count p s = (case tblocks s p of Some (Some (n, _)) \<Rightarrow> Some n | _ \<Rightarrow> None)"

definition cpy_user :: "ptr \<Rightarrow> 'u \<Rightarrow> 'u cval tstate \<Rightarrow> 'u cval tstate option" where
  "cpy_user p v s = (case tblocks s p of
       Some (Some (n, _)) \<Rightarrow> Some (s\<lparr>tblocks := (tblocks s)(p \<mapsto> Some (n, Some v))\<rparr>)
     | _ \<Rightarrow> None)"

definition ctree_update :: "genv \<Rightarrow> ptr \<Rightarrow> treekey \<Rightarrow> 'u option \<Rightarrow> nat \<Rightarrow> 'u cval tstate \<Rightarrow> (ptr \<times> 'u cval tstate) option" where
  "ctree_update e t k val len s = do {
     (pcounter, item) \<leftarrow> tree_search t k s;
     if pcounter = NULL then do {
       (pcounter, s) \<leftarrow> tree_addafter e t item k None (len + sizeof_LONG_PTR) s;
       s \<leftarrow> st_count pcounter 1 s;
       s \<leftarrow> (case val of None \<Rightarrow> Some s | Some v \<Rightarrow> cpy_user pcounter v s);
       Some (pcounter + sizeof_LONG_PTR, s)
     } else do {
       n \<leftarrow> ld_count pcounter s;
       s \<leftarrow> st_count pcounter (n + 1) s;
       Some (pcounter + sizeof_LONG_PTR, s)
     }
   }"

definition ctree_getcount :: "ptr \<Rightarrow> treekey \<Rightarrow> 'u cval tstate \<Rightarrow> int option" where
  "ctree_getcount t k s = do {
     pcounter \<leftarrow> tree_find t k s;
     if pcounter = NULL then Some 0 else do { n \<leftarrow> ld_count pcounter s; Some (sint n) }
   }"

definition ctree_find :: "ptr \<Rightarrow> treekey \<Rightarrow> 'u cval tstate \<Rightarrow> ptr option" where
  "ctree_find t k s = do {
     pcounter \<leftarrow> tree_find t k s;
     if pcounter = NULL then Some NULL else Some (pcounter + sizeof_LONG_PTR)
   }"

end
