(* ===== verification/Gutils_Tree_Correct.thy ===== *)
theory Gutils_Tree_Correct
  imports Gutils_Tree
begin

text \<open>
  Correctness of the trees of \<open>tree.c\<close>.  The abstract value of a tree is a HOL binary
  search tree of nodes; \<open>tree_ok\<close> says that the heap holds it and that exactly its
  pieces are in use for it.  Look-up, insertion, deletion and the counting trees are shown
  correct against it.  The storage side rests on the allocator interface of
  \<open>Gutils_Gmem\<close> only.
\<close>

subsection \<open>Representation\<close>

record node =
  nkey :: treekey
  naddr :: ptr
  nlen :: nat
  ndata :: ptr

primrec trep :: "(ptr \<rightharpoonup> titem) \<Rightarrow> ptr \<Rightarrow> ptr \<Rightarrow> node tree \<Rightarrow> bool" where
  "trep it t p \<langle>\<rangle> \<longleftrightarrow> p = NULL"
| "trep it t p \<langle>l, a, r\<rangle> \<longleftrightarrow> p = naddr a \<and> p \<noteq> NULL \<and> (\<exists>pl pr. it p = Some \<lparr>root = t, key = nkey a,
     left = pl, right = pr, tlength = nlen a, data = ndata a\<rparr> \<and> trep it t pl l \<and> trep it t pr r)"

definition addrs :: "node tree \<Rightarrow> ptr list" where "addrs tr = map naddr (inorder tr)"
definition datas :: "node tree \<Rightarrow> ptr list" where "datas tr = map ndata (inorder tr)"

lemma addrs_simps [simp]:
  "addrs \<langle>\<rangle> = []" "addrs \<langle>l, a, r\<rangle> = addrs l @ naddr a # addrs r"
  "datas \<langle>\<rangle> = []" "datas \<langle>l, a, r\<rangle> = datas l @ ndata a # datas r"
  by (simp_all add: addrs_def datas_def)

definition keys_bst :: "node tree \<Rightarrow> bool" where
  "keys_bst tr \<longleftrightarrow> sorted_wrt (<) (map nkey (inorder tr))"

lemma keys_bst_simps [simp]:
  "keys_bst \<langle>\<rangle>"
  "keys_bst \<langle>l, a, r\<rangle> \<longleftrightarrow> keys_bst l \<and> keys_bst r \<and> (\<forall>x \<in> set_tree l. nkey x < nkey a) \<and> (\<forall>x \<in> set_tree r. nkey a < nkey x)"
  by (auto simp: keys_bst_def sorted_wrt_append) (meson order_less_trans)

lemma trep_cong:
  "trep it t p tr \<Longrightarrow> (\<And>a. a \<in> set (addrs tr) \<Longrightarrow> it' a = it a) \<Longrightarrow> trep it' t p tr"
  by (induction tr arbitrary: p) fastforce+

lemma trep_NULL: "trep it t p tr \<Longrightarrow> p = NULL \<longleftrightarrow> tr = \<langle>\<rangle>"
  by (cases tr) auto

lemma trep_titem: "trep it t p tr \<Longrightarrow> a \<in> set_tree tr \<Longrightarrow>
  \<exists>pl pr. it (naddr a) = Some \<lparr>root = t, key = nkey a, left = pl, right = pr, tlength = nlen a, data = ndata a\<rparr> \<and> naddr a \<noteq> NULL"
  by (induction tr arbitrary: p) auto

text \<open>Look-up and insertion on the abstract tree.\<close>

fun lookup :: "node tree \<Rightarrow> treekey \<Rightarrow> node option" where
  "lookup \<langle>\<rangle> k = None"
| "lookup \<langle>l, a, r\<rangle> k = (if nkey a = k then Some a else if k < nkey a then lookup l k else lookup r k)"

fun place :: "node tree \<Rightarrow> treekey \<Rightarrow> ptr \<Rightarrow> ptr" where
  "place \<langle>\<rangle> k prev = prev"
| "place \<langle>l, a, r\<rangle> k prev = (if nkey a = k then naddr a else if k < nkey a then place l k (naddr a)
     else place r k (naddr a))"

fun ins :: "node tree \<Rightarrow> node \<Rightarrow> node tree" where
  "ins \<langle>\<rangle> n = \<langle>\<langle>\<rangle>, n, \<langle>\<rangle>\<rangle>"
| "ins \<langle>l, a, r\<rangle> n = (if nkey n < nkey a then \<langle>ins l n, a, r\<rangle> else \<langle>l, a, ins r n\<rangle>)"

lemma set_ins [simp]: "set_tree (ins tr n) = insert n (set_tree tr)"
  by (induction tr) auto

lemma ins_mset: "mset (addrs (ins tr n)) = add_mset (naddr n) (mset (addrs tr))"
  "mset (datas (ins tr n)) = add_mset (ndata n) (mset (datas tr))"
  by (induction tr) auto

lemma lookup_Some: "lookup tr k = Some a \<Longrightarrow> a \<in> set_tree tr \<and> nkey a = k"
  by (induction tr k rule: lookup.induct) (auto split: if_splits)

lemma lookup_member: "keys_bst tr \<Longrightarrow> x \<in> set_tree tr \<Longrightarrow> lookup tr (nkey x) = Some x"
proof (induction tr)
  case Leaf
  then show ?case by simp
next
  case (Node l a r)
  consider "x = a" | "x \<in> set_tree l" | "x \<in> set_tree r" using Node.prems by auto
  then show ?case
  proof cases
    case 2
    then have "nkey x < nkey a" using Node.prems(1) by simp
    then show ?thesis using Node 2 by auto
  next
    case 3
    then have "nkey a < nkey x" using Node.prems(1) by simp
    then have "nkey a \<noteq> nkey x" "\<not> nkey x < nkey a" by auto
    then show ?thesis using Node 3 by simp
  qed simp
qed

lemma lookup_None: "keys_bst tr \<Longrightarrow> lookup tr k = None \<longleftrightarrow> k \<notin> nkey ` set_tree tr"
  by (induction tr k rule: lookup.induct) (auto split: if_splits)

lemma ins_bst: "keys_bst tr \<Longrightarrow> lookup tr (nkey n) = None \<Longrightarrow> keys_bst (ins tr n)"
  by (induction tr n rule: ins.induct) (auto split: if_splits)

lemma lookup_ins:
  "keys_bst tr \<Longrightarrow> lookup tr (nkey n) = None \<Longrightarrow> lookup (ins tr n) k = (if k = nkey n then Some n else lookup tr k)"
  by (induction tr n rule: ins.induct) (auto split: if_splits)

text \<open>\<open>tree_getitem\<close> finds the node, or the node below which the key belongs.\<close>

lemma getitem_loop_place: "trep (titems s) t p tr \<Longrightarrow> getitem_loop k p prev s = Some (place tr k prev)"
proof (induction tr arbitrary: p prev)
  case (Node l a r)
  from Node.prems obtain pl pr where "titems s p = Some \<lparr>root = t, key = nkey a, left = pl, right = pr,
      tlength = nlen a, data = ndata a\<rparr>" "trep (titems s) t pl l" "trep (titems s) t pr r" "p = naddr a" "p \<noteq> NULL"
    by auto
  with Node.IH show ?case by (subst getitem_loop.simps) simp
qed (subst getitem_loop.simps, simp)

lemma place_lookup_Some: "lookup tr k = Some a \<Longrightarrow> place tr k prev = naddr a"
  by (induction tr k arbitrary: prev rule: lookup.induct) (auto split: if_splits)

lemma place_lookup_None:
  "lookup tr k = None \<Longrightarrow> tr \<noteq> \<langle>\<rangle> \<Longrightarrow> \<exists>b \<in> set_tree tr. place tr k prev = naddr b \<and> nkey b \<noteq> k"
proof (induction tr arbitrary: prev)
  case (Node l a r)
  then show ?case by (cases "l = \<langle>\<rangle>"; cases "r = \<langle>\<rangle>") (auto split: if_splits)
qed simp

text \<open>Hanging a new node \<open>c\<close> below \<open>place\<close> represents the insertion.\<close>

definition hang :: "(ptr \<rightharpoonup> titem) \<Rightarrow> ptr \<Rightarrow> treekey \<Rightarrow> ptr \<Rightarrow> (ptr \<rightharpoonup> titem)" where
  "hang it P k c = it(P := map_option (\<lambda>i. if k < key i then i\<lparr>left := c\<rparr> else i\<lparr>right := c\<rparr>) (it P))"

lemma hang_other [simp]: "a \<noteq> P \<Longrightarrow> hang it P k c a = it a"
  by (simp add: hang_def)

lemma place_in: "tr \<noteq> \<langle>\<rangle> \<Longrightarrow> place tr k prev \<in> set (addrs tr)"
proof (induction tr arbitrary: prev)
  case (Node l a r)
  then show ?case by (cases "l = \<langle>\<rangle>"; cases "r = \<langle>\<rangle>") auto
qed simp

lemma trep_hang:
  assumes "trep it t p tr" "tr \<noteq> \<langle>\<rangle>" "lookup tr (nkey n) = None" "distinct (addrs tr)"
    and "naddr n \<notin> set (addrs tr)" "naddr n \<noteq> NULL"
    and "it (naddr n) = Some \<lparr>root = t, key = nkey n, left = NULL, right = NULL, tlength = nlen n, data = ndata n\<rparr>"
  shows "trep (hang it (place tr (nkey n) prev) (nkey n) (naddr n)) t p (ins tr n)"
  using assms
proof (induction tr arbitrary: p prev)
  case (Node l a r)
  let ?k = "nkey n"
  from Node.prems(1) obtain pl pr where P: "p = naddr a" "p \<noteq> NULL" "it p = Some \<lparr>root = t, key = nkey a, left = pl,
      right = pr, tlength = nlen a, data = ndata a\<rparr>" "trep it t pl l" "trep it t pr r" by auto
  have D: "distinct (addrs l)" "distinct (addrs r)" "set (addrs l) \<inter> set (addrs r) = {}"
    "naddr a \<notin> set (addrs l)" "naddr a \<notin> set (addrs r)" using Node.prems(4) by auto
  have N: "naddr n \<notin> set (addrs l)" "naddr n \<notin> set (addrs r)" "naddr n \<noteq> naddr a" using Node.prems(5) by auto
  have ka: "nkey a \<noteq> ?k" using Node.prems(3) by (auto split: if_splits)
  show ?case
  proof (cases "?k < nkey a")
    case less: True
    have Lk: "lookup l ?k = None" using Node.prems(3) ka less by (simp split: if_splits)
    show ?thesis
    proof (cases "l = \<langle>\<rangle>")
      case True
      have "trep (hang it (naddr a) ?k (naddr n)) t pr r"
        by (rule trep_cong [OF P(5)]) (use D in \<open>auto simp: hang_def\<close>)
      moreover have "hang it (naddr a) ?k (naddr n) p = Some \<lparr>root = t, key = nkey a, left = naddr n, right = pr,
          tlength = nlen a, data = ndata a\<rparr>"
        using P(1,3) less by (simp add: hang_def)
      moreover have "hang it (naddr a) ?k (naddr n) (naddr n) = it (naddr n)" using N(3) by simp
      ultimately show ?thesis using P(1,2) less ka True Node.prems(6,7) by simp
    next
      case False
      let ?P = "place l ?k (naddr a)"
      have Pin: "?P \<in> set (addrs l)" by (rule place_in [OF False])
      have "trep (hang it ?P ?k (naddr n)) t pl (ins l n)"
        by (rule Node.IH(1) [OF P(4) False Lk D(1) N(1) Node.prems(6,7)])
      moreover have "trep (hang it ?P ?k (naddr n)) t pr r"
        by (rule trep_cong [OF P(5)]) (use D Pin in \<open>auto simp: hang_def\<close>)
      moreover have "hang it ?P ?k (naddr n) p = it p" using Pin D P(1) by (intro hang_other) auto
      ultimately show ?thesis using P less ka by simp
    qed
  next
    case ge: False
    have Lk: "lookup r ?k = None" using Node.prems(3) ka ge by (simp split: if_splits)
    show ?thesis
    proof (cases "r = \<langle>\<rangle>")
      case True
      have "trep (hang it (naddr a) ?k (naddr n)) t pl l"
        by (rule trep_cong [OF P(4)]) (use D in \<open>auto simp: hang_def\<close>)
      moreover have "hang it (naddr a) ?k (naddr n) p = Some \<lparr>root = t, key = nkey a, left = pl, right = naddr n,
          tlength = nlen a, data = ndata a\<rparr>"
        using P(1,3) ge by (simp add: hang_def)
      moreover have "hang it (naddr a) ?k (naddr n) (naddr n) = it (naddr n)" using N(3) by simp
      ultimately show ?thesis using P(1,2) ge ka True Node.prems(6,7) by simp
    next
      case False
      let ?P = "place r ?k (naddr a)"
      have Pin: "?P \<in> set (addrs r)" by (rule place_in [OF False])
      have "trep (hang it ?P ?k (naddr n)) t pr (ins r n)"
        by (rule Node.IH(2) [OF P(5) False Lk D(2) N(2) Node.prems(6,7)])
      moreover have "trep (hang it ?P ?k (naddr n)) t pl l"
        by (rule trep_cong [OF P(4)]) (use D Pin in \<open>auto simp: hang_def\<close>)
      moreover have "hang it ?P ?k (naddr n) p = it p" using Pin D P(1) by (intro hang_other) auto
      ultimately show ?thesis using P ge ka by simp
    qed
  qed
qed simp

subsection \<open>Trees in the state\<close>

definition node_ok :: "'v tstate \<Rightarrow> pieces \<Rightarrow> node \<Rightarrow> bool" where
  "node_ok s A a \<longleftrightarrow> A (naddr a) = Some sizeof_treeitem \<and> A (ndata a) = Some (nlen a) \<and> ndata a \<noteq> NULL \<and>
     tblocks s (ndata a) \<noteq> None"

definition tree_ok :: "genv \<Rightarrow> 'v tstate \<Rightarrow> ptr \<Rightarrow> nat \<Rightarrow> node tree \<Rightarrow> pieces \<Rightarrow> bool" where
  "tree_ok e s t h tr A \<longleftrightarrow> gm_sound (osalloc e) (useranswer e) h (gm s) A \<and>
     (\<exists>p. troots s t = Some \<lparr>hHeap = h, first = p\<rparr> \<and> trep (titems s) t p tr) \<and>
     keys_bst tr \<and> distinct (t # addrs tr @ datas tr) \<and> A t = Some sizeof_tree \<and>
     (\<forall>a \<in> set_tree tr. node_ok s A a)"

lemma set_addrs: "set (addrs tr) = naddr ` set_tree tr" "set (datas tr) = ndata ` set_tree tr"
  by (simp_all add: addrs_def datas_def)

lemma tget_spec:
  assumes "gm_sound (osalloc e) (useranswer e) h (gm s) A" "1 \<le> n" "n \<le> MAXGALLOC"
  shows "\<exists>p g. tget e h n s = Some (p, s\<lparr>gm := g\<rparr>) \<and> p \<noteq> NULL \<and> A p = None \<and>
    gm_sound (osalloc e) (useranswer e) h g (A(p \<mapsto> n))"
  using gmem.get_new [OF assms] by (auto simp: tget_def)

lemma tfree_spec:
  assumes "gm_sound (osalloc e) (useranswer e) h (gm s) A" "A p = Some n"
  shows "\<exists>g. tfree h p n s = Some (s\<lparr>gm := g\<rparr>) \<and> gm_sound (osalloc e) (useranswer e) h g (A(p := None))"
  using gmem.give_back [OF assms] by (auto simp: tfree_def)

lemma struct_sizes [simp]:
  "1 \<le> sizeof_tree" "sizeof_tree \<le> MAXGALLOC" "1 \<le> sizeof_treeitem" "sizeof_treeitem \<le> MAXGALLOC"
  by (simp_all add: sizeof_tree_def sizeof_treeitem_def MAXGALLOC_def)

lemma tree_newitem_spec:
  assumes r: "troots s t = Some \<lparr>hHeap = h, first = p\<rparr>" and G: "gm_sound (osalloc e) (useranswer e) h (gm s) A"
    and len: "1 \<le> len" "len \<le> MAXGALLOC"
  shows "\<exists>c d s'. tree_newitem e t k val len s = Some (c, s') \<and> c \<noteq> NULL \<and> d \<noteq> NULL \<and> c \<noteq> d \<and> A c = None \<and> A d = None \<and>
    gm_sound (osalloc e) (useranswer e) h (gm s') (A(c \<mapsto> sizeof_treeitem, d \<mapsto> len)) \<and>
    titems s' = (titems s)(c \<mapsto> \<lparr>root = t, key = k, left = NULL, right = NULL, tlength = len, data = d\<rparr>) \<and>
    tblocks s' = (tblocks s)(d \<mapsto> val) \<and> troots s' = troots s \<and> tmsgs s' = tmsgs s"
proof -
  obtain c g1 where c: "tget e h sizeof_treeitem s = Some (c, s\<lparr>gm := g1\<rparr>)" "c \<noteq> NULL" "A c = None"
    "gm_sound (osalloc e) (useranswer e) h g1 (A(c \<mapsto> sizeof_treeitem))"
    using tget_spec [OF G struct_sizes(3,4)] by blast
  let ?s1 = "s\<lparr>gm := g1, titems := (titems s)(c \<mapsto> \<lparr>root = t, key = k, left = NULL, right = NULL, tlength = len, data = NULL\<rparr>)\<rparr>"
  have G1: "gm_sound (osalloc e) (useranswer e) h (gm ?s1) (A(c \<mapsto> sizeof_treeitem))" using c(4) by simp
  obtain d g2 where d: "tget e h len ?s1 = Some (d, ?s1\<lparr>gm := g2\<rparr>)" "d \<noteq> NULL" "(A(c \<mapsto> sizeof_treeitem)) d = None"
    "gm_sound (osalloc e) (useranswer e) h g2 (A(c \<mapsto> sizeof_treeitem, d \<mapsto> len))"
    using tget_spec [OF G1 len] by auto
  have cd: "c \<noteq> d" "A d = None" using d(3) by (auto split: if_splits)
  let ?s' = "s\<lparr>gm := g2, titems := (titems s)(c \<mapsto> \<lparr>root = t, key = k, left = NULL, right = NULL, tlength = len, data = d\<rparr>),
     tblocks := (tblocks s)(d \<mapsto> val)\<rparr>"
  have "tree_newitem e t k val len s = Some (c, ?s')"
    using r c(1,2) d(1,2) len(1)
    by (cases val) (simp_all add: tree_newitem_def get_block_def wr_titem_def memcpy_def)
  then show ?thesis using c(2,3) d(2,4) cd
    by (intro exI [of _ c] exI [of _ d] exI [of _ ?s']) simp
qed

text \<open>The outcome of a successful insertion of node \<open>n\<close>.\<close>

definition added :: "genv \<Rightarrow> 'v tstate \<Rightarrow> ptr \<Rightarrow> nat \<Rightarrow> node tree \<Rightarrow> pieces \<Rightarrow> node \<Rightarrow> 'v option \<Rightarrow> 'v tstate \<Rightarrow> bool" where
  "added e s t h tr A n val s' \<longleftrightarrow> A (naddr n) = None \<and> A (ndata n) = None \<and>
     tree_ok e s' t h (ins tr n) (A(naddr n \<mapsto> sizeof_treeitem, ndata n \<mapsto> nlen n)) \<and>
     tblocks s' = (tblocks s)(ndata n \<mapsto> val) \<and> tmsgs s' = tmsgs s \<and>
     (\<forall>x. x \<noteq> naddr n \<longrightarrow> x \<notin> set (addrs tr) \<longrightarrow> titems s' x = titems s x) \<and> (\<forall>x. x \<noteq> t \<longrightarrow> troots s' x = troots s x)"

lemma added_ok:
  assumes T: "tree_ok e s t h tr A" and Lk: "lookup tr (nkey n) = None"
    and fresh: "A (naddr n) = None" "A (ndata n) = None" "naddr n \<noteq> ndata n" "naddr n \<noteq> NULL" "ndata n \<noteq> NULL"
    and G: "gm_sound (osalloc e) (useranswer e) h (gm s') (A(naddr n \<mapsto> sizeof_treeitem, ndata n \<mapsto> nlen n))"
    and R: "troots s' t = Some \<lparr>hHeap = h, first = p'\<rparr>" "trep (titems s') t p' (ins tr n)"
    and B: "tblocks s' = (tblocks s)(ndata n \<mapsto> val)" "tmsgs s' = tmsgs s"
    and F: "\<And>x. x \<noteq> naddr n \<Longrightarrow> x \<notin> set (addrs tr) \<Longrightarrow> titems s' x = titems s x" "\<And>x. x \<noteq> t \<Longrightarrow> troots s' x = troots s x"
  shows "added e s t h tr A n val s'"
proof -
  have ok: "\<And>a. a \<in> set_tree tr \<Longrightarrow> node_ok s A a" and D: "distinct (t # addrs tr @ datas tr)" and At: "A t = Some sizeof_tree"
    and K: "keys_bst tr" using T by (auto simp: tree_ok_def)
  let ?A = "A(naddr n \<mapsto> sizeof_treeitem, ndata n \<mapsto> nlen n)"
  have new: "naddr n \<notin> set (t # addrs tr @ datas tr)" "ndata n \<notin> set (t # addrs tr @ datas tr)"
    using fresh(1,2) At ok by (auto simp: set_addrs node_ok_def)
  have ms: "mset (t # addrs (ins tr n) @ datas (ins tr n)) = mset (naddr n # ndata n # t # addrs tr @ datas tr)"
    by (simp add: ins_mset)
  have "distinct (naddr n # ndata n # t # addrs tr @ datas tr)" using new D fresh(3) by auto
  then have "distinct (t # addrs (ins tr n) @ datas (ins tr n))" using mset_eq_imp_distinct_iff [OF ms] by blast
  moreover have "node_ok s' ?A a" if "a \<in> set_tree (ins tr n)" for a
  proof (cases "a = n")
    case True
    then show ?thesis using fresh B by (simp add: node_ok_def)
  next
    case False
    then have a: "a \<in> set_tree tr" using that by simp
    then have "naddr a \<in> set (addrs tr)" "ndata a \<in> set (datas tr)" by (simp_all add: set_addrs)
    then have "naddr a \<noteq> naddr n" "ndata a \<noteq> naddr n" "naddr a \<noteq> ndata n" "ndata a \<noteq> ndata n" using new by auto
    then show ?thesis using ok [OF a] B by (simp add: node_ok_def)
  qed
  moreover have "t \<noteq> naddr n" "t \<noteq> ndata n" using new by auto
  then have "?A t = Some sizeof_tree" using At by simp
  ultimately show ?thesis
    using G R B F fresh(1,2) ins_bst [OF K Lk] unfolding added_def tree_ok_def by blast
qed

lemma tree_addafter_spec:
  assumes T: "tree_ok e s t h tr A" and Lk: "lookup tr k = None" and len: "1 \<le> len" "len \<le> MAXGALLOC"
    and P: "P = (if tr = \<langle>\<rangle> then NULL else place tr k NULL)"
  shows "\<exists>n s'. tree_addafter e t P k val len s = Some (ndata n, s') \<and> nkey n = k \<and> nlen n = len \<and>
    added e s t h tr A n val s'"
proof -
  obtain p where p: "troots s t = Some \<lparr>hHeap = h, first = p\<rparr>" "trep (titems s) t p tr"
    using T by (auto simp: tree_ok_def)
  have G: "gm_sound (osalloc e) (useranswer e) h (gm s) A" and ok: "\<And>a. a \<in> set_tree tr \<Longrightarrow> node_ok s A a"
    and D: "distinct (t # addrs tr @ datas tr)" and At: "A t = Some sizeof_tree" using T by (auto simp: tree_ok_def)
  obtain c d s1 where N: "tree_newitem e t k val len s = Some (c, s1)" "c \<noteq> NULL" "d \<noteq> NULL" "c \<noteq> d" "A c = None" "A d = None"
    "gm_sound (osalloc e) (useranswer e) h (gm s1) (A(c \<mapsto> sizeof_treeitem, d \<mapsto> len))"
    "titems s1 = (titems s)(c \<mapsto> \<lparr>root = t, key = k, left = NULL, right = NULL, tlength = len, data = d\<rparr>)"
    "tblocks s1 = (tblocks s)(d \<mapsto> val)" "troots s1 = troots s" "tmsgs s1 = tmsgs s"
    using tree_newitem_spec [OF p(1) G len, of k val] by blast
  define n where "n = \<lparr>nkey = k, naddr = c, nlen = len, ndata = d\<rparr>"
  have nn: "nkey n = k" "naddr n = c" "nlen n = len" "ndata n = d" by (simp_all add: n_def)
  have cnew: "c \<notin> set (addrs tr)" using N(5) ok by (auto simp: set_addrs node_ok_def)
  have "\<exists>s'. tree_addafter e t P k val len s = Some (d, s') \<and> added e s t h tr A n val s'"
  proof (cases "tr = \<langle>\<rangle>")
    case True
    let ?s' = "s1\<lparr>troots := (troots s1)(t \<mapsto> \<lparr>hHeap = h, first = c\<rparr>)\<rparr>"
    have "tree_addafter e t P k val len s = Some (d, ?s')"
      using True P N p(1) by (simp add: tree_addafter_def wr_first_def)
    moreover have "added e s t h tr A n val ?s'"
      by (rule added_ok [OF T, where p' = c]) (use True Lk N nn in simp_all)
    ultimately show ?thesis by blast
  next
    case False
    then have P': "P = place tr k NULL" using P by simp
    have Pin: "P \<in> set (addrs tr)" unfolding P' by (rule place_in [OF False])
    then have Pc: "P \<noteq> c" using cnew by auto
    obtain b where b: "b \<in> set_tree tr" "naddr b = P" using Pin by (auto simp: set_addrs)
    obtain pl pr where i: "titems s P = Some \<lparr>root = t, key = nkey b, left = pl, right = pr, tlength = nlen b, data = ndata b\<rparr>"
      and P0: "P \<noteq> NULL" using trep_titem [OF p(2) b(1)] b(2) by auto
    let ?it = "titems s1"
    have rep1: "trep ?it t p tr" by (rule trep_cong [OF p(2)]) (use cnew in \<open>auto simp: N(8)\<close>)
    have "distinct (addrs tr)" using D by simp
    from trep_hang [OF rep1 False, of n NULL] this Lk cnew N(2,8) nn
    have rep: "trep (hang ?it P k c) t p (ins tr n)" by (simp add: P')
    have legs: "k < nkey b \<Longrightarrow> pl = NULL" "\<not> k < nkey b \<Longrightarrow> pr = NULL"
    proof -
      have "\<exists>b pl pr. it (place tr k prev) = Some b \<and> (if k < key b then left b = NULL else right b = NULL)"
        if "trep it t p tr" "tr \<noteq> \<langle>\<rangle>" "lookup tr k = None" for it p prev tr
        using that
      proof (induction tr arbitrary: p prev)
        case (Node l a r)
        then obtain pl pr where "it p = Some \<lparr>root = t, key = nkey a, left = pl, right = pr, tlength = nlen a, data = ndata a\<rparr>"
          "p = naddr a" "trep it t pl l" "trep it t pr r" by auto
        then show ?case using Node.prems(3) Node.IH(1) [of pl "naddr a"] Node.IH(2) [of pr "naddr a"]
            trep_NULL [of it t pl l] trep_NULL [of it t pr r]
          by (cases "l = \<langle>\<rangle>"; cases "r = \<langle>\<rangle>") (auto split: if_splits)
      qed simp
      from this [OF p(2) False Lk, of NULL] i show "k < nkey b \<Longrightarrow> pl = NULL" "\<not> k < nkey b \<Longrightarrow> pr = NULL"
        by (auto simp: P' split: if_splits)
    qed
    let ?s' = "s1\<lparr>titems := hang ?it P k c\<rparr>"
    have hc: "hang ?it P k c c = Some \<lparr>root = t, key = k, left = NULL, right = NULL, tlength = len, data = d\<rparr>"
      using Pc N(8) by simp
    have hP: "hang ?it P k c = ?it(P \<mapsto> (if k < nkey b then \<lparr>root = t, key = nkey b, left = c, right = pr, tlength = nlen b, data = ndata b\<rparr>
        else \<lparr>root = t, key = nkey b, left = pl, right = c, tlength = nlen b, data = ndata b\<rparr>))"
      using i Pc by (simp add: hang_def N(8))
    have "tree_addafter e t P k val len s = Some (d, ?s')"
      using P0 N(1,8) i Pc legs unfolding hP
      by (simp add: tree_addafter_def wr_titem_def Let_def)
    moreover have "hang ?it P k c x = ?it x" if "x \<notin> set (addrs tr)" for x using that Pin by (metis hang_other)
    then have "added e s t h tr A n val ?s'"
      by (intro added_ok [OF T, where p' = p]) (use Lk N nn p(1) rep in simp_all)
    ultimately show ?thesis by blast
  qed
  then show ?thesis using nn by metis
qed

text \<open>Look-up.\<close>

lemma tree_getitem_spec:
  assumes "tree_ok e s t h tr A"
  shows "tree_getitem t k s = Some (place tr k NULL)"
proof -
  obtain p where "troots s t = Some \<lparr>hHeap = h, first = p\<rparr>" "trep (titems s) t p tr"
    using assms by (auto simp: tree_ok_def)
  then show ?thesis using getitem_loop_place [of s t p tr k NULL] by (simp add: tree_getitem_def)
qed

lemma tree_item:
  assumes "tree_ok e s t h tr A" "a \<in> set_tree tr"
  shows "\<exists>pl pr. titems s (naddr a) = Some \<lparr>root = t, key = nkey a, left = pl, right = pr, tlength = nlen a, data = ndata a\<rparr> \<and>
    naddr a \<noteq> NULL"
  using assms trep_titem [of "titems s" t _ tr a] by (auto simp: tree_ok_def)

lemma tree_search_spec:
  assumes T: "tree_ok e s t h tr A"
  shows "tree_search t k s = Some (case lookup tr k of Some a \<Rightarrow> (ndata a, NULL)
    | None \<Rightarrow> (NULL, if tr = \<langle>\<rangle> then NULL else place tr k NULL))"
    "tree_find t k s = Some (case lookup tr k of Some a \<Rightarrow> ndata a | None \<Rightarrow> NULL)"
proof -
  note G = tree_getitem_spec [OF T, of k]
  have "tree_search t k s = Some (case lookup tr k of Some a \<Rightarrow> (ndata a, NULL)
    | None \<Rightarrow> (NULL, if tr = \<langle>\<rangle> then NULL else place tr k NULL)) \<and>
    tree_find t k s = Some (case lookup tr k of Some a \<Rightarrow> ndata a | None \<Rightarrow> NULL)"
  proof (cases "lookup tr k")
    case None
    show ?thesis
    proof (cases "tr = \<langle>\<rangle>")
      case True
      then show ?thesis using G by (simp add: tree_search_def tree_find_def)
    next
      case False
      obtain b where b: "b \<in> set_tree tr" "place tr k NULL = naddr b" "nkey b \<noteq> k"
        using place_lookup_None [OF None False] by blast
      obtain pl pr where "titems s (naddr b) = Some \<lparr>root = t, key = nkey b, left = pl, right = pr, tlength = nlen b, data = ndata b\<rparr>"
        "naddr b \<noteq> NULL" using tree_item [OF T b(1)] by blast
      then show ?thesis using G b(2,3) None False by (simp add: tree_search_def tree_find_def)
    qed
  next
    case (Some a)
    have a: "a \<in> set_tree tr" "nkey a = k" using lookup_Some [OF Some] by auto
    obtain pl pr where "titems s (naddr a) = Some \<lparr>root = t, key = nkey a, left = pl, right = pr, tlength = nlen a, data = ndata a\<rparr>"
      "naddr a \<noteq> NULL" using tree_item [OF T a(1)] by blast
    then show ?thesis using G Some place_lookup_Some [OF Some] a(2)
      by (simp add: tree_search_def tree_find_def)
  qed
  then show "tree_search t k s = Some (case lookup tr k of Some a \<Rightarrow> (ndata a, NULL)
    | None \<Rightarrow> (NULL, if tr = \<langle>\<rangle> then NULL else place tr k NULL))"
    "tree_find t k s = Some (case lookup tr k of Some a \<Rightarrow> ndata a | None \<Rightarrow> NULL)" by auto
qed

subsection \<open>Creating and updating\<close>

lemma tree_create_spec:
  assumes "gm_sound (osalloc e) (useranswer e) h (gm s) A"
  shows "\<exists>t s'. tree_create e h s = Some (t, s') \<and> t \<noteq> NULL \<and> A t = None \<and>
    tree_ok e s' t h \<langle>\<rangle> (A(t \<mapsto> sizeof_tree)) \<and> tblocks s' = tblocks s"
proof -
  obtain p g where p: "tget e h sizeof_tree s = Some (p, s\<lparr>gm := g\<rparr>)" "p \<noteq> NULL" "A p = None"
    "gm_sound (osalloc e) (useranswer e) h g (A(p \<mapsto> sizeof_tree))"
    using tget_spec [OF assms struct_sizes(1,2)] by blast
  let ?s = "s\<lparr>gm := g, troots := (troots s)(p \<mapsto> \<lparr>hHeap = h, first = NULL\<rparr>)\<rparr>"
  have "tree_create e h s = Some (p, ?s)" using p(1,2) by (simp add: tree_create_def)
  moreover have "tree_ok e ?s p h \<langle>\<rangle> (A(p \<mapsto> sizeof_tree))" using p by (simp add: tree_ok_def)
  ultimately show ?thesis using p(2,3) by (intro exI [of _ p] exI [of _ ?s]) simp
qed

text \<open>A new key.\<close>

lemma tree_update_new:
  assumes T: "tree_ok e s t h tr A" and Lk: "lookup tr k = None" and len: "1 \<le> len" "len \<le> MAXGALLOC"
  shows "\<exists>n s'. tree_update e t k val len s = Some (ndata n, s') \<and> nkey n = k \<and> nlen n = len \<and>
    added e s t h tr A n val s'"
proof (cases "tr = \<langle>\<rangle>")
  case True
  then have G: "tree_getitem t k s = Some NULL" using tree_getitem_spec [OF T, of k] by simp
  have "tree_update e t k val len s = tree_addafter e t NULL k val len s"
    by (simp add: tree_update_def tree_addafter_def G)
  then show ?thesis using tree_addafter_spec [OF T Lk len, of NULL val] True by simp
next
  case False
  let ?P = "place tr k NULL"
  obtain b where b: "b \<in> set_tree tr" "?P = naddr b" "nkey b \<noteq> k" using place_lookup_None [OF Lk False] by blast
  obtain pl pr where "titems s ?P = Some \<lparr>root = t, key = nkey b, left = pl, right = pr, tlength = nlen b, data = ndata b\<rparr>"
    "?P \<noteq> NULL" using tree_item [OF T b(1)] b(2) by auto
  then have "tree_update e t k val len s = tree_addafter e t ?P k val len s"
    using b(3) by (simp add: tree_update_def tree_getitem_spec [OF T])
  then show ?thesis using tree_addafter_spec [OF T Lk len, of ?P val] False by simp
qed

text \<open>A key that is there, with a value of the same length: the block is overwritten.\<close>

lemma tree_ok_blocks:
  assumes "tree_ok e s t h tr A" "\<And>a. tblocks s' a = None \<longleftrightarrow> tblocks s a = None"
    and "gm s' = gm s" "troots s' = troots s" "titems s' = titems s"
  shows "tree_ok e s' t h tr A"
  using assms by (simp add: tree_ok_def node_ok_def)

lemma tree_update_same:
  assumes T: "tree_ok e s t h tr A" and Lk: "lookup tr k = Some a" and len: "0 < nlen a"
  shows "\<exists>s'. tree_update e t k val (nlen a) s = Some (ndata a, s') \<and> tree_ok e s' t h tr A \<and>
    tblocks s' = (case val of None \<Rightarrow> tblocks s | Some v \<Rightarrow> (tblocks s)(ndata a \<mapsto> Some v))"
proof -
  have a: "a \<in> set_tree tr" "nkey a = k" using lookup_Some [OF Lk] by auto
  obtain pl pr where i: "titems s (naddr a) = Some \<lparr>root = t, key = nkey a, left = pl, right = pr, tlength = nlen a, data = ndata a\<rparr>"
    "naddr a \<noteq> NULL" using tree_item [OF T a(1)] by blast
  have blk: "tblocks s (ndata a) \<noteq> None" using T a(1) by (auto simp: tree_ok_def node_ok_def)
  let ?s' = "case val of None \<Rightarrow> s | Some v \<Rightarrow> s\<lparr>tblocks := (tblocks s)(ndata a \<mapsto> Some v)\<rparr>"
  have "tree_update e t k val (nlen a) s = Some (ndata a, ?s')"
    using i a(2) blk len
    by (cases val) (simp_all add: tree_update_def tree_getitem_spec [OF T] place_lookup_Some [OF Lk] memcpy_def)
  moreover have "tree_ok e ?s' t h tr A"
    by (rule tree_ok_blocks [OF T]) (use blk in \<open>auto split: option.splits\<close>)
  ultimately show ?thesis by (cases val) auto
qed

text \<open>A key that is there, with a value of another length: the block is replaced by one of
  the new length, but the item keeps the old length.\<close>

lemma tree_update_resize:
  assumes T: "tree_ok e s t h tr A" and Lk: "lookup tr k = Some a" and len: "1 \<le> len" "len \<le> MAXGALLOC" "len \<noteq> nlen a"
  shows "\<exists>d s' i. tree_update e t k val len s = Some (d, s') \<and> d \<noteq> NULL \<and>
    gm_sound (osalloc e) (useranswer e) h (gm s') (A(ndata a := None, d \<mapsto> len)) \<and>
    titems s' (naddr a) = Some i \<and> data i = d \<and> tlength i = nlen a \<and> tblocks s' d = Some val \<and>
    (A(ndata a := None)) d = None \<and> tblocks s' = (tblocks s)(ndata a := None, d \<mapsto> val) \<and> troots s' = troots s \<and>
    titems s' = (titems s)(naddr a \<mapsto> (the (titems s (naddr a)))\<lparr>data := d\<rparr>)"
proof -
  have a: "a \<in> set_tree tr" "nkey a = k" using lookup_Some [OF Lk] by auto
  obtain pl pr where i: "titems s (naddr a) = Some \<lparr>root = t, key = nkey a, left = pl, right = pr, tlength = nlen a, data = ndata a\<rparr>"
    "naddr a \<noteq> NULL" using tree_item [OF T a(1)] by blast
  obtain p where p: "troots s t = Some \<lparr>hHeap = h, first = p\<rparr>" and G: "gm_sound (osalloc e) (useranswer e) h (gm s) A"
    and Ad: "A (ndata a) = Some (nlen a)" using T a(1) by (auto simp: tree_ok_def node_ok_def)
  obtain g1 where g1: "tfree h (ndata a) (nlen a) s = Some (s\<lparr>gm := g1\<rparr>)"
    "gm_sound (osalloc e) (useranswer e) h g1 (A(ndata a := None))" using tfree_spec [OF G Ad] by blast
  let ?s1 = "s\<lparr>gm := g1, tblocks := (tblocks s)(ndata a := None)\<rparr>"
  have "gm_sound (osalloc e) (useranswer e) h (gm ?s1) (A(ndata a := None))" using g1(2) by simp
  from tget_spec [OF this len(1,2)] obtain d g2 where d: "tget e h len ?s1 = Some (d, ?s1\<lparr>gm := g2\<rparr>)" "d \<noteq> NULL"
    "gm_sound (osalloc e) (useranswer e) h g2 (A(ndata a := None, d \<mapsto> len))" "(A(ndata a := None)) d = None" by blast
  let ?i = "\<lparr>root = t, key = nkey a, left = pl, right = pr, tlength = nlen a, data = d\<rparr>"
  let ?s' = "?s1\<lparr>gm := g2, tblocks := (tblocks ?s1)(d \<mapsto> val), titems := (titems s)(naddr a \<mapsto> ?i)\<rparr>"
  have "tree_update e t k val len s = Some (d, ?s')"
    using i a(2) p g1(1) d(1,2) len
    by (cases val) (simp_all add: tree_update_def tree_getitem_spec [OF T] place_lookup_Some [OF Lk] memcpy_def
        free_block_of_def get_block_def wr_titem_def)
  then show ?thesis using d(2-4) i(1) by (intro exI [of _ d] exI [of _ ?s'] exI [of _ ?i]) simp
qed

text \<open>Look-up sees the keys and the links of the items only.\<close>

lemma getitem_loop_same:
  assumes "trep it t p tr"
    and "\<And>x i. it x = Some i \<Longrightarrow> \<exists>j. titems s x = Some j \<and> key j = key i \<and> left j = left i \<and> right j = right i"
  shows "getitem_loop k p prev s = Some (place tr k prev)"
  using assms(1)
proof (induction tr arbitrary: p prev)
  case (Node l a r)
  from Node.prems obtain pl pr where P: "it p = Some \<lparr>root = t, key = nkey a, left = pl, right = pr,
      tlength = nlen a, data = ndata a\<rparr>" "trep it t pl l" "trep it t pr r" "p = naddr a" "p \<noteq> NULL" by auto
  obtain j where "titems s p = Some j" "key j = nkey a" "left j = pl" "right j = pr" using assms(2) [OF P(1)] by auto
  with P Node.IH show ?case by (subst getitem_loop.simps) simp
qed (subst getitem_loop.simps, simp)

text \<open>After a block was replaced its key is found at the new one, every other key where it was.\<close>

lemma tree_find_replaced:
  assumes T: "tree_ok e s t h tr A" and Lk: "lookup tr k = Some a" and R: "troots s' = troots s"
    and I: "titems s' = (titems s)(naddr a \<mapsto> (the (titems s (naddr a)))\<lparr>data := d\<rparr>)"
  shows "tree_find t k' s' = (if k' = k then Some d else tree_find t k' s)"
proof -
  have a: "a \<in> set_tree tr" "nkey a = k" using lookup_Some [OF Lk] by auto
  obtain pl pr where i: "titems s (naddr a) = Some \<lparr>root = t, key = nkey a, left = pl, right = pr, tlength = nlen a, data = ndata a\<rparr>"
    "naddr a \<noteq> NULL" using tree_item [OF T a(1)] by blast
  obtain p where p: "troots s t = Some \<lparr>hHeap = h, first = p\<rparr>" "trep (titems s) t p tr" using T by (auto simp: tree_ok_def)
  have "getitem_loop k' p NULL s' = Some (place tr k' NULL)"
    by (rule getitem_loop_same [OF p(2)]) (use i(1) in \<open>auto simp: I\<close>)
  then have G: "tree_getitem t k' s' = Some (place tr k' NULL)" using p R by (simp add: tree_getitem_def)
  show ?thesis
  proof (cases "k' = k")
    case True
    then have "place tr k' NULL = naddr a" using place_lookup_Some [OF Lk] by simp
    then show ?thesis using G True i a(2) by (simp add: tree_find_def I)
  next
    case False
    then show ?thesis using G i a(2) by (cases "place tr k' NULL = naddr a")
      (simp_all add: tree_find_def I tree_getitem_spec [OF T])
  qed
qed

text \<open>What \<open>tree_update\<close> makes of the users' blocks.\<close>

definition updated_blocks :: "(ptr \<rightharpoonup> 'v option) \<Rightarrow> node tree \<Rightarrow> treekey \<Rightarrow> 'v option \<Rightarrow> nat \<Rightarrow> ptr \<Rightarrow> (ptr \<rightharpoonup> 'v option)" where
  "updated_blocks B tr k val len p = (case lookup tr k of
      None \<Rightarrow> B(p \<mapsto> val)
    | Some a \<Rightarrow> if nlen a \<noteq> len then B(ndata a := None, p \<mapsto> val)
        else case val of None \<Rightarrow> B | Some v \<Rightarrow> B(p \<mapsto> Some v))"

text \<open>What becomes of the pieces: a new key takes a node \<open>c\<close> and a block, a key that is
  there gives its block back for the new one.\<close>

definition updated_pieces :: "pieces \<Rightarrow> node tree \<Rightarrow> treekey \<Rightarrow> nat \<Rightarrow> ptr \<Rightarrow> ptr \<Rightarrow> pieces" where
  "updated_pieces A tr k len c p = (case lookup tr k of
      None \<Rightarrow> A(c \<mapsto> sizeof_treeitem, p \<mapsto> len)
    | Some a \<Rightarrow> A(ndata a := None, p \<mapsto> len))"

definition updated :: "genv \<Rightarrow> 'v tstate \<Rightarrow> ptr \<Rightarrow> nat \<Rightarrow> node tree \<Rightarrow> pieces \<Rightarrow> treekey \<Rightarrow> 'v option \<Rightarrow> nat \<Rightarrow> ptr \<Rightarrow> 'v tstate \<Rightarrow> bool" where
  "updated e s t h tr A k val len p s' \<longleftrightarrow> p \<noteq> NULL \<and> tblocks s' = updated_blocks (tblocks s) tr k val len p \<and>
     (\<forall>b \<in> set_tree tr. nkey b \<noteq> k \<longrightarrow> ndata b \<noteq> p \<and> tblocks s' (ndata b) = tblocks s (ndata b)) \<and>
     (\<forall>k'. tree_find t k' s' = (if k' = k then Some p else tree_find t k' s)) \<and>
     (\<exists>c. (lookup tr k = None \<longrightarrow> A c = None \<and> A p = None \<and> c \<noteq> p) \<and>
       gm_sound (osalloc e) (useranswer e) h (gm s') (updated_pieces A tr k len c p) \<and>
       ((\<forall>a. lookup tr k = Some a \<longrightarrow> nlen a = len) \<longrightarrow> (\<exists>tr'. tree_ok e s' t h tr' (updated_pieces A tr k len c p))))"

lemma tree_update_spec:
  assumes T: "tree_ok e s t h tr A" and len: "1 \<le> len" "len \<le> MAXGALLOC"
  shows "\<exists>p s'. tree_update e t k val len s = Some (p, s') \<and> updated e s t h tr A k val len p s'"
proof -
  have used: "A (ndata b) = Some (nlen b)" "ndata b \<noteq> NULL" if "b \<in> set_tree tr" for b
    using T that by (simp_all add: tree_ok_def node_ok_def)
  have D: "distinct (datas tr)" and K: "keys_bst tr" using T by (simp_all add: tree_ok_def)
  show ?thesis
  proof (cases "lookup tr k")
    case None
    obtain n s' where n: "tree_update e t k val len s = Some (ndata n, s')" "nkey n = k" "nlen n = len"
      "added e s t h tr A n val s'" using tree_update_new [OF T None len] by blast
    let ?A = "A(naddr n \<mapsto> sizeof_treeitem, ndata n \<mapsto> nlen n)"
    have T': "tree_ok e s' t h (ins tr n) ?A" and B: "tblocks s' = (tblocks s)(ndata n \<mapsto> val)"
      and new: "A (naddr n) = None" "A (ndata n) = None" using n(4) by (simp_all add: added_def)
    have ok: "node_ok s' ?A n" "distinct (addrs (ins tr n) @ datas (ins tr n))" using T' by (simp_all add: tree_ok_def)
    have "mset (addrs (ins tr n) @ datas (ins tr n)) = mset (naddr n # ndata n # addrs tr @ datas tr)" by (simp add: ins_mset)
    then have "naddr n \<noteq> ndata n" using ok(2) mset_eq_imp_distinct_iff by (metis distinct_length_2_or_more)
    moreover have L: "lookup (ins tr n) k' = (if k' = k then Some n else lookup tr k')" for k'
      using lookup_ins [OF K, of n k'] n(2) None by simp
    have "tree_find t k' s' = (if k' = k then Some (ndata n) else tree_find t k' s)" for k'
      using tree_search_spec(2) [OF T', of k'] tree_search_spec(2) [OF T, of k'] unfolding L by simp
    moreover have "ndata b \<noteq> ndata n" if "b \<in> set_tree tr" for b using used(1) [OF that] new(2) by auto
    moreover have "gm_sound (osalloc e) (useranswer e) h (gm s') ?A" using T' by (simp add: tree_ok_def)
    moreover have "ndata n \<noteq> NULL" using ok(1) by (simp add: node_ok_def)
    ultimately have "updated e s t h tr A k val len (ndata n) s'"
      unfolding updated_def updated_blocks_def updated_pieces_def None using B new n(3) T' by auto
    then show ?thesis using n(1) by blast
  next
    case (Some a)
    have a: "a \<in> set_tree tr" "nkey a = k" using lookup_Some [OF Some] by auto
    have apart: "ndata b \<noteq> ndata a" if "b \<in> set_tree tr" "nkey b \<noteq> k" for b
    proof -
      have "inj_on ndata (set_tree tr)" using D by (simp add: datas_def distinct_map)
      then show ?thesis using that a by (auto dest: inj_onD)
    qed
    show ?thesis
    proof (cases "nlen a = len")
      case True
      obtain s' where s': "tree_update e t k val len s = Some (ndata a, s')" "tree_ok e s' t h tr A"
        "tblocks s' = (case val of None \<Rightarrow> tblocks s | Some v \<Rightarrow> (tblocks s)(ndata a \<mapsto> Some v))"
        using tree_update_same [OF T Some, of val] True len by auto
      have "tree_find t k' s' = (if k' = k then Some (ndata a) else tree_find t k' s)" for k'
        using tree_search_spec(2) [OF s'(2), of k'] tree_search_spec(2) [OF T, of k'] Some by simp
      moreover have "A(ndata a := None, ndata a \<mapsto> len) = A" using used(1) [OF a(1)] True by auto
      moreover have "gm_sound (osalloc e) (useranswer e) h (gm s') A" using s'(2) by (simp add: tree_ok_def)
      moreover have "tblocks s' (ndata b) = tblocks s (ndata b)" if "b \<in> set_tree tr" "nkey b \<noteq> k" for b
        using apart [OF that] s'(3) by (simp split: option.splits)
      ultimately have "updated e s t h tr A k val len (ndata a) s'"
        unfolding updated_def updated_blocks_def updated_pieces_def Some
        using s'(2,3) used(2) [OF a(1)] apart True by (auto split: option.splits)
      then show ?thesis using s'(1) by blast
    next
      case False
      obtain d s' where d: "tree_update e t k val len s = Some (d, s')" "d \<noteq> NULL"
        "gm_sound (osalloc e) (useranswer e) h (gm s') (A(ndata a := None, d \<mapsto> len))" "(A(ndata a := None)) d = None"
        "tblocks s' = (tblocks s)(ndata a := None, d \<mapsto> val)" "troots s' = troots s"
        "titems s' = (titems s)(naddr a \<mapsto> (the (titems s (naddr a)))\<lparr>data := d\<rparr>)"
        using tree_update_resize [OF T Some len False [symmetric], of val] by blast
      have "ndata b \<noteq> d" if "b \<in> set_tree tr" "nkey b \<noteq> k" for b
        using d(4) used(1) [OF that(1)] apart [OF that] by auto
      then have "updated e s t h tr A k val len d s'"
        unfolding updated_def updated_blocks_def updated_pieces_def Some
        using d apart False tree_find_replaced [OF T Some d(6,7)] by simp
      then show ?thesis using d(1) by blast
    qed
  qed
qed

subsection \<open>Deleting\<close>

definition without :: "pieces \<Rightarrow> ptr list \<Rightarrow> pieces" where
  "without A ps = (\<lambda>p. if p \<in> set ps then None else A p)"

lemma without_simps [simp]:
  "without A [] = A" "without (A(p := None)) ps = without A (p # ps)" "without (without A ps) qs = without A (ps @ qs)"
  by (auto simp: without_def)

lemma without_set: "set ps = set qs \<Longrightarrow> without A ps = without A qs"
  by (simp add: without_def)

text \<open>Everything of the tree is given back to the heap, and nothing else is touched.\<close>

lemma tree_delitem_spec:
  assumes "trep (titems s) t p tr" "gm_sound (osalloc e) (useranswer e) h (gm s) A"
    and "troots s t = Some \<lparr>hHeap = h, first = f\<rparr>" "distinct (addrs tr @ datas tr)" "\<And>a. a \<in> set_tree tr \<Longrightarrow> node_ok s A a"
  shows "\<exists>s'. tree_delitem p s = Some s' \<and> gm_sound (osalloc e) (useranswer e) h (gm s') (without A (addrs tr @ datas tr)) \<and>
    troots s' = troots s \<and> (\<forall>x. titems s' x = (if x \<in> set (addrs tr) then None else titems s x)) \<and>
    (\<forall>x. tblocks s' x = (if x \<in> set (datas tr) then None else tblocks s x)) \<and> tmsgs s' = tmsgs s"
  using assms
proof (induction tr arbitrary: p s A)
  case Leaf
  then show ?case by (subst tree_delitem.simps) simp
next
  case (Node l a r)
  from Node.prems(1) obtain pl pr where P: "p = naddr a" "p \<noteq> NULL" "titems s p = Some \<lparr>root = t, key = nkey a, left = pl,
      right = pr, tlength = nlen a, data = ndata a\<rparr>" "trep (titems s) t pl l" "trep (titems s) t pr r" by auto
  have D: "distinct (addrs l @ datas l)" "distinct (addrs r @ datas r)"
    "set (addrs l @ datas l) \<inter> set (addrs r @ datas r) = {}"
    "naddr a \<notin> set (addrs l @ datas l)" "naddr a \<notin> set (addrs r @ datas r)" "naddr a \<noteq> ndata a"
    "ndata a \<notin> set (addrs l @ datas l)" "ndata a \<notin> set (addrs r @ datas r)" using Node.prems(4) by auto
  have okl: "\<And>x. x \<in> set_tree l \<Longrightarrow> node_ok s A x" and okr: "\<And>x. x \<in> set_tree r \<Longrightarrow> node_ok s A x"
    and oka: "node_ok s A a" using Node.prems(5) by auto
  have skip: "(if q \<noteq> NULL then tree_delitem q u else Some u) = tree_delitem q u" for q and u :: "'a tstate"
    by (simp add: tree_delitem.simps)
  obtain s1 where s1: "tree_delitem pl s = Some s1" "gm_sound (osalloc e) (useranswer e) h (gm s1) (without A (addrs l @ datas l))"
    "troots s1 = troots s" "\<And>x. titems s1 x = (if x \<in> set (addrs l) then None else titems s x)"
    "\<And>x. tblocks s1 x = (if x \<in> set (datas l) then None else tblocks s x)" "tmsgs s1 = tmsgs s"
    using Node.IH(1) [OF P(4) Node.prems(2,3) D(1) okl] by blast
  let ?A1 = "without A (addrs l @ datas l)"
  have ok1: "node_ok s1 ?A1 x" if "x \<in> set_tree r \<or> x = a" for x
  proof -
    have "naddr x \<notin> set (addrs l @ datas l)" "ndata x \<notin> set (addrs l @ datas l)"
      using that D by (auto simp: set_addrs)
    moreover have "node_ok s A x" using that okr oka by auto
    ultimately show ?thesis using s1(5) by (simp add: node_ok_def without_def)
  qed
  have rep1: "trep (titems s1) t pr r" by (rule trep_cong [OF P(5)]) (use D s1(4) in auto)
  have tr1: "troots s1 t = Some \<lparr>hHeap = h, first = f\<rparr>" using s1(3) Node.prems(3) by simp
  obtain s2 where s2: "tree_delitem pr s1 = Some s2" "gm_sound (osalloc e) (useranswer e) h (gm s2) (without ?A1 (addrs r @ datas r))"
    "troots s2 = troots s1" "\<And>x. titems s2 x = (if x \<in> set (addrs r) then None else titems s1 x)"
    "\<And>x. tblocks s2 x = (if x \<in> set (datas r) then None else tblocks s1 x)" "tmsgs s2 = tmsgs s1"
    using Node.IH(2) [OF rep1 s1(2) tr1 D(2) ok1] by blast
  let ?A2 = "without ?A1 (addrs r @ datas r)"
  have A2: "?A2 (ndata a) = Some (nlen a)" "?A2 (naddr a) = Some sizeof_treeitem" "ndata a \<noteq> NULL"
    using oka D by (auto simp: node_ok_def without_def)
  obtain g3 where g3: "tfree h (ndata a) (nlen a) s2 = Some (s2\<lparr>gm := g3\<rparr>)"
    "gm_sound (osalloc e) (useranswer e) h g3 (?A2(ndata a := None))" using tfree_spec [OF s2(2) A2(1)] by blast
  let ?s3 = "s2\<lparr>gm := g3, tblocks := (tblocks s2)(ndata a := None)\<rparr>"
  have G3: "gm_sound (osalloc e) (useranswer e) h (gm ?s3) (?A2(ndata a := None))" using g3(2) by simp
  have "(?A2(ndata a := None)) (naddr a) = Some sizeof_treeitem" using A2(2) D(6) by simp
  from tfree_spec [OF G3 this] obtain g4 where g4: "tfree h (naddr a) sizeof_treeitem ?s3 = Some (?s3\<lparr>gm := g4\<rparr>)"
    "gm_sound (osalloc e) (useranswer e) h g4 (?A2(ndata a := None, naddr a := None))" by blast
  let ?s' = "?s3\<lparr>gm := g4, titems := (titems s2)(naddr a := None)\<rparr>"
  have items: "titems s1 p = titems s p" "titems s2 p = titems s p"
    using s1(4) [of p] s2(4) [of p] D P(1) by auto
  have "tree_delitem p s = Some ?s'"
    using P(2,3) items s1(1) s2(1,3) tr1 g3(1) g4(1) A2(3) s1(3)
    by (subst tree_delitem.simps) (simp add: skip free_block_of_def P(1))
  moreover have "?A2(ndata a := None, naddr a := None) = without A (addrs \<langle>l, a, r\<rangle> @ datas \<langle>l, a, r\<rangle>)"
    by (auto simp: without_def)
  ultimately show ?case
    using g4(2) s1(3-6) s2(3-6) by (intro exI [of _ ?s']) auto
qed

text \<open>\<open>foot t tr\<close>: the pieces of a tree; \<open>others s s' A F\<close>: outside \<open>F\<close> the pieces in
  use are left alone.\<close>

definition foot :: "ptr \<Rightarrow> node tree \<Rightarrow> ptr set" where
  "foot t tr = set (t # addrs tr @ datas tr)"

definition others :: "'v tstate \<Rightarrow> 'v tstate \<Rightarrow> pieces \<Rightarrow> ptr set \<Rightarrow> bool" where
  "others s s' A F \<longleftrightarrow> (\<forall>x. A x \<noteq> None \<longrightarrow> x \<notin> F \<longrightarrow>
     titems s' x = titems s x \<and> tblocks s' x = tblocks s x \<and> troots s' x = troots s x)"

lemma foot_used: "tree_ok e s t h tr A \<Longrightarrow> x \<in> foot t tr \<Longrightarrow> A x \<noteq> None"
  by (auto simp: foot_def tree_ok_def set_addrs node_ok_def)

lemma tree_delete_spec:
  assumes T: "tree_ok e s t h tr A"
  shows "\<exists>s'. tree_delete t s = Some s' \<and>
    gm_sound (osalloc e) (useranswer e) h (gm s') (without A (t # addrs tr @ datas tr)) \<and> troots s' t = None \<and>
    (\<forall>x. tblocks s' x = (if x \<in> set (datas tr) then None else tblocks s x)) \<and> others s s' A (foot t tr) \<and>
    (\<forall>x. titems s' x = (if x \<in> set (addrs tr) then None else titems s x)) \<and> (\<forall>x. x \<noteq> t \<longrightarrow> troots s' x = troots s x)"
proof -
  obtain p where p: "troots s t = Some \<lparr>hHeap = h, first = p\<rparr>" "trep (titems s) t p tr" using T by (auto simp: tree_ok_def)
  have G: "gm_sound (osalloc e) (useranswer e) h (gm s) A" and D: "distinct (t # addrs tr @ datas tr)"
    and At: "A t = Some sizeof_tree" and ok: "\<And>a. a \<in> set_tree tr \<Longrightarrow> node_ok s A a" using T by (auto simp: tree_ok_def)
  have D': "distinct (addrs tr @ datas tr)" using D by simp
  obtain s1 where s1: "tree_delitem p s = Some s1"
    "gm_sound (osalloc e) (useranswer e) h (gm s1) (without A (addrs tr @ datas tr))" "troots s1 = troots s"
    "\<And>x. titems s1 x = (if x \<in> set (addrs tr) then None else titems s x)"
    "\<And>x. tblocks s1 x = (if x \<in> set (datas tr) then None else tblocks s x)"
    using tree_delitem_spec [OF p(2) G p(1) D' ok] by blast
  have "without A (addrs tr @ datas tr) t = Some sizeof_tree" using At D by (simp add: without_def)
  from tfree_spec [OF s1(2) this] obtain g where g: "tfree h t sizeof_tree s1 = Some (s1\<lparr>gm := g\<rparr>)"
    "gm_sound (osalloc e) (useranswer e) h g ((without A (addrs tr @ datas tr))(t := None))" by blast
  have "(without A (addrs tr @ datas tr))(t := None) = without A (t # addrs tr @ datas tr)"
    by (auto simp: without_def)
  then show ?thesis using p(1) s1 g by (simp add: tree_delete_def others_def foot_def)
qed

subsection \<open>Counting trees\<close>

text \<open>\<open>ctree_ok e s t h tr A us\<close>: the tree holds the insertions \<open>us\<close>.  Every block holds the
  number of insertions of its key and the value of the first one.\<close>

definition times :: "(treekey \<times> 'u option) list \<Rightarrow> treekey \<Rightarrow> nat" where
  "times us k = count_list (map fst us) k"

definition ctree_ok :: "genv \<Rightarrow> 'u cval tstate \<Rightarrow> ptr \<Rightarrow> nat \<Rightarrow> node tree \<Rightarrow> pieces \<Rightarrow> (treekey \<times> 'u option) list \<Rightarrow> bool" where
  "ctree_ok e s t h tr A us \<longleftrightarrow> tree_ok e s t h tr A \<and> nkey ` set_tree tr = fst ` set us \<and>
     (\<forall>a \<in> set_tree tr. tblocks s (ndata a) = Some (Some (of_nat (times us (nkey a)), the (map_of us (nkey a)))))"

lemma ctree_lookup_None: "ctree_ok e s t h tr A us \<Longrightarrow> lookup tr k = None \<longleftrightarrow> k \<notin> fst ` set us"
  using lookup_None [of tr k] by (simp add: ctree_ok_def tree_ok_def)

lemma times_0: "times us k = 0 \<longleftrightarrow> k \<notin> fst ` set us"
  by (simp add: times_def count_list_0_iff)

lemma ctree_create_spec:
  assumes "gm_sound (osalloc e) (useranswer e) h (gm s) A"
  shows "\<exists>t s'. ctree_create e h s = Some (t, s') \<and> A t = None \<and> ctree_ok e s' t h \<langle>\<rangle> (A(t \<mapsto> sizeof_tree)) [] \<and>
    others s s' A {}"
proof -
  obtain p g where p: "tget e h sizeof_tree s = Some (p, s\<lparr>gm := g\<rparr>)" "p \<noteq> NULL" "A p = None"
    using tget_spec [OF assms struct_sizes(1,2)] by blast
  obtain t s' where t: "tree_create e h s = Some (t, s')" "A t = None" "tree_ok e s' t h \<langle>\<rangle> (A(t \<mapsto> sizeof_tree))"
    using tree_create_spec [OF assms] by blast
  moreover have "others s s' A {}" using t(1) p by (auto simp: tree_create_def others_def)
  ultimately show ?thesis by (auto simp: ctree_create_def ctree_ok_def)
qed

lemma ctree_getcount_spec:
  assumes "ctree_ok e s t h tr A us"
  shows "ctree_getcount t k s = Some (sint (of_nat (times us k) :: 32 word))"
proof -
  have T: "tree_ok e s t h tr A" using assms by (simp add: ctree_ok_def)
  show ?thesis
  proof (cases "lookup tr k")
    case None
    then have "times us k = 0" using ctree_lookup_None [OF assms] times_0 by blast
    then show ?thesis using None tree_search_spec(2) [OF T, of k] by (simp add: ctree_getcount_def)
  next
    case (Some a)
    have a: "a \<in> set_tree tr" "nkey a = k" using lookup_Some [OF Some] by auto
    then have "tblocks s (ndata a) = Some (Some (of_nat (times us k), the (map_of us k)))" using assms by (simp add: ctree_ok_def)
    moreover have "ndata a \<noteq> NULL" using T a(1) by (simp add: tree_ok_def node_ok_def)
    ultimately show ?thesis using Some tree_search_spec(2) [OF T, of k] by (simp add: ctree_getcount_def ld_count_def)
  qed
qed

text \<open>\<open>ctree_find\<close>: the address of the value of the first insertion.\<close>

lemma ctree_find_spec:
  assumes "ctree_ok e s t h tr A us" "k \<in> fst ` set us"
  shows "\<exists>p. ctree_find t k s = Some (p + sizeof_LONG_PTR) \<and> p \<noteq> NULL \<and>
    tblocks s p = Some (Some (of_nat (times us k), the (map_of us k)))"
proof -
  have T: "tree_ok e s t h tr A" using assms by (simp add: ctree_ok_def)
  obtain a where L: "lookup tr k = Some a" using ctree_lookup_None [OF assms(1), of k] assms(2) by auto
  have a: "a \<in> set_tree tr" "nkey a = k" using lookup_Some [OF L] by auto
  have "ndata a \<noteq> NULL" using T a(1) by (simp add: tree_ok_def node_ok_def)
  then show ?thesis using a assms(1) L tree_search_spec(2) [OF T, of k]
    by (intro exI [of _ "ndata a"]) (simp add: ctree_find_def ctree_ok_def)
qed

lemma ctree_find_None:
  assumes "ctree_ok e s t h tr A us" "k \<notin> fst ` set us"
  shows "ctree_find t k s = Some NULL"
proof -
  have "lookup tr k = None" using assms ctree_lookup_None by blast
  then show ?thesis using assms(1) tree_search_spec(2) [of e s t h tr A k] by (simp add: ctree_find_def ctree_ok_def)
qed

text \<open>A tree is not disturbed by what happens to other pieces.\<close>

lemma ctree_frame:
  assumes C: "ctree_ok e s t h tr A us" and O: "others s s' A F" and F: "foot t tr \<inter> F = {}"
    and G: "gm_sound (osalloc e) (useranswer e) h (gm s') A'" and A: "\<And>x. x \<in> foot t tr \<Longrightarrow> A' x = A x"
  shows "ctree_ok e s' t h tr A' us"
proof -
  have T: "tree_ok e s t h tr A" using C by (simp add: ctree_ok_def)
  have same: "titems s' x = titems s x \<and> tblocks s' x = tblocks s x \<and> troots s' x = troots s x" if "x \<in> foot t tr" for x
    using that O F foot_used [OF T that] unfolding others_def by blast
  obtain p where p: "troots s t = Some \<lparr>hHeap = h, first = p\<rparr>" "trep (titems s) t p tr" using T by (auto simp: tree_ok_def)
  have "trep (titems s') t p tr" by (rule trep_cong [OF p(2)]) (use same in \<open>auto simp: foot_def\<close>)
  moreover have "node_ok s' A' a \<and> tblocks s' (ndata a) = tblocks s (ndata a)" if a: "a \<in> set_tree tr" for a
  proof -
    have "naddr a \<in> foot t tr" "ndata a \<in> foot t tr" using a by (simp_all add: foot_def set_addrs)
    moreover have "node_ok s A a" using T a by (simp add: tree_ok_def)
    ultimately show ?thesis using same A by (simp add: node_ok_def)
  qed
  moreover have "t \<in> foot t tr" by (simp add: foot_def)
  ultimately show ?thesis using C G p(1) same A unfolding ctree_ok_def tree_ok_def by auto
qed

text \<open>One insertion.\<close>

definition grown :: "'v tstate \<Rightarrow> 'v tstate \<Rightarrow> ptr \<Rightarrow> node tree \<Rightarrow> node tree \<Rightarrow> pieces \<Rightarrow> pieces \<Rightarrow> bool" where
  "grown s s' t tr tr' A A' \<longleftrightarrow> others s s' A (foot t tr) \<and> foot t tr \<subseteq> foot t tr' \<and> foot t tr' \<subseteq> foot t tr \<union> - dom A \<and>
     (\<forall>x. A x \<noteq> None \<longrightarrow> A' x = A x) \<and> (\<forall>x. x \<notin> foot t tr' \<longrightarrow> A' x = A x)"

lemma grown_trans:
  assumes "grown s s1 t tr tr1 A A1" "grown s1 s2 t tr1 tr2 A1 A2"
  shows "grown s s2 t tr tr2 A A2"
proof -
  have G1: "others s s1 A (foot t tr)" "foot t tr \<subseteq> foot t tr1" "foot t tr1 \<subseteq> foot t tr \<union> - dom A"
    "\<And>x. A x \<noteq> None \<Longrightarrow> A1 x = A x" "\<And>x. x \<notin> foot t tr1 \<Longrightarrow> A1 x = A x" using assms(1) by (auto simp: grown_def)
  have G2: "others s1 s2 A1 (foot t tr1)" "foot t tr1 \<subseteq> foot t tr2" "foot t tr2 \<subseteq> foot t tr1 \<union> - dom A1"
    "\<And>x. A1 x \<noteq> None \<Longrightarrow> A2 x = A1 x" "\<And>x. x \<notin> foot t tr2 \<Longrightarrow> A2 x = A1 x" using assms(2) by (auto simp: grown_def)
  have d: "A1 x \<noteq> None" if "A x \<noteq> None" for x using that G1(4) by simp
  have "others s s2 A (foot t tr)"
    unfolding others_def
  proof (intro allI impI)
    fix x assume x: "A x \<noteq> None" "x \<notin> foot t tr"
    then have "x \<notin> foot t tr1" using G1(3) by blast
    then show "titems s2 x = titems s x \<and> tblocks s2 x = tblocks s x \<and> troots s2 x = troots s x"
      using x G1(1) G2(1) d [OF x(1)] by (simp add: others_def)
  qed
  moreover have "foot t tr2 \<subseteq> foot t tr \<union> - dom A" using G1(3) G2(3) d by blast
  moreover have "A2 x = A x" if "A x \<noteq> None" for x using that G1(4) G2(4) d by simp
  moreover have "A2 x = A x" if "x \<notin> foot t tr2" for x using that G1(5) G2(2,5) by (metis subsetD)
  ultimately show ?thesis using G1(2) G2(2) unfolding grown_def by blast
qed

lemma grown_refl: "grown s s t tr tr A A"
  by (simp add: grown_def others_def)

lemma map_of_snoc: "map_of (us @ [(k, v)]) = (if k \<in> fst ` set us then map_of us else (map_of us)(k \<mapsto> v))"
proof (cases "k \<in> fst ` set us")
  case True
  then have "map_of us k \<noteq> None" by (simp add: map_of_eq_None_iff)
  then show ?thesis using True by (auto simp: fun_eq_iff map_add_def split: option.splits)
next
  case False
  then have "map_of us k = None" by (simp add: map_of_eq_None_iff)
  then show ?thesis using False by (auto simp: fun_eq_iff map_add_def split: option.splits)
qed

lemma ctree_update_spec:
  assumes C: "ctree_ok e s t h tr A us" and len: "len + sizeof_LONG_PTR \<le> MAXGALLOC"
  shows "\<exists>p s' tr' A'. ctree_update e t k val len s = Some (p, s') \<and> ctree_ok e s' t h tr' A' (us @ [(k, val)]) \<and>
    grown s s' t tr tr' A A'"
proof -
  have T: "tree_ok e s t h tr A" using C by (simp add: ctree_ok_def)
  have K: "keys_bst tr" using T by (simp add: tree_ok_def)
  have tm: "times (us @ [(k, val)]) = (times us)(k := times us k + 1)" by (auto simp: times_def)
  show ?thesis
  proof (cases "lookup tr k")
    case None
    then have kn: "k \<notin> fst ` set us" using ctree_lookup_None [OF C] by blast
    let ?P = "if tr = \<langle>\<rangle> then NULL else place tr k NULL"
    have sr: "tree_search t k s = Some (NULL, ?P)" using tree_search_spec(1) [OF T, of k] None by simp
    have l4: "1 \<le> len + sizeof_LONG_PTR" by (simp add: sizeof_LONG_PTR_def)
    obtain n s1 where n: "tree_addafter e t ?P k None (len + sizeof_LONG_PTR) s = Some (ndata n, s1)" "nkey n = k"
      "added e s t h tr A n None s1" using tree_addafter_spec [OF T None l4 len refl, of None] by blast
    let ?A' = "A(naddr n \<mapsto> sizeof_treeitem, ndata n \<mapsto> nlen n)"
    have T1: "tree_ok e s1 t h (ins tr n) ?A'" and B1: "tblocks s1 = (tblocks s)(ndata n \<mapsto> None)"
      and An: "A (ndata n) = None" "A (naddr n) = None" using n(3) by (auto simp: added_def)
    let ?s' = "s1\<lparr>tblocks := (tblocks s1)(ndata n \<mapsto> Some (1, val))\<rparr>"
    have run: "ctree_update e t k val len s = Some (ndata n + sizeof_LONG_PTR, ?s')"
      using sr n(1) B1 by (cases val) (simp_all add: ctree_update_def st_count_def cpy_user_def)
    have T': "tree_ok e ?s' t h (ins tr n) ?A'" by (rule tree_ok_blocks [OF T1]) (auto simp: B1)
    have old: "ndata a \<noteq> ndata n" "nkey a \<noteq> k" if "a \<in> set_tree tr" for a
      using T An that None lookup_None [OF K, of k] by (auto simp: tree_ok_def node_ok_def)
    have c0: "times us k = 0" using kn times_0 by blast
    have "tblocks ?s' (ndata a) = Some (Some (of_nat (times (us @ [(k, val)]) (nkey a)), the (map_of (us @ [(k, val)]) (nkey a))))"
      if "a \<in> set_tree (ins tr n)" for a
    proof (cases "a = n")
      case True
      then show ?thesis using n(2) c0 kn by (simp add: tm map_of_snoc del: map_of_append)
    next
      case False
      then have a: "a \<in> set_tree tr" using that by simp
      then show ?thesis using C old [OF a] B1 kn by (simp add: ctree_ok_def tm map_of_snoc del: map_of_append)
    qed
    moreover have "nkey ` set_tree (ins tr n) = fst ` set (us @ [(k, val)])" using n(2) C by (auto simp: ctree_ok_def)
    ultimately have "ctree_ok e ?s' t h (ins tr n) ?A' (us @ [(k, val)])" using T' by (simp add: ctree_ok_def)
    moreover have "grown s ?s' t tr (ins tr n) A ?A'"
    proof -
      have ft: "foot t (ins tr n) = insert (naddr n) (insert (ndata n) (foot t tr))" by (auto simp: foot_def set_addrs)
      have "others s ?s' A (foot t tr)"
        unfolding others_def
      proof (intro allI impI)
        fix x assume x: "A x \<noteq> None" "x \<notin> foot t tr"
        then have "x \<noteq> naddr n" "x \<noteq> ndata n" "x \<notin> set (addrs tr)" "x \<noteq> t" using An by (auto simp: foot_def)
        then show "titems ?s' x = titems s x \<and> tblocks ?s' x = tblocks s x \<and> troots ?s' x = troots s x"
          using n(3) by (simp add: added_def)
      qed
      then show ?thesis unfolding grown_def ft using An by auto
    qed
    ultimately show ?thesis using run by blast
  next
    case (Some a)
    have a: "a \<in> set_tree tr" "nkey a = k" using lookup_Some [OF Some] by auto
    have kn: "k \<in> fst ` set us" using ctree_lookup_None [OF C, of k] Some by auto
    have sr: "tree_search t k s = Some (ndata a, NULL)" using tree_search_spec(1) [OF T, of k] Some by simp
    have u: "tblocks s (ndata a) = Some (Some (of_nat (times us k), the (map_of us k)))" using C a by (simp add: ctree_ok_def)
    have d0: "ndata a \<noteq> NULL" using T a(1) by (simp add: tree_ok_def node_ok_def)
    let ?s' = "s\<lparr>tblocks := (tblocks s)(ndata a \<mapsto> Some (of_nat (times us k) + 1, the (map_of us k)))\<rparr>"
    have run: "ctree_update e t k val len s = Some (ndata a + sizeof_LONG_PTR, ?s')"
      using sr u d0 by (simp add: ctree_update_def st_count_def ld_count_def)
    have T': "tree_ok e ?s' t h tr A" by (rule tree_ok_blocks [OF T]) (use u in auto)
    have inj: "x = a" if "x \<in> set_tree tr" "nkey x = k" for x
      using lookup_member [OF K that(1)] Some that(2) by simp
    have dinj: "ndata x \<noteq> ndata a" if "x \<in> set_tree tr" "x \<noteq> a" for x
    proof -
      have "distinct (map ndata (inorder tr))" using T by (simp add: tree_ok_def datas_def)
      then have "inj_on ndata (set_tree tr)" by (simp add: distinct_map)
      then show ?thesis using that a(1) by (auto dest: inj_onD)
    qed
    have "tblocks ?s' (ndata x) = Some (Some (of_nat (times (us @ [(k, val)]) (nkey x)), the (map_of (us @ [(k, val)]) (nkey x))))"
      if x: "x \<in> set_tree tr" for x
    proof (cases "x = a")
      case True
      then show ?thesis using a(2) kn by (simp add: tm map_of_snoc add.commute del: map_of_append)
    next
      case False
      then have "nkey x \<noteq> k" using inj x by blast
      then show ?thesis using C x dinj [OF x False] kn by (simp add: ctree_ok_def tm map_of_snoc del: map_of_append)
    qed
    moreover have "nkey ` set_tree tr = fst ` set (us @ [(k, val)])" using kn C by (auto simp: ctree_ok_def)
    ultimately have "ctree_ok e ?s' t h tr A (us @ [(k, val)])" using T' by (simp add: ctree_ok_def)
    moreover have "ndata a \<in> foot t tr" using a(1) by (simp add: foot_def set_addrs)
    then have "grown s ?s' t tr tr A A" by (auto simp: grown_def others_def)
    ultimately show ?thesis using run by blast
  qed
qed

text \<open>A whole sequence of insertions.\<close>

fun ctree_updates :: "genv \<Rightarrow> ptr \<Rightarrow> (treekey \<times> 'u option \<times> nat) list \<Rightarrow> 'u cval tstate \<Rightarrow> 'u cval tstate option" where
  "ctree_updates e t [] s = Some s"
| "ctree_updates e t ((k, val, len) # us) s = do { (p, s) \<leftarrow> ctree_update e t k val len s; ctree_updates e t us s }"

lemma ctree_updates_spec:
  assumes "ctree_ok e s t h tr A vs" "\<And>k v n. (k, v, n) \<in> set us \<Longrightarrow> n + sizeof_LONG_PTR \<le> MAXGALLOC"
  shows "\<exists>s' tr' A'. ctree_updates e t us s = Some s' \<and> ctree_ok e s' t h tr' A' (vs @ map (\<lambda>(k, v, n). (k, v)) us)"
  using assms
proof (induction us arbitrary: s tr A vs)
  case Nil
  then show ?case by auto
next
  case (Cons u us)
  obtain k v n where u: "u = (k, v, n)" by (cases u)
  then have "n + sizeof_LONG_PTR \<le> MAXGALLOC" using Cons.prems(2) [of k v n] by simp
  from ctree_update_spec [OF Cons.prems(1) this, of k v] obtain p s1 tr1 A1 where
    s1: "ctree_update e t k v n s = Some (p, s1)" "ctree_ok e s1 t h tr1 A1 (vs @ [(k, v)])" by blast
  obtain s2 tr2 A2 where s2: "ctree_updates e t us s1 = Some s2"
    "ctree_ok e s2 t h tr2 A2 ((vs @ [(k, v)]) @ map (\<lambda>(k, v, n). (k, v)) us)"
    using Cons.IH [OF s1(2)] Cons.prems(2) by force
  with s1(1) show ?case by (auto simp: u)
qed

end
