(* ===== verification/Gutils_Properties.thy ===== *)
theory Gutils_Properties
  imports Gutils_List_Ample Gutils_Tree_Correct
begin

text \<open>
  What the library modules \<open>list.c\<close>, \<open>gbit.c\<close>, \<open>gmem.c\<close> and \<open>tree.c\<close>
  promise, stated over their models, each with an instance on a concrete state.
\<close>

subsection \<open>Sample states\<close>

lemma sample_lists:
  "\<exists>(s :: 'd lheap) L a b p q r. wf s L \<and> L a = Some [p, q] \<and> L b = Some [r] \<and> a \<noteq> b"
proof -
  obtain a and s1 :: "'d lheap" where a: "created lheap_start Map.empty a s1"
    using List_Create_ample [OF wf_start roomy_ample] by blast
  then have W1: "wf s1 [a \<mapsto> []]" by (simp add: created_def)
  obtain b and s2 where b: "created s1 [a \<mapsto> []] b s2" using List_Create_ample [OF W1 roomy_ample] by blast
  then have ne: "a \<noteq> b" and W2: "wf s2 [a \<mapsto> [], b \<mapsto> []]"
    using in_cellsI [of "[a \<mapsto> []]" a "[]" a] by (auto simp: created_def)
  have L1: "[a \<mapsto> [], b \<mapsto> []] a = Some []" and L2: "[a \<mapsto> [x], b \<mapsto> []] a = Some [x]"
    and L3: "[a \<mapsto> [x, y], b \<mapsto> []] b = Some []" for x y using ne by simp_all
  obtain p s3 where "inserted s2 [a \<mapsto> [], b \<mapsto> []] a [] [] 4 None p s3"
    using List_NewLast_ample [OF W2 L1 roomy_ample, where n = 4] by blast
  then have W3: "wf s3 [a \<mapsto> [p], b \<mapsto> []]" using ne by (simp add: inserted_def fun_upd_twist)
  obtain q s4 where "inserted s3 [a \<mapsto> [p], b \<mapsto> []] a [p] [] 4 None q s4"
    using List_NewLast_ample [OF W3 L2 roomy_ample, where n = 4] by blast
  then have W4: "wf s4 [a \<mapsto> [p, q], b \<mapsto> []]" using ne by (simp add: inserted_def fun_upd_twist)
  obtain r s5 where "inserted s4 [a \<mapsto> [p, q], b \<mapsto> []] b [] [] 4 None r s5"
    using List_NewLast_ample [OF W4 L3 roomy_ample, where n = 4] by blast
  then have "wf s5 [a \<mapsto> [p, q], b \<mapsto> [r]]" using ne by (simp add: inserted_def)
  with ne show ?thesis by (intro exI [of _ s5] exI [of _ "[a \<mapsto> [p, q], b \<mapsto> [r]]"]) auto
qed

text \<open>A system with room for a \<open>gmem\<close> heap, and a user who always ignores.\<close>

definition gm_room :: gm_alloc where
  "gm_room k cb r = (if finite (dom r)
     then GMem (Suc (\<Sum>q \<in> dom r. fst (the (r q)))) (Suc (\<Sum>q \<in> dom r. q + snd (the (r q)))) else GAllocFailed)"

lemma gm_room_plentiful: "plentiful gm_room"
  unfolding plentiful_def gm_alloc_ok_def
proof (intro conjI allI impI)
  fix k cb r h p q h' n
  assume "gm_room k cb r = GMem h p"
  then have R: "finite (dom r)" "h = Suc (\<Sum>q \<in> dom r. fst (the (r q)))" "p = Suc (\<Sum>q \<in> dom r. q + snd (the (r q)))"
    by (auto simp: gm_room_def split: if_splits)
  show "p \<noteq> NULL" using R by simp
  assume q: "r q = Some (h', n)"
  then have d: "q \<in> dom r" by blast
  have "h' \<le> (\<Sum>q \<in> dom r. fst (the (r q)))"
    using member_le_sum [of q "dom r" "\<lambda>q. fst (the (r q))"] d q R(1) by simp
  moreover have "q + n \<le> (\<Sum>q \<in> dom r. q + snd (the (r q)))"
    using member_le_sum [of q "dom r" "\<lambda>q. q + snd (the (r q))"] d q R(1) by simp
  ultimately show "h' \<noteq> h" "q \<noteq> p" "p + cb \<le> q \<or> q + n \<le> p" unfolding R(2,3) by linarith+
next
  fix k cb and r :: "ptr \<rightharpoonup> nat \<times> nat" assume "finite (dom r)"
  then show "\<exists>h p. gm_room k cb r = GMem h p" by (simp add: gm_room_def)
qed

abbreviation ignore :: "nat \<Rightarrow> nat" where "ignore \<equiv> \<lambda>_. IDIGNORE"

lemma ignore_ok: "user_ok ignore"
  by (auto simp: user_ok_def IDIGNORE_def IDABORT_def)

lemma sample_gmem: "\<exists>h s. gm_sound gm_room ignore h s Map.empty"
proof -
  have ga: "gm_alloc_ok gm_room" using gm_room_plentiful by (simp add: plentiful_def)
  obtain r s' where I: "gmem_init gm_room ignore gheap_start = Some (r, s')"
    "case r of None \<Rightarrow> segs s' = Map.empty | Some h \<Rightarrow> gm_ok h s' Map.empty"
    using gmem_init_spec [OF ga ignore_ok] by blast
  have "finite (dom (regions gheap_start))" by (simp add: gheap_start_def)
  note P = plentiful_retry [OF gm_room_plentiful this]
  have "r \<noteq> None"
  proof
    assume "r = None"
    with I(1) obtain q y where q: "alloc_retry gm_room ignore ALLOCSIZE gheap_start = Some (q, y)"
      "(case q of None \<Rightarrow> Some (None, y) | Some (hNew, hp) \<Rightarrow> do {
         sg \<leftarrow> new_seg hNew NULL; Some (Some hNew, y\<lparr>segs := (segs y)(hp \<mapsto> sg)\<rparr>) }) = Some (None, s')"
      by (auto simp: gmem_init_def)
    then have "q = None" by (cases q) auto
    with q(1) P show False by blast
  qed
  then obtain h where "gm_ok h s' Map.empty" using I(2) by auto
  then show ?thesis using gm_room_plentiful ignore_ok by (auto simp: gm_sound_def)
qed

definition sample_env :: genv where
  "sample_env = \<lparr>osalloc = gm_room, useranswer = ignore\<rparr>"

lemma sample_tree:
  "\<exists>(s :: nat tstate) t h tr A a. tree_ok sample_env s t h tr A \<and> lookup tr 5 = Some a \<and> nlen a = 8 \<and> lookup tr 7 = None"
proof -
  obtain h g where g: "gm_sound gm_room ignore h g Map.empty" using sample_gmem by blast
  let ?s = "\<lparr>gm = g, troots = Map.empty, titems = Map.empty, tblocks = Map.empty, tmsgs = []\<rparr> :: nat tstate"
  have "gm_sound (osalloc sample_env) (useranswer sample_env) h (gm ?s) Map.empty"
    using g by (simp add: sample_env_def)
  from tree_create_spec [OF this] obtain t A1 and s1 :: "nat tstate" where t: "tree_ok sample_env s1 t h \<langle>\<rangle> A1" by blast
  obtain n and s2 :: "nat tstate" where n: "nkey n = 5" "nlen n = 8" "added sample_env s1 t h \<langle>\<rangle> A1 n (Some 1) s2"
    using tree_update_new [OF t, of 5 8 "Some 1"] by (auto simp: MAXGALLOC_def)
  then obtain A2 where "tree_ok sample_env s2 t h (ins \<langle>\<rangle> n) A2" by (auto simp: added_def)
  moreover have "lookup (ins \<langle>\<rangle> n) 5 = Some n" "lookup (ins \<langle>\<rangle> n) 7 = None" using n by simp_all
  ultimately show ?thesis using n(2) by blast
qed

lemma sample_ctree:
  "\<exists>(s :: nat cval tstate) t h tr A. ctree_ok sample_env s t h tr A []"
proof -
  obtain h g where g: "gm_sound gm_room ignore h g Map.empty" using sample_gmem by blast
  let ?s = "\<lparr>gm = g, troots = Map.empty, titems = Map.empty, tblocks = Map.empty, tmsgs = []\<rparr> :: nat cval tstate"
  have "gm_sound (osalloc sample_env) (useranswer sample_env) h (gm ?s) Map.empty"
    using g by (simp add: sample_env_def)
  from ctree_create_spec [OF this] show ?thesis by blast
qed

subsection \<open>Lists\<close>

text \<open>C23: the four routines that make room for a new item hang it exactly where they say
  (first, last, after or before a cursor), keep every list of the heap well formed and leave
  all other items alone; when storage runs out they return NULL, mark the list as not OK and
  change nothing else (but for the critical section, which stays entered).\<close>

theorem list_new_inserts:
  assumes "wf s L" "L l = Some (xs @ c # ys)" "galloc_ok ga"
  shows "inserts (List_NewFirst ga l n) s L l [] (xs @ c # ys) n None \<and>
    inserts (List_NewLast ga l n) s L l (xs @ c # ys) [] n None \<and>
    inserts (List_NewAfter ga l (cursor c) n) s L l (xs @ [c]) ys n None \<and>
    inserts (List_NewBefore ga l (cursor c) n) s L l xs (c # ys) n None"
  using List_NewFirst_spec [OF assms] List_NewLast_spec [OF assms] List_NewAfter_spec [OF assms]
    List_NewBefore_spec [OF assms] by blast

theorem list_new_inserts_witness:
  "\<exists>(s :: nat lheap) L l p q. wf s L \<and> L l = Some [p, q] \<and>
     inserts (List_NewAfter roomy l (cursor p) 4) s L l [p] [q] 4 None"
proof -
  obtain s :: "nat lheap" and L a p q where S: "wf s L" "L a = Some [p, q]" using sample_lists by blast
  have "L a = Some ([] @ p # [q])" using S by simp
  from list_new_inserts [OF S(1) this ample_ok [OF roomy_ample], of 4]
  have "inserts (List_NewAfter roomy a (cursor p) 4) s L a [p] [q] 4 None" by simp
  with S show ?thesis by blast
qed

text \<open>C24: the four routines that add a copy of the caller's object do the same and the new
  item holds the object, for every size with which the item fits in a block and does not end one
  byte past a word boundary; the copy then stays inside the block.  (For the other sizes the code copies
  past the block: \<open>list_add_overruns\<close>.)\<close>

theorem list_add_inserts:
  assumes "wf s L" "L l = Some (xs @ c # ys)" "galloc_ok ga" "iHeaderSize + n \<le> BLOCKSIZE" "n mod 4 \<noteq> 1"
  shows "inserts_only (List_AddFirst ga l obj n) s L l [] (xs @ c # ys) n (Some obj) \<and>
    inserts_only (List_AddLast ga l obj n) s L l (xs @ c # ys) [] n (Some obj) \<and>
    inserts_only (List_AddAfter ga l (cursor c) obj n) s L l (xs @ [c]) ys n (Some obj) \<and>
    inserts_only (List_AddBefore ga l (cursor c) obj n) s L l xs (c # ys) n (Some obj)"
proof -
  have n: "fitting (iHeaderSize + n)" using assms(4,5) by (simp add: fitting_def iHeaderSize_def mod_add_left_eq [symmetric, of 24])
  show ?thesis
    using List_AddFirst_spec [OF assms(1-3) n] List_AddLast_spec [OF assms(1-3) n] List_AddAfter_spec [OF assms(1-3) n]
      List_AddBefore_spec [OF assms(1-3) n] by blast
qed

theorem list_add_inserts_witness:
  "\<exists>(s :: nat lheap) L l p q. wf s L \<and> L l = Some [p, q] \<and>
     inserts_only (List_AddBefore roomy l (cursor q) 99 4) s L l [p] [q] 4 (Some 99)"
proof -
  obtain s :: "nat lheap" and L a p q where S: "wf s L" "L a = Some [p, q]" using sample_lists by blast
  have "L a = Some ([p] @ q # [])" using S by simp
  from list_add_inserts [OF S(1) this ample_ok [OF roomy_ample], of 4 99]
  have "inserts_only (List_AddBefore roomy a (cursor q) 99 4) s L a [p] [q] 4 (Some 99)" by (simp add: size_defs)
  with S show ?thesis by blast
qed

text \<open>A request that no block can hold is not refused: the object is copied past the end of the
  block.\<close>

lemma list_add_overruns:
  assumes "wf s L" "L l = Some xs" "galloc_ok ga" "BLOCKSIZE + 1 < iHeaderSize + n"
    and "list_Alloc ga (iHeaderSize + n) s = Some (q, s1)" "q \<noteq> NULL"
  shows "List_AddFirst ga l obj n s = None"
  by (rule List_AddFirst_overrun [OF assms])

text \<open>C25: the deleting routines take exactly the item at the cursor out, free its storage
  and return the neighbour they promise; no item is leaked and no other item is touched.\<close>

theorem list_delete_removes:
  assumes "wf s L" "L l = Some (xs @ c # ys)"
  shows "(\<exists>s'. List_Delete (cursor c) s = Some s' \<and> removed s L l xs ys c s') \<and>
    (\<exists>s'. List_DeleteForwards (cursor c) s = Some (if ys = [] then NULL else cursor (hd ys), s') \<and> removed s L l xs ys c s') \<and>
    (\<exists>s'. List_DeleteBackwards (cursor c) s = Some (if xs = [] then NULL else cursor (last xs), s') \<and> removed s L l xs ys c s')"
  using List_Delete_spec [OF assms] List_DeleteForwards_spec [OF assms] List_DeleteBackwards_spec [OF assms] by blast

theorem list_delete_removes_witness:
  "\<exists>(s :: nat lheap) L l p q s'. wf s L \<and> L l = Some [p, q] \<and>
     List_DeleteForwards (cursor p) s = Some (cursor q, s') \<and> removed s L l [] [q] p s'"
proof -
  obtain s :: "nat lheap" and L a p q where S: "wf s L" "L a = Some [p, q]" using sample_lists by blast
  have "L a = Some ([] @ p # [q])" using S by simp
  from list_delete_removes [OF S(1) this] obtain s' where
    "List_DeleteForwards (cursor p) s = Some (cursor q, s')" "removed s L a [] [q] p s'" by auto
  with S show ?thesis by blast
qed

text \<open>C26: an item appended with \<open>List_NewLast\<close> and removed with \<open>List_DeleteLast\<close>
  leaves the lists as they were, with their data.\<close>

theorem list_append_delete_roundtrip:
  assumes "wf s L" "L l = Some xs" "ample ga"
  shows "\<exists>q s1 s2. List_NewLast ga l n s = Some (cursor q, s1) \<and> wf s1 (L(l \<mapsto> xs @ [q])) \<and>
    List_DeleteLast l s1 = Some s2 \<and> wf s2 L \<and> dat s2 = dat s \<and> okf s2 = okf s"
proof -
  obtain q s1 where q: "List_NewLast ga l n s = Some (cursor q, s1)" "inserted s L l xs [] n None q s1"
    using List_NewLast_ample [OF assms] by blast
  then have W1: "wf s1 (L(l \<mapsto> xs @ [q]))" by (simp add: inserted_def)
  obtain s2 where s2: "List_DeleteLast l s1 = Some s2" "removed s1 (L(l \<mapsto> xs @ [q])) l xs [] q s2"
    using List_DeleteLast_spec [OF W1, of l xs q] by auto
  have "items s q = None" using q(2) assms(1) wf_live [of s L q] by (auto simp: inserted_def)
  then have d: "dat s q = None" "okf s q = None" by (simp_all add: dat_def okf_def)
  have "L(l \<mapsto> xs) = L" using assms(2) by auto
  then have "wf s2 L" "dat s2 = dat s" "okf s2 = okf s"
    using s2(2) q(2) d by (auto simp: removed_def inserted_def)
  with q s2 W1 show ?thesis by blast
qed

theorem list_append_delete_roundtrip_witness:
  "\<exists>(s :: nat lheap) L l xs q s1 s2. L l = Some xs \<and> length xs = 2 \<and> List_NewLast roomy l 8 s = Some (cursor q, s1) \<and>
     List_DeleteLast l s1 = Some s2 \<and> wf s2 L"
proof -
  obtain s :: "nat lheap" and L a p q where S: "wf s L" "L a = Some [p, q]" using sample_lists by blast
  from list_append_delete_roundtrip [OF S roomy_ample, of 8] obtain q' s1 s2 where
    "List_NewLast roomy a 8 s = Some (cursor q', s1)" "List_DeleteLast a s1 = Some s2" "wf s2 L" by blast
  moreover have "length [p, q] = 2" by simp
  ultimately show ?thesis using S(2) by blast
qed

text \<open>C27: joining and inserting a whole list moves all its items, in order, to the place asked
  for and leaves the source list empty; nothing is copied, freed or lost.\<close>

theorem list_join_moves:
  assumes "wf s L" "L l1 = Some (xs @ ys)" "L l2 = Some zs" "l1 \<noteq> l2"
  shows "moved (List_Join l1 l2) s (L(l1 \<mapsto> (xs @ ys) @ zs, l2 \<mapsto> [])) (okj l1 l2 s) \<and>
    moved (List_InsertListAfter l1 l2 (if xs = [] then NULL else cursor (last xs))) s (L(l1 \<mapsto> xs @ zs @ ys, l2 \<mapsto> [])) (okj l1 l2 s) \<and>
    moved (List_InsertListBefore l1 l2 (if ys = [] then NULL else cursor (hd ys))) s (L(l1 \<mapsto> xs @ zs @ ys, l2 \<mapsto> [])) (okj l1 l2 s)"
  using List_Join_spec [OF assms] List_InsertListAfter_spec [OF assms refl] List_InsertListBefore_spec [OF assms refl] by blast

theorem list_join_moves_witness:
  "\<exists>(s :: nat lheap) L a b p q r. wf s L \<and> L a = Some [p, q] \<and> L b = Some [r] \<and>
     moved (List_InsertListAfter a b (cursor p)) s (L(a \<mapsto> [p, r, q], b \<mapsto> [])) (okj a b s)"
proof -
  obtain s :: "nat lheap" and L a b p q r where S: "wf s L" "L a = Some [p, q]" "L b = Some [r]" "a \<noteq> b"
    using sample_lists by blast
  have "L a = Some ([p] @ [q])" using S by simp
  from list_join_moves [OF S(1) this S(3,4)] have
    "moved (List_InsertListAfter a b (cursor p)) s (L(a \<mapsto> [p, r, q], b \<mapsto> [])) (okj a b s)" by simp
  with S show ?thesis by blast
qed

text \<open>C28: splitting a list at a cursor puts the two parts, in order, on the two lists, after
  freeing what the second list held.\<close>

theorem list_split_divides:
  assumes "wf s L" "L l1 = Some (xs @ c # ys)" "L l2 = Some vs" "l1 \<noteq> l2"
  shows "divided (List_SplitAfter l1 l2 (cursor c)) s (L(l1 \<mapsto> ys, l2 \<mapsto> xs @ [c])) vs \<and>
    divided (List_SplitBefore l1 l2 (cursor c)) s (L(l1 \<mapsto> xs, l2 \<mapsto> c # ys)) vs"
  using List_SplitAfter_spec [OF assms] List_SplitBefore_spec [OF assms] by blast

theorem list_split_divides_witness:
  "\<exists>(s :: nat lheap) L a b p q r. wf s L \<and> L a = Some [p, q] \<and> L b = Some [r] \<and>
     divided (List_SplitBefore a b (cursor q)) s (L(a \<mapsto> [p], b \<mapsto> [q])) [r]"
proof -
  obtain s :: "nat lheap" and L a b p q r where S: "wf s L" "L a = Some [p, q]" "L b = Some [r]" "a \<noteq> b"
    using sample_lists by blast
  have "L a = Some ([p] @ q # [])" using S by simp
  from list_split_divides [OF S(1) this S(3,4)]
  have "divided (List_SplitBefore a b (cursor q)) s (L(a \<mapsto> [p], b \<mapsto> [q])) [r]" by simp
  with S show ?thesis by blast
qed

text \<open>C29: clearing a list frees all its items and leaves an empty list; destroying it frees the
  anchor too and sets the caller's handle to NULL.  The other lists are untouched.\<close>

theorem list_clear_destroy_free:
  assumes "wf s L" "L l = Some xs"
  shows "(\<exists>s'. List_Clear l s = Some s' \<and> wf s' (L(l \<mapsto> [])) \<and> dat s' = dat s |` (- set xs) \<and> traceLog s' = traceLog s) \<and>
    (\<exists>s'. List_Destroy (Some l) s = Some (Some NULL, s') \<and> wf s' (L(l := None)) \<and>
       dat s' = dat s |` (- set (l # xs)) \<and> traceLog s' = traceLog s)"
  using List_Clear_spec [OF assms] List_Destroy_spec [OF assms] by blast

theorem list_clear_destroy_free_witness:
  "\<exists>(s :: nat lheap) L a b p q r s'. L a = Some [p, q] \<and> L b = Some [r] \<and> a \<noteq> b \<and>
     List_Destroy (Some a) s = Some (Some NULL, s') \<and> wf s' (L(a := None))"
proof -
  obtain s :: "nat lheap" and L a b p q r where S: "wf s L" "L a = Some [p, q]" "L b = Some [r]" "a \<noteq> b"
    using sample_lists by blast
  from list_clear_destroy_free [OF S(1,2)] S show ?thesis by blast
qed

text \<open>C30: on any list whose forward chain is a ring of distinct items with a proper anchor flag,
  \<open>List_Check\<close> returns, tells exactly whether the back chain is the reverse of the forward
  chain, and leaves the storage (in which it marks items on the way) exactly as it found it.\<close>

theorem list_check_decides:
  assumes "path (nxt s) (l # xs) l" "distinct (l # xs)" "l \<noteq> NULL" "anc s l = Some True"
    and "\<And>x. x \<in> set xs \<Longrightarrow> anc s x = Some False"
  shows "List_Check l s = Some (backs (prv s) l xs l, s)"
  by (rule List_Check_decides [OF assms])

lemma sample_damaged:
  "\<exists>(s :: nat lheap) l p q. path (nxt s) [l, p, q] l \<and> distinct [l, p, q] \<and> l \<noteq> NULL \<and> anc s l = Some True \<and>
     (\<forall>x \<in> set [p, q]. anc s x = Some False) \<and> \<not> backs (prv s) l [p, q] l"
proof -
  obtain s :: "nat lheap" and L a p q where S: "wf s L" "L a = Some [p, q]" using sample_lists by blast
  note R = wf_ring [OF S]
  have D: "distinct [a, p, q]" "nxt s a = Some p" "nxt s p = Some q" "nxt s q = Some a" "anc s a = Some True"
    "anc s p = Some False" "anc s q = Some False" using R by (auto simp: ring_def)
  have a0: "a \<noteq> NULL" using wf_nonnull [OF S] by simp
  obtain i where i: "items s q = Some i" using D(4) by (auto dest: obs_SomeD)
  let ?s = "upd_item q (\<lambda>i. i\<lparr>pitPrev := q\<rparr>) s"
  have "nxt ?s = nxt s" "anc ?s = anc s" "prv ?s = (prv s)(q \<mapsto> q)"
    using i by (auto simp: obs_upd_item fun_eq_iff nxt_def anc_def)
  with D a0 have "path (nxt ?s) [a, p, q] a" "anc ?s a = Some True" "\<forall>x \<in> set [p, q]. anc ?s x = Some False"
    "\<not> backs (prv ?s) a [p, q] a" by auto
  with D(1) a0 show ?thesis by blast
qed

theorem list_check_decides_witness:
  "\<exists>(s :: nat lheap) l p q. \<not> backs (prv s) l [p, q] l \<and> List_Check l s = Some (False, s)"
proof -
  obtain s :: "nat lheap" and l p q where S: "path (nxt s) [l, p, q] l" "distinct [l, p, q]" "l \<noteq> NULL" "anc s l = Some True"
     "\<forall>x \<in> set [p, q]. anc s x = Some False" "\<not> backs (prv s) l [p, q] l" using sample_damaged by blast
  have "List_Check l s = Some (backs (prv s) l [p, q] l, s)"
    by (rule list_check_decides) (use S in auto)
  then have "List_Check l s = Some (False, s)" using S(6) by simp
  with S(6) show ?thesis by blast
qed

text \<open>C31: \<open>List_Recover\<close> turns any forward chain that comes back to an item it has passed
  into a proper ring of the same items in the same order, loses no data, and touches nothing else
  (provided the last item is not flagged as an anchor).\<close>

theorem list_recover_repairs:
  assumes "chain s l xs y" "l \<noteq> NULL" "xs \<noteq> [] \<Longrightarrow> anc s (last xs) = Some False"
  shows "\<exists>s'. List_Recover ga (Some l) s = Some (Some l, s') \<and> ring (nxt s') (prv s') (anc s') l xs \<and>
    okf s' l = Some True \<and> rebuilt s s' \<and>
    (\<forall>a. a \<notin> set (l # xs) \<longrightarrow> nxt s' a = nxt s a \<and> prv s' a = prv s a \<and> anc s' a = anc s a)"
  by (rule List_Recover_repairs [OF assms])

theorem list_recover_repairs_witness:
  "\<exists>(s :: nat lheap) l p q s'. \<not> backs (prv s) l [p, q] l \<and> List_Recover roomy (Some l) s = Some (Some l, s') \<and>
     ring (nxt s') (prv s') (anc s') l [p, q]"
proof -
  obtain s :: "nat lheap" and l p q where S: "path (nxt s) [l, p, q] l" "distinct [l, p, q]" "l \<noteq> NULL" "anc s l = Some True"
     "\<forall>x \<in> set [p, q]. anc s x = Some False" "\<not> backs (prv s) l [p, q] l" using sample_damaged by blast
  have C: "chain s l [p, q] l" using S by (simp add: chain_def)
  have A: "anc s (last [p, q]) = Some False" using S(5) by simp
  from list_recover_repairs [OF C S(3) A, of roomy] S(6) show ?thesis by blast
qed

text \<open>C32: the block allocator under the lists: an allocation of at most a block never disturbs live
  items and keeps the block chain, the counts and \<open>pCurrent\<close> consistent.  The memory it gives lies
  in the current block, but for one byte at most; when the size is not one more than a multiple of 4 it
  lies in the block entirely and overlaps no live item of such a size, of this or of another block.  When
  the system has no memory only \<open>pCurrent\<close> changes and the critical section stays entered.\<close>

theorem list_alloc_sound:
  assumes "heap_ok s" "galloc_ok ga" "iAnchorSize \<le> cb" "cb \<le> BLOCKSIZE"
  shows "\<exists>p s'. list_Alloc ga cb s = Some (p, s') \<and>
    (p \<noteq> NULL \<and> allocated cb s p s' \<and>
       pCurrent s' + chData \<le> p \<and> p + cb \<le> pCurrent s' + sizeof_BLOCK + 1 \<and>
       (cb mod 4 \<noteq> 1 \<longrightarrow> p + cb \<le> pCurrent s' + sizeof_BLOCK \<and>
         (\<forall>a b z. own s a = Some (b, z) \<longrightarrow> z \<le> BLOCKSIZE \<longrightarrow> z mod 4 \<noteq> 1 \<longrightarrow> p + cb \<le> a \<or> a + z \<le> p)) \<or>
     p = NULL \<and> alloc_failed s s')"
proof -
  obtain p s' where A: "list_Alloc ga cb s = Some (p, s')" "p \<noteq> NULL \<and> allocated cb s p s' \<or> p = NULL \<and> alloc_failed s s'"
    using list_Alloc_spec [OF assms(1-3)] by blast
  from A(2) show ?thesis
  proof
    assume B: "p \<noteq> NULL \<and> allocated cb s p s'"
    note W = allocated_where [OF conjunct2 [OF B] assms(4)]
    from A(1) B W show ?thesis using assms(4) unfolding fitting_def by (intro exI [of _ p] exI [of _ s']) blast
  qed (use A(1) in blast)
qed

theorem list_alloc_sound_witness:
  "\<exists>p s'. list_Alloc roomy 32 (lheap_start :: nat lheap) = Some (p, s') \<and>
     (p \<noteq> NULL \<and> allocated 32 lheap_start p s' \<and> p + 32 \<le> pCurrent s' + sizeof_BLOCK \<or> p = NULL \<and> alloc_failed lheap_start s')"
proof -
  have "wf (lheap_start :: nat lheap) Map.empty" by (rule wf_start)
  then have "heap_ok (lheap_start :: nat lheap)" by (simp add: wf_def)
  moreover have "iAnchorSize \<le> 32" "32 \<le> BLOCKSIZE" "32 mod 4 \<noteq> (1 :: nat)" by (simp_all add: size_defs)
  ultimately show ?thesis using list_alloc_sound [OF _ ample_ok [OF roomy_ample], of "lheap_start :: nat lheap" 32] by blast
qed

text \<open>The cursor functions walk a list as the sequence of its items, report its length, and
  leave the heap as it is.\<close>

lemma list_cursors_walk:
  assumes "wf s L" "L l = Some (xs @ c # ys)"
  shows "List_First l s = Some (cursor (hd (xs @ [c])), s) \<and> List_Last l s = Some (cursor (last (c # ys)), s) \<and>
    List_Next (cursor c) s = Some (if ys = [] then NULL else cursor (hd ys), s) \<and>
    List_Prev (cursor c) s = Some (if xs = [] then NULL else cursor (last xs), s) \<and>
    List_Card l s = Some (int (length xs) + 1 + int (length ys), s)"
proof -
  have "hd (xs @ c # ys) = hd (xs @ [c])" by (cases xs) auto
  moreover have "last (xs @ c # ys) = last (c # ys)" by simp
  ultimately show ?thesis
    using List_First_spec [OF assms] List_Last_spec [OF assms] List_Next_spec [OF assms] List_Prev_spec [OF assms]
      List_Card_spec [OF assms] by simp
qed

subsection \<open>Bitmaps and the heap\<close>

text \<open>C33: setting a range of block numbers sets or clears exactly those bits, across word
  boundaries, and never leaves the map.\<close>

theorem gbit_set_exact:
  assumes "1 \<le> blknr" "blknr - 1 + nblks \<le> 32 * length m" "0 < nblks"
  shows "\<exists>m'. gbit_set m blknr nblks v = Some m' \<and> length m' = length m \<and>
    (\<forall>k. bits m' k \<longleftrightarrow> (if blknr \<le> k + 1 \<and> k + 1 < blknr + nblks then v else bits m k))"
  by (rule gbit_set_spec [OF assms])

theorem gbit_set_exact_witness:
  "\<exists>m'. gbit_set [0, 0, 0] 20 50 True = Some m' \<and> (\<forall>k. bits m' k \<longleftrightarrow>
     (if 20 \<le> k + 1 \<and> k + 1 < 20 + 50 then True else bits [0, 0, 0] k))"
  using gbit_set_exact [of 20 50 "[0, 0, 0]" True] by auto

text \<open>C34: the search for free blocks returns and either finds a run of the length asked for or
  the longest run that starts inside the map.\<close>

theorem gbit_findfree_finds:
  assumes "0 < nblks" "(mapsize + 31) div 32 < length m" "\<not> bits m (32 * ((mapsize + 31) div 32))"
  shows "\<exists>r b. gbit_findfree m nblks mapsize = Some (r, b) \<and> found m ((mapsize + 31) div 32) nblks r b"
  by (rule gbit_findfree_spec [OF assms])

theorem gbit_findfree_finds_witness:
  "\<exists>r b. gbit_findfree [0xF0, 0] 3 32 = Some (r, b) \<and> found [0xF0, 0] 1 3 r b"
  using gbit_findfree_finds [of 3 32 "[0xF0, 0]"] by (simp add: bits_def)

text \<open>C35: \<open>gmem_get\<close> hands out memory that overlaps no piece in use, is cleared, and keeps
  the heap's invariant, or it returns NULL and leaves the pieces alone; it returns NULL only when
  the system refused memory.\<close>

theorem gmem_get_sound:
  assumes "gm_ok h s A" "gm_alloc_ok ga" "user_ok answer" "1 \<le> n" "n \<le> MAXGALLOC"
  shows "\<exists>p s'. gmem_get ga answer h (int n) s = Some (p, s') \<and> got h s A n p s' \<and>
    (p = NULL \<longrightarrow> (\<exists>x y. finite (dom (regions x)) \<and> alloc_retry ga answer ALLOCSIZE x = Some (None, y)))"
  by (rule gmem_get_spec [OF assms])

theorem gmem_get_sound_witness:
  "\<exists>h s p s'. gmem_get gm_room ignore h (int 100) s = Some (p, s') \<and> got h s Map.empty 100 p s'"
proof -
  obtain h s where "gm_ok h s Map.empty" "gm_alloc_ok gm_room"
    using sample_gmem gm_room_plentiful by (auto simp: gm_sound_def plentiful_def)
  moreover have "(1 :: nat) \<le> 100" "100 \<le> MAXGALLOC" by (simp_all add: MAXGALLOC_def)
  ultimately show ?thesis using gmem_get_sound [OF _ _ ignore_ok, of h s Map.empty gm_room 100] by blast
qed

text \<open>C36: a piece that is taken and given back leaves exactly the same pieces in use, and a
  piece taken in between is a different one.  The invariant accounts for every block that is not free
  (each belongs to a piece in use), so a piece that is not given back, or only in part, breaks it.\<close>

theorem gmem_get_free_roundtrip:
  assumes "gm_sound ga answer h s A" "1 \<le> n" "n \<le> MAXGALLOC" "1 \<le> m" "m \<le> MAXGALLOC"
  shows "\<exists>p s1 q s2 s3 s4. gmem_get ga answer h (int n) s = Some (p, s1) \<and>
    gmem_get ga answer h (int m) s1 = Some (q, s2) \<and> p \<noteq> q \<and> A p = None \<and> A q = None \<and>
    gmem_free h p (int n) s2 = Some s3 \<and> gmem_free h q (int m) s3 = Some s4 \<and> gm_sound ga answer h s4 A"
proof -
  obtain p s1 q s2 where G: "gmem_get ga answer h (int n) s = Some (p, s1)" "gmem_get ga answer h (int m) s1 = Some (q, s2)"
    "p \<noteq> q" "A p = None" "A q = None" "gm_sound ga answer h s2 (A(p \<mapsto> n, q \<mapsto> m))"
    using gmem.get_two [OF assms] by blast
  obtain s3 s4 where F: "gmem_free h p (int n) s2 = Some s3" "gmem_free h q (int m) s3 = Some s4"
    "gm_sound ga answer h s4 ((A(p \<mapsto> n, q \<mapsto> m))(p := None, q := None))"
    using gmem.give_two [OF G(6), of p n q m] G(3) by auto
  have "(A(p \<mapsto> n, q \<mapsto> m))(p := None, q := None) = A" using G(3-5) by auto
  with G F show ?thesis by metis
qed

theorem gmem_get_free_roundtrip_witness:
  "\<exists>h s p s1 q s2. gmem_get gm_room ignore h (int 40) s = Some (p, s1) \<and>
     gmem_get gm_room ignore h (int 5000) s1 = Some (q, s2) \<and> p \<noteq> q"
proof -
  obtain h s where "gm_sound gm_room ignore h s Map.empty" using sample_gmem by blast
  moreover have "(1 :: nat) \<le> 40" "40 \<le> MAXGALLOC" "(1 :: nat) \<le> 5000" "5000 \<le> MAXGALLOC" by (simp_all add: MAXGALLOC_def)
  ultimately obtain p s1 q s2 s3 s4 where "gmem_get gm_room ignore h (int 40) s = Some (p, s1)"
    "gmem_get gm_room ignore h (int 5000) s1 = Some (q, s2)" "p \<noteq> q"
    using gmem_get_free_roundtrip [of gm_room ignore h s Map.empty 40 5000] by blast
  then show ?thesis by blast
qed

subsection \<open>Trees\<close>



text \<open>C38: storing a value of another length under a key that is there replaces its block but
  leaves the old length in the node, so that the block is later returned with the wrong length.\<close>

theorem tree_update_keeps_old_length:
  assumes "tree_ok e s t h tr A" "lookup tr k = Some a" "1 \<le> len" "len \<le> MAXGALLOC" "len \<noteq> nlen a"
  shows "\<exists>d s' i. tree_update e t k val len s = Some (d, s') \<and> d \<noteq> NULL \<and>
    gm_sound (osalloc e) (useranswer e) h (gm s') (A(ndata a := None, d \<mapsto> len)) \<and>
    titems s' (naddr a) = Some i \<and> data i = d \<and> tlength i = nlen a \<and> tblocks s' d = Some val"
  using tree_update_resize [OF assms, of val] by blast

theorem tree_update_keeps_old_length_witness:
  "\<exists>(s :: nat tstate) t d s' x i. tree_update sample_env t 5 (Some 3) 16 s = Some (d, s') \<and>
     titems s' x = Some i \<and> data i = d \<and> tlength i = 8"
proof -
  obtain s :: "nat tstate" and t h tr A a where T: "tree_ok sample_env s t h tr A" "lookup tr 5 = Some a" "nlen a = 8"
    using sample_tree by blast
  have "(1 :: nat) \<le> 16" "16 \<le> MAXGALLOC" "16 \<noteq> nlen a" using T(3) by (simp_all add: MAXGALLOC_def)
  from tree_update_keeps_old_length [OF T(1,2) this, of "Some 3"] T(3) show ?thesis by metis
qed

text \<open>C39: deleting a tree gives back every node, every block and the root, and nothing else:
  afterwards exactly the other pieces are in use in the heap, which accounts for every block of it, no node,
  block or root of the tree is left, and everything else is as it was.\<close>

theorem tree_delete_frees:
  assumes "tree_ok e s t h tr A"
  shows "\<exists>s'. tree_delete t s = Some s' \<and>
    gm_sound (osalloc e) (useranswer e) h (gm s') (without A (t # addrs tr @ datas tr)) \<and> troots s' t = None \<and>
    (\<forall>x. tblocks s' x = (if x \<in> set (datas tr) then None else tblocks s x)) \<and> others s s' A (foot t tr) \<and>
    (\<forall>x. titems s' x = (if x \<in> set (addrs tr) then None else titems s x)) \<and> (\<forall>x. x \<noteq> t \<longrightarrow> troots s' x = troots s x)"
  by (rule tree_delete_spec [OF assms])

theorem tree_delete_frees_witness:
  "\<exists>(s :: nat tstate) t s'. tree_find t 5 s \<noteq> Some NULL \<and> tree_delete t s = Some s' \<and> troots s' t = None"
proof -
  obtain s :: "nat tstate" and t h tr A a where T: "tree_ok sample_env s t h tr A" "lookup tr 5 = Some a"
    using sample_tree by blast
  have "ndata a \<noteq> NULL" using T lookup_Some [OF T(2)] by (simp add: tree_ok_def node_ok_def)
  then have "tree_find t 5 s \<noteq> Some NULL" using tree_search_spec(2) [OF T(1), of 5] T(2) by simp
  with tree_delete_frees [OF T(1)] show ?thesis by blast
qed

text \<open>C40: after any sequence of insertions into an empty counting tree, the count of every key
  is the number of times it was inserted (as a 32-bit integer), and \<open>ctree_find\<close> gives NULL
  for a key that was not inserted and otherwise the value of its first insertion.\<close>

theorem ctree_counts_insertions:
  assumes "ctree_ok e s t h tr A []" "\<forall>u \<in> set us. snd (snd u) + sizeof_LONG_PTR \<le> MAXGALLOC"
  shows "\<exists>s'. ctree_updates e t us s = Some s' \<and>
    (\<forall>k. ctree_getcount t k s' = Some (sint (of_nat (count_list (map fst us) k) :: 32 word))) \<and>
    (\<forall>k. if k \<in> fst ` set us
      then \<exists>p n. ctree_find t k s' = Some (p + sizeof_LONG_PTR) \<and> tblocks s' p = Some (Some (n, fst (the (map_of us k))))
      else ctree_find t k s' = Some NULL)"
proof -
  define vs where "vs = map (\<lambda>(k, v, n). (k, v)) us"
  have "\<exists>s' tr' A'. ctree_updates e t us s = Some s' \<and> ctree_ok e s' t h tr' A' ([] @ vs)"
    unfolding vs_def
  proof (rule ctree_updates_spec [OF assms(1)])
    fix k v n assume "(k, v, n) \<in> set us"
    then show "n + sizeof_LONG_PTR \<le> MAXGALLOC" using assms(2) by fastforce
  qed
  then obtain s' tr' A' where U: "ctree_updates e t us s = Some s'" "ctree_ok e s' t h tr' A' vs" by auto
  have "map fst vs = map fst us" by (simp add: vs_def case_prod_beta comp_def)
  then have V: "times vs = count_list (map fst us)" "fst ` set vs = fst ` set us"
    by (simp_all add: times_def fun_eq_iff del: set_map flip: set_map)
  have M: "map_of vs k = map_option fst (map_of us k)" for k unfolding vs_def by (induction us) auto
  have "the (map_of vs k) = fst (the (map_of us k))" if "k \<in> fst ` set us" for k
    using that by (cases "map_of us k") (auto simp: M map_of_eq_None_iff)
  then show ?thesis using U(1) ctree_getcount_spec [OF U(2)] ctree_find_spec [OF U(2)] ctree_find_None [OF U(2)] unfolding V
    by (intro exI [of _ s']) (simp, metis)
qed

theorem ctree_counts_insertions_witness:
  "\<exists>(s :: nat cval tstate) t s' p n. ctree_updates sample_env t [(1, Some 9, 4), (2, None, 4), (1, Some 8, 4)] s = Some s' \<and>
     ctree_getcount t 1 s' = Some 2 \<and> ctree_find t 1 s' = Some (p + sizeof_LONG_PTR) \<and> tblocks s' p = Some (Some (n, Some 9)) \<and>
     ctree_find t 3 s' = Some NULL"
proof -
  obtain s :: "nat cval tstate" and t h tr A where T: "ctree_ok sample_env s t h tr A []" using sample_ctree by blast
  let ?us = "[(1, Some 9, 4), (2, None, 4), (1, Some 8, 4)] :: (treekey \<times> nat option \<times> nat) list"
  have "\<forall>u \<in> set ?us. snd (snd u) + sizeof_LONG_PTR \<le> MAXGALLOC" by (simp add: MAXGALLOC_def sizeof_LONG_PTR_def)
  from ctree_counts_insertions [OF T this] obtain s' where u: "ctree_updates sample_env t ?us s = Some s'"
    "\<forall>k. ctree_getcount t k s' = Some (sint (of_nat (count_list (map fst ?us) k) :: 32 word))"
    "\<forall>k. if k \<in> fst ` set ?us
      then \<exists>p n. ctree_find t k s' = Some (p + sizeof_LONG_PTR) \<and> tblocks s' p = Some (Some (n, fst (the (map_of ?us k))))
      else ctree_find t k s' = Some NULL" by blast
  have "ctree_getcount t 1 s' = Some 2" using u(2) by simp
  moreover have "\<exists>p n. ctree_find t 1 s' = Some (p + sizeof_LONG_PTR) \<and> tblocks s' p = Some (Some (n, Some 9))"
    using u(3) [rule_format, of 1] by simp
  moreover have "ctree_find t 3 s' = Some NULL" using u(3) [rule_format, of 3] by simp
  ultimately show ?thesis using u(1) by blast
qed

end
