(* ===== verification/Gutils_Checksum.thy ===== *)
theory Gutils_Checksum
  imports Gutils_Utils
begin

text \<open>
  Model of \<open>checksum_file\<close> in \<open>windiff/gutils/utils.c\<close> and its correctness: for a
  file that can be opened and read, the result is the position-weighted sum of its 32-bit words
  that the comment of the function promises.

  The results of the system calls are the parameter \<open>io\<close>: whether the \<open>i\<close>-th
  attempt to open succeeds, what the \<open>k\<close>-th \<open>ReadFile\<close> delivers (\<open>None\<close> for
  a failure), the error codes and the current time.  \<open>Sleep\<close> and the debug output have no
  effect on the result and are left out.
\<close>

subsection \<open>Model\<close>

record fileio =
  opens :: "nat \<Rightarrow> bool"
  openerr :: int
  reads :: "nat \<Rightarrow> byte list option"
  readerr :: int
  ticks :: "32 word"

definition BUFFLEN :: nat where "BUFFLEN = 8192"
definition lSeed :: "32 word" where "lSeed = 1664525"

text \<open>A little-endian DWORD.\<close>

definition dword_of :: "byte list \<Rightarrow> 32 word" where
  "dword_of bs = foldr (\<lambda>b w. ucast b + 256 * w) bs 0"

definition dword_at :: "byte list \<Rightarrow> nat \<Rightarrow> 32 word option" where
  "dword_at buf i = (if i + 4 \<le> length buf then Some (dword_of (take 4 (drop i buf))) else None)"

text \<open>\<open>while (Block%4) buffer[Block++] = 0;\<close>\<close>

function pad_block :: "byte list \<Rightarrow> nat \<Rightarrow> byte list \<times> nat" where
  "pad_block buf Block = (if Block mod 4 = 0 then (buf, Block) else pad_block (buf[Block := 0]) (Suc Block))"
  by pat_completeness auto
termination by (relation "measure (\<lambda>(buf, b). (4 - b mod 4) mod 4)") (auto simp: mod_Suc)

declare pad_block.simps [simp del]

definition failed :: "fileio \<Rightarrow> int \<Rightarrow> 32 word \<times> int" where
  "failed io err = (or 0xFF00FF00 (ticks io), err)"

text \<open>The part of the loop body under \<open>if (Byte>=Block)\<close>: it leaves the function
  (\<open>Inl\<close>) or goes on with the next block.\<close>

definition next_block :: "fileio \<Rightarrow> nat \<Rightarrow> byte list \<Rightarrow> nat \<Rightarrow> nat \<Rightarrow> bool \<Rightarrow> 32 word \<Rightarrow>
    (32 word \<times> int) + (nat \<times> byte list \<times> nat \<times> nat \<times> bool)" where
  "next_block io k buffer Byte Block Ending lCheckSum =
     (if Byte > Block then Inl (failed io (-1))
      else (case reads io k of
          None \<Rightarrow> Inl (failed io (readerr io))
        | Some bs \<Rightarrow>
           if length bs = 0 then Inl (lCheckSum, 0)
           else if Ending then Inl (failed io (-2))
           else (case pad_block (bs @ drop (length bs) buffer) (length bs) of
               (buffer, Block) \<Rightarrow> Inr (Suc k, buffer, 0, Block, length bs mod 4 \<noteq> 0))))"

partial_function (option) checksum_loop ::
  "fileio \<Rightarrow> nat \<Rightarrow> byte list \<Rightarrow> nat \<Rightarrow> nat \<Rightarrow> bool \<Rightarrow> 32 word \<Rightarrow> 32 word \<Rightarrow> (32 word \<times> int) option" where
  "checksum_loop io k buffer Byte Block Ending lRand lCheckSum =
     (case (if Byte \<ge> Block then next_block io k buffer Byte Block Ending lCheckSum
            else Inr (k, buffer, Byte, Block, Ending)) of
        Inl r \<Rightarrow> Some r
      | Inr (k, buffer, Byte, Block, Ending) \<Rightarrow> do {
          d \<leftarrow> dword_at buffer Byte;
          checksum_loop io k buffer (Byte + 4) Block Ending (lRand * lSeed) (lCheckSum + lRand * lSeed * d)
        })"

definition checksum_file :: "fileio \<Rightarrow> (32 word \<times> int) option" where
  "checksum_file io =
     (if \<forall>i < 6. \<not> opens io i then Some (failed io (openerr io))
      else checksum_loop io 0 (replicate BUFFLEN 0) 0 0 False 1 0)"

subsection \<open>Specification\<close>

function csum :: "nat \<Rightarrow> byte list \<Rightarrow> 32 word" where
  "csum i bs = (if bs = [] then 0 else lSeed ^ (i + 1) * dword_of (take 4 bs) + csum (i + 1) (drop 4 bs))"
  by pat_completeness auto
termination by (relation "measure (\<lambda>(i, bs). length bs)") auto

declare csum.simps [simp del]

lemma csum_Nil [simp]: "csum i [] = 0"
  by (simp add: csum.simps)

lemma csum_step: "bs \<noteq> [] \<Longrightarrow> csum i bs = lSeed ^ (i + 1) * dword_of (take 4 bs) + csum (i + 1) (drop 4 bs)"
  by (subst csum.simps) simp

lemma dword_zeros: "dword_of (replicate m 0) = 0"
  by (induction m) (simp_all add: dword_of_def)

lemma dword_append: "dword_of (bs @ replicate m 0) = dword_of bs"
  using dword_zeros [of m] by (simp add: dword_of_def)

lemma csum_zeros: "csum i (replicate m 0) = 0"
proof (induction m arbitrary: i rule: less_induct)
  case (less m)
  show ?case
  proof (cases "m = 0")
    case False
    then show ?thesis using less [of "m - 4" "i + 1"] by (subst csum_step) (simp_all add: dword_zeros)
  qed simp
qed

text \<open>Zeros at the end do not count.\<close>

lemma csum_padded: "csum i (bs @ replicate m 0) = csum i bs"
proof (induction "length bs" arbitrary: i bs m rule: less_induct)
  case less
  show ?case
  proof (cases "bs = []")
    case True
    then show ?thesis by (simp add: csum_zeros)
  next
    case False
    have "take 4 (bs @ replicate m 0) = take 4 bs @ replicate (min (4 - length bs) m) 0" by simp
    then have d: "dword_of (take 4 (bs @ replicate m 0)) = dword_of (take 4 bs)" by (simp only: dword_append)
    have "drop 4 (bs @ replicate m 0) = drop 4 bs @ replicate (m - (4 - length bs)) 0" by simp
    moreover have "csum (i + 1) (drop 4 bs @ replicate j 0) = csum (i + 1) (drop 4 bs)" for j
    proof (cases "length bs > 4")
      case True
      show ?thesis by (rule less) (use True in simp)
    next
      case False
      then show ?thesis by (simp add: csum_zeros)
    qed
    ultimately show ?thesis using False d by (simp add: csum_step)
  qed
qed

subsection \<open>Correctness\<close>

lemma pad_block_spec:
  assumes "length buf mod 4 = 0" "n \<le> length buf"
  shows "\<exists>m. pad_block buf n = (take n buf @ replicate m 0 @ drop (n + m) buf, n + m) \<and> (n + m) mod 4 = 0 \<and>
    n + m \<le> length buf \<and> m < 4 \<and> (n mod 4 = 0 \<longrightarrow> m = 0)"
  using assms
proof (induction buf n rule: pad_block.induct)
  case (1 buf n)
  show ?case
  proof (cases "n mod 4 = 0")
    case True
    then show ?thesis using 1(3) by (subst pad_block.simps) (intro exI [of _ 0], simp)
  next
    case False
    then have lt: "n < length buf" using 1(2,3) by (metis le_neq_implies_less)
    obtain m where m: "pad_block (buf[n := 0]) (Suc n) = (take (Suc n) (buf[n := 0]) @ replicate m 0 @ drop (Suc n + m) (buf[n := 0]), Suc n + m)"
      "(Suc n + m) mod 4 = 0" "Suc n + m \<le> length buf" "m < 4" "Suc n mod 4 = 0 \<longrightarrow> m = 0"
      using 1(1) [OF False] 1(2) lt by auto
    have "take (Suc n) (buf[n := 0]) = take n buf @ [0]" using lt by (simp add: take_Suc_conv_app_nth)
    moreover have "m \<noteq> 3" using m(2) False by presburger
    ultimately show ?thesis using m False
      by (subst pad_block.simps) (intro exI [of _ "Suc m"], simp)
  qed
qed

text \<open>What the system calls deliver for a file that holds \<open>bs\<close>.\<close>

definition holds :: "fileio \<Rightarrow> byte list \<Rightarrow> bool" where
  "holds io bs \<longleftrightarrow> (\<forall>k. reads io k = Some (take BUFFLEN (drop (BUFFLEN * k) bs)))"

lemma checksum_loop_runs:
  assumes H: "holds io bs"
    and B: "length buf = BUFFLEN" "Byte \<le> Block" "Block \<le> BUFFLEN" "Byte mod 4 = 0" "Block mod 4 = 0"
    and cur: "cur = take (Block - Byte) (drop Byte buf)" and rest: "rest = drop (BUFFLEN * k) bs"
    and E: "Ending \<longrightarrow> rest = []"
  shows "checksum_loop io k buf Byte Block Ending (lSeed ^ n) acc = Some (acc + csum n (cur @ rest), 0)"
  using B cur rest E
proof (induction "length (cur @ rest)" arbitrary: k buf Byte Block Ending n acc cur rest rule: less_induct)
  case less
  note B = less.prems(1-5) and cur = less.prems(6) and rest = less.prems(7) and E = less.prems(8)
  have go: "checksum_loop io k' buf' (Byte' + 4) Block' Ending' (lSeed ^ n * lSeed) (acc + lSeed ^ n * lSeed * d) = Some (acc + csum n (cur @ rest), 0) \<and>
      dword_at buf' Byte' = Some d"
    if P: "length buf' = BUFFLEN" "Byte' < Block'" "Block' \<le> BUFFLEN" "Byte' mod 4 = 0" "Block' mod 4 = 0"
      and c: "cur' = take (Block' - Byte') (drop Byte' buf')" and r: "rest' = drop (BUFFLEN * k') bs" and e: "Ending' \<longrightarrow> rest' = []"
      and S: "csum n (cur' @ rest') = csum n (cur @ rest)" "length (drop 4 cur' @ rest') < length (cur @ rest)"
      and d: "d = dword_of (take 4 cur')" for k' buf' Byte' Block' Ending' cur' rest' d
  proof -
    have b4: "Byte' + 4 \<le> Block'" using P(2,4,5) by presburger
    then have l4: "4 \<le> length cur'" "take 4 (drop Byte' buf') = take 4 cur'" using P c by (auto simp: min_def)
    have da: "dword_at buf' Byte' = Some d" using b4 P(1,3) l4(2) by (simp add: dword_at_def d)
    have cut: "drop 4 cur' = take (Block' - (Byte' + 4)) (drop (Byte' + 4) buf')"
      using b4 unfolding c by (simp add: drop_take add.commute)
    have ne: "cur' @ rest' \<noteq> []" "take 4 (cur' @ rest') = take 4 cur'" "drop 4 (cur' @ rest') = drop 4 cur' @ rest'" using l4(1) by auto
    have pow: "lSeed ^ n * lSeed = lSeed ^ (n + 1)" by simp
    have "checksum_loop io k' buf' (Byte' + 4) Block' Ending' (lSeed ^ (n + 1)) (acc + lSeed ^ (n + 1) * d) =
      Some (acc + lSeed ^ (n + 1) * d + csum (n + 1) (drop 4 cur' @ rest'), 0)"
      by (rule less.hyps [OF S(2)]) (use P b4 cut r e in auto)
    moreover have "csum n (cur @ rest) = lSeed ^ (n + 1) * d + csum (n + 1) (drop 4 cur' @ rest')"
      unfolding S(1) [symmetric] csum_step [OF ne(1)] ne(2,3) d ..
    ultimately show ?thesis using da unfolding pow by (simp only: add.assoc simp_thms)
  qed
  show ?case
  proof (cases "Byte < Block")
    case True
    have "Byte + 4 \<le> Block" using True B(4,5) by presburger
    then have "4 \<le> length cur" using B(1,3) cur by (auto simp: min_def)
    then have "length (drop 4 cur @ rest) < length (cur @ rest)" by simp
    from go [OF B(1) True B(3-5) cur rest E refl this refl] True show ?thesis
      by (subst checksum_loop.simps) (simp add: mult.assoc)
  next
    case False
    then have eq: "Byte = Block" and c0: "cur = []" using B(2) cur by auto
    have rd: "reads io k = Some (take BUFFLEN rest)" using H rest by (simp add: holds_def)
    show ?thesis
    proof (cases "rest = []")
      case True
      then show ?thesis using rd eq c0 by (subst checksum_loop.simps) (simp add: next_block_def)
    next
      case nr: False
      then have nE: "\<not> Ending" using E by blast
      define xs where "xs = take BUFFLEN rest"
      define r where "r = drop BUFFLEN rest"
      define b where "b = xs @ drop (length xs) buf"
      have xr: "rest = xs @ r" and xle: "length xs \<le> BUFFLEN" and tail: "length xs < BUFFLEN \<longrightarrow> r = []"
        by (simp_all add: xs_def r_def)
      have ne: "xs \<noteq> []" using nr by (simp add: xs_def BUFFLEN_def)
      have lb: "length b = BUFFLEN" "length b mod 4 = 0" "length xs \<le> length b"
        using B(1) xle by (simp_all add: b_def BUFFLEN_def)
      obtain m where m: "pad_block b (length xs) = (take (length xs) b @ replicate m 0 @ drop (length xs + m) b, length xs + m)"
        "(length xs + m) mod 4 = 0" "length xs + m \<le> length b" "m < 4" "length xs mod 4 = 0 \<longrightarrow> m = 0"
        using pad_block_spec [OF lb(2,3)] by (elim exE conjE) (rule that, assumption+)
      have tb: "take (length xs) b = xs" by (simp add: b_def)
      define buf' where "buf' = xs @ replicate m 0 @ drop (length xs + m) b"
      define cur' where "cur' = xs @ replicate m 0"
      have r': "r = drop (BUFFLEN * Suc k) bs" unfolding r_def rest by (simp add: add.commute)
      have full: "m \<noteq> 0 \<longrightarrow> r = []" using m(3) lb(1) tail by auto
      have e': "length xs mod 4 \<noteq> 0 \<longrightarrow> r = []" using full m(2) by (cases "m = 0") auto
      have S: "csum n (cur' @ r) = csum n (cur @ rest)"
      proof (cases "m = 0")
        case False
        then show ?thesis using full c0 by (simp add: cur'_def xr csum_padded)
      qed (simp add: c0 cur'_def xr)
      have len: "length (drop 4 cur' @ r) < length (cur @ rest)" using ne m(4) c0 by (cases xs) (auto simp: cur'_def xr)
      have pb: "length buf' = BUFFLEN" "0 < length xs + m" "length xs + m \<le> BUFFLEN" "cur' = take (length xs + m - 0) (drop 0 buf')"
        using lb m(3) ne by (auto simp: buf'_def cur'_def)
      have nb: "next_block io k buf Byte Block Ending acc = Inr (Suc k, buf', 0, length xs + m, length xs mod 4 \<noteq> 0)"
        using rd eq nE ne m(1) unfolding next_block_def xs_def [symmetric] tb buf'_def [symmetric] by (simp flip: b_def)
      from go [OF pb(1-3) _ m(2) pb(4) r' e' S len refl] nb False show ?thesis
        by (subst checksum_loop.simps) (simp add: mult.assoc)
    qed
  qed
qed

lemma checksum_file_spec:
  assumes "holds io bs" "i < 6" "opens io i"
  shows "checksum_file io = Some (csum 0 bs, 0)"
proof -
  have "checksum_loop io 0 (replicate BUFFLEN 0) 0 0 False (lSeed ^ 0) 0 = Some (0 + csum 0 ([] @ bs), 0)"
    by (rule checksum_loop_runs [OF assms(1)]) simp_all
  then show ?thesis using assms(2,3) by (auto simp: checksum_file_def)
qed

end
