(* ===== verification/Windiff_Line.thy ===== *)
theory Windiff_Line
  imports Gutils_Utils Gutils_List_Ample Gutils_Tree_Correct
begin

text \<open>
  The state of the comparison engine of WinDiff, and the model of \<open>windiff/windiff/line.c\<close>:
  lines of text with a cached hash code, which can be linked to an equal line of the other file.

  \<^item> The engine's structures lie in the storage of \<open>list.c\<close> (component \<open>lh\<close>) or in
    the \<open>gmem\<close> heap (inside \<open>ts\<close>, which also holds the counting trees).  The
    structures themselves are kept beside that storage, by the address the code uses for them:
    \<open>fls\<close> the lines, \<open>scs\<close> the sections, \<open>texts\<close> and \<open>wtexts\<close> the
    character blocks.  Storage that is given back takes the structures in it along (\<open>purge\<close>).
  \<^item> What the engine takes from its surroundings is in a record \<open>wenv\<close>: the two memory
    systems, the DBCS functions of the system, the handle of the heap and the option
    \<open>ignore_blanks\<close> (set by the user interface, constant during a comparison).
\<close>

subsection \<open>State\<close>

record fileline =
  flags :: "32 word"
  ltext :: ptr
  hash :: "32 word"
  llink :: ptr
  linenr :: "32 word"
  pwzText :: ptr

definition LF_DISCARD :: "32 word" where "LF_DISCARD = 1"
definition LF_HASHVALID :: "32 word" where "LF_HASHVALID = 2"
definition sizeof_fileline :: nat where "sizeof_fileline = 24"

record sect =
  sfirst :: ptr
  slast :: ptr
  bDiscard :: bool
  slink :: ptr
  scorrespond :: ptr
  sstate :: nat
  leftbase :: "32 word"
  rightbase :: "32 word"

record wd =
  lh :: "unit lheap"
  ts :: "ptr cval tstate"
  fls :: "ptr \<rightharpoonup> fileline"
  scs :: "ptr \<rightharpoonup> sect"
  texts :: "ptr \<rightharpoonup> cstring"
  wtexts :: "ptr \<rightharpoonup> 16 word list"
  wtrace :: "string list"

record wenv =
  lga :: galloc
  genv :: genv
  wheap :: nat
  lead :: "byte \<Rightarrow> bool"
  charnext :: "cstring \<Rightarrow> cstring"
  ignore_blanks :: bool

definition WTRACE :: "string \<Rightarrow> wd \<Rightarrow> wd" where
  "WTRACE m w = w\<lparr>wtrace := wtrace w @ [m]\<rparr>"

text \<open>Running an operation of \<open>list.c\<close> or \<open>gmem.c\<close> on its part of the state.\<close>

definition on_list :: "(unit lheap \<Rightarrow> ('a \<times> unit lheap) option) \<Rightarrow> wd \<Rightarrow> ('a \<times> wd) option" where
  "on_list f w = do { (x, h) \<leftarrow> f (lh w); Some (x, w\<lparr>lh := h\<rparr>) }"

definition on_tree :: "(ptr cval tstate \<Rightarrow> ('a \<times> ptr cval tstate) option) \<Rightarrow> wd \<Rightarrow> ('a \<times> wd) option" where
  "on_tree f w = do { (x, t) \<leftarrow> f (ts w); Some (x, w\<lparr>ts := t\<rparr>) }"

definition wget :: "wenv \<Rightarrow> nat \<Rightarrow> wd \<Rightarrow> (ptr \<times> wd) option" where
  "wget e n = on_tree (tget (genv e) (wheap e) n)"

definition wfree :: "wenv \<Rightarrow> ptr \<Rightarrow> nat \<Rightarrow> wd \<Rightarrow> wd option" where
  "wfree e p n w = do { t \<leftarrow> tfree (wheap e) p n (ts w); Some (w\<lparr>ts := t\<rparr>) }"

definition purge :: "unit lheap \<Rightarrow> wd \<Rightarrow> wd" where
  "purge h w = (let dead = (\<lambda>p. items (lh w) (MOVEBACK p) \<noteq> None \<and> items h (MOVEBACK p) = None)
     in w\<lparr>lh := h, fls := (\<lambda>p. if dead p then None else fls w p), scs := (\<lambda>p. if dead p then None else scs w p)\<rparr>)"

definition wList_Destroy :: "ptr \<Rightarrow> wd \<Rightarrow> wd option" where
  "wList_Destroy l w = do { (l, h) \<leftarrow> List_Destroy (Some l) (lh w); Some (purge h w) }"

abbreviation Next :: "ptr \<Rightarrow> wd \<Rightarrow> (ptr \<times> wd) option" where "Next p \<equiv> on_list (List_Next p)"
abbreviation Prev :: "ptr \<Rightarrow> wd \<Rightarrow> (ptr \<times> wd) option" where "Prev p \<equiv> on_list (List_Prev p)"

subsection \<open>Making and deleting lines\<close>

text \<open>\<open>My_mbsncpy\<close>: the bytes written for \<open>n\<close> bytes of a source.\<close>

function mbsncpy :: "(byte \<Rightarrow> bool) \<Rightarrow> cstring \<Rightarrow> nat \<Rightarrow> cstring option" where
  "mbsncpy ld src n =
     (if n = 0 then Some []
      else (case src of
          [] \<Rightarrow> None
        | c # cs \<Rightarrow>
           if c = 0 then do { r \<leftarrow> mbsncpy ld src (n - 1); Some (0 # r) }
           else if ld c then
             (if n = 1 then Some [0]
              else (case cs of [] \<Rightarrow> None | d # ds \<Rightarrow> do { r \<leftarrow> mbsncpy ld ds (n - 2); Some (c # d # r) }))
           else do { r \<leftarrow> mbsncpy ld cs (n - 1); Some (c # r) }))"
  by pat_completeness auto
termination by (relation "measure (\<lambda>(ld, src, n). n)") auto

declare mbsncpy.simps [simp del]

text \<open>\<open>wcsncpy\<close> of the C library: copies up to the terminator, then fills with zeros.\<close>

fun wcsncpy :: "16 word list \<Rightarrow> nat \<Rightarrow> 16 word list option" where
  "wcsncpy src 0 = Some []"
| "wcsncpy [] (Suc n) = None"
| "wcsncpy (c # cs) (Suc n) = (if c = 0 then Some (replicate (Suc n) 0)
     else do { r \<leftarrow> wcsncpy cs n; Some (c # r) })"

text \<open>The block that holds the copy of a text of \<open>n\<close> characters, with CR/LF added when it
  does not end in a newline, and NUL.\<close>

definition text_block :: "(byte \<Rightarrow> bool) \<Rightarrow> cstring \<Rightarrow> nat \<Rightarrow> cstring option" where
  "text_block ld src n =
     (if n = 0 \<or> length src < n then None
      else do { r \<leftarrow> mbsncpy ld src n; Some (r @ (if src ! (n - 1) = 10 then [] else [13, 10]) @ [0]) })"

definition wtext_block :: "16 word list \<Rightarrow> nat \<Rightarrow> 16 word list option" where
  "wtext_block src n =
     (if n = 0 \<or> length src < n then None
      else do { r \<leftarrow> wcsncpy src n; Some (r @ (if src ! (n - 1) = 10 then [] else [13, 10]) @ [0]) })"

definition line_new :: "wenv \<Rightarrow> cstring \<Rightarrow> nat \<Rightarrow> 16 word list option \<Rightarrow> nat \<Rightarrow> 32 word \<Rightarrow> ptr \<Rightarrow> wd \<Rightarrow> (ptr \<times> wd) option" where
  "line_new e txt linelength pwz cwchText nr lst w = do {
     (line, w) \<leftarrow> (if lst \<noteq> NULL then on_list (List_NewLast (lga e) lst sizeof_fileline) w else wget e sizeof_fileline w);
     if line = NULL then Some (NULL, w)
     else do {
       blk \<leftarrow> text_block (lead e) txt linelength;
       (t, w) \<leftarrow> wget e (length blk) w;
       w \<leftarrow> (if t = NULL then None else Some (w\<lparr>texts := (texts w)(t \<mapsto> blk)\<rparr>));
       (pw, w) \<leftarrow> (case pwz of
            None \<Rightarrow> Some (NULL, w)
          | Some src \<Rightarrow> do {
              wblk \<leftarrow> wtext_block src cwchText;
              (pw, w) \<leftarrow> wget e (2 * length wblk) w;
              if pw = NULL then None else Some (pw, w\<lparr>wtexts := (wtexts w)(pw \<mapsto> wblk)\<rparr>)
            });
       Some (line, w\<lparr>fls := (fls w)(line \<mapsto> \<lparr>flags = (if lst \<noteq> NULL then 0 else LF_DISCARD), ltext = t,
          hash = 0, llink = NULL, linenr = nr, pwzText = pw\<rparr>)\<rparr>)
     }
   }"

definition ld_line :: "ptr \<Rightarrow> wd \<Rightarrow> fileline option" where
  "ld_line p w = fls w p"

definition wr_line :: "ptr \<Rightarrow> (fileline \<Rightarrow> fileline) \<Rightarrow> wd \<Rightarrow> wd option" where
  "wr_line p f w = (case fls w p of None \<Rightarrow> None | Some l \<Rightarrow> Some (w\<lparr>fls := (fls w)(p \<mapsto> f l)\<rparr>))"

text \<open>\<open>lstrlen\<close>.\<close>

fun lstrlen :: "cstring \<Rightarrow> nat option" where
  "lstrlen [] = None"
| "lstrlen (c # cs) = (if c = 0 then Some 0 else map_option Suc (lstrlen cs))"

definition line_delete :: "wenv \<Rightarrow> ptr \<Rightarrow> wd \<Rightarrow> wd option" where
  "line_delete e line w =
     (if line = NULL then Some w
      else do {
        l \<leftarrow> ld_line line w;
        t \<leftarrow> texts w (ltext l);
        n \<leftarrow> lstrlen t;
        w \<leftarrow> wfree e (ltext l) (n + 1) w;
        let w = w\<lparr>texts := (texts w)(ltext l := None)\<rparr>;
        if and (flags l) LF_DISCARD \<noteq> 0
        then do { w \<leftarrow> wfree e line sizeof_fileline w; Some (w\<lparr>fls := (fls w)(line := None)\<rparr>) }
        else Some w
      })"

definition line_reset :: "ptr \<Rightarrow> wd \<Rightarrow> wd option" where
  "line_reset line w =
     (if line = NULL then Some w
      else do {
        w \<leftarrow> wr_line line (\<lambda>l. l\<lparr>llink := NULL\<rparr>) w;
        wr_line line (\<lambda>l. l\<lparr>flags := and (flags l) (not LF_HASHVALID)\<rparr>) w
      })"

subsection \<open>Reading lines\<close>

definition line_gettext :: "ptr \<Rightarrow> wd \<Rightarrow> ptr option" where
  "line_gettext line w = (if line = NULL then Some NULL else map_option ltext (ld_line line w))"

definition line_gettextW :: "ptr \<Rightarrow> wd \<Rightarrow> ptr option" where
  "line_gettextW line w = (if line = NULL then Some NULL else map_option pwzText (ld_line line w))"

text \<open>The characters from a text pointer on.\<close>

definition chars :: "ptr \<Rightarrow> wd \<Rightarrow> cstring option" where
  "chars p w = texts w p"

function textlen_loop :: "wenv \<Rightarrow> int \<Rightarrow> cstring \<Rightarrow> int option" where
  "textlen_loop e n str = (case str of
       [] \<Rightarrow> None
     | c # cs \<Rightarrow>
        if c = 0 then Some n
        else (case (if ignore_blanks e then skip_blanks (c # cs) else Some (c # cs)) of
            None \<Rightarrow> None
          | Some [] \<Rightarrow> None
          | Some (d # ds) \<Rightarrow> if lead e d then textlen_loop e (n + 2) (tl ds) else textlen_loop e (n + 1) ds))"
  by pat_completeness auto
termination
  by (relation "measure (\<lambda>(e, n, s). length s)") (auto split: if_splits dest!: skip_blanks_length)

declare textlen_loop.simps [simp del]

definition line_gettextlen :: "wenv \<Rightarrow> ptr \<Rightarrow> wd \<Rightarrow> int option" where
  "line_gettextlen e line w = do {
     l \<leftarrow> ld_line line w;
     t \<leftarrow> chars (ltext l) w;
     textlen_loop e 0 t
   }"

fun tabbed_loop :: "(byte \<Rightarrow> bool) \<Rightarrow> int \<Rightarrow> int \<Rightarrow> cstring \<Rightarrow> int option" where
  "tabbed_loop ld tabstops n [] = None"
| "tabbed_loop ld tabstops n (c # cs) =
     (if c = 0 then Some n
      else if c = 9 then tabbed_loop ld tabstops ((n + tabstops) div tabstops * tabstops) cs
      else if ld c then (case cs of [] \<Rightarrow> None | d # ds \<Rightarrow> tabbed_loop ld tabstops (n + 2) ds)
      else tabbed_loop ld tabstops (n + 1) cs)"

definition line_gettabbedlength :: "wenv \<Rightarrow> ptr \<Rightarrow> int \<Rightarrow> wd \<Rightarrow> int option" where
  "line_gettabbedlength e line tabstops w =
     (if line = NULL then Some 0
      else do { l \<leftarrow> ld_line line w; t \<leftarrow> chars (ltext l) w; tabbed_loop (lead e) tabstops 0 t })"

definition line_gethashcode :: "wenv \<Rightarrow> ptr \<Rightarrow> wd \<Rightarrow> (32 word \<times> wd) option" where
  "line_gethashcode e line w =
     (if line = NULL then Some (0, w)
      else do {
        l \<leftarrow> ld_line line w;
        w \<leftarrow> (if and (flags l) LF_HASHVALID = 0
             then do {
               t \<leftarrow> chars (ltext l) w;
               h \<leftarrow> hash_string t (ignore_blanks e);
               w \<leftarrow> wr_line line (\<lambda>l. l\<lparr>hash := h\<rparr>) w;
               wr_line line (\<lambda>l. l\<lparr>flags := or (flags l) LF_HASHVALID\<rparr>) w
             }
             else Some w);
        l \<leftarrow> ld_line line w;
        Some (hash l, w)
      })"

definition line_getlink :: "ptr \<Rightarrow> wd \<Rightarrow> ptr option" where
  "line_getlink line w = (if line = NULL then Some NULL else map_option llink (ld_line line w))"

definition line_getlinenr :: "ptr \<Rightarrow> wd \<Rightarrow> 32 word option" where
  "line_getlinenr line w = (if line = NULL then Some 0 else map_option linenr (ld_line line w))"

definition line_isblank :: "ptr \<Rightarrow> wd \<Rightarrow> bool option" where
  "line_isblank line w =
     (if line = NULL then Some False
      else do { l \<leftarrow> ld_line line w; t \<leftarrow> chars (ltext l) w; utils_isblank t })"

subsection \<open>Comparing and linking\<close>

partial_function (option) skip_next :: "(cstring \<Rightarrow> cstring) \<Rightarrow> cstring \<Rightarrow> cstring option" where
  "skip_next cn p = (case p of [] \<Rightarrow> None | c # _ \<Rightarrow> if IS_BLANK c then skip_next cn (cn p) else Some p)"

text \<open>\<open>IsDBCSLeadByte( *p) && *(p+1) != '\0'\<close>: the second byte is read only after a lead byte.\<close>

definition pair_at :: "(byte \<Rightarrow> bool) \<Rightarrow> cstring \<Rightarrow> bool option" where
  "pair_at ld p = (case p of [] \<Rightarrow> None | c # cs \<Rightarrow>
     if ld c then (case cs of [] \<Rightarrow> None | d # _ \<Rightarrow> Some (d \<noteq> 0)) else Some False)"

partial_function (option) compare_loop :: "wenv \<Rightarrow> cstring \<Rightarrow> cstring \<Rightarrow> bool option" where
  "compare_loop e p1 p2 = do {
     p1 \<leftarrow> (if ignore_blanks e then skip_next (charnext e) p1 else Some p1);
     p2 \<leftarrow> (if ignore_blanks e then skip_next (charnext e) p2 else Some p2);
     a \<leftarrow> pair_at (lead e) p1;
     b \<leftarrow> (if a then pair_at (lead e) p2 else Some False);
     if p1 = [] \<or> p2 = [] then None
     else if a \<and> b \<and> (hd p1 \<noteq> hd p2 \<or> hd (tl p1) \<noteq> hd (tl p2)) \<or> \<not> (a \<and> b) \<and> hd p1 \<noteq> hd p2 then Some False
     else do {
       let q1 = (if a \<and> b then tl (tl p1) else tl p1);
       let q2 = (if a \<and> b then tl (tl p2) else tl p2);
       if q1 = [] then None
       else if hd q1 = 0 then Some True
       else if q2 = [] then None
       else if hd q2 = 0 then Some True
       else compare_loop e q1 q2
     }
   }"

definition line_compare :: "wenv \<Rightarrow> ptr \<Rightarrow> ptr \<Rightarrow> wd \<Rightarrow> (bool \<times> wd) option" where
  "line_compare e line1 line2 w =
     (if line1 = NULL \<or> line2 = NULL then Some (False, w)
      else do {
        (h1, w) \<leftarrow> line_gethashcode e line1 w;
        (h2, w) \<leftarrow> line_gethashcode e line2 w;
        if h1 \<noteq> h2 then Some (False, w)
        else do {
          t1 \<leftarrow> line_gettext line1 w;
          t2 \<leftarrow> line_gettext line2 w;
          p1 \<leftarrow> chars t1 w;
          p2 \<leftarrow> chars t2 w;
          r \<leftarrow> compare_loop e p1 p2;
          Some (r, w)
        }
      })"

definition line_link :: "wenv \<Rightarrow> ptr \<Rightarrow> ptr \<Rightarrow> wd \<Rightarrow> (bool \<times> wd) option" where
  "line_link e line1 line2 w =
     (if line1 = NULL \<or> line2 = NULL then Some (False, w)
      else do {
        a \<leftarrow> ld_line line1 w;
        b \<leftarrow> ld_line line2 w;
        if llink a \<noteq> NULL \<or> llink b \<noteq> NULL then Some (False, w)
        else do {
          (r, w) \<leftarrow> line_compare e line1 line2 w;
          if r then do {
            w \<leftarrow> wr_line line1 (\<lambda>l. l\<lparr>llink := line2\<rparr>) w;
            w \<leftarrow> wr_line line2 (\<lambda>l. l\<lparr>llink := line1\<rparr>) w;
            Some (True, w)
          } else Some (False, w)
        }
      })"

end
