(* ===== verification/Windiff_Line_Correct.thy ===== *)
theory Windiff_Line_Correct
  imports Windiff_Line
begin

text \<open>
  Correctness of \<open>line.c\<close> in a single-byte code page: two lines compare equal exactly if
  their texts are equal (up to blanks when blanks are ignored); hash codes are computed at most
  once and stay right; links are mutual and join equal lines only (\<open>lines_ok\<close>).
\<close>

subsection \<open>The invariant\<close>

definition env_ok :: "wenv \<Rightarrow> bool" where
  "env_ok e \<longleftrightarrow> charnext_ok (lead e) (charnext e) \<and> \<not> lead e 0 \<and> (\<forall>c. IS_BLANK c \<longrightarrow> \<not> lead e c)"

text \<open>A text of one line: single bytes, one newline, at the end.\<close>

definition text_ok :: "wenv \<Rightarrow> cstring \<Rightarrow> bool" where
  "text_ok e t \<longleftrightarrow> t \<noteq> [] \<and> last t = 10 \<and> 10 \<notin> set (butlast t) \<and> single (lead e) t"

abbreviation hash_valid :: "fileline \<Rightarrow> bool" where
  "hash_valid l \<equiv> and (flags l) LF_HASHVALID \<noteq> 0"

definition line_ok :: "wenv \<Rightarrow> wd \<Rightarrow> fileline \<Rightarrow> bool" where
  "line_ok e w l \<longleftrightarrow> (\<exists>t. texts w (ltext l) = Some (t @ [0]) \<and> text_ok e t \<and>
     (hash_valid l \<longrightarrow> hash l = hash_sum 0 (shown (ignore_blanks e) t)))"

definition line_text :: "wd \<Rightarrow> ptr \<Rightarrow> cstring" where
  "line_text w p = butlast (the (texts w (ltext (the (fls w p)))))"

text \<open>What of a line counts in a comparison.\<close>

definition line_key :: "wenv \<Rightarrow> wd \<Rightarrow> ptr \<Rightarrow> cstring" where
  "line_key e w p = shown (ignore_blanks e) (line_text w p)"

definition lk :: "wd \<Rightarrow> ptr \<Rightarrow> ptr" where
  "lk w p = (case fls w p of None \<Rightarrow> NULL | Some l \<Rightarrow> llink l)"

definition lines_ok :: "wenv \<Rightarrow> wd \<Rightarrow> bool" where
  "lines_ok e w \<longleftrightarrow> fls w NULL = None \<and> (\<forall>p l. fls w p = Some l \<longrightarrow> line_ok e w l) \<and>
     (\<forall>p. lk w p \<noteq> NULL \<longrightarrow> fls w (lk w p) \<noteq> None \<and> lk w (lk w p) = p \<and> line_key e w (lk w p) = line_key e w p)"

text \<open>\<open>kept w w'\<close>: nothing but links and cached hash codes of lines has changed.\<close>

definition core :: "fileline \<Rightarrow> ptr \<times> 32 word \<times> ptr \<times> 32 word" where
  "core l = (ltext l, linenr l, pwzText l, and (flags l) LF_DISCARD)"

definition kept :: "wd \<Rightarrow> wd \<Rightarrow> bool" where
  "kept w w' \<longleftrightarrow> lh w' = lh w \<and> ts w' = ts w \<and> scs w' = scs w \<and> texts w' = texts w \<and> wtexts w' = wtexts w \<and>
     wtrace w' = wtrace w \<and> (\<forall>p. map_option core (fls w' p) = map_option core (fls w p))"

lemma kept_refl [simp]: "kept w w"
  by (simp add: kept_def)

lemma kept_trans: "kept w w1 \<Longrightarrow> kept w1 w2 \<Longrightarrow> kept w w2"
  by (simp add: kept_def)

lemma kept_live: "kept w w' \<Longrightarrow> fls w' p = None \<longleftrightarrow> fls w p = None"
  unfolding kept_def by (metis map_option_is_None)

lemma kept_text:
  assumes "kept w w'"
  shows "line_text w' p = line_text w p" "line_key e w' p = line_key e w p"
proof -
  have c: "map_option core (fls w' p) = map_option core (fls w p)" and t: "texts w' = texts w" using assms by (simp_all add: kept_def)
  show "line_text w' p = line_text w p"
    using c t by (cases "fls w p"; cases "fls w' p") (auto simp: line_text_def core_def)
  then show "line_key e w' p = line_key e w p" by (simp add: line_key_def)
qed

lemma kept_nr: "kept w w' \<Longrightarrow> line_getlinenr p w' = line_getlinenr p w"
  unfolding kept_def line_getlinenr_def ld_line_def
  by (cases "fls w p"; cases "fls w' p") (auto simp: core_def dest!: spec [of _ p])

lemma text_ok_solid: "text_ok e t \<Longrightarrow> solid t" "text_ok e t \<Longrightarrow> 0 \<notin> set t"
  by (auto simp: text_ok_def solid_def single_def)

lemma lines_okD:
  assumes "lines_ok e w" "fls w p = Some l"
  obtains t where "texts w (ltext l) = Some (t @ [0])" "text_ok e t" "line_text w p = t" "p \<noteq> NULL"
    "hash_valid l \<Longrightarrow> hash l = hash_sum 0 (line_key e w p)"
proof -
  obtain t where t: "texts w (ltext l) = Some (t @ [0])" "text_ok e t"
    "hash_valid l \<longrightarrow> hash l = hash_sum 0 (shown (ignore_blanks e) t)"
    using assms unfolding lines_ok_def line_ok_def by blast
  moreover have "line_text w p = t" using t assms(2) by (simp add: line_text_def)
  moreover have "p \<noteq> NULL" using assms unfolding lines_ok_def by auto
  ultimately show thesis using that by (simp add: line_key_def)
qed

subsection \<open>Hash codes\<close>

lemma hash_bits [simp]: "and (or f LF_HASHVALID) LF_HASHVALID \<noteq> 0" "and (or f LF_HASHVALID) LF_DISCARD = and f LF_DISCARD"
proof -
  have "bit (and (or f LF_HASHVALID) LF_HASHVALID) 1" by (simp add: bit_and_iff bit_or_iff LF_HASHVALID_def)
  then show "and (or f LF_HASHVALID) LF_HASHVALID \<noteq> 0" by force
  show "and (or f LF_HASHVALID) LF_DISCARD = and f LF_DISCARD"
    by (rule bit_word_eqI) (auto simp: bit_simps LF_HASHVALID_def LF_DISCARD_def)
qed

text \<open>Storing a field of a line that is neither its text nor its link.\<close>

lemma set_hash_ok:
  assumes "lines_ok e w" "fls w p = Some l" "ltext l' = ltext l" "llink l' = llink l"
    and "hash_valid l' \<longrightarrow> hash l' = hash_sum 0 (line_key e w p)"
  shows "lines_ok e (w\<lparr>fls := (fls w)(p \<mapsto> l')\<rparr>)" "lk (w\<lparr>fls := (fls w)(p \<mapsto> l')\<rparr>) = lk w"
proof -
  let ?w = "w\<lparr>fls := (fls w)(p \<mapsto> l')\<rparr>"
  show L: "lk ?w = lk w" using assms(2,4) by (auto simp: lk_def)
  have T: "line_text ?w = line_text w" using assms(2,3) by (auto simp: line_text_def)
  have K: "line_key e ?w = line_key e w" by (rule ext) (simp add: line_key_def T)
  obtain t where t: "texts w (ltext l) = Some (t @ [0])" "text_ok e t" "line_text w p = t" "p \<noteq> NULL"
    by (rule lines_okD [OF assms(1,2)])
  have "line_ok e ?w l'" using t assms(3,5) by (auto simp: line_ok_def line_key_def)
  moreover have "line_ok e ?w m" if "fls w q = Some m" for q m
    using that assms(1) unfolding lines_ok_def line_ok_def by simp
  ultimately show "lines_ok e ?w" using assms(1) t(4) unfolding lines_ok_def L K by auto
qed

lemma line_gethashcode_spec:
  assumes "lines_ok e w" "fls w p = Some l"
  shows "\<exists>w'. line_gethashcode e p w = Some (hash_sum 0 (line_key e w p), w') \<and> lines_ok e w' \<and> kept w w' \<and> lk w' = lk w"
proof -
  obtain t where t: "texts w (ltext l) = Some (t @ [0])" "text_ok e t" "line_text w p = t" "p \<noteq> NULL"
    "hash_valid l \<Longrightarrow> hash l = hash_sum 0 (line_key e w p)" by (rule lines_okD [OF assms]) blast
  show ?thesis
  proof (cases "hash_valid l")
    case True
    then have "line_gethashcode e p w = Some (hash_sum 0 (line_key e w p), w)"
      using t assms(2) by (simp add: line_gethashcode_def ld_line_def)
    then show ?thesis using assms(1) by auto
  next
    case False
    have h: "hash_string (t @ [0]) (ignore_blanks e) = Some (hash_sum 0 (line_key e w p))"
      using hash_string_spec [OF text_ok_solid(1) [OF t(2)]] t(3) by (simp add: line_key_def)
    let ?l = "l\<lparr>hash := hash_sum 0 (line_key e w p), flags := or (flags l) LF_HASHVALID\<rparr>"
    have "line_gethashcode e p w = Some (hash_sum 0 (line_key e w p), w\<lparr>fls := (fls w)(p \<mapsto> ?l)\<rparr>)"
      using t(1,4) False h assms(2) by (simp add: line_gethashcode_def ld_line_def chars_def wr_line_def)
    moreover have "kept w (w\<lparr>fls := (fls w)(p \<mapsto> ?l)\<rparr>)" using assms(2) by (auto simp: kept_def core_def)
    moreover have "lines_ok e (w\<lparr>fls := (fls w)(p \<mapsto> ?l)\<rparr>)" "lk (w\<lparr>fls := (fls w)(p \<mapsto> ?l)\<rparr>) = lk w"
      by (rule set_hash_ok [OF assms]; simp)+
    ultimately show ?thesis by blast
  qed
qed

subsection \<open>Comparing\<close>

lemma text_ok_tl: "text_ok e (c # cs) \<Longrightarrow> cs \<noteq> [] \<Longrightarrow> text_ok e cs"
  by (auto simp: text_ok_def single_def)

lemma text_ok_newline: "text_ok e (10 # cs) \<Longrightarrow> cs = []"
  by (auto simp: text_ok_def split: if_splits)

lemma text_ok_last: "text_ok e [c] \<Longrightarrow> c = 10"
  by (simp add: text_ok_def)

lemma skip_next_spec:
  assumes "env_ok e" "text_ok e t"
  obtains b d ds where "skip_next (charnext e) (t @ 0 # r) = Some (d # ds @ 0 # r)" "t = b @ d # ds" "\<forall>x \<in> set b. IS_BLANK x"
    "\<not> IS_BLANK d" "text_ok e (d # ds)"
  using assms(2)
proof (induction t arbitrary: thesis)
  case Nil
  then show ?case by (simp add: text_ok_def)
next
  case (Cons c cs)
  show ?case
  proof (cases "IS_BLANK c")
    case False
    then show ?thesis using Cons.prems by (intro Cons.prems(1) [of c cs "[]"]) (simp_all add: skip_next.simps)
  next
    case True
    then have ne: "cs \<noteq> []" using text_ok_last [of e c] Cons.prems(2) by auto
    have "c \<noteq> 0" "\<not> lead e c" using Cons.prems(2) by (auto simp: text_ok_def single_def)
    then have "charnext e (c # cs @ 0 # r) = cs @ 0 # r" using assms(1) unfolding env_ok_def charnext_ok_def by blast
    then have s: "skip_next (charnext e) ((c # cs) @ 0 # r) = skip_next (charnext e) (cs @ 0 # r)"
      using True by (subst skip_next.simps) simp
    obtain b d ds where "skip_next (charnext e) (cs @ 0 # r) = Some (d # ds @ 0 # r)" "cs = b @ d # ds" "\<forall>x \<in> set b. IS_BLANK x"
      "\<not> IS_BLANK d" "text_ok e (d # ds)" by (rule Cons.IH [OF _ text_ok_tl [OF Cons.prems(2) ne]])
    then show ?thesis using s True by (intro Cons.prems(1) [of d ds "c # b"]) auto
  qed
qed

lemma start_spec:
  assumes "env_ok e" "text_ok e t"
  obtains d ds where "(if ignore_blanks e then skip_next (charnext e) (t @ [0]) else Some (t @ [0])) = Some (d # ds @ [0])"
    "length ds < length t" "shown (ignore_blanks e) t = d # shown (ignore_blanks e) ds" "text_ok e (d # ds)"
proof (cases "ignore_blanks e")
  case True
  obtain b d ds where D: "skip_next (charnext e) (t @ [0]) = Some (d # ds @ [0])" "t = b @ d # ds" "\<forall>x \<in> set b. IS_BLANK x"
    "\<not> IS_BLANK d" "text_ok e (d # ds)" by (rule skip_next_spec [OF assms, of "[]"])
  then have "filter (\<lambda>c. \<not> IS_BLANK c) t = d # filter (\<lambda>c. \<not> IS_BLANK c) ds" by simp
  then show thesis using D True by (intro that [of d ds]) (auto simp: shown_def)
next
  case False
  obtain c cs where "t = c # cs" using assms(2) by (cases t) (auto simp: text_ok_def)
  then show thesis using False assms(2) by (intro that [of c cs]) (auto simp: shown_def)
qed

lemma compare_loop_spec:
  assumes "env_ok e" "text_ok e t1" "text_ok e t2"
  shows "compare_loop e (t1 @ [0]) (t2 @ [0]) = Some (shown (ignore_blanks e) t1 = shown (ignore_blanks e) t2)"
  using assms(2,3)
proof (induction "length t1" arbitrary: t1 t2 rule: less_induct)
  case less
  obtain d ds where D: "(if ignore_blanks e then skip_next (charnext e) (t1 @ [0]) else Some (t1 @ [0])) = Some (d # ds @ [0])"
    "length ds < length t1" "shown (ignore_blanks e) t1 = d # shown (ignore_blanks e) ds" "text_ok e (d # ds)"
    by (rule start_spec [OF assms(1) less.prems(1)])
  obtain c cs where C: "(if ignore_blanks e then skip_next (charnext e) (t2 @ [0]) else Some (t2 @ [0])) = Some (c # cs @ [0])"
    "length cs < length t2" "shown (ignore_blanks e) t2 = c # shown (ignore_blanks e) cs" "text_ok e (c # cs)"
    by (rule start_spec [OF assms(1) less.prems(2)])
  have nl: "\<not> lead e d" using D(4) by (simp add: text_ok_def single_def)
  have run: "compare_loop e (t1 @ [0]) (t2 @ [0]) = (if d \<noteq> c then Some False else
     if hd (ds @ [0]) = 0 then Some True else if hd (cs @ [0]) = 0 then Some True else compare_loop e (ds @ [0]) (cs @ [0]))"
    unfolding compare_loop.simps [of e "t1 @ [0]"] D(1) C(1) using nl by (simp add: pair_at_def)
  have n0: "hd (x @ [0]) = 0 \<longleftrightarrow> x = []" if "text_ok e (y # x)" for x y
    using that by (cases x) (auto simp: text_ok_def single_def)
  have e: "ds = [] \<longleftrightarrow> cs = []" if "d = c"
    using that D(4) C(4) text_ok_last text_ok_newline by (metis)
  show ?case
  proof (cases "d = c \<and> ds \<noteq> []")
    case True
    then have "text_ok e ds" "text_ok e cs" using e text_ok_tl D(4) C(4) by blast+
    from less.hyps [OF D(2) this] show ?thesis using run True e n0 [OF D(4)] n0 [OF C(4)] D(3) C(3) by simp
  next
    case False
    then show ?thesis using run e n0 [OF D(4)] n0 [OF C(4)] D(3) C(3) by (auto simp: shown_def)
  qed
qed

lemma line_compare_spec:
  assumes E: "env_ok e" and L: "lines_ok e w" and p: "fls w p \<noteq> None" and q: "fls w q \<noteq> None"
  shows "\<exists>w'. line_compare e p q w = Some (line_key e w p = line_key e w q, w') \<and> lines_ok e w' \<and> kept w w' \<and> lk w' = lk w"
proof -
  obtain l where l: "fls w p = Some l" using p by blast
  obtain w1 where w1: "line_gethashcode e p w = Some (hash_sum 0 (line_key e w p), w1)" "lines_ok e w1" "kept w w1" "lk w1 = lk w"
    using line_gethashcode_spec [OF L l] by blast
  obtain m where m: "fls w1 q = Some m" using q kept_live [OF w1(3), of q] by auto
  obtain w2 where w2: "line_gethashcode e q w1 = Some (hash_sum 0 (line_key e w1 q), w2)" "lines_ok e w2" "kept w1 w2" "lk w2 = lk w1"
    using line_gethashcode_spec [OF w1(2) m] by blast
  have K: "kept w w2" using kept_trans [OF w1(3) w2(3)] .
  have nn: "p \<noteq> NULL" "q \<noteq> NULL" using p q L by (auto simp: lines_ok_def)
  obtain l2 where l2: "fls w2 p = Some l2" using p kept_live [OF K, of p] by auto
  obtain m2 where m2: "fls w2 q = Some m2" using q kept_live [OF K, of q] by auto
  obtain t where t: "texts w2 (ltext l2) = Some (t @ [0])" "text_ok e t" "line_text w2 p = t" by (rule lines_okD [OF w2(2) l2])
  obtain u where u: "texts w2 (ltext m2) = Some (u @ [0])" "text_ok e u" "line_text w2 q = u" by (rule lines_okD [OF w2(2) m2])
  have keys: "line_key e w1 q = line_key e w q" "line_key e w p = shown (ignore_blanks e) t" "line_key e w q = shown (ignore_blanks e) u"
    using kept_text [OF w1(3)] kept_text [OF K] t(3) u(3) by (simp_all add: line_key_def)
  have cmp: "compare_loop e (t @ [0]) (u @ [0]) = Some (line_key e w p = line_key e w q)"
    unfolding keys by (rule compare_loop_spec [OF E t(2) u(2)])
  have "line_compare e p q w = Some (line_key e w p = line_key e w q, w2)"
  proof (cases "line_key e w p = line_key e w q")
    case True
    then show ?thesis using nn w1(1) w2(1) keys(1) l2 m2 t(1) u(1) cmp
      by (simp add: line_compare_def line_gettext_def ld_line_def chars_def)
  next
    case False
    then show ?thesis using nn w1(1) w2(1) keys(1) l2 m2 t(1) u(1) cmp
      by (simp add: line_compare_def line_gettext_def ld_line_def chars_def)
  qed
  with w2 w1 K show ?thesis by auto
qed

subsection \<open>Linking\<close>

lemma set_link_ok:
  assumes L: "lines_ok e w" and p: "fls w p = Some a" and q: "fls w q = Some b" and n: "lk w p = NULL" "lk w q = NULL"
    and k: "line_key e w p = line_key e w q"
  defines "w' \<equiv> w\<lparr>fls := (fls w)(p \<mapsto> a\<lparr>llink := q\<rparr>, q \<mapsto> (if q = p then a\<lparr>llink := q\<rparr> else b)\<lparr>llink := p\<rparr>)\<rparr>"
  shows "lines_ok e w'" "kept w w'" "lk w' = (lk w)(p := q, q := p)"
proof -
  show lk: "lk w' = (lk w)(p := q, q := p)" by (auto simp: lk_def w'_def)
  show K: "kept w w'" using p q by (auto simp: kept_def w'_def core_def)
  have nn: "p \<noteq> NULL" "q \<noteq> NULL" using p q L by (auto simp: lines_ok_def)
  have ok: "line_ok e w' m" if m: "fls w' r = Some m" for r m
  proof -
    obtain m0 where m0: "fls w r = Some m0" "ltext m = ltext m0" "flags m = flags m0" "hash m = hash m0"
      using m p q by (cases "r = q"; cases "r = p") (auto simp: w'_def split: if_splits)
    then have "line_ok e w m0" using L unfolding lines_ok_def by blast
    then show ?thesis using m0 by (simp add: line_ok_def w'_def)
  qed
  have "fls w' (lk w' r) \<noteq> None \<and> lk w' (lk w' r) = r \<and> line_key e w' (lk w' r) = line_key e w' r" if r: "lk w' r \<noteq> NULL" for r
  proof (cases "r = p \<or> r = q")
    case True
    then show ?thesis using p q k unfolding lk kept_text(2) [OF K] by (auto simp: w'_def)
  next
    case False
    then have old: "lk w r \<noteq> NULL" "lk w' r = lk w r" using r by (simp_all add: lk)
    have M: "fls w (lk w r) \<noteq> None" "lk w (lk w r) = r" "line_key e w (lk w r) = line_key e w r"
      using L old unfolding lines_ok_def by blast+
    have "r \<noteq> NULL"
    proof
      assume "r = NULL"
      then show False using old(1) L by (simp add: lk_def lines_ok_def)
    qed
    then have "lk w r \<noteq> p" "lk w r \<noteq> q" using M(2) n by auto
    then show ?thesis using M old(2) by (simp add: lk kept_live [OF K] kept_text(2) [OF K])
  qed
  moreover have "fls w' NULL = None" using L nn by (simp add: w'_def lines_ok_def)
  ultimately show "lines_ok e w'" using ok unfolding lines_ok_def by blast
qed

definition line_or_null :: "wd \<Rightarrow> ptr \<Rightarrow> bool" where
  "line_or_null w p \<longleftrightarrow> p = NULL \<or> fls w p \<noteq> None"

definition linkable :: "wenv \<Rightarrow> wd \<Rightarrow> ptr \<Rightarrow> ptr \<Rightarrow> bool" where
  "linkable e w p q \<longleftrightarrow> p \<noteq> NULL \<and> q \<noteq> NULL \<and> lk w p = NULL \<and> lk w q = NULL \<and> line_key e w p = line_key e w q"

lemma line_link_spec:
  assumes E: "env_ok e" and L: "lines_ok e w" and p: "line_or_null w p" and q: "line_or_null w q"
  shows "\<exists>w'. line_link e p q w = Some (linkable e w p q, w') \<and> lines_ok e w' \<and> kept w w' \<and>
    lk w' = (if linkable e w p q then (lk w)(p := q, q := p) else lk w)"
proof (cases "p = NULL \<or> q = NULL")
  case True
  then show ?thesis using L by (auto simp: line_link_def linkable_def)
next
  case nn: False
  then obtain a b where a: "fls w p = Some a" and b: "fls w q = Some b" using p q by (auto simp: line_or_null_def)
  show ?thesis
  proof (cases "lk w p \<noteq> NULL \<or> lk w q \<noteq> NULL")
    case True
    then have "line_link e p q w = Some (False, w)" using nn a b by (auto simp: line_link_def ld_line_def lk_def)
    moreover have "\<not> linkable e w p q" using True by (auto simp: linkable_def)
    ultimately show ?thesis using L by simp
  next
    case unl: False
    obtain w1 where w1: "line_compare e p q w = Some (line_key e w p = line_key e w q, w1)" "lines_ok e w1" "kept w w1" "lk w1 = lk w"
      using line_compare_spec [OF E L] a b by (metis option.distinct(1))
    have start: "line_link e p q w = (if line_key e w p = line_key e w q then do {
            w \<leftarrow> wr_line p (\<lambda>l. l\<lparr>llink := q\<rparr>) w1;
            w \<leftarrow> wr_line q (\<lambda>l. l\<lparr>llink := p\<rparr>) w;
            Some (True, w)
          } else Some (False, w1))"
      using nn a b unl w1(1) by (simp add: line_link_def ld_line_def lk_def)
    show ?thesis
    proof (cases "line_key e w p = line_key e w q")
      case False
      then show ?thesis using start w1 by (simp add: linkable_def)
    next
      case True
      then have lb: "linkable e w p q" using nn unl by (simp add: linkable_def)
      obtain a1 b1 where ab: "fls w1 p = Some a1" "fls w1 q = Some b1" using a b kept_live [OF w1(3)] by (metis not_Some_eq)
      have k: "line_key e w1 p = line_key e w1 q" using True kept_text(2) [OF w1(3)] by simp
      have n: "lk w1 p = NULL" "lk w1 q = NULL" using unl w1(4) by simp_all
      note S = set_link_ok [OF w1(2) ab n k]
      let ?w = "w1\<lparr>fls := (fls w1)(p \<mapsto> a1\<lparr>llink := q\<rparr>, q \<mapsto> (if q = p then a1\<lparr>llink := q\<rparr> else b1)\<lparr>llink := p\<rparr>)\<rparr>"
      have "line_link e p q w = Some (True, ?w)" using start True ab by (simp add: wr_line_def)
      moreover have "kept w ?w" using kept_trans [OF w1(3) S(2)] .
      ultimately show ?thesis using lb S(1,3) w1(4) by simp
    qed
  qed
qed

end
