(* ===== verification/Windiff_Section.thy ===== *)
theory Windiff_Section
  imports Windiff_Line_Correct
begin

text \<open>
  The first half of \<open>windiff/windiff/section.c\<close>: sections of lines, making the links between
  the lines of two sections (\<open>section_match\<close>), and cutting a list of lines into sections
  (\<open>section_makelist\<close>).  The parts of the source under \<open>#ifdef trace\<close>, which write a
  debugging log, are not modelled.
\<close>

subsection \<open>Comparison states, from \<open>state.h\<close>\<close>

definition STATE_SAME :: nat where "STATE_SAME = 1"
definition STATE_LEFTONLY :: nat where "STATE_LEFTONLY = 7"
definition STATE_RIGHTONLY :: nat where "STATE_RIGHTONLY = 8"
definition STATE_MOVEDLEFT :: nat where "STATE_MOVEDLEFT = 9"
definition STATE_MOVEDRIGHT :: nat where "STATE_MOVEDRIGHT = 10"
definition STATE_SIMILARLEFT :: nat where "STATE_SIMILARLEFT = 11"
definition STATE_SIMILARRIGHT :: nat where "STATE_SIMILARRIGHT = 12"
definition STATE_MARKED :: nat where "STATE_MARKED = 99"

lemmas state_defs = STATE_SAME_def STATE_LEFTONLY_def STATE_RIGHTONLY_def STATE_MOVEDLEFT_def STATE_MOVEDRIGHT_def
  STATE_SIMILARLEFT_def STATE_SIMILARRIGHT_def STATE_MARKED_def

subsection \<open>Making and deleting sections, accessors\<close>

definition sizeof_section :: nat where "sizeof_section = 32"

definition ld_sect :: "ptr \<Rightarrow> wd \<Rightarrow> sect option" where
  "ld_sect p w = scs w p"

definition wr_sect :: "ptr \<Rightarrow> (sect \<Rightarrow> sect) \<Rightarrow> wd \<Rightarrow> wd option" where
  "wr_sect p f w = (case scs w p of None \<Rightarrow> None | Some s \<Rightarrow> Some (w\<lparr>scs := (scs w)(p \<mapsto> f s)\<rparr>))"

definition section_new :: "wenv \<Rightarrow> ptr \<Rightarrow> ptr \<Rightarrow> ptr \<Rightarrow> wd \<Rightarrow> (ptr \<times> wd) option" where
  "section_new e fst_line lst_line lst w = do {
     (sec, w) \<leftarrow> (if lst \<noteq> NULL then on_list (List_NewLast (lga e) lst sizeof_section) w else wget e sizeof_section w);
     if sec = NULL then Some (NULL, w)
     else Some (sec, w\<lparr>scs := (scs w)(sec \<mapsto> \<lparr>sfirst = fst_line, slast = lst_line, bDiscard = (lst \<noteq> NULL),
       slink = NULL, scorrespond = NULL, sstate = 0, leftbase = 1, rightbase = 1\<rparr>)\<rparr>)
   }"

definition section_delete :: "wenv \<Rightarrow> ptr \<Rightarrow> wd \<Rightarrow> wd option" where
  "section_delete e sec w = do {
     s \<leftarrow> ld_sect sec w;
     if bDiscard s
     then do { w \<leftarrow> wfree e sec sizeof_section w; Some (w\<lparr>scs := (scs w)(sec := None)\<rparr>) }
     else Some w
   }"

definition section_getfirstline :: "ptr \<Rightarrow> wd \<Rightarrow> ptr option" where
  "section_getfirstline sec w = (if sec = NULL then Some NULL else map_option sfirst (ld_sect sec w))"

definition section_getlastline :: "ptr \<Rightarrow> wd \<Rightarrow> ptr option" where
  "section_getlastline sec w = (if sec = NULL then Some NULL else map_option slast (ld_sect sec w))"

definition section_getlink :: "ptr \<Rightarrow> wd \<Rightarrow> ptr option" where
  "section_getlink sec w = (if sec = NULL then Some NULL else map_option slink (ld_sect sec w))"

definition section_getcorrespond :: "ptr \<Rightarrow> wd \<Rightarrow> ptr option" where
  "section_getcorrespond sec w = (if sec = NULL then Some NULL else map_option scorrespond (ld_sect sec w))"

definition section_getstate :: "ptr \<Rightarrow> wd \<Rightarrow> (nat \<times> wd) option" where
  "section_getstate sec w =
     (if sec = NULL then Some (0, WTRACE ''SECTION: null section in getstate call'' w)
      else do { s \<leftarrow> ld_sect sec w; Some (sstate s, w) })"

definition section_setstate :: "ptr \<Rightarrow> nat \<Rightarrow> wd \<Rightarrow> wd option" where
  "section_setstate sec st = wr_sect sec (\<lambda>s. s\<lparr>sstate := st\<rparr>)"

definition section_getlinecount :: "ptr \<Rightarrow> wd \<Rightarrow> (32 word \<times> wd) option" where
  "section_getlinecount sec w = do {
     s \<leftarrow> ld_sect sec w;
     if slast s = NULL \<and> sfirst s = NULL then Some (0, w)
     else do {
       let w = (if sfirst s = NULL \<or> slast s = NULL
                then WTRACE ''SECTION: null first or last (but not both) in getlinecount call'' w else w);
       b \<leftarrow> line_getlinenr (slast s) w;
       a \<leftarrow> line_getlinenr (sfirst s) w;
       Some (b - a + 1, w)
     }
   }"

definition section_getleftbasenr :: "ptr \<Rightarrow> wd \<Rightarrow> 32 word option" where
  "section_getleftbasenr sec w = map_option leftbase (ld_sect sec w)"

definition section_setleftbasenr :: "ptr \<Rightarrow> 32 word \<Rightarrow> wd \<Rightarrow> wd option" where
  "section_setleftbasenr sec base = wr_sect sec (\<lambda>s. s\<lparr>leftbase := base\<rparr>)"

definition section_getrightbasenr :: "ptr \<Rightarrow> wd \<Rightarrow> 32 word option" where
  "section_getrightbasenr sec w = map_option rightbase (ld_sect sec w)"

definition section_setrightbasenr :: "ptr \<Rightarrow> 32 word \<Rightarrow> wd \<Rightarrow> wd option" where
  "section_setrightbasenr sec base = wr_sect sec (\<lambda>s. s\<lparr>rightbase := base\<rparr>)"

subsection \<open>Spreading from an anchor\<close>

type_synonym mover = "ptr \<Rightarrow> wd \<Rightarrow> (ptr \<times> wd) option"

text \<open>The source also tests the address of the line variable, which is never NULL.\<close>

partial_function (option) AbsorbAnyBlanks :: "mover \<Rightarrow> ptr \<Rightarrow> bool \<Rightarrow> ptr \<Rightarrow> wd \<Rightarrow> (bool \<times> ptr \<times> wd) option" where
  "AbsorbAnyBlanks move limit progress p w = do {
     b \<leftarrow> line_isblank p w;
     if b \<and> p \<noteq> limit
     then do { (p, w) \<leftarrow> move p w; AbsorbAnyBlanks move limit True p w }
     else Some (progress, p, w)
   }"

text \<open>One of the two loops of \<open>section_expandanchor\<close>: \<open>Move\<close> is \<open>List_Next\<close> or
  \<open>List_Prev\<close>.\<close>

partial_function (option) march ::
  "wenv \<Rightarrow> mover \<Rightarrow> ptr \<Rightarrow> ptr \<Rightarrow> bool \<Rightarrow> ptr \<Rightarrow> ptr \<Rightarrow> wd \<Rightarrow> (bool \<times> wd) option" where
  "march e move leftend rightend bChanges lft rgt w = do {
     (linked, w) \<leftarrow> line_link e lft rgt w;
     if linked then do {
       (lft, w) \<leftarrow> move lft w;
       (rgt, w) \<leftarrow> move rgt w;
       if lft = leftend \<or> rgt = rightend then Some (True, w)
       else march e move leftend rightend True lft rgt w
     }
     else if ignore_blanks e then do {
       (moved1, lft, w) \<leftarrow> AbsorbAnyBlanks move leftend False lft w;
       (moved2, rgt, w) \<leftarrow> AbsorbAnyBlanks move rightend False rgt w;
       if \<not> (moved1 \<or> moved2) then Some (bChanges, w)
       else if lft = leftend \<or> rgt = rightend then Some (bChanges, w)
       else march e move leftend rightend bChanges lft rgt w
     }
     else Some (bChanges, w)
   }"

definition section_expandanchor :: "wenv \<Rightarrow> ptr \<Rightarrow> ptr \<Rightarrow> ptr \<Rightarrow> ptr \<Rightarrow> wd \<Rightarrow> (bool \<times> wd) option" where
  "section_expandanchor e sec1 line1 sec2 line2 w = do {
     s1 \<leftarrow> ld_sect sec1 w;
     (leftend, w) \<leftarrow> Next (slast s1) w;
     s2 \<leftarrow> ld_sect sec2 w;
     (rightend, w) \<leftarrow> Next (slast s2) w;
     if line1 = NULL \<or> line2 = NULL then Some (False, w)
     else do {
       (bChanges, w) \<leftarrow> march e Next leftend rightend False line1 line2 w;
       k \<leftarrow> line_getlink line1 w;
       if k = NULL then Some (bChanges, w)
       else do {
         (lft, w) \<leftarrow> Prev line1 w;
         (rgt, w) \<leftarrow> Prev line2 w;
         if lft = NULL \<or> rgt = NULL then Some (bChanges, w)
         else do {
           s1 \<leftarrow> ld_sect sec1 w;
           (leftend, w) \<leftarrow> Prev (sfirst s1) w;
           s2 \<leftarrow> ld_sect sec2 w;
           (rightend, w) \<leftarrow> Prev (sfirst s2) w;
           march e Prev leftend rightend bChanges lft rgt w
         }
       }
     }
   }"

subsection \<open>Matching two sections\<close>

definition sizeof_LINE :: nat where "sizeof_LINE = 4"

text \<open>The bodies of the loops over the lines of a section are definitions of their own.\<close>

definition makectree_add :: "wenv \<Rightarrow> ptr \<Rightarrow> ptr \<Rightarrow> wd \<Rightarrow> wd option" where
  "makectree_add e tree line w = do {
     k \<leftarrow> line_getlink line w;
     if k = NULL then do {
       (h, w) \<leftarrow> line_gethashcode e line w;
       (_, w) \<leftarrow> on_tree (ctree_update (genv e) tree h (Some line) sizeof_LINE) w;
       Some w
     } else Some w
   }"

partial_function (option) makectree_loop :: "wenv \<Rightarrow> ptr \<Rightarrow> ptr \<Rightarrow> ptr \<Rightarrow> wd \<Rightarrow> wd option" where
  "makectree_loop e sec tree line w =
     (if line = NULL then Some w
      else do {
        w \<leftarrow> makectree_add e tree line w;
        s \<leftarrow> ld_sect sec w;
        if line = slast s then Some w
        else do { (line, w) \<leftarrow> Next line w; makectree_loop e sec tree line w }
      })"

definition section_makectree :: "wenv \<Rightarrow> ptr \<Rightarrow> wd \<Rightarrow> (ptr \<times> wd) option" where
  "section_makectree e sec w = do {
     (tree, w) \<leftarrow> on_tree (ctree_create (genv e) (wheap e)) w;
     s \<leftarrow> ld_sect sec w;
     w \<leftarrow> makectree_loop e sec tree (sfirst s) w;
     Some (tree, w)
   }"

definition line_count :: "wenv \<Rightarrow> ptr \<Rightarrow> ptr \<Rightarrow> wd \<Rightarrow> (int \<times> wd) option" where
  "line_count e tree line w = do {
     (h, w) \<leftarrow> line_gethashcode e line w;
     n \<leftarrow> ctree_getcount tree h (ts w);
     Some (n, w)
   }"

text \<open>The condition under which a line serves as an anchor.\<close>

definition anchor_line :: "wenv \<Rightarrow> bool \<Rightarrow> ptr \<Rightarrow> ptr \<Rightarrow> ptr \<Rightarrow> wd \<Rightarrow> (bool \<times> wd) option" where
  "anchor_line e ReSynch ctleft ctright line w = do {
     k \<leftarrow> line_getlink line w;
     if k \<noteq> NULL then Some (False, w)
     else do {
       (n, w) \<leftarrow> line_count e ctleft line w;
       if \<not> (if ReSynch then n \<ge> 1 else n = 1) then Some (False, w)
       else do {
         (n, w) \<leftarrow> line_count e ctright line w;
         if \<not> (if ReSynch then n \<ge> 1 else n = 1) then Some (False, w)
         else if ReSynch then do { len \<leftarrow> line_gettextlen e line w; Some (len > 8, w) }
         else Some (True, w)
       }
     }
   }"

text \<open>The line handle stored in a tree, from the address that \<open>ctree_find\<close> returns.\<close>

definition ld_LINE :: "ptr \<Rightarrow> wd \<Rightarrow> ptr option" where
  "ld_LINE p w = (if p < sizeof_LONG_PTR then None
     else case tblocks (ts w) (p - sizeof_LONG_PTR) of Some (Some (_, Some l)) \<Rightarrow> Some l | _ \<Rightarrow> None)"

definition match_line :: "wenv \<Rightarrow> ptr \<Rightarrow> ptr \<Rightarrow> bool \<Rightarrow> ptr \<Rightarrow> ptr \<Rightarrow> bool \<Rightarrow> ptr \<Rightarrow> wd \<Rightarrow> (bool \<times> wd) option" where
  "match_line e sec1 sec2 ReSynch ctleft ctright bLinked line w = do {
     (a, w) \<leftarrow> anchor_line e ReSynch ctleft ctright line w;
     if a then do {
       (h, w) \<leftarrow> line_gethashcode e line w;
       p \<leftarrow> ctree_find ctright h (ts w);
       line2 \<leftarrow> ld_LINE p w;
       (b, w) \<leftarrow> section_expandanchor e sec1 line sec2 line2 w;
       Some (bLinked \<or> b, w)
     } else Some (bLinked, w)
   }"

partial_function (option) match_loop ::
  "wenv \<Rightarrow> ptr \<Rightarrow> ptr \<Rightarrow> bool \<Rightarrow> ptr \<Rightarrow> ptr \<Rightarrow> bool \<Rightarrow> ptr \<Rightarrow> wd \<Rightarrow> (bool \<times> wd) option" where
  "match_loop e sec1 sec2 ReSynch ctleft ctright bLinked line w =
     (if line = NULL then Some (bLinked, w)
      else do {
        (bLinked, w) \<leftarrow> match_line e sec1 sec2 ReSynch ctleft ctright bLinked line w;
        s1 \<leftarrow> ld_sect sec1 w;
        if line = slast s1 then Some (bLinked, w)
        else do { (line, w) \<leftarrow> Next line w; match_loop e sec1 sec2 ReSynch ctleft ctright bLinked line w }
      })"

definition section_match :: "wenv \<Rightarrow> ptr \<Rightarrow> ptr \<Rightarrow> bool \<Rightarrow> wd \<Rightarrow> (bool \<times> wd) option" where
  "section_match e sec1 sec2 ReSynch w =
     (if sec1 = NULL \<or> sec2 = NULL then Some (False, w)
      else do {
        s1 \<leftarrow> ld_sect sec1 w;
        s2 \<leftarrow> ld_sect sec2 w;
        if sfirst s1 = NULL \<or> sfirst s2 = NULL then Some (False, w)
        else do {
          (b1, w) \<leftarrow> section_expandanchor e sec1 (sfirst s1) sec2 (sfirst s2) w;
          (ctleft, w) \<leftarrow> section_makectree e sec1 w;
          (ctright, w) \<leftarrow> section_makectree e sec2 w;
          s1 \<leftarrow> ld_sect sec1 w;
          (b2, w) \<leftarrow> match_loop e sec1 sec2 ReSynch ctleft ctright b1 (sfirst s1) w;
          t \<leftarrow> ctree_delete ctleft (ts w);
          let w = w\<lparr>ts := t\<rparr>;
          t \<leftarrow> ctree_delete ctright (ts w);
          let w = w\<lparr>ts := t\<rparr>;
          s1 \<leftarrow> ld_sect sec1 w;
          s2 \<leftarrow> ld_sect sec2 w;
          (b3, w) \<leftarrow> section_expandanchor e sec1 (slast s1) sec2 (slast s2) w;
          Some (b2 \<or> b3, w)
        }
      })"

end
