(* ===== verification/Windiff_Seclist.thy ===== *)
theory Windiff_Seclist
  imports Windiff_Section
begin

text \<open>
  The lists of sections of \<open>windiff/windiff/section.c\<close>: \<open>section_makelist\<close> cuts a list of
  lines into sections, \<open>section_matchlists\<close> connects the sections of two lists that are linked
  or correspond, and tries to link more lines of those that correspond.
\<close>

subsection \<open>Cutting a list of lines into sections\<close>

partial_function (option) FindEndOfUnmatched :: "ptr \<Rightarrow> wd \<Rightarrow> (ptr \<times> wd) option" where
  "FindEndOfUnmatched line w = do {
     (nxt_line, w) \<leftarrow> Next line w;
     if nxt_line = NULL then Some (line, w)
     else do {
       k \<leftarrow> line_getlink nxt_line w;
       if k \<noteq> NULL then Some (line, w) else FindEndOfUnmatched nxt_line w
     }
   }"

text \<open>\<open>getlink(line)==NULL && !(ignore_blanks && isblank(line))\<close> and its variants.\<close>

definition ignorable :: "wenv \<Rightarrow> ptr \<Rightarrow> wd \<Rightarrow> bool option" where
  "ignorable e line w = (if ignore_blanks e then line_isblank line w else Some False)"

partial_function (option) NextNonIgnorable_loop :: "wenv \<Rightarrow> ptr \<Rightarrow> wd \<Rightarrow> (ptr \<times> wd) option" where
  "NextNonIgnorable_loop e line w = do {
     k \<leftarrow> line_getlink line w;
     if k \<noteq> NULL then Some (line, w)
     else do {
       b \<leftarrow> ignorable e line w;
       if \<not> b then Some (line, w)
       else do {
         (nxt_line, w) \<leftarrow> Next line w;
         if nxt_line = NULL then Some (line, w) else NextNonIgnorable_loop e nxt_line w
       }
     }
   }"

definition NextNonIgnorable :: "wenv \<Rightarrow> ptr \<Rightarrow> wd \<Rightarrow> (ptr \<times> wd) option" where
  "NextNonIgnorable e line w = do {
     k \<leftarrow> line_getlink line w;
     b \<leftarrow> (if k = NULL then ignorable e line w else Some True);
     let w = (if \<not> b then WTRACE ''!!Bad call to NextNonIgnorable!!'' w else w);
     (nxt_line, w) \<leftarrow> Next line w;
     if nxt_line = NULL then Some (NULL, w) else NextNonIgnorable_loop e nxt_line w
   }"

partial_function (option) FindEndOfMatched_loop :: "wenv \<Rightarrow> ptr \<Rightarrow> wd \<Rightarrow> (ptr \<times> wd) option" where
  "FindEndOfMatched_loop e line w = do {
     (nxt_line, w) \<leftarrow> NextNonIgnorable e line w;
     if nxt_line = NULL then Some (line, w)
     else do {
       k \<leftarrow> line_getlink nxt_line w;
       if k = NULL then do {
         b \<leftarrow> ignorable e nxt_line w;
         if b then Some (nxt_line, w) else Prev nxt_line w
       }
       else do {
         lnk \<leftarrow> line_getlink line w;
         (nextlink, w) \<leftarrow> NextNonIgnorable e lnk w;
         if k \<noteq> nextlink then Prev nxt_line w else FindEndOfMatched_loop e nxt_line w
       }
     }
   }"

definition FindEndOfMatched :: "wenv \<Rightarrow> ptr \<Rightarrow> wd \<Rightarrow> (ptr \<times> wd) option" where
  "FindEndOfMatched e line w = do {
     let w = (if line = NULL then WTRACE ''FindEndOfMatched called with NULL'' w else w);
     let go = (\<lambda>line w. do {
           k \<leftarrow> line_getlink line w;
           let w = (if k = NULL then WTRACE ''!!FindEndOfMatched -- no link!!'' w else w);
           FindEndOfMatched_loop e line w
         });
     k \<leftarrow> line_getlink line w;
     b \<leftarrow> (if k = NULL then line_isblank line w else Some False);
     if b then do {
       (nxt_line, w) \<leftarrow> NextNonIgnorable e line w;
       if nxt_line = NULL then Some (line, w)
       else do {
         k \<leftarrow> line_getlink nxt_line w;
         if k = NULL then do {
           b \<leftarrow> ignorable e nxt_line w;
           if b then Some (nxt_line, w) else Prev nxt_line w
         }
         else go nxt_line w
       }
     }
     else go line w
   }"

text \<open>Whether a section that starts with this line is a matched one.\<close>

definition starts_matched :: "wenv \<Rightarrow> ptr \<Rightarrow> wd \<Rightarrow> bool option" where
  "starts_matched e line w = do {
     k \<leftarrow> line_getlink line w;
     if k \<noteq> NULL then Some True else ignorable e line w
   }"

partial_function (option) makelist_loop :: "wenv \<Rightarrow> bool \<Rightarrow> ptr \<Rightarrow> ptr \<Rightarrow> wd \<Rightarrow> wd option" where
  "makelist_loop e is_left sections line1 w =
     (if line1 = NULL then Some w
      else do {
        matched \<leftarrow> starts_matched e line1 w;
        (line2, w) \<leftarrow> (if matched then FindEndOfMatched e line1 w else FindEndOfUnmatched line1 w);
        (sec, w) \<leftarrow> section_new e line1 line2 sections w;
        w \<leftarrow> wr_sect sec (\<lambda>s. s\<lparr>sstate := (if matched then STATE_SAME
               else if is_left then STATE_LEFTONLY else STATE_RIGHTONLY)\<rparr>) w;
        (line1, w) \<leftarrow> Next line2 w;
        makelist_loop e is_left sections line1 w
      })"

definition section_makelist :: "wenv \<Rightarrow> ptr \<Rightarrow> bool \<Rightarrow> wd \<Rightarrow> (ptr \<times> wd) option" where
  "section_makelist e linelist is_left w = do {
     (sections, w) \<leftarrow> on_list (List_Create (lga e)) w;
     (line1, w) \<leftarrow> on_list (List_First linelist) w;
     w \<leftarrow> makelist_loop e is_left sections line1 w;
     Some (sections, w)
   }"

definition section_deletelist :: "ptr \<Rightarrow> wd \<Rightarrow> wd option" where
  "section_deletelist sections w = wList_Destroy sections w"

subsection \<open>Connecting two lists of sections\<close>

partial_function (option) FindFirstWithLink :: "ptr \<Rightarrow> ptr \<Rightarrow> wd \<Rightarrow> (ptr \<times> wd) option" where
  "FindFirstWithLink line lst w = do {
     k \<leftarrow> line_getlink line w;
     if k = NULL \<and> line \<noteq> lst
     then do { (line, w) \<leftarrow> Next line w; FindFirstWithLink line lst w }
     else Some (line, w)
   }"

text \<open>The inner search of the first pass: the section from \<open>sec2\<close> on that starts with the
  line linked to \<open>FirstWithLink\<close>.\<close>

partial_function (option) find_linked :: "ptr \<Rightarrow> ptr \<Rightarrow> wd \<Rightarrow> (ptr \<times> wd) option" where
  "find_linked FirstWithLink sec2 w =
     (if sec2 = NULL then Some (NULL, w)
      else do {
        s2 \<leftarrow> ld_sect sec2 w;
        (found, w) \<leftarrow> (if sstate s2 = STATE_SAME then do {
             k \<leftarrow> line_getlink FirstWithLink w;
             (f, w) \<leftarrow> FindFirstWithLink (sfirst s2) (slast s2) w;
             Some (k = f, w)
           } else Some (False, w));
        if found then Some (sec2, w)
        else do { (sec2, w) \<leftarrow> Next sec2 w; find_linked FirstWithLink sec2 w }
      })"

partial_function (option) link_pass :: "ptr \<Rightarrow> ptr \<Rightarrow> wd \<Rightarrow> wd option" where
  "link_pass secsright sec1 w =
     (if sec1 = NULL then Some w
      else do {
        s1 \<leftarrow> ld_sect sec1 w;
        w \<leftarrow> (if sstate s1 = STATE_SAME then do {
             (FirstWithLink, w) \<leftarrow> FindFirstWithLink (sfirst s1) (slast s1) w;
             (sec2, w) \<leftarrow> on_list (List_First secsright) w;
             (sec2, w) \<leftarrow> find_linked FirstWithLink sec2 w;
             if sec2 \<noteq> NULL then do {
               w \<leftarrow> wr_sect sec1 (\<lambda>s. s\<lparr>slink := sec2\<rparr>) w;
               wr_sect sec2 (\<lambda>s. s\<lparr>slink := sec1\<rparr>) w
             } else Some w
           } else Some w);
        (sec1, w) \<leftarrow> Next sec1 w;
        link_pass secsright sec1 w
      })"

definition unlinked_sect :: "ptr \<Rightarrow> wd \<Rightarrow> bool option" where
  "unlinked_sect sec w = (if sec = NULL then Some False else map_option (\<lambda>s. sstate s \<noteq> STATE_SAME) (ld_sect sec w))"

text \<open>The section that corresponds to the unmatched section \<open>sec1\<close>; \<open>None\<close> inside the
  result stands for the \<open>continue\<close> statements of the source.\<close>

definition corresponding :: "ptr \<Rightarrow> ptr \<Rightarrow> wd \<Rightarrow> (ptr option \<times> wd) option" where
  "corresponding secsright sec1 w = do {
     (prv_sec, w) \<leftarrow> Prev sec1 w;
     bad \<leftarrow> unlinked_sect prv_sec w;
     if bad then Some (None, WTRACE ''consecutive unlinked sections'' w)
     else do {
       (nxt_sec, w) \<leftarrow> Next sec1 w;
       bad \<leftarrow> unlinked_sect nxt_sec w;
       if bad then Some (None, WTRACE ''consecutive unlinked sections.'' w)
       else if prv_sec \<noteq> NULL then do {
         secOther \<leftarrow> section_getlink prv_sec w;
         if secOther = NULL then Some (None, w)
         else do {
           (sec2, w) \<leftarrow> Next secOther w;
           k \<leftarrow> section_getlink sec2 w;
           if sec2 = NULL \<or> k \<noteq> NULL then Some (None, w)
           else do {
             (after2, w) \<leftarrow> Next sec2 w;
             k \<leftarrow> section_getlink nxt_sec w;
             if (if nxt_sec \<noteq> NULL then k \<noteq> after2 else after2 \<noteq> NULL) then Some (None, w)
             else Some (Some sec2, w)
           }
         }
       }
       else if nxt_sec \<noteq> NULL then do {
         secOther \<leftarrow> section_getlink nxt_sec w;
         if secOther = NULL then Some (None, w)
         else do {
           (sec2, w) \<leftarrow> Prev secOther w;
           k \<leftarrow> section_getlink sec2 w;
           if sec2 = NULL \<or> k \<noteq> NULL then Some (None, w)
           else do {
             (before2, w) \<leftarrow> Prev sec2 w;
             k \<leftarrow> section_getlink prv_sec w;
             if (if prv_sec \<noteq> NULL then k \<noteq> before2 else before2 \<noteq> NULL) then Some (None, w)
             else Some (Some sec2, w)
           }
         }
       }
       else do { (sec2, w) \<leftarrow> on_list (List_First secsright) w; Some (Some sec2, w) }
     }
   }"

partial_function (option) correspond_pass :: "wenv \<Rightarrow> bool \<Rightarrow> ptr \<Rightarrow> bool \<Rightarrow> ptr \<Rightarrow> wd \<Rightarrow> (bool \<times> wd) option" where
  "correspond_pass e bDups secsright bLinked sec1 w =
     (if sec1 = NULL then Some (bLinked, w)
      else do {
        s1 \<leftarrow> ld_sect sec1 w;
        (c, w) \<leftarrow> (if sstate s1 = STATE_SAME then Some (None, w) else corresponding secsright sec1 w);
        (bLinked, w) \<leftarrow> (case c of
            None \<Rightarrow> Some (bLinked, w)
          | Some sec2 \<Rightarrow> do {
              w \<leftarrow> (if sec2 \<noteq> NULL then do {
                    w \<leftarrow> wr_sect sec1 (\<lambda>s. s\<lparr>scorrespond := sec2\<rparr>) w;
                    wr_sect sec2 (\<lambda>s. s\<lparr>scorrespond := sec1\<rparr>) w
                  } else Some w);
              (b, w) \<leftarrow> section_match e sec1 sec2 bDups w;
              Some (bLinked \<or> b, w)
            });
        (sec1, w) \<leftarrow> Next sec1 w;
        correspond_pass e bDups secsright bLinked sec1 w
      })"

definition section_matchlists :: "wenv \<Rightarrow> ptr \<Rightarrow> ptr \<Rightarrow> bool \<Rightarrow> wd \<Rightarrow> (bool \<times> wd) option" where
  "section_matchlists e secsleft secsright bDups w = do {
     (sec1, w) \<leftarrow> on_list (List_First secsleft) w;
     w \<leftarrow> link_pass secsright sec1 w;
     (sec1, w) \<leftarrow> on_list (List_First secsleft) w;
     correspond_pass e bDups secsright False sec1 w
   }"

end
