(* ===== verification/Windiff_Composite.thy ===== *)
theory Windiff_Composite
  imports Windiff_Seclist
begin

text \<open>
  The composite list of \<open>windiff/windiff/section.c\<close>: \<open>section_makecomposite\<close> merges the
  sections of the two files into the list that is shown, each section with its state and the
  numbers its first line has in the two files.  Corresponding sections are striped line by line
  while their lines use similar characters (\<open>TakeTwoSections\<close>).
\<close>

subsection \<open>Taking one section\<close>

definition section_takesection :: "wenv \<Rightarrow> ptr \<Rightarrow> ptr \<Rightarrow> ptr \<Rightarrow> nat \<Rightarrow> wd \<Rightarrow> wd option" where
  "section_takesection e compo lft rgt st w = do {
     (sec, w) \<leftarrow>
       (if st = STATE_SAME then do {
          w \<leftarrow> (if lft \<noteq> NULL then section_setstate lft STATE_MARKED w else Some w);
          w \<leftarrow> section_setstate rgt STATE_MARKED w;
          Some (rgt, w)
        }
        else if st = STATE_LEFTONLY \<or> st = STATE_MOVEDLEFT then do {
          w \<leftarrow> section_setstate lft STATE_MARKED w;
          Some (lft, w)
        }
        else if st = STATE_RIGHTONLY \<or> st = STATE_MOVEDRIGHT then do {
          w \<leftarrow> section_setstate rgt STATE_MARKED w;
          Some (rgt, w)
        }
        else Some (NULL, w));
     s \<leftarrow> ld_sect sec w;
     (newsec, w) \<leftarrow> section_new e (sfirst s) (slast s) compo w;
     w \<leftarrow> wr_sect newsec (\<lambda>s. s\<lparr>sstate := st\<rparr>) w;
     lb \<leftarrow> (if lft \<noteq> NULL then do { s \<leftarrow> ld_sect lft w; line_getlinenr (sfirst s) w } else Some 0);
     w \<leftarrow> wr_sect newsec (\<lambda>s. s\<lparr>leftbase := lb\<rparr>) w;
     rb \<leftarrow> (if rgt \<noteq> NULL then do { s \<leftarrow> ld_sect rgt w; line_getlinenr (sfirst s) w } else Some 0);
     wr_sect newsec (\<lambda>s. s\<lparr>rightbase := rb\<rparr>) w
   }"

subsection \<open>Character maps\<close>

type_synonym bitmap = "byte list"

fun MakeMap_loop :: "bitmap \<Rightarrow> cstring \<Rightarrow> bitmap option" where
  "MakeMap_loop bm [] = None"
| "MakeMap_loop bm (c # cs) =
     (if c = 0 then Some bm
      else let v = unat c in MakeMap_loop (bm[v div 8 := or (bm ! (v div 8)) (push_bit (v mod 8) 1)]) cs)"

definition MakeMap :: "cstring \<Rightarrow> bitmap option" where
  "MakeMap str = MakeMap_loop (replicate 32 0) str"

definition AndMaps :: "bitmap \<Rightarrow> bitmap \<Rightarrow> bitmap" where
  "AndMaps a b = map (\<lambda>i. and (a ! i) (b ! i)) [0..<32]"

definition OrMaps :: "bitmap \<Rightarrow> bitmap \<Rightarrow> bitmap" where
  "OrMaps a b = map (\<lambda>i. or (a ! i) (b ! i)) [0..<32]"

definition BitsInMap :: "bitmap \<Rightarrow> nat" where
  "BitsInMap bm = foldl (\<lambda>cb i. foldl (\<lambda>cb j. if and (bm ! i) (push_bit j 1) \<noteq> 0 then cb + 1 else cb) cb [0..<8]) 0 [0..<32]"

definition LinesMatch :: "ptr \<Rightarrow> ptr \<Rightarrow> wd \<Rightarrow> bool option" where
  "LinesMatch line1 line2 w = do {
     lt \<leftarrow> line_gettext line1 w;
     rt \<leftarrow> line_gettext line2 w;
     LText \<leftarrow> chars lt w;
     RText \<leftarrow> chars rt w;
     bmLeft \<leftarrow> MakeMap LText;
     bmRight \<leftarrow> MakeMap RText;
     let nBoth = BitsInMap (AndMaps bmLeft bmRight);
     let nEither = BitsInMap (OrMaps bmLeft bmRight);
     Some (nBoth * 4 \<ge> nEither * 3)
   }"

subsection \<open>Striping two sections\<close>

text \<open>A new section of the composite list with its state and base numbers.\<close>

definition put_section :: "wenv \<Rightarrow> ptr \<Rightarrow> ptr \<Rightarrow> ptr \<Rightarrow> nat \<Rightarrow> ptr \<Rightarrow> ptr \<Rightarrow> wd \<Rightarrow> wd option" where
  "put_section e compo a b st lline rline w = do {
     (New, w) \<leftarrow> section_new e a b compo w;
     w \<leftarrow> wr_sect New (\<lambda>s. s\<lparr>sstate := st\<rparr>) w;
     lb \<leftarrow> line_getlinenr lline w;
     w \<leftarrow> wr_sect New (\<lambda>s. s\<lparr>leftbase := lb\<rparr>) w;
     rb \<leftarrow> line_getlinenr rline w;
     wr_sect New (\<lambda>s. s\<lparr>rightbase := rb\<rparr>) w
   }"

partial_function (option) stripe_loop :: "wenv \<Rightarrow> ptr \<Rightarrow> ptr \<Rightarrow> ptr \<Rightarrow> ptr \<Rightarrow> ptr \<Rightarrow> wd \<Rightarrow>
  (ptr \<times> ptr \<times> ptr \<times> ptr \<times> wd) option" where
  "stripe_loop e compo lft rgt LLine RLine w =
     (if lft \<noteq> NULL \<and> rgt \<noteq> NULL then do {
        m \<leftarrow> LinesMatch LLine RLine w;
        if m then do {
          w \<leftarrow> put_section e compo LLine LLine STATE_SIMILARLEFT LLine RLine w;
          w \<leftarrow> put_section e compo RLine RLine STATE_SIMILARRIGHT LLine RLine w;
          s \<leftarrow> ld_sect lft w;
          (lft, LLine, w) \<leftarrow> (if LLine = slast s then Some (NULL, LLine, w)
             else do { (LLine, w) \<leftarrow> Next LLine w; Some (lft, LLine, w) });
          s \<leftarrow> ld_sect rgt w;
          (rgt, RLine, w) \<leftarrow> (if RLine = slast s then Some (NULL, RLine, w)
             else do { (RLine, w) \<leftarrow> Next RLine w; Some (rgt, RLine, w) });
          stripe_loop e compo lft rgt LLine RLine w
        }
        else do {
          s \<leftarrow> ld_sect lft w;
          w \<leftarrow> put_section e compo LLine (slast s) STATE_LEFTONLY LLine NULL w;
          s \<leftarrow> ld_sect rgt w;
          w \<leftarrow> put_section e compo RLine (slast s) STATE_RIGHTONLY NULL RLine w;
          stripe_loop e compo NULL NULL LLine RLine w
        }
      }
      else Some (lft, rgt, LLine, RLine, w))"

definition TakeTwoSections :: "wenv \<Rightarrow> ptr \<Rightarrow> ptr \<Rightarrow> ptr \<Rightarrow> wd \<Rightarrow> wd option" where
  "TakeTwoSections e compo lft rgt w = do {
     s \<leftarrow> ld_sect lft w;
     let LLine = sfirst s;
     s \<leftarrow> ld_sect rgt w;
     let RLine = sfirst s;
     w \<leftarrow> section_setstate lft STATE_MARKED w;
     w \<leftarrow> section_setstate rgt STATE_MARKED w;
     (lft, rgt, LLine, RLine, w) \<leftarrow> stripe_loop e compo lft rgt LLine RLine w;
     w \<leftarrow> (if lft \<noteq> NULL then do {
            s \<leftarrow> ld_sect lft w;
            put_section e compo LLine (slast s) STATE_LEFTONLY LLine NULL w
          } else Some w);
     (if rgt \<noteq> NULL then do {
        s \<leftarrow> ld_sect rgt w;
        put_section e compo RLine (slast s) STATE_RIGHTONLY NULL RLine w
      } else Some w)
   }"

subsection \<open>The composite list\<close>

text \<open>One pass through the loop of \<open>section_makecomposite\<close>: the new values of \<open>left\<close> and
  \<open>right\<close>.  Line numbers are unsigned, and so are their differences.\<close>

definition composite_step :: "wenv \<Rightarrow> ptr \<Rightarrow> ptr \<Rightarrow> ptr \<Rightarrow> wd \<Rightarrow> (ptr \<times> ptr \<times> wd) option" where
  "composite_step e compo lft rgt w = do {
     let step_left = (\<lambda>w. do { (l, w) \<leftarrow> Next lft w; Some (l, rgt, w) });
     let step_right = (\<lambda>w. do { (r, w) \<leftarrow> Next rgt w; Some (lft, r, w) });
     if lft = NULL then do {
       r \<leftarrow> ld_sect rgt w;
       w \<leftarrow> (if slink r = NULL then section_takesection e compo NULL rgt STATE_RIGHTONLY w
            else section_takesection e compo (slink r) rgt STATE_MOVEDRIGHT w);
       step_right w
     }
     else if rgt = NULL then do {
       l \<leftarrow> ld_sect lft w;
       w \<leftarrow> (if slink l = NULL then section_takesection e compo lft NULL STATE_LEFTONLY w
            else section_takesection e compo lft (slink l) STATE_MOVEDLEFT w);
       step_left w
     }
     else do {
       l \<leftarrow> ld_sect lft w;
       if sstate l = STATE_LEFTONLY then
         (if scorrespond l = rgt then do {
            w \<leftarrow> TakeTwoSections e compo lft (scorrespond l) w;
            (l, w) \<leftarrow> Next lft w;
            (r, w) \<leftarrow> Next rgt w;
            Some (l, r, w)
          }
          else do { w \<leftarrow> section_takesection e compo lft NULL STATE_LEFTONLY w; step_left w })
       else if slink l = NULL then step_left w
       else do {
         ll \<leftarrow> ld_sect (slink l) w;
         if sstate ll = STATE_MARKED
         then do { w \<leftarrow> section_takesection e compo lft (slink l) STATE_MOVEDLEFT w; step_left w }
         else do {
           r \<leftarrow> ld_sect rgt w;
           if slink r = NULL
           then do { w \<leftarrow> section_takesection e compo NULL rgt (sstate r) w; step_right w }
           else do {
             rl \<leftarrow> ld_sect (slink r) w;
             if sstate rl = STATE_MARKED
             then do { w \<leftarrow> section_takesection e compo (slink r) rgt STATE_MOVEDRIGHT w; step_right w }
             else if slink l = rgt then do {
               w \<leftarrow> section_takesection e compo lft rgt STATE_SAME w;
               (r, w) \<leftarrow> Next rgt w;
               (l, w) \<leftarrow> Next lft w;
               Some (l, r, w)
             }
             else do {
               a1 \<leftarrow> line_getlinenr (sfirst rl) w;
               a2 \<leftarrow> line_getlinenr (sfirst l) w;
               b1 \<leftarrow> line_getlinenr (sfirst ll) w;
               b2 \<leftarrow> line_getlinenr (sfirst r) w;
               if a1 - a2 > b1 - b2
               then do { w \<leftarrow> section_takesection e compo (slink r) rgt STATE_MOVEDRIGHT w; step_right w }
               else do { w \<leftarrow> section_takesection e compo lft (slink l) STATE_MOVEDLEFT w; step_left w }
             }
           }
         }
       }
     }
   }"

partial_function (option) composite_loop :: "wenv \<Rightarrow> ptr \<Rightarrow> ptr \<Rightarrow> ptr \<Rightarrow> wd \<Rightarrow> wd option" where
  "composite_loop e compo lft rgt w =
     (if lft \<noteq> NULL \<or> rgt \<noteq> NULL then do {
        (l, r, w) \<leftarrow> composite_step e compo lft rgt w;
        composite_loop e compo l r w
      }
      else Some w)"

definition section_makecomposite :: "wenv \<Rightarrow> ptr \<Rightarrow> ptr \<Rightarrow> wd \<Rightarrow> (ptr \<times> wd) option" where
  "section_makecomposite e secsleft secsright w = do {
     (compo, w) \<leftarrow> on_list (List_Create (lga e)) w;
     (lft, w) \<leftarrow> on_list (List_First secsleft) w;
     (rgt, w) \<leftarrow> on_list (List_First secsright) w;
     w \<leftarrow> composite_loop e compo lft rgt w;
     Some (compo, w)
   }"

end
