(* ===== verification/Windiff_March_Correct.thy ===== *)
theory Windiff_March_Correct
  imports Windiff_Section
begin

text \<open>
  Spreading links from an anchor (\<open>section_expandanchor\<close>).  The two loops of the source walk
  the lists of lines forwards and backwards with the same code; what they need of the way of
  walking is the locale \<open>walker\<close>, with an interpretation for \<open>List_Next\<close> and one for
  \<open>List_Prev\<close>.
\<close>

subsection \<open>Walks\<close>

definition start :: "ptr list \<Rightarrow> ptr" where
  "start cs = (case cs of [] \<Rightarrow> NULL | c # _ \<Rightarrow> c)"

lemma start_simps [simp]: "start [] = NULL" "start (c # cs) = c"
  by (simp_all add: start_def)

text \<open>\<open>lined w xs\<close>: the cursors \<open>xs\<close> are the objects of one list of the storage, in order.\<close>

definition lined :: "wd \<Rightarrow> ptr list \<Rightarrow> bool" where
  "lined w xs \<longleftrightarrow> (\<exists>L l its. wf (lh w) L \<and> L l = Some its \<and> xs = map cursor its)"

lemma lined_kept: "lined w xs \<Longrightarrow> lh w' = lh w \<Longrightarrow> lined w' xs"
  by (simp add: lined_def)

lemma lined_nonnull: "lined w xs \<Longrightarrow> NULL \<notin> set xs"
  by (auto simp: lined_def dest!: sym [of NULL])

lemma lined_distinct: "lined w xs \<Longrightarrow> distinct xs"
  by (auto simp: lined_def ring_def distinct_map inj_on_def dest!: wf_ring)

lemma lined_at:
  assumes "lined w (as @ c # bs)"
  obtains L l xs x ys where "wf (lh w) L" "L l = Some (xs @ x # ys)" "as = map cursor xs" "c = cursor x" "bs = map cursor ys"
proof -
  obtain L l its where W: "wf (lh w) L" "L l = Some its" "as @ c # bs = map cursor its" using assms by (auto simp: lined_def)
  obtain xs zs where "its = xs @ zs" "as = map cursor xs" and zs: "c # bs = map cursor zs"
    using W(3) by (auto simp: append_eq_map_conv)
  moreover obtain x ys where "zs = x # ys" "c = cursor x" "bs = map cursor ys"
    using zs by (auto simp: Cons_eq_map_conv)
  ultimately show thesis using that W(1,2) by blast
qed

lemma Next_lined:
  assumes "lined w (as @ c # bs)"
  shows "Next c w = Some (start bs, w)"
proof -
  obtain L l xs x ys where "wf (lh w) L" "L l = Some (xs @ x # ys)" "as = map cursor xs" "c = cursor x" "bs = map cursor ys"
    by (rule lined_at [OF assms])
  moreover from List_Next_spec [OF this(1,2)] have "Next (cursor x) w = Some (if ys = [] then NULL else cursor (hd ys), w)"
    by (simp add: on_list_def)
  ultimately show ?thesis by (cases ys) simp_all
qed

lemma Prev_lined:
  assumes "lined w (as @ c # bs)"
  shows "Prev c w = Some (start (rev as), w)"
proof -
  obtain L l xs x ys where "wf (lh w) L" "L l = Some (xs @ x # ys)" "as = map cursor xs" "c = cursor x" "bs = map cursor ys"
    by (rule lined_at [OF assms])
  moreover from List_Prev_spec [OF this(1,2)] have "Prev (cursor x) w = Some (if xs = [] then NULL else cursor (last xs), w)"
    by (simp add: on_list_def)
  ultimately show ?thesis by (cases xs rule: rev_cases) simp_all
qed

definition ahead :: "ptr list \<Rightarrow> wd \<Rightarrow> bool" where
  "ahead cs w \<longleftrightarrow> (\<exists>as. lined w (as @ cs))"

definition behind :: "ptr list \<Rightarrow> wd \<Rightarrow> bool" where
  "behind cs w \<longleftrightarrow> (\<exists>bs. lined w (rev cs @ bs))"

subsection \<open>Blank lines\<close>

definition blank_line :: "wd \<Rightarrow> ptr \<Rightarrow> bool" where
  "blank_line w p \<longleftrightarrow> shown True (line_text w p) = [10]"

lemma text_blank_iff:
  assumes "text_ok e t"
  shows "(\<exists>b u. t = b @ u \<and> (\<forall>x \<in> set b. IS_BLANK x) \<and> (u = [] \<or> hd u = 10)) \<longleftrightarrow> shown True t = [10]"
proof -
  have t: "t = butlast t @ [10]" "10 \<notin> set (butlast t)" using assms by (auto simp: text_ok_def dest: append_butlast_last_id)
  show ?thesis
  proof
    assume "\<exists>b u. t = b @ u \<and> (\<forall>x \<in> set b. IS_BLANK x) \<and> (u = [] \<or> hd u = 10)"
    then obtain b u where bu: "t = b @ u" "\<forall>x \<in> set b. IS_BLANK x" "u = [] \<or> hd u = 10" by blast
    have "last t = 10" using t(1) by (metis last_snoc)
    then have "u \<noteq> []" using bu t(1) by (metis append_Nil2 not_blank_10 last_in_set snoc_eq_iff_butlast)
    then obtain v where v: "u = 10 # v" using bu(3) by (cases u) auto
    then have "v = []" using t(2) bu(1) by (cases v) (auto simp: butlast_append)
    then show "shown True t = [10]" using bu v by (simp add: shown_def filter_empty_conv)
  next
    assume "shown True t = [10]"
    then have "filter (\<lambda>c. \<not> IS_BLANK c) (butlast t) @ [10] = [10]" using t(1)
      by (metis filter.simps filter_append not_blank_10 shown_def)
    then have "\<forall>x \<in> set (butlast t). IS_BLANK x" by (simp add: filter_empty_conv)
    then show "\<exists>b u. t = b @ u \<and> (\<forall>x \<in> set b. IS_BLANK x) \<and> (u = [] \<or> hd u = 10)"
      using t(1) by (intro exI [of _ "butlast t"] exI [of _ "[10]"]) auto
  qed
qed

lemma line_isblank_spec:
  assumes "lines_ok e w" "line_or_null w p"
  shows "line_isblank p w = Some (p \<noteq> NULL \<and> blank_line w p)"
proof (cases "p = NULL")
  case True
  then show ?thesis by (simp add: line_isblank_def)
next
  case False
  then obtain l where l: "fls w p = Some l" using assms(2) by (auto simp: line_or_null_def)
  obtain t where t: "texts w (ltext l) = Some (t @ [0])" "text_ok e t" "line_text w p = t" by (rule lines_okD [OF assms(1) l])
  then have "utils_isblank (t @ [0]) = Some (blank_line w p)"
    using utils_isblank_spec [OF text_ok_solid(2) [OF t(2)], of "[]"] text_blank_iff [OF t(2)] by (simp add: blank_line_def)
  then show ?thesis using False l t by (simp add: line_isblank_def ld_line_def chars_def)
qed

lemma blank_line_kept: "kept w w' \<Longrightarrow> blank_line w' = blank_line w"
  by (simp add: fun_eq_iff blank_line_def kept_text)

subsection \<open>New links\<close>

text \<open>\<open>links_added S T w w'\<close>: links have only been added, and the new ones join a line of
  \<open>S\<close> and one of \<open>T\<close>.\<close>

definition links_added :: "ptr set \<Rightarrow> ptr set \<Rightarrow> wd \<Rightarrow> wd \<Rightarrow> bool" where
  "links_added S T w w' \<longleftrightarrow> (\<forall>p. lk w' p \<noteq> lk w p \<longrightarrow> lk w p = NULL \<and>
     (p \<in> S \<and> lk w' p \<in> T \<or> p \<in> T \<and> lk w' p \<in> S))"

lemma links_added_refl: "lk w' = lk w \<Longrightarrow> links_added S T w w'"
  by (simp add: links_added_def)

lemma links_added_mono: "links_added S T w w' \<Longrightarrow> S \<subseteq> S' \<Longrightarrow> T \<subseteq> T' \<Longrightarrow> links_added S' T' w w'"
  unfolding links_added_def by blast

lemma links_added_old: "links_added S T w w' \<Longrightarrow> lk w p \<noteq> NULL \<Longrightarrow> lk w' p = lk w p"
  unfolding links_added_def by blast

lemma links_added_trans:
  assumes "links_added S T w w1" "links_added S T w1 w2"
  shows "links_added S T w w2"
  unfolding links_added_def
proof (intro allI impI)
  fix p assume p: "lk w2 p \<noteq> lk w p"
  show "lk w p = NULL \<and> (p \<in> S \<and> lk w2 p \<in> T \<or> p \<in> T \<and> lk w2 p \<in> S)"
  proof (cases "lk w2 p = lk w1 p")
    case True
    then show ?thesis using assms(1) p unfolding links_added_def by metis
  next
    case False
    then show ?thesis using assms p unfolding links_added_def by metis
  qed
qed

lemma links_added_changed:
  assumes "links_added S T w w1" "links_added S T w1 w2" "NULL \<notin> S" "NULL \<notin> T"
  shows "lk w2 \<noteq> lk w \<longleftrightarrow> lk w1 \<noteq> lk w \<or> lk w2 \<noteq> lk w1"
proof
  assume "lk w1 \<noteq> lk w \<or> lk w2 \<noteq> lk w1"
  then obtain p where "lk w1 p \<noteq> lk w p \<or> lk w1 p = lk w p \<and> lk w2 p \<noteq> lk w1 p" by (metis ext)
  then show "lk w2 \<noteq> lk w"
  proof
    assume p: "lk w1 p \<noteq> lk w p"
    then have "lk w1 p \<noteq> NULL" using assms(1,3,4) unfolding links_added_def by metis
    then have "lk w2 p = lk w1 p" using links_added_old [OF assms(2)] by blast
    then show ?thesis using p by (metis)
  qed metis
qed auto

text \<open>What a step of the comparison engine does to the lines.\<close>

definition linking :: "wenv \<Rightarrow> ptr set \<Rightarrow> ptr set \<Rightarrow> wd \<Rightarrow> wd \<Rightarrow> bool" where
  "linking e S T w w' \<longleftrightarrow> lines_ok e w' \<and> kept w w' \<and> links_added S T w w'"

lemma linking_refl: "lines_ok e w \<Longrightarrow> linking e S T w w"
  by (simp add: linking_def links_added_refl)

lemma linking_trans: "linking e S T w w1 \<Longrightarrow> linking e S T w1 w2 \<Longrightarrow> linking e S T w w2"
  using kept_trans links_added_trans unfolding linking_def by blast

lemma linking_mono: "linking e S T w w' \<Longrightarrow> S \<subseteq> S' \<Longrightarrow> T \<subseteq> T' \<Longrightarrow> linking e S' T' w w'"
  using links_added_mono unfolding linking_def by blast

lemma linkable_linking:
  assumes "lines_ok e w'" "kept w w'" "lk w' = (if linkable e w p q then (lk w)(p := q, q := p) else lk w)" "p \<in> S" "q \<in> T"
  shows "linking e S T w w'" "linkable e w p q \<longleftrightarrow> lk w' \<noteq> lk w"
proof -
  show "linking e S T w w'" using assms unfolding linking_def links_added_def linkable_def by auto
  show "linkable e w p q \<longleftrightarrow> lk w' \<noteq> lk w"
  proof
    assume L: "linkable e w p q"
    then have "lk w' q = p" "lk w q = NULL" "p \<noteq> NULL" using assms(3) by (auto simp: linkable_def)
    then show "lk w' \<noteq> lk w" by metis
  qed (use assms(3) in auto)
qed

subsection \<open>Walking\<close>

text \<open>A walk over \<open>xs\<close> and then \<open>zs\<close> that is stopped by \<open>limit\<close> at the end of \<open>xs\<close>.\<close>

definition reach :: "ptr \<Rightarrow> ptr list \<Rightarrow> ptr list \<Rightarrow> bool" where
  "reach limit xs zs \<longleftrightarrow> zs = [] \<or> xs \<noteq> [] \<and> limit = start zs"

lemma line_or_null_start: "reach limit xs zs \<Longrightarrow> \<forall>c \<in> set (xs @ zs). fls w c \<noteq> None \<Longrightarrow> line_or_null w (start (xs @ zs))"
  by (cases "xs @ zs") (auto simp: line_or_null_def)

lemma reach_rest: "reach limit (x # xs) zs \<Longrightarrow> start (xs @ zs) \<noteq> limit \<Longrightarrow> reach limit xs zs"
  by (auto simp: reach_def)

lemma reach_less: "reach limit xs zs \<Longrightarrow> start (ds @ zs) \<noteq> limit \<Longrightarrow> reach limit ds zs"
  by (auto simp: reach_def)

text \<open>The interface of the two loops: \<open>walks cs w\<close> says that \<open>cs\<close> are the lines that
  \<open>move\<close> will still pass.\<close>

locale walker =
  fixes move :: mover and walks :: "ptr list \<Rightarrow> wd \<Rightarrow> bool"
  assumes move_start: "walks (c # cs) w \<Longrightarrow> move c w = Some (start cs, w)"
    and walks_rest: "walks (c # cs) w \<Longrightarrow> walks cs w"
    and walks_nonnull: "walks cs w \<Longrightarrow> NULL \<notin> set cs"
    and walks_kept: "walks cs w \<Longrightarrow> lh w' = lh w \<Longrightarrow> walks cs w'"
begin

text \<open>A walk that stops at \<open>limit\<close> passes \<open>xs\<close> and not \<open>zs\<close>; without a limit on the
  way, \<open>zs\<close> is empty.\<close>

lemma absorb_spec:
  assumes "lines_ok e w" "walks (xs @ zs) w" "\<forall>c \<in> set (xs @ zs). fls w c \<noteq> None" "zs = [] \<or> limit = start zs"
  shows "\<exists>ds. AbsorbAnyBlanks move limit pr (start (xs @ zs)) w = Some (pr \<or> length ds < length xs, start (ds @ zs), w) \<and>
    walks (ds @ zs) w \<and> set ds \<subseteq> set xs \<and> length ds \<le> length xs"
  using assms(2,3)
proof (induction xs arbitrary: pr)
  case Nil
  have "line_or_null w (start zs)" using Nil(2) by (cases zs) (auto simp: line_or_null_def)
  then have "line_isblank (start zs) w = Some (start zs \<noteq> NULL \<and> blank_line w (start zs))"
    by (rule line_isblank_spec [OF assms(1)])
  moreover have "start zs \<noteq> NULL \<Longrightarrow> start zs = limit" using assms(4) by (cases zs) auto
  ultimately have "AbsorbAnyBlanks move limit pr (start zs) w = Some (pr, start zs, w)"
    by (auto simp: AbsorbAnyBlanks.simps [of move limit pr])
  then show ?case using Nil(1) by simp
next
  case (Cons c xs)
  have W: "walks (c # xs @ zs) w" using Cons.prems(1) by simp
  have b: "line_isblank c w = Some (blank_line w c)"
    using line_isblank_spec [OF assms(1), of c] Cons.prems(2) walks_nonnull [OF W] by (auto simp: line_or_null_def)
  show ?case
  proof (cases "blank_line w c \<and> c \<noteq> limit")
    case True
    then have run: "AbsorbAnyBlanks move limit pr (start ((c # xs) @ zs)) w = AbsorbAnyBlanks move limit True (start (xs @ zs)) w"
      using b move_start [OF W] by (simp add: AbsorbAnyBlanks.simps [of move limit pr])
    obtain ds where "AbsorbAnyBlanks move limit True (start (xs @ zs)) w = Some (True, start (ds @ zs), w)" "walks (ds @ zs) w"
      "set ds \<subseteq> set xs" "length ds \<le> length xs" using Cons.IH [OF walks_rest [OF W], of True] Cons.prems(2) by auto
    then show ?thesis unfolding run by (intro exI [of _ ds]) auto
  next
    case False
    then have "AbsorbAnyBlanks move limit pr (start ((c # xs) @ zs)) w = Some (pr, c, w)"
      using b by (auto simp: AbsorbAnyBlanks.simps [of move limit pr])
    then show ?thesis using Cons.prems(1) by (intro exI [of _ "c # xs"]) simp
  qed
qed

text \<open>The loop ends, links lines of the two walks only, and reports whether it made a link.\<close>

lemma march_spec:
  assumes E: "env_ok e" and "lines_ok e w" "walks (ls @ zs) w" "walks (rs @ vs) w" "\<forall>c \<in> set (ls @ zs) \<union> set (rs @ vs). fls w c \<noteq> None"
    "reach le ls zs" "reach re rs vs"
  shows "\<exists>w'. march e move le re ch (start (ls @ zs)) (start (rs @ vs)) w = Some (ch \<or> lk w' \<noteq> lk w, w') \<and>
    linking e (set ls) (set rs) w w' \<and> (linkable e w (start (ls @ zs)) (start (rs @ vs)) \<longrightarrow> lk w' (start (ls @ zs)) = start (rs @ vs))"
  using assms(2-)
proof (induction "length ls + length rs" arbitrary: ls rs w ch rule: less_induct)
  case less
  have nul: "NULL \<notin> set ls" "NULL \<notin> set rs" using walks_nonnull [OF less.prems(2)] walks_nonnull [OF less.prems(3)] by auto
  have lon: "line_or_null w (start (ls @ zs))" "line_or_null w (start (rs @ vs))"
    using line_or_null_start [OF less.prems(5)] line_or_null_start [OF less.prems(6)] less.prems(4) by auto
  define l where "l = linkable e w (start (ls @ zs)) (start (rs @ vs))"
  obtain w1 where w1: "line_link e (start (ls @ zs)) (start (rs @ vs)) w = Some (l, w1)" "lines_ok e w1" "kept w w1"
    "lk w1 = (if l then (lk w)(start (ls @ zs) := start (rs @ vs), start (rs @ vs) := start (ls @ zs)) else lk w)"
    using line_link_spec [OF E less.prems(1) lon] unfolding l_def by blast
  have wk: "walks (ls @ zs) w1" "walks (rs @ vs) w1"
    using less.prems(2,3) w1(3) walks_kept unfolding kept_def by blast+
  show ?case
  proof (cases l)
    case l: True
    have "ls \<noteq> []" "rs \<noteq> []" using l less.prems(5,6) unfolding l_def by (auto simp: linkable_def reach_def)
    then obtain x xs y ys where xy: "ls = x # xs" "rs = y # ys" by (cases ls; cases rs) auto
    have K: "linking e (set ls) (set rs) w w1" "lk w1 \<noteq> lk w"
      using linkable_linking [OF w1(2,3,4) [unfolded l_def], of "set ls" "set rs"] l by (auto simp: xy l_def)
    have wk': "walks (x # (xs @ zs)) w1" "walks (y # (ys @ vs)) w1" using wk by (simp_all add: xy)
    have run: "march e move le re ch (start (ls @ zs)) (start (rs @ vs)) w =
        (if start (xs @ zs) = le \<or> start (ys @ vs) = re then Some (True, w1) else march e move le re True (start (xs @ zs)) (start (ys @ vs)) w1)"
      using w1(1) l move_start [OF wk'(1)] move_start [OF wk'(2)] by (simp add: march.simps [of e move le re ch] xy)
    show ?thesis
    proof (cases "start (xs @ zs) = le \<or> start (ys @ vs) = re")
      case True
      then show ?thesis using run K w1(4) l by (auto simp: xy)
    next
      case False
      have lt: "length xs + length ys < length ls + length rs" by (simp add: xy)
      have alive: "\<forall>c \<in> set (xs @ zs) \<union> set (ys @ vs). fls w1 c \<noteq> None" using less.prems(4) kept_live [OF w1(3)] by (auto simp: xy)
      have rch: "reach le xs zs" "reach re ys vs" using reach_rest False less.prems(5,6) by (auto simp: xy)
      obtain w2 where w2: "march e move le re True (start (xs @ zs)) (start (ys @ vs)) w1 = Some (True, w2)"
        "linking e (set xs) (set ys) w1 w2"
        using less.hyps [OF lt w1(2) walks_rest [OF wk'(1)] walks_rest [OF wk'(2)] alive rch, of True] by auto
      have L2: "linking e (set ls) (set rs) w1 w2" by (rule linking_mono [OF w2(2)]) (auto simp: xy)
      have ch: "lk w2 \<noteq> lk w"
        using links_added_changed [of "set ls" "set rs" w w1 w2] K L2 nul by (auto simp: linking_def)
      have "x \<noteq> NULL" "y \<noteq> NULL" using nul by (auto simp: xy)
      then have "lk w1 x = y" "lk w1 x \<noteq> NULL" using w1(4) l by (auto simp: xy)
      then have "lk w2 x = y" using L2 links_added_old unfolding linking_def by metis
      then show ?thesis using run False w2(1) ch linking_trans [OF K(1) L2] by (auto simp: xy)
    qed
  next
    case nl: False
    then have lk1: "lk w1 = lk w" and K: "linking e (set ls) (set rs) w w1" using w1 by (auto simp: linking_def links_added_refl)
    have alive: "\<forall>c \<in> set (ls @ zs). fls w1 c \<noteq> None" "\<forall>c \<in> set (rs @ vs). fls w1 c \<noteq> None" using less.prems(4) kept_live [OF w1(3)] by auto
    show ?thesis
    proof (cases "ignore_blanks e")
      case False
      then have "march e move le re ch (start (ls @ zs)) (start (rs @ vs)) w = Some (ch, w1)"
        using w1(1) nl by (simp add: march.simps [of e move le re ch])
      then show ?thesis using K lk1 nl by (auto simp: l_def)
    next
      case True
      have lim: "zs = [] \<or> le = start zs" "vs = [] \<or> re = start vs" using less.prems(5,6) by (auto simp: reach_def)
      obtain xs where xs: "AbsorbAnyBlanks move le False (start (ls @ zs)) w1 = Some (length xs < length ls, start (xs @ zs), w1)"
        "walks (xs @ zs) w1" "set xs \<subseteq> set ls" "length xs \<le> length ls"
        using absorb_spec [OF w1(2) wk(1) alive(1) lim(1), of False] by auto
      obtain ys where ys: "AbsorbAnyBlanks move re False (start (rs @ vs)) w1 = Some (length ys < length rs, start (ys @ vs), w1)"
        "walks (ys @ vs) w1" "set ys \<subseteq> set rs" "length ys \<le> length rs"
        using absorb_spec [OF w1(2) wk(2) alive(2) lim(2), of False] by auto
      let ?m = "length xs < length ls \<or> length ys < length rs"
      have run: "march e move le re ch (start (ls @ zs)) (start (rs @ vs)) w =
          (if \<not> ?m \<or> start (xs @ zs) = le \<or> start (ys @ vs) = re then Some (ch, w1)
          else march e move le re ch (start (xs @ zs)) (start (ys @ vs)) w1)"
        using w1(1) nl True xs(1) ys(1) by (auto simp: march.simps [of e move le re ch])
      show ?thesis
      proof (cases "\<not> ?m \<or> start (xs @ zs) = le \<or> start (ys @ vs) = re")
        case True
        then show ?thesis using run K lk1 nl by (auto simp: l_def)
      next
        case False
        then have lt: "length xs + length ys < length ls + length rs" using xs(4) ys(4) by linarith
        have alive': "\<forall>c \<in> set (xs @ zs) \<union> set (ys @ vs). fls w1 c \<noteq> None" using alive xs(3) ys(3) by auto
        have rch: "reach le xs zs" "reach re ys vs" using reach_less False less.prems(5,6) by auto
        obtain w2 where w2: "march e move le re ch (start (xs @ zs)) (start (ys @ vs)) w1 = Some (ch \<or> lk w2 \<noteq> lk w1, w2)"
          "linking e (set xs) (set ys) w1 w2"
          using less.hyps [OF lt w1(2) xs(2) ys(2) alive' rch, of ch] by auto
        have L2: "linking e (set ls) (set rs) w1 w2" by (rule linking_mono [OF w2(2) xs(3) ys(3)])
        show ?thesis using run False w2(1) linking_trans [OF K L2] lk1 nl by (auto simp: l_def)
      qed
    qed
  qed
qed

end

interpretation forwards: walker Next ahead
proof
  fix c cs w assume "ahead (c # cs) w"
  then show "Next c w = Some (start cs, w)" by (auto simp: ahead_def dest: Next_lined)
next
  fix c cs w assume "ahead (c # cs) w"
  then obtain as where "lined w ((as @ [c]) @ cs)" by (auto simp: ahead_def)
  then show "ahead cs w" unfolding ahead_def by blast
qed (auto simp: ahead_def dest: lined_nonnull lined_kept)

interpretation backwards: walker Prev behind
proof
  fix c cs w assume "behind (c # cs) w"
  then obtain bs where "lined w (rev cs @ c # bs)" by (auto simp: behind_def)
  from Prev_lined [OF this] show "Prev c w = Some (start cs, w)" by simp
next
  fix c cs w assume "behind (c # cs) w"
  then obtain bs where "lined w (rev cs @ (c # bs))" by (auto simp: behind_def)
  then show "behind cs w" unfolding behind_def by blast
qed (auto simp: behind_def dest: lined_nonnull lined_kept)

subsection \<open>Sections in their lists\<close>

text \<open>\<open>within w sec as ls bs\<close>: the section \<open>sec\<close> has the lines \<open>ls\<close>, and the list of
  lines has \<open>as\<close> before them and \<open>bs\<close> after them.\<close>

definition within :: "wd \<Rightarrow> ptr \<Rightarrow> ptr list \<Rightarrow> ptr list \<Rightarrow> ptr list \<Rightarrow> bool" where
  "within w sec as ls bs \<longleftrightarrow> (\<exists>s. scs w sec = Some s \<and> ls \<noteq> [] \<and> sfirst s = hd ls \<and> slast s = last ls) \<and>
     lined w (as @ ls @ bs) \<and> (\<forall>c \<in> set (as @ ls @ bs). fls w c \<noteq> None)"

lemma within_cong:
  assumes "within w sec as ls bs" "lh w' = lh w" "scs w' = scs w" "\<And>c. fls w' c = None \<longleftrightarrow> fls w c = None"
  shows "within w' sec as ls bs"
  using assms by (auto simp: within_def intro: lined_kept)

lemma within_kept: "within w sec as ls bs \<Longrightarrow> kept w w' \<Longrightarrow> within w' sec as ls bs"
  by (rule within_cong) (simp_all add: kept_live, simp_all add: kept_def)

lemma within_ends:
  assumes "within w sec as ls bs"
  shows "lined w ((as @ butlast ls) @ last ls # bs)" "lined w (as @ hd ls # tl ls @ bs)"
proof -
  have W: "lined w (as @ ls @ bs)" "ls \<noteq> []" using assms by (auto simp: within_def)
  then have "(as @ butlast ls) @ last ls # bs = as @ ls @ bs" "as @ hd ls # tl ls @ bs = as @ ls @ bs"
    by (metis append.assoc append_Cons append_Nil append_butlast_last_id, metis append_Cons list.collapse)
  then show "lined w ((as @ butlast ls) @ last ls # bs)" "lined w (as @ hd ls # tl ls @ bs)" using W(1) by (simp_all only:)
qed

lemma within_last: "within w sec as ls bs \<Longrightarrow> Next (last ls) w = Some (start bs, w)"
  by (rule Next_lined [OF within_ends(1)])

lemma within_first: "within w sec as ls bs \<Longrightarrow> Prev (hd ls) w = Some (start (rev as), w)"
  by (rule Prev_lined [OF within_ends(2)])

lemma within_sect:
  assumes "within w sec as ls bs"
  obtains s where "ld_sect sec w = Some s" "sfirst s = hd ls" "slast s = last ls" "ls \<noteq> []"
  using assms by (auto simp: within_def ld_sect_def)

lemma line_getlink_lk: "fls w p \<noteq> None \<Longrightarrow> p \<noteq> NULL \<Longrightarrow> line_getlink p w = Some (lk w p)"
  by (auto simp: line_getlink_def ld_line_def lk_def)

text \<open>Where spreading from line \<open>x\<close> can make links: in the section, and, if \<open>x\<close> is its first
  line, also before it, since the backward loop then starts beyond its own limit.\<close>

definition span :: "ptr list \<Rightarrow> ptr list \<Rightarrow> ptr \<Rightarrow> ptr set" where
  "span as ls x = (if x = hd ls then set as \<union> set ls else set ls)"

lemma span_whole [simp]: "span [] ls x = set ls"
  by (simp add: span_def)

lemma backward_reach:
  assumes "distinct (as @ us @ x # vs @ bs)"
  obtains xs zs where "rev us @ rev as = xs @ zs" "reach (start (rev as)) xs zs" "set xs \<subseteq> span as (us @ x # vs) x"
proof (cases "us = []")
  case True
  then show thesis using that [of "rev as" "[]"] by (auto simp: reach_def span_def)
next
  case False
  then have "x \<noteq> hd (us @ x # vs)" using assms by (cases us) auto
  then show thesis using that [of "rev us" "rev as"] False by (auto simp: reach_def span_def)
qed

lemma section_expandanchor_spec:
  assumes E: "env_ok e" and L: "lines_ok e w" and W1: "within w sec1 as1 ls1 bs1" and W2: "within w sec2 as2 ls2 bs2"
    and x: "x \<in> set ls1" and y: "y \<in> set ls2"
  shows "\<exists>w'. section_expandanchor e sec1 x sec2 y w = Some (lk w' \<noteq> lk w, w') \<and>
    linking e (span as1 ls1 x) (span as2 ls2 y) w w' \<and> (linkable e w x y \<longrightarrow> lk w' x = y)"
proof -
  obtain s1 where s1: "ld_sect sec1 w = Some s1" "sfirst s1 = hd ls1" "slast s1 = last ls1" by (rule within_sect [OF W1])
  obtain s2 where s2: "ld_sect sec2 w = Some s2" "sfirst s2 = hd ls2" "slast s2 = last ls2" by (rule within_sect [OF W2])
  obtain us vs where ls1: "ls1 = us @ x # vs" using split_list [OF x] by blast
  obtain us' vs' where ls2: "ls2 = us' @ y # vs'" using split_list [OF y] by blast
  have lin: "lined w (as1 @ us @ x # vs @ bs1)" "lined w (as2 @ us' @ y # vs' @ bs2)"
    using W1 W2 by (simp_all add: within_def ls1 ls2)
  have alive: "\<forall>c \<in> set (as1 @ ls1 @ bs1) \<union> set (as2 @ ls2 @ bs2). fls w c \<noteq> None" using W1 W2 by (auto simp: within_def)
  have nn: "x \<noteq> NULL" "y \<noteq> NULL" using lined_nonnull [OF lin(1)] lined_nonnull [OF lin(2)] by auto
  have ah: "ahead ((x # vs) @ bs1) w" "ahead ((y # vs') @ bs2) w"
    using lin unfolding ahead_def by (metis append.assoc append_Cons)+
  have al1: "\<forall>c \<in> set ((x # vs) @ bs1) \<union> set ((y # vs') @ bs2). fls w c \<noteq> None" using alive by (auto simp: ls1 ls2)
  have rch: "reach (start bs1) (x # vs) bs1" "reach (start bs2) (y # vs') bs2" by (simp_all add: reach_def)
  obtain w1 where w1: "march e Next (start bs1) (start bs2) False x y w = Some (lk w1 \<noteq> lk w, w1)"
    "linking e (set (x # vs)) (set (y # vs')) w w1" "linkable e w x y \<longrightarrow> lk w1 x = y"
    using forwards.march_spec [OF E L ah al1 rch, of False] by auto
  let ?S = "span as1 ls1 x" and ?T = "span as2 ls2 y"
  have L1: "linking e ?S ?T w w1" by (rule linking_mono [OF w1(2)]) (auto simp: span_def ls1 ls2)
  have K1: "kept w w1" and ok1: "lines_ok e w1" using w1(2) by (simp_all add: linking_def)
  have W1': "within w1 sec1 as1 ls1 bs1" and W2': "within w1 sec2 as2 ls2 bs2" using W1 W2 K1 within_kept by blast+
  obtain t1 where t1: "ld_sect sec1 w1 = Some t1" "sfirst t1 = hd ls1" by (rule within_sect [OF W1'])
  obtain t2 where t2: "ld_sect sec2 w1 = Some t2" "sfirst t2 = hd ls2" by (rule within_sect [OF W2'])
  have gl: "line_getlink x w1 = Some (lk w1 x)"
    using line_getlink_lk [of w1 x] nn(1) kept_live [OF K1, of x] alive by (simp add: ls1)
  have lin1: "lined w1 (as1 @ us @ x # vs @ bs1)" "lined w1 (as2 @ us' @ y # vs' @ bs2)"
    using lin K1 lined_kept unfolding kept_def by blast+
  have pv: "Prev x w1 = Some (start (rev us @ rev as1), w1)" "Prev y w1 = Some (start (rev us' @ rev as2), w1)"
    using Prev_lined [of w1 "as1 @ us" x] Prev_lined [of w1 "as2 @ us'" y] lin1 by simp_all
  let ?l = "start (rev us @ rev as1)" and ?r = "start (rev us' @ rev as2)"
  have run: "section_expandanchor e sec1 x sec2 y w = (if lk w1 x = NULL \<or> ?l = NULL \<or> ?r = NULL then Some (lk w1 \<noteq> lk w, w1)
      else march e Prev (start (rev as1)) (start (rev as2)) (lk w1 \<noteq> lk w) ?l ?r w1)"
    using s1 s2 nn within_last [OF W1] within_last [OF W2] w1(1) gl pv t1 t2 within_first [OF W1'] within_first [OF W2']
    by (simp add: section_expandanchor_def)
  show ?thesis
  proof (cases "lk w1 x = NULL \<or> ?l = NULL \<or> ?r = NULL")
    case True
    then show ?thesis using run L1 w1(3) by auto
  next
    case False
    obtain xs zs where xs: "rev us @ rev as1 = xs @ zs" "reach (start (rev as1)) xs zs" "set xs \<subseteq> ?S"
      using backward_reach [of as1 us x vs bs1] lined_distinct [OF lin(1)] unfolding ls1 by metis
    obtain ys zs' where ys: "rev us' @ rev as2 = ys @ zs'" "reach (start (rev as2)) ys zs'" "set ys \<subseteq> ?T"
      using backward_reach [of as2 us' y vs' bs2] lined_distinct [OF lin(2)] unfolding ls2 by metis
    have be: "behind (xs @ zs) w1" "behind (ys @ zs') w1"
      unfolding behind_def xs(1) [symmetric] ys(1) [symmetric] using lin1 by (metis append.assoc rev_append rev_rev_ident)+
    have "set (xs @ zs) = set us \<union> set as1" "set (ys @ zs') = set us' \<union> set as2"
      unfolding xs(1) [symmetric] ys(1) [symmetric] by auto
    then have al: "\<forall>c \<in> set (xs @ zs) \<union> set (ys @ zs'). fls w1 c \<noteq> None"
      using alive kept_live [OF K1] by (auto simp: ls1 ls2)
    obtain w2 where w2: "march e Prev (start (rev as1)) (start (rev as2)) (lk w1 \<noteq> lk w) ?l ?r w1 = Some (lk w1 \<noteq> lk w \<or> lk w2 \<noteq> lk w1, w2)"
      "linking e (set xs) (set ys) w1 w2"
      using backwards.march_spec [OF E ok1 be al xs(2) ys(2), of "lk w1 \<noteq> lk w"] unfolding xs(1) ys(1) by blast
    have L2: "linking e ?S ?T w1 w2" by (rule linking_mono [OF w2(2) xs(3) ys(3)])
    have "NULL \<notin> ?S" "NULL \<notin> ?T"
      using lined_nonnull [OF lin(1)] lined_nonnull [OF lin(2)] by (auto simp: span_def ls1 ls2)
    then have "lk w2 \<noteq> lk w \<longleftrightarrow> lk w1 \<noteq> lk w \<or> lk w2 \<noteq> lk w1"
      using links_added_changed L1 L2 unfolding linking_def by blast
    moreover have "linkable e w x y \<longrightarrow> lk w2 x = y"
      using w1(3) nn(2) L2 links_added_old unfolding linking_def by metis
    ultimately show ?thesis using run False w2(1) linking_trans [OF L1 L2] by auto
  qed
qed

end
