(* ===== verification/Windiff_Match_Correct.thy ===== *)
theory Windiff_Match_Correct
  imports Windiff_March_Correct
begin

text \<open>
  Matching two sections (\<open>section_match\<close>): the routine ends, keeps the invariant of the lines,
  adds links between equal lines of the two sections only, tells whether it added one, gives the
  memory of its trees back, and links every line that occurs exactly once on both sides.
\<close>

subsection \<open>The length of a text\<close>

lemma textlen_step:
  assumes "c \<noteq> 0" "(if ignore_blanks e then skip_blanks (c # cs) else Some (c # cs)) = Some (d # ds)" "\<not> lead e d"
  shows "textlen_loop e n (c # cs) = textlen_loop e (n + 1) ds"
  using assms(1,3) by (subst textlen_loop.simps) (simp add: assms(2) del: skip_blanks.simps)

lemma textlen_spec:
  assumes "text_ok e t \<or> t = []"
  shows "textlen_loop e n (t @ [0]) = Some (n + int (length (shown (ignore_blanks e) t)))"
  using assms
proof (induction "length t" arbitrary: t n rule: less_induct)
  case less
  show ?case
  proof (cases "t = []")
    case True
    then show ?thesis by (subst textlen_loop.simps) (simp add: shown_def)
  next
    case False
    then have t: "text_ok e t" using less.prems by simp
    obtain b d ds where D: "(if ignore_blanks e then skip_blanks (t @ [0]) else Some (t @ [0])) = Some (d # ds @ [0])"
      "t = b @ d # ds" "shown (ignore_blanks e) t = d # shown (ignore_blanks e) ds" "solid ds"
      by (rule first_shown [OF text_ok_solid(1) [OF t] False])
    have tail: "text_ok e ds \<or> ds = []"
      using t unfolding D(2) by (auto simp: text_ok_def single_def butlast_append split: if_splits)
    have nl: "\<not> lead e d" using t unfolding D(2) by (auto simp: text_ok_def single_def)
    obtain c cs where c: "t = c # cs" "c \<noteq> 0" using False text_ok_solid(2) [OF t] by (cases t) auto
    have "textlen_loop e n (c # cs @ [0]) = textlen_loop e (n + 1) (ds @ [0])"
      by (rule textlen_step [OF c(2) _ nl]) (use D(1) c(1) in \<open>simp only: append_Cons\<close>)
    then have "textlen_loop e n (t @ [0]) = textlen_loop e (n + 1) (ds @ [0])" using c(1) by simp
    also have "\<dots> = Some (n + 1 + int (length (shown (ignore_blanks e) ds)))"
      by (rule less.hyps) (use D(2) tail in auto)
    finally show ?thesis using D(3) by simp
  qed
qed

lemma line_gettextlen_spec:
  assumes "lines_ok e w" "fls w p \<noteq> None"
  shows "line_gettextlen e p w = Some (int (length (line_key e w p)))"
proof -
  obtain l where l: "fls w p = Some l" using assms(2) by blast
  obtain t where t: "texts w (ltext l) = Some (t @ [0])" "text_ok e t" "line_text w p = t" by (rule lines_okD [OF assms(1) l])
  have "textlen_loop e 0 (t @ [0]) = Some (int (length (line_key e w p)))"
    using textlen_spec [of e t 0] t(2,3) by (simp add: line_key_def)
  then show ?thesis using l t(1) by (simp add: line_gettextlen_def ld_line_def chars_def)
qed

subsection \<open>The trees\<close>

definition hk :: "wenv \<Rightarrow> wd \<Rightarrow> ptr \<Rightarrow> 32 word" where
  "hk e w c = hash_sum 0 (line_key e w c)"

definition entries :: "wenv \<Rightarrow> wd \<Rightarrow> ptr list \<Rightarrow> (treekey \<times> ptr option) list" where
  "entries e w cs = map (\<lambda>c. (hk e w c, Some c)) (filter (\<lambda>c. lk w c = NULL) cs)"

abbreviation tree_holds :: "wenv \<Rightarrow> wd \<Rightarrow> ptr \<Rightarrow> node tree \<Rightarrow> pieces \<Rightarrow> (treekey \<times> ptr option) list \<Rightarrow> bool" where
  "tree_holds e w t tr A us \<equiv> ctree_ok (genv e) (ts w) t (wheap e) tr A us"

definition mem_ok :: "wenv \<Rightarrow> wd \<Rightarrow> pieces \<Rightarrow> bool" where
  "mem_ok e w A \<longleftrightarrow> gm_sound (osalloc (genv e)) (useranswer (genv e)) (wheap e) (gm (ts w)) A"

text \<open>\<open>counting e w w'\<close>: only the trees and cached hash codes have changed.\<close>

definition counting :: "wenv \<Rightarrow> wd \<Rightarrow> wd \<Rightarrow> bool" where
  "counting e w w' \<longleftrightarrow> lines_ok e w' \<and> kept (w\<lparr>ts := ts w'\<rparr>) w' \<and> lk w' = lk w"

lemma ts_simps [simp]:
  "lk (w\<lparr>ts := t\<rparr>) = lk w" "line_key e (w\<lparr>ts := t\<rparr>) = line_key e w" "line_text (w\<lparr>ts := t\<rparr>) = line_text w"
  "lines_ok e (w\<lparr>ts := t\<rparr>) = lines_ok e w"
  "lined (w\<lparr>ts := t\<rparr>) xs = lined w xs" "within (w\<lparr>ts := t\<rparr>) sec as ls bs = within w sec as ls bs"
proof -
  show l: "lk (w\<lparr>ts := t\<rparr>) = lk w" by (simp add: fun_eq_iff lk_def)
  show x: "line_text (w\<lparr>ts := t\<rparr>) = line_text w" by (simp add: fun_eq_iff line_text_def)
  then show k: "line_key e (w\<lparr>ts := t\<rparr>) = line_key e w" for e by (simp add: fun_eq_iff line_key_def)
  show "lines_ok e (w\<lparr>ts := t\<rparr>) = lines_ok e w" by (simp add: lines_ok_def line_ok_def l k)
  show "lined (w\<lparr>ts := t\<rparr>) xs = lined w xs" by (simp add: lined_def)
  then show "within (w\<lparr>ts := t\<rparr>) sec as ls bs = within w sec as ls bs" by (simp add: within_def lined_def)
qed

lemma counting_refl: "lines_ok e w \<Longrightarrow> counting e w w"
  by (simp add: counting_def)

lemma counting_trans: "counting e w w1 \<Longrightarrow> counting e w1 w2 \<Longrightarrow> counting e w w2"
  by (simp add: counting_def kept_def)

lemma counting_ts: "counting e w w' \<Longrightarrow> counting e w (w'\<lparr>ts := t\<rparr>)"
  by (simp add: counting_def kept_def)

lemma kept_counting: "lines_ok e w' \<Longrightarrow> kept w w' \<Longrightarrow> lk w' = lk w \<Longrightarrow> counting e w w'"
  by (simp add: counting_def kept_def)

lemma counting_facts:
  assumes "counting e w w'"
  shows "line_key e' w' c = line_key e' w c" "hk e' w' c = hk e' w c" "fls w' c = None \<longleftrightarrow> fls w c = None"
    "entries e' w' cs = entries e' w cs" "within w sec as ls bs \<Longrightarrow> within w' sec as ls bs"
proof -
  have K: "kept (w\<lparr>ts := ts w'\<rparr>) w'" and L: "lk w' = lk w" using assms by (simp_all add: counting_def)
  show 1: "line_key e' w' c = line_key e' w c" for e' c using kept_text(2) [OF K, of e' c] by simp
  then show 2: "hk e' w' c = hk e' w c" for c by (simp add: hk_def)
  show "fls w' c = None \<longleftrightarrow> fls w c = None" using kept_live [OF K, of c] by simp
  show "entries e' w' cs = entries e' w cs" by (simp add: entries_def 2 L)
  show "within w sec as ls bs \<Longrightarrow> within w' sec as ls bs" using within_kept [OF _ K] by simp
qed

lemma line_hash:
  assumes "lines_ok e w" "fls w c \<noteq> None"
  shows "\<exists>w'. line_gethashcode e c w = Some (hk e w c, w') \<and> lines_ok e w' \<and> kept w w' \<and> lk w' = lk w"
  using line_gethashcode_spec [OF assms(1)] assms(2) by (auto simp: hk_def)

text \<open>The next line of a section.\<close>

lemma within_next:
  assumes "within w sec as (pre @ c # cs) bs" "cs \<noteq> []"
  shows "Next c w = Some (start cs, w)" "c \<noteq> last (pre @ c # cs)" "within w sec as ((pre @ [c]) @ cs) bs"
proof -
  have L: "lined w ((as @ pre) @ c # (cs @ bs))" using assms(1) by (simp add: within_def)
  show "Next c w = Some (start cs, w)" using Next_lined [OF L] assms(2) by (cases cs) simp_all
  have "distinct ((as @ pre) @ c # (cs @ bs))" by (rule lined_distinct [OF L])
  moreover have "last cs \<in> set cs" using assms(2) by simp
  ultimately show "c \<noteq> last (pre @ c # cs)" using assms(2) by auto
  show "within w sec as ((pre @ [c]) @ cs) bs" using assms(1) by simp
qed

lemma sizeof_LINE_fits: "sizeof_LINE + sizeof_LONG_PTR \<le> MAXGALLOC"
  by (simp add: sizeof_LINE_def sizeof_LONG_PTR_def MAXGALLOC_def)

lemma makectree_loop_spec:
  assumes "lines_ok e w" "within w sec as (pre @ cs) bs" "cs \<noteq> []" "tree_holds e w t tr A us"
  shows "\<exists>w' tr' A'. makectree_loop e sec t (start cs) w = Some w' \<and> counting e w w' \<and>
    tree_holds e w' t tr' A' (us @ entries e w cs) \<and> grown (ts w) (ts w') t tr tr' A A'"
  using assms
proof (induction cs arbitrary: pre w us tr A)
  case Nil
  then show ?case by simp
next
  case (Cons c cs)
  have alive: "fls w c \<noteq> None" "c \<noteq> NULL"
    using Cons.prems(2) lined_nonnull [of w "as @ (pre @ c # cs) @ bs"] by (auto simp: within_def)
  have gl: "line_getlink c w = Some (lk w c)" by (rule line_getlink_lk [OF alive])
  define ins where "ins = makectree_add e t c w"
  have "\<exists>w1 tr1 A1. ins = Some w1 \<and> counting e w w1 \<and> tree_holds e w1 t tr1 A1 (us @ entries e w [c]) \<and>
      grown (ts w) (ts w1) t tr tr1 A A1"
  proof (cases "lk w c = NULL")
    case False
    then show ?thesis using Cons.prems(1,4) counting_refl grown_refl by (force simp: ins_def makectree_add_def gl entries_def)
  next
    case True
    obtain w1 where w1: "line_gethashcode e c w = Some (hk e w c, w1)" "lines_ok e w1" "kept w w1" "lk w1 = lk w"
      using line_hash [OF Cons.prems(1) alive(1)] by blast
    have "ts w1 = ts w" using w1(3) by (simp add: kept_def)
    then have H: "tree_holds e w1 t tr A us" using Cons.prems(4) by simp
    obtain p s' tr' A' where p: "ctree_update (genv e) t (hk e w c) (Some c) sizeof_LINE (ts w1) = Some (p, s')"
      "ctree_ok (genv e) s' t (wheap e) tr' A' (us @ [(hk e w c, Some c)])" "grown (ts w1) s' t tr tr' A A'"
      using ctree_update_spec [OF H sizeof_LINE_fits] by blast
    then have "ins = Some (w1\<lparr>ts := s'\<rparr>)" using True w1(1) by (simp add: ins_def makectree_add_def gl on_tree_def)
    moreover have "counting e w (w1\<lparr>ts := s'\<rparr>)" using counting_ts [OF kept_counting [OF w1(2,3,4)]] .
    ultimately show ?thesis using p(2,3) \<open>ts w1 = ts w\<close> True
      by (intro exI [of _ "w1\<lparr>ts := s'\<rparr>"] exI [of _ tr'] exI [of _ A']) (simp add: entries_def)
  qed
  then obtain w1 tr1 A1 where w1: "ins = Some w1" "counting e w w1" "tree_holds e w1 t tr1 A1 (us @ entries e w [c])"
    "grown (ts w) (ts w1) t tr tr1 A A1" by blast
  note F = counting_facts [OF w1(2)]
  have W1: "within w1 sec as (pre @ c # cs) bs" by (rule F(5) [OF Cons.prems(2)])
  obtain s where s: "ld_sect sec w1 = Some s" "slast s = last (pre @ c # cs)" by (rule within_sect [OF W1])
  have run: "makectree_loop e sec t (start (c # cs)) w =
     (if c = last (pre @ c # cs) then Some w1 else do { (line, w) \<leftarrow> Next c w1; makectree_loop e sec t line w })"
    using alive(2) w1(1) s unfolding ins_def by (simp add: makectree_loop.simps [of e sec t c] del: last_appendR)
  show ?case
  proof (cases "cs = []")
    case True
    then show ?thesis using run w1 by auto
  next
    case False
    note nx = within_next [OF W1 False]
    have ok1: "lines_ok e w1" using w1(2) by (simp add: counting_def)
    obtain w2 tr2 A2 where w2: "makectree_loop e sec t (start cs) w1 = Some w2" "counting e w1 w2"
      "tree_holds e w2 t tr2 A2 ((us @ entries e w [c]) @ entries e w1 cs)" "grown (ts w1) (ts w2) t tr1 tr2 A1 A2"
      using Cons.IH [OF ok1 nx(3) False w1(3)] by blast
    have "(us @ entries e w [c]) @ entries e w1 cs = us @ entries e w (c # cs)"
      unfolding F(4) by (simp add: entries_def)
    then show ?thesis using run nx(1,2) w2 counting_trans [OF w1(2) w2(2)] grown_trans [OF w1(4) w2(4)] by auto
  qed
qed

lemma section_makectree_spec:
  assumes "lines_ok e w" "within w sec as ls bs" "mem_ok e w A"
  shows "\<exists>t w' tr A'. section_makectree e sec w = Some (t, w') \<and> counting e w w' \<and> tree_holds e w' t tr A' (entries e w ls) \<and>
    others (ts w) (ts w') A {} \<and> foot t tr \<inter> dom A = {} \<and> (\<forall>x. x \<notin> foot t tr \<longrightarrow> A' x = A x)"
proof -
  obtain t s1 where t: "ctree_create (genv e) (wheap e) (ts w) = Some (t, s1)" "A t = None"
    "ctree_ok (genv e) s1 t (wheap e) \<langle>\<rangle> (A(t \<mapsto> sizeof_tree)) []" "others (ts w) s1 A {}"
    using ctree_create_spec [of "genv e" "wheap e" "ts w" A] assms(3) unfolding mem_ok_def by blast
  let ?w = "w\<lparr>ts := s1\<rparr>"
  have W: "within ?w sec as ([] @ ls) bs" "lines_ok e ?w" using assms(1,2) by simp_all
  obtain s where s: "ld_sect sec ?w = Some s" "sfirst s = hd ls" "ls \<noteq> []" using within_sect [OF W(1)] by auto
  have H: "tree_holds e ?w t \<langle>\<rangle> (A(t \<mapsto> sizeof_tree)) []" using t(3) by simp
  obtain w' tr A' where w': "makectree_loop e sec t (start ls) ?w = Some w'" "counting e ?w w'"
    "tree_holds e w' t tr A' ([] @ entries e ?w ls)" "grown (ts ?w) (ts w') t \<langle>\<rangle> tr (A(t \<mapsto> sizeof_tree)) A'"
    using makectree_loop_spec [OF W(2,1) s(3) H] by blast
  have st: "start ls = hd ls" using s(3) by (cases ls) auto
  have "counting e w ?w" using counting_ts [OF counting_refl [OF assms(1)]] .
  then have c: "counting e w w'" using counting_trans w'(2) by blast
  have e: "entries e ?w ls = entries e w ls" by (simp add: entries_def hk_def)
  have ft: "foot t \<langle>\<rangle> = {t}" by (simp add: foot_def addrs_def datas_def)
  have G: "others s1 (ts w') (A(t \<mapsto> sizeof_tree)) {t}" "foot t tr \<subseteq> {t} \<union> - dom (A(t \<mapsto> sizeof_tree))" "t \<in> foot t tr"
    "\<And>x. x \<notin> foot t tr \<Longrightarrow> A' x = (A(t \<mapsto> sizeof_tree)) x"
    using w'(4) unfolding grown_def ft by auto
  have "others (ts w) (ts w') A {}"
    unfolding others_def
  proof (intro allI impI)
    fix x assume "A x \<noteq> None"
    then have "x \<noteq> t" "A x \<noteq> None" using t(2) by auto
    then show "titems (ts w') x = titems (ts w) x \<and> tblocks (ts w') x = tblocks (ts w) x \<and> troots (ts w') x = troots (ts w) x"
      using G(1) t(4) by (simp add: others_def)
  qed
  moreover have "foot t tr \<inter> dom A = {}" using G(2) t(2) by auto
  moreover have "\<forall>x. x \<notin> foot t tr \<longrightarrow> A' x = A x" using G(3,4) by auto
  moreover have "section_makectree e sec w = Some (t, w')"
    using t(1) s w'(1) st by (simp add: section_makectree_def on_tree_def)
  ultimately show ?thesis using c w'(3) e by auto
qed

subsection \<open>The loop over the lines\<close>

lemma line_count_spec:
  assumes "lines_ok e w" "fls w c \<noteq> None" "tree_holds e w t tr A us"
  shows "\<exists>w'. line_count e t c w = Some (sint (of_nat (times us (hk e w c)) :: 32 word), w') \<and> lines_ok e w' \<and> kept w w' \<and> lk w' = lk w"
proof -
  obtain w1 where w1: "line_gethashcode e c w = Some (hk e w c, w1)" "lines_ok e w1" "kept w w1" "lk w1 = lk w"
    using line_hash [OF assms(1,2)] by blast
  have "tree_holds e w1 t tr A us" using assms(3) w1(3) by (simp add: kept_def)
  from ctree_getcount_spec [OF this] w1 show ?thesis by (auto simp: line_count_def)
qed

lemma kept_hk: "kept w w' \<Longrightarrow> hk e w' c = hk e w c"
  by (simp add: hk_def kept_text)

lemma kept_tree: "kept w w' \<Longrightarrow> tree_holds e w' t tr A us = tree_holds e w t tr A us"
  by (simp add: kept_def)

lemma anchor_line_spec:
  assumes L: "lines_ok e w" and c: "fls w c \<noteq> None" and tl: "tree_holds e w ctl trl Al usl" and tr: "tree_holds e w ctr trr Ar usr"
  shows "\<exists>b w'. anchor_line e rs ctl ctr c w = Some (b, w') \<and> lines_ok e w' \<and> kept w w' \<and> lk w' = lk w \<and>
    (b \<longrightarrow> lk w c = NULL \<and> hk e w c \<in> fst ` set usr) \<and>
    (\<not> rs \<and> lk w c = NULL \<and> times usl (hk e w c) = 1 \<and> times usr (hk e w c) = 1 \<longrightarrow> b)"
proof -
  have c0: "c \<noteq> NULL" using c L by (auto simp: lines_ok_def)
  have gl: "line_getlink c w = Some (lk w c)" by (rule line_getlink_lk [OF c c0])
  show ?thesis
  proof (cases "lk w c = NULL")
    case False
    then show ?thesis using gl L by (auto simp: anchor_line_def)
  next
    case lkc: True
    define n where "n = sint (of_nat (times usl (hk e w c)) :: 32 word)"
    define m where "m = sint (of_nat (times usr (hk e w c)) :: 32 word)"
    obtain w1 where w1: "line_count e ctl c w = Some (n, w1)" "lines_ok e w1" "kept w w1" "lk w1 = lk w"
      using line_count_spec [OF L c tl] unfolding n_def by blast
    have c1: "fls w1 c \<noteq> None" using c kept_live [OF w1(3)] by simp
    have tr1: "tree_holds e w1 ctr trr Ar usr" using tr kept_tree [OF w1(3)] by blast
    obtain w2 where w2: "line_count e ctr c w1 = Some (m, w2)" "lines_ok e w2" "kept w1 w2" "lk w2 = lk w1"
      using line_count_spec [OF w1(2) c1 tr1] kept_hk [OF w1(3)] unfolding m_def by auto
    have K: "kept w w2" using kept_trans w1(3) w2(3) by blast
    have c2: "fls w2 c \<noteq> None" using c kept_live [OF K] by simp
    have len: "line_gettextlen e c w2 = Some (int (length (line_key e w c)))"
      using line_gettextlen_spec [OF w2(2) c2] kept_text(2) [OF K] by simp
    have m0: "hk e w c \<in> fst ` set usr" if "m \<ge> 1 \<or> m = 1"
    proof (rule ccontr)
      assume "hk e w c \<notin> fst ` set usr"
      then have "times usr (hk e w c) = 0" by (simp add: times_0)
      then show False using that by (simp add: m_def)
    qed
    have one: "n = 1" if "times usl (hk e w c) = 1" using that by (simp add: n_def)
    have one': "m = 1" if "times usr (hk e w c) = 1" using that by (simp add: m_def)
    define ok where "ok = (\<lambda>k :: int. if rs then k \<ge> 1 else k = 1)"
    have run: "anchor_line e rs ctl ctr c w = (if \<not> ok n then Some (False, w1) else if \<not> ok m then Some (False, w2)
        else Some (rs \<longrightarrow> length (line_key e w c) > 8, w2))"
      using gl lkc w1(1) w2(1) len by (auto simp: anchor_line_def ok_def)
    show ?thesis
    proof (cases "ok n \<and> ok m")
      case False
      then have "\<not> (\<not> rs \<and> lk w c = NULL \<and> times usl (hk e w c) = 1 \<and> times usr (hk e w c) = 1)"
        using one one' by (auto simp: ok_def)
      moreover have "\<exists>w'. anchor_line e rs ctl ctr c w = Some (False, w') \<and> lines_ok e w' \<and> kept w w' \<and> lk w' = lk w"
        using False run w1 w2 K by auto
      ultimately show ?thesis by blast
    next
      case True
      then have "hk e w c \<in> fst ` set usr" using m0 by (auto simp: ok_def split: if_splits)
      then show ?thesis using True run w2 w1(4) K lkc by auto
    qed
  qed
qed

lemma ld_LINE_spec: "tblocks (ts w) p = Some (Some (n, Some l)) \<Longrightarrow> ld_LINE (p + sizeof_LONG_PTR) w = Some l"
  by (simp add: ld_LINE_def)

definition mate :: "wenv \<Rightarrow> wd \<Rightarrow> (treekey \<times> ptr option) list \<Rightarrow> ptr \<Rightarrow> ptr" where
  "mate e w us c = the (the (map_of us (hk e w c)))"

text \<open>The values in the right tree are lines of the right section.\<close>

definition lines_of :: "(treekey \<times> ptr option) list \<Rightarrow> ptr list \<Rightarrow> bool" where
  "lines_of us ls \<longleftrightarrow> (\<forall>v \<in> snd ` set us. \<exists>d \<in> set ls. v = Some d)"

lemma match_line_spec:
  assumes E: "env_ok e" and L: "lines_ok e w" and W1: "within w sec1 as1 ls1 bs1" and W2: "within w sec2 as2 ls2 bs2"
    and c: "c \<in> set ls1" and tl: "tree_holds e w ctl trl Al usl" and tr: "tree_holds e w ctr trr Ar usr" and R: "lines_of usr ls2"
  shows "\<exists>w'. match_line e sec1 sec2 rs ctl ctr bl c w = Some (bl \<or> lk w' \<noteq> lk w, w') \<and>
    linking e (set as1 \<union> set ls1) (set as2 \<union> set ls2) w w' \<and>
    (\<not> rs \<and> lk w c = NULL \<and> times usl (hk e w c) = 1 \<and> times usr (hk e w c) = 1 \<and> linkable e w c (mate e w usr c)
      \<longrightarrow> lk w' c \<noteq> NULL)"
proof -
  let ?S = "set as1 \<union> set ls1" and ?T = "set as2 \<union> set ls2"
  have cl: "fls w c \<noteq> None" using c W1 by (auto simp: within_def)
  obtain b w1 where w1: "anchor_line e rs ctl ctr c w = Some (b, w1)" "lines_ok e w1" "kept w w1" "lk w1 = lk w"
    "b \<Longrightarrow> lk w c = NULL \<and> hk e w c \<in> fst ` set usr"
    "\<not> rs \<and> lk w c = NULL \<and> times usl (hk e w c) = 1 \<and> times usr (hk e w c) = 1 \<Longrightarrow> b"
    using anchor_line_spec [OF L cl tl tr] by blast
  have K1: "linking e ?S ?T w w1" using w1 by (simp add: linking_def links_added_refl)
  show ?thesis
  proof (cases b)
    case False
    then have "match_line e sec1 sec2 rs ctl ctr bl c w = Some (bl, w1)" using w1(1) by (simp add: match_line_def)
    then show ?thesis using K1 w1(4,6) False by auto
  next
    case True
    have c1: "fls w1 c \<noteq> None" using cl kept_live [OF w1(3)] by simp
    obtain w2 where w2: "line_gethashcode e c w1 = Some (hk e w c, w2)" "lines_ok e w2" "kept w1 w2" "lk w2 = lk w1"
      using line_hash [OF w1(2) c1] kept_hk [OF w1(3)] by auto
    have K: "kept w w2" using kept_trans w1(3) w2(3) by blast
    have tr2: "tree_holds e w2 ctr trr Ar usr" using tr kept_tree [OF K] by blast
    have hin: "hk e w c \<in> fst ` set usr" using w1(5) True by blast
    obtain p where p: "ctree_find ctr (hk e w c) (ts w2) = Some (p + sizeof_LONG_PTR)"
      "tblocks (ts w2) p = Some (Some (of_nat (times usr (hk e w c)), the (map_of usr (hk e w c))))"
      using ctree_find_spec [OF tr2 hin] by blast
    obtain v where v: "map_of usr (hk e w c) = Some v" using hin by (cases "map_of usr (hk e w c)") (auto simp: map_of_eq_None_iff)
    then have "v \<in> snd ` set usr" using map_of_SomeD by force
    then obtain d where d: "v = Some d" "d \<in> set ls2" using R by (auto simp: lines_of_def)
    have ld: "ld_LINE (p + sizeof_LONG_PTR) w2 = Some d" using ld_LINE_spec p(2) v d(1) by simp
    have m: "mate e w usr c = d" using v d(1) by (simp add: mate_def)
    have W: "within w2 sec1 as1 ls1 bs1" "within w2 sec2 as2 ls2 bs2" using W1 W2 within_kept [OF _ K] by blast+
    obtain w3 where w3: "section_expandanchor e sec1 c sec2 d w2 = Some (lk w3 \<noteq> lk w2, w3)"
      "linking e (span as1 ls1 c) (span as2 ls2 d) w2 w3" "linkable e w2 c d \<longrightarrow> lk w3 c = d"
      using section_expandanchor_spec [OF E w2(2) W c d(2)] by blast
    have L2: "linking e ?S ?T w w2" using K1 w2 K w1(4) by (simp add: linking_def links_added_def)
    have L3: "linking e ?S ?T w2 w3" by (rule linking_mono [OF w3(2)]) (auto simp: span_def)
    have "match_line e sec1 sec2 rs ctl ctr bl c w = Some (bl \<or> lk w3 \<noteq> lk w, w3)"
      using w1(1) True w2 p(1) ld w3(1) w1(4) by (simp add: match_line_def)
    moreover have "lk w3 c \<noteq> NULL" if lb: "linkable e w c (mate e w usr c)"
    proof -
      have "linkable e w2 c d" using lb w2(4) w1(4) kept_text(2) [OF K] unfolding linkable_def m by simp
      then show ?thesis using w3(3) lb unfolding linkable_def m by simp
    qed
    ultimately show ?thesis using linking_trans [OF L2 L3] by blast
  qed
qed

lemma match_loop_spec:
  assumes "env_ok e" "lines_ok e w" "within w sec1 as1 (pre @ cs) bs1" "within w sec2 as2 ls2 bs2" "cs \<noteq> []"
    and "tree_holds e w ctl trl Al usl" "tree_holds e w ctr trr Ar usr" "lines_of usr ls2"
  shows "\<exists>w'. match_loop e sec1 sec2 rs ctl ctr bl (start cs) w = Some (bl \<or> lk w' \<noteq> lk w, w') \<and> linking e (set as1 \<union> set (pre @ cs)) (set as2 \<union> set ls2) w w' \<and>
    (\<not> rs \<longrightarrow> (\<forall>c \<in> set cs. times usl (hk e w c) = 1 \<longrightarrow> times usr (hk e w c) = 1 \<longrightarrow>
       (\<forall>v. linking e (set as1 \<union> set (pre @ cs)) (set as2 \<union> set ls2) w v \<longrightarrow> lk v c = NULL \<longrightarrow> linkable e v c (mate e w usr c)) \<longrightarrow> lk w' c \<noteq> NULL))"
  using assms(2-)
proof (induction cs arbitrary: pre w bl)
  case Nil
  then show ?case by simp
next
  case (Cons c cs)
  note E = assms(1) and W1 = Cons.prems(2) and W2 = Cons.prems(3) and tl = Cons.prems(5) and tr = Cons.prems(6) and R = Cons.prems(7)
  define S where "S = set as1 \<union> set (pre @ c # cs)"
  define T where "T = set as2 \<union> set ls2"
  have cS: "c \<in> set (pre @ c # cs)" by simp
  obtain w1 where w1: "match_line e sec1 sec2 rs ctl ctr bl c w = Some (bl \<or> lk w1 \<noteq> lk w, w1)" "linking e S T w w1"
    "\<not> rs \<and> lk w c = NULL \<and> times usl (hk e w c) = 1 \<and> times usr (hk e w c) = 1 \<and> linkable e w c (mate e w usr c)
      \<longrightarrow> lk w1 c \<noteq> NULL"
    using match_line_spec [OF E Cons.prems(1) W1 W2 cS tl tr R] unfolding S_def T_def by blast
  have K: "kept w w1" and L1: "lines_ok e w1" using w1(2) by (simp_all add: linking_def)
  have W1': "within w1 sec1 as1 (pre @ c # cs) bs1" and W2': "within w1 sec2 as2 ls2 bs2" using W1 W2 within_kept [OF _ K] by blast+
  obtain s where s: "ld_sect sec1 w1 = Some s" "slast s = last (pre @ c # cs)" by (rule within_sect [OF W1'])
  have lin: "lined w (as1 @ (pre @ c # cs) @ bs1)" "lined w (as2 @ ls2 @ bs2)" using W1 W2 by (simp_all add: within_def)
  have c0: "c \<noteq> NULL" using lined_nonnull [OF lin(1)] by auto
  have nul: "NULL \<notin> S" "NULL \<notin> T" using lined_nonnull [OF lin(1)] lined_nonnull [OF lin(2)] by (auto simp: S_def T_def)
  have run: "match_loop e sec1 sec2 rs ctl ctr bl (start (c # cs)) w = (if c = last (pre @ c # cs) then Some (bl \<or> lk w1 \<noteq> lk w, w1)
      else do { (line, v) \<leftarrow> Next c w1; match_loop e sec1 sec2 rs ctl ctr (bl \<or> lk w1 \<noteq> lk w) line v })"
    using c0 w1(1) s by (simp add: match_loop.simps [of e sec1 sec2 rs ctl ctr bl c w] del: last_appendR)
  have now: "lk w1 c \<noteq> NULL" if g: "\<not> rs" "times usl (hk e w c) = 1" "times usr (hk e w c) = 1"
    "\<forall>v. linking e S T w v \<longrightarrow> lk v c = NULL \<longrightarrow> linkable e v c (mate e w usr c)"
  proof (cases "lk w c = NULL")
    case True
    then have "linkable e w c (mate e w usr c)" using g(4) linking_refl [OF Cons.prems(1)] by blast
    then show ?thesis using w1(3) g True by blast
  next
    case False
    then show ?thesis using w1(2) links_added_old unfolding linking_def by metis
  qed
  show ?case
  proof (cases "cs = []")
    case True
    then show ?thesis using run w1(2) now unfolding S_def T_def by auto
  next
    case False
    note nx = within_next [OF W1' False]
    have tl1: "tree_holds e w1 ctl trl Al usl" and tr1: "tree_holds e w1 ctr trr Ar usr" using tl tr kept_tree [OF K] by blast+
    have S': "set as1 \<union> set ((pre @ [c]) @ cs) = S" by (auto simp: S_def)
    obtain w2 where w2: "match_loop e sec1 sec2 rs ctl ctr (bl \<or> lk w1 \<noteq> lk w) (start cs) w1 = Some ((bl \<or> lk w1 \<noteq> lk w) \<or> lk w2 \<noteq> lk w1, w2)"
      "linking e S T w1 w2"
      "\<not> rs \<longrightarrow> (\<forall>c \<in> set cs. times usl (hk e w1 c) = 1 \<longrightarrow> times usr (hk e w1 c) = 1 \<longrightarrow>
         (\<forall>v. linking e S T w1 v \<longrightarrow> lk v c = NULL \<longrightarrow> linkable e v c (mate e w1 usr c)) \<longrightarrow> lk w2 c \<noteq> NULL)"
      using Cons.IH [OF L1 nx(3) W2' False tl1 tr1 R] unfolding S' T_def [symmetric] by blast
    have ch: "lk w2 \<noteq> lk w \<longleftrightarrow> lk w1 \<noteq> lk w \<or> lk w2 \<noteq> lk w1"
      using links_added_changed w1(2) w2(2) nul unfolding linking_def by blast
    have "match_loop e sec1 sec2 rs ctl ctr bl (start (c # cs)) w = Some (bl \<or> lk w2 \<noteq> lk w, w2)"
      unfolding run ch using nx(1,2) w2(1) by (auto simp: disj_assoc)
    moreover have "lk w2 d \<noteq> NULL" if d: "d \<in> set (c # cs)" and g: "\<not> rs" "times usl (hk e w d) = 1" "times usr (hk e w d) = 1"
      "\<forall>v. linking e S T w v \<longrightarrow> lk v d = NULL \<longrightarrow> linkable e v d (mate e w usr d)" for d
    proof (cases "d = c")
      case True
      then have "lk w1 c \<noteq> NULL" using now g by blast
      then have "lk w2 c = lk w1 c" using w2(2) links_added_old unfolding linking_def by blast
      then show ?thesis using True \<open>lk w1 c \<noteq> NULL\<close> by simp
    next
      case False
      then have "d \<in> set cs" using d by simp
      moreover have "\<forall>v. linking e S T w1 v \<longrightarrow> lk v d = NULL \<longrightarrow> linkable e v d (mate e w1 usr d)"
        using g(4) linking_trans [OF w1(2)] kept_hk [OF K] unfolding mate_def by metis
      ultimately show ?thesis using w2(3) g(1-3) kept_hk [OF K] by simp
    qed
    ultimately show ?thesis using linking_trans [OF w1(2) w2(2)] unfolding S_def [symmetric] T_def [symmetric] by blast
  qed
qed

subsection \<open>Lines that occur once\<close>

text \<open>An unlinked line whose hash code no other unlinked line of its section has.\<close>

definition sole :: "wenv \<Rightarrow> wd \<Rightarrow> ptr list \<Rightarrow> ptr \<Rightarrow> bool" where
  "sole e w ls c \<longleftrightarrow> c \<in> set ls \<and> lk w c = NULL \<and> (\<forall>x \<in> set ls. lk w x = NULL \<and> hk e w x = hk e w c \<longrightarrow> x = c)"

lemma sole_entries:
  assumes "sole e w ls c" "distinct ls"
  shows "times (entries e w ls) (hk e w c) = 1" "mate e w (entries e w ls) c = c"
proof -
  let ?us = "filter (\<lambda>c. lk w c = NULL) ls"
  have c: "c \<in> set ?us" and u: "\<And>x. x \<in> set ?us \<Longrightarrow> hk e w x = hk e w c \<Longrightarrow> x = c"
    using assms(1) by (auto simp: sole_def)
  obtain xs ys where split: "?us = xs @ c # ys" using split_list [OF c] by blast
  have "c \<notin> set xs \<union> set ys" using assms(2) split distinct_filter [of ls "\<lambda>c. lk w c = NULL"] by auto
  then have no: "\<And>x. x \<in> set xs \<union> set ys \<Longrightarrow> hk e w x \<noteq> hk e w c" using u split by fastforce
  have E: "entries e w ls = map (\<lambda>c. (hk e w c, Some c)) xs @ (hk e w c, Some c) # map (\<lambda>c. (hk e w c, Some c)) ys"
    by (simp add: entries_def split)
  have z: "hk e w c \<notin> set (map (hk e w) xs)" "hk e w c \<notin> set (map (hk e w) ys)" using no by force+
  then show "times (entries e w ls) (hk e w c) = 1" by (simp add: E times_def comp_def count_list_0_iff [THEN iffD2])
  have "map_of (map (\<lambda>c. (hk e w c, Some c)) xs) (hk e w c) = None" using z(1) by (simp add: map_of_eq_None_iff image_image)
  then have "map_of (entries e w ls) (hk e w c) = Some (Some c)" by (simp add: E map_add_Some_iff del: map_of_append) (simp add: map_add_def)
  then show "mate e w (entries e w ls) c = c" by (simp add: mate_def)
qed

lemma lines_of_entries: "lines_of (entries e w ls) ls"
  by (auto simp: lines_of_def entries_def)

text \<open>Linking that may also use the trees.\<close>

definition matching :: "wenv \<Rightarrow> ptr set \<Rightarrow> ptr set \<Rightarrow> wd \<Rightarrow> wd \<Rightarrow> bool" where
  "matching e S T w w' \<longleftrightarrow> lines_ok e w' \<and> kept (w\<lparr>ts := ts w'\<rparr>) w' \<and> links_added S T w w'"

lemma matching_linking: "linking e S T w w' \<Longrightarrow> matching e S T w w'"
  by (simp add: matching_def linking_def kept_def)

lemma matching_counting: "counting e w w' \<Longrightarrow> matching e S T w w'"
  by (simp add: matching_def counting_def links_added_refl)

lemma matching_trans:
  assumes "matching e S T w w1" "matching e S T w1 w2"
  shows "matching e S T w w2"
proof -
  have "links_added S T w w2" using assms links_added_trans unfolding matching_def by blast
  then show ?thesis using assms by (simp add: matching_def kept_def)
qed

lemma matching_facts:
  assumes "matching e S T w w'"
  shows "hk e' w' c = hk e' w c" "line_key e' w' c = line_key e' w c" "fls w' c = None \<longleftrightarrow> fls w c = None"
    "within w sec as ls bs \<Longrightarrow> within w' sec as ls bs" "lk w c \<noteq> NULL \<Longrightarrow> lk w' c = lk w c"
proof -
  have K: "kept (w\<lparr>ts := ts w'\<rparr>) w'" using assms by (simp add: matching_def)
  show "line_key e' w' c = line_key e' w c" for c using kept_text(2) [OF K, of e' c] by simp
  then show "hk e' w' c = hk e' w c" by (simp add: hk_def)
  show "fls w' c = None \<longleftrightarrow> fls w c = None" using kept_live [OF K, of c] by simp
  show "within w sec as ls bs \<Longrightarrow> within w' sec as ls bs" using within_kept [OF _ K] by simp
  show "lk w c \<noteq> NULL \<Longrightarrow> lk w' c = lk w c" using assms links_added_old unfolding matching_def by blast
qed

text \<open>Two lines that occur once and are equal can only be linked to each other.\<close>

lemma sole_partner:
  assumes M: "matching e S T w v" and L: "lines_ok e w" and c: "sole e w ls c" and d: "sole e w ks d"
    and k: "line_key e w c = line_key e w d" and ST: "set ls = S" "set ks = T" "S \<inter> T = {}" and x: "lk v c \<noteq> NULL"
  shows "lk v c = d"
proof -
  let ?x = "lk v c"
  have Lv: "lines_ok e v" using M by (simp add: matching_def)
  have c0: "lk w c = NULL" "c \<in> S" using c ST by (auto simp: sole_def)
  have "links_added S T w v" using M by (simp add: matching_def)
  then have "c \<in> S \<and> ?x \<in> T \<or> c \<in> T \<and> ?x \<in> S" using x c0(1) unfolding links_added_def by metis
  then have xT: "?x \<in> T" using c0(2) ST(3) by blast
  have m: "lk v ?x = c" "line_key e v ?x = line_key e v c" using Lv x unfolding lines_ok_def by blast+
  have "lk w ?x = NULL"
  proof (rule ccontr)
    assume n: "lk w ?x \<noteq> NULL"
    then have "lk w ?x = c" using matching_facts(5) [OF M n] m(1) by simp
    moreover have "lk w (lk w ?x) = ?x" using L n unfolding lines_ok_def by blast
    ultimately show False using c0(1) x by simp
  qed
  moreover have "hk e w ?x = hk e w d" using m(2) k matching_facts(2) [OF M] by (simp add: hk_def)
  ultimately show ?thesis using d xT ST(2) by (simp add: sole_def)
qed

lemma links_added_swap: "links_added S T w v \<Longrightarrow> links_added T S w v"
  unfolding links_added_def by blast

lemma matching_swap: "matching e S T w v \<Longrightarrow> matching e T S w v"
  using links_added_swap unfolding matching_def by blast

lemma sole_pair:
  assumes M: "matching e S T w v" and L: "lines_ok e w" and c: "sole e w ls c" and d: "sole e w ks d"
    and k: "line_key e w c = line_key e w d" and ST: "set ls = S" "set ks = T" "S \<inter> T = {}"
    and n: "c \<noteq> NULL" "d \<noteq> NULL"
  shows "lk v c = d \<or> lk v c = NULL \<and> lk v d = NULL"
proof (rule disjCI)
  assume a: "\<not> (lk v c = NULL \<and> lk v d = NULL)"
  show "lk v c = d"
  proof (cases "lk v c = NULL")
    case False
    then show ?thesis by (rule sole_partner [OF M L c d k ST])
  next
    case True
    then have x: "lk v d \<noteq> NULL" using a by simp
    have "T \<inter> S = {}" using ST(3) by blast
    from sole_partner [OF matching_swap [OF M] L d c k [symmetric] ST(2,1) this x] have "lk v d = c" .
    moreover have "lk v (lk v d) = d" using M x unfolding matching_def lines_ok_def by blast
    ultimately show ?thesis by simp
  qed
qed

subsection \<open>The whole routine\<close>

lemma ctree_delete_pair:
  assumes ta: "ctree_ok e s ta h trl A usl" and tb: "ctree_ok e s tb h trr A usr" and dis: "foot ta trl \<inter> foot tb trr = {}"
  shows "\<exists>s1 s2. ctree_delete ta s = Some s1 \<and> ctree_delete tb s1 = Some s2 \<and>
    gm_sound (osalloc e) (useranswer e) h (gm s2) (\<lambda>x. if x \<in> foot ta trl \<union> foot tb trr then None else A x)"
proof -
  have T: "tree_ok e s ta h trl A" using ta by (simp add: ctree_ok_def)
  let ?B = "without A (ta # addrs trl @ datas trl)"
  obtain s1 where s1: "tree_delete ta s = Some s1" "gm_sound (osalloc e) (useranswer e) h (gm s1) ?B" "others s s1 A (foot ta trl)"
    using tree_delete_spec [OF T] by blast
  have "?B x = A x" if "x \<in> foot tb trr" for x using that dis by (auto simp: without_def foot_def)
  then have "ctree_ok e s1 tb h trr ?B usr" using ctree_frame [OF tb s1(3) _ s1(2)] dis by blast
  then have T2: "tree_ok e s1 tb h trr ?B" by (simp add: ctree_ok_def)
  obtain s2 where s2: "tree_delete tb s1 = Some s2" "gm_sound (osalloc e) (useranswer e) h (gm s2) (without ?B (tb # addrs trr @ datas trr))"
    using tree_delete_spec [OF T2] by blast
  have "without ?B (tb # addrs trr @ datas trr) = (\<lambda>x. if x \<in> foot ta trl \<union> foot tb trr then None else A x)"
    by (auto simp: without_def foot_def fun_eq_iff)
  then show ?thesis using s1(1) s2 by (simp add: ctree_delete_def)
qed

lemma section_match_spec:
  assumes E: "env_ok e" and L: "lines_ok e w" and W1: "within w sec1 as1 ls1 bs1" and W2: "within w sec2 as2 ls2 bs2"
    and nn: "sec1 \<noteq> NULL" "sec2 \<noteq> NULL" and M: "mem_ok e w A"
  shows "\<exists>w'. section_match e sec1 sec2 rs w = Some (lk w' \<noteq> lk w, w') \<and>
    matching e (set as1 \<union> set ls1) (set as2 \<union> set ls2) w w' \<and> mem_ok e w' A \<and>
    (\<not> rs \<and> as1 = [] \<and> as2 = [] \<and> set ls1 \<inter> set ls2 = {} \<longrightarrow>
      (\<forall>c d. sole e w ls1 c \<longrightarrow> sole e w ls2 d \<longrightarrow> line_key e w c = line_key e w d \<longrightarrow> lk w' c = d))"
proof -
  define S where "S = set as1 \<union> set ls1"
  define T where "T = set as2 \<union> set ls2"
  have lin: "lined w (as1 @ ls1 @ bs1)" "lined w (as2 @ ls2 @ bs2)" using W1 W2 by (simp_all add: within_def)
  have nul: "NULL \<notin> S" "NULL \<notin> T" using lined_nonnull [OF lin(1)] lined_nonnull [OF lin(2)] by (auto simp: S_def T_def)
  obtain s1 where s1: "ld_sect sec1 w = Some s1" "sfirst s1 = hd ls1" "ls1 \<noteq> []" by (rule within_sect [OF W1])
  obtain s2 where s2: "ld_sect sec2 w = Some s2" "sfirst s2 = hd ls2" "ls2 \<noteq> []" by (rule within_sect [OF W2])
  have ends: "hd ls1 \<in> set ls1" "last ls1 \<in> set ls1" "hd ls2 \<in> set ls2" "last ls2 \<in> set ls2" using s1(3) s2(3) by auto
  then have h0: "hd ls1 \<noteq> NULL" "hd ls2 \<noteq> NULL" using nul by (auto simp: S_def T_def)
  have sp: "span as1 ls1 x \<subseteq> S" "span as2 ls2 y \<subseteq> T" for x y by (auto simp: span_def S_def T_def)
  (* the first lines *)
  obtain w1 where w1: "section_expandanchor e sec1 (hd ls1) sec2 (hd ls2) w = Some (lk w1 \<noteq> lk w, w1)"
    "linking e (span as1 ls1 (hd ls1)) (span as2 ls2 (hd ls2)) w w1"
    using section_expandanchor_spec [OF E L W1 W2 ends(1,3)] by blast
  have K1: "linking e S T w w1" by (rule linking_mono [OF w1(2) sp])
  note F1 = matching_facts [OF matching_linking [OF K1]]
  have L1: "lines_ok e w1" and ts1: "ts w1 = ts w" using K1 by (simp_all add: linking_def kept_def)
  have M1: "mem_ok e w1 A" using M ts1 by (simp add: mem_ok_def)
  (* the trees *)
  obtain ta w2 trl A2 where w2: "section_makectree e sec1 w1 = Some (ta, w2)" "counting e w1 w2"
    "tree_holds e w2 ta trl A2 (entries e w1 ls1)" "foot ta trl \<inter> dom A = {}" "\<And>x. x \<notin> foot ta trl \<Longrightarrow> A2 x = A x"
    using section_makectree_spec [OF L1 F1(4) [OF W1] M1] by blast
  note F2 = counting_facts [OF w2(2)]
  have L2: "lines_ok e w2" and lk2: "lk w2 = lk w1" using w2(2) by (simp_all add: counting_def)
  have M2: "mem_ok e w2 A2" using w2(3) by (simp add: mem_ok_def ctree_ok_def tree_ok_def)
  obtain tb w3 trr A3 where w3: "section_makectree e sec2 w2 = Some (tb, w3)" "counting e w2 w3"
    "tree_holds e w3 tb trr A3 (entries e w2 ls2)" "others (ts w2) (ts w3) A2 {}" "foot tb trr \<inter> dom A2 = {}"
    "\<And>x. x \<notin> foot tb trr \<Longrightarrow> A3 x = A2 x"
    using section_makectree_spec [OF L2 F2(5) [OF F1(4) [OF W2]] M2] by blast
  note F3 = counting_facts [OF w3(2)]
  have L3: "lines_ok e w3" and lk3: "lk w3 = lk w1" using w3(2) lk2 by (simp_all add: counting_def)
  have used: "A2 x \<noteq> None" if "x \<in> foot ta trl" for x
    using foot_used that w2(3) unfolding ctree_ok_def by metis
  then have dis: "foot ta trl \<inter> foot tb trr = {}" using w3(5) by blast
  have G3: "gm_sound (osalloc (genv e)) (useranswer (genv e)) (wheap e) (gm (ts w3)) A3"
    using w3(3) by (simp add: ctree_ok_def tree_ok_def)
  have H: "tree_holds e w3 ta trl A3 (entries e w1 ls1)"
    by (rule ctree_frame [OF w2(3) w3(4) _ G3]) (use dis w3(6) in auto)
  (* the loop *)
  have W1': "within w3 sec1 as1 ([] @ ls1) bs1" and W2': "within w3 sec2 as2 ls2 bs2"
    using F3(5) F2(5) F1(4) W1 W2 by simp_all
  have R: "lines_of (entries e w2 ls2) ls2" by (rule lines_of_entries)
  obtain w4 where w4: "match_loop e sec1 sec2 rs ta tb (lk w1 \<noteq> lk w) (start ls1) w3 = Some ((lk w1 \<noteq> lk w) \<or> lk w4 \<noteq> lk w3, w4)"
    "linking e S T w3 w4"
    "\<not> rs \<longrightarrow> (\<forall>c \<in> set ls1. times (entries e w1 ls1) (hk e w3 c) = 1 \<longrightarrow> times (entries e w2 ls2) (hk e w3 c) = 1 \<longrightarrow>
       (\<forall>v. linking e S T w3 v \<longrightarrow> lk v c = NULL \<longrightarrow> linkable e v c (mate e w3 (entries e w2 ls2) c)) \<longrightarrow> lk w4 c \<noteq> NULL)"
    using match_loop_spec [OF E L3 W1' W2' s1(3) H w3(3) R] unfolding S_def T_def by (simp only: append_Nil) blast
  note F4 = matching_facts [OF matching_linking [OF w4(2)]]
  have ts4: "ts w4 = ts w3" using w4(2) by (simp add: linking_def kept_def)
  (* the trees go *)
  obtain s5 s6 where s5: "ctree_delete ta (ts w3) = Some s5" "ctree_delete tb s5 = Some s6"
    "gm_sound (osalloc (genv e)) (useranswer (genv e)) (wheap e) (gm s6) (\<lambda>x. if x \<in> foot ta trl \<union> foot tb trr then None else A3 x)"
    using ctree_delete_pair [OF H w3(3) dis] by blast
  have restored: "(\<lambda>x. if x \<in> foot ta trl \<union> foot tb trr then None else A3 x) = A"
  proof
    fix x show "(if x \<in> foot ta trl \<union> foot tb trr then None else A3 x) = A x"
    proof (cases "x \<in> foot ta trl")
      case True
      then have "x \<notin> dom A" using w2(4) by blast
      then show ?thesis using True by (simp add: domIff)
    next
      case False
      then have a: "A2 x = A x" by (rule w2(5))
      show ?thesis
      proof (cases "x \<in> foot tb trr")
        case True
        then have "x \<notin> dom A2" using w3(5) by blast
        then show ?thesis using True a by (simp add: domIff)
      next
        case f: False
        then show ?thesis using False a w3(6) by simp
      qed
    qed
  qed
  let ?w6 = "w4\<lparr>ts := s6\<rparr>"
  have L4: "lines_ok e w4" using w4(2) by (simp add: linking_def)
  have W1'': "within ?w6 sec1 as1 ls1 bs1" and W2'': "within ?w6 sec2 as2 ls2 bs2" using F4(4) W1' W2' by simp_all
  (* the last lines *)
  have L6: "lines_ok e ?w6" using L4 by simp
  obtain w7 where w7: "section_expandanchor e sec1 (last ls1) sec2 (last ls2) ?w6 = Some (lk w7 \<noteq> lk w4, w7)"
    "linking e (span as1 ls1 (last ls1)) (span as2 ls2 (last ls2)) ?w6 w7"
    using section_expandanchor_spec [OF E L6 W1'' W2'' ends(2,4)] by auto
  have K7: "linking e S T ?w6 w7" by (rule linking_mono [OF w7(2) sp])
  have m3: "matching e S T w w3"
    using matching_linking [OF K1] matching_counting [OF counting_trans [OF w2(2) w3(2)]] matching_trans by blast
  have m4: "matching e S T w w4" using matching_trans [OF m3 matching_linking [OF w4(2)]] .
  have m6: "matching e S T w4 ?w6" using L4 by (intro matching_counting counting_ts counting_refl)
  have m7: "matching e S T w w7" using matching_trans [OF matching_trans [OF m4 m6] matching_linking [OF K7]] .
  have run: "section_match e sec1 sec2 rs w = Some (((lk w1 \<noteq> lk w) \<or> lk w4 \<noteq> lk w3) \<or> lk w7 \<noteq> lk w4, w7)"
  proof -
    obtain r1 where r1: "ld_sect sec1 w3 = Some r1" "sfirst r1 = hd ls1" using within_sect [OF W1'] by auto
    obtain q1 where q1: "ld_sect sec1 ?w6 = Some q1" "slast q1 = last ls1" by (rule within_sect [OF W1''])
    obtain q2 where q2: "ld_sect sec2 ?w6 = Some q2" "slast q2 = last ls2" by (rule within_sect [OF W2''])
    have st: "start ls1 = hd ls1" using s1(3) by (cases ls1) auto
    show ?thesis
      using nn s1 s2 h0 w1(1) w2(1) w3(1) w4(1) r1 st s5(1,2) ts4 q1 q2 w7(1)
      by (simp add: section_match_def on_tree_def)
  qed
  have ch: "lk w7 \<noteq> lk w \<longleftrightarrow> ((lk w1 \<noteq> lk w) \<or> lk w4 \<noteq> lk w3) \<or> lk w7 \<noteq> lk w4"
  proof -
    have a: "links_added S T w w1" "links_added S T w1 w4" "links_added S T w w4" "links_added S T w4 w7"
      using K1 w4(2) m4 K7 lk3 by (simp_all add: linking_def matching_def links_added_def)
    show ?thesis
      using links_added_changed [OF a(1,2) nul] links_added_changed [OF a(3,4) nul] lk3 by metis
  qed
  have ts7: "ts w7 = s6" using K7 by (simp add: linking_def kept_def)
  have mem: "mem_ok e w7 A" using s5(3) unfolding restored by (simp add: mem_ok_def ts7)
  have pairs: "lk w7 c = d" if g: "\<not> rs" "as1 = []" "as2 = []" "set ls1 \<inter> set ls2 = {}" "sole e w ls1 c" "sole e w ls2 d"
    "line_key e w c = line_key e w d" for c d
  proof -
    have ST: "set ls1 = S" "set ls2 = T" "S \<inter> T = {}" using g(2-4) by (simp_all add: S_def T_def)
    have cd: "c \<in> set ls1" "d \<in> set ls2" "c \<noteq> NULL" "d \<noteq> NULL" using g(5,6) nul ST by (auto simp: sole_def)
    note pair = sole_pair [OF _ L g(5,6,7) ST cd(3,4)]
    have "lk w4 c \<noteq> NULL"
    proof (cases "lk w1 c = NULL")
      case False
      then show ?thesis using F4(5) lk3 by simp
    next
      case True
      then have un: "lk w1 d = NULL" using pair [OF matching_linking [OF K1]] cd(4) by auto
      have sl: "sole e w1 ls1 c" "sole e w1 ls2 d"
        using g(5,6) True un F1(1) F1(5) unfolding sole_def by metis+
      have hks: "hk e w3 c = hk e w1 c" "hk e w3 d = hk e w1 d" "hk e w1 c = hk e w1 d"
        using F1(1,2) F2(2) F3(2) g(7) by (simp_all add: hk_def)
      have D: "distinct ls1" "distinct ls2" using lined_distinct [OF lin(1)] lined_distinct [OF lin(2)] by simp_all
      have en: "entries e w2 ls2 = entries e w1 ls2" by (rule F2(4))
      have "times (entries e w1 ls1) (hk e w3 c) = 1" "times (entries e w2 ls2) (hk e w3 c) = 1"
        "mate e w3 (entries e w2 ls2) c = d"
        using sole_entries [OF sl(1) D(1)] sole_entries [OF sl(2) D(2)] unfolding en mate_def hks by simp_all
      moreover have "linkable e v c d" if v: "linking e S T w3 v" "lk v c = NULL" for v
      proof -
        have m: "matching e S T w v" using matching_trans [OF m3 matching_linking [OF v(1)]] .
        have "lk v d = NULL" using pair [OF m] v(2) cd(4) by auto
        then show ?thesis using v(2) cd(3,4) g(7) matching_facts(2) [OF m] by (simp add: linkable_def)
      qed
      ultimately show ?thesis using w4(3) g(1) cd(1) by blast
    qed
    then have "lk w7 c \<noteq> NULL"
      using matching_facts(5) [OF matching_linking [OF K7], of c] by simp
    then show ?thesis using pair [OF m7] by blast
  qed
  have "section_match e sec1 sec2 rs w = Some (lk w7 \<noteq> lk w, w7)" using run by (simp only: ch)
  then show ?thesis using m7 mem pairs unfolding S_def [symmetric] T_def [symmetric] by blast
qed

end
