(* ===== verification/Windiff_Makelist_Correct.thy ===== *)
theory Windiff_Makelist_Correct
  imports Windiff_Seclist Windiff_Match_Correct
begin

text \<open>
  Cutting a list of lines into sections (\<open>section_makelist\<close>): the sections partition the list in
  order; the lines of an unmatched section are all unlinked; those of a matched section are linked
  or ignorable, and their links follow one another in the other list.
\<close>

subsection \<open>Lines in their lists\<close>

text \<open>\<open>store e w L\<close>: the storage holds the lists \<open>L\<close>, and every line is an object of a list
  that has lines only.\<close>

definition line_list :: "wd \<Rightarrow> ptr list \<Rightarrow> bool" where
  "line_list w its \<longleftrightarrow> (\<forall>i \<in> set its. fls w (cursor i) \<noteq> None)"

definition store :: "wenv \<Rightarrow> wd \<Rightarrow> view \<Rightarrow> bool" where
  "store e w L \<longleftrightarrow> wf (lh w) L \<and> lines_ok e w \<and>
     (\<forall>p. fls w p \<noteq> None \<longrightarrow> (\<exists>l its. L l = Some its \<and> p \<in> cursor ` set its \<and> line_list w its))"

definition ign :: "wenv \<Rightarrow> wd \<Rightarrow> ptr \<Rightarrow> bool" where
  "ign e w c \<longleftrightarrow> ignore_blanks e \<and> blank_line w c"

definition lines_at :: "wd \<Rightarrow> view \<Rightarrow> ptr list \<Rightarrow> bool" where
  "lines_at w L cs \<longleftrightarrow> (\<exists>l its. L l = Some its \<and> cs = map cursor its) \<and> (\<forall>c \<in> set cs. fls w c \<noteq> None)"

lemma lines_at_lined: "store e w L \<Longrightarrow> lines_at w L cs \<Longrightarrow> lined w cs"
  by (auto simp: lines_at_def lined_def store_def)

lemma lines_atD:
  assumes "store e w L" "lines_at w L (as @ c # bs)"
  shows "fls w c \<noteq> None" "c \<noteq> NULL" "lined w (as @ c # bs)"
proof -
  show l: "lined w (as @ c # bs)" by (rule lines_at_lined [OF assms])
  show "c \<noteq> NULL" using lined_nonnull [OF l] by auto
  show "fls w c \<noteq> None" using assms(2) by (simp add: lines_at_def)
qed

lemma store_line:
  assumes "store e w L" "fls w p \<noteq> None"
  obtains as bs where "lines_at w L (as @ p # bs)"
proof -
  obtain l its where l: "L l = Some its" "p \<in> cursor ` set its" "line_list w its" using assms by (auto simp: store_def)
  have "p \<in> set (map cursor its)" using l(2) by simp
  then obtain as bs where "map cursor its = as @ p # bs" using split_list by metis
  moreover have "lines_at w L (map cursor its)" using l(1,3) by (auto simp: lines_at_def line_list_def)
  ultimately show thesis using that by metis
qed

lemma ignorable_spec:
  assumes "lines_ok e w" "fls w c \<noteq> None"
  shows "ignorable e c w = Some (ign e w c)"
proof -
  have "c \<noteq> NULL" "line_or_null w c" using assms by (auto simp: lines_ok_def line_or_null_def)
  then show ?thesis using line_isblank_spec [OF assms(1)] by (simp add: ignorable_def ign_def)
qed

lemma line_facts:
  assumes "store e w L" "lines_at w L (as @ c # bs)"
  shows "line_getlink c w = Some (lk w c)" "ignorable e c w = Some (ign e w c)" "Next c w = Some (start bs, w)"
    "Prev c w = Some (start (rev as), w)" "c \<noteq> NULL"
  using line_getlink_lk ignorable_spec Next_lined Prev_lined lines_atD [OF assms] assms(1) by (auto simp: store_def)

subsection \<open>The end of a section\<close>

lemma FindEndOfUnmatched_spec:
  assumes S: "store e w L" and "lines_at w L (as @ c # bs)"
  shows "\<exists>us vs. bs = us @ vs \<and> FindEndOfUnmatched c w = Some (last (c # us), w) \<and> (\<forall>u \<in> set us. lk w u = NULL) \<and>
    (vs = [] \<or> lk w (hd vs) \<noteq> NULL)"
  using assms(2)
proof (induction bs arbitrary: as c)
  case Nil
  show ?case using line_facts(3) [OF S Nil] by (simp add: FindEndOfUnmatched.simps [of c])
next
  case (Cons d ds)
  have at: "lines_at w L ((as @ [c]) @ d # ds)" using Cons.prems by simp
  note F = line_facts [OF S at]
  have run: "FindEndOfUnmatched c w = (if lk w d \<noteq> NULL then Some (c, w) else FindEndOfUnmatched d w)"
    using line_facts(3) [OF S Cons.prems] F(1,5) by (simp add: FindEndOfUnmatched.simps [of c])
  show ?case
  proof (cases "lk w d = NULL")
    case False
    then show ?thesis using run by (intro exI [of _ "[]"] exI [of _ "d # ds"]) simp
  next
    case True
    obtain us vs where "ds = us @ vs" "FindEndOfUnmatched d w = Some (last (d # us), w)" "\<forall>u \<in> set us. lk w u = NULL"
      "vs = [] \<or> lk w (hd vs) \<noteq> NULL" using Cons.IH [OF at] by blast
    then show ?thesis using run True by (intro exI [of _ "d # us"] exI [of _ vs]) simp
  qed
qed

text \<open>Skipping unlinked ignorable lines: \<open>skipped e w us d vs\<close> says that \<open>us\<close> are skipped and
  \<open>d\<close> is where the skipping stops.\<close>

definition skipped :: "wenv \<Rightarrow> wd \<Rightarrow> ptr list \<Rightarrow> ptr \<Rightarrow> ptr list \<Rightarrow> bool" where
  "skipped e w us d vs \<longleftrightarrow> (\<forall>u \<in> set us. lk w u = NULL \<and> ign e w u) \<and> (lk w d \<noteq> NULL \<or> \<not> ign e w d \<or> vs = [])"

lemma NextNonIgnorable_loop_spec:
  assumes S: "store e w L" and "lines_at w L (as @ c # bs)"
  shows "\<exists>us d vs. c # bs = us @ d # vs \<and> NextNonIgnorable_loop e c w = Some (d, w) \<and> skipped e w us d vs"
  using assms(2)
proof (induction bs arbitrary: as c)
  case Nil
  note F = line_facts [OF S Nil]
  have "NextNonIgnorable_loop e c w = Some (c, w)" using F(1,2,3) by (simp add: NextNonIgnorable_loop.simps [of e c])
  then show ?case by (intro exI [of _ "[]"] exI [of _ c]) (simp add: skipped_def)
next
  case (Cons b bs)
  note F = line_facts [OF S Cons.prems]
  have at: "lines_at w L ((as @ [c]) @ b # bs)" using Cons.prems by simp
  have run: "NextNonIgnorable_loop e c w = (if lk w c = NULL \<and> ign e w c then NextNonIgnorable_loop e b w else Some (c, w))"
    using F(1,2,3) line_facts(5) [OF S at] by (simp add: NextNonIgnorable_loop.simps [of e c])
  show ?case
  proof (cases "lk w c = NULL \<and> ign e w c")
    case False
    then show ?thesis using run by (intro exI [of _ "[]"] exI [of _ c] exI [of _ "b # bs"]) (auto simp: skipped_def)
  next
    case True
    obtain us d vs where "b # bs = us @ d # vs" "NextNonIgnorable_loop e b w = Some (d, w)" "skipped e w us d vs"
      using Cons.IH [OF at] by blast
    then show ?thesis using run True by (intro exI [of _ "c # us"] exI [of _ d] exI [of _ vs]) (simp add: skipped_def)
  qed
qed

lemma NextNonIgnorable_spec:
  assumes S: "store e w L" and at: "lines_at w L (as @ c # bs)" and c: "lk w c \<noteq> NULL \<or> ign e w c"
  shows "bs = [] \<and> NextNonIgnorable e c w = Some (NULL, w) \<or>
    (\<exists>us d vs. bs = us @ d # vs \<and> NextNonIgnorable e c w = Some (d, w) \<and> skipped e w us d vs)"
proof -
  note F = line_facts [OF S at]
  show ?thesis
  proof (cases bs)
    case Nil
    then show ?thesis using F(1,2,3) c by (auto simp: NextNonIgnorable_def)
  next
    case (Cons b bs')
    have at': "lines_at w L ((as @ [c]) @ b # bs')" using at Cons by simp
    have "NextNonIgnorable e c w = NextNonIgnorable_loop e b w"
      using F(1,2,3) c Cons line_facts(5) [OF S at'] by (auto simp: NextNonIgnorable_def)
    with NextNonIgnorable_loop_spec [OF S at'] show ?thesis unfolding Cons by metis
  qed
qed

text \<open>The links of two lines follow one another in the other list.\<close>

definition follows :: "wenv \<Rightarrow> wd \<Rightarrow> view \<Rightarrow> ptr \<Rightarrow> ptr \<Rightarrow> bool" where
  "follows e w L x y \<longleftrightarrow> (\<exists>as us bs. lines_at w L (as @ lk w x # us @ lk w y # bs) \<and> (\<forall>u \<in> set us. lk w u = NULL \<and> ign e w u))"

definition matched_run :: "wenv \<Rightarrow> wd \<Rightarrow> view \<Rightarrow> ptr list \<Rightarrow> bool" where
  "matched_run e w L cs \<longleftrightarrow> (\<forall>c \<in> set cs. lk w c \<noteq> NULL \<or> ign e w c) \<and> successively (follows e w L) (filter (\<lambda>c. lk w c \<noteq> NULL) cs)"

lemma filter_skipped: "\<forall>u \<in> set us. lk w u = NULL \<and> P u \<Longrightarrow> filter (\<lambda>c. lk w c \<noteq> NULL) us = []"
  by (simp add: filter_empty_conv)

lemma Prev_found:
  assumes S: "store e w L" and at: "lines_at w L (as @ c # us @ d # vs)"
  shows "Prev d w = Some (last (c # us), w)"
proof -
  have "lines_at w L ((as @ c # us) @ d # vs)" using at by simp
  from line_facts(4) [OF S this] show ?thesis by (cases us rule: rev_cases) simp_all
qed

text \<open>\<open>ended e w L cs vs\<close>: the run \<open>cs\<close>, followed by \<open>vs\<close>, cannot be continued: the next linked
  line, if only ignorable lines are before it, does not follow the last linked one of the run.\<close>

definition linked_lines :: "wd \<Rightarrow> ptr list \<Rightarrow> ptr list" where
  "linked_lines w cs = filter (\<lambda>c. lk w c \<noteq> NULL) cs"

definition ended :: "wenv \<Rightarrow> wd \<Rightarrow> view \<Rightarrow> ptr list \<Rightarrow> ptr list \<Rightarrow> bool" where
  "ended e w L cs vs \<longleftrightarrow> (\<forall>us d ds. vs = us @ d # ds \<longrightarrow> (\<forall>u \<in> set us. lk w u = NULL \<and> ign e w u) \<longrightarrow> lk w d \<noteq> NULL \<longrightarrow>
     linked_lines w cs \<noteq> [] \<and> \<not> follows e w L (last (linked_lines w cs)) d)"

lemma ended_Nil [simp]: "ended e w L cs []"
  by (simp add: ended_def)

lemma ended_unlinked: "lk w d = NULL \<Longrightarrow> \<not> ign e w d \<Longrightarrow> ended e w L cs (d # ds)"
  by (auto simp: ended_def Cons_eq_append_conv)

lemma ended_linked: "lk w d \<noteq> NULL \<Longrightarrow> ended e w L cs (d # ds) \<longleftrightarrow> linked_lines w cs \<noteq> [] \<and> \<not> follows e w L (last (linked_lines w cs)) d"
  by (auto simp: ended_def Cons_eq_append_conv)

lemma linked_lines_append [simp]: "linked_lines w (as @ bs) = linked_lines w as @ linked_lines w bs"
  by (simp add: linked_lines_def)

lemma linked_lines_Cons [simp]: "linked_lines w (c # cs) = (if lk w c \<noteq> NULL then c # linked_lines w cs else linked_lines w cs)"
  by (simp add: linked_lines_def)

lemma linked_lines_skipped: "\<forall>u \<in> set us. lk w u = NULL \<and> P u \<Longrightarrow> linked_lines w us = []"
  by (simp add: linked_lines_def)

text \<open>\<open>follows\<close> is what the code tests.\<close>

lemma follows_next:
  assumes S: "store e w L" and f: "follows e w L x y" and n: "lk w (lk w x) \<noteq> NULL" "lk w (lk w y) \<noteq> NULL"
  shows "NextNonIgnorable e (lk w x) w = Some (lk w y, w)"
proof -
  obtain as us bs where at: "lines_at w L (as @ lk w x # us @ lk w y # bs)" and us: "\<forall>u \<in> set us. lk w u = NULL \<and> ign e w u"
    using f by (auto simp: follows_def)
  obtain us' d vs where d: "us @ lk w y # bs = us' @ d # vs" "NextNonIgnorable e (lk w x) w = Some (d, w)" "skipped e w us' d vs"
    using NextNonIgnorable_spec [OF S at disjI1 [OF n(1)]] by auto
  have "us = us' \<and> lk w y = d"
    using d(1) us d(3) n(2) by (auto simp: skipped_def append_eq_append_conv2 Cons_eq_append_conv append_eq_Cons_conv)
  then show ?thesis using d(2) by simp
qed

lemma FindEndOfMatched_loop_spec:
  assumes S: "store e w L" and "lines_at w L (as @ c # bs)" "lk w c \<noteq> NULL"
  shows "\<exists>us vs. bs = us @ vs \<and> FindEndOfMatched_loop e c w = Some (last (c # us), w) \<and> matched_run e w L (c # us) \<and>
    ended e w L (c # us) vs"
  using assms(2,3)
proof (induction "length bs" arbitrary: as c bs rule: less_induct)
  case less
  note F = line_facts [OF S less.prems(1)]
  have one: "matched_run e w L (c # us)" if "\<forall>u \<in> set us. lk w u = NULL \<and> ign e w u" for us
    using that less.prems(2) filter_skipped [of us w] by (auto simp: matched_run_def)
  from NextNonIgnorable_spec [OF S less.prems(1) disjI1 [OF less.prems(2)]]
  show ?case
  proof (elim disjE exE conjE)
    assume "bs = []" "NextNonIgnorable e c w = Some (NULL, w)"
    then show ?thesis using one [of "[]"] by (intro exI [of _ "[]"]) (simp add: FindEndOfMatched_loop.simps [of e c])
  next
    fix us d vs assume D: "bs = us @ d # vs" "NextNonIgnorable e c w = Some (d, w)" and sk: "skipped e w us d vs"
    have us: "\<forall>u \<in> set us. lk w u = NULL \<and> ign e w u" using sk by (simp add: skipped_def)
    have at: "lines_at w L ((as @ c # us) @ d # vs)" using less.prems(1) D(1) by simp
    note G = line_facts [OF S at]
    have pv: "Prev d w = Some (last (c # us), w)" using Prev_found [OF S] less.prems(1) unfolding D(1) by blast
    show ?thesis
    proof (cases "lk w d = NULL")
      case True
      show ?thesis
      proof (cases "ign e w d")
        case ig: True
        then have "FindEndOfMatched_loop e c w = Some (d, w)"
          using D(2) G(1,2,5) True by (simp add: FindEndOfMatched_loop.simps [of e c])
        moreover have "vs = []" using sk True ig by (simp add: skipped_def)
        moreover have "matched_run e w L (c # us @ [d])" using one [of "us @ [d]"] us True ig by simp
        ultimately show ?thesis using D(1) by (intro exI [of _ "us @ [d]"] exI [of _ "[]"]) simp
      next
        case False
        then have "FindEndOfMatched_loop e c w = Prev d w"
          using D(2) G(1,2,5) True by (simp add: FindEndOfMatched_loop.simps [of e c])
        then show ?thesis using pv one [OF us] D(1) True ended_unlinked [OF True False] by (intro exI [of _ us] exI [of _ "d # vs"]) simp
      qed
    next
      case ld: False
      have Lw: "lines_ok e w" using S by (simp add: store_def)
      have lc: "fls w (lk w c) \<noteq> None" "lk w (lk w c) = c" using Lw less.prems(2) unfolding lines_ok_def by blast+
      obtain xs ys where o: "lines_at w L (xs @ lk w c # ys)" by (rule store_line [OF S lc(1)])
      have "lk w (lk w c) \<noteq> NULL" using lc(2) F(5) by simp
      from NextNonIgnorable_spec [OF S o disjI1 [OF this]] obtain x where
        x: "NextNonIgnorable e (lk w c) w = Some (x, w)"
        "ys = [] \<and> x = NULL \<or> (\<exists>us vs. ys = us @ x # vs \<and> skipped e w us x vs)" by blast
      have run: "FindEndOfMatched_loop e c w = (if lk w d \<noteq> x then Prev d w else FindEndOfMatched_loop e d w)"
        using D(2) G(1,2,5) ld F(1) x(1) by (simp add: FindEndOfMatched_loop.simps [of e c])
      show ?thesis
      proof (cases "lk w d = x")
        case False
        have "lk w (lk w d) = d" using Lw ld unfolding lines_ok_def by blast
        then have "\<not> follows e w L c d" using follows_next [OF S, of c d] x(1) False lc(2) F(5) G(5) by auto
        then have "ended e w L (c # us) (d # vs)" using ended_linked [OF ld] less.prems(2) linked_lines_skipped [OF us] by simp
        then show ?thesis using False run pv one [OF us] D(1) by (intro exI [of _ us] exI [of _ "d # vs"]) simp
      next
        case True
        then obtain us' vs' where y: "ys = us' @ lk w d # vs'" "skipped e w us' (lk w d) vs'" using x(2) ld by auto
        have "lines_at w L (xs @ lk w c # us' @ lk w d # vs')" using o y(1) by simp
        then have fol: "follows e w L c d" using y(2) unfolding follows_def skipped_def by blast
        have lt: "length vs < length bs" using D(1) by simp
        obtain us2 vs2 where r: "vs = us2 @ vs2" "FindEndOfMatched_loop e d w = Some (last (d # us2), w)" "matched_run e w L (d # us2)"
          "ended e w L (d # us2) vs2"
          using less.hyps [OF lt at ld] by blast
        have "ended e w L (c # us @ d # us2) vs2" using r(4) ld less.prems(2) by (simp add: ended_def linked_lines_skipped [OF us])
        have "matched_run e w L (c # us @ d # us2)"
          using r(3) us fol less.prems(2) ld filter_skipped [OF us] by (auto simp: matched_run_def)
        with \<open>ended e w L (c # us @ d # us2) vs2\<close> show ?thesis using run True r(1,2) D(1)
          by (intro exI [of _ "us @ d # us2"] exI [of _ vs2]) simp
      qed
    qed
  qed
qed

lemma FindEndOfMatched_spec:
  assumes S: "store e w L" and at: "lines_at w L (as @ c # bs)" and c: "lk w c \<noteq> NULL \<or> ign e w c"
  shows "\<exists>us vs. bs = us @ vs \<and> FindEndOfMatched e c w = Some (last (c # us), w) \<and> matched_run e w L (c # us) \<and>
    ended e w L (c # us) vs"
proof -
  note F = line_facts [OF S at]
  show ?thesis
  proof (cases "lk w c = NULL")
    case False
    then have "FindEndOfMatched e c w = FindEndOfMatched_loop e c w" using F(1,5) by (simp add: FindEndOfMatched_def Let_def)
    then show ?thesis using FindEndOfMatched_loop_spec [OF S at False] by simp
  next
    case True
    then have ic: "ign e w c" "line_isblank c w = Some True" using c F(2) by (auto simp: ignorable_def ign_def split: if_splits)
    have blanks: "matched_run e w L (c # us)" if "\<forall>u \<in> set us. lk w u = NULL \<and> ign e w u" for us
      using that True ic(1) filter_skipped [of us w] by (auto simp: matched_run_def)
    from NextNonIgnorable_spec [OF S at c]
    show ?thesis
    proof (elim disjE exE conjE)
      assume "bs = []" "NextNonIgnorable e c w = Some (NULL, w)"
      then show ?thesis using blanks [of "[]"] F(1,5) True ic(2) by (intro exI [of _ "[]"]) (simp add: FindEndOfMatched_def Let_def)
    next
      fix us d vs assume D: "bs = us @ d # vs" "NextNonIgnorable e c w = Some (d, w)" and sk: "skipped e w us d vs"
      have us: "\<forall>u \<in> set us. lk w u = NULL \<and> ign e w u" using sk by (simp add: skipped_def)
      have at': "lines_at w L ((as @ c # us) @ d # vs)" using at D(1) by simp
      note G = line_facts [OF S at']
      have pv: "Prev d w = Some (last (c # us), w)" using Prev_found [OF S] at unfolding D(1) by blast
      have run: "FindEndOfMatched e c w = (if lk w d = NULL then if ign e w d then Some (d, w) else Prev d w else FindEndOfMatched_loop e d w)"
        using F(1,5) True ic(2) D(2) G(1,2,5) by (simp add: FindEndOfMatched_def Let_def)
      show ?thesis
      proof (cases "lk w d = NULL")
        case ld: True
        show ?thesis
        proof (cases "ign e w d")
          case ig: True
          moreover have "vs = []" using sk ld ig by (simp add: skipped_def)
          moreover have "matched_run e w L (c # us @ [d])" using blanks [of "us @ [d]"] us ld ig by simp
          ultimately show ?thesis using run ld D(1) by (intro exI [of _ "us @ [d]"] exI [of _ "[]"]) simp
        next
          case False
          then show ?thesis using run ld pv blanks [OF us] D(1) ended_unlinked [OF ld] by (intro exI [of _ us] exI [of _ "d # vs"]) simp
        qed
      next
        case ld: False
        obtain us2 vs2 where r: "vs = us2 @ vs2" "FindEndOfMatched_loop e d w = Some (last (d # us2), w)" "matched_run e w L (d # us2)"
          "ended e w L (d # us2) vs2" using FindEndOfMatched_loop_spec [OF S at' ld] by blast
        have "ended e w L (c # us @ d # us2) vs2" using r(4) ld True by (simp add: ended_def linked_lines_skipped [OF us])
        moreover
        have "matched_run e w L (c # us @ d # us2)"
          using r(3) us ld True ic(1) filter_skipped [OF us] by (auto simp: matched_run_def)
        ultimately show ?thesis using run ld r(1,2) D(1) by (intro exI [of _ "us @ d # us2"] exI [of _ vs2]) simp
      qed
    qed
  qed
qed

subsection \<open>New sections\<close>

definition new_sect :: "ptr \<Rightarrow> ptr \<Rightarrow> sect" where
  "new_sect a b = \<lparr>sfirst = a, slast = b, bDiscard = True, slink = NULL, scorrespond = NULL, sstate = 0, leftbase = 1, rightbase = 1\<rparr>"

text \<open>\<open>add_sect w s' q x\<close>: the state after section \<open>x\<close> has been put at \<open>q\<close>.\<close>

definition add_sect :: "wd \<Rightarrow> unit lheap \<Rightarrow> ptr \<Rightarrow> sect \<Rightarrow> wd" where
  "add_sect w s' q x = w\<lparr>lh := s', scs := (scs w)(cursor q \<mapsto> x)\<rparr>"

lemma section_new_spec:
  assumes "wf (lh w) L" "L l = Some xs" "ample (lga e)"
  shows "\<exists>q s'. section_new e a b l w = Some (cursor q, add_sect w s' q (new_sect a b)) \<and> q \<notin> cells L \<and> wf s' (L(l \<mapsto> xs @ [q]))"
proof -
  obtain q s' where q: "List_NewLast (lga e) l sizeof_section (lh w) = Some (cursor q, s')" "inserted (lh w) L l xs [] sizeof_section None q s'"
    using List_NewLast_ample [OF assms] by blast
  have "l \<noteq> NULL" using wf_nonnull [OF assms(1,2)] by simp
  then have "section_new e a b l w = Some (cursor q, add_sect w s' q (new_sect a b))"
    using q(1) by (simp add: section_new_def on_list_def add_sect_def new_sect_def)
  then show ?thesis using q(2) by (auto simp: inserted_def)
qed

lemma wr_add_sect [simp]: "wr_sect (cursor q) f (add_sect w s' q x) = Some (add_sect w s' q (f x))"
  by (simp add: wr_sect_def add_sect_def)

lemma add_sect_simps [simp]:
  "fls (add_sect w s' q x) = fls w" "lh (add_sect w s' q x) = s'" "scs (add_sect w s' q x) = (scs w)(cursor q \<mapsto> x)"
  "texts (add_sect w s' q x) = texts w" "ts (add_sect w s' q x) = ts w" "wtrace (add_sect w s' q x) = wtrace w"
  by (simp_all add: add_sect_def)

text \<open>\<open>sections_only w w'\<close>: only list storage and sections have changed.\<close>

definition sections_only :: "wd \<Rightarrow> wd \<Rightarrow> bool" where
  "sections_only w w' \<longleftrightarrow> w' = w\<lparr>lh := lh w', scs := scs w'\<rparr>"

lemma sections_only_refl: "sections_only w w"
  by (simp add: sections_only_def)

lemma sections_only_trans: "sections_only w w1 \<Longrightarrow> sections_only w1 w2 \<Longrightarrow> sections_only w w2"
proof -
  assume "sections_only w w1" "sections_only w1 w2"
  then have "w2 = w1\<lparr>lh := lh w2, scs := scs w2\<rparr>" "w1 = w\<lparr>lh := lh w1, scs := scs w1\<rparr>" by (simp_all add: sections_only_def)
  then have "w2 = (w\<lparr>lh := lh w1, scs := scs w1\<rparr>)\<lparr>lh := lh w2, scs := scs w2\<rparr>" by metis
  then show "sections_only w w2" by (simp add: sections_only_def)
qed

lemma sections_only_add: "sections_only w (add_sect w s' q x)"
  by (simp add: sections_only_def add_sect_def)

lemma sections_only_facts:
  assumes "sections_only w w'"
  shows "fls w' = fls w" "texts w' = texts w" "lk w' = lk w" "line_key e w' = line_key e w" "blank_line w' = blank_line w"
    "ign e w' = ign e w" "ts w' = ts w" "lines_ok e w' = lines_ok e w" "lines_at w' = lines_at w" "line_list w' = line_list w"
    "follows e w' = follows e w" "matched_run e w' = matched_run e w" "line_getlinenr p w' = line_getlinenr p w"
    "line_gettext p w' = line_gettext p w"
proof -
  have u: "w' = w\<lparr>lh := lh w', scs := scs w'\<rparr>" using assms by (simp add: sections_only_def)
  show f: "fls w' = fls w" and t: "texts w' = texts w" by (subst u, simp)+
  show "ts w' = ts w" by (subst u) simp
  show l: "lk w' = lk w" by (simp add: fun_eq_iff lk_def f)
  have x: "line_text w' = line_text w" by (simp add: fun_eq_iff line_text_def f t)
  show k: "line_key e w' = line_key e w" by (simp add: fun_eq_iff line_key_def x)
  show b: "blank_line w' = blank_line w" by (simp add: fun_eq_iff blank_line_def x)
  show g: "ign e w' = ign e w" by (simp add: fun_eq_iff ign_def b)
  show "lines_ok e w' = lines_ok e w" by (simp add: lines_ok_def line_ok_def f t l k)
  show a: "lines_at w' = lines_at w" by (simp add: fun_eq_iff lines_at_def f)
  show "line_list w' = line_list w" by (simp add: fun_eq_iff line_list_def f)
  show h: "follows e w' = follows e w" by (simp add: fun_eq_iff follows_def a l g)
  show "matched_run e w' = matched_run e w" by (simp add: fun_eq_iff matched_run_def l g h)
  show "line_getlinenr p w' = line_getlinenr p w" by (simp add: line_getlinenr_def ld_line_def f)
  show "line_gettext p w' = line_gettext p w" by (simp add: line_gettext_def ld_line_def f)
qed

text \<open>A list that holds no lines.\<close>

definition sect_list :: "wd \<Rightarrow> ptr list \<Rightarrow> bool" where
  "sect_list w its \<longleftrightarrow> (\<forall>i \<in> set its. fls w (cursor i) = None)"

lemma store_fresh:
  assumes "store e w L" "q \<notin> cells L"
  shows "fls w (cursor q) = None"
proof (rule ccontr)
  assume "fls w (cursor q) \<noteq> None"
  then obtain l its where "L l = Some its" "cursor q \<in> cursor ` set its" using assms(1) by (auto simp: store_def)
  then have "q \<in> cells L" by (intro in_cellsI [of L l its]) auto
  then show False using assms(2) by simp
qed

text \<open>Lists of sections may change without touching the lists of lines.\<close>

definition lines_same :: "wd \<Rightarrow> view \<Rightarrow> view \<Rightarrow> bool" where
  "lines_same w L M \<longleftrightarrow> (\<forall>l its. its \<noteq> [] \<longrightarrow> line_list w its \<longrightarrow> L l = Some its \<longrightarrow> M l = Some its)"

lemma lines_same_put:
  assumes "L l = None \<or> (\<exists>xs. L l = Some xs \<and> sect_list w xs)"
  shows "lines_same w L (L(l \<mapsto> ys))"
  using assms unfolding lines_same_def line_list_def sect_list_def by (metis fun_upd_apply last_in_set option.distinct(1) option.inject)

lemma lines_same_trans: "lines_same w L M \<Longrightarrow> lines_same w M N \<Longrightarrow> lines_same w L N"
  by (simp add: lines_same_def)

lemma lines_same_at:
  assumes "lines_same w L M" "lines_at w L cs" "cs \<noteq> []"
  shows "lines_at w M cs"
proof -
  obtain l its where l: "L l = Some its" "cs = map cursor its" "\<forall>c \<in> set cs. fls w c \<noteq> None" using assms(2) by (auto simp: lines_at_def)
  then have "M l = Some its" using assms(1,3) by (simp add: lines_same_def line_list_def)
  then show ?thesis using l by (auto simp: lines_at_def)
qed

lemma lines_same_run: "lines_same w L M \<Longrightarrow> matched_run e w L cs \<Longrightarrow> matched_run e w M cs"
proof -
  assume S: "lines_same w L M" and R: "matched_run e w L cs"
  have "follows e w M x y" if f: "follows e w L x y" for x y
    using f lines_same_at [OF S] unfolding follows_def by blast
  then show ?thesis using R unfolding matched_run_def by (auto elim: successively_mono)
qed

lemma store_change:
  assumes "store e w L" "sections_only w w'" "wf (lh w') M" "lines_same w L M"
  shows "store e w' M"
proof -
  note F = sections_only_facts [OF assms(2)]
  have "\<exists>l its. M l = Some its \<and> p \<in> cursor ` set its \<and> line_list w its" if p: "fls w p \<noteq> None" for p
  proof -
    obtain l its where l: "L l = Some its" "p \<in> cursor ` set its" "line_list w its" using assms(1) p by (auto simp: store_def)
    then have "its \<noteq> []" by auto
    then have "M l = Some its" using l assms(4) by (simp add: lines_same_def)
    then show ?thesis using l by blast
  qed
  then show ?thesis using assms(1,3) by (simp add: store_def F)
qed

subsection \<open>The sections of a list of lines\<close>

definition matched_start :: "wenv \<Rightarrow> wd \<Rightarrow> ptr \<Rightarrow> bool" where
  "matched_start e w c \<longleftrightarrow> lk w c \<noteq> NULL \<or> ign e w c"

text \<open>\<open>cut e w L is_left x seg\<close>: section \<open>x\<close> stands for the lines \<open>seg\<close>.\<close>

definition cut :: "wenv \<Rightarrow> wd \<Rightarrow> view \<Rightarrow> bool \<Rightarrow> sect \<Rightarrow> ptr list \<Rightarrow> bool" where
  "cut e w L is_left x seg \<longleftrightarrow> seg \<noteq> [] \<and> sfirst x = hd seg \<and> slast x = last seg \<and> slink x = NULL \<and> scorrespond x = NULL \<and>
     (if matched_start e w (hd seg) then sstate x = STATE_SAME \<and> matched_run e w L seg
      else sstate x = (if is_left then STATE_LEFTONLY else STATE_RIGHTONLY) \<and> (\<forall>c \<in> set seg. lk w c = NULL))"

text \<open>No unmatched section follows an unmatched one.\<close>

definition apart_segs :: "wd \<Rightarrow> wenv \<Rightarrow> ptr list list \<Rightarrow> bool" where
  "apart_segs w e gs \<longleftrightarrow> successively (\<lambda>a b. matched_start e w (hd a) \<or> matched_start e w (hd b)) gs"

text \<open>Every matched section is as long as it can be.\<close>

fun all_ended :: "wenv \<Rightarrow> wd \<Rightarrow> view \<Rightarrow> ptr list list \<Rightarrow> bool" where
  "all_ended e w L [] = True"
| "all_ended e w L (g # gs) = ((matched_start e w (hd g) \<longrightarrow> ended e w L g (concat gs)) \<and> all_ended e w L gs)"

lemma starts_matched_spec:
  assumes "store e w L" "lines_at w L (as @ c # bs)"
  shows "starts_matched e c w = Some (matched_start e w c)"
  using line_facts [OF assms] by (simp add: starts_matched_def matched_start_def)

lemma section_end:
  assumes S: "store e w L" and at: "lines_at w L (as @ c # bs)"
  shows "\<exists>us vs. bs = us @ vs \<and>
    (if matched_start e w c then FindEndOfMatched e c w else FindEndOfUnmatched c w) = Some (last (c # us), w) \<and>
    (if matched_start e w c then matched_run e w L (c # us) \<and> ended e w L (c # us) vs
     else (\<forall>x \<in> set (c # us). lk w x = NULL) \<and> (vs = [] \<or> matched_start e w (hd vs)))"
proof (cases "matched_start e w c")
  case True
  then have "lk w c \<noteq> NULL \<or> ign e w c" by (simp add: matched_start_def)
  then obtain us vs where "bs = us @ vs" "FindEndOfMatched e c w = Some (last (c # us), w)" "matched_run e w L (c # us)"
    "ended e w L (c # us) vs" using FindEndOfMatched_spec [OF S at] by blast
  then show ?thesis using True by (intro exI [of _ us] exI [of _ vs]) simp
next
  case False
  then obtain us vs where "bs = us @ vs" "FindEndOfUnmatched c w = Some (last (c # us), w)" "\<forall>u \<in> set us. lk w u = NULL"
    "vs = [] \<or> lk w (hd vs) \<noteq> NULL" using FindEndOfUnmatched_spec [OF S at] by blast
  then show ?thesis using False by (intro exI [of _ us] exI [of _ vs]) (auto simp: matched_start_def)
qed

definition sects_at :: "wd \<Rightarrow> ptr list \<Rightarrow> sect list \<Rightarrow> bool" where
  "sects_at w qs xs \<longleftrightarrow> map (\<lambda>q. scs w (cursor q)) qs = map Some xs"

lemma sects_at_Cons: "sects_at w (q # qs) (x # xs) \<longleftrightarrow> scs w (cursor q) = Some x \<and> sects_at w qs xs"
  by (auto simp: sects_at_def)

lemma cut_mono:
  assumes "cut e w L is_left x seg" "sections_only w w'" "lines_same w L M"
  shows "cut e w' M is_left x seg"
  using assms(1) lines_same_run [OF assms(3)] by (auto simp: cut_def matched_start_def sections_only_facts [OF assms(2)])

lemma ended_mono: "ended e w' M cs vs \<Longrightarrow> sections_only w w' \<Longrightarrow> lines_same w L M \<Longrightarrow> ended e w L cs vs"
proof -
  assume E: "ended e w' M cs vs" and so: "sections_only w w'" and ls: "lines_same w L M"
  have "follows e w M x y" if f: "follows e w L x y" for x y
    using f lines_same_at [OF ls] unfolding follows_def by blast
  then show ?thesis using E unfolding ended_def linked_lines_def sections_only_facts [OF so] by blast
qed

lemma all_ended_mono: "all_ended e w' M gs \<Longrightarrow> sections_only w w' \<Longrightarrow> lines_same w L M \<Longrightarrow> all_ended e w L gs"
  by (induction gs) (auto simp: matched_start_def sections_only_facts intro: ended_mono)

lemma makelist_loop_spec:
  assumes "store e w L" "lines_at w L (as @ cs)" "L secs = Some sits" "sect_list w sits" "ample (lga e)"
  shows "\<exists>w' qs xs gs. makelist_loop e is_left secs (start cs) w = Some w' \<and> sections_only w w' \<and>
    store e w' (L(secs \<mapsto> sits @ qs)) \<and> set qs \<inter> cells L = {} \<and> (\<forall>p. p \<notin> cursor ` set qs \<longrightarrow> scs w' p = scs w p) \<and>
    sects_at w' qs xs \<and> concat gs = cs \<and> list_all2 (cut e w (L(secs \<mapsto> sits @ qs)) is_left) xs gs \<and> apart_segs w e gs \<and>
    all_ended e w L gs"
  using assms(1-4)
proof (induction "length cs" arbitrary: cs w L as sits rule: less_induct)
  case less
  show ?case
  proof (cases cs)
    case Nil
    have id: "L(secs \<mapsto> sits) = L" using less.prems(3) by auto
    then show ?thesis using less.prems(1) Nil
      by (intro exI [of _ w] exI [of _ "[]"]) (simp add: makelist_loop.simps sections_only_refl sects_at_def apart_segs_def)
  next
    case (Cons c bs)
    have at: "lines_at w L (as @ c # bs)" using less.prems(2) Cons by simp
    note F = line_facts [OF less.prems(1) at]
    define m where "m = matched_start e w c"
    obtain us vs where E: "bs = us @ vs" "(if m then FindEndOfMatched e c w else FindEndOfUnmatched c w) = Some (last (c # us), w)"
      "if m then matched_run e w L (c # us) \<and> ended e w L (c # us) vs else (\<forall>x \<in> set (c # us). lk w x = NULL) \<and> (vs = [] \<or> matched_start e w (hd vs))"
      using section_end [OF less.prems(1) at] unfolding m_def by blast
    have wfL: "wf (lh w) L" using less.prems(1) by (simp add: store_def)
    define st where "st = (if m then STATE_SAME else if is_left then STATE_LEFTONLY else STATE_RIGHTONLY)"
    obtain q s1 where q: "section_new e c (last (c # us)) secs w = Some (cursor q, add_sect w s1 q (new_sect c (last (c # us))))"
      "q \<notin> cells L" "wf s1 (L(secs \<mapsto> sits @ [q]))"
      using section_new_spec [OF wfL less.prems(3) assms(5)] by blast
    define x where "x = (new_sect c (last (c # us)))\<lparr>sstate := st\<rparr>"
    define w1 where "w1 = add_sect w s1 q x"
    define L1 where "L1 = L(secs \<mapsto> sits @ [q])"
    have so1: "sections_only w w1" unfolding w1_def by (rule sections_only_add)
    note G = sections_only_facts [OF so1]
    have ls1: "lines_same w L L1" unfolding L1_def using less.prems(3,4) by (intro lines_same_put) simp
    have S1: "store e w1 L1" by (rule store_change [OF less.prems(1) so1 _ ls1]) (simp add: w1_def L1_def q(3))
    have at1: "lines_at w1 L1 ((as @ c # us) @ vs)"
      using lines_same_at [OF ls1 at] E(1) by (simp add: G)
    have nx: "Next (last (c # us)) w1 = Some (start vs, w1)"
    proof -
      have "(as @ c # us) @ vs = (as @ butlast (c # us)) @ last (c # us) # vs" by simp
      then have "lines_at w1 L1 ((as @ butlast (c # us)) @ last (c # us) # vs)" using at1 by (simp only:)
      from line_facts(3) [OF S1 this] show ?thesis .
    qed
    have sl1: "sect_list w1 (sits @ [q])" using less.prems(4) store_fresh [OF less.prems(1) q(2)] by (simp add: sect_list_def G)
    have run: "makelist_loop e is_left secs (start cs) w = makelist_loop e is_left secs (start vs) w1"
      using F(5) starts_matched_spec [OF less.prems(1) at] E(2) q(1) nx
      unfolding Cons m_def [symmetric] st_def w1_def x_def
      by (simp add: makelist_loop.simps [of e is_left secs c] del: last.simps split del: if_split)
    have lt: "length vs < length cs" using Cons E(1) by simp
    have L1s: "L1 secs = Some (sits @ [q])" by (simp add: L1_def)
    obtain w2 qs xs gs where R: "makelist_loop e is_left secs (start vs) w1 = Some w2" "sections_only w1 w2"
      "store e w2 (L1(secs \<mapsto> (sits @ [q]) @ qs))" "set qs \<inter> cells L1 = {}" "\<forall>p. p \<notin> cursor ` set qs \<longrightarrow> scs w2 p = scs w1 p"
      "sects_at w2 qs xs" "concat gs = vs" "list_all2 (cut e w1 (L1(secs \<mapsto> (sits @ [q]) @ qs)) is_left) xs gs" "apart_segs w1 e gs"
      "all_ended e w1 L1 gs"
      using less.hyps [OF lt S1 at1 L1s sl1] by blast
    define L2 where "L2 = L(secs \<mapsto> sits @ q # qs)"
    have L2: "L1(secs \<mapsto> (sits @ [q]) @ qs) = L2" by (simp add: L1_def L2_def)
    have lsl: "lines_same w L L2" unfolding L2_def using less.prems(3,4) by (intro lines_same_put) simp
    have qq: "q \<notin> set qs" using R(4) in_cellsI [of L1 secs, OF L1s, of q] by auto
    have cellsub: "cells L \<subseteq> cells L1" unfolding L1_def cells_def using less.prems(3) by fastforce
    have "cursor q \<notin> cursor ` set qs" using qq by auto
    then have "scs w2 (cursor q) = Some x" using R(5) by (simp add: w1_def)
    then have sa: "sects_at w2 (q # qs) (x # xs)" using R(6) by (simp add: sects_at_Cons)
    have cut1: "cut e w L2 is_left x (c # us)"
      using E(3) lines_same_run [OF lsl] unfolding cut_def x_def st_def m_def by (auto simp: new_sect_def)
    have cuts: "list_all2 (cut e w L2 is_left) xs gs"
      using R(8) unfolding L2 by (rule list.rel_mono_strong) (auto simp: cut_def matched_start_def G split: if_splits)
    have ap: "apart_segs w e ((c # us) # gs)"
    proof (cases gs)
      case Nil
      then show ?thesis by (simp add: apart_segs_def)
    next
      case (Cons g gs')
      then have "g \<noteq> []" using R(8) by (auto simp: list_all2_Cons2 cut_def)
      then have "hd vs = hd g" "vs \<noteq> []" using R(7) Cons by auto
      then have "matched_start e w c \<or> matched_start e w (hd g)" using E(3) unfolding m_def by (cases "matched_start e w c") auto
      moreover have "matched_start e w1 = matched_start e w" by (simp add: fun_eq_iff matched_start_def G)
      ultimately show ?thesis using R(9) Cons by (simp add: apart_segs_def)
    qed
    have en: "all_ended e w L ((c # us) # gs)" using E(3) R(7) all_ended_mono [OF R(10) so1 ls1] unfolding m_def by simp
    have "set (q # qs) \<inter> cells L = {}" using R(4) q(2) cellsub by auto
    moreover have "\<forall>p. p \<notin> cursor ` set (q # qs) \<longrightarrow> scs w2 p = scs w p" using R(5) by (auto simp: w1_def)
    moreover have "concat ((c # us) # gs) = cs" using R(7) E(1) Cons by simp
    moreover have "list_all2 (cut e w L2 is_left) (x # xs) ((c # us) # gs)" using cut1 cuts by simp
    ultimately show ?thesis
      using run R(1,3) sections_only_trans [OF so1 R(2)] sa ap en unfolding L2 L2_def
      by (intro exI [of _ w2] exI [of _ "q # qs"] exI [of _ "x # xs"] exI [of _ "(c # us) # gs"]) simp
  qed
qed

lemma created_lines_same: "l \<notin> cells L \<Longrightarrow> lines_same w L (L(l \<mapsto> []))"
  by (rule lines_same_put) (cases "L l"; force simp: cells_def)

lemma section_makelist_spec:
  assumes S: "store e w L" and l: "L linelist = Some its" "line_list w its" and ga: "ample (lga e)"
  shows "\<exists>secs w' qs xs gs. section_makelist e linelist is_left w = Some (secs, w') \<and> sections_only w w' \<and>
    secs \<notin> cells L \<and> store e w' (L(secs \<mapsto> qs)) \<and> set qs \<inter> cells L = {} \<and> (\<forall>p. p \<notin> cursor ` set qs \<longrightarrow> scs w' p = scs w p) \<and>
    sects_at w' qs xs \<and> concat gs = map cursor its \<and> list_all2 (cut e w (L(secs \<mapsto> qs)) is_left) xs gs \<and> apart_segs w e gs \<and>
    all_ended e w L gs"
proof -
  have W: "wf (lh w) L" using S by (simp add: store_def)
  obtain secs s1 where c: "List_Create (lga e) (lh w) = Some (secs, s1)" "created (lh w) L secs s1"
    using List_Create_ample [OF W ga] by blast
  have new: "secs \<notin> cells L" "wf s1 (L(secs \<mapsto> []))" using c(2) by (simp_all add: created_def)
  define w1 where "w1 = w\<lparr>lh := s1\<rparr>"
  have so: "sections_only w w1" by (simp add: sections_only_def w1_def)
  note G = sections_only_facts [OF so]
  have ls: "lines_same w L (L(secs \<mapsto> []))" by (rule created_lines_same [OF new(1)])
  have S1: "store e w1 (L(secs \<mapsto> []))" by (rule store_change [OF S so _ ls]) (simp add: w1_def new(2))
  have ne: "linelist \<noteq> secs" using new(1) in_cellsI [of L linelist, OF l(1), of linelist] by auto
  have l1: "(L(secs \<mapsto> [])) linelist = Some its" using l(1) ne by simp
  have at: "lines_at w1 (L(secs \<mapsto> [])) ([] @ map cursor its)" using l(2) l1 unfolding lines_at_def line_list_def G by (intro conjI exI [of _ linelist] exI [of _ its]) auto
  have fst_line: "List_First linelist s1 = Some (start (map cursor its), s1)"
    using List_First_spec [OF new(2) l1] by (cases its) simp_all
  obtain w2 qs xs gs where R: "makelist_loop e is_left secs (start (map cursor its)) w1 = Some w2" "sections_only w1 w2"
    "store e w2 (L(secs \<mapsto> qs))" "set qs \<inter> cells (L(secs \<mapsto> [])) = {}" "\<forall>p. p \<notin> cursor ` set qs \<longrightarrow> scs w2 p = scs w1 p"
    "sects_at w2 qs xs" "concat gs = map cursor its" "list_all2 (cut e w1 (L(secs \<mapsto> qs)) is_left) xs gs" "apart_segs w1 e gs"
    "all_ended e w1 (L(secs \<mapsto> [])) gs"
    using makelist_loop_spec [OF S1 at, of secs "[]" is_left] ga by (auto simp: sect_list_def)
  have "section_makelist e linelist is_left w = Some (secs, w2)"
    using c(1) fst_line R(1) by (simp add: section_makelist_def on_list_def w1_def)
  moreover have "cells L \<subseteq> cells (L(secs \<mapsto> []))" using new(1) unfolding cells_def by fastforce
  then have "set qs \<inter> cells L = {}" using R(4) by blast
  moreover have "\<forall>p. p \<notin> cursor ` set qs \<longrightarrow> scs w2 p = scs w p" using R(5) by (simp add: w1_def)
  moreover have "list_all2 (cut e w (L(secs \<mapsto> qs)) is_left) xs gs"
    using R(8) by (rule list.rel_mono_strong) (auto simp: cut_def matched_start_def G split: if_splits)
  moreover have "apart_segs w e gs" using R(9) by (simp add: apart_segs_def matched_start_def G)
  moreover have "all_ended e w L gs" by (rule all_ended_mono [OF R(10) so ls])
  ultimately show ?thesis using new(1) R(3,6,7) sections_only_trans [OF so R(2)] by blast
qed

end
