(* ===== verification/Windiff_Composite_Correct.thy ===== *)
theory Windiff_Composite_Correct
  imports Windiff_Composite Windiff_Makelist_Correct
begin

text \<open>
  The composite list shows every line of the right file exactly once and in order, and so every
  line of the left file but those of ignorable blank sections; building it ends.  The fuzzy
  comparison of lines (\<open>LinesMatch\<close>) is the ratio of common to all characters.
\<close>

subsection \<open>Character maps\<close>

lemma unat_byte: "unat (c :: byte) < 256"
  using unsigned_less [of c] by simp

definition bit_at :: "bitmap \<Rightarrow> nat \<Rightarrow> bool" where
  "bit_at bm v \<longleftrightarrow> bit (bm ! (v div 8)) (v mod 8)"

definition char_map :: "bitmap \<Rightarrow> nat set \<Rightarrow> bool" where
  "char_map bm C \<longleftrightarrow> length bm = 32 \<and> (\<forall>v < 256. bit_at bm v \<longleftrightarrow> v \<in> C)"

lemma MakeMap_loop_spec:
  assumes "0 \<notin> set s" "char_map bm C"
  shows "\<exists>bm'. MakeMap_loop bm (s @ [0]) = Some bm' \<and> char_map bm' (C \<union> unat ` set s)"
  using assms
proof (induction s arbitrary: bm C)
  case Nil
  then show ?case by simp
next
  case (Cons c cs)
  let ?v = "unat c"
  let ?bm = "bm[?v div 8 := or (bm ! (?v div 8)) (push_bit (?v mod 8) 1)]"
  have v: "?v < 256" using unat_byte [of c] by simp
  have len: "length bm = 32" using Cons.prems(2) by (simp add: char_map_def)
  have "bit_at ?bm u \<longleftrightarrow> u \<in> C \<union> {?v}" if u: "u < 256" for u
  proof (cases "u div 8 = ?v div 8")
    case True
    have "bit_at ?bm u \<longleftrightarrow> bit_at bm u \<or> u mod 8 = ?v mod 8"
      using True v len by (auto simp: bit_at_def bit_simps)
    moreover have "u mod 8 = ?v mod 8 \<longleftrightarrow> u = ?v" using True by (metis div_mult_mod_eq)
    ultimately show ?thesis using Cons.prems(2) u by (auto simp: char_map_def)
  next
    case False
    then have "bit_at ?bm u = bit_at bm u" "u \<noteq> ?v" by (auto simp: bit_at_def)
    then show ?thesis using Cons.prems(2) u by (auto simp: char_map_def)
  qed
  then have cm: "char_map ?bm (C \<union> {?v})" using len by (simp add: char_map_def)
  have "0 \<notin> set cs" "c \<noteq> 0" using Cons.prems(1) by auto
  with Cons.IH [OF _ cm] show ?case by (auto simp: Let_def Un_assoc)
qed

lemma MakeMap_spec:
  assumes "0 \<notin> set s"
  shows "\<exists>bm. MakeMap (s @ [0]) = Some bm \<and> char_map bm (unat ` set s)"
proof -
  have "char_map (replicate 32 0) {}" by (simp add: char_map_def bit_at_def)
  from MakeMap_loop_spec [OF assms this] show ?thesis by (simp add: MakeMap_def)
qed

lemma AndMaps_spec: "char_map a A \<Longrightarrow> char_map b B \<Longrightarrow> char_map (AndMaps a b) (A \<inter> B)"
  by (auto simp: char_map_def AndMaps_def bit_at_def bit_and_iff)

lemma OrMaps_spec: "char_map a A \<Longrightarrow> char_map b B \<Longrightarrow> char_map (OrMaps a b) (A \<union> B)"
  by (auto simp: char_map_def OrMaps_def bit_at_def bit_or_iff)

lemma foldl_count: "foldl (\<lambda>n j. if P j then n + 1 else n) n js = n + length (filter P js)"
  by (induction js arbitrary: n) auto

lemma foldl_sum: "foldl (\<lambda>n i. n + f i) (n :: nat) js = n + sum_list (map f js)"
  by (induction js arbitrary: n) auto

lemma BitsInMap_spec:
  assumes "char_map bm C"
  shows "BitsInMap bm = card {v \<in> C. v < 256}"
proof -
  let ?P = "\<lambda>i j. and (bm ! i) (push_bit j 1) \<noteq> 0"
  have P: "?P i j \<longleftrightarrow> bit (bm ! i) j" for i j by (simp add: bit_iff_and_push_bit_not_eq_0)
  have "BitsInMap bm = sum_list (map (\<lambda>i. length (filter (?P i) [0..<8])) [0..<32])"
    by (simp add: BitsInMap_def foldl_count foldl_sum del: upt_Suc upt_rec_numeral)
  also have "\<dots> = (\<Sum>i \<in> {0..<32}. card {j. j < 8 \<and> bit (bm ! i) j})"
  proof -
    have "length (filter (?P i) [0..<8]) = card {j. j < 8 \<and> bit (bm ! i) j}" for i
      unfolding P by (subst distinct_card [symmetric]) (auto intro!: arg_cong [of _ _ card] simp del: upt_rec_numeral)
    then show ?thesis by (simp add: interv_sum_list_conv_sum_set_nat del: upt_rec_numeral)
  qed
  also have "\<dots> = card (Sigma {0..<32} (\<lambda>i. {j. j < 8 \<and> bit (bm ! i) j}))" by (subst card_SigmaI) auto
  also have "Sigma {0..<32} (\<lambda>i. {j. j < 8 \<and> bit (bm ! i) j}) = (\<lambda>v. (v div 8, v mod 8)) ` {v \<in> C. v < 256}"
  proof -
    have "(i, j) \<in> (\<lambda>v. (v div 8, v mod 8)) ` {v \<in> C. v < 256}" if "i < 32" "j < 8" "bit (bm ! i) j" for i j
    proof -
      have "bit_at bm (8 * i + j)" "8 * i + j < 256" using that by (simp_all add: bit_at_def)
      then have "8 * i + j \<in> C" using assms by (simp add: char_map_def)
      then show ?thesis using that by (intro image_eqI [of _ _ "8 * i + j"]) simp_all
    qed
    moreover have "v div 8 < 32 \<and> v mod 8 < 8 \<and> bit (bm ! (v div 8)) (v mod 8)" if "v \<in> C" "v < 256" for v
      using assms that by (auto simp: char_map_def bit_at_def)
    ultimately show ?thesis by auto
  qed
  also have "card \<dots> = card {v \<in> C. v < 256}"
  proof (rule card_image)
    show "inj_on (\<lambda>v. (v div 8, v mod 8)) {v \<in> C. v < 256}"
      by (rule inj_onI) (metis div_mult_mod_eq prod.inject)
  qed
  finally show ?thesis .
qed

text \<open>At least three quarters of the characters of the two lines are common.\<close>

definition similar :: "cstring \<Rightarrow> cstring \<Rightarrow> bool" where
  "similar s t \<longleftrightarrow> 3 * card (set s \<union> set t) \<le> 4 * card (set s \<inter> set t)"

lemma LinesMatch_spec:
  assumes "lines_ok e w" "fls w p \<noteq> None" "fls w q \<noteq> None"
  shows "LinesMatch p q w = Some (similar (line_text w p) (line_text w q))"
proof -
  have tx: "\<exists>a. line_gettext p w = Some a \<and> chars a w = Some (line_text w p @ [0]) \<and> 0 \<notin> set (line_text w p)"
    if live: "fls w p \<noteq> None" for p
  proof -
    obtain l where l: "fls w p = Some l" using live by blast
    obtain t where t: "texts w (ltext l) = Some (t @ [0])" "text_ok e t" "line_text w p = t" "p \<noteq> NULL"
      by (rule lines_okD [OF assms(1) l])
    then show ?thesis using l text_ok_solid(2) [OF t(2)] by (simp add: line_gettext_def ld_line_def chars_def)
  qed
  obtain a where a: "line_gettext p w = Some a" "chars a w = Some (line_text w p @ [0])" "0 \<notin> set (line_text w p)"
    using tx [OF assms(2)] by blast
  obtain b where b: "line_gettext q w = Some b" "chars b w = Some (line_text w q @ [0])" "0 \<notin> set (line_text w q)"
    using tx [OF assms(3)] by blast
  obtain m where m: "MakeMap (line_text w p @ [0]) = Some m" "char_map m (unat ` set (line_text w p))"
    using MakeMap_spec [OF a(3)] by blast
  obtain n where n: "MakeMap (line_text w q @ [0]) = Some n" "char_map n (unat ` set (line_text w q))"
    using MakeMap_spec [OF b(3)] by blast
  have small: "{v \<in> unat ` (X :: byte set). v < 256} = unat ` X" for X
    using unat_byte by auto
  have crd: "card (unat ` (X :: byte set)) = card X" for X
    by (rule card_image) (simp add: inj_on_def word_unat_eq_iff)
  have I: "unat ` set x \<inter> unat ` set y = unat ` (set x \<inter> set y)" for x y :: cstring
    by (auto simp: word_unat_eq_iff [symmetric])
  have "BitsInMap (AndMaps m n) = card (set (line_text w p) \<inter> set (line_text w q))"
    using BitsInMap_spec [OF AndMaps_spec [OF m(2) n(2)]] unfolding I small crd .
  moreover have "BitsInMap (OrMaps m n) = card (set (line_text w p) \<union> set (line_text w q))"
    using BitsInMap_spec [OF OrMaps_spec [OF m(2) n(2)]] unfolding image_Un [symmetric] small crd .
  ultimately show ?thesis using a b m n by (auto simp: LinesMatch_def Let_def similar_def)
qed

subsection \<open>The sections to be merged\<close>

definition nr :: "wd \<Rightarrow> ptr \<Rightarrow> 32 word" where
  "nr w c = the (line_getlinenr c w)"

lemma nr_sections_only: "sections_only w w' \<Longrightarrow> nr w' = nr w"
  by (simp add: fun_eq_iff nr_def sections_only_facts)

lemma line_getlinenr_nr: "fls w c \<noteq> None \<Longrightarrow> line_getlinenr c w = Some (nr w c)"
  by (auto simp: nr_def line_getlinenr_def ld_line_def)

text \<open>\<open>sects_ok w L P X G\<close>: at every pointer of \<open>P\<close> there is the section \<open>X p\<close>, up to its
  state, and it stands for the lines \<open>G p\<close>.\<close>

definition sects_ok :: "wd \<Rightarrow> view \<Rightarrow> ptr set \<Rightarrow> (ptr \<Rightarrow> sect) \<Rightarrow> (ptr \<Rightarrow> ptr list) \<Rightarrow> bool" where
  "sects_ok w L P X G \<longleftrightarrow> (\<forall>p \<in> P. p \<in> cursor ` cells L \<and> (\<exists>st. scs w p = Some (X p\<lparr>sstate := st\<rparr>)) \<and>
     G p \<noteq> [] \<and> sfirst (X p) = hd (G p) \<and> slast (X p) = last (G p) \<and> (\<exists>as bs. lines_at w L (as @ G p @ bs)) \<and>
     (slink (X p) = NULL \<or> slink (X p) \<in> P))"

definition comp_inv :: "wenv \<Rightarrow> wd \<Rightarrow> view \<Rightarrow> ptr \<Rightarrow> ptr list \<Rightarrow> ptr set \<Rightarrow> (ptr \<Rightarrow> sect) \<Rightarrow> (ptr \<Rightarrow> ptr list) \<Rightarrow> bool" where
  "comp_inv e w L compo cs P X G \<longleftrightarrow> store e w L \<and> L compo = Some cs \<and> sect_list w cs \<and> sects_ok w L P X G \<and>
     (\<forall>i \<in> set cs. cursor i \<notin> P)"

lemma comp_invD:
  assumes "comp_inv e w L compo cs P X G" "p \<in> P"
  obtains st where "scs w p = Some (X p\<lparr>sstate := st\<rparr>)" "p \<noteq> NULL" "G p \<noteq> []" "sfirst (X p) = hd (G p)" "slast (X p) = last (G p)"
    "\<forall>c \<in> set (G p). fls w c \<noteq> None" "slink (X p) = NULL \<or> slink (X p) \<in> P"
  using assms by (auto simp: comp_inv_def sects_ok_def lines_at_def)

text \<open>What a composite section shows: \<open>entry X G P w z (lg, rg)\<close> says that \<open>z\<close> stands for the
  lines \<open>lg\<close> of the left and \<open>rg\<close> of the right file.  Equal sections show the right
  lines; they and moved sections come from linked ones.\<close>

definition entry :: "(ptr \<Rightarrow> sect) \<Rightarrow> (ptr \<Rightarrow> ptr list) \<Rightarrow> ptr set \<Rightarrow> wd \<Rightarrow> sect \<Rightarrow> ptr list \<times> ptr list \<Rightarrow> bool" where
  "entry X G P w z = (\<lambda>(lg, rg).
     (if sstate z = STATE_SAME then rg \<noteq> [] \<and> sfirst z = hd rg \<and> slast z = last rg \<and> rightbase z = nr w (hd rg) \<and>
        (if lg = [] then leftbase z = 0 \<and> (\<exists>p \<in> P. sstate (X p) = STATE_SAME \<and> slink (X p) = NULL \<and> rg = G p)
         else leftbase z = nr w (hd lg) \<and> (\<exists>p \<in> P. slink (X p) \<in> P \<and> lg = G p \<and> rg = G (slink (X p))))
      else if sstate z \<in> {STATE_LEFTONLY, STATE_MOVEDLEFT, STATE_SIMILARLEFT}
      then lg \<noteq> [] \<and> rg = [] \<and> sfirst z = hd lg \<and> slast z = last lg \<and> leftbase z = nr w (hd lg) \<and>
        (sstate z = STATE_MOVEDLEFT \<longrightarrow> (\<exists>p \<in> P. slink (X p) \<in> P \<and> lg = G p))
      else sstate z \<in> {STATE_RIGHTONLY, STATE_MOVEDRIGHT, STATE_SIMILARRIGHT} \<and>
        lg = [] \<and> rg \<noteq> [] \<and> sfirst z = hd rg \<and> slast z = last rg \<and> rightbase z = nr w (hd rg) \<and>
        (sstate z = STATE_MOVEDRIGHT \<longrightarrow> (\<exists>p \<in> P. slink (X p) \<in> P \<and> rg = G p))))"

text \<open>Progress: sections showing \<open>prs\<close> have been added to the composite list, and sections in
  \<open>M\<close> have been marked.\<close>

definition merges :: "wenv \<Rightarrow> ptr set \<Rightarrow> (ptr \<Rightarrow> sect) \<Rightarrow> (ptr \<Rightarrow> ptr list) \<Rightarrow> ptr \<Rightarrow> wd \<Rightarrow> view \<Rightarrow> ptr list \<Rightarrow>
    wd \<Rightarrow> view \<Rightarrow> ptr list \<Rightarrow> ptr set \<Rightarrow> (ptr list \<times> ptr list) list \<Rightarrow> bool" where
  "merges e P X G compo w L cs w' L' cs' M prs \<longleftrightarrow> comp_inv e w' L' compo cs' P X G \<and> sections_only w w' \<and> L' = L(compo \<mapsto> cs') \<and>
     (\<forall>p. p \<in> P \<longrightarrow> p \<notin> M \<longrightarrow> scs w' p = scs w p) \<and> (\<forall>i \<in> set cs. scs w' (cursor i) = scs w (cursor i)) \<and>
     (\<exists>qs zs. cs' = cs @ qs \<and> sects_at w' qs zs \<and> list_all2 (entry X G P w) zs prs)"

lemma merges_refl: "comp_inv e w L compo cs P X G \<Longrightarrow> merges e P X G compo w L cs w L cs {} []"
  by (auto simp: merges_def sections_only_refl comp_inv_def sects_at_def)

lemma merges_trans:
  assumes "merges e P X G compo w L cs w1 L1 cs1 M prs" "merges e P X G compo w1 L1 cs1 w2 L2 cs2 N prs'"
  shows "merges e P X G compo w L cs w2 L2 cs2 (M \<union> N) (prs @ prs')"
proof -
  obtain qs zs where A: "cs1 = cs @ qs" "sects_at w1 qs zs" "list_all2 (entry X G P w) zs prs" using assms(1) by (auto simp: merges_def)
  obtain qs' zs' where B: "cs2 = cs1 @ qs'" "sects_at w2 qs' zs'" "list_all2 (entry X G P w1) zs' prs'" using assms(2) by (auto simp: merges_def)
  have so: "sections_only w w1" "sections_only w1 w2" using assms by (simp_all add: merges_def)
  have en: "entry X G P w1 = entry X G P w" by (intro ext) (simp add: entry_def nr_sections_only [OF so(1)])
  have old: "\<forall>i \<in> set cs1. scs w2 (cursor i) = scs w1 (cursor i)" using assms(2) by (simp add: merges_def)
  have "map (\<lambda>q. scs w2 (cursor q)) qs = map (\<lambda>q. scs w1 (cursor q)) qs"
    by (rule map_cong [OF refl]) (use old A(1) in simp)
  then have "sects_at w2 qs zs" using A(2) by (simp only: sects_at_def)
  then have at: "sects_at w2 (qs @ qs') (zs @ zs')" using B(2) by (simp add: sects_at_def)
  have ent: "list_all2 (entry X G P w) (zs @ zs') (prs @ prs')"
    using A(3) B(3) en by (simp add: list_all2_appendI)
  have cs: "cs2 = cs @ qs @ qs'" using A B by simp
  have L2: "L2 = L(compo \<mapsto> cs2)" using assms by (simp add: merges_def)
  have P: "\<forall>p. p \<in> P \<longrightarrow> p \<notin> M \<union> N \<longrightarrow> scs w2 p = scs w p" using assms by (auto simp: merges_def)
  have C: "\<forall>i \<in> set cs. scs w2 (cursor i) = scs w (cursor i)" using assms(1) old A(1) by (auto simp: merges_def)
  have I: "comp_inv e w2 L2 compo cs2 P X G" using assms(2) unfolding merges_def by blast
  show ?thesis unfolding merges_def using I sections_only_trans [OF so] L2 P C cs at ent by blast
qed

lemma merges_mono: "merges e P X G compo w L cs w' L' cs' M prs \<Longrightarrow> M \<subseteq> N \<Longrightarrow> merges e P X G compo w L cs w' L' cs' N prs"
  unfolding merges_def by blast

text \<open>Marking.\<close>

definition mark :: "ptr set \<Rightarrow> wd \<Rightarrow> wd" where
  "mark M w = w\<lparr>scs := (\<lambda>p. if p \<in> M then map_option (\<lambda>x. x\<lparr>sstate := STATE_MARKED\<rparr>) (scs w p) else scs w p)\<rparr>"

lemma mark_simps [simp]:
  "fls (mark M w) = fls w" "lh (mark M w) = lh w" "texts (mark M w) = texts w" "mark {} w = w"
  "mark M (mark N w) = mark (M \<union> N) w"
  by (auto simp: mark_def comp_def option.map_comp fun_eq_iff intro!: wd.equality)

lemma mark_run: "scs w p \<noteq> None \<Longrightarrow> section_setstate p STATE_MARKED w = Some (mark {p} w)"
  by (auto simp: section_setstate_def wr_sect_def mark_def fun_eq_iff intro!: wd.equality)

lemma mark_sections_only: "sections_only w (mark M w)"
  by (simp add: sections_only_def mark_def)

lemma mark_inv:
  assumes "comp_inv e w L compo cs P X G" "M \<subseteq> P"
  shows "comp_inv e (mark M w) L compo cs P X G"
proof -
  have S: "store e w L" using assms(1) by (simp add: comp_inv_def)
  have "store e (mark M w) L"
    by (rule store_change [OF S mark_sections_only]) (use S in \<open>simp_all add: store_def lines_same_def\<close>)
  moreover have "\<exists>st. scs (mark M w) p = Some (X p\<lparr>sstate := st\<rparr>)" if p: "p \<in> P" for p
  proof -
    obtain st where "scs w p = Some (X p\<lparr>sstate := st\<rparr>)" by (rule comp_invD [OF assms(1) p])
    then have "scs (mark M w) p = Some (X p\<lparr>sstate := (if p \<in> M then STATE_MARKED else st)\<rparr>)" by (simp add: mark_def)
    then show ?thesis by blast
  qed
  then have "sects_ok (mark M w) L P X G"
    using assms(1) unfolding comp_inv_def sects_ok_def sections_only_facts(9) [OF mark_sections_only] by blast
  ultimately show ?thesis using assms(1) by (simp add: comp_inv_def sect_list_def)
qed

text \<open>One new section of the composite list.\<close>

lemma merges_one:
  assumes I: "comp_inv e w L compo cs P X G" and M: "M \<subseteq> P" and q: "q \<notin> cells L" "wf s' (L(compo \<mapsto> cs @ [q]))"
    and z: "entry X G P w z pr"
  shows "merges e P X G compo w L cs (add_sect (mark M w) s' q z) (L(compo \<mapsto> cs @ [q])) (cs @ [q]) M [pr]"
proof -
  let ?w = "add_sect (mark M w) s' q z" and ?L = "L(compo \<mapsto> cs @ [q])"
  have so: "sections_only w ?w" using sections_only_trans [OF mark_sections_only sections_only_add] .
  note F = sections_only_facts [OF so]
  have S: "store e w L" and c: "L compo = Some cs" and sl: "sect_list w cs" and ok: "sects_ok w L P X G"
    and off: "\<forall>i \<in> set cs. cursor i \<notin> P" using I by (simp_all add: comp_inv_def)
  have ls: "lines_same w L ?L" by (rule lines_same_put) (use c sl in simp)
  have S': "store e ?w ?L" by (rule store_change [OF S so _ ls]) (simp add: q(2))
  have qP: "cursor q \<notin> P" using ok q(1) by (auto simp: sects_ok_def)
  have sub: "cells L \<subseteq> cells ?L" unfolding cells_def using c by fastforce
  have ok': "sects_ok ?w ?L P X G"
    unfolding sects_ok_def
  proof (intro ballI conjI)
    fix p assume p: "p \<in> P"
    note B = ok [unfolded sects_ok_def, rule_format, OF p]
    have pq: "p \<noteq> cursor q" using p qP by blast
    show "p \<in> cursor ` cells ?L" using B sub by blast
    show "\<exists>st. scs ?w p = Some (X p\<lparr>sstate := st\<rparr>)" using B pq by (auto simp: mark_def)
    show "G p \<noteq> []" "sfirst (X p) = hd (G p)" "slast (X p) = last (G p)" "slink (X p) = NULL \<or> slink (X p) \<in> P" using B by auto
    obtain as bs where "lines_at w L (as @ G p @ bs)" using B by blast
    then have "lines_at w ?L (as @ G p @ bs)" by (rule lines_same_at [OF ls]) (use B in simp)
    then show "\<exists>as bs. lines_at ?w ?L (as @ G p @ bs)" unfolding F(9) by blast
  qed
  have qcs: "q \<notin> set cs" using q(1) c in_cellsI [of L compo cs q] by auto
  have "sect_list ?w (cs @ [q])" using sl store_fresh [OF S q(1)] by (simp add: sect_list_def)
  then have I': "comp_inv e ?w ?L compo (cs @ [q]) P X G" using S' ok' off qP by (simp add: comp_inv_def)
  have "\<forall>p. p \<in> P \<longrightarrow> p \<notin> M \<longrightarrow> scs ?w p = scs w p" using qP by (auto simp: mark_def)
  moreover have "\<forall>i \<in> set cs. scs ?w (cursor i) = scs w (cursor i)" using off M qcs by (auto simp: mark_def)
  moreover have "sects_at ?w [q] [z]" by (simp add: sects_at_def)
  ultimately show ?thesis using I' so z unfolding merges_def by (intro conjI exI [of _ "[q]"] exI [of _ "[z]"]) auto
qed

subsection \<open>Taking sections\<close>

text \<open>Which section is shown, and which are marked.\<close>

definition taken :: "nat \<Rightarrow> ptr \<Rightarrow> ptr \<Rightarrow> ptr set \<Rightarrow> ptr \<Rightarrow> bool" where
  "taken st lft rgt M sec \<longleftrightarrow> st = STATE_SAME \<and> M = {lft, rgt} - {NULL} \<and> sec = rgt \<or>
     (st = STATE_LEFTONLY \<or> st = STATE_MOVEDLEFT) \<and> M = {lft} \<and> sec = lft \<or>
     (st = STATE_RIGHTONLY \<or> st = STATE_MOVEDRIGHT) \<and> M = {rgt} \<and> sec = rgt"

lemma section_takesection_run:
  assumes I: "comp_inv e w L compo cs P X G" and ga: "ample (lga e)" and t: "taken st lft rgt M sec"
    and P: "sec \<in> P" "lft = NULL \<or> lft \<in> P" "rgt = NULL \<or> rgt \<in> P"
  shows "\<exists>q s'. section_takesection e compo lft rgt st w = Some (add_sect (mark M w) s' q
      ((new_sect (hd (G sec)) (last (G sec)))\<lparr>sstate := st, leftbase := (if lft = NULL then 0 else nr w (hd (G lft))),
        rightbase := (if rgt = NULL then 0 else nr w (hd (G rgt)))\<rparr>)) \<and> q \<notin> cells L \<and> wf s' (L(compo \<mapsto> cs @ [q])) \<and> M \<subseteq> P"
proof -
  have MP: "M \<subseteq> P" using t P by (auto simp: taken_def)
  have I': "comp_inv e (mark M w) L compo cs P X G" by (rule mark_inv [OF I MP])
  have c: "L compo = Some cs" and W: "wf (lh (mark M w)) L" using I' by (simp_all add: comp_inv_def store_def)
  obtain q s' where q: "section_new e (hd (G sec)) (last (G sec)) compo (mark M w) =
      Some (cursor q, add_sect (mark M w) s' q (new_sect (hd (G sec)) (last (G sec))))" "q \<notin> cells L" "wf s' (L(compo \<mapsto> cs @ [q]))"
    using section_new_spec [OF W c ga] by blast
  have qP: "cursor q \<notin> P" using I q(2) by (auto simp: comp_inv_def sects_ok_def)
  have mk: "(if st = STATE_SAME then do {
          w \<leftarrow> (if lft \<noteq> NULL then section_setstate lft STATE_MARKED w else Some w);
          w \<leftarrow> section_setstate rgt STATE_MARKED w;
          Some (rgt, w)
        }
        else if st = STATE_LEFTONLY \<or> st = STATE_MOVEDLEFT then do {
          w \<leftarrow> section_setstate lft STATE_MARKED w;
          Some (lft, w)
        }
        else if st = STATE_RIGHTONLY \<or> st = STATE_MOVEDRIGHT then do {
          w \<leftarrow> section_setstate rgt STATE_MARKED w;
          Some (rgt, w)
        }
        else Some (NULL, w)) = Some (sec, mark M w)"
  proof -
    have m: "section_setstate p STATE_MARKED v = Some (mark {p} v)" if p: "p \<in> P" and v: "v = w \<or> v = mark {lft} w" for p v
    proof -
      obtain z where "scs w p = Some (X p\<lparr>sstate := z\<rparr>)" by (rule comp_invD [OF I p])
      then show ?thesis using v by (intro mark_run) (auto simp: mark_def)
    qed
    have n: "sec \<noteq> NULL" using comp_invD [OF I P(1)] by blast
    show ?thesis using t P m n by (auto simp: taken_def state_defs insert_commute)
  qed
  obtain z where z: "scs (mark M w) sec = Some (X sec\<lparr>sstate := z\<rparr>)" "sfirst (X sec) = hd (G sec)" "slast (X sec) = last (G sec)"
    by (rule comp_invD [OF I' P(1)])
  have base: "(if p \<noteq> NULL then do { s \<leftarrow> ld_sect p (add_sect (mark M w) s' q y); line_getlinenr (sfirst s) (add_sect (mark M w) s' q y) }
      else Some 0) = Some (if p = NULL then 0 else nr w (hd (G p)))" if p: "p = NULL \<or> p \<in> P" for p y
  proof (cases "p = NULL")
    case False
    then have pP: "p \<in> P" using p by simp
    obtain v where v: "scs (mark M w) p = Some (X p\<lparr>sstate := v\<rparr>)" "sfirst (X p) = hd (G p)" "G p \<noteq> []" "\<forall>c \<in> set (G p). fls (mark M w) c \<noteq> None"
      by (rule comp_invD [OF I' pP])
    have "p \<noteq> cursor q" using pP qP by blast
    moreover have "fls w (hd (G p)) \<noteq> None" using v(3,4) by simp
    moreover have "sections_only w (add_sect (mark M w) s' q y)"
      using sections_only_trans [OF mark_sections_only sections_only_add] .
    ultimately show ?thesis using False v(1,2) line_getlinenr_nr by (simp add: ld_sect_def sections_only_facts)
  qed simp
  have "section_takesection e compo lft rgt st w = Some (add_sect (mark M w) s' q
      ((new_sect (hd (G sec)) (last (G sec)))\<lparr>sstate := st, leftbase := (if lft = NULL then 0 else nr w (hd (G lft))),
        rightbase := (if rgt = NULL then 0 else nr w (hd (G rgt)))\<rparr>))"
    unfolding section_takesection_def mk using z q(1) base [OF P(2)] base [OF P(3)] by (simp add: ld_sect_def)
  with q(2,3) MP show ?thesis by blast
qed

text \<open>The ways to take a section.\<close>

lemma take_left:
  assumes I: "comp_inv e w L compo cs P X G" and ga: "ample (lga e)" and l: "l \<in> P" "r = NULL \<or> r \<in> P"
    and st: "st = STATE_LEFTONLY \<or> st = STATE_MOVEDLEFT \<and> slink (X l) \<in> P"
  shows "\<exists>w' L' cs'. section_takesection e compo l r st w = Some w' \<and> merges e P X G compo w L cs w' L' cs' {l} [(G l, [])]"
proof -
  have t: "taken st l r {l} l" using st by (auto simp: taken_def)
  obtain q s' where q: "section_takesection e compo l r st w = Some (add_sect (mark {l} w) s' q
      ((new_sect (hd (G l)) (last (G l)))\<lparr>sstate := st, leftbase := (if l = NULL then 0 else nr w (hd (G l))),
        rightbase := (if r = NULL then 0 else nr w (hd (G r)))\<rparr>))" "q \<notin> cells L" "wf s' (L(compo \<mapsto> cs @ [q]))" "{l} \<subseteq> P"
    using section_takesection_run [OF I ga t l(1) _ l(2)] l(1) by blast
  have "l \<noteq> NULL" "G l \<noteq> []" using comp_invD [OF I l(1)] by blast+
  then have "entry X G P w ((new_sect (hd (G l)) (last (G l)))\<lparr>sstate := st, leftbase := (if l = NULL then 0 else nr w (hd (G l))),
        rightbase := (if r = NULL then 0 else nr w (hd (G r)))\<rparr>) (G l, [])"
    using st l(1) by (auto simp: entry_def new_sect_def state_defs)
  from merges_one [OF I q(4,2,3) this] q(1) show ?thesis by blast
qed

lemma take_right:
  assumes I: "comp_inv e w L compo cs P X G" and ga: "ample (lga e)" and r: "r \<in> P" "l = NULL \<or> l \<in> P"
    and st: "st = STATE_RIGHTONLY \<or> st = STATE_MOVEDRIGHT \<and> slink (X r) \<in> P"
  shows "\<exists>w' L' cs'. section_takesection e compo l r st w = Some w' \<and> merges e P X G compo w L cs w' L' cs' {r} [([], G r)]"
proof -
  have t: "taken st l r {r} r" using st by (auto simp: taken_def)
  obtain q s' where q: "section_takesection e compo l r st w = Some (add_sect (mark {r} w) s' q
      ((new_sect (hd (G r)) (last (G r)))\<lparr>sstate := st, leftbase := (if l = NULL then 0 else nr w (hd (G l))),
        rightbase := (if r = NULL then 0 else nr w (hd (G r)))\<rparr>))" "q \<notin> cells L" "wf s' (L(compo \<mapsto> cs @ [q]))" "{r} \<subseteq> P"
    using section_takesection_run [OF I ga t r(1,2)] r(1) by blast
  have "r \<noteq> NULL" "G r \<noteq> []" using comp_invD [OF I r(1)] by blast+
  then have "entry X G P w ((new_sect (hd (G r)) (last (G r)))\<lparr>sstate := st, leftbase := (if l = NULL then 0 else nr w (hd (G l))),
        rightbase := (if r = NULL then 0 else nr w (hd (G r)))\<rparr>) ([], G r)"
    using st r(1) by (auto simp: entry_def new_sect_def state_defs)
  from merges_one [OF I q(4,2,3) this] q(1) show ?thesis by blast
qed

lemma take_same:
  assumes I: "comp_inv e w L compo cs P X G" and ga: "ample (lga e)" and r: "r \<in> P"
    and l: "l = NULL \<and> sstate (X r) = STATE_SAME \<and> slink (X r) = NULL \<or> l \<in> P \<and> slink (X l) = r"
  shows "\<exists>w' L' cs'. section_takesection e compo l r STATE_SAME w = Some w' \<and>
    merges e P X G compo w L cs w' L' cs' ({l, r} - {NULL}) [(if l = NULL then [] else G l, G r)]"
proof -
  have t: "taken STATE_SAME l r ({l, r} - {NULL}) r" by (auto simp: taken_def)
  obtain q s' where q: "section_takesection e compo l r STATE_SAME w = Some (add_sect (mark ({l, r} - {NULL}) w) s' q
      ((new_sect (hd (G r)) (last (G r)))\<lparr>sstate := STATE_SAME, leftbase := (if l = NULL then 0 else nr w (hd (G l))),
        rightbase := (if r = NULL then 0 else nr w (hd (G r)))\<rparr>))" "q \<notin> cells L" "wf s' (L(compo \<mapsto> cs @ [q]))" "{l, r} - {NULL} \<subseteq> P"
    using section_takesection_run [OF I ga t r] r l by blast
  have "r \<noteq> NULL" "G r \<noteq> []" using comp_invD [OF I r] by blast+
  moreover have NP: "NULL \<notin> P" using comp_invD [OF I, of NULL] by blast
  moreover have "G l \<noteq> []" if "l \<noteq> NULL" using comp_invD [OF I, of l] l that by blast
  ultimately have "entry X G P w ((new_sect (hd (G r)) (last (G r)))\<lparr>sstate := STATE_SAME, leftbase := (if l = NULL then 0 else nr w (hd (G l))),
        rightbase := (if r = NULL then 0 else nr w (hd (G r)))\<rparr>) (if l = NULL then [] else G l, G r)"
    using l r NP by (auto simp: entry_def new_sect_def)
  from merges_one [OF I q(4,2,3) this] q(1) show ?thesis by blast
qed

end
