(* ===== verification/Windiff_Stripe_Correct.thy ===== *)
theory Windiff_Stripe_Correct
  imports Windiff_Composite_Correct "HOL-Library.Sublist"
begin

text \<open>
  Two corresponding sections are striped line by line; the loop of \<open>section_makecomposite\<close> ends
  and shows all sections but the ignorable blank ones of the left file.
\<close>

subsection \<open>Striping\<close>

lemma merges_inv: "merges e P X G compo w L cs w' L' cs' M prs \<Longrightarrow> comp_inv e w' L' compo cs' P X G"
  unfolding merges_def by blast

lemma merges_mark:
  assumes "comp_inv e w L compo cs P X G" "M \<subseteq> P"
  shows "merges e P X G compo w L cs (mark M w) L cs M []"
proof -
  have "\<forall>i \<in> set cs. scs (mark M w) (cursor i) = scs w (cursor i)" using assms by (auto simp: comp_inv_def mark_def)
  moreover have "L = L(compo \<mapsto> cs)" using assms(1) by (auto simp: comp_inv_def)
  moreover have "sects_at (mark M w) [] []" by (simp add: sects_at_def)
  moreover have "\<forall>p. p \<in> P \<longrightarrow> p \<notin> M \<longrightarrow> scs (mark M w) p = scs w p" by (simp add: mark_def)
  ultimately show ?thesis using mark_inv [OF assms] mark_sections_only unfolding merges_def
    by (intro conjI exI [of _ "[]"]) simp_all
qed

definition shown_line :: "wd \<Rightarrow> ptr \<Rightarrow> bool" where
  "shown_line w c \<longleftrightarrow> c = NULL \<or> fls w c \<noteq> None"

lemma shown_line_nr: "shown_line w c \<Longrightarrow> sections_only w v \<Longrightarrow> line_getlinenr c v = Some (nr w c)"
  by (auto simp: shown_line_def sections_only_facts line_getlinenr_nr) (simp_all add: line_getlinenr_def nr_def)

lemma put_section_run:
  assumes I: "comp_inv e w L compo cs P X G" and ga: "ample (lga e)" and sh: "shown_line w lline" "shown_line w rline"
    and en: "entry X G P w ((new_sect a b)\<lparr>sstate := st, leftbase := nr w lline, rightbase := nr w rline\<rparr>) pr"
  shows "\<exists>w' L' cs'. put_section e compo a b st lline rline w = Some w' \<and> merges e P X G compo w L cs w' L' cs' {} [pr]"
proof -
  have c: "L compo = Some cs" and W: "wf (lh w) L" using I by (simp_all add: comp_inv_def store_def)
  obtain q s' where q: "section_new e a b compo w = Some (cursor q, add_sect w s' q (new_sect a b))" "q \<notin> cells L"
      "wf s' (L(compo \<mapsto> cs @ [q]))"
    using section_new_spec [OF W c ga] by blast
  have b: "line_getlinenr lline (add_sect w s' q y) = Some (nr w lline)" "line_getlinenr rline (add_sect w s' q y) = Some (nr w rline)" for y
    using shown_line_nr sh sections_only_add by blast+
  have "put_section e compo a b st lline rline w =
      Some (add_sect w s' q ((new_sect a b)\<lparr>sstate := st, leftbase := nr w lline, rightbase := nr w rline\<rparr>))"
    using q(1) b by (simp add: put_section_def)
  with merges_one [OF I _ q(2,3) en, of "{}"] show ?thesis by auto
qed

text \<open>The lines of a section, from one of them on.\<close>

lemma from_line:
  assumes I: "comp_inv e w L compo cs P X G" and p: "p \<in> P" and G: "G p = ds @ c # us"
  shows "shown_line w c" "c \<noteq> NULL" "fls w c \<noteq> None" "c = last (G p) \<longleftrightarrow> us = []" "us \<noteq> [] \<Longrightarrow> Next c w = Some (hd us, w)"
proof -
  have S: "store e w L" and "\<exists>as bs. lines_at w L (as @ G p @ bs)" using I p by (auto simp: comp_inv_def sects_ok_def)
  then obtain as bs where "lines_at w L (as @ G p @ bs)" by blast
  then have at: "lines_at w L ((as @ ds) @ c # us @ bs)" using G by simp
  note F = lines_atD [OF S at]
  show "fls w c \<noteq> None" "c \<noteq> NULL" by (rule F)+
  then show "shown_line w c" by (simp add: shown_line_def)
  have "c \<notin> set us" using lined_distinct [OF F(3)] by simp
  then show "c = last (G p) \<longleftrightarrow> us = []" using G last_in_set [of us] by auto
  show "us \<noteq> [] \<Longrightarrow> Next c w = Some (hd us, w)" using line_facts(3) [OF S at] by (cases us) simp_all
qed

lemma ld_sect_P:
  assumes "comp_inv e w L compo cs P X G" "p \<in> P"
  obtains st where "ld_sect p w = Some (X p\<lparr>sstate := st\<rparr>)"
  by (rule comp_invD [OF assms]) (simp add: ld_sect_def)

lemma nr_NULL [simp]: "nr w NULL = 0"
  by (simp add: nr_def line_getlinenr_def)

text \<open>The remaining lines of one of the sections are put as a whole.\<close>

lemma put_left_rest:
  assumes I: "comp_inv e w L compo cs P X G" and ga: "ample (lga e)" and p: "p \<in> P" and G: "G p = ds @ c # us"
  shows "\<exists>w' L' cs'. put_section e compo c (slast (X p)) STATE_LEFTONLY c NULL w = Some w' \<and>
    merges e P X G compo w L cs w' L' cs' {} [(c # us, [])]"
proof -
  have "slast (X p) = last (c # us)" by (rule comp_invD [OF I p]) (simp add: G)
  then have "entry X G P w ((new_sect c (slast (X p)))\<lparr>sstate := STATE_LEFTONLY, leftbase := nr w c, rightbase := nr w NULL\<rparr>) (c # us, [])"
    by (simp add: entry_def new_sect_def state_defs)
  from put_section_run [OF I ga from_line(1) [OF I p G] _ this] show ?thesis by (simp add: shown_line_def)
qed

lemma put_right_rest:
  assumes I: "comp_inv e w L compo cs P X G" and ga: "ample (lga e)" and p: "p \<in> P" and G: "G p = ds @ c # us"
  shows "\<exists>w' L' cs'. put_section e compo c (slast (X p)) STATE_RIGHTONLY NULL c w = Some w' \<and>
    merges e P X G compo w L cs w' L' cs' {} [([], c # us)]"
proof -
  have "slast (X p) = last (c # us)" by (rule comp_invD [OF I p]) (simp add: G)
  then have "entry X G P w ((new_sect c (slast (X p)))\<lparr>sstate := STATE_RIGHTONLY, leftbase := nr w NULL, rightbase := nr w c\<rparr>) ([], c # us)"
    by (simp add: entry_def new_sect_def state_defs)
  from put_section_run [OF I ga _ from_line(1) [OF I p G] this] show ?thesis by (simp add: shown_line_def)
qed

lemma put_similar:
  assumes I: "comp_inv e w L compo cs P X G" and ga: "ample (lga e)" and sh: "shown_line w c" "shown_line w d"
  shows "\<exists>w1 w' L' cs'. put_section e compo c c STATE_SIMILARLEFT c d w = Some w1 \<and> put_section e compo d d STATE_SIMILARRIGHT c d w1 = Some w' \<and>
    merges e P X G compo w L cs w' L' cs' {} [([c], []), ([], [d])]"
proof -
  have "entry X G P v ((new_sect c c)\<lparr>sstate := STATE_SIMILARLEFT, leftbase := nr v c, rightbase := nr v d\<rparr>) ([c], [])" for v
    by (simp add: entry_def new_sect_def state_defs)
  from put_section_run [OF I ga sh this] obtain w1 L1 cs1 where
    1: "put_section e compo c c STATE_SIMILARLEFT c d w = Some w1" "merges e P X G compo w L cs w1 L1 cs1 {} [([c], [])]" by blast
  have "sections_only w w1" using 1(2) by (simp add: merges_def)
  then have sh': "shown_line w1 c" "shown_line w1 d" using sh by (simp_all add: shown_line_def sections_only_facts)
  have "entry X G P v ((new_sect d d)\<lparr>sstate := STATE_SIMILARRIGHT, leftbase := nr v c, rightbase := nr v d\<rparr>) ([], [d])" for v
    by (simp add: entry_def new_sect_def state_defs)
  from put_section_run [OF merges_inv [OF 1(2)] ga sh' this] obtain w2 L2 cs2 where
    2: "put_section e compo d d STATE_SIMILARRIGHT c d w1 = Some w2" "merges e P X G compo w1 L1 cs1 w2 L2 cs2 {} [([], [d])]" by blast
  have "merges e P X G compo w L cs w2 L2 cs2 {} [([c], []), ([], [d])]" using merges_trans [OF 1(2) 2(2)] by simp
  with 1(1) 2(1) show ?thesis by blast
qed

text \<open>The cursor into a section with the lines \<open>us\<close> left: the section, or NULL when none is left.\<close>

definition onto :: "ptr \<Rightarrow> ptr list \<Rightarrow> ptr \<Rightarrow> ptr \<Rightarrow> bool" where
  "onto p us sec c \<longleftrightarrow> sec = (if us = [] then NULL else p) \<and> (us \<noteq> [] \<longrightarrow> c = hd us)"

lemma onto_step:
  assumes I: "comp_inv e w L compo cs P X G" and p: "p \<in> P" and G: "G p = ds @ c # us"
  shows "\<exists>s sec c'. ld_sect p w = Some s \<and>
    (if c = slast s then Some (NULL, c, w) else do { (d, w) \<leftarrow> Next c w; Some (p, d, w) }) = Some (sec, c', w) \<and> onto p us sec c'"
proof -
  obtain st where s: "ld_sect p w = Some (X p\<lparr>sstate := st\<rparr>)" by (rule ld_sect_P [OF I p])
  have l: "slast (X p) = last (G p)" by (rule comp_invD [OF I p])
  show ?thesis using s l from_line(4,5) [OF I p G] by (cases "us = []") (auto simp: onto_def)
qed

lemma LinesMatch_P:
  assumes I: "comp_inv e w L compo cs P X G" and l: "l \<in> P" "G l = ds @ c # us" and r: "r \<in> P" "G r = ds' @ d # vs"
  shows "LinesMatch c d w = Some (similar (line_text w c) (line_text w d))"
  by (rule LinesMatch_spec [of e]) (use I from_line(3) [OF I l] from_line(3) [OF I r] in \<open>simp_all add: comp_inv_def store_def\<close>)

text \<open>The loop ends with one of the sections used up.\<close>

definition striped :: "ptr list \<Rightarrow> ptr list \<Rightarrow> (ptr list \<times> ptr list) list \<Rightarrow> ptr list \<Rightarrow> ptr list \<Rightarrow> bool" where
  "striped us vs prs us' vs' \<longleftrightarrow> concat (map fst prs) @ us' = us \<and> concat (map snd prs) @ vs' = vs"

lemma stripe_loop_spec:
  assumes ga: "ample (lga e)" and P: "l \<in> P" "r \<in> P" and I: "comp_inv e w L compo cs P X G"
    and G: "G l = ds @ us" "G r = ds' @ vs" and at: "onto l us lft c" "onto r vs rgt d"
  shows "\<exists>lft' rgt' c' d' w' L' cs' prs us' vs'. stripe_loop e compo lft rgt c d w = Some (lft', rgt', c', d', w') \<and>
    merges e P X G compo w L cs w' L' cs' {} prs \<and> striped us vs prs us' vs' \<and> onto l us' lft' c' \<and> onto r vs' rgt' d'"
  using I G at
proof (induction us arbitrary: w L cs ds ds' vs lft rgt c d)
  case Nil
  then have "stripe_loop e compo lft rgt c d w = Some (lft, rgt, c, d, w)" by (simp add: stripe_loop.simps onto_def)
  then show ?case using Nil merges_refl [OF Nil.prems(1)] unfolding striped_def by fastforce
next
  case (Cons a us)
  note I = Cons.prems(1)
  have c: "c = a" "lft = l" using Cons.prems(4) by (simp_all add: onto_def)
  have l: "l \<noteq> NULL" using comp_invD [OF I P(1)] by blast
  show ?case
  proof (cases vs)
    case Nil
    then have "stripe_loop e compo lft rgt c d w = Some (lft, rgt, c, d, w)" using Cons.prems(5) by (simp add: stripe_loop.simps onto_def)
    then show ?thesis using Cons.prems merges_refl [OF I] unfolding striped_def by fastforce
  next
    case (Cons b vs)
    have d: "d = b" "rgt = r" using Cons.prems(5) Cons by (simp_all add: onto_def)
    have r: "r \<noteq> NULL" using comp_invD [OF I P(2)] by blast
    have Gl: "G l = ds @ a # us" and Gr: "G r = ds' @ b # vs" using Cons.prems(2,3) Cons by simp_all
    note m = LinesMatch_P [OF I P(1) Gl P(2) Gr]
    show ?thesis
    proof (cases "similar (line_text w a) (line_text w b)")
      case True
      obtain w1 w2 L2 cs2 where 1: "put_section e compo a a STATE_SIMILARLEFT a b w = Some w1"
        "put_section e compo b b STATE_SIMILARRIGHT a b w1 = Some w2" "merges e P X G compo w L cs w2 L2 cs2 {} [([a], []), ([], [b])]"
        using put_similar [OF I ga from_line(1) [OF I P(1) Gl] from_line(1) [OF I P(2) Gr]] by blast
      note I2 = merges_inv [OF 1(3)]
      obtain s sec a' where 2: "ld_sect l w2 = Some s"
        "(if a = slast s then Some (NULL, a, w2) else do { (d, w) \<leftarrow> Next a w2; Some (l, d, w) }) = Some (sec, a', w2)" "onto l us sec a'"
        using onto_step [OF I2 P(1) Gl] by blast
      obtain s' sec' b' where 3: "ld_sect r w2 = Some s'"
        "(if b = slast s' then Some (NULL, b, w2) else do { (d, w) \<leftarrow> Next b w2; Some (r, d, w) }) = Some (sec', b', w2)" "onto r vs sec' b'"
        using onto_step [OF I2 P(2) Gr] by blast
      have run: "stripe_loop e compo lft rgt c d w = stripe_loop e compo sec sec' a' b' w2"
        using l r m True 1(1,2) 2(1) 3(1) by (simp add: stripe_loop.simps [of e compo l] c d 2(2) 3(2))
      have G': "G l = (ds @ [a]) @ us" "G r = (ds' @ [b]) @ vs" using Gl Gr by simp_all
      obtain lft' rgt' c' d' w' L' cs' prs us' vs' where 4: "stripe_loop e compo sec sec' a' b' w2 = Some (lft', rgt', c', d', w')"
        "merges e P X G compo w2 L2 cs2 w' L' cs' {} prs" "striped us vs prs us' vs'" "onto l us' lft' c'" "onto r vs' rgt' d'"
        using Cons.IH [OF I2 G' 2(3) 3(3)] by blast
      have "striped (a # us) (b # vs) ([([a], []), ([], [b])] @ prs) us' vs'" using 4(3) by (simp add: striped_def)
      moreover have "merges e P X G compo w L cs w' L' cs' {} ([([a], []), ([], [b])] @ prs)" using merges_trans [OF 1(3) 4(2)] by simp
      moreover have "stripe_loop e compo lft rgt c d w = Some (lft', rgt', c', d', w')" using run 4(1) by simp
      ultimately show ?thesis unfolding Cons using 4(4,5) by blast
    next
      case False
      obtain sl where 1: "ld_sect l w = Some (X l\<lparr>sstate := sl\<rparr>)" by (rule ld_sect_P [OF I P(1)])
      obtain w1 L1 cs1 where 2: "put_section e compo a (slast (X l)) STATE_LEFTONLY a NULL w = Some w1"
        "merges e P X G compo w L cs w1 L1 cs1 {} [(a # us, [])]" using put_left_rest [OF I ga P(1) Gl] by blast
      note I1 = merges_inv [OF 2(2)]
      obtain sr where 3: "ld_sect r w1 = Some (X r\<lparr>sstate := sr\<rparr>)" by (rule ld_sect_P [OF I1 P(2)])
      obtain w2 L2 cs2 where 4: "put_section e compo b (slast (X r)) STATE_RIGHTONLY NULL b w1 = Some w2"
        "merges e P X G compo w1 L1 cs1 w2 L2 cs2 {} [([], b # vs)]" using put_right_rest [OF I1 ga P(2) Gr] by blast
      have "stripe_loop e compo NULL NULL a b w2 = Some (NULL, NULL, a, b, w2)" by (simp add: stripe_loop.simps)
      then have run: "stripe_loop e compo lft rgt c d w = Some (NULL, NULL, a, b, w2)"
        using l r m False 1 2(1) 3 4(1) by (simp add: stripe_loop.simps [of e compo l] c d)
      have "striped (a # us) (b # vs) ([(a # us, [])] @ [([], b # vs)]) [] []" by (simp add: striped_def)
      moreover have "onto l [] NULL a" "onto r [] NULL b" by (simp_all add: onto_def)
      moreover have "merges e P X G compo w L cs w2 L2 cs2 {} ([(a # us, [])] @ [([], b # vs)])" using merges_trans [OF 2(2) 4(2)] by simp
      ultimately show ?thesis unfolding Cons using run by blast
    qed
  qed
qed

lemma left_left_over:
  assumes I: "comp_inv e w L compo cs P X G" and ga: "ample (lga e)" and p: "p \<in> P" and G: "G p = ds @ us" and at: "onto p us sec c"
  shows "\<exists>w' L' cs'. (if sec \<noteq> NULL then do { s \<leftarrow> ld_sect sec w; put_section e compo c (slast s) STATE_LEFTONLY c NULL w } else Some w) = Some w' \<and>
    merges e P X G compo w L cs w' L' cs' {} (if us = [] then [] else [(us, [])])"
proof (cases us)
  case Nil
  then show ?thesis using at merges_refl [OF I] by (auto simp: onto_def)
next
  case (Cons a as)
  have p0: "p \<noteq> NULL" using comp_invD [OF I p] by blast
  obtain st where s: "ld_sect p w = Some (X p\<lparr>sstate := st\<rparr>)" by (rule ld_sect_P [OF I p])
  have "sec = p" "c = a" using at Cons by (simp_all add: onto_def)
  moreover have "G p = ds @ a # as" using G Cons by simp
  ultimately show ?thesis using put_left_rest [OF I ga p] p0 s Cons by auto
qed

lemma right_left_over:
  assumes I: "comp_inv e w L compo cs P X G" and ga: "ample (lga e)" and p: "p \<in> P" and G: "G p = ds @ us" and at: "onto p us sec c"
  shows "\<exists>w' L' cs'. (if sec \<noteq> NULL then do { s \<leftarrow> ld_sect sec w; put_section e compo c (slast s) STATE_RIGHTONLY NULL c w } else Some w) = Some w' \<and>
    merges e P X G compo w L cs w' L' cs' {} (if us = [] then [] else [([], us)])"
proof (cases us)
  case Nil
  then show ?thesis using at merges_refl [OF I] by (auto simp: onto_def)
next
  case (Cons a as)
  have p0: "p \<noteq> NULL" using comp_invD [OF I p] by blast
  obtain st where s: "ld_sect p w = Some (X p\<lparr>sstate := st\<rparr>)" by (rule ld_sect_P [OF I p])
  have "sec = p" "c = a" using at Cons by (simp_all add: onto_def)
  moreover have "G p = ds @ a # as" using G Cons by simp
  ultimately show ?thesis using put_right_rest [OF I ga p] p0 s Cons by auto
qed

lemma TakeTwoSections_spec:
  assumes ga: "ample (lga e)" and P: "l \<in> P" "r \<in> P" and I: "comp_inv e w L compo cs P X G"
  shows "\<exists>w' L' cs' prs. TakeTwoSections e compo l r w = Some w' \<and> merges e P X G compo w L cs w' L' cs' {l, r} prs \<and>
    concat (map fst prs) = G l \<and> concat (map snd prs) = G r"
proof -
  let ?w = "mark {l, r} w"
  have m: "merges e P X G compo w L cs ?w L cs {l, r} []" by (rule merges_mark [OF I]) (simp add: P)
  note I1 = merges_inv [OF m]
  obtain sl where l: "scs w l = Some (X l\<lparr>sstate := sl\<rparr>)" "sfirst (X l) = hd (G l)" "G l \<noteq> []" by (rule comp_invD [OF I P(1)])
  obtain sr where r: "scs w r = Some (X r\<lparr>sstate := sr\<rparr>)" "sfirst (X r) = hd (G r)" "G r \<noteq> []" by (rule comp_invD [OF I P(2)])
  have marks: "section_setstate l STATE_MARKED w = Some (mark {l} w)" "section_setstate r STATE_MARKED (mark {l} w) = Some ?w"
  proof -
    show "section_setstate l STATE_MARKED w = Some (mark {l} w)" by (rule mark_run) (simp add: l(1))
    have "scs (mark {l} w) r \<noteq> None" using r(1) l(1) by (auto simp: mark_def)
    from mark_run [OF this] show "section_setstate r STATE_MARKED (mark {l} w) = Some ?w" by (simp add: insert_commute)
  qed
  have at: "onto l (G l) l (hd (G l))" "onto r (G r) r (hd (G r))" using l(3) r(3) by (simp_all add: onto_def)
  obtain lft' rgt' c d w1 L1 cs1 prs us vs where 1: "stripe_loop e compo l r (hd (G l)) (hd (G r)) ?w = Some (lft', rgt', c, d, w1)"
    "merges e P X G compo ?w L cs w1 L1 cs1 {} prs" "striped (G l) (G r) prs us vs" "onto l us lft' c" "onto r vs rgt' d"
    using stripe_loop_spec [OF ga P I1 _ _ at, of "[]" "[]"] by auto
  note I2 = merges_inv [OF 1(2)]
  have nn: "l \<noteq> NULL" "r \<noteq> NULL" using comp_invD [OF I P(1)] comp_invD [OF I P(2)] by blast+
  obtain w2 L2 cs2 where 2: "(if lft' \<noteq> NULL then do { s \<leftarrow> ld_sect lft' w1; put_section e compo c (slast s) STATE_LEFTONLY c NULL w1 } else Some w1) = Some w2"
    "merges e P X G compo w1 L1 cs1 w2 L2 cs2 {} (if us = [] then [] else [(us, [])])"
    using left_left_over [OF I2 ga P(1) _ 1(4)] 1(3) unfolding striped_def by metis
  note I3 = merges_inv [OF 2(2)]
  obtain w3 L3 cs3 where 3: "(if rgt' \<noteq> NULL then do { s \<leftarrow> ld_sect rgt' w2; put_section e compo d (slast s) STATE_RIGHTONLY NULL d w2 } else Some w2) = Some w3"
    "merges e P X G compo w2 L2 cs2 w3 L3 cs3 {} (if vs = [] then [] else [([], vs)])"
    using right_left_over [OF I3 ga P(2) _ 1(5)] 1(3) unfolding striped_def by metis
  let ?prs = "prs @ (if us = [] then [] else [(us, [])]) @ (if vs = [] then [] else [([], vs)])"
  have "merges e P X G compo w L cs w3 L3 cs3 {l, r} ?prs"
    using merges_trans [OF m merges_trans [OF 1(2) merges_trans [OF 2(2) 3(2)]]] by simp
  moreover have "concat (map fst ?prs) = G l" "concat (map snd ?prs) = G r" using 1(3) by (auto simp: striped_def)
  moreover have "TakeTwoSections e compo l r w = Some w3"
    using l r marks 1(1) 2(1) 3(1) unfolding TakeTwoSections_def by (simp add: ld_sect_def Let_def cong: if_cong)
  ultimately show ?thesis by blast
qed

end
