(* ===== verification/Windiff_Compose_Correct.thy ===== *)
theory Windiff_Compose_Correct
  imports Windiff_Stripe_Correct
begin

text \<open>
  The loop of \<open>section_makecomposite\<close> ends, and the composite list shows all sections of the right
  file and all sections of the left file but the ignorable blank ones, in order.
\<close>

subsection \<open>Lists of sections\<close>

definition hanging :: "view \<Rightarrow> ptr \<Rightarrow> ptr list \<Rightarrow> bool" where
  "hanging L l ps \<longleftrightarrow> (\<exists>its ds. L l = Some its \<and> map cursor its = ds @ ps)"

lemma hanging_Next:
  assumes "wf (lh w) L" "hanging L l (p # ps)"
  shows "Next p w = Some (start ps, w)" "p \<noteq> NULL"
proof -
  obtain its ds where l: "L l = Some its" "map cursor its = ds @ p # ps" using assms(2) by (auto simp: hanging_def)
  then have "lined w (ds @ p # ps)" using assms(1) unfolding lined_def by metis
  then show "Next p w = Some (start ps, w)" "p \<noteq> NULL" by (auto intro: Next_lined dest: lined_nonnull)
qed

lemma hanging_suffix: "hanging L l (as @ ps) \<Longrightarrow> hanging L l ps"
  unfolding hanging_def by (metis append_assoc)

text \<open>\<open>pending\<close>: the sections \<open>ls\<close> of the left and \<open>rs\<close> of the right list remain to be merged.\<close>

definition pending :: "wenv \<Rightarrow> wd \<Rightarrow> view \<Rightarrow> ptr \<Rightarrow> ptr list \<Rightarrow> ptr set \<Rightarrow> (ptr \<Rightarrow> sect) \<Rightarrow> (ptr \<Rightarrow> ptr list) \<Rightarrow>
    ptr \<Rightarrow> ptr \<Rightarrow> ptr list \<Rightarrow> ptr list \<Rightarrow> bool" where
  "pending e w L compo cs P X G sl sr ls rs \<longleftrightarrow> comp_inv e w L compo cs P X G \<and> ample (lga e) \<and> sl \<noteq> compo \<and> sr \<noteq> compo \<and>
     hanging L sl ls \<and> hanging L sr rs \<and> distinct (ls @ rs) \<and> (\<forall>p \<in> set ls \<union> set rs. p \<in> P \<and> scs w p = Some (X p)) \<and>
     (\<forall>p \<in> set rs. sstate (X p) \<in> {STATE_SAME, STATE_RIGHTONLY})"

lemma pendingD:
  assumes "pending e w L compo cs P X G sl sr ls rs"
  shows "comp_inv e w L compo cs P X G" "ample (lga e)"
  using assms by (simp_all add: pending_def)

lemma pending_left:
  assumes "pending e w L compo cs P X G sl sr (l # ls) rs"
  shows "l \<in> P" "l \<noteq> NULL" "ld_sect l w = Some (X l)"
proof -
  show l: "l \<in> P" "ld_sect l w = Some (X l)" using assms by (simp_all add: pending_def ld_sect_def)
  show "l \<noteq> NULL" using comp_invD [OF pendingD(1) [OF assms] l(1)] by blast
qed

lemma pending_right:
  assumes "pending e w L compo cs P X G sl sr ls (r # rs)"
  shows "r \<in> P" "r \<noteq> NULL" "ld_sect r w = Some (X r)" "sstate (X r) = STATE_SAME \<or> sstate (X r) = STATE_RIGHTONLY"
proof -
  show r: "r \<in> P" "ld_sect r w = Some (X r)" "sstate (X r) = STATE_SAME \<or> sstate (X r) = STATE_RIGHTONLY"
    using assms by (simp_all add: pending_def ld_sect_def)
  show "r \<noteq> NULL" using comp_invD [OF pendingD(1) [OF assms] r(1)] by blast
qed

lemma pending_go:
  assumes P: "pending e w L compo cs P X G sl sr (as @ ls) (bs @ rs)" and m: "merges e P X G compo w L cs w' L' cs' (set as \<union> set bs) prs"
  shows "pending e w' L' compo cs' P X G sl sr ls rs"
proof -
  have L': "L' = L(compo \<mapsto> cs')" and keep: "\<forall>p. p \<in> P \<longrightarrow> p \<notin> set as \<union> set bs \<longrightarrow> scs w' p = scs w p" using m by (simp_all add: merges_def)
  have h: "hanging L sl ls" "hanging L sr rs" using P hanging_suffix by (auto simp: pending_def)
  then have h': "hanging L' sl ls" "hanging L' sr rs" using P L' by (simp_all add: pending_def hanging_def)
  have "p \<in> P \<and> scs w' p = Some (X p)" if "p \<in> set ls \<union> set rs" for p
  proof -
    have "p \<notin> set as \<union> set bs" "p \<in> P" "scs w p = Some (X p)" using P that by (auto simp: pending_def)
    then show ?thesis using keep by auto
  qed
  moreover have "distinct (ls @ rs)" using P by (auto simp: pending_def)
  ultimately show ?thesis using P h' merges_inv [OF m] by (simp add: pending_def)
qed

text \<open>\<open>hides X ps ks\<close>: the list \<open>ks\<close> is \<open>ps\<close> without some ignorable blank sections.\<close>

definition hidden :: "sect \<Rightarrow> bool" where
  "hidden s \<longleftrightarrow> sstate s \<noteq> STATE_LEFTONLY \<and> slink s = NULL"

fun hides :: "(ptr \<Rightarrow> sect) \<Rightarrow> ptr list \<Rightarrow> ptr list \<Rightarrow> bool" where
  "hides X [] ks = (ks = [])"
| "hides X (p # ps) ks = (hidden (X p) \<and> hides X ps ks \<or> (\<exists>js. ks = p # js \<and> hides X ps js))"

lemma hides_append: "hides X as js \<Longrightarrow> hides X bs ks \<Longrightarrow> hides X (as @ bs) (js @ ks)"
  by (induction X as js rule: hides.induct) auto

lemma hides_subseq: "hides X ps ks \<Longrightarrow> subseq ks ps \<and> (\<forall>p \<in> set ps. p \<notin> set ks \<longrightarrow> hidden (X p))"
  by (induction X ps ks rule: hides.induct) (auto simp: list_emb_Cons)

subsection \<open>One step\<close>

definition stepped :: "wenv \<Rightarrow> ptr set \<Rightarrow> (ptr \<Rightarrow> sect) \<Rightarrow> (ptr \<Rightarrow> ptr list) \<Rightarrow> ptr \<Rightarrow> wd \<Rightarrow> view \<Rightarrow> ptr list \<Rightarrow>
    ptr list \<Rightarrow> ptr list \<Rightarrow> (ptr \<times> ptr \<times> wd) option \<Rightarrow> bool" where
  "stepped e P X G compo w L cs ls rs res \<longleftrightarrow> (\<exists>as bs ls' rs' w' L' cs' prs ks. ls = as @ ls' \<and> rs = bs @ rs' \<and> (as \<noteq> [] \<or> bs \<noteq> []) \<and>
     res = Some (start ls', start rs', w') \<and> merges e P X G compo w L cs w' L' cs' (set as \<union> set bs) prs \<and>
     hides X as ks \<and> concat (map fst prs) = concat (map G ks) \<and> concat (map snd prs) = concat (map G bs))"

lemma steppedI:
  assumes "merges e P X G compo w L cs w' L' cs' (set as \<union> set bs) prs" "as \<noteq> [] \<or> bs \<noteq> []" "hides X as ks"
    "concat (map fst prs) = concat (map G ks)" "concat (map snd prs) = concat (map G bs)"
  shows "stepped e P X G compo w L cs (as @ ls) (bs @ rs) (Some (start ls, start rs, w'))"
  unfolding stepped_def using assms by blast

lemma pending_Next_left:
  assumes "pending e w L compo cs P X G sl sr (l # ls) rs" "merges e P X G compo w L cs w' L' cs' M prs"
  shows "Next l w' = Some (start ls, w')"
proof (rule hanging_Next)
  show "wf (lh w') L'" using merges_inv [OF assms(2)] by (simp add: comp_inv_def store_def)
  show "hanging L' sl (l # ls)" using assms by (simp add: pending_def merges_def hanging_def)
qed

lemma pending_Next_right:
  assumes "pending e w L compo cs P X G sl sr ls (r # rs)" "merges e P X G compo w L cs w' L' cs' M prs"
  shows "Next r w' = Some (start rs, w')"
proof (rule hanging_Next)
  show "wf (lh w') L'" using merges_inv [OF assms(2)] by (simp add: comp_inv_def store_def)
  show "hanging L' sr (r # rs)" using assms by (simp add: pending_def merges_def hanging_def)
qed

lemma stepped_left:
  assumes P: "pending e w L compo cs P X G sl sr (l # ls) rs"
    and t: "\<exists>w' L' cs'. t = Some w' \<and> merges e P X G compo w L cs w' L' cs' {l} [(G l, [])]"
  shows "stepped e P X G compo w L cs (l # ls) rs (do { w \<leftarrow> t; (l, w) \<leftarrow> Next l w; Some (l, start rs, w) })"
proof -
  obtain w' L' cs' where m: "t = Some w'" "merges e P X G compo w L cs w' L' cs' {l} [(G l, [])]" using t by blast
  then show ?thesis using steppedI [of e P X G compo w L cs w' L' cs' "[l]" "[]" _ "[l]" ls rs] pending_Next_left [OF P m(2)] by simp
qed

lemma stepped_right:
  assumes P: "pending e w L compo cs P X G sl sr ls (r # rs)"
    and t: "\<exists>w' L' cs'. t = Some w' \<and> merges e P X G compo w L cs w' L' cs' {r} [([], G r)]"
  shows "stepped e P X G compo w L cs ls (r # rs) (do { w \<leftarrow> t; (r, w) \<leftarrow> Next r w; Some (start ls, r, w) })"
proof -
  obtain w' L' cs' where m: "t = Some w'" "merges e P X G compo w L cs w' L' cs' {r} [([], G r)]" using t by blast
  then show ?thesis using steppedI [of e P X G compo w L cs w' L' cs' "[]" "[r]" _ "[]" ls rs] pending_Next_right [OF P m(2)] by simp
qed

lemma stepped_both:
  assumes P: "pending e w L compo cs P X G sl sr (l # ls) (r # rs)"
    and m: "merges e P X G compo w L cs w' L' cs' {l, r} prs" "concat (map fst prs) = G l" "concat (map snd prs) = G r"
  shows "stepped e P X G compo w L cs (l # ls) (r # rs) (do { (l, w) \<leftarrow> Next l w'; (r, w) \<leftarrow> Next r w; Some (l, r, w) })"
    and "stepped e P X G compo w L cs (l # ls) (r # rs) (do { (r, w) \<leftarrow> Next r w'; (l, w) \<leftarrow> Next l w; Some (l, r, w) })"
  using steppedI [of e P X G compo w L cs w' L' cs' "[l]" "[r]" prs "[l]" ls rs] m
    insert_commute [of l r "{}"] pending_Next_left [OF P m(1)] pending_Next_right [OF P m(1)] by simp_all

lemma stepped_skip:
  assumes P: "pending e w L compo cs P X G sl sr (l # ls) rs" and h: "hidden (X l)"
  shows "stepped e P X G compo w L cs (l # ls) rs (do { (l, w) \<leftarrow> Next l w; Some (l, start rs, w) })"
proof -
  have m: "merges e P X G compo w L cs w L cs {l} []" using merges_mono [OF merges_refl [OF pendingD(1) [OF P]], of "{l}"] by simp
  show ?thesis using steppedI [of e P X G compo w L cs w L cs "[l]" "[]" "[]" "[]" ls rs] m h pending_Next_left [OF P m] by simp
qed

lemma composite_step_spec:
  assumes P: "pending e w L compo cs P X G sl sr ls rs" and ne: "ls \<noteq> [] \<or> rs \<noteq> []"
  shows "stepped e P X G compo w L cs ls rs (composite_step e compo (start ls) (start rs) w)"
proof (cases ls)
  case Nil
  then obtain r rs' where rs: "rs = r # rs'" using ne by (cases rs) auto
  note P = P [unfolded Nil rs] and I = pendingD [OF P] and R = pending_right [OF P]
  have lk: "slink (X r) = NULL \<or> slink (X r) \<in> P" using comp_invD [OF I(1) R(1)] by blast
  show ?thesis
  proof (cases "slink (X r) = NULL")
    case True
    then show ?thesis using stepped_right [OF P take_right [OF I R(1), of NULL STATE_RIGHTONLY]] R(3)
      by (simp add: Nil rs composite_step_def)
  next
    case False
    then show ?thesis using stepped_right [OF P take_right [OF I R(1) lk, of STATE_MOVEDRIGHT]] R(3) lk
      by (simp add: Nil rs composite_step_def)
  qed
next
  case (Cons l ls')
  note P = P [unfolded Cons] and I = pendingD [OF P] and Lf = pending_left [OF P]
  have ll: "slink (X l) = NULL \<or> slink (X l) \<in> P" using comp_invD [OF I(1) Lf(1)] by blast
  note T = stepped_left [OF P take_left [OF I Lf(1)]]
  show ?thesis
  proof (cases rs)
    case Nil
    show ?thesis
    proof (cases "slink (X l) = NULL")
      case True
      then show ?thesis using T [of NULL STATE_LEFTONLY] Lf by (simp add: Nil Cons composite_step_def)
    next
      case False
      then show ?thesis using T [OF ll, of STATE_MOVEDLEFT] Lf ll by (simp add: Nil Cons composite_step_def)
    qed
  next
    case rs: (Cons r rs')
    note P = P [unfolded rs] and R = pending_right [OF P]
    have rl: "slink (X r) = NULL \<or> slink (X r) \<in> P" using comp_invD [OF I(1) R(1)] by blast
    note U = stepped_right [OF P take_right [OF I R(1)]]
    note T = T [unfolded rs]
    have step: "composite_step e compo (start ls) (start rs) w = composite_step e compo l r w" by (simp add: Cons rs)
    note D = step composite_step_def Cons rs
    show ?thesis
    proof (cases "sstate (X l) = STATE_LEFTONLY")
      case True
      show ?thesis
      proof (cases "scorrespond (X l) = r")
        case corr: True
        obtain w' L' cs' prs where "TakeTwoSections e compo l r w = Some w'" "merges e P X G compo w L cs w' L' cs' {l, r} prs"
          "concat (map fst prs) = G l" "concat (map snd prs) = G r" using TakeTwoSections_spec [OF I(2) Lf(1) R(1) I(1)] by blast
        then show ?thesis using stepped_both(1) [OF P] True corr Lf R by (simp add: D)
      next
        case False
        then show ?thesis using T [of NULL STATE_LEFTONLY] True Lf R by (simp add: D)
      qed
    next
      case nl: False
      show ?thesis
      proof (cases "slink (X l) = NULL")
        case True
        then have "hidden (X l)" using nl by (simp add: hidden_def)
        then show ?thesis using stepped_skip [OF P] nl True Lf R by (simp add: D)
      next
        case ln: False
        then have lP: "slink (X l) \<in> P" using ll by simp
        obtain xl where xl: "ld_sect (slink (X l)) w = Some (X (slink (X l))\<lparr>sstate := xl\<rparr>)" by (rule ld_sect_P [OF I(1) lP])
        have lMoved: "stepped e P X G compo w L cs (l # ls') (r # rs') (do { w \<leftarrow> section_takesection e compo l (slink (X l)) STATE_MOVEDLEFT w;
            (l, w) \<leftarrow> Next l w; Some (l, start (r # rs'), w) })" using T [OF ll, of STATE_MOVEDLEFT] lP by blast
        show ?thesis
        proof (cases "xl = STATE_MARKED")
          case True
          then show ?thesis using lMoved nl ln xl Lf R by (simp add: D)
        next
          case xm: False
          show ?thesis
          proof (cases "slink (X r) = NULL")
            case True
            have "stepped e P X G compo w L cs (l # ls') (r # rs')
              (do { w \<leftarrow> section_takesection e compo NULL r (sstate (X r)) w; (r, w) \<leftarrow> Next r w; Some (l, r, w) })"
            proof (cases "sstate (X r) = STATE_RIGHTONLY")
              case True
              then show ?thesis using U [of NULL STATE_RIGHTONLY] by simp
            next
              case False
              then have st: "sstate (X r) = STATE_SAME" using R(4) by simp
              have "{NULL, r} - {NULL} = {r}" using R(2) by auto
              then show ?thesis using stepped_right [OF P] take_same [OF I R(1), of NULL] st True unfolding st by simp
            qed
            then show ?thesis using True nl ln xl xm Lf R by (simp add: D)
          next
            case rn: False
            then have rP: "slink (X r) \<in> P" using rl by simp
            obtain xr where xr: "ld_sect (slink (X r)) w = Some (X (slink (X r))\<lparr>sstate := xr\<rparr>)" by (rule ld_sect_P [OF I(1) rP])
            have rMoved: "stepped e P X G compo w L cs (l # ls') (r # rs') (do { w \<leftarrow> section_takesection e compo (slink (X r)) r STATE_MOVEDRIGHT w;
                (r, w) \<leftarrow> Next r w; Some (start (l # ls'), r, w) })" using U [OF rl, of STATE_MOVEDRIGHT] rP by blast
            have pre: "composite_step e compo (start ls) (start rs) w =
              (if xr = STATE_MARKED then do { w \<leftarrow> section_takesection e compo (slink (X r)) r STATE_MOVEDRIGHT w; (r, w) \<leftarrow> Next r w; Some (l, r, w) }
               else if slink (X l) = r then do { w \<leftarrow> section_takesection e compo l r STATE_SAME w;
                 (r, w) \<leftarrow> Next r w; (l, w) \<leftarrow> Next l w; Some (l, r, w) }
               else do {
                 a1 \<leftarrow> line_getlinenr (sfirst (X (slink (X r)))) w;
                 a2 \<leftarrow> line_getlinenr (sfirst (X l)) w;
                 b1 \<leftarrow> line_getlinenr (sfirst (X (slink (X l)))) w;
                 b2 \<leftarrow> line_getlinenr (sfirst (X r)) w;
                 if a1 - a2 > b1 - b2
                 then do { w \<leftarrow> section_takesection e compo (slink (X r)) r STATE_MOVEDRIGHT w; (r, w) \<leftarrow> Next r w; Some (l, r, w) }
                 else do { w \<leftarrow> section_takesection e compo l (slink (X l)) STATE_MOVEDLEFT w; (l, w) \<leftarrow> Next l w; Some (l, r, w) } })"
              using rn nl ln xl xm xr Lf R by (simp add: D)
            have nrs: "line_getlinenr (sfirst (X p)) w = Some (nr w (sfirst (X p)))" if "p \<in> P" for p
              by (rule comp_invD [OF I(1) that]) (simp add: line_getlinenr_nr)
            show ?thesis
            proof (cases "xr \<noteq> STATE_MARKED \<and> slink (X l) = r")
              case True
              obtain w' L' cs' where "section_takesection e compo l r STATE_SAME w = Some w'"
                "merges e P X G compo w L cs w' L' cs' ({l, r} - {NULL}) [(if l = NULL then [] else G l, G r)]"
                using take_same [OF I R(1), of l] Lf(1) True by blast
              moreover have "{l, r} - {NULL} = {l, r}" using Lf(2) R(2) by auto
              ultimately show ?thesis using stepped_both(2) [OF P] True Lf(2) unfolding pre by (simp add: Cons rs)
            next
              case False
              then show ?thesis unfolding pre using rMoved lMoved nrs lP rP Lf(1) R(1) by (auto simp: Cons rs)
            qed
          qed
        qed
      qed
    qed
  qed
qed

subsection \<open>The loop\<close>

lemma composite_loop_spec:
  assumes "pending e w L compo cs P X G sl sr ls rs"
  shows "\<exists>w' L' cs' M prs ks. composite_loop e compo (start ls) (start rs) w = Some w' \<and> merges e P X G compo w L cs w' L' cs' M prs \<and>
    hides X ls ks \<and> concat (map fst prs) = concat (map G ks) \<and> concat (map snd prs) = concat (map G rs)"
  using assms
proof (induction "length ls + length rs" arbitrary: w L cs ls rs rule: less_induct)
  case less
  note P = less.prems
  show ?case
  proof (cases "ls = [] \<and> rs = []")
    case True
    then have "composite_loop e compo (start ls) (start rs) w = Some w" by (simp add: composite_loop.simps)
    moreover have "merges e P X G compo w L cs w L cs {} []" using merges_refl pendingD(1) [OF P] by blast
    moreover have "hides X ls []" using True by simp
    ultimately show ?thesis using True
      by (intro exI [of _ w] exI [of _ L] exI [of _ cs] exI [of _ "{}"] exI [of _ "[]"]) simp
  next
    case False
    then have "stepped e P X G compo w L cs ls rs (composite_step e compo (start ls) (start rs) w)" using composite_step_spec [OF P] by blast
    then obtain as bs ls' rs' w1 L1 cs1 prs ks where A: "ls = as @ ls'" "rs = bs @ rs'" "as \<noteq> [] \<or> bs \<noteq> []"
      "composite_step e compo (start ls) (start rs) w = Some (start ls', start rs', w1)"
      "merges e P X G compo w L cs w1 L1 cs1 (set as \<union> set bs) prs" "hides X as ks"
      "concat (map fst prs) = concat (map G ks)" "concat (map snd prs) = concat (map G bs)" unfolding stepped_def by blast
    have P1: "pending e w1 L1 compo cs1 P X G sl sr ls' rs'" by (rule pending_go [OF P [unfolded A(1,2)] A(5)])
    have "length ls' + length rs' < length ls + length rs" using A(1-3) by (cases as; cases bs) auto
    from less.hyps [OF this P1] obtain w' L' cs' M prs' ks' where B: "composite_loop e compo (start ls') (start rs') w1 = Some w'"
      "merges e P X G compo w1 L1 cs1 w' L' cs' M prs'" "hides X ls' ks'"
      "concat (map fst prs') = concat (map G ks')" "concat (map snd prs') = concat (map G rs')" by blast
    have "start ls \<noteq> NULL \<or> start rs \<noteq> NULL"
      using False P pending_left(2) pending_right(2) by (cases ls; cases rs; simp)
    then have "composite_loop e compo (start ls) (start rs) w = Some w'" using A(4) B(1) by (simp add: composite_loop.simps [of e compo "start ls"])
    moreover have "hides X ls (ks @ ks')" using hides_append [OF A(6) B(3)] A(1) by simp
    ultimately show ?thesis using merges_trans [OF A(5) B(2)] A(2,7,8) B(4,5)
      by (intro exI [of _ w'] exI [of _ L'] exI [of _ cs'] exI [of _ "set as \<union> set bs \<union> M"] exI [of _ "prs @ prs'"] exI [of _ "ks @ ks'"]) simp
  qed
qed

text \<open>\<open>ready\<close>: two lists of sections of the two files.\<close>

definition ready :: "wenv \<Rightarrow> wd \<Rightarrow> view \<Rightarrow> (ptr \<Rightarrow> sect) \<Rightarrow> (ptr \<Rightarrow> ptr list) \<Rightarrow> ptr \<Rightarrow> ptr \<Rightarrow> ptr list \<Rightarrow> ptr list \<Rightarrow> bool" where
  "ready e w L X G sl sr ls rs \<longleftrightarrow> store e w L \<and> ample (lga e) \<and> sl \<noteq> sr \<and>
     (\<exists>its. L sl = Some its \<and> map cursor its = ls) \<and> (\<exists>its. L sr = Some its \<and> map cursor its = rs) \<and>
     sects_ok w L (set ls \<union> set rs) X G \<and> (\<forall>p \<in> set ls \<union> set rs. scs w p = Some (X p)) \<and>
     (\<forall>p \<in> set rs. sstate (X p) \<in> {STATE_SAME, STATE_RIGHTONLY})"

lemma apart_lists:
  assumes "wf s L" "L l = Some xs" "L m = Some ys" "l \<noteq> m"
  shows "distinct (map cursor xs @ map cursor ys)"
proof -
  have lk: "links_ok (nxt s) (prv s) (anc s) L" using assms(1) by (simp add: wf_def)
  note R = links_get [OF lk assms(2)]
  have "distinct xs" "distinct ys" using wf_ring [OF assms(1)] assms(2,3) by (auto simp: ring_def)
  moreover have "set xs \<inter> set ys = {}" using R(3) in_cellsI [of "L(l := None)" m ys] assms(3,4) by auto
  ultimately show ?thesis by (auto simp: distinct_map inj_on_def)
qed

lemma section_makecomposite_spec:
  assumes R: "ready e w L X G sl sr ls rs"
  shows "\<exists>compo w' qs zs prs ks. section_makecomposite e sl sr w = Some (compo, w') \<and> sections_only w w' \<and>
    store e w' (L(compo \<mapsto> qs)) \<and> sects_at w' qs zs \<and> list_all2 (entry X G (set ls \<union> set rs) w) zs prs \<and>
    hides X ls ks \<and> concat (map fst prs) = concat (map G ks) \<and> concat (map snd prs) = concat (map G rs) \<and> compo \<notin> cells L"
proof -
  let ?P = "set ls \<union> set rs"
  have S: "store e w L" and ga: "ample (lga e)" and ok: "sects_ok w L ?P X G" using R by (simp_all add: ready_def)
  have W: "wf (lh w) L" using S by (simp add: store_def)
  obtain il ir where il: "L sl = Some il" "map cursor il = ls" and ir: "L sr = Some ir" "map cursor ir = rs" using R by (auto simp: ready_def)
  obtain compo s1 where c: "List_Create (lga e) (lh w) = Some (compo, s1)" "created (lh w) L compo s1"
    using List_Create_ample [OF W ga] by blast
  have new: "compo \<notin> cells L" "wf s1 (L(compo \<mapsto> []))" using c(2) by (simp_all add: created_def)
  let ?L = "L(compo \<mapsto> [])"
  define w1 where "w1 = w\<lparr>lh := s1\<rparr>"
  have so: "sections_only w w1" and scs: "scs w1 = scs w" by (simp_all add: sections_only_def w1_def)
  note F = sections_only_facts [OF so]
  have ls: "lines_same w L ?L" by (rule created_lines_same [OF new(1)])
  have S1: "store e w1 ?L" by (rule store_change [OF S so _ ls]) (simp add: w1_def new(2))
  have ne: "sl \<noteq> compo" "sr \<noteq> compo" using new(1) in_cellsI [of L sl il sl] in_cellsI [of L sr ir sr] il(1) ir(1) by auto
  have none: "L compo = None" using new(1) in_cellsI [of L compo _ compo] by (cases "L compo") auto
  then have sub: "cells L \<subseteq> cells ?L" by (auto simp: cells_put)
  have ok1: "sects_ok w1 ?L ?P X G"
    unfolding sects_ok_def
  proof (intro ballI conjI)
    fix p assume p: "p \<in> ?P"
    note B = ok [unfolded sects_ok_def, rule_format, OF p]
    show "p \<in> cursor ` cells ?L" "\<exists>st. scs w1 p = Some (X p\<lparr>sstate := st\<rparr>)" using B sub unfolding scs by blast+
    show "G p \<noteq> []" "sfirst (X p) = hd (G p)" "slast (X p) = last (G p)" "slink (X p) = NULL \<or> slink (X p) \<in> ?P" using B by auto
    obtain as bs where "lines_at w L (as @ G p @ bs)" using B by blast
    then have "lines_at w ?L (as @ G p @ bs)" by (rule lines_same_at [OF ls]) (use B in simp)
    then show "\<exists>as bs. lines_at w1 ?L (as @ G p @ bs)" unfolding F(9) by blast
  qed
  have I: "comp_inv e w1 ?L compo [] ?P X G" using S1 ok1 by (simp add: comp_inv_def sect_list_def)
  have hang: "hanging ?L sl ls" "hanging ?L sr rs" using il ir ne by (simp_all add: hanging_def)
  have dist: "distinct (ls @ rs)" using apart_lists [OF W il(1) ir(1)] R il(2) ir(2) by (simp add: ready_def)
  have "pending e w1 ?L compo [] ?P X G sl sr ls rs"
    unfolding pending_def using R I ga ne hang dist unfolding ready_def scs by blast
  from composite_loop_spec [OF this] obtain w' L' cs' M prs ks where
    run: "composite_loop e compo (start ls) (start rs) w1 = Some w'" and m: "merges e ?P X G compo w1 ?L [] w' L' cs' M prs" and
    out: "hides X ls ks" "concat (map fst prs) = concat (map G ks)" "concat (map snd prs) = concat (map G rs)" by blast
  have first: "List_First sl s1 = Some (start ls, s1)" "List_First sr s1 = Some (start rs, s1)"
    using List_First_spec [OF new(2), of sl il] List_First_spec [OF new(2), of sr ir] il ir ne by (cases il; cases ir; auto)+
  have "section_makecomposite e sl sr w = Some (compo, w')"
    using c(1) first run by (simp add: section_makecomposite_def on_list_def w1_def)
  moreover have "sections_only w w'" using m sections_only_trans [OF so] by (simp add: merges_def)
  moreover obtain zs where "sects_at w' cs' zs" "list_all2 (entry X G ?P w1) zs prs" using m by (auto simp: merges_def)
  moreover have "entry X G ?P w1 = entry X G ?P w" by (intro ext) (simp add: entry_def nr_sections_only [OF so])
  moreover have "store e w' (L(compo \<mapsto> cs'))" using m by (auto simp: merges_def comp_inv_def)
  ultimately show ?thesis using out new(1) by metis
qed

end
