(* ===== verification/Windiff_Matchlists_Correct.thy ===== *)
theory Windiff_Matchlists_Correct
  imports Windiff_Compose_Correct
begin

text \<open>
  Connecting two lists of sections (\<open>section_matchlists\<close>): it ends; matched sections are linked
  in pairs whose first linked lines are linked to each other; more lines of corresponding sections
  are linked, and the result tells whether any were.
\<close>

subsection \<open>A list of lines and its sections\<close>

text \<open>\<open>row w L sl ls X G cs\<close>: the list \<open>sl\<close> holds the sections at \<open>ls\<close>, which cut the
  list of lines \<open>cs\<close> into the pieces \<open>G p\<close>.\<close>

definition row :: "wd \<Rightarrow> view \<Rightarrow> ptr \<Rightarrow> ptr list \<Rightarrow> (ptr \<Rightarrow> sect) \<Rightarrow> (ptr \<Rightarrow> ptr list) \<Rightarrow> ptr list \<Rightarrow> bool" where
  "row w L sl ls X G cs \<longleftrightarrow> (\<exists>its. L sl = Some its \<and> map cursor its = ls) \<and> lines_at w L cs \<and> concat (map G ls) = cs \<and>
     (\<forall>p \<in> set ls. scs w p = Some (X p) \<and> G p \<noteq> [] \<and> sfirst (X p) = hd (G p) \<and> slast (X p) = last (G p))"

lemma row_lined: "store e w L \<Longrightarrow> row w L sl ls X G cs \<Longrightarrow> lined w ls"
  unfolding row_def lined_def store_def by metis

lemma row_section:
  assumes "row w L sl ls X G cs" "p \<in> set ls"
  shows "ld_sect p w = Some (X p)" "scs w p = Some (X p)" "G p \<noteq> []" "sfirst (X p) = hd (G p)" "slast (X p) = last (G p)"
  using assms by (simp_all add: row_def ld_sect_def)

lemma row_piece:
  assumes "row w L sl ls X G cs" "p \<in> set ls"
  obtains as bs where "cs = as @ G p @ bs" "lines_at w L (as @ G p @ bs)"
proof -
  obtain us vs where "ls = us @ p # vs" using assms(2) by (metis split_list)
  then have "cs = concat (map G us) @ G p @ concat (map G vs)" using assms(1) by (simp add: row_def)
  then show thesis using that assms(1) by (simp add: row_def)
qed

lemma row_within:
  assumes S: "store e w L" and R: "row w L sl ls X G cs" and p: "p \<in> set ls"
  obtains as bs where "within w p as (G p) bs" "set as \<union> set (G p) \<subseteq> set cs"
proof -
  obtain as bs where c: "cs = as @ G p @ bs" "lines_at w L (as @ G p @ bs)" by (rule row_piece [OF R p])
  have "within w p as (G p) bs"
    using row_section [OF R p] lines_at_lined [OF S c(2)] c(2) by (simp add: within_def lines_at_def)
  moreover have "set as \<union> set (G p) \<subseteq> set cs" using c(1) by auto
  ultimately show thesis by (rule that)
qed

lemma row_nonnull:
  assumes "store e w L" "row w L sl ls X G cs"
  shows "NULL \<notin> set ls" "NULL \<notin> set cs" "distinct ls" "distinct cs"
  using row_lined [OF assms] lined_nonnull lined_distinct assms lines_at_lined unfolding row_def by blast+

lemma row_pieces_apart:
  assumes "distinct (concat (map G ls))" "p \<in> set ls" "q \<in> set ls" "c \<in> set (G p)" "c \<in> set (G q)"
  shows "p = q"
proof (rule ccontr)
  assume n: "p \<noteq> q"
  obtain us vs where l: "ls = us @ p # vs" using assms(2) by (metis split_list)
  then have "q \<in> set us \<union> set vs" using n assms(3) by auto
  then show False using assms(1,4,5) l by auto
qed

lemma row_cong:
  assumes "row w L sl ls X G cs" "\<And>p. p \<in> set ls \<Longrightarrow> scs w' p = Some (Y p) \<and> sfirst (Y p) = sfirst (X p) \<and> slast (Y p) = slast (X p)"
    "\<And>c. fls w' c = None \<longleftrightarrow> fls w c = None"
  shows "row w' L sl ls Y G cs"
  using assms by (auto simp: row_def lines_at_def)

text \<open>What \<open>section_makelist\<close> makes is a row.\<close>

lemma zip_row:
  assumes "distinct ps" "list_all2 R xs gs" "length ps = length xs"
  obtains X G where "map X ps = xs" "map G ps = gs" "\<forall>p \<in> set ps. R (X p) (G p)"
proof -
  have len: "length gs = length xs" using assms(2) by (simp add: list_all2_lengthD)
  define X where "X p = the (map_of (zip ps xs) p)" for p
  define G where "G p = the (map_of (zip ps gs) p)" for p
  have X: "X (ps ! i) = xs ! i" if "i < length ps" for i
    using that assms(1,3) by (simp add: X_def map_of_zip_nth)
  have G: "G (ps ! i) = gs ! i" if "i < length ps" for i
    using that assms(1,3) len by (simp add: G_def map_of_zip_nth)
  have "map X ps = xs" "map G ps = gs" using X G assms(3) len by (simp_all add: list_eq_iff_nth_eq)
  moreover have "\<forall>p \<in> set ps. R (X p) (G p)"
    using X G assms(2,3) by (auto simp: in_set_conv_nth list_all2_conv_all_nth)
  ultimately show thesis by (rule that)
qed

lemma makelist_row:
  assumes S: "store e w L" and l: "L linelist = Some its" "line_list w its" and ga: "ample (lga e)"
  shows "\<exists>secs w' qs X G. section_makelist e linelist is_left w = Some (secs, w') \<and> sections_only w w' \<and> secs \<notin> cells L \<and>
    store e w' (L(secs \<mapsto> qs)) \<and> set qs \<inter> cells L = {} \<and> (\<forall>p. p \<notin> cursor ` set qs \<longrightarrow> scs w' p = scs w p) \<and>
    row w' (L(secs \<mapsto> qs)) secs (map cursor qs) X G (map cursor its) \<and>
    (\<forall>p \<in> cursor ` set qs. cut e w (L(secs \<mapsto> qs)) is_left (X p) (G p)) \<and> apart_segs w e (map G (map cursor qs)) \<and>
    all_ended e w L (map G (map cursor qs))"
proof -
  obtain secs w' qs xs gs where M: "section_makelist e linelist is_left w = Some (secs, w')" "sections_only w w'" "secs \<notin> cells L"
    "store e w' (L(secs \<mapsto> qs))" "set qs \<inter> cells L = {}" "\<forall>p. p \<notin> cursor ` set qs \<longrightarrow> scs w' p = scs w p"
    "sects_at w' qs xs" "concat gs = map cursor its" "list_all2 (cut e w (L(secs \<mapsto> qs)) is_left) xs gs" "apart_segs w e gs"
    "all_ended e w L gs" using section_makelist_spec [OF S l ga] by blast
  let ?L = "L(secs \<mapsto> qs)"
  have "lined w' (map cursor qs)" unfolding lined_def using M(4) by (intro exI [of _ ?L] exI [of _ secs] exI [of _ qs]) (simp add: store_def)
  then have d: "distinct (map cursor qs)" by (rule lined_distinct)
  have len: "length (map cursor qs) = length xs" using M(7) by (auto simp: sects_at_def dest: map_eq_imp_length_eq)
  obtain X G where XG: "map X (map cursor qs) = xs" "map G (map cursor qs) = gs" "\<forall>p \<in> set (map cursor qs). cut e w ?L is_left (X p) (G p)"
    by (rule zip_row [OF d M(9) len])
  have at: "map (scs w') (map cursor qs) = map (\<lambda>p. Some (X p)) (map cursor qs)" using M(7) XG(1) [symmetric] by (simp add: sects_at_def comp_def)
  have "L secs = None"
    using M(3) in_cellsI [of L secs _ secs] by (cases "L secs") auto
  then have ls: "lines_same w L ?L" by (intro lines_same_put) simp
  have "linelist \<noteq> secs" using M(3) in_cellsI [of L linelist its linelist] l(1) by auto
  then have "lines_at w' ?L (map cursor its)" using l unfolding lines_at_def sections_only_facts [OF M(2)]
    by (intro conjI exI [of _ linelist] exI [of _ its]) (auto simp: line_list_def)
  then have "row w' ?L secs (map cursor qs) X G (map cursor its)"
    using at XG M(8) by (auto simp: row_def cut_def)
  with M XG show ?thesis by (intro exI [of _ secs] exI [of _ w'] exI [of _ qs] exI [of _ X] exI [of _ G]) simp
qed

subsection \<open>Linking matched sections\<close>

text \<open>The line of a section that decides: the first linked one, or the last one.\<close>

fun first_linked :: "wd \<Rightarrow> ptr list \<Rightarrow> ptr" where
  "first_linked w [] = NULL"
| "first_linked w (c # cs) = (if lk w c \<noteq> NULL \<or> cs = [] then c else first_linked w cs)"

lemma first_linked_in: "g \<noteq> [] \<Longrightarrow> first_linked w g \<in> set g"
  by (induction w g rule: first_linked.induct) auto

lemma FindFirstWithLink_spec:
  assumes S: "store e w L" and "lines_at w L (as @ g @ bs)" "g \<noteq> []"
  shows "FindFirstWithLink (hd g) (last g) w = Some (first_linked w g, w)"
  using assms(2,3)
proof (induction g arbitrary: as)
  case (Cons c g)
  have at: "lines_at w L (as @ c # g @ bs)" using Cons.prems by simp
  note F = line_facts [OF S at]
  have "c \<notin> set g" using lined_distinct [OF lines_atD(3) [OF S at]] by simp
  then have last: "c = last (c # g) \<longleftrightarrow> g = []" using last_in_set [of g] by auto
  show ?case
  proof (cases "lk w c \<noteq> NULL \<or> g = []")
    case True
    then show ?thesis using F(1) last by (auto simp: FindFirstWithLink.simps [of c])
  next
    case False
    then have "Next c w = Some (hd g, w)" using F(3) by (cases g) simp_all
    moreover have "FindFirstWithLink (hd g) (last g) w = Some (first_linked w g, w)"
      by (rule Cons.IH [of "as @ [c]"]) (use at False in simp_all)
    ultimately show ?thesis using False F(1) last by (simp add: FindFirstWithLink.simps [of c])
  qed
qed simp

lemma row_first_linked:
  assumes S: "store e w L" and R: "row w L sl ls X G cs" and p: "p \<in> set ls"
  shows "FindFirstWithLink (sfirst (X p)) (slast (X p)) w = Some (first_linked w (G p), w)"
    "line_getlink (first_linked w (G p)) w = Some (lk w (first_linked w (G p)))" "first_linked w (G p) \<in> set cs"
proof -
  obtain as bs where c: "cs = as @ G p @ bs" "lines_at w L (as @ G p @ bs)" by (rule row_piece [OF R p])
  show "FindFirstWithLink (sfirst (X p)) (slast (X p)) w = Some (first_linked w (G p), w)"
    using FindFirstWithLink_spec [OF S c(2)] row_section [OF R p] by simp
  have fl: "first_linked w (G p) \<in> set (G p)" by (rule first_linked_in [OF row_section(3) [OF R p]])
  then show "first_linked w (G p) \<in> set cs" using c(1) by simp
  have "fls w (first_linked w (G p)) \<noteq> None" using c(2) fl by (auto simp: lines_at_def)
  then show "line_getlink (first_linked w (G p)) w = Some (lk w (first_linked w (G p)))"
    by (rule line_getlink_lk) (use row_nonnull(2) [OF S R] \<open>first_linked w (G p) \<in> set cs\<close> in metis)
qed

text \<open>The section a matched section is linked to: the first whose deciding line is the link of
  its own.\<close>

definition meets :: "wd \<Rightarrow> (ptr \<Rightarrow> sect) \<Rightarrow> (ptr \<Rightarrow> ptr list) \<Rightarrow> ptr \<Rightarrow> ptr \<Rightarrow> bool" where
  "meets w X G p q \<longleftrightarrow> sstate (X p) = STATE_SAME \<and> sstate (X q) = STATE_SAME \<and> lk w (first_linked w (G p)) = first_linked w (G q)"

definition partner :: "wd \<Rightarrow> (ptr \<Rightarrow> sect) \<Rightarrow> (ptr \<Rightarrow> ptr list) \<Rightarrow> ptr list \<Rightarrow> ptr \<Rightarrow> ptr" where
  "partner w X G rs p = start (dropWhile (\<lambda>q. \<not> meets w X G p q) rs)"

lemma find_linked_spec:
  assumes S: "store e w L" and R: "row w L sr (ds @ qs) X G cs" and st: "sstate (X p) = STATE_SAME"
    and k: "line_getlink (first_linked w (G p)) w = Some (lk w (first_linked w (G p)))"
  shows "find_linked (first_linked w (G p)) (start qs) w = Some (partner w X G qs p, w)"
  using R
proof (induction qs arbitrary: ds)
  case Nil
  then show ?case by (simp add: find_linked.simps partner_def)
next
  case (Cons q qs)
  have q: "q \<in> set (ds @ q # qs)" by simp
  have n: "q \<noteq> NULL" using row_nonnull(1) [OF S Cons.prems] by auto
  have nx: "Next q w = Some (start qs, w)" by (rule Next_lined [OF row_lined [OF S Cons.prems]])
  have IH: "find_linked (first_linked w (G p)) (start qs) w = Some (partner w X G qs p, w)" using Cons.IH [of "ds @ [q]"] Cons.prems by simp
  show ?case
    using n nx IH st k row_section(1) [OF Cons.prems q] row_first_linked(1) [OF S Cons.prems q]
    by (cases "sstate (X q) = STATE_SAME"; cases "lk w (first_linked w (G p)) = first_linked w (G q)")
      (auto simp: find_linked.simps [of _ q] partner_def meets_def)
qed

lemma partner_in:
  shows "partner w X G rs p \<noteq> NULL \<Longrightarrow> partner w X G rs p \<in> set rs \<and> meets w X G p (partner w X G rs p)"
    and "q \<in> set rs \<Longrightarrow> meets w X G p q \<Longrightarrow> NULL \<notin> set rs \<Longrightarrow> partner w X G rs p \<noteq> NULL"
  by (induction rs) (auto simp: partner_def)

definition join :: "ptr \<Rightarrow> ptr \<Rightarrow> (ptr \<Rightarrow> sect) \<Rightarrow> ptr \<Rightarrow> sect" where
  "join p q X = (if q = NULL then X else X(p := (X p)\<lparr>slink := q\<rparr>, q := (X q)\<lparr>slink := p\<rparr>))"

lemma join_keeps:
  "sstate (join p q X x) = sstate (X x)" "sfirst (join p q X x) = sfirst (X x)" "slast (join p q X x) = slast (X x)"
  "scorrespond (join p q X x) = scorrespond (X x)"
  by (simp_all add: join_def)

definition joins :: "wd \<Rightarrow> (ptr \<Rightarrow> ptr list) \<Rightarrow> ptr list \<Rightarrow> ptr list \<Rightarrow> (ptr \<Rightarrow> sect) \<Rightarrow> ptr \<Rightarrow> sect" where
  "joins w G rs ps X = fold (\<lambda>p X. join p (if sstate (X p) = STATE_SAME then partner w X G rs p else NULL) X) ps X"

lemma partner_cong: "(\<And>x. sstate (Y x) = sstate (X x)) \<Longrightarrow> lk v = lk w \<Longrightarrow> partner v Y G rs p = partner w X G rs p"
proof -
  assume Y: "\<And>x. sstate (Y x) = sstate (X x)" and k: "lk v = lk w"
  have "first_linked v g = first_linked w g" for g by (induction g) (simp_all add: k)
  then have "meets v Y G = meets w X G" by (simp add: fun_eq_iff meets_def Y k)
  then show ?thesis by (simp add: partner_def)
qed

lemma joins_keeps:
  "sstate (joins w G rs ps X x) = sstate (X x)" "scorrespond (joins w G rs ps X x) = scorrespond (X x)"
  by (induction ps arbitrary: X) (simp_all add: joins_def join_keeps)

lemma joins_cong: "lk v = lk w \<Longrightarrow> joins v G rs ps X = joins w G rs ps X"
proof -
  assume k: "lk v = lk w"
  have "partner v Y G rs p = partner w Y G rs p" for Y p by (rule partner_cong) (simp_all add: k)
  then have "(\<lambda>Y. partner v Y G rs) = (\<lambda>Y. partner w Y G rs)" by (simp add: fun_eq_iff)
  then show ?thesis unfolding joins_def by metis
qed

lemma only_sections: "sections_only w (w\<lparr>scs := s\<rparr>)" "lk (w\<lparr>scs := s\<rparr>) = lk w"
proof -
  show "sections_only w (w\<lparr>scs := s\<rparr>)" unfolding sections_only_def by simp
  show "lk (w\<lparr>scs := s\<rparr>) = lk w" by (simp add: lk_def fun_eq_iff)
qed

lemma link_pass_spec:
  assumes "store e w L" "row w L sl (ds @ ps) X G csl" "row w L sr rs X G csr" "distinct (ds @ ps @ rs)"
  shows "\<exists>s. link_pass sr (start ps) w = Some (w\<lparr>scs := s\<rparr>) \<and> row (w\<lparr>scs := s\<rparr>) L sl (ds @ ps) (joins w G rs ps X) G csl \<and>
    row (w\<lparr>scs := s\<rparr>) L sr rs (joins w G rs ps X) G csr \<and> (\<forall>p. p \<notin> set ps \<union> set rs \<longrightarrow> s p = scs w p)"
  using assms
proof (induction ps arbitrary: w ds X)
  case Nil
  then show ?case by (intro exI [of _ "scs w"]) (simp add: link_pass.simps joins_def)
next
  case (Cons p ps)
  note S = Cons.prems(1) and R1 = Cons.prems(2) and R2 = Cons.prems(3)
  have p: "p \<in> set (ds @ p # ps)" by simp
  have n: "p \<noteq> NULL" using row_nonnull(1) [OF S R1] by auto
  have first: "on_list (List_First sr) w = Some (start rs, w)"
  proof -
    obtain its where "L sr = Some its" "map cursor its = rs" "wf (lh w) L" using R2 S by (auto simp: row_def store_def)
    then show ?thesis using List_First_spec [of "lh w" L sr its] by (cases its) (auto simp: on_list_def)
  qed
  define q where "q = (if sstate (X p) = STATE_SAME then partner w X G rs p else NULL)"
  define Y where "Y = join p q X"
  define w1 where "w1 = w\<lparr>scs := (\<lambda>x. if q \<noteq> NULL \<and> (x = p \<or> x = q) then Some (Y x) else scs w x)\<rparr>"
  have qr: "q \<in> set rs" if "q \<noteq> NULL" using that partner_in(1) by (auto simp: q_def split: if_splits)
  have qp: "q \<noteq> NULL \<Longrightarrow> q \<noteq> p" using qr Cons.prems(4) by auto
  have Yx: "x \<in> set (ds @ p # ps) \<union> set rs \<Longrightarrow> scs w1 x = Some (Y x)" for x
    using row_section(2) [OF R1, of x] row_section(2) [OF R2, of x] by (auto simp: w1_def Y_def join_def)
  have f1: "fls w1 = fls w" by (simp add: w1_def)
  have R1': "row w1 L sl ((ds @ [p]) @ ps) Y G csl"
  proof -
    have "row w1 L sl (ds @ p # ps) Y G csl"
    proof (rule row_cong [OF R1])
      fix x assume "x \<in> set (ds @ p # ps)"
      then have "scs w1 x = Some (Y x)" by (intro Yx) auto
      then show "scs w1 x = Some (Y x) \<and> sfirst (Y x) = sfirst (X x) \<and> slast (Y x) = slast (X x)" by (simp add: Y_def join_keeps)
    qed (simp add: f1)
    then show ?thesis by simp
  qed
  have R2': "row w1 L sr rs Y G csr"
  proof (rule row_cong [OF R2])
    fix x assume "x \<in> set rs"
    then have "scs w1 x = Some (Y x)" by (intro Yx) auto
    then show "scs w1 x = Some (Y x) \<and> sfirst (Y x) = sfirst (X x) \<and> slast (Y x) = slast (X x)" by (simp add: Y_def join_keeps)
  qed (simp add: f1)
  have so: "sections_only w w1" "lk w1 = lk w" "lh w1 = lh w" unfolding w1_def by (rule only_sections)+ simp
  have S1: "store e w1 L" by (rule store_change [OF S so(1)]) (use S so in \<open>simp_all add: store_def lines_same_def\<close>)
  have nx: "Next p w1 = Some (start ps, w1)" using Next_lined [of w1 ds p ps] row_lined [OF S1 R1'] by simp
  have pass: "(if sstate (X p) = STATE_SAME then do {
             (FirstWithLink, w) \<leftarrow> FindFirstWithLink (sfirst (X p)) (slast (X p)) w;
             (sec2, w) \<leftarrow> on_list (List_First sr) w;
             (sec2, w) \<leftarrow> find_linked FirstWithLink sec2 w;
             if sec2 \<noteq> NULL then do {
               w \<leftarrow> wr_sect p (\<lambda>s. s\<lparr>slink := sec2\<rparr>) w;
               wr_sect sec2 (\<lambda>s. s\<lparr>slink := p\<rparr>) w
             } else Some w
           } else Some w) = Some w1"
  proof (cases "sstate (X p) = STATE_SAME")
    case False
    then show ?thesis by (simp add: w1_def q_def)
  next
    case True
    have fl: "find_linked (first_linked w (G p)) (start rs) w = Some (q, w)"
      using find_linked_spec [of e w L sr "[]" rs X G csr p] S R2 True row_first_linked(2) [OF S R1 p] by (simp add: q_def)
    show ?thesis
    proof (cases "q = NULL")
      case q0: True
      then show ?thesis using True fl first row_first_linked(1) [OF S R1 p] by (simp add: w1_def)
    next
      case False
      have "scs w p = Some (X p)" "scs w q = Some (X q)" using row_section(2) [OF R1 p] row_section(2) [OF R2 qr [OF False]] by simp_all
      then have "wr_sect p (\<lambda>s. s\<lparr>slink := q\<rparr>) w = Some (w\<lparr>scs := (scs w)(p \<mapsto> (X p)\<lparr>slink := q\<rparr>)\<rparr>)"
        "wr_sect q (\<lambda>s. s\<lparr>slink := p\<rparr>) (w\<lparr>scs := (scs w)(p \<mapsto> (X p)\<lparr>slink := q\<rparr>)\<rparr>) = Some w1"
        using False qp by (auto simp: wr_sect_def w1_def Y_def join_def fun_eq_iff)
      then show ?thesis using True False fl first row_first_linked(1) [OF S R1 p] by simp
    qed
  qed
  have run: "link_pass sr (start (p # ps)) w = link_pass sr (start ps) w1"
    using n row_section(1) [OF R1 p] nx unfolding start_simps link_pass.simps [of sr p]
    by (simp add: pass split del: if_split)
  obtain s where IH: "link_pass sr (start ps) w1 = Some (w1\<lparr>scs := s\<rparr>)" "row (w1\<lparr>scs := s\<rparr>) L sl ((ds @ [p]) @ ps) (joins w1 G rs ps Y) G csl"
    "row (w1\<lparr>scs := s\<rparr>) L sr rs (joins w1 G rs ps Y) G csr" "\<forall>x. x \<notin> set ps \<union> set rs \<longrightarrow> s x = scs w1 x"
    using Cons.IH [OF S1 R1' R2'] Cons.prems(4) by auto
  have j: "joins w1 G rs ps Y = joins w G rs (p # ps) X" using joins_cong [OF so(2)] by (simp add: joins_def Y_def q_def)
  have v: "w1\<lparr>scs := s\<rparr> = w\<lparr>scs := s\<rparr>" by (simp add: w1_def)
  have "s x = scs w x" if "x \<notin> set (p # ps) \<union> set rs" for x using that IH(4) qr by (auto simp: w1_def)
  then show ?case using run IH(1-3) unfolding j v by (intro exI [of _ s]) simp
qed

text \<open>Joining each section with its partner.\<close>

lemma fold_join_left:
  assumes "distinct ps" "\<forall>p \<in> set ps. m p \<noteq> NULL \<longrightarrow> m p \<notin> set ps" "p \<in> set ps" "m p \<noteq> NULL"
  shows "slink (fold (\<lambda>p. join p (m p)) ps X p) = m p"
proof -
  have other: "fold (\<lambda>p. join p (m p)) qs Y x = Y x" if "x \<notin> set qs" "\<forall>p \<in> set qs. m p \<noteq> NULL \<longrightarrow> m p \<noteq> x" for qs x Y
    using that by (induction qs arbitrary: Y) (auto simp: join_def)
  show ?thesis
    using assms
  proof (induction ps arbitrary: X)
    case (Cons a ps)
    show ?case
    proof (cases "p = a")
      case True
      then have "fold (\<lambda>p. join p (m p)) ps (join a (m a) X) p = join a (m a) X p" using Cons.prems by (intro other) auto
      moreover have "m a \<noteq> a" using Cons.prems(2,4) True by auto
      ultimately show ?thesis using True Cons.prems(4) by (simp add: join_def [of a])
    next
      case False
      then show ?thesis using Cons by auto
    qed
  qed simp
qed

lemma fold_join_right:
  assumes "distinct ps" "q \<notin> set ps" "q \<noteq> NULL" "\<forall>p \<in> set ps. \<forall>p' \<in> set ps. m p = q \<longrightarrow> m p' = q \<longrightarrow> p = p'"
  shows "slink (fold (\<lambda>p. join p (m p)) ps X q) = (if \<exists>p \<in> set ps. m p = q then (THE p. p \<in> set ps \<and> m p = q) else slink (X q))"
proof -
  have other: "fold (\<lambda>p. join p (m p)) ps Y q = Y q" if "q \<notin> set ps" "\<forall>p \<in> set ps. m p \<noteq> q" for ps Y
    using that by (induction ps arbitrary: Y) (auto simp: join_def)
  show ?thesis
    using assms
  proof (induction ps arbitrary: X)
    case (Cons a ps)
    show ?case
    proof (cases "m a = q")
      case True
      then have no: "\<forall>p \<in> set ps. m p \<noteq> q" using Cons.prems(1,4) by fastforce
      then have "fold (\<lambda>p. join p (m p)) ps (join a (m a) X) q = join a (m a) X q" using Cons.prems(2) by (intro other) auto
      moreover have "(THE p. p \<in> set (a # ps) \<and> m p = q) = a" by (rule the_equality) (use True no in auto)
      ultimately show ?thesis using True Cons.prems(3) by (auto simp: join_def [of a])
    next
      case False
      have "join a (m a) X q = X q" using False Cons.prems(2) by (auto simp: join_def)
      moreover have "(THE p. p \<in> set (a # ps) \<and> m p = q) = (THE p. p \<in> set ps \<and> m p = q)" using False by (metis list.set_intros(2) set_ConsD)
      ultimately show ?thesis using Cons False by simp
    qed
  qed simp
qed

lemma joins_fold:
  assumes "\<And>x. sstate (Y x) = sstate (X x)"
  shows "joins w G rs ps Y = fold (\<lambda>p. join p (if sstate (X p) = STATE_SAME then partner w X G rs p else NULL)) ps Y"
  using assms
proof (induction ps arbitrary: Y)
  case (Cons p ps)
  have "partner w Y G rs p = partner w X G rs p" by (rule partner_cong) (simp_all add: Cons.prems)
  moreover from Cons.IH [of "join p q Y" for q]
  have "joins w G rs ps (join p q Y) = fold (\<lambda>p. join p (if sstate (X p) = STATE_SAME then partner w X G rs p else NULL)) ps (join p q Y)" for q
    by (simp add: join_keeps Cons.prems)
  ultimately show ?case using Cons.prems by (simp add: joins_def)
qed (simp add: joins_def)

definition linked_up :: "wd \<Rightarrow> (ptr \<Rightarrow> sect) \<Rightarrow> (ptr \<Rightarrow> sect) \<Rightarrow> (ptr \<Rightarrow> ptr list) \<Rightarrow> ptr list \<Rightarrow> ptr list \<Rightarrow> bool" where
  "linked_up w X Y G ls rs \<longleftrightarrow>
     (\<forall>p \<in> set ls. slink (Y p) \<in> insert NULL (set rs) \<and> (\<forall>q \<in> set rs. slink (Y p) = q \<longleftrightarrow> meets w X G p q)) \<and>
     (\<forall>q \<in> set rs. slink (Y q) \<in> insert NULL (set ls) \<and> (\<forall>p \<in> set ls. slink (Y q) = p \<longleftrightarrow> meets w X G p q))"

lemma joins_linked_up:
  assumes S: "store e w L" and R1: "row w L sl ls X G csl" and R2: "row w L sr rs X G csr" and d: "distinct (ls @ rs)"
    and n: "\<forall>p \<in> set ls \<union> set rs. slink (X p) = NULL"
  shows "linked_up w X (joins w G rs ls X) G ls rs"
proof -
  define m where "m p = (if sstate (X p) = STATE_SAME then partner w X G rs p else NULL)" for p
  have J: "joins w G rs ls X = fold (\<lambda>p. join p (m p)) ls X" unfolding m_def by (rule joins_fold) simp
  have nul: "NULL \<notin> set rs" "NULL \<notin> set csr" "NULL \<notin> set ls" using row_nonnull [OF S R1] row_nonnull [OF S R2] by simp_all
  have fl: "first_linked w (G q) \<in> set (G q)" "q \<in> set rs \<Longrightarrow> first_linked w (G q) \<noteq> NULL" if "q \<in> set ls \<union> set rs" for q
  proof -
    have "G q \<noteq> []" using that row_section(3) [OF R1] row_section(3) [OF R2] by blast
    then show "first_linked w (G q) \<in> set (G q)" by (rule first_linked_in)
    show "q \<in> set rs \<Longrightarrow> first_linked w (G q) \<noteq> NULL" using row_first_linked(3) [OF S R2] nul(2) by metis
  qed
  have uq: "q = q'" if "q \<in> set rs" "q' \<in> set rs" "meets w X G p q" "meets w X G p q'" for p q q'
  proof (rule row_pieces_apart [OF _ that(1,2)])
    show "distinct (concat (map G rs))" using row_nonnull(4) [OF S R2] R2 by (simp add: row_def)
    show "first_linked w (G q) \<in> set (G q)" using fl(1) that(1) by simp
    show "first_linked w (G q) \<in> set (G q')" using fl(1) [of q'] that(2-4) by (simp add: meets_def)
  qed
  have up: "p = p'" if "p \<in> set ls" "p' \<in> set ls" "q \<in> set rs" "meets w X G p q" "meets w X G p' q" for p p' q
  proof (rule row_pieces_apart [OF _ that(1,2)])
    show "distinct (concat (map G ls))" using row_nonnull(4) [OF S R1] R1 by (simp add: row_def)
    have "lk w (first_linked w (G p)) \<noteq> NULL" "lk w (first_linked w (G p)) = lk w (first_linked w (G p'))"
      using that fl(2) [of q] by (simp_all add: meets_def)
    then have "first_linked w (G p) = first_linked w (G p')" using S unfolding store_def lines_ok_def by metis
    then show "first_linked w (G p) \<in> set (G p)" "first_linked w (G p) \<in> set (G p')" using fl(1) [of p] fl(1) [of p'] that(1,2) by simp_all
  qed
  have mq: "m p = q \<longleftrightarrow> meets w X G p q" if "p \<in> set ls" "q \<in> set rs" for p q
  proof
    assume e: "m p = q"
    have "q \<noteq> NULL" using that(2) nul(1) by metis
    then show "meets w X G p q" using e partner_in(1) [of w X G rs p] by (simp add: m_def split: if_splits)
  next
    assume e: "meets w X G p q"
    then have "m p = partner w X G rs p" by (simp add: m_def meets_def)
    moreover have "partner w X G rs p \<noteq> NULL" by (rule partner_in(2) [OF that(2) e nul(1)])
    ultimately show "m p = q" using uq [OF _ that(2) _ e] partner_in(1) by metis
  qed
  have mr: "m p \<in> insert NULL (set rs)" for p using partner_in(1) [of w X G rs p] by (auto simp: m_def)
  have L: "slink (joins w G rs ls X p) = m p" if p: "p \<in> set ls" for p
  proof (cases "m p = NULL")
    case False
    have "m x \<notin> set ls" if "m x \<noteq> NULL" for x using mr [of x] that d by auto
    then show ?thesis unfolding J using d p False by (intro fold_join_left) auto
  next
    case True
    have "slink (fold (\<lambda>p. join p (m p)) qs Y p) = slink (Y p)" if "\<forall>x \<in> set qs. m x \<noteq> p" for qs Y
      using that True by (induction qs arbitrary: Y) (auto simp: join_def)
    then have "slink (joins w G rs ls X p) = slink (X p)" unfolding J using d p mr nul(3) by (metis Int_iff distinct_append empty_iff insertE)
    then show ?thesis using True n p by simp
  qed
  have R: "slink (joins w G rs ls X q) \<in> insert NULL (set ls) \<and> (\<forall>p \<in> set ls. slink (joins w G rs ls X q) = p \<longleftrightarrow> meets w X G p q)"
    if q: "q \<in> set rs" for q
  proof -
    have inj: "\<forall>p \<in> set ls. \<forall>p' \<in> set ls. m p = q \<longrightarrow> m p' = q \<longrightarrow> p = p'" using mq q up by blast
    have F: "slink (joins w G rs ls X q) = (if \<exists>p \<in> set ls. m p = q then (THE p. p \<in> set ls \<and> m p = q) else slink (X q))"
      unfolding J using d q nul inj by (intro fold_join_right) auto
    show ?thesis
    proof (cases "\<exists>p \<in> set ls. m p = q")
      case True
      then obtain p where p: "p \<in> set ls" "m p = q" by blast
      then have "(THE p. p \<in> set ls \<and> m p = q) = p" using inj by (intro the_equality) auto
      then show ?thesis using F True p mq q inj by (metis insertI2)
    next
      case False
      then have "slink (joins w G rs ls X q) = NULL" using F n q by simp
      moreover have "p \<noteq> NULL" if "p \<in> set ls" for p using that nul(3) by metis
      ultimately show ?thesis using False mq q by fastforce
    qed
  qed
  show ?thesis unfolding linked_up_def using L R mr mq by auto
qed

subsection \<open>Corresponding sections\<close>

definition paired :: "wenv \<Rightarrow> wd \<Rightarrow> view \<Rightarrow> ptr \<Rightarrow> ptr \<Rightarrow> ptr list \<Rightarrow> ptr list \<Rightarrow> (ptr \<Rightarrow> sect) \<Rightarrow> (ptr \<Rightarrow> ptr list) \<Rightarrow>
    ptr list \<Rightarrow> ptr list \<Rightarrow> bool" where
  "paired e w L sl sr ls rs X G csl csr \<longleftrightarrow> store e w L \<and> row w L sl ls X G csl \<and> row w L sr rs X G csr \<and> distinct (ls @ rs) \<and>
     (\<forall>p \<in> set ls. slink (X p) \<in> insert NULL (set rs)) \<and> (\<forall>q \<in> set rs. slink (X q) \<in> insert NULL (set ls))"

lemma pairedD:
  assumes "paired e w L sl sr ls rs X G csl csr"
  shows "store e w L" "row w L sl ls X G csl" "row w L sr rs X G csr"
  using assms by (simp_all add: paired_def)

lemma row_neighbours:
  assumes S: "store e w L" and R: "row w L sl ls X G cs" and p: "p \<in> set ls"
  obtains a b where "Prev p w = Some (a, w)" "Next p w = Some (b, w)" "a \<in> insert NULL (set ls)" "b \<in> insert NULL (set ls)"
proof -
  obtain us vs where l: "ls = us @ p # vs" using p by (metis split_list)
  have lined: "lined w (us @ p # vs)" using row_lined [OF S R] l by simp
  have "start (rev us) \<in> insert NULL (set ls)" "start vs \<in> insert NULL (set ls)"
    unfolding l by (cases "rev us" rule: list.exhaust; force simp: start_def) (cases vs; simp)
  then show thesis using that Prev_lined [OF lined] Next_lined [OF lined] by blast
qed

lemma unlinked_run:
  "row w L sl ls X G cs \<Longrightarrow> p \<in> insert NULL (set ls) \<Longrightarrow> \<exists>b. unlinked_sect p w = Some b"
  using row_section(1) by (auto simp: unlinked_sect_def)

lemma getlink_run:
  assumes "paired e w L sl sr ls rs X G csl csr"
  shows "p \<in> insert NULL (set ls) \<Longrightarrow> \<exists>q \<in> insert NULL (set rs). section_getlink p w = Some q"
    and "p \<in> insert NULL (set rs) \<Longrightarrow> \<exists>q. section_getlink p w = Some q"
  using assms row_section(1) [OF pairedD(2) [OF assms]] row_section(1) [OF pairedD(3) [OF assms]]
  by (auto simp: section_getlink_def paired_def)

lemma corresponding_spec:
  assumes P: "paired e w L sl sr ls rs X G csl csr" and p: "p \<in> set ls"
  shows "\<exists>c w'. corresponding sr p w = Some (c, w') \<and> (w' = w \<or> (\<exists>m. w' = WTRACE m w)) \<and>
    (case c of None \<Rightarrow> True | Some q \<Rightarrow> q \<in> insert NULL (set rs))"
proof -
  note S = pairedD(1) [OF P] and R1 = pairedD(2) [OF P] and R2 = pairedD(3) [OF P]
  obtain a b where N: "Prev p w = Some (a, w)" "Next p w = Some (b, w)" "a \<in> insert NULL (set ls)" "b \<in> insert NULL (set ls)"
    by (rule row_neighbours [OF S R1 p])
  obtain ua where ua: "unlinked_sect a w = Some ua" using unlinked_run [OF R1 N(3)] by blast
  obtain ub where ub: "unlinked_sect b w = Some ub" using unlinked_run [OF R1 N(4)] by blast
  obtain oa where oa: "section_getlink a w = Some oa" "oa \<in> insert NULL (set rs)" using getlink_run(1) [OF P N(3)] by blast
  obtain ob where ob: "section_getlink b w = Some ob" "ob \<in> insert NULL (set rs)" using getlink_run(1) [OF P N(4)] by blast
  have side: "\<exists>x y k. Next q w = Some (x, w) \<and> x \<in> insert NULL (set rs) \<and> section_getlink x w = Some k \<and> (x \<noteq> NULL \<longrightarrow> Next x w = Some (y, w))"
    "\<exists>x y k. Prev q w = Some (x, w) \<and> x \<in> insert NULL (set rs) \<and> section_getlink x w = Some k \<and> (x \<noteq> NULL \<longrightarrow> Prev x w = Some (y, w))"
    if q: "q \<in> set rs" for q
  proof -
    obtain c d where n: "Prev q w = Some (c, w)" "Next q w = Some (d, w)" "c \<in> insert NULL (set rs)" "d \<in> insert NULL (set rs)"
      by (rule row_neighbours [OF S R2 q])
    obtain kc kd where k: "section_getlink c w = Some kc" "section_getlink d w = Some kd" using getlink_run(2) [OF P] n(3,4) by blast
    have "\<exists>y. x \<noteq> NULL \<longrightarrow> Next x w = Some (y, w)" "\<exists>y. x \<noteq> NULL \<longrightarrow> Prev x w = Some (y, w)" if x: "x \<in> insert NULL (set rs)" for x
    proof (atomize (full), cases "x = NULL")
      case False
      then have "x \<in> set rs" using x by simp
      from row_neighbours [OF S R2 this] show "(\<exists>y. x \<noteq> NULL \<longrightarrow> Next x w = Some (y, w)) \<and> (\<exists>y. x \<noteq> NULL \<longrightarrow> Prev x w = Some (y, w))" by metis
    qed simp
    then show "\<exists>x y k. Next q w = Some (x, w) \<and> x \<in> insert NULL (set rs) \<and> section_getlink x w = Some k \<and> (x \<noteq> NULL \<longrightarrow> Next x w = Some (y, w))"
      "\<exists>x y k. Prev q w = Some (x, w) \<and> x \<in> insert NULL (set rs) \<and> section_getlink x w = Some k \<and> (x \<noteq> NULL \<longrightarrow> Prev x w = Some (y, w))"
      using n k by blast+
  qed
  have first: "\<exists>x. on_list (List_First sr) w = Some (x, w) \<and> x \<in> insert NULL (set rs)"
  proof -
    obtain its where "L sr = Some its" "map cursor its = rs" "wf (lh w) L" using R2 S by (auto simp: row_def store_def)
    then show ?thesis using List_First_spec [of "lh w" L sr its] by (cases its) (auto simp: on_list_def)
  qed
  have z: "unlinked_sect NULL w = Some False" "section_getlink NULL w = Some NULL" by (simp_all add: unlinked_sect_def section_getlink_def)
  note D = corresponding_def N(1,2) ua ub z
  consider (bad) "ua \<or> ub" | (prev) "\<not> ua" "\<not> ub" "a \<noteq> NULL" | (nxt) "\<not> ua" "\<not> ub" "a = NULL" "b \<noteq> NULL"
    | (only) "\<not> ua" "\<not> ub" "a = NULL" "b = NULL" by blast
  then show ?thesis
  proof cases
    case bad
    then show ?thesis by (cases ua) (auto simp: D)
  next
    case prev
    show ?thesis
    proof (cases "oa = NULL")
      case True
      then show ?thesis using prev oa(1) by (simp add: D)
    next
      case False
      then obtain x y k where x: "Next oa w = Some (x, w)" "x \<in> insert NULL (set rs)" "section_getlink x w = Some k" "x \<noteq> NULL \<longrightarrow> Next x w = Some (y, w)"
        using side(1) oa(2) by blast
      then show ?thesis using prev oa(1) ob(1) False by (cases "x = NULL"; cases "k = NULL") (simp_all add: D)
    qed
  next
    case nxt
    show ?thesis
    proof (cases "ob = NULL")
      case True
      then show ?thesis using nxt ob(1) by (simp add: D)
    next
      case False
      then obtain x y k where x: "Prev ob w = Some (x, w)" "x \<in> insert NULL (set rs)" "section_getlink x w = Some k" "x \<noteq> NULL \<longrightarrow> Prev x w = Some (y, w)"
        using side(2) ob(2) by blast
      then show ?thesis using nxt oa(1) ob(1) False by (cases "x = NULL"; cases "k = NULL") (simp_all add: D)
    qed
  next
    case only
    then show ?thesis using first by (auto simp: D)
  qed
qed

lemma paired_step:
  assumes P: "paired e w L sl sr ls rs X G csl csr" and S: "store e w' L" and f: "\<And>c. fls w' c = None \<longleftrightarrow> fls w c = None"
    and Y: "\<And>p. p \<in> set ls \<union> set rs \<Longrightarrow> scs w' p = Some (Y p) \<and> sfirst (Y p) = sfirst (X p) \<and> slast (Y p) = slast (X p) \<and> slink (Y p) = slink (X p)"
  shows "paired e w' L sl sr ls rs Y G csl csr"
proof -
  have "row w' L sl ls Y G csl" by (rule row_cong [OF pairedD(2) [OF P] _ f]) (use Y in simp)
  moreover have "row w' L sr rs Y G csr" by (rule row_cong [OF pairedD(3) [OF P] _ f]) (use Y in simp)
  ultimately show ?thesis using P S Y by (simp add: paired_def)
qed

lemma paired_sect:
  assumes "paired e w L sl sr ls rs X G csl csr" "p \<in> set ls \<union> set rs"
  shows "scs w p = Some (X p)" "ld_sect p w = Some (X p)" "p \<noteq> NULL"
proof -
  show "scs w p = Some (X p)" "ld_sect p w = Some (X p)"
    using assms(2) row_section [OF pairedD(2) [OF assms(1)]] row_section [OF pairedD(3) [OF assms(1)]] by auto
  show "p \<noteq> NULL" using assms(2) row_nonnull(1) [OF pairedD(1,2) [OF assms(1)]] row_nonnull(1) [OF pairedD(1,3) [OF assms(1)]] by (metis UnE)
qed

lemma store_cong:
  assumes "store e w L" "lines_ok e w'" "lh w' = lh w" "\<And>c. fls w' c = None \<longleftrightarrow> fls w c = None"
  shows "store e w' L"
proof -
  have "line_list w' = line_list w" using assms(4) by (simp add: fun_eq_iff line_list_def)
  then show ?thesis using assms by (simp add: store_def)
qed

text \<open>\<open>touching e S T w w'\<close>: only links between \<open>S\<close> and \<open>T\<close> have been added, besides changes of
  sections, trees and the trace.\<close>

definition touching :: "wenv \<Rightarrow> ptr set \<Rightarrow> ptr set \<Rightarrow> wd \<Rightarrow> wd \<Rightarrow> bool" where
  "touching e S T w w' \<longleftrightarrow> lines_ok e w' \<and> kept (w\<lparr>ts := ts w', scs := scs w', wtrace := wtrace w'\<rparr>) w' \<and> links_added S T w w'"

lemma lk_update [simp]: "lk (w\<lparr>scs := s\<rparr>) = lk w" "lk (w\<lparr>wtrace := t\<rparr>) = lk w" "lk (w\<lparr>lh := h\<rparr>) = lk w"
  by (simp_all add: lk_def fun_eq_iff)

lemma touching_refl: "lines_ok e w \<Longrightarrow> touching e S T w w"
  by (simp add: touching_def links_added_refl)

lemma touching_trans:
  assumes "touching e S T w w1" "touching e S T w1 w2"
  shows "touching e S T w w2"
proof -
  have "links_added S T w w2" using assms links_added_trans unfolding touching_def by blast
  then show ?thesis using assms by (simp add: touching_def kept_def)
qed

lemma touching_matching: "matching e S T w w' \<Longrightarrow> touching e S T w w'"
  by (simp add: touching_def matching_def kept_def)

lemma touching_live:
  assumes "touching e S T w w'"
  shows "fls w' c = None \<longleftrightarrow> fls w c = None" "lh w' = lh w"
  using kept_live [of "w\<lparr>ts := ts w', scs := scs w', wtrace := wtrace w'\<rparr>" w' c] assms by (simp_all add: touching_def kept_def)

lemma touching_changed:
  assumes "touching e S T w w1" "touching e S T w1 w2" "NULL \<notin> S" "NULL \<notin> T"
  shows "lk w2 \<noteq> lk w \<longleftrightarrow> lk w1 \<noteq> lk w \<or> lk w2 \<noteq> lk w1"
  using links_added_changed assms unfolding touching_def by blast

lemma lines_ok_wtrace: "lines_ok e (w\<lparr>scs := s, wtrace := t\<rparr>) = lines_ok e w"
proof -
  have "sections_only (w\<lparr>wtrace := t\<rparr>) (w\<lparr>scs := s, wtrace := t\<rparr>)" by (simp add: sections_only_def)
  from sections_only_facts(8) [OF this] have "lines_ok e (w\<lparr>scs := s, wtrace := t\<rparr>) = lines_ok e (w\<lparr>wtrace := t\<rparr>)" .
  moreover have "line_text (w\<lparr>wtrace := t\<rparr>) = line_text w" by (simp add: fun_eq_iff line_text_def)
  then have "line_key e (w\<lparr>wtrace := t\<rparr>) = line_key e w" by (simp add: fun_eq_iff line_key_def)
  ultimately show ?thesis by (simp add: lines_ok_def line_ok_def)
qed

text \<open>One section of the left list.\<close>

definition tied :: "ptr \<Rightarrow> ptr \<Rightarrow> (ptr \<Rightarrow> sect) \<Rightarrow> ptr \<Rightarrow> sect" where
  "tied p q X = (if q = NULL then X else X(p := (X p)\<lparr>scorrespond := q\<rparr>, q := (X q)\<lparr>scorrespond := p\<rparr>))"

lemma tied_keeps: "tied p q X x = (X x)\<lparr>scorrespond := scorrespond (tied p q X x)\<rparr>"
  by (simp add: tied_def)

lemma tie_run:
  assumes P: "paired e w L sl sr ls rs X G csl csr" and p: "p \<in> set ls" and q: "q \<in> insert NULL (set rs)"
    and E: "env_ok e" and A: "mem_ok e w A"
  shows "\<exists>w'. (do {
      w \<leftarrow> (if q \<noteq> NULL then do {
            w \<leftarrow> wr_sect p (\<lambda>s. s\<lparr>scorrespond := q\<rparr>) w;
            wr_sect q (\<lambda>s. s\<lparr>scorrespond := p\<rparr>) w
          } else Some w);
      (b, w) \<leftarrow> section_match e p q d w;
      Some (bl \<or> b, w) }) = Some (bl \<or> lk w' \<noteq> lk w, w') \<and>
    paired e w' L sl sr ls rs (tied p q X) G csl csr \<and> touching e (set csl) (set csr) w w' \<and> mem_ok e w' A \<and>
    (\<forall>x. x \<notin> set ls \<union> set rs \<longrightarrow> scs w' x = scs w x)"
proof (cases "q = NULL")
  case True
  have "lines_ok e w" using pairedD(1) [OF P] by (simp add: store_def)
  then show ?thesis using True P A by (simp add: section_match_def tied_def touching_refl)
next
  case False
  then have q: "q \<in> set rs" using q by simp
  have pq: "p \<noteq> q" using P p q by (auto simp: paired_def)
  define w1 where "w1 = w\<lparr>scs := (\<lambda>x. if x = p \<or> x = q then Some (tied p q X x) else scs w x)\<rparr>"
  have sc: "scs w p = Some (X p)" "scs w q = Some (X q)" using paired_sect [OF P] p q by simp_all
  have wr: "wr_sect p (\<lambda>s. s\<lparr>scorrespond := q\<rparr>) w = Some (w\<lparr>scs := (scs w)(p \<mapsto> (X p)\<lparr>scorrespond := q\<rparr>)\<rparr>)"
    "wr_sect q (\<lambda>s. s\<lparr>scorrespond := p\<rparr>) (w\<lparr>scs := (scs w)(p \<mapsto> (X p)\<lparr>scorrespond := q\<rparr>)\<rparr>) = Some w1"
    using False sc pq by (auto simp: wr_sect_def w1_def tied_def fun_eq_iff)
  have so: "sections_only w w1" unfolding w1_def by (rule only_sections(1))
  have k1: "lk w1 = lk w" by (simp add: w1_def)
  have S1: "store e w1 L" by (rule store_change [OF pairedD(1) [OF P] so]) (use pairedD(1) [OF P] in \<open>simp_all add: store_def lines_same_def w1_def\<close>)
  have P1: "paired e w1 L sl sr ls rs (tied p q X) G csl csr"
  proof (rule paired_step [OF P S1])
    fix x assume "x \<in> set ls \<union> set rs"
    then have "scs w1 x = Some (tied p q X x)" using paired_sect(1) [OF P] by (simp add: w1_def tied_def)
    then show "scs w1 x = Some (tied p q X x) \<and> sfirst (tied p q X x) = sfirst (X x) \<and> slast (tied p q X x) = slast (X x) \<and>
        slink (tied p q X x) = slink (X x)" by (simp add: tied_def)
  qed (simp add: w1_def)
  have L1: "lines_ok e w1" using S1 by (simp add: store_def)
  have A1: "mem_ok e w1 A" using A by (simp add: mem_ok_def w1_def)
  obtain as1 bs1 where W1: "within w1 p as1 (G p) bs1" "set as1 \<union> set (G p) \<subseteq> set csl" by (rule row_within [OF S1 pairedD(2) [OF P1] p])
  obtain as2 bs2 where W2: "within w1 q as2 (G q) bs2" "set as2 \<union> set (G q) \<subseteq> set csr" by (rule row_within [OF S1 pairedD(3) [OF P1] q])
  have nn: "p \<noteq> NULL" "q \<noteq> NULL" using paired_sect(3) [OF P] p q by simp_all
  obtain w2 where M: "section_match e p q d w1 = Some (lk w2 \<noteq> lk w1, w2)"
    "matching e (set as1 \<union> set (G p)) (set as2 \<union> set (G q)) w1 w2" "mem_ok e w2 A"
    using section_match_spec [OF E L1 W1(1) W2(1) nn A1] by blast
  have T: "touching e (set csl) (set csr) w1 w2"
    using touching_matching [OF M(2)] links_added_mono [OF _ W1(2) W2(2)] unfolding touching_def by blast
  have "touching e (set csl) (set csr) w w1" using L1 by (simp add: touching_def k1 links_added_refl) (simp add: w1_def)
  then have T2: "touching e (set csl) (set csr) w w2" using T by (rule touching_trans)
  have sc2: "scs w2 = scs w1" using M(2) by (simp add: matching_def kept_def)
  have S2: "store e w2 L" by (rule store_cong [OF S1]) (use T touching_live [OF T] in \<open>simp_all add: touching_def\<close>)
  have "paired e w2 L sl sr ls rs (tied p q X) G csl csr"
    by (rule paired_step [OF P1 S2]) (use touching_live [OF T] paired_sect(1) [OF P1] sc2 in simp_all)
  moreover have "\<forall>x. x \<notin> set ls \<union> set rs \<longrightarrow> scs w2 x = scs w x" using sc2 p q by (auto simp: w1_def)
  ultimately show ?thesis using False wr M(1,3) T2 k1 by (intro exI [of _ w2]) simp
qed

lemma traced_step:
  assumes P: "paired e w L sl sr ls rs X G csl csr" and A: "mem_ok e w A" and w': "w' = w \<or> (\<exists>m. w' = WTRACE m w)"
  shows "paired e w' L sl sr ls rs X G csl csr" "touching e S T w w'" "mem_ok e w' A" "lk w' = lk w" "scs w' = scs w"
proof -
  have c: "fls w' = fls w" "scs w' = scs w" "lh w' = lh w" "ts w' = ts w" using w' by (auto simp: WTRACE_def)
  show k: "lk w' = lk w" using w' by (auto simp: WTRACE_def)
  show "scs w' = scs w" by (rule c(2))
  show "mem_ok e w' A" using A by (simp add: mem_ok_def c)
  have L: "lines_ok e w'" using w' pairedD(1) [OF P] lines_ok_wtrace [where w = w and s = "scs w"] by (auto simp: store_def WTRACE_def)
  have S: "store e w' L" by (rule store_cong [OF pairedD(1) [OF P] L]) (simp_all add: c)
  show "paired e w' L sl sr ls rs X G csl csr" by (rule paired_step [OF P S]) (use paired_sect(1) [OF P] c in simp_all)
  show "touching e S T w w'" using w' L k by (auto simp: touching_def links_added_refl kept_def WTRACE_def)
qed

definition same_but_ties :: "(ptr \<Rightarrow> sect) \<Rightarrow> (ptr \<Rightarrow> sect) \<Rightarrow> bool" where
  "same_but_ties X Y \<longleftrightarrow> (\<forall>x. Y x = (X x)\<lparr>scorrespond := scorrespond (Y x)\<rparr>)"

lemma same_but_ties_trans: "same_but_ties X Y \<Longrightarrow> same_but_ties Y Z \<Longrightarrow> same_but_ties X Z"
  unfolding same_but_ties_def by (metis sect.surjective sect.update_convs(5))

lemma same_but_ties_facts: "same_but_ties X Y \<Longrightarrow> sstate (Y x) = sstate (X x) \<and> slink (Y x) = slink (X x)"
  unfolding same_but_ties_def by (metis sect.ext_inject sect.surjective sect.update_convs(5))

lemma correspond_pass_spec:
  assumes "env_ok e" "paired e w L sl sr (ds @ ps) rs X G csl csr" "mem_ok e w A"
  shows "\<exists>w' Y. correspond_pass e bd sr bl (start ps) w = Some (bl \<or> lk w' \<noteq> lk w, w') \<and>
    paired e w' L sl sr (ds @ ps) rs Y G csl csr \<and> same_but_ties X Y \<and> touching e (set csl) (set csr) w w' \<and> mem_ok e w' A \<and>
    (\<forall>x. x \<notin> set (ds @ ps) \<union> set rs \<longrightarrow> scs w' x = scs w x)"
  using assms(2,3)
proof (induction ps arbitrary: w ds X bl)
  case Nil
  have "lines_ok e w" using pairedD(1) [OF Nil.prems(1)] by (simp add: store_def)
  then show ?case using Nil by (intro exI [of _ w] exI [of _ X]) (simp add: correspond_pass.simps touching_refl same_but_ties_def)
next
  case (Cons p ps)
  note P = Cons.prems(1) and A = Cons.prems(2)
  have p: "p \<in> set (ds @ p # ps)" by simp
  have pn: "p \<noteq> NULL" "ld_sect p w = Some (X p)" using paired_sect [OF P] by simp_all
  have nul: "NULL \<notin> set csl" "NULL \<notin> set csr" using row_nonnull(2) [OF pairedD(1,2) [OF P]] row_nonnull(2) [OF pairedD(1,3) [OF P]] by simp_all
  obtain c w0 where c: "(if sstate (X p) = STATE_SAME then Some (None, w) else corresponding sr p w) = Some (c, w0)"
    "w0 = w \<or> (\<exists>m. w0 = WTRACE m w)" "case c of None \<Rightarrow> True | Some q \<Rightarrow> q \<in> insert NULL (set rs)"
    using corresponding_spec [OF P p] by (cases "sstate (X p) = STATE_SAME") auto
  note T0 = traced_step [OF P A c(2)]
  have "\<exists>w1 X1. (case c of
            None \<Rightarrow> Some (bl, w0)
          | Some sec2 \<Rightarrow> do {
              w \<leftarrow> (if sec2 \<noteq> NULL then do {
                    w \<leftarrow> wr_sect p (\<lambda>s. s\<lparr>scorrespond := sec2\<rparr>) w0;
                    wr_sect sec2 (\<lambda>s. s\<lparr>scorrespond := p\<rparr>) w
                  } else Some w0);
              (b, w) \<leftarrow> section_match e p sec2 bd w;
              Some (bl \<or> b, w)
            }) = Some (bl \<or> lk w1 \<noteq> lk w, w1) \<and> paired e w1 L sl sr (ds @ p # ps) rs X1 G csl csr \<and> same_but_ties X X1 \<and>
       touching e (set csl) (set csr) w w1 \<and> mem_ok e w1 A \<and> (\<forall>x. x \<notin> set (ds @ p # ps) \<union> set rs \<longrightarrow> scs w1 x = scs w x)"
  proof (cases c)
    case None
    then show ?thesis using T0 by (intro exI [of _ w0] exI [of _ X]) (simp add: same_but_ties_def)
  next
    case (Some q)
    then have q: "q \<in> insert NULL (set rs)" using c(3) by simp
    obtain w1 where R: "(do {
      w \<leftarrow> (if q \<noteq> NULL then do {
            w \<leftarrow> wr_sect p (\<lambda>s. s\<lparr>scorrespond := q\<rparr>) w0;
            wr_sect q (\<lambda>s. s\<lparr>scorrespond := p\<rparr>) w
          } else Some w0);
      (b, w) \<leftarrow> section_match e p q bd w;
      Some (bl \<or> b, w) }) = Some (bl \<or> lk w1 \<noteq> lk w0, w1)"
      "paired e w1 L sl sr (ds @ p # ps) rs (tied p q X) G csl csr" "touching e (set csl) (set csr) w0 w1" "mem_ok e w1 A"
      "\<forall>x. x \<notin> set (ds @ p # ps) \<union> set rs \<longrightarrow> scs w1 x = scs w0 x" using tie_run [OF T0(1) p q assms(1) T0(3)] by blast
    have "same_but_ties X (tied p q X)" unfolding same_but_ties_def using tied_keeps by blast
    moreover have "touching e (set csl) (set csr) w w1" by (rule touching_trans [OF T0(2) R(3)])
    ultimately show ?thesis using R Some T0(4,5) by (intro exI [of _ w1] exI [of _ "tied p q X"]) simp
  qed
  then obtain w1 X1 where B: "(case c of
            None \<Rightarrow> Some (bl, w0)
          | Some sec2 \<Rightarrow> do {
              w \<leftarrow> (if sec2 \<noteq> NULL then do {
                    w \<leftarrow> wr_sect p (\<lambda>s. s\<lparr>scorrespond := sec2\<rparr>) w0;
                    wr_sect sec2 (\<lambda>s. s\<lparr>scorrespond := p\<rparr>) w
                  } else Some w0);
              (b, w) \<leftarrow> section_match e p sec2 bd w;
              Some (bl \<or> b, w)
            }) = Some (bl \<or> lk w1 \<noteq> lk w, w1)" "paired e w1 L sl sr (ds @ p # ps) rs X1 G csl csr" "same_but_ties X X1"
    "touching e (set csl) (set csr) w w1" "mem_ok e w1 A" "\<forall>x. x \<notin> set (ds @ p # ps) \<union> set rs \<longrightarrow> scs w1 x = scs w x" by blast
  have nx: "Next p w1 = Some (start ps, w1)" by (rule Next_lined [OF row_lined [OF pairedD(1,2) [OF B(2)]]])
  have run: "correspond_pass e bd sr bl (start (p # ps)) w = correspond_pass e bd sr (bl \<or> lk w1 \<noteq> lk w) (start ps) w1"
    using pn nx unfolding start_simps correspond_pass.simps [of e bd sr bl p]
    by (simp only: if_False bind.bind_lunit c(1) B(1) case_prod_conv)
  have P1: "paired e w1 L sl sr ((ds @ [p]) @ ps) rs X1 G csl csr" using B(2) by simp
  obtain w' Y where C: "correspond_pass e bd sr (bl \<or> lk w1 \<noteq> lk w) (start ps) w1 = Some ((bl \<or> lk w1 \<noteq> lk w) \<or> lk w' \<noteq> lk w1, w')"
    "paired e w' L sl sr ((ds @ [p]) @ ps) rs Y G csl csr" "same_but_ties X1 Y" "touching e (set csl) (set csr) w1 w'" "mem_ok e w' A"
    "\<forall>x. x \<notin> set ((ds @ [p]) @ ps) \<union> set rs \<longrightarrow> scs w' x = scs w1 x" using Cons.IH [OF P1 B(5)] by blast
  have "((bl \<or> lk w1 \<noteq> lk w) \<or> lk w' \<noteq> lk w1) = (bl \<or> lk w' \<noteq> lk w)" using touching_changed [OF B(4) C(4) nul] by blast
  then show ?case using run C same_but_ties_trans [OF B(3) C(3)] touching_trans [OF B(4) C(4)] B(6)
    by (intro exI [of _ w'] exI [of _ Y]) simp
qed

lemma section_matchlists_spec:
  assumes E: "env_ok e" and S: "store e w L" and R1: "row w L sl ls X G csl" and R2: "row w L sr rs X G csr" and d: "distinct (ls @ rs)"
    and A: "mem_ok e w A" and n: "\<forall>p \<in> set ls \<union> set rs. slink (X p) = NULL"
  shows "\<exists>w' Y. section_matchlists e sl sr bd w = Some (lk w' \<noteq> lk w, w') \<and> paired e w' L sl sr ls rs Y G csl csr \<and>
    linked_up w X Y G ls rs \<and> (\<forall>x. sstate (Y x) = sstate (X x)) \<and> touching e (set csl) (set csr) w w' \<and> mem_ok e w' A \<and>
    (\<forall>x. x \<notin> set ls \<union> set rs \<longrightarrow> scs w' x = scs w x)"
proof -
  obtain s where K: "link_pass sr (start ls) w = Some (w\<lparr>scs := s\<rparr>)" "row (w\<lparr>scs := s\<rparr>) L sl ls (joins w G rs ls X) G csl"
    "row (w\<lparr>scs := s\<rparr>) L sr rs (joins w G rs ls X) G csr" "\<forall>x. x \<notin> set ls \<union> set rs \<longrightarrow> s x = scs w x"
    using link_pass_spec [of e w L sl "[]" ls X G csl sr rs csr] S R1 R2 d by auto
  let ?w = "w\<lparr>scs := s\<rparr>" and ?X = "joins w G rs ls X"
  have U: "linked_up w X ?X G ls rs" by (rule joins_linked_up [OF S R1 R2 d n])
  have S1: "store e ?w L"
    by (rule store_change [OF S only_sections(1)]) (use S in \<open>simp_all add: store_def lines_same_def\<close>)
  have P: "paired e ?w L sl sr ([] @ ls) rs ?X G csl csr" using S1 K(2,3) U d by (simp add: paired_def linked_up_def)
  have A1: "mem_ok e ?w A" using A by (simp add: mem_ok_def)
  obtain w' Y where C: "correspond_pass e bd sr False (start ls) ?w = Some (False \<or> lk w' \<noteq> lk ?w, w')"
    "paired e w' L sl sr ([] @ ls) rs Y G csl csr" "same_but_ties ?X Y" "touching e (set csl) (set csr) ?w w'" "mem_ok e w' A"
    "\<forall>x. x \<notin> set ([] @ ls) \<union> set rs \<longrightarrow> scs w' x = scs ?w x" using correspond_pass_spec [OF E P A1] by blast
  have f: "on_list (List_First sl) v = Some (start ls, v)" if "wf (lh v) L" for v
  proof -
    obtain its where "L sl = Some its" "map cursor its = ls" using R1 by (auto simp: row_def)
    then show ?thesis using List_First_spec [OF that, of sl its] by (cases its) (auto simp: on_list_def)
  qed
  have "section_matchlists e sl sr bd w = Some (lk w' \<noteq> lk w, w')"
    using f [of w] f [of ?w] S S1 K(1) C(1) by (simp add: section_matchlists_def store_def)
  moreover have "linked_up w X Y G ls rs" using U same_but_ties_facts [OF C(3)] by (simp add: linked_up_def)
  moreover have "sstate (Y x) = sstate (X x)" for x using same_but_ties_facts [OF C(3)] joins_keeps(1) by simp
  moreover have "lines_ok e ?w" using S1 by (simp add: store_def)
  then have "touching e (set csl) (set csr) w ?w" by (simp add: touching_def links_added_refl)
  then have "touching e (set csl) (set csr) w w'" using C(4) by (rule touching_trans)
  ultimately show ?thesis using C(2,5,6) K(4) by (intro exI [of _ w'] exI [of _ Y]) simp
qed

end
