(* ===== verification/Windiff_Properties.thy ===== *)
theory Windiff_Properties
  imports Gutils_Properties Gutils_Checksum Windiff_Matchlists_Correct
begin

text \<open>
  What \<open>utils.c\<close>, \<open>line.c\<close> and \<open>section.c\<close> promise, stated over their models, each
  with an instance on concrete data.
\<close>

subsection \<open>Sample states\<close>

text \<open>A single-byte code page: no lead bytes, and \<open>CharNext\<close> steps one byte.\<close>

definition ascii_env :: "nat \<Rightarrow> bool \<Rightarrow> wenv" where
  "ascii_env h ib = \<lparr>lga = roomy, genv = sample_env, wheap = h, lead = (\<lambda>_. False), charnext = tl, ignore_blanks = ib\<rparr>"

lemma ascii_env_ok: "env_ok (ascii_env h ib)"
  by (simp add: env_ok_def ascii_env_def charnext_ok_def)

definition a_line :: "ptr \<Rightarrow> 32 word \<Rightarrow> fileline" where
  "a_line t n = \<lparr>flags = 0, ltext = t, hash = 0, llink = NULL, linenr = n, pwzText = NULL\<rparr>"

definition a_sect :: "ptr \<Rightarrow> ptr \<Rightarrow> nat \<Rightarrow> sect" where
  "a_sect a b st = \<lparr>sfirst = a, slast = b, bDiscard = True, slink = NULL, scorrespond = NULL, sstate = st, leftbase = 1, rightbase = 1\<rparr>"

text \<open>A left file with the lines ``a'', ``b'' and a right file with the line `` b''.\<close>

definition two_files :: "unit lheap \<Rightarrow> gheap \<Rightarrow> ptr \<Rightarrow> ptr \<Rightarrow> ptr \<Rightarrow> wd" where
  "two_files s g p q r = \<lparr>lh = s, ts = \<lparr>gm = g, troots = Map.empty, titems = Map.empty, tblocks = Map.empty, tmsgs = []\<rparr>,
     fls = [p \<mapsto> a_line 1 1, q \<mapsto> a_line 2 2, r \<mapsto> a_line 3 1],
     scs = [1 \<mapsto> a_sect p q STATE_LEFTONLY, 2 \<mapsto> a_sect r r STATE_RIGHTONLY],
     texts = [1 \<mapsto> [97, 10, 0], 2 \<mapsto> [98, 10, 0], 3 \<mapsto> [32, 98, 10, 0]], wtexts = Map.empty, wtrace = []\<rparr>"

lemma sample_store:
  "\<exists>w h A L a b p q r. store (ascii_env h ib) w L \<and> mem_ok (ascii_env h ib) w A \<and> L a = Some [p, q] \<and> L b = Some [r] \<and> a \<noteq> b \<and>
     line_list w [p, q] \<and> line_list w [r] \<and> within w 1 [] (map cursor [p, q]) [] \<and> within w 2 [] (map cursor [r]) [] \<and>
     distinct (map cursor [p, q, r]) \<and> line_text w (cursor p) = [97, 10] \<and> line_text w (cursor q) = [98, 10] \<and>
     line_text w (cursor r) = [32, 98, 10] \<and> lk w = (\<lambda>_. NULL)"
proof -
  obtain s :: "unit lheap" and L a b p q r where S: "wf s L" "L a = Some [p, q]" "L b = Some [r]" "a \<noteq> b"
    using sample_lists by blast
  obtain h g where g: "gm_sound gm_room ignore h g Map.empty" using sample_gmem by blast
  let ?p = "cursor p" and ?q = "cursor q" and ?r = "cursor r"
  let ?w = "two_files s g ?p ?q ?r" and ?e = "ascii_env h ib"
  have "distinct [p, q]" using wf_ring [OF S(1,2)] by (simp add: ring_def)
  moreover have "set (a # [p, q]) \<inter> set (b # [r]) = {}"
    using S unfolding wf_def links_ok_def separate_def by blast
  ultimately have d: "distinct [?p, ?q, ?r]" by auto
  have T: "line_text ?w ?p = [97, 10]" "line_text ?w ?q = [98, 10]" "line_text ?w ?r = [32, 98, 10]"
    using d by (simp_all add: line_text_def two_files_def a_line_def)
  have K: "lk ?w = (\<lambda>_. NULL)" by (auto simp: fun_eq_iff lk_def two_files_def a_line_def)
  have tx: "texts ?w 1 = Some ([97, 10] @ [0])" "texts ?w 2 = Some ([98, 10] @ [0])" "texts ?w 3 = Some ([32, 98, 10] @ [0])"
    by (simp_all add: two_files_def)
  have t: "text_ok ?e [97, 10]" "text_ok ?e [98, 10]" "text_ok ?e [32, 98, 10]"
    by (simp_all add: text_ok_def single_def ascii_env_def)
  have "line_ok ?e ?w (a_line 1 n)" "line_ok ?e ?w (a_line 2 n)" "line_ok ?e ?w (a_line 3 n)" for n
    unfolding line_ok_def using tx t by (auto simp: a_line_def)
  moreover have "l \<in> {a_line 1 1, a_line 2 2, a_line 3 1}" if "fls ?w x = Some l" for x l
    using that by (auto simp: two_files_def split: if_splits)
  ultimately have "line_ok ?e ?w l" if "fls ?w x = Some l" for x l using that by blast
  moreover have "fls ?w NULL = None" using cursor_nonnull [of p] cursor_nonnull [of q] cursor_nonnull [of r] by (simp add: two_files_def)
  ultimately have ok: "lines_ok ?e ?w" by (simp add: lines_ok_def K)
  have m: "mem_ok ?e ?w Map.empty" using g by (simp add: mem_ok_def two_files_def ascii_env_def sample_env_def)
  have lh: "lh ?w = s" by (simp add: two_files_def)
  have ll: "line_list ?w [p, q]" "line_list ?w [r]" by (simp_all add: line_list_def two_files_def)
  have lined: "lined ?w (map cursor [p, q])" "lined ?w (map cursor [r])" unfolding lined_def lh using S(1-3) by metis+
  have w1: "within ?w 1 [] (map cursor [p, q]) []" using lined(1) ll(1) by (simp add: within_def line_list_def) (simp add: two_files_def a_sect_def)
  have w2: "within ?w 2 [] (map cursor [r]) []" using lined(2) ll(2) by (simp add: within_def line_list_def) (simp add: two_files_def a_sect_def)
  have "\<exists>l its. L l = Some its \<and> x \<in> cursor ` set its \<and> line_list ?w its" if "fls ?w x \<noteq> None" for x
  proof -
    have "x = ?p \<or> x = ?q \<or> x = ?r" using that by (auto simp: two_files_def split: if_splits)
    then have "x \<in> cursor ` set [p, q] \<or> x \<in> cursor ` set [r]" by auto
    then show ?thesis using S(2,3) ll by metis
  qed
  then have "store ?e ?w L" using S(1) ok unfolding store_def lh by blast
  moreover have "distinct (map cursor [p, q, r])" using d by simp
  ultimately show ?thesis using m S(2-4) ll w1 w2 T K by blast
qed

lemma sample_files:
  "\<exists>w h A p q r. lines_ok (ascii_env h ib) w \<and> mem_ok (ascii_env h ib) w A \<and> within w 1 [] [p, q] [] \<and> within w 2 [] [r] [] \<and>
     distinct [p, q, r] \<and> line_text w p = [97, 10] \<and> line_text w q = [98, 10] \<and> line_text w r = [32, 98, 10] \<and>
     lk w = (\<lambda>_. NULL)"
proof -
  obtain w h A L a b p q r where S: "store (ascii_env h ib) w L" "mem_ok (ascii_env h ib) w A"
    "within w 1 [] (map cursor [p, q]) []" "within w 2 [] (map cursor [r]) []" "distinct (map cursor [p, q, r])"
    "line_text w (cursor p) = [97, 10]" "line_text w (cursor q) = [98, 10]" "line_text w (cursor r) = [32, 98, 10]" "lk w = (\<lambda>_. NULL)"
    using sample_store [of ib] by blast
  then show ?thesis by (intro exI [of _ w] exI [of _ h] exI [of _ A] exI [of _ "cursor p"] exI [of _ "cursor q"] exI [of _ "cursor r"])
    (simp add: store_def)
qed

subsection \<open>Hash codes, blank lines and path names\<close>

text \<open>C18: \<open>hash_string\<close> sums the characters that count, each times its position times a
  power of the multiplier; two texts that differ in ignored blanks only get the same code.\<close>

theorem hash_string_sums:
  assumes "solid s" "solid t" "shown ib s = shown ib t"
  shows "hash_string (s @ [0]) ib = Some (hash_sum 0 (shown ib s)) \<and> hash_string (t @ [0]) ib = hash_string (s @ [0]) ib"
  using hash_string_spec [OF assms(1), of "[]"] hash_string_spec [OF assms(2), of "[]"] assms(3) by simp

theorem hash_string_sums_witness:
  "hash_string ([97, 32, 98] @ [0]) True = hash_string ([97, 98] @ [0]) True \<and>
   hash_string ([97, 98] @ [0]) True = Some (LARGENUMBER * 97 + LARGENUMBER * LARGENUMBER * 2 * 98)"
proof -
  have "solid [97, 98]" "solid [97, 32, 98]" "shown True [97, 98] = shown True [97, 32, 98]"
    by (simp_all add: solid_def shown_def IS_BLANK_def)
  from hash_string_sums [OF this] show ?thesis by (simp add: shown_def IS_BLANK_def signed_take_bit_eq)
qed

text \<open>C21: \<open>utils_isblank\<close> tells whether a text has nothing but blanks before its newline or
  its end.\<close>

theorem utils_isblank_decides:
  assumes "0 \<notin> set s"
  shows "utils_isblank (s @ [0]) = Some (\<exists>b t. s = b @ t \<and> (\<forall>x \<in> set b. IS_BLANK x) \<and> (t = [] \<or> hd t = 10))"
  by (rule utils_isblank_spec [OF assms])

theorem utils_isblank_decides_witness: "utils_isblank ([32, 9, 13, 10] @ [0]) = Some True"
proof -
  have "(0 :: byte) \<notin> set [32, 9, 13, 10]" by simp
  from utils_isblank_decides [OF this]
  have "utils_isblank ([32, 9, 13, 10] @ [0]) =
    Some (\<exists>b t. [32, 9, 13, 10] = b @ t \<and> (\<forall>x \<in> set b. IS_BLANK x) \<and> (t = [] \<or> hd t = 10))" .
  moreover have "\<exists>b t. [32, 9, 13, 10] = b @ t \<and> (\<forall>x \<in> set b. IS_BLANK x) \<and> (t = [] \<or> hd t = 10)"
    by (rule exI [of _ "[32, 9, 13]"], rule exI [of _ "[10]"]) (simp add: IS_BLANK_def)
  ultimately show ?thesis by (simp only: simp_thms)
qed

text \<open>C19: \<open>utils_CompPath\<close> compares path names in a linear order: the files of a directory
  come before its subdirectories, and the result is 0 only for equal names.  The order is that of the
  bytes as signed characters, so that upper and lower case differ: the comments in \<open>utils.c\<close> and in
  \<open>server/scan.c\<close> say that comparison is by \<open>lstrcmpi\<close> and case-insensitive, which holds only for
  names that were mapped to lower case before.\<close>

theorem utils_CompPath_orders:
  assumes "charnext_ok ld cn" "single ld a" "single ld b" "\<not> ld 0"
  shows "\<exists>v. utils_CompPath ld cn (Some (a @ [0])) (Some (b @ [0])) = Some v \<and> (v = 0 \<longleftrightarrow> a = b) \<and>
    (v < 0 \<longleftrightarrow> path_key a < path_key b) \<and> (v > 0 \<longleftrightarrow> path_key b < path_key a)"
  using utils_CompPath_spec [OF assms, of "[]" "[]"] by (auto simp: verdict_def)

theorem utils_CompPath_orders_witness:
  "\<exists>v. utils_CompPath (\<lambda>_. False) tl (Some [122, 0]) (Some [97, 92, 98, 0]) = Some v \<and> v < 0"
proof -
  have "charnext_ok (\<lambda>_. False) tl" "single (\<lambda>_. False) [122]" "single (\<lambda>_. False) [97, 92, 98]" "\<not> (\<lambda>_ :: byte. False) 0"
    by (simp_all add: charnext_ok_def single_def)
  from utils_CompPath_orders [OF this] obtain v where v: "utils_CompPath (\<lambda>_. False) tl (Some ([122] @ [0])) (Some ([97, 92, 98] @ [0])) = Some v"
    "v < 0 \<longleftrightarrow> path_key [122] < path_key [97, 92, 98]" by blast
  moreover have "path_key [122] < path_key [97, 92, 98 :: byte]" by (simp add: path_key_hd)
  ultimately show ?thesis by auto
qed

text \<open>C20: \<open>checksum_file\<close> returns without error the checksum of the whole file once one of
  the six tries to open it succeeds, whatever the length of the file, and zero bytes at the end do
  not change it.\<close>

theorem checksum_file_sums:
  assumes "holds io bs" "i < 6" "opens io i"
  shows "checksum_file io = Some (csum 0 bs, 0) \<and> csum 0 (bs @ replicate n 0) = csum 0 bs"
  using checksum_file_spec [OF assms] csum_padded by simp

theorem checksum_file_sums_witness:
  "\<exists>io. holds io [1, 2, 3] \<and> checksum_file io = Some (csum 0 [1, 2, 3], 0) \<and> csum 0 ([1, 2, 3] @ [0]) = csum 0 [1, 2, 3]"
proof -
  let ?io = "\<lparr>opens = (\<lambda>i. i = 3), openerr = 5, reads = (\<lambda>k. Some (take BUFFLEN (drop (BUFFLEN * k) [1, 2, 3]))),
     readerr = 6, ticks = 0\<rparr>"
  have H: "holds ?io [1, 2, 3]" "3 < (6 :: nat)" "opens ?io 3" by (simp_all add: holds_def)
  from checksum_file_sums [OF H, of 1] H(1) show ?thesis by (intro exI [of _ ?io]) simp
qed

subsection \<open>Lines\<close>

text \<open>C16: \<open>line_compare\<close> is TRUE exactly for lines with equal texts, up to blanks if these are
  ignored; it changes nothing but cached hash codes, which stay right.\<close>

theorem line_compare_decides:
  assumes "env_ok e" "lines_ok e w" "fls w p \<noteq> None" "fls w q \<noteq> None"
  shows "\<exists>w'. line_compare e p q w = Some (line_key e w p = line_key e w q, w') \<and> lines_ok e w' \<and> kept w w' \<and> lk w' = lk w"
  by (rule line_compare_spec [OF assms])

theorem line_compare_decides_witness:
  "\<exists>w h p q r w1 w2. line_text w q = [98, 10] \<and> line_text w r = [32, 98, 10] \<and>
     line_compare (ascii_env h True) q r w = Some (True, w1) \<and> line_compare (ascii_env h True) p r w = Some (False, w2)"
proof -
  obtain w h A p q r where S: "lines_ok (ascii_env h True) w" "within w 1 [] [p, q] []" "within w 2 [] [r] []"
    "line_text w p = [97, 10]" "line_text w q = [98, 10]" "line_text w r = [32, 98, 10]"
    using sample_files [of True] by blast
  have l: "fls w p \<noteq> None" "fls w q \<noteq> None" "fls w r \<noteq> None" using S(2,3) by (simp_all add: within_def)
  have k: "line_key (ascii_env h True) w q = line_key (ascii_env h True) w r" "line_key (ascii_env h True) w p \<noteq> line_key (ascii_env h True) w r"
    by (simp_all add: line_key_def S ascii_env_def shown_def IS_BLANK_def)
  obtain w1 where "line_compare (ascii_env h True) q r w = Some (True, w1)"
    using line_compare_decides [OF ascii_env_ok S(1) l(2,3)] k(1) by auto
  moreover obtain w2 where "line_compare (ascii_env h True) p r w = Some (False, w2)"
    using line_compare_decides [OF ascii_env_ok S(1) l(1,3)] k(2) by auto
  ultimately show ?thesis using S(5,6) by blast
qed

text \<open>C15: \<open>line_link\<close> links two lines exactly if both exist, neither is linked and they compare
  equal; links stay mutual and join equal lines only.\<close>

theorem line_link_links:
  assumes "env_ok e" "lines_ok e w" "line_or_null w p" "line_or_null w q"
  shows "\<exists>w'. line_link e p q w = Some (linkable e w p q, w') \<and> lines_ok e w' \<and> kept w w' \<and>
    lk w' = (if linkable e w p q then (lk w)(p := q, q := p) else lk w)"
  by (rule line_link_spec [OF assms])

theorem line_link_links_witness:
  "\<exists>w h q r w'. line_link (ascii_env h True) q r w = Some (True, w') \<and> lk w' q = r \<and> lk w' r = q"
proof -
  obtain w h A p q r where S: "lines_ok (ascii_env h True) w" "within w 1 [] [p, q] []" "within w 2 [] [r] []"
    "distinct [p, q, r]" "line_text w q = [98, 10]" "line_text w r = [32, 98, 10]" "lk w = (\<lambda>_. NULL)"
    using sample_files [of True] by blast
  have l: "line_or_null w q" "line_or_null w r" using S(2,3) by (simp_all add: within_def line_or_null_def)
  have "linkable (ascii_env h True) w q r"
    using S(2-7) lined_nonnull [of w "[p, q]"] lined_nonnull [of w "[r]"]
    by (simp add: linkable_def within_def line_key_def ascii_env_def shown_def IS_BLANK_def)
  with line_link_links [OF ascii_env_ok S(1) l] S(4) show ?thesis by fastforce
qed

subsection \<open>Sections\<close>

text \<open>C14: spreading from two anchor lines ends, links lines of the two sections only (and lines
  before a section, if the anchor is its first line), keeps all links mutual and between equal
  lines, changes nothing else, and returns TRUE exactly if it made a link.\<close>

theorem section_expandanchor_links:
  assumes "env_ok e" "lines_ok e w" "within w sec1 as1 ls1 bs1" "within w sec2 as2 ls2 bs2" "x \<in> set ls1" "y \<in> set ls2"
  shows "\<exists>w'. section_expandanchor e sec1 x sec2 y w = Some (lk w' \<noteq> lk w, w') \<and> lines_ok e w' \<and> kept w w' \<and>
    links_added (span as1 ls1 x) (span as2 ls2 y) w w' \<and> (linkable e w x y \<longrightarrow> lk w' x = y)"
  using section_expandanchor_spec [OF assms] unfolding linking_def by blast

theorem section_expandanchor_links_witness:
  "\<exists>w h q r w'. section_expandanchor (ascii_env h True) 1 q 2 r w = Some (True, w') \<and> lk w q = NULL \<and> lk w' q = r"
proof -
  obtain w h A p q r where S: "lines_ok (ascii_env h True) w" "within w 1 [] [p, q] []" "within w 2 [] [r] []"
    "line_text w q = [98, 10]" "line_text w r = [32, 98, 10]" "lk w = (\<lambda>_. NULL)"
    using sample_files [of True] by blast
  have m: "q \<in> set [p, q]" "r \<in> set [r]" by simp_all
  have n: "q \<noteq> NULL" "r \<noteq> NULL" using S(2,3) lined_nonnull [of w "[p, q]"] lined_nonnull [of w "[r]"] by (auto simp: within_def)
  have k: "linkable (ascii_env h True) w q r"
    using S(4-6) n by (simp add: linkable_def line_key_def ascii_env_def shown_def IS_BLANK_def)
  obtain w' where w': "section_expandanchor (ascii_env h True) 1 q 2 r w = Some (lk w' \<noteq> lk w, w')" "lk w' q = r"
    using section_expandanchor_links [OF ascii_env_ok S(1-3) m] k by blast
  then have "(lk w' \<noteq> lk w) = True" using n(2) S(6) by auto
  then have "section_expandanchor (ascii_env h True) 1 q 2 r w = Some (True, w')" using w'(1) by (simp only:)
  moreover have "lk w q = NULL" by (simp add: S(6))
  ultimately show ?thesis using w'(2) by blast
qed



end
