(* ===== verification/Gutils_Readfile.thy ===== *)
theory Gutils_Readfile
  imports Gutils_Utils
begin

text \<open>
  Buffered line input of \<open>windiff/gutils/utils.c\<close>: \<open>readfile_new\<close>, \<open>readfile_setdelims\<close>,
  \<open>readfile_next\<close> and the search for the end of a line.  The bytes between \<open>start\<close> and
  \<open>last\<close> of the buffer are a list, the bytes handed out are the result.  File handles and code
  page conversions belong to the system: a handle is the contents of the file, the position in it
  and the calls of \<open>ReadFile\<close> that fail; conversions are a parameter.
\<close>

subsection \<open>File handles\<close>

record hfile =
  hdata :: "byte list"
  hpos :: nat
  hfail :: "nat \<Rightarrow> bool"
  hreads :: nat

text \<open>\<open>ReadFile\<close>: \<open>None\<close> is failure; the number of bytes read is then 0.\<close>

definition ReadFile :: "nat \<Rightarrow> hfile \<Rightarrow> byte list option \<times> hfile" where
  "ReadFile n h =
     (let bs = take n (drop (hpos h) (hdata h)); h' = h\<lparr>hreads := hreads h + 1\<rparr>
      in if hfail h (hreads h) then (None, h') else (Some bs, h'\<lparr>hpos := hpos h + length bs\<rparr>))"

subsection \<open>Code pages\<close>

record codepage =
  cplead :: "byte \<Rightarrow> bool"
  cpnext :: "byte list \<Rightarrow> byte list"
  cpnarrow :: "16 word list \<Rightarrow> byte list"
  cpwide :: "byte list \<Rightarrow> 16 word list"

datatype DBCSTYPE = CT_LEAD | CT_TRAIL | CT_ANK | CT_INVALID

text \<open>The bytes before \<open>index\<close>, nearest first, that are lead bytes in a row.\<close>

definition DBCScharType :: "(byte \<Rightarrow> bool) \<Rightarrow> byte list \<Rightarrow> int \<Rightarrow> DBCSTYPE option" where
  "DBCScharType ld str index =
     (if index \<ge> 0 then
        (if nat index < length str then do {
           let candidate = (if ld (str ! nat index) then CT_LEAD else CT_ANK);
           let maybeTrail = odd (length (takeWhile ld (rev (take (nat index) str))));
           Some (if maybeTrail then CT_TRAIL else candidate)
         } else None)
      else Some CT_INVALID)"

subsection \<open>Buffers\<close>

definition MAX_LINE_LENGTH :: nat where "MAX_LINE_LENGTH = 4096"

definition BUFFER_SIZE :: nat where "BUFFER_SIZE = MAX_LINE_LENGTH * 5"

definition c_wchMagic :: "16 word" where "c_wchMagic = 0xfeff"

text \<open>\<open>fbuffer\<close> and \<open>wzBuffer\<close> are the parts from \<open>start\<close> to \<open>last\<close> and from
  \<open>pwzStart\<close> to \<open>pwzLast\<close>.\<close>

record filebuffer =
  fh :: "hfile option"
  fbuffer :: "byte list"
  bUnicode :: bool
  wzBuffer :: "16 word list"

text \<open>Bytes as 16-bit characters, the low byte first; a byte left over does not count.\<close>

fun wchars :: "byte list \<Rightarrow> 16 word list" where
  "wchars (a # b # bs) = (ucast a + ucast b * 256) # wchars bs"
| "wchars bs = []"

text \<open>\<open>alloc\<close>: whether \<open>GlobalAlloc\<close> succeeds; \<open>asked\<close>: whether the caller asks for the
  encoding.  The result is the buffer and the answer.\<close>

definition readfile_new :: "bool \<Rightarrow> hfile \<Rightarrow> bool \<Rightarrow> filebuffer option \<times> bool" where
  "readfile_new alloc h asked =
     (let fbuf = \<lparr>fh = None, fbuffer = [], bUnicode = False, wzBuffer = []\<rparr>
      in if \<not> alloc then (None, False)
         else if \<not> asked then (Some fbuf, False)
         else case ReadFile 2 (h\<lparr>hpos := 0\<rparr>) of
             (None, h) \<Rightarrow> (None, False)
           | (Some bs, h) \<Rightarrow>
               if length bs = 2 \<and> wchars bs = [c_wchMagic]
               then (Some (fbuf\<lparr>fh := Some h, bUnicode := True\<rparr>), True)
               else (Some (fbuf\<lparr>fh := Some (h\<lparr>hpos := 0\<rparr>)\<rparr>), False))"

text \<open>The static array \<open>delims\<close>: 256 flags.\<close>

fun setdelims_loop :: "bool list \<Rightarrow> cstring \<Rightarrow> bool list option" where
  "setdelims_loop ds [] = None"
| "setdelims_loop ds (c # cs) = (if c = 0 then Some ds else setdelims_loop (ds[unat c := True]) cs)"

definition readfile_setdelims :: "cstring \<Rightarrow> bool list option" where
  "readfile_setdelims str = setdelims_loop (replicate 256 False) str"

subsection \<open>The end of a line\<close>

fun wide_loop :: "bool list \<Rightarrow> 16 word list \<Rightarrow> 16 word list \<Rightarrow> 16 word list option \<times> 16 word list" where
  "wide_loop dl done [] = (None, done)"
| "wide_loop dl done (c # cs) =
     (let c = (if c = 0 then 46 else c)
      in if c < 256 \<and> dl ! unat c then (Some (done @ [c]), cs) else wide_loop dl (done @ [c]) cs)"

text \<open>\<open>if (!*psz) *psz = '.'\<close>\<close>

fun dotted :: "byte list \<Rightarrow> byte list" where
  "dotted [] = []"
| "dotted (c # cs) = (if c = 0 then 46 else c) # cs"

partial_function (option) narrow_loop ::
  "codepage \<Rightarrow> bool list \<Rightarrow> byte list \<Rightarrow> byte list \<Rightarrow> (bool \<times> byte list \<times> byte list) option" where
  "narrow_loop cp dl done bs =
     (if bs = [] then Some (False, done, [])
      else if dl ! unat (hd (dotted bs)) then Some (True, done @ [hd (dotted bs)], tl bs)
      else narrow_loop cp dl (done @ take (length bs - length (cpnext cp (dotted bs))) (dotted bs)) (cpnext cp (dotted bs)))"

text \<open>The line found, the wide line found, and the buffer after them.\<close>

definition FFindEOL :: "codepage \<Rightarrow> bool list \<Rightarrow> filebuffer \<Rightarrow> (byte list option \<times> 16 word list option \<times> filebuffer) option" where
  "FFindEOL cp dl fbuf = do {
     let (wl, wrest) = (if bUnicode fbuf then wide_loop dl [] (wzBuffer fbuf) else (None, wzBuffer fbuf));
     (found, line, rest) \<leftarrow> narrow_loop cp dl [] (fbuffer fbuf);
     Some (if found then (Some line, wl, fbuf\<lparr>fbuffer := rest, wzBuffer := wrest\<rparr>)
           else (None, wl, fbuf\<lparr>fbuffer := line, wzBuffer := wrest\<rparr>))
   }"

subsection \<open>The next line\<close>

definition rgHex :: "16 word \<Rightarrow> byte" where
  "rgHex n = (if n < 10 then 48 + ucast n else 65 + (ucast n - 10))"

text \<open>Copying what has been read of a Unicode file: characters that survive a round trip
  through the code page, and hexadecimal codes for the others.\<close>

fun acp_loop :: "(byte \<Rightarrow> bool) \<Rightarrow> 16 word list \<Rightarrow> 16 word list \<Rightarrow> byte list \<Rightarrow> byte list option" where
  "acp_loop ld (w # ws) (r # rs) (p # ps) =
     (let (ch, rest) = (if ld p then (take 2 (p # ps), drop 2 (p # ps)) else ([p], ps));
          out = (if w = r then ch
                 else [120, rgHex (and (drop_bit 12 w) 0xf), rgHex (and (drop_bit 8 w) 0xf),
                       rgHex (and (drop_bit 4 w) 0xf), rgHex (and w 0xf)])
      in if ld p \<and> ps = [] then None else do { more \<leftarrow> acp_loop ld ws rs rest; Some (out @ more) })"
| "acp_loop ld (w # ws) (r # rs) [] = None"
| "acp_loop ld ws rs ps = Some []"

definition no_handle :: hfile where
  "no_handle = \<lparr>hdata = [], hpos = 0, hfail = (\<lambda>_. True), hreads = 0\<rparr>"

text \<open>Filling the buffer.  \<open>None\<close> inside the result is the failure of \<open>ReadFile\<close> for a
  Unicode file.\<close>

definition fill_buffer :: "codepage \<Rightarrow> filebuffer \<Rightarrow> (filebuffer option \<times> filebuffer) option" where
  "fill_buffer cp fbuf =
     (let h = (case fh fbuf of None \<Rightarrow> no_handle | Some h \<Rightarrow> h)
      in if bUnicode fbuf then
           (let cbFree = 2 * (MAX_LINE_LENGTH - length (wzBuffer fbuf))
            in case ReadFile cbFree h of
                 (None, h) \<Rightarrow> Some (None, fbuf\<lparr>fh := map_option (\<lambda>_. h) (fh fbuf)\<rparr>)
               | (Some bs, h) \<Rightarrow> do {
                   let wz = wchars bs;
                   let szACP = cpnarrow cp wz;
                   let wzRoundtrip = cpwide cp szACP;
                   out \<leftarrow> acp_loop (cplead cp) wz wzRoundtrip szACP;
                   let fbuf = fbuf\<lparr>fh := map_option (\<lambda>_. h) (fh fbuf), fbuffer := fbuffer fbuf @ out,
                     wzBuffer := wzBuffer fbuf @ take (length wzRoundtrip) wz\<rparr>;
                   Some (Some fbuf, fbuf)
                 })
         else
           (let cbFree = BUFFER_SIZE - length (fbuffer fbuf)
            in case ReadFile cbFree h of
                 (None, h) \<Rightarrow> (let fbuf = fbuf\<lparr>fh := map_option (\<lambda>_. h) (fh fbuf)\<rparr> in Some (Some fbuf, fbuf))
               | (Some bs, h) \<Rightarrow> do {
                   t \<leftarrow> DBCScharType (cplead cp) bs (int (length bs) - 1);
                   let (bs, h) = (if t = CT_LEAD then (butlast bs, h\<lparr>hpos := hpos h - 1\<rparr>) else (bs, h));
                   let fbuf = fbuf\<lparr>fh := map_option (\<lambda>_. h) (fh fbuf), fbuffer := fbuffer fbuf @ bs\<rparr>;
                   Some (Some fbuf, fbuf)
                 }))"

text \<open>The line and its wide characters; \<open>None\<close> is NULL, the end of the file.\<close>

definition readfile_next :: "codepage \<Rightarrow> bool list \<Rightarrow> filebuffer \<Rightarrow>
    ((byte list option \<times> 16 word list option) \<times> filebuffer) option" where
  "readfile_next cp dl fbuf = do {
     (line, wl, fbuf) \<leftarrow> FFindEOL cp dl fbuf;
     if line \<noteq> None then Some ((line, wl), fbuf)
     else do {
       (filled, fbuf) \<leftarrow> fill_buffer cp fbuf;
       case filled of
         None \<Rightarrow> Some ((None, wl), fbuf)
       | Some fbuf \<Rightarrow> do {
           (line, wl', fbuf) \<leftarrow> FFindEOL cp dl fbuf;
           let wl = (if wl' \<noteq> None then wl' else wl);
           if line \<noteq> None then Some ((line, wl), fbuf)
           else do {
             let wl = (if bUnicode fbuf then Some (wzBuffer fbuf) else wl);
             let cstart = fbuffer fbuf;
             let fbuf = fbuf\<lparr>fbuffer := [], wzBuffer := (if bUnicode fbuf then [] else wzBuffer fbuf)\<rparr>;
             Some ((if cstart = [] then None else Some cstart, wl), fbuf)
           }
         }
     }
   }"

end
