(* ===== verification/Windiff_File.thy ===== *)
theory Windiff_File
  imports Windiff_Line Gutils_Readfile
begin

text \<open>
  Files of lines: \<open>windiff/windiff/file.c\<close>.  A file is read into a list of lines on demand.
  The directory lists of \<open>scandir.c\<close>, which supply names, sizes, checksums and open handles,
  are a parameter of the model (\<open>scandir\<close>); the wait cursor is left out.
\<close>

record filedata =
  diritem :: ptr
  lines :: ptr
  fUnicode :: bool

type_synonym filetime = "32 word \<times> 32 word"

text \<open>What a DIRITEM supplies.  \<open>sumvalid\<close> is asked before and after \<open>dir_getchecksum\<close> has
  read the file.\<close>

record scandir =
  opened_as :: "ptr \<Rightarrow> hfile option"
  relname :: "ptr \<Rightarrow> cstring"
  rootdesc :: "ptr \<Rightarrow> cstring"
  fileerror :: "ptr \<Rightarrow> bool"
  filesize :: "ptr \<Rightarrow> 32 word"
  filetimes :: "ptr \<Rightarrow> filetime"
  checksums :: "ptr \<Rightarrow> 32 word"
  sumvalid0 :: "ptr \<Rightarrow> bool"
  sumvalid1 :: "ptr \<Rightarrow> bool"

record fenv =
  we :: wenv
  cpage :: codepage
  scan :: scandir
  bufalloc :: bool

text \<open>The state: \<open>fw\<close> is the state of lines and sections, \<open>fds\<close> the FILEDATAs,
  \<open>rdelims\<close> the static delimiters of the line reader.\<close>

record fstate =
  fw :: wd
  fds :: "ptr \<rightharpoonup> filedata"
  rdelims :: "bool list"
  fmsgs :: "string list"

definition sizeof_filedata :: nat where "sizeof_filedata = 12"

definition on_fw :: "(wd \<Rightarrow> ('a \<times> wd) option) \<Rightarrow> fstate \<Rightarrow> ('a \<times> fstate) option" where
  "on_fw f s = do { (x, w) \<leftarrow> f (fw s); Some (x, s\<lparr>fw := w\<rparr>) }"

definition do_fw :: "(wd \<Rightarrow> wd option) \<Rightarrow> fstate \<Rightarrow> fstate option" where
  "do_fw f s = do { w \<leftarrow> f (fw s); Some (s\<lparr>fw := w\<rparr>) }"

definition ld_file :: "ptr \<Rightarrow> fstate \<Rightarrow> filedata option" where
  "ld_file fd s = fds s fd"

definition wr_file :: "ptr \<Rightarrow> (filedata \<Rightarrow> filedata) \<Rightarrow> fstate \<Rightarrow> fstate option" where
  "wr_file fd g s = (case fds s fd of None \<Rightarrow> None | Some d \<Rightarrow> Some (s\<lparr>fds := (fds s)(fd \<mapsto> g d)\<rparr>))"

subsection \<open>Reading the lines of a file\<close>

definition unreadable :: cstring where
  "unreadable = [33, 33, 32, 60, 117, 110, 114, 101, 97, 100, 97, 98, 108, 101, 62, 32, 33, 33, 0, 0]"

text \<open>The loop of \<open>file_readlines\<close>.  A line that is handed out is never empty, so the branch
  for a failure of the reader is not taken.\<close>

partial_function (option) readlines_loop :: "fenv \<Rightarrow> ptr \<Rightarrow> filebuffer \<Rightarrow> 32 word \<Rightarrow> fstate \<Rightarrow> fstate option" where
  "readlines_loop e l fbuf nr s = do {
     ((textp, pwz), fbuf) \<leftarrow> readfile_next (cpage e) (rdelims s) fbuf;
     (case textp of
        None \<Rightarrow> Some s
      | Some t \<Rightarrow>
          if length t > 0 then do {
            (line, s) \<leftarrow> on_fw (line_new (we e) t (length t) pwz (case pwz of None \<Rightarrow> 0 | Some ws \<Rightarrow> length ws) nr l) s;
            readlines_loop e l fbuf (nr + 1) s
          }
          else do {
            (line, s) \<leftarrow> on_fw (line_new (we e) unreadable 20 None 0 nr l) s;
            Some s
          })
   }"

definition file_readlines :: "fenv \<Rightarrow> ptr \<Rightarrow> fstate \<Rightarrow> fstate option" where
  "file_readlines e fd s = do {
     d \<leftarrow> ld_file fd s;
     (case opened_as (scan e) (diritem d) of
        None \<Rightarrow> Some (s\<lparr>fmsgs := fmsgs s @ [''error opening file'']\<rparr>)
      | Some h \<Rightarrow> do {
          let (fbuf, uni) = readfile_new (bufalloc e) h True;
          s \<leftarrow> wr_file fd (\<lambda>d. d\<lparr>fUnicode := uni\<rparr>) s;
          (case fbuf of
             None \<Rightarrow> Some s
           | Some fbuf \<Rightarrow> do {
               (l, s) \<leftarrow> on_fw (on_list (List_Create (lga (we e)))) s;
               s \<leftarrow> wr_file fd (\<lambda>d. d\<lparr>lines := l\<rparr>) s;
               readlines_loop e l fbuf 1 s
             })
        })
   }"

subsection \<open>Operations\<close>

definition file_new :: "fenv \<Rightarrow> ptr \<Rightarrow> bool \<Rightarrow> fstate \<Rightarrow> (ptr \<times> fstate) option" where
  "file_new e fiName bRead s = do {
     (fd, s) \<leftarrow> on_fw (wget (we e) sizeof_filedata) s;
     if fd = NULL then Some (NULL, s)
     else do {
       let s = s\<lparr>fds := (fds s)(fd \<mapsto> \<lparr>diritem = fiName, lines = NULL, fUnicode = False\<rparr>)\<rparr>;
       s \<leftarrow> (if bRead then file_readlines e fd s else Some s);
       Some (fd, s)
     }
   }"

definition file_getdiritem :: "ptr \<Rightarrow> fstate \<Rightarrow> ptr option" where
  "file_getdiritem fd s = (if fd = NULL then Some NULL else map_option diritem (ld_file fd s))"

text \<open>\<open>List_TRAVERSE\<close> over lines.\<close>

partial_function (option) traverse_lines :: "(ptr \<Rightarrow> wd \<Rightarrow> wd option) \<Rightarrow> ptr \<Rightarrow> wd \<Rightarrow> wd option" where
  "traverse_lines f line w =
     (if line = NULL then Some w
      else do {
        w \<leftarrow> f line w;
        (line, w) \<leftarrow> Next line w;
        traverse_lines f line w
      })"

definition for_lines :: "(ptr \<Rightarrow> wd \<Rightarrow> wd option) \<Rightarrow> ptr \<Rightarrow> wd \<Rightarrow> wd option" where
  "for_lines f l w = do { (line, w) \<leftarrow> on_list (List_First l) w; traverse_lines f line w }"

definition file_discardlines :: "fenv \<Rightarrow> ptr \<Rightarrow> fstate \<Rightarrow> fstate option" where
  "file_discardlines e fd s =
     (if fd = NULL then Some s
      else do {
        d \<leftarrow> ld_file fd s;
        s \<leftarrow> (if lines d \<noteq> NULL then do {
               s \<leftarrow> do_fw (for_lines (line_delete (we e)) (lines d)) s;
               do_fw (wList_Destroy (lines d)) s
             } else Some s);
        wr_file fd (\<lambda>d. d\<lparr>lines := NULL\<rparr>) s
      })"

definition file_delete :: "fenv \<Rightarrow> ptr \<Rightarrow> fstate \<Rightarrow> fstate option" where
  "file_delete e fd s =
     (if fd = NULL then Some s
      else do {
        s \<leftarrow> file_discardlines e fd s;
        s \<leftarrow> do_fw (wfree (we e) fd sizeof_filedata) s;
        Some (s\<lparr>fds := (fds s)(fd := None)\<rparr>)
      })"

definition file_getlinelist :: "fenv \<Rightarrow> ptr \<Rightarrow> fstate \<Rightarrow> (ptr \<times> fstate) option" where
  "file_getlinelist e fd s =
     (if fd = NULL then Some (NULL, s)
      else do {
        d \<leftarrow> ld_file fd s;
        s \<leftarrow> (if lines d = NULL then file_readlines e fd s else Some s);
        d \<leftarrow> ld_file fd s;
        Some (lines d, s)
      })"

definition file_reset :: "ptr \<Rightarrow> fstate \<Rightarrow> fstate option" where
  "file_reset fd s =
     (if fd = NULL then Some s
      else do {
        d \<leftarrow> ld_file fd s;
        if lines d \<noteq> NULL then do_fw (for_lines line_reset (lines d)) s else Some s
      })"

definition file_checksum :: "fenv \<Rightarrow> ptr \<Rightarrow> fstate \<Rightarrow> 32 word option" where
  "file_checksum e fd s = map_option (\<lambda>d. checksums (scan e) (diritem d)) (ld_file fd s)"

text \<open>The checksum and whether it is valid.\<close>

definition file_retrievechecksum :: "fenv \<Rightarrow> ptr \<Rightarrow> fstate \<Rightarrow> (32 word \<times> bool) option" where
  "file_retrievechecksum e fd s = do {
     d \<leftarrow> ld_file fd s;
     Some (if sumvalid0 (scan e) (diritem d) then (checksums (scan e) (diritem d), True) else (0, False))
   }"

definition file_GetTime :: "fenv \<Rightarrow> ptr \<Rightarrow> fstate \<Rightarrow> filetime option" where
  "file_GetTime e fd s = map_option (\<lambda>d. filetimes (scan e) (diritem d)) (ld_file fd s)"

definition file_IsUnicode :: "ptr \<Rightarrow> fstate \<Rightarrow> bool option" where
  "file_IsUnicode fd s = map_option fUnicode (ld_file fd s)"

end
