(* ===== verification/Windiff_Compitem.thy ===== *)
theory Windiff_Compitem
  imports Windiff_Composite Windiff_File
begin

text \<open>
  Pairs of files: \<open>windiff/windiff/compitem.c\<close>.  A COMPITEM holds two files, compares them when
  one of its lists of sections is asked for, and keeps the three lists.  Message boxes and cursors are
  left out; resource strings, their formatting and the comparison of names in the system's locale are
  parameters.
\<close>

definition STATE_COMPARABLE :: nat where "STATE_COMPARABLE = 2"
definition STATE_SIMILAR :: nat where "STATE_SIMILAR = 3"
definition STATE_DIFFER :: nat where "STATE_DIFFER = 4"
definition STATE_FILELEFTONLY :: nat where "STATE_FILELEFTONLY = 5"
definition STATE_FILERIGHTONLY :: nat where "STATE_FILERIGHTONLY = 6"

lemmas filestate_defs = STATE_COMPARABLE_def STATE_SIMILAR_def STATE_DIFFER_def STATE_FILELEFTONLY_def STATE_FILERIGHTONLY_def

record compitem =
  left_file :: ptr
  right_file :: ptr
  secs_composite :: ptr
  secs_left :: ptr
  secs_right :: ptr
  cistate :: nat
  cidiscard :: bool
  citag :: ptr
  ciresult :: ptr
  bMarked :: bool
  delims :: cstring

text \<open>Resource strings, by the names of their identifiers.\<close>

datatype resource = IDS_ONLY_IN | IDS_DIFFERENT | IDS_SAME_SIZE | IDS_IDENTICAL | IDS_IDENTICAL_TIMES | IDS_IS_MORE_RECENT
  | IDS_BOTH_UNREADABLE | IDS_LEFT_UNREADABLE | IDS_RIGHT_UNREADABLE | IDS_DIFF_BLANK_ONLY

record cenv =
  fe :: fenv
  Algorithm2 :: bool
  gbPerverseCompare :: bool
  TrackSame :: bool
  TrackDifferent :: bool
  rcstring :: "resource \<Rightarrow> cstring"
  rcformat :: "resource \<Rightarrow> cstring \<Rightarrow> cstring \<Rightarrow> cstring"
  samename :: "cstring option \<Rightarrow> cstring option \<Rightarrow> bool"
  timecmp :: "filetime \<Rightarrow> filetime \<Rightarrow> int"
  charprev :: "cstring \<Rightarrow> nat \<Rightarrow> nat"

record cistore =
  cf :: fstate
  cis :: "ptr \<rightharpoonup> compitem"
  RightRoot :: cstring
  LeftRoot :: cstring
  popups :: "cstring list"

definition sizeof_compitem :: nat where "sizeof_compitem = 108"

definition on_cf :: "(fstate \<Rightarrow> ('a \<times> fstate) option) \<Rightarrow> cistore \<Rightarrow> ('a \<times> cistore) option" where
  "on_cf f s = do { (x, t) \<leftarrow> f (cf s); Some (x, s\<lparr>cf := t\<rparr>) }"

definition do_cf :: "(fstate \<Rightarrow> fstate option) \<Rightarrow> cistore \<Rightarrow> cistore option" where
  "do_cf f s = do { t \<leftarrow> f (cf s); Some (s\<lparr>cf := t\<rparr>) }"

abbreviation on_wd :: "(wd \<Rightarrow> ('a \<times> wd) option) \<Rightarrow> cistore \<Rightarrow> ('a \<times> cistore) option" where "on_wd f \<equiv> on_cf (on_fw f)"
abbreviation do_wd :: "(wd \<Rightarrow> wd option) \<Rightarrow> cistore \<Rightarrow> cistore option" where "do_wd f \<equiv> do_cf (do_fw f)"
abbreviation wenv_of :: "cenv \<Rightarrow> wenv" where "wenv_of e \<equiv> we (fe e)"
abbreviation scan_of :: "cenv \<Rightarrow> scandir" where "scan_of e \<equiv> scan (fe e)"

definition ld_ci :: "ptr \<Rightarrow> cistore \<Rightarrow> compitem option" where
  "ld_ci ci s = cis s ci"

definition wr_ci :: "ptr \<Rightarrow> (compitem \<Rightarrow> compitem) \<Rightarrow> cistore \<Rightarrow> cistore option" where
  "wr_ci ci g s = (case cis s ci of None \<Rightarrow> None | Some c \<Rightarrow> Some (s\<lparr>cis := (cis s)(ci \<mapsto> g c)\<rparr>))"

subsection \<open>Comparing two files\<close>

text \<open>One pass through the loop of \<open>ci_compare\<close>: whether links were made, and the new lists of
  sections.\<close>

definition compare_round :: "wenv \<Rightarrow> ptr \<Rightarrow> ptr \<Rightarrow> bool \<Rightarrow> ptr \<Rightarrow> ptr \<Rightarrow> wd \<Rightarrow> (bool \<times> ptr \<times> ptr \<times> wd) option" where
  "compare_round e lines_left lines_right bTryDups sl sr w = do {
     (a, w) \<leftarrow> on_list (List_First lines_left) w;
     (b, w) \<leftarrow> on_list (List_Last lines_left) w;
     (whole_left, w) \<leftarrow> section_new e a b NULL w;
     (a, w) \<leftarrow> on_list (List_First lines_right) w;
     (b, w) \<leftarrow> on_list (List_Last lines_right) w;
     (whole_right, w) \<leftarrow> section_new e a b NULL w;
     (linked, w) \<leftarrow> section_match e whole_left whole_right bTryDups w;
     w \<leftarrow> section_delete e whole_left w;
     w \<leftarrow> section_delete e whole_right w;
     w \<leftarrow> (if sl \<noteq> NULL then section_deletelist sl w else Some w);
     w \<leftarrow> (if sr \<noteq> NULL then section_deletelist sr w else Some w);
     (sl, w) \<leftarrow> section_makelist e lines_left True w;
     (sr, w) \<leftarrow> section_makelist e lines_right False w;
     (more, w) \<leftarrow> section_matchlists e sl sr bTryDups w;
     Some (linked \<or> more, sl, sr, w)
   }"

partial_function (option) ci_compare_loop :: "wenv \<Rightarrow> bool \<Rightarrow> ptr \<Rightarrow> ptr \<Rightarrow> bool \<Rightarrow> ptr \<Rightarrow> ptr \<Rightarrow> wd \<Rightarrow> (ptr \<times> ptr \<times> wd) option" where
  "ci_compare_loop e alg2 lines_left lines_right bTryDups sl sr w = do {
     (bChanges, sl, sr, w) \<leftarrow> compare_round e lines_left lines_right bTryDups sl sr w;
     if bChanges then ci_compare_loop e alg2 lines_left lines_right False sl sr w
     else if \<not> bTryDups \<and> alg2 then ci_compare_loop e alg2 lines_left lines_right True sl sr w
     else Some (sl, sr, w)
   }"

definition ci_compare :: "cenv \<Rightarrow> ptr \<Rightarrow> cistore \<Rightarrow> cistore option" where
  "ci_compare e ci s = do {
     c \<leftarrow> ld_ci ci s;
     (lines_left, s) \<leftarrow> on_cf (file_getlinelist (fe e) (left_file c)) s;
     (lines_right, s) \<leftarrow> on_cf (file_getlinelist (fe e) (right_file c)) s;
     if lines_left = NULL \<or> lines_right = NULL
     then wr_ci ci (\<lambda>c. c\<lparr>secs_left := NULL, secs_right := NULL, secs_composite := NULL\<rparr>) s
     else do {
       ((sl, sr), s) \<leftarrow> on_wd (\<lambda>w. do {
           (sl, sr, w) \<leftarrow> ci_compare_loop (wenv_of e) (Algorithm2 e) lines_left lines_right False (secs_left c) (secs_right c) w;
           Some ((sl, sr), w) }) s;
       s \<leftarrow> wr_ci ci (\<lambda>c. c\<lparr>secs_left := sl, secs_right := sr\<rparr>) s;
       (compo, s) \<leftarrow> on_wd (section_makecomposite (wenv_of e) sl sr) s;
       wr_ci ci (\<lambda>c. c\<lparr>secs_composite := compo\<rparr>) s
     }
   }"

subsection \<open>The lists of a pair of files\<close>

definition ci_copytext :: "cenv \<Rightarrow> cstring option \<Rightarrow> cistore \<Rightarrow> (ptr \<times> cistore) option" where
  "ci_copytext e inp s = do {
     let t = (case inp of None \<Rightarrow> [0] | Some t \<Rightarrow> t @ [0]);
     (out, s) \<leftarrow> on_wd (wget (wenv_of e) (length t)) s;
     if out = NULL then None
     else do { s \<leftarrow> do_wd (\<lambda>w. Some (w\<lparr>texts := (texts w)(out \<mapsto> t)\<rparr>)) s; Some (out, s) }
   }"

definition free_text :: "cenv \<Rightarrow> ptr \<Rightarrow> cistore \<Rightarrow> cistore option" where
  "free_text e p s = do_wd (\<lambda>w. do {
     t \<leftarrow> texts w p;
     n \<leftarrow> lstrlen t;
     w \<leftarrow> wfree (wenv_of e) p (n + 1) w;
     Some (w\<lparr>texts := (texts w)(p := None)\<rparr>) }) s"

definition ci_onesection :: "cenv \<Rightarrow> ptr \<Rightarrow> cistore \<Rightarrow> (ptr \<times> cistore) option" where
  "ci_onesection e fd s = do {
     (l, s) \<leftarrow> on_cf (file_getlinelist (fe e) fd) s;
     on_wd (\<lambda>w. do {
       (sections, w) \<leftarrow> on_list (List_Create (lga (wenv_of e))) w;
       (a, w) \<leftarrow> on_list (List_First l) w;
       (b, w) \<leftarrow> on_list (List_Last l) w;
       (sec, w) \<leftarrow> section_new (wenv_of e) a b sections w;
       w \<leftarrow> section_setstate sec STATE_SAME w;
       Some (sections, w) }) s
   }"

text \<open>Whether the composite list is one section of equal lines.\<close>

definition one_same :: "ptr \<Rightarrow> wd \<Rightarrow> (bool \<times> wd) option" where
  "one_same compo w = do {
     (n, w) \<leftarrow> on_list (List_Card compo) w;
     if n = 1 then do {
       (a, w) \<leftarrow> on_list (List_First compo) w;
       (st, w) \<leftarrow> section_getstate a w;
       Some (st = STATE_SAME, w)
     } else Some (False, w)
   }"

definition ci_makecomposite :: "cenv \<Rightarrow> ptr \<Rightarrow> cistore \<Rightarrow> cistore option" where
  "ci_makecomposite e ci s = do {
     c \<leftarrow> ld_ci ci s;
     if secs_composite c \<noteq> NULL then Some s
     else do {
       d \<leftarrow> readfile_setdelims (delims c);
       s \<leftarrow> do_cf (\<lambda>t. Some (t\<lparr>rdelims := d\<rparr>)) s;
       if left_file c = NULL then do {
         s \<leftarrow> wr_ci ci (\<lambda>c. c\<lparr>secs_left := NULL\<rparr>) s;
         (r, s) \<leftarrow> ci_onesection e (right_file c) s;
         s \<leftarrow> wr_ci ci (\<lambda>c. c\<lparr>secs_right := r\<rparr>) s;
         (r, s) \<leftarrow> ci_onesection e (right_file c) s;
         wr_ci ci (\<lambda>c. c\<lparr>secs_composite := r\<rparr>) s
       }
       else if right_file c = NULL then do {
         s \<leftarrow> wr_ci ci (\<lambda>c. c\<lparr>secs_right := NULL\<rparr>) s;
         (l, s) \<leftarrow> ci_onesection e (left_file c) s;
         s \<leftarrow> wr_ci ci (\<lambda>c. c\<lparr>secs_left := l\<rparr>) s;
         (l, s) \<leftarrow> ci_onesection e (left_file c) s;
         wr_ci ci (\<lambda>c. c\<lparr>secs_composite := l\<rparr>) s
       }
       else do {
         s \<leftarrow> ci_compare e ci s;
         c \<leftarrow> ld_ci ci s;
         if cistate c = STATE_DIFFER then do {
           (one, s) \<leftarrow> on_wd (one_same (secs_composite c)) s;
           if one then do {
             let s = s\<lparr>popups := popups s @ [rcstring e IDS_DIFF_BLANK_ONLY]\<rparr>;
             s \<leftarrow> (if ciresult c \<noteq> NULL then do { s \<leftarrow> free_text e (ciresult c) s; wr_ci ci (\<lambda>c. c\<lparr>ciresult := NULL\<rparr>) s } else Some s);
             (r, s) \<leftarrow> ci_copytext e (Some (rcstring e IDS_DIFF_BLANK_ONLY)) s;
             wr_ci ci (\<lambda>c. c\<lparr>ciresult := r\<rparr>) s
           }
           else wr_ci ci (\<lambda>c. c\<lparr>cistate := STATE_DIFFER\<rparr>) s
         }
         else Some s
       }
     }
   }"

text \<open>The accessors that compare first.\<close>

definition compitem_getlist :: "(compitem \<Rightarrow> ptr) \<Rightarrow> cenv \<Rightarrow> ptr \<Rightarrow> cistore \<Rightarrow> (ptr \<times> cistore) option" where
  "compitem_getlist sel e ci s =
     (if ci = NULL then Some (NULL, s)
      else do {
        c \<leftarrow> ld_ci ci s;
        s \<leftarrow> (if secs_composite c = NULL then ci_makecomposite e ci s else Some s);
        c \<leftarrow> ld_ci ci s;
        Some (sel c, s)
      })"

definition compitem_getcomposite :: "cenv \<Rightarrow> ptr \<Rightarrow> cistore \<Rightarrow> (ptr \<times> cistore) option" where
  "compitem_getcomposite = compitem_getlist secs_composite"

definition compitem_getleftsections :: "cenv \<Rightarrow> ptr \<Rightarrow> cistore \<Rightarrow> (ptr \<times> cistore) option" where
  "compitem_getleftsections = compitem_getlist secs_left"

definition compitem_getrightsections :: "cenv \<Rightarrow> ptr \<Rightarrow> cistore \<Rightarrow> (ptr \<times> cistore) option" where
  "compitem_getrightsections = compitem_getlist secs_right"

text \<open>The other accessors: a NULL handle gives \<open>z\<close>.\<close>

definition ci_get :: "'a \<Rightarrow> (compitem \<Rightarrow> 'a) \<Rightarrow> ptr \<Rightarrow> cistore \<Rightarrow> 'a option" where
  "ci_get z sel ci s = (if ci = NULL then Some z else map_option sel (ld_ci ci s))"

definition compitem_getleftfile :: "ptr \<Rightarrow> cistore \<Rightarrow> ptr option" where
  "compitem_getleftfile = ci_get NULL left_file"

definition compitem_getrightfile :: "ptr \<Rightarrow> cistore \<Rightarrow> ptr option" where
  "compitem_getrightfile = ci_get NULL right_file"

definition compitem_getstate :: "ptr \<Rightarrow> cistore \<Rightarrow> nat option" where
  "compitem_getstate = ci_get 0 cistate"

definition compitem_gettext_tag :: "ptr \<Rightarrow> cistore \<Rightarrow> ptr option" where
  "compitem_gettext_tag = ci_get NULL citag"

definition compitem_gettext_result :: "ptr \<Rightarrow> cistore \<Rightarrow> ptr option" where
  "compitem_gettext_result = ci_get NULL ciresult"

definition compitem_getmark :: "ptr \<Rightarrow> cistore \<Rightarrow> bool option" where
  "compitem_getmark = ci_get False bMarked"

definition compitem_setmark :: "ptr \<Rightarrow> bool \<Rightarrow> cistore \<Rightarrow> cistore option" where
  "compitem_setmark ci m s = (if ci = NULL then Some s else wr_ci ci (\<lambda>c. c\<lparr>bMarked := m\<rparr>) s)"

definition compitem_SetCopyPaths :: "cstring \<Rightarrow> cstring \<Rightarrow> cistore \<Rightarrow> cistore" where
  "compitem_SetCopyPaths RightPath LeftPath s = s\<lparr>LeftRoot := LeftPath, RightRoot := RightPath\<rparr>"

subsection \<open>Discarding\<close>

definition drop_list :: "ptr \<Rightarrow> (compitem \<Rightarrow> ptr) \<Rightarrow> (compitem \<Rightarrow> compitem) \<Rightarrow> cistore \<Rightarrow> cistore option" where
  "drop_list ci sel forget s = do {
     c \<leftarrow> ld_ci ci s;
     if sel c \<noteq> NULL then do { s \<leftarrow> do_wd (section_deletelist (sel c)) s; wr_ci ci forget s } else Some s
   }"

definition compitem_discardsections :: "ptr \<Rightarrow> cistore \<Rightarrow> cistore option" where
  "compitem_discardsections ci s =
     (if ci = NULL then Some s
      else do {
        s \<leftarrow> drop_list ci secs_composite (\<lambda>c. c\<lparr>secs_composite := NULL\<rparr>) s;
        s \<leftarrow> drop_list ci secs_left (\<lambda>c. c\<lparr>secs_left := NULL\<rparr>) s;
        s \<leftarrow> drop_list ci secs_right (\<lambda>c. c\<lparr>secs_right := NULL\<rparr>) s;
        c \<leftarrow> ld_ci ci s;
        s \<leftarrow> do_cf (file_reset (left_file c)) s;
        do_cf (file_reset (right_file c)) s
      })"

definition compitem_delete :: "cenv \<Rightarrow> ptr \<Rightarrow> cistore \<Rightarrow> cistore option" where
  "compitem_delete e ci s =
     (if ci = NULL then Some s
      else do {
        s \<leftarrow> compitem_discardsections ci s;
        c \<leftarrow> ld_ci ci s;
        s \<leftarrow> do_cf (file_delete (fe e) (left_file c)) s;
        s \<leftarrow> do_cf (file_delete (fe e) (right_file c)) s;
        s \<leftarrow> (if citag c \<noteq> NULL then free_text e (citag c) s else Some s);
        s \<leftarrow> (if ciresult c \<noteq> NULL then free_text e (ciresult c) s else Some s);
        if cidiscard c then do {
          s \<leftarrow> do_wd (wfree (wenv_of e) ci sizeof_compitem) s;
          Some (s\<lparr>cis := (cis s)(ci := None)\<rparr>)
        } else Some s
      })"

subsection \<open>State and texts\<close>

definition ci_AddTimeString :: "cenv \<Rightarrow> cstring \<Rightarrow> ptr \<Rightarrow> ptr \<Rightarrow> ptr \<Rightarrow> cistore \<Rightarrow> (ptr \<times> cistore) option" where
  "ci_AddTimeString e inp ci leftname rightname s = do {
     c \<leftarrow> ld_ci ci s;
     ftLeft \<leftarrow> file_GetTime (fe e) (left_file c) (cf s);
     ftRight \<leftarrow> file_GetTime (fe e) (right_file c) (cf s);
     let buff = (if ftLeft \<noteq> (0, 0) \<and> ftRight \<noteq> (0, 0) then
         (let rc = timecmp e ftLeft ftRight
          in if rc < 0 then rcformat e IDS_IS_MORE_RECENT inp (rootdesc (scan_of e) rightname)
             else if rc > 0 then rcformat e IDS_IS_MORE_RECENT inp (rootdesc (scan_of e) leftname)
             else take 399 inp @ rcstring e IDS_IDENTICAL_TIMES)
       else take 399 inp);
     ci_copytext e (Some buff) s
   }"

text \<open>The state of two files that can be read, and the text for it; \<open>timed\<close> says whether the
  text gets a remark on their times.\<close>

definition compare_files :: "scandir \<Rightarrow> ptr \<Rightarrow> ptr \<Rightarrow> bool \<Rightarrow> nat \<times> resource \<times> bool" where
  "compare_files sc leftname rightname fExact =
     (if fileerror sc leftname then
        (STATE_DIFFER, if fileerror sc rightname then IDS_BOTH_UNREADABLE else IDS_LEFT_UNREADABLE, False)
      else if fileerror sc rightname then (STATE_DIFFER, IDS_RIGHT_UNREADABLE, False)
      else if filesize sc leftname \<noteq> filesize sc rightname then (STATE_DIFFER, IDS_DIFFERENT, True)
      else if sumvalid0 sc leftname \<and> sumvalid0 sc rightname then
        (if checksums sc leftname = checksums sc rightname then (STATE_SAME, IDS_IDENTICAL, False)
         else (STATE_DIFFER, IDS_DIFFERENT, True))
      else if \<not> fExact then (STATE_SAME, IDS_SAME_SIZE, True)
      else if \<not> sumvalid1 sc rightname then
        (STATE_DIFFER, if \<not> sumvalid1 sc leftname then IDS_BOTH_UNREADABLE else IDS_RIGHT_UNREADABLE, True)
      else if \<not> sumvalid1 sc leftname then (STATE_DIFFER, IDS_LEFT_UNREADABLE, True)
      else if checksums sc leftname \<noteq> checksums sc rightname then (STATE_DIFFER, IDS_DIFFERENT, True)
      else (STATE_SAME, IDS_IDENTICAL, False))"

definition SetStateAndTag :: "cenv \<Rightarrow> ptr \<Rightarrow> ptr \<Rightarrow> ptr \<Rightarrow> bool \<Rightarrow> cistore \<Rightarrow> cistore option" where
  "SetStateAndTag e ci leftname rightname fExact s = do {
     let sc = scan_of e;
     let str1 = (if leftname = NULL then None else Some (relname sc leftname));
     let str2 = (if rightname = NULL then None else Some (relname sc rightname));
     c \<leftarrow> ld_ci ci s;
     (t, s) \<leftarrow> (if left_file c = NULL then ci_copytext e str2 s
        else if right_file c = NULL then ci_copytext e str1 s
        else if samename e str1 str2 then ci_copytext e str2 s
        else ci_copytext e (Some (the str1 @ [32, 58, 32] @ the str2)) s);
     s \<leftarrow> wr_ci ci (\<lambda>c. c\<lparr>citag := t\<rparr>) s;
     if left_file c = NULL then do {
       (r, s) \<leftarrow> ci_copytext e (Some (rcformat e IDS_ONLY_IN (rootdesc sc rightname) [])) s;
       wr_ci ci (\<lambda>c. c\<lparr>ciresult := r, cistate := STATE_FILERIGHTONLY\<rparr>) s
     }
     else if right_file c = NULL then do {
       (r, s) \<leftarrow> ci_copytext e (Some (rcformat e IDS_ONLY_IN (rootdesc sc leftname) [])) s;
       wr_ci ci (\<lambda>c. c\<lparr>ciresult := r, cistate := STATE_FILELEFTONLY\<rparr>) s
     }
     else do {
       let (st, txt, timed) = compare_files sc leftname rightname fExact;
       (r, s) \<leftarrow> (if timed then ci_AddTimeString e (rcstring e txt) ci leftname rightname s
          else ci_copytext e (Some (rcstring e txt)) s);
       wr_ci ci (\<lambda>c. c\<lparr>ciresult := r, cistate := st\<rparr>) s
     }
   }"

subsection \<open>Kinds of names\<close>

text \<open>\<open>My_mbsrchr\<close>: the text from the last separator on; \<open>i\<close> is the position of \<open>psz\<close>.\<close>

partial_function (option) mbsrchr_loop :: "(cstring \<Rightarrow> nat \<Rightarrow> nat) \<Rightarrow> byte \<Rightarrow> cstring \<Rightarrow> nat \<Rightarrow> nat option" where
  "mbsrchr_loop cp sep str i =
     (if i > 0 then (if str ! cp str i = sep then Some (cp str i) else mbsrchr_loop cp sep str (cp str i)) else Some i)"

definition My_mbsrchr :: "(cstring \<Rightarrow> nat \<Rightarrow> nat) \<Rightarrow> byte \<Rightarrow> cstring \<Rightarrow> cstring option option" where
  "My_mbsrchr cp sep str = do {
     n \<leftarrow> lstrlen str;
     if sep = 0 then Some (Some (drop n str))
     else do {
       i \<leftarrow> mbsrchr_loop cp sep str n;
       Some (if str ! i = sep then Some (drop i str) else None)
     }
   }"

text \<open>Whether a name has one of the extensions.\<close>

definition has_ext :: "cenv \<Rightarrow> cstring list \<Rightarrow> ptr \<Rightarrow> bool option" where
  "has_ext e exts di =
     (if di = NULL then Some False
      else do {
        ext \<leftarrow> My_mbsrchr (charprev e) 46 (relname (scan_of e) di @ [0]);
        Some (case ext of None \<Rightarrow> False | Some x \<Rightarrow> drop 1 x \<in> set (map (\<lambda>t. t @ [0]) exts))
      })"

definition IsDocName :: "cenv \<Rightarrow> ptr \<Rightarrow> bool option" where
  "IsDocName e = has_ext e [[100, 111, 99], [116, 120, 116], [114, 116, 102]]"

definition IsCName :: "cenv \<Rightarrow> ptr \<Rightarrow> bool option" where
  "IsCName e = has_ext e [[99], [104], [99, 120, 120], [104, 120, 120], [99, 112, 112], [104, 112, 112]]"

subsection \<open>Writing the composite file\<close>

definition INCLUDE_SAME :: nat where "INCLUDE_SAME = 0x01"
definition INCLUDE_LEFTONLY :: nat where "INCLUDE_LEFTONLY = 0x04"
definition INCLUDE_RIGHTONLY :: nat where "INCLUDE_RIGHTONLY = 0x08"
definition INCLUDE_MOVEDLEFT :: nat where "INCLUDE_MOVEDLEFT = 0x10"
definition INCLUDE_MOVEDRIGHT :: nat where "INCLUDE_MOVEDRIGHT = 0x20"

text \<open>The tag of the lines of a section, \<open>None\<close> when they are not wanted.\<close>

definition section_tag :: "nat \<Rightarrow> nat \<Rightarrow> cstring option" where
  "section_tag compopts st =
     (let want = (\<lambda>m t. if and compopts m \<noteq> 0 then Some t else None)
      in if st = STATE_SAME then want INCLUDE_SAME [32, 32, 32, 32]
         else if st = STATE_LEFTONLY \<or> st = STATE_SIMILARLEFT then want INCLUDE_LEFTONLY [32, 60, 33, 32]
         else if st = STATE_RIGHTONLY \<or> st = STATE_SIMILARRIGHT then want INCLUDE_RIGHTONLY [32, 33, 62, 32]
         else if st = STATE_MOVEDLEFT then want INCLUDE_MOVEDLEFT [32, 60, 45, 32]
         else if st = STATE_MOVEDRIGHT then want INCLUDE_MOVEDRIGHT [32, 45, 62, 32]
         else Some [32, 32, 32, 32])"

text \<open>The bytes written for the lines of a section and the number of lines.\<close>

partial_function (option) write_lines :: "cstring \<Rightarrow> ptr \<Rightarrow> ptr \<Rightarrow> cstring \<Rightarrow> nat \<Rightarrow> wd \<Rightarrow> (cstring \<times> nat \<times> wd) option" where
  "write_lines ltag line lst out linecount w =
     (if line = NULL then Some (out, linecount, w)
      else do {
        t \<leftarrow> line_gettext line w;
        str \<leftarrow> chars t w;
        n \<leftarrow> lstrlen str;
        let out = out @ ltag @ take n str;
        let linecount = linecount + 1;
        if line = lst then Some (out, linecount, w)
        else do { (line, w) \<leftarrow> Next line w; write_lines ltag line lst out linecount w }
      })"

partial_function (option) write_sections :: "nat \<Rightarrow> ptr \<Rightarrow> cstring \<Rightarrow> nat \<Rightarrow> wd \<Rightarrow> (cstring \<times> nat \<times> wd) option" where
  "write_sections compopts sec out linecount w =
     (if sec = NULL then Some (out, linecount, w)
      else do {
        (st, w) \<leftarrow> section_getstate sec w;
        (out, linecount, w) \<leftarrow> (case section_tag compopts st of
            None \<Rightarrow> Some (out, linecount, w)
          | Some ltag \<Rightarrow> do {
              a \<leftarrow> section_getfirstline sec w;
              b \<leftarrow> section_getlastline sec w;
              write_lines ltag a b out linecount w
            });
        (sec, w) \<leftarrow> Next sec w;
        write_sections compopts sec out linecount w
      })"

text \<open>The contents of the composite file without its first and last line, which are formatted
  by \<open>wsprintf\<close>, and the number of lines that the last line tells.  \<open>savename\<close> is a pointer that may be
  NULL (\<open>None\<close>); \<open>creates\<close> tells whether the file can be created; the result \<open>None\<close> stands for NULL.\<close>

definition compitem_writefile :: "cenv \<Rightarrow> (cstring \<Rightarrow> bool) \<Rightarrow> ptr \<Rightarrow> cstring option \<Rightarrow> nat \<Rightarrow> cistore \<Rightarrow>
    ((cstring \<times> nat) option \<times> cistore) option" where
  "compitem_writefile e creates item savename compopts s =
     (if savename = None \<or> savename = Some [] \<or> item = NULL then Some (None, s)
      else if \<not> creates (the savename) then Some (None, s\<lparr>popups := popups s @ [[]]\<rparr>)
      else do {
        c \<leftarrow> ld_ci item s;
        s \<leftarrow> (if secs_composite c = NULL then ci_makecomposite e item s else Some s);
        c \<leftarrow> ld_ci item s;
        on_wd (\<lambda>w. do {
          (sec, w) \<leftarrow> on_list (List_First (secs_composite c)) w;
          (out, n, w) \<leftarrow> write_sections compopts sec [] 0 w;
          Some (Some (out, n), w) }) s
      })"

subsection \<open>Making\<close>

definition FindDelimiters :: "cenv \<Rightarrow> cstring" where
  "FindDelimiters e = (if gbPerverseCompare e then [46, 33, 63, 59, 10, 0] else [10, 0])"

text \<open>A COMPITEM that is not wanted (its state is not tracked) is freed, and its address returned.
  A COMPITEM whose file cannot be allocated stays allocated.\<close>

definition compitem_new :: "cenv \<Rightarrow> ptr \<Rightarrow> ptr \<Rightarrow> ptr \<Rightarrow> bool \<Rightarrow> cistore \<Rightarrow> (ptr \<times> cistore) option" where
  "compitem_new e leftname rightname lst fExact s = do {
     (ci, s) \<leftarrow> (if lst = NULL then on_wd (wget (wenv_of e) sizeof_compitem) s
        else on_wd (on_list (List_NewLast (lga (wenv_of e)) lst sizeof_compitem)) s);
     if ci = NULL then Some (NULL, s)
     else do {
       let s = s\<lparr>cis := (cis s)(ci \<mapsto> \<lparr>left_file = NULL, right_file = NULL, secs_composite = NULL, secs_left = NULL,
         secs_right = NULL, cistate = 0, cidiscard = (lst = NULL), citag = NULL, ciresult = NULL, bMarked = False,
         delims = FindDelimiters e\<rparr>)\<rparr>;
       (l, s) \<leftarrow> (if leftname \<noteq> NULL then on_cf (file_new (fe e) leftname False) s else Some (NULL, s));
       s \<leftarrow> wr_ci ci (\<lambda>c. c\<lparr>left_file := l\<rparr>) s;
       if leftname \<noteq> NULL \<and> l = NULL then Some (NULL, s)
       else do {
         (r, s) \<leftarrow> (if rightname \<noteq> NULL then on_cf (file_new (fe e) rightname False) s else Some (NULL, s));
         s \<leftarrow> wr_ci ci (\<lambda>c. c\<lparr>right_file := r\<rparr>) s;
         if rightname \<noteq> NULL \<and> r = NULL then Some (NULL, s)
         else if l = NULL \<and> r = NULL then Some (NULL, s)
         else do {
           s \<leftarrow> SetStateAndTag e ci leftname rightname fExact s;
           c \<leftarrow> ld_ci ci s;
           if cistate c = STATE_DIFFER \<and> \<not> TrackDifferent e \<or> cistate c = STATE_SAME \<and> \<not> TrackSame e then do {
             s \<leftarrow> do_cf (file_delete (fe e) r) s;
             s \<leftarrow> do_cf (file_delete (fe e) l) s;
             s \<leftarrow> (if lst = NULL then do_wd (wfree (wenv_of e) ci sizeof_compitem) s
                else do_wd (\<lambda>w. do { h \<leftarrow> List_Delete ci (lh w); Some (purge h w) }) s);
             Some (ci, s\<lparr>cis := (cis s)(ci := None)\<rparr>)
           }
           else Some (ci, s)
         }
       }
     }
   }"

text \<open>\<open>e'\<close> is the environment after \<open>dir_rescanfile\<close> has read both files again.\<close>

definition compitem_rescan :: "cenv \<Rightarrow> cenv \<Rightarrow> ptr \<Rightarrow> cistore \<Rightarrow> cistore option" where
  "compitem_rescan e e' ci s = do {
     c \<leftarrow> ld_ci ci s;
     diLeft \<leftarrow> file_getdiritem (left_file c) (cf s);
     diRight \<leftarrow> file_getdiritem (right_file c) (cf s);
     s \<leftarrow> (if ciresult c \<noteq> NULL then do { s \<leftarrow> free_text e (ciresult c) s; wr_ci ci (\<lambda>c. c\<lparr>ciresult := NULL\<rparr>) s } else Some s);
     SetStateAndTag e' ci diLeft diRight True s
   }"

end
