(* ===== verification/Windiff_Rows.thy ===== *)
theory Windiff_Rows
  imports Windiff_Matchlists_Correct
begin

text \<open>
  From the lines of two files to their sections: what \<open>section_makelist\<close> makes of both files is
  what \<open>section_matchlists\<close> and \<open>section_makecomposite\<close> start from.
\<close>

lemma row_cong':
  assumes "row w L sl ls X G cs" "\<And>p. p \<in> set ls \<Longrightarrow> scs w' p = Some (X' p) \<and> X' p = X p \<and> G' p = G p"
    "\<And>c. fls w' c = None \<longleftrightarrow> fls w c = None" "L' sl = L sl" "lines_at w L cs \<Longrightarrow> lines_at w L' cs"
  shows "row w' L' sl ls X' G' cs"
proof -
  have "map G' ls = map G ls" using assms(2) by simp
  moreover have "concat (map G ls) = cs" using assms(1) by (simp add: row_def)
  ultimately have "concat (map G' ls) = cs" by (simp only:)
  moreover have "lines_at w' L' cs" using assms(1,3,5) by (auto simp: row_def lines_at_def)
  moreover have "\<forall>p \<in> set ls. scs w' p = Some (X' p) \<and> G' p \<noteq> [] \<and> sfirst (X' p) = hd (G' p) \<and> slast (X' p) = last (G' p)"
    using assms(1,2) by (simp add: row_def)
  ultimately show ?thesis using assms(1,4) by (simp add: row_def)
qed

text \<open>\<open>both_cut\<close>: the two lists of sections cut the two lists of lines.\<close>

definition both_cut :: "wenv \<Rightarrow> wd \<Rightarrow> view \<Rightarrow> ptr list \<Rightarrow> ptr list \<Rightarrow> (ptr \<Rightarrow> sect) \<Rightarrow> (ptr \<Rightarrow> ptr list) \<Rightarrow> bool" where
  "both_cut e w L ls rs X G \<longleftrightarrow> (\<forall>p \<in> set ls. cut e w L True (X p) (G p)) \<and> (\<forall>p \<in> set rs. cut e w L False (X p) (G p)) \<and>
     apart_segs w e (map G ls) \<and> apart_segs w e (map G rs) \<and> all_ended e w L (map G ls) \<and> all_ended e w L (map G rs)"

lemma both_cut_cong:
  assumes "lk w' = lk w" "line_text w' = line_text w" "\<And>c. fls w' c = None \<longleftrightarrow> fls w c = None"
  shows "both_cut e w' = both_cut e w"
proof -
  have b: "ign e w' = ign e w" by (simp add: fun_eq_iff ign_def blank_line_def assms(2))
  have a: "lines_at w' = lines_at w" by (simp add: fun_eq_iff lines_at_def assms(3))
  have f: "follows e w' = follows e w" by (simp add: fun_eq_iff follows_def a assms(1) b)
  have m: "matched_start e w' = matched_start e w" by (simp add: fun_eq_iff matched_start_def assms(1) b)
  have "cut e w' = cut e w" by (simp add: fun_eq_iff cut_def m matched_run_def assms(1) b f)
  moreover have "apart_segs w' e = apart_segs w e" by (simp add: fun_eq_iff apart_segs_def m)
  moreover have "ended e w' = ended e w" by (simp add: fun_eq_iff ended_def linked_lines_def assms(1) b f)
  then have "all_ended e w' L gs = all_ended e w L gs" for L gs by (induction gs) (simp_all add: m)
  ultimately show ?thesis by (simp add: fun_eq_iff both_cut_def)
qed

text \<open>Putting a list of sections into the view leaves the runs ended.\<close>

lemma lines_at_back: "lines_at w (L(l \<mapsto> qs)) cs \<Longrightarrow> sect_list w qs \<Longrightarrow> cs \<noteq> [] \<Longrightarrow> lines_at w L cs"
  by (auto simp: lines_at_def sect_list_def split: if_splits)

lemma all_ended_back: "all_ended e w L gs \<Longrightarrow> sect_list w qs \<Longrightarrow> all_ended e w (L(l \<mapsto> qs)) gs"
proof -
  assume s: "sect_list w qs"
  have "follows e w L x y" if f: "follows e w (L(l \<mapsto> qs)) x y" for x y
    using f lines_at_back [OF _ s] unfolding follows_def by blast
  then have "ended e w L g vs \<Longrightarrow> ended e w (L(l \<mapsto> qs)) g vs" for g vs unfolding ended_def by blast
  then show "all_ended e w L gs \<Longrightarrow> all_ended e w (L(l \<mapsto> qs)) gs" by (induction gs) simp_all
qed

definition separated :: "view \<Rightarrow> ptr \<Rightarrow> ptr \<Rightarrow> ptr list \<Rightarrow> ptr list \<Rightarrow> bool" where
  "separated L sl sr ql qr \<longleftrightarrow> sl \<noteq> sr \<and> sl \<notin> cells L \<and> sr \<notin> cells L \<and> set ql \<inter> cells L = {} \<and> set qr \<inter> cells L = {} \<and>
     distinct (map cursor ql @ map cursor qr)"

lemma makelists_rows:
  assumes S: "store e w L" and l: "L ll = Some il" "line_list w il" and r: "L lr = Some ir" "line_list w ir" and ga: "ample (lga e)"
  shows "\<exists>sl sr w1 w2 ql qr X G. section_makelist e ll True w = Some (sl, w1) \<and> section_makelist e lr False w1 = Some (sr, w2) \<and>
    sections_only w w2 \<and> store e w2 (L(sl \<mapsto> ql, sr \<mapsto> qr)) \<and> separated L sl sr ql qr \<and>
    row w2 (L(sl \<mapsto> ql, sr \<mapsto> qr)) sl (map cursor ql) X G (map cursor il) \<and>
    row w2 (L(sl \<mapsto> ql, sr \<mapsto> qr)) sr (map cursor qr) X G (map cursor ir) \<and>
    both_cut e w (L(sl \<mapsto> ql, sr \<mapsto> qr)) (map cursor ql) (map cursor qr) X G \<and>
    (\<forall>p. p \<notin> cursor ` (set ql \<union> set qr) \<longrightarrow> scs w2 p = scs w p)"
proof -
  obtain sl w1 ql X1 G1 where 1: "section_makelist e ll True w = Some (sl, w1)" "sections_only w w1" "sl \<notin> cells L"
    "store e w1 (L(sl \<mapsto> ql))" "set ql \<inter> cells L = {}" "\<forall>p. p \<notin> cursor ` set ql \<longrightarrow> scs w1 p = scs w p"
    "row w1 (L(sl \<mapsto> ql)) sl (map cursor ql) X1 G1 (map cursor il)"
    "\<forall>p \<in> cursor ` set ql. cut e w (L(sl \<mapsto> ql)) True (X1 p) (G1 p)" "apart_segs w e (map G1 (map cursor ql))"
    "all_ended e w L (map G1 (map cursor ql))"
    using makelist_row [OF S l ga, of True] by (elim exE conjE) (rule that)
  note F1 = sections_only_facts [OF 1(2)]
  let ?L1 = "L(sl \<mapsto> ql)"
  have ne: "lr \<noteq> sl" using 1(3) in_cellsI [of L lr ir lr] r(1) by auto
  have r1: "?L1 lr = Some ir" "line_list w1 ir" using r ne F1 by simp_all
  obtain sr w2 qr X2 G2 where 2: "section_makelist e lr False w1 = Some (sr, w2)" "sections_only w1 w2" "sr \<notin> cells ?L1"
    "store e w2 (?L1(sr \<mapsto> qr))" "set qr \<inter> cells ?L1 = {}" "\<forall>p. p \<notin> cursor ` set qr \<longrightarrow> scs w2 p = scs w1 p"
    "row w2 (?L1(sr \<mapsto> qr)) sr (map cursor qr) X2 G2 (map cursor ir)"
    "\<forall>p \<in> cursor ` set qr. cut e w1 (?L1(sr \<mapsto> qr)) False (X2 p) (G2 p)" "apart_segs w1 e (map G2 (map cursor qr))"
    "all_ended e w1 ?L1 (map G2 (map cursor qr))"
    using makelist_row [OF 1(4) r1 ga, of False] by (elim exE conjE) (rule that)
  let ?L2 = "?L1(sr \<mapsto> qr)"
  have sl1: "sl \<in> cells ?L1" "set ql \<subseteq> cells ?L1" using in_cellsI [of ?L1 sl ql] by auto
  have slr: "sl \<noteq> sr" using 2(3) sl1(1) by blast
  have none: "L sl = None" using 1(3) in_cellsI [of L sl _ sl] by (cases "L sl") auto
  have sub: "cells L \<subseteq> cells ?L1" using none by (auto simp: cells_put)
  have W2: "wf (lh w2) ?L2" using 2(4) by (simp add: store_def)
  have d: "distinct (map cursor ql @ map cursor qr)" by (rule apart_lists [OF W2 _ _ slr]) (use slr in simp_all)
  have sep: "separated L sl sr ql qr" using slr 1(3,5) 2(3,5) sub d by (auto simp: separated_def)
  define X where "X p = (if p \<in> cursor ` set ql then X1 p else X2 p)" for p
  define G where "G p = (if p \<in> cursor ` set ql then G1 p else G2 p)" for p
  have off: "p \<notin> cursor ` set ql" if "p \<in> cursor ` set qr" for p using d that by auto
  note F2 = sections_only_facts [OF 2(2)]
  have srn: "?L1 sr = None" using 2(3) in_cellsI [of ?L1 sr _ sr] by (cases "?L1 sr") auto
  have keep: "lines_same w1 ?L1 ?L2" by (rule lines_same_put) (use srn in simp)
  have "row w2 ?L2 sl (map cursor ql) X G (map cursor il)"
  proof (rule row_cong' [OF 1(7)])
    fix p assume p: "p \<in> set (map cursor ql)"
    then have "p \<notin> cursor ` set qr" using off by auto
    then have "scs w2 p = scs w1 p" using 2(6) by blast
    moreover have "scs w1 p = Some (X1 p)" using row_section(2) [OF 1(7) p] .
    ultimately show "scs w2 p = Some (X p) \<and> X p = X1 p \<and> G p = G1 p" using p by (simp add: X_def G_def)
  next
    fix c show "fls w2 c = None \<longleftrightarrow> fls w1 c = None" by (simp add: F2)
  next
    show "?L2 sl = ?L1 sl" using slr by simp
  next
    assume at: "lines_at w1 ?L1 (map cursor il)"
    have "ll \<noteq> sr" "ll \<noteq> sl" using 2(3) 1(3) sub in_cellsI [of L ll il ll] l(1) by auto
    then show "lines_at w1 ?L2 (map cursor il)" using l at unfolding lines_at_def by (intro conjI exI [of _ ll] exI [of _ il]) auto
  qed
  moreover have "row w2 ?L2 sr (map cursor qr) X G (map cursor ir)"
    by (rule row_cong' [OF 2(7)]) (use off 2(7) in \<open>auto simp: X_def G_def row_def\<close>)
  moreover have "both_cut e w ?L2 (map cursor ql) (map cursor qr) X G"
  proof -
    have cl: "cut e w ?L2 True (X p) (G p)" if "p \<in> set (map cursor ql)" for p
    proof -
      have "cut e w ?L1 True (X1 p) (G1 p)" using that by (intro 1(8) [rule_format]) simp
      moreover have "lines_same w ?L1 ?L2" by (rule lines_same_put) (use srn in simp)
      ultimately have "cut e w ?L2 True (X1 p) (G1 p)" using lines_same_run by (auto simp: cut_def)
      then show ?thesis using that by (simp add: X_def G_def)
    qed
    have cr: "cut e w ?L2 False (X p) (G p)" if "p \<in> set (map cursor qr)" for p
    proof -
      have "cut e w1 ?L2 False (X2 p) (G2 p)" using that by (intro 2(8) [rule_format]) simp
      then have "cut e w ?L2 False (X2 p) (G2 p)" by (auto simp: cut_def matched_start_def F1)
      then show ?thesis using that off by (simp add: X_def G_def)
    qed
    have mG: "map G (map cursor ql) = map G1 (map cursor ql)" "map G (map cursor qr) = map G2 (map cursor qr)" using off by (auto simp: G_def)
    have "matched_start e w1 = matched_start e w" by (simp add: fun_eq_iff matched_start_def F1)
    then have "apart_segs w1 e = apart_segs w e" by (simp add: fun_eq_iff apart_segs_def)
    then have "apart_segs w e (map G (map cursor ql))" "apart_segs w e (map G (map cursor qr))"
      unfolding mG using 1(9) 2(9) by (simp_all only:)
    note apart = this
    have "sect_list w ql" "sect_list w qr" using store_fresh [OF S] 1(5) 2(5) sub by (auto simp: sect_list_def)
    moreover have "lines_same w L ?L1" using none by (intro lines_same_put) simp
    note all_ended_mono [OF 2(10) 1(2) this]
    ultimately have "all_ended e w ?L2 (map G (map cursor ql))" "all_ended e w ?L2 (map G (map cursor qr))"
      unfolding mG using 1(10) by (blast intro: all_ended_back)+
    then show ?thesis using cl cr apart unfolding both_cut_def by blast
  qed
  moreover have "\<forall>p. p \<notin> cursor ` (set ql \<union> set qr) \<longrightarrow> scs w2 p = scs w p" using 1(6) 2(6) unfolding image_Un by simp
  ultimately show ?thesis using 1(1) 2(1,4) sections_only_trans [OF 1(2) 2(2)] sep
    by (intro exI [of _ sl] exI [of _ sr] exI [of _ w1] exI [of _ w2] exI [of _ ql] exI [of _ qr] exI [of _ X] exI [of _ G]) simp
qed

lemma both_cut_facts:
  assumes "both_cut e w L ls rs X G"
  shows "\<forall>p \<in> set ls \<union> set rs. slink (X p) = NULL" "\<forall>p \<in> set rs. sstate (X p) \<in> {STATE_SAME, STATE_RIGHTONLY}"
    "\<forall>p \<in> set ls. sstate (X p) \<in> {STATE_SAME, STATE_LEFTONLY}"
  using assms by (auto simp: both_cut_def cut_def split: if_splits)

lemma paired_ready:
  assumes P: "paired e w L sl sr ls rs X G csl csr" and ga: "ample (lga e)" and ne: "sl \<noteq> sr"
    and st: "\<forall>p \<in> set rs. sstate (X p) \<in> {STATE_SAME, STATE_RIGHTONLY}"
  shows "ready e w L X G sl sr ls rs"
proof -
  have "sects_ok w L (set ls \<union> set rs) X G"
    unfolding sects_ok_def
  proof (intro ballI)
    fix p assume p: "p \<in> set ls \<union> set rs"
    obtain l ps cs where R: "row w L l ps X G cs" "p \<in> set ps" using p pairedD(2,3) [OF P] by blast
    have "p \<in> cursor ` cells L" using R in_cellsI by (fastforce simp: row_def)
    moreover obtain as bs where "lines_at w L (as @ G p @ bs)" by (rule row_piece [OF R])
    moreover have "slink (X p) = NULL \<or> slink (X p) \<in> set ls \<union> set rs" using P p by (auto simp: paired_def)
    moreover have "scs w p = Some (X p\<lparr>sstate := sstate (X p)\<rparr>)" using row_section(2) [OF R] by simp
    ultimately show "p \<in> cursor ` cells L \<and> (\<exists>st. scs w p = Some (X p\<lparr>sstate := st\<rparr>)) \<and>
     G p \<noteq> [] \<and> sfirst (X p) = hd (G p) \<and> slast (X p) = last (G p) \<and> (\<exists>as bs. lines_at w L (as @ G p @ bs)) \<and>
     (slink (X p) = NULL \<or> slink (X p) \<in> set ls \<union> set rs)" using row_section [OF R] by blast
  qed
  then show ?thesis using assms paired_sect(1) [OF P] by (auto simp: ready_def paired_def row_def)
qed

end
