(* ===== verification/Windiff_Compare_Correct.thy ===== *)
theory Windiff_Compare_Correct
  imports Windiff_Compitem Windiff_Rows
begin

text \<open>
  Comparing two files (\<open>ci_compare\<close>): every pass makes new lists of sections and links more lines
  or ends the loop, so the loop ends; then the composite list shows both files.
\<close>

subsection \<open>What a pass leaves alone\<close>

definition links_grown :: "wenv \<Rightarrow> ptr set \<Rightarrow> ptr set \<Rightarrow> wd \<Rightarrow> wd \<Rightarrow> bool" where
  "links_grown e S T w w' \<longleftrightarrow> lines_ok e w' \<and> links_added S T w w' \<and> (\<forall>c. fls w' c = None \<longleftrightarrow> fls w c = None) \<and>
     line_text w' = line_text w \<and> (\<forall>c. line_getlinenr c w' = line_getlinenr c w)"

lemma links_grown_trans:
  assumes "links_grown e S T w w1" "links_grown e S T w1 w2"
  shows "links_grown e S T w w2"
proof -
  have "links_added S T w w2" using assms links_added_trans unfolding links_grown_def by blast
  then show ?thesis using assms by (simp add: links_grown_def)
qed

lemma links_grown_refl: "lines_ok e w \<Longrightarrow> links_grown e S T w w"
  by (simp add: links_grown_def links_added_refl)

lemma links_grown_sections_only: "lines_ok e w \<Longrightarrow> sections_only w w' \<Longrightarrow> links_grown e S T w w'"
proof -
  assume L: "lines_ok e w" and so: "sections_only w w'"
  note F = sections_only_facts [OF so]
  have "line_text w' = line_text w" by (simp add: fun_eq_iff line_text_def F)
  then show ?thesis using L by (simp add: links_grown_def links_added_refl F)
qed

lemma links_grown_touching: "touching e S T w w' \<Longrightarrow> links_grown e S T w w'"
proof -
  assume t: "touching e S T w w'"
  let ?w = "w\<lparr>ts := ts w', scs := scs w', wtrace := wtrace w'\<rparr>"
  have K: "kept ?w w'" using t by (simp add: touching_def)
  have "line_text w' = line_text w" using kept_text(1) [OF K] by (simp add: fun_eq_iff line_text_def)
  moreover have "line_getlinenr c w' = line_getlinenr c w" for c using kept_nr [OF K] by (simp add: line_getlinenr_def ld_line_def)
  ultimately show ?thesis using t touching_live(1) [OF t] by (simp add: links_grown_def touching_def)
qed

lemma links_grown_changed:
  assumes "links_grown e S T w w1" "links_grown e S T w1 w2" "NULL \<notin> S" "NULL \<notin> T"
  shows "lk w2 \<noteq> lk w \<longleftrightarrow> lk w1 \<noteq> lk w \<or> lk w2 \<noteq> lk w1"
  using links_added_changed assms unfolding links_grown_def by blast

text \<open>Changes of the trees' memory only.\<close>

lemma ts_only:
  "lines_ok e (w\<lparr>ts := t, scs := s\<rparr>) = lines_ok e w" "lk (w\<lparr>ts := t, scs := s\<rparr>) = lk w"
  "line_list (w\<lparr>ts := t, scs := s\<rparr>) = line_list w" "line_text (w\<lparr>ts := t, scs := s\<rparr>) = line_text w"
  "line_getlinenr c (w\<lparr>ts := t, scs := s\<rparr>) = line_getlinenr c w"
proof -
  show k: "lk (w\<lparr>ts := t, scs := s\<rparr>) = lk w" by (simp add: fun_eq_iff lk_def)
  show t: "line_text (w\<lparr>ts := t, scs := s\<rparr>) = line_text w" by (simp add: fun_eq_iff line_text_def)
  then have "line_key e (w\<lparr>ts := t, scs := s\<rparr>) = line_key e w" by (simp add: fun_eq_iff line_key_def)
  then show "lines_ok e (w\<lparr>ts := t, scs := s\<rparr>) = lines_ok e w" by (simp add: lines_ok_def line_ok_def k)
  show "line_list (w\<lparr>ts := t, scs := s\<rparr>) = line_list w" by (simp add: fun_eq_iff line_list_def)
  show "line_getlinenr c (w\<lparr>ts := t, scs := s\<rparr>) = line_getlinenr c w" by (simp add: line_getlinenr_def ld_line_def)
qed

lemma store_ts: "store e w L \<Longrightarrow> store e (w\<lparr>ts := t, scs := s\<rparr>) L"
  by (simp add: store_def ts_only)

subsection \<open>The sections that cover whole files\<close>

lemma section_size: "1 \<le> sizeof_section" "sizeof_section \<le> MAXGALLOC"
  by (simp_all add: sizeof_section_def MAXGALLOC_def)

lemma new_whole:
  assumes "mem_ok e w A"
  shows "\<exists>p t. section_new e a b NULL w = Some (p, w\<lparr>ts := t, scs := (scs w)(p \<mapsto> (new_sect a b)\<lparr>bDiscard := False\<rparr>)\<rparr>) \<and>
    p \<noteq> NULL \<and> A p = None \<and> mem_ok e (w\<lparr>ts := t, scs := (scs w)(p \<mapsto> (new_sect a b)\<lparr>bDiscard := False\<rparr>)\<rparr>) (A(p \<mapsto> sizeof_section))"
proof -
  obtain p g where "tget (genv e) (wheap e) sizeof_section (ts w) = Some (p, (ts w)\<lparr>gm := g\<rparr>)" "p \<noteq> NULL" "A p = None"
    "gm_sound (osalloc (genv e)) (useranswer (genv e)) (wheap e) g (A(p \<mapsto> sizeof_section))"
    using tget_spec [OF assms [unfolded mem_ok_def] section_size] by blast
  then show ?thesis by (intro exI [of _ p] exI [of _ "(ts w)\<lparr>gm := g\<rparr>"])
    (simp add: section_new_def wget_def on_tree_def new_sect_def mem_ok_def)
qed

lemma whole_within:
  assumes S: "store e w L" and l: "L l = Some its" "line_list w its" "its \<noteq> []"
    and s: "scs w p = Some ((new_sect (start (map cursor its)) (last (map cursor its)))\<lparr>bDiscard := False\<rparr>)"
  shows "within w p [] (map cursor its) []"
proof -
  have "lined w (map cursor its)" unfolding lined_def using S l(1) by (auto simp: store_def)
  then show ?thesis using l s by (cases its) (auto simp: within_def line_list_def new_sect_def)
qed

text \<open>Matching two whole files; there may be no lines.\<close>

lemma match_whole:
  assumes E: "env_ok e" and S: "store e w L" and l: "L ll = Some il" "line_list w il" and r: "L lr = Some ir" "line_list w ir"
    and A: "mem_ok e w A" and pq: "p \<noteq> NULL" "q \<noteq> NULL"
    and sp: "scs w p = Some ((new_sect (start (map cursor il)) (if il = [] then NULL else last (map cursor il)))\<lparr>bDiscard := False\<rparr>)"
    and sq: "scs w q = Some ((new_sect (start (map cursor ir)) (if ir = [] then NULL else last (map cursor ir)))\<lparr>bDiscard := False\<rparr>)"
  shows "\<exists>w'. section_match e p q d w = Some (lk w' \<noteq> lk w, w') \<and> touching e (set (map cursor il)) (set (map cursor ir)) w w' \<and>
    mem_ok e w' A \<and> scs w' = scs w \<and> lh w' = lh w"
proof (cases "il = [] \<or> ir = []")
  case True
  have "section_match e p q d w = Some (False, w)" using pq sp sq True by (auto simp: section_match_def ld_sect_def new_sect_def)
  then show ?thesis using A S touching_refl by (intro exI [of _ w]) (auto simp: store_def)
next
  case False
  have W: "within w p [] (map cursor il) []" "within w q [] (map cursor ir) []"
    using whole_within [OF S l] whole_within [OF S r] False sp sq by simp_all
  have L: "lines_ok e w" using S by (simp add: store_def)
  obtain w' where M: "section_match e p q d w = Some (lk w' \<noteq> lk w, w')"
    "matching e (set [] \<union> set (map cursor il)) (set [] \<union> set (map cursor ir)) w w'" "mem_ok e w' A"
    using section_match_spec [OF E L W pq A, of d] by (elim exE conjE) (rule that)
  have "touching e (set (map cursor il)) (set (map cursor ir)) w w'" using touching_matching [OF M(2)] by simp
  moreover have "scs w' = scs w" "lh w' = lh w" using M(2) by (simp_all add: matching_def kept_def)
  ultimately show ?thesis using M(1,3) by blast
qed

subsection \<open>Deleting a list of sections\<close>

lemma section_deletelist_spec:
  assumes S: "store e w L" and l: "L sl = Some qs" "sect_list w qs"
  shows "\<exists>w'. section_deletelist sl w = Some w' \<and> sections_only w w' \<and> store e w' (L(sl := None))"
proof -
  have W: "wf (lh w) L" using S by (simp add: store_def)
  obtain s' where D: "List_Destroy (Some sl) (lh w) = Some (Some NULL, s')" "wf s' (L(sl := None))" using List_Destroy_spec [OF W l(1)] by blast
  define dead where "dead p \<longleftrightarrow> items (lh w) (MOVEBACK p) \<noteq> None \<and> items s' (MOVEBACK p) = None" for p
  have alive: "\<not> dead p \<and> (\<exists>m its. (L(sl := None)) m = Some its \<and> p \<in> cursor ` set its \<and> line_list w its)" if p: "fls w p \<noteq> None" for p
  proof -
    obtain m its where m: "L m = Some its" "p \<in> cursor ` set its" "line_list w its" using S p by (auto simp: store_def)
    then have "m \<noteq> sl" using l by (auto simp: line_list_def sect_list_def)
    then have m': "(L(sl := None)) m = Some its" using m(1) by simp
    obtain i where i: "i \<in> set its" "p = cursor i" using m(2) by blast
    have "i \<in> cells (L(sl := None))" using in_cellsI [of "L(sl := None)" m its i] m' i(1) by simp
    then have "items s' i \<noteq> None" using D(2) wf_live by blast
    then have "\<not> dead p" by (simp add: dead_def i(2))
    then show ?thesis using m' m(2,3) by blast
  qed
  have f: "(\<lambda>p. if dead p then None else fls w p) = fls w"
  proof (rule ext)
    fix p show "(if dead p then None else fls w p) = fls w p" using alive [of p] by (cases "fls w p = None") auto
  qed
  define w' where "w' = w\<lparr>lh := s', scs := (\<lambda>p. if dead p then None else scs w p)\<rparr>"
  have run: "section_deletelist sl w = Some w'"
    using D(1) f unfolding w'_def dead_def by (simp add: section_deletelist_def wList_Destroy_def purge_def Let_def)
  have so: "sections_only w w'" by (simp add: sections_only_def w'_def)
  note F = sections_only_facts [OF so]
  have "store e w' (L(sl := None))"
    using S D(2) alive by (auto simp: store_def F) (simp add: w'_def)
  then show ?thesis using run so by blast
qed

subsection \<open>One pass\<close>

text \<open>\<open>older w L ll lr s\<close>: \<open>s\<close> is no list yet, or a list of sections.\<close>

definition older :: "wd \<Rightarrow> view \<Rightarrow> ptr \<Rightarrow> ptr \<Rightarrow> ptr \<Rightarrow> bool" where
  "older w L ll lr s \<longleftrightarrow> s = NULL \<or> s \<noteq> ll \<and> s \<noteq> lr \<and> (\<exists>qs. L s = Some qs \<and> sect_list w qs)"

text \<open>The state of a comparison between two passes.\<close>

definition comparing :: "wenv \<Rightarrow> wd \<Rightarrow> view \<Rightarrow> pieces \<Rightarrow> ptr \<Rightarrow> ptr \<Rightarrow> ptr list \<Rightarrow> ptr list \<Rightarrow> ptr \<Rightarrow> ptr \<Rightarrow> bool" where
  "comparing e w L A ll lr il ir sl sr \<longleftrightarrow> store e w L \<and> mem_ok e w A \<and> L ll = Some il \<and> line_list w il \<and> L lr = Some ir \<and>
     line_list w ir \<and> older w L ll lr sl \<and> older w L ll lr sr \<and> (sl = sr \<longrightarrow> sl = NULL)"

lemma drop_older:
  assumes S: "store e w L" and o: "older w L ll lr s"
  shows "\<exists>w' L'. (if s \<noteq> NULL then section_deletelist s w else Some w) = Some w' \<and> sections_only w w' \<and> store e w' L' \<and>
    L' ll = L ll \<and> L' lr = L lr \<and> (\<forall>t. t \<noteq> s \<longrightarrow> L' t = L t)"
proof (cases "s = NULL")
  case True
  then show ?thesis using S by (intro exI [of _ w] exI [of _ L]) (simp add: sections_only_refl)
next
  case False
  then obtain qs where q: "s \<noteq> ll" "s \<noteq> lr" "L s = Some qs" "sect_list w qs" using o by (auto simp: older_def)
  obtain w' where "section_deletelist s w = Some w'" "sections_only w w'" "store e w' (L(s := None))"
    using section_deletelist_spec [OF S q(3,4)] by blast
  then show ?thesis using False q by (intro exI [of _ w'] exI [of _ "L(s := None)"]) simp
qed

lemma older_cong: "older w L ll lr s \<Longrightarrow> L' s = L s \<Longrightarrow> (\<And>c. fls w' c = None \<longleftrightarrow> fls w c = None) \<Longrightarrow> older w' L' ll lr s"
  by (auto simp: older_def sect_list_def)

lemma ends_of_list:
  assumes "store e w L" "L l = Some its"
  shows "on_list (List_First l) w = Some (start (map cursor its), w)"
    "on_list (List_Last l) w = Some (if its = [] then NULL else last (map cursor its), w)"
  using assms List_First_spec [of "lh w" L l its] List_Last_spec [of "lh w" L l its]
  by (cases its; simp add: on_list_def store_def last_map)+

lemma linked_up_cong: "lk w' = lk w \<Longrightarrow> linked_up w' = linked_up w"
proof -
  assume k: "lk w' = lk w"
  have f: "first_linked w' g = first_linked w g" for g by (induction g) (simp_all add: k)
  show ?thesis by (simp add: fun_eq_iff linked_up_def meets_def f k)
qed

text \<open>The matching of the two files as wholes.\<close>

lemma match_files:
  assumes E: "env_ok e" and C: "comparing e w L A ll lr il ir sl sr"
  shows "\<exists>p q w1 w2 w3 A'. section_new e (start (map cursor il)) (if il = [] then NULL else last (map cursor il)) NULL w = Some (p, w1) \<and>
    section_new e (start (map cursor ir)) (if ir = [] then NULL else last (map cursor ir)) NULL w1 = Some (q, w2) \<and>
    section_match e p q d w2 = Some (lk w3 \<noteq> lk w, w3) \<and> section_delete e p w3 = Some w3 \<and> section_delete e q w3 = Some w3 \<and>
    store e w1 L \<and> store e w3 L \<and> links_grown e (set (map cursor il)) (set (map cursor ir)) w w3 \<and> mem_ok e w3 A'"
proof -
  let ?bl = "if il = [] then NULL else last (map cursor il)" and ?br = "if ir = [] then NULL else last (map cursor ir)"
  have S: "store e w L" and A: "mem_ok e w A" and l: "L ll = Some il" "line_list w il" and r: "L lr = Some ir" "line_list w ir"
    using C by (simp_all add: comparing_def)
  let ?X = "(new_sect (start (map cursor il)) ?bl)\<lparr>bDiscard := False\<rparr>"
  let ?Y = "(new_sect (start (map cursor ir)) ?br)\<lparr>bDiscard := False\<rparr>"
  obtain p t where p: "section_new e (start (map cursor il)) ?bl NULL w = Some (p, w\<lparr>ts := t, scs := (scs w)(p \<mapsto> ?X)\<rparr>)" "p \<noteq> NULL"
    "mem_ok e (w\<lparr>ts := t, scs := (scs w)(p \<mapsto> ?X)\<rparr>) (A(p \<mapsto> sizeof_section))" using new_whole [OF A] by blast
  define w1 where "w1 = w\<lparr>ts := t, scs := (scs w)(p \<mapsto> ?X)\<rparr>"
  obtain q u where q: "section_new e (start (map cursor ir)) ?br NULL w1 = Some (q, w1\<lparr>ts := u, scs := (scs w1)(q \<mapsto> ?Y)\<rparr>)" "q \<noteq> NULL"
    "(A(p \<mapsto> sizeof_section)) q = None"
    "mem_ok e (w1\<lparr>ts := u, scs := (scs w1)(q \<mapsto> ?Y)\<rparr>) (A(p \<mapsto> sizeof_section, q \<mapsto> sizeof_section))"
    using new_whole [of e w1 "A(p \<mapsto> sizeof_section)"] p(3) unfolding w1_def by blast
  define w2 where "w2 = w1\<lparr>ts := u, scs := (scs w1)(q \<mapsto> ?Y)\<rparr>"
  have pq: "q \<noteq> p" using q(3) by auto
  have S1: "store e w1 L" using store_ts [OF S] by (simp add: w1_def)
  have S2: "store e w2 L" using store_ts [OF S1] by (simp add: w2_def)
  have k2: "lk w2 = lk w" "line_list w2 = line_list w" "line_text w2 = line_text w" "\<And>c. line_getlinenr c w2 = line_getlinenr c w"
    by (simp_all add: w2_def w1_def ts_only)
  have f2: "fls w2 = fls w" by (simp add: w2_def w1_def)
  have sp: "scs w2 p = Some ?X" and sq: "scs w2 q = Some ?Y" using pq by (simp_all add: w2_def w1_def)
  obtain w3 where M: "section_match e p q d w2 = Some (lk w3 \<noteq> lk w2, w3)"
    "touching e (set (map cursor il)) (set (map cursor ir)) w2 w3" "mem_ok e w3 (A(p \<mapsto> sizeof_section, q \<mapsto> sizeof_section))"
    "scs w3 = scs w2" "lh w3 = lh w2"
    using match_whole [OF E S2 l(1) l(2) [folded k2(2)] r(1) r(2) [folded k2(2)] q(4) [folded w2_def] p(2) q(2) sp sq, of d] by blast
  have S3: "store e w3 L" by (rule store_cong [OF S2]) (use M touching_live [OF M(2)] in \<open>simp_all add: touching_def\<close>)
  have "lines_ok e w2" using S2 by (simp add: store_def)
  then have "links_grown e (set (map cursor il)) (set (map cursor ir)) w w2" by (simp add: links_grown_def k2 f2 links_added_refl)
  then have G: "links_grown e (set (map cursor il)) (set (map cursor ir)) w w3" using links_grown_touching [OF M(2)] links_grown_trans by blast
  have "section_delete e p w3 = Some w3" "section_delete e q w3 = Some w3"
    using p(2) q(2) sp sq M(4) by (simp_all add: section_delete_def ld_sect_def new_sect_def)
  then show ?thesis using p(1) q(1) M(1,3) S1 S3 G k2(1) unfolding w1_def [symmetric] w2_def [symmetric] by auto
qed

text \<open>What a pass ends with: two lists of sections, linked to each other.\<close>

definition sections_made :: "wenv \<Rightarrow> wd \<Rightarrow> wd \<Rightarrow> view \<Rightarrow> ptr list \<Rightarrow> ptr list \<Rightarrow> ptr \<Rightarrow> ptr \<Rightarrow> ptr list \<Rightarrow> ptr list \<Rightarrow>
    (ptr \<Rightarrow> sect) \<Rightarrow> (ptr \<Rightarrow> sect) \<Rightarrow> (ptr \<Rightarrow> ptr list) \<Rightarrow> bool" where
  "sections_made e w w' L' il ir sl sr ls rs X Y G \<longleftrightarrow> sl \<noteq> sr \<and> paired e w' L' sl sr ls rs Y G (map cursor il) (map cursor ir) \<and>
     (\<forall>x. sstate (Y x) = sstate (X x)) \<and> (\<forall>p \<in> set rs. sstate (X p) \<in> {STATE_SAME, STATE_RIGHTONLY}) \<and>
     (lk w' = lk w \<longrightarrow> both_cut e w' L' ls rs X G \<and> linked_up w' X Y G ls rs)"

lemma separated_lists:
  assumes "separated L sl sr ql qr" "L l = Some its"
  shows "sl \<noteq> l" "sr \<noteq> l"
  using assms in_cellsI [of L l its l] by (auto simp: separated_def)

lemma fresh_sections:
  assumes S: "store e w L" and w: "sections_only w w2" and d: "set qs \<inter> cells L = {}"
  shows "sect_list w2 qs"
  using store_fresh [OF S] d sections_only_facts(1) [OF w] by (auto simp: sect_list_def)

lemma compare_round_spec:
  assumes E: "env_ok e" and ga: "ample (lga e)" and C: "comparing e w L A ll lr il ir sl sr"
  shows "\<exists>w' L' A' sl' sr' ls rs X Y G. compare_round e ll lr d sl sr w = Some (lk w' \<noteq> lk w, sl', sr', w') \<and>
    links_grown e (set (map cursor il)) (set (map cursor ir)) w w' \<and> comparing e w' L' A' ll lr il ir sl' sr' \<and>
    sections_made e w w' L' il ir sl' sr' ls rs X Y G"
proof -
  let ?S = "set (map cursor il)" and ?T = "set (map cursor ir)"
  have l: "L ll = Some il" "line_list w il" and r: "L lr = Some ir" "line_list w ir" and S: "store e w L"
    and ol: "older w L ll lr sl" and orr: "older w L ll lr sr" and ne: "sl = sr \<longrightarrow> sl = NULL"
    using C by (simp_all add: comparing_def)
  obtain p q w1 w2 w3 A' where M: "section_new e (start (map cursor il)) (if il = [] then NULL else last (map cursor il)) NULL w = Some (p, w1)"
    "section_new e (start (map cursor ir)) (if ir = [] then NULL else last (map cursor ir)) NULL w1 = Some (q, w2)"
    "section_match e p q d w2 = Some (lk w3 \<noteq> lk w, w3)" "section_delete e p w3 = Some w3" "section_delete e q w3 = Some w3"
    "store e w1 L" "store e w3 L" "links_grown e ?S ?T w w3" "mem_ok e w3 A'"
    using match_files [OF E C, of d] by (elim exE conjE) (rule that)
  have f3: "fls w3 c = None \<longleftrightarrow> fls w c = None" for c using M(8) by (simp add: links_grown_def)
  have "older w3 L ll lr sl" by (rule older_cong) (use ol f3 in simp_all)
  from drop_older [OF M(7) this] obtain w4 L4 where D4: "(if sl \<noteq> NULL then section_deletelist sl w3 else Some w3) = Some w4"
    "sections_only w3 w4" "store e w4 L4" "L4 ll = L ll" "L4 lr = L lr" "\<forall>t. t \<noteq> sl \<longrightarrow> L4 t = L t" by blast
  have f4: "fls w4 c = None \<longleftrightarrow> fls w c = None" for c using f3 sections_only_facts(1) [OF D4(2)] by simp
  have "older w4 L4 ll lr sr"
  proof (cases "sr = NULL")
    case True
    then show ?thesis by (simp add: older_def)
  next
    case False
    then have "L4 sr = L sr" using ne D4(6) by metis
    then show ?thesis using f4 by (intro older_cong [of w L ll lr sr L4 w4, OF orr])
  qed
  from drop_older [OF D4(3) this] obtain w5 L5 where D5: "(if sr \<noteq> NULL then section_deletelist sr w4 else Some w4) = Some w5"
    "sections_only w4 w5" "store e w5 L5" "L5 ll = L4 ll" "L5 lr = L4 lr" by blast
  have f5: "fls w5 c = None \<longleftrightarrow> fls w c = None" for c using f4 sections_only_facts(1) [OF D5(2)] by simp
  have l5: "L5 ll = Some il" "line_list w5 il" and r5: "L5 lr = Some ir" "line_list w5 ir"
    using l r D4(4,5) D5(4,5) f5 by (simp_all add: line_list_def)
  obtain sl' sr' w6 w7 ql qr X G where K: "section_makelist e ll True w5 = Some (sl', w6)" "section_makelist e lr False w6 = Some (sr', w7)"
    "sections_only w5 w7" "store e w7 (L5(sl' \<mapsto> ql, sr' \<mapsto> qr))" "separated L5 sl' sr' ql qr"
    "row w7 (L5(sl' \<mapsto> ql, sr' \<mapsto> qr)) sl' (map cursor ql) X G (map cursor il)"
    "row w7 (L5(sl' \<mapsto> ql, sr' \<mapsto> qr)) sr' (map cursor qr) X G (map cursor ir)"
    "both_cut e w5 (L5(sl' \<mapsto> ql, sr' \<mapsto> qr)) (map cursor ql) (map cursor qr) X G"
    using makelists_rows [OF D5(3) l5 r5 ga] by (elim exE conjE) (rule that)
  let ?L = "L5(sl' \<mapsto> ql, sr' \<mapsto> qr)" and ?ls = "map cursor ql" and ?rs = "map cursor qr"
  have so: "sections_only w3 w7" using sections_only_trans D4(2) D5(2) K(3) by blast
  note F7 = sections_only_facts [OF so] and F57 = sections_only_facts [OF K(3)]
  have A7: "mem_ok e w7 A'" using M(9) by (simp add: mem_ok_def F7)
  have dd: "distinct (?ls @ ?rs)" "sl' \<noteq> sr'" using K(5) by (simp_all add: separated_def)
  obtain w8 Y where R: "section_matchlists e sl' sr' d w7 = Some (lk w8 \<noteq> lk w7, w8)"
    "paired e w8 ?L sl' sr' ?ls ?rs Y G (map cursor il) (map cursor ir)" "linked_up w7 X Y G ?ls ?rs"
    "\<forall>x. sstate (Y x) = sstate (X x)" "touching e ?S ?T w7 w8" "mem_ok e w8 A'"
    using section_matchlists_spec [OF E K(4,6,7) dd(1) A7 both_cut_facts(1) [OF K(8)], of d] by (elim exE conjE) (rule that)
  have L7: "lines_ok e w3" using M(7) by (simp add: store_def)
  have G37: "links_grown e ?S ?T w w7" using links_grown_trans [OF M(8) links_grown_sections_only [OF L7 so]] .
  have G78: "links_grown e ?S ?T w7 w8" by (rule links_grown_touching [OF R(5)])
  have nul: "NULL \<notin> ?S" "NULL \<notin> ?T" using row_nonnull(2) [OF K(4,6)] row_nonnull(2) [OF K(4,7)] by simp_all
  have ch: "(lk w3 \<noteq> lk w \<or> lk w8 \<noteq> lk w7) = (lk w8 \<noteq> lk w)" using links_grown_changed [OF G37 G78 nul] F7(3) by simp
  have run: "compare_round e ll lr d sl sr w = Some (lk w8 \<noteq> lk w, sl', sr', w8)"
    using ends_of_list [OF S l(1)] ends_of_list [OF M(6) r(1)] M(1-5) D4(1) D5(1) K(1,2) R(1) ch unfolding compare_round_def
    by (simp del: if_split not_None_eq split del: if_split)
  have G: "links_grown e ?S ?T w w8" by (rule links_grown_trans [OF G37 G78])
  have f8: "fls w8 c = None \<longleftrightarrow> fls w c = None" for c using G by (simp add: links_grown_def)
  have "older w7 ?L ll lr sl'" "older w7 ?L ll lr sr'"
    using separated_lists [OF K(5) l5(1)] separated_lists [OF K(5) r5(1)] dd(2) K(5) fresh_sections [OF D5(3) K(3)]
    by (simp_all add: older_def separated_def)
  then have od: "older w8 ?L ll lr sl'" "older w8 ?L ll lr sr'" using older_cong [of w7 ?L ll lr _ ?L w8] f8 f5 F57(1) by simp_all
  have "comparing e w8 ?L A' ll lr il ir sl' sr'"
    using R(2,6) l r separated_lists [OF K(5) l5(1)] separated_lists [OF K(5) r5(1)] l5(1) r5(1) f8 od dd(2)
    by (simp add: comparing_def paired_def line_list_def)
  moreover have "sections_made e w w8 ?L il ir sl' sr' ?ls ?rs X Y G"
  proof -
    have "both_cut e w8 ?L ?ls ?rs X G \<and> linked_up w8 X Y G ?ls ?rs" if k: "lk w8 = lk w"
    proof -
      have k7: "lk w8 = lk w7" using ch k by simp
      have t8: "line_text w8 = line_text w7" using G78 by (simp add: links_grown_def)
      have "lk w8 = lk w5" "line_text w8 = line_text w5" using k7 t8 F57 by (simp_all add: fun_eq_iff line_text_def)
      then have "both_cut e w8 = both_cut e w5" using f8 f5 by (intro both_cut_cong) simp_all
      then show ?thesis using K(8) R(3) linked_up_cong [OF k7] by simp
    qed
    then show ?thesis using dd(2) R(2,4) both_cut_facts(2) [OF K(8)] unfolding sections_made_def by blast
  qed
  ultimately show ?thesis using run G by (intro exI conjI)
qed

subsection \<open>The loop\<close>

text \<open>The lines of the two files that are not linked yet.\<close>

definition unlinked_lines :: "wd \<Rightarrow> ptr set \<Rightarrow> nat" where
  "unlinked_lines w S = card {c \<in> S. lk w c = NULL}"

lemma unlinked_lines_decrease:
  assumes g: "links_grown e S T w w'" and c: "lk w' \<noteq> lk w" and f: "finite (S \<union> T)" "NULL \<notin> S \<union> T"
  shows "unlinked_lines w' (S \<union> T) < unlinked_lines w (S \<union> T)"
proof -
  have A: "lk w p = NULL \<and> (p \<in> S \<and> lk w' p \<in> T \<or> p \<in> T \<and> lk w' p \<in> S)" if "lk w' p \<noteq> lk w p" for p
    using g that by (simp add: links_grown_def links_added_def)
  obtain p where p: "lk w' p \<noteq> lk w p" using c by auto
  have "p \<in> {c \<in> S \<union> T. lk w c = NULL}" using A [OF p] by blast
  moreover have "lk w' p \<noteq> NULL" using A [OF p] f(2) by (metis UnI1 UnI2)
  moreover have "lk w c = NULL" if "lk w' c = NULL" for c using A [of c] that by metis
  then have "{c \<in> S \<union> T. lk w' c = NULL} \<subseteq> {c \<in> S \<union> T. lk w c = NULL}" by (intro Collect_mono) simp
  ultimately have "{c \<in> S \<union> T. lk w' c = NULL} \<subset> {c \<in> S \<union> T. lk w c = NULL}" 
    by (metis (mono_tags, lifting) mem_Collect_eq psubsetI)
  then show ?thesis using f(1) unfolding unlinked_lines_def by (intro psubset_card_mono) simp_all
qed

lemma ci_compare_loop_spec:
  assumes E: "env_ok e" and ga: "ample (lga e)" and C: "comparing e w L A ll lr il ir sl sr"
  shows "\<exists>w' L' A' sl' sr' ls rs X Y G. ci_compare_loop e alg2 ll lr d sl sr w = Some (sl', sr', w') \<and>
    links_grown e (set (map cursor il)) (set (map cursor ir)) w w' \<and> comparing e w' L' A' ll lr il ir sl' sr' \<and>
    sections_made e w' w' L' il ir sl' sr' ls rs X Y G"
  using C
proof (induction "2 * unlinked_lines w (set (map cursor il) \<union> set (map cursor ir)) + (if d then 0 else 1)"
    arbitrary: w L A sl sr d rule: less_induct)
  case less
  let ?S = "set (map cursor il)" and ?T = "set (map cursor ir)"
  obtain w1 L1 A1 sl1 sr1 ls rs X Y G where R: "compare_round e ll lr d sl sr w = Some (lk w1 \<noteq> lk w, sl1, sr1, w1)"
    "links_grown e ?S ?T w w1" "comparing e w1 L1 A1 ll lr il ir sl1 sr1" "sections_made e w w1 L1 il ir sl1 sr1 ls rs X Y G"
    using compare_round_spec [OF E ga less.prems, of d] by (elim exE conjE) (rule that)
  have goes: ?case if run: "ci_compare_loop e alg2 ll lr d sl sr w = ci_compare_loop e alg2 ll lr d' sl1 sr1 w1"
    and m: "2 * unlinked_lines w1 (?S \<union> ?T) + (if d' then 0 else 1) < 2 * unlinked_lines w (?S \<union> ?T) + (if d then 0 else 1)" for d'
  proof -
    obtain w' L' A' sl' sr' ls rs X Y G where I: "ci_compare_loop e alg2 ll lr d' sl1 sr1 w1 = Some (sl', sr', w')"
      "links_grown e ?S ?T w1 w'" "comparing e w' L' A' ll lr il ir sl' sr'" "sections_made e w' w' L' il ir sl' sr' ls rs X Y G"
      using less.hyps [OF m R(3)] by (elim exE conjE) (rule that)
    show ?thesis unfolding run by (intro exI conjI) (rule I(1,3,4) links_grown_trans [OF R(2) I(2)])+
  qed
  show ?case
  proof (cases "lk w1 = lk w")
    case False
    have S: "store e w1 L1" using R(3) by (simp add: comparing_def)
    have nul: "NULL \<notin> ?S \<union> ?T" using R(4) row_nonnull(2) [OF S] by (auto simp: sections_made_def paired_def)
    have "unlinked_lines w1 (?S \<union> ?T) < unlinked_lines w (?S \<union> ?T)" using unlinked_lines_decrease [OF R(2) False _ nul] by simp
    then show ?thesis using R(1) False by (intro goes [of False]) (simp_all add: ci_compare_loop.simps [of e alg2 ll lr d])
  next
    case True
    show ?thesis
    proof (cases "\<not> d \<and> alg2")
      case again: True
      have "unlinked_lines w1 (?S \<union> ?T) = unlinked_lines w (?S \<union> ?T)" by (simp add: unlinked_lines_def True)
      then show ?thesis using R(1) True again by (intro goes [of True]) (simp_all add: ci_compare_loop.simps [of e True ll lr False])
    next
      case False
      then have "ci_compare_loop e alg2 ll lr d sl sr w = Some (sl1, sr1, w1)" using R(1) True by (auto simp: ci_compare_loop.simps [of e alg2 ll lr d])
      moreover have "sections_made e w1 w1 L1 il ir sl1 sr1 ls rs X Y G" using R(4) True by (simp add: sections_made_def)
      ultimately show ?thesis using R(2,3) by (intro exI conjI)
    qed
  qed
qed

end
