(* ===== verification/Windiff_Partners_Correct.thy ===== *)
theory Windiff_Partners_Correct
  imports Windiff_Compare_Correct
begin

text \<open>
  Every matched section that has a linked line has a partner: runs of matched lines are as long as
  they can be on both sides, so the first linked line of a run is linked to the first one of a run.
  So the composite list leaves out ignorable lines only.
\<close>

text \<open>The links of the lines of two files lead to each other.\<close>

definition across :: "wd \<Rightarrow> ptr list \<Rightarrow> ptr list \<Rightarrow> bool" where
  "across w csl csr \<longleftrightarrow> (\<forall>c \<in> set csl. lk w c \<in> insert NULL (set csr)) \<and> (\<forall>c \<in> set csr. lk w c \<in> insert NULL (set csl))"

lemma across_links_grown:
  assumes "across w csl csr" "links_grown e (set csl) (set csr) w w'" "set csl \<inter> set csr = {}"
  shows "across w' csl csr"
proof -
  have A: "lk w' p = lk w p \<or> (p \<in> set csl \<and> lk w' p \<in> set csr \<or> p \<in> set csr \<and> lk w' p \<in> set csl)" for p
    using assms(2) by (auto simp: links_grown_def links_added_def)
  have "lk w' c \<in> insert NULL (set csr)" if "c \<in> set csl" for c using A [of c] that assms(1,3) by (auto simp: across_def)
  moreover have "lk w' c \<in> insert NULL (set csl)" if "c \<in> set csr" for c using A [of c] that assms(1,3) by (auto simp: across_def)
  ultimately show ?thesis by (simp add: across_def)
qed

lemma store_links:
  assumes "store e w L" "lk w c \<noteq> NULL"
  shows "lk w (lk w c) = c" "c \<noteq> NULL" "lk w (lk w c) \<noteq> NULL"
proof -
  show k: "lk w (lk w c) = c" using assms by (auto simp: store_def lines_ok_def)
  have "lk w NULL = NULL" using assms(1) by (simp add: store_def lines_ok_def lk_def)
  then show n: "c \<noteq> NULL" using assms(2) by metis
  show "lk w (lk w c) \<noteq> NULL" using k n by simp
qed

lemma linked_lines_in: "c \<in> set (linked_lines w cs) \<longleftrightarrow> c \<in> set cs \<and> lk w c \<noteq> NULL"
  by (simp add: linked_lines_def)

lemma first_linked_hd: "linked_lines w g \<noteq> [] \<Longrightarrow> first_linked w g = hd (linked_lines w g)"
  by (induction w g rule: first_linked.induct) (auto simp: linked_lines_def)

lemma linked_lines_split1: "linked_lines w cs = c # xs \<Longrightarrow> \<exists>us vs. cs = us @ c # vs \<and> (\<forall>u \<in> set us. lk w u = NULL) \<and> linked_lines w vs = xs"
  by (auto simp: linked_lines_def filter_eq_Cons_iff)

lemma linked_lines_at: "linked_lines w cs = xs @ c # ys \<Longrightarrow> \<exists>us vs. cs = us @ c # vs \<and> linked_lines w us = xs \<and> linked_lines w vs = ys"
proof (induction xs arbitrary: cs)
  case Nil
  then obtain us vs where "cs = us @ c # vs" "\<forall>u \<in> set us. lk w u = NULL" "linked_lines w vs = ys"
    using linked_lines_split1 [of w cs c ys] by auto
  then show ?case by (intro exI [of _ us] exI [of _ vs]) (simp add: linked_lines_def)
next
  case (Cons z xs)
  then obtain as vs where 1: "cs = as @ z # vs" "\<forall>u \<in> set as. lk w u = NULL" "linked_lines w vs = xs @ c # ys"
    using linked_lines_split1 [of w cs z "xs @ c # ys"] by auto
  have z: "lk w z \<noteq> NULL" using Cons.prems linked_lines_in [of z w cs] by simp
  from Cons.IH [OF 1(3)] obtain us ws where "vs = us @ c # ws" "linked_lines w us = xs" "linked_lines w ws = ys" by blast
  then show ?case using 1(1,2) z by (intro exI [of _ "as @ z # us"] exI [of _ ws]) (simp add: linked_lines_def)
qed

lemma linked_lines_split:
  assumes "linked_lines w cs = xs @ x # y # ys"
  shows "\<exists>as us bs. cs = as @ x # us @ y # bs \<and> (\<forall>u \<in> set us. lk w u = NULL)"
  using assms
proof (induction xs arbitrary: cs)
  case Nil
  then obtain as vs where 1: "cs = as @ x # vs" "linked_lines w vs = y # ys" using linked_lines_split1 [of w cs x "y # ys"] by auto
  from linked_lines_split1 [OF 1(2)] 1(1) show ?case by blast
next
  case (Cons z xs)
  then obtain as vs where 1: "cs = as @ z # vs" "linked_lines w vs = xs @ x # y # ys"
    using linked_lines_split1 [of w cs z "xs @ x # y # ys"] by auto
  from Cons.IH [OF 1(2)] obtain bs us ds where "vs = bs @ x # us @ y # ds" "\<forall>u \<in> set us. lk w u = NULL" by blast
  then show ?case using 1(1) by (intro exI [of _ "as @ z # bs"] exI [of _ us] exI [of _ ds]) simp
qed

lemma all_ended_at: "all_ended e w L (as @ g # bs) \<Longrightarrow> matched_start e w (hd g) \<Longrightarrow> ended e w L g (concat bs)"
  by (induction as) simp_all

lemma lines_at_same:
  assumes S: "store e w L" and a: "lines_at w L cs" "lines_at w L ds" and c: "c \<in> set cs" "c \<in> set ds"
  shows "cs = ds"
proof -
  obtain l xs m ys where l: "L l = Some xs" "cs = map cursor xs" "L m = Some ys" "ds = map cursor ys" using a by (auto simp: lines_at_def)
  have W: "wf (lh w) L" using S by (simp add: store_def)
  have "\<not> distinct (map cursor xs @ map cursor ys)" using c l(2,4) by auto
  then have "l = m" using apart_lists [OF W l(1,3)] by blast
  then show ?thesis using l by simp
qed

text \<open>The two places of one line in a list are the same place.\<close>

lemma same_place: "distinct (as @ c # bs) \<Longrightarrow> as @ c # bs = us @ c # vs \<Longrightarrow> as = us \<and> bs = vs"
  using append_Cons_eq_iff [of c as bs us vs] distinct_append [of as "c # bs"] by (metis disjoint_insert(1) distinct.simps(2) list.simps(15))

text \<open>The sections of one file: a matched section is a run that is as long as it can be.\<close>

definition runs :: "wenv \<Rightarrow> wd \<Rightarrow> view \<Rightarrow> ptr list \<Rightarrow> (ptr \<Rightarrow> sect) \<Rightarrow> (ptr \<Rightarrow> ptr list) \<Rightarrow> bool" where
  "runs e w L ps X G \<longleftrightarrow> (\<forall>p \<in> set ps. if sstate (X p) = STATE_SAME then matched_start e w (hd (G p)) \<and> matched_run e w L (G p)
     else (\<forall>c \<in> set (G p). lk w c = NULL)) \<and> all_ended e w L (map G ps)"

lemma both_cut_runs:
  assumes "both_cut e w L ls rs X G"
  shows "runs e w L ls X G" "runs e w L rs X G"
proof -
  have "if sstate x = STATE_SAME then matched_start e w (hd g) \<and> matched_run e w L g else (\<forall>c \<in> set g. lk w c = NULL)"
    if "cut e w L b x g" for b x g using that by (auto simp: cut_def state_defs split: if_splits)
  then show "runs e w L ls X G" "runs e w L rs X G" using assms unfolding both_cut_def runs_def by blast+
qed

lemma linked_matched:
  assumes "runs e w L ps X G" "p \<in> set ps" "c \<in> set (G p)" "lk w c \<noteq> NULL"
  shows "matched_start e w (hd (G p))" "sstate (X p) = STATE_SAME" "matched_run e w L (G p)"
proof -
  show st: "sstate (X p) = STATE_SAME" using assms unfolding runs_def by metis
  show "matched_start e w (hd (G p))" "matched_run e w L (G p)" using assms(1,2) st unfolding runs_def by metis+
qed

lemma run_ended:
  assumes "runs e w L (us @ p # vs) X G" "matched_start e w (hd (G p))"
  shows "ended e w L (G p) (concat (map G vs))"
  using assms all_ended_at [of e w L "map G us" "G p" "map G vs"] by (simp add: runs_def)

lemma piece_of:
  assumes "c \<in> set (concat (map G ls))"
  obtains us p vs where "ls = us @ p # vs" "c \<in> set (G p)"
proof -
  obtain p where "p \<in> set ls" "c \<in> set (G p)" using assms by auto
  then show thesis using that split_list by metis
qed

text \<open>The lines of a run follow one another on this side, too.\<close>

lemma run_follows:
  assumes S: "store e w L" and R: "row w L l ps X G cs" and q: "q \<in> set ps" and run: "matched_run e w L (G q)"
    and ll: "linked_lines w (G q) = xs @ d' # d # ys"
  shows "follows e w L (lk w d') (lk w d)" "follows e w L d' d"
proof -
  obtain as us bs where g: "G q = as @ d' # us @ d # bs" "\<forall>u \<in> set us. lk w u = NULL" using linked_lines_split [OF ll] by blast
  have "\<forall>c \<in> set (G q). lk w c \<noteq> NULL \<or> ign e w c" using run by (simp add: matched_run_def)
  then have us: "\<forall>u \<in> set us. lk w u = NULL \<and> ign e w u" using g by (metis append_is_Nil_conv in_set_conv_decomp append_assoc append_Cons)
  obtain pre post where at: "lines_at w L (pre @ G q @ post)" by (rule row_piece [OF R q])
  have "d' \<in> set (linked_lines w (G q))" "d \<in> set (linked_lines w (G q))" by (simp_all add: ll)
  then have "lk w d' \<noteq> NULL" "lk w d \<noteq> NULL" by (simp_all add: linked_lines_in)
  then have "lk w (lk w d') = d'" "lk w (lk w d) = d" using S by (auto simp: store_def lines_ok_def)
  moreover have "lines_at w L ((pre @ as) @ d' # us @ d # (bs @ post))" using at g(1) by simp
  ultimately show "follows e w L (lk w d') (lk w d)" using us unfolding follows_def by metis
  have "successively (follows e w L) (xs @ d' # d # ys)" using run ll by (simp add: matched_run_def linked_lines_def)
  then show "follows e w L d' d" by (simp add: successively_append_iff)
qed

lemma partner_exists:
  assumes S: "store e w L" and R1: "row w L sl ls X G csl" and R2: "row w L sr rs X G csr" and B1: "runs e w L ls X G"
    and B2: "runs e w L rs X G" and ac: "across w csl csr" and p: "p \<in> set ls" and ne: "linked_lines w (G p) \<noteq> []"
  shows "\<exists>q \<in> set rs. meets w X G p q"
proof -
  define c where "c = first_linked w (G p)"
  obtain gs1 gs2 where g: "G p = gs1 @ c # gs2" "\<forall>u \<in> set gs1. lk w u = NULL"
    using linked_lines_split1 [of w "G p" "hd (linked_lines w (G p))"] ne first_linked_hd [OF ne] unfolding c_def by (metis list.collapse)
  have "c \<in> set (linked_lines w (G p))" using ne first_linked_hd [OF ne] by (simp add: c_def)
  then have c: "c \<in> set (G p)" "lk w c \<noteq> NULL" by (simp_all add: linked_lines_in)
  have csl: "csl = concat (map G ls)" and csr: "csr = concat (map G rs)" using R1 R2 by (simp_all add: row_def)
  have cin: "c \<in> set csl" using c(1) p csl by auto
  have kk: "lk w (lk w x) = x" if "lk w x \<noteq> NULL" for x using S that by (auto simp: store_def lines_ok_def)
  define d where "d = lk w c"
  have d: "lk w d = c" "d \<in> set csr" using kk [OF c(2)] ac cin c(2) by (auto simp: d_def across_def)
  have cn: "c \<noteq> NULL" using row_nonnull(2) [OF S R1] cin by metis
  obtain us q vs where q: "rs = us @ q # vs" "d \<in> set (G q)" using d(2) unfolding csr by (rule piece_of)
  have qr: "q \<in> set rs" by (simp add: q(1))
  have dl: "lk w d \<noteq> NULL" using d(1) cn by simp
  note P = linked_matched [OF B1 p c] and Q = linked_matched [OF B2 qr q(2) dl]
  obtain xs ys where ll: "linked_lines w (G q) = xs @ d # ys" using q(2) dl by (metis linked_lines_in split_list)
  show ?thesis
  proof (cases xs rule: rev_cases)
    case Nil
    then have "first_linked w (G q) = d" using first_linked_hd [of w "G q"] ll by simp
    then show ?thesis using P(2) Q(2) qr by (intro bexI [of _ q]) (simp_all add: meets_def c_def d_def)
  next
    case (snoc xs' d')
    then have ll': "linked_lines w (G q) = xs' @ d' # d # ys" using ll by simp
    define c' where "c' = lk w d'"
    have "d' \<in> set (linked_lines w (G q))" by (simp add: ll')
    then have d': "lk w d' \<noteq> NULL" by (simp add: linked_lines_in)
    note fol = run_follows [OF S R2 qr Q(3) ll', folded c'_def, unfolded d(1)]
    obtain as vs1 bs where at: "lines_at w L (as @ c' # vs1 @ c # bs)" "\<forall>u \<in> set vs1. lk w u = NULL \<and> ign e w u"
      using fol(2) unfolding follows_def c'_def [symmetric] d(1) by blast
    have dc: "distinct csl" by (rule row_nonnull(4) [OF S R1])
    have "lines_at w L csl" using R1 by (simp add: row_def)
    from lines_at_same [OF S this at(1) cin] have csl2: "csl = (as @ c' # vs1) @ c # bs" by simp
    obtain l1 l2 where ls: "ls = l1 @ p # l2" using p by (metis split_list)
    have "csl = (concat (map G l1) @ gs1) @ c # gs2 @ concat (map G l2)" using csl ls g(1) by simp
    then have pre: "as @ c' # vs1 = concat (map G l1) @ gs1" using same_place dc csl2 by metis
    have c'l: "lk w c' \<noteq> NULL" unfolding c'_def by (rule store_links(3) [OF S d'])
    have "c' \<in> set (concat (map G l1) @ gs1)" unfolding pre [symmetric] by simp
    then have "c' \<in> set (concat (map G l1))" using g(2) c'l by auto
    then obtain k1 s k2 where s: "l1 = k1 @ s # k2" "c' \<in> set (G s)" by (rule piece_of)
    obtain a b where gs: "G s = a @ c' # b" using s(2) by (metis split_list)
    have "as @ c' # vs1 = (concat (map G k1) @ a) @ c' # (b @ concat (map G k2) @ gs1)" using pre s(1) gs by simp
    moreover have "distinct (as @ c' # vs1)" using dc unfolding csl2 by (rule distinct_append [THEN iffD1, THEN conjunct1])
    ultimately have vs1: "vs1 = b @ concat (map G k2) @ gs1" using same_place by metis
    have sl: "s \<in> set ls" by (simp add: ls s(1))
    note T = linked_matched [OF B1 sl s(2) c'l]
    have "runs e w L (k1 @ s # k2 @ p # l2) X G" using B1 by (simp add: ls s(1))
    from run_ended [OF this T(1)] have en: "ended e w L (G s) ((concat (map G k2) @ gs1) @ c # gs2 @ concat (map G l2))"
      by (simp add: g(1))
    have "\<forall>u \<in> set (concat (map G k2) @ gs1). lk w u = NULL \<and> ign e w u" using at(2) vs1 by simp
    with en c(2) have "linked_lines w (G s) \<noteq> [] \<and> \<not> follows e w L (last (linked_lines w (G s))) c" unfolding ended_def by blast
    moreover have "linked_lines w b = []" using at(2) vs1 by (simp add: linked_lines_def)
    then have "last (linked_lines w (G s)) = c'" using c'l by (simp add: gs)
    ultimately show ?thesis using fol(1) by simp
  qed
qed

subsection \<open>Linked sections hold the same lines\<close>

text \<open>The last linked line of a run is linked to the last one of the other run.\<close>

lemma no_more:
  assumes S: "store e w L" and R1: "row w L l1 ps X G cs1" and R2: "row w L l2 qs X G cs2"
    and B1: "runs e w L ps X G" and B2: "runs e w L qs X G" and p: "p \<in> set ps" and q: "q \<in> set qs"
    and lp: "linked_lines w (G p) = as @ [c]" and lq: "linked_lines w (G q) = bs @ lk w c # d # ys" and cs: "lk w d \<in> set cs1"
  shows False
proof -
  have cin: "c \<in> set (G p)" "lk w c \<noteq> NULL" using linked_lines_in [of c w "G p"] lp by simp_all
  have din: "lk w c \<in> set (G q)" "lk w (lk w c) \<noteq> NULL" using linked_lines_in [of "lk w c" w "G q"] lq by simp_all
  have kk: "lk w (lk w c) = c" using S cin(2) by (auto simp: store_def lines_ok_def)
  note P = linked_matched [OF B1 p cin] and Q = linked_matched [OF B2 q din]
  note fol = run_follows [OF S R2 q Q(3) lq, unfolded kk]
  obtain as' us bs' where at: "lines_at w L (as' @ c # us @ lk w d # bs')" "\<forall>u \<in> set us. lk w u = NULL \<and> ign e w u"
    using fol(2) unfolding follows_def kk by blast
  obtain k1 k2 where ps: "ps = k1 @ p # k2" using p by (metis split_list)
  obtain a b where g: "G p = a @ c # b" "linked_lines w b = []" using linked_lines_at [of w "G p" as c "[]"] lp by auto
  have cs1: "cs1 = concat (map G ps)" "lines_at w L cs1" "distinct cs1" using R1 row_nonnull(4) [OF S R1] by (simp_all add: row_def)
  have "cs1 = as' @ c # us @ lk w d # bs'" by (rule lines_at_same [OF S cs1(2) at(1) cs]) simp
  moreover have e1: "cs1 = (concat (map G k1) @ a) @ c # b @ concat (map G k2)" using cs1(1) ps g(1) by simp
  ultimately have e2: "b @ concat (map G k2) = us @ lk w d # bs'" using same_place cs1(3) by metis
  have dn: "d \<in> set (linked_lines w (G q))" by (simp add: lq)
  then have "lk w d \<noteq> NULL" by (simp add: linked_lines_in)
  then have dl: "lk w (lk w d) \<noteq> NULL" by (rule store_links(3) [OF S])
  obtain us' where us': "us = b @ us'" "concat (map G k2) = us' @ lk w d # bs'"
    using e2 g(2) dl by (auto simp: append_eq_append_conv2 append_eq_Cons_conv linked_lines_def)
  have "ended e w L (G p) (concat (map G k2))" by (rule run_ended) (use B1 ps P(1) in simp_all)
  then have "\<not> follows e w L (last (linked_lines w (G p))) (lk w d)" using us' at(2) dl unfolding ended_def by (metis Un_iff set_append)
  then show False using fol(1) lp by simp
qed

lemma next_linked:
  assumes "us @ d # bs = us' @ d' # bs'" "\<forall>u \<in> set us. lk w u = NULL" "\<forall>u \<in> set us'. lk w u = NULL" "lk w d \<noteq> NULL" "lk w d' \<noteq> NULL"
  shows "d = d'"
  using assms
proof (induction us arbitrary: us')
  case Nil
  then show ?case by (cases us') auto
next
  case (Cons u us)
  then show ?case by (cases us') auto
qed

text \<open>Where two runs are linked at one place, they are linked from there on.\<close>

lemma linked_rest:
  assumes S: "store e w L" and R1: "row w L l1 ps X G cs1" and R2: "row w L l2 qs X G cs2"
    and B1: "runs e w L ps X G" and B2: "runs e w L qs X G" and p: "p \<in> set ps" and q: "q \<in> set qs" and ac: "across w cs1 cs2"
  shows "linked_lines w (G p) = as @ c # xs \<Longrightarrow> linked_lines w (G q) = bs @ lk w c # ys \<Longrightarrow> ys = map (lk w) xs"
proof (induction xs arbitrary: as c bs ys)
  case Nil
  show ?case
  proof (cases ys)
    case (Cons d ys')
    have "d \<in> set (linked_lines w (G q))" using Nil(2) Cons by simp
    then have d: "d \<in> set (G q)" "lk w d \<noteq> NULL" by (simp_all add: linked_lines_in)
    moreover have "d \<in> set cs2" using d(1) q R2 by (auto simp: row_def)
    ultimately have "lk w d \<in> set cs1" using ac by (auto simp: across_def)
    then show ?thesis using no_more [OF S R1 R2 B1 B2 p q, of as c bs d ys'] Nil Cons by simp
  qed simp
next
  case (Cons c1 xs)
  have mem: "c \<in> set (linked_lines w (G p))" "c1 \<in> set (linked_lines w (G p))" using Cons.prems(1) by simp_all
  then have c: "c \<in> set (G p)" "lk w c \<noteq> NULL" "c1 \<in> set (G p)" "lk w c1 \<noteq> NULL" by (simp_all add: linked_lines_in)
  have k: "lk w (lk w c) = c" "lk w (lk w c1) = c1" "lk w (lk w c) \<noteq> NULL" by (rule store_links [OF S c(2)] store_links [OF S c(4)])+
  have cin: "c1 \<in> set cs1" using c p R1 by (auto simp: row_def)
  have l1c: "lk w c1 \<in> set cs2" using ac cin c(4) by (auto simp: across_def)
  note P = linked_matched [OF B1 p c(1,2)]
  have e1: "linked_lines w (G p) = as @ lk w (lk w c) # c1 # xs" using Cons.prems(1) k(1) by simp
  show ?case
  proof (cases ys)
    case Nil
    have "linked_lines w (G q) = bs @ [lk w c]" using Cons.prems(2) Nil by simp
    from no_more [OF S R2 R1 B2 B1 q p this e1 l1c] show ?thesis by simp
  next
    case (Cons d ys')
    have lq: "linked_lines w (G q) = bs @ lk w c # d # ys'" using Cons.prems(2) Cons by simp
    obtain a u b where g: "G q = a @ lk w c # u @ d # b" "\<forall>x \<in> set u. lk w x = NULL" using linked_lines_split [OF lq] by blast
    have "d \<in> set (linked_lines w (G q))" by (simp add: lq)
    then have dl: "lk w d \<noteq> NULL" by (simp add: linked_lines_in)
    obtain a' u' b' where at: "lines_at w L (a' @ lk w c # u' @ lk w c1 # b')" "\<forall>x \<in> set u'. lk w x = NULL \<and> ign e w x"
      using run_follows(2) [OF S R1 p P(3) Cons.prems(1) [simplified]] unfolding follows_def by blast
    obtain k1 k2 where qs: "qs = k1 @ q # k2" using q by (metis split_list)
    have cs2: "cs2 = concat (map G qs)" "lines_at w L cs2" "distinct cs2" using R2 row_nonnull(4) [OF S R2] by (simp_all add: row_def)
    have "cs2 = a' @ lk w c # u' @ lk w c1 # b'" by (rule lines_at_same [OF S cs2(2) at(1) l1c]) simp
    moreover have "cs2 = (concat (map G k1) @ a) @ lk w c # u @ d # b @ concat (map G k2)" using cs2(1) qs g(1) by simp
    ultimately have "u @ d # b @ concat (map G k2) = u' @ lk w c1 # b'" using same_place cs2(3) by metis
    moreover have "\<forall>x \<in> set u'. lk w x = NULL" using at(2) by blast
    ultimately have d: "d = lk w c1" using next_linked [of u d _ u' _ _ w, OF _ g(2) _ dl store_links(3) [OF S c(4)]] by blast
    have "ys' = map (lk w) xs" by (rule Cons.IH [of "as @ [c]" c1 "bs @ [lk w c]"]) (use Cons.prems(1) lq d in simp_all)
    then show ?thesis using Cons d by simp
  qed
qed

lemma linked_sections:
  assumes S: "store e w L" and R1: "row w L l1 ps X G cs1" and R2: "row w L l2 qs X G cs2"
    and B1: "runs e w L ps X G" and B2: "runs e w L qs X G" and p: "p \<in> set ps" and q: "q \<in> set qs" and ac: "across w cs1 cs2"
    and m: "meets w X G p q"
  shows "linked_lines w (G q) = map (lk w) (linked_lines w (G p))" "linked_lines w (G p) \<noteq> []"
proof -
  have k: "lk w (first_linked w (G p)) = first_linked w (G q)" using m by (simp add: meets_def)
  have fq: "first_linked w (G q) \<in> set (G q)" by (rule first_linked_in [OF row_section(3) [OF R2 q]])
  have fp: "first_linked w (G p) \<in> set (G p)" by (rule first_linked_in [OF row_section(3) [OF R1 p]])
  have "first_linked w (G q) \<noteq> NULL" using row_first_linked(3) [OF S R2 q] row_nonnull(2) [OF S R2] by metis
  then have l: "lk w (first_linked w (G p)) \<noteq> NULL" using k by simp
  then have "first_linked w (G p) \<in> set (linked_lines w (G p))" using fp by (simp add: linked_lines_in)
  then show ne: "linked_lines w (G p) \<noteq> []" by auto
  have "lk w (first_linked w (G q)) \<noteq> NULL" using store_links(3) [OF S l] k by simp
  then have "first_linked w (G q) \<in> set (linked_lines w (G q))" using fq by (simp add: linked_lines_in)
  then have nq: "linked_lines w (G q) \<noteq> []" by auto
  obtain c xs where c: "linked_lines w (G p) = [] @ c # xs" using ne by (cases "linked_lines w (G p)") auto
  obtain d ys where d: "linked_lines w (G q) = [] @ d # ys" using nq by (cases "linked_lines w (G q)") auto
  have cd: "d = lk w c" using k first_linked_hd [OF ne] first_linked_hd [OF nq] c d by simp
  have "ys = map (lk w) xs" by (rule linked_rest [OF S R1 R2 B1 B2 p q ac c]) (use d cd in simp)
  then show "linked_lines w (G q) = map (lk w) (linked_lines w (G p))" using c d cd by simp
qed

subsection \<open>What the composite list shows\<close>

text \<open>Two pieces hold the same lines: the linked lines are linked pairwise in order, all others are
  ignorable.\<close>

definition same_lines :: "wenv \<Rightarrow> wd \<Rightarrow> ptr list \<Rightarrow> ptr list \<Rightarrow> bool" where
  "same_lines e w lg rg \<longleftrightarrow> linked_lines w rg = map (lk w) (linked_lines w lg) \<and> (\<forall>c \<in> set lg \<union> set rg. lk w c \<noteq> NULL \<or> ign e w c)"

definition all_ignorable :: "wenv \<Rightarrow> wd \<Rightarrow> ptr list \<Rightarrow> bool" where
  "all_ignorable e w g \<longleftrightarrow> (\<forall>c \<in> set g. lk w c = NULL \<and> ign e w c)"

lemma same_lines_nil: "same_lines e w [] g \<longleftrightarrow> all_ignorable e w g"
  by (auto simp: same_lines_def all_ignorable_def linked_lines_def filter_empty_conv)

lemma across_swap: "across w csl csr \<longleftrightarrow> across w csr csl"
  by (auto simp: across_def)

lemma meets_swap:
  assumes S: "store e w L" and R: "row w L l qs X G cs" and q: "q \<in> set qs" and m: "meets w X G p q"
  shows "meets w X G q p"
proof -
  have k: "lk w (first_linked w (G p)) = first_linked w (G q)" using m by (simp add: meets_def)
  have "first_linked w (G q) \<noteq> NULL" using row_first_linked(3) [OF S R q] row_nonnull(2) [OF S R] by metis
  then have "lk w (first_linked w (G q)) = first_linked w (G p)" using store_links(1) [OF S, of "first_linked w (G p)"] k by simp
  then show ?thesis using m by (simp add: meets_def)
qed

lemma same_sections:
  assumes S: "store e w L" and R1: "row w L l1 ps X G cs1" and R2: "row w L l2 qs X G cs2"
    and B1: "runs e w L ps X G" and B2: "runs e w L qs X G" and p: "p \<in> set ps" and q: "q \<in> set qs" and ac: "across w cs1 cs2"
    and m: "meets w X G p q"
  shows "same_lines e w (G p) (G q)"
proof -
  have "matched_run e w L (G p)" "matched_run e w L (G q)" using B1 B2 p q m unfolding runs_def meets_def by metis+
  then show ?thesis using linked_sections(1) [OF S R1 R2 B1 B2 p q ac m] by (auto simp: same_lines_def matched_run_def)
qed

lemma no_partner:
  assumes S: "store e w L" and R1: "row w L l1 ps X G cs1" and R2: "row w L l2 qs X G cs2"
    and B1: "runs e w L ps X G" and B2: "runs e w L qs X G" and ac: "across w cs1 cs2"
    and p: "p \<in> set ps" and st: "sstate (X p) = STATE_SAME" and n: "\<forall>q \<in> set qs. \<not> meets w X G p q"
  shows "all_ignorable e w (G p)"
proof -
  have "linked_lines w (G p) = []" using partner_exists [OF S R1 R2 B1 B2 ac p] n by blast
  moreover have "matched_run e w L (G p)" using B1 p st unfolding runs_def by metis
  ultimately show ?thesis by (auto simp: all_ignorable_def matched_run_def linked_lines_def filter_empty_conv)
qed

text \<open>The sections of two compared files, linked to each other.\<close>

definition compared :: "wenv \<Rightarrow> wd \<Rightarrow> view \<Rightarrow> ptr \<Rightarrow> ptr \<Rightarrow> ptr list \<Rightarrow> ptr list \<Rightarrow> ptr list \<Rightarrow> ptr list \<Rightarrow>
    (ptr \<Rightarrow> sect) \<Rightarrow> (ptr \<Rightarrow> ptr list) \<Rightarrow> bool" where
  "compared e w L sl sr csl csr ls rs X G \<longleftrightarrow> paired e w L sl sr ls rs X G csl csr \<and> runs e w L ls X G \<and> runs e w L rs X G \<and>
     across w csl csr \<and> set csl \<inter> set csr = {} \<and>
     (\<forall>p \<in> set ls. \<forall>q \<in> set rs. (slink (X p) = q \<longleftrightarrow> meets w X G p q) \<and> (slink (X q) = p \<longleftrightarrow> meets w X G p q))"

lemma compared_flip:
  assumes C: "compared e w L sl sr csl csr ls rs X G"
  shows "compared e w L sr sl csr csl rs ls X G"
proof -
  have P: "paired e w L sl sr ls rs X G csl csr" using C by (simp add: compared_def)
  note D = pairedD [OF P]
  have "paired e w L sr sl rs ls X G csr csl" using P by (auto simp: paired_def)
  moreover have "meets w X G p q \<longleftrightarrow> meets w X G q p" if "p \<in> set ls" "q \<in> set rs" for p q
    using meets_swap [OF D(1,3) that(2)] meets_swap [OF D(1,2) that(1)] by blast
  ultimately show ?thesis using C across_swap [of w csl csr] unfolding compared_def by (simp add: Int_commute)
qed

lemma compared_slink:
  assumes C: "compared e w L sl sr csl csr ls rs X G" and p: "p \<in> set ls" and l: "slink (X p) \<noteq> NULL"
  shows "slink (X p) \<in> set rs" "same_lines e w (G p) (G (slink (X p)))"
proof -
  have P: "paired e w L sl sr ls rs X G csl csr" using C by (simp add: compared_def)
  note D = pairedD [OF P]
  show q: "slink (X p) \<in> set rs" using P p l by (auto simp: paired_def)
  then have "meets w X G p (slink (X p))" using C p by (auto simp: compared_def)
  then show "same_lines e w (G p) (G (slink (X p)))" using same_sections [OF D _ _ p q] C unfolding compared_def by blast
qed

lemma compared_unlinked:
  assumes C: "compared e w L sl sr csl csr ls rs X G" and p: "p \<in> set ls" and l: "slink (X p) = NULL" and st: "sstate (X p) = STATE_SAME"
  shows "all_ignorable e w (G p)"
proof -
  have P: "paired e w L sl sr ls rs X G csl csr" using C by (simp add: compared_def)
  note D = pairedD [OF P]
  have "NULL \<notin> set rs" by (rule row_nonnull(1) [OF D(1,3)])
  then have "\<forall>q \<in> set rs. \<not> meets w X G p q" using C p l unfolding compared_def by metis
  then show ?thesis using no_partner [OF D _ _ _ p st] C unfolding compared_def by blast
qed

lemma compared_pieces:
  assumes C: "compared e w L sl sr csl csr ls rs X G" and p: "p \<in> set ls \<union> set rs"
  shows "G p \<noteq> []" "set (G p) \<subseteq> set csl \<longleftrightarrow> p \<in> set ls" "set (G p) \<subseteq> set csr \<longleftrightarrow> p \<in> set rs"
proof -
  have P: "paired e w L sl sr ls rs X G csl csr" and d: "set csl \<inter> set csr = {}" using C by (simp_all add: compared_def)
  have R: "row w L sl ls X G csl" "row w L sr rs X G csr" using pairedD(2,3) [OF P] .
  show ne: "G p \<noteq> []" using p row_section(3) [OF R(1)] row_section(3) [OF R(2)] by blast
  have l: "x \<in> set ls \<Longrightarrow> set (G x) \<subseteq> set csl" and r: "x \<in> set rs \<Longrightarrow> set (G x) \<subseteq> set csr" for x
    using R by (auto simp: row_def)
  have "\<not> (set (G p) \<subseteq> set csl \<and> set (G p) \<subseteq> set csr)" using ne d by (cases "G p") auto
  then show "set (G p) \<subseteq> set csl \<longleftrightarrow> p \<in> set ls" "set (G p) \<subseteq> set csr \<longleftrightarrow> p \<in> set rs" using p l r by blast+
qed

text \<open>\<open>tells e w csl csr z (lg, rg)\<close>: section \<open>z\<close> of the composite list shows the lines \<open>lg\<close> of
  the left and \<open>rg\<close> of the right file, and what its state says of them is so.\<close>

definition tells :: "wenv \<Rightarrow> wd \<Rightarrow> ptr list \<Rightarrow> ptr list \<Rightarrow> sect \<Rightarrow> ptr list \<times> ptr list \<Rightarrow> bool" where
  "tells e w csl csr z = (\<lambda>(lg, rg).
     (if sstate z = STATE_SAME then rg \<noteq> [] \<and> sfirst z = hd rg \<and> slast z = last rg \<and> rightbase z = nr w (hd rg) \<and>
        leftbase z = (if lg = [] then 0 else nr w (hd lg)) \<and> same_lines e w lg rg
      else if sstate z \<in> {STATE_LEFTONLY, STATE_MOVEDLEFT, STATE_SIMILARLEFT}
      then lg \<noteq> [] \<and> rg = [] \<and> sfirst z = hd lg \<and> slast z = last lg \<and> leftbase z = nr w (hd lg) \<and>
        (sstate z = STATE_MOVEDLEFT \<longrightarrow> (\<exists>g. sublist g csr \<and> same_lines e w lg g))
      else sstate z \<in> {STATE_RIGHTONLY, STATE_MOVEDRIGHT, STATE_SIMILARRIGHT} \<and>
        lg = [] \<and> rg \<noteq> [] \<and> sfirst z = hd rg \<and> slast z = last rg \<and> rightbase z = nr w (hd rg) \<and>
        (sstate z = STATE_MOVEDRIGHT \<longrightarrow> (\<exists>g. sublist g csl \<and> same_lines e w rg g))))"

lemma row_sublist: "row w L l ps X G cs \<Longrightarrow> p \<in> set ps \<Longrightarrow> sublist (G p) cs"
  by (metis row_piece sublist_appendI)

lemma entry_tells:
  assumes C: "compared e w L sl sr csl csr ls rs X G" and en: "entry X G (set ls \<union> set rs) w z (lg, rg)"
    and sub: "set lg \<subseteq> set csl" "set rg \<subseteq> set csr"
  shows "tells e w csl csr z (lg, rg)"
proof -
  note F = compared_flip [OF C]
  have R: "row w L sl ls X G csl" "row w L sr rs X G csr" using C by (simp_all add: compared_def paired_def)
  have nul: "NULL \<notin> set ls \<union> set rs" using C row_nonnull(1) by (auto simp: compared_def paired_def)
  have sl: "g = G (slink (X p)) \<Longrightarrow> slink (X p) \<in> set ls \<union> set rs \<Longrightarrow> set (G p) \<subseteq> set csl \<Longrightarrow> p \<in> set ls \<union> set rs \<Longrightarrow>
      sublist g csr \<and> same_lines e w (G p) g" for p g
  proof -
    assume g: "g = G (slink (X p))" and s: "slink (X p) \<in> set ls \<union> set rs" and h: "set (G p) \<subseteq> set csl" and p: "p \<in> set ls \<union> set rs"
    have pl: "p \<in> set ls" using compared_pieces(2) [OF C p] h by simp
    have "slink (X p) \<noteq> NULL" using s nul by metis
    note K = compared_slink [OF C pl this]
    show ?thesis using K(2) row_sublist [OF R(2) K(1)] g by simp
  qed
  have sr: "g = G (slink (X p)) \<Longrightarrow> slink (X p) \<in> set ls \<union> set rs \<Longrightarrow> set (G p) \<subseteq> set csr \<Longrightarrow> p \<in> set ls \<union> set rs \<Longrightarrow>
      sublist g csl \<and> same_lines e w (G p) g" for p g
  proof -
    assume g: "g = G (slink (X p))" and s: "slink (X p) \<in> set ls \<union> set rs" and h: "set (G p) \<subseteq> set csr" and p: "p \<in> set ls \<union> set rs"
    have pr: "p \<in> set rs" using compared_pieces(3) [OF C p] h by simp
    have "slink (X p) \<noteq> NULL" using s nul by metis
    note K = compared_slink [OF F pr this]
    show ?thesis using K(2) row_sublist [OF R(1) K(1)] g by simp
  qed
  have ig: "all_ignorable e w (G p)" if "p \<in> set ls \<union> set rs" "sstate (X p) = STATE_SAME" "slink (X p) = NULL" for p
    using that compared_unlinked [OF C, of p] compared_unlinked [OF F, of p] by blast
  show ?thesis
  proof (cases "sstate z = STATE_SAME")
    case True
    show ?thesis
    proof (cases "lg = []")
      case nil: True
      then show ?thesis using True en ig by (auto simp: tells_def entry_def same_lines_nil)
    next
      case False
      then obtain p where p: "p \<in> set ls \<union> set rs" "slink (X p) \<in> set ls \<union> set rs" "lg = G p" "rg = G (slink (X p))"
        using True en by (auto simp: entry_def)
      have "same_lines e w lg rg" using sl [OF p(4,2) _ p(1)] sub p(3) by simp
      then show ?thesis using True False en by (simp add: tells_def entry_def)
    qed
  next
    case False
    have ml: "\<exists>g. sublist g csr \<and> same_lines e w lg g" if mv: "sstate z = STATE_MOVEDLEFT"
    proof -
      have "sstate z \<in> {STATE_LEFTONLY, STATE_MOVEDLEFT, STATE_SIMILARLEFT}" using that by simp
      then obtain p where p: "p \<in> set ls \<union> set rs" "slink (X p) \<in> set ls \<union> set rs" "lg = G p"
        using mv False en unfolding entry_def by auto
      show ?thesis using sl [OF refl p(2) _ p(1)] sub(1) p(3) by blast
    qed
    have mr: "\<exists>g. sublist g csl \<and> same_lines e w rg g" if mv: "sstate z = STATE_MOVEDRIGHT"
    proof -
      have "sstate z \<notin> {STATE_LEFTONLY, STATE_MOVEDLEFT, STATE_SIMILARLEFT}" using that by (simp add: state_defs)
      then obtain p where p: "p \<in> set ls \<union> set rs" "slink (X p) \<in> set ls \<union> set rs" "rg = G p"
        using mv False en unfolding entry_def by auto
      show ?thesis using sr [OF refl p(2) _ p(1)] sub(2) p(3) by blast
    qed
    show ?thesis
    proof (cases "sstate z \<in> {STATE_LEFTONLY, STATE_MOVEDLEFT, STATE_SIMILARLEFT}")
      case True
      then show ?thesis using False en ml unfolding tells_def entry_def by simp
    next
      case nl: False
      then show ?thesis using False en mr unfolding tells_def entry_def by simp
    qed
  qed
qed

lemma subseq_concat: "subseq ks ls \<Longrightarrow> subseq (concat (map G ks)) (concat (map G ls))"
  by (induction rule: list_emb.induct) (auto intro: list_emb_append_mono)

lemma subseq_set: "subseq ks ls \<Longrightarrow> set ks \<subseteq> set ls"
  by (induction rule: list_emb.induct) auto

text \<open>The composite list of two compared files.\<close>

lemma compared_shown:
  assumes C: "compared e w L sl sr csl csr ls rs X G" and R: "ready e w L X G sl sr ls rs"
    and st: "\<forall>p \<in> set ls. sstate (X p) \<in> {STATE_SAME, STATE_LEFTONLY}"
  shows "\<exists>compo w' qs zs prs. section_makecomposite e sl sr w = Some (compo, w') \<and> sections_only w w' \<and>
    store e w' (L(compo \<mapsto> qs)) \<and> sects_at w' qs zs \<and> list_all2 (tells e w csl csr) zs prs \<and>
    subseq (concat (map fst prs)) csl \<and> all_ignorable e w (filter (\<lambda>c. c \<notin> set (concat (map fst prs))) csl) \<and> concat (map snd prs) = csr \<and>
    compo \<notin> cells L"
proof -
  have P: "paired e w L sl sr ls rs X G csl csr" using C by (simp add: compared_def)
  have cs: "csl = concat (map G ls)" "csr = concat (map G rs)" using pairedD(2,3) [OF P] by (simp_all add: row_def)
  obtain compo w' qs zs prs ks where M: "section_makecomposite e sl sr w = Some (compo, w')" "sections_only w w'"
    "store e w' (L(compo \<mapsto> qs))" "sects_at w' qs zs" "list_all2 (entry X G (set ls \<union> set rs) w) zs prs"
    "hides X ls ks" "concat (map fst prs) = concat (map G ks)" "concat (map snd prs) = concat (map G rs)" "compo \<notin> cells L"
    using section_makecomposite_spec [OF R] by (elim exE conjE) (rule that)
  note H = hides_subseq [OF M(6)]
  have sub: "subseq (concat (map fst prs)) csl" unfolding M(7) cs(1) by (rule subseq_concat) (use H in simp)
  have "set (concat (map fst prs)) \<subseteq> set csl" using subseq_set [OF sub] .
  then have l: "set (fst pr) \<subseteq> set csl" if "pr \<in> set prs" for pr using that by auto
  have "set (concat (map snd prs)) \<subseteq> set csr" using M(8) cs(2) by simp
  then have r: "set (snd pr) \<subseteq> set csr" if "pr \<in> set prs" for pr using that by auto
  have ts: "tells e w csl csr z pr" if "entry X G (set ls \<union> set rs) w z pr" "pr \<in> set prs" for z pr
    using entry_tells [OF C, of z "fst pr" "snd pr"] that l r by simp
  have all: "list_all2 (tells e w csl csr) zs prs" using M(5) by (rule list.rel_mono_strong) (use ts in blast)
  have "all_ignorable e w (filter (\<lambda>c. c \<notin> set (concat (map fst prs))) csl)"
    unfolding all_ignorable_def
  proof
    fix c assume c: "c \<in> set (filter (\<lambda>c. c \<notin> set (concat (map fst prs))) csl)"
    then obtain p where p: "p \<in> set ls" "c \<in> set (G p)" using cs(1) by auto
    have "p \<notin> set ks" using c p(2) M(7) by auto
    then have "sstate (X p) \<noteq> STATE_LEFTONLY" "slink (X p) = NULL" using H p(1) unfolding hidden_def by blast+
    moreover have "sstate (X p) = STATE_SAME" using st p(1) calculation(1) by blast
    ultimately have "all_ignorable e w (G p)" using compared_unlinked [OF C p(1)] by blast
    then show "lk w c = NULL \<and> ign e w c" using p(2) by (simp add: all_ignorable_def)
  qed
  then show ?thesis using M(1-4) all sub M(8,9) cs(2) by metis
qed

subsection \<open>Comparing two files\<close>

text \<open>\<open>cuts_files e w csl csr zs prs\<close>: the sections \<open>zs\<close> cut the two files into the pieces \<open>prs\<close> (lines of
  the left and of the right file for each section): they show, in order, every line of the right file
  \<open>csr\<close> once, and every line of the left file \<open>csl\<close> once but ignorable ones.\<close>

definition cuts_files :: "wenv \<Rightarrow> wd \<Rightarrow> ptr list \<Rightarrow> ptr list \<Rightarrow> sect list \<Rightarrow> (ptr list \<times> ptr list) list \<Rightarrow> bool" where
  "cuts_files e w csl csr zs prs \<longleftrightarrow> list_all2 (tells e w csl csr) zs prs \<and> subseq (concat (map fst prs)) csl \<and>
     all_ignorable e w (filter (\<lambda>c. c \<notin> set (concat (map fst prs))) csl) \<and> concat (map snd prs) = csr"

definition shows_files :: "wenv \<Rightarrow> wd \<Rightarrow> ptr list \<Rightarrow> ptr list \<Rightarrow> sect list \<Rightarrow> bool" where
  "shows_files e w csl csr zs \<longleftrightarrow> (\<exists>prs. list_all2 (tells e w csl csr) zs prs \<and> subseq (concat (map fst prs)) csl \<and>
     all_ignorable e w (filter (\<lambda>c. c \<notin> set (concat (map fst prs))) csl) \<and> concat (map snd prs) = csr)"

lemma shows_cuts: "shows_files e w csl csr zs \<longleftrightarrow> (\<exists>prs. cuts_files e w csl csr zs prs)"
  by (simp add: shows_files_def cuts_files_def)

lemma tells_sections_only:
  assumes "sections_only w w'"
  shows "tells e w' csl csr = tells e w csl csr" "all_ignorable e w' = all_ignorable e w" "across w' = across w"
proof -
  note F = sections_only_facts [OF assms]
  have "same_lines e w' = same_lines e w" by (simp add: fun_eq_iff same_lines_def linked_lines_def F)
  then show "tells e w' csl csr = tells e w csl csr" by (simp add: fun_eq_iff tells_def nr_sections_only [OF assms])
  show "all_ignorable e w' = all_ignorable e w" "across w' = across w" by (simp_all add: fun_eq_iff all_ignorable_def across_def F)
qed

lemma sections_made_compared:
  assumes M: "sections_made e w w L il ir sl sr ls rs X Y G" and ac: "across w (map cursor il) (map cursor ir)"
    and d: "set (map cursor il) \<inter> set (map cursor ir) = {}"
  shows "compared e w L sl sr (map cursor il) (map cursor ir) ls rs Y G"
proof -
  have P: "paired e w L sl sr ls rs Y G (map cursor il) (map cursor ir)" and st: "sstate (Y x) = sstate (X x)" and
    B: "both_cut e w L ls rs X G" and U: "linked_up w X Y G ls rs" for x using M by (simp_all add: sections_made_def)
  have "runs e w L ls Y G" "runs e w L rs Y G" using both_cut_runs [OF B] by (simp_all add: runs_def st)
  moreover have "meets w Y G p q = meets w X G p q" for p q by (simp add: meets_def st)
  ultimately show ?thesis using P U ac d by (simp add: compared_def linked_up_def)
qed

lemma compare_files_spec:
  assumes E: "env_ok e" and ga: "ample (lga e)" and C: "comparing e w L A ll lr il ir sl sr" and ne: "ll \<noteq> lr"
    and ac: "across w (map cursor il) (map cursor ir)"
  shows "\<exists>sl' sr' w1 compo w' L' qs zs. ci_compare_loop e alg2 ll lr d sl sr w = Some (sl', sr', w1) \<and>
    section_makecomposite e sl' sr' w1 = Some (compo, w') \<and> links_grown e (set (map cursor il)) (set (map cursor ir)) w w' \<and>
    store e w' L' \<and> L' compo = Some qs \<and> sects_at w' qs zs \<and> across w' (map cursor il) (map cursor ir) \<and>
    shows_files e w' (map cursor il) (map cursor ir) zs \<and> L' ll = Some il \<and> L' lr = Some ir"
proof -
  let ?cl = "map cursor il" and ?cr = "map cursor ir"
  obtain w1 L1 A1 sl' sr' ls rs X Y G where R: "ci_compare_loop e alg2 ll lr d sl sr w = Some (sl', sr', w1)"
    "links_grown e (set ?cl) (set ?cr) w w1" "comparing e w1 L1 A1 ll lr il ir sl' sr'" "sections_made e w1 w1 L1 il ir sl' sr' ls rs X Y G"
    using ci_compare_loop_spec [OF E ga C, of alg2 d] by (elim exE conjE) (rule that)
  have "wf (lh w) L" "L ll = Some il" "L lr = Some ir" using C by (simp_all add: comparing_def store_def)
  from apart_lists [OF this ne] have dis: "set ?cl \<inter> set ?cr = {}" by simp
  have ac1: "across w1 ?cl ?cr" by (rule across_links_grown [OF ac R(2) dis])
  have K: "compared e w1 L1 sl' sr' ?cl ?cr ls rs Y G" by (rule sections_made_compared [OF R(4) ac1 dis])
  have st: "\<forall>p \<in> set rs. sstate (Y p) \<in> {STATE_SAME, STATE_RIGHTONLY}" "\<forall>p \<in> set ls. sstate (Y p) \<in> {STATE_SAME, STATE_LEFTONLY}"
    using R(4) both_cut_facts(3) unfolding sections_made_def by (simp, metis)
  have "ready e w1 L1 Y G sl' sr' ls rs" using paired_ready [OF _ ga _ st(1)] R(4) unfolding sections_made_def by blast
  from compared_shown [OF K this st(2)] obtain compo w' qs zs prs where M:
    "section_makecomposite e sl' sr' w1 = Some (compo, w')" "sections_only w1 w'" "store e w' (L1(compo \<mapsto> qs))" "sects_at w' qs zs"
    "list_all2 (tells e w1 ?cl ?cr) zs prs" "subseq (concat (map fst prs)) ?cl"
    "all_ignorable e w1 (filter (\<lambda>c. c \<notin> set (concat (map fst prs))) ?cl)" "concat (map snd prs) = ?cr" "compo \<notin> cells L1" by (elim exE conjE)
  note T = tells_sections_only [OF M(2)]
  have "lines_ok e w1" using R(2) by (simp add: links_grown_def)
  then have "links_grown e (set ?cl) (set ?cr) w w'" using links_grown_trans [OF R(2) links_grown_sections_only [OF _ M(2)]] by blast
  moreover have "shows_files e w' ?cl ?cr zs" unfolding shows_files_def T using M(5-8) by blast
  moreover have "across w' ?cl ?cr" unfolding T by (rule ac1)
  moreover have "(L1(compo \<mapsto> qs)) compo = Some qs" by simp
  moreover have "(L1(compo \<mapsto> qs)) ll = Some il" "(L1(compo \<mapsto> qs)) lr = Some ir"
    using R(3) M(9) in_cellsI [of L1 ll il ll] in_cellsI [of L1 lr ir lr] by (auto simp: comparing_def)
  ultimately show ?thesis using R(1) M(1,3,4) by blast
qed

end
