(* ===== verification/Windiff_Compare_Properties.thy ===== *)
theory Windiff_Compare_Properties
  imports Windiff_Properties Windiff_Partners_Correct
begin

text \<open>
  What comparing two files promises: \<open>ci_compare\<close> ends, and its composite list is a side by side
  view of the two files in which sections shown as equal or moved read the same.  As a refinement:
  what the list shows is an alignment of the two files as lists of texts.
\<close>

subsection \<open>The files as texts\<close>

text \<open>The lines as a comparison reads them: with blanks ignored or not, and without ignorable lines.\<close>

definition reading :: "wenv \<Rightarrow> wd \<Rightarrow> ptr list \<Rightarrow> cstring list" where
  "reading e w cs = map (line_key e w) (filter (\<lambda>c. \<not> ign e w c) cs)"

text \<open>An alignment of two texts: pieces of both, equal where they are marked so, one-sided elsewhere.\<close>

definition alignment :: "'k list \<Rightarrow> 'k list \<Rightarrow> (nat \<times> 'k list \<times> 'k list) list \<Rightarrow> bool" where
  "alignment a b es \<longleftrightarrow> concat (map (\<lambda>(st, x, y). x) es) = a \<and> concat (map (\<lambda>(st, x, y). y) es) = b \<and>
     (\<forall>(st, x, y) \<in> set es. (if st = STATE_SAME then x = y
        else if st \<in> {STATE_LEFTONLY, STATE_MOVEDLEFT, STATE_SIMILARLEFT} then y = [] \<and> (st = STATE_MOVEDLEFT \<longrightarrow> sublist x b)
        else st \<in> {STATE_RIGHTONLY, STATE_MOVEDRIGHT, STATE_SIMILARRIGHT} \<and> x = [] \<and> (st = STATE_MOVEDRIGHT \<longrightarrow> sublist y a)))"

lemma ign_key: "ign e w c \<longleftrightarrow> ignore_blanks e \<and> line_key e w c = [10]"
  by (auto simp: ign_def blank_line_def line_key_def)

lemma same_lines_reading:
  assumes ok: "lines_ok e w" and s: "same_lines e w lg rg"
  shows "reading e w lg = reading e w rg"
proof -
  have key: "lk w c \<noteq> NULL \<Longrightarrow> line_key e w (lk w c) = line_key e w c" for c using ok by (auto simp: lines_ok_def)
  have drop: "reading e w g = reading e w (linked_lines w g)" if "\<forall>c \<in> set g. lk w c \<noteq> NULL \<or> ign e w c" for g
    using that by (induction g) (auto simp: reading_def linked_lines_def)
  have "\<forall>c \<in> set g. lk w c \<noteq> NULL \<Longrightarrow> reading e w (map (lk w) g) = reading e w g" for g
    by (induction g) (auto simp: reading_def ign_key key)
  then have "reading e w (map (lk w) (linked_lines w lg)) = reading e w (linked_lines w lg)" by (simp add: linked_lines_in)
  then show ?thesis using s drop [of lg] drop [of rg] by (simp add: same_lines_def)
qed

lemma subseq_filter_out:
  "subseq xs ys \<Longrightarrow> distinct ys \<Longrightarrow> (\<forall>c \<in> set ys. c \<notin> set xs \<longrightarrow> P c) \<Longrightarrow> filter (\<lambda>c. \<not> P c) ys = filter (\<lambda>c. \<not> P c) xs"
proof (induction rule: list_emb.induct)
  case (list_emb_Cons xs ys y)
  then have "y \<notin> set xs" using subseq_set by auto
  then show ?case using list_emb_Cons by auto
next
  case (list_emb_Cons2 x y xs ys)
  then have "\<forall>c \<in> set ys. c \<notin> set xs \<longrightarrow> P c" by auto
  then show ?case using list_emb_Cons2 by simp
qed simp

lemma reading_concat: "reading e w (concat gs) = concat (map (reading e w) gs)"
  by (induction gs) (simp_all add: reading_def)

lemma sublist_reading: "sublist g cs \<Longrightarrow> sublist (reading e w g) (reading e w cs)"
  unfolding sublist_def reading_def by (metis filter_append map_append)

lemma map_zip:
  assumes "length xs = length ys"
  shows "map (\<lambda>x. f (fst x)) (zip xs ys) = map f xs" "map (\<lambda>x. g (snd x)) (zip xs ys) = map g ys"
  using assms by (induction rule: list_induct2) simp_all

definition entry_read :: "wenv \<Rightarrow> wd \<Rightarrow> sect \<times> ptr list \<times> ptr list \<Rightarrow> nat \<times> cstring list \<times> cstring list" where
  "entry_read e w = (\<lambda>(z, lg, rg). (sstate z, reading e w lg, reading e w rg))"

text \<open>The pieces that the sections cut, as they are read, align the two files.\<close>

definition pieces_read :: "wenv \<Rightarrow> wd \<Rightarrow> sect list \<Rightarrow> (ptr list \<times> ptr list) list \<Rightarrow> (nat \<times> cstring list \<times> cstring list) list" where
  "pieces_read e w zs prs = map (entry_read e w) (zip zs prs)"

lemma cuts_alignment:
  assumes ok: "lines_ok e w" and d: "distinct csl" and sh: "cuts_files e w csl csr zs prs"
  shows "alignment (reading e w csl) (reading e w csr) (pieces_read e w zs prs)"
proof -
  have P: "list_all2 (tells e w csl csr) zs prs" "subseq (concat (map fst prs)) csl"
    "all_ignorable e w (filter (\<lambda>c. c \<notin> set (concat (map fst prs))) csl)" "concat (map snd prs) = csr"
    using sh by (simp_all add: cuts_files_def)
  define es where "es = pieces_read e w zs prs"
  note es_def = es_def [unfolded pieces_read_def]
  note M = map_zip [OF list_all2_lengthD [OF P(1)]]
  have "filter (\<lambda>c. \<not> ign e w c) csl = filter (\<lambda>c. \<not> ign e w c) (concat (map fst prs))"
    by (rule subseq_filter_out [OF P(2) d]) (use P(3) in \<open>auto simp: all_ignorable_def\<close>)
  then have "reading e w csl = reading e w (concat (map fst prs))" by (simp add: reading_def)
  also have "\<dots> = concat (map (\<lambda>pr. reading e w (fst pr)) prs)" by (simp add: reading_concat comp_def)
  also have "\<dots> = concat (map (\<lambda>(st, x, y). x) es)"
    using M(2) [of "\<lambda>pr. reading e w (fst pr)"] by (simp add: es_def entry_read_def split_def comp_def)
  finally have l: "concat (map (\<lambda>(st, x, y). x) es) = reading e w csl" by simp
  have "reading e w csr = concat (map (\<lambda>pr. reading e w (snd pr)) prs)" unfolding P(4) [symmetric] by (simp add: reading_concat comp_def)
  also have "\<dots> = concat (map (\<lambda>(st, x, y). y) es)"
    using M(2) [of "\<lambda>pr. reading e w (snd pr)"] by (simp add: es_def entry_read_def split_def comp_def)
  finally have r: "concat (map (\<lambda>(st, x, y). y) es) = reading e w csr" by simp
  have nil: "reading e w [] = []" by (simp add: reading_def)
  have "if st = STATE_SAME then x = y
        else if st \<in> {STATE_LEFTONLY, STATE_MOVEDLEFT, STATE_SIMILARLEFT} then y = [] \<and> (st = STATE_MOVEDLEFT \<longrightarrow> sublist x (reading e w csr))
        else st \<in> {STATE_RIGHTONLY, STATE_MOVEDRIGHT, STATE_SIMILARRIGHT} \<and> x = [] \<and> (st = STATE_MOVEDRIGHT \<longrightarrow> sublist y (reading e w csl))"
    if "(st, x, y) \<in> set es" for st x y
  proof -
    obtain z lg rg where z: "(z, lg, rg) \<in> set (zip zs prs)" "st = sstate z" "x = reading e w lg" "y = reading e w rg"
      using \<open>(st, x, y) \<in> set es\<close> by (auto simp: es_def entry_read_def)
    have t: "tells e w csl csr z (lg, rg)" using P(1) z(1) by (auto simp: list_all2_iff)
    have eq: "same_lines e w a b \<Longrightarrow> reading e w a = reading e w b" for a b by (rule same_lines_reading [OF ok])
    show ?thesis
    proof (cases "st = STATE_SAME")
      case True
      then show ?thesis using t eq z by (simp add: tells_def)
    next
      case ns: False
      show ?thesis
      proof (cases "st \<in> {STATE_LEFTONLY, STATE_MOVEDLEFT, STATE_SIMILARLEFT}")
        case True
        then have "rg = []" "st = STATE_MOVEDLEFT \<longrightarrow> (\<exists>g. sublist g csr \<and> same_lines e w lg g)" using t ns z(2) unfolding tells_def by simp_all
        then show ?thesis using ns True z(3,4) nil eq sublist_reading by (auto simp del: insert_iff)
      next
        case False
        then have "st \<in> {STATE_RIGHTONLY, STATE_MOVEDRIGHT, STATE_SIMILARRIGHT}" "lg = []"
          "st = STATE_MOVEDRIGHT \<longrightarrow> (\<exists>g. sublist g csl \<and> same_lines e w rg g)" using t ns z(2) unfolding tells_def by simp_all
        then show ?thesis using ns False z(3,4) nil eq sublist_reading by (auto simp del: insert_iff)
      qed
    qed
  qed
  then have "alignment (reading e w csl) (reading e w csr) es" using l r unfolding alignment_def by blast
  then show ?thesis by (simp add: es_def pieces_read_def)
qed

subsection \<open>Pairs of files\<close>

text \<open>\<open>pair_ready e s ci c il ir L A\<close>: \<open>ci\<close> is a pair of files that have been read, with the lines
  \<open>il\<close> and \<open>ir\<close>, whose links, if there are any, lead from one file to the other.\<close>

definition pair_ready :: "cenv \<Rightarrow> cistore \<Rightarrow> ptr \<Rightarrow> compitem \<Rightarrow> ptr list \<Rightarrow> ptr list \<Rightarrow> view \<Rightarrow> pieces \<Rightarrow> bool" where
  "pair_ready e s ci c il ir L A \<longleftrightarrow> env_ok (wenv_of e) \<and> ample (lga (wenv_of e)) \<and> cis s ci = Some c \<and>
     left_file c \<noteq> NULL \<and> right_file c \<noteq> NULL \<and>
     (\<exists>dl dr. fds (cf s) (left_file c) = Some dl \<and> fds (cf s) (right_file c) = Some dr \<and> lines dl \<noteq> lines dr \<and>
        comparing (wenv_of e) (fw (cf s)) L A (lines dl) (lines dr) il ir (secs_left c) (secs_right c)) \<and>
     across (fw (cf s)) (map cursor il) (map cursor ir)"

text \<open>\<open>il\<close> and \<open>ir\<close> are the items of the lists of lines of the two files.\<close>

definition holds_lists :: "cistore \<Rightarrow> compitem \<Rightarrow> view \<Rightarrow> ptr list \<Rightarrow> ptr list \<Rightarrow> bool" where
  "holds_lists s c L il ir \<longleftrightarrow> (\<exists>dl dr. fds (cf s) (left_file c) = Some dl \<and> fds (cf s) (right_file c) = Some dr \<and>
     L (lines dl) = Some il \<and> L (lines dr) = Some ir)"

lemma ci_compare_spec:
  assumes "pair_ready e s ci c il ir L A"
  shows "\<exists>sl sr compo w L' qs zs. ci_compare e ci s = Some (s\<lparr>cf := (cf s)\<lparr>fw := w\<rparr>,
      cis := (cis s)(ci \<mapsto> c\<lparr>secs_left := sl, secs_right := sr, secs_composite := compo\<rparr>)\<rparr>) \<and>
    links_grown (wenv_of e) (set (map cursor il)) (set (map cursor ir)) (fw (cf s)) w \<and>
    store (wenv_of e) w L' \<and> L' compo = Some qs \<and> sects_at w qs zs \<and>
    across w (map cursor il) (map cursor ir) \<and> shows_files (wenv_of e) w (map cursor il) (map cursor ir) zs \<and>
    holds_lists s c L' il ir"
proof -
  let ?e = "wenv_of e" and ?w = "fw (cf s)"
  have R: "env_ok ?e" "ample (lga ?e)" "cis s ci = Some c" "left_file c \<noteq> NULL" "right_file c \<noteq> NULL" "across ?w (map cursor il) (map cursor ir)"
    using assms by (simp_all add: pair_ready_def)
  obtain dl dr where F: "fds (cf s) (left_file c) = Some dl" "fds (cf s) (right_file c) = Some dr" "lines dl \<noteq> lines dr"
    "comparing ?e ?w L A (lines dl) (lines dr) il ir (secs_left c) (secs_right c)" using assms by (auto simp: pair_ready_def)
  have W: "wf (lh ?w) L" "L (lines dl) = Some il" "L (lines dr) = Some ir" using F(4) by (simp_all add: comparing_def store_def)
  have n: "lines dl \<noteq> NULL" "lines dr \<noteq> NULL" using wf_nonnull [OF W(1,2)] wf_nonnull [OF W(1,3)] by simp_all
  obtain sl sr w1 compo w L' qs zs where M: "ci_compare_loop ?e (Algorithm2 e) (lines dl) (lines dr) False (secs_left c) (secs_right c) ?w = Some (sl, sr, w1)"
    "section_makecomposite ?e sl sr w1 = Some (compo, w)" "links_grown ?e (set (map cursor il)) (set (map cursor ir)) ?w w"
    "store ?e w L'" "L' compo = Some qs" "sects_at w qs zs" "across w (map cursor il) (map cursor ir)"
    "shows_files ?e w (map cursor il) (map cursor ir) zs" "L' (lines dl) = Some il" "L' (lines dr) = Some ir"
    using compare_files_spec [OF R(1,2) F(4,3) R(6), of "Algorithm2 e" False] by (elim exE conjE) (rule that)
  have "ci_compare e ci s = Some (s\<lparr>cf := (cf s)\<lparr>fw := w\<rparr>,
      cis := (cis s)(ci \<mapsto> c\<lparr>secs_left := sl, secs_right := sr, secs_composite := compo\<rparr>)\<rparr>)"
    using R(3-5) F(1,2) n M(1,2) by (simp add: ci_compare_def ld_ci_def on_cf_def on_fw_def wr_ci_def file_getlinelist_def ld_file_def)
  moreover have "holds_lists s c L' il ir" using F(1,2) M(9,10) by (simp add: holds_lists_def)
  ultimately show ?thesis using M(3-8) by blast
qed

text \<open>The state after a comparison that ends with the composite list \<open>zs\<close> of two files with the lines
  \<open>il\<close> and \<open>ir\<close>, cut into the pieces \<open>prs\<close>; the pieces, as they are read, are an alignment of the texts
  \<open>a\<close> and \<open>b\<close>.\<close>

definition aligned :: "cenv \<Rightarrow> cistore \<Rightarrow> ptr \<Rightarrow> compitem \<Rightarrow> ptr list \<Rightarrow> ptr list \<Rightarrow> cstring list \<Rightarrow> cstring list \<Rightarrow> sect list \<Rightarrow>
    (ptr list \<times> ptr list) list \<Rightarrow> bool" where
  "aligned e s' ci c il ir a b zs prs \<longleftrightarrow> (\<exists>c' L' qs. cis s' ci = Some c' \<and> store (wenv_of e) (fw (cf s')) L' \<and>
     holds_lists s' c L' il ir \<and> L' (secs_composite c') = Some qs \<and> sects_at (fw (cf s')) qs zs) \<and>
     cuts_files (wenv_of e) (fw (cf s')) (map cursor il) (map cursor ir) zs prs \<and>
     alignment a b (pieces_read (wenv_of e) (fw (cf s')) zs prs)"

lemma ci_compare_aligned:
  assumes "pair_ready e s ci c il ir L A"
  shows "\<exists>s' zs prs. ci_compare e ci s = Some s' \<and> fds (cf s') = fds (cf s) \<and>
    links_grown (wenv_of e) (set (map cursor il)) (set (map cursor ir)) (fw (cf s)) (fw (cf s')) \<and>
    aligned e s' ci c il ir (reading (wenv_of e) (fw (cf s)) (map cursor il)) (reading (wenv_of e) (fw (cf s)) (map cursor ir)) zs prs"
proof -
  obtain sl sr compo w L' qs zs where M: "ci_compare e ci s = Some (s\<lparr>cf := (cf s)\<lparr>fw := w\<rparr>,
      cis := (cis s)(ci \<mapsto> c\<lparr>secs_left := sl, secs_right := sr, secs_composite := compo\<rparr>)\<rparr>)"
    "links_grown (wenv_of e) (set (map cursor il)) (set (map cursor ir)) (fw (cf s)) w" "L' compo = Some qs" "sects_at w qs zs"
    "shows_files (wenv_of e) w (map cursor il) (map cursor ir) zs" "store (wenv_of e) w L'" "holds_lists s c L' il ir"
    using ci_compare_spec [OF assms] by (elim exE conjE) (rule that)
  obtain prs where C: "cuts_files (wenv_of e) w (map cursor il) (map cursor ir) zs prs" using M(5) shows_cuts by blast
  have ok: "lines_ok (wenv_of e) w" and t: "line_text w = line_text (fw (cf s))" using M(2) by (simp_all add: links_grown_def)
  have "line_key (wenv_of e) w = line_key (wenv_of e) (fw (cf s))" by (simp add: fun_eq_iff line_key_def t)
  then have r: "reading (wenv_of e) w = reading (wenv_of e) (fw (cf s))" by (simp add: fun_eq_iff reading_def ign_key)
  have "lined (fw (cf s)) (map cursor il)" using assms unfolding lined_def pair_ready_def comparing_def store_def by blast
  then have "distinct (map cursor il)" by (rule lined_distinct)
  from cuts_alignment [OF ok this C]
  have al: "alignment (reading (wenv_of e) (fw (cf s)) (map cursor il)) (reading (wenv_of e) (fw (cf s)) (map cursor ir))
    (pieces_read (wenv_of e) w zs prs)" unfolding r .
  let ?c = "c\<lparr>secs_left := sl, secs_right := sr, secs_composite := compo\<rparr>"
  let ?s' = "s\<lparr>cf := (cf s)\<lparr>fw := w\<rparr>, cis := (cis s)(ci \<mapsto> ?c)\<rparr>"
  have "cis ?s' ci = Some ?c \<and> store (wenv_of e) (fw (cf ?s')) L' \<and> holds_lists ?s' c L' il ir \<and>
      L' (secs_composite ?c) = Some qs \<and> sects_at (fw (cf ?s')) qs zs"
    using M(3,4,6,7) by (simp add: holds_lists_def)
  then have "\<exists>c' L' qs. cis ?s' ci = Some c' \<and> store (wenv_of e) (fw (cf ?s')) L' \<and> holds_lists ?s' c L' il ir \<and>
      L' (secs_composite c') = Some qs \<and> sects_at (fw (cf ?s')) qs zs"
    by (intro exI [of _ ?c] exI [of _ L'] exI [of _ qs])
  then have "aligned e ?s' ci c il ir (reading (wenv_of e) (fw (cf s)) (map cursor il))
      (reading (wenv_of e) (fw (cf s)) (map cursor ir)) zs prs"
    unfolding aligned_def by (intro conjI) (assumption, simp_all add: C al)
  then show ?thesis using M(1,2) by (intro exI conjI) (rule M(1), simp_all)
qed

text \<open>Two files in a sample state: names and resources are empty, no file can be opened.\<close>

definition sample_cenv :: "nat \<Rightarrow> bool \<Rightarrow> cenv" where
  "sample_cenv h ib = \<lparr>fe = \<lparr>we = ascii_env h ib, cpage = \<lparr>cplead = (\<lambda>_. False), cpnext = tl, cpnarrow = map ucast, cpwide = map ucast\<rparr>,
       scan = \<lparr>opened_as = (\<lambda>_. None), relname = (\<lambda>_. []), rootdesc = (\<lambda>_. []), fileerror = (\<lambda>_. False), filesize = (\<lambda>_. 0),
         filetimes = (\<lambda>_. (0, 0)), checksums = (\<lambda>_. 0), sumvalid0 = (\<lambda>_. False), sumvalid1 = (\<lambda>_. False)\<rparr>, bufalloc = True\<rparr>,
     Algorithm2 = True, gbPerverseCompare = False, TrackSame = True, TrackDifferent = True, rcstring = (\<lambda>_. []),
     rcformat = (\<lambda>_ a _. a), samename = (=), timecmp = (\<lambda>_ _. 0), charprev = (\<lambda>_ i. i - 1)\<rparr>"

definition sample_compitem :: compitem where
  "sample_compitem = \<lparr>left_file = 1, right_file = 2, secs_composite = NULL, secs_left = NULL, secs_right = NULL, cistate = STATE_DIFFER,
     cidiscard = True, citag = NULL, ciresult = NULL, bMarked = False, delims = []\<rparr>"

definition sample_cistore :: "wd \<Rightarrow> ptr \<Rightarrow> ptr \<Rightarrow> cistore" where
  "sample_cistore w a b = \<lparr>cf = \<lparr>fw = w, fds = [1 \<mapsto> \<lparr>diritem = 1, lines = a, fUnicode = False\<rparr>, 2 \<mapsto> \<lparr>diritem = 2, lines = b, fUnicode = False\<rparr>],
       rdelims = [], fmsgs = []\<rparr>, cis = [1 \<mapsto> sample_compitem], RightRoot = [], LeftRoot = [], popups = []\<rparr>"

lemma sample_pair:
  "\<exists>h w a b L A p q r. pair_ready (sample_cenv h ib) (sample_cistore w a b) 1 sample_compitem [p, q] [r] L A \<and>
     distinct (map cursor [p, q, r]) \<and> line_text w (cursor p) = [97, 10] \<and> line_text w (cursor q) = [98, 10] \<and>
     line_text w (cursor r) = [32, 98, 10]"
proof -
  obtain w h A L a b p q r where S: "store (ascii_env h ib) w L" "mem_ok (ascii_env h ib) w A" "L a = Some [p, q]" "L b = Some [r]" "a \<noteq> b"
    "line_list w [p, q]" "line_list w [r]" "distinct (map cursor [p, q, r])" "line_text w (cursor p) = [97, 10]"
    "line_text w (cursor q) = [98, 10]" "line_text w (cursor r) = [32, 98, 10]" "lk w = (\<lambda>_. NULL)"
    using sample_store [of ib] by (elim exE conjE) (rule that)
  have e: "wenv_of (sample_cenv h ib) = ascii_env h ib" by (simp add: sample_cenv_def)
  have C: "comparing (ascii_env h ib) w L A a b [p, q] [r] NULL NULL" using S by (simp add: comparing_def older_def)
  have "ample (lga (ascii_env h ib))" by (simp add: ascii_env_def roomy_ample)
  then have "pair_ready (sample_cenv h ib) (sample_cistore w a b) 1 sample_compitem [p, q] [r] L A"
    using C S(5,12) ascii_env_ok unfolding pair_ready_def e by (simp add: sample_cistore_def sample_compitem_def across_def)
  with S(8-11) show ?thesis by blast
qed

text \<open>C1: \<open>ci_compare\<close> of two files ends, whatever their lines and links are. The composite list it
  makes shows, in order, every line of the right file exactly once and every line of the left file
  exactly once but ignorable blank ones; a section shown as the same holds lines of both files that
  are linked pairwise in order, besides ignorable ones, a moved section holds the lines of a piece of
  the other file, and each section carries the numbers of its first lines.\<close>

theorem ci_compare_shows:
  assumes "pair_ready e s ci c il ir L A"
  shows "\<exists>s' c' L' qs zs. ci_compare e ci s = Some s' \<and> cis s' ci = Some c' \<and> store (wenv_of e) (fw (cf s')) L' \<and>
    L' (secs_composite c') = Some qs \<and> sects_at (fw (cf s')) qs zs \<and>
    shows_files (wenv_of e) (fw (cf s')) (map cursor il) (map cursor ir) zs"
proof -
  obtain sl sr compo w L' qs zs where M: "ci_compare e ci s = Some (s\<lparr>cf := (cf s)\<lparr>fw := w\<rparr>,
      cis := (cis s)(ci \<mapsto> c\<lparr>secs_left := sl, secs_right := sr, secs_composite := compo\<rparr>)\<rparr>)"
    "store (wenv_of e) w L'" "L' compo = Some qs" "sects_at w qs zs" "shows_files (wenv_of e) w (map cursor il) (map cursor ir) zs"
    using ci_compare_spec [OF assms] by (elim exE conjE) (rule that)
  then show ?thesis by (intro exI conjI) (rule M(1), simp, simp, simp, simp, simp)
qed

theorem ci_compare_shows_witness:
  "\<exists>h w a b s' c' L' qs zs prs p q r. ci_compare (sample_cenv h False) 1 (sample_cistore w a b) = Some s' \<and> cis s' 1 = Some c' \<and>
     L' (secs_composite c') = Some qs \<and> sects_at (fw (cf s')) qs zs \<and> list_all2 (tells (ascii_env h False) (fw (cf s')) [p, q] [r]) zs prs \<and>
     concat (map fst prs) = [p, q] \<and> concat (map snd prs) = [r] \<and> distinct [p, q, r]"
proof -
  obtain h w a b L A p q r where S: "pair_ready (sample_cenv h False) (sample_cistore w a b) 1 sample_compitem [p, q] [r] L A"
    "distinct (map cursor [p, q, r])" using sample_pair [of False] by (elim exE conjE) (rule that)
  have e: "wenv_of (sample_cenv h False) = ascii_env h False" by (simp add: sample_cenv_def)
  obtain s' c' L' qs zs where M: "ci_compare (sample_cenv h False) 1 (sample_cistore w a b) = Some s'" "cis s' 1 = Some c'"
    "L' (secs_composite c') = Some qs" "sects_at (fw (cf s')) qs zs"
    "shows_files (ascii_env h False) (fw (cf s')) [cursor p, cursor q] [cursor r] zs"
    using ci_compare_shows [OF S(1), unfolded e] by auto
  obtain prs where P: "list_all2 (tells (ascii_env h False) (fw (cf s')) [cursor p, cursor q] [cursor r]) zs prs"
    "subseq (concat (map fst prs)) [cursor p, cursor q]" "concat (map snd prs) = [cursor r]"
    "all_ignorable (ascii_env h False) (fw (cf s')) (filter (\<lambda>c. c \<notin> set (concat (map fst prs))) [cursor p, cursor q])"
    using M(5) by (auto simp: shows_files_def)
  have n: "\<not> ign (ascii_env h False) v c" for v c by (simp add: ign_def ascii_env_def)
  have d: "distinct [cursor p, cursor q]" "distinct [cursor p, cursor q, cursor r]" using S(2) by simp_all
  have "filter (\<lambda>c. \<not> False) [cursor p, cursor q] = filter (\<lambda>c. \<not> False) (concat (map fst prs))"
  proof (rule subseq_filter_out [OF P(2) d(1)], intro ballI impI)
    fix c assume "c \<in> set [cursor p, cursor q]" "c \<notin> set (concat (map fst prs))"
    then have "c \<in> set (filter (\<lambda>c. c \<notin> set (concat (map fst prs))) [cursor p, cursor q])" unfolding set_filter by blast
    then show False using P(4) n unfolding all_ignorable_def by blast
  qed
  then have "concat (map fst prs) = [cursor p, cursor q]" by simp
  with M P d(2) show ?thesis by blast
qed

text \<open>C3: comparing only adds links, between lines of the two files that read the same: old links
  stay, a new link is mutual, leads to the other file and joins lines with the same text (blanks
  apart, if they are ignored); texts and numbers of lines do not change.\<close>

theorem ci_compare_links:
  assumes "pair_ready e s ci c il ir L A"
  shows "\<exists>s'. ci_compare e ci s = Some s' \<and>
    (\<forall>p. lk (fw (cf s)) p \<noteq> NULL \<longrightarrow> lk (fw (cf s')) p = lk (fw (cf s)) p) \<and>
    (\<forall>p. lk (fw (cf s')) p \<noteq> NULL \<longrightarrow> lk (fw (cf s')) (lk (fw (cf s')) p) = p \<and>
       line_key (wenv_of e) (fw (cf s')) (lk (fw (cf s')) p) = line_key (wenv_of e) (fw (cf s')) p) \<and>
    across (fw (cf s')) (map cursor il) (map cursor ir) \<and> line_text (fw (cf s')) = line_text (fw (cf s)) \<and>
    (\<forall>p. line_getlinenr p (fw (cf s')) = line_getlinenr p (fw (cf s)))"
proof -
  obtain sl sr compo w where M: "ci_compare e ci s = Some (s\<lparr>cf := (cf s)\<lparr>fw := w\<rparr>,
      cis := (cis s)(ci \<mapsto> c\<lparr>secs_left := sl, secs_right := sr, secs_composite := compo\<rparr>)\<rparr>)"
    "links_grown (wenv_of e) (set (map cursor il)) (set (map cursor ir)) (fw (cf s)) w" "across w (map cursor il) (map cursor ir)"
    using ci_compare_spec [OF assms] by (elim exE conjE) (rule that)
  have "lk (fw (cf s)) p \<noteq> NULL \<longrightarrow> lk w p = lk (fw (cf s)) p" for p using M(2) by (auto simp: links_grown_def links_added_def)
  moreover have "lines_ok (wenv_of e) w" using M(2) by (simp add: links_grown_def)
  then have "lk w p \<noteq> NULL \<longrightarrow> lk w (lk w p) = p \<and> line_key (wenv_of e) w (lk w p) = line_key (wenv_of e) w p" for p
    unfolding lines_ok_def by blast
  ultimately show ?thesis using M(1,3) M(2) [unfolded links_grown_def] by (intro exI conjI) (rule M(1), simp_all)
qed

theorem ci_compare_links_witness:
  "\<exists>h w a b s' q r. ci_compare (sample_cenv h True) 1 (sample_cistore w a b) = Some s' \<and>
     line_text (fw (cf s')) q = [98, 10] \<and> line_text (fw (cf s')) r = [32, 98, 10] \<and> lk (fw (cf s')) r \<noteq> r"
proof -
  obtain h w a b L A p q r where S: "pair_ready (sample_cenv h True) (sample_cistore w a b) 1 sample_compitem [p, q] [r] L A"
    "distinct (map cursor [p, q, r])" "line_text w (cursor q) = [98, 10]" "line_text w (cursor r) = [32, 98, 10]"
    using sample_pair [of True] by (elim exE conjE) (rule that)
  have w: "fw (cf (sample_cistore w a b)) = w" by (simp add: sample_cistore_def)
  obtain s' where M: "ci_compare (sample_cenv h True) 1 (sample_cistore w a b) = Some s'"
    "across (fw (cf s')) (map cursor [p, q]) (map cursor [r])" "line_text (fw (cf s')) = line_text w"
    using ci_compare_links [OF S(1), unfolded w] by (elim exE conjE) (rule that)
  have "lk (fw (cf s')) (cursor r) \<in> {NULL, cursor p, cursor q}" using M(2) by (auto simp: across_def)
  then have "lk (fw (cf s')) (cursor r) \<noteq> cursor r" using S(2) cursor_nonnull [of r] by (auto simp del: cursor_nonnull)
  then show ?thesis using M S(3,4) by metis
qed

text \<open>C4: comparing two files refines an alignment of two texts.  The composite list that is left in the
  pair cuts both files into pieces, in order: every section names the first and the last line, the state
  and the numbers of its piece (\<open>cuts_files\<close>, \<open>tells\<close>).  Read with their blanks ignored or
  not, and without ignorable lines, these pieces put together are the two files; the two pieces of a
  section shown as the same are equal, a left section has no right piece and a right section no left
  one, and the piece of a moved section occurs in the other file.\<close>

theorem ci_compare_aligns:
  assumes "pair_ready e s ci c il ir L A"
  shows "\<exists>s' c' L' qs zs prs. ci_compare e ci s = Some s' \<and> cis s' ci = Some c' \<and> store (wenv_of e) (fw (cf s')) L' \<and>
    holds_lists s' c L' il ir \<and> L' (secs_composite c') = Some qs \<and> sects_at (fw (cf s')) qs zs \<and>
    cuts_files (wenv_of e) (fw (cf s')) (map cursor il) (map cursor ir) zs prs \<and>
    alignment (reading (wenv_of e) (fw (cf s)) (map cursor il)) (reading (wenv_of e) (fw (cf s)) (map cursor ir))
      (pieces_read (wenv_of e) (fw (cf s')) zs prs)"
  using ci_compare_aligned [OF assms] unfolding aligned_def by blast

theorem ci_compare_aligns_witness:
  "\<exists>h w a b s' zs prs p q r. ci_compare (sample_cenv h True) 1 (sample_cistore w a b) = Some s' \<and>
     cuts_files (ascii_env h True) (fw (cf s')) [p, q] [r] zs prs \<and>
     alignment [[97, 10], [98, 10 :: byte]] [[98, 10]] (pieces_read (ascii_env h True) (fw (cf s')) zs prs)"
proof -
  obtain h w a b L A p q r where S: "pair_ready (sample_cenv h True) (sample_cistore w a b) 1 sample_compitem [p, q] [r] L A"
    "line_text w (cursor p) = [97, 10]" "line_text w (cursor q) = [98, 10]" "line_text w (cursor r) = [32, 98, 10]"
    using sample_pair [of True] by (elim exE conjE) (rule that)
  have w: "fw (cf (sample_cistore w a b)) = w" "wenv_of (sample_cenv h True) = ascii_env h True" by (simp_all add: sample_cistore_def sample_cenv_def)
  obtain s' zs prs where M: "ci_compare (sample_cenv h True) 1 (sample_cistore w a b) = Some s'"
    "cuts_files (ascii_env h True) (fw (cf s')) (map cursor [p, q]) (map cursor [r]) zs prs"
    "alignment (reading (ascii_env h True) w (map cursor [p, q])) (reading (ascii_env h True) w (map cursor [r]))
      (pieces_read (ascii_env h True) (fw (cf s')) zs prs)"
    using ci_compare_aligns [OF S(1), unfolded w] by (elim exE conjE) (rule that)
  have ib: "ignore_blanks (ascii_env h True)" by (simp add: ascii_env_def)
  have k: "line_key (ascii_env h True) w (cursor p) = [97, 10]" "line_key (ascii_env h True) w (cursor q) = [98, 10]"
    "line_key (ascii_env h True) w (cursor r) = [98, 10]" using S(2-4) ib by (simp_all add: line_key_def shown_def IS_BLANK_def)
  have rd: "reading (ascii_env h True) w (map cursor [p, q]) = [[97, 10], [98, 10]]" "reading (ascii_env h True) w (map cursor [r]) = [[98, 10]]"
    by (simp_all add: reading_def ign_key k)
  have "cuts_files (ascii_env h True) (fw (cf s')) [cursor p, cursor q] [cursor r] zs prs" using M(2) by simp
  then show ?thesis using M(1) M(3) [unfolded rd] by blast
qed

end
