(* ===== verification/Gutils_Readfile_Correct.thy ===== *)
theory Gutils_Readfile_Correct
  imports Gutils_Readfile
begin

text \<open>
  The line reader in a single-byte code page: the pieces that \<open>readfile_next\<close> hands out are the lines
  of the file (with NULs turned into full stops), cut at the size of the buffer, and together they are
  the whole file.
\<close>

text \<open>A single-byte code page.\<close>

definition plain_cp :: "codepage \<Rightarrow> bool" where
  "plain_cp cp \<longleftrightarrow> (\<forall>c. \<not> cplead cp c) \<and> (\<forall>c cs. c \<noteq> 0 \<longrightarrow> cpnext cp (c # cs) = cs)"

definition dot :: "byte \<Rightarrow> byte" where
  "dot c = (if c = 0 then 46 else c)"

lemma dot_facts [simp]: "dot c \<noteq> 0" "dot (dot c) = dot c"
  by (simp_all add: dot_def)

lemma dotted_Cons: "dotted (c # cs) = dot c # cs"
  by (simp add: dot_def)

abbreviation is_delim :: "bool list \<Rightarrow> byte \<Rightarrow> bool" where
  "is_delim dl c \<equiv> dl ! unat c"

text \<open>The text up to and including the first delimiter.\<close>

fun upto_delim :: "bool list \<Rightarrow> byte list \<Rightarrow> byte list" where
  "upto_delim dl [] = []"
| "upto_delim dl (c # cs) = c # (if is_delim dl c then [] else upto_delim dl cs)"

lemma upto_delim_append: "\<exists>c \<in> set xs. is_delim dl c \<Longrightarrow> upto_delim dl (xs @ ys) = upto_delim dl xs"
  by (induction xs) auto

lemma upto_delim_none: "\<forall>c \<in> set xs. \<not> is_delim dl c \<Longrightarrow> upto_delim dl xs = xs"
  by (induction xs) auto

lemma upto_delim_prefix: "\<exists>ys. xs = upto_delim dl xs @ ys"
  by (induction xs) auto

lemma upto_delim_drop: "upto_delim dl xs @ drop (length (upto_delim dl xs)) xs = xs"
  by (induction xs) auto

lemma upto_delim_inner: "\<forall>c \<in> set (butlast (upto_delim dl xs)). \<not> is_delim dl c"
proof (induction xs)
  case (Cons c cs)
  have "butlast (upto_delim dl (c # cs)) = (if is_delim dl c \<or> cs = [] then [] else c # butlast (upto_delim dl cs))" by (cases cs) simp_all
  then show ?case using Cons.IH by simp
qed simp

lemma upto_delim_Nil [simp]: "upto_delim dl xs = [] \<longleftrightarrow> xs = []"
  by (cases xs) auto

lemma narrow_loop_spec:
  assumes cp: "plain_cp cp"
  shows "narrow_loop cp dl ds bs = Some (if \<exists>c \<in> set bs. is_delim dl (dot c)
     then (True, ds @ upto_delim dl (map dot bs), drop (length (upto_delim dl (map dot bs))) bs) else (False, ds @ map dot bs, []))"
proof (induction bs arbitrary: ds)
  case Nil
  then show ?case by (simp add: narrow_loop.simps)
next
  case (Cons c cs)
  have nx: "cpnext cp (dot c # cs) = cs" using cp by (simp add: plain_cp_def)
  have "narrow_loop cp dl ds (c # cs) = (if is_delim dl (dot c) then Some (True, ds @ [dot c], cs) else narrow_loop cp dl (ds @ [dot c]) cs)"
    using nx by (subst narrow_loop.simps) (simp add: dotted_Cons del: dotted.simps)
  then show ?case using Cons.IH [of "ds @ [dot c]"] by auto
qed

text \<open>What is left to read: the buffer and the file from the position of the handle on.\<close>

definition reads :: "filebuffer \<Rightarrow> byte list \<Rightarrow> bool" where
  "reads fb r \<longleftrightarrow> \<not> bUnicode fb \<and> length (fbuffer fb) \<le> BUFFER_SIZE \<and>
     (\<exists>h. fh fb = Some h \<and> hfail h = (\<lambda>_. False) \<and> map dot (fbuffer fb @ drop (hpos h) (hdata h)) = r)"

definition piece :: "bool list \<Rightarrow> byte list \<Rightarrow> byte list" where
  "piece dl r = upto_delim dl (take BUFFER_SIZE r)"

lemma FFindEOL_spec:
  assumes "plain_cp cp" "\<not> bUnicode fb"
  shows "FFindEOL cp dl fb = Some (if \<exists>c \<in> set (fbuffer fb). is_delim dl (dot c)
     then (Some (upto_delim dl (map dot (fbuffer fb))), None, fb\<lparr>fbuffer := drop (length (upto_delim dl (map dot (fbuffer fb)))) (fbuffer fb)\<rparr>)
     else (None, None, fb\<lparr>fbuffer := map dot (fbuffer fb)\<rparr>))"
  using assms by (simp add: FFindEOL_def narrow_loop_spec Let_def)

lemma no_lead: "plain_cp cp \<Longrightarrow> DBCScharType (cplead cp) bs (int (length bs) - 1) \<in> {Some CT_ANK, Some CT_INVALID}"
proof -
  assume cp: "plain_cp cp"
  have "takeWhile (cplead cp) xs = []" for xs using cp by (cases xs) (simp_all add: plain_cp_def)
  then show ?thesis using cp by (cases bs) (simp_all add: DBCScharType_def plain_cp_def)
qed

lemma fill_buffer_spec:
  assumes cp: "plain_cp cp" and fb: "\<not> bUnicode fb" "fh fb = Some h" "hfail h = (\<lambda>_. False)"
  shows "\<exists>h'. fill_buffer cp fb = Some (Some (fb\<lparr>fh := Some h', fbuffer := fbuffer fb @ take (BUFFER_SIZE - length (fbuffer fb)) (drop (hpos h) (hdata h))\<rparr>),
      fb\<lparr>fh := Some h', fbuffer := fbuffer fb @ take (BUFFER_SIZE - length (fbuffer fb)) (drop (hpos h) (hdata h))\<rparr>) \<and> hfail h' = (\<lambda>_. False) \<and>
    hdata h' = hdata h \<and> hpos h' = hpos h + length (take (BUFFER_SIZE - length (fbuffer fb)) (drop (hpos h) (hdata h)))"
proof -
  let ?bs = "take (BUFFER_SIZE - length (fbuffer fb)) (drop (hpos h) (hdata h))"
  define h' where "h' = h\<lparr>hreads := hreads h + 1, hpos := hpos h + length ?bs\<rparr>"
  have r: "ReadFile (BUFFER_SIZE - length (fbuffer fb)) h = (Some ?bs, h')" using fb(3) by (simp add: ReadFile_def Let_def h'_def)
  have "DBCScharType (cplead cp) ?bs (int (length ?bs) - 1) \<in> {Some CT_ANK, Some CT_INVALID}" by (rule no_lead [OF cp])
  then have "fill_buffer cp fb = Some (Some (fb\<lparr>fh := Some h', fbuffer := fbuffer fb @ ?bs\<rparr>), fb\<lparr>fh := Some h', fbuffer := fbuffer fb @ ?bs\<rparr>)"
    unfolding fill_buffer_def Let_def using fb(1,2) r by (elim insertE emptyE) (simp_all del: length_take)
  then show ?thesis using fb(3) by (intro exI [of _ h']) (simp add: h'_def)
qed

text \<open>One call hands out one piece, or NULL at the end of the file.\<close>

lemma readfile_next_spec:
  assumes cp: "plain_cp cp" and R: "reads fb r"
  shows "\<exists>fb'. readfile_next cp dl fb = Some ((if r = [] then None else Some (piece dl r), None), fb') \<and>
    reads fb' (drop (length (piece dl r)) r)"
proof -
  obtain h where h: "\<not> bUnicode fb" "length (fbuffer fb) \<le> BUFFER_SIZE" "fh fb = Some h" "hfail h = (\<lambda>_. False)"
    "map dot (fbuffer fb @ drop (hpos h) (hdata h)) = r" using R by (auto simp: reads_def)
  let ?b = "map dot (fbuffer fb)" and ?d = "drop (hpos h) (hdata h)"
  let ?n = "BUFFER_SIZE - length (fbuffer fb)"
  have tk: "take BUFFER_SIZE r = ?b @ take ?n (map dot ?d)" using h(2,5) by auto
  show ?thesis
  proof (cases "\<exists>c \<in> set (fbuffer fb). is_delim dl (dot c)")
    case True
    then have p: "piece dl r = upto_delim dl ?b" using upto_delim_append [of ?b dl] tk by (auto simp: piece_def)
    have ne: "r \<noteq> []" using True h(5) by auto
    have le: "length (upto_delim dl ?b) \<le> length (fbuffer fb)" by (metis upto_delim_drop length_append le_add1 length_map)
    have "reads (fb\<lparr>fbuffer := drop (length (upto_delim dl ?b)) (fbuffer fb)\<rparr>) (drop (length (piece dl r)) r)"
      using h le unfolding reads_def p by (auto simp: drop_map)
    then show ?thesis using True ne p FFindEOL_spec [OF cp h(1), of dl] by (simp add: readfile_next_def)
  next
    case False
    let ?fb = "fb\<lparr>fbuffer := ?b\<rparr>"
    obtain h' where F: "fill_buffer cp ?fb = Some (Some (?fb\<lparr>fh := Some h', fbuffer := ?b @ take ?n ?d\<rparr>), ?fb\<lparr>fh := Some h', fbuffer := ?b @ take ?n ?d\<rparr>)"
      "hfail h' = (\<lambda>_. False)" "hdata h' = hdata h" "hpos h' = hpos h + length (take ?n ?d)"
      using fill_buffer_spec [OF cp, of ?fb h] h by auto
    define f where "f = fb\<lparr>fh := Some h', fbuffer := ?b @ take ?n ?d\<rparr>"
    have fu: "\<not> bUnicode f" "fh f = Some h'" "fbuffer f = ?b @ take ?n ?d" using h(1) by (simp_all add: f_def)
    have b: "map dot (fbuffer f) = take BUFFER_SIZE r" using tk fu(3) by (simp add: take_map)
    have len: "length (fbuffer f) \<le> BUFFER_SIZE" using h(2) fu(3) by simp
    have F1: "fill_buffer cp ?fb = Some (Some f, f)" using F(1) by (simp add: f_def)
    have dd: "drop (hpos h') (hdata h') = drop ?n ?d"
      by (simp add: F(3,4)) (metis add.commute drop_drop drop_all length_drop linorder_le_cases min.absorb1 min.absorb2)
    have "map dot (fbuffer f @ drop (hpos h') (hdata h')) = map dot (fbuffer fb) @ map dot (take ?n ?d @ drop ?n ?d)" unfolding dd fu(3) by simp
    then have all: "map dot (fbuffer f @ drop (hpos h') (hdata h')) = r" unfolding append_take_drop_id h(5) [symmetric] by simp
    have E: "FFindEOL cp dl fb = Some (None, None, ?fb)" using False FFindEOL_spec [OF cp h(1), of dl] by simp
    have E2: "FFindEOL cp dl f = Some (if \<exists>c \<in> set (fbuffer f). is_delim dl (dot c)
     then (Some (piece dl r), None, f\<lparr>fbuffer := drop (length (piece dl r)) (fbuffer f)\<rparr>)
     else (None, None, f\<lparr>fbuffer := take BUFFER_SIZE r\<rparr>))"
      using FFindEOL_spec [OF cp fu(1), of dl] unfolding b piece_def .
    show ?thesis
    proof (cases "\<exists>c \<in> set (fbuffer f). is_delim dl (dot c)")
      case True
      then have ne: "r \<noteq> []" using b by (cases r) auto
      have le: "length (piece dl r) \<le> length (fbuffer f)" unfolding piece_def b [symmetric]
        by (metis upto_delim_drop length_append le_add1 length_map)
      have "reads (f\<lparr>fbuffer := drop (length (piece dl r)) (fbuffer f)\<rparr>) (drop (length (piece dl r)) r)"
        using fu(1,2) len F(2) all le unfolding reads_def by (auto simp: drop_map)
      then show ?thesis using E F1 E2 True ne by (simp add: readfile_next_def)
    next
      case none: False
      then have p: "piece dl r = take BUFFER_SIZE r" unfolding piece_def b [symmetric] by (intro upto_delim_none) auto
      have "reads (f\<lparr>fbuffer := []\<rparr>) (drop (length (piece dl r)) r)"
        using fu(1,2) F(2) all b len unfolding reads_def p by (auto simp: drop_map [symmetric] append_eq_conv_conj)
      moreover have "take BUFFER_SIZE r = [] \<longleftrightarrow> r = []" by (simp add: BUFFER_SIZE_def MAX_LINE_LENGTH_def)
      ultimately show ?thesis using E F1 E2 none p fu(1) by (simp add: readfile_next_def)
    qed
  qed
qed

subsection \<open>The pieces of a file\<close>

lemma piece_nonempty: "r \<noteq> [] \<Longrightarrow> piece dl r \<noteq> []"
  by (simp add: piece_def BUFFER_SIZE_def MAX_LINE_LENGTH_def)

function pieces_of :: "bool list \<Rightarrow> byte list \<Rightarrow> byte list list" where
  "pieces_of dl r = (if r = [] then [] else piece dl r # pieces_of dl (drop (length (piece dl r)) r))"
  by pat_completeness auto
termination
proof (relation "measure (\<lambda>(dl, r). length r)")
  fix dl and r :: "byte list" assume "r \<noteq> []"
  then have "0 < length (piece dl r)" "0 < length r" using piece_nonempty [of r dl] by simp_all
  then show "((dl, drop (length (piece dl r)) r), dl, r) \<in> measure (\<lambda>(dl, r). length r)" by simp
qed simp

declare pieces_of.simps [simp del]

lemma pieces_of_Nil [simp]: "pieces_of dl [] = []"
  by (simp add: pieces_of.simps)

lemma piece_drop: "piece dl r @ drop (length (piece dl r)) r = r"
proof -
  have "piece dl r @ drop (length (piece dl r)) (take BUFFER_SIZE r) = take BUFFER_SIZE r" unfolding piece_def by (rule upto_delim_drop)
  then show ?thesis by (metis append_assoc append_take_drop_id append_eq_conv_conj)
qed

lemma concat_pieces: "concat (pieces_of dl r) = r"
proof (induction dl r rule: pieces_of.induct)
  case (1 dl r)
  then show ?case using piece_drop [of dl r] by (cases "r = []") (simp_all add: pieces_of.simps [of dl r])
qed

text \<open>A piece is not empty, holds at most one delimiter, at its end, and has one unless it fills the
  buffer or ends the file.\<close>

definition piece_ok :: "bool list \<Rightarrow> byte list \<Rightarrow> bool" where
  "piece_ok dl t \<longleftrightarrow> t \<noteq> [] \<and> length t \<le> BUFFER_SIZE \<and> (\<forall>c \<in> set (butlast t). \<not> is_delim dl c)"

lemma upto_delim_length: "length (upto_delim dl xs) \<le> length xs"
  using upto_delim_drop [of dl xs] by (metis length_append le_add1)

lemma pieces_ok: "t \<in> set (pieces_of dl r) \<Longrightarrow> piece_ok dl t"
proof (induction dl r rule: pieces_of.induct)
  case (1 dl r)
  have "length (piece dl r) \<le> BUFFER_SIZE" using upto_delim_length [of dl "take BUFFER_SIZE r"] by (simp add: piece_def)
  then have "r \<noteq> [] \<Longrightarrow> piece_ok dl (piece dl r)" using piece_nonempty [of r dl] upto_delim_inner [of dl "take BUFFER_SIZE r"]
    by (simp add: piece_ok_def piece_def)
  then show ?case using 1 by (cases "r = []") (auto simp: pieces_of.simps [of dl r])
qed

lemma upto_delim_ends: "upto_delim dl xs = [] \<or> is_delim dl (last (upto_delim dl xs)) \<or> upto_delim dl xs = xs"
  by (induction xs) auto

lemma piece_ends:
  assumes "r \<noteq> []"
  shows "is_delim dl (last (piece dl r)) \<or> length (piece dl r) = BUFFER_SIZE \<or> piece dl r = r"
  using upto_delim_ends [of dl "take BUFFER_SIZE r"] piece_nonempty [OF assms, of dl] by (auto simp: piece_def min_def)

lemma pieces_end:
  "pieces_of dl r = us @ t # v # vs \<Longrightarrow> is_delim dl (last t) \<or> length t = BUFFER_SIZE"
proof (induction dl r arbitrary: us rule: pieces_of.induct)
  case (1 dl r)
  have ne: "r \<noteq> []" using "1.prems" by (cases "r = []") simp_all
  then have p: "pieces_of dl r = piece dl r # pieces_of dl (drop (length (piece dl r)) r)" by (simp add: pieces_of.simps)
  show ?case
  proof (cases us)
    case Nil
    then have "t = piece dl r" "drop (length (piece dl r)) r \<noteq> []" using "1.prems" p by auto
    then show ?thesis using piece_ends [OF ne, of dl] by auto
  next
    case (Cons u us')
    then have "pieces_of dl (drop (length (piece dl r)) r) = us' @ t # v # vs" using "1.prems" unfolding p Cons by (metis append_Cons list.inject)
    then show ?thesis by (rule "1.IH" [OF ne])
  qed
qed

subsection \<open>Starting to read\<close>

definition ansi_file :: "hfile \<Rightarrow> bool" where
  "ansi_file h \<longleftrightarrow> hfail h = (\<lambda>_. False) \<and> wchars (take 2 (hdata h)) \<noteq> [c_wchMagic]"

lemma readfile_new_spec:
  assumes "ansi_file h"
  shows "\<exists>fb. readfile_new True h True = (Some fb, False) \<and> reads fb (map dot (hdata h))"
  using assms by (auto simp: readfile_new_def ReadFile_def ansi_file_def reads_def)

lemma byte_bound: "unat (c :: byte) < 256"
  using unsigned_less [of c] by simp

lemma setdelims_loop_spec:
  "0 \<notin> set s \<Longrightarrow> length ds = 256 \<Longrightarrow> \<exists>d. setdelims_loop ds (s @ [0]) = Some d \<and> length d = 256 \<and> (\<forall>c. is_delim d c \<longleftrightarrow> c \<in> set s \<or> is_delim ds c)"
proof (induction s arbitrary: ds)
  case (Cons a s)
  obtain d where d: "setdelims_loop (ds[unat a := True]) (s @ [0]) = Some d" "length d = 256"
    "\<forall>c. is_delim d c \<longleftrightarrow> c \<in> set s \<or> is_delim (ds[unat a := True]) c" using Cons.IH [of "ds[unat a := True]"] Cons.prems by auto
  have "unat a = unat c \<Longrightarrow> c = a" for c :: byte by (metis unsigned_word_eqI)
  then have "is_delim (ds[unat a := True]) c \<longleftrightarrow> c = a \<or> is_delim ds c" for c
    using Cons.prems(2) byte_bound [of a] by (cases "c = a") (auto simp: nth_list_update)
  then show ?case using d Cons.prems(1) by (intro exI [of _ d]) auto
qed auto

lemma readfile_setdelims_spec:
  assumes "0 \<notin> set s"
  shows "\<exists>d. readfile_setdelims (s @ [0]) = Some d \<and> (\<forall>c. is_delim d c \<longleftrightarrow> c \<in> set s)"
proof -
  have "\<not> is_delim (replicate 256 False) c" for c :: byte using byte_bound [of c] by simp
  then show ?thesis using setdelims_loop_spec [OF assms, of "replicate 256 False"] by (auto simp: readfile_setdelims_def)
qed

end
