(* ===== verification/Windiff_File_Correct.thy ===== *)
theory Windiff_File_Correct
  imports Windiff_File Windiff_Makelist_Correct Windiff_Match_Correct Gutils_Readfile_Correct
begin

text \<open>
  Reading a file into a list of lines (\<open>file_readlines\<close>): it ends, and the lines are the pieces of the
  file in order, each ending in a newline, numbered from 1 and not linked.
\<close>

subsection \<open>A new line\<close>

text \<open>The text of a line: CR/LF is added where the newline is missing.\<close>

definition line_of :: "byte list \<Rightarrow> cstring" where
  "line_of t = t @ (if last t = 10 then [] else [13, 10])"

text \<open>A piece that can become a line: at most one newline, at the end, and no longer than \<open>gmem_get\<close>
  allocates from its segments.\<close>

definition line_piece :: "wenv \<Rightarrow> byte list \<Rightarrow> bool" where
  "line_piece e t \<longleftrightarrow> t \<noteq> [] \<and> 10 \<notin> set (butlast t) \<and> single (lead e) t \<and> length t + 3 \<le> MAXGALLOC"

text \<open>The texts of lines lie in pieces of the heap that are in use.\<close>

definition texts_owned :: "wd \<Rightarrow> pieces \<Rightarrow> bool" where
  "texts_owned w A \<longleftrightarrow> (\<forall>p l. fls w p = Some l \<longrightarrow> A (ltext l) \<noteq> None)"

definition lines_state :: "wenv \<Rightarrow> wd \<Rightarrow> view \<Rightarrow> pieces \<Rightarrow> bool" where
  "lines_state e w L A \<longleftrightarrow> store e w L \<and> mem_ok e w A \<and> texts_owned w A"

lemma line_of_facts:
  assumes p: "line_piece e t" and e: "env_ok e" "\<not> lead e 13" "\<not> lead e 10"
  shows "text_ok e (line_of t)" "text_block (lead e) t (length t) = Some (line_of t @ [0])" "length (line_of t @ [0]) \<le> MAXGALLOC"
proof -
  have t: "t \<noteq> []" "10 \<notin> set (butlast t)" "single (lead e) t" "length t + 3 \<le> MAXGALLOC" using p by (simp_all add: line_piece_def)
  obtain u x where u: "t = u @ [x]" using t(1) by (cases t rule: rev_cases) auto
  then have "10 \<notin> set t" if "last t \<noteq> 10" using t(2) that by auto
  then show "text_ok e (line_of t)" using t e by (auto simp: text_ok_def line_of_def single_def butlast_append)
  have "mbsncpy (lead e) s (length s) = Some s" if "single (lead e) s" for s
    using that by (induction s) (simp_all add: mbsncpy.simps single_def)
  then show "text_block (lead e) t (length t) = Some (line_of t @ [0])"
    using t(1,3) by (simp add: text_block_def line_of_def last_conv_nth)
  show "length (line_of t @ [0]) \<le> MAXGALLOC" using t(4) by (simp add: line_of_def)
qed

lemma line_new_spec:
  assumes F: "lines_state e w L A" and l: "L lst = Some its" "line_list w its" and ga: "ample (lga e)"
    and t: "line_piece e t" and e: "env_ok e" "\<not> lead e 13" "\<not> lead e 10"
  shows "\<exists>q w' A'. line_new e t (length t) None 0 nr lst w = Some (cursor q, w') \<and> lines_state e w' (L(lst \<mapsto> its @ [q])) A' \<and>
    fls w (cursor q) = None \<and> line_text w' (cursor q) = line_of t \<and> line_getlinenr (cursor q) w' = Some nr \<and> lk w' = lk w \<and>
    line_list w' (its @ [q]) \<and> (\<forall>p. fls w p \<noteq> None \<longrightarrow> fls w' p = fls w p \<and> line_text w' p = line_text w p) \<and> scs w' = scs w \<and> q \<notin> cells L"
proof -
  have S: "store e w L" and A: "mem_ok e w A" and own: "texts_owned w A" using F by (simp_all add: lines_state_def)
  note T = line_of_facts [OF t e]
  have W: "wf (lh w) L" and ok: "lines_ok e w" using S by (simp_all add: store_def)
  obtain q s1 where q: "List_NewLast (lga e) lst sizeof_fileline (lh w) = Some (cursor q, s1)" "inserted (lh w) L lst its [] sizeof_fileline None q s1"
    using List_NewLast_ample [OF W l(1) ga] by blast
  have q2: "q \<notin> cells L" "wf s1 (L(lst \<mapsto> its @ [q]))" using q(2) by (simp_all add: inserted_def)
  have fresh: "fls w (cursor q) = None" by (rule store_fresh [OF S q2(1)])
  let ?blk = "line_of t @ [0]"
  obtain p g where p: "tget (genv e) (wheap e) (length ?blk) (ts w) = Some (p, (ts w)\<lparr>gm := g\<rparr>)" "p \<noteq> NULL" "A p = None"
    "gm_sound (osalloc (genv e)) (useranswer (genv e)) (wheap e) g (A(p \<mapsto> length ?blk))"
    using tget_spec [OF A [unfolded mem_ok_def] _ T(3)] by auto
  define w' where "w' = w\<lparr>lh := s1, ts := (ts w)\<lparr>gm := g\<rparr>, texts := (texts w)(p \<mapsto> ?blk),
    fls := (fls w)(cursor q \<mapsto> \<lparr>flags = 0, ltext = p, hash = 0, llink = NULL, linenr = nr, pwzText = NULL\<rparr>)\<rparr>"
  have l0: "lst \<noteq> NULL" using wf_nonnull [OF W l(1)] by simp
  have run: "line_new e t (length t) None 0 nr lst w = Some (cursor q, w')"
    using l0 q(1) T(2) p(1,2) by (simp add: line_new_def on_list_def wget_def on_tree_def w'_def)
  have live: "fls w' x = fls w x \<and> line_text w' x = line_text w x" if lv: "fls w x \<noteq> None" for x
  proof -
    have "x \<noteq> cursor q" using lv fresh by auto
    moreover obtain y where "fls w x = Some y" using lv by auto
    then have "ltext (the (fls w x)) \<noteq> p" using own p(3) unfolding texts_owned_def by (metis option.sel)
    ultimately show ?thesis by (simp add: w'_def line_text_def)
  qed
  have k: "lk w' = lk w" using fresh by (auto simp: fun_eq_iff lk_def w'_def)
  have tx: "line_text w' (cursor q) = line_of t" by (simp add: w'_def line_text_def)
  have live': "fls w' x \<noteq> None \<longleftrightarrow> fls w x \<noteq> None \<or> x = cursor q" for x by (auto simp: w'_def)
  have ok': "lines_ok e w'"
    unfolding lines_ok_def
  proof (intro conjI allI impI)
    show "fls w' NULL = None" using ok by (simp add: w'_def lines_ok_def)
    show "line_ok e w' x" if x: "fls w' y = Some x" for y x
    proof (cases "y = cursor q")
      case True
      then show ?thesis using x T(1) by (auto simp: w'_def line_ok_def)
    next
      case False
      then have y: "fls w y = Some x" using x by (simp add: w'_def)
      then have "ltext x \<noteq> p" using own p(3) unfolding texts_owned_def by metis
      moreover have "line_ok e w x" using ok y unfolding lines_ok_def by blast
      ultimately show ?thesis by (simp add: line_ok_def w'_def)
    qed
    fix x assume x: "lk w' x \<noteq> NULL"
    then have y: "fls w (lk w x) \<noteq> None" "lk w (lk w x) = x" "line_key e w (lk w x) = line_key e w x" using ok k unfolding lines_ok_def by auto
    have "lk w (lk w x) \<noteq> NULL" using y(2) x k ok by (auto simp: lk_def lines_ok_def split: option.splits)
    then have "fls w x \<noteq> None" using ok y(2) unfolding lines_ok_def by metis
    then show "fls w' (lk w' x) \<noteq> None" "lk w' (lk w' x) = x" "line_key e w' (lk w' x) = line_key e w' x"
      using y live by (simp_all add: k line_key_def)
  qed
  have ll: "line_list w' (its @ [q])" using l(2) by (auto simp: line_list_def w'_def)
  have "\<exists>m xs. (L(lst \<mapsto> its @ [q])) m = Some xs \<and> x \<in> cursor ` set xs \<and> line_list w' xs" if x: "fls w' x \<noteq> None" for x
  proof (cases "x = cursor q")
    case True
    then show ?thesis using ll by (intro exI [of _ lst] exI [of _ "its @ [q]"]) simp
  next
    case False
    then have "fls w x \<noteq> None" using x live' by blast
    then obtain m xs where m: "L m = Some xs" "x \<in> cursor ` set xs" "line_list w xs" using S by (auto simp: store_def)
    then have "line_list w' xs" by (auto simp: line_list_def w'_def)
    then show ?thesis using m ll l(1) by (cases "m = lst") (auto intro!: exI [of _ m])
  qed
  then have "store e w' (L(lst \<mapsto> its @ [q]))" using ok' q2(2) by (simp add: store_def w'_def)
  moreover have "mem_ok e w' (A(p \<mapsto> length ?blk))" using p(4) by (simp add: mem_ok_def w'_def)
  moreover have "texts_owned w' (A(p \<mapsto> length ?blk))" using own by (auto simp: texts_owned_def w'_def)
  ultimately have "lines_state e w' (L(lst \<mapsto> its @ [q])) (A(p \<mapsto> length ?blk))" by (simp add: lines_state_def)
  moreover have "line_getlinenr (cursor q) w' = Some nr" by (simp add: line_getlinenr_def ld_line_def w'_def)
  moreover have "scs w' = scs w" by (simp add: w'_def)
  ultimately show ?thesis using run fresh tx k ll live q2(1) by blast
qed

subsection \<open>Reading\<close>

definition lines_kept :: "wd \<Rightarrow> wd \<Rightarrow> bool" where
  "lines_kept w w' \<longleftrightarrow> lk w' = lk w \<and> scs w' = scs w \<and> (\<forall>p. fls w p \<noteq> None \<longrightarrow> fls w' p = fls w p \<and> line_text w' p = line_text w p)"

lemma lines_kept_trans: "lines_kept w w1 \<Longrightarrow> lines_kept w1 w2 \<Longrightarrow> lines_kept w w2"
  by (simp add: lines_kept_def)

lemma lines_kept_nr: "lines_kept w w' \<Longrightarrow> fls w p \<noteq> None \<Longrightarrow> line_getlinenr p w' = line_getlinenr p w"
  by (simp add: lines_kept_def line_getlinenr_def ld_line_def)

text \<open>The lines at \<open>qs\<close> are the pieces \<open>pcs\<close>, numbered from \<open>nr\<close>.\<close>

definition holds_pieces :: "wd \<Rightarrow> ptr list \<Rightarrow> 32 word \<Rightarrow> byte list list \<Rightarrow> bool" where
  "holds_pieces w qs nr pcs \<longleftrightarrow> map (\<lambda>q. line_text w (cursor q)) qs = map line_of pcs \<and>
     (\<forall>i < length qs. line_getlinenr (cursor (qs ! i)) w = Some (nr + of_nat i))"

lemma holds_pieces_Nil [simp]: "holds_pieces w [] nr []"
  by (simp add: holds_pieces_def)

lemma holds_pieces_Cons:
  assumes "line_text w (cursor q) = line_of t" "line_getlinenr (cursor q) w = Some nr" "holds_pieces w qs (nr + 1) pcs"
  shows "holds_pieces w (q # qs) nr (t # pcs)"
  unfolding holds_pieces_def
proof (intro conjI allI impI)
  show "map (\<lambda>q. line_text w (cursor q)) (q # qs) = map line_of (t # pcs)" using assms by (simp add: holds_pieces_def)
  fix i assume "i < length (q # qs)"
  then show "line_getlinenr (cursor ((q # qs) ! i)) w = Some (nr + of_nat i)" using assms by (cases i) (simp_all add: holds_pieces_def ac_simps)
qed

text \<open>What the reader relies on: single bytes, and storage that does not run out.\<close>

definition plain_env :: "fenv \<Rightarrow> bool" where
  "plain_env e \<longleftrightarrow> plain_cp (cpage e) \<and> env_ok (we e) \<and> \<not> lead (we e) 13 \<and> \<not> lead (we e) 10 \<and> ample (lga (we e))"

lemma readlines_loop_spec:
  assumes e: "plain_env e" and R: "reads fb r" and P: "\<forall>t \<in> set (pieces_of (rdelims s) r). line_piece (we e) t"
    and F: "lines_state (we e) (fw s) L A" and l: "L l = Some its" "line_list (fw s) its"
  shows "\<exists>w' A' qs. readlines_loop e l fb nr s = Some (s\<lparr>fw := w'\<rparr>) \<and> lines_state (we e) w' (L(l \<mapsto> its @ qs)) A' \<and>
    line_list w' (its @ qs) \<and> holds_pieces w' qs nr (pieces_of (rdelims s) r) \<and> lines_kept (fw s) w' \<and> set qs \<inter> cells L = {}"
  using R P F l
proof (induction "length r" arbitrary: r fb nr s L A its rule: less_induct)
  case less
  have cp: "plain_cp (cpage e)" and en: "env_ok (we e)" "\<not> lead (we e) 13" "\<not> lead (we e) 10" "ample (lga (we e))"
    using e by (simp_all add: plain_env_def)
  obtain fb' where N: "readfile_next (cpage e) (rdelims s) fb = Some ((if r = [] then None else Some (piece (rdelims s) r), None), fb')"
    "reads fb' (drop (length (piece (rdelims s) r)) r)" using readfile_next_spec [OF cp less.prems(1)] by blast
  show ?case
  proof (cases "r = []")
    case True
    then have "readlines_loop e l fb nr s = Some s" using N(1) by (simp add: readlines_loop.simps)
    moreover have "L(l \<mapsto> its) = L" using less.prems(4) by auto
    ultimately show ?thesis using True less.prems
      by (intro exI [of _ "fw s"] exI [of _ A] exI [of _ "[]"]) (simp add: lines_kept_def)
  next
    case False
    let ?t = "piece (rdelims s) r" and ?r = "drop (length (piece (rdelims s) r)) r"
    have ps: "pieces_of (rdelims s) r = ?t # pieces_of (rdelims s) ?r" using False by (simp add: pieces_of.simps)
    have t: "line_piece (we e) ?t" using less.prems(2) ps by simp
    have tn: "?t \<noteq> []" by (rule piece_nonempty [OF False])
    obtain q w1 A1 where Q: "line_new (we e) ?t (length ?t) None 0 nr l (fw s) = Some (cursor q, w1)"
      "lines_state (we e) w1 (L(l \<mapsto> its @ [q])) A1" "line_text w1 (cursor q) = line_of ?t" "line_getlinenr (cursor q) w1 = Some nr"
      "lk w1 = lk (fw s)" "line_list w1 (its @ [q])" "scs w1 = scs (fw s)" "q \<notin> cells L"
      "\<forall>p. fls (fw s) p \<noteq> None \<longrightarrow> fls w1 p = fls (fw s) p \<and> line_text w1 p = line_text (fw s) p"
      using line_new_spec [OF less.prems(3-5) en(4) t en(1-3), of nr] by (elim exE conjE) (rule that)
    have K: "lines_kept (fw s) w1" using Q(5,7,9) by (simp add: lines_kept_def)
    let ?s = "s\<lparr>fw := w1\<rparr>" and ?L = "L(l \<mapsto> its @ [q])"
    have run: "readlines_loop e l fb nr s = readlines_loop e l fb' (nr + 1) ?s"
      using N(1) False tn Q(1) by (subst readlines_loop.simps) (simp add: on_fw_def)
    have lt: "length ?r < length r" using tn False by simp
    have P': "\<forall>t \<in> set (pieces_of (rdelims ?s) ?r). line_piece (we e) t" using less.prems(2) ps by simp
    have F': "lines_state (we e) (fw ?s) ?L A1" "?L l = Some (its @ [q])" "line_list (fw ?s) (its @ [q])" using Q(2,6) by simp_all
    obtain w' A' qs where I: "readlines_loop e l fb' (nr + 1) ?s = Some (?s\<lparr>fw := w'\<rparr>)"
      "lines_state (we e) w' (?L(l \<mapsto> (its @ [q]) @ qs)) A'" "line_list w' ((its @ [q]) @ qs)"
      "holds_pieces w' qs (nr + 1) (pieces_of (rdelims ?s) ?r)" "lines_kept (fw ?s) w'" "set qs \<inter> cells ?L = {}"
      using less.hyps [OF lt N(2) P' F', of "nr + 1"] by (elim exE conjE) (rule that)
    have lq: "fls w1 (cursor q) \<noteq> None" using Q(6) by (simp add: line_list_def)
    have "holds_pieces w' (q # qs) nr (pieces_of (rdelims s) r)"
      unfolding ps using I(4,5) Q(3,4) lq lines_kept_nr [of w1 w' "cursor q"]
      by (intro holds_pieces_Cons) (simp_all add: lines_kept_def)
    moreover have "lines_kept (fw s) w'" using lines_kept_trans [OF K] I(5) by simp
    moreover have "cells L \<subseteq> cells ?L" using less.prems(4) unfolding cells_def by fastforce
    then have "set (q # qs) \<inter> cells L = {}" using I(6) Q(8) by auto
    moreover have "?L(l \<mapsto> (its @ [q]) @ qs) = L(l \<mapsto> its @ q # qs)" by simp
    ultimately show ?thesis using run I(1-3) by (intro exI [of _ w'] exI [of _ A'] exI [of _ "q # qs"]) simp
  qed
qed

text \<open>A file that can be read: an ANSI file whose pieces can become lines.\<close>

definition readable :: "fenv \<Rightarrow> bool list \<Rightarrow> hfile \<Rightarrow> bool" where
  "readable e dl h \<longleftrightarrow> ansi_file h \<and> (\<forall>t \<in> set (pieces_of dl (map dot (hdata h))). line_piece (we e) t)"

abbreviation file_pieces :: "bool list \<Rightarrow> hfile \<Rightarrow> byte list list" where
  "file_pieces dl h \<equiv> pieces_of dl (map dot (hdata h))"

lemma file_getlinelist_spec:
  assumes e: "plain_env e" "bufalloc e" and fd: "fd \<noteq> NULL" "fds s fd = Some d" "lines d = NULL"
    and h: "opened_as (scan e) (diritem d) = Some h" "readable e (rdelims s) h" and F: "lines_state (we e) (fw s) L A"
  shows "\<exists>l w' A' its. file_getlinelist e fd s = Some (l, s\<lparr>fw := w', fds := (fds s)(fd \<mapsto> d\<lparr>lines := l, fUnicode := False\<rparr>)\<rparr>) \<and>
    l \<notin> cells L \<and> l \<noteq> NULL \<and> lines_state (we e) w' (L(l \<mapsto> its)) A' \<and> line_list w' its \<and> set its \<inter> cells L = {} \<and>
    holds_pieces w' its 1 (file_pieces (rdelims s) h) \<and> lines_kept (fw s) w'"
proof -
  have S: "store (we e) (fw s) L" and ga: "ample (lga (we e))" using F e(1) by (simp_all add: lines_state_def plain_env_def)
  obtain fb where R: "readfile_new True h True = (Some fb, False)" "reads fb (map dot (hdata h))"
    using readfile_new_spec h(2) by (auto simp: readable_def)
  have W: "wf (lh (fw s)) L" using S by (simp add: store_def)
  obtain l s1 where c: "List_Create (lga (we e)) (lh (fw s)) = Some (l, s1)" "created (lh (fw s)) L l s1"
    using List_Create_ample [OF W ga] by blast
  have new: "l \<notin> cells L" "wf s1 (L(l \<mapsto> []))" "l \<noteq> NULL" using c(2) by (simp_all add: created_def)
  define w1 where "w1 = (fw s)\<lparr>lh := s1\<rparr>"
  have so: "sections_only (fw s) w1" by (simp add: sections_only_def w1_def)
  have S1: "store (we e) w1 (L(l \<mapsto> []))"
    by (rule store_change [OF S so _ created_lines_same [OF new(1)]]) (simp add: w1_def new(2))
  have F1: "lines_state (we e) w1 (L(l \<mapsto> [])) A" using F S1 by (simp add: lines_state_def mem_ok_def texts_owned_def w1_def)
  define t where "t = s\<lparr>fw := w1, fds := (fds s)(fd \<mapsto> d\<lparr>fUnicode := False, lines := l\<rparr>)\<rparr>"
  have P: "\<forall>x \<in> set (pieces_of (rdelims t) (map dot (hdata h))). line_piece (we e) x" using h(2) by (simp add: readable_def t_def)
  have Ft: "lines_state (we e) (fw t) (L(l \<mapsto> [])) A" "(L(l \<mapsto> [])) l = Some []" "line_list (fw t) []"
    using F1 by (simp_all add: t_def line_list_def)
  obtain w' A' qs where I: "readlines_loop e l fb 1 t = Some (t\<lparr>fw := w'\<rparr>)" "lines_state (we e) w' ((L(l \<mapsto> []))(l \<mapsto> [] @ qs)) A'"
    "line_list w' ([] @ qs)" "holds_pieces w' qs 1 (pieces_of (rdelims t) (map dot (hdata h)))" "lines_kept (fw t) w'" "set qs \<inter> cells (L(l \<mapsto> [])) = {}"
    using readlines_loop_spec [OF e(1) R(2) P Ft, of 1] by (elim exE conjE) (rule that)
  have "lines_kept (fw s) w1" using sections_only_facts [OF so] by (simp add: lines_kept_def w1_def line_text_def)
  moreover have "lines_kept w1 w'" using I(5) by (simp add: t_def)
  ultimately have K: "lines_kept (fw s) w'" by (rule lines_kept_trans)
  have run: "file_readlines e fd s = Some (t\<lparr>fw := w'\<rparr>)"
    using fd h(1) e(2) R(1) c(1) I(1) by (simp add: file_readlines_def ld_file_def wr_file_def on_fw_def on_list_def t_def w1_def)
  have sub: "cells L \<subseteq> cells (L(l \<mapsto> []))" using new(1) unfolding cells_def by fastforce
  have "file_getlinelist e fd s = Some (l, t\<lparr>fw := w'\<rparr>)"
    using fd run by (simp add: file_getlinelist_def ld_file_def) (simp add: t_def)
  moreover have "t\<lparr>fw := w'\<rparr> = s\<lparr>fw := w', fds := (fds s)(fd \<mapsto> d\<lparr>lines := l, fUnicode := False\<rparr>)\<rparr>" by (cases s; cases d) (simp add: t_def)
  ultimately show ?thesis using new(1,3) I(2-4,6) sub K
    by (intro exI [of _ l] exI [of _ w'] exI [of _ A'] exI [of _ qs]) (auto simp: t_def)
qed

end
