(* ===== verification/Windiff_File_Properties.thy ===== *)
theory Windiff_File_Properties
  imports Windiff_Compare_Properties Windiff_File_Correct
begin

text \<open>
  What reading files promises, and comparing two files from disk: the composite list is an alignment
  of the texts of the two files.
\<close>

subsection \<open>Samples\<close>

definition sample_file :: "byte list \<Rightarrow> hfile" where
  "sample_file t = \<lparr>hdata = t, hpos = 0, hfail = (\<lambda>_. False), hreads = 0\<rparr>"

text \<open>Item 1 is a file with the text \<open>t\<close>, item 2 one with the text \<open>u\<close>; no other file can be opened.\<close>

definition two_texts :: "nat \<Rightarrow> byte list \<Rightarrow> byte list \<Rightarrow> cenv" where
  "two_texts h t u = (let e = sample_cenv h False; f = fe e
     in e\<lparr>fe := f\<lparr>scan := (scan f)\<lparr>opened_as := [1 \<mapsto> sample_file t, 2 \<mapsto> sample_file u]\<rparr>\<rparr>\<rparr>)"

definition empty_wd :: "gheap \<Rightarrow> wd" where
  "empty_wd g = \<lparr>lh = lheap_start, ts = \<lparr>gm = g, troots = Map.empty, titems = Map.empty, tblocks = Map.empty, tmsgs = []\<rparr>,
     fls = Map.empty, scs = Map.empty, texts = Map.empty, wtexts = Map.empty, wtrace = []\<rparr>"

definition unread_pair :: "gheap \<Rightarrow> bool list \<Rightarrow> ptr \<Rightarrow> ptr \<Rightarrow> cistore" where
  "unread_pair g d a b = \<lparr>cf = \<lparr>fw = empty_wd g, fds = [1 \<mapsto> \<lparr>diritem = a, lines = NULL, fUnicode = False\<rparr>,
       2 \<mapsto> \<lparr>diritem = b, lines = NULL, fUnicode = False\<rparr>], rdelims = d, fmsgs = []\<rparr>,
     cis = [1 \<mapsto> sample_compitem], RightRoot = [], LeftRoot = [], popups = []\<rparr>"

lemma empty_lines_state:
  "gm_sound gm_room ignore h g Map.empty \<Longrightarrow> lines_state (ascii_env h ib) (empty_wd g) Map.empty Map.empty"
  by (simp add: lines_state_def store_def lines_ok_def mem_ok_def texts_owned_def empty_wd_def wf_start lk_def ascii_env_def sample_env_def)

lemma newline_delims: "\<exists>d. readfile_setdelims [10, 0] = Some d \<and> (\<forall>c. is_delim d c \<longleftrightarrow> c = 10)"
  using readfile_setdelims_spec [of "[10]"] by simp

lemma ab_pieces:
  assumes "\<forall>c. is_delim d c \<longleftrightarrow> c = 10"
  shows "pieces_of d [97, 10, 98] = [[97, 10], [98]]" "pieces_of d [98, 10] = [[98, 10]]"
proof -
  have "d ! 10" "\<not> d ! 97" "\<not> d ! 98" using assms [THEN spec, of 10] assms [THEN spec, of 97] assms [THEN spec, of 98] by simp_all
  then show "pieces_of d [97, 10, 98] = [[97, 10], [98]]" "pieces_of d [98, 10] = [[98, 10]]"
    by (simp_all add: pieces_of.simps [of d "_ # _"] piece_def BUFFER_SIZE_def MAX_LINE_LENGTH_def)
qed

lemma two_texts_facts:
  "plain_env (fe (two_texts h t u))" "bufalloc (fe (two_texts h t u))" "wenv_of (two_texts h t u) = ascii_env h False"
  "opened_as (scan_of (two_texts h t u)) 1 = Some (sample_file t)" "opened_as (scan_of (two_texts h t u)) 2 = Some (sample_file u)"
  "opened_as (scan_of (two_texts h t u)) 3 = None"
  by (simp_all add: two_texts_def Let_def sample_cenv_def plain_env_def plain_cp_def ascii_env_ok)
    (simp_all add: ascii_env_def roomy_ample)

lemma sample_readable:
  assumes "\<forall>c. is_delim d c \<longleftrightarrow> c = 10"
  shows "readable (fe (two_texts h t u)) d (sample_file [97, 10, 98])" "readable (fe (two_texts h t u)) d (sample_file [98, 10])"
  using ab_pieces [OF assms] two_texts_facts(3) [of h t u]
  by (simp_all add: readable_def ansi_file_def c_wchMagic_def sample_file_def dot_def line_piece_def single_def ascii_env_def MAXGALLOC_def)

subsection \<open>The buffered reader\<close>

text \<open>C22: \<open>readfile_next\<close> hands out the next piece of what is left to read, in the buffer and in the
  file: the text up to and including the first delimiter, or a full buffer without one, with NULs
  replaced by dots. It returns NULL at the end only, never overfills its buffer, and leaves the rest to
  be read.\<close>

theorem readfile_next_hands_out:
  assumes "plain_cp cp" "reads fb r"
  shows "\<exists>line fb' r'. readfile_next cp dl fb = Some ((line, None), fb') \<and> reads fb' r' \<and> length (fbuffer fb') \<le> BUFFER_SIZE \<and>
    (case line of None \<Rightarrow> r = [] | Some t \<Rightarrow> r = t @ r' \<and> piece_ok dl t \<and> (is_delim dl (last t) \<or> length t = BUFFER_SIZE \<or> r' = []))"
proof -
  obtain fb' where N: "readfile_next cp dl fb = Some ((if r = [] then None else Some (piece dl r), None), fb')"
    "reads fb' (drop (length (piece dl r)) r)" using readfile_next_spec [OF assms] by blast
  have "length (fbuffer fb') \<le> BUFFER_SIZE" using N(2) by (simp add: reads_def)
  moreover have "piece_ok dl (piece dl r)" if "r \<noteq> []" using pieces_ok [of "piece dl r" dl r] that by (simp add: pieces_of.simps)
  moreover have "is_delim dl (last (piece dl r)) \<or> length (piece dl r) = BUFFER_SIZE \<or> drop (length (piece dl r)) r = []" if "r \<noteq> []"
    using piece_ends [OF that, of dl] by auto
  ultimately show ?thesis using N by (intro exI conjI) (rule N(1), rule N(2), simp, simp add: piece_drop)
qed

theorem readfile_next_hands_out_witness:
  "\<exists>d fb t fb'. readfile_setdelims [10, 0] = Some d \<and> fst (readfile_new True (sample_file [97, 10, 98]) True) = Some fb \<and>
     readfile_next (cpage (fe (two_texts 0 [] []))) d fb = Some ((Some t, None), fb') \<and> t \<noteq> []"
proof -
  obtain d where d: "readfile_setdelims [10, 0] = Some d" using newline_delims by blast
  have "ansi_file (sample_file [97, 10, 98])" by (simp add: ansi_file_def c_wchMagic_def sample_file_def)
  from readfile_new_spec [OF this] obtain fb where fb: "readfile_new True (sample_file [97, 10, 98]) True = (Some fb, False)"
    "reads fb [97, 10, 98]" by (auto simp: sample_file_def dot_def)
  have cp: "plain_cp (cpage (fe (two_texts 0 [] [])))" using two_texts_facts(1) by (simp add: plain_env_def)
  obtain line fb' r' where N: "readfile_next (cpage (fe (two_texts 0 [] []))) d fb = Some ((line, None), fb')"
    "case line of None \<Rightarrow> [97, 10, 98 :: byte] = [] | Some t \<Rightarrow> [97, 10, 98] = t @ r' \<and> piece_ok d t \<and> (is_delim d (last t) \<or> length t = BUFFER_SIZE \<or> r' = [])"
    using readfile_next_hands_out [OF cp fb(2), of d] by (elim exE conjE) (rule that)
  then show ?thesis using d fb(1) by (cases line) (auto simp: piece_ok_def)
qed

subsection \<open>The lines of a file\<close>

text \<open>C5: asked for the lines of a file that has not been read, \<open>file_getlinelist\<close> ends with a new
  list of lines: their texts are the pieces of the file in order, a CR/LF added where the newline is
  missing, and they are numbered from 1; put together the pieces are the file, NULs replaced by dots.
  Other lines and all links stay, and asked again it returns the same list.\<close>

theorem file_getlinelist_reads:
  assumes "plain_env e" "bufalloc e" "fd \<noteq> NULL" "fds s fd = Some d" "lines d = NULL"
    "opened_as (scan e) (diritem d) = Some h" "readable e (rdelims s) h" "lines_state (we e) (fw s) L A"
  shows "\<exists>l s' its A'. file_getlinelist e fd s = Some (l, s') \<and> lines_state (we e) (fw s') (L(l \<mapsto> its)) A' \<and> l \<notin> cells L \<and>
    map (\<lambda>q. line_text (fw s') (cursor q)) its = map line_of (file_pieces (rdelims s) h) \<and>
    (\<forall>i < length its. line_getlinenr (cursor (its ! i)) (fw s') = Some (1 + of_nat i)) \<and>
    concat (file_pieces (rdelims s) h) = map dot (hdata h) \<and> (\<forall>t \<in> set (file_pieces (rdelims s) h). piece_ok (rdelims s) t) \<and>
    lines_kept (fw s) (fw s') \<and> file_getlinelist e fd s' = Some (l, s')"
proof -
  obtain l w' A' its where M: "file_getlinelist e fd s = Some (l, s\<lparr>fw := w', fds := (fds s)(fd \<mapsto> d\<lparr>lines := l, fUnicode := False\<rparr>)\<rparr>)"
    "l \<notin> cells L" "l \<noteq> NULL" "lines_state (we e) w' (L(l \<mapsto> its)) A'" "holds_pieces w' its 1 (file_pieces (rdelims s) h)" "lines_kept (fw s) w'"
    using file_getlinelist_spec [OF assms] by (elim exE conjE) (rule that)
  have again: "file_getlinelist e fd (s\<lparr>fw := w', fds := (fds s)(fd \<mapsto> d\<lparr>lines := l, fUnicode := False\<rparr>)\<rparr>) =
      Some (l, s\<lparr>fw := w', fds := (fds s)(fd \<mapsto> d\<lparr>lines := l, fUnicode := False\<rparr>)\<rparr>)"
    using assms(3) M(3) by (simp add: file_getlinelist_def ld_file_def)
  have hp: "map (\<lambda>q. line_text w' (cursor q)) its = map line_of (file_pieces (rdelims s) h)"
    "\<forall>i < length its. line_getlinenr (cursor (its ! i)) w' = Some (1 + of_nat i)" using M(5) unfolding holds_pieces_def by blast+
  show ?thesis by (intro exI conjI) (rule M(1), use M hp again pieces_ok concat_pieces in simp_all)
qed

theorem file_getlinelist_reads_witness:
  "\<exists>h g d l s' p q. file_getlinelist (fe (two_texts h [97, 10, 98] [])) 1
      \<lparr>fw = empty_wd g, fds = [1 \<mapsto> \<lparr>diritem = 1, lines = NULL, fUnicode = False\<rparr>], rdelims = d, fmsgs = []\<rparr> = Some (l, s') \<and>
    line_text (fw s') (cursor p) = [97, 10] \<and> line_text (fw s') (cursor q) = [98, 13, 10] \<and> line_getlinenr (cursor q) (fw s') = Some 2"
proof -
  obtain h g where g: "gm_sound gm_room ignore h g Map.empty" using sample_gmem by blast
  obtain d where d: "\<forall>c. is_delim d c \<longleftrightarrow> c = 10" using newline_delims by blast
  let ?s = "\<lparr>fw = empty_wd g, fds = [1 \<mapsto> \<lparr>diritem = 1, lines = NULL, fUnicode = False\<rparr>], rdelims = d, fmsgs = []\<rparr>"
  let ?e = "fe (two_texts h [97, 10, 98] [])" and ?h = "sample_file [97, 10, 98]"
  note T = two_texts_facts [of h "[97, 10, 98]" "[]"]
  have L: "lines_state (we ?e) (fw ?s) Map.empty Map.empty" using empty_lines_state [OF g, of False] T(3) by simp
  have H: "(1 :: nat) \<noteq> NULL" "fds ?s 1 = Some \<lparr>diritem = 1, lines = NULL, fUnicode = False\<rparr>"
    "lines \<lparr>diritem = 1, lines = NULL, fUnicode = False\<rparr> = NULL"
    "opened_as (scan ?e) (diritem \<lparr>diritem = 1, lines = NULL, fUnicode = False\<rparr>) = Some ?h" using T(4) by simp_all
  have R: "readable ?e (rdelims ?s) ?h" using sample_readable(1) [OF d] by simp
  have P: "file_pieces (rdelims ?s) ?h = [[97, 10], [98]]" using ab_pieces(1) [OF d] by (simp add: sample_file_def dot_def)
  obtain l s' its where M: "file_getlinelist ?e 1 ?s = Some (l, s')"
    "map (\<lambda>q. line_text (fw s') (cursor q)) its = map line_of [[97, 10], [98]]"
    "\<forall>i < length its. line_getlinenr (cursor (its ! i)) (fw s') = Some (1 + of_nat i)"
    using file_getlinelist_reads [OF T(1,2) H R L, unfolded P] by (elim exE conjE) (rule that)
  obtain p q where "its = [p, q]" using M(2) by (auto simp: map_eq_Cons_conv)
  then have "line_text (fw s') (cursor p) = [97, 10]" "line_text (fw s') (cursor q) = [98, 13, 10]" "line_getlinenr (cursor q) (fw s') = Some 2"
    using M(2) M(3) [THEN spec [of _ 1]] by (simp_all add: line_of_def)
  with M(1) show ?thesis by blast
qed

subsection \<open>Comparing two files from disk\<close>

text \<open>\<open>pair_unread e s ci c hl hr L A\<close>: \<open>ci\<close> is a pair of files that have not been read or
  compared yet and can be read, with the contents \<open>hl\<close> and \<open>hr\<close>.\<close>

definition pair_unread :: "cenv \<Rightarrow> cistore \<Rightarrow> ptr \<Rightarrow> compitem \<Rightarrow> hfile \<Rightarrow> hfile \<Rightarrow> view \<Rightarrow> pieces \<Rightarrow> bool" where
  "pair_unread e s ci c hl hr L A \<longleftrightarrow> plain_env (fe e) \<and> bufalloc (fe e) \<and> cis s ci = Some c \<and>
     left_file c \<noteq> NULL \<and> right_file c \<noteq> NULL \<and> left_file c \<noteq> right_file c \<and> secs_left c = NULL \<and> secs_right c = NULL \<and>
     (\<exists>dl dr. fds (cf s) (left_file c) = Some dl \<and> fds (cf s) (right_file c) = Some dr \<and> lines dl = NULL \<and> lines dr = NULL \<and>
        opened_as (scan_of e) (diritem dl) = Some hl \<and> opened_as (scan_of e) (diritem dr) = Some hr) \<and>
     readable (fe e) (rdelims (cf s)) hl \<and> readable (fe e) (rdelims (cf s)) hr \<and> lines_state (wenv_of e) (fw (cf s)) L A"

text \<open>A comparison starts by reading the files; then the pair is ready.\<close>

lemma ci_compare_reads:
  assumes "pair_unread e s ci c hl hr L A"
  shows "\<exists>t il ir L' A'. ci_compare e ci s = ci_compare e ci t \<and> pair_ready e t ci c il ir L' A' \<and>
    holds_pieces (fw (cf t)) il 1 (file_pieces (rdelims (cf s)) hl) \<and> holds_pieces (fw (cf t)) ir 1 (file_pieces (rdelims (cf s)) hr)"
proof -
  let ?e = "wenv_of e" and ?l = "left_file c" and ?r = "right_file c" and ?w = "fw (cf s)"
  have E: "plain_env (fe e)" "bufalloc (fe e)" "cis s ci = Some c" "?l \<noteq> NULL" "?r \<noteq> NULL" "?l \<noteq> ?r" "secs_left c = NULL" "secs_right c = NULL"
    and R: "readable (fe e) (rdelims (cf s)) hl" "readable (fe e) (rdelims (cf s)) hr" and F: "lines_state ?e ?w L A"
    using assms by (simp_all add: pair_unread_def)
  obtain dl dr where D: "fds (cf s) ?l = Some dl" "fds (cf s) ?r = Some dr" "lines dl = NULL" "lines dr = NULL"
    "opened_as (scan_of e) (diritem dl) = Some hl" "opened_as (scan_of e) (diritem dr) = Some hr" using assms by (auto simp: pair_unread_def)
  obtain l w1 A1 il where M: "file_getlinelist (fe e) ?l (cf s) = Some (l, (cf s)\<lparr>fw := w1, fds := (fds (cf s))(?l \<mapsto> dl\<lparr>lines := l, fUnicode := False\<rparr>)\<rparr>)"
    "l \<notin> cells L" "l \<noteq> NULL" "lines_state ?e w1 (L(l \<mapsto> il)) A1" "line_list w1 il" "set il \<inter> cells L = {}"
    "holds_pieces w1 il 1 (file_pieces (rdelims (cf s)) hl)" "lines_kept ?w w1"
    using file_getlinelist_spec [OF E(1,2,4) D(1,3,5) R(1) F] by (elim exE conjE) (rule that)
  let ?L1 = "L(l \<mapsto> il)" and ?l1 = "dl\<lparr>lines := l, fUnicode := False\<rparr>"
  let ?s1 = "(cf s)\<lparr>fw := w1, fds := (fds (cf s))(?l \<mapsto> ?l1)\<rparr>"
  have D1: "fds ?s1 ?r = Some dr" "readable (fe e) (rdelims ?s1) hr" "lines_state ?e (fw ?s1) ?L1 A1" using E(6) D(2) R(2) M(4) by simp_all
  obtain r w2 A2 ir where N: "file_getlinelist (fe e) ?r ?s1 = Some (r, ?s1\<lparr>fw := w2, fds := (fds ?s1)(?r \<mapsto> dr\<lparr>lines := r, fUnicode := False\<rparr>)\<rparr>)"
    "r \<notin> cells ?L1" "r \<noteq> NULL" "lines_state ?e w2 (?L1(r \<mapsto> ir)) A2" "line_list w2 ir" "set ir \<inter> cells ?L1 = {}"
    "holds_pieces w2 ir 1 (file_pieces (rdelims ?s1) hr)" "lines_kept (fw ?s1) w2"
    using file_getlinelist_spec [OF E(1,2,5) D1(1) D(4,6) D1(2,3)] by (elim exE conjE) (rule that)
  let ?r1 = "dr\<lparr>lines := r, fUnicode := False\<rparr>" and ?L2 = "?L1(r \<mapsto> ir)"
  define t where "t = s\<lparr>cf := (cf s)\<lparr>fw := w2, fds := (fds (cf s))(?l \<mapsto> ?l1, ?r \<mapsto> ?r1)\<rparr>\<rparr>"
  have s2: "?s1\<lparr>fw := w2, fds := (fds ?s1)(?r \<mapsto> ?r1)\<rparr> = cf t" by (simp add: t_def)
  have tf: "fds (cf t) ?l = Some ?l1" "fds (cf t) ?r = Some ?r1" "fw (cf t) = w2" "cis t ci = Some c" using E(3,6) by (simp_all add: t_def)
  have "l \<in> cells ?L1" unfolding cells_def by (intro CollectI exI [of _ l] exI [of _ il]) simp
  then have ne: "l \<noteq> r" using N(2) by metis
  have S2: "store ?e w2 ?L2" using N(4) by (simp add: lines_state_def)
  have kept: "fls w1 p \<noteq> None \<Longrightarrow> fls w2 p = fls w1 p \<and> line_text w2 p = line_text w1 p" for p using N(8) by (simp add: lines_kept_def)
  have liv: "\<forall>q \<in> set il. fls w1 (cursor q) \<noteq> None" using M(5) by (simp add: line_list_def)
  have ll: "line_list w2 il" unfolding line_list_def by (metis kept liv)
  have tx: "holds_pieces w2 il 1 (file_pieces (rdelims (cf s)) hl)"
  proof -
    have "map (\<lambda>q. line_text w2 (cursor q)) il = map (\<lambda>q. line_text w1 (cursor q)) il" using kept liv by simp
    moreover have "line_getlinenr (cursor (il ! i)) w2 = line_getlinenr (cursor (il ! i)) w1" if "i < length il" for i
      using lines_kept_nr [OF N(8)] liv that by simp
    ultimately show ?thesis using M(7) unfolding holds_pieces_def by simp
  qed
  have tr: "holds_pieces w2 ir 1 (file_pieces (rdelims (cf s)) hr)" using N(7) by simp
  have k: "lk w2 = lk ?w" using M(8) N(8) by (simp add: lines_kept_def)
  have S: "store ?e ?w L" using F by (simp add: lines_state_def)
  have "cells L \<subseteq> cells ?L1" using M(2) unfolding cells_def by fastforce
  then have new: "q \<notin> cells L" if "q \<in> set il \<union> set ir" for q using that M(6) N(6) by blast
  have z: "lk w2 (cursor q) = NULL" if "q \<in> set il \<union> set ir" for q
    unfolding k using store_fresh [OF S new [OF that]] by (simp add: lk_def)
  have ac: "across w2 (map cursor il) (map cursor ir)" using z by (simp add: across_def)
  have C: "comparing ?e w2 ?L2 A2 l r il ir NULL NULL"
    using S2 N(4,5) ll ne by (simp add: comparing_def older_def lines_state_def)
  have "pair_ready e t ci c il ir ?L2 A2"
    using E C ac tf ne unfolding pair_ready_def by (simp add: plain_env_def)
  moreover have "ci_compare e ci s = ci_compare e ci t"
  proof -
    have "file_getlinelist (fe e) ?l (cf t) = Some (l, cf t)" "file_getlinelist (fe e) ?r (cf t) = Some (r, cf t)"
      using E(4,5) M(3) N(3) tf by (simp_all add: file_getlinelist_def ld_file_def)
    moreover have "s\<lparr>cf := cf t\<rparr> = t" by (simp add: t_def)
    ultimately show ?thesis using E(3) tf(4) M(1) N(1) unfolding s2 by (simp add: ci_compare_def ld_ci_def on_cf_def)
  qed
  ultimately show ?thesis using tx tr tf(3) by blast
qed

text \<open>A text as a comparison reads it: with blanks ignored or not, and without ignorable lines.\<close>

definition texts_read :: "bool \<Rightarrow> cstring list \<Rightarrow> cstring list" where
  "texts_read ib xs = filter (\<lambda>k. \<not> (ib \<and> k = [10])) (map (shown ib) xs)"

lemma links_grown_pieces: "links_grown e S T w w' \<Longrightarrow> holds_pieces w' qs n pcs = holds_pieces w qs n pcs"
  by (simp add: links_grown_def holds_pieces_def)

lemma reading_texts: "reading e w cs = texts_read (ignore_blanks e) (map (line_text w) cs)"
  by (simp add: reading_def texts_read_def filter_map comp_def ign_key line_key_def)

text \<open>The text of a file: its lines, each with a newline.\<close>

definition file_text :: "cenv \<Rightarrow> bool list \<Rightarrow> hfile \<Rightarrow> cstring list" where
  "file_text e dl h = texts_read (ignore_blanks (wenv_of e)) (map line_of (file_pieces dl h))"

text \<open>C2: comparing two files that have not been read reads both and shows what is in them.
  Afterwards the lists of lines of the two files hold the lines of the files, in order and numbered
  from 1, and the composite list of the pair cuts these two lists into pieces: every section names the
  first and the last line, the state and the numbers of its piece (\<open>cuts_files\<close>, \<open>tells\<close>).  Read with
  blanks ignored or not, the pieces put together are the texts of the two files; the two pieces of a section
  shown as the same are equal, the other sections hold a piece of one file only, and that of a moved
  section occurs in the other.\<close>

theorem ci_compare_files:
  assumes "pair_unread e s ci c hl hr L A"
  shows "\<exists>s' c' L' il ir qs zs prs. ci_compare e ci s = Some s' \<and> cis s' ci = Some c' \<and> store (wenv_of e) (fw (cf s')) L' \<and>
    holds_lists s' c L' il ir \<and>
    holds_pieces (fw (cf s')) il 1 (file_pieces (rdelims (cf s)) hl) \<and> holds_pieces (fw (cf s')) ir 1 (file_pieces (rdelims (cf s)) hr) \<and>
    L' (secs_composite c') = Some qs \<and> sects_at (fw (cf s')) qs zs \<and>
    cuts_files (wenv_of e) (fw (cf s')) (map cursor il) (map cursor ir) zs prs \<and>
    alignment (file_text e (rdelims (cf s)) hl) (file_text e (rdelims (cf s)) hr) (pieces_read (wenv_of e) (fw (cf s')) zs prs)"
proof -
  obtain t il ir L1 A1 where T: "ci_compare e ci s = ci_compare e ci t" "pair_ready e t ci c il ir L1 A1"
    "holds_pieces (fw (cf t)) il 1 (file_pieces (rdelims (cf s)) hl)" "holds_pieces (fw (cf t)) ir 1 (file_pieces (rdelims (cf s)) hr)"
    using ci_compare_reads [OF assms] by (elim exE conjE) (rule that)
  have m: "map (line_text (fw (cf t))) (map cursor il) = map line_of (file_pieces (rdelims (cf s)) hl)"
    "map (line_text (fw (cf t))) (map cursor ir) = map line_of (file_pieces (rdelims (cf s)) hr)"
    using T(3,4) by (simp_all add: holds_pieces_def comp_def)
  have r: "reading (wenv_of e) (fw (cf t)) (map cursor il) = file_text e (rdelims (cf s)) hl"
    "reading (wenv_of e) (fw (cf t)) (map cursor ir) = file_text e (rdelims (cf s)) hr"
    by (simp_all only: reading_texts m file_text_def)
  obtain s' zs prs where M: "ci_compare e ci t = Some s'"
    "links_grown (wenv_of e) (set (map cursor il)) (set (map cursor ir)) (fw (cf t)) (fw (cf s'))"
    "aligned e s' ci c il ir (file_text e (rdelims (cf s)) hl) (file_text e (rdelims (cf s)) hr) zs prs"
    using ci_compare_aligned [OF T(2), unfolded r] by (elim exE conjE) (rule that)
  note H = T(3,4) [folded links_grown_pieces [OF M(2)]]
  show ?thesis using M(1,3) H unfolding T(1) aligned_def by blast
qed

theorem ci_compare_files_witness:
  "\<exists>h g d s' il ir zs prs. ci_compare (two_texts h [97, 10, 98] [98, 10]) 1 (unread_pair g d 1 2) = Some s' \<and>
     holds_pieces (fw (cf s')) il 1 [[97, 10], [98]] \<and> holds_pieces (fw (cf s')) ir 1 [[98, 10]] \<and>
     cuts_files (ascii_env h False) (fw (cf s')) (map cursor il) (map cursor ir) zs prs \<and>
     alignment [[97, 10], [98, 13, 10 :: byte]] [[98, 10]] (pieces_read (ascii_env h False) (fw (cf s')) zs prs)"
proof -
  obtain h g where g: "gm_sound gm_room ignore h g Map.empty" using sample_gmem by blast
  obtain d where d: "\<forall>c. is_delim d c \<longleftrightarrow> c = 10" using newline_delims by blast
  let ?e = "two_texts h [97, 10, 98] [98, 10]"
  let ?s = "unread_pair g d 1 2"
  note T = two_texts_facts [of h "[97, 10, 98]" "[98, 10]"]
  have rd: "rdelims (cf ?s) = d" by (simp add: unread_pair_def)
  have "pair_unread ?e ?s 1 sample_compitem (sample_file [97, 10, 98]) (sample_file [98, 10]) Map.empty Map.empty"
    using T empty_lines_state [OF g, of False] sample_readable [OF d, of h "[97, 10, 98]" "[98, 10]"]
    by (simp add: pair_unread_def unread_pair_def sample_compitem_def)
  from ci_compare_files [OF this] obtain s' il ir zs prs where M: "ci_compare ?e 1 ?s = Some s'"
    "holds_pieces (fw (cf s')) il 1 (file_pieces d (sample_file [97, 10, 98]))" "holds_pieces (fw (cf s')) ir 1 (file_pieces d (sample_file [98, 10]))"
    "cuts_files (wenv_of ?e) (fw (cf s')) (map cursor il) (map cursor ir) zs prs"
    "alignment (file_text ?e d (sample_file [97, 10, 98])) (file_text ?e d (sample_file [98, 10])) (pieces_read (wenv_of ?e) (fw (cf s')) zs prs)"
    unfolding rd by (elim exE conjE) (rule that)
  have P: "file_pieces d (sample_file [97, 10, 98]) = [[97, 10], [98]]" "file_pieces d (sample_file [98, 10]) = [[98, 10]]"
    using ab_pieces [OF d] by (simp_all add: sample_file_def dot_def)
  have F: "file_text ?e d (sample_file [97, 10, 98]) = [[97, 10], [98, 13, 10]]" "file_text ?e d (sample_file [98, 10]) = [[98, 10]]"
    using P T(3) by (simp_all add: file_text_def texts_read_def line_of_def shown_def ascii_env_def)
  show ?thesis using M(1) M(2-5) [unfolded F P T(3)] by blast
qed

text \<open>What asking for the lines of a file that has not been read does, \<open>oh\<close> telling how it can be opened: a
  file that cannot is reported and has no list; otherwise a new list holds its lines.\<close>

definition got_lines :: "ptr \<Rightarrow> filedata \<Rightarrow> hfile option \<Rightarrow> fstate \<Rightarrow> view \<Rightarrow> ptr \<Rightarrow> fstate \<Rightarrow> view \<Rightarrow> bool" where
  "got_lines fd d oh s L l s' L' \<longleftrightarrow> (case oh of
      None \<Rightarrow> l = NULL \<and> s' = s\<lparr>fmsgs := fmsgs s @ [''error opening file'']\<rparr> \<and> L' = L
    | Some h \<Rightarrow> \<exists>w' its. l \<noteq> NULL \<and> s' = s\<lparr>fw := w', fds := (fds s)(fd \<mapsto> d\<lparr>lines := l, fUnicode := False\<rparr>)\<rparr> \<and>
        L' = L(l \<mapsto> its) \<and> l \<notin> cells L \<and> holds_pieces w' its 1 (file_pieces (rdelims s) h) \<and> lines_kept (fw s) w')"

lemma file_getlinelist_got:
  assumes E: "plain_env e" "bufalloc e" "fd \<noteq> NULL" and d: "fds s fd = Some d" "lines d = NULL" "opened_as (scan e) (diritem d) = oh"
    and R: "\<And>h. oh = Some h \<Longrightarrow> readable e (rdelims s) h" and F: "lines_state (we e) (fw s) L A"
  shows "\<exists>l s' L' A'. file_getlinelist e fd s = Some (l, s') \<and> got_lines fd d oh s L l s' L' \<and> lines_state (we e) (fw s') L' A'"
proof (cases oh)
  case None
  then have "file_getlinelist e fd s = Some (NULL, s\<lparr>fmsgs := fmsgs s @ [''error opening file'']\<rparr>)"
    using E(3) d by (simp add: file_getlinelist_def file_readlines_def ld_file_def)
  then show ?thesis using F None by (auto simp: got_lines_def)
next
  case (Some h)
  then have o: "opened_as (scan e) (diritem d) = Some h" using d(3) by simp
  obtain l w' A' its where M: "file_getlinelist e fd s = Some (l, s\<lparr>fw := w', fds := (fds s)(fd \<mapsto> d\<lparr>lines := l, fUnicode := False\<rparr>)\<rparr>)"
    "l \<notin> cells L" "l \<noteq> NULL" "lines_state (we e) w' (L(l \<mapsto> its)) A'"
    "holds_pieces w' its 1 (file_pieces (rdelims s) h)" "lines_kept (fw s) w'"
    using file_getlinelist_spec [OF E d(1,2) o R [OF Some] F] by (elim exE conjE) (rule that)
  show ?thesis
    by (intro exI [of _ l] exI conjI) (rule M(1), use M(2-6) Some in \<open>auto simp: got_lines_def\<close>)
qed

text \<open>C6: when the left file, the right file or both cannot be opened, \<open>ci_compare\<close> still asks for the
  lines of both, the left one first: every file that cannot be opened is reported, the other one is read.
  It makes no lists of sections and forgets those the pair had; nothing else changes.\<close>

theorem ci_compare_unreadable:
  assumes "plain_env (fe e)" "bufalloc (fe e)" "cis s ci = Some c" "left_file c \<noteq> NULL" "right_file c \<noteq> NULL"
    "fds (cf s) (left_file c) = Some dl" "lines dl = NULL" "opened_as (scan_of e) (diritem dl) = ol"
    "fds (cf s) (right_file c) = Some dr" "lines dr = NULL" "opened_as (scan_of e) (diritem dr) = od"
    "ol = None \<or> od = None" "\<And>h. ol = Some h \<or> od = Some h \<Longrightarrow> readable (fe e) (rdelims (cf s)) h"
    "lines_state (wenv_of e) (fw (cf s)) L A"
  shows "\<exists>l t L1 r u L2 A'. got_lines (left_file c) dl ol (cf s) L l t L1 \<and> got_lines (right_file c) dr od t L1 r u L2 \<and>
    lines_state (wenv_of e) (fw u) L2 A' \<and>
    ci_compare e ci s = Some (s\<lparr>cf := u,
      cis := (cis s)(ci \<mapsto> c\<lparr>secs_left := NULL, secs_right := NULL, secs_composite := NULL\<rparr>)\<rparr>)"
proof -
  have R: "ol = Some h \<Longrightarrow> readable (fe e) (rdelims (cf s)) h" "od = Some h \<Longrightarrow> readable (fe e) (rdelims (cf s)) h" for h
    using assms(13) by blast+
  obtain l t L1 A1 where M: "file_getlinelist (fe e) (left_file c) (cf s) = Some (l, t)" "got_lines (left_file c) dl ol (cf s) L l t L1"
    "lines_state (wenv_of e) (fw t) L1 A1"
    using file_getlinelist_got [OF assms(1,2,4,6-8) R(1) assms(14)] by blast
  have "left_file c \<noteq> right_file c \<or> ol = None" using assms(6,8,9,11,12) by auto
  then have "fds t (right_file c) = Some dr" "rdelims t = rdelims (cf s)"
    using M(2) assms(9) by (auto simp: got_lines_def split: option.splits)
  then have D: "fds t (right_file c) = Some dr" "od = Some h \<Longrightarrow> readable (fe e) (rdelims t) h" for h using R(2) by simp_all
  obtain r u L2 A2 where N: "file_getlinelist (fe e) (right_file c) t = Some (r, u)" "got_lines (right_file c) dr od t L1 r u L2"
    "lines_state (wenv_of e) (fw u) L2 A2"
    using file_getlinelist_got [OF assms(1,2,5) D(1) assms(10,11) D(2) M(3)] by blast
  have "l = NULL \<or> r = NULL" using M(2) N(2) assms(12) by (auto simp: got_lines_def)
  then have "ci_compare e ci s = Some (s\<lparr>cf := u, cis := (cis s)(ci \<mapsto> c\<lparr>secs_left := NULL, secs_right := NULL, secs_composite := NULL\<rparr>)\<rparr>)"
    using assms(3) M(1) N(1) by (simp add: ci_compare_def ld_ci_def on_cf_def wr_ci_def)
  then show ?thesis using M(2) N(2,3) by blast
qed

theorem ci_compare_unreadable_witness:
  "\<exists>h g d s1 s2. ci_compare (two_texts h [97, 10, 98] [98, 10]) 1 (unread_pair g d 3 2) = Some s1 \<and>
     fmsgs (cf s1) = [''error opening file''] \<and>
     ci_compare (two_texts h [97, 10, 98] [98, 10]) 1 (unread_pair g d 3 3) = Some s2 \<and>
     fmsgs (cf s2) = [''error opening file'', ''error opening file''] \<and> map_option secs_composite (cis s2 1) = Some NULL"
proof -
  obtain h g where g: "gm_sound gm_room ignore h g Map.empty" using sample_gmem by blast
  obtain d where d: "\<forall>c. is_delim d c \<longleftrightarrow> c = 10" using newline_delims by blast
  let ?e = "two_texts h [97, 10, 98] [98, 10]"
  let ?d = "\<lambda>k. \<lparr>diritem = k, lines = NULL, fUnicode = False\<rparr>"
  let ?s = "\<lambda>k. unread_pair g d 3 k"
  note T = two_texts_facts [of h "[97, 10, 98]" "[98, 10]"]
  have F: "cis (?s k) 1 = Some sample_compitem" "left_file sample_compitem \<noteq> NULL" "right_file sample_compitem \<noteq> NULL"
    "fds (cf (?s k)) (left_file sample_compitem) = Some (?d 3)" "lines (?d 3) = NULL" "opened_as (scan_of ?e) (diritem (?d 3)) = None"
    "fds (cf (?s k)) (right_file sample_compitem) = Some (?d k)" "lines (?d k) = NULL" for k
    using T by (simp_all add: unread_pair_def sample_compitem_def)
  have O: "opened_as (scan_of ?e) (diritem (?d 2)) = Some (sample_file [98, 10])" "opened_as (scan_of ?e) (diritem (?d 3)) = None" using T by simp_all
  have rd: "(None :: hfile option) = Some x \<or> Some (sample_file [98, 10]) = Some x \<Longrightarrow> readable (fe ?e) (rdelims (cf (?s 2))) x" for x
    using sample_readable(2) [OF d, of h "[97, 10, 98]" "[98, 10]"] by (simp add: unread_pair_def)
  have no: "(None :: hfile option) = Some x \<or> None = Some x \<Longrightarrow> readable (fe ?e) (rdelims (cf (?s 3))) x" for x by simp
  have L: "lines_state (wenv_of ?e) (fw (cf (?s k))) Map.empty Map.empty" for k
    using T empty_lines_state [OF g, of False] by (simp add: unread_pair_def)
  have m: "fmsgs (cf (?s k)) = []" for k by (simp add: unread_pair_def)
  obtain l1 t1 L1 r1 u1 K1 where A: "got_lines (left_file sample_compitem) (?d 3) None (cf (?s 2)) Map.empty l1 t1 L1"
    "got_lines (right_file sample_compitem) (?d 2) (Some (sample_file [98, 10])) t1 L1 r1 u1 K1"
    "ci_compare ?e 1 (?s 2) = Some ((?s 2)\<lparr>cf := u1, cis := (cis (?s 2))(1 \<mapsto>
       sample_compitem\<lparr>secs_left := NULL, secs_right := NULL, secs_composite := NULL\<rparr>)\<rparr>)"
    using ci_compare_unreadable [OF T(1,2) F(1-6) F(7,8) O(1) _ rd L] by blast
  obtain l2 t2 L2 r2 u2 K2 where B: "got_lines (left_file sample_compitem) (?d 3) None (cf (?s 3)) Map.empty l2 t2 L2"
    "got_lines (right_file sample_compitem) (?d 3) None t2 L2 r2 u2 K2"
    "ci_compare ?e 1 (?s 3) = Some ((?s 3)\<lparr>cf := u2, cis := (cis (?s 3))(1 \<mapsto>
       sample_compitem\<lparr>secs_left := NULL, secs_right := NULL, secs_composite := NULL\<rparr>)\<rparr>)"
    using ci_compare_unreadable [OF T(1,2) F(1-6) F(7,8) O(2) _ no L] by blast
  have "fmsgs u1 = [''error opening file'']" "fmsgs u2 = [''error opening file'', ''error opening file'']"
    using A(1,2) B(1,2) m by (auto simp: got_lines_def)
  with A(3) B(3) show ?thesis by (intro exI [of _ h] exI [of _ g] exI [of _ d] exI conjI) (rule A(3), simp, rule B(3), simp_all)
qed

end
