(* ===== verification/Windiff_List_Properties.thy ===== *)
theory Windiff_List_Properties
  imports Windiff_Properties Windiff_Rows
begin

text \<open>
  What \<open>section.c\<close> promises of lists of sections and of the composite list, each with an instance
  on two small files.
\<close>

text \<open>C12: \<open>section_makelist\<close> ends and cuts the list of lines into consecutive sections that
  together are the whole list; a section is unmatched (left-only or right-only) and has unlinked lines
  only, or is matched, and then its lines are linked or ignorable and their links follow one another;
  no two unmatched sections are neighbours; and every matched section is as long as it can be.\<close>

theorem section_makelist_partitions:
  assumes "store e w L" "L linelist = Some its" "line_list w its" "ample (lga e)"
  shows "\<exists>secs w' qs X G. section_makelist e linelist is_left w = Some (secs, w') \<and> sections_only w w' \<and>
    row w' (L(secs \<mapsto> qs)) secs (map cursor qs) X G (map cursor its) \<and>
    (\<forall>p \<in> cursor ` set qs. cut e w (L(secs \<mapsto> qs)) is_left (X p) (G p)) \<and> apart_segs w e (map G (map cursor qs)) \<and>
    all_ended e w L (map G (map cursor qs))"
proof -
  obtain secs w' qs X G where M: "section_makelist e linelist is_left w = Some (secs, w')" "sections_only w w'"
    "row w' (L(secs \<mapsto> qs)) secs (map cursor qs) X G (map cursor its)"
    "\<forall>p \<in> cursor ` set qs. cut e w (L(secs \<mapsto> qs)) is_left (X p) (G p)" "apart_segs w e (map G (map cursor qs))"
    "all_ended e w L (map G (map cursor qs))" using makelist_row [OF assms, of is_left] by (elim exE conjE) (rule that)
  show ?thesis by (intro exI conjI) (rule M)+
qed

theorem section_makelist_partitions_witness:
  "\<exists>w h a secs w' q x. section_makelist (ascii_env h False) a True w = Some (secs, w') \<and> scs w' q = Some x \<and> sstate x = STATE_LEFTONLY"
proof -
  obtain w h A L a b p q r where S: "store (ascii_env h False) w L" "L a = Some [p, q]" "line_list w [p, q]" "lk w = (\<lambda>_. NULL)"
    using sample_store [of False] by (elim exE conjE) (rule that)
  let ?e = "ascii_env h False"
  have ga: "ample (lga ?e)" by (simp add: ascii_env_def roomy_ample)
  obtain secs w' qs X G where M: "section_makelist ?e a True w = Some (secs, w')"
    "row w' (L(secs \<mapsto> qs)) secs (map cursor qs) X G (map cursor [p, q])"
    "\<forall>x \<in> cursor ` set qs. cut ?e w (L(secs \<mapsto> qs)) True (X x) (G x)"
    using section_makelist_partitions [OF S(1-3) ga, of True] by (elim exE conjE) (rule that)
  have "concat (map G (map cursor qs)) \<noteq> []" using M(2) by (simp add: row_def)
  then obtain x where x: "x \<in> cursor ` set qs" by (cases qs) auto
  then have "scs w' x = Some (X x)" using row_section(2) [OF M(2), of x] by simp
  moreover have "cut ?e w (L(secs \<mapsto> qs)) True (X x) (G x)" using M(3) x by blast
  then have "sstate (X x) = STATE_LEFTONLY" using S(4) by (simp add: cut_def matched_start_def ign_def ascii_env_def)
  ultimately show ?thesis using M(1) by blast
qed

text \<open>C17: \<open>LinesMatch\<close> returns whether at least three quarters of the different characters of
  two lines are common to both.  Exactly three quarters are enough: the comment in \<open>section.c\<close> says that the
  ratio must exceed 3/4, the code compares with \<open>>=\<close>.\<close>

theorem LinesMatch_ratio:
  assumes "lines_ok e w" "fls w p \<noteq> None" "fls w q \<noteq> None"
  shows "LinesMatch p q w = Some (3 * card (set (line_text w p) \<union> set (line_text w q)) \<le> 4 * card (set (line_text w p) \<inter> set (line_text w q)))"
  using LinesMatch_spec [OF assms] by (simp add: similar_def)

theorem LinesMatch_ratio_witness:
  "\<exists>w p q. line_text w p = [97, 10] \<and> line_text w q = [98, 10] \<and> LinesMatch p q w = Some False \<and> LinesMatch p p w = Some True"
proof -
  obtain w h A p q r where S: "lines_ok (ascii_env h False) w" "within w 1 [] [p, q] []" "line_text w p = [97, 10]" "line_text w q = [98, 10]"
    using sample_files [of False] by (elim exE conjE) (rule that)
  have l: "fls w p \<noteq> None" "fls w q \<noteq> None" using S(2) by (simp_all add: within_def)
  have sets: "set [97, 10] \<union> set [98, 10 :: byte] = {97, 10, 98}" "set [97, 10] \<inter> set [98, 10 :: byte] = {10}"
    "set [97, 10] \<union> set [97, 10 :: byte] = {97, 10}" "set [97, 10] \<inter> set [97, 10 :: byte] = {97, 10}" by auto
  have "LinesMatch p q w = Some False" using LinesMatch_ratio [OF S(1) l] unfolding S(3,4) sets by simp
  moreover have "LinesMatch p p w = Some True" using LinesMatch_ratio [OF S(1) l(1) l(1)] unfolding S(3) sets by simp
  ultimately show ?thesis using S(3,4) by blast
qed

text \<open>C13: \<open>section_matchlists\<close> ends; it links a section of the left list and one of the right
  list to each other exactly if both are matched and their first linked lines are linked to each
  other; it leaves the states of the sections, adds links between lines of the two files only, gives
  back the memory of its trees, and returns TRUE exactly if it linked lines.\<close>

theorem section_matchlists_links:
  assumes "env_ok e" "store e w L" "row w L sl ls X G csl" "row w L sr rs X G csr" "distinct (ls @ rs)"
    and "mem_ok e w A" "\<forall>p \<in> set ls \<union> set rs. slink (X p) = NULL"
  shows "\<exists>w' Y. section_matchlists e sl sr bd w = Some (lk w' \<noteq> lk w, w') \<and> paired e w' L sl sr ls rs Y G csl csr \<and>
    linked_up w X Y G ls rs \<and> (\<forall>x. sstate (Y x) = sstate (X x)) \<and> touching e (set csl) (set csr) w w' \<and> mem_ok e w' A"
proof -
  obtain w' Y where M: "section_matchlists e sl sr bd w = Some (lk w' \<noteq> lk w, w')" "paired e w' L sl sr ls rs Y G csl csr"
    "linked_up w X Y G ls rs" "\<forall>x. sstate (Y x) = sstate (X x)" "touching e (set csl) (set csr) w w'" "mem_ok e w' A"
    using section_matchlists_spec [OF assms, of bd] by (elim exE conjE) (rule that)
  show ?thesis by (intro exI conjI) (rule M)+
qed

lemma sample_rows:
  "\<exists>w h A L sl sr ql qr X G p q r. store (ascii_env h ib) w L \<and> mem_ok (ascii_env h ib) w A \<and> sl \<noteq> sr \<and>
     row w L sl (map cursor ql) X G [p, q] \<and> row w L sr (map cursor qr) X G [r] \<and> distinct (map cursor ql @ map cursor qr) \<and>
     both_cut (ascii_env h ib) w L (map cursor ql) (map cursor qr) X G \<and> lk w = (\<lambda>_. NULL) \<and> distinct [p, q, r] \<and>
     line_text w p = [97, 10] \<and> line_text w q = [98, 10] \<and> line_text w r = [32, 98, 10]"
proof -
  let ?e = "\<lambda>h. ascii_env h ib"
  obtain w h A L a b p q r where S: "store (?e h) w L" "mem_ok (?e h) w A" "L a = Some [p, q]" "L b = Some [r]"
    "line_list w [p, q]" "line_list w [r]" "distinct (map cursor [p, q, r])" "line_text w (cursor p) = [97, 10]"
    "line_text w (cursor q) = [98, 10]" "line_text w (cursor r) = [32, 98, 10]" "lk w = (\<lambda>_. NULL)"
    using sample_store [of ib] by (elim exE conjE) (rule that)
  have ga: "ample (lga (?e h))" by (simp add: ascii_env_def roomy_ample)
  obtain sl sr w2 ql qr X G where M: "sections_only w w2" "store (?e h) w2 (L(sl \<mapsto> ql, sr \<mapsto> qr))" "separated L sl sr ql qr"
    "row w2 (L(sl \<mapsto> ql, sr \<mapsto> qr)) sl (map cursor ql) X G (map cursor [p, q])"
    "row w2 (L(sl \<mapsto> ql, sr \<mapsto> qr)) sr (map cursor qr) X G (map cursor [r])"
    "both_cut (?e h) w (L(sl \<mapsto> ql, sr \<mapsto> qr)) (map cursor ql) (map cursor qr) X G"
    using makelists_rows [OF S(1,3,5,4,6) ga] by (elim exE conjE) (rule that)
  note F = sections_only_facts [OF M(1)]
  have m: "mem_ok (?e h) w2 A" using S(2) by (simp add: mem_ok_def F)
  have t: "line_text w2 = line_text w" by (simp add: fun_eq_iff line_text_def F)
  have b: "both_cut (?e h) w2 (L(sl \<mapsto> ql, sr \<mapsto> qr)) (map cursor ql) (map cursor qr) X G"
    using M(6) by (simp add: both_cut_cong [of w2 w] F t)
  have k: "lk w2 = (\<lambda>_. NULL)" using S(11) F(3) by simp
  have sp: "sl \<noteq> sr" "distinct (map cursor ql @ map cursor qr)" using M(3) by (simp_all add: separated_def)
  have R: "row w2 (L(sl \<mapsto> ql, sr \<mapsto> qr)) sl (map cursor ql) X G [cursor p, cursor q]"
    "row w2 (L(sl \<mapsto> ql, sr \<mapsto> qr)) sr (map cursor qr) X G [cursor r]" using M(4,5) by simp_all
  have d: "distinct [cursor p, cursor q, cursor r]" using S(7) by simp
  show ?thesis by (intro exI conjI) (rule M(2) m sp R b k d S(8-10) [folded t])+
qed

theorem section_matchlists_links_witness:
  "\<exists>w h sl sr b w' Y p. section_matchlists (ascii_env h True) sl sr False w = Some (b, w') \<and> scs w' p = Some Y \<and> slink Y = NULL"
proof -
  let ?e = "\<lambda>h. ascii_env h True"
  obtain w h A L sl sr ql qr X G p q r where S: "store (?e h) w L" "mem_ok (?e h) w A"
    "row w L sl (map cursor ql) X G [p, q]" "row w L sr (map cursor qr) X G [r]" "distinct (map cursor ql @ map cursor qr)"
    "both_cut (?e h) w L (map cursor ql) (map cursor qr) X G" "lk w = (\<lambda>_. NULL)"
    using sample_rows [of True] by (elim exE conjE) (rule that)
  obtain w' Y where M: "section_matchlists (?e h) sl sr False w = Some (lk w' \<noteq> lk w, w')"
    "paired (?e h) w' L sl sr (map cursor ql) (map cursor qr) Y G [p, q] [r]" "linked_up w X Y G (map cursor ql) (map cursor qr)"
    using section_matchlists_links [OF ascii_env_ok S(1,3-5,2) both_cut_facts(1) [OF S(6)], of False] by (elim exE conjE) (rule that)
  have "concat (map G (map cursor ql)) \<noteq> []" using S(3) by (simp add: row_def)
  then obtain x where x: "x \<in> cursor ` set ql" by (cases ql) auto
  then have sc: "scs w' x = Some (Y x)" "ld_sect x w' = Some (Y x)" using paired_sect [OF M(2), of x] by simp_all
  have "slink (Y x) = NULL"
  proof (rule ccontr)
    assume n: "slink (Y x) \<noteq> NULL"
    then obtain y where y: "y \<in> set (map cursor qr)" "meets w X G x y" using M(3) x unfolding linked_up_def by fastforce
    then have "first_linked w (G y) = NULL" using S(7) by (simp add: meets_def)
    moreover have "first_linked w (G y) \<in> set [r]" by (rule row_first_linked(3) [OF S(1,4) y(1)])
    ultimately show False using row_nonnull(2) [OF S(1,4)] by metis
  qed
  then show ?thesis using M(1) sc by blast
qed

text \<open>C10: \<open>section_makecomposite\<close> ends, and the composite list shows every line of the right
  file exactly once and in order, and every line of the left file exactly once and in order but those
  of sections that are matched and not linked (ignorable blank lines); a section of the composite list
  carries the state and the line numbers of what it shows.\<close>

theorem section_makecomposite_shows:
  assumes "ready e w L X G sl sr ls rs"
  shows "\<exists>compo w' qs zs prs ks. section_makecomposite e sl sr w = Some (compo, w') \<and> sections_only w w' \<and>
    store e w' (L(compo \<mapsto> qs)) \<and> sects_at w' qs zs \<and> list_all2 (entry X G (set ls \<union> set rs) w) zs prs \<and>
    subseq ks ls \<and> (\<forall>p \<in> set ls. p \<notin> set ks \<longrightarrow> sstate (X p) \<noteq> STATE_LEFTONLY \<and> slink (X p) = NULL) \<and>
    concat (map fst prs) = concat (map G ks) \<and> concat (map snd prs) = concat (map G rs)"
proof -
  obtain compo w' qs zs prs ks where M: "section_makecomposite e sl sr w = Some (compo, w')" "sections_only w w'"
    "store e w' (L(compo \<mapsto> qs))" "sects_at w' qs zs" "list_all2 (entry X G (set ls \<union> set rs) w) zs prs"
    "hides X ls ks" "concat (map fst prs) = concat (map G ks)" "concat (map snd prs) = concat (map G rs)"
    using section_makecomposite_spec [OF assms] by (elim exE conjE) (rule that)
  then show ?thesis using hides_subseq [OF M(6)] unfolding hidden_def
    by (intro exI [of _ compo] exI [of _ w'] exI [of _ qs] exI [of _ zs] exI [of _ prs] exI [of _ ks]) simp
qed

theorem section_makecomposite_shows_witness:
  "\<exists>w h sl sr compo w' qs zs X G P prs (p :: ptr) q r. section_makecomposite (ascii_env h False) sl sr w = Some (compo, w') \<and>
     sects_at w' qs zs \<and> list_all2 (entry X G P w) zs prs \<and> distinct [p, q, r] \<and>
     concat (map fst prs) = [p, q] \<and> concat (map snd prs) = [r]"
proof -
  let ?e = "\<lambda>h. ascii_env h False"
  obtain w h A L sl sr ql qr X G p q r where S: "store (?e h) w L" "sl \<noteq> sr"
    "row w L sl (map cursor ql) X G [p, q]" "row w L sr (map cursor qr) X G [r]" "distinct (map cursor ql @ map cursor qr)"
    "both_cut (?e h) w L (map cursor ql) (map cursor qr) X G" "lk w = (\<lambda>_. NULL)" "distinct [p, q, r]"
    using sample_rows [of False] by (elim exE conjE) (rule that)
  note B = both_cut_facts [OF S(6)]
  have P: "paired (?e h) w L sl sr (map cursor ql) (map cursor qr) X G [p, q] [r]" using S B(1) by (simp add: paired_def)
  have ga: "ample (lga (?e h))" by (simp add: ascii_env_def roomy_ample)
  have R: "ready (?e h) w L X G sl sr (map cursor ql) (map cursor qr)" by (rule paired_ready [OF P ga S(2) B(2)])
  obtain compo w' qs zs prs ks where M: "section_makecomposite (?e h) sl sr w = Some (compo, w')" "subseq ks (map cursor ql)"
    "\<forall>p \<in> set (map cursor ql). p \<notin> set ks \<longrightarrow> sstate (X p) \<noteq> STATE_LEFTONLY \<and> slink (X p) = NULL"
    "concat (map fst prs) = concat (map G ks)" "concat (map snd prs) = concat (map G (map cursor qr))"
    "sects_at w' qs zs" "list_all2 (entry X G (set (map cursor ql) \<union> set (map cursor qr)) w) zs prs"
    using section_makecomposite_shows [OF R] by (elim exE conjE) (rule that)
  have "sstate (X x) = STATE_LEFTONLY" if "x \<in> set (map cursor ql)" for x
    using S(6,7) that by (auto simp: both_cut_def cut_def matched_start_def ign_def ascii_env_def)
  then have "set (map cursor ql) \<subseteq> set ks" using M(3) by blast
  moreover have "distinct (map cursor ql)" using S(5) by simp
  ultimately have "length (map cursor ql) \<le> length ks" by (metis List.finite_set card_length card_mono distinct_card le_trans)
  then have "ks = map cursor ql" using M(2) by (metis le_antisym list_emb_length subseq_same_length)
  then have "concat (map fst prs) = [p, q]" "concat (map snd prs) = [r]" using M(4,5) S(3,4) by (simp_all add: row_def)
  with M(1) S(8) show ?thesis by (intro exI conjI) (assumption | rule M(1,6,7) S(8))+
qed

end
